(* ===== verification/Gems_Prelude.thy ===== *)
theory Gems_Prelude
  imports Main "HOL-Library.Word" "HOL-Library.List_Lexorder"
begin

text \<open>
  The vocabulary every other theory of the development shares.

  \<^item> \<^emph>\<open>Outcomes.\<close> A Rust function that returns \<open>Result\<close> and may also panic
    (slice index out of range, \<open>unwrap\<close> on \<open>Err\<close>) is a function into \<open>outcome\<close>:
    \<open>Ok\<close>, \<open>Err\<close> and \<open>Panic\<close> are the three ways it can end. \<open>obind\<close> is the
    \<open>?\<close> operator: it stops at the first error or panic.
  \<^item> \<^emph>\<open>Bytes.\<close> \<open>u8\<close> is an 8-bit word, a buffer a list of them. \<open>le_bytes n v\<close> is
    \<open>v.to_le_bytes()\<close> at a width of \<open>n\<close> bytes, \<open>le_val\<close> is \<open>from_le_bytes\<close>; both
    have big-endian twins. Unsigned integers of more than eight bits are natural numbers,
    with the wrap-around written out where the code can reach it.
  \<^item> \<^emph>\<open>Slices.\<close> \<open>slice buf a b\<close> is \<open>&buf[a..b]\<close>, which panics out of range.
  \<^item> \<^emph>\<open>Framed codecs.\<close> The locale \<open>framed_codec\<close> is the contract of every length-prefixed
    record of the cluster code: an encoded value is recognised at the head of any longer
    buffer, and consumes exactly its own bytes.
\<close>

named_theorems byte_simps \<open>equations that evaluate readers over concatenated encodings\<close>

section \<open>Outcomes: values, errors and panics\<close>

datatype ('e, 'a) outcome = Ok 'a | Err 'e | Panic

primrec obind :: "('e, 'a) outcome \<Rightarrow> ('a \<Rightarrow> ('e, 'b) outcome) \<Rightarrow> ('e, 'b) outcome" where
  "obind (Ok a) k = k a"
| "obind (Err e) k = Err e"
| "obind Panic k = Panic"

primrec omap :: "('a \<Rightarrow> 'b) \<Rightarrow> ('e, 'a) outcome \<Rightarrow> ('e, 'b) outcome" where
  "omap f (Ok a) = Ok (f a)"
| "omap f (Err e) = Err e"
| "omap f Panic = Panic"

lemma obind_eq_Ok: "obind m k = Ok b \<longleftrightarrow> (\<exists>a. m = Ok a \<and> k a = Ok b)"
  by (cases m) auto

lemma obind_eq_Err: "obind m k = Err e \<longleftrightarrow> m = Err e \<or> (\<exists>a. m = Ok a \<and> k a = Err e)"
  by (cases m) auto

lemma obind_eq_Panic: "obind m k = Panic \<longleftrightarrow> m = Panic \<or> (\<exists>a. m = Ok a \<and> k a = Panic)"
  by (cases m) auto

lemma omap_eq_Ok [simp]: "omap f m = Ok b \<longleftrightarrow> (\<exists>a. m = Ok a \<and> b = f a)"
  by (cases m) auto

lemma omap_eq_Panic [simp]: "omap f m = Panic \<longleftrightarrow> m = Panic"
  by (cases m) auto

lemma obind_assoc: "obind (obind m k) l = obind m (\<lambda>a. obind (k a) l)"
  by (cases m) auto

lemma obind_cong [fundef_cong]:
  "m = m' \<Longrightarrow> (\<And>a. m' = Ok a \<Longrightarrow> k a = k' a) \<Longrightarrow> obind m k = obind m' k'"
  by (cases m') auto

text \<open>A reader that cannot panic, followed by steps that cannot panic.\<close>

lemma obind_no_panic:
  "m \<noteq> Panic \<Longrightarrow> (\<And>a. m = Ok a \<Longrightarrow> k a \<noteq> Panic) \<Longrightarrow> obind m k \<noteq> Panic"
  by (cases m) auto

text \<open>The workspace-wide error type of \<^verbatim>\<open>gems-common\<close>.\<close>

datatype gems_error =
    Io string
  | CorruptExtent string
  | CorruptPage string
  | OutOfSpace
  | NotFound
  | InvalidValue string
  | AlreadyLocked string

type_synonym 'a result = "(gems_error, 'a) outcome"

section \<open>Machine integers and bytes\<close>

type_synonym u8 = "8 word"
type_synonym u32 = "32 word"
type_synonym bytes = "8 word list"

abbreviation u16_max :: nat where "u16_max \<equiv> 65535"
abbreviation u32_max :: nat where "u32_max \<equiv> 4294967295"
abbreviation u64_max :: nat where "u64_max \<equiv> 18446744073709551615"

definition wrap64 :: "nat \<Rightarrow> nat" where
  "wrap64 n = n mod 18446744073709551616"

lemma wrap64_id [simp]: "n \<le> u64_max \<Longrightarrow> wrap64 n = n"
  by (simp add: wrap64_def)

lemma wrap64_le: "wrap64 n \<le> u64_max"
proof -
  have "n mod 18446744073709551616 < 18446744073709551616" by (rule mod_less_divisor) simp
  then show ?thesis by (simp add: wrap64_def)
qed

primrec le_bytes :: "nat \<Rightarrow> nat \<Rightarrow> bytes" where
  "le_bytes 0 v = []"
| "le_bytes (Suc n) v = of_nat (v mod 256) # le_bytes n (v div 256)"

primrec le_val :: "bytes \<Rightarrow> nat" where
  "le_val [] = 0"
| "le_val (b # bs) = unat b + 256 * le_val bs"

definition be_bytes :: "nat \<Rightarrow> nat \<Rightarrow> bytes" where
  "be_bytes n v = rev (le_bytes n v)"

definition be_val :: "bytes \<Rightarrow> nat" where
  "be_val bs = le_val (rev bs)"

lemma length_le_bytes [simp]: "length (le_bytes n v) = n"
  by (induction n arbitrary: v) auto

lemma length_be_bytes [simp]: "length (be_bytes n v) = n"
  by (simp add: be_bytes_def)

lemma unat_byte [simp]: "unat (of_nat (v mod 256) :: u8) = v mod 256"
  by (simp add: unat_of_nat)

lemma unat_of_nat_u8: "n < 256 \<Longrightarrow> unat (of_nat n :: u8) = n"
  by (simp add: unat_of_nat)

lemma unat_u8_less: "unat (b :: u8) < 256"
  using unsigned_less [where 'a = nat, of b] by simp

lemma le_val_le_bytes_mod: "le_val (le_bytes n v) = v mod 256 ^ n"
proof (induction n arbitrary: v)
  case 0
  then show ?case by simp
next
  case (Suc n)
  have "v mod 256 + 256 * (v div 256 mod 256 ^ n) = v mod (256 * 256 ^ n)"
    by (simp add: mod_mult2_eq)
  with Suc show ?case by simp
qed

lemma le_val_le_bytes [byte_simps]: "v < 256 ^ n \<Longrightarrow> le_val (le_bytes n v) = v"
  by (simp add: le_val_le_bytes_mod)

lemma le_val_less: "le_val bs < 256 ^ length bs"
proof (induction bs)
  case Nil
  then show ?case by simp
next
  case (Cons b bs)
  have "unat b + 256 * le_val bs < 256 + 256 * le_val bs"
    using unat_u8_less [of b] by simp
  also have "\<dots> \<le> 256 * 256 ^ length bs" using Cons by simp
  finally show ?case by simp
qed

lemma le_bytes_le_val [simp]: "length bs = n \<Longrightarrow> le_bytes n (le_val bs) = bs"
proof (induction bs arbitrary: n)
  case Nil
  then show ?case by simp
next
  case (Cons b bs)
  have d: "(unat b + 256 * le_val bs) div 256 = le_val bs"
    and m: "(unat b + 256 * le_val bs) mod 256 = unat b"
    using unat_u8_less [of b] by auto
  have w: "word_of_nat (unat b mod 256) = b"
    using unat_u8_less [of b] by simp
  from Cons show ?case by (auto simp add: d m w)
qed

lemma be_val_be_bytes [byte_simps]: "v < 256 ^ n \<Longrightarrow> be_val (be_bytes n v) = v"
  by (simp add: be_val_def be_bytes_def le_val_le_bytes)

lemma be_bytes_be_val [simp]: "length bs = n \<Longrightarrow> be_bytes n (be_val bs) = bs"
  by (simp add: be_val_def be_bytes_def)

lemma le_bytes_inj:
  "le_bytes n v = le_bytes n w \<Longrightarrow> v < 256 ^ n \<Longrightarrow> w < 256 ^ n \<Longrightarrow> v = w"
  by (metis le_val_le_bytes)

section \<open>Slices\<close>

definition slice :: "bytes \<Rightarrow> nat \<Rightarrow> nat \<Rightarrow> bytes result" where
  "slice buf a b =
     (if a \<le> b \<and> b \<le> length buf then Ok (take (b - a) (drop a buf)) else Panic)"

lemma slice_Ok_length: "slice buf a b = Ok s \<Longrightarrow> length s = b - a"
  by (auto simp: slice_def split: if_splits)

lemma slice_mid [byte_simps]:
  "n = length pre \<Longrightarrow> m = length pre + length mid \<Longrightarrow>
     slice (pre @ mid @ post) n m = Ok mid"
  by (simp add: slice_def)

text \<open>\<open>bs.try_into().unwrap()\<close> to an array of \<open>n\<close> bytes.\<close>

definition to_array :: "nat \<Rightarrow> bytes \<Rightarrow> bytes result" where
  "to_array n bs = (if length bs = n then Ok bs else Panic)"

lemma to_array_Ok [simp]: "length bs = n \<Longrightarrow> to_array n bs = Ok bs"
  by (simp add: to_array_def)

text \<open>\<open>buf[pos..pos + n].try_into().unwrap()\<close>: a fixed-size field.\<close>

definition field_at :: "bytes \<Rightarrow> nat \<Rightarrow> nat \<Rightarrow> bytes result" where
  "field_at buf pos n = obind (slice buf pos (pos + n)) (to_array n)"

lemma field_at_Ok: "pos + n \<le> length buf \<Longrightarrow> field_at buf pos n = Ok (take n (drop pos buf))"
  by (simp add: field_at_def slice_def)

lemma field_at_mid [byte_simps]:
  "p = length pre \<Longrightarrow> n = length mid \<Longrightarrow> field_at (pre @ mid @ post) p n = Ok mid"
  by (simp add: field_at_Ok)

text \<open>\<^verbatim>\<open>i64\<close> as its two's complement.\<close>

definition i64_bits :: "int \<Rightarrow> nat" where
  "i64_bits i = nat (i mod 18446744073709551616)"

definition i64_of_bits :: "nat \<Rightarrow> int" where
  "i64_of_bits v = (if v < 9223372036854775808 then int v else int v - 18446744073709551616)"

definition i64_range :: "int \<Rightarrow> bool" where
  "i64_range i = (- 9223372036854775808 \<le> i \<and> i < 9223372036854775808)"

lemma i64_of_bits_bits [simp]: "i64_range i \<Longrightarrow> i64_of_bits (i64_bits i) = i"
proof (cases "0 \<le> i")
  case True
  assume "i64_range i"
  with True show ?thesis by (simp add: i64_range_def i64_bits_def i64_of_bits_def)
next
  case False
  assume r: "i64_range i"
  have "i mod 18446744073709551616 = i + 18446744073709551616"
  proof -
    have "(i + 18446744073709551616) mod 18446744073709551616 = i + 18446744073709551616"
      by (rule mod_pos_pos_trivial) (use r False in \<open>auto simp: i64_range_def\<close>)
    then show ?thesis by simp
  qed
  with False r show ?thesis by (simp add: i64_range_def i64_bits_def i64_of_bits_def)
qed

lemma i64_bits_less: "i64_bits i < 256 ^ 8"
  by (simp add: i64_bits_def nat_less_iff)

text \<open>\<open>buf.get(i)\<close> and \<open>buf[i]\<close>.\<close>

definition get_opt :: "'a list \<Rightarrow> nat \<Rightarrow> 'a option" where
  "get_opt xs i = (if i < length xs then Some (xs ! i) else None)"

definition index_at :: "'a list \<Rightarrow> nat \<Rightarrow> ('e, 'a) outcome" where
  "index_at xs i = (if i < length xs then Ok (xs ! i) else Panic)"

lemma index_at_Ok [simp]: "i < length xs \<Longrightarrow> index_at xs i = Ok (xs ! i)"
  by (simp add: index_at_def)

lemma nth_append_exact [byte_simps]: "n = length pre \<Longrightarrow> (pre @ b # post) ! n = b"
  by simp

text \<open>Reading one component of a concatenation: skip what lies before it.\<close>

lemma field_at_skip [byte_simps]:
  "length a \<le> p \<Longrightarrow> field_at (a @ b) p n = field_at b (p - length a) n"
  by (auto simp: field_at_def slice_def Let_def)

lemma field_at_here [byte_simps]: "length a = n \<Longrightarrow> field_at (a @ b) 0 n = Ok a"
  by (simp add: field_at_def slice_def)

lemma index_at_skip [byte_simps]:
  "length a \<le> p \<Longrightarrow> index_at (a @ b) p = index_at b (p - length a)"
  by (auto simp: index_at_def nth_append)

lemma slice_skip [byte_simps]:
  "length a \<le> p \<Longrightarrow> p \<le> q \<Longrightarrow> slice (a @ b) p q = slice b (p - length a) (q - length a)"
  by (auto simp: slice_def)

lemma slice_head: "q \<le> length a \<Longrightarrow> slice (a @ b) 0 q = slice a 0 q"
  by (simp add: slice_def)

lemma slice_all: "q = length a \<Longrightarrow> slice (a @ b) 0 q = Ok a"
  by (simp add: slice_def)

text \<open>\<open>xs.chunks(n)\<close>: pieces of \<open>n\<close> elements, the last one possibly shorter.\<close>

function chunks :: "nat \<Rightarrow> 'a list \<Rightarrow> 'a list list" where
  "chunks n xs = (if n = 0 \<or> xs = [] then [] else take n xs # chunks n (drop n xs))"
  by pat_completeness auto
termination
  by (relation "measure (\<lambda>(n, xs). length xs)") auto

declare chunks.simps [simp del]

lemma chunks_Nil [simp]: "chunks n [] = []"
  by (simp add: chunks.simps)

lemma chunks_short: "0 < n \<Longrightarrow> xs \<noteq> [] \<Longrightarrow> length xs \<le> n \<Longrightarrow> chunks n xs = [xs]"
  by (simp add: chunks.simps [of n xs])

lemma chunks_append: "0 < n \<Longrightarrow> length xs = n \<Longrightarrow> chunks n (xs @ ys) = xs # chunks n ys"
  by (subst chunks.simps) auto

section \<open>Framed codecs\<close>

locale framed_codec =
  fixes enc :: "'a \<Rightarrow> bytes"
    and dec :: "bytes \<Rightarrow> (gems_error, ('a \<times> nat) option) outcome"
    and wf :: "'a \<Rightarrow> bool"
  assumes dec_enc: "wf x \<Longrightarrow> dec (enc x @ rest) = Ok (Some (x, length (enc x)))"
    and dec_prefix: "wf x \<Longrightarrow> n < length (enc x) \<Longrightarrow> dec (take n (enc x)) = Ok None"
    and dec_progress: "dec buf = Ok (Some (x, n)) \<Longrightarrow> 0 < n \<and> n \<le> length buf"
begin

lemma enc_nonempty: "wf x \<Longrightarrow> enc x \<noteq> []"
  using dec_enc [of x "[]"] dec_progress by fastforce

lemma dec_nil: "wf x \<Longrightarrow> dec [] = Ok None"
  using dec_prefix [of x 0] enc_nonempty by simp

lemma enc_inj: "wf x \<Longrightarrow> wf y \<Longrightarrow> enc x = enc y \<Longrightarrow> x = y"
  using dec_enc [of x "[]"] dec_enc [of y "[]"] by simp

text \<open>No encoding is a proper prefix of another: a stream splits in one way only.\<close>

lemma enc_prefix_free: "wf x \<Longrightarrow> wf y \<Longrightarrow> enc x @ r = enc y @ s \<Longrightarrow> x = y \<and> r = s"
  using dec_enc [of x r] dec_enc [of y s] by simp

end

end
