(* ===== verification/Gems_Base64.thy ===== *)
theory Gems_Base64
  imports Gems_Prelude
begin

unbundle bit_operations_syntax

text \<open>
  \<^verbatim>\<open>gems-common/src/base64url.rs\<close>: unpadded base64url, by three-byte chunks out and
  four-character chunks in, with the code's 32-bit shifts and masks. The lemmas show that
  decoding an encoding gives the input back and that neither direction panics.
\<close>

definition ALPHABET :: bytes where
  "ALPHABET = map (\<lambda>c. of_nat c)
     ([65..<91] @ [97..<123] @ [48..<58] @ [45, 95])"

definition b64_char :: "u32 \<Rightarrow> u8" where
  "b64_char v = ALPHABET ! unat (v AND 0x3f)"

definition encode_chunk :: "bytes \<Rightarrow> bytes" where
  "encode_chunk chunk =
     (let b0 = chunk ! 0;
          b1 = (case get_opt chunk 1 of Some b \<Rightarrow> b | None \<Rightarrow> 0);
          b2 = (case get_opt chunk 2 of Some b \<Rightarrow> b | None \<Rightarrow> 0);
          n = push_bit 16 (ucast b0) OR push_bit 8 (ucast b1) OR (ucast b2 :: u32)
      in [b64_char (drop_bit 18 n), b64_char (drop_bit 12 n)]
         @ (if 1 < length chunk then [b64_char (drop_bit 6 n)] else [])
         @ (if 2 < length chunk then [b64_char n] else []))"

definition b64_encode :: "bytes \<Rightarrow> bytes" where
  "b64_encode input = concat (map encode_chunk (chunks 3 input))"

definition b64_value :: "u8 \<Rightarrow> (string, u32) outcome" where
  "b64_value c = (let n = unat c in
     if 65 \<le> n \<and> n \<le> 90 then Ok (ucast (c - 65))
     else if 97 \<le> n \<and> n \<le> 122 then Ok (ucast (c - 97 + 26))
     else if 48 \<le> n \<and> n \<le> 57 then Ok (ucast (c - 48 + 52))
     else if n = 45 then Ok 62
     else if n = 95 then Ok 63
     else Err ''invalid base64url character'')"

definition decode_chunk :: "bytes \<Rightarrow> (string, bytes) outcome" where
  "decode_chunk chunk =
     (if length chunk = 1 then Err ''invalid base64url length'' else
      obind (obind (index_at chunk 0) b64_value) (\<lambda>v0.
      obind (obind (index_at chunk 1) b64_value) (\<lambda>v1.
      let n = push_bit 18 v0 OR push_bit 12 v1;
          out0 = ucast (drop_bit 16 n) in
      if \<not> 2 < length chunk then Ok [out0] else
      obind (obind (index_at chunk 2) b64_value) (\<lambda>v2.
      let n = n OR push_bit 6 v2;
          out1 = ucast (drop_bit 8 n) in
      if \<not> 3 < length chunk then Ok [out0, out1] else
      obind (obind (index_at chunk 3) b64_value) (\<lambda>v3.
      let n = n OR v3 in Ok [out0, out1, ucast n])))))"

primrec decode_chunks :: "bytes list \<Rightarrow> (string, bytes) outcome" where
  "decode_chunks [] = Ok []"
| "decode_chunks (c # cs) =
     obind (decode_chunk c) (\<lambda>bs. omap (\<lambda>rest. bs @ rest) (decode_chunks cs))"

definition b64_decode :: "bytes \<Rightarrow> (string, bytes) outcome" where
  "b64_decode input =
     (if 61 \<in> set input then Err ''base64url input must not be padded''
      else decode_chunks (chunks 4 input))"

section \<open>The alphabet\<close>

lemma length_ALPHABET [simp]: "length ALPHABET = 64"
  by (simp add: ALPHABET_def)

lemma alphabet_values:
  "list_all (\<lambda>k. b64_value (ALPHABET ! k) = Ok (of_nat k) \<and> ALPHABET ! k \<noteq> 61) [0..<64]"
  by code_simp

lemma and_3f: "(v :: u32) AND 0x3f = take_bit 6 v"
  by (simp add: take_bit_eq_mask mask_numeral)

lemma unat_sextet: "unat ((v :: u32) AND 0x3f) < 64"
  unfolding and_3f using take_bit_nat_less_exp [of 6 "unat v"]
  by (simp add: unsigned_take_bit_eq)

lemma b64_value_char [simp]: "b64_value (b64_char v) = Ok (v AND 0x3f)"
  using alphabet_values unat_sextet [of v] by (simp add: b64_char_def list_all_iff)

lemma b64_char_not_pad [simp]: "b64_char v \<noteq> 61"
  using alphabet_values unat_sextet [of v] by (simp add: b64_char_def list_all_iff)

section \<open>One chunk\<close>

lemma bit_u8_high: "8 \<le> n \<Longrightarrow> \<not> bit (x :: u8) n"
  using bit_imp_le_length [of x n] by auto

lemma byte_eqI:
  fixes a b :: u8
  assumes "bit a 0 = bit b 0" "bit a 1 = bit b 1" "bit a 2 = bit b 2" "bit a 3 = bit b 3"
    "bit a 4 = bit b 4" "bit a 5 = bit b 5" "bit a 6 = bit b 6" "bit a 7 = bit b 7"
  shows "a = b"
proof (rule bit_word_eqI)
  fix n assume "n < LENGTH(8)"
  then have "n = 0 \<or> n = 1 \<or> n = 2 \<or> n = 3 \<or> n = 4 \<or> n = 5 \<or> n = 6 \<or> n = 7"
    by simp linarith
  with assms show "bit a n = bit b n" by (elim disjE) simp_all
qed

lemma decode_encode_3: "decode_chunk (encode_chunk [a, b, c]) = Ok [a, b, c]"
proof -
  define n where "n = push_bit 16 (ucast a) OR push_bit 8 (ucast b) OR (ucast c :: u32)"
  have "encode_chunk [a, b, c] = map b64_char [drop_bit 18 n, drop_bit 12 n, drop_bit 6 n, n]"
    by (simp add: encode_chunk_def get_opt_def Let_def n_def numeral_2_eq_2)
  then show ?thesis
    by (simp add: decode_chunk_def Let_def and_3f)
       (intro conjI byte_eqI; simp add: n_def bit_simps bit_u8_high)
qed

lemma decode_encode_2: "decode_chunk (encode_chunk [a, b]) = Ok [a, b]"
proof -
  define n where "n = push_bit 16 (ucast a) OR push_bit 8 (ucast b) OR (0 :: u32)"
  have "encode_chunk [a, b] = map b64_char [drop_bit 18 n, drop_bit 12 n, drop_bit 6 n]"
    by (simp add: encode_chunk_def get_opt_def Let_def n_def)
  then show ?thesis
    by (simp add: decode_chunk_def Let_def and_3f)
       (intro conjI byte_eqI; simp add: n_def bit_simps bit_u8_high)
qed

lemma decode_encode_1: "decode_chunk (encode_chunk [a]) = Ok [a]"
proof -
  define n where "n = push_bit 16 (ucast a) OR (0 :: u32)"
  have "encode_chunk [a] = map b64_char [drop_bit 18 n, drop_bit 12 n]"
    by (simp add: encode_chunk_def get_opt_def Let_def n_def)
  then show ?thesis
    by (simp add: decode_chunk_def Let_def and_3f)
       (intro conjI byte_eqI; simp add: n_def bit_simps bit_u8_high)
qed

lemma short_chunk_cases:
  assumes "c \<noteq> []" and "length c \<le> 3"
  obtains (one) x where "c = [x]" | (two) x y where "c = [x, y]" | (three) x y z where "c = [x, y, z]"
  using assms
  by (cases c rule: remdups_adj.cases) (auto simp: le_Suc_eq length_Suc_conv)

lemma length_encode_chunk:
  "c \<noteq> [] \<Longrightarrow> length c \<le> 3 \<Longrightarrow> length (encode_chunk c) = Suc (length c)"
  by (elim short_chunk_cases) (simp_all add: encode_chunk_def Let_def)

lemma encode_chunk_nonempty [simp]: "encode_chunk c \<noteq> []"
  by (simp add: encode_chunk_def Let_def)

lemma decode_encode_chunk:
  "c \<noteq> [] \<Longrightarrow> length c \<le> 3 \<Longrightarrow> decode_chunk (encode_chunk c) = Ok c"
  by (elim short_chunk_cases) (simp_all only: decode_encode_1 decode_encode_2 decode_encode_3)

section \<open>Whole inputs\<close>

lemma chunks_encode:
  "chunks 4 (concat (map encode_chunk (chunks 3 bs))) = map encode_chunk (chunks 3 bs)"
proof (induction "3 :: nat" bs rule: chunks.induct)
  case (1 xs)
  show ?case
  proof (cases "length xs \<le> 3")
    case True
    then show ?thesis
      by (cases "xs = []")
         (auto simp: chunks_short length_encode_chunk intro!: chunks_short)
  next
    case False
    then have ne: "\<not> (3 = (0 :: nat) \<or> xs = [])" by auto
    have "length (encode_chunk (take 3 xs)) = 4"
      using False length_encode_chunk [of "take 3 xs"] by (cases xs) auto
    with "1" [OF ne] ne show ?thesis
      by (simp add: chunks.simps [of 3 xs] chunks_append)
  qed
qed

lemma chunks_sizes: "c \<in> set (chunks 3 bs) \<Longrightarrow> c \<noteq> [] \<and> length c \<le> 3"
  by (induction "3 :: nat" bs rule: chunks.induct) (subst (asm) (2) chunks.simps, auto split: if_splits)

lemma concat_chunks: "0 < n \<Longrightarrow> concat (chunks n bs) = bs"
  by (induction n bs rule: chunks.induct) (simp add: chunks.simps)

lemma decode_chunks_map:
  "(\<And>c. c \<in> set cs \<Longrightarrow> decode_chunk (encode_chunk c) = Ok c) \<Longrightarrow>
     decode_chunks (map encode_chunk cs) = Ok (concat cs)"
  by (induction cs) auto

lemma b64_encode_no_pad: "61 \<notin> set (b64_encode bs)"
proof -
  have "61 \<notin> set (encode_chunk c)" for c
    by (auto simp: encode_chunk_def Let_def)
  then show ?thesis by (auto simp: b64_encode_def)
qed

lemma b64_decode_encode: "b64_decode (b64_encode bs) = Ok bs"
proof -
  have "decode_chunks (chunks 4 (b64_encode bs)) = Ok (concat (chunks 3 bs))"
    unfolding b64_encode_def chunks_encode
    by (rule decode_chunks_map) (metis chunks_sizes decode_encode_chunk)
  then show ?thesis
    by (simp add: b64_decode_def b64_encode_no_pad concat_chunks)
qed

end
