(* ===== verification/Gems_Text.thy ===== *)
theory Gems_Text
  imports Gems_Prelude
begin

text \<open>
  Rust strings as the code uses them: a \<^verbatim>\<open>&str\<close> is its UTF-8 byte list.
  \<open>utf8_step\<close> classifies the head of a byte list the way the standard library's chunk
  iterator does (a character and its length, or the length of a maximal ill-formed prefix);
  \<open>utf8_valid\<close> and \<open>from_utf8_lossy\<close> iterate it, and \<open>is_char_boundary\<close>,
  \<open>str_slice\<close> and \<open>u8_from_str_radix16\<close> are the operations the id parser needs.
  \<open>truncate_utf8\<close> is the truncation of \<^verbatim>\<open>gems-catalog/src/header.rs\<close>.
\<close>

section \<open>UTF-8 characters\<close>

definition is_cont :: "u8 \<Rightarrow> bool" where
  "is_cont b = (128 \<le> unat b \<and> unat b < 192)"

definition utf8_width :: "u8 \<Rightarrow> nat" where
  "utf8_width b = (let n = unat b in
     if n < 0x80 then 1
     else if 0xC2 \<le> n \<and> n \<le> 0xDF then 2
     else if 0xE0 \<le> n \<and> n \<le> 0xEF then 3
     else if 0xF0 \<le> n \<and> n \<le> 0xF4 then 4
     else 0)"

definition second_ok :: "u8 \<Rightarrow> u8 \<Rightarrow> bool" where
  "second_ok b c = (let n = unat b; m = unat c in
     is_cont c \<and>
     (n = 0xE0 \<longrightarrow> 0xA0 \<le> m) \<and> (n = 0xED \<longrightarrow> m \<le> 0x9F) \<and>
     (n = 0xF0 \<longrightarrow> 0x90 \<le> m) \<and> (n = 0xF4 \<longrightarrow> m \<le> 0x8F))"

definition byte_or_zero :: "bytes \<Rightarrow> nat \<Rightarrow> u8" where
  "byte_or_zero bs i = (if i < length bs then bs ! i else 0)"

definition utf8_step :: "bytes \<Rightarrow> bool \<times> nat" where
  "utf8_step bs =
     (let b = byte_or_zero bs 0; w = utf8_width b in
      if w = 1 then (True, 1)
      else if w = 0 then (False, 1)
      else if w = 2 then (if is_cont (byte_or_zero bs 1) then (True, 2) else (False, 1))
      else if \<not> second_ok b (byte_or_zero bs 1) then (False, 1)
      else if \<not> is_cont (byte_or_zero bs 2) then (False, 2)
      else if w = 3 then (True, 3)
      else if is_cont (byte_or_zero bs 3) then (True, 4) else (False, 3))"

lemma not_is_cont_0 [simp]: "\<not> is_cont 0"
  by (simp add: is_cont_def)

lemma is_cont_in_range: "is_cont (byte_or_zero bs i) \<Longrightarrow> i < length bs"
  by (auto simp: byte_or_zero_def split: if_splits)

lemma second_ok_cont: "second_ok b c \<Longrightarrow> is_cont c"
  by (simp add: second_ok_def Let_def)

lemma utf8_step_pos: "utf8_step bs = (v, n) \<Longrightarrow> 0 < n"
  by (auto simp: utf8_step_def Let_def split: if_splits)

lemma utf8_step_le: "bs \<noteq> [] \<Longrightarrow> utf8_step bs = (v, n) \<Longrightarrow> n \<le> length bs"
  by (cases bs)
     (auto simp: utf8_step_def Let_def Suc_le_eq split: if_splits
           dest!: is_cont_in_range second_ok_cont)

text \<open>After its first byte a character holds continuation bytes only.\<close>

lemma utf8_step_bytes:
  "utf8_step bs = (True, n) \<Longrightarrow>
     n \<le> 4 \<and> (1 < n \<longrightarrow> is_cont (byte_or_zero bs 1)) \<and>
     (2 < n \<longrightarrow> is_cont (byte_or_zero bs 2)) \<and> (3 < n \<longrightarrow> is_cont (byte_or_zero bs 3))"
  by (simp add: utf8_step_def Let_def split: if_splits) (auto dest: second_ok_cont)

lemma utf8_step_conts:
  assumes s: "utf8_step bs = (True, n)" and i: "0 < i" "i < n"
  shows "is_cont (bs ! i)"
proof -
  note b = utf8_step_bytes [OF s]
  from b i have "i < 4" by linarith
  with i(1) consider "i = 1" | "i = 2" | "i = 3" by linarith
  then have "is_cont (byte_or_zero bs i)"
  proof cases
    case 1
    with b i(2) show ?thesis by blast
  next
    case 2
    with b i(2) show ?thesis by blast
  next
    case 3
    with b i(2) show ?thesis by blast
  qed
  with is_cont_in_range [OF this] show ?thesis by (simp add: byte_or_zero_def)
qed

text \<open>A complete character is recognised whatever follows it.\<close>

lemma utf8_step_take:
  assumes "utf8_step bs = (True, n)" and "n \<le> m" and "bs \<noteq> []"
  shows "utf8_step (take m bs) = (True, n)"
proof -
  have "byte_or_zero (take m bs) i = byte_or_zero bs i" if "i < n" for i
    using that assms(2) by (auto simp: byte_or_zero_def)
  then show ?thesis
    using assms(1) by (auto simp: utf8_step_def Let_def split: if_splits)
qed

section \<open>Valid strings and lossy conversion\<close>

function utf8_valid :: "bytes \<Rightarrow> bool" where
  "utf8_valid bs =
     (if bs = [] then True
      else case utf8_step bs of (v, n) \<Rightarrow> v \<and> utf8_valid (drop n bs))"
  by pat_completeness auto
termination
  by (relation "measure length") (auto dest!: utf8_step_pos [OF sym])

declare utf8_valid.simps [simp del]

lemma utf8_valid_Nil [simp]: "utf8_valid []"
  by (simp add: utf8_valid.simps)

text \<open>\<^verbatim>\<open>String::from_utf8_lossy\<close>: each maximal ill-formed prefix becomes U+FFFD.\<close>

function from_utf8_lossy :: "bytes \<Rightarrow> bytes" where
  "from_utf8_lossy bs =
     (if bs = [] then []
      else case utf8_step bs of (v, n) \<Rightarrow>
        (if v then take n bs else [0xEF, 0xBF, 0xBD]) @ from_utf8_lossy (drop n bs))"
  by pat_completeness auto
termination
  by (relation "measure length") (auto dest!: utf8_step_pos [OF sym])

declare from_utf8_lossy.simps [simp del]

lemma from_utf8_lossy_valid [simp]: "utf8_valid bs \<Longrightarrow> from_utf8_lossy bs = bs"
proof (induction bs rule: utf8_valid.induct)
  case (1 bs)
  show ?case
  proof (cases "bs = []")
    case True
    then show ?thesis by (simp add: from_utf8_lossy.simps)
  next
    case False
    obtain v n where s: "utf8_step bs = (v, n)" by fastforce
    with "1.prems" False have "v" "utf8_valid (drop n bs)"
      by (simp_all add: utf8_valid.simps [of bs])
    with "1.IH" [OF False s [symmetric]] s False show ?thesis
      by (simp add: from_utf8_lossy.simps [of bs])
  qed
qed

section \<open>Boundaries and truncation\<close>

definition is_char_boundary :: "bytes \<Rightarrow> nat \<Rightarrow> bool" where
  "is_char_boundary s i =
     (i = 0 \<or> i = length s \<or> (i < length s \<and> \<not> is_cont (s ! i)))"

text \<open>\<open>&s[a..b]\<close> on a \<^verbatim>\<open>&str\<close> panics off a character boundary.\<close>

definition str_slice :: "bytes \<Rightarrow> nat \<Rightarrow> nat \<Rightarrow> ('e, bytes) outcome" where
  "str_slice s a b =
     (if a \<le> b \<and> is_char_boundary s a \<and> is_char_boundary s b
      then Ok (take (b - a) (drop a s)) else Panic)"

lemma utf8_valid_take:
  "utf8_valid s \<Longrightarrow> is_char_boundary s i \<Longrightarrow> utf8_valid (take i s)"
proof (induction s arbitrary: i rule: utf8_valid.induct)
  case (1 s)
  show ?case
  proof (cases "s = [] \<or> i = 0 \<or> i = length s")
    case True
    then show ?thesis using "1.prems" by auto
  next
    case False
    then have ne: "s \<noteq> []" and i: "0 < i" "i < length s" "\<not> is_cont (s ! i)"
      using "1.prems"(2) by (auto simp: is_char_boundary_def)
    obtain v n where s: "utf8_step s = (v, n)" by fastforce
    with "1.prems"(1) ne have v: "v" and rest: "utf8_valid (drop n s)"
      by (simp_all add: utf8_valid.simps [of s])
    have n: "n \<le> i" using utf8_step_conts s v i by (metis (full_types) not_le)
    have step: "utf8_step (take i s) = (True, n)"
      using utf8_step_take [OF _ n ne] s v by simp
    have "is_char_boundary (drop n s) (i - n)"
      using i n by (auto simp: is_char_boundary_def)
    then have "utf8_valid (take (i - n) (drop n s))"
      using "1.IH" [OF ne s [symmetric] rest] by simp
    then show ?thesis
      using step ne i by (simp add: utf8_valid.simps [of "take i s"] drop_take)
  qed
qed

text \<open>The loop of \<^verbatim>\<open>truncate_utf8\<close>: step back to a boundary.\<close>

primrec back_to_boundary :: "bytes \<Rightarrow> nat \<Rightarrow> nat" where
  "back_to_boundary s 0 = 0"
| "back_to_boundary s (Suc e) =
     (if \<not> is_char_boundary s (Suc e) then back_to_boundary s e else Suc e)"

definition truncate_utf8 :: "bytes \<Rightarrow> nat \<Rightarrow> bytes" where
  "truncate_utf8 s max_bytes =
     (if length s \<le> max_bytes then s else take (back_to_boundary s max_bytes) s)"

lemma back_to_boundary_le: "back_to_boundary s e \<le> e"
  by (induction e) auto

lemma back_to_boundary_boundary: "is_char_boundary s (back_to_boundary s e)"
  by (induction e) (auto simp: is_char_boundary_def)

lemma back_to_boundary_max: "back_to_boundary s e < i \<Longrightarrow> i \<le> e \<Longrightarrow> \<not> is_char_boundary s i"
  by (induction e) (auto split: if_splits simp: le_Suc_eq)

lemma length_truncate_utf8: "length (truncate_utf8 s n) \<le> n"
  using back_to_boundary_le [of s n] by (simp add: truncate_utf8_def)

lemma utf8_valid_truncate: "utf8_valid s \<Longrightarrow> utf8_valid (truncate_utf8 s n)"
  by (simp add: truncate_utf8_def utf8_valid_take back_to_boundary_boundary)

lemma truncate_utf8_id [simp]: "length s \<le> n \<Longrightarrow> truncate_utf8 s n = s"
  by (simp add: truncate_utf8_def)

section \<open>Hexadecimal digits\<close>

definition hex_value :: "u8 \<Rightarrow> nat option" where
  "hex_value c = (let n = unat c in
     if 48 \<le> n \<and> n \<le> 57 then Some (n - 48)
     else if 97 \<le> n \<and> n \<le> 102 then Some (n - 87)
     else if 65 \<le> n \<and> n \<le> 70 then Some (n - 55)
     else None)"

text \<open>
  \<^verbatim>\<open>u8::from_str_radix(s, 16).ok()\<close>: an optional leading plus sign, then digits,
  with checked multiplication and addition. A lone sign is an error.
\<close>

primrec radix16_digits :: "bytes \<Rightarrow> nat \<Rightarrow> nat option" where
  "radix16_digits [] acc = Some acc"
| "radix16_digits (c # cs) acc =
     (case hex_value c of None \<Rightarrow> None
      | Some d \<Rightarrow> if 16 * acc + d \<le> 255 then radix16_digits cs (16 * acc + d) else None)"

definition u8_from_str_radix16 :: "bytes \<Rightarrow> u8 option" where
  "u8_from_str_radix16 s =
     (case s of [] \<Rightarrow> None
      | c # cs \<Rightarrow>
          if unat c = 43 then (if cs = [] then None else map_option of_nat (radix16_digits cs 0))
          else map_option of_nat (radix16_digits (c # cs) 0))"

definition hex_char :: "nat \<Rightarrow> u8" where
  "hex_char d = (if d < 10 then of_nat (48 + d) else of_nat (87 + d))"

text \<open>\<^verbatim>\<open>format!("{b:02x}")\<close>\<close>

definition hex2 :: "u8 \<Rightarrow> bytes" where
  "hex2 b = [hex_char (unat b div 16), hex_char (unat b mod 16)]"

lemma unat_hex_char: "d < 16 \<Longrightarrow> unat (hex_char d) = (if d < 10 then 48 + d else 87 + d)"
  by (simp add: hex_char_def unat_of_nat_u8 del: of_nat_add)

lemma hex_value_hex_char: "d < 16 \<Longrightarrow> hex_value (hex_char d) = Some d"
  by (simp add: hex_value_def unat_hex_char)

lemma hex_char_ascii: "d < 16 \<Longrightarrow> unat (hex_char d) < 128 \<and> unat (hex_char d) \<noteq> 43"
  by (simp add: unat_hex_char)

lemma u8_from_hex2 [simp]: "u8_from_str_radix16 (hex2 b) = Some b"
proof -
  have h: "unat b div 16 < 16" "unat b mod 16 < 16" using unat_u8_less [of b] by auto
  have "16 * (unat b div 16) + unat b mod 16 = unat b" by simp
  then show ?thesis
    using h unat_u8_less [of b] hex_char_ascii [OF h(1)]
    by (simp add: u8_from_str_radix16_def hex2_def hex_value_hex_char)
qed

end
