(* ===== verification/Gems_Tuid.thy ===== *)
theory Gems_Tuid
  imports Gems_Text
begin

text \<open>
  \<^verbatim>\<open>gems-common/src/tuid.rs\<close>: a timestamped id is 24 bytes, a random UUID of 16
  and a big-endian creation time of 8, compared lexicographically. The array length of the
  Rust type is the invariant \<open>wf_tuid\<close>. The theory holds the accessors, the hexadecimal
  form and its parser, and what the derived order means for the two halves.
\<close>

definition TUID_LEN :: nat where
  "TUID_LEN = 24"

datatype tuid = Tuid (as_bytes: bytes)

definition wf_tuid :: "tuid \<Rightarrow> bool" where
  "wf_tuid t = (length (as_bytes t) = TUID_LEN)"

instantiation tuid :: linorder
begin

definition less_eq_tuid :: "tuid \<Rightarrow> tuid \<Rightarrow> bool" where
  "less_eq_tuid a b = (as_bytes a \<le> as_bytes b)"

definition less_tuid :: "tuid \<Rightarrow> tuid \<Rightarrow> bool" where
  "less_tuid a b = (as_bytes a < as_bytes b)"

instance
  by intro_classes (auto simp: less_eq_tuid_def less_tuid_def tuid.expand)

end

definition tuid_new :: "bytes \<Rightarrow> nat \<Rightarrow> tuid" where
  "tuid_new uuid_bytes created_at_ns = Tuid (uuid_bytes @ be_bytes 8 created_at_ns)"

definition uuid :: "tuid \<Rightarrow> bytes" where
  "uuid t = take 16 (as_bytes t)"

definition created_at_ns :: "tuid \<Rightarrow> nat" where
  "created_at_ns t = be_val (drop 16 (as_bytes t))"

definition NIL :: tuid where
  "NIL = Tuid (replicate TUID_LEN 0)"

lemma wf_tuid_new [simp]: "length u = 16 \<Longrightarrow> wf_tuid (tuid_new u c)"
  by (simp add: wf_tuid_def tuid_new_def TUID_LEN_def)

lemma wf_NIL [simp]: "wf_tuid NIL"
  by (simp add: wf_tuid_def NIL_def)

lemma uuid_new [simp]: "length u = 16 \<Longrightarrow> uuid (tuid_new u c) = u"
  by (simp add: uuid_def tuid_new_def)

lemma created_at_new [simp]: "length u = 16 \<Longrightarrow> c \<le> u64_max \<Longrightarrow> created_at_ns (tuid_new u c) = c"
  by (simp add: created_at_ns_def tuid_new_def be_val_be_bytes)

lemma tuid_new_uuid_created: "wf_tuid t \<Longrightarrow> tuid_new (uuid t) (created_at_ns t) = t"
  by (cases t) (simp add: tuid_new_def uuid_def created_at_ns_def wf_tuid_def TUID_LEN_def)

lemma length_uuid [simp]: "wf_tuid t \<Longrightarrow> length (uuid t) = 16"
  by (simp add: uuid_def wf_tuid_def TUID_LEN_def)

lemma created_at_le: "wf_tuid t \<Longrightarrow> created_at_ns t \<le> u64_max"
  using le_val_less [of "rev (drop 16 (as_bytes t))"]
  by (simp add: created_at_ns_def be_val_def wf_tuid_def TUID_LEN_def)

text \<open>Big-endian bytes compare as the numbers they encode.\<close>

lemma list_less_append_same_length:
  "length xs = length ys \<Longrightarrow>
     xs @ us < ys @ vs \<longleftrightarrow> xs < ys \<or> xs = ys \<and> us < (vs :: 'a::linorder list)"
  by (induction xs ys rule: list_induct2) (auto simp: less_list_code)

lemma be_val_snoc: "be_val (bs @ [b]) = be_val bs * 256 + unat b"
  by (simp add: be_val_def)

lemma be_val_less_iff: "length xs = length ys \<Longrightarrow> xs < ys \<longleftrightarrow> be_val xs < be_val ys"
proof (induction xs arbitrary: ys rule: rev_induct)
  case Nil
  then show ?case by simp
next
  case (snoc x xs)
  then obtain zs z where ys: "ys = zs @ [z]" and len: "length xs = length zs"
    by (cases ys rule: rev_cases) auto
  have eq: "xs = zs \<longleftrightarrow> be_val xs = be_val zs"
    using len by (metis be_bytes_be_val)
  have "xs @ [x] < zs @ [z] \<longleftrightarrow> xs < zs \<or> xs = zs \<and> x < z"
    using len by (simp add: list_less_append_same_length less_list_code)
  also have "\<dots> \<longleftrightarrow> be_val xs < be_val zs \<or> be_val xs = be_val zs \<and> unat x < unat z"
    using snoc.IH [OF len] eq by (simp add: word_less_nat_alt)
  also have "\<dots> \<longleftrightarrow> be_val xs * 256 + unat x < be_val zs * 256 + unat z"
    using unat_u8_less [of x] unat_u8_less [of z] by auto
  finally show ?case by (simp add: ys be_val_snoc)
qed

lemma tuid_less_iff:
  assumes "wf_tuid a" and "wf_tuid b"
  shows "a < b \<longleftrightarrow>
    uuid a < uuid b \<or> uuid a = uuid b \<and> created_at_ns a < created_at_ns b"
proof -
  have split: "as_bytes t = uuid t @ drop 16 (as_bytes t)" for t
    by (simp add: uuid_def)
  have "a < b \<longleftrightarrow> uuid a @ drop 16 (as_bytes a) < uuid b @ drop 16 (as_bytes b)"
    by (simp add: less_tuid_def flip: split)
  also have "\<dots> \<longleftrightarrow> uuid a < uuid b \<or>
      uuid a = uuid b \<and> drop 16 (as_bytes a) < drop 16 (as_bytes b)"
    using assms by (simp add: list_less_append_same_length)
  also have "drop 16 (as_bytes a) < drop 16 (as_bytes b) \<longleftrightarrow>
      created_at_ns a < created_at_ns b"
    using assms by (simp add: be_val_less_iff created_at_ns_def wf_tuid_def TUID_LEN_def)
  finally show ?thesis .
qed

section \<open>The hexadecimal form\<close>

definition to_hex_string :: "tuid \<Rightarrow> bytes" where
  "to_hex_string t = concat (map hex2 (as_bytes t))"

primrec hex_pairs :: "nat \<Rightarrow> bytes \<Rightarrow> nat \<Rightarrow> (unit, bytes option) outcome" where
  "hex_pairs 0 s i = Ok (Some [])"
| "hex_pairs (Suc n) s i =
     obind (str_slice s (i * 2) (i * 2 + 2)) (\<lambda>sub.
       case u8_from_str_radix16 sub of
         None \<Rightarrow> Ok None
       | Some b \<Rightarrow> omap (map_option (Cons b)) (hex_pairs n s (Suc i)))"

definition from_hex_str :: "bytes \<Rightarrow> (unit, tuid option) outcome" where
  "from_hex_str s =
     (if length s \<noteq> TUID_LEN * 2 then Ok None
      else omap (map_option Tuid) (hex_pairs TUID_LEN s 0))"

definition ascii_only :: "bytes \<Rightarrow> bool" where
  "ascii_only s = (\<forall>c \<in> set s. unat c < 128)"

lemma ascii_boundary: "ascii_only s \<Longrightarrow> i \<le> length s \<Longrightarrow> is_char_boundary s i"
proof -
  assume "ascii_only s" and i: "i \<le> length s"
  then have "i < length s \<Longrightarrow> unat (s ! i) < 128" by (simp add: ascii_only_def)
  with i show ?thesis by (auto simp: is_char_boundary_def is_cont_def)
qed

lemma length_hex2 [simp]: "length (hex2 b) = 2"
  by (simp add: hex2_def)

lemma ascii_hex2: "ascii_only (hex2 b)"
  using hex_char_ascii [of "unat b div 16"] hex_char_ascii [of "unat b mod 16"] unat_u8_less [of b]
  by (auto simp: ascii_only_def hex2_def)

lemma ascii_concat_hex2: "ascii_only (concat (map hex2 bs))"
  using ascii_hex2 by (auto simp: ascii_only_def)

lemma length_concat_hex2 [simp]: "length (concat (map hex2 bs)) = 2 * length bs"
  by (induction bs) auto

lemma hex_pairs_concat:
  "hex_pairs (length bs) (concat (map hex2 (pre @ bs))) (length pre) = Ok (Some bs)"
proof (induction bs arbitrary: pre)
  case Nil
  then show ?case by simp
next
  case (Cons b bs)
  let ?s = "concat (map hex2 (pre @ b # bs))"
  have s: "?s = concat (map hex2 pre) @ hex2 b @ concat (map hex2 bs)" by simp
  have "(str_slice ?s (length pre * 2) (length pre * 2 + 2) :: (unit, bytes) outcome) = Ok (hex2 b)"
    using ascii_boundary [OF ascii_concat_hex2, of _ "pre @ b # bs"]
    by (simp add: str_slice_def)
  moreover have "hex_pairs (length bs) ?s (Suc (length pre)) = Ok (Some bs)"
    using Cons.IH [of "pre @ [b]"] by simp
  ultimately show ?case by simp
qed

lemma hex_pairs_ascii:
  "ascii_only s \<Longrightarrow> 2 * (i + n) \<le> length s \<Longrightarrow> hex_pairs n s i \<noteq> Panic"
  by (induction n arbitrary: i)
     (auto simp: str_slice_def ascii_boundary split: option.split)

lemma from_hex_to_hex: "wf_tuid t \<Longrightarrow> from_hex_str (to_hex_string t) = Ok (Some t)"
  using hex_pairs_concat [of "as_bytes t" "[]"]
  by (simp add: from_hex_str_def to_hex_string_def wf_tuid_def)

section \<open>What identifiers guarantee\<close>

text \<open>
  The order of identifiers is the order of the random halves first. Comparing the 24 bytes
  compares the UUIDs, and the creation times only between equal UUIDs.
\<close>

lemma tuid_order:
  assumes "wf_tuid a" and "wf_tuid b"
  shows "a < b \<longleftrightarrow> uuid a < uuid b \<or> uuid a = uuid b \<and> created_at_ns a < created_at_ns b"
  using assms by (rule tuid_less_iff)

lemma tuid_order_witness:
  "tuid_new (replicate 16 1) 9 < tuid_new (replicate 16 2) 5 \<and>
   created_at_ns (tuid_new (replicate 16 2) 5) < created_at_ns (tuid_new (replicate 16 1) 9)"
proof -
  have "uuid (tuid_new (replicate 16 1) 9) < uuid (tuid_new (replicate 16 2) 5)"
    by simp (simp add: numeral_eq_Suc)
  then show ?thesis
    using tuid_order [of "tuid_new (replicate 16 1) 9" "tuid_new (replicate 16 2) 5"] by simp
qed

end
