(* ===== verification/Gems_Hash.thy ===== *)
theory Gems_Hash
  imports Gems_Prelude
begin

unbundle bit_operations_syntax

text \<open>
  The checksum and the hash functions of \<^verbatim>\<open>gems-common\<close>: CRC32C
  (\<^verbatim>\<open>crc32c.rs\<close>), SHA-256 (\<^verbatim>\<open>sha256.rs\<close>), HMAC-SHA256 and the
  constant-time comparison (\<^verbatim>\<open>hmac.rs\<close>) and the FNV-1a field id
  (\<^verbatim>\<open>field_id.rs\<close>). The table-driven CRC is shown equal to the bit-serial one,
  and to detect every corruption of a single byte.
\<close>

section \<open>CRC32C\<close>

definition CRC_POLY :: u32 where
  "CRC_POLY = 0x82f63b78"

definition crc_bit_step :: "u32 \<Rightarrow> u32" where
  "crc_bit_step c = (if c AND 1 \<noteq> 0 then CRC_POLY XOR drop_bit 1 c else drop_bit 1 c)"

definition crc_table :: "u32 list" where
  "crc_table = map (\<lambda>i. (crc_bit_step ^^ 8) (of_nat i)) [0..<256]"

definition crc_update :: "u8 \<Rightarrow> u32 \<Rightarrow> u32" where
  "crc_update byte crc =
     crc_table ! unat ((crc XOR ucast byte) AND 0xff) XOR drop_bit 8 crc"

definition crc32c :: "bytes \<Rightarrow> u32" where
  "crc32c data = NOT (fold crc_update data (NOT 0))"

text \<open>The bit-serial reference: shift the byte in, then eight polynomial steps.\<close>

definition crc_update_serial :: "u8 \<Rightarrow> u32 \<Rightarrow> u32" where
  "crc_update_serial byte crc = (crc_bit_step ^^ 8) (crc XOR ucast byte)"

definition crc32c_serial :: "bytes \<Rightarrow> u32" where
  "crc32c_serial data = NOT (fold crc_update_serial data (NOT 0))"

lemma xor_word_cancel: "(p :: 'a::len word) XOR x = p XOR y \<longleftrightarrow> x = y"
proof
  assume "p XOR x = p XOR y"
  then have "p XOR (p XOR x) = p XOR (p XOR y)" by simp
  then show "x = y" by (simp flip: xor.assoc)
qed simp

lemma xor_word_cancel_right: "(x :: 'a::len word) XOR p = y XOR p \<longleftrightarrow> x = y"
  using xor_word_cancel [of p x y] by (simp add: xor.commute)

lemma bit_u32_above: "bit (x :: u32) (8 + n) \<Longrightarrow> n < 24"
  using bit_imp_le_length [of x "8 + n"] by simp

lemma bit_u8_above [simp]: "\<not> bit (x :: u8) (8 + n)"
  using bit_imp_le_length [of x "8 + n"] by auto

lemma and_1_bit0: "(c :: u32) AND 1 \<noteq> 0 \<longleftrightarrow> bit c 0"
  by (simp add: and_one_eq bit_0 odd_iff_mod_2_eq_one)

lemma bit_CRC_POLY_31: "bit CRC_POLY 31"
  by (simp add: CRC_POLY_def)

lemma crc_bit_step_xor: "crc_bit_step (a XOR b) = crc_bit_step a XOR crc_bit_step b"
  unfolding crc_bit_step_def and_1_bit0
  by (auto simp: bit_simps intro!: bit_word_eqI)

lemma crc_bit_steps_xor:
  "(crc_bit_step ^^ n) (a XOR b) = (crc_bit_step ^^ n) a XOR (crc_bit_step ^^ n) b"
  by (induction n) (simp_all add: crc_bit_step_xor)

lemma crc_bit_step_shift: "\<not> bit c 0 \<Longrightarrow> crc_bit_step c = drop_bit 1 c"
  by (simp add: crc_bit_step_def and_1_bit0)

text \<open>Steps over a value whose low bits are clear only shift.\<close>

lemma crc_bit_steps_shift:
  "(\<And>i. i < n \<Longrightarrow> \<not> bit c i) \<Longrightarrow> (crc_bit_step ^^ n) c = drop_bit n c"
proof (induction n)
  case 0
  then show ?case by simp
next
  case (Suc n)
  from Suc.prems have "\<not> bit (drop_bit n c) 0" by (simp add: bit_simps)
  with Suc show ?case by (simp add: crc_bit_step_shift)
qed

lemma crc_table_lookup: "crc_table ! unat (x AND 0xff) = (crc_bit_step ^^ 8) (x AND 0xff)"
proof -
  have "x AND 0xff = take_bit 8 x"
    by (simp add: take_bit_eq_mask mask_numeral)
  then have "unat (x AND 0xff) < 256"
    by (simp add: unsigned_take_bit_eq)
       (use take_bit_nat_less_exp [of 8 "unat x"] in simp)
  then show ?thesis by (simp add: crc_table_def)
qed

lemma crc_steps_split:
  "(crc_bit_step ^^ 8) x = (crc_bit_step ^^ 8) (x AND 0xff) XOR drop_bit 8 x"
proof -
  have low: "x AND 0xff = take_bit 8 x"
    by (simp add: take_bit_eq_mask mask_numeral)
  have "x = take_bit 8 x XOR push_bit 8 (drop_bit 8 x)"
    by (auto simp: bit_simps intro!: bit_word_eqI)
  then have "(crc_bit_step ^^ 8) x =
      (crc_bit_step ^^ 8) (take_bit 8 x) XOR (crc_bit_step ^^ 8) (push_bit 8 (drop_bit 8 x))"
    by (metis crc_bit_steps_xor)
  also have "(crc_bit_step ^^ 8) (push_bit 8 (drop_bit 8 x)) = drop_bit 8 (push_bit 8 (drop_bit 8 x))"
    by (rule crc_bit_steps_shift) (simp add: bit_simps)
  also have "\<dots> = drop_bit 8 x"
    by (auto simp: bit_simps intro!: bit_word_eqI dest: bit_u32_above)
  finally show ?thesis by (simp only: low)
qed

lemma crc_update_eq_serial: "crc_update b crc = crc_update_serial b crc"
proof -
  have "drop_bit 8 (crc XOR ucast b) = drop_bit 8 crc"
    by (auto simp: bit_simps intro!: bit_word_eqI dest: bit_u32_above)
  then show ?thesis
    unfolding crc_update_def crc_update_serial_def crc_table_lookup
    by (subst crc_steps_split [of "crc XOR ucast b"]) simp
qed

lemma crc_bit_step_bit31: "bit (crc_bit_step c) 31 = bit c 0"
  by (auto simp: crc_bit_step_def and_1_bit0 bit_simps bit_CRC_POLY_31 dest: bit_imp_le_length)

lemma crc_bit_step_inj: "crc_bit_step a = crc_bit_step b \<Longrightarrow> a = b"
proof (rule bit_word_eqI)
  fix n assume eq: "crc_bit_step a = crc_bit_step b" and n: "n < LENGTH(32)"
  from eq have b0: "bit a 0 = bit b 0" by (metis crc_bit_step_bit31)
  with eq have d: "drop_bit 1 a = drop_bit 1 b"
    unfolding crc_bit_step_def and_1_bit0
    by (cases "bit b 0") (simp_all add: xor_word_cancel)
  show "bit a n = bit b n"
  proof (cases n)
    case 0
    with b0 show ?thesis by simp
  next
    case (Suc m)
    from d have "bit (drop_bit 1 a) m = bit (drop_bit 1 b) m" by simp
    with Suc show ?thesis by (simp add: bit_simps)
  qed
qed

lemma crc_bit_steps_inj: "(crc_bit_step ^^ n) a = (crc_bit_step ^^ n) b \<Longrightarrow> a = b"
  by (induction n) (auto dest: crc_bit_step_inj)

lemma crc_update_inj_state: "crc_update b s = crc_update b t \<Longrightarrow> s = t"
  unfolding crc_update_eq_serial crc_update_serial_def
  by (drule crc_bit_steps_inj) (simp add: xor_word_cancel_right)

lemma ucast_u8_inj: "(ucast (a :: u8) :: u32) = ucast b \<Longrightarrow> a = b"
proof (rule bit_word_eqI)
  fix n assume eq: "(ucast a :: u32) = ucast b" and n: "n < LENGTH(8)"
  from eq have "bit (ucast a :: u32) n = bit (ucast b :: u32) n" by simp
  with n show "bit a n = bit b n" by (simp add: bit_simps)
qed

lemma crc_update_inj_byte: "crc_update a s = crc_update b s \<Longrightarrow> a = b"
  unfolding crc_update_eq_serial crc_update_serial_def
  by (drule crc_bit_steps_inj) (simp add: xor_word_cancel ucast_u8_inj)

lemma crc_fold_inj: "fold crc_update bs s = fold crc_update bs t \<Longrightarrow> s = t"
  by (induction bs arbitrary: s t) (auto dest: crc_update_inj_state)

section \<open>FNV-1a field ids\<close>

definition field_id :: "bytes \<Rightarrow> u32" where
  "field_id name = fold (\<lambda>b hash. (hash XOR ucast b) * 0x01000193) name 0x811c9dc5"

section \<open>SHA-256\<close>

definition SHA_K :: "u32 list" where
  "SHA_K = concat [
    [0x428a2f98, 0x71374491, 0xb5c0fbcf, 0xe9b5dba5, 0x3956c25b, 0x59f111f1, 0x923f82a4, 0xab1c5ed5],
    [0xd807aa98, 0x12835b01, 0x243185be, 0x550c7dc3, 0x72be5d74, 0x80deb1fe, 0x9bdc06a7, 0xc19bf174],
    [0xe49b69c1, 0xefbe4786, 0x0fc19dc6, 0x240ca1cc, 0x2de92c6f, 0x4a7484aa, 0x5cb0a9dc, 0x76f988da],
    [0x983e5152, 0xa831c66d, 0xb00327c8, 0xbf597fc7, 0xc6e00bf3, 0xd5a79147, 0x06ca6351, 0x14292967],
    [0x27b70a85, 0x2e1b2138, 0x4d2c6dfc, 0x53380d13, 0x650a7354, 0x766a0abb, 0x81c2c92e, 0x92722c85],
    [0xa2bfe8a1, 0xa81a664b, 0xc24b8b70, 0xc76c51a3, 0xd192e819, 0xd6990624, 0xf40e3585, 0x106aa070],
    [0x19a4c116, 0x1e376c08, 0x2748774c, 0x34b0bcb5, 0x391c0cb3, 0x4ed8aa4a, 0x5b9cca4f, 0x682e6ff3],
    [0x748f82ee, 0x78a5636f, 0x84c87814, 0x8cc70208, 0x90befffa, 0xa4506ceb, 0xbef9a3f7, 0xc67178f2]]"

definition SHA_H0 :: "u32 list" where
  "SHA_H0 = [
    0x6a09e667, 0xbb67ae85, 0x3c6ef372, 0xa54ff53a, 0x510e527f, 0x9b05688c, 0x1f83d9ab, 0x5be0cd19]"

definition rotate_right :: "nat \<Rightarrow> u32 \<Rightarrow> u32" where
  "rotate_right n x = drop_bit n x OR push_bit (32 - n) x"

text \<open>
  Padding: a one bit, zeros until the length is 56 modulo 64 (the code's \<^verbatim>\<open>while\<close>
  loop pushes one zero at a time), then the bit length as a big-endian \<^verbatim>\<open>u64\<close>,
  whose multiplication by eight wraps.
\<close>

definition pad_distance :: "nat \<Rightarrow> nat" where
  "pad_distance n = (if n mod 64 \<le> 56 then 56 - n mod 64 else 120 - n mod 64)"

function pad_zeros :: "bytes \<Rightarrow> bytes" where
  "pad_zeros p = (if length p mod 64 \<noteq> 56 then pad_zeros (p @ [0]) else p)"
  by pat_completeness auto
termination
  by (relation "measure (\<lambda>p. pad_distance (length p))") (auto simp: pad_distance_def mod_Suc)

declare pad_zeros.simps [simp del]

definition sha_pad :: "bytes \<Rightarrow> bytes" where
  "sha_pad input = pad_zeros (input @ [0x80]) @ be_bytes 8 (wrap64 (length input * 8))"

fun chunks_of :: "nat \<Rightarrow> bytes \<Rightarrow> bytes list" where
  "chunks_of n bs = (if n = 0 \<or> length bs < n then [] else take n bs # chunks_of n (drop n bs))"

declare chunks_of.simps [simp del]

definition u32_of_be :: "bytes \<Rightarrow> u32" where
  "u32_of_be bs = of_nat (be_val bs)"

definition be_of_u32 :: "u32 \<Rightarrow> bytes" where
  "be_of_u32 w = be_bytes 4 (unat w)"

definition sha_schedule_step :: "nat \<Rightarrow> u32 list \<Rightarrow> u32 list" where
  "sha_schedule_step i w =
     (let s0 = rotate_right 7 (w ! (i - 15)) XOR rotate_right 18 (w ! (i - 15))
               XOR drop_bit 3 (w ! (i - 15));
          s1 = rotate_right 17 (w ! (i - 2)) XOR rotate_right 19 (w ! (i - 2))
               XOR drop_bit 10 (w ! (i - 2))
      in w[i := w ! (i - 16) + s0 + w ! (i - 7) + s1])"

definition sha_schedule :: "bytes \<Rightarrow> u32 list" where
  "sha_schedule chunk =
     fold sha_schedule_step [16..<64] (map u32_of_be (chunks_of 4 chunk) @ replicate 48 0)"

type_synonym sha_state = "u32 \<times> u32 \<times> u32 \<times> u32 \<times> u32 \<times> u32 \<times> u32 \<times> u32"

definition sha_round :: "u32 list \<Rightarrow> nat \<Rightarrow> sha_state \<Rightarrow> sha_state" where
  "sha_round w i = (\<lambda>(a, b, c, d, e, f, g, hh).
     let s1 = rotate_right 6 e XOR rotate_right 11 e XOR rotate_right 25 e;
         ch = (e AND f) XOR (NOT e AND g);
         temp1 = hh + s1 + ch + SHA_K ! i + w ! i;
         s0 = rotate_right 2 a XOR rotate_right 13 a XOR rotate_right 22 a;
         maj = (a AND b) XOR (a AND c) XOR (b AND c);
         temp2 = s0 + maj
     in (temp1 + temp2, a, b, c, d + temp1, e, f, g))"

definition sha_compress :: "bytes \<Rightarrow> u32 list \<Rightarrow> u32 list" where
  "sha_compress chunk h =
     (case fold (sha_round (sha_schedule chunk)) [0..<64]
             (h ! 0, h ! 1, h ! 2, h ! 3, h ! 4, h ! 5, h ! 6, h ! 7) of
        (a, b, c, d, e, f, g, hh) \<Rightarrow>
          [h ! 0 + a, h ! 1 + b, h ! 2 + c, h ! 3 + d, h ! 4 + e, h ! 5 + f, h ! 6 + g, h ! 7 + hh])"

definition sha256 :: "bytes \<Rightarrow> bytes" where
  "sha256 input = concat (map be_of_u32 (fold sha_compress (chunks_of 64 (sha_pad input)) SHA_H0))"

lemma pad_zeros_eq: "pad_zeros p = p @ replicate (pad_distance (length p)) 0"
proof (induction p rule: pad_zeros.induct)
  case (1 p)
  show ?case
  proof (cases "length p mod 64 = 56")
    case True
    then show ?thesis by (simp add: pad_zeros.simps [of p] pad_distance_def)
  next
    case False
    then have "pad_distance (length p) = Suc (pad_distance (Suc (length p)))"
      by (auto simp: pad_distance_def mod_Suc)
    with 1 False show ?thesis by (simp add: pad_zeros.simps [of p])
  qed
qed

lemma pad_distance_mod: "(n + pad_distance n) mod 64 = 56"
proof -
  have "n mod 64 < 64" by simp
  then have "(n mod 64 + pad_distance n) mod 64 = 56"
    by (auto simp: pad_distance_def)
  then show ?thesis by (simp add: mod_add_left_eq)
qed

lemma sha_pad_dvd: "64 dvd length (sha_pad input)"
proof -
  let ?n = "Suc (length input)"
  have "length (sha_pad input) = ?n + pad_distance ?n + 8"
    by (simp add: sha_pad_def pad_zeros_eq)
  moreover have "(?n + pad_distance ?n + 8) mod 64 = 0"
    using pad_distance_mod [of ?n] mod_add_left_eq [of "?n + pad_distance ?n" 64 8]
    by (simp del: mod_add_left_eq)
  ultimately show ?thesis by (simp add: dvd_eq_mod_eq_0)
qed

lemma length_sha_compress [simp]: "length (sha_compress chunk h) = 8"
  by (simp add: sha_compress_def split: prod.splits)

lemma length_sha_fold: "length h = 8 \<Longrightarrow> length (fold sha_compress cs h) = 8"
  by (induction cs arbitrary: h) auto

lemma length_sha256 [simp]: "length (sha256 input) = 32"
proof -
  have "length (fold sha_compress (chunks_of 64 (sha_pad input)) SHA_H0) = 8"
    by (rule length_sha_fold) (simp add: SHA_H0_def)
  then have "length (concat (map be_of_u32 (fold sha_compress (chunks_of 64 (sha_pad input)) SHA_H0)))
      = 32"
    by (simp add: length_concat be_of_u32_def comp_def sum_list_triv)
  then show ?thesis by (simp add: sha256_def)
qed

section \<open>HMAC-SHA256\<close>

definition hmac_block_key :: "bytes \<Rightarrow> bytes" where
  "hmac_block_key key =
     (if 64 < length key then sha256 key @ replicate 32 0
      else key @ replicate (64 - length key) 0)"

definition hmac_sha256 :: "bytes \<Rightarrow> bytes \<Rightarrow> bytes" where
  "hmac_sha256 key message =
     (let ipad = map (\<lambda>b. 0x36 XOR b) (hmac_block_key key);
          opad = map (\<lambda>b. 0x5c XOR b) (hmac_block_key key)
      in sha256 (opad @ sha256 (ipad @ message)))"

definition TAG_LEN :: nat where
  "TAG_LEN = 32"

lemma length_hmac [simp]: "length (hmac_sha256 key message) = TAG_LEN"
  by (simp add: hmac_sha256_def TAG_LEN_def Let_def)

definition constant_time_eq :: "bytes \<Rightarrow> bytes \<Rightarrow> bool" where
  "constant_time_eq a b =
     (if length a \<noteq> length b then False
      else fold (\<lambda>(x, y) diff. diff OR (x XOR y)) (zip a b) 0 = 0)"

lemma xor_eq_0_iff: "(x :: 'a::len word) XOR y = 0 \<longleftrightarrow> x = y"
  using xor_word_cancel [of x y x] by auto

lemma diff_fold_zero:
  "length a = length b \<Longrightarrow>
     fold (\<lambda>(x, y) diff. diff OR (x XOR y)) (zip a b) d = 0 \<longleftrightarrow> d = (0 :: u8) \<and> a = b"
proof (induction a b arbitrary: d rule: list_induct2)
  case Nil
  then show ?case by simp
next
  case (Cons x xs y ys)
  have "d OR (x XOR y) = 0 \<longleftrightarrow> d = 0 \<and> x = y"
    by (metis or.right_neutral or_eq_0_iff xor_eq_0_iff)
  with Cons show ?case by auto
qed

lemma constant_time_eq_iff [simp]: "constant_time_eq a b \<longleftrightarrow> a = b"
  using diff_fold_zero [of a b 0] by (auto simp: constant_time_eq_def)

section \<open>What the checksum guarantees\<close>

text \<open>
  The checksum is the bit-serial CRC-32C and sees every change of one byte. The table-driven
  loop computes the reference, and two inputs that differ in one byte have different checksums.
\<close>

lemma crc32c_correct:
  "crc32c bs = crc32c_serial bs \<and>
   (crc32c (pre @ a # post) = crc32c (pre @ b # post) \<longleftrightarrow> a = b)"
proof
  have "crc_update = crc_update_serial" by (intro ext) (rule crc_update_eq_serial)
  then show "crc32c bs = crc32c_serial bs" by (simp add: crc32c_def crc32c_serial_def)
  show "crc32c (pre @ a # post) = crc32c (pre @ b # post) \<longleftrightarrow> a = b"
    by (auto simp: crc32c_def dest!: crc_fold_inj crc_update_inj_byte)
qed

end
