(* ===== verification/Gems_Header.thy ===== *)
theory Gems_Header
  imports Gems_Tuid Gems_Hash
begin

unbundle bit_operations_syntax

text \<open>
  The fixed-size entity header of \<^verbatim>\<open>gems-catalog\<close>: entity kinds
  (\<^verbatim>\<open>kind.rs\<close>), flags (\<^verbatim>\<open>flags.rs\<close>) and the header with its
  encoder and decoder (\<^verbatim>\<open>header.rs\<close>). The lemmas show that the decoder returns on
  every buffer without panicking and that it inverts the encoder up to the truncation of
  the two text fields.
\<close>

section \<open>Kinds and flags\<close>

datatype entity_kind =
    Data | EntityAttribute | EntityType | Subject | Layer | LayerGroup
  | VariantList | Role | LinkType | Link | Policy

fun kind_to_u8 :: "entity_kind \<Rightarrow> nat" where
  "kind_to_u8 Data = 0"
| "kind_to_u8 EntityAttribute = 1"
| "kind_to_u8 EntityType = 2"
| "kind_to_u8 Subject = 3"
| "kind_to_u8 Layer = 4"
| "kind_to_u8 LayerGroup = 5"
| "kind_to_u8 VariantList = 6"
| "kind_to_u8 Role = 7"
| "kind_to_u8 LinkType = 8"
| "kind_to_u8 Link = 9"
| "kind_to_u8 Policy = 10"

definition kind_from_u8 :: "nat \<Rightarrow> entity_kind result" where
  "kind_from_u8 v =
     (if v = 0 then Ok Data else if v = 1 then Ok EntityAttribute
      else if v = 2 then Ok EntityType else if v = 3 then Ok Subject
      else if v = 4 then Ok Layer else if v = 5 then Ok LayerGroup
      else if v = 6 then Ok VariantList else if v = 7 then Ok Role
      else if v = 8 then Ok LinkType else if v = 9 then Ok Link
      else if v = 10 then Ok Policy
      else Err (InvalidValue ''unknown entity kind''))"

definition is_data :: "entity_kind \<Rightarrow> bool" where
  "is_data k = (k = Data)"

lemma kind_from_to [simp]: "kind_from_u8 (kind_to_u8 k) = Ok k"
  by (cases k) (simp_all add: kind_from_u8_def)

lemma kind_to_u8_le: "kind_to_u8 k \<le> 10"
  by (cases k) simp_all

lemma kind_from_u8_no_panic [simp]: "kind_from_u8 v \<noteq> Panic"
  by (simp add: kind_from_u8_def)

definition PENDING_DELETE :: u32 where "PENDING_DELETE = 1"
definition PENDING_RENAME :: u32 where "PENDING_RENAME = 2"
definition DISABLED :: u32 where "DISABLED = 4"
definition SYSTEM :: u32 where "SYSTEM = 8"
definition IMMUTABLE :: u32 where "IMMUTABLE = 16"
definition HIDDEN :: u32 where "HIDDEN = 32"
definition TOMBSTONE :: u32 where "TOMBSTONE = 64"
definition CONFLICT :: u32 where "CONFLICT = 128"

definition flags_contains :: "u32 \<Rightarrow> u32 \<Rightarrow> bool" where
  "flags_contains fs flag = (fs AND flag = flag)"

definition flags_with :: "u32 \<Rightarrow> u32 \<Rightarrow> u32" where
  "flags_with fs flag = fs OR flag"

definition flags_without :: "u32 \<Rightarrow> u32 \<Rightarrow> u32" where
  "flags_without fs flag = fs AND NOT flag"

definition is_default_hidden :: "u32 \<Rightarrow> bool" where
  "is_default_hidden fs =
     (flags_contains fs PENDING_DELETE \<or> flags_contains fs TOMBSTONE \<or> flags_contains fs HIDDEN)"

section \<open>The header\<close>

record entity_header =
  hdr_id :: tuid
  created_by :: bytes
  modified_by :: bytes
  modified_at_ns :: int
  hdr_name :: bytes
  description :: bytes
  hdr_flags :: u32
  hdr_kind :: entity_kind
  schema_ref :: tuid
  body_offset :: nat
  body_len :: nat

definition MAGIC :: nat where "MAGIC = 0x47454d48"
definition FORMAT_VERSION :: nat where "FORMAT_VERSION = 1"
definition NAME_MAX :: nat where "NAME_MAX = 63"
definition DESCRIPTION_MAX :: nat where "DESCRIPTION_MAX = 254"
definition ENCODED_LEN :: nat where "ENCODED_LEN = 431"

text \<open>The Rust type's own bounds: array lengths, integer widths, UTF-8 strings.\<close>

definition wf_header :: "entity_header \<Rightarrow> bool" where
  "wf_header h \<longleftrightarrow>
     wf_tuid (hdr_id h) \<and> length (created_by h) = 16 \<and> length (modified_by h) = 16 \<and>
     i64_range (modified_at_ns h) \<and> utf8_valid (hdr_name h) \<and> utf8_valid (description h) \<and>
     wf_tuid (schema_ref h) \<and> body_offset h \<le> u32_max \<and> body_len h \<le> u32_max"

definition pad_to :: "nat \<Rightarrow> bytes \<Rightarrow> bytes" where
  "pad_to n bs = bs @ replicate (n - length bs) 0"

definition header_prefix :: "entity_header \<Rightarrow> bytes" where
  "header_prefix h =
     (let name_bytes = truncate_utf8 (hdr_name h) NAME_MAX;
          desc_bytes = truncate_utf8 (description h) DESCRIPTION_MAX
      in le_bytes 4 MAGIC @ le_bytes 2 FORMAT_VERSION @ as_bytes (hdr_id h)
         @ created_by h @ modified_by h @ le_bytes 8 (i64_bits (modified_at_ns h))
         @ le_bytes 1 (length name_bytes) @ pad_to NAME_MAX name_bytes
         @ le_bytes 2 (length desc_bytes) @ pad_to DESCRIPTION_MAX desc_bytes
         @ le_bytes 4 (unat (hdr_flags h)) @ le_bytes 1 (kind_to_u8 (hdr_kind h))
         @ as_bytes (schema_ref h) @ le_bytes 4 (body_offset h) @ le_bytes 4 (body_len h))"

definition header_encode :: "entity_header \<Rightarrow> bytes" where
  "header_encode h = header_prefix h @ le_bytes 4 (unat (crc32c (header_prefix h)))"

definition header_decode :: "bytes \<Rightarrow> entity_header result" where
  "header_decode buf =
     (if length buf < ENCODED_LEN then Err (CorruptPage ''entity header shorter than expected'') else
      obind (field_at buf 0 4) (\<lambda>m.
      if le_val m \<noteq> MAGIC then Err (CorruptPage ''entity header magic mismatch'') else
      let checksum_at = ENCODED_LEN - 4 in
      obind (field_at buf checksum_at 4) (\<lambda>c.
      obind (slice buf 0 checksum_at) (\<lambda>covered.
      if le_val c \<noteq> unat (crc32c covered)
      then Err (CorruptPage ''entity header checksum mismatch'') else
      let pos = 6 in
      obind (field_at buf pos TUID_LEN) (\<lambda>idb. let pos = pos + TUID_LEN in
      obind (field_at buf pos 16) (\<lambda>cb. let pos = pos + 16 in
      obind (field_at buf pos 16) (\<lambda>mb. let pos = pos + 16 in
      obind (field_at buf pos 8) (\<lambda>ma. let pos = pos + 8 in
      obind (index_at buf pos) (\<lambda>nl. let name_len = unat nl; pos = pos + 1 in
      if name_len > NAME_MAX
      then Err (CorruptPage ''entity header name length exceeds the maximum'') else
      obind (slice buf pos (pos + name_len)) (\<lambda>nb. let pos = pos + NAME_MAX in
      obind (field_at buf pos 2) (\<lambda>dl. let desc_len = le_val dl; pos = pos + 2 in
      if desc_len > DESCRIPTION_MAX
      then Err (CorruptPage ''entity header description length exceeds the maximum'') else
      obind (slice buf pos (pos + desc_len)) (\<lambda>db. let pos = pos + DESCRIPTION_MAX in
      obind (field_at buf pos 4) (\<lambda>fb. let pos = pos + 4 in
      obind (index_at buf pos) (\<lambda>kb.
      obind (kind_from_u8 (unat kb)) (\<lambda>kind. let pos = pos + 1 in
      obind (field_at buf pos TUID_LEN) (\<lambda>sr. let pos = pos + TUID_LEN in
      obind (field_at buf pos 4) (\<lambda>bo. let pos = pos + 4 in
      obind (field_at buf pos 4) (\<lambda>bl.
      Ok \<lparr> hdr_id = Tuid idb, created_by = cb, modified_by = mb,
           modified_at_ns = i64_of_bits (le_val ma),
           hdr_name = from_utf8_lossy nb, description = from_utf8_lossy db,
           hdr_flags = of_nat (le_val fb), hdr_kind = kind, schema_ref = Tuid sr,
           body_offset = le_val bo, body_len = le_val bl \<rparr>))))))))))))))))))"

text \<open>What a decoded encoding keeps: the text fields cut to their reserved space.\<close>

definition truncate_texts :: "entity_header \<Rightarrow> entity_header" where
  "truncate_texts h =
     h\<lparr>hdr_name := truncate_utf8 (hdr_name h) NAME_MAX,
       description := truncate_utf8 (description h) DESCRIPTION_MAX\<rparr>"

lemma length_pad_to [simp]: "length bs \<le> n \<Longrightarrow> length (pad_to n bs) = n"
  by (simp add: pad_to_def)

lemma length_header_prefix [simp]: "wf_header h \<Longrightarrow> length (header_prefix h) = 427"
  using length_truncate_utf8 [of "hdr_name h" NAME_MAX]
    length_truncate_utf8 [of "description h" DESCRIPTION_MAX]
  by (simp add: header_prefix_def Let_def wf_header_def wf_tuid_def TUID_LEN_def
      NAME_MAX_def DESCRIPTION_MAX_def)

lemma length_header_encode [simp]: "wf_header h \<Longrightarrow> length (header_encode h) = ENCODED_LEN"
  by (simp add: header_encode_def ENCODED_LEN_def)

lemma header_decode_no_panic: "header_decode buf \<noteq> Panic"
  unfolding header_decode_def Let_def TUID_LEN_def NAME_MAX_def DESCRIPTION_MAX_def ENCODED_LEN_def
  by (auto simp: obind_eq_Panic field_at_def slice_def to_array_def)

text \<open>
  The layout: a buffer that is the concatenation of the fields at their widths reads back
  field by field.
\<close>

lemma header_fields:
  assumes "buf = m4 @ v2 @ idb @ cb @ mb @ ma @ [nl] @ np @ dl2 @ dp @ fb @ [kb] @ sr @ bo @ bl @ ck @ rest"
    and "length m4 = 4" "length v2 = 2" "length idb = 24" "length cb = 16" "length mb = 16"
    "length ma = 8" "length np = 63" "length dl2 = 2" "length dp = 254" "length fb = 4"
    "length sr = 24" "length bo = 4" "length bl = 4" "length ck = 4"
    and "unat nl \<le> 63" "le_val dl2 \<le> 254"
  shows "\<not> length buf < 431" "field_at buf 0 4 = Ok m4" "field_at buf 427 4 = Ok ck"
    "slice buf 0 427 =
       Ok (m4 @ v2 @ idb @ cb @ mb @ ma @ [nl] @ np @ dl2 @ dp @ fb @ [kb] @ sr @ bo @ bl)"
    "field_at buf 6 24 = Ok idb" "field_at buf 30 16 = Ok cb" "field_at buf 46 16 = Ok mb"
    "field_at buf 62 8 = Ok ma" "index_at buf 70 = Ok nl"
    "slice buf 71 (71 + unat nl) = Ok (take (unat nl) np)"
    "field_at buf 134 2 = Ok dl2" "slice buf 136 (136 + le_val dl2) = Ok (take (le_val dl2) dp)"
    "field_at buf 390 4 = Ok fb" "index_at buf 394 = Ok kb"
    "field_at buf 395 24 = Ok sr" "field_at buf 419 4 = Ok bo" "field_at buf 423 4 = Ok bl"
  using assms(2-)
  by (simp_all add: assms(1) byte_simps field_at_Ok slice_def nth_append)

lemma header_decode_encode:
  assumes wf: "wf_header h"
  shows "header_decode (header_encode h @ rest) = Ok (truncate_texts h)"
proof -
  let ?n = "truncate_utf8 (hdr_name h) NAME_MAX"
  let ?d = "truncate_utf8 (description h) DESCRIPTION_MAX"
  let ?ck = "le_bytes 4 (unat (crc32c (header_prefix h)))"
  have t: "length ?n \<le> 63" "length ?d \<le> 254"
    using length_truncate_utf8 [of "hdr_name h" NAME_MAX]
      length_truncate_utf8 [of "description h" DESCRIPTION_MAX]
    by (simp_all add: NAME_MAX_def DESCRIPTION_MAX_def)
  have u: "unat (x :: u32) < 256 ^ 4" for x
    using unsigned_less [where 'a = nat, of x] by simp
  have k: "kind_to_u8 (hdr_kind h) < 256" using kind_to_u8_le [of "hdr_kind h"] by simp
  have pre: "header_prefix h = le_bytes 4 MAGIC @ le_bytes 2 FORMAT_VERSION @ as_bytes (hdr_id h)
      @ created_by h @ modified_by h @ le_bytes 8 (i64_bits (modified_at_ns h))
      @ [of_nat (length ?n)] @ pad_to 63 ?n @ le_bytes 2 (length ?d) @ pad_to 254 ?d
      @ le_bytes 4 (unat (hdr_flags h)) @ [of_nat (kind_to_u8 (hdr_kind h))]
      @ as_bytes (schema_ref h) @ le_bytes 4 (body_offset h) @ le_bytes 4 (body_len h)"
    using t k by (simp add: header_prefix_def Let_def NAME_MAX_def DESCRIPTION_MAX_def)
  define ck where "ck = ?ck"
  define buf where "buf = header_encode h @ rest"
  have buf: "buf = le_bytes 4 MAGIC @ le_bytes 2 FORMAT_VERSION @ as_bytes (hdr_id h)
      @ created_by h @ modified_by h @ le_bytes 8 (i64_bits (modified_at_ns h))
      @ [of_nat (length ?n)] @ pad_to 63 ?n @ le_bytes 2 (length ?d) @ pad_to 254 ?d
      @ le_bytes 4 (unat (hdr_flags h)) @ [of_nat (kind_to_u8 (hdr_kind h))]
      @ as_bytes (schema_ref h) @ le_bytes 4 (body_offset h) @ le_bytes 4 (body_len h) @ ck @ rest"
    unfolding buf_def header_encode_def ck_def [symmetric] by (simp add: pre)
  have l1: "unat (of_nat (length ?n) :: u8) = length ?n"
    and l2: "le_val (le_bytes 2 (length ?d)) = length ?d"
    using t by (simp_all add: unat_of_nat_u8 le_val_le_bytes)
  have len: "length (le_bytes 4 MAGIC) = 4" "length (le_bytes 2 FORMAT_VERSION) = 2"
    "length (as_bytes (hdr_id h)) = 24" "length (created_by h) = 16" "length (modified_by h) = 16"
    "length (le_bytes 8 (i64_bits (modified_at_ns h))) = 8" "length (pad_to 63 ?n) = 63"
    "length (le_bytes 2 (length ?d)) = 2" "length (pad_to 254 ?d) = 254"
    "length (le_bytes 4 (unat (hdr_flags h))) = 4" "length (as_bytes (schema_ref h)) = 24"
    "length (le_bytes 4 (body_offset h)) = 4" "length (le_bytes 4 (body_len h)) = 4"
    "length ck = 4" "unat (of_nat (length ?n) :: u8) \<le> 63" "le_val (le_bytes 2 (length ?d)) \<le> 254"
    using wf t by (simp_all add: l1 l2 ck_def wf_header_def wf_tuid_def TUID_LEN_def)
  note f = header_fields [OF buf len, folded pre, unfolded l1 l2]
  have texts: "take (length ?n) (pad_to 63 ?n) = ?n" "take (length ?d) (pad_to 254 ?d) = ?d"
    by (simp_all add: pad_to_def)
  have vals: "le_val (le_bytes 4 MAGIC) = MAGIC" "le_val ck = unat (crc32c (header_prefix h))"
    "le_val (le_bytes 8 (i64_bits (modified_at_ns h))) = i64_bits (modified_at_ns h)"
    "le_val (le_bytes 4 (unat (hdr_flags h))) = unat (hdr_flags h)"
    "le_val (le_bytes 4 (body_offset h)) = body_offset h"
    "le_val (le_bytes 4 (body_len h)) = body_len h"
    "unat (of_nat (kind_to_u8 (hdr_kind h)) :: u8) = kind_to_u8 (hdr_kind h)"
    using wf k u [of "hdr_flags h"] u [of "crc32c (header_prefix h)"]
    by (simp_all add: le_val_le_bytes MAGIC_def ck_def i64_bits_less [simplified] wf_header_def unat_of_nat_u8)
  have wf': "i64_range (modified_at_ns h)" "utf8_valid (hdr_name h)" "utf8_valid (description h)"
    using wf by (simp_all add: wf_header_def)
  have cs: "ENCODED_LEN = 431" "TUID_LEN = 24" "NAME_MAX = 63" "DESCRIPTION_MAX = 254"
    by (simp_all add: ENCODED_LEN_def TUID_LEN_def NAME_MAX_def DESCRIPTION_MAX_def)
  show ?thesis
    unfolding buf_def [symmetric] header_decode_def Let_def cs
    using t by (simp add: f [unfolded cs] vals texts [unfolded cs] wf' l1 [unfolded cs] l2 [unfolded cs]
        truncate_texts_def utf8_valid_truncate cs)
qed

section \<open>The header's property\<close>

text \<open>
  Entity headers round-trip. The encoding of a well-formed header has the fixed length, and
  decodes, whatever follows it, to the header with its two texts cut to their reserved space.
\<close>

lemma header_round_trip:
  assumes "wf_header h"
  shows "length (header_encode h) = ENCODED_LEN \<and>
    header_decode (header_encode h @ rest) = Ok (truncate_texts h)"
  using header_decode_encode [OF assms] assms by simp

definition sample_header :: entity_header where
  "sample_header =
     \<lparr> hdr_id = Tuid (replicate 24 5), created_by = replicate 16 1, modified_by = replicate 16 2,
       modified_at_ns = - 7, hdr_name = [104, 105], description = [], hdr_flags = 3,
       hdr_kind = Data, schema_ref = NIL, body_offset = 0, body_len = 9 \<rparr>"

lemma sample_header_texts: "utf8_valid [104, 105]" "utf8_valid []"
  by code_simp+

lemma sample_header_wf: "wf_header sample_header" "truncate_texts sample_header = sample_header"
  by (simp_all add: wf_header_def sample_header_def wf_tuid_def TUID_LEN_def i64_range_def
      NIL_def sample_header_texts truncate_texts_def truncate_utf8_def NAME_MAX_def DESCRIPTION_MAX_def)

end
