(* ===== verification/Gems_Record.thy ===== *)
theory Gems_Record
  imports Gems_Header
begin

text \<open>
  The unit of replication of \<^verbatim>\<open>gems-cluster\<close>: the frame-length cap
  (\<^verbatim>\<open>frame.rs\<close>), \<open>LogRecord\<close> with its length-prefixed encoding
  (\<^verbatim>\<open>record.rs\<close>) and the reading side of the append-only replication log
  (\<^verbatim>\<open>log.rs\<close>), whose file is its byte content. \<open>LogRecord\<close> is an
  instance of the framed-codec contract; the log's reading loop is an instance of the stream
  contract built on it.
\<close>

section \<open>Frames\<close>

definition MAX_FRAME_LEN :: nat where
  "MAX_FRAME_LEN = 64 * 1024 * 1024"

definition check_frame_len :: "nat \<Rightarrow> string \<Rightarrow> unit result" where
  "check_frame_len payload_len ctxt =
     (if payload_len > MAX_FRAME_LEN then Err (InvalidValue ctxt) else Ok ())"

section \<open>Log records\<close>

datatype log_record = Insert entity_header bytes | Delete tuid

definition INSERT_TAG :: u8 where "INSERT_TAG = 1"
definition DELETE_TAG :: u8 where "DELETE_TAG = 2"

fun record_payload :: "log_record \<Rightarrow> bytes" where
  "record_payload (Insert header body) =
     (let encoded_header = header_encode header
      in [INSERT_TAG] @ le_bytes 4 (length encoded_header) @ encoded_header
         @ le_bytes 4 (length body) @ body)"
| "record_payload (Delete i) = [DELETE_TAG] @ as_bytes i"

definition record_encode :: "log_record \<Rightarrow> bytes" where
  "record_encode r = le_bytes 4 (length (record_payload r)) @ record_payload r"

definition read_slice :: "bytes \<Rightarrow> nat \<Rightarrow> nat \<Rightarrow> (bytes \<times> nat) result" where
  "read_slice buf pos len =
     (if length buf < pos + len then Err (InvalidValue ''log record payload truncated'')
      else omap (\<lambda>s. (s, pos + len)) (slice buf pos (pos + len)))"

definition read_u32 :: "bytes \<Rightarrow> nat \<Rightarrow> (nat \<times> nat) result" where
  "read_u32 buf pos =
     obind (read_slice buf pos 4) (\<lambda>(bs, pos). omap (\<lambda>a. (le_val a, pos)) (to_array 4 bs))"

definition decode_payload :: "bytes \<Rightarrow> log_record result" where
  "decode_payload payload =
     obind (index_at payload 0) (\<lambda>tag.
     if tag = INSERT_TAG then
       obind (read_u32 payload 1) (\<lambda>(header_len, pos).
       obind (read_slice payload pos header_len) (\<lambda>(hb, pos).
       obind (header_decode hb) (\<lambda>header.
       obind (read_u32 payload pos) (\<lambda>(body_len, pos).
       obind (read_slice payload pos body_len) (\<lambda>(body, pos).
       Ok (Insert header body))))))
     else if tag = DELETE_TAG then
       obind (read_slice payload 1 TUID_LEN) (\<lambda>(id_bytes, pos).
       omap (\<lambda>a. Delete (Tuid a)) (to_array TUID_LEN id_bytes))
     else Err (InvalidValue ''unknown log record type''))"

definition record_decode :: "bytes \<Rightarrow> (log_record \<times> nat) option result" where
  "record_decode buf =
     (if length buf < 4 then Ok None else
      obind (field_at buf 0 4) (\<lambda>p. let payload_len = le_val p in
      obind (check_frame_len payload_len ''log record payload exceeds the maximum frame size'') (\<lambda>_.
      let total_len = 4 + payload_len in
      if length buf < total_len then Ok None else
      obind (slice buf 4 total_len) (\<lambda>payload.
      if payload = [] then Err (InvalidValue ''empty log record payload'') else
      omap (\<lambda>record. Some (record, total_len)) (decode_payload payload)))))"

text \<open>The Rust type's bounds, and the records that fit a frame.\<close>

fun wf_record :: "log_record \<Rightarrow> bool" where
  "wf_record (Insert header body) = wf_header header"
| "wf_record (Delete i) = wf_tuid i"

definition fits_frame :: "log_record \<Rightarrow> bool" where
  "fits_frame r = (length (record_payload r) \<le> MAX_FRAME_LEN)"

text \<open>What decoding gives back: the header's texts are cut to their reserved space.\<close>

fun normal_record :: "log_record \<Rightarrow> log_record" where
  "normal_record (Insert header body) = Insert (truncate_texts header) body"
| "normal_record (Delete i) = Delete i"

lemma read_slice_Ok:
  "p + n \<le> length buf \<Longrightarrow> read_slice buf p n = Ok (take n (drop p buf), p + n)"
  by (simp add: read_slice_def slice_def)

lemma read_slice_no_panic [simp]: "read_slice buf pos len \<noteq> Panic"
  by (simp add: read_slice_def slice_def)

lemma read_slice_length: "read_slice buf pos len = Ok (s, q) \<Longrightarrow> length s = len \<and> q = pos + len"
  by (auto simp: read_slice_def slice_def split: if_splits)

lemma read_u32_Ok:
  "p + 4 \<le> length buf \<Longrightarrow> read_u32 buf p = Ok (le_val (take 4 (drop p buf)), p + 4)"
  by (simp add: read_u32_def read_slice_Ok)

lemma read_u32_no_panic [simp]: "read_u32 buf pos \<noteq> Panic"
  by (auto simp: read_u32_def obind_eq_Panic to_array_def dest: read_slice_length)

lemma check_frame_len_no_panic [simp]: "check_frame_len n c \<noteq> Panic"
  by (simp add: check_frame_len_def)

lemma check_frame_len_Ok [simp]: "n \<le> MAX_FRAME_LEN \<Longrightarrow> check_frame_len n c = Ok ()"
  by (simp add: check_frame_len_def)

lemma payload_nonempty [simp]: "record_payload r \<noteq> []"
  by (cases r) (simp_all add: Let_def)

lemma decode_payload_no_panic: "payload \<noteq> [] \<Longrightarrow> decode_payload payload \<noteq> Panic"
  by (auto simp: decode_payload_def obind_eq_Panic header_decode_no_panic to_array_def
      split: if_splits dest: read_slice_length)

lemma record_decode_no_panic: "record_decode buf \<noteq> Panic"
  by (auto simp: record_decode_def obind_eq_Panic Let_def field_at_Ok slice_def decode_payload_no_panic)

lemma header_decode_encode_exact:
  "wf_header h \<Longrightarrow> header_decode (header_encode h) = Ok (truncate_texts h)"
  using header_decode_encode [of h "[]"] by simp

lemma decode_record_payload:
  assumes "wf_record r" and "fits_frame r"
  shows "decode_payload (record_payload r) = Ok (normal_record r)"
proof (cases r)
  case (Insert header body)
  define hb where "hb = header_encode header"
  have len: "length hb = 431" and small: "length body \<le> u32_max"
    using assms Insert
    by (simp_all add: hb_def fits_frame_def MAX_FRAME_LEN_def ENCODED_LEN_def)
  let ?p = "[INSERT_TAG] @ le_bytes 4 431 @ hb @ le_bytes 4 (length body) @ body"
  have "record_payload r = ?p"
    using Insert len by (simp add: hb_def)
  moreover have "read_u32 ?p 1 = Ok (431, 5)"
    using len by (simp add: read_u32_Ok le_val_le_bytes)
  moreover have "read_slice ?p 5 431 = Ok (hb, 436)"
    using len by (simp add: read_slice_Ok)
  moreover have "read_u32 ?p 436 = Ok (length body, 440)"
    using len small by (simp add: read_u32_Ok le_val_le_bytes)
  moreover have "read_slice ?p 440 (length body) = Ok (body, 440 + length body)"
    using len by (simp add: read_slice_Ok)
  moreover have "header_decode hb = Ok (truncate_texts header)"
    using assms Insert by (simp add: hb_def header_decode_encode_exact)
  ultimately show ?thesis
    using Insert by (simp add: decode_payload_def)
next
  case (Delete i)
  have "read_slice (DELETE_TAG # as_bytes i) 1 24 = Ok (as_bytes i, 25)"
    using assms Delete by (simp add: read_slice_Ok wf_tuid_def TUID_LEN_def)
  then show ?thesis
    using assms Delete
    by (simp add: decode_payload_def INSERT_TAG_def DELETE_TAG_def TUID_LEN_def wf_tuid_def)
qed

lemma frame_len_u32: "n \<le> MAX_FRAME_LEN \<Longrightarrow> le_val (le_bytes 4 n) = n"
  by (simp add: le_val_le_bytes MAX_FRAME_LEN_def)

lemma record_decode_encode:
  assumes "wf_record r" and "fits_frame r"
  shows "record_decode (record_encode r @ rest) = Ok (Some (normal_record r, length (record_encode r)))"
proof -
  let ?n = "length (record_payload r)"
  have n: "?n \<le> MAX_FRAME_LEN" using assms by (simp add: fits_frame_def)
  have "field_at (record_encode r @ rest) 0 4 = Ok (le_bytes 4 ?n)"
    by (simp add: record_encode_def field_at_here)
  moreover have "slice (record_encode r @ rest) 4 (4 + ?n) = Ok (record_payload r)"
    by (simp add: record_encode_def slice_skip slice_all)
  moreover have "length (record_encode r) = 4 + ?n" by (simp add: record_encode_def)
  ultimately show ?thesis
    using n assms
    by (simp add: record_decode_def frame_len_u32 Let_def decode_record_payload)
qed

lemma record_decode_prefix:
  assumes "fits_frame r" and n: "n < length (record_encode r)"
  shows "record_decode (take n (record_encode r)) = Ok None"
proof (cases "n < 4")
  case True
  with n show ?thesis by (simp add: record_decode_def)
next
  case False
  let ?m = "length (record_payload r)"
  have m: "?m \<le> MAX_FRAME_LEN" using assms by (simp add: fits_frame_def)
  have "take n (record_encode r) = le_bytes 4 ?m @ take (n - 4) (record_payload r)"
    using False by (simp add: record_encode_def)
  then have "field_at (take n (record_encode r)) 0 4 = Ok (le_bytes 4 ?m)"
    by (simp add: field_at_here)
  moreover have "length (record_encode r) = 4 + ?m" by (simp add: record_encode_def)
  ultimately show ?thesis
    using n m False by (simp add: record_decode_def frame_len_u32 Let_def)
qed

lemma record_decode_progress:
  "record_decode buf = Ok (Some (r, n)) \<Longrightarrow> 0 < n \<and> n \<le> length buf"
  by (auto simp: record_decode_def obind_eq_Ok Let_def split: if_splits)

text \<open>Records in normal form: the ones a decoder can produce.\<close>

definition canonical_record :: "log_record \<Rightarrow> bool" where
  "canonical_record r \<longleftrightarrow> wf_record r \<and> fits_frame r \<and> normal_record r = r"

interpretation rec: framed_codec record_encode record_decode canonical_record
  by unfold_locales
     (auto simp: canonical_record_def record_decode_encode record_decode_prefix
       dest: record_decode_progress)

section \<open>The replication log\<close>

text \<open>
  The reading loop, over any framed codec: decode records until the buffer holds no complete
  one. Both \<^verbatim>\<open>ReplicationLog::read_from\<close> and the snapshot reader rely on it.
\<close>

locale framed_stream = framed_codec enc dec wf
  for enc :: "'a \<Rightarrow> bytes"
    and dec :: "bytes \<Rightarrow> (gems_error, ('a \<times> nat) option) outcome"
    and wf :: "'a \<Rightarrow> bool" +
  fixes loop :: "bytes \<Rightarrow> (gems_error, 'a list \<times> nat) outcome"
  assumes loop_unfold: "loop buf =
    obind (dec buf) (\<lambda>got. case got of None \<Rightarrow> Ok ([], 0)
      | Some (x, n) \<Rightarrow> omap (\<lambda>(xs, k). (x # xs, n + k)) (loop (drop n buf)))"
begin

lemma loop_stop: "dec buf = Ok None \<Longrightarrow> loop buf = Ok ([], 0)"
  by (subst loop_unfold) simp

lemma loop_cons:
  "wf x \<Longrightarrow> loop (enc x @ buf) = omap (\<lambda>(xs, k). (x # xs, length (enc x) + k)) (loop buf)"
  by (subst loop_unfold) (simp add: dec_enc)

lemma loop_append:
  "list_all wf xs \<Longrightarrow>
     loop (concat (map enc xs) @ buf) =
     omap (\<lambda>(ys, k). (xs @ ys, length (concat (map enc xs)) + k)) (loop buf)"
proof (induction xs)
  case Nil
  then show ?case by (cases "loop buf") auto
next
  case (Cons x xs)
  then show ?case by (cases "loop buf") (auto simp: loop_cons)
qed

text \<open>A torn tail is left unread, and the reported offset stops in front of it.\<close>

lemma loop_torn_tail:
  assumes "list_all wf xs" and "wf y" and "n < length (enc y)"
  shows "loop (concat (map enc xs) @ take n (enc y)) = Ok (xs, length (concat (map enc xs)))"
  using loop_append [OF assms(1)] loop_stop [OF dec_prefix [OF assms(2,3)]] by simp

lemma loop_complete:
  assumes "list_all wf xs" and "wf y"
  shows "loop (concat (map enc xs)) = Ok (xs, length (concat (map enc xs)))"
  using loop_torn_tail [OF assms(1,2), of 0] enc_nonempty [OF assms(2)] by simp

end

function read_records :: "bytes \<Rightarrow> (log_record list \<times> nat) result" where
  "read_records buf =
     (case record_decode buf of
        Ok None \<Rightarrow> Ok ([], 0)
      | Ok (Some (record, consumed)) \<Rightarrow>
          omap (\<lambda>(records, pos). (record # records, consumed + pos))
            (read_records (drop consumed buf))
      | Err e \<Rightarrow> Err e
      | Panic \<Rightarrow> Panic)"
  by pat_completeness auto
termination
  by (relation "measure length") (auto dest!: record_decode_progress)

declare read_records.simps [simp del]

type_synonym log_file = bytes

definition log_append :: "log_file \<Rightarrow> log_record \<Rightarrow> log_file" where
  "log_append f record = f @ record_encode record"

definition log_len :: "log_file \<Rightarrow> nat" where
  "log_len f = length f"

definition log_is_empty :: "log_file \<Rightarrow> bool" where
  "log_is_empty f = (log_len f = 0)"

text \<open>Seeking past the end of the file leaves an empty buffer.\<close>

definition read_from :: "log_file \<Rightarrow> nat \<Rightarrow> (log_record list \<times> nat) result" where
  "read_from f start =
     omap (\<lambda>(records, pos). (records, start + pos)) (read_records (drop start f))"

definition read_raw_from :: "log_file \<Rightarrow> nat \<Rightarrow> (bytes \<times> nat) result" where
  "read_raw_from f start =
     (let buf = drop start f
      in omap (\<lambda>(records, pos). (take pos buf, start + pos)) (read_records buf))"

interpretation recs: framed_stream record_encode record_decode canonical_record read_records
proof unfold_locales
  fix buf
  show "read_records buf = obind (record_decode buf) (\<lambda>got. case got of None \<Rightarrow> Ok ([], 0)
      | Some (x, n) \<Rightarrow> omap (\<lambda>(xs, k). (x # xs, n + k)) (read_records (drop n buf)))"
    by (subst read_records.simps) (cases "record_decode buf"; simp split: option.split)
qed

definition log_of :: "log_record list \<Rightarrow> log_file" where
  "log_of rs = fold (\<lambda>r f. log_append f r) rs []"

lemma log_of_concat: "log_of rs = concat (map record_encode rs)"
proof -
  have "fold (\<lambda>r f. log_append f r) rs f = f @ concat (map record_encode rs)" for f
    by (induction rs arbitrary: f) (auto simp: log_append_def)
  then show ?thesis by (simp add: log_of_def)
qed

lemma canonical_Delete_NIL: "canonical_record (Delete NIL)"
  by (simp add: canonical_record_def fits_frame_def MAX_FRAME_LEN_def NIL_def wf_tuid_def TUID_LEN_def)

section \<open>What the log guarantees\<close>

text \<open>
  Log records round-trip. A record that fits a frame is decoded from its encoding, whatever
  follows it, up to the cut of its header's texts, and any proper prefix is reported incomplete.
\<close>

lemma record_frames:
  assumes "wf_record r" and "fits_frame r"
  shows "record_decode (record_encode r @ rest) = Ok (Some (normal_record r, length (record_encode r))) \<and>
    (n < length (record_encode r) \<longrightarrow> record_decode (take n (record_encode r)) = Ok None)"
  using record_decode_encode [OF assms] record_decode_prefix [OF assms(2)] by blast

lemma sample_insert_ok: "canonical_record (Insert sample_header [1, 2])"
  using sample_header_wf by (simp add: canonical_record_def fits_frame_def MAX_FRAME_LEN_def ENCODED_LEN_def)

lemma record_frames_witness:
  "record_decode (record_encode (Insert sample_header [1, 2]) @ [7]) =
     Ok (Some (Insert sample_header [1, 2], length (record_encode (Insert sample_header [1, 2])))) \<and>
   record_decode (take 4 (record_encode (Insert sample_header [1, 2]))) = Ok None"
  using record_frames [of "Insert sample_header [1, 2]" "[7]" 4] sample_insert_ok
  by (simp add: canonical_record_def record_encode_def)

text \<open>
  A torn tail is harmless. Reading from an offset between two records gives exactly the
  complete records after it, and the offset reported is the start of the torn one.
\<close>

lemma torn_tail:
  assumes "list_all canonical_record rs" and "canonical_record r" and "n < length (record_encode r)"
  shows "read_from (log_of (qs @ rs) @ take n (record_encode r)) (length (log_of qs)) =
    Ok (rs, length (log_of (qs @ rs)))"
  using recs.loop_torn_tail [OF assms] by (simp add: read_from_def log_of_concat)

lemma record_decode_oversized:
  assumes "\<not> fits_frame r" and "length (record_payload r) \<le> u32_max"
  shows "record_decode (record_encode r @ rest) =
    Err (InvalidValue ''log record payload exceeds the maximum frame size'')"
  using assms
  by (simp add: record_decode_def record_encode_def field_at_here le_val_le_bytes check_frame_len_def
      fits_frame_def)

text \<open>
  An oversized record poisons the log. The encoder accepts a record above the frame cap, the
  decoder refuses it, so once appended no read from in front of it ever succeeds again.
\<close>

lemma oversized_record_poisons_log:
  assumes "list_all canonical_record rs" and "\<not> fits_frame r" and "length (record_payload r) \<le> u32_max"
  shows "read_from (log_of (rs @ r # qs)) 0 =
    Err (InvalidValue ''log record payload exceeds the maximum frame size'')"
proof -
  have "read_records (record_encode r @ concat (map record_encode qs)) =
      Err (InvalidValue ''log record payload exceeds the maximum frame size'')"
    by (subst read_records.simps) (simp add: record_decode_oversized [OF assms(2,3)])
  then show ?thesis
    using recs.loop_append [OF assms(1)] by (simp add: read_from_def log_of_concat)
qed

end
