(* ===== verification/Gems_Raft.thy ===== *)
theory Gems_Raft
  imports Gems_Record
begin

text \<open>
  \<open>RaftCore\<close> of \<^verbatim>\<open>gems-cluster/src/raft.rs\<close>: the consensus state machine,
  one definition per method. A method that mutates the node returns the new node; a method
  that can panic (the slice \<^verbatim>\<open>self.log[prev..]\<close>, the index in
  \<^verbatim>\<open>take_newly_committed\<close>) returns an \<open>outcome\<close>. Terms and indices are natural
  numbers; the additions on values that come from the wire or grow for ever are written with
  the wrap-around of the release build (\<open>wrap64\<close>, \<open>wrap32\<close>). Log index \<open>i\<close> of the
  code is position \<open>i - 1\<close> of the list.
\<close>

section \<open>Data\<close>

type_synonym node_id = nat

datatype role = Follower | Candidate | Leader

record log_entry =
  entry_term :: nat
  command :: log_record

datatype rpc =
    RequestVoteRequest (rv_term: nat) (candidate_id: node_id) (last_log_index: nat) (last_log_term: nat)
  | RequestVoteResponse (rv_term: nat) (vote_granted: bool) (voter_id: node_id)
  | AppendEntriesRequest (rv_term: nat) (leader_id: node_id) (prev_log_index: nat)
      (prev_log_term: nat) (entries: "log_entry list") (leader_commit: nat)
  | AppendEntriesResponse (rv_term: nat) (success: bool) (match_idx: nat) (follower_id: node_id)

record envelope =
  env_from :: node_id
  env_to :: node_id
  env_rpc :: rpc

datatype raft_error = NotLeader

record raft_core =
  rid :: node_id
  peers :: "node_id list"
  current_term :: nat
  voted_for :: "node_id option"
  rlog :: "log_entry list"
  commit_index :: nat
  last_applied :: nat
  role :: role
  votes_received :: "node_id set"
  next_index :: "node_id \<rightharpoonup> nat"
  match_index :: "node_id \<rightharpoonup> nat"
  election_elapsed :: nat
  election_timeout :: nat
  heartbeat_elapsed :: nat
  heartbeat_interval :: nat

type_synonym 'a raft_result = "(raft_error, 'a) outcome"

definition wrap32 :: "nat \<Rightarrow> nat" where
  "wrap32 n = n mod 4294967296"

section \<open>Construction and small queries\<close>

definition raft_new :: "node_id \<Rightarrow> node_id list \<Rightarrow> nat \<Rightarrow> nat \<Rightarrow> raft_core" where
  "raft_new i ps timeout interval =
     \<lparr> rid = i, peers = ps, current_term = 0, voted_for = None, rlog = [],
       commit_index = 0, last_applied = 0, role = Follower, votes_received = {},
       next_index = Map.empty, match_index = Map.empty,
       election_elapsed = 0, election_timeout = timeout,
       heartbeat_elapsed = 0, heartbeat_interval = interval \<rparr>"

definition raft_restore ::
  "node_id \<Rightarrow> node_id list \<Rightarrow> nat \<Rightarrow> nat \<Rightarrow> nat \<Rightarrow> node_id option \<Rightarrow> log_entry list \<Rightarrow> raft_core" where
  "raft_restore i ps timeout interval term vote lg =
     (raft_new i ps timeout interval)\<lparr>current_term := term, voted_for := vote, rlog := lg\<rparr>"

definition persistent_state :: "raft_core \<Rightarrow> nat \<times> node_id option \<times> log_entry list" where
  "persistent_state c = (current_term c, voted_for c, rlog c)"

definition set_election_timeout :: "nat \<Rightarrow> raft_core \<Rightarrow> raft_core" where
  "set_election_timeout ticks c = c\<lparr>election_timeout := ticks\<rparr>"

definition my_last_log_index :: "raft_core \<Rightarrow> nat" where
  "my_last_log_index c = length (rlog c)"

definition my_last_log_term :: "raft_core \<Rightarrow> nat" where
  "my_last_log_term c = (if rlog c = [] then 0 else entry_term (last (rlog c)))"

definition term_at :: "log_entry list \<Rightarrow> nat \<Rightarrow> nat" where
  "term_at lg index =
     (if index = 0 then 0
      else case get_opt lg (index - 1) of Some e \<Rightarrow> entry_term e | None \<Rightarrow> 0)"

definition log_term_at :: "raft_core \<Rightarrow> nat \<Rightarrow> nat" where
  "log_term_at c index = term_at (rlog c) index"

definition envelope_to :: "raft_core \<Rightarrow> node_id \<Rightarrow> rpc \<Rightarrow> envelope" where
  "envelope_to c dest r = \<lparr> env_from = rid c, env_to = dest, env_rpc = r \<rparr>"

definition reset_election_timer :: "raft_core \<Rightarrow> raft_core" where
  "reset_election_timer c = c\<lparr>election_elapsed := 0\<rparr>"

section \<open>Role changes and replication\<close>

definition become_follower :: "nat \<Rightarrow> raft_core \<Rightarrow> raft_core" where
  "become_follower term c =
     reset_election_timer
       ((if term > current_term c then c\<lparr>current_term := term, voted_for := None\<rparr> else c)
          \<lparr>role := Follower\<rparr>)"

definition become_leader :: "raft_core \<Rightarrow> raft_core" where
  "become_leader c =
     (let next = my_last_log_index c + 1 in
      c\<lparr>role := Leader,
        next_index := map_of (map (\<lambda>p. (p, next)) (peers c)),
        match_index := map_of (map (\<lambda>p. (p, 0)) (peers c)),
        heartbeat_elapsed := 0\<rparr>)"

definition append_entries_for :: "raft_core \<Rightarrow> node_id \<Rightarrow> rpc raft_result" where
  "append_entries_for c follower =
     (let next = (case next_index c follower of
                    Some n \<Rightarrow> n | None \<Rightarrow> my_last_log_index c + 1);
          prev = next - 1;
          prev_term = log_term_at c prev
      in if prev > length (rlog c) then Panic
         else Ok (AppendEntriesRequest (current_term c) (rid c) prev prev_term
                    (drop prev (rlog c)) (commit_index c)))"

primrec envelopes_for :: "raft_core \<Rightarrow> node_id list \<Rightarrow> envelope list raft_result" where
  "envelopes_for c [] = Ok []"
| "envelopes_for c (p # ps) =
     obind (append_entries_for c p) (\<lambda>r.
     omap (\<lambda>es. envelope_to c p r # es) (envelopes_for c ps))"

definition replicate_to_all_peers :: "raft_core \<Rightarrow> envelope list raft_result" where
  "replicate_to_all_peers c = envelopes_for c (peers c)"

definition check_election_win :: "raft_core \<Rightarrow> (raft_core \<times> envelope list) raft_result" where
  "check_election_win c =
     (if role c \<noteq> Candidate then Ok (c, [])
      else let total = length (peers c) + 1; majority = total div 2 + 1 in
        if card (votes_received c) \<ge> majority
        then let c' = become_leader c in omap (\<lambda>es. (c', es)) (replicate_to_all_peers c')
        else Ok (c, []))"

definition start_election :: "raft_core \<Rightarrow> (raft_core \<times> envelope list) raft_result" where
  "start_election c =
     (let c1 = reset_election_timer
                 (c\<lparr>role := Candidate, current_term := wrap64 (current_term c + 1),
                    voted_for := Some (rid c), votes_received := {rid c}\<rparr>);
          msgs = map (\<lambda>p. envelope_to c1 p
                   (RequestVoteRequest (current_term c1) (rid c1)
                      (my_last_log_index c1) (my_last_log_term c1))) (peers c1)
      in omap (\<lambda>(c2, more). (c2, msgs @ more)) (check_election_win c1))"

definition tick :: "raft_core \<Rightarrow> (raft_core \<times> envelope list) raft_result" where
  "tick c =
     (case role c of
        Leader \<Rightarrow>
          (let c1 = c\<lparr>heartbeat_elapsed := wrap32 (heartbeat_elapsed c + 1)\<rparr> in
           if heartbeat_elapsed c1 \<ge> heartbeat_interval c1
           then let c2 = c1\<lparr>heartbeat_elapsed := 0\<rparr>
                in omap (\<lambda>es. (c2, es)) (replicate_to_all_peers c2)
           else Ok (c1, []))
      | _ \<Rightarrow>
          (let c1 = c\<lparr>election_elapsed := wrap32 (election_elapsed c + 1)\<rparr> in
           if election_elapsed c1 \<ge> election_timeout c1 then start_election c1
           else Ok (c1, [])))"

section \<open>Commit advancement and proposals\<close>

definition match_indices :: "raft_core \<Rightarrow> nat list" where
  "match_indices c =
     map (\<lambda>p. case match_index c p of Some n \<Rightarrow> n | None \<Rightarrow> 0) (peers c) @ [my_last_log_index c]"

definition commit_candidate :: "nat list \<Rightarrow> nat" where
  "commit_candidate ms =
     (let majority_count = length ms div 2 + 1 in rev (sort ms) ! (majority_count - 1))"

definition advance_commit_index :: "raft_core \<Rightarrow> raft_core" where
  "advance_commit_index c =
     (let candidate = commit_candidate (match_indices c) in
      if candidate > commit_index c \<and> log_term_at c candidate = current_term c
      then c\<lparr>commit_index := candidate\<rparr> else c)"

definition propose ::
  "log_record \<Rightarrow> raft_core \<Rightarrow> (raft_core \<times> nat \<times> envelope list) raft_result" where
  "propose cmd c =
     (if role c \<noteq> Leader then Err NotLeader else
      let c1 = c\<lparr>rlog := rlog c @ [\<lparr>entry_term = current_term c, command = cmd\<rparr>]\<rparr>;
          index = my_last_log_index c1
      in if peers c1 = [] then Ok (advance_commit_index c1, index, [])
         else omap (\<lambda>es. (c1, index, es)) (replicate_to_all_peers c1))"

section \<open>Handlers\<close>

definition candidate_log_is_up_to_date :: "raft_core \<Rightarrow> nat \<Rightarrow> nat \<Rightarrow> bool" where
  "candidate_log_is_up_to_date c last_index last_term =
     (let my_term = my_last_log_term c; my_index = my_last_log_index c in
      last_term > my_term \<or> (last_term = my_term \<and> last_index \<ge> my_index))"

definition handle_request_vote ::
  "nat \<Rightarrow> node_id \<Rightarrow> nat \<Rightarrow> nat \<Rightarrow> raft_core \<Rightarrow> raft_core \<times> nat \<times> bool" where
  "handle_request_vote term cand last_index last_term c =
     (let c1 = (if term > current_term c then become_follower term c else c) in
      if term = current_term c1 \<and> (voted_for c1 = None \<or> voted_for c1 = Some cand)
         \<and> candidate_log_is_up_to_date c1 last_index last_term
      then let c2 = reset_election_timer (c1\<lparr>voted_for := Some cand\<rparr>)
           in (c2, current_term c2, True)
      else (c1, current_term c1, False))"

definition handle_vote_response ::
  "nat \<Rightarrow> bool \<Rightarrow> node_id \<Rightarrow> raft_core \<Rightarrow> (raft_core \<times> envelope list) raft_result" where
  "handle_vote_response term granted voter c =
     (if term > current_term c then Ok (become_follower term c, [])
      else if role c \<noteq> Candidate \<or> term \<noteq> current_term c then Ok (c, [])
      else check_election_win
             (if granted then c\<lparr>votes_received := insert voter (votes_received c)\<rparr> else c))"

primrec append_loop :: "log_entry list \<Rightarrow> nat \<Rightarrow> log_entry list \<Rightarrow> log_entry list" where
  "append_loop [] index lg = lg"
| "append_loop (e # es) index lg =
     append_loop es (Suc index)
       (if index \<le> length lg then
          (if term_at lg index \<noteq> entry_term e then take (index - 1) lg @ [e] else lg)
        else lg @ [e])"

definition handle_append_entries ::
  "nat \<Rightarrow> nat \<Rightarrow> nat \<Rightarrow> log_entry list \<Rightarrow> nat \<Rightarrow> raft_core \<Rightarrow> raft_core \<times> nat \<times> bool \<times> nat" where
  "handle_append_entries term prev prev_term es lcommit c =
     (if term < current_term c then (c, current_term c, False, 0) else
      let c1 = become_follower term c in
      if prev > 0 \<and> (prev > my_last_log_index c1 \<or> log_term_at c1 prev \<noteq> prev_term)
      then (c1, current_term c1, False, 0)
      else
        let c2 = c1\<lparr>rlog := append_loop es (prev + 1) (rlog c1)\<rparr>;
            c3 = (if lcommit > commit_index c2
                  then c2\<lparr>commit_index := min lcommit (my_last_log_index c2)\<rparr> else c2)
        in (c3, current_term c3, True, my_last_log_index c3))"

definition handle_append_response ::
  "nat \<Rightarrow> bool \<Rightarrow> nat \<Rightarrow> node_id \<Rightarrow> raft_core \<Rightarrow> (raft_core \<times> envelope list) raft_result" where
  "handle_append_response term ok m follower c =
     (if term > current_term c then Ok (become_follower term c, [])
      else if role c \<noteq> Leader \<or> term \<noteq> current_term c then Ok (c, [])
      else if ok then
        let c1 = c\<lparr>match_index := (match_index c)(follower \<mapsto> m),
                   next_index := (next_index c)(follower \<mapsto> wrap64 (m + 1))\<rparr>;
            c2 = advance_commit_index c1
        in if commit_index c2 > commit_index c1
           then omap (\<lambda>es. (c2, es)) (replicate_to_all_peers c2)
           else Ok (c2, [])
      else
        let fallback = my_last_log_index c + 1;
            next = (case next_index c follower of Some n \<Rightarrow> n | None \<Rightarrow> fallback);
            c1 = c\<lparr>next_index := (next_index c)(follower \<mapsto> (if next > 1 then next - 1 else next))\<rparr>
        in omap (\<lambda>r. (c1, [envelope_to c1 follower r])) (append_entries_for c1 follower))"

definition receive :: "envelope \<Rightarrow> raft_core \<Rightarrow> (raft_core \<times> envelope list) raft_result" where
  "receive e c =
     (case env_rpc e of
        RequestVoteRequest term cand last_index last_term \<Rightarrow>
          (case handle_request_vote term cand last_index last_term c of (c', resp_term, granted) \<Rightarrow>
             Ok (c', [envelope_to c' (env_from e) (RequestVoteResponse resp_term granted (rid c'))]))
      | RequestVoteResponse term granted voter \<Rightarrow> handle_vote_response term granted voter c
      | AppendEntriesRequest term leader prev prev_term es lcommit \<Rightarrow>
          (case handle_append_entries term prev prev_term es lcommit c of (c', resp_term, ok, m) \<Rightarrow>
             Ok (c', [envelope_to c' (env_from e) (AppendEntriesResponse resp_term ok m (rid c'))]))
      | AppendEntriesResponse term ok m follower \<Rightarrow> handle_append_response term ok m follower c)"

section \<open>Handing committed entries over\<close>

function take_newly_committed :: "raft_core \<Rightarrow> (raft_core \<times> log_entry list) raft_result" where
  "take_newly_committed c =
     (if last_applied c < commit_index c then
        let c1 = c\<lparr>last_applied := last_applied c + 1\<rparr> in
        obind (index_at (rlog c1) (last_applied c1 - 1)) (\<lambda>e.
        omap (\<lambda>(c2, out). (c2, e # out)) (take_newly_committed c1))
      else Ok (c, []))"
  by pat_completeness auto
termination
  by (relation "measure (\<lambda>c. commit_index c - last_applied c)") auto

declare take_newly_committed.simps [simp del]

end
