(* ===== verification/Gems_Raft_Cluster.thy ===== *)
theory Gems_Raft_Cluster
  imports Gems_Raft
begin

text \<open>
  A cluster of \<open>RaftCore\<close> nodes over an asynchronous network: any message ever sent may
  be delivered at any time, any number of times, or never, and a node may crash at any point
  and restart from its persistent triple (term, vote, log), which the shell saves before it
  sends. The relation \<open>cluster_step\<close> has one rule per call the shell makes into a node.

  Two components of the state are history variables, written by every step and read by none:
  \<open>votes\<close> records each vote a node ever held, \<open>leaders\<close> the leader of each term and
  its log. The invariant over them yields election safety and the log-matching property for
  every reachable state.
\<close>

section \<open>The cluster\<close>

type_synonym vote_history = "(node_id \<times> nat \<times> node_id) set"
type_synonym leader_history = "nat \<rightharpoonup> node_id \<times> log_entry list"

record cluster =
  nodes :: "node_id \<Rightarrow> raft_core"
  net :: "envelope set"
  votes :: vote_history
  leaders :: leader_history

text \<open>A static membership: every member lists the others as its peers, once each.\<close>

definition membership :: "node_id set \<Rightarrow> (node_id \<Rightarrow> node_id list) \<Rightarrow> bool" where
  "membership M ps \<longleftrightarrow> finite M \<and> (\<forall>i \<in> M. distinct (ps i) \<and> set (ps i) = M - {i})"

definition current_vote :: "raft_core \<Rightarrow> vote_history" where
  "current_vote c = (case voted_for c of None \<Rightarrow> {} | Some x \<Rightarrow> {(rid c, current_term c, x)})"

definition note_leader :: "raft_core \<Rightarrow> leader_history \<Rightarrow> leader_history" where
  "note_leader c L = (if role c = Leader then L(current_term c \<mapsto> (rid c, rlog c)) else L)"

text \<open>Node \<open>i\<close> moves to \<open>c'\<close> and sends \<open>msgs\<close>.\<close>

definition move :: "cluster \<Rightarrow> node_id \<Rightarrow> raft_core \<Rightarrow> envelope list \<Rightarrow> cluster" where
  "move s i c' msgs =
     \<lparr> nodes = (nodes s)(i := c'), net = net s \<union> set msgs,
       votes = votes s \<union> current_vote c', leaders = note_leader c' (leaders s) \<rparr>"

definition init_cluster ::
  "(node_id \<Rightarrow> node_id list) \<Rightarrow> (node_id \<Rightarrow> nat) \<Rightarrow> (node_id \<Rightarrow> nat) \<Rightarrow> cluster" where
  "init_cluster ps timeout interval =
     \<lparr> nodes = (\<lambda>i. raft_new i (ps i) (timeout i) (interval i)), net = {},
       votes = {}, leaders = Map.empty \<rparr>"

inductive cluster_step :: "node_id set \<Rightarrow> cluster \<Rightarrow> cluster \<Rightarrow> bool" for M where
  ticks: "i \<in> M \<Longrightarrow> current_term (nodes s i) < u64_max \<Longrightarrow> tick (nodes s i) = Ok (c', msgs) \<Longrightarrow>
    cluster_step M s (move s i c' msgs)"
| proposes: "i \<in> M \<Longrightarrow> propose cmd (nodes s i) = Ok (c', idx, msgs) \<Longrightarrow>
    cluster_step M s (move s i c' msgs)"
| delivers: "i \<in> M \<Longrightarrow> e \<in> net s \<Longrightarrow> env_to e = i \<Longrightarrow> receive e (nodes s i) = Ok (c', msgs) \<Longrightarrow>
    cluster_step M s (move s i c' msgs)"
| applies: "i \<in> M \<Longrightarrow> take_newly_committed (nodes s i) = Ok (c', es) \<Longrightarrow>
    cluster_step M s (move s i c' [])"
| sets_timeout: "i \<in> M \<Longrightarrow>
    cluster_step M s (move s i (set_election_timeout n (nodes s i)) [])"
| restarts: "i \<in> M \<Longrightarrow> c = nodes s i \<Longrightarrow> persistent_state c = (term, vote, lg) \<Longrightarrow>
    cluster_step M s (move s i (raft_restore (rid c) (peers c) timeout interval term vote lg) [])"

inductive reachable ::
  "node_id set \<Rightarrow> (node_id \<Rightarrow> node_id list) \<Rightarrow> (node_id \<Rightarrow> nat) \<Rightarrow> (node_id \<Rightarrow> nat) \<Rightarrow> cluster \<Rightarrow> bool"
  for M ps timeout interval where
  start: "reachable M ps timeout interval (init_cluster ps timeout interval)"
| step: "reachable M ps timeout interval s \<Longrightarrow> cluster_step M s s' \<Longrightarrow>
    reachable M ps timeout interval s'"

section \<open>The invariant\<close>

definition quorum :: "node_id set \<Rightarrow> vote_history \<Rightarrow> nat \<Rightarrow> node_id \<Rightarrow> bool" where
  "quorum M V t i \<longleftrightarrow> (\<exists>Q. Q \<subseteq> M \<and> card M < 2 * card Q \<and> (\<forall>v \<in> Q. (v, t, i) \<in> V))"

text \<open>Every entry of a log agrees, with all before it, with its term's leader.\<close>

definition sound_log :: "leader_history \<Rightarrow> log_entry list \<Rightarrow> bool" where
  "sound_log L lg \<longleftrightarrow>
     (\<forall>k < length lg. \<exists>l lg'. L (entry_term (lg ! k)) = Some (l, lg') \<and> k < length lg' \<and>
        take (Suc k) lg = take (Suc k) lg')"

definition msg_ok :: "vote_history \<Rightarrow> leader_history \<Rightarrow> envelope \<Rightarrow> bool" where
  "msg_ok V L e =
     (case env_rpc e of
        RequestVoteRequest t cand li lt \<Rightarrow> cand = env_from e
      | RequestVoteResponse t granted v \<Rightarrow> granted \<longrightarrow> (v, t, env_to e) \<in> V
      | AppendEntriesRequest t l prev pt es lc \<Rightarrow>
          l = env_from e \<and> l \<noteq> env_to e \<and>
          (\<exists>lg. L t = Some (l, lg) \<and> prev + length es \<le> length lg \<and>
             es = take (length es) (drop prev lg) \<and> pt = term_at lg prev)
      | AppendEntriesResponse t ok m f \<Rightarrow> f \<noteq> env_to e)"

definition vote_inv :: "(node_id \<Rightarrow> raft_core) \<Rightarrow> vote_history \<Rightarrow> node_id set \<Rightarrow> bool" where
  "vote_inv N V M \<longleftrightarrow>
     (\<forall>i \<in> M. current_vote (N i) \<subseteq> V) \<and>
     (\<forall>i t x. (i, t, x) \<in> V \<longrightarrow> i \<in> M \<and> t \<le> current_term (N i) \<and>
        (t = current_term (N i) \<longrightarrow> voted_for (N i) = Some x)) \<and>
     (\<forall>i t x y. (i, t, x) \<in> V \<longrightarrow> (i, t, y) \<in> V \<longrightarrow> x = y)"

definition node_inv :: "vote_history \<Rightarrow> leader_history \<Rightarrow> raft_core \<Rightarrow> bool" where
  "node_inv V L c \<longleftrightarrow>
     (role c = Candidate \<longrightarrow> (\<forall>v \<in> votes_received c. (v, current_term c, rid c) \<in> V)) \<and>
     (role c = Leader \<longrightarrow> L (current_term c) = Some (rid c, rlog c)) \<and>
     sound_log L (rlog c)"

definition leader_inv :: "(node_id \<Rightarrow> raft_core) \<Rightarrow> vote_history \<Rightarrow> leader_history \<Rightarrow> node_id set \<Rightarrow> bool" where
  "leader_inv N V L M \<longleftrightarrow>
     (\<forall>t i lg. L t = Some (i, lg) \<longrightarrow> i \<in> M \<and> quorum M V t i \<and> sound_log L lg \<and>
        t \<le> current_term (N i) \<and> (t = current_term (N i) \<longrightarrow> role (N i) \<noteq> Candidate))"

definition config_inv :: "(node_id \<Rightarrow> raft_core) \<Rightarrow> node_id set \<Rightarrow> bool" where
  "config_inv N M \<longleftrightarrow> finite M \<and>
     (\<forall>i \<in> M. rid (N i) = i \<and> distinct (peers (N i)) \<and> set (peers (N i)) = M - {i})"

definition cluster_inv :: "node_id set \<Rightarrow> cluster \<Rightarrow> bool" where
  "cluster_inv M s \<longleftrightarrow>
     config_inv (nodes s) M \<and> vote_inv (nodes s) (votes s) M \<and>
     (\<forall>i \<in> M. node_inv (votes s) (leaders s) (nodes s i)) \<and>
     leader_inv (nodes s) (votes s) (leaders s) M \<and>
     (\<forall>e \<in> net s. msg_ok (votes s) (leaders s) e)"

section \<open>Moves of one node that keep it\<close>

definition leader_move :: "node_id set \<Rightarrow> vote_history \<Rightarrow> raft_core \<Rightarrow> raft_core \<Rightarrow> bool" where
  "leader_move M V c c' \<longleftrightarrow>
     (role c = Leader \<and> current_term c' = current_term c \<and>
        (\<exists>x. rlog c' = rlog c @ x \<and> (\<forall>e \<in> set x. entry_term e = current_term c))) \<or>
     (rlog c' = rlog c \<and> quorum M (V \<union> current_vote c') (current_term c') (rid c) \<and>
        (current_term c < current_term c' \<or> role c = Candidate))"

definition sends_ok :: "raft_core \<Rightarrow> envelope \<Rightarrow> bool" where
  "sends_ok c' e =
     (case env_rpc e of
        RequestVoteRequest t cand li lt \<Rightarrow> cand = env_from e
      | RequestVoteResponse t granted v \<Rightarrow>
          granted \<longrightarrow> v = rid c' \<and> t = current_term c' \<and> voted_for c' = Some (env_to e)
      | AppendEntriesRequest t l prev pt es lc \<Rightarrow>
          role c' = Leader \<and> t = current_term c' \<and> l = rid c' \<and> l = env_from e \<and> env_to e \<noteq> l \<and>
          prev \<le> length (rlog c') \<and> es = drop prev (rlog c') \<and> pt = term_at (rlog c') prev
      | AppendEntriesResponse t ok m f \<Rightarrow> f \<noteq> env_to e)"

definition node_move ::
  "node_id set \<Rightarrow> vote_history \<Rightarrow> leader_history \<Rightarrow> raft_core \<Rightarrow> raft_core \<Rightarrow> envelope list \<Rightarrow> bool" where
  "node_move M V L c c' msgs \<longleftrightarrow>
     rid c' = rid c \<and> peers c' = peers c \<and> current_term c \<le> current_term c' \<and>
     (current_term c' = current_term c \<longrightarrow> voted_for c = None \<or> voted_for c' = voted_for c) \<and>
     (role c' = Candidate \<longrightarrow>
        (\<forall>v \<in> votes_received c'. (v, current_term c', rid c) \<in> V \<union> current_vote c') \<and>
        (current_term c' = current_term c \<longrightarrow> role c = Candidate)) \<and>
     (role c' = Leader \<longrightarrow> leader_move M V c c') \<and>
     (role c' \<noteq> Leader \<longrightarrow> sound_log L (rlog c')) \<and>
     (\<forall>e \<in> set msgs. sends_ok c' e)"

definition extends :: "leader_history \<Rightarrow> leader_history \<Rightarrow> bool" where
  "extends L L' \<longleftrightarrow> (\<forall>t l lg. L t = Some (l, lg) \<longrightarrow> (\<exists>x. L' t = Some (l, lg @ x)))"

lemma extends_refl [simp]: "extends L L"
  by (auto simp: extends_def)

lemma sound_log_extends: "sound_log L lg \<Longrightarrow> extends L L' \<Longrightarrow> sound_log L' lg"
  unfolding sound_log_def extends_def
proof (intro allI impI)
  fix k
  assume s: "\<forall>k<length lg. \<exists>l lg'. L (entry_term (lg ! k)) = Some (l, lg') \<and> k < length lg' \<and>
      take (Suc k) lg = take (Suc k) lg'"
    and x: "\<forall>t l lg. L t = Some (l, lg) \<longrightarrow> (\<exists>x. L' t = Some (l, lg @ x))" and k: "k < length lg"
  from s k obtain l lg' where 1: "L (entry_term (lg ! k)) = Some (l, lg')" "k < length lg'"
    "take (Suc k) lg = take (Suc k) lg'" by blast
  with x obtain y where "L' (entry_term (lg ! k)) = Some (l, lg' @ y)" by blast
  with 1 show "\<exists>l lg'. L' (entry_term (lg ! k)) = Some (l, lg') \<and> k < length lg' \<and>
      take (Suc k) lg = take (Suc k) lg'"
    by (intro exI [of _ l] exI [of _ "lg' @ y"]) simp
qed

lemma quorum_mono: "quorum M V t i \<Longrightarrow> V \<subseteq> W \<Longrightarrow> quorum M W t i"
  by (auto simp: quorum_def)

text \<open>Two quorums of one term share a voter, who votes once.\<close>

lemma quorum_unique:
  assumes "finite M" and "quorum M V t i" and "quorum M V t j"
    and "\<And>v x y. (v, t, x) \<in> V \<Longrightarrow> (v, t, y) \<in> V \<Longrightarrow> x = y"
  shows "i = j"
proof -
  from assms obtain P Q where P: "P \<subseteq> M" "card M < 2 * card P" "\<forall>v\<in>P. (v, t, i) \<in> V"
    and Q: "Q \<subseteq> M" "card M < 2 * card Q" "\<forall>v\<in>Q. (v, t, j) \<in> V"
    by (auto simp: quorum_def)
  have "P \<inter> Q \<noteq> {}"
  proof
    assume "P \<inter> Q = {}"
    then have "card P + card Q = card (P \<union> Q)"
      using P Q assms(1) by (metis card_Un_disjoint finite_subset)
    also have "\<dots> \<le> card M" using P Q assms(1) by (simp add: card_mono)
    finally show False using P Q by linarith
  qed
  with P Q assms(4) show ?thesis by blast
qed

lemma msg_ok_mono: "msg_ok V L e \<Longrightarrow> V \<subseteq> W \<Longrightarrow> extends L L' \<Longrightarrow> msg_ok W L' e"
  unfolding msg_ok_def extends_def
  by (cases "env_rpc e") (fastforce simp: term_at_def get_opt_def nth_append)+

section \<open>A node move preserves the invariant\<close>

lemma vote_inv_move:
  assumes "vote_inv N V M" and "config_inv N M" and "i \<in> M" and "node_move M V L (N i) c' msgs"
  shows "vote_inv (N(i := c')) (V \<union> current_vote c') M"
proof -
  have rid: "rid c' = i" using assms by (auto simp: config_inv_def node_move_def)
  have le: "current_term (N i) \<le> current_term c'"
    and keep: "current_term c' = current_term (N i) \<Longrightarrow> voted_for (N i) = Some x \<Longrightarrow> voted_for c' = Some x" for x
    using assms(4) by (auto simp: node_move_def)
  have new: "current_vote c' = {(j, t, x). j = i \<and> t = current_term c' \<and> voted_for c' = Some x}"
    using rid by (auto simp: current_vote_def split: option.split)
  have old: "(j, t, x) \<in> V \<Longrightarrow> j \<in> M \<and> t \<le> current_term (N j) \<and>
      (t = current_term (N j) \<longrightarrow> voted_for (N j) = Some x)" for j t x
    using assms(1) by (auto simp: vote_inv_def)
  have agree: "(i, current_term c', x) \<in> V \<Longrightarrow> voted_for c' = Some x" for x
    using old [of i "current_term c'" x] le keep [of x] by fastforce
  have fun_V: "(j, t, x) \<in> V \<Longrightarrow> (j, t, y) \<in> V \<Longrightarrow> x = y" for j t x y
    using assms(1) by (auto simp: vote_inv_def)
  have a: "\<forall>j \<in> M. current_vote ((N(i := c')) j) \<subseteq> V \<union> current_vote c'"
    using assms(1) by (auto simp: vote_inv_def)
  have b: "(j, t, x) \<in> V \<union> current_vote c' \<Longrightarrow> j \<in> M \<and> t \<le> current_term ((N(i := c')) j) \<and>
      (t = current_term ((N(i := c')) j) \<longrightarrow> voted_for ((N(i := c')) j) = Some x)" for j t x
    using old [of j t x] assms(3) le agree by (auto simp: new)
  have c: "(j, t, x) \<in> V \<union> current_vote c' \<Longrightarrow> (j, t, y) \<in> V \<union> current_vote c' \<Longrightarrow> x = y" for j t x y
    using fun_V agree by (fastforce simp: new)
  show ?thesis unfolding vote_inv_def using a b c by blast
qed

lemma extends_move:
  assumes inv: "cluster_inv M s" and i: "i \<in> M"
    and mv: "node_move M (votes s) (leaders s) (nodes s i) c' msgs"
  shows "extends (leaders s) (note_leader c' (leaders s))"
proof (cases "role c' = Leader")
  case False
  then show ?thesis by (simp add: note_leader_def)
next
  case True
  let ?V' = "votes s \<union> current_vote c'" and ?t = "current_term c'"
  have rid: "rid (nodes s i) = i" "rid c' = i"
    using inv i mv by (auto simp: cluster_inv_def config_inv_def node_move_def)
  have v': "vote_inv ((nodes s)(i := c')) ?V' M"
    using inv i mv by (intro vote_inv_move) (auto simp: cluster_inv_def)
  have "\<exists>x. rlog c' = lg @ x \<and> l = i" if "leaders s ?t = Some (l, lg)" for l lg
  proof -
    from inv that have li: "quorum M (votes s) ?t l" "?t \<le> current_term (nodes s l)"
      "?t = current_term (nodes s l) \<longrightarrow> role (nodes s l) \<noteq> Candidate"
      by (auto simp: cluster_inv_def leader_inv_def)
    from mv True have "leader_move M (votes s) (nodes s i) c'" by (simp add: node_move_def)
    then consider
        x where "role (nodes s i) = Leader" "?t = current_term (nodes s i)"
          "rlog c' = rlog (nodes s i) @ x"
      | "quorum M ?V' ?t (rid (nodes s i))"
        "current_term (nodes s i) < ?t \<or> role (nodes s i) = Candidate"
      unfolding leader_move_def by blast
    then show ?thesis
    proof cases
      case 1
      then have "leaders s ?t = Some (i, rlog (nodes s i))"
        using inv i rid by (auto simp: cluster_inv_def node_inv_def)
      with 1 that show ?thesis by auto
    next
      case 2
      have "quorum M ?V' ?t l" using li(1) by (rule quorum_mono) simp
      moreover have "quorum M ?V' ?t i" using 2 rid by simp
      moreover have "finite M" using inv by (simp add: cluster_inv_def config_inv_def)
      moreover have "x = y" if "(v, ?t, x) \<in> ?V'" "(v, ?t, y) \<in> ?V'" for v x y
        using v' that unfolding vote_inv_def by blast
      ultimately have "l = i" by (metis quorum_unique)
      moreover have "current_term (nodes s i) \<le> ?t" using mv by (simp add: node_move_def)
      ultimately show ?thesis using li 2 by auto
    qed
  qed
  then show ?thesis
    using True rid by (fastforce simp: extends_def note_leader_def)
qed

lemma sound_log_snoc:
  assumes "sound_log L lg" and "L t = Some (l, lg @ x)" and "\<And>e. e \<in> set x \<Longrightarrow> entry_term e = t"
  shows "sound_log L (lg @ x)"
  unfolding sound_log_def
proof (intro allI impI)
  fix k assume k: "k < length (lg @ x)"
  show "\<exists>l lg'. L (entry_term ((lg @ x) ! k)) = Some (l, lg') \<and> k < length lg' \<and>
      take (Suc k) (lg @ x) = take (Suc k) lg'"
  proof (cases "k < length lg")
    case True
    with assms(1) show ?thesis by (auto simp: sound_log_def nth_append)
  next
    case False
    then have "(lg @ x) ! k \<in> set x" using k by (simp add: nth_append)
    with assms(2,3) k show ?thesis by auto
  qed
qed

lemma sound_log_move:
  assumes inv: "cluster_inv M s" and i: "i \<in> M"
    and mv: "node_move M (votes s) (leaders s) (nodes s i) c' msgs"
  shows "sound_log (note_leader c' (leaders s)) (rlog c')"
proof -
  note ext = extends_move [OF assms]
  have old: "sound_log (note_leader c' (leaders s)) (rlog (nodes s i))"
    using inv i ext by (auto simp: cluster_inv_def node_inv_def intro: sound_log_extends)
  show ?thesis
  proof (cases "role c' = Leader")
    case False
    with mv show ?thesis by (auto simp: node_move_def intro: sound_log_extends [OF _ ext])
  next
    case True
    with mv have "leader_move M (votes s) (nodes s i) c'" by (simp add: node_move_def)
    then show ?thesis
      using True old
      by (auto simp: leader_move_def note_leader_def intro!: sound_log_snoc)
  qed
qed

lemma leader_inv_move:
  assumes inv: "cluster_inv M s" and i: "i \<in> M"
    and mv: "node_move M (votes s) (leaders s) (nodes s i) c' msgs"
  shows "leader_inv ((nodes s)(i := c')) (votes s \<union> current_vote c')
      (note_leader c' (leaders s)) M"
  unfolding leader_inv_def
proof (intro allI impI)
  fix t j lg
  let ?L' = "note_leader c' (leaders s)" and ?V' = "votes s \<union> current_vote c'"
  assume lead: "?L' t = Some (j, lg)"
  have rid: "rid (nodes s i) = i" "rid c' = i"
    using inv i mv by (auto simp: cluster_inv_def config_inv_def node_move_def)
  have old: "leaders s t = Some (j, lg) \<Longrightarrow> j \<in> M \<and> quorum M (votes s) t j \<and> sound_log (leaders s) lg \<and>
      t \<le> current_term (nodes s j) \<and> (t = current_term (nodes s j) \<longrightarrow> role (nodes s j) \<noteq> Candidate)" for t j lg
    using inv by (auto simp: cluster_inv_def leader_inv_def)
  have le: "current_term (nodes s i) \<le> current_term c'"
    and cand: "role c' = Candidate \<Longrightarrow> current_term c' = current_term (nodes s i) \<Longrightarrow>
      role (nodes s i) = Candidate"
    using mv by (auto simp: node_move_def)
  show "j \<in> M \<and> quorum M ?V' t j \<and> sound_log ?L' lg \<and> t \<le> current_term (((nodes s)(i := c')) j) \<and>
      (t = current_term (((nodes s)(i := c')) j) \<longrightarrow> role (((nodes s)(i := c')) j) \<noteq> Candidate)"
  proof (cases "role c' = Leader \<and> t = current_term c'")
    case True
    with lead rid have j: "j = i" "lg = rlog c'" by (auto simp: note_leader_def)
    have "leader_move M (votes s) (nodes s i) c'" using True mv by (simp add: node_move_def)
    then consider "role (nodes s i) = Leader" "current_term c' = current_term (nodes s i)"
      | "quorum M ?V' t i"
      using True rid unfolding leader_move_def by auto
    then have "quorum M ?V' t i"
    proof cases
      case 1
      then have "leaders s t = Some (i, rlog (nodes s i))"
        using inv i rid True by (auto simp: cluster_inv_def node_inv_def)
      with old show ?thesis by (blast intro: quorum_mono)
    qed
    with True j i sound_log_move [OF assms] show ?thesis by simp
  next
    case False
    with lead have L: "leaders s t = Some (j, lg)" by (auto simp: note_leader_def split: if_splits)
    note o = old [OF L]
    have "t \<le> current_term (((nodes s)(i := c')) j)" using o le by auto
    moreover have "role (((nodes s)(i := c')) j) \<noteq> Candidate"
      if "t = current_term (((nodes s)(i := c')) j)"
      using that o le cand by (auto split: if_splits)
    ultimately show ?thesis
      using o extends_move [OF assms] by (auto intro: quorum_mono sound_log_extends)
  qed
qed

lemma node_inv_move:
  assumes inv: "cluster_inv M s" and i: "i \<in> M" and j: "j \<in> M"
    and mv: "node_move M (votes s) (leaders s) (nodes s i) c' msgs"
  shows "node_inv (votes s \<union> current_vote c') (note_leader c' (leaders s)) (((nodes s)(i := c')) j)"
proof (cases "j = i")
  case True
  have "rid c' = rid (nodes s i)" using mv by (simp add: node_move_def)
  then show ?thesis
    using True mv sound_log_move [OF inv i mv]
    by (auto simp: node_inv_def note_leader_def node_move_def)
next
  case False
  have o: "node_inv (votes s) (leaders s) (nodes s j)" using inv j by (auto simp: cluster_inv_def)
  have rid: "rid (nodes s j) = j" "rid c' = i"
    using inv i j mv by (auto simp: cluster_inv_def config_inv_def node_move_def)
  note ext = extends_move [OF inv i mv]
  have "note_leader c' (leaders s) (current_term (nodes s j)) = Some (j, rlog (nodes s j))"
    if "role (nodes s j) = Leader"
  proof -
    have L: "leaders s (current_term (nodes s j)) = Some (j, rlog (nodes s j))"
      using that o rid by (simp add: node_inv_def)
    with ext obtain x where
      "note_leader c' (leaders s) (current_term (nodes s j)) = Some (j, rlog (nodes s j) @ x)"
      unfolding extends_def by blast
    with L False rid show ?thesis by (auto simp: note_leader_def split: if_splits)
  qed
  then show ?thesis
    using False o rid ext by (auto simp: node_inv_def intro: sound_log_extends)
qed

lemma sent_msg_ok:
  assumes "sends_ok c' e" and "rid c' = i"
  shows "msg_ok (V \<union> current_vote c') (note_leader c' L) e"
  using assms
  by (cases "env_rpc e") (auto simp: sends_ok_def msg_ok_def current_vote_def note_leader_def)

theorem cluster_inv_move:
  assumes inv: "cluster_inv M s" and i: "i \<in> M"
    and mv: "node_move M (votes s) (leaders s) (nodes s i) c' msgs"
  shows "cluster_inv M (move s i c' msgs)"
proof -
  have rid: "rid c' = i"
    using inv i mv by (auto simp: cluster_inv_def config_inv_def node_move_def)
  have "config_inv ((nodes s)(i := c')) M"
    using inv i mv by (auto simp: cluster_inv_def config_inv_def node_move_def)
  moreover have "vote_inv ((nodes s)(i := c')) (votes s \<union> current_vote c') M"
    using inv i mv by (intro vote_inv_move) (auto simp: cluster_inv_def)
  moreover have "msg_ok (votes s \<union> current_vote c') (note_leader c' (leaders s)) e"
    if "e \<in> net s \<union> set msgs" for e
  proof (cases "e \<in> net s")
    case True
    then show ?thesis
      using inv extends_move [OF assms] by (auto simp: cluster_inv_def intro: msg_ok_mono)
  next
    case False
    with that mv rid show ?thesis by (auto simp: node_move_def intro: sent_msg_ok)
  qed
  ultimately show ?thesis
    using node_inv_move [OF inv i _ mv] leader_inv_move [OF assms]
    by (simp add: cluster_inv_def move_def)
qed

section \<open>What the operations do to a node\<close>

lemma become_follower_simps [simp]:
  "rid (become_follower t c) = rid c" "peers (become_follower t c) = peers c"
  "rlog (become_follower t c) = rlog c" "role (become_follower t c) = Follower"
  "current_term (become_follower t c) = max (current_term c) t"
  "voted_for (become_follower t c) = (if current_term c < t then None else voted_for c)"
  "commit_index (become_follower t c) = commit_index c"
  "last_applied (become_follower t c) = last_applied c"
  by (auto simp: become_follower_def reset_election_timer_def)

lemma become_leader_simps [simp]:
  "rid (become_leader c) = rid c" "peers (become_leader c) = peers c"
  "rlog (become_leader c) = rlog c" "role (become_leader c) = Leader"
  "current_term (become_leader c) = current_term c" "voted_for (become_leader c) = voted_for c"
  "commit_index (become_leader c) = commit_index c"
  by (auto simp: become_leader_def Let_def)

lemma advance_commit_index_simps [simp]:
  "rid (advance_commit_index c) = rid c" "peers (advance_commit_index c) = peers c"
  "rlog (advance_commit_index c) = rlog c" "role (advance_commit_index c) = role c"
  "current_term (advance_commit_index c) = current_term c"
  "voted_for (advance_commit_index c) = voted_for c"
  "votes_received (advance_commit_index c) = votes_received c"
  by (auto simp: advance_commit_index_def Let_def)

lemma current_vote_cong:
  "rid c' = rid c \<Longrightarrow> current_term c' = current_term c \<Longrightarrow> voted_for c' = voted_for c \<Longrightarrow>
     current_vote c' = current_vote c"
  by (auto simp: current_vote_def split: option.split)

lemma append_entries_for_Ok:
  "append_entries_for c f = Ok r \<Longrightarrow> \<exists>prev. prev \<le> length (rlog c) \<and>
     r = AppendEntriesRequest (current_term c) (rid c) prev (term_at (rlog c) prev)
           (drop prev (rlog c)) (commit_index c)"
  by (auto simp: append_entries_for_def log_term_at_def Let_def split: if_splits)

lemma append_envelope_sends_ok:
  assumes "append_entries_for c f = Ok r" and "role c = Leader" and "f \<noteq> rid c"
  shows "sends_ok c (envelope_to c f r)"
  using append_entries_for_Ok [OF assms(1)] assms(2,3)
  by (auto simp: sends_ok_def envelope_to_def)

lemma envelopes_for_sends_ok:
  "envelopes_for c ps = Ok es \<Longrightarrow> role c = Leader \<Longrightarrow> rid c \<notin> set ps \<Longrightarrow>
     \<forall>e \<in> set es. sends_ok c e"
proof (induction ps arbitrary: es)
  case Nil
  then show ?case by simp
next
  case (Cons p ps)
  then obtain r es' where "append_entries_for c p = Ok r" "envelopes_for c ps = Ok es'"
    "es = envelope_to c p r # es'"
    by (auto simp: obind_eq_Ok)
  with Cons show ?case by (auto intro: append_envelope_sends_ok)
qed

lemma replicate_sends_ok:
  "replicate_to_all_peers c = Ok es \<Longrightarrow> role c = Leader \<Longrightarrow> rid c \<notin> set (peers c) \<Longrightarrow>
     \<forall>e \<in> set es. sends_ok c e"
  unfolding replicate_to_all_peers_def by (rule envelopes_for_sends_ok)

definition member_conf :: "node_id set \<Rightarrow> raft_core \<Rightarrow> bool" where
  "member_conf M c \<longleftrightarrow> finite M \<and> rid c \<in> M \<and> distinct (peers c) \<and> set (peers c) = M - {rid c}"

lemma member_conf_card: "member_conf M c \<Longrightarrow> card M = length (peers c) + 1"
proof -
  assume "member_conf M c"
  then have "length (peers c) = card (M - {rid c})" "finite M" "rid c \<in> M"
    by (auto simp: member_conf_def distinct_card [symmetric])
  then show ?thesis by (metis Suc_eq_plus1 card.remove)
qed

text \<open>An election is won with the recorded votes of a majority.\<close>

lemma check_election_win_cases:
  assumes "check_election_win c = Ok (c', es)" and "member_conf M c"
    and "role c = Candidate"
    and "\<forall>v \<in> votes_received c. (v, current_term c, rid c) \<in> V"
    and "\<And>v t x. (v, t, x) \<in> V \<Longrightarrow> v \<in> M"
  shows "c' = c \<and> es = [] \<or>
    c' = become_leader c \<and> quorum M V (current_term c) (rid c) \<and> (\<forall>e \<in> set es. sends_ok c' e)"
proof (cases "card (votes_received c) \<ge> (length (peers c) + 1) div 2 + 1")
  case False
  with assms show ?thesis by (auto simp: check_election_win_def)
next
  case True
  then have "card M < 2 * card (votes_received c)"
    using member_conf_card [OF assms(2)] by linarith
  moreover have "votes_received c \<subseteq> M" using assms(4,5) by blast
  ultimately have q: "quorum M V (current_term c) (rid c)"
    using assms(4) unfolding quorum_def by blast
  from True assms(1,3) have w: "c' = become_leader c" "replicate_to_all_peers c' = Ok es"
    by (auto simp: check_election_win_def Let_def)
  have "\<forall>e \<in> set es. sends_ok c' e"
    by (rule replicate_sends_ok) (use w assms(2) in \<open>auto simp: member_conf_def\<close>)
  with w q show ?thesis by blast
qed

section \<open>Appending a leader's entries keeps a log sound\<close>

lemma sound_log_agree:
  assumes "sound_log L lg" and "sound_log L lg'" and "k < length lg" and "k < length lg'"
    and "entry_term (lg ! k) = entry_term (lg' ! k)"
  shows "take (Suc k) lg = take (Suc k) lg'"
proof -
  from assms(1,3) obtain l e where "L (entry_term (lg ! k)) = Some (l, e)"
    "take (Suc k) lg = take (Suc k) e" unfolding sound_log_def by blast
  moreover from assms(2,4) obtain l' e' where "L (entry_term (lg' ! k)) = Some (l', e')"
    "take (Suc k) lg' = take (Suc k) e'" unfolding sound_log_def by blast
  ultimately show ?thesis using assms(5) by simp
qed

lemma sound_log_take: "sound_log L lg \<Longrightarrow> sound_log L (take n lg)"
  by (auto simp: sound_log_def min_def)

lemma term_at_Suc: "k < length lg \<Longrightarrow> term_at lg (Suc k) = entry_term (lg ! k)"
  by (simp add: term_at_def get_opt_def)

lemma append_loop_sound:
  assumes "sound_log L lead" and "sound_log L lg" and "take p lg = take p lead" and "p \<le> length lg"
    and "p + length es \<le> length lead" and "es = take (length es) (drop p lead)"
  shows "sound_log L (append_loop es (p + 1) lg)"
  using assms
proof (induction es arbitrary: p lg)
  case Nil
  then show ?case by simp
next
  case (Cons e es)
  have p: "p < length lead" using Cons.prems(5) by simp
  have e: "e = lead ! p" "es = take (length es) (drop (Suc p) lead)"
    using Cons.prems(6) p by (auto simp: Cons_nth_drop_Suc [symmetric])
  let ?lg = "if p + 1 \<le> length lg then
      (if term_at lg (p + 1) \<noteq> entry_term e then take (p + 1 - 1) lg @ [e] else lg) else lg @ [e]"
  have new: "?lg = lg \<and> p < length lg \<and> take (Suc p) lg = take (Suc p) lead \<or>
      ?lg = take (Suc p) lead"
  proof (cases "p < length lg \<and> entry_term (lg ! p) = entry_term e")
    case True
    then have "take (Suc p) lg = take (Suc p) lead"
      using sound_log_agree [OF Cons.prems(2,1)] p e by simp
    with True show ?thesis by (simp add: term_at_Suc)
  next
    case False
    then have "?lg = take p lg @ [e]" using Cons.prems(4) by (auto simp: term_at_Suc)
    also have "\<dots> = take (Suc p) lead"
      using Cons.prems(3) p e by (simp add: take_Suc_conv_app_nth)
    finally show ?thesis by (rule disjI2)
  qed
  obtain lg2 where lg2: "?lg = lg2" by simp
  then have "lg2 = lg \<and> p < length lg \<and> take (Suc p) lg = take (Suc p) lead \<or>
      lg2 = take (Suc p) lead" using new by metis
  then have "sound_log L lg2" and "take (Suc p) lg2 = take (Suc p) lead" and "Suc p \<le> length lg2"
    using Cons.prems(1,2) p by (auto intro: sound_log_take)
  then have "sound_log L (append_loop es (Suc p + 1) lg2)"
    using Cons.IH [OF Cons.prems(1), of lg2 "Suc p"] Cons.prems(5) e by simp
  then show ?case by (simp only: append_loop.simps lg2 Suc_eq_plus1)
qed

section \<open>Each operation is a node move\<close>

text \<open>What the invariant says of one node and of a message to it.\<close>

definition node_ok :: "node_id set \<Rightarrow> vote_history \<Rightarrow> leader_history \<Rightarrow> raft_core \<Rightarrow> bool" where
  "node_ok M V L c \<longleftrightarrow> member_conf M c \<and> node_inv V L c \<and> current_vote c \<subseteq> V \<and>
     (\<forall>v t x. (v, t, x) \<in> V \<longrightarrow> v \<in> M) \<and> (\<forall>t i lg. L t = Some (i, lg) \<longrightarrow> sound_log L lg)"

lemma node_ok_of_inv: "cluster_inv M s \<Longrightarrow> i \<in> M \<Longrightarrow> node_ok M (votes s) (leaders s) (nodes s i)"
  unfolding node_ok_def member_conf_def cluster_inv_def config_inv_def vote_inv_def leader_inv_def
  by auto

lemma node_move_role_kept:
  assumes "node_ok M V L c" and "rid c' = rid c" and "peers c' = peers c"
    and "current_term c' = current_term c" and "voted_for c' = voted_for c"
    and "rlog c' = rlog c" and "role c' = role c" and "votes_received c' = votes_received c"
    and "\<forall>e \<in> set msgs. sends_ok c' e"
  shows "node_move M V L c c' msgs"
  using assms by (auto simp: node_move_def node_ok_def node_inv_def leader_move_def)

lemma set_election_timeout_move:
  "node_ok M V L c \<Longrightarrow> node_move M V L c (set_election_timeout n c) []"
  by (rule node_move_role_kept) (auto simp: set_election_timeout_def)

lemma restart_move:
  "node_ok M V L c \<Longrightarrow> persistent_state c = (term, vote, lg) \<Longrightarrow>
     node_move M V L c (raft_restore (rid c) (peers c) timeout interval term vote lg) []"
  by (auto simp: node_move_def node_ok_def node_inv_def raft_restore_def raft_new_def
      persistent_state_def)

lemma take_newly_committed_frame:
  "take_newly_committed c = Ok (c', es) \<Longrightarrow>
     \<exists>n. c' = c\<lparr>last_applied := n\<rparr>"
proof (induction c arbitrary: c' es rule: take_newly_committed.induct)
  case (1 c)
  show ?case
  proof (cases "last_applied c < commit_index c")
    case False
    with "1.prems" have "c' = c\<lparr>last_applied := last_applied c\<rparr>"
      by (simp add: take_newly_committed.simps [of c])
    then show ?thesis ..
  next
    case True
    with "1.prems" obtain e out where
      e: "index_at (rlog c) (last_applied c) = (Ok e :: log_entry raft_result)"
      and r: "take_newly_committed (c\<lparr>last_applied := last_applied c + 1\<rparr>) = Ok (c', out)"
      by (auto simp: take_newly_committed.simps [of c] Let_def obind_eq_Ok)
    from "1.IH" [OF True refl _ r] e show ?thesis by simp
  qed
qed

lemma applies_move:
  assumes "node_ok M V L c" and "take_newly_committed c = Ok (c', es)"
  shows "node_move M V L c c' []"
proof -
  obtain n where "c' = c\<lparr>last_applied := n\<rparr>" using take_newly_committed_frame assms(2) by blast
  then show ?thesis by (intro node_move_role_kept [OF assms(1)]) auto
qed

lemma propose_move:
  assumes "node_ok M V L c" and "propose cmd c = Ok (c', idx, msgs)"
  shows "node_move M V L c c' msgs"
proof -
  let ?c1 = "c\<lparr>rlog := rlog c @ [\<lparr>entry_term = current_term c, command = cmd\<rparr>]\<rparr>"
  have lead: "role c = Leader" and conf: "rid c \<notin> set (peers c)"
    using assms by (auto simp: propose_def node_ok_def member_conf_def split: if_splits)
  have "(c' = ?c1 \<or> c' = advance_commit_index ?c1) \<and> (\<forall>e \<in> set msgs. sends_ok c' e)"
  proof (cases "peers c = []")
    case True
    with assms(2) lead show ?thesis by (auto simp: propose_def Let_def)
  next
    case False
    with assms(2) lead have "c' = ?c1" "replicate_to_all_peers ?c1 = Ok msgs"
      by (auto simp: propose_def Let_def)
    then show ?thesis using replicate_sends_ok [of ?c1 msgs] lead conf by auto
  qed
  then show ?thesis
    using lead by (auto simp: node_move_def leader_move_def)
qed

lemma start_election_move:
  assumes ok: "node_ok M V L c" and st: "start_election c = Ok (c', msgs)"
    and t: "current_term c < u64_max"
  shows "node_move M V L c c' msgs"
proof -
  define c1 where "c1 = reset_election_timer (c\<lparr>role := Candidate, current_term := wrap64 (current_term c + 1),
      voted_for := Some (rid c), votes_received := {rid c}\<rparr>)"
  have tm: "current_term c1 = current_term c + 1"
    using t by (simp add: reset_election_timer_def c1_def)
  have c1 [simp]: "rid c1 = rid c" "peers c1 = peers c" "rlog c1 = rlog c" "role c1 = Candidate"
    "voted_for c1 = Some (rid c)" "votes_received c1 = {rid c}"
    by (auto simp: reset_election_timer_def c1_def)
  define reqs where "reqs = map (\<lambda>p. envelope_to c1 p (RequestVoteRequest (current_term c1) (rid c1)
      (my_last_log_index c1) (my_last_log_term c1))) (peers c1)"
  from st obtain more where win: "check_election_win c1 = Ok (c', more)" and msgs: "msgs = reqs @ more"
    unfolding start_election_def Let_def c1_def [symmetric] reqs_def [symmetric] by auto
  have reqs: "\<forall>e \<in> set reqs. sends_ok c' e"
    by (auto simp: reqs_def sends_ok_def envelope_to_def)
  let ?W = "V \<union> current_vote c1"
  have members: "v \<in> M" if "(v, t, x) \<in> V" for v t x
    using ok that unfolding node_ok_def by blast
  have "c' = c1 \<and> more = [] \<or> c' = become_leader c1 \<and>
      quorum M ?W (current_term c1) (rid c1) \<and> (\<forall>e \<in> set more. sends_ok c' e)"
    using ok by (intro check_election_win_cases [OF win])
      (auto simp: node_ok_def member_conf_def current_vote_def intro: members)
  then show ?thesis
  proof (elim disjE conjE)
    assume "c' = c1" "more = []"
    with ok reqs msgs c1 tm show ?thesis
      by (auto simp: node_move_def node_ok_def node_inv_def current_vote_def)
  next
    assume w: "c' = become_leader c1" "quorum M ?W (current_term c1) (rid c1)"
      "\<forall>e \<in> set more. sends_ok c' e"
    have "current_vote c' = current_vote c1" using w(1) by (intro current_vote_cong) auto
    with w reqs msgs c1 tm show ?thesis
      by (auto simp: node_move_def leader_move_def)
  qed
qed

lemma node_ok_elapsed:
  "node_ok M V L (c\<lparr>election_elapsed := n\<rparr>) = node_ok M V L c"
  using current_vote_cong [of "c\<lparr>election_elapsed := n\<rparr>" c]
  by (simp add: node_ok_def member_conf_def node_inv_def)

lemma node_move_elapsed:
  "node_move M V L (c\<lparr>election_elapsed := n\<rparr>) c' msgs = node_move M V L c c' msgs"
  by (simp add: node_move_def leader_move_def)

lemma tick_move:
  assumes ok: "node_ok M V L c" and tk: "tick c = Ok (c', msgs)" and t: "current_term c < u64_max"
  shows "node_move M V L c c' msgs"
proof (cases "role c = Leader")
  case True
  let ?c1 = "c\<lparr>heartbeat_elapsed := wrap32 (heartbeat_elapsed c + 1)\<rparr>"
  let ?c2 = "?c1\<lparr>heartbeat_elapsed := 0\<rparr>"
  from tk True have "c' = ?c1 \<and> msgs = [] \<or> c' = ?c2 \<and> replicate_to_all_peers ?c2 = Ok msgs"
    by (auto simp: tick_def Let_def split: if_splits)
  then show ?thesis
  proof (elim disjE conjE)
    assume "c' = ?c1" "msgs = []"
    then show ?thesis by (intro node_move_role_kept [OF ok]) auto
  next
    assume r: "c' = ?c2" "replicate_to_all_peers ?c2 = Ok msgs"
    have "\<forall>e \<in> set msgs. sends_ok c' e"
      using replicate_sends_ok [OF r(2)] True ok r(1) by (simp add: node_ok_def member_conf_def)
    with r(1) show ?thesis by (intro node_move_role_kept [OF ok]) auto
  qed
next
  case False
  let ?c1 = "c\<lparr>election_elapsed := wrap32 (election_elapsed c + 1)\<rparr>"
  from tk False have "c' = ?c1 \<and> msgs = [] \<or> start_election ?c1 = Ok (c', msgs)"
    by (auto simp: tick_def Let_def split: role.splits if_splits)
  then show ?thesis
  proof (elim disjE conjE)
    assume "c' = ?c1" "msgs = []"
    then show ?thesis by (intro node_move_role_kept [OF ok]) auto
  next
    assume "start_election ?c1 = Ok (c', msgs)"
    then have "node_move M V L ?c1 c' msgs"
      using ok t by (intro start_election_move) (auto simp: node_ok_elapsed)
    then show ?thesis by (simp only: node_move_elapsed)
  qed
qed

lemma become_follower_move:
  "node_ok M V L c \<Longrightarrow> node_move M V L c (become_follower t c) []"
  by (auto simp: node_move_def node_ok_def node_inv_def)

lemma node_move_vote:
  assumes mv: "node_move M V L c c1 []"
    and eq: "rid c' = rid c1" "peers c' = peers c1" "current_term c' = current_term c1"
      "role c' = role c1" "rlog c' = rlog c1" "votes_received c' = votes_received c1"
    and vote: "voted_for c1 = None \<or> voted_for c1 = voted_for c'"
    and send: "\<forall>e \<in> set msgs. sends_ok c' e"
  shows "node_move M V L c c' msgs"
proof -
  have sub: "V \<union> current_vote c1 \<subseteq> V \<union> current_vote c'"
    using vote by (auto simp: current_vote_def eq split: option.splits)
  have "leader_move M V c c'" if "leader_move M V c c1"
    using that quorum_mono [OF _ sub] by (simp add: leader_move_def eq) blast
  moreover have "v \<in> V \<union> current_vote c'" if "v \<in> V \<union> current_vote c1" for v
    using sub that by blast
  ultimately show ?thesis
    using mv vote send unfolding node_move_def eq by (intro conjI) auto
qed

lemma request_vote_move:
  assumes ok: "node_ok M V L c"
    and h: "handle_request_vote term cand li lt c = (c', rt, granted)" and f: "fr = cand"
  shows "node_move M V L c c' [envelope_to c' fr (RequestVoteResponse rt granted (rid c'))]"
proof -
  define c1 where "c1 = (if current_term c < term then become_follower term c else c)"
  have kept: "node_move M V L c c1 []"
    using become_follower_move [OF ok] node_move_role_kept [OF ok, of c]
    by (simp add: c1_def)
  consider "c' = c1" "\<not> granted"
    | "c' = reset_election_timer (c1\<lparr>voted_for := Some cand\<rparr>)" "rt = current_term c'"
      "voted_for c1 = None \<or> voted_for c1 = Some cand"
    using h unfolding handle_request_vote_def Let_def c1_def [symmetric]
    by (auto split: if_splits)
  then show ?thesis
  proof cases
    case 1
    with kept show ?thesis by (simp add: node_move_def sends_ok_def envelope_to_def)
  next
    case 2
    have c': "rid c' = rid c1" "peers c' = peers c1" "current_term c' = current_term c1"
      "role c' = role c1" "rlog c' = rlog c1" "votes_received c' = votes_received c1"
      "voted_for c' = Some cand"
      using 2(1) by (auto simp: reset_election_timer_def)
    have "sends_ok c' (envelope_to c' fr (RequestVoteResponse rt granted (rid c')))"
      using 2(2) f c' by (simp add: sends_ok_def envelope_to_def)
    then show ?thesis
      using node_move_vote [OF kept c'(1-6)] 2(3) c'(7) by simp
  qed
qed

lemma handle_vote_response_cases:
  "handle_vote_response term granted voter c = Ok (c', msgs) \<Longrightarrow>
     c' = become_follower term c \<and> msgs = [] \<or> c' = c \<and> msgs = [] \<or>
     check_election_win (if granted then c\<lparr>votes_received := insert voter (votes_received c)\<rparr>
       else c) = Ok (c', msgs) \<and> role c = Candidate \<and> term = current_term c"
  unfolding handle_vote_response_def by (simp only: split: if_split_asm) simp_all

lemma vote_response_move:
  assumes ok: "node_ok M V L c"
    and h: "handle_vote_response term granted voter c = Ok (c', msgs)"
    and vote: "granted \<Longrightarrow> (voter, term, rid c) \<in> V"
  shows "node_move M V L c c' msgs"
proof -
  define c1 where
    "c1 = (if granted then c\<lparr>votes_received := insert voter (votes_received c)\<rparr> else c)"
  have c1 [simp]: "rid c1 = rid c" "peers c1 = peers c" "rlog c1 = rlog c" "role c1 = role c"
    "voted_for c1 = voted_for c" "current_term c1 = current_term c"
    by (auto simp: c1_def)
  consider "c' = become_follower term c" "msgs = []" | "c' = c" "msgs = []"
    | "check_election_win c1 = Ok (c', msgs)" "role c = Candidate" "term = current_term c"
    using handle_vote_response_cases [OF h] unfolding c1_def by blast
  then show ?thesis
  proof cases
    case 1
    with become_follower_move [OF ok] show ?thesis by simp
  next
    case 2
    then show ?thesis by (intro node_move_role_kept [OF ok]) auto
  next
    case 3
    have members: "v \<in> M" if "(v, t, x) \<in> V" for v t x
      using ok that unfolding node_ok_def by blast
    have votes: "\<forall>v \<in> votes_received c1. (v, current_term c1, rid c1) \<in> V"
      using 3 ok vote by (auto simp: node_ok_def node_inv_def c1_def split: if_splits)
    have "c' = c1 \<and> msgs = [] \<or> c' = become_leader c1 \<and>
        quorum M V (current_term c1) (rid c1) \<and> (\<forall>e \<in> set msgs. sends_ok c' e)"
      using ok 3 votes by (intro check_election_win_cases [OF 3(1)])
        (auto simp: node_ok_def member_conf_def intro: members)
    then show ?thesis
    proof (elim disjE conjE)
      assume "c' = c1" "msgs = []"
      with ok votes 3 show ?thesis
        by (auto simp: node_move_def node_ok_def node_inv_def)
    next
      assume w: "c' = become_leader c1" "quorum M V (current_term c1) (rid c1)"
        "\<forall>e \<in> set msgs. sends_ok c' e"
      then have "quorum M (V \<union> current_vote c') (current_term c) (rid c)"
        by (auto intro: quorum_mono)
      with w 3 show ?thesis
        by (auto simp: node_move_def leader_move_def)
    qed
  qed
qed

text \<open>The handler of AppendEntries, on every branch.\<close>

lemma handle_append_entries_cases:
  assumes "handle_append_entries term prev pt es lc c = (c', rt, ok, m)"
  shows "term < current_term c \<and> c' = c \<and> \<not> ok \<or>
    current_term c \<le> term \<and> c' = become_follower term c \<and> \<not> ok \<or>
    current_term c \<le> term \<and> (prev = 0 \<or> prev \<le> length (rlog c) \<and> term_at (rlog c) prev = pt) \<and>
      (\<exists>n. c' = become_follower term c\<lparr>rlog := append_loop es (prev + 1) (rlog c), commit_index := n\<rparr>) \<and>
      ok"
proof -
  let ?c2 = "become_follower term c\<lparr>rlog := append_loop es (prev + 1) (rlog c)\<rparr>"
  have "\<exists>n. ?c2 = ?c2\<lparr>commit_index := n\<rparr>"
    by (rule exI [of _ "commit_index ?c2"]) simp
  with assms show ?thesis
    unfolding handle_append_entries_def Let_def my_last_log_index_def log_term_at_def
    by (simp split: if_split_asm) (metis not_less)+
qed

lemma append_entries_move:
  assumes nd: "node_ok M V L c"
    and h: "handle_append_entries term prev pt es lc c = (c', rt, ok, m)"
    and fr: "fr \<noteq> rid c"
    and msg: "L term = Some (l, lead)" "l \<noteq> rid c" "prev + length es \<le> length lead"
      "es = take (length es) (drop prev lead)" "pt = term_at lead prev"
  shows "node_move M V L c c' [envelope_to c' fr (AppendEntriesResponse rt ok m (rid c'))]"
proof -
  consider "c' = c" | "c' = become_follower term c"
    | n where "current_term c \<le> term" "prev = 0 \<or> prev \<le> length (rlog c) \<and> term_at (rlog c) prev = pt"
      "c' = become_follower term c\<lparr>rlog := append_loop es (prev + 1) (rlog c), commit_index := n\<rparr>"
    using handle_append_entries_cases [OF h] by blast
  moreover from this have "rid c' = rid c" by cases auto
  then have snd: "sends_ok c' (envelope_to c' fr (AppendEntriesResponse rt ok m (rid c')))"
    using fr by (simp add: sends_ok_def envelope_to_def)
  ultimately show ?thesis
  proof cases
    case 1
    with snd show ?thesis by (intro node_move_role_kept [OF nd]) auto
  next
    case 2
    with become_follower_move [OF nd] snd show ?thesis by (simp add: node_move_def)
  next
    case (3 n)
    have snd_lead: "sound_log L lead" and snd_c: "sound_log L (rlog c)"
      using nd msg(1) by (auto simp: node_ok_def node_inv_def)
    have "prev \<le> length (rlog c) \<and> take prev (rlog c) = take prev lead"
    proof (cases prev)
      case (Suc k)
      with 3 have k: "k < length (rlog c)" "k < length lead" using msg(3) by auto
      with Suc 3(2) msg(5) have "entry_term (rlog c ! k) = entry_term (lead ! k)"
        by (simp add: term_at_Suc)
      with sound_log_agree [OF snd_c snd_lead] k Suc show ?thesis by simp
    qed simp
    then have "sound_log L (append_loop es (prev + 1) (rlog c))"
      using append_loop_sound [OF snd_lead snd_c] msg by simp
    moreover have "role c' = Follower" "rid c' = rid c" "peers c' = peers c"
      "current_term c' = max (current_term c) term"
      "voted_for c' = (if current_term c < term then None else voted_for c)"
      "rlog c' = append_loop es (prev + 1) (rlog c)"
      using 3(3) by simp_all
    ultimately show ?thesis using snd 3(1) by (auto simp: node_move_def)
  qed
qed

lemma append_response_move:
  assumes nd: "node_ok M V L c"
    and h: "handle_append_response term ok m f c = Ok (c', msgs)" and f: "f \<noteq> rid c"
  shows "node_move M V L c c' msgs"
proof -
  have no_self: "rid c \<notin> set (peers c)" using nd by (simp add: node_ok_def member_conf_def)
  have kept: "node_move M V L c c' msgs"
    if "c' = c2" "role c = Leader" "rid c2 = rid c" "peers c2 = peers c" "rlog c2 = rlog c"
      "role c2 = role c" "voted_for c2 = voted_for c" "current_term c2 = current_term c"
      "votes_received c2 = votes_received c" "\<forall>e \<in> set msgs. sends_ok c2 e" for c2
    using that by (intro node_move_role_kept [OF nd]) simp_all
  consider "c' = become_follower term c" "msgs = []" | "c' = c" "msgs = []"
    | "role c = Leader" "ok" "current_term c = term" | "role c = Leader" "\<not> ok" "current_term c = term"
    using h unfolding handle_append_response_def by (auto split: if_split_asm)
  then show ?thesis
  proof cases
    case 1
    with become_follower_move [OF nd] show ?thesis by simp
  next
    case 2
    then show ?thesis by (intro node_move_role_kept [OF nd]) auto
  next
    case 3
    let ?c1 = "c\<lparr>match_index := (match_index c)(f \<mapsto> m), next_index := (next_index c)(f \<mapsto> wrap64 (m + 1))\<rparr>"
    have "c' = advance_commit_index ?c1 \<and> (msgs = [] \<or> replicate_to_all_peers c' = Ok msgs)"
      using h 3 by (auto simp: handle_append_response_def Let_def split: if_split_asm)
    then show ?thesis
      using 3 no_self by (intro kept [of "advance_commit_index ?c1"])
        (auto dest: replicate_sends_ok)
  next
    case 4
    obtain nx where "c' = c\<lparr>next_index := nx\<rparr> \<and>
        (\<exists>r. append_entries_for c' f = Ok r \<and> msgs = [envelope_to c' f r])"
      using h 4 by (auto simp: handle_append_response_def Let_def split: if_split_asm)
    moreover from this have "\<forall>e \<in> set msgs. sends_ok c' e"
      using 4 f by (auto intro!: append_envelope_sends_ok)
    ultimately show ?thesis
      using 4 by (intro kept [of "c\<lparr>next_index := nx\<rparr>"]) auto
  qed
qed

lemma receive_move:
  assumes nd: "node_ok M V L c" and msg: "msg_ok V L e" and dst: "env_to e = rid c"
    and r: "receive e c = Ok (c', msgs)"
  shows "node_move M V L c c' msgs"
proof (cases "env_rpc e")
  case (RequestVoteRequest t cand li lt)
  obtain d rt g where h: "handle_request_vote t cand li lt c = (d, rt, g)" by (metis prod_cases3)
  with r RequestVoteRequest
  have "c' = d" "msgs = [envelope_to d (env_from e) (RequestVoteResponse rt g (rid d))]"
    by (auto simp: receive_def)
  moreover have "env_from e = cand" using msg RequestVoteRequest by (simp add: msg_ok_def)
  ultimately show ?thesis using request_vote_move [OF nd h] by simp
next
  case (RequestVoteResponse t g v)
  with msg have "g \<Longrightarrow> (v, t, rid c) \<in> V" using dst by (simp add: msg_ok_def)
  then show ?thesis
    using r RequestVoteResponse by (auto simp: receive_def intro: vote_response_move [OF nd])
next
  case (AppendEntriesRequest t l prev pt es lc)
  obtain d rt ok m where h: "handle_append_entries t prev pt es lc c = (d, rt, ok, m)"
    by (metis prod_cases4)
  with r AppendEntriesRequest
  have "c' = d" "msgs = [envelope_to d (env_from e) (AppendEntriesResponse rt ok m (rid d))]"
    by (auto simp: receive_def)
  moreover have "l = env_from e \<and> l \<noteq> rid c \<and> (\<exists>lg. L t = Some (l, lg) \<and> prev + length es \<le> length lg \<and>
      es = take (length es) (drop prev lg) \<and> pt = term_at lg prev)"
    using msg AppendEntriesRequest dst by (auto simp: msg_ok_def)
  ultimately show ?thesis using append_entries_move [OF nd h] by blast
next
  case (AppendEntriesResponse t ok m f)
  with msg have "f \<noteq> rid c" using dst by (simp add: msg_ok_def)
  then show ?thesis
    using r AppendEntriesResponse
    by (auto simp: receive_def intro: append_response_move [OF nd])
qed

section \<open>Every reachable cluster satisfies the invariant\<close>

theorem cluster_inv_step:
  assumes inv: "cluster_inv M s" and st: "cluster_step M s s'"
  shows "cluster_inv M s'"
  using st
proof cases
  case (ticks i c' msgs)
  show ?thesis unfolding ticks(1)
    by (intro cluster_inv_move [OF inv] tick_move node_ok_of_inv [OF inv] ticks)
next
  case (proposes i cmd c' idx msgs)
  show ?thesis unfolding proposes(1)
    by (intro cluster_inv_move [OF inv] propose_move [OF _ proposes(3)] node_ok_of_inv [OF inv] proposes)
next
  case (delivers i e c' msgs)
  have "rid (nodes s i) = i" using inv delivers by (simp add: cluster_inv_def config_inv_def)
  then have "node_move M (votes s) (leaders s) (nodes s i) c' msgs"
    using inv delivers by (intro receive_move [of _ _ _ _ e] node_ok_of_inv [OF inv])
      (auto simp: cluster_inv_def)
  then show ?thesis unfolding delivers(1) by (intro cluster_inv_move [OF inv] delivers)
next
  case (applies i c' es)
  show ?thesis unfolding applies(1)
    by (intro cluster_inv_move [OF inv] applies_move [OF _ applies(3)] node_ok_of_inv [OF inv] applies)
next
  case (sets_timeout i n)
  show ?thesis unfolding sets_timeout(1)
    by (intro cluster_inv_move [OF inv] set_election_timeout_move node_ok_of_inv [OF inv] sets_timeout)
next
  case (restarts i c tm vote lg timeout interval)
  show ?thesis unfolding restarts(1,3)
    by (intro cluster_inv_move [OF inv] restart_move node_ok_of_inv [OF inv])
      (use restarts in auto)
qed

lemma cluster_inv_init:
  "membership M ps \<Longrightarrow> cluster_inv M (init_cluster ps timeout interval)"
  by (auto simp: cluster_inv_def init_cluster_def membership_def config_inv_def vote_inv_def
      node_inv_def leader_inv_def raft_new_def current_vote_def sound_log_def)

theorem reachable_inv:
  "reachable M ps timeout interval s \<Longrightarrow> membership M ps \<Longrightarrow> cluster_inv M s"
  by (induction rule: reachable.induct) (auto intro: cluster_inv_init cluster_inv_step)

text \<open>At most one leader in a term.\<close>

lemma cluster_inv_one_leader:
  assumes "cluster_inv M s" and "i \<in> M" and "j \<in> M"
    and "role (nodes s i) = Leader" and "role (nodes s j) = Leader"
    and "current_term (nodes s i) = current_term (nodes s j)"
  shows "i = j"
proof -
  have l: "leaders s (current_term (nodes s n)) = Some (n, rlog (nodes s n))"
    if "n \<in> M" "role (nodes s n) = Leader" for n
    using assms(1) that by (auto simp: cluster_inv_def node_inv_def config_inv_def)
  show ?thesis using l [OF assms(2,4)] l [OF assms(3,5)] assms(6) by (metis option.inject prod.inject)
qed

text \<open>Two logs with an entry of one term at one index agree up to there.\<close>

lemma cluster_inv_log_matching:
  assumes "cluster_inv M s" and "i \<in> M" and "j \<in> M"
    and "k < length (rlog (nodes s i))" and "k < length (rlog (nodes s j))"
    and "entry_term (rlog (nodes s i) ! k) = entry_term (rlog (nodes s j) ! k)"
  shows "take (Suc k) (rlog (nodes s i)) = take (Suc k) (rlog (nodes s j))"
  using assms by (intro sound_log_agree) (auto simp: cluster_inv_def node_inv_def)

text \<open>A node votes for one candidate in a term, over its whole history.\<close>

lemma cluster_inv_votes_once:
  "cluster_inv M s \<Longrightarrow> (i, t, x) \<in> votes s \<Longrightarrow> (i, t, y) \<in> votes s \<Longrightarrow> x = y"
  unfolding cluster_inv_def vote_inv_def by blast

end
