(* ===== verification/Gems_Raft_Runs.thy ===== *)
theory Gems_Raft_Runs
  imports Gems_Raft_Cluster "HOL-Library.Code_Target_Nat"
begin

text \<open>
  Concrete executions of the cluster. A schedule is a list of events; \<open>exec\<close> plays one
  on the nodes and on the list of all messages sent so far (\<open>Deliver k\<close> delivers the
  \<open>k\<close>-th of them), and \<open>play_reachable\<close> shows that what a schedule produces is a
  reachable state of the cluster. Three schedules follow: an election, and two that show what
  the acknowledgement of a follower with leftover entries does to the leader.
\<close>

datatype event = Tick node_id | Propose node_id log_record | Deliver nat

type_synonym play_state = "(node_id \<Rightarrow> raft_core) \<times> envelope list"

fun exec :: "event \<Rightarrow> play_state \<Rightarrow> play_state option" where
  "exec (Tick i) (N, sent) =
     (if current_term (N i) < u64_max then
        case tick (N i) of Ok (c, msgs) \<Rightarrow> Some (N(i := c), sent @ msgs) | _ \<Rightarrow> None
      else None)"
| "exec (Propose i cmd) (N, sent) =
     (case propose cmd (N i) of Ok (c, idx, msgs) \<Rightarrow> Some (N(i := c), sent @ msgs) | _ \<Rightarrow> None)"
| "exec (Deliver k) (N, sent) =
     (if k < length sent then
        case receive (sent ! k) (N (env_to (sent ! k))) of
          Ok (c, msgs) \<Rightarrow> Some (N(env_to (sent ! k) := c), sent @ msgs)
        | _ \<Rightarrow> None
      else None)"

fun play :: "event list \<Rightarrow> play_state \<Rightarrow> play_state option" where
  "play [] st = Some st"
| "play (e # es) st = (case exec e st of Some st' \<Rightarrow> play es st' | None \<Rightarrow> None)"

definition within :: "node_id set \<Rightarrow> event \<Rightarrow> play_state \<Rightarrow> bool" where
  "within M e st =
     (case e of Tick i \<Rightarrow> i \<in> M | Propose i cmd \<Rightarrow> i \<in> M
      | Deliver k \<Rightarrow> k < length (snd st) \<and> env_to (snd st ! k) \<in> M)"

lemma move_simps [simp]:
  "nodes (move s i c msgs) = (nodes s)(i := c)" "net (move s i c msgs) = net s \<union> set msgs"
  by (simp_all add: move_def)

lemma exec_step:
  assumes "exec e (nodes s, sent) = Some (N, sent')" and "set sent \<subseteq> net s" and "within M e (nodes s, sent)"
  shows "\<exists>s'. cluster_step M s s' \<and> nodes s' = N \<and> set sent' \<subseteq> net s'"
proof (cases e)
  case (Tick i)
  with assms obtain c msgs where "tick (nodes s i) = Ok (c, msgs)" "current_term (nodes s i) < u64_max"
    "N = (nodes s)(i := c)" "sent' = sent @ msgs" "i \<in> M"
    by (auto simp: within_def split: if_split_asm outcome.splits)
  then show ?thesis
    using assms(2) by (intro exI [of _ "move s i c msgs"]) (auto intro: ticks)
next
  case (Propose i cmd)
  with assms obtain c idx msgs where "propose cmd (nodes s i) = Ok (c, idx, msgs)"
    "N = (nodes s)(i := c)" "sent' = sent @ msgs" "i \<in> M"
    by (auto simp: within_def split: outcome.splits)
  then show ?thesis
    using assms(2) by (intro exI [of _ "move s i c msgs"]) (auto intro: proposes)
next
  case (Deliver k)
  define m where "m = sent ! k"
  from Deliver assms obtain c msgs where "receive m (nodes s (env_to m)) = Ok (c, msgs)"
    "N = (nodes s)(env_to m := c)" "sent' = sent @ msgs" "env_to m \<in> M" "k < length sent"
    by (auto simp: within_def m_def split: if_split_asm outcome.splits)
  moreover from this have "m \<in> net s" using assms(2) unfolding m_def by (meson nth_mem subsetD)
  ultimately show ?thesis
    using assms(2)
    by (intro exI [of _ "move s (env_to m) c msgs"]) (auto intro: delivers)
qed

fun play_within :: "node_id set \<Rightarrow> event list \<Rightarrow> play_state \<Rightarrow> bool" where
  "play_within M [] st = True"
| "play_within M (e # es) st =
     (within M e st \<and> (case exec e st of Some st' \<Rightarrow> play_within M es st' | None \<Rightarrow> True))"

lemma play_reachable_from:
  "play es (nodes s, sent) = Some (N, sent') \<Longrightarrow> play_within M es (nodes s, sent) \<Longrightarrow>
     set sent \<subseteq> net s \<Longrightarrow> reachable M ps timeout interval s \<Longrightarrow>
     \<exists>s'. reachable M ps timeout interval s' \<and> nodes s' = N \<and> set sent' \<subseteq> net s'"
proof (induction es arbitrary: s sent)
  case Nil
  then show ?case by auto
next
  case (Cons e es)
  from Cons.prems(1) obtain N1 sent1 where ex: "exec e (nodes s, sent) = Some (N1, sent1)"
    and pl: "play es (N1, sent1) = Some (N, sent')"
    by (auto split: option.splits)
  from exec_step [OF ex Cons.prems(3)] Cons.prems(2) obtain s1 where
    s1: "cluster_step M s s1" "nodes s1 = N1" "set sent1 \<subseteq> net s1" by auto
  show ?case
    using Cons.IH [of s1 sent1] pl ex s1 Cons.prems(2,4) by (auto intro: step)
qed

lemma play_reachable:
  assumes "play es (nodes (init_cluster ps timeout interval), []) = Some (N, sent)"
    and "play_within M es (nodes (init_cluster ps timeout interval), [])"
  shows "\<exists>s. reachable M ps timeout interval s \<and> nodes s = N"
  using play_reachable_from [OF assms, of ps timeout interval] by (auto intro: start)

section \<open>Three members, timeouts of one tick\<close>

definition three :: "node_id set" where "three = {1, 2, 3}"

definition others :: "node_id \<Rightarrow> node_id list" where
  "others i = filter (\<lambda>j. j \<noteq> i) [1, 2, 3]"

definition one_tick :: "node_id \<Rightarrow> nat" where "one_tick i = 1"

definition start_nodes :: play_state where
  "start_nodes = (nodes (init_cluster others one_tick one_tick), [])"

lemma membership_three: "membership three others"
  by (auto simp: membership_def three_def others_def)

definition cmd_a :: log_record where "cmd_a = Delete NIL"

definition cmd_b :: log_record where "cmd_b = Delete (Tuid (replicate 24 1))"
definition cmd_c :: log_record where "cmd_c = Delete (Tuid (replicate 24 2))"

text \<open>Node 2 is elected in term 1 and appends an entry that reaches nobody; node 1 is elected in term 2.\<close>

definition election_run :: "event list" where
  "election_run = [Tick 2, Deliver 1, Deliver 2, Propose 2 cmd_a, Tick 1, Tick 1, Deliver 10, Deliver 11]"

definition panic_run :: "event list" where
  "panic_run = election_run @ [Deliver 12, Deliver 14]"

definition loss_run :: "event list" where
  "loss_run = election_run @ [Propose 1 cmd_b, Deliver 12, Deliver 16,
     Tick 2, Deliver 20, Deliver 21, Propose 2 cmd_c, Deliver 25, Deliver 26, Deliver 27, Deliver 28]"

definition outcome_of :: "event list \<Rightarrow> (play_state \<Rightarrow> bool) \<Rightarrow> bool" where
  "outcome_of es P =
     (play_within three es start_nodes \<and>
      (case play es start_nodes of Some st \<Rightarrow> P st | None \<Rightarrow> False))"

lemma outcome_of_reachable:
  assumes "outcome_of es (P \<circ> fst)"
  shows "\<exists>s. reachable three others one_tick one_tick s \<and> P (nodes s)"
proof -
  from assms obtain N sent where "play es start_nodes = Some (N, sent)"
    "play_within three es start_nodes" "P N"
    by (auto simp: outcome_of_def split: option.splits)
  then show ?thesis using play_reachable by (fastforce simp: start_nodes_def)
qed

definition node_one_leads :: "(node_id \<Rightarrow> raft_core) \<Rightarrow> bool" where
  "node_one_leads N = (role (N 1) = Leader \<and> current_term (N 1) = 2 \<and> role (N 2) = Leader)"

definition node_one_panics :: "(node_id \<Rightarrow> raft_core) \<Rightarrow> bool" where
  "node_one_panics N = (role (N 1) = Leader \<and> (case tick (N 1) of Panic \<Rightarrow> True | _ \<Rightarrow> False))"

definition first_applied :: "raft_core \<Rightarrow> log_record option" where
  "first_applied c = (case take_newly_committed c of Ok (_, e # _) \<Rightarrow> Some (command e) | _ \<Rightarrow> None)"

definition applied_differently :: "(node_id \<Rightarrow> raft_core) \<Rightarrow> bool" where
  "applied_differently N = (first_applied (N 1) = Some cmd_b \<and> first_applied (N 2) = Some cmd_a)"

lemma election_run_ok: "outcome_of election_run (node_one_leads \<circ> fst)"
  by code_simp

lemma panic_run_ok: "outcome_of panic_run (node_one_panics \<circ> fst)"
  by code_simp

lemma loss_run_ok: "outcome_of loss_run (applied_differently \<circ> fst)"
  by code_simp

end
