(* ===== verification/Gems_Raft_Facts.thy ===== *)
theory Gems_Raft_Facts
  imports Gems_Raft_Cluster
begin

text \<open>
  What one \<open>RaftCore\<close> call promises by itself, whatever the rest of the cluster does: which
  index a leader commits, what a follower's log is after AppendEntries, and what
  \<open>take_newly_committed\<close> hands to the state machine.
\<close>

section \<open>The commit rule\<close>

text \<open>How many of the known match indices reach \<open>k\<close>.\<close>

definition reach_count :: "nat list \<Rightarrow> nat \<Rightarrow> nat" where
  "reach_count ms k = length (filter (\<lambda>m. k \<le> m) ms)"

lemma reach_count_sort [simp]: "reach_count (sort ms) k = reach_count ms k"
  unfolding reach_count_def by (simp add: filter_sort)

text \<open>In a descending list the first \<open>j\<close> elements reach \<open>k\<close> exactly when \<open>j\<close> of all do.\<close>

lemma sorted_reach_count:
  assumes "sorted ms" and "j < length ms"
  shows "k \<le> rev ms ! j \<longleftrightarrow> j < reach_count ms k"
proof -
  have split: "filter (\<lambda>m. k \<le> m) ms = dropWhile (\<lambda>m. m < k) ms"
    using assms(1)
  proof (induction ms)
    case (Cons a ms)
    show ?case
    proof (cases "a < k")
      case True
      with Cons show ?thesis by simp
    next
      case False
      then have "\<forall>m \<in> set (a # ms). k \<le> m" using Cons.prems by auto
      then show ?thesis using False by (simp add: filter_True)
    qed
  qed simp
  have idx: "rev ms ! j = ms ! (length ms - Suc j)" using assms(2) by (simp add: rev_nth)
  let ?n = "length (takeWhile (\<lambda>m. m < k) ms)"
  have len: "?n + reach_count ms k = length ms"
    unfolding reach_count_def split by (metis length_append takeWhile_dropWhile_id)
  show ?thesis
  proof
    assume k: "k \<le> rev ms ! j"
    have "?n \<le> length ms - Suc j"
    proof (rule ccontr)
      assume "\<not> ?n \<le> length ms - Suc j"
      then have "length ms - Suc j < ?n" by simp
      then have "ms ! (length ms - Suc j) < k"
        by (metis nth_mem set_takeWhileD takeWhile_nth)
      with k idx show False by simp
    qed
    with len assms(2) show "j < reach_count ms k" by linarith
  next
    assume j: "j < reach_count ms k"
    with len assms(2) have n: "?n \<le> length ms - Suc j" "?n < length ms" by linarith+
    then have "k \<le> ms ! ?n" by (metis nth_length_takeWhile not_less)
    also have "\<dots> \<le> ms ! (length ms - Suc j)"
      using assms n by (intro sorted_nth_mono) auto
    finally show "k \<le> rev ms ! j" using idx by simp
  qed
qed

lemma commit_candidate_majority:
  assumes "ms \<noteq> []"
  shows "k \<le> commit_candidate ms \<longleftrightarrow> length ms < 2 * reach_count ms k"
proof -
  have "commit_candidate ms = rev (sort ms) ! (length ms div 2)"
    by (simp add: commit_candidate_def)
  moreover have "length ms div 2 < length (sort ms)" using assms by (simp add: div_less_dividend)
  ultimately have "k \<le> commit_candidate ms \<longleftrightarrow> length ms div 2 < reach_count ms k"
    using sorted_reach_count [OF sorted_sort, of "length ms div 2" ms k] by simp
  then show ?thesis by linarith
qed

text \<open>
  The index a leader moves its commit index to is new, of its own term, and the largest one
  that a majority of the known match indices reaches.
\<close>

lemma advance_commit_index_cases:
  "commit_index (advance_commit_index c) = commit_index c \<or>
     (let n = commit_index (advance_commit_index c) in
        commit_index c < n \<and> log_term_at c n = current_term c \<and>
        length (peers c) + 1 < 2 * reach_count (match_indices c) n \<and>
        (\<forall>m > n. \<not> length (peers c) + 1 < 2 * reach_count (match_indices c) m))"
proof (cases "commit_index (advance_commit_index c) = commit_index c")
  case False
  have ne: "match_indices c \<noteq> []" and len: "length (match_indices c) = length (peers c) + 1"
    by (simp_all add: match_indices_def)
  from False have "commit_index (advance_commit_index c) = commit_candidate (match_indices c)"
    "commit_index c < commit_candidate (match_indices c)"
    "log_term_at c (commit_candidate (match_indices c)) = current_term c"
    by (auto simp: advance_commit_index_def Let_def split: if_splits)
  then show ?thesis
    using commit_candidate_majority [OF ne] len
    by (metis leD order_refl)
qed simp

lemma advance_commit_index_mono: "commit_index c \<le> commit_index (advance_commit_index c)"
  by (auto simp: advance_commit_index_def Let_def)

section \<open>A follower's log\<close>

lemma append_loop_take:
  "i \<ge> 1 \<Longrightarrow> i \<le> length lg + 1 \<Longrightarrow> take (i - 1) (append_loop es i lg) = take (i - 1) lg"
proof (induction es arbitrary: i lg)
  case Nil
  then show ?case by simp
next
  case (Cons e es)
  let ?lg = "if i \<le> length lg then
      (if term_at lg i \<noteq> entry_term e then take (i - 1) lg @ [e] else lg) else lg @ [e]"
  have len: "Suc i \<le> length ?lg + 1" and pre: "take (i - 1) ?lg = take (i - 1) lg"
    using Cons.prems by auto
  have "take i (append_loop es (Suc i) ?lg) = take i ?lg"
    using Cons.IH [of "Suc i" ?lg] len by simp
  then have "take (i - 1) (append_loop es (Suc i) ?lg) = take (i - 1) ?lg"
    by (metis diff_le_self min.absorb1 take_take)
  with pre show ?case by simp
qed

text \<open>After the loop, every entry of the request is there by its term.\<close>

definition entries_present :: "log_entry list \<Rightarrow> nat \<Rightarrow> log_entry list \<Rightarrow> bool" where
  "entries_present es i lg \<longleftrightarrow> i + length es \<le> length lg + 1 \<and>
     (\<forall>k < length es. term_at lg (i + k) = entry_term (es ! k))"

lemma append_loop_id: "entries_present es i lg \<Longrightarrow> append_loop es i lg = lg"
proof (induction es arbitrary: i)
  case Nil
  then show ?case by simp
next
  case (Cons e es)
  have "term_at lg (i + 0) = entry_term ((e # es) ! 0)"
    using Cons.prems unfolding entries_present_def by blast
  then have "term_at lg i = entry_term e" "i \<le> length lg"
    using Cons.prems by (auto simp: entries_present_def)
  moreover have "entries_present es (Suc i) lg"
    using Cons.prems unfolding entries_present_def by fastforce
  ultimately show ?case using Cons.IH by simp
qed

lemma term_at_take: "n \<le> length lg \<Longrightarrow> take n lg = take n lg' \<Longrightarrow> n \<le> length lg' \<Longrightarrow> 0 < n \<Longrightarrow>
    term_at lg n = term_at lg' n"
  by (auto simp: term_at_def get_opt_def) (metis diff_less lessI nth_take zero_less_one)

lemma append_loop_present:
  "i \<ge> 1 \<Longrightarrow> i \<le> length lg + 1 \<Longrightarrow> entries_present es i (append_loop es i lg)"
proof (induction es arbitrary: i lg)
  case Nil
  then show ?case by (simp add: entries_present_def)
next
  case (Cons e es)
  obtain lg2 where lg2: "(if i \<le> length lg then
      (if term_at lg i \<noteq> entry_term e then take (i - 1) lg @ [e] else lg) else lg @ [e]) = lg2"
    by simp
  have len: "i \<le> length lg2" and at: "term_at lg2 i = entry_term e"
    using lg2 Cons.prems by (auto simp: term_at_def get_opt_def nth_append split: if_splits)
  let ?r = "append_loop es (Suc i) lg2"
  have ih: "entries_present es (Suc i) ?r" and pre: "take i ?r = take i lg2"
    using Cons.IH [of "Suc i" lg2] append_loop_take [of "Suc i" lg2 es] len by auto
  have "i \<le> length ?r" using ih by (simp add: entries_present_def)
  with pre len at Cons.prems have "term_at ?r i = entry_term e"
    using term_at_take [of i ?r lg2] by simp
  moreover have "term_at ?r (i + k) = entry_term ((e # es) ! k)" if "k < length (e # es)" "0 < k" for k
    using that ih unfolding entries_present_def by (cases k) auto
  ultimately have "term_at ?r (i + k) = entry_term ((e # es) ! k)" if "k < length (e # es)" for k
    using that by (cases "k = 0") auto
  then have "entries_present (e # es) i ?r" using ih by (auto simp: entries_present_def)
  then show ?case using lg2 by simp
qed

text \<open>A request that is delivered a second time changes nothing.\<close>

lemma append_loop_idem:
  "i \<ge> 1 \<Longrightarrow> i \<le> length lg + 1 \<Longrightarrow>
     append_loop es i (append_loop es i lg) = append_loop es i lg"
  by (intro append_loop_id append_loop_present)

section \<open>Handing over committed entries\<close>

lemma take_newly_committed_exact:
  "last_applied c \<le> commit_index c \<Longrightarrow> commit_index c \<le> length (rlog c) \<Longrightarrow>
     take_newly_committed c =
       Ok (c\<lparr>last_applied := commit_index c\<rparr>,
           take (commit_index c - last_applied c) (drop (last_applied c) (rlog c)))"
proof (induction c rule: take_newly_committed.induct)
  case (1 c)
  show ?case
  proof (cases "last_applied c < commit_index c")
    case False
    with "1.prems" have "last_applied c = commit_index c" by simp
    then show ?thesis by (simp add: take_newly_committed.simps [of c])
  next
    case True
    then have i: "last_applied c < length (rlog c)" using "1.prems" by simp
    let ?c1 = "c\<lparr>last_applied := last_applied c + 1\<rparr>"
    have "take_newly_committed ?c1 = Ok (c\<lparr>last_applied := commit_index c\<rparr>,
        take (commit_index c - Suc (last_applied c)) (drop (Suc (last_applied c)) (rlog c)))"
      using "1.IH" [OF True refl] True i "1.prems" by simp
    moreover have "take (commit_index c - last_applied c) (drop (last_applied c) (rlog c)) =
        rlog c ! last_applied c #
          take (commit_index c - Suc (last_applied c)) (drop (Suc (last_applied c)) (rlog c))"
      using True i by (simp add: Cons_nth_drop_Suc [symmetric] take_Cons' Suc_diff_Suc)
    ultimately show ?thesis using True i by (simp add: take_newly_committed.simps [of c])
  qed
qed

lemma take_newly_committed_panic:
  "last_applied c < commit_index c \<Longrightarrow> length (rlog c) < commit_index c \<Longrightarrow>
     take_newly_committed c = Panic"
proof (induction c rule: take_newly_committed.induct)
  case (1 c)
  show ?case
  proof (cases "last_applied c < length (rlog c)")
    case False
    with "1.prems" show ?thesis by (simp add: take_newly_committed.simps [of c] index_at_def)
  next
    case True
    then have "take_newly_committed (c\<lparr>last_applied := last_applied c + 1\<rparr>) = Panic"
      using "1.IH" [OF "1.prems"(1) refl] "1.prems" by simp
    with True "1.prems" show ?thesis by (simp add: take_newly_committed.simps [of c])
  qed
qed

end
