(* ===== verification/Gems_Cursor.thy ===== *)
theory Gems_Cursor
  imports Gems_Tuid
begin

text \<open>
  The reading cursor of every positional decoder in the workspace: a function that takes the
  buffer and a position and gives back a value and the position after it
  (\<^verbatim>\<open>fn read_u32(buf: &[u8], pos: &mut usize)\<close>), or the error that the buffer is
  too short. The readers below take that error's text as an argument, because each module has
  its own copy of them with its own wording. \<open>has_at buf p bs\<close> says that \<open>bs\<close> stands at
  position \<open>p\<close>; \<open>field_codec\<close> is the contract between a writer and its reader, which
  makes the round trip of a record a matter of adding up its fields.
\<close>

section \<open>What stands at a position\<close>

definition has_at :: "bytes \<Rightarrow> nat \<Rightarrow> bytes \<Rightarrow> bool" where
  "has_at buf p bs \<longleftrightarrow> p + length bs \<le> length buf \<and> take (length bs) (drop p buf) = bs"

lemma has_at_Nil [simp]: "has_at buf p [] \<longleftrightarrow> p \<le> length buf"
  by (simp add: has_at_def)

lemma has_at_append [simp]:
  "has_at buf p (a @ b) \<longleftrightarrow> has_at buf p a \<and> has_at buf (p + length a) b"
  by (auto simp: has_at_def take_add add.commute)

lemma has_at_Cons [simp]:
  "has_at buf p (x # xs) \<longleftrightarrow> p < length buf \<and> buf ! p = x \<and> has_at buf (p + 1) xs"
proof (cases "p < length buf")
  case True
  then show ?thesis by (auto simp: has_at_def Cons_nth_drop_Suc [symmetric])
qed (simp add: has_at_def)

lemma has_at_0: "has_at (bs @ rest) 0 bs"
  by (simp add: has_at_def)

lemma has_at_self: "has_at bs 0 bs"
  by (simp add: has_at_def)

lemma has_at_le: "has_at buf p bs \<Longrightarrow> p + length bs \<le> length buf"
  by (simp add: has_at_def)

lemma has_at_field: "has_at buf p bs \<Longrightarrow> n = length bs \<Longrightarrow> field_at buf p n = Ok bs"
  by (simp add: has_at_def field_at_Ok)

lemma has_at_slice: "has_at buf p bs \<Longrightarrow> q = p + length bs \<Longrightarrow> slice buf p q = Ok bs"
  by (simp add: has_at_def slice_def)

lemma has_at_nth: "has_at buf p bs \<Longrightarrow> i < length bs \<Longrightarrow> buf ! (p + i) = bs ! i"
  by (metis has_at_def nth_drop nth_take add_leD1)

text \<open>The \<open>i\<close>-th of equally long pieces.\<close>

lemma has_at_concat:
  "has_at buf p (concat (map f xs)) \<Longrightarrow> (\<And>x. length (f x) = n) \<Longrightarrow> i < length xs \<Longrightarrow>
     has_at buf (p + i * n) (f (xs ! i))"
proof (induction xs arbitrary: p i)
  case (Cons x xs)
  then show ?case
  proof (cases i)
    case (Suc j)
    have "has_at buf (p + n + j * n) (f (xs ! j))"
      using Cons Suc by (intro Cons.IH) auto
    then show ?thesis using Suc by (simp add: add.assoc)
  qed simp
qed simp

section \<open>Readers\<close>

type_synonym 'a reader = "bytes \<Rightarrow> nat \<Rightarrow> ('a \<times> nat) result"

definition cur_u8 :: "string \<Rightarrow> u8 reader" where
  "cur_u8 d buf pos =
     (case get_opt buf pos of None \<Rightarrow> Err (InvalidValue d) | Some b \<Rightarrow> Ok (b, pos + 1))"

definition cur_bytes :: "string \<Rightarrow> nat \<Rightarrow> bytes reader" where
  "cur_bytes d n buf pos =
     (if length buf < pos + n then Err (InvalidValue d)
      else omap (\<lambda>s. (s, pos + n)) (slice buf pos (pos + n)))"

definition cur_uint :: "string \<Rightarrow> nat \<Rightarrow> nat reader" where
  "cur_uint d n buf pos =
     obind (cur_bytes d n buf pos) (\<lambda>(s, pos). omap (\<lambda>a. (le_val a, pos)) (to_array n s))"

text \<open>A loop that reads \<open>n\<close> values.\<close>

primrec read_n :: "nat \<Rightarrow> 'a reader \<Rightarrow> 'a list reader" where
  "read_n 0 rd buf pos = Ok ([], pos)"
| "read_n (Suc n) rd buf pos =
     obind (rd buf pos) (\<lambda>(x, pos). omap (\<lambda>(xs, pos). (x # xs, pos)) (read_n n rd buf pos))"

section \<open>The contract of a writer and its reader\<close>

locale field_codec =
  fixes wr :: "'a \<Rightarrow> bytes"
    and rd :: "'a reader"
    and ok :: "'a \<Rightarrow> bool"
  assumes rd_wr: "ok x \<Longrightarrow> has_at buf p (wr x) \<Longrightarrow> rd buf p = Ok (x, p + length (wr x))"
    and rd_no_panic: "p \<le> length buf \<Longrightarrow> rd buf p \<noteq> Panic"
    and rd_bound: "rd buf p = Ok (x, q) \<Longrightarrow> p \<le> length buf \<Longrightarrow> p \<le> q \<and> q \<le> length buf"
begin

lemma wr_inj: "ok x \<Longrightarrow> ok y \<Longrightarrow> wr x = wr y \<Longrightarrow> x = y"
  using rd_wr [of x "wr x" 0] rd_wr [of y "wr x" 0] by (metis has_at_self outcome.inject(1) prod.inject)

lemma read_n_wr:
  "list_all ok xs \<Longrightarrow> has_at buf p (concat (map wr xs)) \<Longrightarrow>
     read_n (length xs) rd buf p = Ok (xs, p + length (concat (map wr xs)))"
proof (induction xs arbitrary: p)
  case (Cons x xs)
  then have "rd buf p = Ok (x, p + length (wr x))"
    and "read_n (length xs) rd buf (p + length (wr x)) =
      Ok (xs, p + length (wr x) + length (concat (map wr xs)))"
    using rd_wr by simp_all
  then show ?case by simp
qed simp

lemma read_n_bound:
  "read_n n rd buf p = Ok (xs, q) \<Longrightarrow> p \<le> length buf \<Longrightarrow> p \<le> q \<and> q \<le> length buf \<and> length xs = n"
proof (induction n arbitrary: p xs q)
  case (Suc n)
  then obtain x p1 ys where 1: "rd buf p = Ok (x, p1)" "read_n n rd buf p1 = Ok (ys, q)"
    and xs: "xs = x # ys"
    by (auto simp: obind_eq_Ok)
  with rd_bound [OF 1(1)] Suc.IH [OF 1(2)] Suc.prems(2) show ?case by auto
qed simp

lemma read_n_no_panic: "p \<le> length buf \<Longrightarrow> read_n n rd buf p \<noteq> Panic"
proof (induction n arbitrary: p)
  case (Suc n)
  then show ?case
    by (auto simp: obind_eq_Panic rd_no_panic dest: rd_bound)
qed simp

end

section \<open>The fixed-width fields\<close>

lemma cur_bytes_Ok: "p + n \<le> length buf \<Longrightarrow> cur_bytes d n buf p = Ok (take n (drop p buf), p + n)"
  by (simp add: cur_bytes_def slice_def)

lemma cur_bytes_at [simp]: "has_at buf p bs \<Longrightarrow> n = length bs \<Longrightarrow> cur_bytes d n buf p = Ok (bs, p + n)"
  by (simp add: has_at_def cur_bytes_Ok)

lemma cur_bytes_length: "cur_bytes d n buf p = Ok (s, q) \<Longrightarrow> length s = n \<and> q = p + n \<and> q \<le> length buf"
  by (auto simp: cur_bytes_def slice_def split: if_splits)

lemma cur_bytes_no_panic [simp]: "cur_bytes d n buf p \<noteq> Panic"
  by (simp add: cur_bytes_def slice_def)

lemma cur_uint_no_panic [simp]: "cur_uint d n buf p \<noteq> Panic"
  by (auto simp: cur_uint_def obind_eq_Panic to_array_def dest: cur_bytes_length)

lemma cur_uint_bound: "cur_uint d n buf p = Ok (v, q) \<Longrightarrow> q = p + n \<and> q \<le> length buf \<and> v < 256 ^ n"
  by (auto simp: cur_uint_def obind_eq_Ok to_array_def le_val_less split: if_splits dest: cur_bytes_length)

lemma cur_uint_at [simp]:
  "has_at buf p (le_bytes n v) \<Longrightarrow> v < 256 ^ n \<Longrightarrow> cur_uint d n buf p = Ok (v, p + n)"
  by (simp add: cur_uint_def le_val_le_bytes)

lemma cur_u8_no_panic [simp]: "cur_u8 d buf p \<noteq> Panic"
  by (simp add: cur_u8_def split: option.split)

lemma cur_u8_bound: "cur_u8 d buf p = Ok (b, q) \<Longrightarrow> q = p + 1 \<and> q \<le> length buf"
  by (auto simp: cur_u8_def get_opt_def split: if_splits)

lemma cur_u8_at [simp]: "p < length buf \<Longrightarrow> cur_u8 d buf p = Ok (buf ! p, p + 1)"
  by (simp add: cur_u8_def get_opt_def)

interpretation uint: field_codec "le_bytes n" "cur_uint d n" "\<lambda>v. v < 256 ^ n" for d n
  by unfold_locales (auto dest: cur_uint_bound)

interpretation byte: field_codec "\<lambda>b. [b]" "cur_u8 d" "\<lambda>b. True" for d
  by unfold_locales (auto dest: cur_u8_bound)

end
