(* ===== verification/Gems_Auth_Frame.thy ===== *)
theory Gems_Auth_Frame
  imports Gems_Cursor Gems_Record Gems_Hash
begin

text \<open>
  The authenticated frame that carries every peer message: \<open>u32 length | payload | tag\<close>,
  the tag being HMAC-SHA256 of the payload under the cluster's secret. \<^verbatim>\<open>raft::wire\<close>
  and \<^verbatim>\<open>gossip::wire\<close> both build and open it; the locale \<open>payload_codec\<close> is
  what they supply (a payload encoding), and what follows from it is proved once: round trip,
  partial reads, no panic, and that only frames tagged under the secret are opened.
\<close>

definition auth_frame :: "bytes \<Rightarrow> bytes \<Rightarrow> bytes" where
  "auth_frame secret payload =
     le_bytes 4 (length payload) @ payload @ hmac_sha256 secret payload"

definition auth_open ::
  "string \<Rightarrow> string \<Rightarrow> (bytes \<Rightarrow> 'a result) \<Rightarrow> bytes \<Rightarrow> bytes \<Rightarrow> ('a \<times> nat) option result" where
  "auth_open too_long mismatch unpay buf secret =
     (if length buf < 4 then Ok None else
      obind (field_at buf 0 4) (\<lambda>p. let payload_len = le_val p in
      obind (check_frame_len payload_len too_long) (\<lambda>_. let total_len = 4 + payload_len + TAG_LEN in
      if length buf < total_len then Ok None else
      obind (slice buf 4 (4 + payload_len)) (\<lambda>payload.
      obind (slice buf (4 + payload_len) total_len) (\<lambda>received.
      if \<not> constant_time_eq (hmac_sha256 secret payload) received
      then Err (InvalidValue mismatch)
      else omap (\<lambda>x. Some (x, total_len)) (unpay payload))))))"

lemma length_auth_frame: "length (auth_frame secret payload) = 4 + length payload + TAG_LEN"
  by (simp add: auth_frame_def)

text \<open>Opening a buffer that starts with a frame, or with any part of one.\<close>

lemma auth_open_frame:
  assumes "length payload \<le> MAX_FRAME_LEN"
  shows "auth_open too_long mismatch unpay (auth_frame secret payload @ rest) secret =
    omap (\<lambda>x. Some (x, length (auth_frame secret payload))) (unpay payload)"
proof -
  let ?b = "auth_frame secret payload @ rest"
  have "field_at ?b 0 4 = Ok (le_bytes 4 (length payload))"
    by (simp add: auth_frame_def field_at_here)
  moreover have "slice ?b 4 (4 + length payload) = Ok payload"
    by (simp add: auth_frame_def slice_skip slice_all)
  moreover have "slice ?b (4 + length payload) (4 + length payload + TAG_LEN) =
      Ok (hmac_sha256 secret payload)"
    by (simp add: auth_frame_def slice_skip slice_all)
  ultimately show ?thesis
    using assms by (simp add: auth_open_def frame_len_u32 Let_def length_auth_frame)
qed

lemma auth_open_prefix:
  assumes "length payload \<le> MAX_FRAME_LEN" and n: "n < length (auth_frame secret payload)"
  shows "auth_open too_long mismatch unpay (take n (auth_frame secret payload)) secret = Ok None"
proof (cases "n < 4")
  case True
  with n show ?thesis by (simp add: auth_open_def)
next
  case False
  have "take n (auth_frame secret payload) =
      le_bytes 4 (length payload) @ take (n - 4) (payload @ hmac_sha256 secret payload)"
    using False by (simp add: auth_frame_def)
  then have "field_at (take n (auth_frame secret payload)) 0 4 = Ok (le_bytes 4 (length payload))"
    by (simp add: field_at_here)
  then show ?thesis
    using False n assms(1) by (simp add: auth_open_def frame_len_u32 Let_def length_auth_frame)
qed

lemma auth_open_no_panic:
  "(\<And>payload. unpay payload \<noteq> Panic) \<Longrightarrow> auth_open too_long mismatch unpay buf secret \<noteq> Panic"
  by (auto simp: auth_open_def obind_eq_Panic Let_def field_at_Ok slice_def)

text \<open>A frame is opened only if it carries the tag of its payload under the secret.\<close>

lemma auth_open_authentic:
  assumes "auth_open too_long mismatch unpay buf secret = Ok (Some (x, n))"
  shows "n \<le> length buf \<and> 0 < n \<and>
    (\<exists>payload. take n buf = auth_frame secret payload \<and> unpay payload = Ok x)"
proof -
  define len where "len = le_val (take 4 buf)"
  let ?payload = "take len (drop 4 buf)"
  from assms have b: "4 + len + TAG_LEN \<le> length buf" and n: "n = 4 + len + TAG_LEN"
    and tag: "hmac_sha256 secret ?payload = take TAG_LEN (drop (4 + len) buf)"
    and x: "unpay ?payload = Ok x"
    by (auto simp: auth_open_def obind_eq_Ok Let_def field_at_Ok slice_def len_def split: if_splits)
  have "le_bytes 4 (length ?payload) = take 4 buf"
    using b by (simp add: len_def)
  moreover have "take n buf = take 4 buf @ ?payload @ take TAG_LEN (drop (4 + len) buf)"
    by (simp only: n take_add append_assoc)
  ultimately have "take n buf = auth_frame secret ?payload"
    using tag by (simp add: auth_frame_def)
  with b n x show ?thesis by auto
qed

lemma auth_frame_inj: "auth_frame s p = auth_frame s q \<Longrightarrow> length p = length q \<Longrightarrow> p = q"
  by (simp add: auth_frame_def)

section \<open>What a peer protocol supplies\<close>

locale payload_codec =
  fixes pay :: "'a \<Rightarrow> bytes"
    and unpay :: "bytes \<Rightarrow> 'a result"
    and ok :: "'a \<Rightarrow> bool"
    and too_long :: string
    and mismatch :: string
  assumes unpay_pay: "ok x \<Longrightarrow> unpay (pay x) = Ok x"
    and pay_fits: "ok x \<Longrightarrow> length (pay x) \<le> MAX_FRAME_LEN"
    and unpay_no_panic: "unpay p \<noteq> Panic"
begin

lemma open_seal:
  "ok x \<Longrightarrow> auth_open too_long mismatch unpay (auth_frame secret (pay x) @ rest) secret =
     Ok (Some (x, length (auth_frame secret (pay x))))"
  by (simp add: auth_open_frame pay_fits unpay_pay)

lemma open_partial:
  "ok x \<Longrightarrow> n < length (auth_frame secret (pay x)) \<Longrightarrow>
     auth_open too_long mismatch unpay (take n (auth_frame secret (pay x))) secret = Ok None"
  by (simp add: auth_open_prefix pay_fits)

lemma open_no_panic: "auth_open too_long mismatch unpay buf secret \<noteq> Panic"
  by (simp add: auth_open_no_panic unpay_no_panic)

text \<open>Only a frame with the right tag is opened.\<close>

lemma open_forged:
  assumes "ok x" and "length tag = TAG_LEN" and "tag \<noteq> hmac_sha256 secret (pay x)"
  shows "auth_open too_long mismatch unpay (le_bytes 4 (length (pay x)) @ pay x @ tag @ rest) secret =
    Err (InvalidValue mismatch)"
proof -
  let ?b = "le_bytes 4 (length (pay x)) @ pay x @ tag @ rest"
  have "field_at ?b 0 4 = Ok (le_bytes 4 (length (pay x)))"
    by (simp add: field_at_here)
  moreover have "slice ?b 4 (4 + length (pay x)) = Ok (pay x)"
    by (simp add: slice_skip slice_all)
  moreover have "slice ?b (4 + length (pay x)) (4 + length (pay x) + TAG_LEN) = Ok tag"
    using assms(2) by (simp add: slice_skip slice_all)
  ultimately show ?thesis
    using assms pay_fits [OF assms(1)] by (simp add: auth_open_def frame_len_u32 Let_def)
qed

end

sublocale payload_codec \<subseteq> sealed: framed_codec "\<lambda>x. auth_frame secret (pay x)"
    "\<lambda>buf. auth_open too_long mismatch unpay buf secret" ok for secret
proof unfold_locales
  show "auth_open too_long mismatch unpay buf secret = Ok (Some (x, n)) \<Longrightarrow> 0 < n \<and> n \<le> length buf"
    for buf x n by (auto dest: auth_open_authentic)
qed (simp_all add: open_seal open_partial)

end
