(* ===== verification/Gems_Raft_Wire.thy ===== *)
theory Gems_Raft_Wire
  imports Gems_Raft Gems_Auth_Frame
begin

text \<open>
  How Raft leaves memory: the peer messages of \<^verbatim>\<open>raft::wire\<close> and the persisted
  triple of \<^verbatim>\<open>raft_state.rs\<close>. Both embed log entries the same way, as a term and a
  self-framed \<open>LogRecord\<close>. A value is \<open>ok\<close> when it is within its Rust types and its
  records are ones a decoder can produce; such a value comes back unchanged.
\<close>

section \<open>Log entries\<close>

definition entry_bytes :: "log_entry \<Rightarrow> bytes" where
  "entry_bytes e = le_bytes 8 (entry_term e) @ record_encode (command e)"

definition read_entry :: "string \<Rightarrow> string \<Rightarrow> log_entry reader" where
  "read_entry short torn buf pos =
     obind (cur_uint short 8 buf pos) (\<lambda>(t, pos).
     obind (slice buf pos (length buf)) (\<lambda>rest.
     obind (record_decode rest) (\<lambda>got.
     case got of
       None \<Rightarrow> Err (InvalidValue torn)
     | Some (cmd, consumed) \<Rightarrow> Ok (\<lparr>entry_term = t, command = cmd\<rparr>, pos + consumed))))"

definition entry_ok :: "log_entry \<Rightarrow> bool" where
  "entry_ok e \<longleftrightarrow> entry_term e \<le> u64_max \<and> canonical_record (command e)"

lemma has_at_drop: "has_at buf p bs \<Longrightarrow> \<exists>rest. drop p buf = bs @ rest"
  unfolding has_at_def by (metis append_take_drop_id)

lemma read_entry_at:
  assumes "entry_ok e" and "has_at buf p (entry_bytes e)"
  shows "read_entry short torn buf p = Ok (e, p + length (entry_bytes e))"
proof -
  from assms(2) have t: "has_at buf p (le_bytes 8 (entry_term e))"
    and r: "has_at buf (p + 8) (record_encode (command e))"
    by (simp_all add: entry_bytes_def)
  obtain rest where rest: "drop (p + 8) buf = record_encode (command e) @ rest"
    using has_at_drop [OF r] by blast
  have "slice buf (p + 8) (length buf) = Ok (record_encode (command e) @ rest)"
    using has_at_le [OF r] by (simp add: slice_def rest [symmetric])
  moreover have "record_decode (record_encode (command e) @ rest) =
      Ok (Some (command e, length (record_encode (command e))))"
    using assms(1) by (intro rec.dec_enc) (simp add: entry_ok_def)
  moreover have "cur_uint short 8 buf p = Ok (entry_term e, p + 8)"
    using t assms(1) by (intro cur_uint_at) (simp_all add: entry_ok_def)
  ultimately show ?thesis by (simp add: read_entry_def entry_bytes_def)
qed

lemma read_entry_bound:
  assumes "read_entry short torn buf p = Ok (e, q)"
  shows "p \<le> q \<and> q \<le> length buf"
  using assms
  by (auto simp: read_entry_def obind_eq_Ok slice_def split: if_splits option.splits
      dest!: cur_uint_bound record_decode_progress)

lemma read_entry_no_panic: "read_entry short torn buf p \<noteq> Panic"
  by (auto simp: read_entry_def obind_eq_Panic slice_def record_decode_no_panic
      split: option.splits dest!: cur_uint_bound)

interpretation entry: field_codec entry_bytes "read_entry short torn" entry_ok for short torn
  by unfold_locales (auto simp: read_entry_at read_entry_no_panic dest: read_entry_bound)

lemma entries_length: "12 * length es \<le> length (concat (map entry_bytes es))"
  by (induction es) (auto simp: entry_bytes_def record_encode_def)

section \<open>Peer messages\<close>

definition REQUEST_VOTE_REQUEST :: u8 where "REQUEST_VOTE_REQUEST = 1"
definition REQUEST_VOTE_RESPONSE :: u8 where "REQUEST_VOTE_RESPONSE = 2"
definition APPEND_ENTRIES_REQUEST :: u8 where "APPEND_ENTRIES_REQUEST = 3"
definition APPEND_ENTRIES_RESPONSE :: u8 where "APPEND_ENTRIES_RESPONSE = 4"

lemmas rpc_tags = REQUEST_VOTE_REQUEST_def REQUEST_VOTE_RESPONSE_def
  APPEND_ENTRIES_REQUEST_def APPEND_ENTRIES_RESPONSE_def

fun rpc_payload :: "rpc \<Rightarrow> bytes" where
  "rpc_payload (RequestVoteRequest t cand li lt) =
     [REQUEST_VOTE_REQUEST] @ le_bytes 8 t @ le_bytes 4 cand @ le_bytes 8 li @ le_bytes 8 lt"
| "rpc_payload (RequestVoteResponse t granted voter) =
     [REQUEST_VOTE_RESPONSE] @ le_bytes 8 t @ [of_bool granted] @ le_bytes 4 voter"
| "rpc_payload (AppendEntriesRequest t leader prev pt es lc) =
     [APPEND_ENTRIES_REQUEST] @ le_bytes 8 t @ le_bytes 4 leader @ le_bytes 8 prev @ le_bytes 8 pt
     @ le_bytes 4 (length es) @ concat (map entry_bytes es) @ le_bytes 8 lc"
| "rpc_payload (AppendEntriesResponse t ok m f) =
     [APPEND_ENTRIES_RESPONSE] @ le_bytes 8 t @ [of_bool ok] @ le_bytes 8 m @ le_bytes 4 f"

definition envelope_payload :: "envelope \<Rightarrow> bytes" where
  "envelope_payload e = le_bytes 4 (env_from e) @ le_bytes 4 (env_to e) @ rpc_payload (env_rpc e)"

definition raft_encode :: "envelope \<Rightarrow> bytes \<Rightarrow> bytes" where
  "raft_encode e secret = auth_frame secret (envelope_payload e)"

definition wire_read_u8 :: "u8 reader" where
  "wire_read_u8 = cur_u8 ''Raft envelope truncated''"

definition wire_read_u32 :: "nat reader" where
  "wire_read_u32 = cur_uint ''Raft envelope truncated'' 4"

definition wire_read_u64 :: "nat reader" where
  "wire_read_u64 = cur_uint ''Raft envelope truncated'' 8"

definition wire_read_entries :: "nat \<Rightarrow> log_entry list reader" where
  "wire_read_entries n =
     read_n n (read_entry ''Raft envelope truncated'' ''truncated log entry inside AppendEntries payload'')"

definition read_append_entries :: "rpc reader" where
  "read_append_entries buf pos =
     obind (wire_read_u64 buf pos) (\<lambda>(t, pos).
     obind (wire_read_u32 buf pos) (\<lambda>(leader, pos).
     obind (wire_read_u64 buf pos) (\<lambda>(prev, pos).
     obind (wire_read_u64 buf pos) (\<lambda>(pt, pos).
     obind (wire_read_u32 buf pos) (\<lambda>(entry_count, pos).
     if entry_count > length buf div 12
     then Err (InvalidValue ''AppendEntries entry count exceeds what the payload could hold'')
     else
     obind (wire_read_entries entry_count buf pos) (\<lambda>(es, pos).
     obind (wire_read_u64 buf pos) (\<lambda>(lc, pos).
     Ok (AppendEntriesRequest t leader prev pt es lc, pos))))))))"

definition read_rpc :: "u8 \<Rightarrow> rpc reader" where
  "read_rpc tag buf pos =
     (if tag = REQUEST_VOTE_REQUEST then
        obind (wire_read_u64 buf pos) (\<lambda>(t, pos).
        obind (wire_read_u32 buf pos) (\<lambda>(cand, pos).
        obind (wire_read_u64 buf pos) (\<lambda>(li, pos).
        obind (wire_read_u64 buf pos) (\<lambda>(lt, pos).
        Ok (RequestVoteRequest t cand li lt, pos)))))
      else if tag = REQUEST_VOTE_RESPONSE then
        obind (wire_read_u64 buf pos) (\<lambda>(t, pos).
        obind (wire_read_u8 buf pos) (\<lambda>(granted, pos).
        obind (wire_read_u32 buf pos) (\<lambda>(voter, pos).
        Ok (RequestVoteResponse t (granted \<noteq> 0) voter, pos))))
      else if tag = APPEND_ENTRIES_REQUEST then read_append_entries buf pos
      else if tag = APPEND_ENTRIES_RESPONSE then
        obind (wire_read_u64 buf pos) (\<lambda>(t, pos).
        obind (wire_read_u8 buf pos) (\<lambda>(ok, pos).
        obind (wire_read_u64 buf pos) (\<lambda>(m, pos).
        obind (wire_read_u32 buf pos) (\<lambda>(f, pos).
        Ok (AppendEntriesResponse t (ok \<noteq> 0) m f, pos)))))
      else Err (InvalidValue ''unknown Raft RPC tag''))"

definition read_envelope :: "bytes \<Rightarrow> envelope result" where
  "read_envelope payload =
     obind (wire_read_u32 payload 0) (\<lambda>(from, pos).
     obind (wire_read_u32 payload pos) (\<lambda>(to, pos).
     obind (wire_read_u8 payload pos) (\<lambda>(tag, pos).
     omap (\<lambda>(r, pos). \<lparr>env_from = from, env_to = to, env_rpc = r\<rparr>) (read_rpc tag payload pos))))"

definition raft_decode :: "bytes \<Rightarrow> bytes \<Rightarrow> (envelope \<times> nat) option result" where
  "raft_decode =
     auth_open ''Raft envelope exceeds the maximum frame size''
       ''Raft envelope authentication tag mismatch'' read_envelope"

fun rpc_ok :: "rpc \<Rightarrow> bool" where
  "rpc_ok (RequestVoteRequest t cand li lt) \<longleftrightarrow>
     t \<le> u64_max \<and> cand \<le> u32_max \<and> li \<le> u64_max \<and> lt \<le> u64_max"
| "rpc_ok (RequestVoteResponse t granted voter) \<longleftrightarrow> t \<le> u64_max \<and> voter \<le> u32_max"
| "rpc_ok (AppendEntriesRequest t leader prev pt es lc) \<longleftrightarrow>
     t \<le> u64_max \<and> leader \<le> u32_max \<and> prev \<le> u64_max \<and> pt \<le> u64_max \<and> lc \<le> u64_max \<and>
     list_all entry_ok es"
| "rpc_ok (AppendEntriesResponse t ok m f) \<longleftrightarrow> t \<le> u64_max \<and> m \<le> u64_max \<and> f \<le> u32_max"

definition envelope_ok :: "envelope \<Rightarrow> bool" where
  "envelope_ok e \<longleftrightarrow> env_from e \<le> u32_max \<and> env_to e \<le> u32_max \<and> rpc_ok (env_rpc e) \<and>
     length (envelope_payload e) \<le> MAX_FRAME_LEN"

lemmas wire_readers = wire_read_u8_def wire_read_u32_def wire_read_u64_def wire_read_entries_def

lemma read_append_entries_at:
  assumes "rpc_ok (AppendEntriesRequest t leader prev pt es lc)" and "length buf \<le> MAX_FRAME_LEN"
    and "has_at buf p (le_bytes 8 t @ le_bytes 4 leader @ le_bytes 8 prev @ le_bytes 8 pt
      @ le_bytes 4 (length es) @ concat (map entry_bytes es) @ le_bytes 8 lc)"
  shows "\<exists>q. read_append_entries buf p = Ok (AppendEntriesRequest t leader prev pt es lc, q)"
proof -
  let ?n = "length (concat (map entry_bytes es))"
  from assms(3) have at: "has_at buf p (le_bytes 8 t)" "has_at buf (p + 8) (le_bytes 4 leader)"
    "has_at buf (p + 12) (le_bytes 8 prev)" "has_at buf (p + 20) (le_bytes 8 pt)"
    "has_at buf (p + 28) (le_bytes 4 (length es))"
    "has_at buf (p + 32) (concat (map entry_bytes es))" "has_at buf (p + 32 + ?n) (le_bytes 8 lc)"
    by (simp_all add: add.assoc)
  have "12 * length es \<le> length buf"
    using has_at_le [OF at(6)] entries_length [of es] by linarith
  then have count: "length es \<le> length buf div 12" and small: "length es \<le> u32_max"
    using assms(2) by (auto simp: MAX_FRAME_LEN_def)
  have "wire_read_entries (length es) buf (p + 32) = Ok (es, p + 32 + ?n)"
    unfolding wire_read_entries_def
    using assms(1) at(6) by (intro entry.read_n_wr) simp_all
  moreover have "wire_read_u64 buf p = Ok (t, p + 8)" "wire_read_u32 buf (p + 8) = Ok (leader, p + 12)"
    "wire_read_u64 buf (p + 12) = Ok (prev, p + 20)" "wire_read_u64 buf (p + 20) = Ok (pt, p + 28)"
    "wire_read_u32 buf (p + 28) = Ok (length es, p + 32)"
    "wire_read_u64 buf (p + 32 + ?n) = Ok (lc, p + 32 + ?n + 8)"
    using at assms(1) small by (simp_all add: wire_readers)
  ultimately show ?thesis using count by (simp add: read_append_entries_def)
qed

lemma read_rpc_at:
  assumes "rpc_ok r" and "length buf \<le> MAX_FRAME_LEN" and "has_at buf p (rpc_payload r)"
  shows "p < length buf" and "\<exists>q. read_rpc (buf ! p) buf (p + 1) = Ok (r, q)"
proof -
  show "p < length buf" using assms(3) by (cases r) simp_all
  show "\<exists>q. read_rpc (buf ! p) buf (p + 1) = Ok (r, q)"
  proof (cases r)
    case (AppendEntriesRequest t l prev pt es lc)
    then have "has_at buf (p + 1) (le_bytes 8 t @ le_bytes 4 l @ le_bytes 8 prev @ le_bytes 8 pt
        @ le_bytes 4 (length es) @ concat (map entry_bytes es) @ le_bytes 8 lc)"
      and "buf ! p = APPEND_ENTRIES_REQUEST"
      using assms(3) by (simp_all del: has_at_append)
    then show ?thesis
      using read_append_entries_at [of t l prev pt es lc buf "p + 1"] assms AppendEntriesRequest
      by (simp add: read_rpc_def rpc_tags)
  qed (use assms in \<open>clarsimp simp: read_rpc_def rpc_tags wire_readers\<close>)+
qed

lemma read_envelope_payload:
  assumes "envelope_ok e"
  shows "read_envelope (envelope_payload e) = Ok e"
proof -
  let ?b = "envelope_payload e"
  have at: "has_at ?b 0 (le_bytes 4 (env_from e))" "has_at ?b 4 (le_bytes 4 (env_to e))"
    "has_at ?b 8 (rpc_payload (env_rpc e))"
    using has_at_self [of ?b] by (simp_all add: envelope_payload_def)
  have rpc: "rpc_ok (env_rpc e)" "length ?b \<le> MAX_FRAME_LEN"
    using assms by (simp_all add: envelope_ok_def)
  obtain q where "read_rpc (?b ! 8) ?b 9 = Ok (env_rpc e, q)"
    using read_rpc_at(2) [OF rpc at(3)] by auto
  moreover have "wire_read_u8 ?b 8 = Ok (?b ! 8, 9)"
    using read_rpc_at(1) [OF rpc at(3)] by (simp add: wire_readers)
  moreover have "wire_read_u32 ?b 0 = Ok (env_from e, 4)" "wire_read_u32 ?b 4 = Ok (env_to e, 8)"
    using at assms by (simp_all add: wire_readers envelope_ok_def)
  ultimately show ?thesis by (simp add: read_envelope_def)
qed

lemma read_append_entries_no_panic: "read_append_entries buf p \<noteq> Panic"
  by (auto simp: read_append_entries_def obind_eq_Panic wire_readers
      dest!: cur_uint_bound intro: entry.read_n_no_panic [THEN notE])

lemma read_rpc_no_panic: "read_rpc tag buf p \<noteq> Panic"
  by (auto simp: read_rpc_def obind_eq_Panic wire_readers read_append_entries_no_panic)

lemma read_envelope_no_panic: "read_envelope payload \<noteq> Panic"
  by (auto simp: read_envelope_def obind_eq_Panic wire_readers read_rpc_no_panic)

interpretation peer: payload_codec envelope_payload read_envelope envelope_ok
    "''Raft envelope exceeds the maximum frame size''" "''Raft envelope authentication tag mismatch''"
  by unfold_locales (simp_all add: read_envelope_payload read_envelope_no_panic envelope_ok_def)

lemmas raft_wire = raft_encode_def raft_decode_def

lemma raft_decode_encode:
  "envelope_ok e \<Longrightarrow> raft_decode (raft_encode e secret @ rest) secret =
     Ok (Some (e, length (raft_encode e secret)))"
  unfolding raft_wire by (rule peer.open_seal)

lemma raft_decode_partial:
  "envelope_ok e \<Longrightarrow> n < length (raft_encode e secret) \<Longrightarrow>
     raft_decode (take n (raft_encode e secret)) secret = Ok None"
  unfolding raft_wire by (rule peer.open_partial)

lemma raft_decode_no_panic: "raft_decode buf secret \<noteq> Panic"
  unfolding raft_wire by (rule peer.open_no_panic)

section \<open>The persisted state\<close>

definition state_encode :: "nat \<Rightarrow> node_id option \<Rightarrow> log_entry list \<Rightarrow> bytes" where
  "state_encode t vote lg =
     le_bytes 8 t
     @ (case vote of Some i \<Rightarrow> [1] @ le_bytes 4 i | None \<Rightarrow> [0] @ le_bytes 4 0)
     @ le_bytes 4 (length lg) @ concat (map entry_bytes lg)"

definition state_read_u8 :: "u8 reader" where
  "state_read_u8 = cur_u8 ''raft state truncated''"

definition state_read_u32 :: "nat reader" where
  "state_read_u32 = cur_uint ''raft state truncated'' 4"

definition state_read_u64 :: "nat reader" where
  "state_read_u64 = cur_uint ''raft state truncated'' 8"

definition state_read_entries :: "nat \<Rightarrow> log_entry list reader" where
  "state_read_entries n =
     read_n n (read_entry ''raft state truncated'' ''raft state log entry truncated'')"

lemmas state_readers = state_read_u8_def state_read_u32_def state_read_u64_def state_read_entries_def

definition state_decode :: "bytes \<Rightarrow> (nat \<times> node_id option \<times> log_entry list) result" where
  "state_decode buf =
     obind (state_read_u64 buf 0) (\<lambda>(t, pos).
     obind (state_read_u8 buf pos) (\<lambda>(has_voted_for, pos).
     obind (state_read_u32 buf pos) (\<lambda>(raw, pos).
     let vote = (if has_voted_for \<noteq> 0 then Some raw else None) in
     obind (state_read_u32 buf pos) (\<lambda>(entry_count, pos).
     if entry_count > (length buf - pos) div 9
     then Err (InvalidValue ''raft state entry_count exceeds what the file could hold'')
     else omap (\<lambda>(lg, pos). (t, vote, lg)) (state_read_entries entry_count buf pos)))))"

text \<open>A state file that is not there is the state of a first boot.\<close>

definition state_load :: "bytes option \<Rightarrow> (nat \<times> node_id option \<times> log_entry list) result" where
  "state_load file = (case file of None \<Rightarrow> Ok (0, None, []) | Some bs \<Rightarrow> state_decode bs)"

definition state_ok :: "nat \<Rightarrow> node_id option \<Rightarrow> log_entry list \<Rightarrow> bool" where
  "state_ok t vote lg \<longleftrightarrow> t \<le> u64_max \<and> (case vote of Some i \<Rightarrow> i \<le> u32_max | None \<Rightarrow> True) \<and>
     length lg \<le> u32_max \<and> list_all entry_ok lg"

lemma state_decode_encode:
  assumes "state_ok t vote lg"
  shows "state_decode (state_encode t vote lg) = Ok (t, vote, lg)"
proof -
  define raw where "raw = (case vote of Some i \<Rightarrow> i | None \<Rightarrow> 0)"
  let ?b = "state_encode t vote lg"
  have b: "?b = le_bytes 8 t @ [of_bool (vote \<noteq> None)] @ le_bytes 4 raw @ le_bytes 4 (length lg)
      @ concat (map entry_bytes lg)"
    by (simp add: state_encode_def raw_def split: option.split)
  have at: "has_at ?b 0 (le_bytes 8 t)" "8 < length ?b" "?b ! 8 = of_bool (vote \<noteq> None)"
    "has_at ?b 9 (le_bytes 4 raw)" "has_at ?b 13 (le_bytes 4 (length lg))"
    "has_at ?b 17 (concat (map entry_bytes lg))"
    using has_at_self [of ?b] unfolding b by simp_all
  have raw: "raw < 256 ^ 4"
    using assms by (simp add: raw_def state_ok_def split: option.splits)
  have "12 * length lg \<le> length ?b - 17"
    using entries_length [of lg] by (simp add: b)
  then have count: "length lg \<le> (length ?b - 17) div 9" by simp
  have vote: "(if ?b ! 8 \<noteq> 0 then Some raw else None) = vote"
    using at(3) by (cases vote) (simp_all add: raw_def)
  have "state_read_entries (length lg) ?b 17 = Ok (lg, 17 + length (concat (map entry_bytes lg)))"
    unfolding state_read_entries_def
    using assms at(6) by (intro entry.read_n_wr) (simp_all add: state_ok_def)
  moreover have "state_read_u64 ?b 0 = Ok (t, 8)" "state_read_u8 ?b 8 = Ok (?b ! 8, 9)"
    "state_read_u32 ?b 9 = Ok (raw, 13)" "state_read_u32 ?b 13 = Ok (length lg, 17)"
    using at assms raw by (simp_all add: state_readers state_ok_def)
  ultimately show ?thesis using count vote by (simp add: state_decode_def)
qed

lemma state_decode_no_panic: "state_decode buf \<noteq> Panic"
  by (auto simp: state_decode_def obind_eq_Panic state_readers Let_def
      dest!: cur_uint_bound intro: entry.read_n_no_panic [THEN notE])

text \<open>A node that restarts from what it saved resumes with the same persistent triple.\<close>

lemma restore_saved:
  assumes "persistent_state c = (t, vote, lg)" and "state_ok t vote lg"
  shows "\<exists>t' vote' lg'. state_load (Some (state_encode t vote lg)) = Ok (t', vote', lg') \<and>
    persistent_state (raft_restore (rid c) (peers c) timeout interval t' vote' lg') = persistent_state c"
  using assms
  by (simp add: state_load_def state_decode_encode raft_restore_def raft_new_def persistent_state_def)

end
