(* ===== verification/Gems_Raft_Safety.thy ===== *)
theory Gems_Raft_Safety
  imports Gems_Raft_Runs Gems_Raft_Facts Gems_Raft_Wire
begin

text \<open>
  The properties of the replication core: what every reachable state of a cluster
  guarantees (one leader per term, matching logs), what does not hold of it (a committed entry
  can be replaced, a leader can panic), and what its single operations do. The invariant and the
  runs behind them are in \<^verbatim>\<open>Gems_Raft_Cluster\<close> and
  \<^verbatim>\<open>Gems_Raft_Runs\<close>.
\<close>

definition leads_in :: "raft_core \<Rightarrow> nat \<Rightarrow> bool" where
  "leads_in c t \<longleftrightarrow> role c = Leader \<and> current_term c = t"

text \<open>
  C1: election safety. In every state a static membership can reach, by any interleaving
  of ticks, proposals, deliveries (repeated, reordered or lost), applications, timer resets and
  restarts from the persisted state, each term has at most one leader.
\<close>

theorem election_safety:
  assumes "reachable M ps timeout interval s" and "membership M ps"
  shows "\<exists>l. {i \<in> M. leads_in (nodes s i) t} \<subseteq> {l}"
proof -
  have "i = j" if "i \<in> M" "j \<in> M" "leads_in (nodes s i) t" "leads_in (nodes s j) t" for i j
    using cluster_inv_one_leader [OF reachable_inv [OF assms]] that by (simp add: leads_in_def)
  then show ?thesis by blast
qed

lemma election_safety_witness:
  "\<exists>s. reachable three others one_tick one_tick s \<and> leads_in (nodes s 1) 2 \<and>
     {i \<in> three. leads_in (nodes s i) 2} = {1}"
proof -
  obtain s where r: "reachable three others one_tick one_tick s" and n: "node_one_leads (nodes s)"
    using outcome_of_reachable [OF election_run_ok] by blast
  from n have 1: "leads_in (nodes s 1) 2" by (simp add: node_one_leads_def leads_in_def)
  moreover have "{i \<in> three. leads_in (nodes s i) 2} = {1}"
    using election_safety [OF r membership_three, of 2] 1 by (auto simp: three_def)
  ultimately show ?thesis using r by blast
qed

text \<open>
  C8: log matching. In every reachable state, two members whose logs hold entries of the
  same term at the same position hold the same entries up to there.
\<close>

theorem log_matching:
  assumes "reachable M ps timeout interval s" and "membership M ps" and "i \<in> M" and "j \<in> M"
    and "k < length (rlog (nodes s i))" and "k < length (rlog (nodes s j))"
    and "entry_term (rlog (nodes s i) ! k) = entry_term (rlog (nodes s j) ! k)"
  shows "take (Suc k) (rlog (nodes s i)) = take (Suc k) (rlog (nodes s j))"
  using cluster_inv_log_matching [OF reachable_inv [OF assms(1,2)]] assms(3-) by blast

definition logs_meet :: "(node_id \<Rightarrow> raft_core) \<Rightarrow> bool" where
  "logs_meet N \<longleftrightarrow> 1 < length (rlog (N 2)) \<and> 1 < length (rlog (N 3)) \<and>
     entry_term (rlog (N 2) ! 1) = entry_term (rlog (N 3) ! 1)"

lemma logs_meet_run: "outcome_of loss_run (logs_meet \<circ> fst)"
  by code_simp

lemma log_matching_witness:
  "\<exists>s. reachable three others one_tick one_tick s \<and> 1 < length (rlog (nodes s 2)) \<and>
     take 2 (rlog (nodes s 2)) = take 2 (rlog (nodes s 3))"
proof -
  obtain s where r: "reachable three others one_tick one_tick s" and n: "logs_meet (nodes s)"
    using outcome_of_reachable [OF logs_meet_run] by blast
  have "take (Suc 1) (rlog (nodes s 2)) = take (Suc 1) (rlog (nodes s 3))"
    using log_matching [OF r membership_three, of 2 3 1] n by (simp add: three_def logs_meet_def)
  with r n show ?thesis by (auto simp: logs_meet_def numeral_2_eq_2)
qed

text \<open>
  C40: state machine safety does not hold. A follower acknowledges the length of its whole log
  and not the position it has verified, so three members reach a state where two of them apply
  different commands at the first position of their logs.
\<close>

theorem state_machine_safety_fails:
  "\<exists>s. reachable three others one_tick one_tick s \<and> applied_differently (nodes s)"
  by (rule outcome_of_reachable [OF loss_run_ok])

text \<open>
  The leader can panic. The same acknowledgement raises a leader's next index past its
  own log, and its next heartbeat slices the log out of range.
\<close>

lemma leader_can_panic:
  "\<exists>s. reachable three others one_tick one_tick s \<and> node_one_panics (nodes s)"
  by (rule outcome_of_reachable [OF panic_run_ok])

text \<open>
  The commit rule. A leader's commit index stays, or moves up to the highest position that
  a majority of the members has acknowledged, whose entry is of the leader's term.
\<close>

lemma commit_rule:
  "commit_index (advance_commit_index c) = commit_index c \<or>
     (let n = commit_index (advance_commit_index c) in
        commit_index c < n \<and> log_term_at c n = current_term c \<and>
        length (peers c) + 1 < 2 * reach_count (match_indices c) n \<and>
        \<not> (\<exists>m. n < m \<and> length (peers c) + 1 < 2 * reach_count (match_indices c) m))"
  using advance_commit_index_cases [of c] by (auto simp: Let_def)

text \<open>
  The append step of a follower. Applied at a position inside the log or just behind it,
  it leaves the leader's entries at their positions, keeps what is in front of them, and
  applying the same entries again changes nothing.
\<close>

lemma append_step:
  assumes "1 \<le> i" and "i \<le> length lg + 1"
  shows "entries_present es i (append_loop es i lg) \<and>
    take (i - 1) (append_loop es i lg) = take (i - 1) lg \<and>
    append_loop es i (append_loop es i lg) = append_loop es i lg"
  using append_loop_present [OF assms] append_loop_take [OF assms] append_loop_idem [OF assms] by blast

text \<open>
  Applying. With the commit index inside the log, the newly committed entries are handed
  out once, in order, and none is left over; with it behind the log's end the call panics.
\<close>

lemma newly_committed:
  assumes "last_applied c \<le> commit_index c"
  shows "take_newly_committed c =
    (if commit_index c \<le> length (rlog c) \<or> last_applied c = commit_index c
     then Ok (c\<lparr>last_applied := commit_index c\<rparr>,
              take (commit_index c - last_applied c) (drop (last_applied c) (rlog c)))
     else Panic)"
proof (cases "commit_index c \<le> length (rlog c)")
  case True
  with assms show ?thesis by (simp add: take_newly_committed_exact)
next
  case False
  have "take_newly_committed c = Ok (c, [])" if "last_applied c = commit_index c"
    using that by (subst take_newly_committed.simps) simp
  moreover have "c\<lparr>last_applied := commit_index c\<rparr> = c" if "last_applied c = commit_index c"
    using that [symmetric] by simp
  moreover have "take_newly_committed c = Panic" if "last_applied c \<noteq> commit_index c"
    using assms False that by (simp add: take_newly_committed_panic)
  ultimately show ?thesis using False by auto
qed

definition applied_core :: raft_core where
  "applied_core = (raft_new 1 [] 1 1)
     \<lparr>rlog := [\<lparr>entry_term = 1, command = cmd_a\<rparr>], commit_index := 1\<rparr>"

lemma newly_committed_witness:
  "take_newly_committed applied_core =
     Ok (applied_core\<lparr>last_applied := 1\<rparr>, [\<lparr>entry_term = 1, command = cmd_a\<rparr>])"
  using newly_committed [of applied_core] by (simp add: applied_core_def raft_new_def)

text \<open>
  Peer messages survive the wire. An envelope inside the field widths and the frame cap is
  decoded from its frame, whatever follows it in the buffer, and an incomplete frame is
  reported as such.
\<close>

lemma raft_frames:
  assumes "envelope_ok e"
  shows "raft_decode (raft_encode e secret @ rest) secret = Ok (Some (e, length (raft_encode e secret))) \<and>
    (n < length (raft_encode e secret) \<longrightarrow> raft_decode (take n (raft_encode e secret)) secret = Ok None)"
  using raft_decode_encode raft_decode_partial assms by blast

definition sample_envelope :: envelope where
  "sample_envelope = \<lparr>env_from = 1, env_to = 2,
     env_rpc = AppendEntriesRequest 3 1 0 0 [\<lparr>entry_term = 3, command = cmd_a\<rparr>] 0\<rparr>"

lemma sample_envelope_ok: "envelope_ok sample_envelope"
proof -
  have "length (entry_bytes \<lparr>entry_term = 3, command = cmd_a\<rparr>) \<le> 100"
    by (simp add: entry_bytes_def record_encode_def cmd_a_def NIL_def TUID_LEN_def)
  then show ?thesis
    by (simp add: sample_envelope_def envelope_ok_def entry_ok_def cmd_a_def canonical_Delete_NIL
        envelope_payload_def MAX_FRAME_LEN_def)
qed

text \<open>
  A node resumes from what it saved. Loading the saved bytes after a restart gives a
  follower with the term, the vote and the log that were persisted.
\<close>

lemma restart_resumes:
  assumes "persistent_state c = (t, vote, lg)" and "state_ok t vote lg"
  shows "\<exists>t' vote' lg'. state_load (Some (state_encode t vote lg)) = Ok (t', vote', lg') \<and>
    persistent_state (raft_restore (rid c) (peers c) timeout interval t' vote' lg') = persistent_state c \<and>
    role (raft_restore (rid c) (peers c) timeout interval t' vote' lg') = Follower"
  using restore_saved [OF assms, of timeout interval] by (auto simp: raft_restore_def raft_new_def)

end
