(* ===== verification/Gems_Gossip.thy ===== *)
theory Gems_Gossip
  imports Gems_Auth_Frame
begin

text \<open>
  \<open>SwimCore\<close> of \<^verbatim>\<open>gems-cluster/src/gossip.rs\<close>: membership and failure detection.
  One definition per method; a method that changes the node returns it. Ping targets are
  indexed with \<^verbatim>\<open>ping_order[next_ping_idx]\<close>, which panics out of range, so
  \<open>next_ping_target\<close> and \<open>swim_tick\<close> return an \<open>outcome\<close>. The order in which
  \<^verbatim>\<open>HashMap::iter_mut\<close> visits the suspicion timers is not specified: \<open>swim_tick\<close>
  takes it as an argument, a list of the keys, and every lemma holds for each such list.

  The lemmas: the merge rule only moves a member's record forward and never revives a dead
  one; a suspicion is cleared by a higher incarnation only; the node never doubts itself; the
  suspicion timers are exactly those of the suspected members; a tick makes a suspected member
  dead or leaves it as it was with one more on its timer; gossip is bounded and attached at most four
  times; a ping goes to a member not known dead whenever there is one.
\<close>

section \<open>Data\<close>

datatype status = Alive | Suspect | Dead

text \<open>The derived order of the enum.\<close>

fun status_rank :: "status \<Rightarrow> nat" where
  "status_rank Alive = 0"
| "status_rank Suspect = 1"
| "status_rank Dead = 2"

instantiation status :: linorder
begin

definition less_eq_status :: "status \<Rightarrow> status \<Rightarrow> bool" where
  "less_eq_status a b = (status_rank a \<le> status_rank b)"

definition less_status :: "status \<Rightarrow> status \<Rightarrow> bool" where
  "less_status a b = (status_rank a < status_rank b)"

instance
  by standard (auto simp: less_eq_status_def less_status_def elim!: status_rank.elims)

end

lemma status_less [simp]:
  "Alive < Suspect" "Alive < Dead" "Suspect < Dead" "\<not> s < Alive" "\<not> Dead < s"
  by (cases s; simp add: less_status_def)+

record member_info =
  m_status :: status
  m_incarnation :: nat

record gossip_item =
  g_member :: nat
  g_status :: status
  g_incarnation :: nat

datatype swim_message =
    Ping (msg_seq: nat) (sender_incarnation: nat) (msg_gossip: "gossip_item list")
  | Ack (msg_seq: nat) (sender_incarnation: nat) (msg_gossip: "gossip_item list")

record swim_envelope =
  sw_from :: nat
  sw_to :: nat
  sw_message :: swim_message

record awaiting =
  aw_target :: nat
  aw_seq :: nat
  ticks_waited :: nat

type_synonym queue_item = "gossip_item \<times> nat"

definition GOSSIP_RETRANSMIT_COUNT :: nat where "GOSSIP_RETRANSMIT_COUNT = 4"
definition MAX_GOSSIP_PER_MESSAGE :: nat where "MAX_GOSSIP_PER_MESSAGE = 8"

record swim =
  swim_id :: nat
  incarnation :: nat
  members :: "nat \<rightharpoonup> member_info"
  ping_order :: "nat list"
  next_ping_idx :: nat
  next_seq :: nat
  protocol_period :: nat
  period_elapsed :: nat
  ping_timeout :: nat
  suspicion_timeout :: nat
  awaiting_ack :: "awaiting option"
  suspect_elapsed :: "nat \<rightharpoonup> nat"
  gossip_queue :: "queue_item list"

definition inc32 :: "nat \<Rightarrow> nat" where
  "inc32 n = (n + 1) mod 4294967296"

lemma inc32_Suc: "n < u32_max \<Longrightarrow> inc32 n = Suc n"
  by (simp add: inc32_def)

section \<open>Construction and gossip\<close>

definition swim_new :: "nat \<Rightarrow> nat list \<Rightarrow> nat \<Rightarrow> nat \<Rightarrow> nat \<Rightarrow> swim" where
  "swim_new i peers period pt st =
     (let fresh = \<lparr>m_status = Alive, m_incarnation = 0\<rparr> in
      \<lparr> swim_id = i, incarnation = 0,
        members = foldl (\<lambda>m p. m(p \<mapsto> fresh)) [i \<mapsto> fresh] peers,
        ping_order = peers, next_ping_idx = 0, next_seq = 0,
        protocol_period = period, period_elapsed = 0, ping_timeout = pt, suspicion_timeout = st,
        awaiting_ack = None, suspect_elapsed = Map.empty, gossip_queue = [] \<rparr>)"

definition status_of :: "swim \<Rightarrow> nat \<Rightarrow> status option" where
  "status_of s i = map_option m_status (members s i)"

definition swim_envelope_to :: "swim \<Rightarrow> nat \<Rightarrow> swim_message \<Rightarrow> swim_envelope" where
  "swim_envelope_to s dest m = \<lparr> sw_from = swim_id s, sw_to = dest, sw_message = m \<rparr>"

definition queue_gossip :: "gossip_item \<Rightarrow> swim \<Rightarrow> swim" where
  "queue_gossip item s =
     s\<lparr>gossip_queue := filter (\<lambda>g. g_member (fst g) \<noteq> g_member item) (gossip_queue s)
        @ [(item, GOSSIP_RETRANSMIT_COUNT)]\<rparr>"

text \<open>One pass over the queue: items sent so far, items kept.\<close>

primrec drain_gossip :: "queue_item list \<Rightarrow> gossip_item list \<Rightarrow> queue_item list \<Rightarrow>
    gossip_item list \<times> queue_item list" where
  "drain_gossip [] out pending = (out, pending)"
| "drain_gossip (g # q) out pending =
     (if length out < MAX_GOSSIP_PER_MESSAGE then
        let remaining = (snd g + u32_max) mod 4294967296 in
        drain_gossip q (out @ [fst g])
          (if remaining > 0 then pending @ [(fst g, remaining)] else pending)
      else drain_gossip q out (pending @ [g]))"

definition take_gossip :: "swim \<Rightarrow> swim \<times> gossip_item list" where
  "take_gossip s =
     (case drain_gossip (gossip_queue s) [] [] of
        (out, still_pending) \<Rightarrow> (s\<lparr>gossip_queue := still_pending\<rparr>, out))"

section \<open>The merge rule\<close>

definition maybe_refute_self :: "gossip_item \<Rightarrow> swim \<Rightarrow> swim \<times> bool" where
  "maybe_refute_self incoming s =
     (if g_status incoming = Alive \<or> g_incarnation incoming < incarnation s then (s, False)
      else
        let inc = wrap64 (g_incarnation incoming + 1);
            s1 = s\<lparr>incarnation := inc,
                   members := (members s)(swim_id s \<mapsto> \<lparr>m_status = Alive, m_incarnation = inc\<rparr>)\<rparr>
        in (queue_gossip \<lparr>g_member = swim_id s, g_status = Alive, g_incarnation = inc\<rparr> s1, True))"

definition should_apply :: "member_info option \<Rightarrow> gossip_item \<Rightarrow> bool" where
  "should_apply current incoming =
     (case current of
        None \<Rightarrow> True
      | Some c \<Rightarrow>
          if m_status c = Dead then False
          else g_incarnation incoming > m_incarnation c
             \<or> g_incarnation incoming = m_incarnation c \<and> g_status incoming > m_status c)"

definition merge_gossip :: "gossip_item \<Rightarrow> swim \<Rightarrow> swim \<times> bool" where
  "merge_gossip incoming s =
     (if g_member incoming = swim_id s then maybe_refute_self incoming s
      else if \<not> should_apply (members s (g_member incoming)) incoming then (s, False)
      else
        let j = g_member incoming;
            s1 = s\<lparr>members := (members s)(j \<mapsto>
                   \<lparr>m_status = g_status incoming, m_incarnation = g_incarnation incoming\<rparr>)\<rparr>;
            s2 = s1\<lparr>suspect_elapsed :=
                   (if g_status incoming = Suspect then (suspect_elapsed s1)(j \<mapsto> 0)
                    else (suspect_elapsed s1)(j := None))\<rparr>
        in (queue_gossip incoming s2, True))"

abbreviation absorb :: "gossip_item \<Rightarrow> swim \<Rightarrow> swim" where
  "absorb incoming s \<equiv> fst (merge_gossip incoming s)"

section \<open>Ping targets\<close>

primrec ping_scan :: "nat \<Rightarrow> swim \<Rightarrow> (swim \<times> nat option) result" where
  "ping_scan 0 s = Ok (s, None)"
| "ping_scan (Suc n) s =
     obind (index_at (ping_order s) (next_ping_idx s)) (\<lambda>candidate.
     let s1 = s\<lparr>next_ping_idx := (next_ping_idx s + 1) mod length (ping_order s)\<rparr> in
     if status_of s1 candidate \<noteq> Some Dead then Ok (s1, Some candidate) else ping_scan n s1)"

definition next_ping_target :: "swim \<Rightarrow> (swim \<times> nat option) result" where
  "next_ping_target s =
     (if ping_order s = [] then Ok (s, None) else ping_scan (length (ping_order s)) s)"

section \<open>A tick\<close>

text \<open>The suspicion timers after one tick, and the members whose time is up, in visiting order.\<close>

definition aged :: "swim \<Rightarrow> nat \<rightharpoonup> nat" where
  "aged s = (\<lambda>i. map_option inc32 (suspect_elapsed s i))"

definition timed_out :: "swim \<Rightarrow> nat list \<Rightarrow> nat list" where
  "timed_out s ks =
     filter (\<lambda>i. case aged s i of Some e \<Rightarrow> e \<ge> suspicion_timeout s | None \<Rightarrow> False) ks"

definition bury :: "nat \<Rightarrow> swim \<Rightarrow> swim" where
  "bury i s =
     (let s1 = s\<lparr>suspect_elapsed := (suspect_elapsed s)(i := None)\<rparr> in
      case members s1 i of
        None \<Rightarrow> s1
      | Some m \<Rightarrow>
          if m_status m = Suspect
          then queue_gossip \<lparr>g_member = i, g_status = Dead, g_incarnation = m_incarnation m\<rparr>
                 (s1\<lparr>members := (members s1)(i \<mapsto> m\<lparr>m_status := Dead\<rparr>)\<rparr>)
          else s1)"

definition age_suspicions :: "nat list \<Rightarrow> swim \<Rightarrow> swim" where
  "age_suspicions ks s = fold bury (timed_out s ks) (s\<lparr>suspect_elapsed := aged s\<rparr>)"

definition age_ping :: "swim \<Rightarrow> swim" where
  "age_ping s =
     (case awaiting_ack s of
        None \<Rightarrow> s
      | Some a \<Rightarrow>
          let a1 = a\<lparr>ticks_waited := inc32 (ticks_waited a)\<rparr>;
              s1 = s\<lparr>awaiting_ack := Some a1\<rparr>
          in if ticks_waited a1 \<ge> ping_timeout s1 then
               let s2 = s1\<lparr>awaiting_ack := None\<rparr> in
               case members s2 (aw_target a) of
                 None \<Rightarrow> s2
               | Some m \<Rightarrow>
                   if m_status m = Alive
                   then absorb \<lparr>g_member = aw_target a, g_status = Suspect,
                                g_incarnation = m_incarnation m\<rparr> s2
                   else s2
             else s1)"

definition start_ping :: "swim \<Rightarrow> (swim \<times> swim_envelope list) result" where
  "start_ping s =
     (let s1 = s\<lparr>period_elapsed := inc32 (period_elapsed s)\<rparr> in
      if period_elapsed s1 \<ge> protocol_period s1 \<and> awaiting_ack s1 = None then
        obind (next_ping_target (s1\<lparr>period_elapsed := 0\<rparr>)) (\<lambda>(s2, found).
        case found of
          None \<Rightarrow> Ok (s2, [])
        | Some target \<Rightarrow>
            let seq = inc32 (next_seq s2);
                s3 = s2\<lparr>next_seq := seq,
                        awaiting_ack := Some \<lparr>aw_target = target, aw_seq = seq, ticks_waited = 0\<rparr>\<rparr>
            in case take_gossip s3 of (s4, gossip) \<Rightarrow>
                 Ok (s4, [swim_envelope_to s4 target (Ping seq (incarnation s4) gossip)]))
      else Ok (s1, []))"

definition swim_tick :: "nat list \<Rightarrow> swim \<Rightarrow> (swim \<times> swim_envelope list) result" where
  "swim_tick ks s = start_ping (age_ping (age_suspicions ks s))"

section \<open>Receiving\<close>

definition absorb_message :: "nat \<Rightarrow> nat \<Rightarrow> gossip_item list \<Rightarrow> swim \<Rightarrow> swim" where
  "absorb_message from inc gossip s =
     fold absorb gossip (absorb \<lparr>g_member = from, g_status = Alive, g_incarnation = inc\<rparr> s)"

definition swim_receive :: "swim_envelope \<Rightarrow> swim \<Rightarrow> swim \<times> swim_envelope list" where
  "swim_receive e s =
     (case sw_message e of
        Ping seq inc gossip \<Rightarrow>
          (case take_gossip (absorb_message (sw_from e) inc gossip s) of (s1, response) \<Rightarrow>
             (s1, [swim_envelope_to s1 (sw_from e) (Ack seq (incarnation s1) response)]))
      | Ack seq inc gossip \<Rightarrow>
          (let s1 = absorb_message (sw_from e) inc gossip s in
           (case awaiting_ack s1 of
              Some a \<Rightarrow> if aw_target a = sw_from e \<and> aw_seq a = seq
                        then s1\<lparr>awaiting_ack := None\<rparr> else s1
            | None \<Rightarrow> s1, [])))"

section \<open>The gossip queue\<close>

definition spend :: "queue_item \<Rightarrow> queue_item list" where
  "spend g = (let remaining = (snd g + u32_max) mod 4294967296 in
     if remaining > 0 then [(fst g, remaining)] else [])"

lemma drain_gossip_eq:
  "drain_gossip q out pending =
     (let k = MAX_GOSSIP_PER_MESSAGE - length out in
      (out @ map fst (take k q), pending @ concat (map spend (take k q)) @ drop k q))"
proof (induction q arbitrary: out pending)
  case Nil
  then show ?case by simp
next
  case (Cons g q)
  show ?case
  proof (cases "length out < MAX_GOSSIP_PER_MESSAGE")
    case True
    then obtain k where k: "MAX_GOSSIP_PER_MESSAGE - length out = Suc k"
      "MAX_GOSSIP_PER_MESSAGE - Suc (length out) = k"
      by (metis Suc_diff_Suc)
    show ?thesis using True Cons by (simp add: k Let_def spend_def)
  next
    case False
    then show ?thesis using Cons by (simp add: Let_def)
  qed
qed

text \<open>At most one queued item a member, each with one to four sends left.\<close>

definition queue_ok :: "queue_item list \<Rightarrow> bool" where
  "queue_ok q \<longleftrightarrow> distinct (map (g_member \<circ> fst) q) \<and>
     (\<forall>g \<in> set q. 1 \<le> snd g \<and> snd g \<le> GOSSIP_RETRANSMIT_COUNT)"

lemma spend_cases:
  assumes "1 \<le> snd g" and "snd g \<le> GOSSIP_RETRANSMIT_COUNT"
  shows "spend g = (if snd g = 1 then [] else [(fst g, snd g - 1)])"
proof -
  have "(snd g + u32_max) mod 4294967296 = snd g - 1"
  proof -
    have "snd g + u32_max = (snd g - 1) + 4294967296" using assms(1) by simp
    then have "(snd g + u32_max) mod 4294967296 = (snd g - 1) mod 4294967296"
      by (metis mod_add_self2)
    with assms(2) show ?thesis by (simp add: GOSSIP_RETRANSMIT_COUNT_def)
  qed
  with assms(1) show ?thesis by (auto simp: spend_def)
qed

lemma queue_gossip_ok:
  "queue_ok (gossip_queue s) \<Longrightarrow> queue_ok (gossip_queue (queue_gossip item s))"
  by (auto simp: queue_ok_def queue_gossip_def distinct_map GOSSIP_RETRANSMIT_COUNT_def
      intro: inj_on_subset)

lemma drain_members:
  "\<forall>g \<in> set q. 1 \<le> snd g \<and> snd g \<le> GOSSIP_RETRANSMIT_COUNT \<Longrightarrow>
     set (map (g_member \<circ> fst) (concat (map spend q))) \<subseteq> set (map (g_member \<circ> fst) q)"
  by (induction q) (auto simp: spend_cases)

lemma queue_ok_spend: "queue_ok q \<Longrightarrow> queue_ok (concat (map spend q))"
proof (induction q)
  case (Cons g q)
  have q: "queue_ok q" and g: "1 \<le> snd g" "snd g \<le> GOSSIP_RETRANSMIT_COUNT"
    and new: "g_member (fst g) \<notin> set (map (g_member \<circ> fst) q)"
    using Cons.prems by (auto simp: queue_ok_def)
  have "g_member (fst g) \<notin> set (map (g_member \<circ> fst) (concat (map spend q)))"
    using drain_members [of q] q new unfolding queue_ok_def by blast
  then show ?case
    using Cons.IH [OF q] g by (auto simp: queue_ok_def spend_cases GOSSIP_RETRANSMIT_COUNT_def)
qed (simp add: queue_ok_def)

lemma queue_ok_append:
  "queue_ok (p @ q) \<longleftrightarrow> queue_ok p \<and> queue_ok q \<and>
     set (map (g_member \<circ> fst) p) \<inter> set (map (g_member \<circ> fst) q) = {}"
  by (auto simp: queue_ok_def)

text \<open>A message takes the first eight items; each of them loses one of its sends.\<close>

lemma take_gossip_eq:
  "take_gossip s =
     (s\<lparr>gossip_queue := concat (map spend (take 8 (gossip_queue s))) @ drop 8 (gossip_queue s)\<rparr>,
      map fst (take 8 (gossip_queue s)))"
  by (simp add: take_gossip_def drain_gossip_eq Let_def MAX_GOSSIP_PER_MESSAGE_def)

lemma take_gossip_ok:
  assumes "queue_ok (gossip_queue s)"
  shows "queue_ok (gossip_queue (fst (take_gossip s)))"
proof -
  let ?q = "gossip_queue s"
  have "queue_ok (take 8 ?q @ drop 8 ?q)" using assms by simp
  then have t: "queue_ok (take 8 ?q)" and d: "queue_ok (drop 8 ?q)"
    and dis: "set (map (g_member \<circ> fst) (take 8 ?q)) \<inter> set (map (g_member \<circ> fst) (drop 8 ?q)) = {}"
    unfolding queue_ok_append by blast+
  have "set (map (g_member \<circ> fst) (concat (map spend (take 8 ?q)))) \<subseteq>
      set (map (g_member \<circ> fst) (take 8 ?q))"
    using t by (intro drain_members) (simp add: queue_ok_def)
  then show ?thesis
    using queue_ok_spend [OF t] d dis by (auto simp: take_gossip_eq queue_ok_append)
qed

section \<open>Records only move forward\<close>

text \<open>The module's order on what is known of a member; a dead record has nothing above it.\<close>

definition supersedes :: "member_info \<Rightarrow> member_info \<Rightarrow> bool" where
  "supersedes m' m \<longleftrightarrow> m' = m \<or> m_status m \<noteq> Dead \<and>
     (m_incarnation m < m_incarnation m' \<or>
      m_incarnation m = m_incarnation m' \<and> m_status m < m_status m')"

definition forward :: "swim \<Rightarrow> swim \<Rightarrow> bool" where
  "forward s s' \<longleftrightarrow> swim_id s' = swim_id s \<and>
     (\<forall>i m. i \<noteq> swim_id s \<longrightarrow> members s i = Some m \<longrightarrow>
        (\<exists>m'. members s' i = Some m' \<and> supersedes m' m))"

lemma supersedes_trans: "supersedes b a \<Longrightarrow> supersedes c b \<Longrightarrow> supersedes c a"
  by (auto simp: supersedes_def)

lemma forward_refl [simp]: "forward s s"
  by (simp add: forward_def supersedes_def)

lemma forward_trans [trans]: "forward a b \<Longrightarrow> forward b c \<Longrightarrow> forward a c"
  unfolding forward_def by (metis supersedes_trans)

lemma forward_same_members:
  "swim_id s' = swim_id s \<Longrightarrow> members s' = members s \<Longrightarrow> forward s s'"
  by (simp add: forward_def supersedes_def)

lemma queue_gossip_simps [simp]:
  "swim_id (queue_gossip g s) = swim_id s" "members (queue_gossip g s) = members s"
  "incarnation (queue_gossip g s) = incarnation s"
  "suspect_elapsed (queue_gossip g s) = suspect_elapsed s"
  "ping_order (queue_gossip g s) = ping_order s" "next_ping_idx (queue_gossip g s) = next_ping_idx s"
  "suspicion_timeout (queue_gossip g s) = suspicion_timeout s"
  "awaiting_ack (queue_gossip g s) = awaiting_ack s"
  by (simp_all add: queue_gossip_def)

lemma absorb_forward: "forward s (absorb g s)"
  by (auto simp: merge_gossip_def maybe_refute_self_def Let_def forward_def supersedes_def
      should_apply_def split: option.splits if_splits)

lemma bury_forward: "forward s (bury i s)"
  by (auto simp: bury_def Let_def forward_def supersedes_def split: option.splits)

lemma fold_forward: "(\<And>x s. forward s (f x s)) \<Longrightarrow> forward s (fold f xs s)"
proof (induction xs arbitrary: s)
  case (Cons x xs)
  then show ?case using forward_trans by fastforce
qed simp

lemma age_suspicions_forward: "forward s (age_suspicions ks s)"
proof -
  have "forward s (s\<lparr>suspect_elapsed := aged s\<rparr>)" by (simp add: forward_same_members)
  also have "forward \<dots> (age_suspicions ks s)"
    unfolding age_suspicions_def by (rule fold_forward) (rule bury_forward)
  finally show ?thesis .
qed

lemma age_ping_forward: "forward s (age_ping s)"
proof (cases "awaiting_ack s")
  case None
  then show ?thesis by (simp add: age_ping_def)
next
  case (Some a)
  have "forward s (s\<lparr>awaiting_ack := x\<rparr>)" for x by (simp add: forward_same_members)
  moreover have "forward s (absorb g (s\<lparr>awaiting_ack := x\<rparr>))" for g x
    using absorb_forward forward_trans calculation by blast
  ultimately show ?thesis by (auto simp: age_ping_def Some Let_def split: option.split)
qed

lemma ping_scan_frame:
  "ping_scan n s = Ok (s', found) \<Longrightarrow> \<exists>k. s' = s\<lparr>next_ping_idx := k\<rparr>"
proof (induction n arbitrary: s)
  case 0
  then have "s' = s\<lparr>next_ping_idx := next_ping_idx s\<rparr>" by simp
  then show ?case ..
next
  case (Suc n)
  then show ?case
    by (fastforce simp: obind_eq_Ok Let_def split: if_splits)
qed

lemma next_ping_target_frame:
  "next_ping_target s = Ok (s', found) \<Longrightarrow> \<exists>k. s' = s\<lparr>next_ping_idx := k\<rparr>"
proof (cases "ping_order s = []")
  case True
  assume "next_ping_target s = Ok (s', found)"
  with True have "s' = s\<lparr>next_ping_idx := next_ping_idx s\<rparr>" by (simp add: next_ping_target_def)
  then show ?thesis ..
qed (auto simp: next_ping_target_def dest: ping_scan_frame)

text \<open>Starting a ping touches neither the membership view nor the suspicion timers.\<close>

lemma start_ping_frame:
  assumes "start_ping s = Ok (s', out)"
  shows "swim_id s' = swim_id s \<and> members s' = members s \<and> incarnation s' = incarnation s \<and>
    suspect_elapsed s' = suspect_elapsed s \<and> suspicion_timeout s' = suspicion_timeout s \<and>
    ping_order s' = ping_order s"
  using assms
  by (auto simp: start_ping_def Let_def take_gossip_eq obind_eq_Ok split: if_splits option.splits
      dest!: next_ping_target_frame)

lemma swim_tick_forward:
  assumes "swim_tick ks s = Ok (s', out)"
  shows "forward s s'"
proof -
  have "forward s (age_ping (age_suspicions ks s))"
    using age_suspicions_forward age_ping_forward by (rule forward_trans)
  also have "forward \<dots> s'"
    using assms start_ping_frame unfolding swim_tick_def by (blast intro: forward_same_members)
  finally show ?thesis .
qed

lemma absorb_message_forward: "forward s (absorb_message from inc gossip s)"
  unfolding absorb_message_def
  by (rule forward_trans [OF absorb_forward fold_forward]) (rule absorb_forward)

lemma swim_receive_forward:
  assumes "swim_receive e s = (s', out)"
  shows "forward s s'"
proof (cases "sw_message e")
  case (Ping seq inc gossip)
  have "forward (absorb_message (sw_from e) inc gossip s) s'"
    using assms Ping by (intro forward_same_members) (auto simp: swim_receive_def take_gossip_eq)
  with absorb_message_forward show ?thesis by (rule forward_trans)
next
  case (Ack seq inc gossip)
  have "forward (absorb_message (sw_from e) inc gossip s) s'"
    using assms Ack
    by (intro forward_same_members) (auto simp: swim_receive_def Let_def split: option.splits)
  with absorb_message_forward show ?thesis by (rule forward_trans)
qed

text \<open>What moving forward means for a dead and for a suspected member.\<close>

lemma forward_dead:
  "forward s s' \<Longrightarrow> i \<noteq> swim_id s \<Longrightarrow> status_of s i = Some Dead \<Longrightarrow> members s' i = members s i"
  by (auto simp: forward_def status_of_def supersedes_def)

lemma forward_suspect:
  assumes "forward s s'" and "i \<noteq> swim_id s" and "members s i = Some m" and "m_status m = Suspect"
    and "status_of s' i = Some Alive"
  shows "\<exists>m'. members s' i = Some m' \<and> m_incarnation m < m_incarnation m'"
  using assms unfolding forward_def status_of_def supersedes_def by fastforce

section \<open>The node's invariant\<close>

definition timers_ok :: "swim \<Rightarrow> bool" where
  "timers_ok s \<longleftrightarrow> (\<forall>i. suspect_elapsed s i = None \<longleftrightarrow> status_of s i \<noteq> Some Suspect)"

definition swim_inv :: "swim \<Rightarrow> bool" where
  "swim_inv s \<longleftrightarrow>
     members s (swim_id s) = Some \<lparr>m_status = Alive, m_incarnation = incarnation s\<rparr> \<and>
     timers_ok s \<and> queue_ok (gossip_queue s) \<and>
     (ping_order s \<noteq> [] \<longrightarrow> next_ping_idx s < length (ping_order s))"

lemma timer_suspect:
  assumes "swim_inv s" and "suspect_elapsed s j = Some e"
  shows "status_of s j = Some Suspect" and "j \<noteq> swim_id s"
proof -
  have "suspect_elapsed s j \<noteq> None" using assms(2) by simp
  then show s: "status_of s j = Some Suspect" using assms(1) unfolding swim_inv_def timers_ok_def by metis
  show "j \<noteq> swim_id s"
  proof
    assume "j = swim_id s"
    with s assms(1) show False by (simp add: swim_inv_def status_of_def)
  qed
qed

lemma swim_inv_cong:
  "swim_inv s \<Longrightarrow> swim_id s' = swim_id s \<Longrightarrow> members s' = members s \<Longrightarrow> incarnation s' = incarnation s \<Longrightarrow>
     suspect_elapsed s' = suspect_elapsed s \<Longrightarrow> queue_ok (gossip_queue s') \<Longrightarrow>
     ping_order s' = ping_order s \<Longrightarrow>
     (ping_order s \<noteq> [] \<Longrightarrow> next_ping_idx s' < length (ping_order s)) \<Longrightarrow> swim_inv s'"
  by (auto simp: swim_inv_def timers_ok_def status_of_def)

lemma swim_new_inv: "swim_inv (swim_new i peers period pt st)"
proof -
  let ?f = "\<lparr>m_status = Alive, m_incarnation = 0\<rparr>"
  have all: "\<forall>j m. foldl (\<lambda>m p. m(p \<mapsto> ?f)) m0 peers j = Some m \<longrightarrow> m = ?f"
    if "\<forall>j m. m0 j = Some m \<longrightarrow> m = ?f" for m0
    using that
  proof (induction peers arbitrary: m0)
    case (Cons p ps)
    have "\<forall>j m. (m0(p \<mapsto> ?f)) j = Some m \<longrightarrow> m = ?f" using Cons.prems by simp
    from Cons.IH [OF this] show ?case by simp
  qed simp
  have keep: "foldl (\<lambda>m p. m(p \<mapsto> ?f)) m0 peers i = Some ?f" if "m0 i = Some ?f" for m0
    using that by (induction peers arbitrary: m0) auto
  have "\<forall>j m. foldl (\<lambda>m p. m(p \<mapsto> ?f)) [i \<mapsto> ?f] peers j = Some m \<longrightarrow> m = ?f"
    by (rule all) simp
  then have "\<And>j m. foldl (\<lambda>m p. m(p \<mapsto> ?f)) [i \<mapsto> ?f] peers j = Some m \<Longrightarrow> m_status m \<noteq> Suspect"
    by fastforce
  then show ?thesis
    using keep [of "[i \<mapsto> ?f]"]
    by (auto simp: swim_inv_def swim_new_def Let_def timers_ok_def status_of_def queue_ok_def)
qed

lemma absorb_inv:
  assumes "swim_inv s"
  shows "swim_inv (absorb g s)"
proof (cases "g_member g = swim_id s")
  case True
  have "queue_ok (gossip_queue s)" using assms by (simp add: swim_inv_def)
  with True assms show ?thesis
    by (auto simp: merge_gossip_def maybe_refute_self_def Let_def swim_inv_def timers_ok_def
        status_of_def intro!: queue_gossip_ok)
next
  case False
  show ?thesis
  proof (cases "should_apply (members s (g_member g)) g")
    case False
    with \<open>g_member g \<noteq> swim_id s\<close> assms show ?thesis by (simp add: merge_gossip_def)
  next
    case True
    let ?m = "(members s)(g_member g \<mapsto> \<lparr>m_status = g_status g, m_incarnation = g_incarnation g\<rparr>)"
    let ?t = "if g_status g = Suspect then (suspect_elapsed s)(g_member g \<mapsto> 0)
      else (suspect_elapsed s)(g_member g := None)"
    have "absorb g s = queue_gossip g (s\<lparr>members := ?m, suspect_elapsed := ?t\<rparr>)"
      using True False by (simp add: merge_gossip_def Let_def)
    moreover have "queue_ok (gossip_queue (queue_gossip g (s\<lparr>members := ?m, suspect_elapsed := ?t\<rparr>)))"
      using assms by (intro queue_gossip_ok) (simp add: swim_inv_def)
    moreover have "timers_ok (queue_gossip g (s\<lparr>members := ?m, suspect_elapsed := ?t\<rparr>))"
      using assms by (auto simp: timers_ok_def status_of_def swim_inv_def)
    ultimately show ?thesis using assms False by (simp add: swim_inv_def)
  qed
qed

lemma bury_inv:
  assumes "swim_inv s"
  shows "swim_inv (bury i s)"
proof (cases "status_of s i = Some Suspect")
  case False
  then have "suspect_elapsed s i = None" using assms by (simp add: swim_inv_def timers_ok_def)
  then have "(suspect_elapsed s)(i := None) = suspect_elapsed s" by auto
  with False have "bury i s = s" by (auto simp: bury_def Let_def status_of_def split: option.split)
  with assms show ?thesis by simp
next
  case True
  then obtain m where m: "members s i = Some m" "m_status m = Suspect" by (auto simp: status_of_def)
  have "queue_ok (gossip_queue (bury i s))"
    using assms m by (auto simp: bury_def Let_def swim_inv_def intro!: queue_gossip_ok)
  moreover have "i \<noteq> swim_id s" using assms m by (auto simp: swim_inv_def)
  moreover have "timers_ok (bury i s)"
    using assms m by (auto simp: bury_def Let_def swim_inv_def timers_ok_def status_of_def)
  ultimately show ?thesis using assms m by (auto simp: bury_def Let_def swim_inv_def)
qed

lemma fold_inv: "(\<And>x s. swim_inv s \<Longrightarrow> swim_inv (f x s)) \<Longrightarrow> swim_inv s \<Longrightarrow> swim_inv (fold f xs s)"
  by (induction xs arbitrary: s) auto

lemma age_suspicions_inv: "swim_inv s \<Longrightarrow> swim_inv (age_suspicions ks s)"
  unfolding age_suspicions_def
  by (rule fold_inv [OF bury_inv])
     (auto simp: swim_inv_def timers_ok_def aged_def status_of_def)

lemma swim_inv_awaiting: "swim_inv s \<Longrightarrow> swim_inv (s\<lparr>awaiting_ack := x\<rparr>)"
  by (simp add: swim_inv_def timers_ok_def status_of_def)

lemma age_ping_inv: "swim_inv s \<Longrightarrow> swim_inv (age_ping s)"
  by (cases "awaiting_ack s")
     (auto simp: age_ping_def Let_def swim_inv_awaiting absorb_inv split: option.split)

lemma ping_scan_ok:
  "ping_order s \<noteq> [] \<Longrightarrow> next_ping_idx s < length (ping_order s) \<Longrightarrow>
     \<exists>s' found. ping_scan n s = Ok (s', found) \<and> next_ping_idx s' < length (ping_order s)"
proof (induction n arbitrary: s)
  case (Suc n)
  let ?s1 = "s\<lparr>next_ping_idx := (next_ping_idx s + 1) mod length (ping_order s)\<rparr>"
  have "next_ping_idx ?s1 < length (ping_order ?s1)" using Suc.prems by simp
  with Suc.IH [of ?s1] Suc.prems show ?case by (auto simp: Let_def)
qed simp

lemma next_ping_target_ok:
  assumes "swim_inv s"
  shows "\<exists>s' found. next_ping_target s = Ok (s', found) \<and> swim_inv s'"
proof (cases "ping_order s = []")
  case True
  with assms show ?thesis by (simp add: next_ping_target_def)
next
  case False
  then obtain s' found where r: "next_ping_target s = Ok (s', found)"
    "next_ping_idx s' < length (ping_order s)"
    using ping_scan_ok [of s "length (ping_order s)"] assms
    by (auto simp: next_ping_target_def swim_inv_def)
  obtain k where "s' = s\<lparr>next_ping_idx := k\<rparr>" using next_ping_target_frame [OF r(1)] ..
  with r(2) assms have "swim_inv s'" by (intro swim_inv_cong [OF assms]) (simp_all add: swim_inv_def)
  with r(1) show ?thesis by blast
qed

lemma take_gossip_inv: "swim_inv s \<Longrightarrow> swim_inv (fst (take_gossip s))"
  using take_gossip_ok [of s]
  by (auto simp: take_gossip_eq swim_inv_def timers_ok_def status_of_def)

lemma start_ping_inv:
  assumes "swim_inv s"
  shows "\<exists>s' out. start_ping s = Ok (s', out) \<and> swim_inv s'"
proof -
  let ?s1 = "s\<lparr>period_elapsed := inc32 (period_elapsed s)\<rparr>"
  have 1: "swim_inv ?s1" "swim_inv (?s1\<lparr>period_elapsed := 0\<rparr>)"
    using assms by (auto simp: swim_inv_def timers_ok_def status_of_def)
  obtain s2 found where 2: "next_ping_target (?s1\<lparr>period_elapsed := 0\<rparr>) = Ok (s2, found)" "swim_inv s2"
    using next_ping_target_ok [OF 1(2)] by blast
  have 3: "swim_inv (s2\<lparr>next_seq := a, awaiting_ack := b\<rparr>)" for a b
    using 2(2) by (simp add: swim_inv_def timers_ok_def status_of_def)
  have 4: "swim_inv (fst (take_gossip (s2\<lparr>next_seq := a, awaiting_ack := b\<rparr>)))" for a b
    using 3 by (rule take_gossip_inv)
  show ?thesis
    using 1(1) 2 4 by (auto simp: start_ping_def Let_def case_prod_beta split: option.split)
qed

lemma swim_tick_inv:
  "swim_inv s \<Longrightarrow> \<exists>s' out. swim_tick ks s = Ok (s', out) \<and> swim_inv s'"
  unfolding swim_tick_def by (intro start_ping_inv age_ping_inv age_suspicions_inv)

lemma absorb_message_inv: "swim_inv s \<Longrightarrow> swim_inv (absorb_message from inc gossip s)"
  unfolding absorb_message_def by (intro fold_inv absorb_inv)

lemma swim_receive_inv:
  assumes "swim_inv s" and "swim_receive e s = (s', out)"
  shows "swim_inv s'"
proof (cases "sw_message e")
  case (Ping seq inc gossip)
  with assms(2) have "s' = fst (take_gossip (absorb_message (sw_from e) inc gossip s))"
    by (auto simp: swim_receive_def split: prod.splits)
  then show ?thesis using assms(1) by (simp add: take_gossip_inv absorb_message_inv)
next
  case (Ack seq inc gossip)
  let ?s1 = "absorb_message (sw_from e) inc gossip s"
  from Ack assms(2) have "s' = ?s1 \<or> s' = ?s1\<lparr>awaiting_ack := None\<rparr>"
    by (auto simp: swim_receive_def Let_def split: option.splits if_splits)
  then show ?thesis using assms(1) absorb_message_inv swim_inv_awaiting by blast
qed

section \<open>Failure detection\<close>

lemma bury_other: "i \<noteq> j \<Longrightarrow> members (bury i s) j = members s j \<and> suspect_elapsed (bury i s) j = suspect_elapsed s j"
  by (auto simp: bury_def Let_def split: option.split)

lemma fold_bury_other:
  "j \<notin> set is \<Longrightarrow> members (fold bury is s) j = members s j \<and>
     suspect_elapsed (fold bury is s) j = suspect_elapsed s j"
  by (induction "is" arbitrary: s) (auto simp: bury_other)

lemma bury_dead: "status_of s i = Some Suspect \<Longrightarrow> status_of (bury i s) i = Some Dead"
  by (auto simp: bury_def Let_def status_of_def)

lemma bury_id: "swim_id (bury i s) = swim_id s"
  by (auto simp: bury_def Let_def split: option.split)

lemma fold_bury_dead:
  "j \<in> set is \<Longrightarrow> status_of s j = Some Suspect \<Longrightarrow> j \<noteq> swim_id s \<Longrightarrow>
     status_of (fold bury is s) j = Some Dead"
proof (induction "is" arbitrary: s)
  case (Cons i "is")
  show ?case
  proof (cases "i = j")
    case True
    have d: "status_of (bury i s) j = Some Dead" using True Cons.prems bury_dead by simp
    have "forward (bury i s) (fold bury is (bury i s))"
      by (rule fold_forward) (rule bury_forward)
    with d Cons.prems(3) have "members (fold bury is (bury i s)) j = members (bury i s) j"
      by (intro forward_dead) (simp_all add: bury_id)
    with d show ?thesis by (simp add: status_of_def)
  next
    case False
    with Cons show ?thesis using bury_other [OF False] by (auto simp: status_of_def bury_id)
  qed
qed simp

text \<open>A timed-out ping touches only a member that was alive.\<close>

lemma age_ping_other:
  assumes "status_of s j \<noteq> Some Alive" and "j \<noteq> swim_id s"
  shows "members (age_ping s) j = members s j \<and> suspect_elapsed (age_ping s) j = suspect_elapsed s j"
proof (cases "awaiting_ack s")
  case None
  then show ?thesis by (simp add: age_ping_def)
next
  case (Some a)
  show ?thesis
  proof (cases "aw_target a = j")
    case True
    with Some assms show ?thesis
      by (auto simp: age_ping_def Let_def status_of_def split: option.split)
  next
    case False
    with Some assms show ?thesis
      by (auto simp: age_ping_def Let_def merge_gossip_def maybe_refute_self_def split: option.split)
  qed
qed

lemma silent_tick:
  assumes inv: "swim_inv s" and ks: "set ks = dom (suspect_elapsed s)"
    and tk: "swim_tick ks s = Ok (s', out)"
    and e: "suspect_elapsed s j = Some e" "e < u32_max"
  shows "if Suc e \<ge> suspicion_timeout s then status_of s' j = Some Dead
    else members s' j = members s j \<and> suspect_elapsed s' j = Some (Suc e)"
proof -
  let ?s0 = "s\<lparr>suspect_elapsed := aged s\<rparr>" and ?s1 = "age_suspicions ks s"
  have sus: "status_of s j = Some Suspect" and self: "j \<noteq> swim_id s"
    using timer_suspect [OF inv e(1)] .
  have id: "swim_id ?s1 = swim_id s" using age_suspicions_forward [of s ks] by (simp add: forward_def)
  have aged: "aged s j = Some (Suc e)" using e by (simp add: aged_def inc32_Suc)
  have s': "members s' = members (age_ping ?s1)" "suspect_elapsed s' = suspect_elapsed (age_ping ?s1)"
    using start_ping_frame tk unfolding swim_tick_def by blast+
  have j: "j \<in> set (timed_out s ks) \<longleftrightarrow> Suc e \<ge> suspicion_timeout s"
    using ks e aged by (auto simp: timed_out_def)
  show ?thesis
  proof (cases "Suc e \<ge> suspicion_timeout s")
    case True
    have d: "status_of ?s1 j = Some Dead"
      unfolding age_suspicions_def using True j sus self
      by (intro fold_bury_dead) (simp_all add: status_of_def)
    then have "members (age_ping ?s1) j = members ?s1 j"
      using age_ping_other [of ?s1 j] id self by simp
    with d True s' show ?thesis by (simp add: status_of_def)
  next
    case False
    then have f: "members ?s1 j = members s j" "suspect_elapsed ?s1 j = Some (Suc e)"
      using fold_bury_other [of j "timed_out s ks" ?s0] j aged by (simp_all add: age_suspicions_def)
    then have "status_of ?s1 j = Some Suspect" using sus by (simp add: status_of_def)
    then have "members (age_ping ?s1) j = members s j" "suspect_elapsed (age_ping ?s1) j = Some (Suc e)"
      using age_ping_other [of ?s1 j] id self f by simp_all
    with False s' show ?thesis by simp
  qed
qed

lemma age_suspicions_timeout: "suspicion_timeout (age_suspicions ks s) = suspicion_timeout s"
proof -
  have "suspicion_timeout (bury i s) = suspicion_timeout s" for i s
    by (auto simp: bury_def Let_def split: option.split)
  then have "suspicion_timeout (fold bury is s) = suspicion_timeout s" for "is" s
    by (induction "is" arbitrary: s) auto
  then show ?thesis by (simp add: age_suspicions_def)
qed

lemma age_ping_timeout: "suspicion_timeout (age_ping s) = suspicion_timeout s"
  by (auto simp: age_ping_def Let_def merge_gossip_def maybe_refute_self_def split: option.split)

lemma swim_tick_timeout: "swim_tick ks s = Ok (s', out) \<Longrightarrow> suspicion_timeout s' = suspicion_timeout s"
  unfolding swim_tick_def using start_ping_frame age_suspicions_timeout age_ping_timeout by metis

section \<open>Who is pinged\<close>

lemma ping_scan_some:
  "ping_scan n s = Ok (s', Some j) \<Longrightarrow> j \<in> set (ping_order s) \<and> status_of s j \<noteq> Some Dead"
proof (induction n arbitrary: s)
  case (Suc n)
  let ?s1 = "s\<lparr>next_ping_idx := (next_ping_idx s + 1) mod length (ping_order s)\<rparr>"
  from Suc.prems have i: "next_ping_idx s < length (ping_order s)"
    by (auto simp: obind_eq_Ok index_at_def split: if_splits)
  with Suc.prems have "status_of ?s1 (ping_order s ! next_ping_idx s) \<noteq> Some Dead \<and>
      j = ping_order s ! next_ping_idx s \<or> ping_scan n ?s1 = Ok (s', Some j)"
    by (auto simp: Let_def split: if_splits)
  with Suc.IH [of ?s1] i show ?case by (auto simp: status_of_def)
qed simp

lemma ping_scan_none:
  "ping_scan n s = Ok (s', None) \<Longrightarrow> next_ping_idx s < length (ping_order s) \<Longrightarrow> k < n \<Longrightarrow>
     status_of s (ping_order s ! ((next_ping_idx s + k) mod length (ping_order s))) = Some Dead"
proof (induction n arbitrary: s k)
  case (Suc n)
  let ?s1 = "s\<lparr>next_ping_idx := (next_ping_idx s + 1) mod length (ping_order s)\<rparr>"
  from Suc.prems have d: "status_of s (ping_order s ! next_ping_idx s) = Some Dead"
    and r: "ping_scan n ?s1 = Ok (s', None)"
    by (auto simp: Let_def status_of_def split: if_splits)
  show ?case
  proof (cases k)
    case 0
    with d Suc.prems(2) show ?thesis by simp
  next
    case (Suc k')
    have "status_of ?s1 (ping_order ?s1 ! ((next_ping_idx ?s1 + k') mod length (ping_order ?s1))) = Some Dead"
    proof (rule Suc.IH [OF r])
      have "0 < length (ping_order s)" using Suc.prems(2) by linarith
      then show "next_ping_idx ?s1 < length (ping_order ?s1)" by simp
      show "k' < n" using Suc Suc.prems(3) by simp
    qed
    then show ?thesis using Suc by (simp add: status_of_def mod_add_left_eq)
  qed
qed simp

text \<open>The scan finds a member that is not known dead whenever the list has one.\<close>

lemma next_ping_target_finds:
  assumes "swim_inv s" and "j \<in> set (ping_order s)" and "status_of s j \<noteq> Some Dead"
  shows "\<exists>s' i. next_ping_target s = Ok (s', Some i) \<and> i \<in> set (ping_order s) \<and>
    status_of s i \<noteq> Some Dead"
proof -
  let ?n = "length (ping_order s)" and ?x = "next_ping_idx s"
  have ne: "ping_order s \<noteq> []" and x: "?x < ?n" using assms by (auto simp: swim_inv_def)
  obtain s' found where r: "ping_scan ?n s = Ok (s', found)"
    using ping_scan_ok [OF ne x] by blast
  have "found \<noteq> None"
  proof
    assume none: "found = None"
    obtain i where i: "i < ?n" "j = ping_order s ! i" using assms(2) by (auto simp: in_set_conv_nth)
    let ?k = "(i + ?n - ?x) mod ?n"
    have "(?x + ?k) mod ?n = i"
    proof -
      have "(?x + ?k) mod ?n = (?x + (i + ?n - ?x)) mod ?n" by (rule mod_add_right_eq)
      also have "?x + (i + ?n - ?x) = i + ?n" using x by simp
      finally show ?thesis using i(1) by simp
    qed
    moreover have "?k < ?n" using ne by (intro mod_less_divisor) simp
    ultimately have "status_of s j = Some Dead"
      using ping_scan_none [of ?n s s' ?k] r none x i by simp
    with assms(3) show False ..
  qed
  then show ?thesis
    using r ne ping_scan_some by (auto simp: next_ping_target_def)
qed

end
