(* ===== verification/Gems_Gossip_Wire.thy ===== *)
theory Gems_Gossip_Wire
  imports Gems_Gossip
begin

text \<open>
  \<^verbatim>\<open>gossip::wire\<close>: the encoding of SWIM messages, an instance of the payload
  contract of the authenticated frame.
\<close>

definition PING :: u8 where "PING = 1"
definition ACK :: u8 where "ACK = 2"

fun encode_status :: "status \<Rightarrow> u8" where
  "encode_status Alive = 0"
| "encode_status Suspect = 1"
| "encode_status Dead = 2"

definition decode_status :: "u8 \<Rightarrow> status result" where
  "decode_status b =
     (if b = 0 then Ok Alive else if b = 1 then Ok Suspect else if b = 2 then Ok Dead
      else Err (InvalidValue ''unknown SWIM status byte''))"

definition item_bytes :: "gossip_item \<Rightarrow> bytes" where
  "item_bytes g = le_bytes 4 (g_member g) @ [encode_status (g_status g)] @ le_bytes 8 (g_incarnation g)"

definition swim_body :: "nat \<Rightarrow> nat \<Rightarrow> gossip_item list \<Rightarrow> bytes" where
  "swim_body seq inc gossip =
     le_bytes 4 seq @ le_bytes 8 inc @ le_bytes 4 (length gossip) @ concat (map item_bytes gossip)"

definition swim_payload :: "swim_envelope \<Rightarrow> bytes" where
  "swim_payload e =
     le_bytes 4 (sw_from e) @ le_bytes 4 (sw_to e) @
     (case sw_message e of
        Ping seq inc gossip \<Rightarrow> [PING] @ swim_body seq inc gossip
      | Ack seq inc gossip \<Rightarrow> [ACK] @ swim_body seq inc gossip)"

definition swim_encode :: "swim_envelope \<Rightarrow> bytes \<Rightarrow> bytes" where
  "swim_encode e secret = auth_frame secret (swim_payload e)"

definition swim_read_u8 :: "u8 reader" where
  "swim_read_u8 = cur_u8 ''SWIM envelope truncated''"

definition swim_read_u32 :: "nat reader" where
  "swim_read_u32 = cur_uint ''SWIM envelope truncated'' 4"

definition swim_read_u64 :: "nat reader" where
  "swim_read_u64 = cur_uint ''SWIM envelope truncated'' 8"

lemmas swim_readers = swim_read_u8_def swim_read_u32_def swim_read_u64_def

definition read_item :: "gossip_item reader" where
  "read_item buf pos =
     obind (swim_read_u32 buf pos) (\<lambda>(m, pos).
     obind (swim_read_u8 buf pos) (\<lambda>(b, pos).
     obind (decode_status b) (\<lambda>st.
     obind (swim_read_u64 buf pos) (\<lambda>(inc, pos).
     Ok (\<lparr>g_member = m, g_status = st, g_incarnation = inc\<rparr>, pos)))))"

definition read_swim_body :: "(nat \<times> nat \<times> gossip_item list) reader" where
  "read_swim_body buf pos =
     obind (swim_read_u32 buf pos) (\<lambda>(seq, pos).
     obind (swim_read_u64 buf pos) (\<lambda>(inc, pos).
     obind (swim_read_u32 buf pos) (\<lambda>(count, pos).
     if count > (length buf - pos) div 13
     then Err (InvalidValue ''SWIM gossip item count exceeds what the payload could hold'')
     else omap (\<lambda>(gossip, pos). ((seq, inc, gossip), pos)) (read_n count read_item buf pos))))"

definition read_swim_envelope :: "bytes \<Rightarrow> swim_envelope result" where
  "read_swim_envelope payload =
     obind (swim_read_u32 payload 0) (\<lambda>(from, pos).
     obind (swim_read_u32 payload pos) (\<lambda>(to, pos).
     obind (swim_read_u8 payload pos) (\<lambda>(tag, pos).
     obind (read_swim_body payload pos) (\<lambda>((seq, inc, gossip), pos).
     if tag = PING then Ok \<lparr>sw_from = from, sw_to = to, sw_message = Ping seq inc gossip\<rparr>
     else if tag = ACK then Ok \<lparr>sw_from = from, sw_to = to, sw_message = Ack seq inc gossip\<rparr>
     else Err (InvalidValue ''unknown SWIM message tag'')))))"

definition swim_decode :: "bytes \<Rightarrow> bytes \<Rightarrow> (swim_envelope \<times> nat) option result" where
  "swim_decode =
     auth_open ''SWIM envelope exceeds the maximum frame size''
       ''SWIM envelope authentication tag mismatch'' read_swim_envelope"

definition item_ok :: "gossip_item \<Rightarrow> bool" where
  "item_ok g \<longleftrightarrow> g_member g \<le> u32_max \<and> g_incarnation g \<le> u64_max"

fun message_ok :: "swim_message \<Rightarrow> bool" where
  "message_ok (Ping seq inc gossip) \<longleftrightarrow> seq \<le> u32_max \<and> inc \<le> u64_max \<and> list_all item_ok gossip"
| "message_ok (Ack seq inc gossip) \<longleftrightarrow> seq \<le> u32_max \<and> inc \<le> u64_max \<and> list_all item_ok gossip"

definition swim_ok :: "swim_envelope \<Rightarrow> bool" where
  "swim_ok e \<longleftrightarrow> sw_from e \<le> u32_max \<and> sw_to e \<le> u32_max \<and> message_ok (sw_message e) \<and>
     length (swim_payload e) \<le> MAX_FRAME_LEN"

lemma decode_encode_status [simp]: "decode_status (encode_status st) = Ok st"
  by (cases st) (simp_all add: decode_status_def)

lemma decode_status_no_panic [simp]: "decode_status b \<noteq> Panic"
  by (simp add: decode_status_def)

interpretation item: field_codec item_bytes read_item item_ok
proof unfold_locales
  show "read_item buf p = Ok (g, p + length (item_bytes g))"
    if "item_ok g" "has_at buf p (item_bytes g)" for g buf p
    using that by (auto simp: read_item_def item_bytes_def item_ok_def swim_readers)
  show "read_item buf p \<noteq> Panic" if "p \<le> length buf" for buf p
    by (auto simp: read_item_def obind_eq_Panic swim_readers)
  show "p \<le> q \<and> q \<le> length buf" if "read_item buf p = Ok (g, q)" "p \<le> length buf" for buf p g q
    using that
    by (auto simp: read_item_def obind_eq_Ok swim_readers dest!: cur_uint_bound cur_u8_bound)
qed

lemma items_length: "length (concat (map item_bytes gs)) = 13 * length gs"
  by (induction gs) (auto simp: item_bytes_def)

lemma read_swim_body_at:
  assumes "seq \<le> u32_max" and "inc \<le> u64_max" and "list_all item_ok gossip"
    and "length buf \<le> MAX_FRAME_LEN" and "has_at buf p (swim_body seq inc gossip)"
  shows "\<exists>q. read_swim_body buf p = Ok ((seq, inc, gossip), q)"
proof -
  from assms(5) have at: "has_at buf p (le_bytes 4 seq)" "has_at buf (p + 4) (le_bytes 8 inc)"
    "has_at buf (p + 12) (le_bytes 4 (length gossip))"
    "has_at buf (p + 16) (concat (map item_bytes gossip))"
    by (simp_all add: swim_body_def add.assoc)
  have le: "p + 16 + 13 * length gossip \<le> length buf"
    using has_at_le [OF at(4)] by (simp add: items_length)
  then have count: "length gossip \<le> (length buf - (p + 16)) div 13" and small: "length gossip \<le> u32_max"
    using assms(4) by (auto simp: MAX_FRAME_LEN_def)
  have "swim_read_u32 buf p = Ok (seq, p + 4)" "swim_read_u64 buf (p + 4) = Ok (inc, p + 12)"
    "swim_read_u32 buf (p + 12) = Ok (length gossip, p + 16)"
    using at assms small by (simp_all add: swim_readers)
  then show ?thesis
    using count item.read_n_wr [OF assms(3) at(4)] by (simp add: read_swim_body_def)
qed

lemma read_swim_payload:
  assumes "swim_ok e"
  shows "read_swim_envelope (swim_payload e) = Ok e"
proof -
  let ?b = "swim_payload e"
  obtain seq inc gossip where m: "sw_message e = Ping seq inc gossip \<or> sw_message e = Ack seq inc gossip"
    by (cases "sw_message e") auto
  have ok: "seq \<le> u32_max" "inc \<le> u64_max" "list_all item_ok gossip" "length ?b \<le> MAX_FRAME_LEN"
    using assms m by (auto simp: swim_ok_def)
  have at: "has_at ?b 0 (le_bytes 4 (sw_from e))" "has_at ?b 4 (le_bytes 4 (sw_to e))"
    "8 < length ?b" "has_at ?b 9 (swim_body seq inc gossip)"
    "?b ! 8 = (case sw_message e of Ping _ _ _ \<Rightarrow> PING | Ack _ _ _ \<Rightarrow> ACK)"
    using has_at_self [of ?b] m by (auto simp: swim_payload_def)
  obtain q where "read_swim_body ?b 9 = Ok ((seq, inc, gossip), q)"
    using read_swim_body_at [OF ok at(4)] by blast
  moreover have "swim_read_u32 ?b 0 = Ok (sw_from e, 4)" "swim_read_u32 ?b 4 = Ok (sw_to e, 8)"
    "swim_read_u8 ?b 8 = Ok (?b ! 8, 9)"
    using at assms by (simp_all add: swim_readers swim_ok_def)
  ultimately show ?thesis
    using m at(5) by (auto simp: read_swim_envelope_def PING_def ACK_def)
qed

lemma read_swim_envelope_no_panic: "read_swim_envelope payload \<noteq> Panic"
proof -
  have "read_swim_body payload p \<noteq> Panic" for p
    by (auto simp: read_swim_body_def obind_eq_Panic swim_readers dest!: cur_uint_bound
        intro: item.read_n_no_panic [THEN notE])
  then show ?thesis
    by (auto simp: read_swim_envelope_def obind_eq_Panic swim_readers split: if_splits)
qed

interpretation swim_peer: payload_codec swim_payload read_swim_envelope swim_ok
    "''SWIM envelope exceeds the maximum frame size''" "''SWIM envelope authentication tag mismatch''"
  by unfold_locales (simp_all add: read_swim_payload read_swim_envelope_no_panic swim_ok_def)

lemmas swim_wire = swim_encode_def swim_decode_def

lemma swim_decode_encode:
  "swim_ok e \<Longrightarrow> swim_decode (swim_encode e secret @ rest) secret =
     Ok (Some (e, length (swim_encode e secret)))"
  unfolding swim_wire by (rule swim_peer.open_seal)

lemma swim_decode_no_panic: "swim_decode buf secret \<noteq> Panic"
  unfolding swim_wire by (rule swim_peer.open_no_panic)

end
