(* ===== verification/Gems_Gossip_Safety.thy ===== *)
theory Gems_Gossip_Safety
  imports Gems_Gossip_Wire
begin

text \<open>
  The properties of the membership protocol, over whole runs of one node: any sequence of
  ticks (each visiting the suspicion timers in some order) and of messages received, whatever
  they say.
\<close>

datatype swim_event = Elapse "nat list" | Arrive swim_envelope

primrec swim_play :: "swim_event \<Rightarrow> swim \<Rightarrow> swim result" where
  "swim_play (Elapse ks) s = omap fst (swim_tick ks s)"
| "swim_play (Arrive e) s = Ok (fst (swim_receive e s))"

primrec swim_run :: "swim_event list \<Rightarrow> swim \<Rightarrow> swim result" where
  "swim_run [] s = Ok s"
| "swim_run (e # es) s = obind (swim_play e s) (swim_run es)"

lemma swim_play_inv: "swim_inv s \<Longrightarrow> \<exists>s'. swim_play e s = Ok s' \<and> swim_inv s'"
proof (cases e)
  case (Elapse ks)
  then show "swim_inv s \<Longrightarrow> ?thesis" using swim_tick_inv [of s ks] by auto
next
  case (Arrive m)
  then show "swim_inv s \<Longrightarrow> ?thesis" using swim_receive_inv [of s m] by (cases "swim_receive m s") auto
qed

lemma swim_run_inv: "swim_inv s \<Longrightarrow> \<exists>s'. swim_run es s = Ok s' \<and> swim_inv s'"
proof (induction es arbitrary: s)
  case (Cons e es)
  from swim_play_inv [OF Cons.prems, of e] obtain s1 where 1: "swim_play e s = Ok s1" "swim_inv s1"
    by blast
  show ?case using Cons.IH [OF 1(2)] 1(1) by simp
qed simp

lemma swim_play_forward: "swim_play e s = Ok s' \<Longrightarrow> forward s s'"
proof (cases e)
  case (Elapse ks)
  assume "swim_play e s = Ok s'"
  with Elapse obtain out where "swim_tick ks s = Ok (s', out)" by (cases "swim_tick ks s") auto
  then show ?thesis by (rule swim_tick_forward)
next
  case (Arrive m)
  assume "swim_play e s = Ok s'"
  with Arrive have "swim_receive m s = (s', snd (swim_receive m s))" by auto
  then show ?thesis by (rule swim_receive_forward)
qed

lemma swim_run_forward: "swim_run es s = Ok s' \<Longrightarrow> forward s s'"
proof (induction es arbitrary: s)
  case (Cons e es)
  then obtain s1 where "swim_play e s = Ok s1" "swim_run es s1 = Ok s'"
    by (auto simp: obind_eq_Ok)
  then show ?case using Cons.IH swim_play_forward forward_trans by blast
qed simp

text \<open>
  A node never panics. From its start, over any run, the node stays in its invariant: it
  believes itself alive under its own incarnation, exactly the suspected members have a timer,
  the gossip queue has one entry per member with sends left, and the ping cursor is in range.
\<close>

lemma swim_node_total:
  "\<exists>s. swim_run es (swim_new i ps period pt st) = Ok s \<and> swim_inv s"
  by (rule swim_run_inv [OF swim_new_inv])

text \<open>
  C9: beliefs only move forward. Over any run, what is known of another member that is dead
  never changes again, and a suspected member is believed alive again only under a higher
  incarnation number.
\<close>

theorem swim_beliefs_forward:
  assumes "swim_run es s = Ok s'" and "i \<noteq> swim_id s"
  shows "(status_of s i = Some Dead \<longrightarrow> members s' i = members s i) \<and>
    (members s i = Some m \<and> m_status m = Suspect \<and> status_of s' i = Some Alive \<longrightarrow>
       (\<exists>m'. members s' i = Some m' \<and> m_incarnation m < m_incarnation m'))"
proof -
  have f: "forward s s'" using assms(1) by (rule swim_run_forward)
  show ?thesis
    using forward_dead [OF f assms(2)] forward_suspect [OF f assms(2)] by blast
qed

text \<open>A node with one peer that it suspects, and what it becomes.\<close>

definition suspicious :: swim where
  "suspicious = absorb \<lparr>g_member = 2, g_status = Suspect, g_incarnation = 0\<rparr> (swim_new 1 [2] 5 1 1)"

definition refutation :: swim_envelope where
  "refutation = \<lparr>sw_from = 2, sw_to = 1, sw_message = Ping 1 1 []\<rparr>"

lemma suspicious_eq:
  "suspicious = (swim_new 1 [2] 5 1 1)
     \<lparr>members := [1 \<mapsto> \<lparr>m_status = Alive, m_incarnation = 0\<rparr>, 2 \<mapsto> \<lparr>m_status = Suspect, m_incarnation = 0\<rparr>],
      suspect_elapsed := [2 \<mapsto> 0],
      gossip_queue := [(\<lparr>g_member = 2, g_status = Suspect, g_incarnation = 0\<rparr>, GOSSIP_RETRANSMIT_COUNT)]\<rparr>"
  by (simp add: suspicious_def merge_gossip_def swim_new_def should_apply_def queue_gossip_def
      less_status_def Let_def)

lemma suspicious_simps:
  "swim_id suspicious = 1" "ping_order suspicious = [2]" "suspicion_timeout suspicious = 1"
  "suspect_elapsed suspicious = [2 \<mapsto> 0]" "status_of suspicious 2 = Some Suspect"
  "members suspicious 2 = Some \<lparr>m_status = Suspect, m_incarnation = 0\<rparr>"
  by (simp_all add: suspicious_eq swim_new_def status_of_def Let_def)

lemma suspicious_inv: "swim_inv suspicious"
  by (auto simp: suspicious_eq swim_inv_def timers_ok_def status_of_def queue_ok_def swim_new_def
      GOSSIP_RETRANSMIT_COUNT_def Let_def)

lemma refuted:
  "\<exists>s'. swim_run [Arrive refutation] suspicious = Ok s' \<and> status_of s' 2 = Some Alive"
  by (simp add: swim_receive_def refutation_def suspicious_eq absorb_message_def merge_gossip_def
      should_apply_def take_gossip_def status_of_def swim_new_def queue_gossip_def less_status_def
      maybe_refute_self_def Let_def case_prod_beta)

lemma swim_beliefs_forward_witness:
  "\<exists>s' m'. swim_run [Arrive refutation] suspicious = Ok s' \<and> members s' 2 = Some m' \<and>
     0 < m_incarnation m'"
proof -
  obtain s' where r: "swim_run [Arrive refutation] suspicious = Ok s'" "status_of s' 2 = Some Alive"
    using refuted by blast
  show ?thesis
    using swim_beliefs_forward [OF r(1), of 2 "\<lparr>m_status = Suspect, m_incarnation = 0\<rparr>"] r
    by (auto simp: suspicious_simps)
qed

section \<open>Failures are detected\<close>

text \<open>What an event says of members: the sender is alive under its incarnation, and the gossip that comes with it.\<close>

fun said :: "swim_event \<Rightarrow> gossip_item list" where
  "said (Elapse ks) = []"
| "said (Arrive e) = \<lparr>g_member = sw_from e, g_status = Alive, g_incarnation = sender_incarnation (sw_message e)\<rparr> #
     msg_gossip (sw_message e)"

fun is_tick :: "swim_event \<Rightarrow> bool" where
  "is_tick (Elapse ks) = True"
| "is_tick (Arrive e) = False"

text \<open>Every tick visits the suspicion timers there are, in some order.\<close>

fun visits_timers :: "swim_event list \<Rightarrow> swim \<Rightarrow> bool" where
  "visits_timers [] s = True"
| "visits_timers (e # es) s \<longleftrightarrow>
     (case e of Elapse ks \<Rightarrow> set ks = dom (suspect_elapsed s) | Arrive m \<Rightarrow> True) \<and>
     (case swim_play e s of Ok s' \<Rightarrow> visits_timers es s' | _ \<Rightarrow> True)"

text \<open>Nothing that clears a suspicion of incarnation \<open>n\<close>: a higher incarnation is named only to say that the member is dead.\<close>

definition no_newer :: "nat \<Rightarrow> nat \<Rightarrow> gossip_item \<Rightarrow> bool" where
  "no_newer j n g \<longleftrightarrow> (g_member g = j \<longrightarrow> g_status g = Dead \<or> g_incarnation g \<le> n)"

text \<open>The member is dead, or suspected as before with the same time on its timer.\<close>

definition doomed :: "nat \<Rightarrow> member_info \<Rightarrow> nat \<Rightarrow> swim \<Rightarrow> bool" where
  "doomed j m e s \<longleftrightarrow> status_of s j = Some Dead \<or> members s j = Some m \<and> suspect_elapsed s j = Some e"

lemma absorb_frame: "swim_id (absorb g s) = swim_id s" "suspicion_timeout (absorb g s) = suspicion_timeout s"
  by (simp_all add: merge_gossip_def maybe_refute_self_def Let_def)

lemma fold_absorb_frame: "swim_id (fold absorb gs s) = swim_id s \<and> suspicion_timeout (fold absorb gs s) = suspicion_timeout s"
  by (induction gs arbitrary: s) (simp_all add: absorb_frame)

lemma absorb_doomed:
  assumes "doomed j m e s" and "m_status m = Suspect" and "j \<noteq> swim_id s" and "no_newer j (m_incarnation m) g"
  shows "doomed j m e (absorb g s)"
proof (cases "status_of s j = Some Dead")
  case True
  then show ?thesis using forward_dead [OF absorb_forward assms(3) True, of g] by (simp add: doomed_def status_of_def)
next
  case False
  then have m: "members s j = Some m" "suspect_elapsed s j = Some e" using assms(1) by (simp_all add: doomed_def)
  show ?thesis
  proof (cases "g_member g = j")
    case True
    then have "g_status g = Dead \<or> g_incarnation g \<le> m_incarnation m" using assms(4) by (simp add: no_newer_def)
    then show ?thesis using True m assms(2,3)
      by (cases "g_status g") (auto simp: merge_gossip_def should_apply_def doomed_def status_of_def Let_def less_status_def)
  next
    case False
    then show ?thesis using m assms(3)
      by (auto simp: merge_gossip_def maybe_refute_self_def doomed_def Let_def)
  qed
qed

lemma fold_absorb_doomed:
  "doomed j m e s \<Longrightarrow> m_status m = Suspect \<Longrightarrow> j \<noteq> swim_id s \<Longrightarrow> \<forall>g \<in> set gs. no_newer j (m_incarnation m) g \<Longrightarrow>
     doomed j m e (fold absorb gs s)"
  by (induction gs arbitrary: s) (simp_all add: absorb_doomed absorb_frame)

lemma receive_absorbs:
  "members (fst (swim_receive e s)) = members (fold absorb (said (Arrive e)) s)"
  "suspect_elapsed (fst (swim_receive e s)) = suspect_elapsed (fold absorb (said (Arrive e)) s)"
  "swim_id (fst (swim_receive e s)) = swim_id (fold absorb (said (Arrive e)) s)"
  "suspicion_timeout (fst (swim_receive e s)) = suspicion_timeout (fold absorb (said (Arrive e)) s)"
  by (cases "sw_message e"; simp add: swim_receive_def absorb_message_def take_gossip_eq Let_def split: option.split)+

lemma receive_doomed:
  assumes "doomed j m e s" and "m_status m = Suspect" and "j \<noteq> swim_id s" and "\<forall>g \<in> set (said (Arrive x)). no_newer j (m_incarnation m) g"
  shows "doomed j m e (fst (swim_receive x s))"
  using fold_absorb_doomed [OF assms] unfolding doomed_def status_of_def receive_absorbs .

lemma tick_doomed:
  assumes inv: "swim_inv s" and ks: "set ks = dom (suspect_elapsed s)" and tk: "swim_tick ks s = Ok (s', out)"
    and d: "doomed j m e s" and e: "e < suspicion_timeout s" "suspicion_timeout s \<le> u32_max" and sus: "m_status m = Suspect" and self: "j \<noteq> swim_id s"
  shows "status_of s' j = Some Dead \<or> Suc e < suspicion_timeout s \<and> doomed j m (Suc e) s'"
proof (cases "status_of s j = Some Dead")
  case True
  with forward_dead [OF swim_tick_forward [OF tk] self True] show ?thesis by (simp add: status_of_def)
next
  case False
  then have m: "members s j = Some m" "suspect_elapsed s j = Some e" using d by (simp_all add: doomed_def)
  from silent_tick [OF inv ks tk m(2)] e m(1) show ?thesis by (auto simp: doomed_def split: if_splits)
qed

lemma play_id: "swim_play ev s = Ok s' \<Longrightarrow> swim_id s' = swim_id s"
  using swim_play_forward [of ev s s'] by (simp add: forward_def)

lemma doomed_dies:
  assumes "swim_inv s" and "visits_timers es s" and "doomed j m e s" and "e < suspicion_timeout s"
    and "suspicion_timeout s \<le> e + length (filter is_tick es)" and "suspicion_timeout s \<le> u32_max"
    and "m_status m = Suspect" and "j \<noteq> swim_id s" and "\<forall>ev \<in> set es. \<forall>g \<in> set (said ev). no_newer j (m_incarnation m) g"
  shows "\<exists>s'. swim_run es s = Ok s' \<and> status_of s' j = Some Dead"
  using assms
proof (induction es arbitrary: s e)
  case (Cons ev es)
  from swim_play_inv [OF Cons.prems(1), of ev] obtain s1 where s1: "swim_play ev s = Ok s1" "swim_inv s1" by blast
  have id: "j \<noteq> swim_id s1" using play_id [OF s1(1)] Cons.prems(8) by simp
  have visits: "visits_timers es s1" using Cons.prems(2) s1(1) by simp
  have said: "\<forall>ev \<in> set es. \<forall>g \<in> set (said ev). no_newer j (m_incarnation m) g" using Cons.prems(9) by simp
  show ?case
  proof (cases "status_of s1 j = Some Dead")
    case True
    obtain s' where s': "swim_run es s1 = Ok s'" using swim_run_inv [OF s1(2)] by blast
    have "members s' j = members s1 j" by (rule forward_dead [OF swim_run_forward [OF s'] id True])
    then show ?thesis using s1(1) s' True by (simp add: status_of_def)
  next
    case alive: False
    show ?thesis
    proof (cases ev)
      case (Elapse ks)
      then obtain out where tk: "swim_tick ks s = Ok (s1, out)" using s1(1) by (cases "swim_tick ks s") auto
      have "set ks = dom (suspect_elapsed s)" using Cons.prems(2) Elapse by simp
      from tick_doomed [OF Cons.prems(1) this tk Cons.prems(3,4,6-8)] alive
      have "Suc e < suspicion_timeout s" "doomed j m (Suc e) s1" by simp_all
      then show ?thesis
        using Cons.IH [OF s1(2) visits, of "Suc e"] Cons.prems(5-7) id said swim_tick_timeout [OF tk] tk Elapse by simp
    next
      case (Arrive x)
      then have eq: "s1 = fst (swim_receive x s)" using s1(1) by simp
      have "doomed j m e s1" unfolding eq using Cons.prems(9) Arrive by (intro receive_doomed Cons.prems(3,7,8)) simp
      moreover have "suspicion_timeout s1 = suspicion_timeout s" unfolding eq receive_absorbs using fold_absorb_frame by (simp add: absorb_frame)
      ultimately show ?thesis using Cons.IH [OF s1(2) visits, of e] Cons.prems(4-7) id said s1(1) Arrive by simp
    qed
  qed
qed simp

text \<open>
  C10: failures are detected. A member under suspicion is believed dead once as many ticks have passed as the suspicion timeout has left,
  in every order the timers are visited and whatever messages arrive in between, from anybody and with any gossip about other members;
  only word of a higher incarnation of the suspected member, which is not that it is dead, could stop it, and none comes.
\<close>

theorem suspect_dies:
  assumes "swim_inv s" and "visits_timers es s" and "members s j = Some m" and "suspect_elapsed s j = Some e"
    and "\<forall>ev \<in> set es. \<forall>g \<in> set (said ev). no_newer j (m_incarnation m) g"
    and "e < suspicion_timeout s" and "suspicion_timeout s \<le> e + length (filter is_tick es)"
    and "suspicion_timeout s \<le> u32_max"
  shows "\<exists>s'. swim_run es s = Ok s' \<and> status_of s' j = Some Dead"
proof -
  have "status_of s j = Some Suspect" "j \<noteq> swim_id s" using timer_suspect [OF assms(1,4)] .
  with assms show ?thesis by (intro doomed_dies [OF assms(1,2)]) (auto simp: doomed_def status_of_def)
qed

text \<open>Another member pings, tells of a third, and repeats the suspicion; and the suspected member itself is heard with its old incarnation.\<close>

definition chatter :: "swim_event list" where
  "chatter =
     [Arrive \<lparr>sw_from = 3, sw_to = 1, sw_message = Ping 1 4
        [\<lparr>g_member = 4, g_status = Alive, g_incarnation = 9\<rparr>, \<lparr>g_member = 2, g_status = Suspect, g_incarnation = 0\<rparr>]\<rparr>,
      Arrive \<lparr>sw_from = 2, sw_to = 1, sw_message = Ack 1 0 []\<rparr>,
      Elapse [2]]"

lemma suspect_dies_witness:
  "\<exists>s'. swim_run chatter suspicious = Ok s' \<and> status_of s' 2 = Some Dead"
proof -
  have "visits_timers chatter suspicious"
    by (auto simp: chatter_def swim_receive_def suspicious_eq absorb_message_def merge_gossip_def should_apply_def take_gossip_eq
        swim_new_def queue_gossip_def less_status_def maybe_refute_self_def Let_def split: outcome.split)
  moreover have "\<forall>ev \<in> set chatter. \<forall>g \<in> set (said ev). no_newer 2 (m_incarnation \<lparr>m_status = Suspect, m_incarnation = 0\<rparr>) g"
    by (simp add: chatter_def no_newer_def)
  moreover have "suspicion_timeout suspicious \<le> 0 + length (filter is_tick chatter)" by (simp add: chatter_def suspicious_simps)
  ultimately show ?thesis
    using suspect_dies [OF suspicious_inv, of chatter 2 "\<lparr>m_status = Suspect, m_incarnation = 0\<rparr>" 0] by (simp add: suspicious_simps)
qed

text \<open>
  Somebody is probed. Whenever the ping list holds a member not believed dead, the
  round-robin scan returns one such member.
\<close>

lemma ping_target_found:
  assumes "swim_inv s" and "j \<in> set (ping_order s)" and "status_of s j \<noteq> Some Dead"
  shows "\<exists>s' i. next_ping_target s = Ok (s', Some i) \<and> i \<in> set (ping_order s) \<and>
    status_of s i \<noteq> Some Dead"
  using assms by (rule next_ping_target_finds)

lemma ping_target_found_witness:
  "\<exists>s'. next_ping_target suspicious = Ok (s', Some 2)"
  using ping_target_found [OF suspicious_inv, of 2] by (auto simp: suspicious_simps)

text \<open>
  Membership messages survive the wire, and an incomplete frame is reported as such.
\<close>

lemma swim_frames:
  assumes "swim_ok e"
  shows "swim_decode (swim_encode e secret @ rest) secret = Ok (Some (e, length (swim_encode e secret))) \<and>
    (n < length (swim_encode e secret) \<longrightarrow> swim_decode (take n (swim_encode e secret)) secret = Ok None)"
  using swim_decode_encode [OF assms] swim_peer.open_partial [OF assms, of n secret]
  by (auto simp: swim_wire)

lemma refutation_ok: "swim_ok refutation"
  by (simp add: swim_ok_def refutation_def swim_payload_def swim_body_def MAX_FRAME_LEN_def)

lemma swim_frames_witness:
  "swim_decode (swim_encode refutation [7] @ [1, 2]) [7] =
     Ok (Some (refutation, length (swim_encode refutation [7]))) \<and>
   swim_decode (take 3 (swim_encode refutation [7])) [7] = Ok None"
proof -
  have "3 < length (swim_encode refutation [7])"
    by (simp add: swim_encode_def auth_frame_def)
  then show ?thesis
    using swim_frames [OF refutation_ok, of "[7]" "[1, 2]" 3] by blast
qed

end
