(* ===== verification/Gems_Fields.thy ===== *)
theory Gems_Fields
  imports Gems_Header Gems_Cursor
begin

text \<open>
  The shared fields of every schema and auxiliary entity body
  (\<^verbatim>\<open>gems-catalog/src/util.rs\<close>): scalars, TUIDs, byte strings and TUID lists with a
  16-bit length in front. Each writer and its reader is an instance of \<open>field_codec\<close>; the
  condition is the part of the Rust type that survives the 16-bit length, which the writer
  truncates silently.
\<close>

definition cat_read_u8 :: "u8 reader" where
  "cat_read_u8 = cur_u8 ''buffer truncated reading u8''"

definition cat_read_bytes :: "nat \<Rightarrow> bytes reader" where
  "cat_read_bytes = cur_bytes ''buffer truncated''"

definition cat_read_u16 :: "nat reader" where
  "cat_read_u16 = cur_uint ''buffer truncated'' 2"

definition cat_read_u32 :: "nat reader" where
  "cat_read_u32 = cur_uint ''buffer truncated'' 4"

definition cat_read_i64 :: "int reader" where
  "cat_read_i64 buf pos =
     omap (\<lambda>(v, pos). (i64_of_bits v, pos)) (cur_uint ''buffer truncated'' 8 buf pos)"

definition cat_read_tuid :: "tuid reader" where
  "cat_read_tuid buf pos =
     obind (cat_read_bytes TUID_LEN buf pos) (\<lambda>(bs, pos). omap (\<lambda>a. (Tuid a, pos)) (to_array TUID_LEN bs))"

definition write_u16_prefixed :: "bytes \<Rightarrow> bytes" where
  "write_u16_prefixed bs = le_bytes 2 (length bs) @ bs"

definition read_u16_prefixed :: "bytes reader" where
  "read_u16_prefixed buf pos =
     obind (cat_read_u16 buf pos) (\<lambda>(len, pos). cat_read_bytes len buf pos)"

definition read_string_prefixed :: "bytes reader" where
  "read_string_prefixed buf pos =
     omap (\<lambda>(bs, pos). (from_utf8_lossy bs, pos)) (read_u16_prefixed buf pos)"

definition write_tuid_list :: "tuid list \<Rightarrow> bytes" where
  "write_tuid_list ts = le_bytes 2 (length ts) @ concat (map as_bytes ts)"

definition read_tuid_list :: "tuid list reader" where
  "read_tuid_list buf pos =
     obind (cat_read_u16 buf pos) (\<lambda>(count, pos). read_n count cat_read_tuid buf pos)"

definition write_optional_bytes :: "bytes option \<Rightarrow> bytes" where
  "write_optional_bytes v = (case v of Some b \<Rightarrow> write_u16_prefixed b | None \<Rightarrow> le_bytes 2 0)"

definition read_optional_bytes :: "bytes option reader" where
  "read_optional_bytes buf pos =
     omap (\<lambda>(bs, pos). (if bs = [] then None else Some bs, pos)) (read_u16_prefixed buf pos)"

definition write_optional_i64 :: "int option \<Rightarrow> bytes" where
  "write_optional_i64 v =
     (case v of Some i \<Rightarrow> [1] @ le_bytes 8 (i64_bits i) | None \<Rightarrow> [0] @ le_bytes 8 0)"

definition read_optional_i64 :: "int option reader" where
  "read_optional_i64 buf pos =
     obind (cat_read_u8 buf pos) (\<lambda>(present, pos).
     omap (\<lambda>(v, pos). (if present \<noteq> 0 then Some v else None, pos)) (cat_read_i64 buf pos))"

lemmas cat_readers = cat_read_u8_def cat_read_bytes_def cat_read_u16_def cat_read_u32_def

section \<open>The contracts\<close>

definition short_bytes :: "bytes \<Rightarrow> bool" where
  "short_bytes bs \<longleftrightarrow> length bs \<le> u16_max"

definition short_text :: "bytes \<Rightarrow> bool" where
  "short_text bs \<longleftrightarrow> short_bytes bs \<and> utf8_valid bs"

definition short_tuids :: "tuid list \<Rightarrow> bool" where
  "short_tuids ts \<longleftrightarrow> length ts \<le> u16_max \<and> list_all wf_tuid ts"

text \<open>An empty blob and no blob are written alike, so only a non-empty one comes back.\<close>

definition optional_ok :: "bytes option \<Rightarrow> bool" where
  "optional_ok v \<longleftrightarrow> (case v of Some b \<Rightarrow> short_bytes b \<and> b \<noteq> [] | None \<Rightarrow> True)"

definition optional_i64_ok :: "int option \<Rightarrow> bool" where
  "optional_i64_ok v \<longleftrightarrow> (case v of Some i \<Rightarrow> i64_range i | None \<Rightarrow> True)"

lemma i64_at:
  "i64_range i \<Longrightarrow> has_at buf p (le_bytes 8 (i64_bits i)) \<Longrightarrow> cat_read_i64 buf p = Ok (i, p + 8)"
  using i64_bits_less [of i] by (simp add: cat_read_i64_def)

interpretation tuid_field: field_codec as_bytes cat_read_tuid wf_tuid
proof unfold_locales
  show "cat_read_tuid buf p = Ok (t, p + length (as_bytes t))"
    if "wf_tuid t" "has_at buf p (as_bytes t)" for t buf p
    using that by (simp add: cat_read_tuid_def cat_readers wf_tuid_def)
  show "cat_read_tuid buf p \<noteq> Panic" for buf p
    by (auto simp: cat_read_tuid_def cat_readers obind_eq_Panic to_array_def dest: cur_bytes_length)
  show "p \<le> q \<and> q \<le> length buf" if "cat_read_tuid buf p = Ok (t, q)" for buf p t q
    using that
    by (auto simp: cat_read_tuid_def cat_readers obind_eq_Ok to_array_def split: if_splits
        dest!: cur_bytes_length)
qed

interpretation blob: field_codec write_u16_prefixed read_u16_prefixed short_bytes
proof unfold_locales
  show "read_u16_prefixed buf p = Ok (bs, p + length (write_u16_prefixed bs))"
    if "short_bytes bs" "has_at buf p (write_u16_prefixed bs)" for bs buf p
    using that by (auto simp: read_u16_prefixed_def write_u16_prefixed_def cat_readers short_bytes_def)
  show "read_u16_prefixed buf p \<noteq> Panic" for buf p
    by (auto simp: read_u16_prefixed_def cat_readers obind_eq_Panic)
  show "p \<le> q \<and> q \<le> length buf" if "read_u16_prefixed buf p = Ok (bs, q)" for buf p bs q
    using that
    by (auto simp: read_u16_prefixed_def cat_readers obind_eq_Ok dest!: cur_uint_bound cur_bytes_length)
qed

interpretation str: field_codec write_u16_prefixed read_string_prefixed short_text
  by unfold_locales
     (auto simp: read_string_prefixed_def short_text_def blob.rd_wr blob.rd_no_panic
       dest!: blob.rd_bound)

interpretation tuids: field_codec write_tuid_list read_tuid_list short_tuids
proof unfold_locales
  show "read_tuid_list buf p = Ok (ts, p + length (write_tuid_list ts))"
    if "short_tuids ts" "has_at buf p (write_tuid_list ts)" for ts buf p
    using that tuid_field.read_n_wr [of ts buf "p + 2"]
    by (auto simp: read_tuid_list_def write_tuid_list_def cat_readers short_tuids_def)
  show "read_tuid_list buf p \<noteq> Panic" for buf p
    by (auto simp: read_tuid_list_def cat_readers obind_eq_Panic
        dest!: cur_uint_bound intro: tuid_field.read_n_no_panic [THEN notE])
  show "p \<le> q \<and> q \<le> length buf" if "read_tuid_list buf p = Ok (ts, q)" for buf p ts q
    using that
    by (auto simp: read_tuid_list_def cat_readers obind_eq_Ok
        dest!: cur_uint_bound tuid_field.read_n_bound)
qed

interpretation opt_blob: field_codec write_optional_bytes read_optional_bytes optional_ok
proof unfold_locales
  show "read_optional_bytes buf p = Ok (v, p + length (write_optional_bytes v))"
    if "optional_ok v" "has_at buf p (write_optional_bytes v)" for v buf p
  proof (cases v)
    case None
    have "has_at buf p (write_u16_prefixed [])"
      using that None by (simp add: write_optional_bytes_def write_u16_prefixed_def has_at_def)
    then have "read_u16_prefixed buf p = Ok ([], p + 2)"
      using blob.rd_wr [of "[]" buf p] by (simp add: short_bytes_def write_u16_prefixed_def)
    with None show ?thesis by (simp add: read_optional_bytes_def write_optional_bytes_def)
  next
    case (Some b)
    with that show ?thesis
      using blob.rd_wr [of b buf p]
      by (simp add: read_optional_bytes_def write_optional_bytes_def optional_ok_def)
  qed
qed (auto simp: read_optional_bytes_def blob.rd_no_panic dest!: blob.rd_bound)

interpretation opt_i64: field_codec write_optional_i64 read_optional_i64 optional_i64_ok
proof unfold_locales
  show "read_optional_i64 buf p = Ok (v, p + length (write_optional_i64 v))"
    if "optional_i64_ok v" "has_at buf p (write_optional_i64 v)" for v buf p
  proof (cases v)
    case None
    have "cat_read_i64 buf (p + 1) = Ok (i64_of_bits 0, p + 9)"
      using that None by (auto simp: write_optional_i64_def cat_read_i64_def)
    with that None show ?thesis
      by (auto simp: read_optional_i64_def write_optional_i64_def cat_readers)
  next
    case (Some i)
    then have "cat_read_i64 buf (p + 1) = Ok (i, p + 1 + 8)"
      using that by (intro i64_at) (auto simp: write_optional_i64_def optional_i64_ok_def)
    with that Some show ?thesis
      by (auto simp: read_optional_i64_def write_optional_i64_def cat_readers)
  qed
  show "read_optional_i64 buf p \<noteq> Panic" for buf p
    by (auto simp: read_optional_i64_def cat_read_i64_def cat_readers obind_eq_Panic)
  show "p \<le> q \<and> q \<le> length buf" if "read_optional_i64 buf p = Ok (v, q)" for buf p v q
    using that
    by (auto simp: read_optional_i64_def cat_read_i64_def cat_readers obind_eq_Ok
        dest!: cur_uint_bound cur_u8_bound)
qed

end
