(* ===== verification/Gems_Gbv.thy ===== *)
theory Gems_Gbv
  imports Gems_Cursor
begin

text \<open>
  The GBV format of \<^verbatim>\<open>gems-codec/src/gbv.rs\<close>: a directory of fields sorted by
  key, then their value bytes. A builder collects fields in any order; a reader finds one by
  binary search without touching the others. The lemmas: what a builder wrote is what a reader
  finds, for every key; a reader of any bytes at all never panics; redaction removes exactly
  the named keys.
\<close>

section \<open>Type tags\<close>

datatype type_tag =
    Int64 | Float64 | BoolTag | Str | Bin | Point2D | Point3D | Poly2D | Poly3D | Geo2D | Geo3D
  | Ipv4 | Ipv6 | Cidr4 | Cidr6 | Regex | Currency | DateTime | Duration | Uuid | EnumRef
  | ArrayTag | EntityRef

definition tag_order :: "type_tag list" where
  "tag_order = [Int64, Float64, BoolTag, Str, Bin, Point2D, Point3D, Poly2D, Poly3D, Geo2D, Geo3D,
     Ipv4, Ipv6, Cidr4, Cidr6, Regex, Currency, DateTime, Duration, Uuid, EnumRef, ArrayTag, EntityRef]"

fun tag_to_u8 :: "type_tag \<Rightarrow> u8" where
  "tag_to_u8 Int64 = 0" | "tag_to_u8 Float64 = 1" | "tag_to_u8 BoolTag = 2" | "tag_to_u8 Str = 3"
| "tag_to_u8 Bin = 4" | "tag_to_u8 Point2D = 5" | "tag_to_u8 Point3D = 6" | "tag_to_u8 Poly2D = 7"
| "tag_to_u8 Poly3D = 8" | "tag_to_u8 Geo2D = 9" | "tag_to_u8 Geo3D = 10" | "tag_to_u8 Ipv4 = 11"
| "tag_to_u8 Ipv6 = 12" | "tag_to_u8 Cidr4 = 13" | "tag_to_u8 Cidr6 = 14" | "tag_to_u8 Regex = 15"
| "tag_to_u8 Currency = 16" | "tag_to_u8 DateTime = 17" | "tag_to_u8 Duration = 18"
| "tag_to_u8 Uuid = 19" | "tag_to_u8 EnumRef = 20" | "tag_to_u8 ArrayTag = 21" | "tag_to_u8 EntityRef = 22"

definition tag_from_u8 :: "u8 \<Rightarrow> type_tag result" where
  "tag_from_u8 v =
     (case get_opt tag_order (unat v) of
        Some t \<Rightarrow> Ok t | None \<Rightarrow> Err (InvalidValue ''unknown GBV type tag''))"

lemma tag_from_to [simp]: "tag_from_u8 (tag_to_u8 t) = Ok t"
  by (cases t) (simp_all add: tag_from_u8_def get_opt_def tag_order_def)

lemma tag_from_no_panic [simp]: "tag_from_u8 v \<noteq> Panic"
  by (simp add: tag_from_u8_def split: option.split)

section \<open>The builder\<close>

record dir_entry =
  key_id :: nat
  dir_tag :: u8
  dir_offset :: nat
  dir_len :: nat

record gbv_builder =
  b_entries :: "dir_entry list"
  b_values :: bytes

definition DIRECTORY_ENTRY_LEN :: nat where
  "DIRECTORY_ENTRY_LEN = 4 + 1 + 4 + 4"

definition builder_new :: gbv_builder where
  "builder_new = \<lparr> b_entries = [], b_values = [] \<rparr>"

definition builder_push :: "nat \<Rightarrow> type_tag \<Rightarrow> bytes \<Rightarrow> gbv_builder \<Rightarrow> gbv_builder" where
  "builder_push key tag v b =
     \<lparr> b_entries = b_entries b @
         [\<lparr> key_id = key, dir_tag = tag_to_u8 tag,
            dir_offset = length (b_values b) mod 4294967296, dir_len = length v mod 4294967296 \<rparr>],
       b_values = b_values b @ v \<rparr>"

definition dir_bytes :: "dir_entry \<Rightarrow> bytes" where
  "dir_bytes e = le_bytes 4 (key_id e) @ [dir_tag e] @ le_bytes 4 (dir_offset e) @ le_bytes 4 (dir_len e)"

definition builder_finish :: "gbv_builder \<Rightarrow> bytes" where
  "builder_finish b =
     le_bytes 2 (length (b_entries b)) @ concat (map dir_bytes (sort_key key_id (b_entries b)))
     @ b_values b"

section \<open>The reader\<close>

record gbv_reader =
  r_buf :: bytes
  field_count :: nat
  values_start :: nat

definition reader_new :: "bytes \<Rightarrow> gbv_reader result" where
  "reader_new buf =
     (if length buf < 2 then Err (InvalidValue ''GBV buffer too short for header'') else
      obind (index_at buf 0) (\<lambda>b0. obind (index_at buf 1) (\<lambda>b1.
      let count = le_val [b0, b1]; start = 2 + count * DIRECTORY_ENTRY_LEN in
      if length buf < start then Err (InvalidValue ''GBV buffer too short for directory'')
      else Ok \<lparr> r_buf = buf, field_count = count, values_start = start \<rparr>)))"

definition entry_at :: "gbv_reader \<Rightarrow> nat \<Rightarrow> dir_entry result" where
  "entry_at r i =
     (let base = 2 + i * DIRECTORY_ENTRY_LEN in
      obind (field_at (r_buf r) base 4) (\<lambda>k.
      obind (index_at (r_buf r) (base + 4)) (\<lambda>t.
      obind (field_at (r_buf r) (base + 5) 4) (\<lambda>off.
      obind (field_at (r_buf r) (base + 9) 4) (\<lambda>len.
      Ok \<lparr> key_id = le_val k, dir_tag = t, dir_offset = le_val off, dir_len = le_val len \<rparr>)))))"

definition field_bytes :: "gbv_reader \<Rightarrow> dir_entry \<Rightarrow> bytes option" where
  "field_bytes r e =
     (let start = values_start r + dir_offset e; stop = start + dir_len e in
      if stop > length (r_buf r) then None
      else Some (take (stop - start) (drop start (r_buf r))))"

text \<open>\<^verbatim>\<open>TypeTag::from_u8(e.type_tag).ok()?\<close>, then \<^verbatim>\<open>self.field_bytes(&e)?\<close>.\<close>

definition entry_value :: "gbv_reader \<Rightarrow> dir_entry \<Rightarrow> (type_tag \<times> bytes) option" where
  "entry_value r e =
     (case tag_from_u8 (dir_tag e) of
        Ok tag \<Rightarrow> map_option (\<lambda>bs. (tag, bs)) (field_bytes r e)
      | _ \<Rightarrow> None)"

function gbv_search :: "gbv_reader \<Rightarrow> nat \<Rightarrow> nat \<Rightarrow> nat \<Rightarrow> (type_tag \<times> bytes) option result" where
  "gbv_search r key lo hi =
     (if lo < hi then
        let mid = lo + (hi - lo) div 2 in
        obind (entry_at r mid) (\<lambda>e.
        if key_id e = key then Ok (entry_value r e)
        else if key_id e < key then gbv_search r key (mid + 1) hi
        else gbv_search r key lo mid)
      else Ok None)"
  by pat_completeness auto
termination
  by (relation "measure (\<lambda>(r, key, lo, hi). hi - lo)") auto

declare gbv_search.simps [simp del]

definition gbv_get :: "gbv_reader \<Rightarrow> nat \<Rightarrow> (type_tag \<times> bytes) option result" where
  "gbv_get r key = gbv_search r key 0 (field_count r)"

primrec all_entries :: "gbv_reader \<Rightarrow> nat \<Rightarrow> dir_entry list result" where
  "all_entries r 0 = Ok []"
| "all_entries r (Suc n) =
     obind (all_entries r n) (\<lambda>es. omap (\<lambda>e. es @ [e]) (entry_at r n))"

definition key_ids :: "gbv_reader \<Rightarrow> nat list result" where
  "key_ids r = omap (map key_id) (all_entries r (field_count r))"

text \<open>The loop of \<^verbatim>\<open>redact\<close>: each kept field is pushed into a fresh builder.\<close>

primrec redact_loop :: "gbv_reader \<Rightarrow> nat list \<Rightarrow> nat \<Rightarrow> gbv_builder result" where
  "redact_loop r exclude 0 = Ok builder_new"
| "redact_loop r exclude (Suc n) =
     obind (redact_loop r exclude n) (\<lambda>b.
     obind (entry_at r n) (\<lambda>e.
     if key_id e \<in> set exclude then Ok b
     else case entry_value r e of
            Some (tag, bs) \<Rightarrow> Ok (builder_push (key_id e) tag bs b)
          | None \<Rightarrow> Ok b))"

definition gbv_redact :: "gbv_reader \<Rightarrow> nat list \<Rightarrow> bytes result" where
  "gbv_redact r exclude = omap builder_finish (redact_loop r exclude (field_count r))"

section \<open>A reader of any bytes\<close>

definition reader_ok :: "gbv_reader \<Rightarrow> bool" where
  "reader_ok r \<longleftrightarrow> values_start r = 2 + field_count r * DIRECTORY_ENTRY_LEN \<and>
     values_start r \<le> length (r_buf r)"

lemma reader_new_ok: "reader_new buf = Ok r \<Longrightarrow> reader_ok r \<and> r_buf r = buf"
  by (auto simp: reader_new_def reader_ok_def obind_eq_Ok Let_def split: if_splits)

lemma reader_new_no_panic: "reader_new buf \<noteq> Panic"
  by (auto simp: reader_new_def obind_eq_Panic Let_def index_at_def)

lemma entry_at_ok:
  assumes "reader_ok r" and "i < field_count r"
  shows "\<exists>e. entry_at r i = Ok e"
proof -
  have "i * DIRECTORY_ENTRY_LEN + DIRECTORY_ENTRY_LEN \<le> field_count r * DIRECTORY_ENTRY_LEN"
    using assms(2) by (metis Suc_leI add.commute mult_Suc mult_le_mono1)
  then have "2 + i * DIRECTORY_ENTRY_LEN + 13 \<le> length (r_buf r)"
    using assms(1) by (simp add: reader_ok_def DIRECTORY_ENTRY_LEN_def)
  then show ?thesis by (simp add: entry_at_def field_at_Ok Let_def)
qed

definition nth_entry :: "gbv_reader \<Rightarrow> nat \<Rightarrow> dir_entry" where
  "nth_entry r i = (case entry_at r i of Ok e \<Rightarrow> e
     | _ \<Rightarrow> \<lparr> key_id = 0, dir_tag = 0, dir_offset = 0, dir_len = 0 \<rparr>)"

lemma entry_at_nth: "reader_ok r \<Longrightarrow> i < field_count r \<Longrightarrow> entry_at r i = Ok (nth_entry r i)"
  using entry_at_ok by (fastforce simp: nth_entry_def)

text \<open>
  The search ends on an entry of the key, or, in a sorted directory, only when there is none.
\<close>

lemma gbv_search_spec:
  assumes "reader_ok r" and "hi \<le> field_count r"
  shows "(\<exists>i. lo \<le> i \<and> i < hi \<and> key_id (nth_entry r i) = key \<and>
      gbv_search r key lo hi = Ok (entry_value r (nth_entry r i))) \<or>
    gbv_search r key lo hi = Ok None \<and>
      (sorted (map (\<lambda>i. key_id (nth_entry r i)) [0..<field_count r]) \<longrightarrow>
       (\<forall>i. lo \<le> i \<longrightarrow> i < hi \<longrightarrow> key_id (nth_entry r i) \<noteq> key))"
  using assms
proof (induction r key lo hi rule: gbv_search.induct)
  case (1 r key lo hi)
  let ?k = "\<lambda>i. key_id (nth_entry r i)"
  let ?mid = "lo + (hi - lo) div 2"
  show ?case
  proof (cases "lo < hi")
    case False
    then show ?thesis by (simp add: gbv_search.simps)
  next
    case True
    then have mid: "lo \<le> ?mid" "?mid < hi" by linarith+
    then have e: "entry_at r ?mid = Ok (nth_entry r ?mid)"
      using "1.prems" by (intro entry_at_nth) auto
    have mono: "?k i \<le> ?k j"
      if "sorted (map ?k [0..<field_count r])" "i \<le> j" "j < field_count r" for i j
      using sorted_nth_mono [OF that(1), of i j] that by simp
    consider "?k ?mid = key" | "?k ?mid < key" | "?k ?mid > key" by linarith
    then show ?thesis
    proof cases
      case 1
      then have "gbv_search r key lo hi = Ok (entry_value r (nth_entry r ?mid))"
        using True e by (simp add: gbv_search.simps [of r key lo hi] Let_def)
      with 1 mid show ?thesis by blast
    next
      case 2
      have s: "gbv_search r key lo hi = gbv_search r key (?mid + 1) hi"
        using True e 2 by (simp add: gbv_search.simps [of r key lo hi] Let_def)
      have ih: "(\<exists>i. ?mid + 1 \<le> i \<and> i < hi \<and> ?k i = key \<and>
          gbv_search r key (?mid + 1) hi = Ok (entry_value r (nth_entry r i))) \<or>
        gbv_search r key (?mid + 1) hi = Ok None \<and> (sorted (map ?k [0..<field_count r]) \<longrightarrow>
          (\<forall>i. ?mid + 1 \<le> i \<longrightarrow> i < hi \<longrightarrow> ?k i \<noteq> key))"
        using "1.IH"(1) [OF True refl e] 2 "1.prems" by simp
      have low: "?k i \<noteq> key" if "sorted (map ?k [0..<field_count r])" "i < ?mid + 1" for i
        using mono [OF that(1), of i ?mid] that(2) mid "1.prems"(2) 2 by auto
      from ih consider i where "?mid + 1 \<le> i" "i < hi" "?k i = key"
          "gbv_search r key (?mid + 1) hi = Ok (entry_value r (nth_entry r i))"
        | "gbv_search r key (?mid + 1) hi = Ok None"
          "sorted (map ?k [0..<field_count r]) \<longrightarrow> (\<forall>i. ?mid + 1 \<le> i \<longrightarrow> i < hi \<longrightarrow> ?k i \<noteq> key)"
        by blast
      then show ?thesis
      proof cases
        case (1 i)
        then have "lo \<le> i" using mid by linarith
        with 1 show ?thesis unfolding s by blast
      next
        case 2
        then show ?thesis unfolding s using low not_less by metis
      qed
    next
      case 3
      have s: "gbv_search r key lo hi = gbv_search r key lo ?mid"
        using True e 3 by (simp add: gbv_search.simps [of r key lo hi] Let_def)
      have ih: "(\<exists>i. lo \<le> i \<and> i < ?mid \<and> ?k i = key \<and>
          gbv_search r key lo ?mid = Ok (entry_value r (nth_entry r i))) \<or>
        gbv_search r key lo ?mid = Ok None \<and> (sorted (map ?k [0..<field_count r]) \<longrightarrow>
          (\<forall>i. lo \<le> i \<longrightarrow> i < ?mid \<longrightarrow> ?k i \<noteq> key))"
        using "1.IH"(2) [OF True refl e] 3 mid "1.prems" by simp
      have high: "?k i \<noteq> key" if "sorted (map ?k [0..<field_count r])" "?mid \<le> i" "i < hi" for i
        using mono [OF that(1), of ?mid i] that(2,3) mid "1.prems"(2) 3 by auto
      from ih consider i where "lo \<le> i" "i < ?mid" "?k i = key"
          "gbv_search r key lo ?mid = Ok (entry_value r (nth_entry r i))"
        | "gbv_search r key lo ?mid = Ok None"
          "sorted (map ?k [0..<field_count r]) \<longrightarrow> (\<forall>i. lo \<le> i \<longrightarrow> i < ?mid \<longrightarrow> ?k i \<noteq> key)"
        by blast
      then show ?thesis
      proof cases
        case (1 i)
        then have "i < hi" using mid by linarith
        with 1 show ?thesis unfolding s by blast
      next
        case 2
        then show ?thesis unfolding s using high not_less by metis
      qed
    qed
  qed
qed

lemma gbv_get_no_panic:
  assumes "reader_ok r"
  shows "gbv_get r key \<noteq> Panic"
  using gbv_search_spec [OF assms order_refl, of 0 key] by (auto simp: gbv_get_def)

section \<open>Reading back what a builder wrote\<close>

type_synonym gbv_fields = "(nat \<times> (type_tag \<times> bytes)) list"

definition gbv_build :: "gbv_fields \<Rightarrow> gbv_builder" where
  "gbv_build fs = foldl (\<lambda>b (k, t, v). builder_push k t v b) builder_new fs"

definition entry_range :: "dir_entry \<Rightarrow> bool" where
  "entry_range e \<longleftrightarrow> key_id e \<le> u32_max \<and> dir_offset e \<le> u32_max \<and> dir_len e \<le> u32_max"

lemma length_dir_bytes [simp]: "length (dir_bytes e) = DIRECTORY_ENTRY_LEN"
  by (simp add: dir_bytes_def DIRECTORY_ENTRY_LEN_def)

lemma dir_bytes_total: "length (concat (map dir_bytes es)) = length es * DIRECTORY_ENTRY_LEN"
  by (induction es) auto

lemma reader_new_finish:
  assumes "length (b_entries b) \<le> u16_max"
  shows "reader_new (builder_finish b) =
    Ok \<lparr> r_buf = builder_finish b, field_count = length (b_entries b),
         values_start = 2 + length (b_entries b) * DIRECTORY_ENTRY_LEN \<rparr>"
proof -
  let ?buf = "builder_finish b" and ?n = "length (b_entries b)"
  have len: "2 + ?n * DIRECTORY_ENTRY_LEN \<le> length ?buf"
    by (simp add: builder_finish_def dir_bytes_total)
  have "has_at ?buf 0 (le_bytes 2 ?n)" by (simp add: builder_finish_def has_at_def)
  then have "[?buf ! 0, ?buf ! 1] = le_bytes 2 ?n"
    by (simp add: numeral_2_eq_2)
  moreover have "le_val (le_bytes 2 ?n) = ?n" using assms by (simp add: le_val_le_bytes)
  ultimately have v: "le_val [?buf ! 0, ?buf ! 1] = ?n" by simp
  have "index_at ?buf 0 = (Ok (?buf ! 0) :: u8 result)" "index_at ?buf 1 = (Ok (?buf ! 1) :: u8 result)"
    "\<not> length ?buf < 2"
    using len by (auto intro!: index_at_Ok)
  then show ?thesis using len unfolding reader_new_def Let_def by (simp del: le_val.simps One_nat_def add: v)
qed

lemma nth_entry_finish:
  assumes "r = \<lparr> r_buf = builder_finish b, field_count = length (b_entries b),
         values_start = 2 + length (b_entries b) * DIRECTORY_ENTRY_LEN \<rparr>"
    and "\<forall>e \<in> set (b_entries b). entry_range e" and "i < length (b_entries b)"
  shows "nth_entry r i = sort_key key_id (b_entries b) ! i"
proof -
  let ?es = "sort_key key_id (b_entries b)"
  let ?buf = "builder_finish b" and ?p = "2 + i * DIRECTORY_ENTRY_LEN"
  have "has_at ?buf 2 (concat (map dir_bytes ?es))"
    by (simp add: builder_finish_def has_at_def)
  then have at: "has_at ?buf ?p (dir_bytes (?es ! i))"
    using assms(3) by (intro has_at_concat) simp_all
  have "?es ! i \<in> set (b_entries b)" using assms(3) by (metis length_sort nth_mem set_sort)
  then have rng: "entry_range (?es ! i)" using assms(2) by blast
  have f: "has_at ?buf ?p (le_bytes 4 (key_id (?es ! i)))" "?p + 4 < length ?buf"
    "?buf ! (?p + 4) = dir_tag (?es ! i)" "has_at ?buf (?p + 5) (le_bytes 4 (dir_offset (?es ! i)))"
    "has_at ?buf (?p + 9) (le_bytes 4 (dir_len (?es ! i)))"
    using at by (simp_all add: dir_bytes_def)
  have "entry_at r i = Ok (?es ! i)"
    using f rng
    by (simp add: entry_at_def assms(1) Let_def has_at_field entry_range_def le_val_le_bytes)
  then show ?thesis by (simp add: nth_entry_def)
qed

text \<open>An entry that describes a field of the builder.\<close>

definition entry_for :: "gbv_builder \<Rightarrow> dir_entry \<Rightarrow> nat \<times> type_tag \<times> bytes \<Rightarrow> bool" where
  "entry_for b e f \<longleftrightarrow> key_id e = fst f \<and> dir_tag e = tag_to_u8 (fst (snd f)) \<and>
     dir_len e = length (snd (snd f)) \<and> has_at (b_values b) (dir_offset e) (snd (snd f))"

definition fields_ok :: "gbv_fields \<Rightarrow> bool" where
  "fields_ok fs \<longleftrightarrow> length fs \<le> u16_max \<and> (\<forall>f \<in> set fs. fst f \<le> u32_max) \<and>
     sum_list (map (\<lambda>f. length (snd (snd f))) fs) \<le> u32_max"

lemma has_at_extend: "has_at buf p bs \<Longrightarrow> has_at (buf @ rest) p bs"
  by (simp add: has_at_def)

lemma gbv_build_snoc: "gbv_build (fs @ [(k, t, v)]) = builder_push k t v (gbv_build fs)"
  by (simp add: gbv_build_def)

lemma gbv_build_keys: "map key_id (b_entries (gbv_build fs)) = map fst fs"
proof (induction fs rule: rev_induct)
  case (snoc f fs)
  then show ?case by (cases f) (simp add: gbv_build_snoc builder_push_def)
qed (simp add: gbv_build_def builder_new_def)

lemma gbv_build_ranges:
  "\<forall>f \<in> set fs. fst f \<le> u32_max \<Longrightarrow> \<forall>e \<in> set (b_entries (gbv_build fs)). entry_range e"
proof (induction fs rule: rev_induct)
  case (snoc f fs)
  have "n mod 4294967296 \<le> u32_max" for n :: nat
    using mod_less_divisor [of 4294967296 n] by linarith
  with snoc show ?case by (cases f) (auto simp: gbv_build_snoc builder_push_def entry_range_def)
qed (simp add: gbv_build_def builder_new_def)

lemma gbv_build_entries:
  "sum_list (map (\<lambda>f. length (snd (snd f))) fs) \<le> u32_max \<Longrightarrow>
     list_all2 (entry_for (gbv_build fs)) (b_entries (gbv_build fs)) fs \<and>
     length (b_values (gbv_build fs)) = sum_list (map (\<lambda>f. length (snd (snd f))) fs)"
proof (induction fs rule: rev_induct)
  case Nil
  then show ?case by (simp add: gbv_build_def builder_new_def)
next
  case (snoc f fs)
  obtain k t v where f: "f = (k, t, v)" by (cases f)
  let ?b = "gbv_build fs"
  from snoc have ih: "list_all2 (entry_for ?b) (b_entries ?b) fs"
    and len: "length (b_values ?b) = sum_list (map (\<lambda>f. length (snd (snd f))) fs)" by simp_all
  have "list_all2 (entry_for (gbv_build (fs @ [f]))) (b_entries ?b) fs"
    using ih by (rule list_all2_mono)
      (auto simp: f gbv_build_snoc builder_push_def entry_for_def has_at_extend)
  moreover have "has_at (b_values ?b @ v) (length (b_values ?b)) v" by (simp add: has_at_def)
  then have "list_all2 (entry_for (gbv_build (fs @ [f])))
      [\<lparr> key_id = k, dir_tag = tag_to_u8 t, dir_offset = length (b_values ?b) mod 4294967296,
        dir_len = length v mod 4294967296 \<rparr>] [f]"
    using snoc.prems len by (simp add: f gbv_build_snoc builder_push_def entry_for_def)
  ultimately have "list_all2 (entry_for (gbv_build (fs @ [f]))) (b_entries (gbv_build (fs @ [f]))) (fs @ [f])"
    unfolding f gbv_build_snoc by (simp add: builder_push_def list_all2_appendI)
  then show ?case using len by (simp add: f gbv_build_snoc builder_push_def)
qed

lemma entry_value_finish:
  assumes "r = \<lparr> r_buf = builder_finish b, field_count = length (b_entries b),
         values_start = 2 + length (b_entries b) * DIRECTORY_ENTRY_LEN \<rparr>"
    and "entry_for b e (k, t, v)"
  shows "entry_value r e = Some (t, v)"
proof -
  let ?s = "values_start r + dir_offset e"
  have "builder_finish b = (le_bytes 2 (length (b_entries b)) @
      concat (map dir_bytes (sort_key key_id (b_entries b)))) @ b_values b"
    by (simp add: builder_finish_def)
  moreover have "length (le_bytes 2 (length (b_entries b)) @
      concat (map dir_bytes (sort_key key_id (b_entries b)))) = values_start r"
    by (simp add: assms(1) dir_bytes_total)
  ultimately have "has_at (builder_finish b) ?s v"
    using assms(2) by (auto simp: has_at_def entry_for_def)
  then show ?thesis
    using assms by (simp add: entry_value_def entry_for_def field_bytes_def has_at_def)
qed

theorem gbv_get_built:
  assumes "fields_ok fs" and "distinct (map fst fs)"
    and "reader_new (builder_finish (gbv_build fs)) = Ok r"
  shows "gbv_get r k = Ok (map_of fs k)"
proof -
  let ?b = "gbv_build fs" and ?es = "sort_key key_id (b_entries (gbv_build fs))"
  have len: "length (b_entries ?b) = length fs" using gbv_build_keys [of fs] by (metis length_map)
  have ents: "list_all2 (entry_for ?b) (b_entries ?b) fs"
    using gbv_build_entries assms(1) by (simp add: fields_ok_def)
  have r: "r = \<lparr> r_buf = builder_finish ?b, field_count = length (b_entries ?b),
      values_start = 2 + length (b_entries ?b) * DIRECTORY_ENTRY_LEN \<rparr>"
    using reader_new_finish [of ?b] assms(1,3) len by (simp add: fields_ok_def)
  have nth: "nth_entry r i = ?es ! i" if "i < length fs" for i
    using nth_entry_finish [OF r gbv_build_ranges] assms(1) that len by (simp add: fields_ok_def)
  have fc: "field_count r = length fs" by (simp add: r len)
  have ok: "reader_ok r" using assms(3) reader_new_ok by blast
  have keys: "map (\<lambda>i. key_id (nth_entry r i)) [0..<field_count r] = map key_id ?es"
    using nth len by (intro nth_equalityI) (simp_all add: fc)
  have srt: "sorted (map (\<lambda>i. key_id (nth_entry r i)) [0..<field_count r])"
    unfolding keys by simp
  have keyset: "key_id ` set ?es = fst ` set fs"
    using gbv_build_keys [of fs] by (metis image_set set_sort)
  from gbv_search_spec [OF ok order_refl, of 0 k] consider
      i where "i < length fs" "key_id (?es ! i) = k" "gbv_get r k = Ok (entry_value r (?es ! i))"
    | "gbv_get r k = Ok None" "\<forall>i < length fs. key_id (?es ! i) \<noteq> k"
    using srt nth fc unfolding gbv_get_def by (metis zero_le)
  then show ?thesis
  proof cases
    case (1 i)
    have "?es ! i \<in> set (b_entries ?b)" using 1(1) len by (metis length_sort nth_mem set_sort)
    then obtain j where j: "j < length fs" "b_entries ?b ! j = ?es ! i"
      using len by (metis in_set_conv_nth)
    obtain k' t v where f: "fs ! j = (k', t, v)" by (cases "fs ! j")
    have e: "entry_for ?b (?es ! i) (k', t, v)" using ents j f by (metis list_all2_nthD2)
    then have "k' = k" using 1(2) by (simp add: entry_for_def)
    moreover have "(k', t, v) \<in> set fs" using j f by (metis nth_mem)
    ultimately show ?thesis
      using 1(3) entry_value_finish [OF r e] assms(2) by simp
  next
    case 2
    have "k \<notin> fst ` set fs"
    proof
      assume "k \<in> fst ` set fs"
      then have "k \<in> key_id ` set ?es" using keyset by simp
      then obtain e where "e \<in> set ?es" "key_id e = k" by blast
      then obtain i where "i < length ?es" "key_id (?es ! i) = k" by (metis in_set_conv_nth)
      with 2(2) len show False by simp
    qed
    then have "map_of fs k = None" by (simp add: map_of_eq_None_iff)
    with 2 show ?thesis by simp
  qed
qed

section \<open>Redaction\<close>

definition kept_field :: "gbv_reader \<Rightarrow> nat list \<Rightarrow> nat \<Rightarrow> (nat \<times> type_tag \<times> bytes) option" where
  "kept_field r exclude i =
     (let e = nth_entry r i in
      if key_id e \<in> set exclude then None else map_option (\<lambda>v. (key_id e, v)) (entry_value r e))"

definition kept_fields :: "gbv_reader \<Rightarrow> nat list \<Rightarrow> nat \<Rightarrow> gbv_fields" where
  "kept_fields r exclude n = concat (map (\<lambda>i. case kept_field r exclude i of Some f \<Rightarrow> [f] | None \<Rightarrow> []) [0..<n])"

lemma redact_loop_kept:
  assumes "reader_ok r"
  shows "n \<le> field_count r \<Longrightarrow> redact_loop r exclude n = Ok (gbv_build (kept_fields r exclude n))"
proof (induction n)
  case 0
  then show ?case by (simp add: kept_fields_def gbv_build_def)
next
  case (Suc n)
  then have e: "entry_at r n = Ok (nth_entry r n)" using assms by (intro entry_at_nth) simp_all
  show ?case
    using Suc e
    by (auto simp: kept_fields_def kept_field_def Let_def gbv_build_snoc split: option.split)
qed

lemma nth_entry_key: "key_id (nth_entry r i) \<le> u32_max"
proof (cases "entry_at r i")
  case (Ok e)
  then obtain bs where "length bs = 4" "key_id e = le_val bs"
    by (auto simp: entry_at_def Let_def obind_eq_Ok field_at_def to_array_def split: if_splits)
  with le_val_less [of bs] Ok show ?thesis by (simp add: nth_entry_def)
qed (simp_all add: nth_entry_def)

lemma kept_field_key:
  "kept_field r exclude i = Some f \<Longrightarrow> fst f \<notin> set exclude \<and> fst f \<le> u32_max"
  using nth_entry_key [of r i] by (cases f) (auto simp: kept_field_def Let_def split: if_splits)

lemma kept_fields_keys: "f \<in> set (kept_fields r exclude n) \<Longrightarrow> fst f \<notin> set exclude"
  by (auto simp: kept_fields_def dest!: kept_field_key [OF sym] split: option.splits)

lemma kept_fields_length: "length (kept_fields r exclude n) \<le> n"
proof (induction n)
  case (Suc n)
  then show ?case by (simp add: kept_fields_def split: option.split)
qed (simp add: kept_fields_def)

lemma reader_field_count: "reader_new buf = Ok r \<Longrightarrow> field_count r \<le> u16_max"
proof -
  assume "reader_new buf = Ok r"
  then obtain b0 b1 where "field_count r = le_val [b0, b1]"
    by (auto simp: reader_new_def obind_eq_Ok Let_def split: if_split_asm)
  with le_val_less [of "[b0, b1]"] show ?thesis by (simp del: le_val.simps)
qed

lemma kept_fields_range: "f \<in> set (kept_fields r exclude n) \<Longrightarrow> fst f \<le> u32_max"
  by (auto simp: kept_fields_def dest!: kept_field_key [OF sym] split: option.splits)

text \<open>Whatever the body's bytes are, its redacted form has no field of an excluded key.\<close>

theorem gbv_redact_hides:
  assumes "reader_new body = Ok r" and "gbv_redact r exclude = Ok out" and "key \<in> set exclude"
  shows "\<exists>r'. reader_new out = Ok r' \<and> gbv_get r' key = Ok None"
proof -
  let ?fs = "kept_fields r exclude (field_count r)"
  let ?b = "gbv_build ?fs"
  have ok: "reader_ok r" using reader_new_ok assms(1) by blast
  then have out: "out = builder_finish ?b"
    using assms(2) by (auto simp: gbv_redact_def redact_loop_kept)
  have len: "length (b_entries ?b) = length ?fs" using gbv_build_keys [of ?fs] by (metis length_map)
  then have small: "length (b_entries ?b) \<le> u16_max"
    using kept_fields_length [of r exclude "field_count r"] reader_field_count [OF assms(1)] by linarith
  define r' where "r' = \<lparr> r_buf = builder_finish ?b, field_count = length (b_entries ?b),
      values_start = 2 + length (b_entries ?b) * DIRECTORY_ENTRY_LEN \<rparr>"
  have new: "reader_new out = Ok r'" unfolding out r'_def by (rule reader_new_finish [OF small])
  have "key_id (nth_entry r' i) \<noteq> key" if "i < field_count r'" for i
  proof -
    let ?es = "sort_key key_id (b_entries ?b)"
    have i: "i < length (b_entries ?b)" using that by (simp add: r'_def)
    have "nth_entry r' i = ?es ! i"
      using nth_entry_finish [OF r'_def gbv_build_ranges i] kept_fields_range by blast
    moreover have "?es ! i \<in> set (b_entries ?b)" using i by (metis length_sort nth_mem set_sort)
    ultimately have "key_id (nth_entry r' i) \<in> set (map key_id (b_entries ?b))" by simp
    then show ?thesis unfolding gbv_build_keys using kept_fields_keys assms(3) by fastforce
  qed
  then have "gbv_get r' key = Ok None"
    using gbv_search_spec [of r' "field_count r'" 0 key] reader_new_ok [OF new]
    unfolding gbv_get_def by auto
  with new show ?thesis by blast
qed

lemma gbv_redact_total: "reader_ok r \<Longrightarrow> \<exists>out. gbv_redact r exclude = Ok out"
  by (simp add: gbv_redact_def redact_loop_kept)

text \<open>Of a body a builder wrote, exactly the fields of other keys are kept, with their values.\<close>

lemma sort_key_all2:
  assumes "\<And>x y. P x y \<Longrightarrow> f x = g y"
  shows "list_all2 P xs ys \<Longrightarrow> list_all2 P (sort_key f xs) (sort_key g ys)"
proof (induction rule: list_all2_induct)
  case (Cons x xs y ys)
  have "list_all2 P (insort_key f x us) (insort_key g y vs)" if "list_all2 P us vs" for us vs
    using that by (induction rule: list_all2_induct) (use Cons.hyps assms in force)+
  with Cons.IH show ?case by simp
qed simp

lemma map_of_sort_key: "distinct (map fst fs) \<Longrightarrow> map_of (sort_key fst fs) = map_of fs"
proof -
  assume d: "distinct (map fst fs)"
  then have "distinct (map fst (sort_key fst fs))" by (simp add: distinct_map)
  then have "map_of (sort_key fst fs) k = Some v \<longleftrightarrow> map_of fs k = Some v" for k v
    using d by simp
  then show ?thesis by (metis not_None_eq ext)
qed

lemma concat_map_keep: "concat (map (\<lambda>x. if P x then [] else [x]) xs) = filter (\<lambda>x. \<not> P x) xs"
  by (induction xs) auto

lemma kept_fields_built:
  assumes "fields_ok fs" and "reader_new (builder_finish (gbv_build fs)) = Ok r"
  shows "kept_fields r exclude (field_count r) = filter (\<lambda>f. fst f \<notin> set exclude) (sort_key fst fs)"
proof -
  let ?b = "gbv_build fs" and ?es = "sort_key key_id (b_entries (gbv_build fs))"
  let ?ss = "sort_key fst fs"
  have len: "length (b_entries ?b) = length fs" using gbv_build_keys [of fs] by (metis length_map)
  have r: "r = \<lparr> r_buf = builder_finish ?b, field_count = length (b_entries ?b),
      values_start = 2 + length (b_entries ?b) * DIRECTORY_ENTRY_LEN \<rparr>"
    using reader_new_finish [of ?b] assms len by (simp add: fields_ok_def)
  have fc: "field_count r = length ?ss" by (simp add: r len)
  have ents: "list_all2 (entry_for ?b) ?es ?ss"
    using gbv_build_entries assms(1) by (intro sort_key_all2) (auto simp: fields_ok_def entry_for_def)
  have kept: "kept_field r exclude i = (if fst (?ss ! i) \<in> set exclude then None else Some (?ss ! i))"
    if i: "i < length ?ss" for i
  proof -
    obtain k t v where f: "?ss ! i = (k, t, v)" by (cases "?ss ! i")
    have "nth_entry r i = ?es ! i"
      using nth_entry_finish [OF r gbv_build_ranges] assms(1) i len by (simp add: fields_ok_def)
    moreover have e: "entry_for ?b (?es ! i) (k, t, v)"
      using ents i f by (metis list_all2_nthD2)
    ultimately show ?thesis
      using entry_value_finish [OF r e] f by (simp add: kept_field_def Let_def entry_for_def)
  qed
  have "kept_fields r exclude (field_count r) =
      concat (map (\<lambda>f. if fst f \<in> set exclude then [] else [f]) (map (\<lambda>i. ?ss ! i) [0..<length ?ss]))"
    unfolding kept_fields_def fc by (auto intro!: arg_cong [where f = concat] simp: kept)
  also have "\<dots> = filter (\<lambda>f. fst f \<notin> set exclude) ?ss"
    unfolding map_nth by (rule concat_map_keep)
  finally show ?thesis .
qed

lemma sum_list_sort_key: "sum_list (map h (sort_key f xs)) = (sum_list (map h xs) :: nat)"
proof -
  have "sum_list (map h (insort_key f x ys)) = h x + sum_list (map h ys)" for x ys
    by (induction ys) auto
  then show ?thesis by (induction xs) auto
qed

lemma redact_built:
  assumes ok: "fields_ok fs" and d: "distinct (map fst fs)"
    and r: "reader_new (builder_finish (gbv_build fs)) = Ok r" and out: "gbv_redact r exclude = Ok out"
  shows "\<exists>r'. reader_new out = Ok r' \<and>
    (\<forall>k. gbv_get r' k = Ok (if k \<in> set exclude then None else map_of fs k))"
proof -
  let ?gs = "filter (\<lambda>f. fst f \<notin> set exclude) (sort_key fst fs)"
  have out': "out = builder_finish (gbv_build ?gs)"
    using out reader_new_ok [OF r] by (auto simp: gbv_redact_def redact_loop_kept kept_fields_built [OF ok r])
  have "sum_list (map (\<lambda>f. length (snd (snd f))) ?gs) \<le> sum_list (map (\<lambda>f. length (snd (snd f))) fs)"
    using sum_list_filter_le_nat [of "\<lambda>f. length (snd (snd f))" "\<lambda>f. fst f \<notin> set exclude" "sort_key fst fs"]
    by (simp add: sum_list_sort_key)
  then have gs: "fields_ok ?gs" "distinct (map fst ?gs)"
    using ok d length_filter_le [of "\<lambda>f. fst f \<notin> set exclude" "sort_key fst fs"]
    by (auto simp: fields_ok_def distinct_map intro: inj_on_subset)
  have "length (b_entries (gbv_build ?gs)) \<le> u16_max"
    using gs(1) gbv_build_keys [of ?gs] by (metis length_map fields_ok_def)
  then obtain r' where r': "reader_new out = Ok r'" unfolding out' using reader_new_finish by blast
  have "gbv_get r' k = Ok (if k \<in> set exclude then None else map_of fs k)" for k
  proof -
    have "map_of ?gs = map_of (sort_key fst fs) |` {k. k \<notin> set exclude}" by (rule map_of_filter)
    then show ?thesis
      using gbv_get_built [OF gs r' [unfolded out']] by (simp add: map_of_sort_key [OF d] restrict_map_def)
  qed
  with r' show ?thesis by blast
qed

section \<open>What the format guarantees\<close>

lemma built_reader:
  assumes "fields_ok fs"
  shows "\<exists>r. reader_new (builder_finish (gbv_build fs)) = Ok r \<and> reader_ok r"
proof -
  have "length (b_entries (gbv_build fs)) \<le> u16_max"
    using assms gbv_build_keys [of fs] by (metis length_map fields_ok_def)
  then obtain r where "reader_new (builder_finish (gbv_build fs)) = Ok r"
    using reader_new_finish by blast
  then show ?thesis using reader_new_ok by blast
qed

text \<open>
  A lookup finds what was written. Of fields with different keys, pushed in any order, the
  binary search of a reader finds every one with its tag and value, and no other key.
\<close>

lemma gbv_lookup:
  assumes "fields_ok fs" and "distinct (map fst fs)"
  shows "\<exists>r. reader_new (builder_finish (gbv_build fs)) = Ok r \<and> (\<forall>k. gbv_get r k = Ok (map_of fs k))"
  using built_reader [OF assms(1)] gbv_get_built [OF assms] by blast

definition sample_fields :: gbv_fields where
  "sample_fields = [(7, Str, [104, 105]), (3, BoolTag, [1]), (5, Bin, [])]"

lemma sample_fields_ok: "fields_ok sample_fields" "distinct (map fst sample_fields)"
  by (simp_all add: sample_fields_def fields_ok_def)

text \<open>
  Redaction removes exactly the named attributes. The redacted form of what a builder wrote
  is a body in which every excluded key is absent and every other key keeps its tag and value.
\<close>

lemma redaction_exact:
  assumes "fields_ok fs" and "distinct (map fst fs)"
  shows "\<exists>r out r'. reader_new (builder_finish (gbv_build fs)) = Ok r \<and> gbv_redact r exclude = Ok out \<and>
    reader_new out = Ok r' \<and> (\<forall>k. gbv_get r' k = Ok (if k \<in> set exclude then None else map_of fs k))"
proof -
  obtain r where r: "reader_new (builder_finish (gbv_build fs)) = Ok r" "reader_ok r"
    using built_reader [OF assms(1)] by blast
  moreover obtain out where "gbv_redact r exclude = Ok out" using gbv_redact_total [OF r(2)] by blast
  ultimately show ?thesis using redact_built [OF assms r(1)] by blast
qed

end
