(* ===== verification/Gems_Bodies.thy ===== *)
theory Gems_Bodies
  imports Gems_Fields Gems_Gbv
begin

text \<open>
  The schema and auxiliary entity bodies of \<^verbatim>\<open>gems-catalog\<close>: layers, variant lists and
  roles (\<^verbatim>\<open>layer.rs\<close>), links (\<^verbatim>\<open>link.rs\<close>), policies (\<^verbatim>\<open>policy.rs\<close>), subjects
  (\<^verbatim>\<open>subject.rs\<close>), entity types (\<^verbatim>\<open>entity_type.rs\<close>) and attributes
  (\<^verbatim>\<open>entity_attribute.rs\<close>). For each, the decoder inverts the encoder on the values that
  fit the 16-bit lengths and never panics. \<^verbatim>\<open>f64\<close> bounds are their 64-bit patterns,
  which is what is written.
\<close>

lemmas body_readers = cat_readers read_tuid_list_def

section \<open>Layers, variant lists, roles\<close>

record layer_body =
  group_ref :: tuid
  dynamic_query :: "bytes option"

definition layer_encode :: "layer_body \<Rightarrow> bytes" where
  "layer_encode l =
     as_bytes (group_ref l)
     @ (case dynamic_query l of Some q \<Rightarrow> [1] @ write_u16_prefixed q | None \<Rightarrow> [0])"

definition layer_decode :: "bytes \<Rightarrow> layer_body result" where
  "layer_decode buf =
     obind (cat_read_tuid buf 0) (\<lambda>(g, pos).
     obind (cat_read_u8 buf pos) (\<lambda>(has_query, pos).
     if has_query \<noteq> 0
     then omap (\<lambda>(q, pos). \<lparr>group_ref = g, dynamic_query = Some q\<rparr>) (read_string_prefixed buf pos)
     else Ok \<lparr>group_ref = g, dynamic_query = None\<rparr>))"

definition layer_ok :: "layer_body \<Rightarrow> bool" where
  "layer_ok l \<longleftrightarrow> wf_tuid (group_ref l) \<and>
     (case dynamic_query l of Some q \<Rightarrow> short_text q | None \<Rightarrow> True)"

definition variant_list_encode :: "bytes list \<Rightarrow> bytes" where
  "variant_list_encode vs = le_bytes 2 (length vs) @ concat (map write_u16_prefixed vs)"

definition variant_list_decode :: "bytes \<Rightarrow> bytes list result" where
  "variant_list_decode buf =
     obind (cat_read_u16 buf 0) (\<lambda>(count, pos). omap fst (read_n count read_string_prefixed buf pos))"

definition role_encode :: bytes where "role_encode = []"

definition role_decode :: "bytes \<Rightarrow> unit result" where
  "role_decode buf = (if buf \<noteq> [] then Err (InvalidValue ''Role body must be empty'') else Ok ())"

definition layer_group_decode :: "bytes \<Rightarrow> unit result" where
  "layer_group_decode buf = Ok ()"

lemma layer_decode_encode:
  assumes "layer_ok l"
  shows "layer_decode (layer_encode l) = Ok l"
proof -
  let ?b = "layer_encode l" and ?n = "length (as_bytes (group_ref l))"
  have t: "cat_read_tuid ?b 0 = Ok (group_ref l, ?n)"
    using assms tuid_field.rd_wr [of "group_ref l" ?b 0]
    by (simp add: layer_ok_def layer_encode_def has_at_0)
  show ?thesis
  proof (cases "dynamic_query l")
    case None
    have "has_at ?b ?n [0]" using None by (simp add: layer_encode_def)
    with t None show ?thesis by (simp add: layer_decode_def cat_readers)
  next
    case (Some q)
    have "has_at ?b ?n ([1] @ write_u16_prefixed q)"
      using has_at_self [of ?b] Some by (simp add: layer_encode_def)
    then have "?b ! ?n = 1" "?n < length ?b"
      "read_string_prefixed ?b (?n + 1) = Ok (q, ?n + 1 + length (write_u16_prefixed q))"
      using Some assms str.rd_wr [of q ?b "?n + 1"] by (simp_all add: layer_ok_def)
    with t Some show ?thesis by (simp add: layer_decode_def cat_readers)
  qed
qed

lemma layer_decode_no_panic: "layer_decode buf \<noteq> Panic"
  by (auto simp: layer_decode_def obind_eq_Panic cat_readers
      dest!: tuid_field.rd_bound cur_u8_bound
      intro: tuid_field.rd_no_panic [THEN notE] str.rd_no_panic [THEN notE])

lemma variant_list_decode_encode:
  assumes "length vs \<le> u16_max" and "list_all short_text vs"
  shows "variant_list_decode (variant_list_encode vs) = Ok vs"
proof -
  let ?b = "variant_list_encode vs"
  have at: "has_at ?b 0 (le_bytes 2 (length vs))" "has_at ?b 2 (concat (map write_u16_prefixed vs))"
    using has_at_self [of ?b] by (simp_all add: variant_list_encode_def numeral_2_eq_2)
  then have "cat_read_u16 ?b 0 = Ok (length vs, 2)" using assms(1) by (simp add: cat_readers)
  with str.read_n_wr [OF assms(2) at(2)] show ?thesis by (simp add: variant_list_decode_def)
qed

section \<open>Links\<close>

record link_type_body =
  directional :: bool
  temporal_allowed :: bool

definition link_type_encode :: "link_type_body \<Rightarrow> bytes" where
  "link_type_encode l = [of_bool (directional l), of_bool (temporal_allowed l)]"

definition link_type_decode :: "bytes \<Rightarrow> link_type_body result" where
  "link_type_decode buf =
     (if length buf < 2 then Err (InvalidValue ''LinkType buffer too short'') else
      obind (index_at buf 0) (\<lambda>d. obind (index_at buf 1) (\<lambda>t.
      Ok \<lparr>directional = (d \<noteq> 0), temporal_allowed = (t \<noteq> 0)\<rparr>)))"

datatype link_temporality = Constant | Temporal

record link_body =
  link_source :: "tuid list"
  link_target :: "tuid list"
  link_type :: tuid
  temporality :: link_temporality
  link_from :: "int option"
  link_to :: "int option"

definition link_encode :: "link_body \<Rightarrow> bytes" where
  "link_encode l =
     write_tuid_list (link_source l) @ write_tuid_list (link_target l) @ as_bytes (link_type l)
     @ [case temporality l of Constant \<Rightarrow> 0 | Temporal \<Rightarrow> 1]
     @ write_optional_i64 (link_from l) @ write_optional_i64 (link_to l)"

definition temporality_from_u8 :: "u8 \<Rightarrow> link_temporality result" where
  "temporality_from_u8 b =
     (if b = 0 then Ok Constant else if b = 1 then Ok Temporal
      else Err (InvalidValue ''unknown link temporality''))"

definition link_decode :: "bytes \<Rightarrow> link_body result" where
  "link_decode buf =
     obind (read_tuid_list buf 0) (\<lambda>(source, pos).
     obind (read_tuid_list buf pos) (\<lambda>(target, pos).
     obind (cat_read_tuid buf pos) (\<lambda>(lt, pos).
     obind (cat_read_u8 buf pos) (\<lambda>(b, pos).
     obind (temporality_from_u8 b) (\<lambda>tm.
     obind (read_optional_i64 buf pos) (\<lambda>(from, pos).
     obind (read_optional_i64 buf pos) (\<lambda>(to, pos).
     Ok \<lparr>link_source = source, link_target = target, link_type = lt, temporality = tm,
         link_from = from, link_to = to\<rparr>)))))))"

definition link_ok :: "link_body \<Rightarrow> bool" where
  "link_ok l \<longleftrightarrow> short_tuids (link_source l) \<and> short_tuids (link_target l) \<and> wf_tuid (link_type l) \<and>
     optional_i64_ok (link_from l) \<and> optional_i64_ok (link_to l)"

lemma link_type_decode_encode: "link_type_decode (link_type_encode l) = Ok l"
  by (simp add: link_type_decode_def link_type_encode_def index_at_def)

lemma temporality_from_no_panic [simp]: "temporality_from_u8 b \<noteq> Panic"
  by (simp add: temporality_from_u8_def)

lemma link_decode_encode:
  assumes "link_ok l"
  shows "link_decode (link_encode l) = Ok l"
proof -
  let ?b = "link_encode l"
  define p1 where "p1 = length (write_tuid_list (link_source l))"
  define p2 where "p2 = p1 + length (write_tuid_list (link_target l))"
  define p3 where "p3 = p2 + length (as_bytes (link_type l))"
  define p4 where "p4 = p3 + 1 + length (write_optional_i64 (link_from l))"
  have at: "has_at ?b 0 (write_tuid_list (link_source l))" "has_at ?b p1 (write_tuid_list (link_target l))"
    "has_at ?b p2 (as_bytes (link_type l))" "p3 < length ?b"
    "?b ! p3 = (case temporality l of Constant \<Rightarrow> 0 | Temporal \<Rightarrow> 1)"
    "has_at ?b (p3 + 1) (write_optional_i64 (link_from l))" "has_at ?b p4 (write_optional_i64 (link_to l))"
    using has_at_self [of ?b]
    by (simp_all add: link_encode_def p1_def p2_def p3_def p4_def add.assoc)
  have "temporality_from_u8 (?b ! p3) = Ok (temporality l)"
    using at(5) by (cases "temporality l") (simp_all add: temporality_from_u8_def)
  with at(4) tuids.rd_wr [OF _ at(1)] tuids.rd_wr [OF _ at(2)] tuid_field.rd_wr [OF _ at(3)]
    opt_i64.rd_wr [OF _ at(6)] opt_i64.rd_wr [OF _ at(7)] assms
  show ?thesis
    by (simp add: link_decode_def link_ok_def cat_readers p1_def [symmetric] p2_def [symmetric]
        p3_def [symmetric] p4_def [symmetric, simplified])
qed

lemma link_decode_no_panic: "link_decode buf \<noteq> Panic"
  by (auto simp: link_decode_def obind_eq_Panic cat_readers
      dest!: tuid_field.rd_bound tuids.rd_bound opt_i64.rd_bound cur_u8_bound
      intro: tuid_field.rd_no_panic [THEN notE] tuids.rd_no_panic [THEN notE]
        opt_i64.rd_no_panic [THEN notE])

section \<open>Policies\<close>

datatype effect = Permit | Deny

record target_predicate =
  target_kind :: "entity_kind option"
  target_schema :: tuid

record subject_predicate =
  pred_subject :: tuid
  pred_role :: tuid

record policy =
  target :: target_predicate
  subject :: subject_predicate
  effect :: effect
  redact_attributes :: "nat list"

definition TARGET_ANY :: target_predicate where
  "TARGET_ANY = \<lparr>target_kind = None, target_schema = NIL\<rparr>"

definition SUBJECT_ANY :: subject_predicate where
  "SUBJECT_ANY = \<lparr>pred_subject = NIL, pred_role = NIL\<rparr>"

definition target_matches :: "target_predicate \<Rightarrow> entity_kind \<Rightarrow> tuid \<Rightarrow> bool" where
  "target_matches t k schema \<longleftrightarrow>
     (case target_kind t of None \<Rightarrow> True | Some k' \<Rightarrow> k' = k)
     \<and> (target_schema t = NIL \<or> target_schema t = schema)"

definition subject_matches :: "subject_predicate \<Rightarrow> tuid \<Rightarrow> tuid list \<Rightarrow> bool" where
  "subject_matches p acting roles \<longleftrightarrow>
     (if pred_subject p = NIL \<and> pred_role p = NIL then True
      else (pred_subject p \<noteq> NIL \<and> pred_subject p = acting)
         \<or> (pred_role p \<noteq> NIL \<and> pred_role p \<in> set roles))"

definition policy_applies :: "policy \<Rightarrow> tuid \<Rightarrow> tuid list \<Rightarrow> entity_kind \<Rightarrow> tuid \<Rightarrow> bool" where
  "policy_applies p acting roles k schema \<longleftrightarrow>
     target_matches (target p) k schema \<and> subject_matches (subject p) acting roles"

definition policy_encode :: "policy \<Rightarrow> bytes" where
  "policy_encode p =
     (case target_kind (target p) of Some k \<Rightarrow> [1, of_nat (kind_to_u8 k)] | None \<Rightarrow> [0, 0])
     @ as_bytes (target_schema (target p)) @ as_bytes (pred_subject (subject p))
     @ as_bytes (pred_role (subject p)) @ [case effect p of Permit \<Rightarrow> 0 | Deny \<Rightarrow> 1]
     @ le_bytes 2 (length (redact_attributes p)) @ concat (map (le_bytes 4) (redact_attributes p))"

definition effect_from_u8 :: "u8 \<Rightarrow> effect result" where
  "effect_from_u8 b =
     (if b = 0 then Ok Permit else if b = 1 then Ok Deny
      else Err (InvalidValue ''unknown policy effect''))"

definition policy_decode :: "bytes \<Rightarrow> policy result" where
  "policy_decode buf =
     obind (cat_read_u8 buf 0) (\<lambda>(has_kind, pos).
     obind (cat_read_u8 buf pos) (\<lambda>(kind_byte, pos).
     obind (if has_kind \<noteq> 0 then omap Some (kind_from_u8 (unat kind_byte)) else Ok None) (\<lambda>k.
     obind (cat_read_tuid buf pos) (\<lambda>(schema, pos).
     obind (cat_read_tuid buf pos) (\<lambda>(sid, pos).
     obind (cat_read_tuid buf pos) (\<lambda>(role, pos).
     obind (cat_read_u8 buf pos) (\<lambda>(b, pos).
     obind (effect_from_u8 b) (\<lambda>eff.
     obind (cat_read_u16 buf pos) (\<lambda>(count, pos).
     omap (\<lambda>(attrs, pos). \<lparr>target = \<lparr>target_kind = k, target_schema = schema\<rparr>,
         subject = \<lparr>pred_subject = sid, pred_role = role\<rparr>, effect = eff, redact_attributes = attrs\<rparr>)
       (read_n count cat_read_u32 buf pos))))))))))"

definition policy_ok :: "policy \<Rightarrow> bool" where
  "policy_ok p \<longleftrightarrow> wf_tuid (target_schema (target p)) \<and> wf_tuid (pred_subject (subject p)) \<and>
     wf_tuid (pred_role (subject p)) \<and> length (redact_attributes p) \<le> u16_max \<and>
     list_all (\<lambda>a. a \<le> u32_max) (redact_attributes p)"

lemma effect_from_no_panic [simp]: "effect_from_u8 b \<noteq> Panic"
  by (simp add: effect_from_u8_def)

interpretation attr_id: field_codec "le_bytes 4" cat_read_u32 "\<lambda>a. a \<le> u32_max"
  by unfold_locales (auto simp: cat_readers dest: cur_uint_bound)

lemma policy_decode_encode:
  assumes "policy_ok p"
  shows "policy_decode (policy_encode p) = Ok p"
proof -
  let ?b = "policy_encode p"
  define kb :: u8 where
    "kb = (case target_kind (target p) of Some k \<Rightarrow> of_nat (kind_to_u8 k) | None \<Rightarrow> 0)"
  have b: "?b = [of_bool (target_kind (target p) \<noteq> None), kb]
      @ as_bytes (target_schema (target p)) @ as_bytes (pred_subject (subject p))
      @ as_bytes (pred_role (subject p)) @ [case effect p of Permit \<Rightarrow> 0 | Deny \<Rightarrow> 1]
      @ le_bytes 2 (length (redact_attributes p)) @ concat (map (le_bytes 4) (redact_attributes p))"
    by (simp add: policy_encode_def kb_def split: option.split)
  have len: "length (as_bytes (target_schema (target p))) = 24"
    "length (as_bytes (pred_subject (subject p))) = 24" "length (as_bytes (pred_role (subject p))) = 24"
    using assms by (simp_all add: policy_ok_def wf_tuid_def TUID_LEN_def)
  have at: "?b ! 0 = of_bool (target_kind (target p) \<noteq> None)" "?b ! 1 = kb" "1 < length ?b"
    "has_at ?b 2 (as_bytes (target_schema (target p)))" "has_at ?b 26 (as_bytes (pred_subject (subject p)))"
    "has_at ?b 50 (as_bytes (pred_role (subject p)))" "74 < length ?b"
    "?b ! 74 = (case effect p of Permit \<Rightarrow> 0 | Deny \<Rightarrow> 1)"
    "has_at ?b 75 (le_bytes 2 (length (redact_attributes p)))"
    "has_at ?b 77 (concat (map (le_bytes 4) (redact_attributes p)))"
    using has_at_self [of ?b] unfolding b by (simp_all add: len numeral_2_eq_2)
  have k: "(if ?b ! 0 \<noteq> 0 then omap Some (kind_from_u8 (unat kb)) else Ok None) =
      Ok (target_kind (target p))"
  proof (cases "target_kind (target p)")
    case (Some k)
    then have "unat kb = kind_to_u8 k"
      using kind_to_u8_le [of k] by (simp add: kb_def unat_of_nat_u8)
    with Some at(1) show ?thesis by simp
  qed (use at(1) in simp)
  have "effect_from_u8 (?b ! 74) = Ok (effect p)"
    using at(8) by (cases "effect p") (simp_all add: effect_from_u8_def)
  moreover have "?b \<noteq> []" using at(7) by auto
  then have "cat_read_u8 ?b 0 = Ok (?b ! 0, 1)" "cat_read_u8 ?b 1 = Ok (kb, 2)"
    "cat_read_u8 ?b 74 = Ok (?b ! 74, 75)"
    using cur_u8_at [of 0 ?b] cur_u8_at [of 1 ?b] cur_u8_at [of 74 ?b] at(2,3,7)
    by (simp_all add: cat_readers)
  moreover have "cat_read_u16 ?b 75 = Ok (length (redact_attributes p), 77)"
    using at assms by (simp add: cat_readers policy_ok_def)
  moreover have "read_n (length (redact_attributes p)) cat_read_u32 ?b 77 =
      Ok (redact_attributes p, 77 + length (concat (map (le_bytes 4) (redact_attributes p))))"
    using at assms by (intro attr_id.read_n_wr) (simp_all add: policy_ok_def)
  moreover have "cat_read_tuid ?b 2 = Ok (target_schema (target p), 26)"
    "cat_read_tuid ?b 26 = Ok (pred_subject (subject p), 50)"
    "cat_read_tuid ?b 50 = Ok (pred_role (subject p), 74)"
    using tuid_field.rd_wr [OF _ at(4)] tuid_field.rd_wr [OF _ at(5)] tuid_field.rd_wr [OF _ at(6)] assms
    by (simp_all add: policy_ok_def len)
  ultimately show ?thesis using k by (simp add: policy_decode_def)
qed

lemma policy_decode_no_panic: "policy_decode buf \<noteq> Panic"
  by (auto simp: policy_decode_def obind_eq_Panic cat_read_u8_def cat_read_u16_def
      dest!: tuid_field.rd_bound cur_u8_bound cur_uint_bound split: if_splits
      intro: tuid_field.rd_no_panic [THEN notE] attr_id.read_n_no_panic [THEN notE])

section \<open>Subjects\<close>

datatype subject_kind =
    BuiltinSystem | BuiltinAnonymous | BuiltinEveryone | BuiltinNobody | BuiltinAuthorized
  | User | Group | Organization | Service

definition subject_kind_order :: "subject_kind list" where
  "subject_kind_order = [BuiltinSystem, BuiltinAnonymous, BuiltinEveryone, BuiltinNobody,
     BuiltinAuthorized, User, Group, Organization, Service]"

fun subject_kind_to_u8 :: "subject_kind \<Rightarrow> u8" where
  "subject_kind_to_u8 BuiltinSystem = 0"
| "subject_kind_to_u8 BuiltinAnonymous = 1"
| "subject_kind_to_u8 BuiltinEveryone = 2"
| "subject_kind_to_u8 BuiltinNobody = 3"
| "subject_kind_to_u8 BuiltinAuthorized = 4"
| "subject_kind_to_u8 User = 5"
| "subject_kind_to_u8 Group = 6"
| "subject_kind_to_u8 Organization = 7"
| "subject_kind_to_u8 Service = 8"

definition subject_kind_from_u8 :: "u8 \<Rightarrow> subject_kind result" where
  "subject_kind_from_u8 v =
     (case get_opt subject_kind_order (unat v) of
        Some k \<Rightarrow> Ok k | None \<Rightarrow> Err (InvalidValue ''unknown SubjectKind''))"

definition accepts_credentials :: "subject_kind \<Rightarrow> bool" where
  "accepts_credentials k \<longleftrightarrow> k = User \<or> k = Service"

record credentials =
  password_hash :: "bytes option"
  totp_secret :: "bytes option"

record subject_body =
  subject_kind :: subject_kind
  subject_credentials :: "credentials option"
  member_of :: "tuid list"

definition subject_encode :: "subject_body \<Rightarrow> bytes" where
  "subject_encode s =
     [subject_kind_to_u8 (subject_kind s)]
     @ (case subject_credentials s of
          Some c \<Rightarrow> [1] @ write_optional_bytes (password_hash c) @ write_optional_bytes (totp_secret c)
        | None \<Rightarrow> [0])
     @ write_tuid_list (member_of s)"

definition read_credentials :: "credentials option reader" where
  "read_credentials buf pos =
     obind (cat_read_u8 buf pos) (\<lambda>(has_credentials, pos).
     if has_credentials \<noteq> 0 then
       obind (read_optional_bytes buf pos) (\<lambda>(pw, pos).
       omap (\<lambda>(totp, pos). (Some \<lparr>password_hash = pw, totp_secret = totp\<rparr>, pos))
         (read_optional_bytes buf pos))
     else Ok (None, pos))"

definition subject_decode :: "bytes \<Rightarrow> subject_body result" where
  "subject_decode buf =
     obind (cat_read_u8 buf 0) (\<lambda>(b, pos).
     obind (subject_kind_from_u8 b) (\<lambda>k.
     obind (read_credentials buf pos) (\<lambda>(creds, pos).
     omap (\<lambda>(groups, pos). \<lparr>subject_kind = k, subject_credentials = creds, member_of = groups\<rparr>)
       (read_tuid_list buf pos))))"

definition credentials_ok :: "credentials option \<Rightarrow> bool" where
  "credentials_ok v \<longleftrightarrow>
     (case v of Some c \<Rightarrow> optional_ok (password_hash c) \<and> optional_ok (totp_secret c) | None \<Rightarrow> True)"

definition subject_ok :: "subject_body \<Rightarrow> bool" where
  "subject_ok s \<longleftrightarrow> credentials_ok (subject_credentials s) \<and> short_tuids (member_of s)"

lemma subject_kind_from_to [simp]: "subject_kind_from_u8 (subject_kind_to_u8 k) = Ok k"
  by (cases k) (simp_all add: subject_kind_from_u8_def get_opt_def subject_kind_order_def)

lemma subject_kind_no_panic [simp]: "subject_kind_from_u8 v \<noteq> Panic"
  by (simp add: subject_kind_from_u8_def split: option.split)

definition write_credentials :: "credentials option \<Rightarrow> bytes" where
  "write_credentials v =
     (case v of
        Some c \<Rightarrow> [1] @ write_optional_bytes (password_hash c) @ write_optional_bytes (totp_secret c)
      | None \<Rightarrow> [0])"

interpretation creds: field_codec write_credentials read_credentials credentials_ok
proof unfold_locales
  show "read_credentials buf p = Ok (v, p + length (write_credentials v))"
    if "credentials_ok v" "has_at buf p (write_credentials v)" for v buf p
  proof (cases v)
    case None
    with that show ?thesis by (auto simp: read_credentials_def write_credentials_def cat_readers)
  next
    case (Some c)
    let ?p1 = "p + 1 + length (write_optional_bytes (password_hash c))"
    have at: "p < length buf" "buf ! p = 1" "has_at buf (p + 1) (write_optional_bytes (password_hash c))"
      "has_at buf ?p1 (write_optional_bytes (totp_secret c))"
      using that(2) Some by (simp_all add: write_credentials_def)
    have ok: "optional_ok (password_hash c)" "optional_ok (totp_secret c)"
      using that(1) Some by (simp_all add: credentials_ok_def)
    show ?thesis
      using Some at opt_blob.rd_wr [OF ok(1) at(3)] opt_blob.rd_wr [OF ok(2) at(4)]
      by (simp add: read_credentials_def write_credentials_def cat_readers)
  qed
  show "read_credentials buf p \<noteq> Panic" for buf p
    by (auto simp: read_credentials_def obind_eq_Panic cat_readers split: if_splits
        dest!: cur_u8_bound opt_blob.rd_bound intro: opt_blob.rd_no_panic [THEN notE])
  show "p \<le> q \<and> q \<le> length buf" if "read_credentials buf p = Ok (v, q)" for buf p v q
    using that
    by (auto simp: read_credentials_def obind_eq_Ok cat_readers split: if_splits
        dest!: cur_u8_bound opt_blob.rd_bound)
qed

lemma subject_decode_encode:
  assumes "subject_ok s"
  shows "subject_decode (subject_encode s) = Ok s"
proof -
  let ?b = "subject_encode s"
  have b: "?b = [subject_kind_to_u8 (subject_kind s)] @ write_credentials (subject_credentials s)
      @ write_tuid_list (member_of s)"
    by (simp add: subject_encode_def write_credentials_def)
  have at: "?b ! 0 = subject_kind_to_u8 (subject_kind s)" "0 < length ?b"
    "has_at ?b 1 (write_credentials (subject_credentials s))"
    "has_at ?b (1 + length (write_credentials (subject_credentials s))) (write_tuid_list (member_of s))"
    using has_at_self [of ?b] unfolding b by simp_all
  show ?thesis
    using assms at creds.rd_wr [OF _ at(3)] tuids.rd_wr [OF _ at(4)]
    by (simp add: subject_decode_def subject_ok_def cat_readers)
qed

lemma subject_decode_no_panic: "subject_decode buf \<noteq> Panic"
  by (auto simp: subject_decode_def obind_eq_Panic cat_readers
      dest!: cur_u8_bound creds.rd_bound intro: creds.rd_no_panic [THEN notE] tuids.rd_no_panic [THEN notE])

section \<open>Entity types\<close>

datatype entity_type_kind = Structural | Auxiliary

record attribute_ref =
  attribute_id :: tuid
  required :: bool
  default_value :: "bytes option"

record entity_type_body =
  et_kind :: entity_type_kind
  et_attributes :: "attribute_ref list"
  compatible_with :: "tuid list"
  incompatible_with :: "tuid list"

definition is_compatible_with :: "entity_type_body \<Rightarrow> tuid \<Rightarrow> bool" where
  "is_compatible_with t other \<longleftrightarrow>
     other \<notin> set (incompatible_with t) \<and> other \<in> set (compatible_with t)"

definition write_attribute_ref :: "attribute_ref \<Rightarrow> bytes" where
  "write_attribute_ref a =
     as_bytes (attribute_id a) @ [of_bool (required a)] @ write_optional_bytes (default_value a)"

definition read_attribute_ref :: "attribute_ref reader" where
  "read_attribute_ref buf pos =
     obind (cat_read_tuid buf pos) (\<lambda>(i, pos).
     obind (cat_read_u8 buf pos) (\<lambda>(r, pos).
     omap (\<lambda>(d, pos). (\<lparr>attribute_id = i, required = (r \<noteq> 0), default_value = d\<rparr>, pos))
       (read_optional_bytes buf pos)))"

definition entity_type_encode :: "entity_type_body \<Rightarrow> bytes" where
  "entity_type_encode t =
     [case et_kind t of Structural \<Rightarrow> 0 | Auxiliary \<Rightarrow> 1]
     @ le_bytes 2 (length (et_attributes t)) @ concat (map write_attribute_ref (et_attributes t))
     @ write_tuid_list (compatible_with t) @ write_tuid_list (incompatible_with t)"

definition entity_type_kind_from_u8 :: "u8 \<Rightarrow> entity_type_kind result" where
  "entity_type_kind_from_u8 b =
     (if b = 0 then Ok Structural else if b = 1 then Ok Auxiliary
      else Err (InvalidValue ''unknown EntityType kind''))"

definition entity_type_decode :: "bytes \<Rightarrow> entity_type_body result" where
  "entity_type_decode buf =
     obind (cat_read_u8 buf 0) (\<lambda>(b, pos).
     obind (entity_type_kind_from_u8 b) (\<lambda>k.
     obind (cat_read_u16 buf pos) (\<lambda>(count, pos).
     obind (read_n count read_attribute_ref buf pos) (\<lambda>(attrs, pos).
     obind (read_tuid_list buf pos) (\<lambda>(compat, pos).
     omap (\<lambda>(incompat, pos). \<lparr>et_kind = k, et_attributes = attrs, compatible_with = compat,
         incompatible_with = incompat\<rparr>)
       (read_tuid_list buf pos))))))"

definition attribute_ref_ok :: "attribute_ref \<Rightarrow> bool" where
  "attribute_ref_ok a \<longleftrightarrow> wf_tuid (attribute_id a) \<and> optional_ok (default_value a)"

definition entity_type_ok :: "entity_type_body \<Rightarrow> bool" where
  "entity_type_ok t \<longleftrightarrow> length (et_attributes t) \<le> u16_max \<and> list_all attribute_ref_ok (et_attributes t) \<and>
     short_tuids (compatible_with t) \<and> short_tuids (incompatible_with t)"

interpretation attr_ref: field_codec write_attribute_ref read_attribute_ref attribute_ref_ok
proof unfold_locales
  show "read_attribute_ref buf p = Ok (a, p + length (write_attribute_ref a))"
    if "attribute_ref_ok a" "has_at buf p (write_attribute_ref a)" for a buf p
  proof -
    let ?p1 = "p + length (as_bytes (attribute_id a))"
    have at: "has_at buf p (as_bytes (attribute_id a))" "?p1 < length buf"
      "buf ! ?p1 = of_bool (required a)" "has_at buf (?p1 + 1) (write_optional_bytes (default_value a))"
      using that(2) by (simp_all add: write_attribute_ref_def)
    show ?thesis
      using that(1) at tuid_field.rd_wr [OF _ at(1)] opt_blob.rd_wr [OF _ at(4)]
      by (simp add: read_attribute_ref_def write_attribute_ref_def attribute_ref_ok_def cat_readers)
  qed
  show "read_attribute_ref buf p \<noteq> Panic" if "p \<le> length buf" for buf p
    using that
    by (auto simp: read_attribute_ref_def obind_eq_Panic cat_read_u8_def
        dest!: cur_u8_bound tuid_field.rd_bound
        intro: tuid_field.rd_no_panic [THEN notE] opt_blob.rd_no_panic [THEN notE])
  show "p \<le> q \<and> q \<le> length buf" if "read_attribute_ref buf p = Ok (a, q)" "p \<le> length buf" for buf p a q
    using that
    by (auto simp: read_attribute_ref_def obind_eq_Ok cat_read_u8_def
        dest!: cur_u8_bound tuid_field.rd_bound opt_blob.rd_bound)
qed

lemma entity_type_kind_no_panic [simp]: "entity_type_kind_from_u8 b \<noteq> Panic"
  by (simp add: entity_type_kind_from_u8_def)

lemma entity_type_decode_encode:
  assumes "entity_type_ok t"
  shows "entity_type_decode (entity_type_encode t) = Ok t"
proof -
  let ?b = "entity_type_encode t"
  define p1 where "p1 = 3 + length (concat (map write_attribute_ref (et_attributes t)))"
  define p2 where "p2 = p1 + length (write_tuid_list (compatible_with t))"
  have at: "?b ! 0 = (case et_kind t of Structural \<Rightarrow> 0 | Auxiliary \<Rightarrow> 1)" "0 < length ?b"
    "has_at ?b 1 (le_bytes 2 (length (et_attributes t)))"
    "has_at ?b 3 (concat (map write_attribute_ref (et_attributes t)))"
    "has_at ?b p1 (write_tuid_list (compatible_with t))"
    "has_at ?b p2 (write_tuid_list (incompatible_with t))"
    using has_at_self [of ?b]
    by (simp_all add: entity_type_encode_def p1_def p2_def add.assoc numeral_3_eq_3)
  have k: "entity_type_kind_from_u8 (?b ! 0) = Ok (et_kind t)"
    using at(1) by (cases "et_kind t") (simp_all add: entity_type_kind_from_u8_def)
  have c: "cat_read_u16 ?b 1 = Ok (length (et_attributes t), 3)"
    using at(3) assms by (simp add: cat_readers entity_type_ok_def)
  have l: "read_n (length (et_attributes t)) read_attribute_ref ?b 3 = Ok (et_attributes t, p1)"
    using attr_ref.read_n_wr [OF _ at(4)] assms by (simp add: entity_type_ok_def p1_def)
  have u: "cat_read_u8 ?b 0 = Ok (?b ! 0, 1)" using at(2) by (simp add: cat_readers)
  show ?thesis
    using u k c l tuids.rd_wr [OF _ at(5)] tuids.rd_wr [OF _ at(6)] assms
    by (simp add: entity_type_decode_def entity_type_ok_def p2_def [symmetric])
qed

lemma entity_type_decode_no_panic: "entity_type_decode buf \<noteq> Panic"
  by (auto simp: entity_type_decode_def obind_eq_Panic cat_read_u8_def cat_read_u16_def
      dest!: cur_u8_bound cur_uint_bound attr_ref.read_n_bound tuids.rd_bound
      intro: attr_ref.read_n_no_panic [THEN notE] tuids.rd_no_panic [THEN notE])

section \<open>Attributes\<close>

definition FORMAT_TEMPLATE_MAX :: nat where "FORMAT_TEMPLATE_MAX = 32"

datatype cardinality = Single | Multiple
datatype index_mode = NotIndexed | BitmapIndex | BTreeIndex

record validation_rule =
  val_min :: "nat option"
  val_max :: "nat option"
  regex_ref :: tuid
  enum_ref :: tuid
  precision :: u8

record attribute_body =
  prototype :: type_tag
  attr_cardinality :: cardinality
  nullable :: bool
  indexed :: index_mode
  validation :: validation_rule
  format_template :: bytes

definition ATTRIBUTE_FIXED_LEN :: nat where
  "ATTRIBUTE_FIXED_LEN = 1 + 1 + 1 + 1 + (1 + 8) + (1 + 8) + TUID_LEN + TUID_LEN + 1 + 1"

definition write_bound :: "nat option \<Rightarrow> bytes" where
  "write_bound v = (case v of Some bits \<Rightarrow> [1] @ le_bytes 8 bits | None \<Rightarrow> [0] @ le_bytes 8 0)"

definition cardinality_to_u8 :: "cardinality \<Rightarrow> u8" where
  "cardinality_to_u8 c = (case c of Single \<Rightarrow> 0 | Multiple \<Rightarrow> 1)"

definition cardinality_from_u8 :: "u8 \<Rightarrow> cardinality result" where
  "cardinality_from_u8 b =
     (if b = 0 then Ok Single else if b = 1 then Ok Multiple
      else Err (InvalidValue ''unknown cardinality''))"

definition index_mode_to_u8 :: "index_mode \<Rightarrow> u8" where
  "index_mode_to_u8 m = (case m of NotIndexed \<Rightarrow> 0 | BitmapIndex \<Rightarrow> 1 | BTreeIndex \<Rightarrow> 2)"

definition index_mode_from_u8 :: "u8 \<Rightarrow> index_mode result" where
  "index_mode_from_u8 b =
     (if b = 0 then Ok NotIndexed else if b = 1 then Ok BitmapIndex else if b = 2 then Ok BTreeIndex
      else Err (InvalidValue ''unknown indexed mode''))"

definition attribute_encode :: "attribute_body \<Rightarrow> bytes" where
  "attribute_encode a =
     (let template = truncate_utf8 (format_template a) FORMAT_TEMPLATE_MAX in
      [tag_to_u8 (prototype a), cardinality_to_u8 (attr_cardinality a), of_bool (nullable a),
       index_mode_to_u8 (indexed a)]
      @ write_bound (val_min (validation a)) @ write_bound (val_max (validation a))
      @ as_bytes (regex_ref (validation a)) @ as_bytes (enum_ref (validation a))
      @ [precision (validation a)] @ [of_nat (length template)] @ template)"

definition attribute_decode :: "bytes \<Rightarrow> attribute_body result" where
  "attribute_decode buf =
     (if length buf < ATTRIBUTE_FIXED_LEN
      then Err (InvalidValue ''EntityAttribute buffer too short'') else
      obind (obind (index_at buf 0) tag_from_u8) (\<lambda>proto.
      obind (obind (index_at buf 1) cardinality_from_u8) (\<lambda>card.
      obind (index_at buf 2) (\<lambda>nul.
      obind (obind (index_at buf 3) index_mode_from_u8) (\<lambda>idx.
      obind (index_at buf 4) (\<lambda>has_min.
      obind (field_at buf 5 8) (\<lambda>min_raw.
      obind (index_at buf 13) (\<lambda>has_max.
      obind (field_at buf 14 8) (\<lambda>max_raw.
      obind (field_at buf 22 TUID_LEN) (\<lambda>rx.
      obind (field_at buf 46 TUID_LEN) (\<lambda>en.
      obind (index_at buf 70) (\<lambda>prec.
      obind (index_at buf 71) (\<lambda>template_len.
      if length buf < 72 + unat template_len
      then Err (InvalidValue ''EntityAttribute format template truncated'')
      else omap (\<lambda>template.
        \<lparr>prototype = proto, attr_cardinality = card, nullable = (nul \<noteq> 0), indexed = idx,
         validation = \<lparr>val_min = (if has_min \<noteq> 0 then Some (le_val min_raw) else None),
           val_max = (if has_max \<noteq> 0 then Some (le_val max_raw) else None),
           regex_ref = Tuid rx, enum_ref = Tuid en, precision = prec\<rparr>,
         format_template = from_utf8_lossy template\<rparr>)
        (slice buf 72 (72 + unat template_len)))))))))))))))"

definition bound_ok :: "nat option \<Rightarrow> bool" where
  "bound_ok v \<longleftrightarrow> (case v of Some bits \<Rightarrow> bits \<le> u64_max | None \<Rightarrow> True)"

definition attribute_ok :: "attribute_body \<Rightarrow> bool" where
  "attribute_ok a \<longleftrightarrow> bound_ok (val_min (validation a)) \<and> bound_ok (val_max (validation a)) \<and>
     wf_tuid (regex_ref (validation a)) \<and> wf_tuid (enum_ref (validation a)) \<and>
     utf8_valid (format_template a)"

lemma mode_round_trips [simp]:
  "cardinality_from_u8 (cardinality_to_u8 c) = Ok c"
  "index_mode_from_u8 (index_mode_to_u8 m) = Ok m"
  by (cases c; simp add: cardinality_from_u8_def cardinality_to_u8_def)
     (cases m; simp add: index_mode_from_u8_def index_mode_to_u8_def)

lemma modes_no_panic [simp]: "cardinality_from_u8 b \<noteq> Panic" "index_mode_from_u8 b \<noteq> Panic"
  by (simp_all add: cardinality_from_u8_def index_mode_from_u8_def)

text \<open>The decoded attribute is the encoded one with its template cut to 32 bytes.\<close>

lemma attribute_decode_encode:
  assumes "attribute_ok a"
  shows "attribute_decode (attribute_encode a) =
    Ok (a\<lparr>format_template := truncate_utf8 (format_template a) FORMAT_TEMPLATE_MAX\<rparr>)"
proof -
  let ?v = "validation a" and ?t = "truncate_utf8 (format_template a) FORMAT_TEMPLATE_MAX"
  define raw where "raw v = (case v of Some bits \<Rightarrow> bits | None \<Rightarrow> 0)" for v :: "nat option"
  define b where "b = attribute_encode a"
  have tl: "length ?t \<le> 32" using length_truncate_utf8 by (simp add: FORMAT_TEMPLATE_MAX_def)
  have bound: "write_bound v = [of_bool (v \<noteq> None)] @ le_bytes 8 (raw v)" for v
    by (simp add: write_bound_def raw_def split: option.split)
  have len: "length (as_bytes (regex_ref ?v)) = 24" "length (as_bytes (enum_ref ?v)) = 24"
    using assms by (simp_all add: attribute_ok_def wf_tuid_def TUID_LEN_def)
  define hd4 where "hd4 = [tag_to_u8 (prototype a), cardinality_to_u8 (attr_cardinality a),
      of_bool (nullable a), index_mode_to_u8 (indexed a)]"
  have h4: "length hd4 = 4" by (simp add: hd4_def)
  have b_eq: "b = hd4 @ write_bound (val_min ?v) @ write_bound (val_max ?v)
      @ as_bytes (regex_ref ?v) @ as_bytes (enum_ref ?v)
      @ [precision ?v] @ [of_nat (length ?t)] @ ?t"
    by (simp add: b_def attribute_encode_def Let_def hd4_def)
  have wl: "length (write_bound v) = 9" for v by (simp add: bound)
  have "has_at b 0 (hd4 @ write_bound (val_min ?v) @ write_bound (val_max ?v)
      @ as_bytes (regex_ref ?v) @ as_bytes (enum_ref ?v) @ [precision ?v] @ [of_nat (length ?t)] @ ?t)"
    unfolding b_eq [symmetric] by (rule has_at_self)
  then have parts: "has_at b 0 hd4" "has_at b 4 (write_bound (val_min ?v))"
    "has_at b 13 (write_bound (val_max ?v))"
    "has_at b 22 (as_bytes (regex_ref ?v))" "has_at b 46 (as_bytes (enum_ref ?v))"
    "b ! 70 = precision ?v" "b ! 71 = of_nat (length ?t)" "has_at b 72 ?t"
    by (simp_all add: len wl h4)
  have at: "b ! 0 = tag_to_u8 (prototype a)" "b ! 1 = cardinality_to_u8 (attr_cardinality a)"
    "b ! 2 = of_bool (nullable a)" "b ! 3 = index_mode_to_u8 (indexed a)"
    using has_at_nth [OF parts(1), of 0] has_at_nth [OF parts(1), of 1]
      has_at_nth [OF parts(1), of 2] has_at_nth [OF parts(1), of 3]
    by (simp_all add: hd4_def numeral_2_eq_2)
  have at': "b ! 4 = of_bool (val_min ?v \<noteq> None)" "has_at b 5 (le_bytes 8 (raw (val_min ?v)))"
    "b ! 13 = of_bool (val_max ?v \<noteq> None)" "has_at b 14 (le_bytes 8 (raw (val_max ?v)))"
    using parts(2,3) by (simp_all add: bound)
  have total: "72 \<le> length b" using has_at_le [OF parts(8)] by simp
  have raws: "le_val (le_bytes 8 (raw (val_min ?v))) = raw (val_min ?v)"
    "le_val (le_bytes 8 (raw (val_max ?v))) = raw (val_max ?v)"
    using assms by (auto intro!: le_val_le_bytes simp: attribute_ok_def bound_ok_def raw_def split: option.splits)
  have un: "unat (of_nat (length ?t) :: u8) = length ?t" using tl by (simp add: unat_of_nat_u8)
  have opts: "(if of_bool (v \<noteq> None) \<noteq> (0::u8) then Some (raw v) else None) = v" for v
    by (cases v) (simp_all add: raw_def)
  have idx: "index_at b i = Ok (b ! i)" if "i < 72" for i using that total by simp
  have fields: "field_at b 5 8 = Ok (le_bytes 8 (raw (val_min ?v)))"
    "field_at b 14 8 = Ok (le_bytes 8 (raw (val_max ?v)))"
    "field_at b 22 24 = Ok (as_bytes (regex_ref ?v))" "field_at b 46 24 = Ok (as_bytes (enum_ref ?v))"
    using at'(2,4) parts(4,5) len by (simp_all add: has_at_field)
  have tmpl: "slice b 72 (72 + length ?t) = Ok ?t" "72 + length ?t \<le> length b"
    using parts(8) by (auto intro: has_at_slice dest: has_at_le)
  have valid: "from_utf8_lossy ?t = ?t" using assms by (simp add: attribute_ok_def utf8_valid_truncate)
  have "attribute_decode b = Ok \<lparr>prototype = prototype a, attr_cardinality = attr_cardinality a,
      nullable = nullable a, indexed = indexed a,
      validation = \<lparr>val_min = val_min ?v, val_max = val_max ?v, regex_ref = regex_ref ?v,
        enum_ref = enum_ref ?v, precision = precision ?v\<rparr>, format_template = ?t\<rparr>"
    using total tmpl
    by (simp only: attribute_decode_def ATTRIBUTE_FIXED_LEN_def TUID_LEN_def idx fields at at' parts(6,7) raws un
        opts valid obind.simps omap.simps mode_round_trips tag_from_to tuid.collapse) simp
  then show ?thesis by (simp add: b_def)
qed

lemma attribute_decode_no_panic: "attribute_decode buf \<noteq> Panic"
  by (auto simp: attribute_decode_def obind_eq_Panic ATTRIBUTE_FIXED_LEN_def TUID_LEN_def
      field_at_Ok slice_def index_at_def split: if_splits)

section \<open>What the catalog's bodies guarantee\<close>

text \<open>
  Catalog bodies round-trip. Each body within its format's bounds (string and list lengths
  under 65536, 64-bit times, no empty optional blob) is what its encoding decodes to.
\<close>

lemma catalog_round_trips:
  "(layer_ok l \<longrightarrow> layer_decode (layer_encode l) = Ok l) \<and>
   link_type_decode (link_type_encode lt) = Ok lt \<and>
   (link_ok k \<longrightarrow> link_decode (link_encode k) = Ok k) \<and>
   (policy_ok p \<longrightarrow> policy_decode (policy_encode p) = Ok p) \<and>
   (subject_ok s \<longrightarrow> subject_decode (subject_encode s) = Ok s) \<and>
   (entity_type_ok t \<longrightarrow> entity_type_decode (entity_type_encode t) = Ok t)"
  by (simp add: layer_decode_encode link_type_decode_encode link_decode_encode policy_decode_encode
      subject_decode_encode entity_type_decode_encode)

definition sample_layer :: layer_body where
  "sample_layer = \<lparr>group_ref = NIL, dynamic_query = Some [104, 105]\<rparr>"

definition sample_link :: link_body where
  "sample_link = \<lparr>link_source = [NIL], link_target = [NIL, NIL], link_type = NIL, temporality = Temporal,
     link_from = Some (- 3), link_to = None\<rparr>"

definition sample_policy :: policy where
  "sample_policy = \<lparr>target = TARGET_ANY\<lparr>target_kind := Some Link\<rparr>, subject = SUBJECT_ANY, effect = Deny,
     redact_attributes = [9, 4]\<rparr>"

definition sample_subject :: subject_body where
  "sample_subject = \<lparr>subject_kind = User,
     subject_credentials = Some \<lparr>password_hash = Some [1, 2], totp_secret = None\<rparr>, member_of = [NIL]\<rparr>"

definition sample_entity_type :: entity_type_body where
  "sample_entity_type = \<lparr>et_kind = Auxiliary,
     et_attributes = [\<lparr>attribute_id = NIL, required = True, default_value = Some [7]\<rparr>],
     compatible_with = [NIL], incompatible_with = []\<rparr>"

lemma catalog_samples_ok:
  "layer_ok sample_layer" "link_ok sample_link" "policy_ok sample_policy" "subject_ok sample_subject"
  "entity_type_ok sample_entity_type"
  by (simp_all add: layer_ok_def sample_layer_def link_ok_def sample_link_def policy_ok_def
      sample_policy_def subject_ok_def sample_subject_def entity_type_ok_def sample_entity_type_def
      short_text_def short_bytes_def short_tuids_def optional_ok_def optional_i64_ok_def i64_range_def
      credentials_ok_def attribute_ref_ok_def TARGET_ANY_def SUBJECT_ANY_def sample_header_texts)

text \<open>
  Attribute definitions round-trip, up to the cut of the format template to 32 bytes, which
  never splits a character.
\<close>

lemma attribute_round_trip:
  assumes "attribute_ok a"
  shows "attribute_decode (attribute_encode a) =
      Ok (a\<lparr>format_template := truncate_utf8 (format_template a) FORMAT_TEMPLATE_MAX\<rparr>) \<and>
    length (truncate_utf8 (format_template a) FORMAT_TEMPLATE_MAX) \<le> 32 \<and>
    utf8_valid (truncate_utf8 (format_template a) FORMAT_TEMPLATE_MAX)"
  using attribute_decode_encode [OF assms] assms
    length_truncate_utf8 [of "format_template a" FORMAT_TEMPLATE_MAX]
  by (simp add: attribute_ok_def utf8_valid_truncate FORMAT_TEMPLATE_MAX_def)

definition sample_attribute :: attribute_body where
  "sample_attribute = \<lparr>prototype = Currency, attr_cardinality = Multiple, nullable = True, indexed = BTreeIndex,
     validation = \<lparr>val_min = Some 3, val_max = None, regex_ref = NIL, enum_ref = NIL, precision = 2\<rparr>,
     format_template = [104, 105]\<rparr>"

lemma attribute_round_trip_witness:
  "attribute_decode (attribute_encode sample_attribute) = Ok sample_attribute"
proof -
  have "attribute_ok sample_attribute"
    by (simp add: attribute_ok_def sample_attribute_def bound_ok_def sample_header_texts)
  from attribute_round_trip [OF this] show ?thesis
    by (simp add: sample_attribute_def truncate_utf8_def FORMAT_TEMPLATE_MAX_def)
qed

end
