(* ===== verification/Gems_Abac.thy ===== *)
theory Gems_Abac
  imports Gems_Bodies
begin

text \<open>
  The policy decision and enforcement points of \<^verbatim>\<open>gems-abac/src/lib.rs\<close>. A decision
  is deny-overrides with default deny; enforcement filters a result list by it and redacts the
  attributes the permitting policies name. The lemmas characterise the decision completely, show
  that it depends on the set of policies only, and follow the redaction obligation into the
  bodies that come out.
\<close>

record subject_context =
  ctx_subject :: tuid
  ctx_roles :: "tuid list"

datatype decision = DecDeny | DecPermit "nat list"

definition applicable :: "policy list \<Rightarrow> subject_context \<Rightarrow> entity_kind \<Rightarrow> tuid \<Rightarrow> policy list" where
  "applicable ps s k schema =
     filter (\<lambda>p. policy_applies p (ctx_subject s) (ctx_roles s) k schema) ps"

definition evaluate :: "policy list \<Rightarrow> subject_context \<Rightarrow> entity_kind \<Rightarrow> tuid \<Rightarrow> decision" where
  "evaluate ps s k schema =
     (let app = applicable ps s k schema in
      if list_ex (\<lambda>p. effect p = Deny) app then DecDeny
      else if app = [] then DecDeny
      else DecPermit (remdups_adj (sort (concat
             (map redact_attributes (filter (\<lambda>p. effect p = Permit) app))))))"

definition enforce_one ::
  "policy list \<Rightarrow> subject_context \<Rightarrow> entity_header \<times> bytes \<Rightarrow> (entity_header \<times> bytes) option result" where
  "enforce_one ps s = (\<lambda>(header, body).
     case evaluate ps s (hdr_kind header) (schema_ref header) of
       DecDeny \<Rightarrow> Ok None
     | DecPermit attrs \<Rightarrow>
         if attrs = [] then Ok (Some (header, body))
         else case reader_new body of
                Ok r \<Rightarrow> omap (\<lambda>out. Some (header, out)) (gbv_redact r attrs)
              | Err e \<Rightarrow> Ok (Some (header, body))
              | Panic \<Rightarrow> Panic)"

primrec enforce ::
  "policy list \<Rightarrow> subject_context \<Rightarrow> (entity_header \<times> bytes) list \<Rightarrow> (entity_header \<times> bytes) list result" where
  "enforce ps s [] = Ok []"
| "enforce ps s (x # xs) =
     obind (enforce_one ps s x) (\<lambda>y.
     omap (\<lambda>ys. case y of Some z \<Rightarrow> z # ys | None \<Rightarrow> ys) (enforce ps s xs))"

section \<open>The decision\<close>

lemma set_applicable:
  "p \<in> set (applicable ps s k schema) \<longleftrightarrow>
     p \<in> set ps \<and> policy_applies p (ctx_subject s) (ctx_roles s) k schema"
  by (auto simp: applicable_def)

lemma effect_not_Deny: "effect p \<noteq> Deny \<longleftrightarrow> effect p = Permit"
  by (cases "effect p") simp_all

lemma evaluate_permit_iff:
  "(\<exists>attrs. evaluate ps s k schema = DecPermit attrs) \<longleftrightarrow>
     (\<exists>p \<in> set ps. policy_applies p (ctx_subject s) (ctx_roles s) k schema) \<and>
     (\<forall>p \<in> set ps. policy_applies p (ctx_subject s) (ctx_roles s) k schema \<longrightarrow> effect p = Permit)"
proof -
  let ?app = "applicable ps s k schema"
  have "(\<exists>attrs. evaluate ps s k schema = DecPermit attrs) \<longleftrightarrow>
      ?app \<noteq> [] \<and> (\<forall>p \<in> set ?app. effect p = Permit)"
    by (auto simp: evaluate_def Let_def list_ex_iff effect_not_Deny [symmetric])
  moreover have "?app \<noteq> [] \<longleftrightarrow> (\<exists>p \<in> set ps. policy_applies p (ctx_subject s) (ctx_roles s) k schema)"
    by (auto simp: applicable_def filter_empty_conv)
  ultimately show ?thesis by (auto simp: set_applicable)
qed

text \<open>The attributes to redact: the union over the applicable policies, each once, in order.\<close>

lemma sorted_remdups_adj_strict: "sorted xs \<Longrightarrow> sorted (remdups_adj xs) \<and> distinct (remdups_adj xs)"
  by (induction xs rule: remdups_adj.induct) (auto split: if_splits)

lemma evaluate_attrs:
  assumes "evaluate ps s k schema = DecPermit attrs"
  shows "set attrs = (\<Union>p \<in> {p \<in> set ps. policy_applies p (ctx_subject s) (ctx_roles s) k schema}.
      set (redact_attributes p))"
    and "sorted attrs" and "distinct attrs"
proof -
  let ?app = "applicable ps s k schema"
  have all: "\<forall>p \<in> set ?app. effect p = Permit"
    and a: "attrs = remdups_adj (sort (concat (map redact_attributes (filter (\<lambda>p. effect p = Permit) ?app))))"
    using assms by (auto simp: evaluate_def Let_def list_ex_iff effect_not_Deny split: if_splits)
  show "set attrs = (\<Union>p \<in> {p \<in> set ps. policy_applies p (ctx_subject s) (ctx_roles s) k schema}.
      set (redact_attributes p))"
    using all by (auto simp: a set_applicable)
  show "sorted attrs" "distinct attrs" unfolding a by (simp_all add: sorted_remdups_adj_strict)
qed

text \<open>Neither the order of the policies nor repeating one matters.\<close>

lemma evaluate_set_cong:
  assumes "set ps = set qs"
  shows "evaluate ps s k schema = evaluate qs s k schema"
proof (cases "evaluate ps s k schema")
  case DecDeny
  then have "\<not> (\<exists>attrs. evaluate qs s k schema = DecPermit attrs)"
    using evaluate_permit_iff [of ps s k schema] evaluate_permit_iff [of qs s k schema] assms
    by (metis decision.distinct(1))
  with DecDeny show ?thesis by (cases "evaluate qs s k schema") auto
next
  case (DecPermit as)
  then obtain bs where q: "evaluate qs s k schema = DecPermit bs"
    using evaluate_permit_iff [of ps s k schema] evaluate_permit_iff [of qs s k schema] assms by metis
  have "set as = set bs" using evaluate_attrs(1) [OF DecPermit] evaluate_attrs(1) [OF q] assms by simp
  then have "as = bs"
    using evaluate_attrs(2,3) [OF DecPermit] evaluate_attrs(2,3) [OF q] by (metis sorted_distinct_set_unique)
  with DecPermit q show ?thesis by simp
qed

lemma evaluate_deny_added:
  "effect p = Deny \<Longrightarrow> policy_applies p (ctx_subject s) (ctx_roles s) k schema \<Longrightarrow> p \<in> set ps \<Longrightarrow>
     evaluate ps s k schema = DecDeny"
  using evaluate_permit_iff [of ps s k schema] by (cases "evaluate ps s k schema") auto

section \<open>Enforcement\<close>

lemma enforce_one_cases:
  "enforce_one ps s (h, body) = Ok None \<and> evaluate ps s (hdr_kind h) (schema_ref h) = DecDeny \<or>
   (\<exists>attrs out. evaluate ps s (hdr_kind h) (schema_ref h) = DecPermit attrs \<and>
      enforce_one ps s (h, body) = Ok (Some (h, out)) \<and>
      (case reader_new body of
         Ok r \<Rightarrow> if attrs = [] then out = body else gbv_redact r attrs = Ok out
       | _ \<Rightarrow> out = body))"
proof (cases "evaluate ps s (hdr_kind h) (schema_ref h)")
  case DecDeny
  then show ?thesis by (simp add: enforce_one_def)
next
  case (DecPermit attrs)
  show ?thesis
  proof (cases "reader_new body")
    case (Ok r)
    then obtain out where "gbv_redact r attrs = Ok out"
      using gbv_redact_total reader_new_ok by blast
    with DecPermit Ok show ?thesis by (simp add: enforce_one_def)
  qed (use DecPermit reader_new_no_panic in \<open>auto simp: enforce_one_def\<close>)
qed

lemma enforce_total: "\<exists>ys. enforce ps s xs = Ok ys"
proof (induction xs)
  case (Cons x xs)
  obtain h body where "x = (h, body)" by (cases x)
  with Cons enforce_one_cases [of ps s h body] show ?case by auto
qed simp

text \<open>Every entity that comes out went in and is permitted; every permitted one comes out.\<close>

lemma enforce_headers:
  "enforce ps s xs = Ok ys \<Longrightarrow>
     map fst ys = filter (\<lambda>h. evaluate ps s (hdr_kind h) (schema_ref h) \<noteq> DecDeny) (map fst xs)"
proof (induction xs arbitrary: ys)
  case (Cons x xs)
  obtain h body where x: "x = (h, body)" by (cases x)
  from Cons.prems obtain y zs where y: "enforce_one ps s x = Ok y" "enforce ps s xs = Ok zs"
    "ys = (case y of Some z \<Rightarrow> z # zs | None \<Rightarrow> zs)"
    by (auto simp: obind_eq_Ok)
  with Cons.IH [OF y(2)] enforce_one_cases [of ps s h body] x show ?case by auto
qed simp

lemma enforce_origin:
  "enforce ps s xs = Ok ys \<Longrightarrow> (h, out) \<in> set ys \<Longrightarrow>
     \<exists>body. (h, body) \<in> set xs \<and> enforce_one ps s (h, body) = Ok (Some (h, out))"
proof (induction xs arbitrary: ys)
  case (Cons x xs)
  obtain h0 body where x: "x = (h0, body)" by (cases x)
  from Cons.prems obtain y zs where y: "enforce_one ps s x = Ok y" "enforce ps s xs = Ok zs"
    "ys = (case y of Some z \<Rightarrow> z # zs | None \<Rightarrow> zs)"
    by (auto simp: obind_eq_Ok)
  have "y = None \<or> (\<exists>o'. y = Some (h0, o'))"
    using enforce_one_cases [of ps s h0 body] y(1) x by auto
  then consider "(h, out) \<in> set zs" | "y = Some (h, out)" "h = h0"
    using y(3) Cons.prems(2) by fastforce
  then show ?case
  proof cases
    case 1
    from Cons.IH [OF y(2) 1] show ?thesis by auto
  next
    case 2
    with y(1) x show ?thesis by auto
  qed
qed simp

text \<open>A body in GBV form comes out without any field of a redacted attribute.\<close>

lemma enforce_redacts:
  assumes "enforce ps s xs = Ok ys" and "(h, out) \<in> set ys"
    and "p \<in> set ps" and "policy_applies p (ctx_subject s) (ctx_roles s) (hdr_kind h) (schema_ref h)"
    and "key \<in> set (redact_attributes p)"
    and gbv: "\<And>body. (h, body) \<in> set xs \<Longrightarrow> \<exists>r. reader_new body = Ok r"
  shows "\<exists>r. reader_new out = Ok r \<and> gbv_get r key = Ok None"
proof -
  from enforce_origin [OF assms(1,2)] obtain body where
    body: "(h, body) \<in> set xs" "enforce_one ps s (h, body) = Ok (Some (h, out))" by blast
  from gbv [OF body(1)] obtain r where r: "reader_new body = Ok r" by blast
  from enforce_one_cases [of ps s h body] body(2) r obtain attrs where
    e: "evaluate ps s (hdr_kind h) (schema_ref h) = DecPermit attrs"
    and out: "if attrs = [] then out = body else gbv_redact r attrs = Ok out" by auto
  have "key \<in> set attrs" using evaluate_attrs(1) [OF e] assms(3-5) by blast
  then show ?thesis using out gbv_redact_hides [OF r] by (cases "attrs = []") auto
qed

text \<open>A body that is not in GBV form is handed out whole, whatever was to be redacted.\<close>

lemma enforce_one_not_gbv:
  "evaluate ps s (hdr_kind h) (schema_ref h) = DecPermit attrs \<Longrightarrow> reader_new body = Err e \<Longrightarrow>
     enforce_one ps s (h, body) = Ok (Some (h, body))"
  by (simp add: enforce_one_def)

section \<open>What access control guarantees\<close>

definition allow :: "nat list \<Rightarrow> policy" where
  "allow attrs = \<lparr>target = TARGET_ANY, subject = SUBJECT_ANY, effect = Permit, redact_attributes = attrs\<rparr>"

definition deny_kind :: "entity_kind \<Rightarrow> policy" where
  "deny_kind k = \<lparr>target = TARGET_ANY\<lparr>target_kind := Some k\<rparr>, subject = SUBJECT_ANY, effect = Deny,
     redact_attributes = []\<rparr>"

definition nobody :: subject_context where
  "nobody = \<lparr>ctx_subject = NIL, ctx_roles = []\<rparr>"

lemma any_applies:
  "policy_applies (allow attrs) acting roles k schema"
  "policy_applies (deny_kind k') acting roles k schema \<longleftrightarrow> k' = k"
  by (simp_all add: policy_applies_def target_matches_def subject_matches_def TARGET_ANY_def
      SUBJECT_ANY_def allow_def deny_kind_def)

text \<open>
  C12: the decision is deny-overrides with default deny. Access is permitted when some policy
  applies and every one that does permits; what is to be redacted is then the sorted union of
  what the applicable policies name, without duplicates.
\<close>

theorem decision_exact:
  "((\<exists>attrs. evaluate ps s k schema = DecPermit attrs) \<longleftrightarrow>
     (\<exists>p \<in> set ps. policy_applies p (ctx_subject s) (ctx_roles s) k schema) \<and>
     (\<forall>p \<in> set ps. policy_applies p (ctx_subject s) (ctx_roles s) k schema \<longrightarrow> effect p = Permit)) \<and>
   (evaluate ps s k schema = DecPermit attrs \<longrightarrow>
     set attrs = (\<Union>p \<in> {p \<in> set ps. policy_applies p (ctx_subject s) (ctx_roles s) k schema}.
       set (redact_attributes p)) \<and> sorted attrs \<and> distinct attrs)"
  using evaluate_permit_iff [of ps s k schema] evaluate_attrs [of ps s k schema attrs] by blast

lemma decision_exact_witness:
  "evaluate [allow [9, 4], deny_kind Link, allow [4]] nobody Data NIL = DecPermit [4, 9] \<and>
   set [4, 9] = (\<Union>p \<in> {p \<in> set [allow [9, 4], deny_kind Link, allow [4]].
     policy_applies p (ctx_subject nobody) (ctx_roles nobody) Data NIL}. set (redact_attributes p)) \<and>
   \<not> (\<exists>attrs. evaluate [allow [9, 4], deny_kind Link] nobody Link NIL = DecPermit attrs)"
proof -
  have e: "evaluate [allow [9, 4], deny_kind Link, allow [4]] nobody Data NIL = DecPermit [4, 9]"
    by (simp add: evaluate_def applicable_def any_applies) (simp add: allow_def)
  have "effect (deny_kind Link) \<noteq> Permit" by (simp add: deny_kind_def)
  then have "\<not> (\<exists>attrs. evaluate [allow [9, 4], deny_kind Link] nobody Link NIL = DecPermit attrs)"
    using decision_exact [of "[allow [9, 4], deny_kind Link]" nobody Link NIL] by (auto simp: any_applies)
  with e show ?thesis
    using decision_exact [of "[allow [9, 4], deny_kind Link, allow [4]]" nobody Data NIL "[4, 9]"] by blast
qed

text \<open>
  The order and the repetition of policies do not matter to a decision.
\<close>

lemma decision_set_only:
  assumes "set ps = set qs"
  shows "evaluate ps s k schema = evaluate qs s k schema"
  using assms by (rule evaluate_set_cong)

lemma decision_set_only_witness:
  "evaluate [allow [9], allow [4], allow [9]] nobody Data NIL = evaluate [allow [4], allow [9]] nobody Data NIL"
  by (rule decision_set_only) auto

text \<open>
  C11: enforcement filters and redacts. The entities that come out are those access to which is
  permitted, in order; a body in GBV form comes out without any attribute that an applicable
  policy redacts.
\<close>

theorem enforcement_sound:
  "\<exists>ys. enforce ps s xs = Ok ys \<and>
     map fst ys = filter (\<lambda>h. evaluate ps s (hdr_kind h) (schema_ref h) \<noteq> DecDeny) (map fst xs) \<and>
     (\<forall>(h, out) \<in> set ys. \<forall>p \<in> set ps. \<forall>key \<in> set (redact_attributes p).
        policy_applies p (ctx_subject s) (ctx_roles s) (hdr_kind h) (schema_ref h) \<longrightarrow>
        (\<forall>body. (h, body) \<in> set xs \<longrightarrow> (\<exists>r. reader_new body = Ok r)) \<longrightarrow>
        (\<exists>r. reader_new out = Ok r \<and> gbv_get r key = Ok None))"
proof -
  obtain ys where ys: "enforce ps s xs = Ok ys" using enforce_total by blast
  have "\<exists>r. reader_new out = Ok r \<and> gbv_get r key = Ok None"
    if "(h, out) \<in> set ys" "p \<in> set ps" "key \<in> set (redact_attributes p)"
      "policy_applies p (ctx_subject s) (ctx_roles s) (hdr_kind h) (schema_ref h)"
      "\<forall>body. (h, body) \<in> set xs \<longrightarrow> (\<exists>r. reader_new body = Ok r)" for h out p key
    using enforce_redacts [OF ys that(1,2,4,3)] that(5) by blast
  then show ?thesis using ys enforce_headers [OF ys] by blast
qed

lemma enforcement_sound_witness:
  "\<exists>out r. enforce [allow [7]] nobody [(sample_header, builder_finish (gbv_build sample_fields))] =
     Ok [(sample_header, out)] \<and> reader_new out = Ok r \<and> gbv_get r 7 = Ok None"
proof -
  let ?x = "(sample_header, builder_finish (gbv_build sample_fields))"
  obtain ys where ys: "enforce [allow [7]] nobody [?x] = Ok ys"
    "map fst ys = filter (\<lambda>h. evaluate [allow [7]] nobody (hdr_kind h) (schema_ref h) \<noteq> DecDeny) [sample_header]"
    "\<forall>(h, out) \<in> set ys. \<forall>p \<in> set [allow [7]]. \<forall>key \<in> set (redact_attributes p).
       policy_applies p (ctx_subject nobody) (ctx_roles nobody) (hdr_kind h) (schema_ref h) \<longrightarrow>
       (\<forall>body. (h, body) \<in> set [?x] \<longrightarrow> (\<exists>r. reader_new body = Ok r)) \<longrightarrow>
       (\<exists>r. reader_new out = Ok r \<and> gbv_get r key = Ok None)"
    using enforcement_sound [of "[allow [7]]" nobody "[?x]"] by auto
  have "evaluate [allow [7]] nobody k schema \<noteq> DecDeny" for k schema
    by (simp add: evaluate_def applicable_def any_applies) (simp add: allow_def)
  then have "map fst ys = [sample_header]" using ys(2) by simp
  then obtain out where out: "ys = [(sample_header, out)]" by (cases ys) auto
  have "redact_attributes (allow [7]) = [7]" by (simp add: allow_def)
  then obtain r where "reader_new out = Ok r" "gbv_get r 7 = Ok None"
    using ys(3) built_reader [OF sample_fields_ok(1)] by (auto simp: out any_applies)
  with ys(1) out show ?thesis by blast
qed

text \<open>
  Redaction fails open. A body that is not in GBV form is handed out whole, whatever the
  permitting policies say is to be redacted.
\<close>

lemma redaction_fails_open:
  assumes "evaluate ps s (hdr_kind h) (schema_ref h) = DecPermit attrs" and "reader_new body = Err e"
  shows "enforce ps s [(h, body)] = Ok [(h, body)]"
  using enforce_one_not_gbv [OF assms] by simp

end
