(* ===== verification/Gems_Shard.thy ===== *)
theory Gems_Shard
  imports Gems_Record
begin

text \<open>
  Sharding by the leading byte of an entity's id (\<^verbatim>\<open>gems-cluster/src/shard.rs\<close>) and the
  client that walks a shard's members until one accepts. The remote call
  (\<^verbatim>\<open>raft_net::propose_remote\<close>, a TCP exchange) is the argument \<open>remote\<close>.
\<close>

definition router_new :: "nat \<Rightarrow> (unit, nat) outcome" where
  "router_new n = (if n > 0 then Ok n else Panic)"

text \<open>The product is a \<^verbatim>\<open>u32\<close>, so it wraps for a router of more than \<open>2 ^ 24\<close> shards.\<close>

definition shard_of_byte :: "nat \<Rightarrow> nat \<Rightarrow> nat" where
  "shard_of_byte num_shards b = ((b * num_shards) mod 4294967296) div 256"

definition shard_of :: "nat \<Rightarrow> tuid \<Rightarrow> (unit, nat) outcome" where
  "shard_of num_shards i =
     omap (\<lambda>b. shard_of_byte num_shards (unat b)) (index_at (uuid i) 0)"

type_synonym 'addr shard_map = "nat \<rightharpoonup> (nat \<times> 'addr) list"

definition add_member :: "nat \<Rightarrow> nat \<Rightarrow> 'addr \<Rightarrow> 'addr shard_map \<Rightarrow> 'addr shard_map" where
  "add_member shard node addr m =
     m(shard \<mapsto> (case m shard of Some ms \<Rightarrow> ms | None \<Rightarrow> []) @ [(node, addr)])"

definition shard_members :: "'addr shard_map \<Rightarrow> nat \<Rightarrow> (nat \<times> 'addr) list" where
  "shard_members m shard = (case m shard of Some ms \<Rightarrow> ms | None \<Rightarrow> [])"

primrec try_members ::
  "('addr \<Rightarrow> log_record \<Rightarrow> nat option) \<Rightarrow> log_record \<Rightarrow> (nat \<times> 'addr) list \<Rightarrow> nat option" where
  "try_members remote cmd [] = None"
| "try_members remote cmd (x # xs) =
     (case remote (snd x) cmd of Some index \<Rightarrow> Some index | None \<Rightarrow> try_members remote cmd xs)"

definition sharded_propose ::
  "('addr \<Rightarrow> log_record \<Rightarrow> nat option) \<Rightarrow> nat \<Rightarrow> 'addr shard_map \<Rightarrow> tuid \<Rightarrow> log_record \<Rightarrow> nat result" where
  "sharded_propose remote num_shards m i cmd =
     (case shard_of num_shards i of
        Ok shard \<Rightarrow>
          (let ms = shard_members m shard in
           if ms = [] then Err (InvalidValue ''no configured members for this entity's shard'')
           else case try_members remote cmd ms of
                  Some index \<Rightarrow> Ok index
                | None \<Rightarrow> Err (InvalidValue
                    ''no member of this entity's shard accepted the proposal (likely mid-election or the shard is unreachable)''))
      | _ \<Rightarrow> Panic)"

section \<open>The router\<close>

lemma shard_of_byte_nowrap:
  "b < 256 \<Longrightarrow> n \<le> 16777216 \<Longrightarrow> shard_of_byte n b = b * n div 256"
proof -
  assume "b < 256" and "n \<le> 16777216"
  then have "b * n \<le> 255 * 16777216" by (intro mult_le_mono) simp_all
  then show ?thesis by (simp add: shard_of_byte_def)
qed

lemma shard_of_byte_less:
  assumes "b < 256" and "0 < n" and "n \<le> 16777216"
  shows "shard_of_byte n b < n"
proof -
  have "b * n < 256 * n" using assms by simp
  then have "b * n div 256 < n" by (simp add: less_mult_imp_div_less mult.commute)
  with assms show ?thesis by (simp add: shard_of_byte_nowrap)
qed

lemma shard_of_total:
  assumes "wf_tuid i"
  shows "shard_of n i = Ok (shard_of_byte n (unat (uuid i ! 0)))"
  using assms by (simp add: shard_of_def)

text \<open>The bytes of one shard form an interval; up to 256 shards, every shard has one.\<close>

lemma shard_of_byte_mono:
  "b \<le> c \<Longrightarrow> c < 256 \<Longrightarrow> n \<le> 16777216 \<Longrightarrow> shard_of_byte n b \<le> shard_of_byte n c"
  by (simp add: shard_of_byte_nowrap div_le_mono)

definition first_byte :: "nat \<Rightarrow> nat \<Rightarrow> nat" where
  "first_byte n s = (s * 256 + n - 1) div n"

lemma shard_interval:
  assumes "0 < n" and "n \<le> 256" and "b < 256"
  shows "shard_of_byte n b = s \<longleftrightarrow> first_byte n s \<le> b \<and> b < first_byte n (Suc s)"
proof -
  have le: "first_byte n t \<le> b \<longleftrightarrow> t \<le> b * n div 256" for t
  proof -
    have "first_byte n t \<le> b \<longleftrightarrow> (t * 256 + n - 1) div n < Suc b" by (simp add: first_byte_def less_Suc_eq_le)
    also have "\<dots> \<longleftrightarrow> t * 256 + n - 1 < Suc b * n" using assms(1) by (simp add: div_less_iff_less_mult)
    also have "\<dots> \<longleftrightarrow> t * 256 \<le> b * n" using assms(1) by auto
    also have "\<dots> \<longleftrightarrow> t \<le> b * n div 256" by (simp add: less_eq_div_iff_mult_less_eq)
    finally show ?thesis .
  qed
  have "shard_of_byte n b = b * n div 256" using assms by (simp add: shard_of_byte_nowrap)
  then show ?thesis using le [of s] le [of "Suc s"] by auto
qed

text \<open>The sizes of two shards differ by at most one byte value.\<close>

lemma first_byte_steps:
  assumes "0 < n" and "n \<le> 256"
  shows "256 div n \<le> first_byte n (Suc s) - first_byte n s"
    and "first_byte n (Suc s) - first_byte n s \<le> 256 div n + 1"
    and "first_byte n s < first_byte n (Suc s)"
proof -
  define a where "a = s * 256 + n - 1"
  have eq: "Suc s * 256 + n - 1 = a + 256" using assms by (simp add: a_def)
  have "a + 256 = (a + 256 mod n) + 256 div n * n" by (simp add: mod_div_mult_eq)
  then have "(a + 256) div n = 256 div n + (a + 256 mod n) div n"
    using div_mult_self1 [of n "a + 256 mod n" "256 div n"] assms(1) by (simp only:)
  moreover have "a div n \<le> (a + 256 mod n) div n" by (simp add: div_le_mono)
  moreover have "(a + 256 mod n) div n \<le> a div n + 1"
  proof -
    have "256 mod n \<le> n" using assms(1) by (meson less_imp_le mod_less_divisor)
    then have "(a + 256 mod n) div n \<le> (a + n) div n" by (intro div_le_mono) simp
    moreover have "(a + n) div n = a div n + 1" using div_add_self2 [of n a] assms(1) by simp
    ultimately show ?thesis by simp
  qed
  ultimately have *: "first_byte n (Suc s) = 256 div n + (a + 256 mod n) div n"
    "first_byte n s \<le> (a + 256 mod n) div n" "(a + 256 mod n) div n \<le> first_byte n s + 1"
    unfolding first_byte_def eq a_def [symmetric] by simp_all
  then show "256 div n \<le> first_byte n (Suc s) - first_byte n s"
    and "first_byte n (Suc s) - first_byte n s \<le> 256 div n + 1" by simp_all
  have "0 < 256 div n" using assms by (simp add: div_greater_zero_iff)
  with * show "first_byte n s < first_byte n (Suc s)" by simp
qed

lemma card_shard_bytes:
  assumes "0 < n" and "n \<le> 256" and "s < n"
  shows "card {b. b < 256 \<and> shard_of_byte n b = s} = first_byte n (Suc s) - first_byte n s"
proof -
  have top: "first_byte n (Suc s) \<le> 256"
  proof -
    have "Suc s * 256 + n - 1 < 257 * n"
    proof -
      have "Suc s * 256 \<le> n * 256" using assms by (intro mult_le_mono1) simp
      then show ?thesis using assms by simp
    qed
    then have "(Suc s * 256 + n - 1) div n < 257" using assms by (simp add: div_less_iff_less_mult)
    then show ?thesis by (simp add: first_byte_def)
  qed
  have "{b. b < 256 \<and> shard_of_byte n b = s} = {first_byte n s..<first_byte n (Suc s)}"
  proof (rule set_eqI)
    fix b
    show "b \<in> {b. b < 256 \<and> shard_of_byte n b = s} \<longleftrightarrow> b \<in> {first_byte n s..<first_byte n (Suc s)}"
      using shard_interval [OF assms(1,2), of b s] top by (cases "b < 256") simp_all
  qed
  then show ?thesis by simp
qed

section \<open>The client\<close>

lemma try_members_none: "try_members remote cmd ms = None \<longleftrightarrow> (\<forall>x \<in> set ms. remote (snd x) cmd = None)"
  by (induction ms) (auto split: option.split)

text \<open>The answer is the first acceptance in configuration order.\<close>

definition first_accept ::
  "('addr \<Rightarrow> log_record \<Rightarrow> nat option) \<Rightarrow> log_record \<Rightarrow> (nat \<times> 'addr) list \<Rightarrow> nat \<Rightarrow> bool" where
  "first_accept remote cmd ms index \<longleftrightarrow>
     (\<exists>before x after. ms = before @ x # after \<and> remote (snd x) cmd = Some index \<and>
        (\<forall>y \<in> set before. remote (snd y) cmd = None))"

lemma first_accept_Cons:
  "first_accept remote cmd (a # ms) index \<longleftrightarrow>
     (case remote (snd a) cmd of Some i \<Rightarrow> i = index | None \<Rightarrow> first_accept remote cmd ms index)"
proof (cases "remote (snd a) cmd")
  case None
  have "first_accept remote cmd (a # ms) index" if "first_accept remote cmd ms index"
  proof -
    from that obtain before x after where "ms = before @ x # after" "remote (snd x) cmd = Some index"
      "\<forall>y \<in> set before. remote (snd y) cmd = None" unfolding first_accept_def by blast
    with None show ?thesis
      unfolding first_accept_def by (intro exI [of _ "a # before"] exI [of _ x] exI [of _ after]) simp
  qed
  moreover have "first_accept remote cmd ms index" if "first_accept remote cmd (a # ms) index"
  proof -
    from that obtain before x after where "a # ms = before @ x # after" "remote (snd x) cmd = Some index"
      "\<forall>y \<in> set before. remote (snd y) cmd = None" unfolding first_accept_def by blast
    moreover from this None obtain before' where "before = a # before'" by (cases before) auto
    ultimately show ?thesis
      unfolding first_accept_def by (intro exI [of _ before'] exI [of _ x] exI [of _ after]) simp
  qed
  ultimately show ?thesis using None by auto
next
  case (Some i)
  have "i = index" if "first_accept remote cmd (a # ms) index"
  proof -
    from that obtain before x after where "a # ms = before @ x # after" "remote (snd x) cmd = Some index"
      "\<forall>y \<in> set before. remote (snd y) cmd = None" unfolding first_accept_def by blast
    with Some show ?thesis by (cases before) auto
  qed
  moreover have "first_accept remote cmd (a # ms) i"
    unfolding first_accept_def by (intro exI [of _ "[]"] exI [of _ a] exI [of _ ms]) (simp add: Some)
  ultimately show ?thesis using Some by auto
qed

lemma try_members_first: "try_members remote cmd ms = Some index \<longleftrightarrow> first_accept remote cmd ms index"
proof (induction ms)
  case (Cons a ms)
  then show ?case by (simp add: first_accept_Cons split: option.split)
qed (simp add: first_accept_def)

lemma shard_members_add:
  "shard_members (add_member shard node addr m) s =
     (if s = shard then shard_members m s @ [(node, addr)] else shard_members m s)"
  by (simp add: shard_members_def add_member_def)

lemma sharded_propose_first:
  assumes "wf_tuid i"
  shows "sharded_propose remote n m i cmd = Ok index \<longleftrightarrow>
    first_accept remote cmd (shard_members m (shard_of_byte n (unat (uuid i ! 0)))) index"
  unfolding try_members_first [symmetric]
  by (auto simp: sharded_propose_def shard_of_total [OF assms] Let_def split: option.split)

section \<open>What the router and the client guarantee\<close>

text \<open>
  Shards are intervals of equal size. With up to 256 shards the leading bytes of a shard are
  an interval, no shard is empty, and two shards differ by at most one byte value.
\<close>

lemma shards_balanced:
  assumes "0 < n" and "n \<le> 256" and "s < n" and "b < 256"
  shows "(shard_of_byte n b = s \<longleftrightarrow> first_byte n s \<le> b \<and> b < first_byte n (Suc s)) \<and>
    card {b. b < 256 \<and> shard_of_byte n b = s} \<in> {256 div n, 256 div n + 1}"
proof -
  have "card {b. b < 256 \<and> shard_of_byte n b = s} = first_byte n (Suc s) - first_byte n s"
    using card_shard_bytes assms(1-3) by blast
  moreover have "first_byte n (Suc s) - first_byte n s \<in> {256 div n, 256 div n + 1}"
    using first_byte_steps [OF assms(1,2), of s] by simp linarith
  ultimately show ?thesis using shard_interval [OF assms(1,2,4)] by simp
qed

lemma shards_balanced_witness:
  "shard_of_byte 3 86 = 1 \<and> card {b. b < 256 \<and> shard_of_byte 3 b = 1} \<in> {85, 86}"
  using shards_balanced [of 3 1 86] by (simp add: first_byte_def)

text \<open>
  A proposal goes to the entity's shard. It succeeds with the answer of the first member, in
  configuration order, of the shard the id's leading byte selects, that accepts it.
\<close>

lemma propose_first_accepting:
  assumes "wf_tuid i"
  shows "sharded_propose remote n m i cmd = Ok index \<longleftrightarrow>
    first_accept remote cmd (shard_members m (shard_of_byte n (unat (uuid i ! 0)))) index"
  using assms by (rule sharded_propose_first)

definition only_b :: "string \<Rightarrow> log_record \<Rightarrow> nat option" where
  "only_b addr cmd = (if addr = ''b'' then Some 5 else None)"

lemma propose_first_accepting_witness:
  "sharded_propose only_b 1 (add_member 0 2 ''b'' (add_member 0 1 ''a'' Map.empty)) NIL (Delete NIL) = Ok 5"
proof -
  have "first_accept only_b (Delete NIL) [(1, ''a''), (2, ''b'')] 5"
    by (simp add: first_accept_Cons only_b_def)
  moreover have "shard_members Map.empty 0 = ([] :: (nat \<times> string) list)" by (simp add: shard_members_def)
  moreover have "wf_tuid NIL" "unat (uuid NIL ! 0) = 0"
    by (simp_all add: NIL_def wf_tuid_def TUID_LEN_def uuid_def)
  ultimately show ?thesis
    using propose_first_accepting [of NIL only_b 1] by (simp add: shard_members_add shard_of_byte_def)
qed

end
