(* ===== verification/Gems_Subscribe.thy ===== *)
theory Gems_Subscribe
  imports Gems_Record Gems_Gbv
begin

text \<open>
  Change notification (\<^verbatim>\<open>gems-subscribe\<close>): point watches (\<^verbatim>\<open>watch.rs\<close>), materialised
  counts (\<^verbatim>\<open>view.rs\<close>), the hub that feeds records to both (\<^verbatim>\<open>hub.rs\<close>) and the
  tailer that reads a replication log (\<^verbatim>\<open>tailer.rs\<close>). The order in which a
  \<^verbatim>\<open>HashMap\<close> is visited is the parameter \<open>visit\<close>, a listing of a set of keys;
  \<open>lists_keys\<close> is all that is known of it.

  The main lemma is that incremental maintenance computes what a scan of the whole record
  history would: \<open>hub_feed_views\<close>. The point watches have a flaw that is proved rather than
  worked around: of two subscriptions to one attribute only the first visited is notified.
\<close>

definition lists_keys :: "(nat set \<Rightarrow> nat list) \<Rightarrow> bool" where
  "lists_keys visit \<longleftrightarrow> (\<forall>S. finite S \<longrightarrow> distinct (visit S) \<and> set (visit S) = S)"

text \<open>\<^verbatim>\<open>GbvReader::new(body)\<close>, then \<^verbatim>\<open>get\<close>; neither panics on any body.\<close>

definition body_field :: "bytes \<Rightarrow> nat \<Rightarrow> bytes option" where
  "body_field body attr =
     (case reader_new body of
        Ok r \<Rightarrow> (case gbv_get r attr of Ok (Some (tag, v)) \<Rightarrow> Some v | _ \<Rightarrow> None)
      | _ \<Rightarrow> None)"

section \<open>Views\<close>

datatype view_predicate =
    KindIs entity_kind
  | SchemaIs tuid
  | AttributeEquals nat bytes

fun view_matches :: "view_predicate \<Rightarrow> entity_header \<Rightarrow> bytes \<Rightarrow> bool" where
  "view_matches (KindIs k) header body = (hdr_kind header = k)"
| "view_matches (SchemaIs t) header body = (schema_ref header = t)"
| "view_matches (AttributeEquals attr v) header body = (body_field body attr = Some v)"

record count_view =
  predicate :: view_predicate
  view_members :: "tuid set"

record view_engine =
  views :: "nat \<rightharpoonup> count_view"
  next_view :: nat

definition view_engine_new :: view_engine where
  "view_engine_new = \<lparr> views = Map.empty, next_view = 0 \<rparr>"

definition create_view :: "view_predicate \<Rightarrow> view_engine \<Rightarrow> view_engine \<times> nat" where
  "create_view p e =
     (\<lparr> views = (views e)(next_view e \<mapsto> \<lparr> predicate = p, view_members = {} \<rparr>),
        next_view = wrap64 (next_view e + 1) \<rparr>, next_view e)"

definition drop_view :: "nat \<Rightarrow> view_engine \<Rightarrow> view_engine \<times> bool" where
  "drop_view i e = (e\<lparr>views := (views e)(i := None)\<rparr>, views e i \<noteq> None)"

definition view_count :: "view_engine \<Rightarrow> nat \<Rightarrow> nat option" where
  "view_count e i = map_option (\<lambda>v. card (view_members v)) (views e i)"

text \<open>One record against one view: the view, and whether its membership changed.\<close>

fun view_apply :: "log_record \<Rightarrow> count_view \<Rightarrow> count_view \<times> bool" where
  "view_apply (Delete i) v =
     (if i \<in> view_members v then (v\<lparr>view_members := view_members v - {i}\<rparr>, True) else (v, False))"
| "view_apply (Insert header body) v =
     (let matches = view_matches (predicate v) header body;
          was_member = hdr_id header \<in> view_members v
      in if matches \<and> \<not> was_member
         then (v\<lparr>view_members := insert (hdr_id header) (view_members v)\<rparr>, True)
         else if \<not> matches \<and> was_member
         then (v\<lparr>view_members := view_members v - {hdr_id header}\<rparr>, True)
         else (v, False))"

primrec views_loop ::
  "log_record \<Rightarrow> nat list \<Rightarrow> view_engine \<Rightarrow> view_engine \<times> (nat \<times> nat) list" where
  "views_loop r [] e = (e, [])"
| "views_loop r (i # is) e =
     (case views e i of
        None \<Rightarrow> views_loop r is e
      | Some v \<Rightarrow>
          (case view_apply r v of (v', changed) \<Rightarrow>
           case views_loop r is (e\<lparr>views := (views e)(i \<mapsto> v')\<rparr>) of (e', out) \<Rightarrow>
             (e', if changed then (i, card (view_members v')) # out else out)))"

definition views_process ::
  "(nat set \<Rightarrow> nat list) \<Rightarrow> log_record \<Rightarrow> view_engine \<Rightarrow> view_engine \<times> (nat \<times> nat) list" where
  "views_process visit r e = views_loop r (visit (dom (views e))) e"

section \<open>Point watches\<close>

datatype watch =
    EntityDeleted tuid
  | AttributeChanged tuid nat
  | AnyChange tuid
  | ViewChanged nat

datatype notification_kind =
    Deleted
  | Touched
  | FieldChanged nat bytes
  | ViewCountChanged nat

type_synonym notification = "nat \<times> notification_kind"

record subscription_engine =
  watches :: "nat \<rightharpoonup> watch"
  next_sub :: nat
  field_cache :: "tuid \<times> nat \<rightharpoonup> bytes"

definition subscription_engine_new :: subscription_engine where
  "subscription_engine_new = \<lparr> watches = Map.empty, next_sub = 0, field_cache = Map.empty \<rparr>"

definition subscribe :: "watch \<Rightarrow> subscription_engine \<Rightarrow> subscription_engine \<times> nat" where
  "subscribe w e =
     (e\<lparr>watches := (watches e)(next_sub e \<mapsto> w), next_sub := wrap64 (next_sub e + 1)\<rparr>, next_sub e)"

definition unsubscribe :: "nat \<Rightarrow> subscription_engine \<Rightarrow> subscription_engine \<times> bool" where
  "unsubscribe i e = (e\<lparr>watches := (watches e)(i := None)\<rparr>, watches e i \<noteq> None)"

text \<open>\<open>filter_map\<close> over the watches, in visiting order.\<close>

definition collect ::
  "(nat set \<Rightarrow> nat list) \<Rightarrow> subscription_engine \<Rightarrow> (watch \<Rightarrow> notification_kind option) \<Rightarrow> notification list" where
  "collect visit e f =
     concat (map (\<lambda>i. case watches e i of
                        None \<Rightarrow> []
                      | Some w \<Rightarrow> (case f w of Some k \<Rightarrow> [(i, k)] | None \<Rightarrow> []))
               (visit (dom (watches e))))"

definition notify_view_changed ::
  "(nat set \<Rightarrow> nat list) \<Rightarrow> nat \<Rightarrow> nat \<Rightarrow> subscription_engine \<Rightarrow> notification list" where
  "notify_view_changed visit view new_count e =
     collect visit e (\<lambda>w. case w of ViewChanged v \<Rightarrow>
       if v = view then Some (ViewCountChanged new_count) else None | _ \<Rightarrow> None)"

definition process_delete :: "(nat set \<Rightarrow> nat list) \<Rightarrow> tuid \<Rightarrow> subscription_engine \<Rightarrow> notification list" where
  "process_delete visit deleted e =
     collect visit e (\<lambda>w. case w of
         EntityDeleted i \<Rightarrow> if i = deleted then Some Deleted else None
       | AnyChange i \<Rightarrow> if i = deleted then Some Deleted else None
       | _ \<Rightarrow> None)"

definition watch_insert ::
  "tuid \<Rightarrow> bytes \<Rightarrow> watch \<Rightarrow> (tuid \<times> nat \<rightharpoonup> bytes) \<Rightarrow> (tuid \<times> nat \<rightharpoonup> bytes) \<times> notification_kind option" where
  "watch_insert entity body w cache =
     (case w of
        AnyChange i \<Rightarrow> (cache, if i = entity then Some Touched else None)
      | AttributeChanged i attr \<Rightarrow>
          (if i = entity then
             case body_field body attr of
               None \<Rightarrow> (cache, None)
             | Some v \<Rightarrow>
                 (cache((i, attr) \<mapsto> v),
                  case cache (i, attr) of
                    Some old \<Rightarrow> if old \<noteq> v then Some (FieldChanged attr v) else None
                  | None \<Rightarrow> None)
           else (cache, None))
      | _ \<Rightarrow> (cache, None))"

primrec insert_loop ::
  "tuid \<Rightarrow> bytes \<Rightarrow> (nat \<times> watch) list \<Rightarrow> (tuid \<times> nat \<rightharpoonup> bytes) \<Rightarrow>
     (tuid \<times> nat \<rightharpoonup> bytes) \<times> notification list" where
  "insert_loop entity body [] cache = (cache, [])"
| "insert_loop entity body (x # xs) cache =
     (case watch_insert entity body (snd x) cache of (cache', got) \<Rightarrow>
      case insert_loop entity body xs cache' of (cache'', out) \<Rightarrow>
        (cache'', case got of Some k \<Rightarrow> (fst x, k) # out | None \<Rightarrow> out))"

definition watch_list :: "(nat set \<Rightarrow> nat list) \<Rightarrow> subscription_engine \<Rightarrow> (nat \<times> watch) list" where
  "watch_list visit e =
     concat (map (\<lambda>i. case watches e i of Some w \<Rightarrow> [(i, w)] | None \<Rightarrow> []) (visit (dom (watches e))))"

definition process_insert ::
  "(nat set \<Rightarrow> nat list) \<Rightarrow> tuid \<Rightarrow> bytes \<Rightarrow> subscription_engine \<Rightarrow>
     subscription_engine \<times> notification list" where
  "process_insert visit entity body e =
     (case insert_loop entity body (watch_list visit e) (field_cache e) of (cache, out) \<Rightarrow>
        (e\<lparr>field_cache := cache\<rparr>, out))"

fun watches_process ::
  "(nat set \<Rightarrow> nat list) \<Rightarrow> log_record \<Rightarrow> subscription_engine \<Rightarrow>
     subscription_engine \<times> notification list" where
  "watches_process visit (Delete i) e = (e, process_delete visit i e)"
| "watches_process visit (Insert header body) e = process_insert visit (hdr_id header) body e"

section \<open>The hub and the tailer\<close>

record hub =
  subscriptions :: subscription_engine
  hub_views :: view_engine

definition hub_process ::
  "(nat set \<Rightarrow> nat list) \<Rightarrow> log_record \<Rightarrow> hub \<Rightarrow> hub \<times> notification list" where
  "hub_process visit r h =
     (case watches_process visit r (subscriptions h) of (s', out) \<Rightarrow>
      case views_process visit r (hub_views h) of (v', changed) \<Rightarrow>
        (\<lparr> subscriptions = s', hub_views = v' \<rparr>,
         out @ concat (map (\<lambda>(view, n). notify_view_changed visit view n s') changed)))"

primrec hub_feed ::
  "(nat set \<Rightarrow> nat list) \<Rightarrow> log_record list \<Rightarrow> hub \<Rightarrow> hub \<times> notification list" where
  "hub_feed visit [] h = (h, [])"
| "hub_feed visit (r # rs) h =
     (case hub_process visit r h of (h1, out1) \<Rightarrow>
      case hub_feed visit rs h1 of (h2, out2) \<Rightarrow> (h2, out1 @ out2))"

text \<open>\<open>poll\<close>: the log file, the persisted offset, the hub; gives the new offset as well.\<close>

definition tailer_poll ::
  "(nat set \<Rightarrow> nat list) \<Rightarrow> log_file \<Rightarrow> nat \<Rightarrow> hub \<Rightarrow> (nat \<times> hub \<times> notification list) result" where
  "tailer_poll visit f offset h =
     omap (\<lambda>(records, new_offset). (new_offset, hub_feed visit records h)) (read_from f offset)"

section \<open>Views hold what a scan of the history would find\<close>

text \<open>The entities that exist after a history of records, with their last header and body.\<close>

fun history_step :: "log_record \<Rightarrow> (tuid \<rightharpoonup> entity_header \<times> bytes) \<Rightarrow> (tuid \<rightharpoonup> entity_header \<times> bytes)" where
  "history_step (Insert header body) m = m(hdr_id header \<mapsto> (header, body))"
| "history_step (Delete i) m = m(i := None)"

definition live_entities :: "log_record list \<Rightarrow> (tuid \<rightharpoonup> entity_header \<times> bytes)" where
  "live_entities rs = fold history_step rs Map.empty"

definition matching :: "view_predicate \<Rightarrow> (tuid \<rightharpoonup> entity_header \<times> bytes) \<Rightarrow> tuid set" where
  "matching p m = {i. \<exists>h b. m i = Some (h, b) \<and> view_matches p h b}"

lemma view_apply_exact:
  "view_members v = matching (predicate v) m \<Longrightarrow>
     view_members (fst (view_apply r v)) = matching (predicate v) (history_step r m) \<and>
     predicate (fst (view_apply r v)) = predicate v"
  by (cases r) (auto simp: matching_def Let_def split: if_splits)

lemma view_apply_changed: "snd (view_apply r v) \<longleftrightarrow> view_members (fst (view_apply r v)) \<noteq> view_members v"
  by (cases r) (auto simp: Let_def)

lemma views_loop_views:
  "distinct is \<Longrightarrow> views (fst (views_loop r is e)) i =
     (if i \<in> set is then map_option (\<lambda>v. fst (view_apply r v)) (views e i) else views e i)"
  by (induction "is" arbitrary: e) (auto simp: case_prod_beta split: option.split)

lemma views_loop_out:
  "distinct is \<Longrightarrow> (i, n) \<in> set (snd (views_loop r is e)) \<longleftrightarrow>
     i \<in> set is \<and> (\<exists>v. views e i = Some v \<and> snd (view_apply r v) \<and>
       n = card (view_members (fst (view_apply r v))))"
proof (induction "is" arbitrary: e)
  case (Cons j js)
  show ?case
  proof (cases "views e j")
    case None
    with Cons show ?thesis by auto
  next
    case (Some v)
    let ?e1 = "e\<lparr>views := (views e)(j \<mapsto> fst (view_apply r v))\<rparr>"
    have "(i, n) \<in> set (snd (views_loop r (j # js) e)) \<longleftrightarrow>
        (snd (view_apply r v) \<and> i = j \<and> n = card (view_members (fst (view_apply r v)))) \<or>
        (i, n) \<in> set (snd (views_loop r js ?e1))"
      using Some by (auto simp: case_prod_beta)
    with Cons Some show ?thesis by auto
  qed
qed simp

definition engine_ok :: "view_engine \<Rightarrow> (tuid \<rightharpoonup> entity_header \<times> bytes) \<Rightarrow> bool" where
  "engine_ok e m \<longleftrightarrow> finite (dom (views e)) \<and>
     (\<forall>i v. views e i = Some v \<longrightarrow> view_members v = matching (predicate v) m)"

lemma views_process_views:
  assumes "lists_keys visit" and "finite (dom (views e))"
  shows "views (fst (views_process visit r e)) i = map_option (\<lambda>v. fst (view_apply r v)) (views e i)"
proof -
  have "distinct (visit (dom (views e)))" "set (visit (dom (views e))) = dom (views e)"
    using assms by (simp_all add: lists_keys_def)
  then show ?thesis
    unfolding views_process_def by (cases "views e i") (auto simp: views_loop_views)
qed

lemma views_process_ok:
  assumes "lists_keys visit" and "engine_ok e m"
  shows "engine_ok (fst (views_process visit r e)) (history_step r m)"
proof -
  have fin: "finite (dom (views e))" using assms(2) by (simp add: engine_ok_def)
  note v = views_process_views [OF assms(1) fin]
  have "dom (views (fst (views_process visit r e))) = dom (views e)" by (auto simp: v)
  then show ?thesis
    using assms(2) fin view_apply_exact by (auto simp: engine_ok_def v)
qed

lemma views_process_notified:
  assumes "lists_keys visit" and "finite (dom (views e))"
  shows "(i, n) \<in> set (snd (views_process visit r e)) \<longleftrightarrow>
    (\<exists>v v'. views e i = Some v \<and> views (fst (views_process visit r e)) i = Some v' \<and>
       view_members v' \<noteq> view_members v \<and> n = card (view_members v'))"
proof -
  have "distinct (visit (dom (views e)))" "set (visit (dom (views e))) = dom (views e)"
    using assms by (auto simp: lists_keys_def)
  then have "(i, n) \<in> set (snd (views_process visit r e)) \<longleftrightarrow>
      (\<exists>v. views e i = Some v \<and> snd (view_apply r v) \<and> n = card (view_members (fst (view_apply r v))))"
    unfolding views_process_def by (simp add: views_loop_out) blast
  then show ?thesis
    unfolding views_process_views [OF assms] by (auto simp: view_apply_changed)
qed

lemma hub_process_views: "hub_views (fst (hub_process visit r h)) = fst (views_process visit r (hub_views h))"
  by (simp add: hub_process_def split: prod.split)

lemma hub_feed_views:
  "lists_keys visit \<Longrightarrow> engine_ok (hub_views h) m \<Longrightarrow>
     engine_ok (hub_views (fst (hub_feed visit rs h))) (fold history_step rs m)"
proof (induction rs arbitrary: h m)
  case (Cons r rs)
  obtain h1 out where h1: "hub_process visit r h = (h1, out)" by (cases "hub_process visit r h")
  have "engine_ok (hub_views h1) (history_step r m)"
    using views_process_ok [OF Cons.prems] hub_process_views [of visit r h] h1 by simp
  from Cons.IH [OF Cons.prems(1) this] show ?case by (simp add: h1 case_prod_beta)
qed simp

lemma view_predicate_kept:
  "lists_keys visit \<Longrightarrow> finite (dom (views (hub_views h))) \<Longrightarrow> views (hub_views h) i = Some v \<Longrightarrow>
     \<exists>v'. views (hub_views (fst (hub_feed visit rs h))) i = Some v' \<and> predicate v' = predicate v"
proof (induction rs arbitrary: h v)
  case (Cons r rs)
  obtain h1 out where h1: "hub_process visit r h = (h1, out)" by (cases "hub_process visit r h")
  have v: "views (hub_views h1) j = map_option (\<lambda>v. fst (view_apply r v)) (views (hub_views h) j)" for j
    using views_process_views [OF Cons.prems(1,2)] hub_process_views [of visit r h] h1 by simp
  have "dom (views (hub_views h1)) = dom (views (hub_views h))" by (auto simp: v)
  moreover have "predicate (fst (view_apply r v)) = predicate v" by (cases r) (simp_all add: Let_def)
  ultimately show ?case
    using Cons.IH [OF Cons.prems(1), of h1 "fst (view_apply r v)"] Cons.prems v [of i]
    by (simp add: h1 case_prod_beta)
qed simp

section \<open>Who is notified\<close>

lemma collect_in:
  assumes "lists_keys visit" and "finite (dom (watches e))"
  shows "(i, k) \<in> set (collect visit e f) \<longleftrightarrow> (\<exists>w. watches e i = Some w \<and> f w = Some k)"
proof -
  have v: "set (visit (dom (watches e))) = dom (watches e)" using assms by (simp add: lists_keys_def)
  let ?one = "\<lambda>j. case watches e j of None \<Rightarrow> []
      | Some w \<Rightarrow> (case f w of Some k \<Rightarrow> [(j, k)] | None \<Rightarrow> [])"
  have one: "(i, k) \<in> set (?one j) \<longleftrightarrow> j = i \<and> (\<exists>w. watches e i = Some w \<and> f w = Some k)" for j
    by (cases "watches e j"; cases "f (the (watches e j))") auto
  have "(i, k) \<in> set (collect visit e f) \<longleftrightarrow> (\<exists>j \<in> dom (watches e). (i, k) \<in> set (?one j))"
    unfolding collect_def using v by simp
  then show ?thesis unfolding one by auto
qed

lemma process_delete_exact:
  assumes "lists_keys visit" and "finite (dom (watches e))"
  shows "(i, k) \<in> set (process_delete visit d e) \<longleftrightarrow>
    k = Deleted \<and> (watches e i = Some (EntityDeleted d) \<or> watches e i = Some (AnyChange d))"
proof -
  have "(case w of EntityDeleted i \<Rightarrow> if i = d then Some Deleted else None
      | AnyChange i \<Rightarrow> if i = d then Some Deleted else None | _ \<Rightarrow> None) = Some k \<longleftrightarrow>
    k = Deleted \<and> (w = EntityDeleted d \<or> w = AnyChange d)" for w
    by (cases w) auto
  then show ?thesis unfolding process_delete_def collect_in [OF assms] by auto
qed

lemma insert_loop_in:
  "(i, k) \<in> set (snd (insert_loop entity body ws cache)) \<Longrightarrow>
     \<exists>w cache'. (i, w) \<in> set ws \<and> snd (watch_insert entity body w cache') = Some k"
proof (induction ws arbitrary: cache)
  case (Cons x xs)
  obtain c got where 1: "watch_insert entity body (snd x) cache = (c, got)"
    by (cases "watch_insert entity body (snd x) cache")
  obtain c' out where 2: "insert_loop entity body xs c = (c', out)"
    by (cases "insert_loop entity body xs c")
  from Cons.prems 1 2 have "(got = Some k \<and> i = fst x) \<or> (i, k) \<in> set out"
    by (auto split: option.splits)
  then show ?case
  proof
    assume "got = Some k \<and> i = fst x"
    with 1 show ?thesis by (intro exI [of _ "snd x"] exI [of _ cache]) simp
  next
    assume "(i, k) \<in> set out"
    with Cons.IH [of c] 2 show ?thesis by auto
  qed
qed simp

lemma watch_insert_cache:
  assumes "body_field body attr = Some v" and "cache (entity, attr) = Some v"
  shows "fst (watch_insert entity body w cache) (entity, attr) = Some v"
  using assms by (auto simp: watch_insert_def split: watch.split option.split)

text \<open>Once the new value is in the cache, no watch on the attribute fires any more.\<close>

lemma insert_loop_silent:
  "body_field body attr = Some v \<Longrightarrow> cache (entity, attr) = Some v \<Longrightarrow>
     (i, k) \<in> set (snd (insert_loop entity body ws cache)) \<Longrightarrow>
     \<exists>w. (i, w) \<in> set ws \<and> w \<noteq> AttributeChanged entity attr"
proof (induction ws arbitrary: cache)
  case (Cons x xs)
  obtain c got where 1: "watch_insert entity body (snd x) cache = (c, got)"
    by (cases "watch_insert entity body (snd x) cache")
  obtain c' out where 2: "insert_loop entity body xs c = (c', out)"
    by (cases "insert_loop entity body xs c")
  have c: "c (entity, attr) = Some v" using watch_insert_cache [of body attr v cache entity "snd x"] Cons.prems(1,2) 1 by simp
  from Cons.prems(3) 1 2 have "(got = Some k \<and> i = fst x) \<or> (i, k) \<in> set out"
    by (auto split: option.splits)
  then show ?case
  proof
    assume g: "got = Some k \<and> i = fst x"
    then have "snd x \<noteq> AttributeChanged entity attr"
      using 1 Cons.prems(1,2) by (auto simp: watch_insert_def)
    with g show ?thesis by (intro exI [of _ "snd x"]) (cases x, auto)
  next
    assume "(i, k) \<in> set out"
    with Cons.IH [of c] Cons.prems(1) c 2 show ?thesis by auto
  qed
qed simp

definition watches_of :: "watch \<Rightarrow> (nat \<times> watch) list \<Rightarrow> nat set" where
  "watches_of w ws = {i. (i, w) \<in> set ws}"

lemma insert_loop_one:
  assumes "distinct (map fst ws)" and "body_field body attr = Some v"
  shows "(i, k) \<in> set (snd (insert_loop entity body ws cache)) \<Longrightarrow>
    (j, l) \<in> set (snd (insert_loop entity body ws cache)) \<Longrightarrow>
    (i, AttributeChanged entity attr) \<in> set ws \<Longrightarrow> (j, AttributeChanged entity attr) \<in> set ws \<Longrightarrow> i = j"
  using assms(1)
proof (induction ws arbitrary: cache)
  case (Cons x xs)
  let ?w = "AttributeChanged entity attr"
  obtain c got where 1: "watch_insert entity body (snd x) cache = (c, got)"
    by (cases "watch_insert entity body (snd x) cache")
  obtain c' out where 2: "insert_loop entity body xs c = (c', out)"
    by (cases "insert_loop entity body xs c")
  have keys: "fst x \<notin> fst ` set xs" "distinct (map fst xs)" using Cons.prems by auto
  have in_out: "(a, m) \<in> set out" if "(a, m) \<in> set (snd (insert_loop entity body (x # xs) cache))" "a \<noteq> fst x" for a m
    using that 1 2 by (auto split: option.splits)
  have in_xs: "(a, ?w) \<in> set xs" if "(a, ?w) \<in> set (x # xs)" "a \<noteq> fst x" for a using that by auto
  show ?case
  proof (cases "snd x = ?w")
    case False
    have "a \<noteq> fst x" if "(a, ?w) \<in> set (x # xs)" for a
      using that False keys(1) by (cases x) force
    then show ?thesis
      using Cons.IH [of c] Cons.prems(1-4) keys(2) in_out in_xs 2 by (metis snd_conv)
  next
    case True
    then have c: "c (entity, attr) = Some v" using 1 assms(2) by (auto simp: watch_insert_def)
    have "a = fst x" if "(a, m) \<in> set (snd (insert_loop entity body (x # xs) cache))"
      "(a, ?w) \<in> set (x # xs)" for a m
    proof (rule ccontr)
      assume ne: "a \<noteq> fst x"
      then have "(a, m) \<in> set (snd (insert_loop entity body xs c))" using in_out [OF that(1)] 2 by simp
      from insert_loop_silent [OF assms(2) c this] obtain w where "(a, w) \<in> set xs" "w \<noteq> ?w" by blast
      moreover have "(a, ?w) \<in> set xs" using in_xs [OF that(2) ne] .
      ultimately show False using keys(2) by (meson eq_key_imp_eq_value)
    qed
    then show ?thesis using Cons.prems(1-4) by blast
  qed
qed simp

lemma listed_keys:
  "distinct is \<Longrightarrow>
     distinct (map fst (concat (map (\<lambda>i. case m i of Some w \<Rightarrow> [(i, w)] | None \<Rightarrow> []) is))) \<and>
     fst ` set (concat (map (\<lambda>i. case m i of Some w \<Rightarrow> [(i, w)] | None \<Rightarrow> []) is)) \<subseteq> set is"
proof (induction "is")
  case (Cons i "is")
  then show ?case by (cases "m i") (auto simp del: set_concat)
qed simp

lemma watch_list_keys:
  assumes "lists_keys visit" and "finite (dom (watches e))"
  shows "distinct (map fst (watch_list visit e))"
  using assms listed_keys [of "visit (dom (watches e))" "watches e"]
  by (simp add: lists_keys_def watch_list_def)

lemma watch_list_set:
  "lists_keys visit \<Longrightarrow> finite (dom (watches e)) \<Longrightarrow> (i, w) \<in> set (watch_list visit e) \<longleftrightarrow> watches e i = Some w"
  by (force simp: watch_list_def lists_keys_def split: option.splits)

text \<open>Of all the subscriptions to one attribute of one entity, an insert notifies at most one.\<close>

lemma process_insert_one:
  assumes "lists_keys visit" and "finite (dom (watches e))"
    and "watches e i = Some (AttributeChanged entity attr)"
    and "watches e j = Some (AttributeChanged entity attr)"
    and "process_insert visit entity body e = (e', out)"
    and "(i, k) \<in> set out" and "(j, l) \<in> set out"
  shows "i = j"
proof (cases "body_field body attr")
  case None
  have w: "w = AttributeChanged entity attr"
    if "(i, w) \<in> set (watch_list visit e)" for w using that assms(3) watch_list_set [OF assms(1,2)] by simp
  have "out = snd (insert_loop entity body (watch_list visit e) (field_cache e))"
    using assms(5) by (auto simp: process_insert_def split: prod.splits)
  with assms(6) insert_loop_in obtain w c where "(i, w) \<in> set (watch_list visit e)"
    "snd (watch_insert entity body w c) = Some k" by blast
  with w None show ?thesis by (fastforce simp: watch_insert_def)
next
  case (Some v)
  have "out = snd (insert_loop entity body (watch_list visit e) (field_cache e))"
    using assms(5) by (auto simp: process_insert_def split: prod.splits)
  then show ?thesis
    using insert_loop_one [OF watch_list_keys [OF assms(1,2)] Some] assms(3,4,6,7)
      watch_list_set [OF assms(1,2)] by metis
qed

section \<open>The tailer\<close>

lemma hub_feed_append:
  "hub_feed visit (rs @ qs) h =
     (case hub_feed visit rs h of (h1, out1) \<Rightarrow>
      case hub_feed visit qs h1 of (h2, out2) \<Rightarrow> (h2, out1 @ out2))"
  by (induction rs arbitrary: h) (auto split: prod.split)

text \<open>A poll from where the last one stopped sees exactly the records appended since.\<close>

lemma read_from_appended:
  assumes "list_all canonical_record qs"
  shows "read_from (log_of (rs @ qs)) (length (log_of rs)) = Ok (qs, length (log_of (rs @ qs)))"
  using recs.loop_complete [OF assms canonical_Delete_NIL]
  by (simp add: read_from_def log_of_concat)

lemma tailer_poll_appended:
  assumes "list_all canonical_record qs"
  shows "tailer_poll visit (log_of (rs @ qs)) (length (log_of rs)) h =
    Ok (length (log_of (rs @ qs)), hub_feed visit qs h)"
  by (simp add: tailer_poll_def read_from_appended [OF assms])

section \<open>A sole subscription\<close>

lemma watch_insert_other:
  "w' \<noteq> AttributeChanged entity attr \<Longrightarrow>
     fst (watch_insert entity body w' cache) (entity, attr) = cache (entity, attr)"
  by (auto simp: watch_insert_def split: watch.split option.split)

lemma insert_loop_sole:
  assumes "w = AttributeChanged entity attr"
  shows "distinct (map fst ws) \<Longrightarrow> (i, w) \<in> set ws \<Longrightarrow> (\<And>j. (j, w) \<in> set ws \<Longrightarrow> j = i) \<Longrightarrow>
    (i, k) \<in> set (snd (insert_loop entity body ws cache)) \<longleftrightarrow> snd (watch_insert entity body w cache) = Some k"
proof (induction ws arbitrary: cache)
  case (Cons x xs)
  obtain c got where 1: "watch_insert entity body (snd x) cache = (c, got)"
    by (cases "watch_insert entity body (snd x) cache")
  obtain c' out where 2: "insert_loop entity body xs c = (c', out)"
    by (cases "insert_loop entity body xs c")
  have loop: "set (snd (insert_loop entity body (x # xs) cache)) =
      (case got of Some m \<Rightarrow> insert (fst x, m) (set out) | None \<Rightarrow> set out)"
    using 1 2 by (simp split: option.split)
  have out: "(a, m) \<in> set out \<Longrightarrow> a \<in> fst ` set xs" for a m
    using insert_loop_in [of a m entity body xs c] 2 by force
  show ?case
  proof (cases "x = (i, w)")
    case True
    then have "(i, m) \<notin> set out" for m using out [of i m] Cons.prems(1) by auto
    with True 1 loop show ?thesis by (auto split: option.splits)
  next
    case False
    then have xs: "(i, w) \<in> set xs" using Cons.prems(2) by simp
    have keys: "fst x \<notin> fst ` set xs" "distinct (map fst xs)" using Cons.prems(1) by simp_all
    have x: "fst x \<noteq> i" using keys(1) xs by (metis fst_conv image_eqI)
    have w: "snd x \<noteq> w" using Cons.prems(3) [of "fst x"] x by (cases x) auto
    have "c (entity, attr) = cache (entity, attr)"
      using watch_insert_other [of "snd x" entity attr body cache] w 1 assms by simp
    then have "snd (watch_insert entity body w c) = snd (watch_insert entity body w cache)"
      by (auto simp: watch_insert_def assms split: option.split)
    moreover have "(i, k) \<in> set out \<longleftrightarrow> snd (watch_insert entity body w c) = Some k"
      using Cons.IH [OF keys(2) xs, of c] Cons.prems(3) 2 by simp
    ultimately show ?thesis using loop x by (simp split: option.split)
  qed
qed simp

text \<open>
  C30: views hold what a scan would find. After any sequence of records the members of every view
  are exactly the live entities its predicate matches, whatever order the views are visited in.
\<close>

theorem views_exact:
  assumes "lists_keys visit" and "engine_ok (hub_views h) m"
  shows "engine_ok (hub_views (fst (hub_feed visit rs h))) (fold history_step rs m)"
  using assms by (rule hub_feed_views)

lemma lists_keys_sorted: "lists_keys sorted_list_of_set"
  by (simp add: lists_keys_def)

definition watching :: hub where
  "watching = \<lparr> subscriptions = subscription_engine_new,
     hub_views = fst (create_view (KindIs Data) view_engine_new) \<rparr>"

lemma views_exact_witness:
  "engine_ok (hub_views (fst (hub_feed sorted_list_of_set [Insert sample_header []] watching)))
     [Tuid (replicate 24 5) \<mapsto> (sample_header, [])]"
proof -
  have "engine_ok (hub_views watching) Map.empty"
    by (auto simp: engine_ok_def watching_def create_view_def view_engine_new_def matching_def)
  from views_exact [OF lists_keys_sorted this, of "[Insert sample_header []]"] show ?thesis
    by (simp add: sample_header_def del: hub_feed.simps)
qed

text \<open>
  A sole subscription to an attribute is told of exactly the changes. It fires when the
  inserted body has the attribute and the last value seen, by anyone, is a different one.
\<close>

lemma sole_watch_exact:
  assumes "lists_keys visit" and "finite (dom (watches e))"
    and "\<And>j. watches e j = Some (AttributeChanged entity attr) \<longleftrightarrow> j = i"
  shows "(i, k) \<in> set (snd (process_insert visit entity body e)) \<longleftrightarrow>
    (\<exists>old v. field_cache e (entity, attr) = Some old \<and> body_field body attr = Some v \<and> old \<noteq> v \<and>
       k = FieldChanged attr v)"
proof -
  have "(i, k) \<in> set (snd (process_insert visit entity body e)) \<longleftrightarrow>
      snd (watch_insert entity body (AttributeChanged entity attr) (field_cache e)) = Some k"
    unfolding process_insert_def case_prod_beta snd_conv
    using watch_list_keys [OF assms(1,2)] watch_list_set [OF assms(1,2)] assms(3)
    by (intro insert_loop_sole) auto
  then show ?thesis by (auto simp: watch_insert_def split: option.splits)
qed

text \<open>
  Of two subscriptions to one attribute, one stays silent. The cache of last values is
  shared, so the first visited subscription updates it and the change is over for the second.
\<close>

lemma second_watch_silent:
  assumes "lists_keys visit" and "finite (dom (watches e))"
    and "watches e i = Some (AttributeChanged entity attr)"
    and "watches e j = Some (AttributeChanged entity attr)"
    and "(i, k) \<in> set (snd (process_insert visit entity body e))" and "i \<noteq> j"
  shows "(j, l) \<notin> set (snd (process_insert visit entity body e))"
  using process_insert_one [OF assms(1-4) prod.collapse [symmetric] assms(5)] assms(6) by blast

text \<open>
  A poll sees exactly what was appended. From the offset the last poll stopped at, the tailer
  feeds its hub the records appended since, once each and in order, and stops at the log's end.
\<close>

lemma tailer_exact:
  assumes "list_all canonical_record qs"
  shows "tailer_poll visit (log_of (rs @ qs)) (length (log_of rs)) h =
    Ok (length (log_of (rs @ qs)), hub_feed visit qs h)"
  using assms by (rule tailer_poll_appended)

end
