(* ===== verification/Gems_Sorted_Map.thy ===== *)
theory Gems_Sorted_Map
  imports Gems_Prelude
begin

text \<open>
  The ordered containers of the standard library that the code relies on, with the behaviour it
  uses: \<^verbatim>\<open>slice::binary_search\<close> on a strictly sorted vector, insertion and removal
  by index, and \<^verbatim>\<open>BTreeMap\<close> as a list of pairs in key order. The locale
  \<open>sorted_map\<close> states what a client of such a map may use.
\<close>

section \<open>Sorted vectors\<close>

definition below :: "'a::linorder list \<Rightarrow> 'a \<Rightarrow> nat" where
  "below v x = length (takeWhile (\<lambda>y. y < x) v)"

definition binary_search :: "'a::linorder list \<Rightarrow> 'a \<Rightarrow> nat + nat" where
  "binary_search v x =
     (let i = below v x in if i < length v \<and> v ! i = x then Inl i else Inr i)"

definition insert_at :: "nat \<Rightarrow> 'a \<Rightarrow> 'a list \<Rightarrow> 'a list" where
  "insert_at i x v = take i v @ x # drop i v"

definition remove_at :: "nat \<Rightarrow> 'a list \<Rightarrow> 'a list" where
  "remove_at i v = take i v @ drop (Suc i) v"

abbreviation strict :: "'a::linorder list \<Rightarrow> bool" where
  "strict v \<equiv> sorted_wrt (<) v"

lemma below_le: "below v x \<le> length v"
  by (simp add: below_def length_takeWhile_le)

lemma take_below: "take (below v x) v = takeWhile (\<lambda>y. y < x) v"
  unfolding below_def by (rule takeWhile_eq_take [symmetric])

lemma drop_below: "drop (below v x) v = dropWhile (\<lambda>y. y < x) v"
  unfolding below_def by (rule dropWhile_eq_drop [symmetric])

lemma split_below: "v = takeWhile (\<lambda>y. y < x) v @ dropWhile (\<lambda>y. y < x) v"
  by simp

lemma below_less: "y \<in> set (takeWhile (\<lambda>y. y < x) v) \<Longrightarrow> y < x"
  by (rule set_takeWhileD [THEN conjunct2])

lemma above_ge:
  "strict v \<Longrightarrow> y \<in> set (dropWhile (\<lambda>y. y < x) v) \<Longrightarrow> x \<le> y"
proof (induction v)
  case (Cons a v)
  then show ?case by (cases "a < x") fastforce+
qed simp

lemma dropWhile_hit:
  assumes "strict v" and "x \<in> set v"
  shows "\<exists>w. dropWhile (\<lambda>y. y < x) v = x # w"
  using assms
proof (induction v)
  case (Cons a v)
  then show ?case by (cases "a < x") fastforce+
qed simp

lemma binary_search_spec:
  assumes "strict v"
  shows "binary_search v x = (if x \<in> set v then Inl (below v x) else Inr (below v x))"
proof (cases "x \<in> set v")
  case True
  from dropWhile_hit [OF assms this] obtain w where w: "dropWhile (\<lambda>y. y < x) v = x # w" by blast
  then have "drop (below v x) v = x # w" by (simp add: drop_below)
  then have 1: "v ! below v x = x" by (rule nth_via_drop)
  have "below v x < length v"
  proof (rule ccontr)
    assume "\<not> below v x < length v"
    then have "drop (below v x) v = []" by simp
    with \<open>drop (below v x) v = x # w\<close> show False by simp
  qed
  with 1 have "below v x < length v \<and> v ! below v x = x" by blast
  with True show ?thesis by (simp add: binary_search_def Let_def)
next
  case False
  have n: "\<not> (below v x < length v \<and> v ! below v x = x)" using False by (metis nth_mem)
  show ?thesis unfolding binary_search_def Let_def if_not_P [OF n] using False by simp
qed

lemma strict_insert_at:
  assumes "strict v" and "x \<notin> set v"
  shows "strict (insert_at (below v x) x v)"
proof -
  let ?l = "takeWhile (\<lambda>y. y < x) v" and ?r = "dropWhile (\<lambda>y. y < x) v"
  have v: "strict (?l @ ?r)" using assms(1) by simp
  have "x < y" if "y \<in> set ?r" for y
    using above_ge [OF assms(1) that] that assms(2) by (metis order_le_less set_dropWhileD)
  then have "strict (?l @ x # ?r)"
    using v below_less [of _ x v] by (fastforce simp: sorted_wrt_append)
  then show ?thesis by (simp add: insert_at_def take_below drop_below)
qed

lemma set_insert_at: "set (insert_at i x v) = insert x (set v)"
proof -
  have "set v = set (take i v) \<union> set (drop i v)" by (metis append_take_drop_id set_append)
  then show ?thesis by (simp add: insert_at_def)
qed

lemma length_insert_at: "i \<le> length v \<Longrightarrow> length (insert_at i x v) = Suc (length v)"
  by (simp add: insert_at_def)

lemma remove_hit:
  assumes "strict v" and "x \<in> set v"
  shows "strict (remove_at (below v x) v) \<and> set (remove_at (below v x) v) = set v - {x} \<and>
    Suc (length (remove_at (below v x) v)) = length v"
proof -
  define l where "l = takeWhile (\<lambda>y. y < x) v"
  from dropWhile_hit [OF assms] obtain w where w: "dropWhile (\<lambda>y. y < x) v = x # w" by blast
  have v: "v = l @ x # w" unfolding l_def w [symmetric] by (rule split_below)
  have "remove_at (below v x) v = l @ tl (drop (below v x) v)"
    unfolding remove_at_def take_below l_def drop_Suc tl_drop ..
  then have r: "remove_at (below v x) v = l @ w" by (simp add: drop_below w)
  have "strict (l @ x # w)" using assms(1) unfolding v .
  then have "strict (l @ w)" "x \<notin> set l" "x \<notin> set w" by (auto simp: sorted_wrt_append)
  then have "strict (l @ w) \<and> set (l @ w) = set (l @ x # w) - {x} \<and> Suc (length (l @ w)) = length (l @ x # w)"
    by auto
  then show ?thesis unfolding r v [symmetric] .
qed

section \<open>Ordered maps\<close>

locale sorted_map =
  fixes get :: "'m \<Rightarrow> 'k::linorder \<Rightarrow> 'v option"
    and put :: "'k \<Rightarrow> 'v \<Rightarrow> 'm \<Rightarrow> 'm"
    and del :: "'k \<Rightarrow> 'm \<Rightarrow> 'm"
    and entries :: "'m \<Rightarrow> ('k \<times> 'v) list"
    and none :: 'm
    and ok :: "'m \<Rightarrow> bool"
  assumes ok_none: "ok none" and get_none: "get none k = None"
    and ok_put: "ok m \<Longrightarrow> ok (put k v m)"
    and get_put: "ok m \<Longrightarrow> get (put k v m) k' = (if k' = k then Some v else get m k')"
    and ok_del: "ok m \<Longrightarrow> ok (del k m)"
    and get_del: "ok m \<Longrightarrow> get (del k m) k' = (if k' = k then None else get m k')"
    and keys_strict: "ok m \<Longrightarrow> strict (map fst (entries m))"
    and entries_get: "ok m \<Longrightarrow> (k, v) \<in> set (entries m) \<longleftrightarrow> get m k = Some v"
begin

lemma get_map_of: "ok m \<Longrightarrow> map_of (entries m) k = get m k"
proof -
  assume ok: "ok m"
  then have d: "distinct (map fst (entries m))"
    using keys_strict strict_sorted_iff by blast
  then have "map_of (entries m) k = Some v \<longleftrightarrow> get m k = Some v" for v
    using ok entries_get by simp
  then show ?thesis by (metis not_None_eq)
qed

lemma key_set: "ok m \<Longrightarrow> fst ` set (entries m) = {k. get m k \<noteq> None}"
proof -
  assume "ok m"
  then have "k \<in> fst ` set (entries m) \<longleftrightarrow> (\<exists>v. get m k = Some v)" for k
    by (simp add: entries_get [symmetric] image_iff) force
  then show ?thesis by auto
qed

end

type_synonym ('k, 'v) btree_map = "('k \<times> 'v) list"

definition bm_get :: "('k::linorder, 'v) btree_map \<Rightarrow> 'k \<Rightarrow> 'v option" where
  "bm_get m k = map_of m k"

primrec bm_put :: "'k::linorder \<Rightarrow> 'v \<Rightarrow> ('k, 'v) btree_map \<Rightarrow> ('k, 'v) btree_map" where
  "bm_put k v [] = [(k, v)]"
| "bm_put k v (p # m) =
     (if k < fst p then (k, v) # p # m
      else if k = fst p then (k, v) # m
      else p # bm_put k v m)"

definition bm_del :: "'k::linorder \<Rightarrow> ('k, 'v) btree_map \<Rightarrow> ('k, 'v) btree_map" where
  "bm_del k m = filter (\<lambda>p. fst p \<noteq> k) m"

definition bm_ok :: "('k::linorder, 'v) btree_map \<Rightarrow> bool" where
  "bm_ok m \<longleftrightarrow> strict (map fst m)"

lemma bm_put_keys: "fst ` set (bm_put k v m) = insert k (fst ` set m)"
  by (induction m) auto

lemma bm_put_ok: "bm_ok m \<Longrightarrow> bm_ok (bm_put k v m)"
proof (induction m)
  case (Cons p m)
  then show ?case
    using bm_put_keys [of k v m] by (auto simp: bm_ok_def)
qed (simp add: bm_ok_def)

lemma bm_get_put: "bm_ok m \<Longrightarrow> bm_get (bm_put k v m) k' = (if k' = k then Some v else bm_get m k')"
proof (induction m)
  case (Cons p m)
  have "bm_get m k' = None" if "\<not> fst p < k'" "k' \<noteq> fst p"
    using Cons.prems that by (fastforce simp: bm_ok_def bm_get_def map_of_eq_None_iff)
  with Cons show ?case by (cases p) (auto simp: bm_ok_def bm_get_def)
qed (simp add: bm_get_def)

interpretation bm: sorted_map bm_get bm_put bm_del "\<lambda>m. m" "[]" bm_ok
proof unfold_locales
  show "bm_ok (bm_del k m)" if "bm_ok m" for k :: "'a :: linorder" and m :: "('a, 'b) btree_map"
    using that by (auto simp: bm_ok_def bm_del_def sorted_wrt_map intro: sorted_wrt_filter)
  show "bm_get (bm_del k m) k' = (if k' = k then None else bm_get m k')"
    for k k' :: "'a :: linorder" and m :: "('a, 'b) btree_map"
    using map_of_filter [of "\<lambda>j. j \<noteq> k" m] by (simp add: bm_get_def bm_del_def restrict_map_def)
  show "(k, v) \<in> set m \<longleftrightarrow> bm_get m k = Some v" if "bm_ok m"
    for m :: "('a :: linorder, 'b) btree_map" and k v
  proof -
    have "distinct (map fst m)" using that strict_sorted_iff by (auto simp: bm_ok_def)
    then show ?thesis by (simp add: bm_get_def)
  qed
qed (simp_all add: bm_put_ok bm_get_put, simp_all add: bm_ok_def bm_get_def)

end
