(* ===== verification/Gems_Bitmap.thy ===== *)
theory Gems_Bitmap
  imports Gems_Sorted_Map
begin

text \<open>
  Compressed bitmaps (\<^verbatim>\<open>gems-bitmap\<close>). \<open>container\<close> is a chunk of 65536 values, a
  sorted vector or a bitset of 1024 words (\<^verbatim>\<open>container.rs\<close>); \<open>roaring\<close> maps
  the high half of a value to the chunk of its low halves (\<^verbatim>\<open>roaring.rs\<close>). The
  locales \<open>set_impl\<close> and \<open>set_algebra\<close> say what a set representation promises; both
  levels are shown to keep them, whatever representation each chunk happens to have.
\<close>

section \<open>What a representation of sets promises\<close>

locale set_impl =
  fixes empty :: 's
    and ins :: "'a::linorder \<Rightarrow> 's \<Rightarrow> 's \<times> bool"
    and del :: "'a \<Rightarrow> 's \<Rightarrow> 's \<times> bool"
    and mem :: "'s \<Rightarrow> 'a \<Rightarrow> bool"
    and listing :: "'s \<Rightarrow> 'a list"
    and elems :: "'s \<Rightarrow> 'a set"
    and ok :: "'s \<Rightarrow> bool"
  assumes empty_ok: "ok empty" and elems_empty: "elems empty = {}"
    and ins_ok: "ok s \<Longrightarrow> ok (fst (ins x s))"
    and ins_elems: "ok s \<Longrightarrow> elems (fst (ins x s)) = insert x (elems s)"
    and ins_new: "ok s \<Longrightarrow> snd (ins x s) \<longleftrightarrow> x \<notin> elems s"
    and del_ok: "ok s \<Longrightarrow> ok (fst (del x s))"
    and del_elems: "ok s \<Longrightarrow> elems (fst (del x s)) = elems s - {x}"
    and del_old: "ok s \<Longrightarrow> snd (del x s) \<longleftrightarrow> x \<in> elems s"
    and mem_elems: "ok s \<Longrightarrow> mem s x \<longleftrightarrow> x \<in> elems s"
    and listing_set: "ok s \<Longrightarrow> set (listing s) = elems s"
    and listing_strict: "ok s \<Longrightarrow> strict (listing s)"
begin

definition ins_all :: "'a list \<Rightarrow> 's \<Rightarrow> 's" where
  "ins_all xs s = fold (\<lambda>x s. fst (ins x s)) xs s"

lemma ins_all_ok: "ok s \<Longrightarrow> ok (ins_all xs s) \<and> elems (ins_all xs s) = elems s \<union> set xs"
proof (induction xs arbitrary: s)
  case (Cons x xs)
  then show ?case using Cons.IH [of "fst (ins x s)"] by (simp add: ins_all_def ins_ok ins_elems)
qed (simp add: ins_all_def)

lemma elems_finite: "ok s \<Longrightarrow> finite (elems s)"
  by (metis List.finite_set listing_set)

lemma listing_length: "ok s \<Longrightarrow> length (listing s) = card (elems s)"
  by (metis distinct_card listing_set listing_strict strict_sorted_iff)

lemma listing_unique: "ok s \<Longrightarrow> ok t \<Longrightarrow> elems s = elems t \<Longrightarrow> listing s = listing t"
  by (metis listing_set listing_strict strict_sorted_equal)

end

locale set_algebra = set_impl empty ins del mem listing elems ok
  for empty :: 's
    and ins :: "'a::linorder \<Rightarrow> 's \<Rightarrow> 's \<times> bool"
    and del :: "'a \<Rightarrow> 's \<Rightarrow> 's \<times> bool"
    and mem :: "'s \<Rightarrow> 'a \<Rightarrow> bool"
    and listing :: "'s \<Rightarrow> 'a list"
    and elems :: "'s \<Rightarrow> 'a set"
    and ok :: "'s \<Rightarrow> bool" +
  fixes join :: "'s \<Rightarrow> 's \<Rightarrow> 's"
    and meet :: "'s \<Rightarrow> 's \<Rightarrow> 's"
  assumes join_ok: "ok s \<Longrightarrow> ok t \<Longrightarrow> ok (join s t)"
    and join_elems: "ok s \<Longrightarrow> ok t \<Longrightarrow> elems (join s t) = elems s \<union> elems t"
    and meet_ok: "ok s \<Longrightarrow> ok t \<Longrightarrow> ok (meet s t)"
    and meet_elems: "ok s \<Longrightarrow> ok t \<Longrightarrow> elems (meet s t) = elems s \<inter> elems t"
begin

lemma join_commutes: "ok s \<Longrightarrow> ok t \<Longrightarrow> listing (join s t) = listing (join t s)"
  by (rule listing_unique) (simp_all add: join_ok join_elems Un_commute)

lemma meet_commutes: "ok s \<Longrightarrow> ok t \<Longrightarrow> listing (meet s t) = listing (meet t s)"
  by (rule listing_unique) (simp_all add: meet_ok meet_elems Int_commute)

end

section \<open>Containers\<close>

unbundle bit_operations_syntax

type_synonym u16 = "16 word"
type_synonym u64 = "64 word"

definition BITMAP_WORDS :: nat where "BITMAP_WORDS = 1024"
definition ARRAY_TO_BITMAP_THRESHOLD :: nat where "ARRAY_TO_BITMAP_THRESHOLD = 4096"

datatype container = Array "u16 list" | Bitmap "u64 list"

definition new_array :: container where "new_array = Array []"

definition word_of :: "u16 \<Rightarrow> nat" where "word_of low = unat low div 64"
definition bit_of :: "u16 \<Rightarrow> nat" where "bit_of low = unat low mod 64"
definition mask_of :: "u16 \<Rightarrow> u64" where "mask_of low = push_bit (bit_of low) 1"

definition count_ones :: "u64 \<Rightarrow> nat" where
  "count_ones w = length (filter (bit w) [0..<64])"

fun container_len :: "container \<Rightarrow> nat" where
  "container_len (Array v) = length v"
| "container_len (Bitmap bits) = sum_list (map count_ones bits)"

definition container_is_empty :: "container \<Rightarrow> bool" where
  "container_is_empty c = (container_len c = 0)"

fun container_contains :: "container \<Rightarrow> u16 \<Rightarrow> bool" where
  "container_contains (Array v) low = (case binary_search v low of Inl i \<Rightarrow> True | Inr i \<Rightarrow> False)"
| "container_contains (Bitmap bits) low = (drop_bit (bit_of low) (bits ! word_of low) AND 1 \<noteq> 0)"

text \<open>\<^verbatim>\<open>bits[word] |= 1 << bit\<close>, shared by insertion, promotion and union.\<close>

definition set_low :: "u16 \<Rightarrow> u64 list \<Rightarrow> u64 list" where
  "set_low low bits = bits[word_of low := bits ! word_of low OR mask_of low]"

definition zero_bits :: "u64 list" where "zero_bits = replicate BITMAP_WORDS 0"

fun promote_to_bitmap :: "container \<Rightarrow> container" where
  "promote_to_bitmap (Array v) = Bitmap (fold set_low v zero_bits)"
| "promote_to_bitmap c = c"

fun container_insert :: "u16 \<Rightarrow> container \<Rightarrow> container \<times> bool" where
  "container_insert low (Array v) =
     (case binary_search v low of
        Inl i \<Rightarrow> (Array v, False)
      | Inr i \<Rightarrow>
          (let v' = insert_at i low v in
           (if length v' > ARRAY_TO_BITMAP_THRESHOLD then promote_to_bitmap (Array v') else Array v',
            True)))"
| "container_insert low (Bitmap bits) =
     (let was_set = bits ! word_of low AND mask_of low \<noteq> 0 in (Bitmap (set_low low bits), \<not> was_set))"

fun container_remove :: "u16 \<Rightarrow> container \<Rightarrow> container \<times> bool" where
  "container_remove low (Array v) =
     (case binary_search v low of
        Inl i \<Rightarrow> (Array (remove_at i v), True)
      | Inr i \<Rightarrow> (Array v, False))"
| "container_remove low (Bitmap bits) =
     (let was_set = bits ! word_of low AND mask_of low \<noteq> 0
      in (Bitmap (bits[word_of low := bits ! word_of low AND NOT (mask_of low)]), was_set))"

fun container_iter :: "container \<Rightarrow> u16 list" where
  "container_iter (Array v) = v"
| "container_iter (Bitmap bits) =
     concat (map (\<lambda>(w, word). map (\<lambda>b. of_nat (w * 64 + b))
       (filter (\<lambda>b. word AND push_bit b 1 \<noteq> 0) [0..<64])) (enumerate 0 bits))"

fun or_into :: "container \<Rightarrow> u64 list \<Rightarrow> u64 list" where
  "or_into (Array v) bits = fold set_low v bits"
| "or_into (Bitmap b) bits = map2 (OR) bits b"

fun shrink_if_sparse :: "container \<Rightarrow> container" where
  "shrink_if_sparse (Bitmap bits) =
     (if sum_list (map count_ones bits) \<le> ARRAY_TO_BITMAP_THRESHOLD
      then Array (container_iter (Bitmap bits)) else Bitmap bits)"
| "shrink_if_sparse c = c"

definition container_union :: "container \<Rightarrow> container \<Rightarrow> container" where
  "container_union c d = shrink_if_sparse (Bitmap (or_into d (or_into c zero_bits)))"

text \<open>Inserting the elements of a list that pass a test, one by one.\<close>

definition insert_if :: "(u16 \<Rightarrow> bool) \<Rightarrow> u16 list \<Rightarrow> container \<Rightarrow> container" where
  "insert_if P vs c = fold (\<lambda>v out. if P v then fst (container_insert v out) else out) vs c"

definition container_intersect :: "container \<Rightarrow> container \<Rightarrow> container" where
  "container_intersect c d =
     (let (small, large) = (if container_len c \<le> container_len d then (c, d) else (d, c))
      in insert_if (container_contains large) (container_iter small) new_array)"

section \<open>The set a container stands for\<close>

definition bset :: "u64 list \<Rightarrow> u16 set" where
  "bset bits = {x. bit (bits ! word_of x) (bit_of x)}"

fun container_set :: "container \<Rightarrow> u16 set" where
  "container_set (Array v) = set v"
| "container_set (Bitmap bits) = bset bits"

fun container_ok :: "container \<Rightarrow> bool" where
  "container_ok (Array v) = (strict v \<and> length v \<le> ARRAY_TO_BITMAP_THRESHOLD)"
| "container_ok (Bitmap bits) = (length bits = BITMAP_WORDS)"

lemma unat_u16: "unat (x :: u16) < 65536"
  using unsigned_less [where 'a = nat, of x] by simp

lemma word_of_less: "word_of x < BITMAP_WORDS"
  using unat_u16 [of x] by (simp add: word_of_def BITMAP_WORDS_def)

lemma bit_of_less [simp]: "bit_of x < 64"
  by (simp add: bit_of_def)

lemma position: "unat x = word_of x * 64 + bit_of x"
  by (simp add: word_of_def bit_of_def)

lemma position_inj: "word_of x = word_of y \<Longrightarrow> bit_of x = bit_of y \<Longrightarrow> x = y"
  using position [of x] position [of y] by (simp add: word_unat_eq_iff)

lemma bit_mask_of: "bit (mask_of x) i \<longleftrightarrow> i = bit_of x"
  using bit_of_less [of x] by (auto simp: mask_of_def bit_exp_iff simp del: bit_of_less)

lemma test_bit: "w AND push_bit b 1 \<noteq> 0 \<longleftrightarrow> bit (w :: u64) b \<and> b < 64"
proof -
  have "w AND push_bit b 1 = 0 \<longleftrightarrow> \<not> (bit w b \<and> b < 64)"
    unfolding bit_eq_iff [of "w AND push_bit b 1" 0] by (auto simp: bit_and_iff bit_exp_iff)
  then show ?thesis by blast
qed

lemma mask_test: "w AND mask_of x \<noteq> 0 \<longleftrightarrow> bit w (bit_of x)"
  unfolding mask_of_def test_bit by simp

lemma shift_test: "drop_bit b w AND 1 \<noteq> 0 \<longleftrightarrow> bit (w :: u64) b"
  by (simp add: and_one_eq mod_2_eq_odd bit_iff_odd_drop_bit)

lemma length_set_low [simp]: "length (set_low x bits) = length bits"
  by (simp add: set_low_def)

lemma bset_set_low: "length bits = BITMAP_WORDS \<Longrightarrow> bset (set_low x bits) = insert x (bset bits)"
  by (auto simp: bset_def set_low_def nth_list_update bit_or_iff bit_mask_of word_of_less
      split: if_splits dest: position_inj)

lemma bset_clear:
  "length bits = BITMAP_WORDS \<Longrightarrow>
     bset (bits[word_of x := bits ! word_of x AND NOT (mask_of x)]) = bset bits - {x}"
  by (auto simp: bset_def nth_list_update bit_simps bit_mask_of word_of_less
      split: if_splits dest: position_inj)

lemma fold_set_low:
  "length bits = BITMAP_WORDS \<Longrightarrow>
     length (fold set_low v bits) = BITMAP_WORDS \<and> bset (fold set_low v bits) = bset bits \<union> set v"
  by (induction v arbitrary: bits) (auto simp: bset_set_low)

lemma zero_bits: "length zero_bits = BITMAP_WORDS" "bset zero_bits = {}"
  using word_of_less by (auto simp: zero_bits_def bset_def)

lemma or_into_spec:
  "container_ok c \<Longrightarrow> length bits = BITMAP_WORDS \<Longrightarrow>
     length (or_into c bits) = BITMAP_WORDS \<and> bset (or_into c bits) = bset bits \<union> container_set c"
proof (cases c)
  case (Bitmap b)
  assume "container_ok c" "length bits = BITMAP_WORDS"
  then show ?thesis using word_of_less by (auto simp: Bitmap bset_def bit_or_iff)
qed (simp add: fold_set_low)

section \<open>Listing\<close>

lemma blocks:
  "concat (map (\<lambda>w. map (f w) (filter (P w) [0..<64])) [0..<n]) =
     map (\<lambda>i. f (i div 64) (i mod 64)) (filter (\<lambda>i. P (i div 64) (i mod 64)) [0..<n * 64])"
proof (induction n)
  case (Suc n)
  have "[0..<Suc n * 64] = [0..<n * 64] @ map (\<lambda>b. n * 64 + b) [0..<64]"
    using upt_add_eq_append [of 0 "n * 64" 64] map_add_upt [of "n * 64" 64] by (simp add: add.commute)
  moreover have "map (\<lambda>i. f (i div 64) (i mod 64))
      (filter (\<lambda>i. P (i div 64) (i mod 64)) (map (\<lambda>b. n * 64 + b) [0..<64])) =
      map (f n) (filter (P n) [0..<64])"
    unfolding filter_map map_map
    by (intro map_cong filter_cong) (auto simp del: upt_Suc)
  ultimately show ?case using Suc by simp
qed simp

lemma iter_bits:
  assumes "length bits = BITMAP_WORDS"
  shows "container_iter (Bitmap bits) =
    map of_nat (filter (\<lambda>i. bit (bits ! (i div 64)) (i mod 64)) [0..<65536])"
proof -
  have e: "enumerate 0 bits = map (\<lambda>w. (w, bits ! w)) [0..<1024]"
    using assms by (intro nth_equalityI) (simp_all add: BITMAP_WORDS_def nth_enumerate_eq del: upt_rec_numeral)
  have "filter (\<lambda>b. w AND push_bit b 1 \<noteq> 0) [0..<64] = filter (bit w) [0..<64]" for w :: u64
    by (rule filter_cong) (simp_all only: test_bit set_upt atLeastLessThan_iff simp_thms)
  then have "container_iter (Bitmap bits) =
      concat (map (\<lambda>w. map (\<lambda>b. of_nat (w * 64 + b)) (filter (bit (bits ! w)) [0..<64])) [0..<1024])"
    unfolding container_iter.simps e map_map by (simp add: comp_def del: upt_rec_numeral)
  also have "\<dots> = map (\<lambda>i. of_nat (i div 64 * 64 + i mod 64))
      (filter (\<lambda>i. bit (bits ! (i div 64)) (i mod 64)) [0..<1024 * 64])"
    by (rule blocks)
  finally show ?thesis by (simp del: upt_rec_numeral)
qed

lemma small_u16: "i < 65536 \<Longrightarrow> unat (of_nat i :: u16) = i"
  by (simp add: unat_of_nat)

lemma iter_set: "container_ok c \<Longrightarrow> set (container_iter c) = container_set c"
proof (cases c)
  case (Bitmap bits)
  assume "container_ok c"
  then have len: "length bits = BITMAP_WORDS" using Bitmap by simp
  have "x \<in> bset bits \<longleftrightarrow> x \<in> of_nat ` {i. i < 65536 \<and> bit (bits ! (i div 64)) (i mod 64)}" for x
  proof
    assume "x \<in> bset bits"
    then have "x = of_nat (unat x) \<and> unat x \<in> {i. i < 65536 \<and> bit (bits ! (i div 64)) (i mod 64)}"
      using unat_u16 [of x] by (simp add: bset_def word_of_def bit_of_def)
    then show "x \<in> of_nat ` {i. i < 65536 \<and> bit (bits ! (i div 64)) (i mod 64)}" by blast
  qed (auto simp: bset_def word_of_def bit_of_def small_u16)
  then show ?thesis
    unfolding Bitmap container_set.simps iter_bits [OF len] by (auto simp del: upt_rec_numeral)
qed simp

lemma iter_strict: "container_ok c \<Longrightarrow> strict (container_iter c)"
proof (cases c)
  case (Bitmap bits)
  assume "container_ok c"
  then have len: "length bits = BITMAP_WORDS" using Bitmap by simp
  have "strict (map of_nat (filter P [0..<65536]) :: u16 list)" for P
    unfolding sorted_wrt_map
  proof (rule sorted_wrt_mono_rel [OF _ sorted_wrt_filter [OF sorted_wrt_upt]])
    fix i j assume "i \<in> set (filter P [0..<65536])" "j \<in> set (filter P [0..<65536])" "i < j"
    then show "(of_nat i :: u16) < of_nat j"
      by (simp add: word_less_nat_alt small_u16 del: upt_rec_numeral)
  qed
  then show ?thesis unfolding Bitmap iter_bits [OF len] .
qed simp

lemma iter_length: "length (container_iter c) = container_len c"
proof (cases c)
  case (Bitmap bits)
  have "filter (\<lambda>b. w AND push_bit b 1 \<noteq> 0) [0..<64] = filter (bit w) [0..<64]" for w :: u64
    by (rule filter_cong) (simp_all only: test_bit set_upt atLeastLessThan_iff simp_thms)
  then have f: "length (filter (\<lambda>b. w AND push_bit b 1 \<noteq> 0) [0..<64]) = count_ones w" for w :: u64
    unfolding count_ones_def by presburger
  have "length (container_iter c) = sum_list (map (count_ones \<circ> snd) (enumerate 0 bits))"
    unfolding Bitmap container_iter.simps length_concat map_map
    by (rule arg_cong [where f = sum_list], rule map_cong [OF refl])
       (simp only: comp_apply case_prod_beta length_map f)
  then show ?thesis by (simp add: Bitmap map_map [symmetric] del: map_map)
qed simp

lemma container_len_card: "container_ok c \<Longrightarrow> container_len c = card (container_set c)"
  by (metis iter_length iter_set iter_strict distinct_card strict_sorted_iff)

section \<open>The operations\<close>

lemma promote_ok:
  "container_ok (promote_to_bitmap (Array v)) \<and> container_set (promote_to_bitmap (Array v)) = set v"
  by (simp add: fold_set_low zero_bits)

lemma container_insert_spec:
  assumes "container_ok c"
  shows "container_ok (fst (container_insert x c)) \<and>
    container_set (fst (container_insert x c)) = insert x (container_set c) \<and>
    (snd (container_insert x c) \<longleftrightarrow> x \<notin> container_set c)"
proof (cases c)
  case (Array v)
  show ?thesis
  proof (cases "x \<in> set v")
    case True
    with assms Array show ?thesis by (auto simp: binary_search_spec)
  next
    case False
    with assms Array show ?thesis
      using strict_insert_at [of v x] promote_ok [of "insert_at (below v x) x v"]
      by (auto simp: binary_search_spec set_insert_at Let_def simp del: promote_to_bitmap.simps)
  qed
next
  case (Bitmap bits)
  with assms show ?thesis by (auto simp: Let_def bset_set_low mask_test) (simp_all add: bset_def)
qed

lemma container_remove_spec:
  assumes "container_ok c"
  shows "container_ok (fst (container_remove x c)) \<and>
    container_set (fst (container_remove x c)) = container_set c - {x} \<and>
    (snd (container_remove x c) \<longleftrightarrow> x \<in> container_set c)"
proof (cases c)
  case (Array v)
  show ?thesis
  proof (cases "x \<in> set v")
    case True
    with assms Array remove_hit [of v x] show ?thesis by (auto simp: binary_search_spec)
  next
    case False
    with assms Array show ?thesis by (auto simp: binary_search_spec)
  qed
next
  case (Bitmap bits)
  with assms show ?thesis by (auto simp: Let_def bset_clear mask_test) (simp_all add: bset_def)
qed

lemma container_contains_spec: "container_ok c \<Longrightarrow> container_contains c x \<longleftrightarrow> x \<in> container_set c"
  by (cases c) (auto simp: binary_search_spec shift_test bset_def)

lemma insert_if_spec:
  "container_ok c \<Longrightarrow> container_ok (insert_if P vs c) \<and>
     container_set (insert_if P vs c) = container_set c \<union> {v \<in> set vs. P v}"
proof (induction vs arbitrary: c)
  case (Cons v vs)
  then show ?case
    using Cons.IH [of "fst (container_insert v c)"] container_insert_spec [of c v]
    by (auto simp: insert_if_def)
qed (simp add: insert_if_def)

lemma shrink_spec:
  "length bits = BITMAP_WORDS \<Longrightarrow>
     container_ok (shrink_if_sparse (Bitmap bits)) \<and>
     container_set (shrink_if_sparse (Bitmap bits)) = bset bits"
  using iter_set [of "Bitmap bits"] iter_strict [of "Bitmap bits"] iter_length [of "Bitmap bits"]
  by (simp del: container_iter.simps)

interpretation container: set_algebra new_array container_insert container_remove container_contains
    container_iter container_set container_ok container_union container_intersect
proof unfold_locales
  fix c d :: container
  assume c: "container_ok c" and d: "container_ok d"
  have "length (or_into d (or_into c zero_bits)) = BITMAP_WORDS \<and>
      bset (or_into d (or_into c zero_bits)) = container_set c \<union> container_set d"
    using or_into_spec [OF c, of zero_bits] or_into_spec [OF d, of "or_into c zero_bits"]
    by (simp add: zero_bits)
  then show "container_ok (container_union c d)"
    and "container_set (container_union c d) = container_set c \<union> container_set d"
    using shrink_spec unfolding container_union_def by auto
  have n: "container_ok new_array" "container_set new_array = {}" by (simp_all add: new_array_def)
  show "container_ok (container_intersect c d)"
    and "container_set (container_intersect c d) = container_set c \<inter> container_set d"
    using c d insert_if_spec [OF n(1)]
    by (auto simp: container_intersect_def iter_set container_contains_spec n)
qed (simp_all add: container_insert_spec container_remove_spec container_contains_spec iter_set
    iter_strict, simp_all add: new_array_def)

end
