(* ===== verification/Gems_Roaring.thy ===== *)
theory Gems_Roaring
  imports Gems_Bitmap
begin

text \<open>
  \<^verbatim>\<open>RoaringBitmap\<close> (\<^verbatim>\<open>gems-bitmap/src/roaring.rs\<close>): sets of 32-bit values as an ordered
  map from the high half to the container of the low halves. The struct has the one field
  \<^verbatim>\<open>chunks\<close>, a \<^verbatim>\<open>BTreeMap\<close>.
\<close>

unbundle bit_operations_syntax

type_synonym roaring = "(u16, container) btree_map"

definition split_value :: "u32 \<Rightarrow> u16 \<times> u16" where
  "split_value v = (ucast (drop_bit 16 v), ucast (v AND 0xffff))"

definition join_value :: "u16 \<Rightarrow> u16 \<Rightarrow> u32" where
  "join_value high low = push_bit 16 (ucast high) OR ucast low"

definition roaring_new :: roaring where "roaring_new = []"

definition roaring_insert :: "u32 \<Rightarrow> roaring \<Rightarrow> roaring \<times> bool" where
  "roaring_insert v m =
     (case split_value v of (high, low) \<Rightarrow>
      let c = (case bm_get m high of Some c \<Rightarrow> c | None \<Rightarrow> new_array) in
      case container_insert low c of (c', new) \<Rightarrow> (bm_put high c' m, new))"

definition roaring_remove :: "u32 \<Rightarrow> roaring \<Rightarrow> roaring \<times> bool" where
  "roaring_remove v m =
     (case split_value v of (high, low) \<Rightarrow>
      case bm_get m high of
        Some c \<Rightarrow>
          (case container_remove low c of (c', removed) \<Rightarrow>
             (if container_is_empty c' then bm_del high m else bm_put high c' m, removed))
      | None \<Rightarrow> (m, False))"

definition roaring_contains :: "roaring \<Rightarrow> u32 \<Rightarrow> bool" where
  "roaring_contains m v =
     (case split_value v of (high, low) \<Rightarrow>
      case bm_get m high of Some c \<Rightarrow> container_contains c low | None \<Rightarrow> False)"

definition roaring_len :: "roaring \<Rightarrow> nat" where
  "roaring_len m = sum_list (map (container_len \<circ> snd) m)"

definition roaring_is_empty :: "roaring \<Rightarrow> bool" where
  "roaring_is_empty m = (m = [])"

definition roaring_iter :: "roaring \<Rightarrow> u32 list" where
  "roaring_iter m = concat (map (\<lambda>(high, c). map (join_value high) (container_iter c)) m)"

text \<open>A map built key by key: the chunk of each key, unless it is empty.\<close>

definition put_chunk :: "(u16 \<Rightarrow> container) \<Rightarrow> u16 \<Rightarrow> roaring \<Rightarrow> roaring" where
  "put_chunk f high out =
     (let merged = f high in if container_is_empty merged then out else bm_put high merged out)"

definition roaring_union :: "roaring \<Rightarrow> roaring \<Rightarrow> roaring" where
  "roaring_union a b =
     (let highs = remdups_adj (sort (map fst a @ map fst b)) in
      fold (put_chunk (\<lambda>high. case (bm_get a high, bm_get b high) of
               (Some c, Some d) \<Rightarrow> container_union c d
             | (Some c, None) \<Rightarrow> c
             | (None, Some d) \<Rightarrow> d
             | (None, None) \<Rightarrow> new_array)) highs roaring_new)"

definition roaring_intersect :: "roaring \<Rightarrow> roaring \<Rightarrow> roaring" where
  "roaring_intersect a b =
     fold (\<lambda>(high, c) out. case bm_get b high of
             Some d \<Rightarrow> put_chunk (\<lambda>_. container_intersect c d) high out
           | None \<Rightarrow> out) a roaring_new"

definition roaring_and_not :: "roaring \<Rightarrow> roaring \<Rightarrow> roaring" where
  "roaring_and_not a b =
     fold (\<lambda>(high, c) out. case bm_get b high of
             None \<Rightarrow> bm_put high c out
           | Some d \<Rightarrow> put_chunk (\<lambda>_. insert_if (\<lambda>v. \<not> container_contains d v) (container_iter c) new_array)
                          high out) a roaring_new"

definition roaring_from :: "u32 list \<Rightarrow> roaring" where
  "roaring_from vs = fold (\<lambda>v m. fst (roaring_insert v m)) vs roaring_new"

section \<open>Halves of a value\<close>

definition high_half :: "u32 \<Rightarrow> u16" where "high_half v = fst (split_value v)"
definition low_half :: "u32 \<Rightarrow> u16" where "low_half v = snd (split_value v)"

lemma split_halves: "split_value v = (high_half v, low_half v)"
  by (simp add: high_half_def low_half_def)

lemma unat_ucast_u16: "unat (ucast (x :: u16) :: u32) = unat x"
  using unat_u16 [of x] by (simp add: unsigned_ucast_eq take_bit_eq_mod)

lemma unat_join: "unat (join_value h l) = unat h * 65536 + unat l"
proof -
  have l: "\<not> bit (ucast l :: u32) n" if "16 \<le> n" for n
    using that bit_imp_le_length [of l n] by (auto simp: bit_simps)
  have "join_value h l = push_bit 16 (ucast h) + ucast l"
    unfolding join_value_def
    by (rule disjunctive_add [symmetric]) (use l in \<open>auto simp: bit_push_bit_iff\<close>)
  also have "\<dots> = of_nat (unat h * 65536 + unat l)"
    by (simp add: push_bit_eq_mult)
  finally have "unat (join_value h l) = unat (of_nat (unat h * 65536 + unat l) :: u32)" by simp
  also have "\<dots> = unat h * 65536 + unat l"
    using unat_u16 [of h] unat_u16 [of l] by (subst unat_of_nat) simp
  finally show ?thesis .
qed

lemma unat_halves: "unat (high_half v) = unat v div 65536" "unat (low_half v) = unat v mod 65536"
proof -
  have "unat v < 4294967296" using unsigned_less [where 'a = nat, of v] by simp
  moreover have "unat (drop_bit 16 v) = unat v div 65536"
    unfolding unat_drop_bit_eq by (simp add: drop_bit_eq_div)
  ultimately show "unat (high_half v) = unat v div 65536"
    unfolding high_half_def split_value_def fst_conv unsigned_ucast_eq take_bit_eq_mod by simp
  have "v AND 0xffff = take_bit 16 v" by (simp add: take_bit_eq_mask mask_eq_exp_minus_1)
  moreover have "unat (take_bit 16 v) = unat v mod 65536"
    unfolding unsigned_take_bit_eq by (simp add: take_bit_eq_mod)
  ultimately show "unat (low_half v) = unat v mod 65536"
    unfolding low_half_def split_value_def snd_conv unsigned_ucast_eq take_bit_eq_mod by simp
qed

lemma join_halves: "join_value (high_half v) (low_half v) = v"
  by (simp add: word_unat_eq_iff unat_join unat_halves)

lemma halves_join [simp]: "high_half (join_value h l) = h" "low_half (join_value h l) = l"
  using unat_u16 [of l] by (simp_all add: word_unat_eq_iff unat_join unat_halves)

lemma join_less: "join_value h l < join_value h' l' \<longleftrightarrow> h < h' \<or> h = h' \<and> l < l'"
proof -
  have "a * 65536 + b < c * 65536 + d \<longleftrightarrow> a < c \<or> a = c \<and> b < d" if "b < 65536" "d < 65536" for a b c d :: nat
    using that by auto
  from this [OF unat_u16 [of l] unat_u16 [of l']] show ?thesis
    by (simp add: word_less_nat_alt unat_join word_unat_eq_iff)
qed

section \<open>The set a bitmap stands for\<close>

definition roaring_set :: "roaring \<Rightarrow> u32 set" where
  "roaring_set m = {v. \<exists>c. bm_get m (high_half v) = Some c \<and> low_half v \<in> container_set c}"

definition roaring_ok :: "roaring \<Rightarrow> bool" where
  "roaring_ok m \<longleftrightarrow> bm_ok m \<and> (\<forall>h c. bm_get m h = Some c \<longrightarrow> container_ok c \<and> container_set c \<noteq> {})"

lemma container_is_empty_iff: "container_ok c \<Longrightarrow> container_is_empty c \<longleftrightarrow> container_set c = {}"
  using container.elems_finite [of c] by (auto simp: container_is_empty_def container_len_card)

text \<open>What a build step does, as seen by lookups.\<close>

lemma put_chunk_get:
  assumes "bm_ok out" and "container_ok (f h)"
  shows "bm_ok (put_chunk f h out) \<and> bm_get (put_chunk f h out) k =
    (if k = h \<and> container_set (f h) \<noteq> {} then Some (f h) else bm_get out k)"
  using assms by (simp add: put_chunk_def Let_def container_is_empty_iff bm.ok_put bm.get_put)

lemma put_chunks_get:
  assumes "\<And>h. h \<in> set hs \<Longrightarrow> container_ok (f h)"
  shows "bm_ok out \<Longrightarrow> bm_ok (fold (put_chunk f) hs out) \<and> bm_get (fold (put_chunk f) hs out) k =
    (if k \<in> set hs \<and> container_set (f k) \<noteq> {} then Some (f k) else bm_get out k)"
  using assms
proof (induction hs arbitrary: out)
  case (Cons h hs)
  then have h: "bm_ok (put_chunk f h out)"
    "bm_get (put_chunk f h out) k = (if k = h \<and> container_set (f h) \<noteq> {} then Some (f h) else bm_get out k)"
    using put_chunk_get [of out f h k] by simp_all
  show ?case using Cons.IH [OF h(1)] Cons.prems(2) h(2) by (auto split: if_split_asm)
qed simp

text \<open>Both folds over the entries of a map are such builds, over its keys.\<close>

lemma bm_get_entry: "bm_ok m \<Longrightarrow> (h, c) \<in> set m \<Longrightarrow> bm_get m h = Some c"
  by (simp add: bm.entries_get)

lemma build_entries:
  assumes "bm_ok a" and "\<And>h c. bm_get a h = Some c \<Longrightarrow> step (h, c) = put_chunk f h"
  shows "fold step a out = fold (put_chunk f) (map fst a) out"
proof -
  have "fold step a out = fold (\<lambda>p. put_chunk f (fst p)) a out"
    by (rule List.fold_cong [OF refl refl]) (use assms bm_get_entry in \<open>fastforce\<close>)
  then show ?thesis by (simp add: fold_map comp_def)
qed

lemma bm_keys: "bm_ok m \<Longrightarrow> h \<in> fst ` set m \<longleftrightarrow> bm_get m h \<noteq> None"
  by (simp add: bm.key_set)

lemma roaring_get: "roaring_ok m \<Longrightarrow> bm_get m h = Some c \<Longrightarrow> container_ok c \<and> container_set c \<noteq> {}"
  by (simp add: roaring_ok_def)

lemma roaring_of_gets:
  assumes "bm_ok out"
    and "\<And>k. bm_get out k = (if k \<in> K \<and> container_set (f k) \<noteq> {} then Some (f k) else None)"
    and "\<And>k. k \<in> K \<Longrightarrow> container_ok (f k)"
  shows "roaring_ok out" and "roaring_set out = {v. high_half v \<in> K \<and> low_half v \<in> container_set (f (high_half v))}"
  using assms by (auto simp: roaring_ok_def roaring_set_def split: if_splits)

section \<open>The operations\<close>

lemma roaring_insert_spec:
  assumes "roaring_ok m"
  shows "roaring_ok (fst (roaring_insert v m)) \<and> roaring_set (fst (roaring_insert v m)) = insert v (roaring_set m) \<and>
    (snd (roaring_insert v m) \<longleftrightarrow> v \<notin> roaring_set m)"
proof -
  define c where "c = (case bm_get m (high_half v) of Some c \<Rightarrow> c | None \<Rightarrow> new_array)"
  have c: "container_ok c" "container_set c = {l. \<exists>d. bm_get m (high_half v) = Some d \<and> l \<in> container_set d}"
    using assms roaring_get [OF assms] container.empty_ok container.elems_empty
    by (auto simp: c_def split: option.split)
  have r: "roaring_insert v m =
      (bm_put (high_half v) (fst (container_insert (low_half v) c)) m, snd (container_insert (low_half v) c))"
    by (simp add: roaring_insert_def split_halves c_def Let_def case_prod_beta)
  note i = container_insert_spec [OF c(1), of "low_half v"]
  have bm: "bm_ok m" using assms by (simp add: roaring_ok_def)
  have eq: "v = w" if "high_half w = high_half v" "low_half w = low_half v" for w
    using that join_halves by metis
  have "roaring_set (fst (roaring_insert v m)) = insert v (roaring_set m)"
    using i c(2) eq unfolding r by (auto simp: roaring_set_def bm.get_put [OF bm] split: if_splits)
  moreover have "roaring_ok (fst (roaring_insert v m))"
    using assms i unfolding r by (auto simp: roaring_ok_def bm.get_put bm.ok_put)
  moreover have "snd (roaring_insert v m) \<longleftrightarrow> v \<notin> roaring_set m"
    using i c(2) unfolding r by (simp add: roaring_set_def)
  ultimately show ?thesis by blast
qed

lemma roaring_remove_spec:
  assumes "roaring_ok m"
  shows "roaring_ok (fst (roaring_remove v m)) \<and> roaring_set (fst (roaring_remove v m)) = roaring_set m - {v} \<and>
    (snd (roaring_remove v m) \<longleftrightarrow> v \<in> roaring_set m)"
proof (cases "bm_get m (high_half v)")
  case None
  with assms show ?thesis by (auto simp: roaring_remove_def split_halves roaring_set_def)
next
  case (Some c)
  have bm: "bm_ok m" and c: "container_ok c" using assms roaring_get [OF assms Some] by (simp_all add: roaring_ok_def)
  define c' where "c' = fst (container_remove (low_half v) c)"
  note i = container_remove_spec [OF c, of "low_half v", folded c'_def]
  have r: "roaring_remove v m =
      (if \<forall>l \<in> container_set c. l = low_half v then bm_del (high_half v) m else bm_put (high_half v) c' m,
       snd (container_remove (low_half v) c))"
  proof -
    have "container_is_empty c' \<longleftrightarrow> (\<forall>l \<in> container_set c. l = low_half v)"
      using i by (auto simp: container_is_empty_iff)
    then show ?thesis by (simp add: roaring_remove_def split_halves Some case_prod_beta c'_def [symmetric])
  qed
  have get: "bm_get (fst (roaring_remove v m)) h = (if h = high_half v then
      (if \<forall>l \<in> container_set c. l = low_half v then None else Some c') else bm_get m h)" for h
    unfolding r by (simp add: bm.get_put [OF bm] bm.get_del [OF bm])
  have "w \<in> roaring_set (fst (roaring_remove v m)) \<longleftrightarrow> w \<in> roaring_set m \<and> w \<noteq> v" for w
  proof (cases "high_half w = high_half v")
    case True
    then have "w = v \<longleftrightarrow> low_half w = low_half v" using join_halves by metis
    with True Some i show ?thesis by (auto simp: roaring_set_def get)
  qed (auto simp: roaring_set_def get)
  then have "roaring_set (fst (roaring_remove v m)) = roaring_set m - {v}" by blast
  moreover have "roaring_ok (fst (roaring_remove v m))"
    using assms i unfolding r by (auto simp: roaring_ok_def bm.get_put bm.ok_put bm.get_del bm.ok_del)
  moreover have "snd (roaring_remove v m) \<longleftrightarrow> v \<in> roaring_set m"
    using i Some unfolding r by (simp add: roaring_set_def)
  ultimately show ?thesis by blast
qed

lemma roaring_contains_spec: "roaring_ok m \<Longrightarrow> roaring_contains m v \<longleftrightarrow> v \<in> roaring_set m"
  by (auto simp: roaring_contains_def split_halves roaring_set_def container_contains_spec dest: roaring_get
      split: option.splits)

lemma roaring_union_spec:
  assumes a: "roaring_ok a" and b: "roaring_ok b"
  shows "roaring_ok (roaring_union a b) \<and> roaring_set (roaring_union a b) = roaring_set a \<union> roaring_set b"
proof -
  define f where "f = (\<lambda>high. case (bm_get a high, bm_get b high) of
      (Some c, Some d) \<Rightarrow> container_union c d | (Some c, None) \<Rightarrow> c
    | (None, Some d) \<Rightarrow> d | (None, None) \<Rightarrow> new_array)"
  have f: "container_ok (f h) \<and> container_set (f h) =
      {l. (\<exists>c. bm_get a h = Some c \<and> l \<in> container_set c) \<or> (\<exists>c. bm_get b h = Some c \<and> l \<in> container_set c)}" for h
    using roaring_get [OF a, of h] roaring_get [OF b, of h] container.join_ok container.join_elems
      container.empty_ok container.elems_empty
    by (auto simp: f_def split: option.splits)
  define hs where "hs = remdups_adj (sort (map fst a @ map fst b))"
  have u: "roaring_union a b = fold (put_chunk f) hs roaring_new"
    by (simp add: roaring_union_def f_def hs_def Let_def)
  have keys: "set hs = {h. bm_get a h \<noteq> None \<or> bm_get b h \<noteq> None}"
    using bm_keys a b by (auto simp: roaring_ok_def hs_def)
  have new: "bm_ok roaring_new" "bm_get roaring_new k = None" for k
    by (simp_all add: roaring_new_def bm.ok_none bm.get_none)
  note g = put_chunks_get [of hs f, OF _ new(1), unfolded new(2), folded u]
  show ?thesis
    using roaring_of_gets [of "roaring_union a b" "set hs" f] g f
    by (auto simp: keys roaring_set_def)
qed

lemma roaring_entries_spec:
  assumes a: "roaring_ok a"
    and step: "\<And>h c. bm_get a h = Some c \<Longrightarrow> step (h, c) = put_chunk f h"
    and f: "\<And>h c. bm_get a h = Some c \<Longrightarrow> container_ok (f h) \<and> container_set (f h) = {l \<in> container_set c. P (join_value h l)}"
  shows "roaring_ok (fold step a roaring_new) \<and> roaring_set (fold step a roaring_new) = {v \<in> roaring_set a. P v}"
proof -
  have bm: "bm_ok a" using a by (simp add: roaring_ok_def)
  have r: "fold step a roaring_new = fold (put_chunk f) (map fst a) roaring_new"
    by (rule build_entries [OF bm step])
  have new: "bm_ok roaring_new" "bm_get roaring_new k = None" for k
    by (simp_all add: roaring_new_def bm.ok_none bm.get_none)
  have ok: "container_ok (f h)" if "h \<in> set (map fst a)" for h
    using that bm_keys [OF bm, of h] f by auto
  note g = put_chunks_get [of "map fst a" f, OF ok new(1), unfolded new(2), folded r]
  have "roaring_ok (fold step a roaring_new)"
    and s: "roaring_set (fold step a roaring_new) =
      {v. high_half v \<in> set (map fst a) \<and> low_half v \<in> container_set (f (high_half v))}"
    using roaring_of_gets [of "fold step a roaring_new" "set (map fst a)" f] g ok by blast+
  moreover have "v \<in> roaring_set (fold step a roaring_new) \<longleftrightarrow> v \<in> roaring_set a \<and> P v" for v
  proof -
    have "v \<in> roaring_set (fold step a roaring_new) \<longleftrightarrow>
        bm_get a (high_half v) \<noteq> None \<and> low_half v \<in> container_set (f (high_half v))"
      unfolding s using bm_keys [OF bm, of "high_half v"] by simp
    then show ?thesis
      using f [of "high_half v"] join_halves [of v] unfolding roaring_set_def [of a] by auto
  qed
  ultimately show ?thesis by blast
qed

lemma roaring_intersect_spec:
  assumes a: "roaring_ok a" and b: "roaring_ok b"
  shows "roaring_ok (roaring_intersect a b) \<and> roaring_set (roaring_intersect a b) = roaring_set a \<inter> roaring_set b"
proof -
  define f where "f = (\<lambda>h. case (bm_get a h, bm_get b h) of
      (Some c, Some d) \<Rightarrow> container_intersect c d | _ \<Rightarrow> new_array)"
  have empty: "put_chunk f h out = out" if "bm_get b h = None" for h out
    using that by (simp add: put_chunk_def f_def container_is_empty_def new_array_def split: option.split)
  have both: "put_chunk f h = put_chunk (\<lambda>_. container_intersect c d) h"
    if "bm_get a h = Some c" "bm_get b h = Some d" for h c d
    using that by (intro ext) (simp add: put_chunk_def f_def)
  have "roaring_ok (roaring_intersect a b) \<and> roaring_set (roaring_intersect a b) = {v \<in> roaring_set a. v \<in> roaring_set b}"
    unfolding roaring_intersect_def
  proof (rule roaring_entries_spec [OF a])
    fix h c assume h: "bm_get a h = Some c"
    show "(\<lambda>(high, c) out. case bm_get b high of
        Some d \<Rightarrow> put_chunk (\<lambda>_. container_intersect c d) high out | None \<Rightarrow> out) (h, c) = put_chunk f h"
      by (rule ext) (use h empty both in \<open>simp split: option.split\<close>)
    show "container_ok (f h) \<and> container_set (f h) = {l \<in> container_set c. join_value h l \<in> roaring_set b}"
      using h roaring_get [OF a h] roaring_get [OF b, of h] container.meet_ok container.meet_elems
        container.empty_ok container.elems_empty
      by (auto simp: f_def roaring_set_def split: option.split)
  qed
  then show ?thesis by auto
qed

lemma roaring_and_not_spec:
  assumes a: "roaring_ok a" and b: "roaring_ok b"
  shows "roaring_ok (roaring_and_not a b) \<and> roaring_set (roaring_and_not a b) = roaring_set a - roaring_set b"
proof -
  define keep where "keep = (\<lambda>c d. insert_if (\<lambda>v. \<not> container_contains d v) (container_iter c) new_array)"
  define f where "f = (\<lambda>h. case (bm_get a h, bm_get b h) of
      (Some c, Some d) \<Rightarrow> keep c d | (Some c, None) \<Rightarrow> c | _ \<Rightarrow> new_array)"
  have keep: "container_ok (keep c d) \<and> container_set (keep c d) = container_set c - container_set d"
    if "container_ok c" "container_ok d" for c d
    using insert_if_spec [OF container.empty_ok] that
    by (auto simp: keep_def iter_set container_contains_spec container.elems_empty)
  have "roaring_ok (roaring_and_not a b) \<and> roaring_set (roaring_and_not a b) = {v \<in> roaring_set a. v \<notin> roaring_set b}"
    unfolding roaring_and_not_def
  proof (rule roaring_entries_spec [OF a])
    fix h c assume h: "bm_get a h = Some c"
    have "\<not> container_is_empty c" using roaring_get [OF a h] by (simp add: container_is_empty_iff)
    then show "(\<lambda>(high, c) out. case bm_get b high of None \<Rightarrow> bm_put high c out
        | Some d \<Rightarrow> put_chunk (\<lambda>_. insert_if (\<lambda>v. \<not> container_contains d v) (container_iter c) new_array)
            high out) (h, c) = put_chunk f h"
      by (intro ext) (use h in \<open>auto simp: f_def keep_def put_chunk_def split: option.split\<close>)
    show "container_ok (f h) \<and> container_set (f h) = {l \<in> container_set c. join_value h l \<notin> roaring_set b}"
      using h roaring_get [OF a h] roaring_get [OF b, of h] keep
      by (auto simp: f_def roaring_set_def split: option.split)
  qed
  then show ?thesis by auto
qed

lemma roaring_iter_spec:
  "roaring_ok m \<Longrightarrow> set (roaring_iter m) = roaring_set m \<and> strict (roaring_iter m)"
proof -
  assume m: "roaring_ok m"
  then have bm: "bm_ok m" by (simp add: roaring_ok_def)
  have "v \<in> set (roaring_iter m) \<longleftrightarrow> v \<in> roaring_set m" for v
  proof
    assume "v \<in> set (roaring_iter m)"
    then obtain h c l where "(h, c) \<in> set m" "l \<in> set (container_iter c)" "v = join_value h l"
      by (auto simp: roaring_iter_def)
    with bm_get_entry [OF bm] roaring_get [OF m] show "v \<in> roaring_set m"
      by (fastforce simp: roaring_set_def iter_set)
  next
    assume "v \<in> roaring_set m"
    then obtain c where c: "bm_get m (high_half v) = Some c" "low_half v \<in> container_set c"
      by (auto simp: roaring_set_def)
    then have "(high_half v, c) \<in> set m" "low_half v \<in> set (container_iter c)"
      using bm.entries_get [OF bm] roaring_get [OF m] by (auto simp: iter_set)
    then show "v \<in> set (roaring_iter m)"
      using join_halves [of v] by (force simp: roaring_iter_def)
  qed
  moreover have "strict (roaring_iter m)"
  proof -
    have "\<forall>(h, c) \<in> set m. container_ok c"
      using bm_get_entry [OF bm] roaring_get [OF m] by blast
    moreover have "strict (map fst m)" using bm by (simp add: bm_ok_def)
    ultimately show ?thesis
    proof (induction m)
      case (Cons p m)
      obtain h c where p: "p = (h, c)" by (cases p)
      have "strict (map (join_value h) (container_iter c))"
        using Cons.prems iter_strict [of c] by (simp add: p sorted_wrt_map join_less)
      then show ?case
        using Cons by (fastforce simp: p roaring_iter_def sorted_wrt_append join_less)
    qed (simp add: roaring_iter_def)
  qed
  ultimately show ?thesis by blast
qed

interpretation roaring: set_algebra roaring_new roaring_insert roaring_remove roaring_contains
    roaring_iter roaring_set roaring_ok roaring_union roaring_intersect
  by unfold_locales
    (simp_all add: roaring_insert_spec roaring_remove_spec roaring_contains_spec roaring_iter_spec
      roaring_union_spec roaring_intersect_spec,
     simp_all add: roaring_ok_def roaring_set_def roaring_new_def bm.ok_none bm.get_none)

lemma roaring_len_card: "roaring_ok m \<Longrightarrow> roaring_len m = card (roaring_set m)"
proof -
  assume m: "roaring_ok m"
  have "length (roaring_iter m) = roaring_len m"
    by (simp add: roaring_iter_def roaring_len_def length_concat comp_def case_prod_beta iter_length)
  with roaring.listing_length [OF m] show ?thesis by simp
qed

lemma roaring_is_empty_iff: "roaring_ok m \<Longrightarrow> roaring_is_empty m \<longleftrightarrow> roaring_set m = {}"
proof -
  assume m: "roaring_ok m"
  have "roaring_set m \<noteq> {}" if "m \<noteq> []"
  proof -
    from that obtain h c m' where "m = (h, c) # m'" by (cases m) auto
    then have "bm_get m h = Some c" by (simp add: bm_get_def)
    moreover from this obtain l where "l \<in> container_set c" using roaring_get [OF m] by blast
    ultimately have "join_value h l \<in> roaring_set m" by (simp add: roaring_set_def)
    then show ?thesis by blast
  qed
  then show ?thesis by (auto simp: roaring_is_empty_def roaring_set_def bm_get_def)
qed

lemma roaring_from_spec: "roaring_ok (roaring_from vs) \<and> roaring_set (roaring_from vs) = set vs"
  using roaring.ins_all_ok [OF roaring.empty_ok, of vs]
  by (simp add: roaring_from_def roaring.ins_all_def roaring.elems_empty)

section \<open>What bitmaps guarantee\<close>

text \<open>
  C29: bitmaps are sets. Whatever mixture of arrays and bitsets two well-formed bitmaps are made
  of, every operation on them is the set operation it is named after, keeps them well-formed,
  and the iterator lists the members once each, in increasing order.
\<close>

theorem bitmaps_are_sets:
  assumes "roaring_ok a" and "roaring_ok b"
  shows "roaring_set (roaring_union a b) = roaring_set a \<union> roaring_set b \<and> roaring_ok (roaring_union a b) \<and>
    roaring_set (roaring_intersect a b) = roaring_set a \<inter> roaring_set b \<and> roaring_ok (roaring_intersect a b) \<and>
    roaring_set (roaring_and_not a b) = roaring_set a - roaring_set b \<and> roaring_ok (roaring_and_not a b) \<and>
    roaring_set (fst (roaring_insert v a)) = insert v (roaring_set a) \<and> roaring_ok (fst (roaring_insert v a)) \<and>
    roaring_set (fst (roaring_remove v a)) = roaring_set a - {v} \<and> roaring_ok (fst (roaring_remove v a)) \<and>
    (roaring_contains a v \<longleftrightarrow> v \<in> roaring_set a) \<and> roaring_len a = card (roaring_set a) \<and>
    roaring_iter a = sorted_list_of_set (roaring_set a)"
proof -
  have "roaring_iter a = sorted_list_of_set (roaring_set a)"
    by (metis roaring_iter_spec [OF assms(1)] sorted_list_of_set.idem_if_sorted_distinct
        sorted_list_of_set.sorted_key_list_of_set_unique strict_sorted_iff strict_sorted_equal
        List.finite_set sorted_list_of_set.set_sorted_key_list_of_set
        sorted_list_of_set.strict_sorted_key_list_of_set)
  then show ?thesis
    using roaring_union_spec [OF assms] roaring_intersect_spec [OF assms] roaring_and_not_spec [OF assms]
      roaring_insert_spec [OF assms(1), of v] roaring_remove_spec [OF assms(1), of v]
      roaring_contains_spec [OF assms(1), of v] roaring_len_card [OF assms(1)] by blast
qed

lemma bitmaps_are_sets_witness:
  "roaring_iter (roaring_and_not (roaring_union (roaring_from [70000, 5]) (roaring_from [1, 5])) (roaring_from [5])) =
     [1, 70000]"
proof -
  let ?a = "roaring_from [70000, 5]" and ?b = "roaring_from [1, 5]" and ?c = "roaring_from [5]"
  have ok: "roaring_ok ?a" "roaring_ok ?b" "roaring_ok ?c"
    and s: "roaring_set ?a = {70000, 5}" "roaring_set ?b = {1, 5}" "roaring_set ?c = {5}"
    using roaring_from_spec by simp_all
  from bitmaps_are_sets [OF ok(1,2)] have u: "roaring_ok (roaring_union ?a ?b)"
    "roaring_set (roaring_union ?a ?b) = {1, 5, 70000}" by (auto simp: s)
  from bitmaps_are_sets [OF u(1) ok(3)] have n: "roaring_ok (roaring_and_not (roaring_union ?a ?b) ?c)"
    "roaring_set (roaring_and_not (roaring_union ?a ?b) ?c) = {1, 70000}" by (auto simp: s u)
  from bitmaps_are_sets [OF n(1,1)] have "roaring_iter (roaring_and_not (roaring_union ?a ?b) ?c) =
      sorted_list_of_set {1, 70000}" unfolding n(2) by blast
  also have "\<dots> = [1, 70000]" by simp
  finally show ?thesis .
qed

end
