(* ===== verification/Gems_Extent.thy ===== *)
theory Gems_Extent
  imports Gems_Cursor
begin

text \<open>
  The on-disk format of \<^verbatim>\<open>gems-storage\<close>: block classes, the extent header and the
  allocation bitmap (\<^verbatim>\<open>extent.rs\<close>), and the address of a stored record
  (\<^verbatim>\<open>slot.rs\<close>). A block class is its index; the bitmap works on the 4096 bytes it
  borrows from the extent, and panics on a slot outside them.
\<close>

unbundle bit_operations_syntax

section \<open>Block classes\<close>

definition DATA_REGION_SIZE :: nat where "DATA_REGION_SIZE = 16 * 1024 * 1024"
definition EXTENT_HEADER_LEN :: nat where "EXTENT_HEADER_LEN = 4 + 2 + 1 + 1 + 4 + 4"
definition BITMAP_BYTES :: nat where "BITMAP_BYTES = 4096"
definition DATA_OFFSET :: nat where "DATA_OFFSET = EXTENT_HEADER_LEN + BITMAP_BYTES"
definition EXTENT_SIZE :: nat where "EXTENT_SIZE = EXTENT_HEADER_LEN + BITMAP_BYTES + DATA_REGION_SIZE"
definition MIN_BLOCK_SIZE :: nat where "MIN_BLOCK_SIZE = 512"
definition MAX_BLOCK_SIZE :: nat where "MAX_BLOCK_SIZE = DATA_REGION_SIZE"
definition CLASS_COUNT :: nat where "CLASS_COUNT = 16"

lemmas extent_consts = DATA_REGION_SIZE_def EXTENT_HEADER_LEN_def BITMAP_BYTES_def DATA_OFFSET_def
  EXTENT_SIZE_def MIN_BLOCK_SIZE_def MAX_BLOCK_SIZE_def CLASS_COUNT_def

type_synonym block_class = nat

text \<open>\<^verbatim>\<open>is_power_of_two\<close> and \<^verbatim>\<open>trailing_zeros\<close> of a \<^verbatim>\<open>u32\<close>.\<close>

definition is_power_of_two :: "nat \<Rightarrow> bool" where
  "is_power_of_two n = list_ex (\<lambda>k. n = 2 ^ k) [0..<32]"

definition trailing_zeros :: "nat \<Rightarrow> nat" where
  "trailing_zeros n = length (takeWhile (\<lambda>k. \<not> bit n k) [0..<32])"

definition from_block_size :: "nat \<Rightarrow> block_class result" where
  "from_block_size sz =
     (if \<not> is_power_of_two sz \<or> \<not> (MIN_BLOCK_SIZE \<le> sz \<and> sz \<le> MAX_BLOCK_SIZE)
      then Err (InvalidValue ''block size must be a power of two between 512B and 16MiB'')
      else Ok (trailing_zeros sz - trailing_zeros MIN_BLOCK_SIZE))"

definition class_from_index :: "nat \<Rightarrow> block_class result" where
  "class_from_index index =
     (if index \<ge> CLASS_COUNT then Err (InvalidValue ''block class index out of range'') else Ok index)"

definition block_size :: "block_class \<Rightarrow> nat" where
  "block_size c = MIN_BLOCK_SIZE * 2 ^ c"

definition slots_per_extent :: "block_class \<Rightarrow> nat" where
  "slots_per_extent c = DATA_REGION_SIZE div block_size c"

text \<open>The loop of \<^verbatim>\<open>for_size\<close>: after \<open>k\<close> rounds the block size has doubled \<open>k\<close> times.\<close>

function for_size_loop :: "nat \<Rightarrow> nat \<Rightarrow> block_class result" where
  "for_size_loop k sz =
     (let bs = MIN_BLOCK_SIZE * 2 ^ k in
      if bs < sz then
        (if bs * 2 > MAX_BLOCK_SIZE
         then Err (InvalidValue ''value exceeds the largest block class (16MiB); oversized-value chaining is not implemented'')
         else for_size_loop (Suc k) sz)
      else from_block_size bs)"
  by pat_completeness auto
termination
  by (relation "measure (\<lambda>(k, sz). sz - MIN_BLOCK_SIZE * 2 ^ k)") (auto simp: MIN_BLOCK_SIZE_def intro: diff_less_mono2)

declare for_size_loop.simps [simp del]

definition for_size :: "nat \<Rightarrow> block_class result" where
  "for_size sz = for_size_loop 0 sz"

lemma block_size_power: "block_size c = 2 ^ (9 + c)"
  by (simp add: block_size_def MIN_BLOCK_SIZE_def power_add)

lemma trailing_zeros_power: "k < 32 \<Longrightarrow> trailing_zeros (2 ^ k) = k"
proof -
  assume "k < 32"
  then have "[0..<32] = [0..<k] @ k # [Suc k..<32]"
    using upt_add_eq_append [of 0 k "32 - k"] upt_conv_Cons [of k 32] by (simp del: upt_rec_numeral)
  moreover have "takeWhile (\<lambda>j. \<not> bit (2 ^ k :: nat) j) ([0..<k] @ k # [Suc k..<32]) = [0..<k]"
    by (subst takeWhile_append2) (auto simp: bit_exp_iff)
  ultimately show ?thesis by (simp add: trailing_zeros_def del: upt_rec_numeral)
qed

lemma power_classes: "c < 16 \<Longrightarrow> from_block_size (block_size c) = Ok c"
proof -
  assume c: "c < 16"
  have "MIN_BLOCK_SIZE = 2 ^ 9" "MAX_BLOCK_SIZE = 2 ^ 24" by (simp_all add: extent_consts)
  moreover have "(2 :: nat) ^ 9 \<le> 2 ^ (9 + c)" "(2 :: nat) ^ (9 + c) \<le> 2 ^ 24"
    using c by (intro power_increasing; simp)+
  moreover have "trailing_zeros MIN_BLOCK_SIZE = 9"
    using trailing_zeros_power [of 9] \<open>MIN_BLOCK_SIZE = 2 ^ 9\<close> by (simp only:)
  moreover have "is_power_of_two (2 ^ (9 + c))"
    using c unfolding is_power_of_two_def list_ex_iff by (intro bexI [of _ "9 + c"]) (simp_all del: upt_rec_numeral)
  ultimately show ?thesis
    using c by (simp add: from_block_size_def block_size_power trailing_zeros_power
        del: power_numeral numeral_power_eq_of_nat_cancel_iff)
qed

lemma for_size_loop_spec:
  assumes "c < 16" and "sz \<le> block_size c" and "\<And>d. d < c \<Longrightarrow> block_size d < sz"
  shows "k \<le> c \<Longrightarrow> for_size_loop k sz = Ok c"
proof (induction "c - k" arbitrary: k)
  case 0
  then show ?case
    using assms power_classes [of c] by (subst for_size_loop.simps) (simp add: block_size_def Let_def)
next
  case (Suc n)
  then have "k < c" by simp
  then have "block_size k < sz" using assms(3) by blast
  moreover have "block_size k * 2 \<le> MAX_BLOCK_SIZE"
  proof -
    have "(2 :: nat) ^ Suc k \<le> 2 ^ 15" using \<open>k < c\<close> assms(1) by (intro power_increasing) simp_all
    then show ?thesis by (simp add: block_size_def MAX_BLOCK_SIZE_def MIN_BLOCK_SIZE_def DATA_REGION_SIZE_def)
  qed
  ultimately show ?case
    using Suc by (subst for_size_loop.simps) (simp add: block_size_def Let_def)
qed

text \<open>The smallest class that fits; the loop stops in front of the first size above 16 MiB.\<close>

lemma for_size_ok:
  assumes "sz \<le> MAX_BLOCK_SIZE"
  shows "\<exists>c < 16. for_size sz = Ok c \<and> sz \<le> block_size c \<and> (\<forall>d < c. block_size d < sz)"
proof -
  have max: "sz \<le> block_size 15" using assms by (simp add: block_size_def extent_consts)
  define c where "c = (LEAST c. sz \<le> block_size c)"
  have c: "sz \<le> block_size c" unfolding c_def by (rule LeastI [of "\<lambda>c. sz \<le> block_size c", OF max])
  have "c \<le> 15" unfolding c_def by (rule Least_le [of "\<lambda>c. sz \<le> block_size c", OF max])
  have least: "block_size d < sz" if "d < c" for d
    using not_less_Least [of d "\<lambda>c. sz \<le> block_size c"] that by (simp add: c_def)
  have "for_size sz = Ok c"
    unfolding for_size_def by (rule for_size_loop_spec) (use c least \<open>c \<le> 15\<close> in auto)
  with c least \<open>c \<le> 15\<close> show ?thesis by (intro exI [of _ c]) auto
qed

lemma for_size_too_large:
  assumes "MAX_BLOCK_SIZE < sz"
  shows "for_size sz = Err (InvalidValue ''value exceeds the largest block class (16MiB); oversized-value chaining is not implemented'')"
proof -
  have "k \<le> 15 \<Longrightarrow> for_size_loop k sz = Err (InvalidValue ''value exceeds the largest block class (16MiB); oversized-value chaining is not implemented'')" for k
  proof (induction "15 - k" arbitrary: k)
    case 0
    then have "k = 15" by simp
    with assms show ?case by (subst for_size_loop.simps) (simp add: extent_consts Let_def)
  next
    case (Suc n)
    have "(2 :: nat) ^ k \<le> 2 ^ 15" using Suc.prems by (intro power_increasing) simp_all
    then have "MIN_BLOCK_SIZE * 2 ^ k < sz" using assms by (simp add: extent_consts)
    with Suc show ?case by (subst for_size_loop.simps) (simp add: Let_def)
  qed
  then show ?thesis by (simp add: for_size_def)
qed

lemma slots_power: "c < 16 \<Longrightarrow> slots_per_extent c = 2 ^ (15 - c)"
proof -
  assume "c < 16"
  then have "DATA_REGION_SIZE = 2 ^ (15 - c) * 2 ^ (9 + c)"
    unfolding power_add [symmetric] by (simp add: DATA_REGION_SIZE_def)
  moreover have "0 < (2 :: nat) ^ (9 + c)" by simp
  ultimately show ?thesis unfolding slots_per_extent_def block_size_power by (metis div_mult_self_is_m)
qed

lemma class_fills_region: "c < 16 \<Longrightarrow> slots_per_extent c * block_size c = DATA_REGION_SIZE"
  unfolding slots_power block_size_power power_add [symmetric] by (simp add: DATA_REGION_SIZE_def)

lemma slots_bits: "c < 16 \<Longrightarrow> 0 < slots_per_extent c \<and> slots_per_extent c \<le> 8 * BITMAP_BYTES"
proof -
  assume "c < 16"
  then have "(2 :: nat) ^ (15 - c) \<le> 2 ^ 15" by (intro power_increasing) simp_all
  with \<open>c < 16\<close> show ?thesis by (simp add: slots_power BITMAP_BYTES_def)
qed

section \<open>The extent header\<close>

record extent_header =
  ext_magic :: nat
  ext_version :: nat
  ext_class :: nat
  ext_reserved :: nat
  slot_count :: nat
  free_count :: nat

definition EXTENT_MAGIC :: nat where "EXTENT_MAGIC = 0x47454d31"

definition extent_header_new :: "block_class \<Rightarrow> extent_header" where
  "extent_header_new c =
     \<lparr> ext_magic = EXTENT_MAGIC, ext_version = 1, ext_class = c, ext_reserved = 0,
       slot_count = slots_per_extent c, free_count = slots_per_extent c \<rparr>"

text \<open>The bytes the manager writes, field by field.\<close>

definition extent_header_bytes :: "extent_header \<Rightarrow> bytes" where
  "extent_header_bytes h =
     le_bytes 4 (ext_magic h) @ le_bytes 2 (ext_version h) @ [of_nat (ext_class h)]
     @ [of_nat (ext_reserved h)] @ le_bytes 4 (slot_count h) @ le_bytes 4 (free_count h)"

section \<open>The allocation bitmap\<close>

definition bitmap_get :: "bytes \<Rightarrow> nat \<Rightarrow> bool result" where
  "bitmap_get bs slot =
     omap (\<lambda>b. drop_bit (slot mod 8) b AND 1 \<noteq> 0) (index_at bs (slot div 8))"

definition bitmap_set :: "bytes \<Rightarrow> nat \<Rightarrow> bool \<Rightarrow> bytes result" where
  "bitmap_set bs slot value =
     omap (\<lambda>b. bs[slot div 8 := (if value then b OR push_bit (slot mod 8) 1
                                   else b AND NOT (push_bit (slot mod 8) 1))])
       (index_at bs (slot div 8))"

text \<open>The loop of \<^verbatim>\<open>allocate\<close>, with the number of slots left to look at.\<close>

primrec alloc_scan :: "nat \<Rightarrow> nat \<Rightarrow> bytes \<Rightarrow> (bytes \<times> nat option) result" where
  "alloc_scan 0 slot bs = Ok (bs, None)"
| "alloc_scan (Suc n) slot bs =
     obind (bitmap_get bs slot) (\<lambda>taken.
     if taken then alloc_scan n (slot + 1) bs
     else omap (\<lambda>bs'. (bs', Some slot)) (bitmap_set bs slot True))"

definition bitmap_allocate :: "bytes \<Rightarrow> nat \<Rightarrow> (bytes \<times> nat option) result" where
  "bitmap_allocate bs count = alloc_scan count 0 bs"

definition bitmap_free :: "bytes \<Rightarrow> nat \<Rightarrow> bytes result" where
  "bitmap_free bs slot = bitmap_set bs slot False"

definition slot_taken :: "bytes \<Rightarrow> nat \<Rightarrow> bool" where
  "slot_taken bs s \<longleftrightarrow> bit (bs ! (s div 8)) (s mod 8)"

lemma bitmap_get_taken:
  "s < 8 * length bs \<Longrightarrow> bitmap_get bs s = Ok (slot_taken bs s)"
proof -
  assume "s < 8 * length bs"
  then have "s div 8 < length bs" by simp
  then show ?thesis
    by (simp add: bitmap_get_def index_at_def slot_taken_def and_one_eq mod_2_eq_odd bit_iff_odd_drop_bit)
qed

lemma bitmap_set_ok:
  assumes "s < 8 * length bs"
  shows "\<exists>bs'. bitmap_set bs s v = Ok bs' \<and> length bs' = length bs \<and>
    (\<forall>t < 8 * length bs. slot_taken bs' t \<longleftrightarrow> (if t = s then v else slot_taken bs t))"
proof -
  let ?b = "bs ! (s div 8)"
  define b' where "b' = (if v then ?b OR push_bit (s mod 8) 1 else ?b AND NOT (push_bit (s mod 8) 1))"
  have s: "s div 8 < length bs" using assms by simp
  have r: "bitmap_set bs s v = Ok (bs[s div 8 := b'])"
    using s by (simp add: bitmap_set_def index_at_def b'_def)
  have b': "bit b' k \<longleftrightarrow> (if k = s mod 8 then v else bit ?b k)" if "k < 8" for k
    using that by (auto simp: b'_def bit_or_iff bit_and_iff bit_not_iff bit_exp_iff)
  have "slot_taken (bs[s div 8 := b']) t \<longleftrightarrow> (if t = s then v else slot_taken bs t)" for t
  proof (cases "t div 8 = s div 8")
    case True
    then have "t = s \<longleftrightarrow> t mod 8 = s mod 8" by (metis div_mult_mod_eq)
    with True s b' [of "t mod 8"] show ?thesis by (simp add: slot_taken_def)
  next
    case False
    then show ?thesis by (auto simp: slot_taken_def)
  qed
  with r show ?thesis by auto
qed

lemma alloc_scan_spec:
  assumes "slot + n \<le> 8 * length bs"
  shows "(\<exists>t bs'. alloc_scan n slot bs = Ok (bs', Some t) \<and> slot \<le> t \<and> t < slot + n \<and> \<not> slot_taken bs t \<and>
      (\<forall>u. slot \<le> u \<longrightarrow> u < t \<longrightarrow> slot_taken bs u) \<and> bitmap_set bs t True = Ok bs') \<or>
    (alloc_scan n slot bs = Ok (bs, None) \<and> (\<forall>u. slot \<le> u \<longrightarrow> u < slot + n \<longrightarrow> slot_taken bs u))"
  using assms
proof (induction n arbitrary: slot)
  case 0
  then show ?case by simp
next
  case (Suc n)
  then have get: "bitmap_get bs slot = Ok (slot_taken bs slot)" by (intro bitmap_get_taken) simp
  show ?case
  proof (cases "slot_taken bs slot")
    case True
    have first: "alloc_scan (Suc n) slot bs = alloc_scan n (slot + 1) bs" using get True by simp
    have up: "slot_taken bs u" if "\<forall>u. slot + 1 \<le> u \<longrightarrow> u < m \<longrightarrow> slot_taken bs u" "slot \<le> u" "u < m" for u m
      using that True by (cases "u = slot") simp_all
    have "slot + 1 + n \<le> 8 * length bs" using Suc.prems by simp
    from Suc.IH [OF this] show ?thesis
    proof (elim disjE exE conjE)
      fix t bs' assume t: "alloc_scan n (slot + 1) bs = Ok (bs', Some t)" "slot + 1 \<le> t" "t < slot + 1 + n"
        "\<not> slot_taken bs t" "bitmap_set bs t True = Ok bs'" and u: "\<forall>u. slot + 1 \<le> u \<longrightarrow> u < t \<longrightarrow> slot_taken bs u"
      have "slot \<le> t" "t < slot + Suc n" using t(2,3) by simp_all
      moreover have "\<forall>v. slot \<le> v \<longrightarrow> v < t \<longrightarrow> slot_taken bs v" using up [OF u] by blast
      ultimately show ?thesis unfolding first using t by blast
    next
      assume t: "alloc_scan n (slot + 1) bs = Ok (bs, None)" and u: "\<forall>u. slot + 1 \<le> u \<longrightarrow> u < slot + 1 + n \<longrightarrow> slot_taken bs u"
      have "\<forall>v. slot \<le> v \<longrightarrow> v < slot + Suc n \<longrightarrow> slot_taken bs v" using up [OF u] by simp
      with t show ?thesis unfolding first by blast
    qed
  next
    case False
    obtain bs' where "bitmap_set bs slot True = Ok bs'" using bitmap_set_ok [of slot bs True] Suc.prems by auto
    with get False have "alloc_scan (Suc n) slot bs = Ok (bs', Some slot)" by simp
    moreover have "\<forall>u. slot \<le> u \<longrightarrow> u < slot \<longrightarrow> slot_taken bs u" by simp
    ultimately show ?thesis using False \<open>bitmap_set bs slot True = Ok bs'\<close>
      by (intro disjI1 exI [of _ slot] exI [of _ bs']) simp
  qed
qed

lemma bitmap_allocate_spec:
  assumes "n \<le> 8 * length bs"
  shows "(\<exists>t bs'. bitmap_allocate bs n = Ok (bs', Some t) \<and> t < n \<and> \<not> slot_taken bs t \<and>
      (\<forall>u < t. slot_taken bs u) \<and> length bs' = length bs \<and>
      (\<forall>u < 8 * length bs. slot_taken bs' u \<longleftrightarrow> u = t \<or> slot_taken bs u)) \<or>
    (bitmap_allocate bs n = Ok (bs, None) \<and> (\<forall>u < n. slot_taken bs u))"
proof -
  from alloc_scan_spec [of 0 n bs] assms consider
      t bs' where "alloc_scan n 0 bs = Ok (bs', Some t)" "t < n" "\<not> slot_taken bs t"
        "\<forall>u < t. slot_taken bs u" "bitmap_set bs t True = Ok bs'"
    | "alloc_scan n 0 bs = Ok (bs, None)" "\<forall>u < n. slot_taken bs u" by auto
  then show ?thesis
  proof cases
    case (1 t bs')
    then have "length bs' = length bs \<and> (\<forall>u < 8 * length bs. slot_taken bs' u \<longleftrightarrow> u = t \<or> slot_taken bs u)"
      using bitmap_set_ok [of t bs True] assms by simp
    with 1 show ?thesis unfolding bitmap_allocate_def by blast
  next
    case 2
    then show ?thesis by (simp add: bitmap_allocate_def)
  qed
qed

section \<open>Addresses\<close>

record slot_pointer =
  file_id :: nat
  extent_index :: nat
  slot_index :: nat
  ptr_class :: nat

definition SLOT_POINTER_LEN :: nat where "SLOT_POINTER_LEN = 4 + 4 + 4 + 1"

definition slot_encode :: "slot_pointer \<Rightarrow> bytes" where
  "slot_encode p =
     le_bytes 4 (file_id p) @ le_bytes 4 (extent_index p) @ le_bytes 4 (slot_index p)
     @ [of_nat (ptr_class p)]"

definition slot_decode :: "bytes \<Rightarrow> slot_pointer result" where
  "slot_decode bs =
     obind (field_at bs 0 4) (\<lambda>f. obind (field_at bs 4 4) (\<lambda>e. obind (field_at bs 8 4) (\<lambda>s.
     obind (index_at bs 12) (\<lambda>c.
     Ok \<lparr> file_id = le_val f, extent_index = le_val e, slot_index = le_val s, ptr_class = unat c \<rparr>))))"

definition slot_pointer_ok :: "slot_pointer \<Rightarrow> bool" where
  "slot_pointer_ok p \<longleftrightarrow> file_id p \<le> u32_max \<and> extent_index p \<le> u32_max \<and> slot_index p \<le> u32_max \<and>
     ptr_class p < 256"

lemma length_slot_encode [simp]: "length (slot_encode p) = SLOT_POINTER_LEN"
  by (simp add: slot_encode_def SLOT_POINTER_LEN_def)

lemma slot_decode_encode: "slot_pointer_ok p \<Longrightarrow> slot_decode (slot_encode p) = Ok p"
proof -
  assume ok: "slot_pointer_ok p"
  have "has_at (slot_encode p) 0 (le_bytes 4 (file_id p))" "has_at (slot_encode p) 4 (le_bytes 4 (extent_index p))"
    "has_at (slot_encode p) 8 (le_bytes 4 (slot_index p))" "12 < length (slot_encode p)"
    "slot_encode p ! 12 = of_nat (ptr_class p)"
    using has_at_self [of "slot_encode p"] by (simp_all add: slot_encode_def)
  with ok show ?thesis
    by (simp add: slot_decode_def has_at_field slot_pointer_ok_def le_val_le_bytes index_at_def unat_of_nat_u8)
qed

end
