(* ===== verification/Gems_Mapped_File.thy ===== *)
theory Gems_Mapped_File
  imports Gems_Cursor
begin

text \<open>
  A file mapped into memory, as both the extent file (\<^verbatim>\<open>gems-storage/src/file.rs\<close>)
  and the page file of the indexes (\<^verbatim>\<open>gems-index/src/pager.rs\<close>) hold one: the bytes seen
  through the mapping, the bytes known to be on disk, the length of the file and of the mapping,
  and its protection. \<open>ftruncate\<close>, \<open>mmap\<close> and \<open>msync\<close> are the system calls of those
  files with the behaviour POSIX documents: a file grows by zeros, and a synchronised range reaches
  the disk. The size of a page is a parameter, a power of two. A store through a mapping made
  without \<open>PROT_WRITE\<close> faults, which counts as a panic.
\<close>

unbundle bit_operations_syntax

section \<open>Memory\<close>

type_synonym memory = "nat \<Rightarrow> u8"

definition mem_read :: "memory \<Rightarrow> nat \<Rightarrow> nat \<Rightarrow> bytes" where
  "mem_read m a n = map m [a..<a + n]"

definition mem_write :: "nat \<Rightarrow> bytes \<Rightarrow> memory \<Rightarrow> memory" where
  "mem_write a bs m = (\<lambda>i. if a \<le> i \<and> i < a + length bs then bs ! (i - a) else m i)"

lemma length_mem_read [simp]: "length (mem_read m a n) = n"
  by (simp add: mem_read_def)

lemma nth_mem_read [simp]: "i < n \<Longrightarrow> mem_read m a n ! i = m (a + i)"
  by (simp add: mem_read_def)

lemma mem_read_0 [simp]: "mem_read m a 0 = []"
  by (simp add: mem_read_def)

lemma mem_read_cong: "(\<And>i. a \<le> i \<Longrightarrow> i < a + n \<Longrightarrow> m i = m' i) \<Longrightarrow> mem_read m a n = mem_read m' a n"
  by (simp add: mem_read_def)

text \<open>What was written is read back; a disjoint range does not change.\<close>

lemma mem_read_written [simp]: "n = length bs \<Longrightarrow> mem_read (mem_write a bs m) a n = bs"
  by (rule nth_equalityI) (simp_all add: mem_write_def)

lemma mem_read_prefix: "n \<le> length bs \<Longrightarrow> mem_read (mem_write a bs m) a n = take n bs"
  by (rule nth_equalityI) (simp_all add: mem_write_def)

lemma mem_read_disjoint:
  "a + n \<le> b \<or> b + length bs \<le> a \<Longrightarrow> mem_read (mem_write b bs m) a n = mem_read m a n"
  by (rule mem_read_cong) (auto simp: mem_write_def)

lemma mem_read_inner:
  "a \<le> b \<Longrightarrow> b + length bs \<le> a + n \<Longrightarrow>
     mem_read (mem_write b bs m) a n =
       take (b - a) (mem_read m a n) @ bs @ drop (b - a + length bs) (mem_read m a n)"
  by (rule nth_equalityI) (auto simp: mem_write_def nth_append not_less algebra_simps)

lemma take_mem_read: "k \<le> n \<Longrightarrow> take k (mem_read m a n) = mem_read m a k"
  by (rule nth_equalityI) simp_all

lemma drop_mem_read: "drop k (mem_read m a n) = mem_read m (a + k) (n - k)"
  by (rule nth_equalityI) (simp_all add: add.assoc)

lemma mem_write_outside: "i < a \<or> a + length bs \<le> i \<Longrightarrow> mem_write a bs m i = m i"
  by (auto simp: mem_write_def)

lemma mem_write_same [simp]: "mem_write a (mem_read m a n) m = m"
  by (rule ext) (auto simp: mem_write_def)

lemma mem_write_append: "mem_write (a + length bs) cs (mem_write a bs m) = mem_write a (bs @ cs) m"
  by (rule ext) (auto simp: mem_write_def nth_append)

section \<open>Page rounding\<close>

text \<open>\<^verbatim>\<open>(len + page - 1) & !(page - 1)\<close> on \<^verbatim>\<open>usize\<close>.\<close>

definition page_floor :: "nat \<Rightarrow> nat \<Rightarrow> nat" where
  "page_floor page n = unat ((of_nat n :: 64 word) AND NOT (of_nat page - 1))"

definition round_up_to_os_page :: "nat \<Rightarrow> nat \<Rightarrow> nat" where
  "round_up_to_os_page page n = unat ((of_nat n + of_nat page - 1 :: 64 word) AND NOT (of_nat page - 1))"

definition page_size_ok :: "nat \<Rightarrow> bool" where
  "page_size_ok page \<longleftrightarrow> (\<exists>k < 64. page = 2 ^ k)"

lemma and_not_mask_word: "k < 64 \<Longrightarrow> n < 2 ^ 64 \<Longrightarrow>
   unat ((of_nat n :: 64 word) AND NOT (of_nat (2 ^ k) - 1)) = n div 2 ^ k * 2 ^ k"
proof -
  assume k: "k < 64" and n: "n < 2 ^ 64"
  define w :: "64 word" where "w = of_nat n"
  have m: "(of_nat (2 ^ k) - 1 :: 64 word) = mask k" by (simp add: mask_eq_exp_minus_1)
  have w: "unat w = n" using n by (simp add: w_def unat_of_nat)
  have "unat (w AND NOT (mask k)) = push_bit k (drop_bit k (unat w))"
  proof (rule bit_eqI)
    fix i
    show "bit (unat (w AND NOT (mask k))) i \<longleftrightarrow> bit (push_bit k (drop_bit k (unat w))) i"
      using bit_imp_le_length [of w i]
      by (auto simp: bit_unsigned_iff bit_and_iff bit_not_iff bit_mask_iff bit_push_bit_iff bit_drop_bit_eq)
  qed
  also have "\<dots> = n div 2 ^ k * 2 ^ k" by (simp add: w push_bit_eq_mult drop_bit_eq_div)
  finally show ?thesis by (simp only: m w_def)
qed

lemma page_floor_eq: "page_size_ok page \<Longrightarrow> n < 2 ^ 64 \<Longrightarrow> page_floor page n = n div page * page"
  unfolding page_size_ok_def page_floor_def using and_not_mask_word by blast

lemma round_up_eq:
  assumes "page_size_ok page" and "n + page \<le> 2 ^ 64"
  shows "round_up_to_os_page page n = (n + page - 1) div page * page"
proof -
  obtain k where k: "k < 64" "page = 2 ^ k" using assms(1) by (auto simp: page_size_ok_def)
  then have "0 < page" by simp
  then have "n + page - 1 < 2 ^ 64" using assms(2) by linarith
  have "(of_nat n + of_nat page - 1 :: 64 word) = of_nat (n + page - 1)"
    using \<open>0 < page\<close> by (simp add: of_nat_diff)
  with and_not_mask_word [OF k(1) \<open>n + page - 1 < 2 ^ 64\<close>] k(2) show ?thesis
    by (simp add: round_up_to_os_page_def)
qed

lemma ceil_bounds: "0 < (p :: nat) \<Longrightarrow> n \<le> (n + p - 1) div p * p \<and> (n + p - 1) div p * p < n + p"
proof -
  assume p: "0 < p"
  have "(n + p - 1) div p * p + (n + p - 1) mod p = n + p - 1" by (rule div_mult_mod_eq)
  moreover have "(n + p - 1) mod p < p" using p by simp
  ultimately show ?thesis using p by linarith
qed

lemma round_up_bounds:
  assumes "page_size_ok page" and "n + page \<le> 2 ^ 64"
  shows "n \<le> round_up_to_os_page page n" "round_up_to_os_page page n < n + page"
    "page dvd round_up_to_os_page page n"
proof -
  have "0 < page" using assms(1) by (auto simp: page_size_ok_def)
  from ceil_bounds [OF this, of n] show "n \<le> round_up_to_os_page page n" "round_up_to_os_page page n < n + page"
    unfolding round_up_eq [OF assms] by blast+
qed (unfold round_up_eq [OF assms], rule dvd_triv_right)

section \<open>Mapped files\<close>

record mapped_file =
  mem :: memory
  synced :: memory
  file_len :: nat
  mapped_len :: nat
  prot_write :: bool

text \<open>A file at rest: its bytes and its length.\<close>

type_synonym disk_file = "memory \<times> nat"

definition disk_image :: "'a mapped_file_scheme \<Rightarrow> disk_file" where
  "disk_image f = (mem f, file_len f)"

text \<open>What a crash may leave: only what was synchronised.\<close>

definition crash_image :: "'a mapped_file_scheme \<Rightarrow> disk_file" where
  "crash_image f = (synced f, file_len f)"

definition ftruncate :: "nat \<Rightarrow> 'a mapped_file_scheme \<Rightarrow> ('a mapped_file_scheme) result" where
  "ftruncate n f =
     (if \<not> prot_write f then Err (Io ''Invalid argument'')
      else let cut = (\<lambda>m i. if i < min n (file_len f) then m i else 0) in
        Ok (f\<lparr> mem := cut (mem f), synced := cut (synced f), file_len := n \<rparr>))"

definition map_len :: "nat \<Rightarrow> 'a mapped_file_scheme \<Rightarrow> ('a mapped_file_scheme) result" where
  "map_len n f = (if n = 0 then Err (Io ''Invalid argument'') else Ok (f\<lparr> mapped_len := n \<rparr>))"

definition msync :: "nat \<Rightarrow> nat \<Rightarrow> 'a mapped_file_scheme \<Rightarrow> 'a mapped_file_scheme" where
  "msync a n f = f\<lparr> synced := (\<lambda>i. if a \<le> i \<and> i < a + n then mem f i else synced f i) \<rparr>"

definition sync_range :: "nat \<Rightarrow> nat \<Rightarrow> nat \<Rightarrow> 'a mapped_file_scheme \<Rightarrow> ('a mapped_file_scheme) result" where
  "sync_range page off n f =
     (let aligned_start = page_floor page off;
          aligned_end = round_up_to_os_page page (off + n) in
      if mapped_len f < aligned_start then Panic
      else Ok (msync aligned_start (min (aligned_end - aligned_start) (mapped_len f - aligned_start)) f))"

text \<open>\<^verbatim>\<open>&slice[a..a + n]\<close> of the mapping, and copying a slice into it.\<close>

definition file_slice :: "nat \<Rightarrow> nat \<Rightarrow> 'a mapped_file_scheme \<Rightarrow> bytes result" where
  "file_slice a n f = (if a + n \<le> mapped_len f then Ok (mem_read (mem f) a n) else Panic)"

definition file_write :: "nat \<Rightarrow> bytes \<Rightarrow> 'a mapped_file_scheme \<Rightarrow> ('a mapped_file_scheme) result" where
  "file_write a bs f =
     (if a + length bs \<le> mapped_len f \<and> prot_write f then Ok (f\<lparr> mem := mem_write a bs (mem f) \<rparr>)
      else Panic)"

lemma sync_range_spec:
  assumes "page_size_ok page" and "off + n \<le> mapped_len f" and "mapped_len f + page \<le> 2 ^ 64"
  shows "\<exists>f'. sync_range page off n f = Ok f' \<and> f' = f\<lparr> synced := synced f' \<rparr> \<and>
    (\<forall>i. off \<le> i \<longrightarrow> i < off + n \<longrightarrow> synced f' i = mem f i) \<and>
    (\<forall>i. synced f' i = synced f i \<or> synced f' i = mem f i) \<and>
    (page dvd mapped_len f \<longrightarrow> (\<forall>i. i div page < off div page \<or> off + n \<le> i div page * page \<longrightarrow> synced f' i = synced f i))"
proof -
  have p: "0 < page" using assms(1) by (auto simp: page_size_ok_def)
  define s where "s = page_floor page off"
  define e where "e = round_up_to_os_page page (off + n)"
  have "off < 2 ^ 64" using assms(2,3) p by linarith
  then have s: "s = off div page * page" unfolding s_def using assms(1) by (intro page_floor_eq)
  then have "s \<le> off" by simp
  have small: "off + n + page \<le> 2 ^ 64" using assms(2,3) by linarith
  have e: "off + n \<le> e" "e < off + n + page" "page dvd e"
    unfolding e_def by (rule round_up_bounds [OF assms(1) small])+
  define f' where "f' = msync s (min (e - s) (mapped_len f - s)) f"
  have run: "sync_range page off n f = Ok f'"
    using \<open>s \<le> off\<close> assms(2) by (simp add: sync_range_def f'_def s_def e_def Let_def)
  have sync: "synced f' i = (if s \<le> i \<and> i < s + min (e - s) (mapped_len f - s) then mem f i else synced f i)" for i
    by (simp add: f'_def msync_def)
  have inside: "synced f' i = mem f i" if "off \<le> i" "i < off + n" for i
  proof -
    have "s \<le> i" "i < s + min (e - s) (mapped_len f - s)" using that \<open>s \<le> off\<close> e(1) assms(2) by linarith+
    then show ?thesis by (simp add: sync)
  qed
  have outside: "synced f' i = synced f i" if "i div page < off div page \<or> off + n \<le> i div page * page" for i
  proof -
    have "i < s \<or> e \<le> i"
    proof (cases "i div page < off div page")
      case True
      then have "i < off div page * page" by (metis div_less_iff_less_mult p(1))
      then show ?thesis by (simp add: s)
    next
      case False
      with that have i: "off + n \<le> i div page * page" by blast
      obtain q where q: "e = page * q" using e(3) by blast
      have "page * q < page * (i div page + 1)" using e(2) i q by (simp add: algebra_simps)
      then have "q < i div page + 1" unfolding nat_mult_less_cancel1 [OF p] .
      then have "q \<le> i div page" by simp
      then have "e \<le> i div page * page" unfolding q by (simp add: mult.commute)
      also have "\<dots> \<le> i" by simp
      finally show ?thesis ..
    qed
    then show ?thesis using \<open>s \<le> off\<close> by (auto simp: sync)
  qed
  have "f' = f\<lparr> synced := synced f' \<rparr>" by (simp add: f'_def msync_def)
  with run inside outside sync show ?thesis by (intro exI [of _ f']) simp
qed

lemma sync_range_Ok:
  assumes "page_size_ok page" and "off + n \<le> mapped_len f" and "mapped_len f + page \<le> 2 ^ 64"
  obtains d where "sync_range page off n f = Ok (f\<lparr> synced := d \<rparr>)"
  using sync_range_spec [OF assms] by metis

end
