(* ===== verification/Gems_Storage.thy ===== *)
theory Gems_Storage
  imports Gems_Extent Gems_Mapped_File
begin

text \<open>
  The slot allocator of \<^verbatim>\<open>gems-storage\<close>: the mapped extent file
  (\<^verbatim>\<open>file.rs\<close>) and the extent manager over it (\<^verbatim>\<open>manager.rs\<close>), with
  the whole byte image of the file as the state. The locale \<open>slot_store\<close> is what a client
  relies on: a finite map from slot pointers to blocks; its interpretation shows that the manager
  provides it as long as the file has not grown to the size at which page rounding adds up to an
  extent.
\<close>

section \<open>The extent file\<close>

definition extent_file_create :: mapped_file where
  "extent_file_create =
     \<lparr> mem = (\<lambda>_. 0), synced = (\<lambda>_. 0), file_len = 0, mapped_len = 0, prot_write = True \<rparr>"

definition extent_file_open :: "nat \<Rightarrow> disk_file \<Rightarrow> bool \<Rightarrow> mapped_file" where
  "extent_file_open page img writable =
     (case img of (bytes, len) \<Rightarrow>
        let m = (\<lambda>i. if i < len then bytes i else 0) in
        \<lparr> mem = m, synced = m, file_len = len,
          mapped_len = (if len = 0 then 0 else round_up_to_os_page page len), prot_write = writable \<rparr>)"

definition grow_by_one_extent :: "nat \<Rightarrow> mapped_file \<Rightarrow> (mapped_file \<times> nat) result" where
  "grow_by_one_extent page f =
     (if \<not> prot_write f then Err (InvalidValue ''cannot grow a read-only extent file'')
      else let old_len = mapped_len f; new_len = old_len + EXTENT_SIZE in
        obind (ftruncate new_len f) (\<lambda>f.
        omap (\<lambda>f. (f, old_len)) (map_len (round_up_to_os_page page new_len) f)))"

definition as_mut_slice :: "mapped_file \<Rightarrow> unit result" where
  "as_mut_slice f =
     (if prot_write f then Ok () else Err (InvalidValue ''extent file is not writable''))"

section \<open>The extent manager\<close>

record extent_manager =
  ext_file :: mapped_file
  mgr_file_id :: nat
  extents :: "block_class list"

definition manager_create :: "nat \<Rightarrow> extent_manager" where
  "manager_create fid = \<lparr> ext_file = extent_file_create, mgr_file_id = fid, extents = [] \<rparr>"

definition extent_offset :: "nat \<Rightarrow> nat" where
  "extent_offset idx = idx * EXTENT_SIZE"

primrec read_classes :: "nat \<Rightarrow> nat \<Rightarrow> mapped_file \<Rightarrow> (block_class list) result" where
  "read_classes 0 i f = Ok []"
| "read_classes (Suc n) i f =
     obind (file_slice (i * EXTENT_SIZE) EXTENT_HEADER_LEN f) (\<lambda>header.
     obind (index_at header 6) (\<lambda>class_byte.
     obind (class_from_index (unat class_byte)) (\<lambda>c.
     omap (\<lambda>cs. c # cs) (read_classes n (i + 1) f))))"

definition manager_open :: "nat \<Rightarrow> disk_file \<Rightarrow> nat \<Rightarrow> bool \<Rightarrow> extent_manager result" where
  "manager_open page img fid writable =
     (let f = extent_file_open page img writable; extent_count = mapped_len f div EXTENT_SIZE in
      omap (\<lambda>cs. \<lparr> ext_file = f, mgr_file_id = fid, extents = cs \<rparr>) (read_classes extent_count 0 f))"

text \<open>The six stores that lay out an extent header.\<close>

definition header_fields :: "nat \<Rightarrow> extent_header \<Rightarrow> (nat \<times> bytes) list" where
  "header_fields base h =
     [(base, le_bytes 4 (ext_magic h)), (base + 4, le_bytes 2 (ext_version h)),
      (base + 6, [of_nat (ext_class h)]), (base + 7, [of_nat (ext_reserved h)]),
      (base + 8, le_bytes 4 (slot_count h)), (base + 12, le_bytes 4 (free_count h))]"

primrec file_writes :: "(nat \<times> bytes) list \<Rightarrow> mapped_file \<Rightarrow> mapped_file result" where
  "file_writes [] f = Ok f"
| "file_writes (w # ws) f = obind (file_write (fst w) (snd w) f) (file_writes ws)"

definition init_extent_header :: "nat \<Rightarrow> nat \<Rightarrow> block_class \<Rightarrow> extent_manager \<Rightarrow> extent_manager result" where
  "init_extent_header page idx c m =
     (let base = extent_offset idx in
      obind (as_mut_slice (ext_file m)) (\<lambda>_.
      obind (file_writes (header_fields base (extent_header_new c)) (ext_file m)) (\<lambda>f.
      omap (\<lambda>f. m\<lparr> ext_file := f \<rparr>) (sync_range page base EXTENT_HEADER_LEN f))))"

definition try_allocate_in_extent ::
  "nat \<Rightarrow> nat \<Rightarrow> block_class \<Rightarrow> extent_manager \<Rightarrow> (extent_manager \<times> nat option) result" where
  "try_allocate_in_extent page idx c m =
     (let bitmap_base = extent_offset idx + EXTENT_HEADER_LEN in
      obind (as_mut_slice (ext_file m)) (\<lambda>_.
      obind (file_slice bitmap_base BITMAP_BYTES (ext_file m)) (\<lambda>bs.
      obind (bitmap_allocate bs (slots_per_extent c)) (\<lambda>(bs', allocated).
      obind (file_write bitmap_base bs' (ext_file m)) (\<lambda>f.
      if allocated \<noteq> None
      then omap (\<lambda>f. (m\<lparr> ext_file := f \<rparr>, allocated)) (sync_range page bitmap_base BITMAP_BYTES f)
      else Ok (m\<lparr> ext_file := f \<rparr>, None))))))"

primrec try_candidates ::
  "nat \<Rightarrow> nat list \<Rightarrow> block_class \<Rightarrow> extent_manager \<Rightarrow> (extent_manager \<times> slot_pointer option) result" where
  "try_candidates page [] c m = Ok (m, None)"
| "try_candidates page (idx # idxs) c m =
     obind (try_allocate_in_extent page idx c m) (\<lambda>(m, s).
     case s of
       Some slot \<Rightarrow> Ok (m, Some \<lparr> file_id = mgr_file_id m, extent_index = idx, slot_index = slot, ptr_class = c \<rparr>)
     | None \<Rightarrow> try_candidates page idxs c m)"

definition candidate_indices :: "block_class \<Rightarrow> block_class list \<Rightarrow> nat list" where
  "candidate_indices c cs = map (\<lambda>i. i mod 2 ^ 32) (filter (\<lambda>i. cs ! i = c) [0..<length cs])"

definition allocate :: "nat \<Rightarrow> nat \<Rightarrow> extent_manager \<Rightarrow> (extent_manager \<times> slot_pointer) result" where
  "allocate page sz m =
     obind (for_size sz) (\<lambda>c.
     obind (try_candidates page (candidate_indices c (extents m)) c m) (\<lambda>(m, found).
     case found of Some ptr \<Rightarrow> Ok (m, ptr)
     | None \<Rightarrow>
       obind (grow_by_one_extent page (ext_file m)) (\<lambda>(f, offset).
       let idx = offset div EXTENT_SIZE mod 2 ^ 32 in
       obind (init_extent_header page idx c (m\<lparr> ext_file := f \<rparr>)) (\<lambda>m.
       obind (try_allocate_in_extent page idx c (m\<lparr> extents := extents m @ [c] \<rparr>)) (\<lambda>(m, s).
       case s of None \<Rightarrow> Panic
       | Some slot \<Rightarrow>
           Ok (m, \<lparr> file_id = mgr_file_id m, extent_index = idx, slot_index = slot, ptr_class = c \<rparr>))))))"

definition slot_offset :: "extent_manager \<Rightarrow> slot_pointer \<Rightarrow> (nat \<times> block_class) result" where
  "slot_offset m ptr =
     (if file_id ptr \<noteq> mgr_file_id m then Err (InvalidValue ''SlotPointer belongs to a different file'')
      else omap (\<lambda>c. (extent_offset (extent_index ptr) + DATA_OFFSET + slot_index ptr * block_size c, c))
             (class_from_index (ptr_class ptr)))"

definition manager_write :: "nat \<Rightarrow> slot_pointer \<Rightarrow> bytes \<Rightarrow> extent_manager \<Rightarrow> extent_manager result" where
  "manager_write page ptr data m =
     obind (slot_offset m ptr) (\<lambda>(base, c).
     if block_size c < length data then Err (InvalidValue ''data does not fit in the slot's block class'')
     else
       obind (as_mut_slice (ext_file m)) (\<lambda>_.
       obind (file_write base data (ext_file m)) (\<lambda>f.
       omap (\<lambda>f. m\<lparr> ext_file := f \<rparr>) (sync_range page base (length data) f))))"

definition manager_read :: "extent_manager \<Rightarrow> slot_pointer \<Rightarrow> nat \<Rightarrow> bytes result" where
  "manager_read m ptr n =
     obind (slot_offset m ptr) (\<lambda>(base, c).
     if block_size c < n then Err (InvalidValue ''requested length exceeds the slot's block class'')
     else file_slice base n (ext_file m))"

definition manager_free :: "nat \<Rightarrow> slot_pointer \<Rightarrow> extent_manager \<Rightarrow> extent_manager result" where
  "manager_free page ptr m =
     (if file_id ptr \<noteq> mgr_file_id m then Err (InvalidValue ''SlotPointer belongs to a different file'')
      else let bitmap_base = extent_offset (extent_index ptr) + EXTENT_HEADER_LEN in
        obind (as_mut_slice (ext_file m)) (\<lambda>_.
        obind (file_slice bitmap_base BITMAP_BYTES (ext_file m)) (\<lambda>bs.
        obind (bitmap_free bs (slot_index ptr)) (\<lambda>bs'.
        obind (file_write bitmap_base bs' (ext_file m)) (\<lambda>f.
        omap (\<lambda>f. m\<lparr> ext_file := f \<rparr>) (sync_range page bitmap_base BITMAP_BYTES f))))))"

section \<open>The layout of the file\<close>

definition os_page_ok :: "nat \<Rightarrow> bool" where
  "os_page_ok page \<longleftrightarrow> page_size_ok page \<and> 4096 \<le> page \<and> page \<le> 65536"

text \<open>One growth step advances the end of the mapping by an extent rounded up to pages.\<close>

definition extent_stride :: "nat \<Rightarrow> nat" where
  "extent_stride page = round_up_to_os_page page EXTENT_SIZE"

definition no_drift :: "nat \<Rightarrow> nat \<Rightarrow> bool" where
  "no_drift page k \<longleftrightarrow> k * (extent_stride page - EXTENT_SIZE) < EXTENT_SIZE"

lemma stride_bounds:
  assumes "os_page_ok page"
  shows "EXTENT_SIZE < extent_stride page" "extent_stride page < EXTENT_SIZE + page" "page dvd extent_stride page"
proof -
  have ok: "page_size_ok page" "EXTENT_SIZE + page \<le> 2 ^ 64" "4096 \<le> page"
    using assms by (auto simp: os_page_ok_def extent_consts)
  from round_up_bounds [OF ok(1,2)] show "extent_stride page < EXTENT_SIZE + page" "page dvd extent_stride page"
    by (simp_all add: extent_stride_def)
  obtain j where "page = 2 ^ j" using ok(1) by (auto simp: page_size_ok_def)
  moreover have "12 \<le> j"
  proof (rule ccontr)
    assume "\<not> 12 \<le> j"
    then have "(2 :: nat) ^ j \<le> 2 ^ 11" by (intro power_increasing) simp_all
    with \<open>page = 2 ^ j\<close> ok(3) show False by simp
  qed
  ultimately have "2 ^ 12 dvd page" by (simp only: le_imp_power_dvd)
  then have "2 ^ 12 dvd extent_stride page" using \<open>page dvd extent_stride page\<close> dvd_trans by blast
  moreover have "\<not> 2 ^ 12 dvd EXTENT_SIZE" by (simp add: extent_consts)
  ultimately have "extent_stride page \<noteq> EXTENT_SIZE" by auto
  with round_up_bounds(1) [OF ok(1,2)] show "EXTENT_SIZE < extent_stride page"
    by (simp add: extent_stride_def)
qed

lemma no_drift_count: "os_page_ok page \<Longrightarrow> no_drift page k \<Longrightarrow> k < EXTENT_SIZE"
proof -
  assume "os_page_ok page" and nd: "no_drift page k"
  then have "1 \<le> extent_stride page - EXTENT_SIZE" using stride_bounds(1) by fastforce
  then have "k * 1 \<le> k * (extent_stride page - EXTENT_SIZE)" by (rule mult_le_mono2)
  with nd show ?thesis unfolding no_drift_def by linarith
qed

lemma no_drift_mono: "no_drift page k \<Longrightarrow> j \<le> k \<Longrightarrow> no_drift page j"
  unfolding no_drift_def by (meson le_less_trans mult_le_mono1)

lemma stride_split: "os_page_ok page \<Longrightarrow> k * extent_stride page = k * EXTENT_SIZE + k * (extent_stride page - EXTENT_SIZE)"
  using stride_bounds(1) [of page] by (metis add_mult_distrib2 le_add_diff_inverse less_imp_le)

lemma no_drift_index:
  assumes "os_page_ok page"
  shows "k * extent_stride page div EXTENT_SIZE = k + k * (extent_stride page - EXTENT_SIZE) div EXTENT_SIZE"
  unfolding stride_split [OF assms] by (simp add: extent_consts)

lemma no_drift_div: "os_page_ok page \<Longrightarrow> no_drift page k \<Longrightarrow> k * extent_stride page div EXTENT_SIZE = k"
  by (simp add: no_drift_index no_drift_def)

lemma stride_small: "os_page_ok page \<Longrightarrow> k < 2 * EXTENT_SIZE \<Longrightarrow> k * extent_stride page + EXTENT_SIZE + page \<le> 2 ^ 63"
proof -
  assume p: "os_page_ok page" and k: "k < 2 * EXTENT_SIZE"
  have "extent_stride page \<le> EXTENT_SIZE + 65536" "page \<le> 65536"
    using stride_bounds(2) [OF p] p by (simp_all add: os_page_ok_def)
  then have "k * extent_stride page \<le> (2 * EXTENT_SIZE) * (EXTENT_SIZE + 65536)"
    using k by (intro mult_le_mono) simp_all
  with \<open>page \<le> 65536\<close> show ?thesis by (simp add: extent_consts)
qed

lemma grown_length:
  assumes p: "os_page_ok page" and k: "k < 2 * EXTENT_SIZE"
  shows "round_up_to_os_page page (k * extent_stride page + EXTENT_SIZE) = Suc k * extent_stride page"
proof -
  have ok: "page_size_ok page" "0 < page" using p by (simp_all add: os_page_ok_def)
  obtain q where q: "extent_stride page = page * q" using stride_bounds(3) [OF p] by blast
  have e: "(EXTENT_SIZE + page - 1) div page * page = extent_stride page"
    using p unfolding extent_stride_def by (subst round_up_eq) (auto simp: os_page_ok_def extent_consts)
  have "k * extent_stride page + EXTENT_SIZE + page \<le> 2 ^ 64" using stride_small [OF p k] by simp
  then have "round_up_to_os_page page (k * extent_stride page + EXTENT_SIZE) =
      (k * extent_stride page + EXTENT_SIZE + page - 1) div page * page"
    by (rule round_up_eq [OF ok(1)])
  also have "k * extent_stride page + EXTENT_SIZE + page - 1 = (EXTENT_SIZE + page - 1) + k * q * page"
    using ok(2) by (simp add: q ac_simps)
  also have "((EXTENT_SIZE + page - 1) + k * q * page) div page * page = (k * q + (EXTENT_SIZE + page - 1) div page) * page"
    using ok(2) by (simp only: div_mult_self1 neq0_conv)
  also have "\<dots> = Suc k * extent_stride page"
    unfolding add_mult_distrib e by (simp add: q)
  finally show ?thesis .
qed

section \<open>The invariant of the manager\<close>

definition layout_ok :: "nat \<Rightarrow> mapped_file \<Rightarrow> block_class list \<Rightarrow> bool" where
  "layout_ok page f cs \<longleftrightarrow>
     os_page_ok page \<and> length cs \<le> EXTENT_SIZE \<and>
     mapped_len f = length cs * extent_stride page \<and>
     file_len f = (if cs = [] then 0 else (length cs - 1) * extent_stride page + EXTENT_SIZE) \<and>
     (\<forall>i < length cs. cs ! i < CLASS_COUNT \<and> mem f (i * EXTENT_SIZE + 6) = of_nat (cs ! i)) \<and>
     (\<forall>a \<ge> length cs * EXTENT_SIZE. mem f a = 0)"

definition storage_ok :: "nat \<Rightarrow> extent_manager \<Rightarrow> bool" where
  "storage_ok page m \<longleftrightarrow> layout_ok page (ext_file m) (extents m) \<and> prot_write (ext_file m)"

definition slot_bit :: "mapped_file \<Rightarrow> nat \<Rightarrow> nat \<Rightarrow> bool" where
  "slot_bit f i s \<longleftrightarrow> slot_taken (mem_read (mem f) (i * EXTENT_SIZE + EXTENT_HEADER_LEN) BITMAP_BYTES) s"

definition addressed :: "extent_manager \<Rightarrow> slot_pointer \<Rightarrow> bool" where
  "addressed m p \<longleftrightarrow> file_id p = mgr_file_id m \<and> extent_index p < length (extents m) \<and>
     ptr_class p = extents m ! extent_index p \<and> slot_index p < slots_per_extent (ptr_class p)"

definition slot_base :: "slot_pointer \<Rightarrow> nat" where
  "slot_base p = extent_index p * EXTENT_SIZE + DATA_OFFSET + slot_index p * block_size (ptr_class p)"

definition contents :: "extent_manager \<Rightarrow> slot_pointer \<Rightarrow> bytes option" where
  "contents m p =
     (if addressed m p \<and> slot_bit (ext_file m) (extent_index p) (slot_index p)
      then Some (mem_read (mem (ext_file m)) (slot_base p) (block_size (ptr_class p))) else None)"

lemma extent_apart: "i < j \<Longrightarrow> i * EXTENT_SIZE + EXTENT_SIZE \<le> j * EXTENT_SIZE"
proof -
  assume "i < j"
  then have "Suc i * EXTENT_SIZE \<le> j * EXTENT_SIZE" by (intro mult_le_mono1) simp
  then show ?thesis by (simp add: add.commute)
qed

lemma extent_parts:
  "EXTENT_HEADER_LEN = 16" "BITMAP_BYTES = 4096" "DATA_OFFSET = 4112" "4112 \<le> EXTENT_SIZE"
  "EXTENT_SIZE = DATA_OFFSET + DATA_REGION_SIZE"
  by (simp_all add: extent_consts)

lemma slot_in_extent:
  assumes "c < 16" and "s < slots_per_extent c"
  shows "DATA_OFFSET + s * block_size c + block_size c \<le> EXTENT_SIZE"
proof -
  have "Suc s * block_size c \<le> slots_per_extent c * block_size c"
    using assms(2) by (intro mult_le_mono1) simp
  then show ?thesis using class_fills_region [OF assms(1)] extent_parts(5) by simp
qed

lemma addressed_range:
  assumes "layout_ok page (ext_file m) (extents m)" and "addressed m p"
  shows "ptr_class p < 16" "extent_index p * EXTENT_SIZE + DATA_OFFSET \<le> slot_base p"
    "slot_base p + block_size (ptr_class p) \<le> extent_index p * EXTENT_SIZE + EXTENT_SIZE"
proof -
  show c: "ptr_class p < 16" using assms by (auto simp: addressed_def layout_ok_def CLASS_COUNT_def)
  then show "slot_base p + block_size (ptr_class p) \<le> extent_index p * EXTENT_SIZE + EXTENT_SIZE"
    using slot_in_extent [OF c, of "slot_index p"] assms(2) unfolding slot_base_def addressed_def by linarith
qed (simp add: slot_base_def)

text \<open>Two different pointers address disjoint blocks.\<close>

lemma slots_disjoint:
  assumes "layout_ok page (ext_file m) (extents m)" "addressed m p" "addressed m q" "p \<noteq> q"
  shows "slot_base p + block_size (ptr_class p) \<le> slot_base q \<or> slot_base q + block_size (ptr_class q) \<le> slot_base p"
proof -
  note p = addressed_range [OF assms(1,2)] and q = addressed_range [OF assms(1,3)]
  have apart: ?thesis if "slot_index p < slot_index q \<or> slot_index q < slot_index p" "extent_index p = extent_index q"
  proof -
    have c: "ptr_class p = ptr_class q" using that assms(2,3) by (simp add: addressed_def)
    have "s * block_size c + block_size c \<le> t * block_size c" if "s < t" for s t c
      using that mult_le_mono1 [of "Suc s" t "block_size c"] by simp
    with that c show ?thesis by (auto simp: slot_base_def)
  qed
  consider "extent_index p < extent_index q" | "extent_index q < extent_index p" | "extent_index p = extent_index q"
    by linarith
  then show ?thesis
  proof cases
    case 1
    then show ?thesis using extent_apart [OF 1] p q by linarith
  next
    case 2
    then show ?thesis using extent_apart [OF 2] p q by linarith
  next
    case 3
    then have "slot_index p \<noteq> slot_index q" using assms(2,3,4) by (auto simp: addressed_def)
    then show ?thesis using apart 3 by linarith
  qed
qed

lemma layout_mapped:
  assumes "layout_ok page f cs" and "i < length cs"
  shows "i * EXTENT_SIZE + EXTENT_SIZE \<le> mapped_len f"
proof -
  have "length cs * EXTENT_SIZE \<le> length cs * extent_stride page"
    using assms(1) stride_bounds(1) [of page] by (intro mult_le_mono2) (simp add: layout_ok_def)
  moreover have "mapped_len f = length cs * extent_stride page" using assms(1) by (simp add: layout_ok_def)
  ultimately show ?thesis using extent_apart [OF assms(2)] by linarith
qed

lemma layout_sizes:
  assumes "layout_ok page f cs"
  shows "page_size_ok page" "mapped_len f + page \<le> 2 ^ 64" "length cs < 2 * EXTENT_SIZE"
proof -
  have p: "os_page_ok page" "length cs \<le> EXTENT_SIZE" using assms by (simp_all add: layout_ok_def)
  show "page_size_ok page" using p by (simp add: os_page_ok_def)
  show n: "length cs < 2 * EXTENT_SIZE" using p(2) extent_parts(4) by linarith
  from stride_small [OF p(1) n] show "mapped_len f + page \<le> 2 ^ 64"
    using assms by (simp add: layout_ok_def)
qed

lemma layout_sync:
  assumes "layout_ok page f cs" and "off + n \<le> mapped_len f"
  obtains d where "sync_range page off n f = Ok (f\<lparr> synced := d \<rparr>)"
  using sync_range_Ok layout_sizes [OF assms(1)] assms(2) by metis

text \<open>A store into the bitmap or the data of an extent leaves the layout as it is.\<close>

lemma layout_write:
  assumes "layout_ok page f cs" and "i < length cs"
    and "i * EXTENT_SIZE + EXTENT_HEADER_LEN \<le> a" "a + length bs \<le> i * EXTENT_SIZE + EXTENT_SIZE"
  shows "layout_ok page (f\<lparr> mem := mem_write a bs (mem f) \<rparr>) cs"
proof -
  have "mem_write a bs (mem f) (j * EXTENT_SIZE + 6) = mem f (j * EXTENT_SIZE + 6)" for j
  proof (rule mem_write_outside)
    consider "i < j" | "i = j" | "j < i" by linarith
    then show "j * EXTENT_SIZE + 6 < a \<or> a + length bs \<le> j * EXTENT_SIZE + 6"
    proof cases
      case 1
      then show ?thesis using extent_apart [OF 1] assms(4) by linarith
    next
      case 2
      then show ?thesis using assms(3) extent_parts(1) by simp
    next
      case 3
      then show ?thesis using extent_apart [OF 3] assms(3) extent_parts(1,4) by linarith
    qed
  qed
  moreover have "mem_write a bs (mem f) x = mem f x" if "length cs * EXTENT_SIZE \<le> x" for x
    using extent_apart [OF assms(2)] assms(4) that by (intro mem_write_outside) linarith
  ultimately show ?thesis using assms(1) by (simp add: layout_ok_def)
qed

lemma layout_synced [simp]: "layout_ok page (f\<lparr> synced := d \<rparr>) cs = layout_ok page f cs"
  by (simp add: layout_ok_def)

lemma contents_synced [simp]:
  "contents (m\<lparr> ext_file := f\<lparr> synced := d \<rparr> \<rparr>) = contents (m\<lparr> ext_file := f \<rparr>)"
  by (rule ext) (auto simp: contents_def addressed_def slot_bit_def)

lemma addressed_file [simp]: "addressed (m\<lparr> ext_file := f \<rparr>) p = addressed m p"
  by (simp add: addressed_def)

definition pointer_to :: "extent_manager \<Rightarrow> nat \<Rightarrow> nat \<Rightarrow> slot_pointer" where
  "pointer_to m i s =
     \<lparr> file_id = mgr_file_id m, extent_index = i, slot_index = s, ptr_class = extents m ! i \<rparr>"

lemma addressed_pointer: "addressed m p \<Longrightarrow> p = pointer_to m (extent_index p) (slot_index p)"
  by (simp add: addressed_def pointer_to_def)

lemma pointer_addressed:
  "i < length (extents m) \<Longrightarrow> s < slots_per_extent (extents m ! i) \<Longrightarrow> addressed m (pointer_to m i s)"
  by (simp add: addressed_def pointer_to_def)

section \<open>Writing and reading a block\<close>

lemma contents_Some:
  assumes "contents m p = Some b"
  shows "addressed m p" "slot_bit (ext_file m) (extent_index p) (slot_index p)"
    "b = mem_read (mem (ext_file m)) (slot_base p) (block_size (ptr_class p))"
    "length b = block_size (ptr_class p)"
  using assms by (auto simp: contents_def split: if_splits)

lemma addressed_mapped:
  assumes "layout_ok page (ext_file m) (extents m)" "addressed m p"
  shows "slot_base p + block_size (ptr_class p) \<le> mapped_len (ext_file m)"
  using addressed_range(3) [OF assms] layout_mapped [OF assms(1), of "extent_index p"] assms(2)
  by (simp add: addressed_def)

lemma slot_offset_addressed:
  assumes "layout_ok page (ext_file m) (extents m)" "addressed m p"
  shows "slot_offset m p = Ok (slot_base p, ptr_class p)"
  using addressed_range(1) [OF assms] assms(2)
  by (simp add: slot_offset_def addressed_def class_from_index_def CLASS_COUNT_def extent_offset_def slot_base_def)

text \<open>A store inside one block changes that block only.\<close>

lemma block_write:
  assumes ok: "layout_ok page (ext_file m) (extents m)" and p: "contents m p = Some b" and n: "length data \<le> length b"
  defines "f' \<equiv> (ext_file m)\<lparr> mem := mem_write (slot_base p) data (mem (ext_file m)) \<rparr>"
  shows "layout_ok page f' (extents m)" "contents (m\<lparr> ext_file := f' \<rparr>) = (contents m)(p \<mapsto> data @ drop (length data) b)"
proof -
  have mem': "mem f' = mem_write (slot_base p) data (mem (ext_file m))" by (simp add: f'_def)
  note c = contents_Some [OF p]
  note r = addressed_range [OF ok c(1)]
  have i: "extent_index p < length (extents m)" using c(1) by (simp add: addressed_def)
  have len: "slot_base p + length data \<le> slot_base p + block_size (ptr_class p)" using n c(4) by simp
  show "layout_ok page f' (extents m)"
    unfolding f'_def using r len extent_parts by (intro layout_write [OF ok i]) linarith+
  have bit: "slot_bit f' j t = slot_bit (ext_file m) j t" for j t
  proof -
    have "mem_read (mem f') (j * EXTENT_SIZE + EXTENT_HEADER_LEN) BITMAP_BYTES =
        mem_read (mem (ext_file m)) (j * EXTENT_SIZE + EXTENT_HEADER_LEN) BITMAP_BYTES"
      unfolding mem'
    proof (rule mem_read_disjoint)
      consider "extent_index p < j" | "extent_index p = j" | "j < extent_index p" by linarith
      then show "j * EXTENT_SIZE + EXTENT_HEADER_LEN + BITMAP_BYTES \<le> slot_base p \<or>
          slot_base p + length data \<le> j * EXTENT_SIZE + EXTENT_HEADER_LEN"
      proof cases
        case 1
        then show ?thesis using extent_apart [OF 1] r len by linarith
      next
        case 2
        then show ?thesis using r(2) extent_parts by simp
      next
        case 3
        then show ?thesis using extent_apart [OF 3] r extent_parts by linarith
      qed
    qed
    then show ?thesis by (simp add: slot_bit_def)
  qed
  have "mem_read (mem f') (slot_base p) (block_size (ptr_class p)) = data @ drop (length data) b"
    using mem_read_inner [of "slot_base p" "slot_base p" data "block_size (ptr_class p)"] len c(3)
    by (simp add: f'_def)
  moreover have "mem_read (mem f') (slot_base q) (block_size (ptr_class q)) =
      mem_read (mem (ext_file m)) (slot_base q) (block_size (ptr_class q))" if "addressed m q" "q \<noteq> p" for q
    unfolding mem' using slots_disjoint [OF ok that(1) c(1) that(2)] len
    by (intro mem_read_disjoint) linarith
  ultimately show "contents (m\<lparr> ext_file := f' \<rparr>) = (contents m)(p \<mapsto> data @ drop (length data) b)"
    using c by (intro ext) (simp add: contents_def bit)
qed

lemma manager_write_spec:
  assumes "storage_ok page m" "contents m p = Some b" "length data \<le> length b"
  shows "\<exists>m'. manager_write page p data m = Ok m' \<and> storage_ok page m' \<and> extents m' = extents m \<and>
    mgr_file_id m' = mgr_file_id m \<and> contents m' = (contents m)(p \<mapsto> data @ drop (length data) b)"
proof -
  have ok: "layout_ok page (ext_file m) (extents m)" "prot_write (ext_file m)"
    using assms(1) by (simp_all add: storage_ok_def)
  note c = contents_Some [OF assms(2)]
  define f' where "f' = (ext_file m)\<lparr> mem := mem_write (slot_base p) data (mem (ext_file m)) \<rparr>"
  note w = block_write [OF ok(1) assms(2,3), folded f'_def]
  have len: "slot_base p + length data \<le> mapped_len (ext_file m)"
    using addressed_mapped [OF ok(1) c(1)] assms(3) c(4) by linarith
  then have "slot_base p + length data \<le> mapped_len f'" by (simp add: f'_def)
  from layout_sync [OF w(1) this] obtain d where d: "sync_range page (slot_base p) (length data) f' = Ok (f'\<lparr> synced := d \<rparr>)" .
  have "manager_write page p data m = Ok (m\<lparr> ext_file := f'\<lparr> synced := d \<rparr> \<rparr>)"
    using slot_offset_addressed [OF ok(1) c(1)] assms(3) c(4) ok(2) len d
    by (simp add: manager_write_def as_mut_slice_def file_write_def f'_def)
  moreover have "storage_ok page (m\<lparr> ext_file := f'\<lparr> synced := d \<rparr> \<rparr>)"
    using w(1) ok(2) by (simp add: storage_ok_def f'_def)
  ultimately show ?thesis using w(2) by (intro exI [of _ "m\<lparr> ext_file := f'\<lparr> synced := d \<rparr> \<rparr>"]) simp
qed

lemma manager_read_spec:
  assumes "layout_ok page (ext_file m) (extents m)" "contents m p = Some b" "n \<le> length b"
  shows "manager_read m p n = Ok (take n b)"
proof -
  note c = contents_Some [OF assms(2)]
  have "slot_base p + n \<le> mapped_len (ext_file m)"
    using addressed_mapped [OF assms(1) c(1)] assms(3) c(4) by linarith
  then show ?thesis
    using slot_offset_addressed [OF assms(1) c(1)] assms(3) c(3,4)
    by (simp add: manager_read_def file_slice_def take_mem_read)
qed

section \<open>Claiming and releasing a slot\<close>

abbreviation bitmap_base :: "nat \<Rightarrow> nat" where
  "bitmap_base i \<equiv> i * EXTENT_SIZE + EXTENT_HEADER_LEN"

abbreviation bitmap_of :: "extent_manager \<Rightarrow> nat \<Rightarrow> bytes" where
  "bitmap_of m i \<equiv> mem_read (mem (ext_file m)) (bitmap_base i) BITMAP_BYTES"

text \<open>Setting one bit of one bitmap adds or removes that slot and nothing else.\<close>

lemma bit_write:
  assumes ok: "layout_ok page (ext_file m) (extents m)" and i: "i < length (extents m)"
    and s: "s < slots_per_extent (extents m ! i)" and bs': "bitmap_set (bitmap_of m i) s v = Ok bs'"
  defines "f' \<equiv> (ext_file m)\<lparr> mem := mem_write (bitmap_base i) bs' (mem (ext_file m)) \<rparr>"
    and "p \<equiv> pointer_to m i s"
  shows "layout_ok page f' (extents m)" "length bs' = BITMAP_BYTES"
    "contents (m\<lparr> ext_file := f' \<rparr>) = (contents m)(p :=
       if v then Some (mem_read (mem (ext_file m)) (slot_base p) (block_size (ptr_class p))) else None)"
proof -
  have mem': "mem f' = mem_write (bitmap_base i) bs' (mem (ext_file m))" by (simp add: f'_def)
  have c: "extents m ! i < 16" using ok i by (simp add: layout_ok_def CLASS_COUNT_def)
  then have sb: "s < 8 * length (bitmap_of m i)" using slots_bits [OF c] s by simp
  from bitmap_set_ok [OF this, of v] bs' have len: "length bs' = BITMAP_BYTES"
    and bits: "\<And>t. t < 8 * BITMAP_BYTES \<Longrightarrow> slot_taken bs' t \<longleftrightarrow> (if t = s then v else slot_taken (bitmap_of m i) t)"
    by auto
  show "length bs' = BITMAP_BYTES" by (rule len)
  show "layout_ok page f' (extents m)"
    unfolding f'_def using len extent_parts by (intro layout_write [OF ok i]) linarith+
  have same: "mem_read (mem f') (bitmap_base j) BITMAP_BYTES = bitmap_of m j" if "j \<noteq> i" for j
    unfolding mem' using extent_apart [of i j] extent_apart [of j i] that len extent_parts
    by (intro mem_read_disjoint) linarith
  have here: "mem_read (mem f') (bitmap_base i) BITMAP_BYTES = bs'" by (simp add: mem' len)
  have bit: "slot_bit f' (extent_index q) (slot_index q) \<longleftrightarrow>
      (if q = p then v else slot_bit (ext_file m) (extent_index q) (slot_index q))" if q: "addressed m q" for q
  proof -
    have "q = pointer_to m (extent_index q) (slot_index q)" by (rule addressed_pointer [OF q])
    then have eq: "q = p \<longleftrightarrow> extent_index q = i \<and> slot_index q = s" by (auto simp: p_def pointer_to_def)
    have "slot_index q < 8 * BITMAP_BYTES"
      using q slots_bits [OF addressed_range(1) [OF ok q]] unfolding addressed_def by linarith
    then show ?thesis
      using bits [of "slot_index q"] same [of "extent_index q"] here by (cases "extent_index q = i") (auto simp: slot_bit_def eq)
  qed
  have block: "mem_read (mem f') (slot_base q) (block_size (ptr_class q)) =
      mem_read (mem (ext_file m)) (slot_base q) (block_size (ptr_class q))" if q: "addressed m q" for q
    unfolding mem'
  proof (rule mem_read_disjoint)
    note r = addressed_range [OF ok q]
    consider "extent_index q < i" | "extent_index q = i" | "i < extent_index q" by linarith
    then show "slot_base q + block_size (ptr_class q) \<le> bitmap_base i \<or> bitmap_base i + length bs' \<le> slot_base q"
    proof cases
      case 1
      then show ?thesis using extent_apart [OF 1] r by linarith
    next
      case 2
      then show ?thesis using r(2) len extent_parts by simp
    next
      case 3
      then show ?thesis using extent_apart [OF 3] r(2) len extent_parts by linarith
    qed
  qed
  have "addressed m p" unfolding p_def using i s by (rule pointer_addressed)
  then show "contents (m\<lparr> ext_file := f' \<rparr>) = (contents m)(p :=
       if v then Some (mem_read (mem (ext_file m)) (slot_base p) (block_size (ptr_class p))) else None)"
    by (intro ext) (auto simp: contents_def bit block split: if_splits)
qed

lemma bitmap_in_file:
  "layout_ok page f cs \<Longrightarrow> i < length cs \<Longrightarrow> bitmap_base i + BITMAP_BYTES \<le> mapped_len f"
  using layout_mapped [of page f cs i] extent_parts by linarith

lemma manager_free_spec:
  assumes "storage_ok page m" "contents m p \<noteq> None"
  shows "\<exists>m'. manager_free page p m = Ok m' \<and> storage_ok page m' \<and> extents m' = extents m \<and>
    mgr_file_id m' = mgr_file_id m \<and> contents m' = (contents m)(p := None)"
proof -
  have ok: "layout_ok page (ext_file m) (extents m)" "prot_write (ext_file m)"
    using assms(1) by (simp_all add: storage_ok_def)
  obtain b where "contents m p = Some b" using assms(2) by blast
  note c = contents_Some [OF this]
  define i where "i = extent_index p"
  define s where "s = slot_index p"
  have p: "p = pointer_to m i s" unfolding i_def s_def by (rule addressed_pointer [OF c(1)])
  have i: "i < length (extents m)" and s: "s < slots_per_extent (extents m ! i)" "file_id p = mgr_file_id m"
    using c(1) unfolding addressed_def i_def s_def by auto
  have "s < 8 * length (bitmap_of m i)"
    using slots_bits [of "extents m ! i"] s i ok(1) by (simp add: layout_ok_def CLASS_COUNT_def)
  then obtain bs' where bs': "bitmap_set (bitmap_of m i) s False = Ok bs'" using bitmap_set_ok by blast
  note w = bit_write [OF ok(1) i s(1) bs']
  define f' where "f' = (ext_file m)\<lparr> mem := mem_write (bitmap_base i) bs' (mem (ext_file m)) \<rparr>"
  have map: "bitmap_base i + BITMAP_BYTES \<le> mapped_len (ext_file m)" by (rule bitmap_in_file [OF ok(1) i])
  then have "bitmap_base i + BITMAP_BYTES \<le> mapped_len f'" by (simp add: f'_def)
  from layout_sync [OF w(1) [folded f'_def] this]
  obtain d where d: "sync_range page (bitmap_base i) BITMAP_BYTES f' = Ok (f'\<lparr> synced := d \<rparr>)" .
  have "manager_free page p m = Ok (m\<lparr> ext_file := f'\<lparr> synced := d \<rparr> \<rparr>)"
    using s(2) ok(2) map bs' w(2) d
    by (simp add: manager_free_def as_mut_slice_def file_slice_def file_write_def bitmap_free_def extent_offset_def
        f'_def i_def s_def)
  moreover have "storage_ok page (m\<lparr> ext_file := f'\<lparr> synced := d \<rparr> \<rparr>)"
    using w(1) ok(2) by (simp add: storage_ok_def f'_def)
  moreover have "contents (m\<lparr> ext_file := f'\<lparr> synced := d \<rparr> \<rparr>) = (contents m)(p := None)"
    using w(3) by (simp add: f'_def p)
  ultimately show ?thesis by (intro exI [of _ "m\<lparr> ext_file := f'\<lparr> synced := d \<rparr> \<rparr>"]) simp
qed

text \<open>Looking for a slot in one extent.\<close>

definition claims :: "nat \<Rightarrow> extent_manager \<Rightarrow> extent_manager \<Rightarrow> slot_pointer \<Rightarrow> bool" where
  "claims page m m' p \<longleftrightarrow> storage_ok page m' \<and> mgr_file_id m' = mgr_file_id m \<and> contents m p = None \<and>
     (\<exists>b. length b = block_size (ptr_class p) \<and> contents m' = (contents m)(p \<mapsto> b))"

lemma try_allocate_spec:
  assumes "storage_ok page m" "i < length (extents m)"
  shows "(\<exists>m' s. try_allocate_in_extent page i (extents m ! i) m = Ok (m', Some s) \<and>
      claims page m m' (pointer_to m i s) \<and> extents m' = extents m \<and>
      s < slots_per_extent (extents m ! i) \<and> (\<forall>t < s. slot_bit (ext_file m) i t)) \<or>
    (try_allocate_in_extent page i (extents m ! i) m = Ok (m, None) \<and>
      (\<forall>s < slots_per_extent (extents m ! i). slot_bit (ext_file m) i s))"
proof -
  have ok: "layout_ok page (ext_file m) (extents m)" "prot_write (ext_file m)"
    using assms(1) by (simp_all add: storage_ok_def)
  let ?c = "extents m ! i"
  have c: "?c < 16" using ok assms(2) by (simp add: layout_ok_def CLASS_COUNT_def)
  have map: "bitmap_base i + BITMAP_BYTES \<le> mapped_len (ext_file m)" by (rule bitmap_in_file [OF ok(1) assms(2)])
  have "0 + slots_per_extent ?c \<le> 8 * length (bitmap_of m i)" using slots_bits [OF c] by simp
  from alloc_scan_spec [OF this] show ?thesis
  proof (elim disjE exE conjE)
    fix s bs' assume scan: "alloc_scan (slots_per_extent ?c) 0 (bitmap_of m i) = Ok (bs', Some s)"
      and s: "s < 0 + slots_per_extent ?c" and free: "\<not> slot_taken (bitmap_of m i) s"
      and low: "\<forall>u. 0 \<le> u \<longrightarrow> u < s \<longrightarrow> slot_taken (bitmap_of m i) u"
      and bs': "bitmap_set (bitmap_of m i) s True = Ok bs'"
    have s': "s < slots_per_extent ?c" using s by simp
    note w = bit_write [OF ok(1) assms(2) s' bs']
    define f' where "f' = (ext_file m)\<lparr> mem := mem_write (bitmap_base i) bs' (mem (ext_file m)) \<rparr>"
    have "bitmap_base i + BITMAP_BYTES \<le> mapped_len f'" using map by (simp add: f'_def)
    from layout_sync [OF w(1) [folded f'_def] this]
    obtain d where d: "sync_range page (bitmap_base i) BITMAP_BYTES f' = Ok (f'\<lparr> synced := d \<rparr>)" .
    have run: "try_allocate_in_extent page i ?c m = Ok (m\<lparr> ext_file := f'\<lparr> synced := d \<rparr> \<rparr>, Some s)"
      using ok(2) map scan w(2) d
      by (simp add: try_allocate_in_extent_def as_mut_slice_def file_slice_def file_write_def bitmap_allocate_def
          extent_offset_def f'_def)
    have "storage_ok page (m\<lparr> ext_file := f'\<lparr> synced := d \<rparr> \<rparr>)"
      using w(1) ok(2) by (simp add: storage_ok_def f'_def)
    moreover have "contents (m\<lparr> ext_file := f'\<lparr> synced := d \<rparr> \<rparr>) = (contents m)(pointer_to m i s \<mapsto>
        mem_read (mem (ext_file m)) (slot_base (pointer_to m i s)) (block_size (ptr_class (pointer_to m i s))))"
      using w(3) by (simp add: f'_def)
    moreover have "contents m (pointer_to m i s) = None"
      using free by (simp add: contents_def slot_bit_def pointer_to_def)
    ultimately have "claims page m (m\<lparr> ext_file := f'\<lparr> synced := d \<rparr> \<rparr>) (pointer_to m i s)"
      by (simp add: claims_def) (metis length_mem_read)
    with run s' low show ?thesis by (intro disjI1) (auto simp: slot_bit_def)
  next
    assume "alloc_scan (slots_per_extent ?c) 0 (bitmap_of m i) = Ok (bitmap_of m i, None)"
      and full: "\<forall>u. 0 \<le> u \<longrightarrow> u < 0 + slots_per_extent ?c \<longrightarrow> slot_taken (bitmap_of m i) u"
    then have "try_allocate_in_extent page i ?c m = Ok (m, None)"
      using ok(2) map
      by (simp add: try_allocate_in_extent_def as_mut_slice_def file_slice_def file_write_def bitmap_allocate_def
          extent_offset_def)
    with full show ?thesis by (simp add: slot_bit_def)
  qed
qed

lemma try_candidates_spec:
  assumes "storage_ok page m" "\<forall>i \<in> set idxs. i < length (extents m) \<and> extents m ! i = c"
  shows "(\<exists>m' i s. try_candidates page idxs c m = Ok (m', Some (pointer_to m i s)) \<and> i \<in> set idxs \<and>
      extents m' = extents m \<and> claims page m m' (pointer_to m i s)) \<or>
    (try_candidates page idxs c m = Ok (m, None) \<and>
      (\<forall>i \<in> set idxs. \<forall>s < slots_per_extent c. slot_bit (ext_file m) i s))"
  using assms(2)
proof (induction idxs)
  case Nil
  then show ?case by simp
next
  case (Cons i idxs)
  then have i: "i < length (extents m)" "extents m ! i = c" by simp_all
  from try_allocate_spec [OF assms(1) i(1)] show ?case
  proof (elim disjE exE conjE)
    fix m' s assume run: "try_allocate_in_extent page i (extents m ! i) m = Ok (m', Some s)"
      "claims page m m' (pointer_to m i s)" "extents m' = extents m"
    then have "try_candidates page (i # idxs) c m = Ok (m', Some (pointer_to m i s))"
      using i(2) by (simp add: claims_def pointer_to_def)
    with run show ?thesis by (intro disjI1) auto
  next
    assume "try_allocate_in_extent page i (extents m ! i) m = Ok (m, None)"
      and full: "\<forall>s < slots_per_extent (extents m ! i). slot_bit (ext_file m) i s"
    then have "try_candidates page (i # idxs) c m = try_candidates page idxs c m" using i(2) by simp
    moreover have "\<forall>i \<in> set idxs. i < length (extents m) \<and> extents m ! i = c" using Cons.prems by simp
    ultimately show ?thesis using Cons.IH full i(2) by (metis list.set_intros(2) set_ConsD)
  qed
qed

section \<open>Growing the file\<close>

lemma file_writes_header:
  assumes "prot_write f" and "base + EXTENT_HEADER_LEN \<le> mapped_len f"
  shows "file_writes (header_fields base h) f =
    Ok (f\<lparr> mem := mem_write base (extent_header_bytes h) (mem f) \<rparr>)"
proof -
  have app: "mem_write b cs (mem_write a bs m) = mem_write a (bs @ cs) m" if "b = a + length bs" for a b bs cs m
    using that mem_write_append by simp
  have len: "base + 16 \<le> mapped_len f" using assms(2) by (simp add: extent_parts)
  have "file_writes (header_fields base h) f = Ok (f\<lparr> mem :=
      mem_write (base + 12) (le_bytes 4 (free_count h)) (mem_write (base + 8) (le_bytes 4 (slot_count h))
      (mem_write (base + 7) [of_nat (ext_reserved h)] (mem_write (base + 6) [of_nat (ext_class h)]
      (mem_write (base + 4) (le_bytes 2 (ext_version h)) (mem_write base (le_bytes 4 (ext_magic h)) (mem f)))))) \<rparr>)"
    using assms(1) len by (simp add: header_fields_def file_write_def del: le_bytes.simps)
  then show ?thesis
    by (simp add: app extent_header_bytes_def del: le_bytes.simps)
qed

lemma length_extent_header_bytes [simp]: "length (extent_header_bytes h) = EXTENT_HEADER_LEN"
  by (simp add: extent_header_bytes_def EXTENT_HEADER_LEN_def)

text \<open>A grown file has the same bytes, since everything behind the last extent is zero.\<close>

lemma grow_spec:
  assumes ok: "storage_ok page m"
  defines "k \<equiv> length (extents m)"
  shows "\<exists>d. grow_by_one_extent page (ext_file m) = Ok ((ext_file m)\<lparr> synced := d,
      file_len := k * extent_stride page + EXTENT_SIZE, mapped_len := Suc k * extent_stride page \<rparr>,
      k * extent_stride page)"
proof -
  let ?f = "ext_file m"
  have l: "layout_ok page ?f (extents m)" "prot_write ?f" using ok by (simp_all add: storage_ok_def)
  have p: "os_page_ok page" and len: "mapped_len ?f = k * extent_stride page"
    and fl: "file_len ?f = (if extents m = [] then 0 else (k - 1) * extent_stride page + EXTENT_SIZE)"
    and z: "\<And>a. k * EXTENT_SIZE \<le> a \<Longrightarrow> mem ?f a = 0" using l by (simp_all add: layout_ok_def k_def)
  have k: "k < 2 * EXTENT_SIZE" unfolding k_def by (rule layout_sizes(3) [OF l(1)])
  have stride: "EXTENT_SIZE < extent_stride page" using stride_bounds [OF p] by simp
  have low: "k * EXTENT_SIZE \<le> file_len ?f" "file_len ?f \<le> k * extent_stride page + EXTENT_SIZE"
  proof -
    have 1: "(k - 1) * EXTENT_SIZE \<le> (k - 1) * extent_stride page" "(k - 1) * extent_stride page \<le> k * extent_stride page"
      by (rule mult_le_mono2 mult_le_mono1; use stride in simp)+
    have 2: "(k - 1) * EXTENT_SIZE + EXTENT_SIZE = k * EXTENT_SIZE" if "extents m \<noteq> []"
      using that by (cases k) (simp_all add: k_def)
    have "k = 0" if "extents m = []" using that by (simp add: k_def)
    then show "k * EXTENT_SIZE \<le> file_len ?f"
      unfolding fl using 1 2 by (cases "extents m = []"; simp only: if_True if_False; linarith)
    show "file_len ?f \<le> k * extent_stride page + EXTENT_SIZE"
      unfolding fl by (simp add: mult_le_mono1)
  qed
  have cut: "(\<lambda>i. if i < min (k * extent_stride page + EXTENT_SIZE) (file_len ?f) then mem ?f i else 0) = mem ?f"
    by (rule ext) (use low z in auto)
  have "0 < Suc k * extent_stride page" using stride by simp
  define d where "d = (\<lambda>i. if i < min (k * extent_stride page + EXTENT_SIZE) (file_len ?f) then synced ?f i else 0)"
  have "ftruncate (k * extent_stride page + EXTENT_SIZE) ?f =
      Ok (?f\<lparr> synced := d, file_len := k * extent_stride page + EXTENT_SIZE \<rparr>)"
    unfolding ftruncate_def Let_def cut d_def using l(2) by (cases ?f) simp
  then have "grow_by_one_extent page ?f = Ok (?f\<lparr> synced := d,
      file_len := k * extent_stride page + EXTENT_SIZE, mapped_len := Suc k * extent_stride page \<rparr>, k * extent_stride page)"
    using \<open>0 < Suc k * extent_stride page\<close> l(2)
    by (simp add: grow_by_one_extent_def map_len_def Let_def len grown_length [OF p k] del: mult_Suc)
  then show ?thesis by blast
qed

lemma header_class_byte:
  "c < 16 \<Longrightarrow> mem_write base (extent_header_bytes (extent_header_new c)) m (base + 6) = of_nat c"
  by (simp add: mem_write_def extent_header_bytes_def extent_header_new_def nth_append del: le_bytes.simps)

text \<open>The new extent is empty, and the others are as they were.\<close>

lemma init_spec:
  assumes ok: "storage_ok page m" and room: "length (extents m) < EXTENT_SIZE" and c: "c < 16"
  defines "k \<equiv> length (extents m)"
  assumes f: "f = (ext_file m)\<lparr> synced := d, file_len := k * extent_stride page + EXTENT_SIZE, mapped_len := Suc k * extent_stride page \<rparr>"
  shows "\<exists>m'. init_extent_header page k c (m\<lparr> ext_file := f \<rparr>) = Ok m' \<and> mgr_file_id m' = mgr_file_id m \<and>
    extents m' = extents m \<and> storage_ok page (m'\<lparr> extents := extents m @ [c] \<rparr>) \<and>
    contents (m'\<lparr> extents := extents m @ [c] \<rparr>) = contents m \<and> (\<forall>s < slots_per_extent c. \<not> slot_bit (ext_file m') k s)"
proof -
  let ?f = "ext_file m"
  let ?hb = "extent_header_bytes (extent_header_new c)"
  have l: "layout_ok page ?f (extents m)" "prot_write ?f" using ok by (simp_all add: storage_ok_def)
  have p: "os_page_ok page" and z: "\<And>a. k * EXTENT_SIZE \<le> a \<Longrightarrow> mem ?f a = 0"
    and cls: "\<And>i. i < k \<Longrightarrow> extents m ! i < CLASS_COUNT \<and> mem ?f (i * EXTENT_SIZE + 6) = of_nat (extents m ! i)"
    using l by (simp_all add: layout_ok_def k_def)
  define g where "g = f\<lparr> mem := mem_write (k * EXTENT_SIZE) ?hb (mem ?f) \<rparr>"
  have gmem: "mem g = mem_write (k * EXTENT_SIZE) ?hb (mem ?f)" by (simp add: g_def)
  have old: "mem g a = mem ?f a" if "a < k * EXTENT_SIZE \<or> k * EXTENT_SIZE + EXTENT_HEADER_LEN \<le> a" for a
    unfolding gmem using that by (intro mem_write_outside) simp
  have layout: "layout_ok page g (extents m @ [c])"
    unfolding layout_ok_def
  proof (intro conjI allI impI)
    show "os_page_ok page" "length (extents m @ [c]) \<le> EXTENT_SIZE" using p room by simp_all
    show "mapped_len g = length (extents m @ [c]) * extent_stride page"
      "file_len g = (if extents m @ [c] = [] then 0 else (length (extents m @ [c]) - 1) * extent_stride page + EXTENT_SIZE)"
      by (simp_all add: g_def f k_def)
    fix a assume "length (extents m @ [c]) * EXTENT_SIZE \<le> a"
    then have "k * EXTENT_SIZE + EXTENT_SIZE \<le> a" by (simp add: k_def)
    then show "mem g a = 0" using old [of a] z [of a] extent_parts by simp
  next
    fix i assume i: "i < length (extents m @ [c])"
    show "(extents m @ [c]) ! i < CLASS_COUNT"
      using i cls c by (auto simp: nth_append k_def CLASS_COUNT_def)
    show "mem g (i * EXTENT_SIZE + 6) = of_nat ((extents m @ [c]) ! i)"
    proof (cases "i < k")
      case True
      then have "i * EXTENT_SIZE + 6 < k * EXTENT_SIZE" using extent_apart [OF True] extent_parts(4) by linarith
      then show ?thesis using old cls [OF True] True by (simp add: nth_append k_def)
    next
      case False
      then have "i = k" using i by (simp add: k_def)
      then show ?thesis using header_class_byte [OF c] by (simp add: gmem k_def)
    qed
  qed
  have gr: "k * EXTENT_SIZE + EXTENT_HEADER_LEN \<le> mapped_len g"
    using layout_mapped [OF layout, of k] extent_parts by (simp add: k_def)
  from layout_sync [OF layout this] obtain e where e: "sync_range page (k * EXTENT_SIZE) EXTENT_HEADER_LEN g = Ok (g\<lparr> synced := e \<rparr>)" .
  have "file_writes (header_fields (k * EXTENT_SIZE) (extent_header_new c)) f = Ok g"
    using file_writes_header [of f "k * EXTENT_SIZE" "extent_header_new c"] gr l(2) by (simp add: g_def f)
  then have run: "init_extent_header page k c (m\<lparr> ext_file := f \<rparr>) = Ok (m\<lparr> ext_file := g\<lparr> synced := e \<rparr> \<rparr>)"
    using e l(2) by (simp add: init_extent_header_def as_mut_slice_def extent_offset_def f)
  let ?m = "m\<lparr> ext_file := g\<lparr> synced := e \<rparr> \<rparr>"
  have new_bits: "\<not> slot_bit (ext_file ?m) k s" if s: "s < slots_per_extent c" for s
  proof -
    have "s div 8 < BITMAP_BYTES" using slots_bits [OF c] s by linarith
    then show ?thesis using old [of "bitmap_base k + s div 8"] z [of "bitmap_base k + s div 8"]
      by (simp add: slot_bit_def slot_taken_def)
  qed
  have region: "mem_read (mem g) a n = mem_read (mem ?f) a n" if "a + n \<le> k * EXTENT_SIZE" for a n
    using that old by (intro mem_read_cong) auto
  have "contents (?m\<lparr> extents := extents m @ [c] \<rparr>) q = contents m q" for q
  proof (cases "extent_index q < k")
    case True
    have ad: "addressed (?m\<lparr> extents := extents m @ [c] \<rparr>) q = addressed m q"
      using True by (simp add: addressed_def nth_append k_def)
    have "bitmap_base (extent_index q) + BITMAP_BYTES \<le> k * EXTENT_SIZE"
      using extent_apart [OF True] extent_parts by linarith
    then have bit: "slot_bit g (extent_index q) s = slot_bit ?f (extent_index q) s" for s
      by (simp add: slot_bit_def region)
    have "slot_base q + block_size (ptr_class q) \<le> k * EXTENT_SIZE" if "addressed m q"
      using addressed_range(3) [OF l(1) that] extent_apart [OF True] by linarith
    then show ?thesis using ad bit region by (simp add: contents_def slot_bit_def)
  next
    case False
    have "\<not> (addressed (?m\<lparr> extents := extents m @ [c] \<rparr>) q \<and> slot_bit (ext_file ?m) (extent_index q) (slot_index q))"
    proof (intro notI, elim conjE)
      assume a: "addressed (?m\<lparr> extents := extents m @ [c] \<rparr>) q" and b: "slot_bit (ext_file ?m) (extent_index q) (slot_index q)"
      have "extent_index q = k" using a False by (simp add: addressed_def k_def)
      moreover have "slot_index q < slots_per_extent c" using a \<open>extent_index q = k\<close> by (auto simp: addressed_def k_def)
      ultimately show False using new_bits b by simp
    qed
    then show ?thesis using False by (auto simp: contents_def addressed_def k_def)
  qed
  then have "contents (?m\<lparr> extents := extents m @ [c] \<rparr>) = contents m" by blast
  moreover have "storage_ok page (?m\<lparr> extents := extents m @ [c] \<rparr>)"
    using layout l(2) by (simp add: storage_ok_def) (simp add: g_def f)
  ultimately show ?thesis using run new_bits by (intro exI [of _ ?m]) simp
qed

section \<open>Allocation\<close>

lemma candidates_in:
  "length cs \<le> EXTENT_SIZE \<Longrightarrow> set (candidate_indices c cs) = {i. i < length cs \<and> cs ! i = c}"
proof -
  assume "length cs \<le> EXTENT_SIZE"
  then have "i mod 2 ^ 32 = i" if "i < length cs" for i using that by (simp add: extent_consts)
  then have "(\<lambda>i. i mod 2 ^ 32) ` {i. i < length cs \<and> cs ! i = c} = (\<lambda>i. i) ` {i. i < length cs \<and> cs ! i = c}"
    by (intro image_cong) auto
  then show ?thesis by (simp add: candidate_indices_def)
qed

definition extent_full :: "extent_manager \<Rightarrow> nat \<Rightarrow> bool" where
  "extent_full m i \<longleftrightarrow> (\<forall>s < slots_per_extent (extents m ! i). slot_bit (ext_file m) i s)"

text \<open>When every extent of the class is full, the slot is the first one of a new extent.\<close>

lemma allocate_grows:
  assumes ok: "storage_ok page m" and room: "no_drift page (length (extents m))"
    and c: "for_size sz = Ok c" "c < 16"
    and full: "try_candidates page (candidate_indices c (extents m)) c m = Ok (m, None)"
  shows "\<exists>m'. allocate page sz m = Ok (m', pointer_to m' (length (extents m)) 0) \<and>
    extents m' = extents m @ [c] \<and> claims page m m' (pointer_to m' (length (extents m)) 0)"
proof -
  define k where "k = length (extents m)"
  have l: "layout_ok page (ext_file m) (extents m)" using ok by (simp add: storage_ok_def)
  have p: "os_page_ok page" using l by (simp add: layout_ok_def)
  have k: "k < EXTENT_SIZE" unfolding k_def by (rule no_drift_count [OF p room])
  from grow_spec [OF ok] obtain d where grow: "grow_by_one_extent page (ext_file m) =
      Ok ((ext_file m)\<lparr> synced := d, file_len := k * extent_stride page + EXTENT_SIZE, mapped_len := Suc k * extent_stride page \<rparr>,
        k * extent_stride page)" (is "_ = Ok (?f, _)") unfolding k_def by blast
  have "k * extent_stride page div EXTENT_SIZE mod 2 ^ 32 = k"
    using no_drift_div [OF p room [folded k_def]] k by (simp add: extent_consts)
  note idx = this
  from init_spec [OF ok k [unfolded k_def] c(2), of ?f d] obtain m1 where
    m1: "init_extent_header page k c (m\<lparr> ext_file := ?f \<rparr>) = Ok m1" "mgr_file_id m1 = mgr_file_id m" "extents m1 = extents m"
      "storage_ok page (m1\<lparr> extents := extents m @ [c] \<rparr>)" "contents (m1\<lparr> extents := extents m @ [c] \<rparr>) = contents m"
      "\<forall>s < slots_per_extent c. \<not> slot_bit (ext_file m1) k s" unfolding k_def by blast
  let ?m = "m1\<lparr> extents := extents m @ [c] \<rparr>"
  have at: "extents ?m ! k = c" "k < length (extents ?m)" by (simp_all add: k_def)
  have some: "0 < slots_per_extent c" using slots_bits [OF c(2)] by simp
  from try_allocate_spec [OF m1(4) at(2)] obtain m' s where
    t: "try_allocate_in_extent page k c ?m = Ok (m', Some s)" "claims page ?m m' (pointer_to ?m k s)"
      "extents m' = extents ?m" "\<forall>t < s. slot_bit (ext_file ?m) k t" "s < slots_per_extent c"
    using m1(6) some unfolding at(1) by auto
  have "s = 0"
  proof (rule ccontr)
    assume "s \<noteq> 0"
    then have "slot_bit (ext_file m1) k 0" using t(4) by simp
    then show False using m1(6) some by blast
  qed
  have fid: "mgr_file_id m' = mgr_file_id m" using t(2) m1(2) by (simp add: claims_def)
  have ptr: "pointer_to m' k 0 = pointer_to ?m k 0" using t(2,3) by (simp add: pointer_to_def claims_def)
  have "allocate page sz m = Ok (m', pointer_to m' k 0)"
    using c(1) full grow idx m1(1,3) t(1,3) \<open>s = 0\<close> fid
    by (simp add: allocate_def Let_def pointer_to_def k_def)
  moreover have "claims page m m' (pointer_to m' k 0)"
    using t(2) m1(2,5) \<open>s = 0\<close> unfolding ptr claims_def by simp
  ultimately show ?thesis using t(3) by (auto simp: k_def)
qed

lemma allocate_spec:
  assumes ok: "storage_ok page m" and room: "no_drift page (length (extents m))" and sz: "sz \<le> MAX_BLOCK_SIZE"
  shows "\<exists>m' p. allocate page sz m = Ok (m', p) \<and> claims page m m' p \<and> sz \<le> block_size (ptr_class p) \<and>
    length (extents m') \<le> Suc (length (extents m))"
proof -
  obtain c where c: "c < 16" "for_size sz = Ok c" "sz \<le> block_size c" using for_size_ok [OF sz] by blast
  have "length (extents m) \<le> EXTENT_SIZE" using ok by (simp add: storage_ok_def layout_ok_def)
  then have cand: "\<forall>i \<in> set (candidate_indices c (extents m)). i < length (extents m) \<and> extents m ! i = c"
    using candidates_in by blast
  from try_candidates_spec [OF ok cand] show ?thesis
  proof (elim disjE exE conjE)
    fix m' i s assume t: "try_candidates page (candidate_indices c (extents m)) c m = Ok (m', Some (pointer_to m i s))"
      "i \<in> set (candidate_indices c (extents m))" "extents m' = extents m" "claims page m m' (pointer_to m i s)"
    have "extents m ! i = c" using cand t(2) by blast
    then have "allocate page sz m = Ok (m', pointer_to m i s)" "ptr_class (pointer_to m i s) = c"
      using t(1) c by (simp_all add: allocate_def pointer_to_def)
    with t c(3) show ?thesis by (intro exI [of _ m'] exI [of _ "pointer_to m i s"]) simp
  next
    assume full: "try_candidates page (candidate_indices c (extents m)) c m = Ok (m, None)"
    from allocate_grows [OF ok room c(2,1) full] obtain m' where
      m': "allocate page sz m = Ok (m', pointer_to m' (length (extents m)) 0)" "extents m' = extents m @ [c]"
        "claims page m m' (pointer_to m' (length (extents m)) 0)" by blast
    then have "ptr_class (pointer_to m' (length (extents m)) 0) = c" by (simp add: pointer_to_def)
    with m' c(3) show ?thesis by auto
  qed
qed

lemma allocate_too_large:
  "MAX_BLOCK_SIZE < sz \<Longrightarrow> allocate page sz m = Err (InvalidValue
     ''value exceeds the largest block class (16MiB); oversized-value chaining is not implemented'')"
  by (simp add: allocate_def for_size_too_large)

section \<open>The interface of a slot store\<close>

locale slot_store =
  fixes ok :: "'s \<Rightarrow> bool"
    and room :: "nat \<Rightarrow> 's \<Rightarrow> bool"
    and cap :: nat
    and cont :: "'s \<Rightarrow> 'p \<Rightarrow> bytes option"
    and alloc :: "nat \<Rightarrow> 's \<Rightarrow> ('s \<times> 'p) result"
    and wr :: "'p \<Rightarrow> bytes \<Rightarrow> 's \<Rightarrow> 's result"
    and rd :: "'s \<Rightarrow> 'p \<Rightarrow> nat \<Rightarrow> bytes result"
    and fr :: "'p \<Rightarrow> 's \<Rightarrow> 's result"
  assumes alloc_ok: "ok s \<Longrightarrow> room (Suc n) s \<Longrightarrow> sz \<le> cap \<Longrightarrow> \<exists>s' p b. alloc sz s = Ok (s', p) \<and> ok s' \<and>
      room n s' \<and> cont s p = None \<and> sz \<le> length b \<and> cont s' = (cont s)(p \<mapsto> b)"
    and alloc_large: "cap < sz \<Longrightarrow> \<exists>e. alloc sz s = Err e"
    and wr_ok: "ok s \<Longrightarrow> cont s p = Some b \<Longrightarrow> length data \<le> length b \<Longrightarrow> \<exists>s'. wr p data s = Ok s' \<and> ok s' \<and>
      (\<forall>n. room n s \<longrightarrow> room n s') \<and> cont s' = (cont s)(p \<mapsto> data @ drop (length data) b)"
    and rd_ok: "ok s \<Longrightarrow> cont s p = Some b \<Longrightarrow> n \<le> length b \<Longrightarrow> rd s p n = Ok (take n b)"
    and fr_ok: "ok s \<Longrightarrow> cont s p \<noteq> None \<Longrightarrow> \<exists>s'. fr p s = Ok s' \<and> ok s' \<and>
      (\<forall>n. room n s \<longrightarrow> room n s') \<and> cont s' = (cont s)(p := None)"
begin

text \<open>Storing a value: allocate a slot and write it.\<close>

lemma store_value:
  assumes "ok s" "room (Suc n) s" "length data \<le> cap"
  shows "\<exists>s1 p s2 rest. alloc (length data) s = Ok (s1, p) \<and> wr p data s1 = Ok s2 \<and> ok s2 \<and> room n s2 \<and>
    cont s p = None \<and> cont s2 = (cont s)(p \<mapsto> data @ rest) \<and> rd s2 p (length data) = Ok data"
proof -
  obtain s1 p b where a: "alloc (length data) s = Ok (s1, p)" "ok s1" "room n s1" "cont s p = None"
    "length data \<le> length b" "cont s1 = (cont s)(p \<mapsto> b)"
    using alloc_ok [OF assms] by blast
  then have "cont s1 p = Some b" by simp
  from wr_ok [OF a(2) this a(5)] obtain s2 where w: "wr p data s1 = Ok s2" "ok s2" "\<forall>n. room n s1 \<longrightarrow> room n s2"
    "cont s2 = (cont s1)(p \<mapsto> data @ drop (length data) b)" by blast
  have "rd s2 p (length data) = Ok data"
    using rd_ok [OF w(2), of p "data @ drop (length data) b" "length data"] w(4) by simp
  with a w show ?thesis by auto
qed

text \<open>A freed slot is gone, all others keep their bytes.\<close>

lemma free_others: "ok s \<Longrightarrow> cont s p \<noteq> None \<Longrightarrow> fr p s = Ok s' \<Longrightarrow> q \<noteq> p \<Longrightarrow> cont s' q = cont s q"
  using fr_ok [of s p] by auto

end

definition alloc_room :: "nat \<Rightarrow> nat \<Rightarrow> extent_manager \<Rightarrow> bool" where
  "alloc_room page n m \<longleftrightarrow> n = 0 \<or> no_drift page (length (extents m) + n - 1)"

interpretation manager: slot_store "storage_ok page" "alloc_room page" MAX_BLOCK_SIZE contents "allocate page"
  "manager_write page" manager_read "manager_free page" for page
proof unfold_locales
  fix m :: extent_manager and n sz assume ok: "storage_ok page m" and room: "alloc_room page (Suc n) m" and sz: "sz \<le> MAX_BLOCK_SIZE"
  have "no_drift page (length (extents m))"
    using no_drift_mono [of page "length (extents m) + n"] room by (simp add: alloc_room_def)
  from allocate_spec [OF ok this sz] obtain m' p where
    a: "allocate page sz m = Ok (m', p)" "claims page m m' p" "sz \<le> block_size (ptr_class p)"
      "length (extents m') \<le> Suc (length (extents m))" by blast
  have "alloc_room page n m'"
    using no_drift_mono [of page "length (extents m) + n" "length (extents m') + n - 1"] room a(4)
    by (auto simp: alloc_room_def)
  with a show "\<exists>s' p b. allocate page sz m = Ok (s', p) \<and> storage_ok page s' \<and> alloc_room page n s' \<and>
      contents m p = None \<and> sz \<le> length b \<and> contents s' = (contents m)(p \<mapsto> b)"
    unfolding claims_def by metis
next
  fix m :: extent_manager and p :: slot_pointer and b data :: bytes assume "storage_ok page m" "contents m p = Some b" "length data \<le> length b"
  from manager_write_spec [OF this] show "\<exists>s'. manager_write page p data m = Ok s' \<and> storage_ok page s' \<and>
      (\<forall>n. alloc_room page n m \<longrightarrow> alloc_room page n s') \<and> contents s' = (contents m)(p \<mapsto> data @ drop (length data) b)"
    by (auto simp: alloc_room_def)
next
  fix m :: extent_manager and p :: slot_pointer assume "storage_ok page m" "contents m p \<noteq> None"
  from manager_free_spec [OF this] show "\<exists>s'. manager_free page p m = Ok s' \<and> storage_ok page s' \<and>
      (\<forall>n. alloc_room page n m \<longrightarrow> alloc_room page n s') \<and> contents s' = (contents m)(p := None)"
    by (auto simp: alloc_room_def)
qed (auto simp: allocate_too_large storage_ok_def manager_read_spec)

section \<open>Reopening a file\<close>

lemma read_classes_spec:
  "(\<forall>i < length cs. (j + i) * EXTENT_SIZE + EXTENT_HEADER_LEN \<le> mapped_len f \<and> cs ! i < 16 \<and>
      mem f ((j + i) * EXTENT_SIZE + 6) = of_nat (cs ! i)) \<Longrightarrow> read_classes (length cs) j f = Ok cs"
proof (induction cs arbitrary: j)
  case (Cons c cs)
  have "\<forall>i < length cs. (Suc j + i) * EXTENT_SIZE + EXTENT_HEADER_LEN \<le> mapped_len f \<and> cs ! i < 16 \<and>
      mem f ((Suc j + i) * EXTENT_SIZE + 6) = of_nat (cs ! i)"
  proof (intro allI impI)
    fix i assume "i < length cs"
    with Cons.prems [rule_format, of "Suc i"] show "(Suc j + i) * EXTENT_SIZE + EXTENT_HEADER_LEN \<le> mapped_len f \<and> cs ! i < 16 \<and>
      mem f ((Suc j + i) * EXTENT_SIZE + 6) = of_nat (cs ! i)" by simp
  qed
  from Cons.IH [OF this] Cons.prems [rule_format, of 0] show ?case
    by (simp add: file_slice_def extent_parts class_from_index_def CLASS_COUNT_def unat_of_nat_u8)
qed simp

lemma reopened:
  assumes ok: "storage_ok page m" and nd: "no_drift page (length (extents m))"
  shows "\<exists>m'. manager_open page (disk_image (ext_file m)) (mgr_file_id m) writable = Ok m' \<and>
    extents m' = extents m \<and> contents m' = contents m \<and> mgr_file_id m' = mgr_file_id m \<and>
    layout_ok page (ext_file m') (extents m') \<and> prot_write (ext_file m') = writable"
proof -
  let ?f = "ext_file m"
  define k where "k = length (extents m)"
  have l: "layout_ok page ?f (extents m)" using ok by (simp add: storage_ok_def)
  have p: "os_page_ok page" and map: "mapped_len ?f = k * extent_stride page"
    and z: "\<And>a. k * EXTENT_SIZE \<le> a \<Longrightarrow> mem ?f a = 0"
    and len: "file_len ?f = (if k = 0 then 0 else (k - 1) * extent_stride page + EXTENT_SIZE)"
    using l by (auto simp: layout_ok_def k_def)
  have stride: "EXTENT_SIZE < extent_stride page" using stride_bounds [OF p] by simp
  define g where "g = extent_file_open page (disk_image ?f) writable"
  have k: "k < 2 * EXTENT_SIZE" using layout_sizes(3) [OF l] by (simp add: k_def)
  have "mapped_len g = k * extent_stride page"
  proof (cases k)
    case 0
    then show ?thesis by (simp add: g_def extent_file_open_def disk_image_def len Let_def)
  next
    case (Suc j)
    then have "round_up_to_os_page page (file_len ?f) = k * extent_stride page"
      using grown_length [OF p, of j] k by (simp add: len)
    then show ?thesis using Suc extent_parts(4)
      by (simp add: g_def extent_file_open_def disk_image_def Let_def len del: mult_Suc)
  qed
  have low: "k * EXTENT_SIZE \<le> file_len ?f"
  proof (cases k)
    case (Suc j)
    have "j * EXTENT_SIZE \<le> j * extent_stride page" by (rule mult_le_mono2) (use stride in simp)
    with Suc show ?thesis unfolding len by simp
  qed simp
  have gmem: "mem g = mem ?f"
    unfolding g_def extent_file_open_def disk_image_def Let_def
    using low z by (intro ext) auto
  have gl: "layout_ok page g (extents m)"
    using l \<open>mapped_len g = k * extent_stride page\<close>
    by (simp add: layout_ok_def gmem k_def) (simp add: g_def extent_file_open_def disk_image_def Let_def)
  have "read_classes (length (extents m)) 0 g = Ok (extents m)"
  proof (rule read_classes_spec, intro allI impI)
    fix i assume "i < length (extents m)"
    with layout_mapped [OF gl this] gl extent_parts
    show "(0 + i) * EXTENT_SIZE + EXTENT_HEADER_LEN \<le> mapped_len g \<and> extents m ! i < 16 \<and>
      mem g ((0 + i) * EXTENT_SIZE + 6) = of_nat (extents m ! i)" by (simp add: layout_ok_def CLASS_COUNT_def)
  qed
  moreover have "mapped_len g div EXTENT_SIZE = length (extents m)"
    using no_drift_div [OF p nd] \<open>mapped_len g = k * extent_stride page\<close> by (simp add: k_def)
  ultimately have "manager_open page (disk_image ?f) (mgr_file_id m) writable =
      Ok \<lparr> ext_file = g, mgr_file_id = mgr_file_id m, extents = extents m \<rparr>"
    by (simp add: manager_open_def Let_def g_def)
  moreover have "contents \<lparr> ext_file = g, mgr_file_id = mgr_file_id m, extents = extents m \<rparr> = contents m"
    by (rule ext) (auto simp: contents_def addressed_def slot_bit_def gmem)
  moreover have "prot_write g = writable" by (simp add: g_def extent_file_open_def disk_image_def Let_def)
  ultimately show ?thesis using gl by simp
qed

section \<open>Where the numbering of extents breaks\<close>

text \<open>\<open>n\<close> allocations of the same size, the results dropped.\<close>

primrec allocate_many :: "nat \<Rightarrow> nat \<Rightarrow> nat \<Rightarrow> extent_manager \<Rightarrow> extent_manager result" where
  "allocate_many page 0 sz m = Ok m"
| "allocate_many page (Suc n) sz m =
     obind (allocate_many page n sz m) (\<lambda>m. omap fst (allocate page sz m))"

lemma stride_4096: "extent_stride 4096 = 16785408"
  unfolding extent_stride_def
  by (subst round_up_eq) (simp_all add: extent_consts page_size_ok_def, intro exI [of _ 12], simp)

lemma os_page_4096: "os_page_ok 4096"
  unfolding os_page_ok_def page_size_ok_def by (intro conjI exI [of _ 12]) simp_all

lemma no_drift_4096: "no_drift 4096 k \<longleftrightarrow> k < 4114"
  by (auto simp: no_drift_def stride_4096 extent_consts)

lemma for_size_max: "for_size MAX_BLOCK_SIZE = Ok 15"
proof -
  obtain c where c: "c < 16" "for_size MAX_BLOCK_SIZE = Ok c" "MAX_BLOCK_SIZE \<le> block_size c"
    using for_size_ok by blast
  have "c = 15"
  proof (rule ccontr)
    assume "c \<noteq> 15"
    then have "(2 :: nat) ^ c \<le> 2 ^ 14" using c(1) by (intro power_increasing) simp_all
    then show False using c(3) by (simp add: block_size_def extent_consts)
  qed
  with c show ?thesis by simp
qed

lemma storage_ok_create: "os_page_ok page \<Longrightarrow> storage_ok page (manager_create fid)"
  by (simp add: storage_ok_def manager_create_def extent_file_create_def layout_ok_def)

definition whole_extents :: "nat \<Rightarrow> extent_manager \<Rightarrow> bool" where
  "whole_extents n m \<longleftrightarrow> extents m = replicate n 15 \<and> (\<forall>i < n. contents m (pointer_to m i 0) \<noteq> None)"

lemma whole_extents_full:
  assumes "storage_ok page m" "whole_extents n m"
  shows "try_candidates page (candidate_indices 15 (extents m)) 15 m = Ok (m, None)"
proof -
  have len: "length (extents m) \<le> EXTENT_SIZE" using assms(1) by (simp add: storage_ok_def layout_ok_def)
  then have cand: "\<forall>i \<in> set (candidate_indices 15 (extents m)). i < length (extents m) \<and> extents m ! i = 15"
    using candidates_in by blast
  from try_candidates_spec [OF assms(1) cand] show ?thesis
  proof (elim disjE exE conjE)
    fix m' i s assume i: "i \<in> set (candidate_indices 15 (extents m))" and c: "claims page m m' (pointer_to m i s)"
      and t: "try_candidates page (candidate_indices 15 (extents m)) 15 m = Ok (m', Some (pointer_to m i s))"
    have "contents m (pointer_to m i s) = None" using c by (simp add: claims_def)
    moreover have "contents m' (pointer_to m i s) \<noteq> None" using c by (auto simp: claims_def)
    moreover have "s = 0" if "addressed m' (pointer_to m i s)"
      using that cand i by (auto simp: addressed_def pointer_to_def slots_power)
    moreover have "i < n" using cand i assms(2) by (auto simp: whole_extents_def)
    ultimately show ?thesis using assms(2) by (auto simp: whole_extents_def contents_def split: if_splits)
  qed
qed

lemma fill_extents:
  assumes "os_page_ok page" "no_drift page n"
  shows "j \<le> Suc n \<Longrightarrow> \<exists>m. allocate_many page j MAX_BLOCK_SIZE (manager_create fid) = Ok m \<and> storage_ok page m \<and> whole_extents j m"
proof (induction j)
  case 0
  show ?case using storage_ok_create [OF assms(1)]
    by (intro exI [of _ "manager_create fid"]) (simp add: whole_extents_def manager_create_def)
next
  case (Suc j)
  then obtain m where m: "allocate_many page j MAX_BLOCK_SIZE (manager_create fid) = Ok m" "storage_ok page m" "whole_extents j m"
    by auto
  have len: "length (extents m) = j" using m(3) by (simp add: whole_extents_def)
  have nd: "no_drift page (length (extents m))" using no_drift_mono [OF assms(2)] Suc.prems len by simp
  from allocate_grows [OF m(2) nd for_size_max _ whole_extents_full [OF m(2,3)]] obtain m' where
    m': "allocate page MAX_BLOCK_SIZE m = Ok (m', pointer_to m' j 0)" "extents m' = extents m @ [15]"
      "claims page m m' (pointer_to m' j 0)" unfolding len by auto
  have "pointer_to m' i 0 = pointer_to m i 0" if "i < j" for i
    using m'(2,3) that len by (simp add: pointer_to_def claims_def nth_append)
  then have "contents m' (pointer_to m' i 0) \<noteq> None" if "i < Suc j" for i
    using m'(3) m(3) that by (cases "i = j") (auto simp: claims_def whole_extents_def)
  then have "whole_extents (Suc j) m'"
    using m'(2) m(3) by (simp add: whole_extents_def replicate_append_same [symmetric])
  with m(1) m'(1,3) show ?case by (auto simp: claims_def)
qed

text \<open>Claiming the first slot of an extent that no table entry stands for.\<close>

lemma init_elsewhere:
  assumes f: "prot_write f" "page_size_ok page" "mapped_len f + page \<le> 2 ^ 64"
    and i: "i * EXTENT_SIZE + EXTENT_SIZE \<le> mapped_len f" and z: "\<And>a. i * EXTENT_SIZE \<le> a \<Longrightarrow> mem f a = 0"
    and c: "c < 16"
  shows "\<exists>g. init_extent_header page i c (m\<lparr> ext_file := f \<rparr>) = Ok (m\<lparr> ext_file := g \<rparr>) \<and>
    (\<exists>h. try_allocate_in_extent page i c (m\<lparr> ext_file := g, extents := cs \<rparr>) = Ok (m\<lparr> ext_file := h, extents := cs \<rparr>, Some 0))"
proof -
  define f1 where "f1 = f\<lparr> mem := mem_write (i * EXTENT_SIZE) (extent_header_bytes (extent_header_new c)) (mem f) \<rparr>"
  have r: "i * EXTENT_SIZE + EXTENT_HEADER_LEN \<le> mapped_len f1" "bitmap_base i + BITMAP_BYTES \<le> mapped_len f1"
    "mapped_len f1 + page \<le> 2 ^ 64" "prot_write f1"
    using i f extent_parts by (simp_all add: f1_def)
  obtain d where d: "sync_range page (i * EXTENT_SIZE) EXTENT_HEADER_LEN f1 = Ok (f1\<lparr> synced := d \<rparr>)"
    using sync_range_Ok [OF f(2) r(1,3)] .
  have "file_writes (header_fields (i * EXTENT_SIZE) (extent_header_new c)) f = Ok f1"
    using file_writes_header [of f] r(1) f(1) by (simp add: f1_def)
  then have init: "init_extent_header page i c (m\<lparr> ext_file := f \<rparr>) = Ok (m\<lparr> ext_file := f1\<lparr> synced := d \<rparr> \<rparr>)"
    using d f(1) by (simp add: init_extent_header_def as_mut_slice_def extent_offset_def)
  let ?bs = "mem_read (mem f1) (bitmap_base i) BITMAP_BYTES"
  have free: "\<not> slot_taken ?bs 0"
    using z [of "bitmap_base i"] extent_parts by (simp add: slot_taken_def f1_def mem_write_def)
  obtain n where n: "slots_per_extent c = Suc n" using slots_bits [OF c] by (cases "slots_per_extent c") auto
  obtain bs' where bs': "bitmap_set ?bs 0 True = Ok bs'" "length bs' = BITMAP_BYTES"
    using bitmap_set_ok [of 0 ?bs True] extent_parts by auto
  have alloc: "bitmap_allocate ?bs (slots_per_extent c) = Ok (bs', Some 0)"
    using bitmap_get_taken [of 0 ?bs] free bs' extent_parts by (simp add: bitmap_allocate_def n)
  define f2 where "f2 = f1\<lparr> synced := d, mem := mem_write (bitmap_base i) bs' (mem f1) \<rparr>"
  have "bitmap_base i + BITMAP_BYTES \<le> mapped_len f2" "mapped_len f2 + page \<le> 2 ^ 64" using r by (simp_all add: f2_def)
  from sync_range_Ok [OF f(2) this] obtain e where
    e: "sync_range page (bitmap_base i) BITMAP_BYTES f2 = Ok (f2\<lparr> synced := e \<rparr>)" .
  have "try_allocate_in_extent page i c (m\<lparr> ext_file := f1\<lparr> synced := d \<rparr>, extents := cs \<rparr>) =
      Ok (m\<lparr> ext_file := f2\<lparr> synced := e \<rparr>, extents := cs \<rparr>, Some 0)"
    using r alloc bs' e
    by (simp add: try_allocate_in_extent_def as_mut_slice_def file_slice_def file_write_def extent_offset_def f2_def)
  with init show ?thesis by blast
qed

section \<open>Properties of the storage\<close>

text \<open>
  C28: the extent manager is a heap of blocks. Allocation hands out a slot that was not in use and is
  large enough; a write changes the start of that block and no other; a read returns what the block
  holds; freeing gives up that slot and no other.
\<close>

theorem slots_are_a_heap:
  assumes "storage_ok page m"
  shows "(sz \<le> MAX_BLOCK_SIZE \<and> no_drift page (length (extents m)) \<longrightarrow>
      (\<exists>m' p b. allocate page sz m = Ok (m', p) \<and> storage_ok page m' \<and> contents m p = None \<and>
        sz \<le> length b \<and> contents m' = (contents m)(p \<mapsto> b))) \<and>
    (MAX_BLOCK_SIZE < sz \<longrightarrow> (\<exists>e. allocate page sz m = Err e)) \<and>
    (contents m p = Some b \<longrightarrow>
      (\<forall>data. length data \<le> length b \<longrightarrow> (\<exists>m'. manager_write page p data m = Ok m' \<and> storage_ok page m' \<and>
        contents m' = (contents m)(p \<mapsto> data @ drop (length data) b))) \<and>
      (\<forall>n \<le> length b. manager_read m p n = Ok (take n b)) \<and>
      (\<exists>m'. manager_free page p m = Ok m' \<and> storage_ok page m' \<and> contents m' = (contents m)(p := None)))"
proof (intro conjI impI allI)
  show "\<exists>m' p b. allocate page sz m = Ok (m', p) \<and> storage_ok page m' \<and> contents m p = None \<and>
      sz \<le> length b \<and> contents m' = (contents m)(p \<mapsto> b)"
    if "sz \<le> MAX_BLOCK_SIZE \<and> no_drift page (length (extents m))"
    using manager.alloc_ok [OF assms, of 0 sz] that by (auto simp: alloc_room_def)
  show "\<exists>e. allocate page sz m = Err e" if "MAX_BLOCK_SIZE < sz" by (rule manager.alloc_large [OF that])
  show "\<exists>m'. manager_write page p data m = Ok m' \<and> storage_ok page m' \<and>
      contents m' = (contents m)(p \<mapsto> data @ drop (length data) b)"
    if "contents m p = Some b" "length data \<le> length b" for data
    using manager.wr_ok [OF assms that] by blast
  show "manager_read m p n = Ok (take n b)" if "contents m p = Some b" "n \<le> length b" for n
    by (rule manager.rd_ok [OF assms that])
  show "\<exists>m'. manager_free page p m = Ok m' \<and> storage_ok page m' \<and> contents m' = (contents m)(p := None)"
    if "contents m p = Some b"
    using manager.fr_ok [OF assms, of p] that by blast
qed

lemma slots_are_a_heap_witness:
  "\<exists>m p b. allocate 4096 100 (manager_create 7) = Ok (m, p) \<and> 100 \<le> length b \<and>
     contents m = (contents (manager_create 7))(p \<mapsto> b)"
proof -
  have "100 \<le> MAX_BLOCK_SIZE \<and> no_drift 4096 (length (extents (manager_create 7)))"
    by (simp add: manager_create_def no_drift_4096 extent_consts)
  then show ?thesis
    using slots_are_a_heap [OF storage_ok_create [OF os_page_4096, of 7], of 100 _ "[]"] by blast
qed

text \<open>
  Closing and reopening a store loses nothing. As long as the file has not reached the size at
  which page rounding amounts to an extent, opening its image yields the same extents and the same
  contents for every slot, read-only or not.
\<close>

lemma storage_reopens:
  assumes "storage_ok page m" and "no_drift page (length (extents m))"
  shows "\<exists>m'. manager_open page (disk_image (ext_file m)) (mgr_file_id m) writable = Ok m' \<and>
    extents m' = extents m \<and> contents m' = contents m \<and> (writable \<longrightarrow> storage_ok page m')"
  using reopened [OF assms, of writable] by (auto simp: storage_ok_def)

text \<open>
  The numbering of extents breaks at 4114 extents. With pages of 4 KiB the file grows by 4080
  bytes more than an extent each time, and the number of a new extent is computed from the mapped
  length. After 4114 extents (64 GiB) the slot handed out by the next growth lies in extent 4115
  although the table holds extents 0 to 4114, so that the manager does not know it as allocated.
\<close>

lemma extent_numbers_drift:
  "\<exists>m m' p. allocate_many 4096 4114 MAX_BLOCK_SIZE (manager_create fid) = Ok m \<and> storage_ok 4096 m \<and>
     allocate 4096 MAX_BLOCK_SIZE m = Ok (m', p) \<and> length (extents m') = 4115 \<and>
     extent_index p = 4115 \<and> contents m' p = None"
proof -
  have "no_drift 4096 4113" by (simp add: no_drift_4096)
  from fill_extents [OF os_page_4096 this, of 4114 fid] obtain m where
    m: "allocate_many 4096 4114 MAX_BLOCK_SIZE (manager_create fid) = Ok m" "storage_ok 4096 m" "whole_extents 4114 m" by auto
  have len: "length (extents m) = 4114" using m(3) by (simp add: whole_extents_def)
  have l: "layout_ok 4096 (ext_file m) (extents m)" "prot_write (ext_file m)" using m(2) by (simp_all add: storage_ok_def)
  from grow_spec [OF m(2)] obtain d where grow: "grow_by_one_extent 4096 (ext_file m) =
      Ok ((ext_file m)\<lparr> synced := d, file_len := 4114 * extent_stride 4096 + EXTENT_SIZE,
        mapped_len := Suc 4114 * extent_stride 4096 \<rparr>, 4114 * extent_stride 4096)" (is "_ = Ok (?f, _)")
    unfolding len by blast
  have "mem ?f a = 0" if "4115 * EXTENT_SIZE \<le> a" for a
    using l(1) that len by (simp add: layout_ok_def extent_consts)
  moreover have "page_size_ok 4096" "mapped_len ?f + 4096 \<le> 2 ^ 64" "prot_write ?f"
    "4115 * EXTENT_SIZE + EXTENT_SIZE \<le> mapped_len ?f"
    using os_page_4096 l(2) by (simp_all add: os_page_ok_def stride_4096 extent_consts)
  ultimately obtain g h where run: "init_extent_header 4096 4115 15 (m\<lparr> ext_file := ?f \<rparr>) = Ok (m\<lparr> ext_file := g \<rparr>)"
    "try_allocate_in_extent 4096 4115 15 (m\<lparr> ext_file := g, extents := extents m @ [15] \<rparr>) =
      Ok (m\<lparr> ext_file := h, extents := extents m @ [15] \<rparr>, Some 0)"
    using init_elsewhere [of ?f 4096 4115 15 m "extents m @ [15]"] by auto
  have idx: "4114 * extent_stride 4096 div EXTENT_SIZE mod 2 ^ 32 = 4115"
    by (simp add: stride_4096 extent_consts)
  define m' where "m' = m\<lparr> ext_file := h, extents := extents m @ [15] \<rparr>"
  define p where "p = \<lparr> file_id = mgr_file_id m, extent_index = 4115, slot_index = 0, ptr_class = 15 \<rparr>"
  have "allocate 4096 MAX_BLOCK_SIZE m = Ok (m', p)"
    using whole_extents_full [OF m(2,3)] grow run idx for_size_max
    by (simp add: allocate_def Let_def m'_def p_def)
  moreover have "length (extents m') = 4115" "extent_index p = 4115" by (simp_all add: m'_def p_def len)
  moreover have "contents m' p = None" using calculation(2,3) by (simp add: contents_def addressed_def)
  ultimately show ?thesis using m by blast
qed

end
