(* ===== verification/Gems_Pager.thy ===== *)
theory Gems_Pager
  imports Gems_Storage
begin

text \<open>
  \<^verbatim>\<open>gems-index/src/pager.rs\<close>: the page file under a B-tree. Page 0 holds the header with
  the root pointer and the head of the free list, which runs through the first four bytes of the
  free pages. \<open>pager_rep os p L\<close> is the invariant: the file is laid out as the header says, the
  free list is a proper chain, and \<open>L\<close> is the set of the pages in use, those neither free nor the
  header. The lemmas give each operation its effect on \<open>L\<close> and on the pages in \<open>L\<close>.
\<close>

section \<open>The file header\<close>

record index_header =
  ih_magic :: nat
  ih_version :: nat
  ih_page_size :: nat
  ih_key_len :: nat
  ih_value_len :: nat
  ih_root_page :: nat
  ih_free_list_head :: nat
  ih_page_count :: nat
  ih_commit_seq :: nat

definition INDEX_MAGIC :: nat where "INDEX_MAGIC = 0x47454d49"
definition INDEX_FORMAT_VERSION :: nat where "INDEX_FORMAT_VERSION = 1"
definition HEADER_PAGE_ID :: nat where "HEADER_PAGE_ID = 0"
definition HEADER_ENCODED_LEN :: nat where "HEADER_ENCODED_LEN = 4 + 2 + 4 + 2 + 2 + 4 + 4 + 4 + 8"
definition ROOT_PAGE_OFFSET :: nat where "ROOT_PAGE_OFFSET = 4 + 2 + 4 + 2 + 2"

lemmas pager_consts = INDEX_MAGIC_def INDEX_FORMAT_VERSION_def HEADER_PAGE_ID_def HEADER_ENCODED_LEN_def ROOT_PAGE_OFFSET_def

definition index_header_encode :: "index_header \<Rightarrow> bytes" where
  "index_header_encode h =
     le_bytes 4 (ih_magic h) @ le_bytes 2 (ih_version h) @ le_bytes 4 (ih_page_size h) @
     le_bytes 2 (ih_key_len h) @ le_bytes 2 (ih_value_len h) @ le_bytes 4 (ih_root_page h) @
     le_bytes 4 (ih_free_list_head h) @ le_bytes 4 (ih_page_count h) @ le_bytes 8 (ih_commit_seq h)"

definition index_header_decode :: "bytes \<Rightarrow> index_header result" where
  "index_header_decode buf =
     (if length buf < HEADER_ENCODED_LEN then Err (CorruptPage ''index header truncated'')
      else
        obind (field_at buf 0 4) (\<lambda>magic.
        if le_val magic \<noteq> INDEX_MAGIC then Err (CorruptPage ''index header magic mismatch'')
        else
          obind (field_at buf 4 2) (\<lambda>version. obind (field_at buf 6 4) (\<lambda>ps.
          obind (field_at buf 10 2) (\<lambda>kl. obind (field_at buf 12 2) (\<lambda>vl.
          obind (field_at buf 14 4) (\<lambda>root. obind (field_at buf 18 4) (\<lambda>free.
          obind (field_at buf 22 4) (\<lambda>count. obind (field_at buf 26 8) (\<lambda>seq.
          Ok \<lparr> ih_magic = le_val magic, ih_version = le_val version, ih_page_size = le_val ps,
               ih_key_len = le_val kl, ih_value_len = le_val vl, ih_root_page = le_val root,
               ih_free_list_head = le_val free, ih_page_count = le_val count,
               ih_commit_seq = le_val seq \<rparr>))))))))))"

definition header_ok :: "index_header \<Rightarrow> bool" where
  "header_ok h \<longleftrightarrow> ih_magic h = INDEX_MAGIC \<and> ih_version h = INDEX_FORMAT_VERSION \<and>
     HEADER_ENCODED_LEN \<le> ih_page_size h \<and> ih_page_size h \<le> 65536 \<and>
     ih_key_len h \<le> u16_max \<and> ih_value_len h \<le> u16_max \<and> ih_root_page h \<le> u32_max \<and>
     ih_free_list_head h \<le> u32_max \<and> 1 \<le> ih_page_count h \<and> ih_page_count h \<le> u32_max \<and>
     ih_commit_seq h \<le> u64_max"

lemma length_index_header [simp]: "length (index_header_encode h) = HEADER_ENCODED_LEN"
  by (simp add: index_header_encode_def HEADER_ENCODED_LEN_def)

lemma index_header_round_trip: "header_ok h \<Longrightarrow> index_header_decode (index_header_encode h) = Ok h"
proof -
  assume ok: "header_ok h"
  let ?e = "index_header_encode h"
  have "has_at ?e 0 (le_bytes 4 (ih_magic h))" "has_at ?e 4 (le_bytes 2 (ih_version h))"
    "has_at ?e 6 (le_bytes 4 (ih_page_size h))" "has_at ?e 10 (le_bytes 2 (ih_key_len h))"
    "has_at ?e 12 (le_bytes 2 (ih_value_len h))" "has_at ?e 14 (le_bytes 4 (ih_root_page h))"
    "has_at ?e 18 (le_bytes 4 (ih_free_list_head h))" "has_at ?e 22 (le_bytes 4 (ih_page_count h))"
    "has_at ?e 26 (le_bytes 8 (ih_commit_seq h))"
    using has_at_self [of ?e] by (simp_all add: index_header_encode_def)
  with ok show ?thesis
    by (simp add: index_header_decode_def has_at_field header_ok_def le_val_le_bytes pager_consts)
qed

section \<open>The pager\<close>

record pager = mapped_file +
  hdr :: index_header

abbreviation page_size :: "pager \<Rightarrow> nat" where "page_size p \<equiv> ih_page_size (hdr p)"
abbreviation root_page :: "pager \<Rightarrow> nat" where "root_page p \<equiv> ih_root_page (hdr p)"
abbreviation page_count :: "pager \<Rightarrow> nat" where "page_count p \<equiv> ih_page_count (hdr p)"

definition page_offset :: "pager \<Rightarrow> nat \<Rightarrow> nat" where
  "page_offset p page_id = page_id * page_size p"

definition read_page :: "pager \<Rightarrow> nat \<Rightarrow> bytes result" where
  "read_page p page_id =
     (let start = page_offset p page_id; last = start + page_size p in
      if mapped_len p < last then Err (CorruptPage ''page id beyond end of file'')
      else file_slice start (page_size p) p)"

text \<open>A mutable view of a range, and the store of bytes of that length into it.\<close>

definition mut_bytes :: "nat \<Rightarrow> nat \<Rightarrow> pager \<Rightarrow> unit result" where
  "mut_bytes start n p =
     (if mapped_len p < start + n then Err (CorruptPage ''write beyond end of file'') else Ok ())"

definition put_bytes :: "nat \<Rightarrow> bytes \<Rightarrow> pager \<Rightarrow> pager result" where
  "put_bytes start bs p = obind (mut_bytes start (length bs) p) (\<lambda>_. file_write start bs p)"

definition page_mut :: "nat \<Rightarrow> pager \<Rightarrow> nat result" where
  "page_mut page_id p =
     omap (\<lambda>_. page_offset p page_id) (mut_bytes (page_offset p page_id) (page_size p) p)"

definition write_header :: "nat \<Rightarrow> pager \<Rightarrow> pager result" where
  "write_header os p =
     (let encoded = index_header_encode (hdr p); base = page_offset p HEADER_PAGE_ID in
      obind (put_bytes base encoded p) (sync_range os base (length encoded)))"

definition pager_create :: "nat \<Rightarrow> nat \<Rightarrow> nat \<Rightarrow> nat \<Rightarrow> pager result" where
  "pager_create os ps kl vl =
     (if ps < HEADER_ENCODED_LEN then Panic
      else
        let h = \<lparr> ih_magic = INDEX_MAGIC, ih_version = INDEX_FORMAT_VERSION, ih_page_size = ps, ih_key_len = kl,
                  ih_value_len = vl, ih_root_page = 0, ih_free_list_head = 0, ih_page_count = 1,
                  ih_commit_seq = 0 \<rparr>;
            p = \<lparr> mem = (\<lambda>_. 0), synced = (\<lambda>_. 0), file_len = 0, mapped_len = 0, prot_write = True, hdr = h \<rparr> in
        obind (ftruncate ps p) (\<lambda>p.
        obind (map_len (round_up_to_os_page os ps) p) (\<lambda>p. write_header os p)))"

definition pager_open :: "nat \<Rightarrow> disk_file \<Rightarrow> bool \<Rightarrow> pager result" where
  "pager_open os img writable =
     (case img of (bytes, len) \<Rightarrow>
        let m = (\<lambda>i. if i < len then bytes i else 0);
            p = \<lparr> mem = m, synced = m, file_len = len, mapped_len = 0, prot_write = writable \<rparr> in
        obind (map_len (round_up_to_os_page os len) p) (\<lambda>p.
        obind (file_slice 0 HEADER_ENCODED_LEN p) (\<lambda>header_bytes.
        obind (index_header_decode header_bytes) (\<lambda>h.
        Ok \<lparr> mem = m, synced = m, file_len = len, mapped_len = mapped_len p, prot_write = writable, hdr = h \<rparr>))))"

definition publish_root :: "nat \<Rightarrow> nat \<Rightarrow> pager \<Rightarrow> pager result" where
  "publish_root os new_root p =
     (let p = p\<lparr> hdr := (hdr p)\<lparr> ih_root_page := new_root, ih_commit_seq := wrap64 (ih_commit_seq (hdr p) + 1) \<rparr> \<rparr>;
          base = page_offset p HEADER_PAGE_ID + ROOT_PAGE_OFFSET in
      obind (put_bytes base (le_bytes 4 (root_page p)) p) (\<lambda>p.
      obind (sync_range os base 4 p) (\<lambda>p. write_header os p)))"

definition allocate_page :: "nat \<Rightarrow> pager \<Rightarrow> (pager \<times> nat) result" where
  "allocate_page os p =
     (if ih_free_list_head (hdr p) \<noteq> 0 then
        let page_id = ih_free_list_head (hdr p) in
        obind (read_page p page_id) (\<lambda>bs.
        obind (field_at bs 0 4) (\<lambda>next_bytes.
        obind (write_header os (p\<lparr> hdr := (hdr p)\<lparr> ih_free_list_head := le_val next_bytes \<rparr> \<rparr>)) (\<lambda>p.
        obind (page_mut page_id p) (\<lambda>start.
        omap (\<lambda>p. (p, page_id)) (file_write start (replicate (page_size p) 0) p)))))
      else
        let page_id = page_count p; new_len = page_offset p page_id + page_size p in
        obind (ftruncate new_len p) (\<lambda>p.
        let new_map_len = round_up_to_os_page os new_len in
        obind (if new_map_len \<noteq> mapped_len p then map_len new_map_len p else Ok p) (\<lambda>p.
        if page_count p = u32_max then Panic
        else omap (\<lambda>p. (p, page_id))
          (write_header os (p\<lparr> hdr := (hdr p)\<lparr> ih_page_count := page_count p + 1 \<rparr> \<rparr>)))))"

definition free_page :: "nat \<Rightarrow> nat \<Rightarrow> pager \<Rightarrow> pager result" where
  "free_page os page_id p =
     (let next_page = ih_free_list_head (hdr p) in
      obind (page_mut page_id p) (\<lambda>start.
      obind (file_write start (le_bytes 4 next_page) p) (\<lambda>p.
      write_header os (p\<lparr> hdr := (hdr p)\<lparr> ih_free_list_head := page_id \<rparr> \<rparr>))))"

section \<open>The invariant\<close>

definition page_at :: "pager \<Rightarrow> nat \<Rightarrow> bytes" where
  "page_at p x = mem_read (mem p) (x * page_size p) (page_size p)"

text \<open>The free list: each page holds the number of the next one in its first four bytes.\<close>

primrec free_chain :: "pager \<Rightarrow> nat \<Rightarrow> nat list \<Rightarrow> bool" where
  "free_chain p head [] \<longleftrightarrow> head = 0"
| "free_chain p head (x # xs) \<longleftrightarrow> head = x \<and> x \<noteq> 0 \<and> free_chain p (le_val (take 4 (page_at p x))) xs"

definition pager_layout :: "nat \<Rightarrow> pager \<Rightarrow> bool" where
  "pager_layout os p \<longleftrightarrow> os_page_ok os \<and> prot_write p \<and> header_ok (hdr p) \<and>
     mem_read (mem p) 0 HEADER_ENCODED_LEN = index_header_encode (hdr p) \<and>
     file_len p = page_count p * page_size p \<and> mapped_len p = round_up_to_os_page os (file_len p) \<and>
     (\<forall>a \<ge> file_len p. mem p a = 0)"

definition free_list :: "pager \<Rightarrow> nat list \<Rightarrow> bool" where
  "free_list p fl \<longleftrightarrow> free_chain p (ih_free_list_head (hdr p)) fl \<and> distinct fl \<and> set fl \<subseteq> {1..<page_count p}"

definition pager_rep :: "nat \<Rightarrow> pager \<Rightarrow> nat set \<Rightarrow> bool" where
  "pager_rep os p L \<longleftrightarrow> pager_layout os p \<and> (\<exists>fl. free_list p fl \<and> L = {1..<page_count p} - set fl)"

lemma layout_facts:
  assumes "pager_layout os p"
  shows "page_size_ok os" "prot_write p" "header_ok (hdr p)" "HEADER_ENCODED_LEN \<le> page_size p" "page_size p \<le> 65536"
    "1 \<le> page_count p" "page_count p \<le> u32_max" "file_len p = page_count p * page_size p"
    "file_len p \<le> mapped_len p" "mapped_len p + os \<le> 2 ^ 64" "mapped_len p = round_up_to_os_page os (file_len p)"
proof -
  have l: "os_page_ok os" "prot_write p" "header_ok (hdr p)" "file_len p = page_count p * page_size p"
    "mapped_len p = round_up_to_os_page os (file_len p)" using assms by (simp_all add: pager_layout_def)
  show "page_size_ok os" "prot_write p" "header_ok (hdr p)" "file_len p = page_count p * page_size p"
    "mapped_len p = round_up_to_os_page os (file_len p)" using l by (simp_all add: os_page_ok_def)
  show h: "HEADER_ENCODED_LEN \<le> page_size p" "page_size p \<le> 65536" "1 \<le> page_count p" "page_count p \<le> u32_max"
    using l(3) by (simp_all add: header_ok_def)
  have "page_count p * page_size p \<le> u32_max * 65536" using h by (intro mult_le_mono)
  then have "file_len p + os + os \<le> 2 ^ 64" using l(1,4) by (simp add: os_page_ok_def)
  then have "file_len p + os \<le> 2 ^ 64" by simp
  from round_up_bounds [OF _ this] l(1) show "file_len p \<le> mapped_len p" "mapped_len p + os \<le> 2 ^ 64"
    using \<open>file_len p + os + os \<le> 2 ^ 64\<close> unfolding l(5) os_page_ok_def by fastforce+
qed

lemma page_end: "x < n \<Longrightarrow> x * s + s \<le> n * (s :: nat)"
proof -
  assume "x < n"
  then have "Suc x * s \<le> n * s" by (intro mult_le_mono1) simp
  then show ?thesis by (simp add: add.commute)
qed

lemma page_mapped: "pager_layout os p \<Longrightarrow> x < page_count p \<Longrightarrow> x * page_size p + page_size p \<le> mapped_len p"
  using page_end [of x "page_count p" "page_size p"] layout_facts(8,9) [of os p] by linarith

lemma length_page_at [simp]: "length (page_at p x) = page_size p"
  by (simp add: page_at_def)

lemma free_chain_cong:
  "(\<And>x. x \<in> set xs \<Longrightarrow> page_at p' x = page_at p x) \<Longrightarrow> free_chain p' h xs = free_chain p h xs"
  by (induction xs arbitrary: h) auto

text \<open>Putting a new header in place.\<close>

definition with_header :: "index_header \<Rightarrow> memory \<Rightarrow> pager \<Rightarrow> pager" where
  "with_header h d p = p\<lparr> hdr := h, mem := mem_write 0 (index_header_encode h) (mem p), synced := d \<rparr>"

lemma with_header_fields [simp]:
  "hdr (with_header h d p) = h" "prot_write (with_header h d p) = prot_write p"
  "file_len (with_header h d p) = file_len p" "mapped_len (with_header h d p) = mapped_len p"
  by (simp_all add: with_header_def)

lemma write_header_run:
  assumes "page_size_ok os" "prot_write p" "HEADER_ENCODED_LEN \<le> mapped_len p" "mapped_len p + os \<le> 2 ^ 64"
  obtains d where "write_header os (p\<lparr> hdr := h \<rparr>) = Ok (with_header h d p)"
proof -
  define q where "q = p\<lparr> hdr := h, mem := mem_write 0 (index_header_encode h) (mem p) \<rparr>"
  have "0 + HEADER_ENCODED_LEN \<le> mapped_len q" "mapped_len q + os \<le> 2 ^ 64" using assms by (simp_all add: q_def)
  from sync_range_Ok [OF assms(1) this] obtain d where "sync_range os 0 HEADER_ENCODED_LEN q = Ok (q\<lparr> synced := d \<rparr>)" .
  then have "write_header os (p\<lparr> hdr := h \<rparr>) = Ok (with_header h d p)"
    using assms(2,3)
    by (simp add: write_header_def put_bytes_def mut_bytes_def file_write_def page_offset_def HEADER_PAGE_ID_def q_def
        with_header_def Let_def)
  then show ?thesis ..
qed

lemma page_at_with_header:
  assumes "ih_page_size h = page_size p" "HEADER_ENCODED_LEN \<le> page_size p" "1 \<le> x"
  shows "page_at (with_header h d p) x = page_at p x"
proof -
  have "1 * page_size p \<le> x * page_size p" using assms(3) by (rule mult_le_mono1)
  then have "HEADER_ENCODED_LEN \<le> x * page_size p" using assms(2) by linarith
  then have "mem_read (mem_write 0 (index_header_encode h) (mem p)) (x * page_size p) (page_size p) =
      mem_read (mem p) (x * page_size p) (page_size p)" by (intro mem_read_disjoint) simp
  with assms(1) show ?thesis by (simp add: page_at_def with_header_def)
qed

lemma layout_with_header:
  assumes "pager_layout os p" "header_ok h" "ih_page_size h = page_size p" "ih_page_count h = page_count p"
  shows "pager_layout os (with_header h d p)"
proof -
  note l = layout_facts [OF assms(1)]
  have "1 * page_size p \<le> page_count p * page_size p" using l(6) by (rule mult_le_mono1)
  then have len: "HEADER_ENCODED_LEN \<le> file_len p" using l(4,8) by linarith
  have "mem (with_header h d p) a = mem p a" if "file_len p \<le> a" for a
    using that len by (simp add: with_header_def mem_write_def)
  moreover have "mem_read (mem (with_header h d p)) 0 HEADER_ENCODED_LEN = index_header_encode h"
    by (simp add: with_header_def)
  ultimately show ?thesis using assms by (simp add: pager_layout_def)
qed

text \<open>Storing into one page.\<close>

definition with_page :: "nat \<Rightarrow> bytes \<Rightarrow> pager \<Rightarrow> pager" where
  "with_page x bs p = p\<lparr> mem := mem_write (x * page_size p) bs (mem p) \<rparr>"

lemma with_page_fields [simp]:
  "hdr (with_page x bs p) = hdr p" "prot_write (with_page x bs p) = prot_write p"
  "file_len (with_page x bs p) = file_len p" "mapped_len (with_page x bs p) = mapped_len p"
  by (simp_all add: with_page_def)

lemma page_at_with_page: "n = length bs \<Longrightarrow> n \<le> page_size p \<Longrightarrow> page_at (with_page x bs p) x = bs @ drop n (page_at p x)"
  using mem_read_inner [of "x * page_size p" "x * page_size p" bs "page_size p" "mem p"]
  by (simp add: page_at_def with_page_def)

lemma page_at_other:
  assumes "y \<noteq> x" "length bs \<le> page_size p"
  shows "page_at (with_page x bs p) y = page_at p y"
proof -
  have "y * page_size p + page_size p \<le> x * page_size p \<or> x * page_size p + page_size p \<le> y * page_size p"
    using page_end [of y x "page_size p"] page_end [of x y "page_size p"] assms(1) by linarith
  then have "y * page_size p + page_size p \<le> x * page_size p \<or> x * page_size p + length bs \<le> y * page_size p"
    using assms(2) by linarith
  then have "mem_read (mem_write (x * page_size p) bs (mem p)) (y * page_size p) (page_size p) =
      mem_read (mem p) (y * page_size p) (page_size p)" by (rule mem_read_disjoint)
  then show ?thesis by (simp add: page_at_def with_page_def)
qed

lemma layout_with_page:
  assumes "pager_layout os p" "1 \<le> x" "x < page_count p" "length bs \<le> page_size p"
  shows "pager_layout os (with_page x bs p)"
proof -
  note l = layout_facts [OF assms(1)]
  have "1 * page_size p \<le> x * page_size p" using assms(2) by (rule mult_le_mono1)
  then have low: "HEADER_ENCODED_LEN \<le> x * page_size p" using l(4) by linarith
  have high: "x * page_size p + length bs \<le> file_len p"
    using page_end [OF assms(3), of "page_size p"] assms(4) l(8) by linarith
  have "mem_read (mem (with_page x bs p)) 0 HEADER_ENCODED_LEN = mem_read (mem p) 0 HEADER_ENCODED_LEN"
    using low by (simp add: with_page_def mem_read_disjoint)
  moreover have "mem (with_page x bs p) a = mem p a" if "file_len p \<le> a" for a
    using that high by (simp add: with_page_def mem_write_def)
  ultimately show ?thesis using assms(1) by (simp add: pager_layout_def)
qed

lemma page_mut_run:
  "pager_layout os p \<Longrightarrow> x < page_count p \<Longrightarrow> page_mut x p = Ok (x * page_size p)"
  using page_mapped [of os p x] by (simp add: page_mut_def mut_bytes_def page_offset_def not_less)

lemma file_write_run:
  "pager_layout os p \<Longrightarrow> x < page_count p \<Longrightarrow> length bs \<le> page_size p \<Longrightarrow>
     file_write (x * page_size p) bs p = Ok (with_page x bs p)"
  using page_mapped [of os p x] layout_facts(2) [of os p] by (simp add: file_write_def with_page_def)

lemma read_page_run: "pager_layout os p \<Longrightarrow> x < page_count p \<Longrightarrow> read_page p x = Ok (page_at p x)"
  using page_mapped [of os p x]
  by (simp add: read_page_def page_offset_def Let_def file_slice_def page_at_def)

section \<open>What each operation does\<close>

text \<open>The root, the page size and the pages of a set stay as they are.\<close>

definition kept :: "pager \<Rightarrow> pager \<Rightarrow> nat set \<Rightarrow> bool" where
  "kept p p' S \<longleftrightarrow> page_size p' = page_size p \<and> root_page p' = root_page p \<and> (\<forall>x \<in> S. page_at p' x = page_at p x)"

lemma kept_refl [simp]: "kept p p S"
  by (simp add: kept_def)

lemma kept_trans: "kept p p' S \<Longrightarrow> kept p' p'' S' \<Longrightarrow> S \<subseteq> S' \<Longrightarrow> kept p p'' S"
  by (auto simp: kept_def)

lemma kept_sub: "kept p p' S \<Longrightarrow> T \<subseteq> S \<Longrightarrow> kept p p' T"
  by (auto simp: kept_def)

lemma rep_pages: "pager_rep os p L \<Longrightarrow> x \<in> L \<Longrightarrow> 1 \<le> x \<and> x < page_count p \<and> x \<le> u32_max"
  using layout_facts(7) [of os p] by (fastforce simp: pager_rep_def)

lemma rep_layout: "pager_rep os p L \<Longrightarrow> pager_layout os p"
  by (simp add: pager_rep_def)

lemma read_page_ok: "pager_rep os p L \<Longrightarrow> x \<in> L \<Longrightarrow> read_page p x = Ok (page_at p x)"
  using read_page_run [OF rep_layout] rep_pages by blast

lemma allocate_reuses:
  assumes lay: "pager_layout os p" and fl: "free_list p (q # rest)"
  shows "\<exists>p'. allocate_page os p = Ok (p', q) \<and> pager_layout os p' \<and> free_list p' rest \<and>
    page_count p' = page_count p \<and> kept p p' ({1..<page_count p} - {q})"
proof -
  note l = layout_facts [OF lay]
  have q: "ih_free_list_head (hdr p) = q" "q \<noteq> 0" "q < page_count p" "1 \<le> q" and
    chain: "free_chain p (le_val (take 4 (page_at p q))) rest" and
    d: "q \<notin> set rest" "distinct rest" "set rest \<subseteq> {1..<page_count p}"
    using fl by (auto simp: free_list_def)
  let ?next = "le_val (take 4 (page_at p q))"
  let ?h = "(hdr p)\<lparr> ih_free_list_head := ?next \<rparr>"
  have four: "4 \<le> page_size p" using l(4) by (simp add: HEADER_ENCODED_LEN_def)
  then have "?next < 256 ^ 4" using le_val_less [of "take 4 (page_at p q)"] by simp
  then have h: "header_ok ?h" using l(3) by (simp add: header_ok_def)
  have len: "HEADER_ENCODED_LEN \<le> mapped_len p"
    using page_mapped [OF lay, of q] q l(4) by linarith
  obtain d where run: "write_header os (p\<lparr> hdr := ?h \<rparr>) = Ok (with_header ?h d p)"
    using write_header_run [OF l(1,2) len l(10)] .
  define p1 where "p1 = with_header ?h d p"
  have lay1: "pager_layout os p1" unfolding p1_def by (rule layout_with_header [OF lay h]) simp_all
  have f1: "page_size p1 = page_size p" "page_count p1 = page_count p" "root_page p1 = root_page p"
    "ih_free_list_head (hdr p1) = ?next" by (simp_all add: p1_def)
  have at1: "page_at p1 x = page_at p x" if "1 \<le> x" for x
    unfolding p1_def using that l(4) by (intro page_at_with_header) simp_all
  define p2 where "p2 = with_page q (replicate (page_size p) 0) p1"
  have lay2: "pager_layout os p2"
    unfolding p2_def using q f1 by (intro layout_with_page [OF lay1]) simp_all
  have at2: "page_at p2 x = page_at p x" if "x \<noteq> q" "1 \<le> x" for x
    using page_at_other [OF that(1), of "replicate (page_size p) 0" p1] at1 [OF that(2)] f1 by (simp add: p2_def)
  have "free_chain p2 ?next rest = free_chain p ?next rest"
    using d q by (intro free_chain_cong at2) auto
  then have fl': "free_list p2 rest" using chain d f1 by (simp add: free_list_def p2_def)
  have "field_at (page_at p q) 0 4 = Ok (take 4 (page_at p q))" using four by (simp add: field_at_Ok)
  moreover have "page_mut q p1 = Ok (q * page_size p)"
    using page_mut_run [OF lay1, of q] q f1 by simp
  moreover have "file_write (q * page_size p) (replicate (page_size p) 0) p1 = Ok p2"
    using file_write_run [OF lay1, of q "replicate (page_size p) 0"] q f1 by (simp add: p2_def)
  ultimately have "allocate_page os p = Ok (p2, q)"
    using q read_page_run [OF lay q(3)] run f1 by (simp add: allocate_page_def Let_def p1_def)
  moreover have "kept p p2 ({1..<page_count p} - {q})"
    using at2 f1 by (simp add: kept_def p2_def)
  ultimately show ?thesis using lay2 fl' f1 by (intro exI [of _ p2]) (simp add: p2_def)
qed

lemma allocate_extends:
  assumes lay: "pager_layout os p" and fl: "free_list p []" and room: "page_count p < u32_max"
  shows "\<exists>p'. allocate_page os p = Ok (p', page_count p) \<and> pager_layout os p' \<and> free_list p' [] \<and>
    page_count p' = Suc (page_count p) \<and> kept p p' {1..<page_count p}"
proof -
  note l = layout_facts [OF lay]
  let ?n = "page_count p" and ?s = "page_size p"
  define new_len where "new_len = ?n * ?s + ?s"
  have z: "\<And>a. file_len p \<le> a \<Longrightarrow> mem p a = 0" using lay by (simp add: pager_layout_def)
  have cut: "(\<lambda>i. if i < min new_len (file_len p) then mem p i else 0) = mem p"
    by (rule ext) (use z l(8) in \<open>auto simp: new_len_def\<close>)
  define d where "d = (\<lambda>i. if i < min new_len (file_len p) then synced p i else 0)"
  define p1 where "p1 = p\<lparr> synced := d, file_len := new_len \<rparr>"
  have trunc: "ftruncate new_len p = Ok p1"
    unfolding ftruncate_def Let_def cut p1_def d_def using l(2) by (cases p) simp
  let ?m = "round_up_to_os_page os new_len"
  have "(?n + 1) * ?s \<le> (u32_max + 1) * 65536" using room l(5) by (intro mult_le_mono) simp_all
  then have "new_len + os + os \<le> 2 ^ 64"
    using lay by (simp add: new_len_def pager_layout_def os_page_ok_def)
  then have m: "new_len \<le> ?m" "?m + os \<le> 2 ^ 64"
    using round_up_bounds(1,2) [OF l(1), of new_len] by linarith+
  have s: "HEADER_ENCODED_LEN \<le> new_len" using l(4) by (simp add: new_len_def)
  define p2 where "p2 = p1\<lparr> mapped_len := ?m \<rparr>"
  have "?m \<noteq> 0" using s m(1) by (simp add: HEADER_ENCODED_LEN_def)
  then have map: "(if ?m \<noteq> mapped_len p1 then map_len ?m p1 else Ok p1) = Ok p2"
    by (cases p1) (simp add: map_len_def p2_def)
  let ?h = "(hdr p)\<lparr> ih_page_count := ?n + 1 \<rparr>"
  have h: "header_ok ?h" using l(3) room by (simp add: header_ok_def)
  have p2: "page_size_ok os" "prot_write p2" "HEADER_ENCODED_LEN \<le> mapped_len p2" "mapped_len p2 + os \<le> 2 ^ 64"
    "hdr p2 = hdr p" "mem p2 = mem p" "file_len p2 = new_len" "mapped_len p2 = ?m"
    using l(1,2) s m by (simp_all add: p2_def p1_def)
  obtain e where run: "write_header os (p2\<lparr> hdr := ?h \<rparr>) = Ok (with_header ?h e p2)"
    using write_header_run [OF p2(1-4)] .
  define p3 where "p3 = with_header ?h e p2"
  have "allocate_page os p = obind (Ok p2) (\<lambda>p. if page_count p = u32_max then Panic
      else omap (\<lambda>p. (p, ?n)) (write_header os (p\<lparr> hdr := (hdr p)\<lparr> ih_page_count := page_count p + 1 \<rparr> \<rparr>)))"
    unfolding map [symmetric] using fl trunc
    by (simp add: allocate_page_def free_list_def page_offset_def new_len_def [symmetric] Let_def)
  then have "allocate_page os p = Ok (p3, ?n)" using room run p2(5) by (simp add: p3_def)
  moreover have "pager_layout os p3"
  proof -
    have "mem p3 a = 0" if "new_len \<le> a" for a
      using that s z [of a] l(8) p2(6) by (simp add: p3_def with_header_def mem_write_def new_len_def)
    moreover have "mem_read (mem p3) 0 HEADER_ENCODED_LEN = index_header_encode ?h"
      by (simp add: p3_def with_header_def)
    moreover have "new_len = (?n + 1) * ?s" by (simp add: new_len_def)
    ultimately show ?thesis
      using lay p2 h by (simp add: pager_layout_def) (simp add: p3_def)
  qed
  moreover have "kept p p3 {1..<?n}"
  proof -
    have "page_at p3 x = page_at p x" if "1 \<le> x" for x
    proof -
      have "page_at p3 x = page_at p2 x"
        unfolding p3_def using that l(4) p2(5) by (intro page_at_with_header) simp_all
      then show ?thesis using p2(5,6) by (simp add: page_at_def)
    qed
    then show ?thesis by (simp add: kept_def p3_def)
  qed
  ultimately show ?thesis using fl by (intro exI [of _ p3]) (simp add: p3_def free_list_def)
qed

lemma allocate_page_spec:
  assumes rep: "pager_rep os p L" and room: "page_count p < u32_max"
  shows "\<exists>p' q. allocate_page os p = Ok (p', q) \<and> q \<notin> L \<and> 1 \<le> q \<and> q \<le> u32_max \<and>
    pager_rep os p' (insert q L) \<and> kept p p' L \<and> page_count p \<le> page_count p' \<and> page_count p' \<le> Suc (page_count p)"
proof -
  obtain fl where lay: "pager_layout os p" and fl: "free_list p fl" and L: "L = {1..<page_count p} - set fl"
    using rep by (auto simp: pager_rep_def)
  show ?thesis
  proof (cases fl)
    case Nil
    from allocate_extends [OF lay fl [unfolded Nil] room] obtain p' where
      p': "allocate_page os p = Ok (p', page_count p)" "pager_layout os p'" "free_list p' []"
        "page_count p' = Suc (page_count p)" "kept p p' {1..<page_count p}" by blast
    have c: "1 \<le> page_count p" by (rule layout_facts [OF lay])
    have "insert (page_count p) L = {1..<page_count p'}" using L Nil p'(4) c by auto
    then have "pager_rep os p' (insert (page_count p) L)" using p'(2,3) by (auto simp: pager_rep_def)
    with p' c room L Nil show ?thesis by (intro exI [of _ p'] exI [of _ "page_count p"]) auto
  next
    case (Cons q rest)
    from allocate_reuses [OF lay fl [unfolded Cons]] obtain p' where
      p': "allocate_page os p = Ok (p', q)" "pager_layout os p'" "free_list p' rest"
        "page_count p' = page_count p" "kept p p' ({1..<page_count p} - {q})" by blast
    have q: "q \<in> {1..<page_count p}" "q \<notin> set rest" using fl Cons by (auto simp: free_list_def)
    then have "insert q L = {1..<page_count p'} - set rest" using L Cons p'(4) by auto
    then have "pager_rep os p' (insert q L)" using p'(2,3) by (auto simp: pager_rep_def)
    moreover have "kept p p' L" by (rule kept_sub [OF p'(5)]) (use L Cons in auto)
    moreover have "q \<le> u32_max" using q layout_facts(7) [OF lay] by simp
    ultimately show ?thesis using p' q L Cons by (intro exI [of _ p'] exI [of _ q]) auto
  qed
qed

text \<open>Filling a page in use.\<close>

lemma page_store_spec:
  assumes rep: "pager_rep os p L" and x: "x \<in> L" and bs: "length bs = page_size p"
  shows "page_mut x p = Ok (x * page_size p)"
    and "\<exists>p'. file_write (x * page_size p) bs p = Ok p' \<and> pager_rep os p' L \<and> page_at p' x = bs \<and>
      kept p p' (L - {x}) \<and> page_count p' = page_count p"
proof -
  obtain fl where lay: "pager_layout os p" and fl: "free_list p fl" and L: "L = {1..<page_count p} - set fl"
    using rep by (auto simp: pager_rep_def)
  have xr: "1 \<le> x" "x < page_count p" "x \<notin> set fl" using x L by auto
  show "page_mut x p = Ok (x * page_size p)" by (rule page_mut_run [OF lay xr(2)])
  have at: "page_at (with_page x bs p) y = page_at p y" if "y \<noteq> x" for y
    by (rule page_at_other [OF that]) (simp add: bs)
  have "free_chain (with_page x bs p) h fl = free_chain p h fl" for h
    using xr by (intro free_chain_cong at) auto
  then have "free_list (with_page x bs p) fl" using fl by (simp add: free_list_def)
  moreover have "pager_layout os (with_page x bs p)" by (rule layout_with_page [OF lay xr(1,2)]) (simp add: bs)
  ultimately have "pager_rep os (with_page x bs p) L" using L by (auto simp: pager_rep_def)
  then show "\<exists>p'. file_write (x * page_size p) bs p = Ok p' \<and> pager_rep os p' L \<and> page_at p' x = bs \<and>
      kept p p' (L - {x}) \<and> page_count p' = page_count p"
    using file_write_run [OF lay xr(2), of bs] page_at_with_page [of "page_size p" bs p x] at bs
    by (intro exI [of _ "with_page x bs p"]) (simp add: kept_def)
qed

lemma free_page_spec:
  assumes rep: "pager_rep os p L" and x: "x \<in> L"
  shows "\<exists>p'. free_page os x p = Ok p' \<and> pager_rep os p' (L - {x}) \<and> kept p p' (L - {x}) \<and> page_count p' = page_count p"
proof -
  obtain fl where lay: "pager_layout os p" and fl: "free_list p fl" and L: "L = {1..<page_count p} - set fl"
    using rep by (auto simp: pager_rep_def)
  note l = layout_facts [OF lay]
  have xr: "1 \<le> x" "x < page_count p" "x \<notin> set fl" "x \<le> u32_max" using x L l(7) by auto
  let ?old = "ih_free_list_head (hdr p)" and ?h = "(hdr p)\<lparr> ih_free_list_head := x \<rparr>"
  have old: "?old \<le> u32_max" using l(3) by (simp add: header_ok_def)
  have four: "4 \<le> page_size p" using l(4) by (simp add: HEADER_ENCODED_LEN_def)
  define p1 where "p1 = with_page x (le_bytes 4 ?old) p"
  have lay1: "pager_layout os p1" unfolding p1_def using four xr by (intro layout_with_page [OF lay]) simp_all
  note l1 = layout_facts [OF lay1]
  have f1: "hdr p1 = hdr p" by (simp add: p1_def)
  have h: "header_ok ?h" using l(3) xr by (simp add: header_ok_def)
  have "HEADER_ENCODED_LEN \<le> mapped_len p1" using page_mapped [OF lay1, of x] xr f1 l(4) by simp
  then obtain d where run: "write_header os (p1\<lparr> hdr := ?h \<rparr>) = Ok (with_header ?h d p1)"
    using write_header_run [OF l1(1,2) _ l1(10)] by blast
  define p2 where "p2 = with_header ?h d p1"
  have lay2: "pager_layout os p2" unfolding p2_def by (rule layout_with_header [OF lay1 h]) (simp_all add: f1)
  have at: "page_at p2 y = page_at p1 y" if "1 \<le> y" for y
    unfolding p2_def using that l(4) f1 by (intro page_at_with_header) simp_all
  have at': "page_at p2 y = page_at p y" if "1 \<le> y" "y \<noteq> x" for y
    using at [OF that(1)] page_at_other [OF that(2), of "le_bytes 4 ?old" p] four by (simp add: p1_def)
  have "take 4 (page_at p2 x) = le_bytes 4 ?old"
    using at [OF xr(1)] page_at_with_page [of 4 "le_bytes 4 ?old" p x] four by (simp add: p1_def)
  then have next_page: "le_val (take 4 (page_at p2 x)) = ?old" using old by (simp add: le_val_le_bytes)
  have "free_chain p2 ?old fl = free_chain p ?old fl"
    using fl xr by (intro free_chain_cong at') (auto simp: free_list_def)
  then have "free_list p2 (x # fl)"
    using fl xr next_page by (simp add: free_list_def p2_def f1)
  moreover have "L - {x} = {1..<page_count p2} - set (x # fl)" using L by (auto simp: p2_def f1)
  ultimately have "pager_rep os p2 (L - {x})" using lay2 by (auto simp: pager_rep_def)
  moreover have "kept p p2 (L - {x})" using at' rep_pages [OF rep] by (auto simp: kept_def p2_def f1)
  moreover have "free_page os x p = Ok p2"
    using page_mut_run [OF lay xr(2)] file_write_run [OF lay xr(2), of "le_bytes 4 ?old"] four run
    by (simp add: free_page_def Let_def p1_def p2_def)
  ultimately show ?thesis by (intro exI [of _ p2]) (simp add: p2_def f1)
qed

lemma publish_root_spec:
  assumes rep: "pager_rep os p L" and r: "r \<le> u32_max"
  shows "\<exists>p'. publish_root os r p = Ok p' \<and> pager_rep os p' L \<and> root_page p' = r \<and>
    page_size p' = page_size p \<and> page_count p' = page_count p \<and> (\<forall>x \<in> L. page_at p' x = page_at p x)"
proof -
  obtain fl where lay: "pager_layout os p" and fl: "free_list p fl" and L: "L = {1..<page_count p} - set fl"
    using rep by (auto simp: pager_rep_def)
  note l = layout_facts [OF lay]
  let ?h = "(hdr p)\<lparr> ih_root_page := r, ih_commit_seq := wrap64 (ih_commit_seq (hdr p) + 1) \<rparr>"
  have h: "header_ok ?h" using l(3) r wrap64_le by (simp add: header_ok_def)
  have "1 * page_size p \<le> page_count p * page_size p" using l(6) by (rule mult_le_mono1)
  then have len: "HEADER_ENCODED_LEN \<le> mapped_len p" using l(4,8,9) by linarith
  define p1 where "p1 = p\<lparr> hdr := ?h, mem := mem_write ROOT_PAGE_OFFSET (le_bytes 4 r) (mem p) \<rparr>"
  have "ROOT_PAGE_OFFSET + 4 \<le> mapped_len p1" "mapped_len p1 + os \<le> 2 ^ 64"
    using len l(10) by (simp_all add: p1_def pager_consts)
  from sync_range_Ok [OF l(1) this] obtain d where d: "sync_range os ROOT_PAGE_OFFSET 4 p1 = Ok (p1\<lparr> synced := d \<rparr>)" .
  define p2 where "p2 = p1\<lparr> synced := d \<rparr>"
  have p2: "prot_write p2" "HEADER_ENCODED_LEN \<le> mapped_len p2" "mapped_len p2 + os \<le> 2 ^ 64" "p2\<lparr> hdr := ?h \<rparr> = p2"
    using l(2,10) len by (simp_all add: p2_def p1_def)
  obtain e where run: "write_header os (p2\<lparr> hdr := ?h \<rparr>) = Ok (with_header ?h e p2)"
    using write_header_run [OF l(1) p2(1-3)] .
  have "mem_write 0 (index_header_encode ?h) (mem p2) = mem_write 0 (index_header_encode ?h) (mem p)"
    by (rule ext) (simp add: p2_def p1_def mem_write_def pager_consts)
  then have same: "with_header ?h e p2 = with_header ?h e p"
    by (simp add: with_header_def p2_def p1_def)
  define p3 where "p3 = with_header ?h e p"
  have "publish_root os r p = Ok p3"
    using len l(2) d run unfolding p2(4) same [folded p3_def]
    by (simp add: publish_root_def Let_def put_bytes_def mut_bytes_def file_write_def page_offset_def
        HEADER_PAGE_ID_def p1_def p2_def pager_consts)
  moreover have "pager_layout os p3" unfolding p3_def by (rule layout_with_header [OF lay h]) simp_all
  moreover have at: "page_at p3 y = page_at p y" if "1 \<le> y" for y
    unfolding p3_def using that l(4) by (intro page_at_with_header) simp_all
  moreover have "free_list p3 fl"
  proof -
    have "free_chain p3 h fl = free_chain p h fl" for h
      using fl by (intro free_chain_cong at) (auto simp: free_list_def)
    then show ?thesis using fl by (simp add: free_list_def p3_def)
  qed
  ultimately show ?thesis
    using L rep_pages [OF rep] by (intro exI [of _ p3]) (auto simp: pager_rep_def p3_def)
qed

section \<open>Creating and opening\<close>

lemma pager_create_spec:
  assumes "os_page_ok os" "HEADER_ENCODED_LEN \<le> ps" "ps \<le> 65536" "kl \<le> u16_max" "vl \<le> u16_max"
  shows "\<exists>p. pager_create os ps kl vl = Ok p \<and> pager_rep os p {} \<and> root_page p = 0 \<and> page_size p = ps \<and> page_count p = 1"
proof -
  have os: "page_size_ok os" using assms(1) by (simp add: os_page_ok_def)
  let ?h = "\<lparr> ih_magic = INDEX_MAGIC, ih_version = INDEX_FORMAT_VERSION, ih_page_size = ps, ih_key_len = kl,
     ih_value_len = vl, ih_root_page = 0, ih_free_list_head = 0, ih_page_count = 1, ih_commit_seq = 0 \<rparr>"
  have h: "header_ok ?h" using assms by (simp add: header_ok_def)
  have "ps + os + os \<le> 2 ^ 64" using assms(1,3) by (simp add: os_page_ok_def)
  then have m: "ps \<le> round_up_to_os_page os ps" "round_up_to_os_page os ps + os \<le> 2 ^ 64"
    using round_up_bounds(1,2) [OF os, of ps] by linarith+
  define p1 where "p1 = \<lparr> mem = (\<lambda>_. 0), synced = (\<lambda>_. 0), file_len = ps, mapped_len = round_up_to_os_page os ps,
    prot_write = True, hdr = ?h \<rparr>"
  have p1: "prot_write p1" "HEADER_ENCODED_LEN \<le> mapped_len p1" "mapped_len p1 + os \<le> 2 ^ 64" "p1\<lparr> hdr := ?h \<rparr> = p1"
    using m assms(2) by (simp_all add: p1_def)
  obtain d where run: "write_header os (p1\<lparr> hdr := ?h \<rparr>) = Ok (with_header ?h d p1)"
    using write_header_run [OF os p1(1-3)] .
  define p2 where "p2 = with_header ?h d p1"
  have "round_up_to_os_page os ps \<noteq> 0" using m(1) assms(2) by (simp add: HEADER_ENCODED_LEN_def)
  then have "pager_create os ps kl vl = Ok p2"
    using run [unfolded p1(4)] assms(2) unfolding p2_def
    by (simp add: pager_create_def Let_def ftruncate_def map_len_def p1_def)
  moreover have "pager_layout os p2"
    using assms(1,2) h by (simp add: pager_layout_def p2_def with_header_def p1_def) (simp add: mem_write_def)
  moreover have "free_list p2 []" by (simp add: free_list_def p2_def)
  ultimately show ?thesis by (intro exI [of _ p2]) (auto simp: pager_rep_def p2_def)
qed

lemma pager_reopened:
  assumes rep: "pager_rep os p L"
  shows "\<exists>p'. pager_open os (disk_image p) writable = Ok p' \<and> hdr p' = hdr p \<and> mem p' = mem p \<and>
    mapped_len p' = mapped_len p \<and> (writable \<longrightarrow> pager_rep os p' L)"
proof -
  obtain fl where lay: "pager_layout os p" and fl: "free_list p fl" and L: "L = {1..<page_count p} - set fl"
    using rep by (auto simp: pager_rep_def)
  note l = layout_facts [OF lay]
  have z: "\<And>a. file_len p \<le> a \<Longrightarrow> mem p a = 0" and hd: "mem_read (mem p) 0 HEADER_ENCODED_LEN = index_header_encode (hdr p)"
    using lay by (simp_all add: pager_layout_def)
  have cut: "(\<lambda>i. if i < file_len p then mem p i else 0) = mem p" by (rule ext) (use z in auto)
  have "1 * page_size p \<le> page_count p * page_size p" using l(6) by (rule mult_le_mono1)
  then have len: "HEADER_ENCODED_LEN \<le> mapped_len p" using l(4,8,9) by linarith
  then have nz: "mapped_len p \<noteq> 0" by (simp add: HEADER_ENCODED_LEN_def)
  define p' where "p' = \<lparr> mem = mem p, synced = mem p, file_len = file_len p, mapped_len = mapped_len p,
    prot_write = writable, hdr = hdr p \<rparr>"
  have "pager_open os (disk_image p) writable = Ok p'"
    using nz len hd index_header_round_trip [OF l(3)]
    by (simp add: pager_open_def disk_image_def cut Let_def map_len_def l(11) [symmetric] file_slice_def p'_def)
  moreover have "pager_rep os p' L" if writable
  proof -
    have at: "page_at p' = page_at p" by (rule ext) (simp add: page_at_def p'_def)
    have "free_chain p' h fl = free_chain p h fl" for h by (intro free_chain_cong) (simp add: at)
    then have "free_list p' fl" using fl by (simp add: free_list_def p'_def)
    moreover have "pager_layout os p'" using lay that by (simp add: pager_layout_def p'_def)
    ultimately show ?thesis using L by (auto simp: pager_rep_def p'_def)
  qed
  ultimately show ?thesis by (intro exI [of _ p']) (simp add: p'_def)
qed

section \<open>The interface of a page store\<close>

text \<open>Filling a page with what an encoder makes for its length, and giving back a list of pages.\<close>

definition fill_page :: "nat \<Rightarrow> (nat \<Rightarrow> bytes result) \<Rightarrow> pager \<Rightarrow> pager result" where
  "fill_page page_id enc p =
     obind (page_mut page_id p) (\<lambda>start. obind (enc (page_size p)) (\<lambda>bs. file_write start bs p))"

primrec free_all :: "(nat \<Rightarrow> 's \<Rightarrow> 's result) \<Rightarrow> nat list \<Rightarrow> 's \<Rightarrow> 's result" where
  "free_all free [] p = Ok p"
| "free_all free (x # xs) p = obind (free x p) (free_all free xs)"

locale page_store =
  fixes rep :: "'s \<Rightarrow> nat set \<Rightarrow> bool"
    and size_of :: "'s \<Rightarrow> nat"
    and count :: "'s \<Rightarrow> nat"
    and page :: "'s \<Rightarrow> nat \<Rightarrow> bytes"
    and keeps :: "'s \<Rightarrow> 's \<Rightarrow> nat set \<Rightarrow> bool"
    and alloc :: "'s \<Rightarrow> ('s \<times> nat) result"
    and fill :: "nat \<Rightarrow> (nat \<Rightarrow> bytes result) \<Rightarrow> 's \<Rightarrow> 's result"
    and free :: "nat \<Rightarrow> 's \<Rightarrow> 's result"
  assumes keeps_trans: "keeps p p' S \<Longrightarrow> keeps p' p'' S \<Longrightarrow> keeps p p'' S"
    and keeps_refl: "keeps p p S"
    and keeps_mono: "keeps p p' S \<Longrightarrow> T \<subseteq> S \<Longrightarrow> keeps p p' T"
    and keeps_page: "keeps p p' S \<Longrightarrow> size_of p' = size_of p \<and> (\<forall>x \<in> S. page p' x = page p x)"
    and alloc_page: "rep p L \<Longrightarrow> count p < u32_max \<Longrightarrow> \<exists>p' q. alloc p = Ok (p', q) \<and> q \<notin> L \<and> 1 \<le> q \<and>
        q \<le> u32_max \<and> rep p' (insert q L) \<and> keeps p p' L \<and> count p' \<le> Suc (count p)"
    and fill_page: "rep p L \<Longrightarrow> x \<in> L \<Longrightarrow> enc (size_of p) = Ok bs \<Longrightarrow> length bs = size_of p \<Longrightarrow>
        \<exists>p'. fill x enc p = Ok p' \<and> rep p' L \<and> page p' x = bs \<and> keeps p p' (L - {x}) \<and> count p' = count p"
    and free_page: "rep p L \<Longrightarrow> x \<in> L \<Longrightarrow>
        \<exists>p'. free x p = Ok p' \<and> rep p' (L - {x}) \<and> keeps p p' (L - {x}) \<and> count p' = count p"
begin

text \<open>A new page with its contents.\<close>

lemma new_page:
  assumes "rep p L" "count p < u32_max" "enc (size_of p) = Ok bs" "length bs = size_of p"
  shows "\<exists>p1 q p2. alloc p = Ok (p1, q) \<and> fill q enc p1 = Ok p2 \<and> q \<notin> L \<and> 1 \<le> q \<and> q \<le> u32_max \<and>
    rep p2 (insert q L) \<and> keeps p p2 L \<and> page p2 q = bs \<and> count p2 \<le> Suc (count p)"
proof -
  obtain p1 q where a: "alloc p = Ok (p1, q)" "q \<notin> L" "1 \<le> q" "q \<le> u32_max" "rep p1 (insert q L)" "keeps p p1 L"
    "count p1 \<le> Suc (count p)" using alloc_page [OF assms(1,2)] by blast
  have s: "size_of p1 = size_of p" using keeps_page [OF a(6)] by simp
  obtain p2 where f: "fill q enc p1 = Ok p2" "rep p2 (insert q L)" "page p2 q = bs" "keeps p1 p2 (insert q L - {q})"
    "count p2 = count p1" using fill_page [OF a(5), of q enc bs] assms(3,4) s by auto
  have "insert q L - {q} = L" using a(2) by simp
  then have "keeps p p2 L" using keeps_trans [OF a(6)] f(4) by simp
  with a f show ?thesis by auto
qed

text \<open>Two new pages \<open>q\<close> and \<open>r\<close>, both allocated before the first is filled.\<close>

lemma two_new_pages:
  assumes "rep p L" "Suc (count p) < u32_max" "enc1 (size_of p) = Ok bs1" "length bs1 = size_of p"
    "enc2 (size_of p) = Ok bs2" "length bs2 = size_of p"
  shows "\<exists>p1 q p2 r p3 p4. alloc p = Ok (p1, q) \<and> alloc p1 = Ok (p2, r) \<and>
    (\<exists>p'. fill q enc1 p2 = Ok p' \<and> fill r enc2 p' = Ok p4) \<and> (\<exists>p'. fill r enc2 p2 = Ok p' \<and> fill q enc1 p' = Ok p3) \<and>
    q \<notin> L \<and> r \<notin> insert q L \<and> 1 \<le> q \<and> q \<le> u32_max \<and> 1 \<le> r \<and> r \<le> u32_max \<and>
    (\<forall>p' \<in> {p3, p4}. rep p' (insert q (insert r L)) \<and> keeps p p' L \<and> page p' q = bs1 \<and> page p' r = bs2 \<and>
      count p' \<le> Suc (Suc (count p)))"
proof -
  obtain p1 q where a: "alloc p = Ok (p1, q)" "q \<notin> L" "1 \<le> q" "q \<le> u32_max" "rep p1 (insert q L)" "keeps p p1 L"
    "count p1 \<le> Suc (count p)" using alloc_page [OF assms(1)] assms(2) by fastforce
  obtain p2 r where b: "alloc p1 = Ok (p2, r)" "r \<notin> insert q L" "1 \<le> r" "r \<le> u32_max" "rep p2 (insert r (insert q L))"
    "keeps p1 p2 (insert q L)" "count p2 \<le> Suc (count p1)"
    using alloc_page [OF a(5)] a(7) assms(2) by fastforce
  let ?L = "insert q (insert r L)"
  have rep2: "rep p2 ?L" using b(5) by (simp add: insert_commute)
  have k2: "keeps p p2 L" using keeps_trans [OF a(6) keeps_mono [OF b(6)]] by blast
  have s2: "size_of p2 = size_of p" using keeps_page [OF k2] by simp
  have fills: "\<exists>p' p''. fill x e1 p2 = Ok p' \<and> fill y e2 p' = Ok p'' \<and> rep p'' ?L \<and> keeps p p'' L \<and>
      page p'' x = c1 \<and> page p'' y = c2 \<and> count p'' = count p2"
    if xy: "x \<in> ?L" "y \<in> ?L" "x \<noteq> y" "x \<notin> L" "y \<notin> L"
      and e: "e1 (size_of p) = Ok c1" "length c1 = size_of p" "e2 (size_of p) = Ok c2" "length c2 = size_of p" for x y e1 e2 c1 c2
  proof -
    obtain p' where f: "fill x e1 p2 = Ok p'" "rep p' ?L" "page p' x = c1" "keeps p2 p' (?L - {x})" "count p' = count p2"
      using fill_page [OF rep2 xy(1), of e1 c1] e s2 by auto
    have s': "size_of p' = size_of p" using keeps_page [OF f(4)] s2 by simp
    obtain p'' where g: "fill y e2 p' = Ok p''" "rep p'' ?L" "page p'' y = c2" "keeps p' p'' (?L - {y})" "count p'' = count p'"
      using fill_page [OF f(2) xy(2), of e2 c2] e s' by auto
    have "page p'' x = c1" using keeps_page [OF g(4)] f(3) xy by auto
    moreover have "keeps p p'' L"
      by (rule keeps_trans [OF keeps_trans [OF k2 keeps_mono [OF f(4)]] keeps_mono [OF g(4)]]) (use xy in auto)
    ultimately show ?thesis using f g by auto
  qed
  have d: "q \<noteq> r" "r \<notin> L" using b(2) by auto
  from fills [of q r enc1 bs1 enc2 bs2] fills [of r q enc2 bs2 enc1 bs1] assms(3-6) d a(2)
  obtain p' p4 p'' p3 where "fill q enc1 p2 = Ok p'" "fill r enc2 p' = Ok p4" "rep p4 ?L" "keeps p p4 L" "page p4 q = bs1"
    "page p4 r = bs2" "count p4 = count p2" "fill r enc2 p2 = Ok p''" "fill q enc1 p'' = Ok p3" "rep p3 ?L" "keeps p p3 L"
    "page p3 r = bs2" "page p3 q = bs1" "count p3 = count p2" by auto
  then show ?thesis using a b by (intro exI [of _ p1] exI [of _ q] exI [of _ p2] exI [of _ r] exI [of _ p3] exI [of _ p4]) auto
qed

lemma free_all_spec:
  "rep p L \<Longrightarrow> set xs \<subseteq> L \<Longrightarrow> distinct xs \<Longrightarrow>
     \<exists>p'. free_all free xs p = Ok p' \<and> rep p' (L - set xs) \<and> keeps p p' (L - set xs) \<and> count p' = count p"
proof (induction xs arbitrary: p L)
  case Nil
  then show ?case by (simp add: keeps_refl)
next
  case (Cons x xs)
  obtain p1 where f: "free x p = Ok p1" "rep p1 (L - {x})" "keeps p p1 (L - {x})" "count p1 = count p"
    using free_page [OF Cons.prems(1)] Cons.prems(2) by auto
  have "set xs \<subseteq> L - {x}" "distinct xs" using Cons.prems by auto
  from Cons.IH [OF f(2) this] obtain p' where
    p': "free_all free xs p1 = Ok p'" "rep p' (L - {x} - set xs)" "keeps p1 p' (L - {x} - set xs)" "count p' = count p1" by blast
  have "keeps p p' (L - {x} - set xs)" by (rule keeps_trans [OF keeps_mono [OF f(3)] p'(3)]) auto
  moreover have "L - {x} - set xs = L - set (x # xs)" by auto
  ultimately show ?case using f p' by auto
qed

end

interpretation pages: page_store "pager_rep os" page_size page_count page_at kept "allocate_page os" fill_page "free_page os" for os
proof unfold_locales
  fix p L assume "pager_rep os p L" "page_count p < u32_max"
  from allocate_page_spec [OF this] show "\<exists>p' q. allocate_page os p = Ok (p', q) \<and> q \<notin> L \<and> 1 \<le> q \<and> q \<le> u32_max \<and>
      pager_rep os p' (insert q L) \<and> kept p p' L \<and> page_count p' \<le> Suc (page_count p)" by blast
next
  fix p L x and enc :: "nat \<Rightarrow> bytes result" and bs assume a: "pager_rep os p L" "x \<in> L" "enc (page_size p) = Ok bs" "length bs = page_size p"
  show "\<exists>p'. fill_page x enc p = Ok p' \<and> pager_rep os p' L \<and> page_at p' x = bs \<and> kept p p' (L - {x}) \<and> page_count p' = page_count p"
    using page_store_spec [OF a(1,2,4)] a(3) by (simp add: fill_page_def)
next
  fix p L x assume "pager_rep os p L" "x \<in> L"
  then show "\<exists>p'. free_page os x p = Ok p' \<and> pager_rep os p' (L - {x}) \<and> kept p p' (L - {x}) \<and> page_count p' = page_count p"
    by (rule free_page_spec)
qed (auto simp: kept_def)

end
