(* ===== verification/Gems_Node.thy ===== *)
theory Gems_Node
  imports Gems_Pager Gems_Sorted_Map
begin

text \<open>
  \<^verbatim>\<open>gems-index/src/node.rs\<close> and \<^verbatim>\<open>codec.rs\<close>: the pages of a B-tree. The trait
  \<^verbatim>\<open>FixedCodec\<close> is a record of its three members, with the laws every implementation has to
  satisfy as the locale \<open>lawful_codec\<close>; the identifiers, slot pointers and ordinals of the engine are
  its interpretations. For keys and values with lawful codecs the locale \<open>node_codec\<close> shows that a
  page that fits decodes to what was encoded and that decoding never panics.
\<close>

section \<open>Fixed-width codecs\<close>

record 'a fixed_codec =
  fc_len :: nat
  fc_enc :: "'a \<Rightarrow> bytes"
  fc_dec :: "bytes \<Rightarrow> 'a result"

locale lawful_codec =
  fixes c :: "'a fixed_codec" and ok :: "'a \<Rightarrow> bool"
  assumes enc_len: "ok x \<Longrightarrow> length (fc_enc c x) = fc_len c"
    and dec_enc: "ok x \<Longrightarrow> fc_dec c (fc_enc c x) = Ok x"
    and dec_total: "length bs = fc_len c \<Longrightarrow> \<exists>x. fc_dec c bs = Ok x \<and> ok x"
    and len_pos: "0 < fc_len c"
begin

lemma enc_inj: "ok x \<Longrightarrow> ok y \<Longrightarrow> fc_enc c x = fc_enc c y \<Longrightarrow> x = y"
  using dec_enc by (metis outcome.inject(1))

end

definition tuid_codec :: "tuid fixed_codec" where
  "tuid_codec = \<lparr> fc_len = TUID_LEN, fc_enc = as_bytes, fc_dec = (\<lambda>bs. omap Tuid (to_array TUID_LEN bs)) \<rparr>"

definition slot_pointer_codec :: "slot_pointer fixed_codec" where
  "slot_pointer_codec =
     \<lparr> fc_len = SLOT_POINTER_LEN, fc_enc = slot_encode,
       fc_dec = (\<lambda>bs. obind (to_array SLOT_POINTER_LEN bs) slot_decode) \<rparr>"

type_synonym ordinal = nat

definition ordinal_codec :: "ordinal fixed_codec" where
  "ordinal_codec = \<lparr> fc_len = 4, fc_enc = le_bytes 4, fc_dec = (\<lambda>bs. omap le_val (to_array 4 bs)) \<rparr>"

interpretation tuid_codec: lawful_codec tuid_codec wf_tuid
  by unfold_locales (auto simp: tuid_codec_def wf_tuid_def TUID_LEN_def)

interpretation slot_codec: lawful_codec slot_pointer_codec slot_pointer_ok
proof unfold_locales
  fix bs :: bytes assume len: "length bs = fc_len slot_pointer_codec"
  let ?p = "\<lparr> file_id = le_val (take 4 bs), extent_index = le_val (take 4 (drop 4 bs)),
    slot_index = le_val (take 4 (drop 8 bs)), ptr_class = unat (bs ! 12) \<rparr>"
  have "fc_dec slot_pointer_codec bs = Ok ?p"
    using len by (simp add: slot_pointer_codec_def slot_decode_def field_at_Ok SLOT_POINTER_LEN_def)
  moreover have "slot_pointer_ok ?p"
    using le_val_less [of "take 4 bs"] le_val_less [of "take 4 (drop 4 bs)"] le_val_less [of "take 4 (drop 8 bs)"] len
    by (simp add: slot_pointer_ok_def unat_u8_less slot_pointer_codec_def SLOT_POINTER_LEN_def)
  ultimately show "\<exists>x. fc_dec slot_pointer_codec bs = Ok x \<and> slot_pointer_ok x" by blast
qed (simp_all add: slot_pointer_codec_def slot_decode_encode SLOT_POINTER_LEN_def)

interpretation ordinal_codec: lawful_codec ordinal_codec "\<lambda>n. n \<le> u32_max"
proof unfold_locales
  fix bs :: bytes assume "length bs = fc_len ordinal_codec"
  then show "\<exists>x. fc_dec ordinal_codec bs = Ok x \<and> x \<le> u32_max"
    using le_val_less [of bs] by (simp add: ordinal_codec_def)
qed (simp_all add: ordinal_codec_def le_val_le_bytes)

section \<open>Pages\<close>

definition LEAF :: nat where "LEAF = 1"
definition INTERNAL :: nat where "INTERNAL = 2"
definition LEAF_HEADER_LEN :: nat where "LEAF_HEADER_LEN = 1 + 2"
definition INTERNAL_HEADER_LEN :: nat where "INTERNAL_HEADER_LEN = 1 + 2"

lemma node_consts: "LEAF = 1" "INTERNAL = 2" "LEAF_HEADER_LEN = 3" "INTERNAL_HEADER_LEN = 3"
  by (simp_all add: LEAF_def INTERNAL_def LEAF_HEADER_LEN_def INTERNAL_HEADER_LEN_def)

definition leaf_capacity :: "nat \<Rightarrow> nat \<Rightarrow> nat \<Rightarrow> nat" where
  "leaf_capacity ps key_len value_len = (ps - LEAF_HEADER_LEN) div (key_len + value_len)"

definition internal_capacity :: "nat \<Rightarrow> nat \<Rightarrow> nat" where
  "internal_capacity ps key_len =
     (let budget = ps - INTERNAL_HEADER_LEN in
      if budget < 4 then 0 else (budget - 4) div (key_len + 4))"

definition node_type :: "bytes \<Rightarrow> nat result" where
  "node_type buf = (if buf = [] then Err (CorruptPage ''empty node buffer'') else Ok (unat (buf ! 0)))"

text \<open>Readers that slice where the code slices.\<close>

definition item_reader :: "'a fixed_codec \<Rightarrow> 'a reader" where
  "item_reader c buf pos =
     obind (slice buf pos (pos + fc_len c)) (\<lambda>bs. omap (\<lambda>x. (x, pos + fc_len c)) (fc_dec c bs))"

definition entry_reader :: "'k fixed_codec \<Rightarrow> 'v fixed_codec \<Rightarrow> ('k \<times> 'v) reader" where
  "entry_reader kc vc buf pos =
     obind (item_reader kc buf pos) (\<lambda>(k, pos). omap (\<lambda>(v, pos). ((k, v), pos)) (item_reader vc buf pos))"

definition child_reader :: "nat reader" where
  "child_reader buf pos = omap (\<lambda>bs. (le_val bs, pos + 4)) (field_at buf pos 4)"

definition leaf_decode :: "'k fixed_codec \<Rightarrow> 'v fixed_codec \<Rightarrow> bytes \<Rightarrow> (('k \<times> 'v) list) result" where
  "leaf_decode kc vc buf =
     (if buf = [] \<or> unat (buf ! 0) \<noteq> LEAF then Err (CorruptPage ''expected leaf node'')
      else if length buf < 3 then Err (CorruptPage ''leaf node shorter than its header'')
      else
        obind (field_at buf 1 2) (\<lambda>cb.
        let key_count = le_val cb; max_entries = (length buf - LEAF_HEADER_LEN) div (fc_len kc + fc_len vc) in
        if max_entries < key_count then Err (CorruptPage ''leaf node key_count exceeds what the page could hold'')
        else omap fst (read_n key_count (entry_reader kc vc) buf LEAF_HEADER_LEN)))"

definition internal_decode :: "'k fixed_codec \<Rightarrow> bytes \<Rightarrow> ('k list \<times> nat list) result" where
  "internal_decode kc buf =
     (if buf = [] \<or> unat (buf ! 0) \<noteq> INTERNAL then Err (CorruptPage ''expected internal node'')
      else if length buf < 3 then Err (CorruptPage ''internal node shorter than its header'')
      else
        obind (field_at buf 1 2) (\<lambda>cb.
        let key_count = le_val cb; budget = length buf - (INTERNAL_HEADER_LEN + 4); max_keys = budget div (fc_len kc + 4) in
        if max_keys < key_count then Err (CorruptPage ''internal node key_count exceeds what the page could hold'')
        else
          obind (read_n key_count (item_reader kc) buf INTERNAL_HEADER_LEN) (\<lambda>(keys, pos).
          omap (\<lambda>(children, _). (keys, children)) (read_n (key_count + 1) child_reader buf pos))))"

text \<open>
  The encoders clear the page, then copy piece by piece; a piece that does not fit the page, or that
  is not as long as its codec says, panics.
\<close>

definition encode_leaf :: "'k fixed_codec \<Rightarrow> 'v fixed_codec \<Rightarrow> ('k \<times> 'v) list \<Rightarrow> nat \<Rightarrow> bytes result" where
  "encode_leaf kc vc entries n =
     (let body = of_nat LEAF # le_bytes 2 (length entries) @ concat (map (\<lambda>(k, v). fc_enc kc k @ fc_enc vc v) entries) in
      if length body \<le> n \<and>
         list_all (\<lambda>(k, v). length (fc_enc kc k) = fc_len kc \<and> length (fc_enc vc v) = fc_len vc) entries
      then Ok (body @ replicate (n - length body) 0) else Panic)"

definition encode_internal :: "'k fixed_codec \<Rightarrow> 'k list \<Rightarrow> nat list \<Rightarrow> nat \<Rightarrow> bytes result" where
  "encode_internal kc keys children n =
     (let body = of_nat INTERNAL # le_bytes 2 (length keys) @ concat (map (fc_enc kc) keys) @ concat (map (le_bytes 4) children) in
      if length body \<le> n \<and> list_all (\<lambda>k. length (fc_enc kc k) = fc_len kc) keys
      then Ok (body @ replicate (n - length body) 0) else Panic)"

section \<open>Round trips\<close>

lemma length_concat_same: "(\<And>x. x \<in> set xs \<Longrightarrow> length (f x) = n) \<Longrightarrow> length (concat (map f xs)) = length xs * n"
  by (induction xs) auto

lemma children_read:
  "list_all (\<lambda>c. c \<le> u32_max) cs \<Longrightarrow> has_at buf p (concat (map (le_bytes 4) cs)) \<Longrightarrow>
     read_n (length cs) child_reader buf p = Ok (cs, p + 4 * length cs)"
proof (induction cs arbitrary: p)
  case (Cons c cs)
  then have "field_at buf p 4 = Ok (le_bytes 4 c)" by (intro has_at_field) simp_all
  then show ?case using Cons by (simp add: child_reader_def le_val_le_bytes del: le_bytes.simps)
qed simp

lemma children_no_panic: "p + 4 * n \<le> length buf \<Longrightarrow> read_n n child_reader buf p \<noteq> Panic"
proof (induction n arbitrary: p)
  case (Suc n)
  then show ?case using Suc.IH [of "p + 4"] by (simp add: child_reader_def field_at_Ok)
qed simp

context lawful_codec
begin

lemma item_read: "ok x \<Longrightarrow> has_at buf p (fc_enc c x) \<Longrightarrow> item_reader c buf p = Ok (x, p + fc_len c)"
  by (simp add: item_reader_def has_at_slice enc_len dec_enc)

lemma item_total: "p + fc_len c \<le> length buf \<Longrightarrow> \<exists>x. item_reader c buf p = Ok (x, p + fc_len c)"
  using dec_total [of "take (fc_len c) (drop p buf)"] by (auto simp: item_reader_def slice_def)

lemma items_read:
  "list_all ok xs \<Longrightarrow> has_at buf p (concat (map (fc_enc c) xs)) \<Longrightarrow>
     read_n (length xs) (item_reader c) buf p = Ok (xs, p + length xs * fc_len c)"
proof (induction xs arbitrary: p)
  case (Cons x xs)
  then show ?case using item_read [of x buf p] by (simp add: enc_len add.assoc)
qed simp

lemma items_total:
  "p + n * fc_len c \<le> length buf \<Longrightarrow> \<exists>xs. read_n n (item_reader c) buf p = Ok (xs, p + n * fc_len c) \<and> length xs = n"
proof (induction n arbitrary: p)
  case (Suc n)
  then have "p + fc_len c \<le> length buf" "(p + fc_len c) + n * fc_len c \<le> length buf" by simp_all
  with item_total [of p buf] Suc.IH [of "p + fc_len c"] show ?case by (auto simp: add.assoc)
qed simp

end

locale node_codec = key: lawful_codec kc kok + val: lawful_codec vc vok
  for kc :: "'k::linorder fixed_codec" and kok :: "'k \<Rightarrow> bool"
    and vc :: "'v fixed_codec" and vok :: "'v \<Rightarrow> bool"
begin

definition entries_ok :: "('k \<times> 'v) list \<Rightarrow> bool" where
  "entries_ok es \<longleftrightarrow> list_all (\<lambda>(k, v). kok k \<and> vok v) es"

lemma entries_read:
  "entries_ok es \<Longrightarrow> has_at buf p (concat (map (\<lambda>(k, v). fc_enc kc k @ fc_enc vc v) es)) \<Longrightarrow>
     read_n (length es) (entry_reader kc vc) buf p = Ok (es, p + length es * (fc_len kc + fc_len vc))"
proof (induction es arbitrary: p)
  case (Cons e es)
  obtain k v where e: "e = (k, v)" by (cases e)
  have "kok k" "vok v" "entries_ok es" using Cons.prems(1) by (simp_all add: entries_ok_def e)
  then show ?case
    using Cons key.item_read [of k buf p] val.item_read [of v buf "p + fc_len kc"]
    by (simp add: e entry_reader_def key.enc_len val.enc_len add.assoc)
qed simp

lemma entries_no_panic:
  "p + n * (fc_len kc + fc_len vc) \<le> length buf \<Longrightarrow> read_n n (entry_reader kc vc) buf p \<noteq> Panic"
proof (induction n arbitrary: p)
  case (Suc n)
  then have "p + fc_len kc \<le> length buf" "(p + fc_len kc) + fc_len vc \<le> length buf"
    "(p + fc_len kc + fc_len vc) + n * (fc_len kc + fc_len vc) \<le> length buf" by simp_all
  with key.item_total [of p buf] val.item_total [of "p + fc_len kc" buf] Suc.IH [of "p + fc_len kc + fc_len vc"]
  show ?case by (auto simp: entry_reader_def)
qed simp

lemma leaf_round_trip:
  assumes "entries_ok es" "length es \<le> leaf_capacity n (fc_len kc) (fc_len vc)" "length es \<le> u16_max" "3 \<le> n"
  shows "\<exists>bs. encode_leaf kc vc es n = Ok bs \<and> length bs = n \<and> node_type bs = Ok LEAF \<and> leaf_decode kc vc bs = Ok es"
proof -
  let ?w = "fc_len kc + fc_len vc"
  let ?es = "concat (map (\<lambda>(k, v). fc_enc kc k @ fc_enc vc v) es)"
  have lens: "list_all (\<lambda>(k, v). length (fc_enc kc k) = fc_len kc \<and> length (fc_enc vc v) = fc_len vc) es"
    using assms(1) by (auto simp: entries_ok_def list_all_iff key.enc_len val.enc_len)
  have len: "length ?es = length es * ?w"
    by (rule length_concat_same) (use lens in \<open>auto simp: list_all_iff\<close>)
  have "length es * ?w \<le> n - 3"
    using assms(2) by (simp add: leaf_capacity_def node_consts less_eq_div_iff_mult_less_eq key.len_pos)
  then have fit: "3 + length ?es \<le> n" using len assms(4) by linarith
  define bs where "bs = (of_nat LEAF # le_bytes 2 (length es) @ ?es) @ replicate (n - (3 + length ?es)) 0"
  have enc: "encode_leaf kc vc es n = Ok bs"
    using fit lens by (simp add: encode_leaf_def Let_def bs_def del: le_bytes.simps)
  have blen: "length bs = n" using fit by (simp add: bs_def del: le_bytes.simps)
  have "has_at bs 0 bs" by (rule has_at_self)
  then have at: "has_at bs 1 (le_bytes 2 (length es))" "has_at bs 3 ?es" "bs ! 0 = of_nat LEAF"
    by (simp_all add: bs_def numeral_3_eq_3 del: le_bytes.simps)
  have "field_at bs 1 2 = Ok (le_bytes 2 (length es))" using at(1) by (intro has_at_field) simp_all
  moreover have "read_n (length es) (entry_reader kc vc) bs 3 = Ok (es, 3 + length es * ?w)"
    by (rule entries_read [OF assms(1) at(2)])
  moreover have "bs \<noteq> []" using blen assms(4) by auto
  ultimately have "leaf_decode kc vc bs = Ok es" "node_type bs = Ok LEAF"
    using at(3) blen assms(2-4) by (simp_all add: leaf_decode_def node_type_def Let_def le_val_le_bytes leaf_capacity_def node_consts)
  with enc blen show ?thesis by blast
qed

lemma internal_round_trip:
  assumes "list_all kok ks" "list_all (\<lambda>c. c \<le> u32_max) cs" "length cs = Suc (length ks)"
    and "length ks \<le> internal_capacity n (fc_len kc)" "length ks \<le> u16_max" "7 \<le> n"
  shows "\<exists>bs. encode_internal kc ks cs n = Ok bs \<and> length bs = n \<and> node_type bs = Ok INTERNAL \<and>
    internal_decode kc bs = Ok (ks, cs)"
proof -
  let ?ks = "concat (map (fc_enc kc) ks)" and ?cs = "concat (map (le_bytes 4) cs)"
  have lens: "list_all (\<lambda>k. length (fc_enc kc k) = fc_len kc) ks"
    using assms(1) by (auto simp: list_all_iff key.enc_len)
  have len: "length ?ks = length ks * fc_len kc" "length ?cs = length cs * 4"
    by (rule length_concat_same; use lens in \<open>auto simp: list_all_iff\<close>)+
  have "length ks * (fc_len kc + 4) \<le> n - 7"
    using assms(4,6) by (simp add: internal_capacity_def Let_def node_consts less_eq_div_iff_mult_less_eq split: if_splits)
  then have fit: "3 + (length ?ks + length ?cs) \<le> n"
    using len assms(3,6) by (simp add: add_mult_distrib2)
  define bs where "bs = (of_nat INTERNAL # le_bytes 2 (length ks) @ ?ks @ ?cs) @ replicate (n - (3 + (length ?ks + length ?cs))) 0"
  have enc: "encode_internal kc ks cs n = Ok bs"
    using fit lens by (simp add: encode_internal_def Let_def bs_def del: le_bytes.simps)
  have blen: "length bs = n" using fit by (simp add: bs_def del: le_bytes.simps)
  have "has_at bs 0 bs" by (rule has_at_self)
  then have at: "has_at bs 1 (le_bytes 2 (length ks))" "has_at bs 3 ?ks" "has_at bs (3 + length ?ks) ?cs"
    "bs ! 0 = of_nat INTERNAL"
    by (simp_all add: bs_def numeral_3_eq_3 del: le_bytes.simps)
  have "field_at bs 1 2 = Ok (le_bytes 2 (length ks))" using at(1) by (intro has_at_field) simp_all
  moreover have "read_n (length ks) (item_reader kc) bs 3 = Ok (ks, 3 + length ks * fc_len kc)"
    by (rule key.items_read [OF assms(1) at(2)])
  moreover have "read_n (Suc (length ks)) child_reader bs (3 + length ks * fc_len kc) =
      Ok (cs, 3 + length ks * fc_len kc + 4 * length cs)"
    using children_read [OF assms(2)] at(3) assms(3) len(1) by simp
  moreover have "bs \<noteq> []" using blen assms(6) by auto
  moreover have "length ks \<le> (n - 7) div (fc_len kc + 4)"
    using assms(4,6) by (simp add: internal_capacity_def Let_def node_consts split: if_splits)
  ultimately have "internal_decode kc bs = Ok (ks, cs)" "node_type bs = Ok INTERNAL"
    using at(4) blen assms(5,6)
    by (simp_all add: internal_decode_def node_type_def Let_def le_val_le_bytes node_consts del: read_n.simps)
  with enc blen show ?thesis by blast
qed

text \<open>No page makes a decoder panic.\<close>

lemma leaf_decode_total: "leaf_decode kc vc buf \<noteq> Panic"
proof -
  have "read_n n (entry_reader kc vc) buf 3 \<noteq> Panic"
    if "3 \<le> length buf" "n \<le> (length buf - 3) div (fc_len kc + fc_len vc)" for n
    using that by (intro entries_no_panic) (simp add: less_eq_div_iff_mult_less_eq key.len_pos)
  then show ?thesis by (simp add: leaf_decode_def field_at_Ok Let_def node_consts not_less)
qed

lemma internal_decode_total: "7 \<le> length buf \<Longrightarrow> internal_decode kc buf \<noteq> Panic"
proof -
  assume len: "7 \<le> length buf"
  have "obind (read_n n (item_reader kc) buf 3) (\<lambda>(keys, pos).
      omap (\<lambda>(children, _). (keys, children)) (read_n (n + 1) child_reader buf pos)) \<noteq> Panic"
    if "n \<le> (length buf - 7) div (fc_len kc + 4)" for n
  proof -
    have "n * (fc_len kc + 4) \<le> length buf - 7" using that by (simp add: less_eq_div_iff_mult_less_eq)
    then have fit: "3 + n * fc_len kc + 4 * Suc n \<le> length buf" using len by (simp add: add_mult_distrib2)
    then have "3 + n * fc_len kc \<le> length buf" by simp
    from key.items_total [OF this] obtain xs where "read_n n (item_reader kc) buf 3 = Ok (xs, 3 + n * fc_len kc)" by blast
    with children_no_panic [OF fit] show ?thesis by (simp del: read_n.simps)
  qed
  with len show ?thesis by (simp add: internal_decode_def field_at_Ok Let_def node_consts not_less del: read_n.simps)
qed

end

end
