(* ===== verification/Gems_BTree.thy ===== *)
theory Gems_BTree
  imports Gems_Node
begin

text \<open>
  \<^verbatim>\<open>gems-index/src/btree.rs\<close>: the copy-on-write B-tree. An update writes new pages from
  the leaf up, publishes the new root and only then gives the replaced pages back. The recursion
  follows page numbers, so it is bounded by fuel; running out of it, which the code would do by
  recursing or looping for ever, counts as a panic. With one unit of fuel for each page of the file a
  proper tree never runs out, which is part of what the theorems of \<^verbatim>\<open>Gems_BTree_Correct\<close>
  show.
\<close>

record btree =
  bt_pager :: pager
  pending_free :: "nat list"

datatype 'k insert_outcome = Replaced nat | Split nat 'k nat

definition btree_create :: "nat \<Rightarrow> nat \<Rightarrow> 'k fixed_codec \<Rightarrow> 'v fixed_codec \<Rightarrow> btree result" where
  "btree_create os ps kc vc =
     omap (\<lambda>p. \<lparr> bt_pager = p, pending_free = [] \<rparr>)
       (pager_create os ps (fc_len kc mod 65536) (fc_len vc mod 65536))"

definition btree_open :: "nat \<Rightarrow> disk_file \<Rightarrow> bool \<Rightarrow> btree result" where
  "btree_open os img writable =
     omap (\<lambda>p. \<lparr> bt_pager = p, pending_free = [] \<rparr>) (pager_open os img writable)"

definition tree_leaf_capacity :: "'k fixed_codec \<Rightarrow> 'v fixed_codec \<Rightarrow> btree \<Rightarrow> nat" where
  "tree_leaf_capacity kc vc t = leaf_capacity (page_size (bt_pager t)) (fc_len kc) (fc_len vc)"

definition tree_internal_capacity :: "'k fixed_codec \<Rightarrow> btree \<Rightarrow> nat" where
  "tree_internal_capacity kc t = internal_capacity (page_size (bt_pager t)) (fc_len kc)"

definition partition_point :: "('a \<Rightarrow> bool) \<Rightarrow> 'a list \<Rightarrow> nat" where
  "partition_point P xs = length (takeWhile P xs)"

section \<open>Lookup\<close>

primrec get_loop :: "nat \<Rightarrow> 'k::linorder fixed_codec \<Rightarrow> 'v fixed_codec \<Rightarrow> pager \<Rightarrow> nat \<Rightarrow> 'k \<Rightarrow> 'v option result" where
  "get_loop 0 kc vc p page_id key = Panic"
| "get_loop (Suc n) kc vc p page_id key =
     obind (read_page p page_id) (\<lambda>buf. obind (node_type buf) (\<lambda>ty.
     if ty = LEAF then
       omap (\<lambda>es. case binary_search (map fst es) key of Inl idx \<Rightarrow> Some (snd (es ! idx)) | Inr _ \<Rightarrow> None)
         (leaf_decode kc vc buf)
     else if ty = INTERNAL then
       obind (internal_decode kc buf) (\<lambda>(keys, children).
       obind (index_at children (partition_point (\<lambda>k. k \<le> key) keys)) (\<lambda>child.
       get_loop n kc vc p child key))
     else Panic))"

definition btree_get :: "'k::linorder fixed_codec \<Rightarrow> 'v fixed_codec \<Rightarrow> btree \<Rightarrow> 'k \<Rightarrow> 'v option result" where
  "btree_get kc vc t key =
     (let root = root_page (bt_pager t) in
      if root = 0 then Ok None else get_loop (page_count (bt_pager t)) kc vc (bt_pager t) root key)"

section \<open>Insertion\<close>

definition bt_alloc :: "nat \<Rightarrow> btree \<Rightarrow> (btree \<times> nat) result" where
  "bt_alloc os t = omap (\<lambda>(p, new_id). (t\<lparr> bt_pager := p \<rparr>, new_id)) (allocate_page os (bt_pager t))"

definition bt_fill :: "nat \<Rightarrow> (nat \<Rightarrow> bytes result) \<Rightarrow> btree \<Rightarrow> btree result" where
  "bt_fill page_id enc t = omap (\<lambda>p. t\<lparr> bt_pager := p \<rparr>) (fill_page page_id enc (bt_pager t))"

definition bt_replace :: "nat \<Rightarrow> btree \<Rightarrow> btree" where
  "bt_replace page_id t = t\<lparr> pending_free := pending_free t @ [page_id] \<rparr>"

definition insert_leaf ::
  "nat \<Rightarrow> 'k::linorder fixed_codec \<Rightarrow> 'v fixed_codec \<Rightarrow> nat \<Rightarrow> ('k \<times> 'v) list \<Rightarrow> btree \<Rightarrow> (btree \<times> 'k insert_outcome) result" where
  "insert_leaf os kc vc page_id es t =
     (if length es \<le> tree_leaf_capacity kc vc t then
        obind (bt_alloc os t) (\<lambda>(t, new_id).
        obind (bt_fill new_id (encode_leaf kc vc es) t) (\<lambda>t.
        Ok (bt_replace page_id t, Replaced new_id)))
      else
        let mid = length es div 2; right_entries = drop mid es; left_entries = take mid es in
        obind (index_at right_entries 0) (\<lambda>e. let sep = fst e in
        obind (bt_alloc os t) (\<lambda>(t, right_id).
        obind (bt_alloc os t) (\<lambda>(t, left_id).
        obind (bt_fill right_id (encode_leaf kc vc right_entries) t) (\<lambda>t.
        obind (bt_fill left_id (encode_leaf kc vc left_entries) t) (\<lambda>t.
        Ok (bt_replace page_id t, Split left_id sep right_id)))))))"

definition insert_internal ::
  "nat \<Rightarrow> 'k::linorder fixed_codec \<Rightarrow> nat \<Rightarrow> 'k list \<Rightarrow> nat list \<Rightarrow> nat \<Rightarrow> btree \<Rightarrow> 'k insert_outcome \<Rightarrow>
   (btree \<times> 'k insert_outcome) result" where
  "insert_internal os kc page_id keys children child_idx t outcome =
     (case outcome of
       Replaced new_child_id \<Rightarrow>
         obind (bt_alloc os t) (\<lambda>(t, new_id).
         obind (bt_fill new_id (encode_internal kc keys (children[child_idx := new_child_id])) t) (\<lambda>t.
         Ok (bt_replace page_id t, Replaced new_id)))
     | Split left sep right \<Rightarrow>
         let children = insert_at (child_idx + 1) right (children[child_idx := left]);
             keys = insert_at child_idx sep keys in
         if length keys \<le> tree_internal_capacity kc t then
           obind (bt_alloc os t) (\<lambda>(t, new_id).
           obind (bt_fill new_id (encode_internal kc keys children) t) (\<lambda>t.
           Ok (bt_replace page_id t, Replaced new_id)))
         else
           let mid = length keys div 2 in
           obind (index_at keys mid) (\<lambda>sep_up.
           let right_keys = drop (mid + 1) keys; left_keys = take mid (take (mid + 1) keys);
               right_children = drop (mid + 1) children; left_children = take (mid + 1) children in
           obind (bt_alloc os t) (\<lambda>(t, left_id).
           obind (bt_alloc os t) (\<lambda>(t, right_id).
           obind (bt_fill left_id (encode_internal kc left_keys left_children) t) (\<lambda>t.
           obind (bt_fill right_id (encode_internal kc right_keys right_children) t) (\<lambda>t.
           Ok (bt_replace page_id t, Split left_id sep_up right_id)))))))"

primrec insert_rec ::
  "nat \<Rightarrow> nat \<Rightarrow> 'k::linorder fixed_codec \<Rightarrow> 'v fixed_codec \<Rightarrow> nat \<Rightarrow> 'k \<Rightarrow> 'v \<Rightarrow> btree \<Rightarrow>
   (btree \<times> 'k insert_outcome) result" where
  "insert_rec 0 os kc vc page_id key value t = Panic"
| "insert_rec (Suc n) os kc vc page_id key value t =
     obind (read_page (bt_pager t) page_id) (\<lambda>buf. obind (node_type buf) (\<lambda>ty.
     if ty = LEAF then
       obind (leaf_decode kc vc buf) (\<lambda>es.
       insert_leaf os kc vc page_id
         (case binary_search (map fst es) key of
            Inl idx \<Rightarrow> es[idx := (fst (es ! idx), value)]
          | Inr idx \<Rightarrow> insert_at idx (key, value) es) t)
     else
       obind (internal_decode kc buf) (\<lambda>(keys, children).
       let child_idx = partition_point (\<lambda>k. k \<le> key) keys in
       obind (index_at children child_idx) (\<lambda>child.
       obind (insert_rec n os kc vc child key value t) (\<lambda>(t, outcome).
       insert_internal os kc page_id keys children child_idx t outcome)))))"

definition bt_free_pending :: "nat \<Rightarrow> btree \<Rightarrow> btree result" where
  "bt_free_pending os t =
     omap (\<lambda>p. \<lparr> bt_pager = p, pending_free = [] \<rparr>) (free_all (free_page os) (pending_free t) (bt_pager t))"

definition bt_publish :: "nat \<Rightarrow> nat \<Rightarrow> btree \<Rightarrow> btree result" where
  "bt_publish os new_root t = omap (\<lambda>p. t\<lparr> bt_pager := p \<rparr>) (publish_root os new_root (bt_pager t))"

definition btree_insert ::
  "nat \<Rightarrow> 'k::linorder fixed_codec \<Rightarrow> 'v fixed_codec \<Rightarrow> 'k \<Rightarrow> 'v \<Rightarrow> btree \<Rightarrow> btree result" where
  "btree_insert os kc vc key value t =
     (let t = t\<lparr> pending_free := [] \<rparr>; root = root_page (bt_pager t) in
      obind
        (if root = 0 then
           obind (bt_alloc os t) (\<lambda>(t, leaf_id).
           omap (\<lambda>t. (t, leaf_id)) (bt_fill leaf_id (encode_leaf kc vc [(key, value)]) t))
         else
           obind (insert_rec (page_count (bt_pager t)) os kc vc root key value t) (\<lambda>(t, outcome).
           case outcome of
             Replaced new_id \<Rightarrow> Ok (t, new_id)
           | Split left sep right \<Rightarrow>
               obind (bt_alloc os t) (\<lambda>(t, new_root_id).
               omap (\<lambda>t. (t, new_root_id)) (bt_fill new_root_id (encode_internal kc [sep] [left, right]) t))))
        (\<lambda>(t, new_root). obind (bt_publish os new_root t) (bt_free_pending os)))"

section \<open>Deletion\<close>

primrec delete_rec ::
  "nat \<Rightarrow> nat \<Rightarrow> 'k::linorder fixed_codec \<Rightarrow> 'v fixed_codec \<Rightarrow> nat \<Rightarrow> 'k \<Rightarrow> btree \<Rightarrow> (btree \<times> nat \<times> 'v option) result" where
  "delete_rec 0 os kc vc page_id key t = Panic"
| "delete_rec (Suc n) os kc vc page_id key t =
     obind (read_page (bt_pager t) page_id) (\<lambda>buf. obind (node_type buf) (\<lambda>ty.
     if ty = LEAF then
       obind (leaf_decode kc vc buf) (\<lambda>es.
       case binary_search (map fst es) key of
         Inr _ \<Rightarrow> Ok (t, page_id, None)
       | Inl idx \<Rightarrow>
           obind (bt_alloc os t) (\<lambda>(t, new_id).
           obind (bt_fill new_id (encode_leaf kc vc (remove_at idx es)) t) (\<lambda>t.
           Ok (bt_replace page_id t, new_id, Some (snd (es ! idx))))))
     else
       obind (internal_decode kc buf) (\<lambda>(keys, children).
       let child_idx = partition_point (\<lambda>k. k \<le> key) keys in
       obind (index_at children child_idx) (\<lambda>child.
       obind (delete_rec n os kc vc child key t) (\<lambda>(t, new_child_id, removed).
       if new_child_id = child then Ok (t, page_id, removed)
       else
         obind (bt_alloc os t) (\<lambda>(t, new_id).
         obind (bt_fill new_id (encode_internal kc keys (children[child_idx := new_child_id])) t) (\<lambda>t.
         Ok (bt_replace page_id t, new_id, removed))))))))"

definition btree_delete ::
  "nat \<Rightarrow> 'k::linorder fixed_codec \<Rightarrow> 'v fixed_codec \<Rightarrow> 'k \<Rightarrow> btree \<Rightarrow> (btree \<times> 'v option) result" where
  "btree_delete os kc vc key t =
     (let t = t\<lparr> pending_free := [] \<rparr>; root = root_page (bt_pager t) in
      if root = 0 then Ok (t, None)
      else
        obind (delete_rec (page_count (bt_pager t)) os kc vc root key t) (\<lambda>(t, new_root, removed).
        if new_root \<noteq> root then
          obind (bt_publish os new_root t) (\<lambda>t. omap (\<lambda>t. (t, removed)) (bt_free_pending os t))
        else Ok (t, removed)))"

section \<open>Scanning\<close>

primrec concat_results :: "('a list result) list \<Rightarrow> 'a list result" where
  "concat_results [] = Ok []"
| "concat_results (r # rs) = obind r (\<lambda>xs. omap (\<lambda>ys. xs @ ys) (concat_results rs))"

primrec scan_rec :: "nat \<Rightarrow> 'k fixed_codec \<Rightarrow> 'v fixed_codec \<Rightarrow> pager \<Rightarrow> nat \<Rightarrow> ('k \<times> 'v) list result" where
  "scan_rec 0 kc vc p page_id = Panic"
| "scan_rec (Suc n) kc vc p page_id =
     obind (read_page p page_id) (\<lambda>buf. obind (node_type buf) (\<lambda>ty.
     if ty = LEAF then leaf_decode kc vc buf
     else if ty = INTERNAL then
       obind (internal_decode kc buf) (\<lambda>(keys, children). concat_results (map (scan_rec n kc vc p) children))
     else Panic))"

definition btree_scan_all :: "'k fixed_codec \<Rightarrow> 'v fixed_codec \<Rightarrow> btree \<Rightarrow> ('k \<times> 'v) list result" where
  "btree_scan_all kc vc t =
     (let root = root_page (bt_pager t) in
      if root = 0 then Ok [] else scan_rec (page_count (bt_pager t)) kc vc (bt_pager t) root)"

end
