(* ===== verification/Gems_BTree_Correct.thy ===== *)
theory Gems_BTree_Correct
  imports Gems_BTree
begin

text \<open>
  The copy-on-write B-tree of \<^verbatim>\<open>gems-index\<close> is a sorted map. A \<open>tree\<close> is the shape a
  page number stands for; \<open>stored\<close> says that the pages hold it, \<open>ordered\<close> that separators and
  keys are in order. \<open>tree_rep os kc vc b m\<close> is the invariant: the pages in use are exactly those
  of the tree, and its entries in order are the association list \<open>m\<close>. Insertion, deletion, lookup
  and scan are then the operations of \<open>btree_map\<close>, as the interpretation of \<open>ordered_index\<close>
  states.
\<close>

section \<open>Trees\<close>

datatype ('k, 'v) tree = Lf nat "('k \<times> 'v) list" | Nd nat "'k list" "('k, 'v) tree list"

primrec root_id :: "('k, 'v) tree \<Rightarrow> nat" where
  "root_id (Lf i es) = i"
| "root_id (Nd i ks ts) = i"

primrec tree_entries :: "('k, 'v) tree \<Rightarrow> ('k \<times> 'v) list" where
  "tree_entries (Lf i es) = es"
| "tree_entries (Nd i ks ts) = concat (map tree_entries ts)"

primrec tree_ids :: "('k, 'v) tree \<Rightarrow> nat list" where
  "tree_ids (Lf i es) = [i]"
| "tree_ids (Nd i ks ts) = i # concat (map tree_ids ts)"

primrec tree_height :: "('k, 'v) tree \<Rightarrow> nat" where
  "tree_height (Lf i es) = 1"
| "tree_height (Nd i ks ts) = Suc (foldr max (map tree_height ts) 0)"

lemma root_in_ids: "root_id t \<in> set (tree_ids t)"
  by (cases t) simp_all

lemma foldr_max: "x \<in> set xs \<Longrightarrow> x \<le> foldr max xs (0 :: nat)"
  by (induction xs) auto

lemma foldr_max_le: "(\<And>x. x \<in> set xs \<Longrightarrow> x \<le> n) \<Longrightarrow> foldr max xs (0 :: nat) \<le> n"
  by (induction xs) auto

lemma child_height: "t \<in> set ts \<Longrightarrow> Suc (tree_height t) \<le> tree_height (Nd i ks ts)"
  using foldr_max [of "tree_height t" "map tree_height ts"] by simp

lemma node_height: "(\<And>t. t \<in> set ts \<Longrightarrow> tree_height t \<le> h) \<Longrightarrow> tree_height (Nd i ks ts) \<le> Suc h"
  using foldr_max_le [of "map tree_height ts" h] by auto

lemma height_ids: "tree_height t \<le> length (tree_ids t)"
proof (induction t)
  case (Nd i ks ts)
  have "foldr max (map tree_height ts) 0 \<le> length (concat (map tree_ids ts))"
  proof (rule foldr_max_le)
    fix x assume "x \<in> set (map tree_height ts)"
    then obtain t where t: "t \<in> set ts" "x = tree_height t" by auto
    have "length (tree_ids t) \<le> length (concat (map tree_ids ts))"
      using t(1) by (induction ts) auto
    then show "x \<le> length (concat (map tree_ids ts))" using Nd.IH [OF t(1)] t(2) by simp
  qed
  then show ?case by simp
qed simp

section \<open>Order\<close>

definition le_opt :: "'k::linorder option \<Rightarrow> 'k \<Rightarrow> bool" where
  "le_opt lo k = (case lo of None \<Rightarrow> True | Some l \<Rightarrow> l \<le> k)"

definition lt_opt :: "'k::linorder \<Rightarrow> 'k option \<Rightarrow> bool" where
  "lt_opt k hi = (case hi of None \<Rightarrow> True | Some h \<Rightarrow> k < h)"

definition ge_opt :: "'k::linorder \<Rightarrow> 'k option \<Rightarrow> bool" where
  "ge_opt k hi = (case hi of None \<Rightarrow> True | Some h \<Rightarrow> k \<le> h)"

lemma opt_simps [simp]: "le_opt None k" "lt_opt k None" "ge_opt k None" "le_opt (Some l) k \<longleftrightarrow> l \<le> k"
  "lt_opt k (Some h) \<longleftrightarrow> k < h" "ge_opt k (Some h) \<longleftrightarrow> k \<le> h"
  by (simp_all add: le_opt_def lt_opt_def ge_opt_def)

lemma lt_ge_opt: "lt_opt k hi \<Longrightarrow> ge_opt k hi"
  by (cases hi) auto

lemma ge_opt_trans: "ge_opt k hi \<Longrightarrow> k' \<le> k \<Longrightarrow> ge_opt k' hi"
  by (cases hi) auto

lemma lt_ge_opt_trans: "ge_opt k hi \<Longrightarrow> k' < k \<Longrightarrow> lt_opt k' hi"
  by (cases hi) auto

lemma le_opt_trans: "le_opt lo k \<Longrightarrow> k \<le> k' \<Longrightarrow> le_opt lo k'"
  by (cases lo) auto

lemma lt_opt_trans: "lt_opt k hi \<Longrightarrow> k' \<le> k \<Longrightarrow> lt_opt k' hi"
  by (cases hi) auto

text \<open>Children between their separators.\<close>

fun sepd :: "('k option \<Rightarrow> 'k option \<Rightarrow> 't \<Rightarrow> bool) \<Rightarrow> 'k option \<Rightarrow> 'k option \<Rightarrow> 'k list \<Rightarrow> 't list \<Rightarrow> bool" where
  "sepd P lo hi [] [t] = P lo hi t"
| "sepd P lo hi (k # ks) (t # ts) = (P lo (Some k) t \<and> sepd P (Some k) hi ks ts)"
| "sepd P lo hi _ _ = False"

lemma sepd_eq:
  "(\<And>t l h. t \<in> set ts \<Longrightarrow> P l h t = Q l h t) \<Longrightarrow> sepd P lo hi ks ts = sepd Q lo hi ks ts"
  by (induction P lo hi ks ts rule: sepd.induct) auto

lemma sepd_cong [fundef_cong]:
  "lo = lo' \<Longrightarrow> hi = hi' \<Longrightarrow> ks = ks' \<Longrightarrow> ts = ts' \<Longrightarrow> (\<And>t l h. t \<in> set ts' \<Longrightarrow> P l h t = Q l h t) \<Longrightarrow>
     sepd P lo hi ks ts = sepd Q lo' hi' ks' ts'"
  by (hypsubst, rule sepd_eq)

definition seps :: "'k::linorder option \<Rightarrow> 'k option \<Rightarrow> 'k list \<Rightarrow> bool" where
  "seps lo hi ks \<longleftrightarrow> sorted ks \<and> (\<forall>k \<in> set ks. le_opt lo k \<and> ge_opt k hi)"

fun ordered :: "'k::linorder option \<Rightarrow> 'k option \<Rightarrow> ('k, 'v) tree \<Rightarrow> bool" where
  "ordered lo hi (Lf i es) \<longleftrightarrow> bm_ok es \<and> (\<forall>e \<in> set es. le_opt lo (fst e) \<and> lt_opt (fst e) hi)"
| "ordered lo hi (Nd i ks ts) \<longleftrightarrow> seps lo hi ks \<and> sepd ordered lo hi ks ts"

lemma sepd_length: "sepd P lo hi ks ts \<Longrightarrow> length ts = Suc (length ks)"
  by (induction P lo hi ks ts rule: sepd.induct) auto

text \<open>The bounds of the child between two halves of the separators.\<close>

definition lower :: "'k option \<Rightarrow> 'k list \<Rightarrow> 'k option" where
  "lower lo ks = (if ks = [] then lo else Some (last ks))"

definition upper :: "'k option \<Rightarrow> 'k list \<Rightarrow> 'k option" where
  "upper hi ks = (if ks = [] then hi else Some (hd ks))"

fun sepd_left :: "('k option \<Rightarrow> 'k option \<Rightarrow> 't \<Rightarrow> bool) \<Rightarrow> 'k option \<Rightarrow> 'k list \<Rightarrow> 't list \<Rightarrow> bool" where
  "sepd_left P lo [] [] = True"
| "sepd_left P lo (k # ks) (t # ts) = (P lo (Some k) t \<and> sepd_left P (Some k) ks ts)"
| "sepd_left P lo _ _ = False"

fun sepd_right :: "('k option \<Rightarrow> 'k option \<Rightarrow> 't \<Rightarrow> bool) \<Rightarrow> 'k option \<Rightarrow> 'k list \<Rightarrow> 't list \<Rightarrow> bool" where
  "sepd_right P hi [] [] = True"
| "sepd_right P hi (k # ks) (t # ts) = (P (Some k) (upper hi ks) t \<and> sepd_right P hi ks ts)"
| "sepd_right P hi _ _ = False"

lemma sepd_head: "sepd P lo hi ks (t # ts) \<longleftrightarrow> P lo (upper hi ks) t \<and> sepd_right P hi ks ts"
proof (induction ks arbitrary: lo t ts)
  case Nil
  then show ?case by (cases ts) (simp_all add: upper_def)
next
  case (Cons k ks)
  then show ?case by (cases ts) (simp_all add: upper_def)
qed

lemma sepd_focus:
  "length ks1 = length ts1 \<Longrightarrow> sepd P lo hi (ks1 @ ks2) (ts1 @ t # ts2) \<longleftrightarrow>
     sepd_left P lo ks1 ts1 \<and> P (lower lo ks1) (upper hi ks2) t \<and> sepd_right P hi ks2 ts2"
proof (induction ks1 ts1 arbitrary: lo rule: list_induct2)
  case Nil
  then show ?case by (simp add: sepd_head lower_def)
next
  case (Cons k ks1 u ts1)
  have "lower (Some k) ks1 = lower lo (k # ks1)" by (simp add: lower_def)
  with Cons show ?case by simp
qed

lemma sepd_append:
  "length ts1 = Suc (length ks1) \<Longrightarrow>
     sepd P lo hi (ks1 @ k # ks2) (ts1 @ ts2) \<longleftrightarrow> sepd P lo (Some k) ks1 ts1 \<and> sepd P (Some k) hi ks2 ts2"
proof (induction ks1 arbitrary: lo ts1)
  case Nil
  then obtain t where "ts1 = [t]" by (cases ts1) auto
  then show ?case by simp
next
  case (Cons j ks1)
  then show ?case by (cases ts1) auto
qed

lemma sepd_all: "sepd P lo hi ks ts \<Longrightarrow> t \<in> set ts \<Longrightarrow> \<exists>l h. P l h t"
  by (induction P lo hi ks ts rule: sepd.induct) auto

lemma sepd_left_below:
  "sepd_left P lo ks ts \<Longrightarrow> (\<And>l k t x. P l (Some k) t \<Longrightarrow> x \<in> K t \<Longrightarrow> x < k) \<Longrightarrow>
     (\<And>k. k \<in> set ks \<Longrightarrow> k \<le> (key :: 'k::linorder)) \<Longrightarrow> t \<in> set ts \<Longrightarrow> x \<in> K t \<Longrightarrow> x < key"
  by (induction P lo ks ts rule: sepd_left.induct) (auto, force)

lemma sepd_right_above:
  "sepd_right P hi ks ts \<Longrightarrow> (\<And>k h t x. P (Some k) h t \<Longrightarrow> x \<in> K t \<Longrightarrow> k \<le> x) \<Longrightarrow>
     (\<And>k. k \<in> set ks \<Longrightarrow> (key :: 'k::linorder) < k) \<Longrightarrow> t \<in> set ts \<Longrightarrow> x \<in> K t \<Longrightarrow> key < x"
  by (induction P hi ks ts rule: sepd_right.induct) (auto, force)

lemma seps_Cons: "seps lo hi (k # ks) \<Longrightarrow> seps (Some k) hi ks \<and> le_opt lo k \<and> ge_opt k hi"
  by (auto simp: seps_def)

lemma sepd_child:
  "sepd P lo hi ks ts \<Longrightarrow> seps lo hi ks \<Longrightarrow> t \<in> set ts \<Longrightarrow>
     \<exists>l h. P l h t \<and> (\<forall>k. le_opt l k \<longrightarrow> le_opt lo k) \<and> (\<forall>k. lt_opt k h \<longrightarrow> lt_opt k hi)"
proof (induction P lo hi ks ts rule: sepd.induct)
  case (2 P lo hi k ks u ts)
  note s = seps_Cons [OF 2(3)]
  show ?case
  proof (cases "t \<in> set ts")
    case True
    from 2(1) [OF _ _ True] 2(2) s obtain l h where lh: "P l h t" "\<forall>j. le_opt l j \<longrightarrow> le_opt (Some k) j" "\<forall>j. lt_opt j h \<longrightarrow> lt_opt j hi"
      by auto
    have "le_opt lo j" if "le_opt l j" for j using lh(2) that s le_opt_trans by fastforce
    with lh show ?thesis by blast
  next
    case False
    then have "t = u" using 2(4) by simp
    moreover have "lt_opt j hi" if "lt_opt j (Some k)" for j using that s lt_ge_opt_trans [of k hi j] by simp
    ultimately show ?thesis using 2(2) by (intro exI [of _ lo] exI [of _ "Some k"]) simp
  qed
qed auto

lemma ordered_bounds: "ordered lo hi t \<Longrightarrow> e \<in> set (tree_entries t) \<Longrightarrow> le_opt lo (fst e) \<and> lt_opt (fst e) hi"
proof (induction t arbitrary: lo hi)
  case (Nd i ks ts)
  then obtain t where t: "t \<in> set ts" "e \<in> set (tree_entries t)" by auto
  have "sepd ordered lo hi ks ts" "seps lo hi ks" using Nd.prems(1) by simp_all
  from sepd_child [OF this t(1)] obtain l h where
    "ordered l h t" "\<forall>k. le_opt l k \<longrightarrow> le_opt lo k" "\<forall>k. lt_opt k h \<longrightarrow> lt_opt k hi" by blast
  with Nd.IH [OF t(1) _ t(2)] show ?case by blast
qed simp

text \<open>The entries of an ordered tree are sorted.\<close>

lemma bm_ok_append: "bm_ok (a @ b) \<longleftrightarrow> bm_ok a \<and> bm_ok b \<and> (\<forall>x \<in> set a. \<forall>y \<in> set b. fst x < fst y)"
  by (auto simp: bm_ok_def sorted_wrt_append)

lemma forest_sorted:
  "sepd ordered lo hi ks ts \<Longrightarrow> seps lo hi ks \<Longrightarrow> (\<And>t l h. t \<in> set ts \<Longrightarrow> ordered l h t \<Longrightarrow> bm_ok (tree_entries t)) \<Longrightarrow>
     bm_ok (concat (map tree_entries ts))"
proof (induction "ordered :: 'a option \<Rightarrow> 'a option \<Rightarrow> ('a, 'b) tree \<Rightarrow> bool" lo hi ks ts rule: sepd.induct)
  case (2 lo hi k ks t ts)
  note s = seps_Cons [OF 2(3)]
  have ih: "bm_ok (concat (map tree_entries ts))" using 2 s by simp
  have "fst x < fst y" if "x \<in> set (tree_entries t)" "u \<in> set ts" "y \<in> set (tree_entries u)" for x y u
  proof -
    have "fst x < k" using ordered_bounds [of lo "Some k" t x] 2(2) that(1) by simp
    moreover from sepd_child [of ordered "Some k" hi ks ts u] 2(2) s that(2) obtain l h where
      "ordered l h u" "\<forall>j. le_opt l j \<longrightarrow> k \<le> j" by auto
    with ordered_bounds [of l h u y] that(3) have "k \<le> fst y" by blast
    ultimately show ?thesis by simp
  qed
  then show ?case using ih 2(2,4) by (auto simp: bm_ok_append)
qed auto

lemma ordered_sorted: "ordered lo hi t \<Longrightarrow> bm_ok (tree_entries t)"
proof (induction t arbitrary: lo hi)
  case (Nd i ks ts)
  then show ?case using forest_sorted [of lo hi ks ts] by auto
qed simp

text \<open>The child to which a key belongs, and what lies on either side of it.\<close>

lemma route:
  assumes "ordered lo hi (Nd i ks ts)" and "le_opt lo key" and "lt_opt key hi"
  defines "n \<equiv> partition_point (\<lambda>k. k \<le> key) ks"
  shows "n < length ts" "n \<le> length ks" "length (take n ts) = length (take n ks)"
    "ts = take n ts @ ts ! n # drop (Suc n) ts" "ks = take n ks @ drop n ks"
    "sepd_left ordered lo (take n ks) (take n ts)" "sepd_right ordered hi (drop n ks) (drop (Suc n) ts)"
    "ordered (lower lo (take n ks)) (upper hi (drop n ks)) (ts ! n)"
    "le_opt (lower lo (take n ks)) key" "lt_opt key (upper hi (drop n ks))"
    "\<And>e. e \<in> set (concat (map tree_entries (take n ts))) \<Longrightarrow> fst e < key"
    "\<And>e. e \<in> set (concat (map tree_entries (drop (Suc n) ts))) \<Longrightarrow> key < fst e"
proof -
  have s: "seps lo hi ks" and p: "sepd ordered lo hi ks ts" using assms(1) by simp_all
  have len: "length ts = Suc (length ks)" by (rule sepd_length [OF p])
  show n: "n \<le> length ks" by (simp add: n_def partition_point_def length_takeWhile_le)
  then show nt: "n < length ts" using len by simp
  then show l: "length (take n ts) = length (take n ks)" using n by simp
  show ts: "ts = take n ts @ ts ! n # drop (Suc n) ts" by (rule id_take_nth_drop [OF nt])
  show ks: "ks = take n ks @ drop n ks" by simp
  from p have "sepd ordered lo hi (take n ks @ drop n ks) (take n ts @ ts ! n # drop (Suc n) ts)"
    using ts by simp
  then have f: "sepd_left ordered lo (take n ks) (take n ts) \<and>
      ordered (lower lo (take n ks)) (upper hi (drop n ks)) (ts ! n) \<and> sepd_right ordered hi (drop n ks) (drop (Suc n) ts)"
    unfolding sepd_focus [OF l [symmetric]] .
  then show "sepd_left ordered lo (take n ks) (take n ts)" "sepd_right ordered hi (drop n ks) (drop (Suc n) ts)"
    "ordered (lower lo (take n ks)) (upper hi (drop n ks)) (ts ! n)" by blast+
  have take: "take n ks = takeWhile (\<lambda>k. k \<le> key) ks" and drop: "drop n ks = dropWhile (\<lambda>k. k \<le> key) ks"
    unfolding n_def partition_point_def by (simp_all add: takeWhile_eq_take [symmetric] dropWhile_eq_drop [symmetric])
  have low: "k \<le> key" if "k \<in> set (take n ks)" for k
    using that unfolding take by (rule set_takeWhileD [THEN conjunct2])
  have high: "key < k" if "k \<in> set (drop n ks)" for k
  proof -
    have "sorted (drop n ks)" using s by (simp add: seps_def)
    moreover have "drop n ks \<noteq> []" using that by auto
    then have "\<not> hd (drop n ks) \<le> key" unfolding drop by (rule hd_dropWhile)
    ultimately show ?thesis using that by (cases "drop n ks") fastforce+
  qed
  show "le_opt (lower lo (take n ks)) key" using low assms(2) by (auto simp: lower_def)
  show "lt_opt key (upper hi (drop n ks))" using high assms(3) by (auto simp: upper_def)
  show "fst e < key" if "e \<in> set (concat (map tree_entries (take n ts)))" for e
  proof -
    from that obtain t where t: "t \<in> set (take n ts)" "e \<in> set (tree_entries t)" by auto
    have b: "x < k" if "ordered l (Some k) u" "x \<in> fst ` set (tree_entries u)" for l k x and u :: "('a, 'b) tree"
      using ordered_bounds [OF that(1)] that(2) by auto
    show ?thesis
      using f sepd_left_below [of ordered lo "take n ks" "take n ts" "\<lambda>u. fst ` set (tree_entries u)" key t "fst e"] b low t
      by blast
  qed
  show "key < fst e" if "e \<in> set (concat (map tree_entries (drop (Suc n) ts)))" for e
  proof -
    from that obtain t where t: "t \<in> set (drop (Suc n) ts)" "e \<in> set (tree_entries t)" by auto
    have b: "k \<le> x" if "ordered (Some k) h u" "x \<in> fst ` set (tree_entries u)" for k h x and u :: "('a, 'b) tree"
      using ordered_bounds [OF that(1)] that(2) by auto
    show ?thesis
      using f sepd_right_above [of ordered hi "drop n ks" "drop (Suc n) ts" "\<lambda>u. fst ` set (tree_entries u)" key t "fst e"] b high t
      by blast
  qed
qed

lemma node_entries:
  "ts = a @ u # c \<Longrightarrow> tree_entries (Nd i ks ts) = concat (map tree_entries a) @ tree_entries u @ concat (map tree_entries c)"
  by (simp only: tree_entries.simps map_append concat_append list.map concat.simps)

section \<open>Entries\<close>

lemma bm_put_after: "(\<And>x. x \<in> set a \<Longrightarrow> fst x < k) \<Longrightarrow> bm_put k v (a @ b) = a @ bm_put k v b"
proof (induction a)
  case (Cons x a)
  have "fst x < k" using Cons.prems by simp
  then have "\<not> k < fst x" "k \<noteq> fst x" by auto
  with Cons show ?case by simp
qed simp

lemma bm_put_before: "(\<And>x. x \<in> set c \<Longrightarrow> k < fst x) \<Longrightarrow> bm_put k v (b @ c) = bm_put k v b @ c"
proof (induction b)
  case Nil
  then show ?case by (cases c) auto
qed auto

lemma bm_put_middle:
  "(\<And>x. x \<in> set a \<Longrightarrow> fst x < k) \<Longrightarrow> (\<And>x. x \<in> set c \<Longrightarrow> k < fst x) \<Longrightarrow>
     bm_put k v (a @ b @ c) = a @ bm_put k v b @ c"
  by (simp add: bm_put_after bm_put_before)

lemma bm_del_middle:
  "(\<And>x. x \<in> set a \<Longrightarrow> fst x < k) \<Longrightarrow> (\<And>x. x \<in> set c \<Longrightarrow> k < fst x) \<Longrightarrow>
     bm_del k (a @ b @ c) = a @ bm_del k b @ c"
proof -
  assume "\<And>x. x \<in> set a \<Longrightarrow> fst x < k" "\<And>x. x \<in> set c \<Longrightarrow> k < fst x"
  then have "filter (\<lambda>p. fst p \<noteq> k) a = a" "filter (\<lambda>p. fst p \<noteq> k) c = c" by (auto intro!: filter_True)
  then show ?thesis by (simp add: bm_del_def)
qed

lemma bm_get_middle:
  assumes "\<And>x. x \<in> set a \<Longrightarrow> fst x < k" "\<And>x. x \<in> set c \<Longrightarrow> k < fst x"
  shows "bm_get (a @ b @ c) k = bm_get b k"
proof -
  have "map_of a k = None" "map_of c k = None"
    using assms by (force simp: map_of_eq_None_iff)+
  then show ?thesis by (simp add: bm_get_def map_add_def split: option.splits)
qed

lemma bm_put_length: "length (bm_put k v m) \<le> Suc (length m)"
  by (induction m) auto

lemma bm_put_entries: "e \<in> set (bm_put k v m) \<Longrightarrow> e = (k, v) \<or> e \<in> set m"
  by (induction m) (auto split: if_splits)

lemma keys_below: "bm_ok es \<Longrightarrow> below (map fst es) k = length (takeWhile (\<lambda>e. fst e < k) es)"
  by (simp add: below_def takeWhile_map comp_def)

lemma leaf_search:
  assumes "bm_ok es"
  shows "(case binary_search (map fst es) key of Inl idx \<Rightarrow> Some (snd (es ! idx)) | Inr _ \<Rightarrow> None) = bm_get es key"
proof -
  let ?i = "below (map fst es) key"
  have st: "strict (map fst es)" using assms by (simp add: bm_ok_def)
  show ?thesis
  proof (cases "key \<in> set (map fst es)")
    case True
    have "binary_search (map fst es) key = Inl ?i" using binary_search_spec [OF st, of key] True by simp
    moreover have i: "?i < length es \<and> map fst es ! ?i = key"
      using calculation by (auto simp: binary_search_def Let_def split: if_splits)
    moreover have "(key, snd (es ! ?i)) \<in> set es" using i nth_mem [of ?i es] by (metis nth_map prod.collapse)
    then have "bm_get es key = Some (snd (es ! ?i))" using bm.entries_get [OF assms] by blast
    ultimately show ?thesis by simp
  next
    case False
    then have "bm_get es key = None" by (simp add: bm_get_def map_of_eq_None_iff)
    then show ?thesis using binary_search_spec [OF st, of key] False by simp
  qed
qed

lemma leaf_put:
  assumes "bm_ok es"
  shows "(case binary_search (map fst es) key of Inl idx \<Rightarrow> es[idx := (fst (es ! idx), value)]
      | Inr idx \<Rightarrow> insert_at idx (key, value) es) = bm_put key value es"
proof -
  let ?l = "takeWhile (\<lambda>e. fst e < key) es" and ?r = "dropWhile (\<lambda>e. fst e < key) es"
  have st: "strict (map fst es)" using assms by (simp add: bm_ok_def)
  have n: "below (map fst es) key = length ?l" by (rule keys_below [OF assms])
  have es: "es = ?l @ ?r" by simp
  have "bm_put key value (?l @ ?r) = ?l @ bm_put key value ?r"
    by (rule bm_put_after) (auto dest: set_takeWhileD)
  then have put: "bm_put key value es = ?l @ bm_put key value ?r" by simp
  show ?thesis
  proof (cases "?r \<noteq> [] \<and> fst (hd ?r) = key")
    case True
    then obtain v w where r: "?r = (key, v) # w" by (cases ?r) auto
    then have "key \<in> set (map fst es)" by (subst es) (simp del: takeWhile_dropWhile_id)
    then have "binary_search (map fst es) key = Inl (length ?l)" using binary_search_spec [OF st, of key] n by simp
    moreover have "es[length ?l := (fst (es ! length ?l), value)] = ?l @ (key, value) # w"
    proof -
      have "es = ?l @ (key, v) # w" using es r by simp
      then show ?thesis by (metis fst_conv list_update_length nth_append_length)
    qed
    ultimately show ?thesis using put r by simp
  next
    case False
    have above: "key < fst e" if e: "e \<in> set ?r" for e
    proof -
      obtain a w where r: "?r = a # w" by (rule list.set_cases [OF e]) blast+
      have "\<not> fst a < key" using hd_dropWhile [of "\<lambda>e. fst e < key" es] r by simp
      then have "key < fst a" using False r by auto
      moreover have "bm_ok ?r" using assms es bm_ok_append [of ?l ?r] by simp
      ultimately show ?thesis using that unfolding r bm_ok_def by (auto intro: less_trans)
    qed
    have "key \<notin> set (map fst es)"
    proof
      assume "key \<in> set (map fst es)"
      then obtain e where e: "e \<in> set es" "fst e = key" by auto
      then have "e \<in> set ?l \<or> e \<in> set ?r" by (metis Un_iff es set_append)
      then show False using above [of e] e(2) by (metis less_irrefl set_takeWhileD)
    qed
    then have "binary_search (map fst es) key = Inr (length ?l)" using binary_search_spec [OF st, of key] n by simp
    moreover have "insert_at (length ?l) (key, value) es = ?l @ (key, value) # ?r"
      unfolding insert_at_def by (simp add: takeWhile_eq_take [symmetric] dropWhile_eq_drop [symmetric])
    moreover have "bm_put key value ?r = (key, value) # ?r" using above bm_put_before [of ?r key "value" "[]"] by simp
    ultimately show ?thesis using put by simp
  qed
qed

lemma leaf_del:
  assumes "bm_ok es" and "binary_search (map fst es) key = Inl idx"
  shows "remove_at idx es = bm_del key es" and "bm_get es key = Some (snd (es ! idx))"
proof -
  show "bm_get es key = Some (snd (es ! idx))" using leaf_search [OF assms(1), of key] assms(2) by simp
  have i: "idx < length es" "fst (es ! idx) = key"
    using assms(2) by (auto simp: binary_search_def Let_def split: if_splits)
  have es: "es = take idx es @ es ! idx # drop (Suc idx) es" by (rule id_take_nth_drop [OF i(1)])
  have "bm_ok (take idx es @ [es ! idx] @ drop (Suc idx) es)" using assms(1) es by simp
  then have "bm_del key (take idx es @ [es ! idx] @ drop (Suc idx) es) = take idx es @ bm_del key [es ! idx] @ drop (Suc idx) es"
    using i(2) bm_ok_append [of "take idx es" "[es ! idx] @ drop (Suc idx) es"] bm_ok_append [of "[es ! idx]" "drop (Suc idx) es"]
    by (intro bm_del_middle) auto
  then show "remove_at idx es = bm_del key es"
    using es i(2) by (simp add: remove_at_def bm_del_def)
qed

lemma bm_del_missing: "bm_get m k = None \<Longrightarrow> bm_del k m = m"
  by (auto simp: bm_get_def bm_del_def map_of_eq_None_iff intro!: filter_True)

section \<open>Trees in the pages\<close>

fun stored :: "'k fixed_codec \<Rightarrow> 'v fixed_codec \<Rightarrow> pager \<Rightarrow> ('k, 'v) tree \<Rightarrow> bool" where
  "stored kc vc p (Lf i es) \<longleftrightarrow>
     node_type (page_at p i) = Ok LEAF \<and> leaf_decode kc vc (page_at p i) = Ok es \<and>
     length es \<le> leaf_capacity (page_size p) (fc_len kc) (fc_len vc)"
| "stored kc vc p (Nd i ks ts) \<longleftrightarrow>
     node_type (page_at p i) = Ok INTERNAL \<and> internal_decode kc (page_at p i) = Ok (ks, map root_id ts) \<and>
     length ks \<le> internal_capacity (page_size p) (fc_len kc) \<and> (\<forall>t \<in> set ts. stored kc vc p t)"

definition tree_at :: "'k::linorder fixed_codec \<Rightarrow> 'v fixed_codec \<Rightarrow> pager \<Rightarrow> nat set \<Rightarrow> 'k option \<Rightarrow> 'k option \<Rightarrow> ('k, 'v) tree \<Rightarrow> bool" where
  "tree_at kc vc p L lo hi t \<longleftrightarrow> stored kc vc p t \<and> ordered lo hi t \<and> distinct (tree_ids t) \<and> set (tree_ids t) \<subseteq> L"

definition fits :: "'k fixed_codec \<Rightarrow> 'v fixed_codec \<Rightarrow> nat \<Rightarrow> bool" where
  "fits kc vc ps \<longleftrightarrow> 1 \<le> leaf_capacity ps (fc_len kc) (fc_len vc) \<and> 1 \<le> internal_capacity ps (fc_len kc) \<and>
     ps \<le> 65536"

lemma stored_kept: "stored kc vc p t \<Longrightarrow> kept p p' S \<Longrightarrow> set (tree_ids t) \<subseteq> S \<Longrightarrow> stored kc vc p' t"
proof (induction t)
  case (Nd i ks ts)
  have "set (tree_ids t) \<subseteq> S" if "t \<in> set ts" for t using Nd.prems(3) that by auto
  with Nd show ?case by (simp add: kept_def)
qed (simp add: kept_def)

lemma tree_at_kept: "tree_at kc vc p L lo hi t \<Longrightarrow> kept p p' L \<Longrightarrow> L \<subseteq> L' \<Longrightarrow> tree_at kc vc p' L' lo hi t"
  using stored_kept by (auto simp: tree_at_def)

lemma fits_sizes: "fits kc vc ps \<Longrightarrow> 7 \<le> ps"
  by (auto simp: fits_def internal_capacity_def node_consts Let_def split: if_splits)

lemma node_ids: "distinct (concat (map f xs)) \<Longrightarrow> x \<in> set xs \<Longrightarrow> distinct (f x)"
  by (induction xs) auto

lemma tree_at_child:
  "tree_at kc vc p L lo hi (Nd i ks ts) \<Longrightarrow> n < length ts \<Longrightarrow> ordered l h (ts ! n) \<Longrightarrow> tree_at kc vc p L l h (ts ! n)"
  using node_ids [of tree_ids ts "ts ! n"] nth_mem [of n ts] unfolding tree_at_def by (auto, blast)

text \<open>What an update of a subtree leaves: the entries \<open>m\<close> on pages \<open>S\<close>, in one tree or in two.\<close>

primrec outcome_ok ::
  "'k::linorder fixed_codec \<Rightarrow> 'v fixed_codec \<Rightarrow> pager \<Rightarrow> 'k option \<Rightarrow> 'k option \<Rightarrow> ('k \<times> 'v) list \<Rightarrow> nat \<Rightarrow> nat set \<Rightarrow>
   'k insert_outcome \<Rightarrow> bool" where
  "outcome_ok kc vc p lo hi m h S (Replaced i) \<longleftrightarrow>
     (\<exists>t. root_id t = i \<and> tree_at kc vc p S lo hi t \<and> set (tree_ids t) = S \<and> tree_entries t = m \<and> tree_height t \<le> h)"
| "outcome_ok kc vc p lo hi m h S (Split l s r) \<longleftrightarrow>
     (\<exists>t u. root_id t = l \<and> root_id u = r \<and> tree_at kc vc p S lo (Some s) t \<and> tree_at kc vc p S (Some s) hi u \<and>
        distinct (tree_ids t @ tree_ids u) \<and> set (tree_ids t) \<union> set (tree_ids u) = S \<and>
        tree_entries t @ tree_entries u = m \<and> tree_height t \<le> h \<and> tree_height u \<le> h \<and> le_opt lo s \<and> ge_opt s hi)"

lemma outcome_ok_mono: "outcome_ok kc vc p lo hi m h S out \<Longrightarrow> h \<le> h' \<Longrightarrow> outcome_ok kc vc p lo hi m h' S out"
proof -
  assume ok: "outcome_ok kc vc p lo hi m h S out" and le: "h \<le> h'"
  show "outcome_ok kc vc p lo hi m h' S out"
  proof (cases out)
    case (Replaced i)
    with ok obtain t where "root_id t = i" "tree_at kc vc p S lo hi t" "set (tree_ids t) = S" "tree_entries t = m" "tree_height t \<le> h"
      by auto
    then show ?thesis using le unfolding Replaced outcome_ok.simps by (intro exI [of _ t]) simp
  next
    case (Split l s r)
    with ok obtain t u where "root_id t = l" "root_id u = r" "tree_at kc vc p S lo (Some s) t" "tree_at kc vc p S (Some s) hi u"
      "distinct (tree_ids t @ tree_ids u)" "set (tree_ids t) \<union> set (tree_ids u) = S"
      "tree_entries t @ tree_entries u = m" "tree_height t \<le> h" "tree_height u \<le> h" "le_opt lo s" "ge_opt s hi"
      unfolding Split outcome_ok.simps by (elim exE conjE)
    then show ?thesis using le unfolding Split outcome_ok.simps by (intro exI [of _ t] exI [of _ u]) simp
  qed
qed

definition forest_at ::
  "'k::linorder fixed_codec \<Rightarrow> 'v fixed_codec \<Rightarrow> pager \<Rightarrow> nat set \<Rightarrow> 'k option \<Rightarrow> 'k option \<Rightarrow> 'k list \<Rightarrow> ('k, 'v) tree list \<Rightarrow> bool" where
  "forest_at kc vc p S lo hi ks ts \<longleftrightarrow> sepd ordered lo hi ks ts \<and> seps lo hi ks \<and> (\<forall>t \<in> set ts. stored kc vc p t) \<and>
     distinct (concat (map tree_ids ts)) \<and> set (concat (map tree_ids ts)) = S"

lemma forest_kept:
  assumes "forest_at kc vc p S lo hi ks ts" "kept p p' L" "S \<subseteq> L"
  shows "forest_at kc vc p' S lo hi ks ts"
proof -
  have "stored kc vc p' t" if t: "t \<in> set ts" for t
  proof (rule stored_kept [OF _ assms(2)])
    show "stored kc vc p t" using assms(1) t by (simp add: forest_at_def)
    show "set (tree_ids t) \<subseteq> L" using assms(1,3) t by (auto simp: forest_at_def)
  qed
  then show ?thesis using assms(1) by (simp add: forest_at_def)
qed

lemma forest_split:
  assumes "forest_at kc vc p S lo hi ks ts" "mid < length ks"
  shows "\<exists>S1 S2. forest_at kc vc p S1 lo (Some (ks ! mid)) (take mid ks) (take (mid + 1) ts) \<and>
    forest_at kc vc p S2 (Some (ks ! mid)) hi (drop (mid + 1) ks) (drop (mid + 1) ts) \<and> S1 \<union> S2 = S \<and> S1 \<inter> S2 = {} \<and>
    le_opt lo (ks ! mid) \<and> ge_opt (ks ! mid) hi"
proof -
  let ?ks1 = "take mid ks" and ?ks2 = "drop (mid + 1) ks" and ?ts1 = "take (mid + 1) ts" and ?ts2 = "drop (mid + 1) ts"
  have ks: "?ks1 @ ks ! mid # ?ks2 = ks" using id_take_nth_drop [OF assms(2)] by simp
  have ts: "?ts1 @ ?ts2 = ts" by simp
  have p: "sepd ordered lo hi ks ts" and s: "seps lo hi ks" and d: "distinct (concat (map tree_ids ts))"
    and ids: "set (concat (map tree_ids ts)) = S" and st: "\<forall>t \<in> set ts. stored kc vc p t"
    using assms(1) by (simp_all add: forest_at_def)
  have len: "length ?ts1 = Suc (length ?ks1)" using sepd_length [OF p] assms(2) by simp
  have halves: "sepd ordered lo (Some (ks ! mid)) ?ks1 ?ts1" "sepd ordered (Some (ks ! mid)) hi ?ks2 ?ts2"
    using sepd_append [OF len, of ordered lo hi "ks ! mid" ?ks2 ?ts2] p unfolding ks ts by blast+
  have "seps lo hi (?ks1 @ ks ! mid # ?ks2)" using s unfolding ks .
  then have s': "seps lo (Some (ks ! mid)) ?ks1" "seps (Some (ks ! mid)) hi ?ks2" "le_opt lo (ks ! mid)" "ge_opt (ks ! mid) hi"
    by (auto simp: seps_def sorted_append)
  have app: "concat (map tree_ids ts) = concat (map tree_ids ?ts1) @ concat (map tree_ids ?ts2)"
    by (metis concat_append map_append ts)
  have st': "\<forall>t \<in> set ?ts1. stored kc vc p t" "\<forall>t \<in> set ?ts2. stored kc vc p t"
    using st by (meson in_set_takeD in_set_dropD)+
  have "forest_at kc vc p (set (concat (map tree_ids ?ts1))) lo (Some (ks ! mid)) ?ks1 ?ts1"
    "forest_at kc vc p (set (concat (map tree_ids ?ts2))) (Some (ks ! mid)) hi ?ks2 ?ts2"
    unfolding forest_at_def using halves s' st' d app by simp_all
  moreover have "set (concat (map tree_ids ?ts1)) \<union> set (concat (map tree_ids ?ts2)) = S" using ids app by simp
  moreover have "set (concat (map tree_ids ?ts1)) \<inter> set (concat (map tree_ids ?ts2)) = {}" using d app by simp
  ultimately show ?thesis using s'(3,4) by blast
qed

section \<open>Writing nodes\<close>

context node_codec
begin

lemma items_ok: "read_n n (item_reader kc) buf p = Ok (xs, q) \<Longrightarrow> list_all kok xs \<and> length xs = n"
proof (induction n arbitrary: p xs)
  case (Suc n)
  then obtain x r ys where x: "item_reader kc buf p = Ok (x, r)" "read_n n (item_reader kc) buf r = Ok (ys, q)" "xs = x # ys"
    by (auto simp: obind_eq_Ok)
  then obtain bs where bs: "slice buf p (p + fc_len kc) = Ok bs" "fc_dec kc bs = Ok x"
    by (auto simp: item_reader_def obind_eq_Ok)
  have "length bs = fc_len kc" using slice_Ok_length [OF bs(1)] by simp
  from key.dec_total [OF this] bs(2) have "kok x" by auto
  with Suc.IH [OF x(2)] x(3) show ?case by simp
qed simp

lemma leaf_entries_ok: "leaf_decode kc vc buf = Ok es \<Longrightarrow> entries_ok es"
proof -
  have "read_n n (entry_reader kc vc) buf p = Ok (xs, q) \<Longrightarrow> entries_ok xs" for n p xs q
  proof (induction n arbitrary: p xs)
    case 0
    then show ?case by (simp add: entries_ok_def)
  next
    case (Suc n)
    then obtain e s ys where e: "entry_reader kc vc buf p = Ok (e, s)" "read_n n (entry_reader kc vc) buf s = Ok (ys, q)" "xs = e # ys"
      by (auto simp: obind_eq_Ok)
    obtain k v r where x: "item_reader kc buf p = Ok (k, r)" "item_reader vc buf r = Ok (v, s)"
      "read_n n (entry_reader kc vc) buf s = Ok (ys, q)" "xs = (k, v) # ys"
      using e by (auto simp: obind_eq_Ok entry_reader_def)
    obtain bs cs where bs: "slice buf p (p + fc_len kc) = Ok bs" "fc_dec kc bs = Ok k"
      "slice buf r (r + fc_len vc) = Ok cs" "fc_dec vc cs = Ok v"
      using x(1,2) by (auto simp: item_reader_def obind_eq_Ok)
    have "length bs = fc_len kc" "length cs = fc_len vc" using slice_Ok_length [OF bs(1)] slice_Ok_length [OF bs(3)] by simp_all
    with key.dec_total [of bs] val.dec_total [of cs] bs have "kok k" "vok v" by auto
    with Suc.IH [OF x(3)] x(4) show ?case by (simp add: entries_ok_def)
  qed
  then show "leaf_decode kc vc buf = Ok es \<Longrightarrow> entries_ok es"
    by (auto simp: leaf_decode_def obind_eq_Ok Let_def split: if_splits)
qed

lemma internal_keys_ok: "internal_decode kc buf = Ok (ks, cs) \<Longrightarrow> list_all kok ks"
  using items_ok by (auto simp: internal_decode_def obind_eq_Ok Let_def split: if_splits)

lemma leaf_page:
  assumes "fits kc vc ps" "entries_ok es" "length es \<le> leaf_capacity ps (fc_len kc) (fc_len vc)"
  shows "\<exists>bs. encode_leaf kc vc es ps = Ok bs \<and> length bs = ps \<and> node_type bs = Ok LEAF \<and> leaf_decode kc vc bs = Ok es"
proof (rule leaf_round_trip [OF assms(2,3)])
  have "leaf_capacity ps (fc_len kc) (fc_len vc) \<le> ps - 3" by (simp add: leaf_capacity_def node_consts)
  moreover have "ps \<le> 65536" using assms(1) by (simp add: fits_def)
  ultimately show "length es \<le> u16_max" using assms(3) by linarith
  show "3 \<le> ps" using fits_sizes [OF assms(1)] by simp
qed

lemma internal_page:
  assumes "fits kc vc ps" "list_all kok ks" "length ks \<le> internal_capacity ps (fc_len kc)"
    and "\<forall>c \<in> set cs. c \<le> u32_max" "length cs = Suc (length ks)"
  shows "\<exists>bs. encode_internal kc ks cs ps = Ok bs \<and> length bs = ps \<and> node_type bs = Ok INTERNAL \<and>
    internal_decode kc bs = Ok (ks, cs)"
proof (rule internal_round_trip [OF assms(2) _ assms(5,3)])
  have "internal_capacity ps (fc_len kc) \<le> ps - 7"
    by (auto simp: internal_capacity_def node_consts Let_def intro: order_trans [OF div_le_dividend])
  moreover have "ps \<le> 65536" using assms(1) by (simp add: fits_def)
  ultimately show "length ks \<le> u16_max" using assms(3) by linarith
  show "7 \<le> ps" by (rule fits_sizes [OF assms(1)])
  show "list_all (\<lambda>c. c \<le> u32_max) cs" using assms(4) by (simp add: list_all_iff)
qed

text \<open>Writing one new node, and writing two.\<close>

lemma write_one:
  assumes "pager_rep os (bt_pager b) L" "page_count (bt_pager b) < u32_max"
    and "enc (page_size (bt_pager b)) = Ok bs" "length bs = page_size (bt_pager b)"
  shows "\<exists>p1 q p2. bt_alloc os b = Ok (b\<lparr> bt_pager := p1 \<rparr>, q) \<and> bt_fill q enc (b\<lparr> bt_pager := p1 \<rparr>) = Ok (b\<lparr> bt_pager := p2 \<rparr>) \<and>
    q \<notin> L \<and> pager_rep os p2 (insert q L) \<and> kept (bt_pager b) p2 L \<and> page_at p2 q = bs \<and>
    page_count p2 \<le> Suc (page_count (bt_pager b))"
  using pages.new_page [where p = "bt_pager b" and enc = enc, OF assms] by (auto simp: bt_alloc_def bt_fill_def)

lemma write_two:
  assumes "pager_rep os (bt_pager b) L" "Suc (page_count (bt_pager b)) < u32_max"
    and "enc1 (page_size (bt_pager b)) = Ok bs1" "length bs1 = page_size (bt_pager b)"
    and "enc2 (page_size (bt_pager b)) = Ok bs2" "length bs2 = page_size (bt_pager b)"
  shows "\<exists>p1 q p2 r p3 p4. bt_alloc os b = Ok (b\<lparr> bt_pager := p1 \<rparr>, q) \<and>
    bt_alloc os (b\<lparr> bt_pager := p1 \<rparr>) = Ok (b\<lparr> bt_pager := p2 \<rparr>, r) \<and>
    bt_fill q enc1 (b\<lparr> bt_pager := p2 \<rparr>) = Ok (b\<lparr> bt_pager := p3 \<rparr>) \<and>
    bt_fill r enc2 (b\<lparr> bt_pager := p3 \<rparr>) = Ok (b\<lparr> bt_pager := p4 \<rparr>) \<and> q \<notin> L \<and> r \<notin> L \<and> q \<noteq> r \<and>
    pager_rep os p4 (insert q (insert r L)) \<and> kept (bt_pager b) p4 L \<and> page_at p4 q = bs1 \<and> page_at p4 r = bs2 \<and>
    page_count p4 \<le> page_count (bt_pager b) + 2"
proof -
  from pages.two_new_pages [where p = "bt_pager b" and ?enc1.0 = enc1 and ?enc2.0 = enc2, OF assms] obtain p1 q p2 r p4 p' where
    "allocate_page os (bt_pager b) = Ok (p1, q)" "allocate_page os p1 = Ok (p2, r)" "fill_page q enc1 p2 = Ok p'"
    "fill_page r enc2 p' = Ok p4" "q \<notin> L" "r \<notin> insert q L" "pager_rep os p4 (insert q (insert r L))"
    "kept (bt_pager b) p4 L" "page_at p4 q = bs1" "page_at p4 r = bs2" "page_count p4 \<le> Suc (Suc (page_count (bt_pager b)))"
    by (metis insertCI)
  then show ?thesis
    by (intro exI [of _ p1] exI [of _ q] exI [of _ p2] exI [of _ r] exI [of _ p'] exI [of _ p4])
      (auto simp: bt_alloc_def bt_fill_def)
qed

lemma insert_leaf_spec:
  assumes rep: "pager_rep os (bt_pager b) L" and fits: "fits kc vc (page_size (bt_pager b))"
    and room: "page_count (bt_pager b) + 2 < u32_max" and es: "entries_ok es" "bm_ok es"
    and bounds: "\<forall>e \<in> set es. le_opt lo (fst e) \<and> lt_opt (fst e) hi"
    and len: "length es \<le> Suc (leaf_capacity (page_size (bt_pager b)) (fc_len kc) (fc_len vc))"
  shows "\<exists>p' L' out. insert_leaf os kc vc i es b = Ok (\<lparr> bt_pager = p', pending_free = pending_free b @ [i] \<rparr>, out) \<and>
    pager_rep os p' L' \<and> L \<subseteq> L' \<and> kept (bt_pager b) p' L \<and> page_count p' \<le> page_count (bt_pager b) + 2 \<and>
    outcome_ok kc vc p' lo hi es 1 (L' - L) out \<and> (\<forall>l s r. out = Split l s r \<longrightarrow> kok s)"
proof (cases "length es \<le> leaf_capacity (page_size (bt_pager b)) (fc_len kc) (fc_len vc)")
  case True
  obtain bs where bs: "encode_leaf kc vc es (page_size (bt_pager b)) = Ok bs" "length bs = page_size (bt_pager b)"
    "node_type bs = Ok LEAF" "leaf_decode kc vc bs = Ok es" using leaf_page [OF fits es(1) True] by blast
  from write_one [of os b L "encode_leaf kc vc es", OF rep _ bs(1,2)] room obtain p1 q p2 where
    w: "bt_alloc os b = Ok (b\<lparr> bt_pager := p1 \<rparr>, q)" "bt_fill q (encode_leaf kc vc es) (b\<lparr> bt_pager := p1 \<rparr>) = Ok (b\<lparr> bt_pager := p2 \<rparr>)"
      "q \<notin> L" "pager_rep os p2 (insert q L)" "kept (bt_pager b) p2 L" "page_at p2 q = bs"
      "page_count p2 \<le> Suc (page_count (bt_pager b))" by auto
  have "page_size p2 = page_size (bt_pager b)" using w(5) by (simp add: kept_def)
  then have "tree_at kc vc p2 {q} lo hi (Lf q es)"
    using bs(3,4) w(6) True es(2) bounds by (simp add: tree_at_def)
  moreover have "insert q L - L = {q}" using w(3) by auto
  ultimately have "outcome_ok kc vc p2 lo hi es 1 (insert q L - L) (Replaced q)"
    by (auto intro: exI [of _ "Lf q es"])
  moreover have "insert_leaf os kc vc i es b = Ok (\<lparr> bt_pager = p2, pending_free = pending_free b @ [i] \<rparr>, Replaced q)"
    using True w(1,2) by (simp add: insert_leaf_def tree_leaf_capacity_def bt_replace_def)
  ultimately show ?thesis using w by (intro exI [of _ p2] exI [of _ "insert q L"] exI [of _ "Replaced q"]) auto
next
  case False
  define mid where "mid = length es div 2"
  let ?cap = "leaf_capacity (page_size (bt_pager b)) (fc_len kc) (fc_len vc)"
  have "1 \<le> ?cap" using fits by (simp add: fits_def)
  then have mid: "1 \<le> mid" "mid < length es" "length (take mid es) \<le> ?cap" "length (drop mid es) \<le> ?cap"
    using False len unfolding mid_def by auto
  have parts: "es = take mid es @ drop mid es" by simp
  have ok: "entries_ok (take mid es)" "entries_ok (drop mid es)"
    using es(1) by (auto simp: entries_ok_def list_all_iff dest: in_set_takeD in_set_dropD)
  obtain k v rest where r: "drop mid es = (k, v) # rest"
    using mid(2) by (cases "drop mid es") auto
  have kok: "kok k" using ok(2) by (simp add: r entries_ok_def)
  have sorted: "bm_ok (take mid es)" "bm_ok (drop mid es)" "\<forall>x \<in> set (take mid es). \<forall>y \<in> set (drop mid es). fst x < fst y"
    using es(2) bm_ok_append [of "take mid es" "drop mid es"] by simp_all
  have kin: "(k, v) \<in> set es" by (metis r in_set_dropD list.set_intros(1))
  have left: "\<forall>e \<in> set (take mid es). le_opt lo (fst e) \<and> lt_opt (fst e) (Some k)"
    using bounds sorted(3) r by (auto dest: in_set_takeD)
  have right: "\<forall>e \<in> set (drop mid es). le_opt (Some k) (fst e) \<and> lt_opt (fst e) hi"
  proof
    fix e assume e: "e \<in> set (drop mid es)"
    have "k \<le> fst e" using e sorted(2) unfolding r by (auto simp: bm_ok_def intro: less_imp_le)
    moreover have "lt_opt (fst e) hi" using bounds in_set_dropD [OF e] by blast
    ultimately show "le_opt (Some k) (fst e) \<and> lt_opt (fst e) hi" by simp
  qed
  obtain bs1 bs2 where bs: "encode_leaf kc vc (drop mid es) (page_size (bt_pager b)) = Ok bs1" "length bs1 = page_size (bt_pager b)"
    "node_type bs1 = Ok LEAF" "leaf_decode kc vc bs1 = Ok (drop mid es)"
    "encode_leaf kc vc (take mid es) (page_size (bt_pager b)) = Ok bs2" "length bs2 = page_size (bt_pager b)"
    "node_type bs2 = Ok LEAF" "leaf_decode kc vc bs2 = Ok (take mid es)"
    using leaf_page [OF fits ok(2) mid(4)] leaf_page [OF fits ok(1) mid(3)] by blast
  from write_two [of os b L "encode_leaf kc vc (drop mid es)" bs1 "encode_leaf kc vc (take mid es)" bs2, OF rep _ bs(1,2,5,6)] room
  obtain p1 q p2 r' p3 p4 where w: "bt_alloc os b = Ok (b\<lparr> bt_pager := p1 \<rparr>, q)"
    "bt_alloc os (b\<lparr> bt_pager := p1 \<rparr>) = Ok (b\<lparr> bt_pager := p2 \<rparr>, r')"
    "bt_fill q (encode_leaf kc vc (drop mid es)) (b\<lparr> bt_pager := p2 \<rparr>) = Ok (b\<lparr> bt_pager := p3 \<rparr>)"
    "bt_fill r' (encode_leaf kc vc (take mid es)) (b\<lparr> bt_pager := p3 \<rparr>) = Ok (b\<lparr> bt_pager := p4 \<rparr>)"
    "q \<notin> L" "r' \<notin> L" "q \<noteq> r'" "pager_rep os p4 (insert q (insert r' L))" "kept (bt_pager b) p4 L"
    "page_at p4 q = bs1" "page_at p4 r' = bs2" "page_count p4 \<le> page_count (bt_pager b) + 2" by auto
  have s: "page_size p4 = page_size (bt_pager b)" using w(9) by (simp add: kept_def)
  have S: "insert q (insert r' L) - L = {q, r'}" using w(5-7) by auto
  have "tree_at kc vc p4 {q, r'} lo (Some k) (Lf r' (take mid es))"
    using bs(7,8) w(11) mid(3) sorted(1) left s by (simp add: tree_at_def)
  moreover have "tree_at kc vc p4 {q, r'} (Some k) hi (Lf q (drop mid es))"
    using bs(3,4) w(10) mid(4) sorted(2) right s by (simp add: tree_at_def)
  moreover have "le_opt lo k" "ge_opt k hi" using bounds kin lt_ge_opt by fastforce+
  ultimately have "outcome_ok kc vc p4 lo hi es 1 (insert q (insert r' L) - L) (Split r' k q)"
    unfolding S outcome_ok.simps using w(7) parts
    by (intro exI [of _ "Lf r' (take mid es)"] exI [of _ "Lf q (drop mid es)"]) auto
  moreover have "insert_leaf os kc vc i es b = Ok (\<lparr> bt_pager = p4, pending_free = pending_free b @ [i] \<rparr>, Split r' k q)"
    using False w(1-4) r by (simp add: insert_leaf_def tree_leaf_capacity_def bt_replace_def Let_def mid_def [symmetric])
  ultimately show ?thesis
    using w kok by (intro exI [of _ p4] exI [of _ "insert q (insert r' L)"] exI [of _ "Split r' k q"]) auto
qed

end

section \<open>Insertion\<close>

context node_codec
begin

text \<open>A forest becomes one node, or two.\<close>

lemma write_node:
  assumes rep: "pager_rep os (bt_pager b) L" and fits: "fits kc vc (page_size (bt_pager b))"
    and room: "page_count (bt_pager b) < u32_max"
    and forest: "forest_at kc vc (bt_pager b) S lo hi ks ts" "S \<subseteq> L" "list_all kok ks"
    and len: "length ks \<le> internal_capacity (page_size (bt_pager b)) (fc_len kc)"
    and h: "\<forall>t \<in> set ts. tree_height t \<le> h"
  shows "\<exists>p1 q p2. bt_alloc os b = Ok (b\<lparr> bt_pager := p1 \<rparr>, q) \<and>
    bt_fill q (encode_internal kc ks (map root_id ts)) (b\<lparr> bt_pager := p1 \<rparr>) = Ok (b\<lparr> bt_pager := p2 \<rparr>) \<and>
    q \<notin> L \<and> pager_rep os p2 (insert q L) \<and> kept (bt_pager b) p2 L \<and> page_count p2 \<le> Suc (page_count (bt_pager b)) \<and>
    outcome_ok kc vc p2 lo hi (concat (map tree_entries ts)) (Suc h) (insert q S) (Replaced q)"
proof -
  have f: "sepd ordered lo hi ks ts" "seps lo hi ks" "distinct (concat (map tree_ids ts))" "set (concat (map tree_ids ts)) = S"
    using forest(1) by (simp_all add: forest_at_def)
  have cs: "\<forall>c \<in> set (map root_id ts). c \<le> u32_max"
  proof
    fix c assume "c \<in> set (map root_id ts)"
    then obtain t where "t \<in> set ts" "c = root_id t" by auto
    then have "c \<in> L" using root_in_ids [of t] f(4) forest(2) by auto
    then show "c \<le> u32_max" using rep_pages [OF rep] by blast
  qed
  have "length (map root_id ts) = Suc (length ks)" using sepd_length [OF f(1)] by simp
  from internal_page [OF fits forest(3) len cs this] obtain bs where
    bs: "encode_internal kc ks (map root_id ts) (page_size (bt_pager b)) = Ok bs" "length bs = page_size (bt_pager b)"
      "node_type bs = Ok INTERNAL" "internal_decode kc bs = Ok (ks, map root_id ts)" by blast
  from write_one [of os b L "encode_internal kc ks (map root_id ts)", OF rep room bs(1,2)] obtain p1 q p2 where
    w: "bt_alloc os b = Ok (b\<lparr> bt_pager := p1 \<rparr>, q)"
      "bt_fill q (encode_internal kc ks (map root_id ts)) (b\<lparr> bt_pager := p1 \<rparr>) = Ok (b\<lparr> bt_pager := p2 \<rparr>)"
      "q \<notin> L" "pager_rep os p2 (insert q L)" "kept (bt_pager b) p2 L" "page_at p2 q = bs"
      "page_count p2 \<le> Suc (page_count (bt_pager b))" by blast
  have st: "\<forall>t \<in> set ts. stored kc vc p2 t"
    using forest_kept [OF forest(1) w(5) forest(2)] by (simp add: forest_at_def)
  have "page_size p2 = page_size (bt_pager b)" using w(5) by (simp add: kept_def)
  then have "stored kc vc p2 (Nd q ks ts)" using bs(3,4) w(6) len st by simp
  moreover have "q \<notin> S" using w(3) forest(2) by blast
  ultimately have "tree_at kc vc p2 (insert q S) lo hi (Nd q ks ts)"
    using f by (auto simp: tree_at_def)
  moreover have "tree_height (Nd q ks ts) \<le> Suc h" by (rule node_height) (use h in blast)
  ultimately have "outcome_ok kc vc p2 lo hi (concat (map tree_entries ts)) (Suc h) (insert q S) (Replaced q)"
    using f(4) unfolding outcome_ok.simps by (intro exI [of _ "Nd q ks ts"]) simp
  with w show ?thesis by blast
qed

lemma write_split:
  assumes rep: "pager_rep os (bt_pager b) L" and fits: "fits kc vc (page_size (bt_pager b))"
    and room: "page_count (bt_pager b) + 2 < u32_max"
    and forest: "forest_at kc vc (bt_pager b) S lo hi ks ts" "S \<subseteq> L" "list_all kok ks"
    and len: "internal_capacity (page_size (bt_pager b)) (fc_len kc) < length ks"
      "length ks \<le> Suc (internal_capacity (page_size (bt_pager b)) (fc_len kc))"
    and h: "\<forall>t \<in> set ts. tree_height t \<le> h"
  defines "mid \<equiv> length ks div 2"
  shows "\<exists>p1 q p2 r p3 p4. bt_alloc os b = Ok (b\<lparr> bt_pager := p1 \<rparr>, q) \<and>
    bt_alloc os (b\<lparr> bt_pager := p1 \<rparr>) = Ok (b\<lparr> bt_pager := p2 \<rparr>, r) \<and>
    bt_fill q (encode_internal kc (take mid ks) (map root_id (take (mid + 1) ts))) (b\<lparr> bt_pager := p2 \<rparr>) = Ok (b\<lparr> bt_pager := p3 \<rparr>) \<and>
    bt_fill r (encode_internal kc (drop (mid + 1) ks) (map root_id (drop (mid + 1) ts))) (b\<lparr> bt_pager := p3 \<rparr>) = Ok (b\<lparr> bt_pager := p4 \<rparr>) \<and>
    q \<notin> L \<and> r \<notin> L \<and> q \<noteq> r \<and> pager_rep os p4 (insert q (insert r L)) \<and> kept (bt_pager b) p4 L \<and>
    page_count p4 \<le> page_count (bt_pager b) + 2 \<and> mid < length ks \<and>
    outcome_ok kc vc p4 lo hi (concat (map tree_entries ts)) (Suc h) (insert q (insert r S)) (Split q (ks ! mid) r)"
proof -
  let ?ks1 = "take mid ks" and ?ks2 = "drop (mid + 1) ks" and ?ts1 = "take (mid + 1) ts" and ?ts2 = "drop (mid + 1) ts"
  have "1 \<le> internal_capacity (page_size (bt_pager b)) (fc_len kc)" using fits by (simp add: fits_def)
  then have mid: "mid < length ks" and caps: "length ?ks1 \<le> internal_capacity (page_size (bt_pager b)) (fc_len kc)"
    "length ?ks2 \<le> internal_capacity (page_size (bt_pager b)) (fc_len kc)"
    using len unfolding mid_def by auto
  from forest_split [OF forest(1) mid] obtain S1 S2 where
    f1: "forest_at kc vc (bt_pager b) S1 lo (Some (ks ! mid)) ?ks1 ?ts1" and
    f2: "forest_at kc vc (bt_pager b) S2 (Some (ks ! mid)) hi ?ks2 ?ts2" and
    S: "S1 \<union> S2 = S" "S1 \<inter> S2 = {}" and sep: "le_opt lo (ks ! mid)" "ge_opt (ks ! mid) hi" by blast
  have kok: "list_all kok ?ks1" "list_all kok ?ks2"
    using forest(3) by (auto simp: list_all_iff dest: in_set_takeD in_set_dropD)
  have bound: "\<forall>c \<in> set (map root_id us). c \<le> u32_max" if "forest_at kc vc (bt_pager b) T l u ks' us" "T \<subseteq> L" for T l u ks' us
  proof
    fix c assume "c \<in> set (map root_id us)"
    then obtain t where "t \<in> set us" "c = root_id t" by auto
    then have "c \<in> L" using root_in_ids [of t] that by (auto simp: forest_at_def)
    then show "c \<le> u32_max" using rep_pages [OF rep] by blast
  qed
  have sub: "S1 \<subseteq> L" "S2 \<subseteq> L" using S forest(2) by blast+
  have l1: "length (map root_id ?ts1) = Suc (length ?ks1)" "length (map root_id ?ts2) = Suc (length ?ks2)"
    using f1 f2 sepd_length [of ordered lo "Some (ks ! mid)" ?ks1 ?ts1] sepd_length [of ordered "Some (ks ! mid)" hi ?ks2 ?ts2]
    by (simp_all only: forest_at_def length_map)
  obtain bs1 bs2 where
    bs1: "encode_internal kc ?ks1 (map root_id ?ts1) (page_size (bt_pager b)) = Ok bs1" "length bs1 = page_size (bt_pager b)"
      "node_type bs1 = Ok INTERNAL" "internal_decode kc bs1 = Ok (?ks1, map root_id ?ts1)" and
    bs2: "encode_internal kc ?ks2 (map root_id ?ts2) (page_size (bt_pager b)) = Ok bs2" "length bs2 = page_size (bt_pager b)"
      "node_type bs2 = Ok INTERNAL" "internal_decode kc bs2 = Ok (?ks2, map root_id ?ts2)"
    using internal_page [OF fits kok(1) caps(1) bound [OF f1 sub(1)] l1(1)]
      internal_page [OF fits kok(2) caps(2) bound [OF f2 sub(2)] l1(2)] by blast
  have "Suc (page_count (bt_pager b)) < u32_max" using room by simp
  from write_two [of os b L "encode_internal kc ?ks1 (map root_id ?ts1)" bs1 "encode_internal kc ?ks2 (map root_id ?ts2)" bs2,
      OF rep this bs1(1,2) bs2(1,2)]
  obtain p1 q p2 r p3 p4 where w: "bt_alloc os b = Ok (b\<lparr> bt_pager := p1 \<rparr>, q)"
    "bt_alloc os (b\<lparr> bt_pager := p1 \<rparr>) = Ok (b\<lparr> bt_pager := p2 \<rparr>, r)"
    "bt_fill q (encode_internal kc ?ks1 (map root_id ?ts1)) (b\<lparr> bt_pager := p2 \<rparr>) = Ok (b\<lparr> bt_pager := p3 \<rparr>)"
    "bt_fill r (encode_internal kc ?ks2 (map root_id ?ts2)) (b\<lparr> bt_pager := p3 \<rparr>) = Ok (b\<lparr> bt_pager := p4 \<rparr>)"
    "q \<notin> L" "r \<notin> L" "q \<noteq> r" "pager_rep os p4 (insert q (insert r L))" "kept (bt_pager b) p4 L"
    "page_at p4 q = bs1" "page_at p4 r = bs2" "page_count p4 \<le> page_count (bt_pager b) + 2" by blast
  have s: "page_size p4 = page_size (bt_pager b)" using w(9) by (simp add: kept_def)
  note g1 = forest_kept [OF f1 w(9) sub(1)] and g2 = forest_kept [OF f2 w(9) sub(2)]
  have new: "q \<notin> S1" "q \<notin> S2" "r \<notin> S1" "r \<notin> S2" using w(5,6) sub by blast+
  have "tree_at kc vc p4 (insert q (insert r S)) lo (Some (ks ! mid)) (Nd q ?ks1 ?ts1)"
    using g1 bs1(3,4) w(10) caps(1) s new S(1) by (auto simp: tree_at_def forest_at_def)
  moreover have "tree_at kc vc p4 (insert q (insert r S)) (Some (ks ! mid)) hi (Nd r ?ks2 ?ts2)"
    using g2 bs2(3,4) w(11) caps(2) s new S(1) by (auto simp: tree_at_def forest_at_def)
  moreover have "distinct (tree_ids (Nd q ?ks1 ?ts1) @ tree_ids (Nd r ?ks2 ?ts2))"
    using g1 g2 new S(2) w(7) by (simp add: forest_at_def)
  moreover have "set (tree_ids (Nd q ?ks1 ?ts1)) \<union> set (tree_ids (Nd r ?ks2 ?ts2)) = insert q (insert r S)"
    using g1 g2 S(1) by (auto simp: forest_at_def)
  moreover have "tree_entries (Nd q ?ks1 ?ts1) @ tree_entries (Nd r ?ks2 ?ts2) = concat (map tree_entries ts)"
    by (metis append_take_drop_id concat_append map_append tree_entries.simps(2))
  moreover have "tree_height (Nd q ?ks1 ?ts1) \<le> Suc h" "tree_height (Nd r ?ks2 ?ts2) \<le> Suc h"
    by (rule node_height; use h in \<open>auto dest: in_set_takeD in_set_dropD\<close>)+
  ultimately have "outcome_ok kc vc p4 lo hi (concat (map tree_entries ts)) (Suc h) (insert q (insert r S)) (Split q (ks ! mid) r)"
    unfolding outcome_ok.simps using sep by (intro exI [of _ "Nd q ?ks1 ?ts1"] exI [of _ "Nd r ?ks2 ?ts2"]) simp
  with w mid show ?thesis by blast
qed

end

text \<open>The common end of both outcomes of an internal node: new keys and children, split if too many.\<close>

definition finish_internal ::
  "nat \<Rightarrow> 'k::linorder fixed_codec \<Rightarrow> nat \<Rightarrow> 'k list \<Rightarrow> nat list \<Rightarrow> btree \<Rightarrow> (btree \<times> 'k insert_outcome) result" where
  "finish_internal os kc page_id keys children t =
     (if length keys \<le> tree_internal_capacity kc t then
        obind (bt_alloc os t) (\<lambda>(t, new_id).
        obind (bt_fill new_id (encode_internal kc keys children) t) (\<lambda>t.
        Ok (bt_replace page_id t, Replaced new_id)))
      else
        let mid = length keys div 2 in
        obind (index_at keys mid) (\<lambda>sep_up.
        let right_keys = drop (mid + 1) keys; left_keys = take mid (take (mid + 1) keys);
            right_children = drop (mid + 1) children; left_children = take (mid + 1) children in
        obind (bt_alloc os t) (\<lambda>(t, left_id).
        obind (bt_alloc os t) (\<lambda>(t, right_id).
        obind (bt_fill left_id (encode_internal kc left_keys left_children) t) (\<lambda>t.
        obind (bt_fill right_id (encode_internal kc right_keys right_children) t) (\<lambda>t.
        Ok (bt_replace page_id t, Split left_id sep_up right_id)))))))"

lemma insert_internal_split:
  "insert_internal os kc i keys children n t (Split l s r) =
     finish_internal os kc i (insert_at n s keys) (insert_at (n + 1) r (children[n := l])) t"
  by (simp add: insert_internal_def finish_internal_def Let_def)

lemma insert_internal_replaced:
  "length keys \<le> tree_internal_capacity kc t \<Longrightarrow>
     insert_internal os kc i keys children n t (Replaced c) = finish_internal os kc i keys (children[n := c]) t"
  by (simp add: insert_internal_def finish_internal_def)

text \<open>New trees in the place of one child.\<close>

lemma regrow:
  assumes t: "tree_at kc vc p L lo hi (Nd i ks ts)" and n: "n < length ts" and k: "kept p p1 L" "L \<subseteq> L1"
    and us: "\<forall>u \<in> set us. stored kc vc p1 u" "distinct (concat (map tree_ids us))"
      "set (concat (map tree_ids us)) = (set (tree_ids (ts ! n)) - F) \<union> (L1 - L)" "F \<subseteq> set (tree_ids (ts ! n))"
    and s: "sepd ordered lo hi ks' (take n ts @ us @ drop (Suc n) ts)" "seps lo hi ks'"
  shows "forest_at kc vc p1 ((set (tree_ids (Nd i ks ts)) - insert i F) \<union> (L1 - L)) lo hi ks' (take n ts @ us @ drop (Suc n) ts)"
    and "((set (tree_ids (Nd i ks ts)) - insert i F) \<union> (L1 - L)) \<subseteq> L1"
proof -
  let ?a = "take n ts" and ?c = "drop (Suc n) ts"
  let ?A = "set (concat (map tree_ids ?a))" and ?B = "set (tree_ids (ts ! n))" and ?C = "set (concat (map tree_ids ?c))"
  have st: "stored kc vc p (Nd i ks ts)" and d: "distinct (tree_ids (Nd i ks ts))" and sub: "set (tree_ids (Nd i ks ts)) \<subseteq> L"
    using t by (simp_all add: tree_at_def)
  have ts: "ts = ?a @ ts ! n # ?c" by (rule id_take_nth_drop [OF n])
  then have ids: "tree_ids (Nd i ks ts) = i # concat (map tree_ids ?a) @ tree_ids (ts ! n) @ concat (map tree_ids ?c)"
    by (metis concat.simps(2) concat_append list.simps(9) map_append tree_ids.simps(2))
  have dd: "i \<notin> ?A" "i \<notin> ?B" "i \<notin> ?C" "distinct (concat (map tree_ids ?a))" "distinct (concat (map tree_ids ?c))"
    "?A \<inter> ?B = {}" "?A \<inter> ?C = {}" "?B \<inter> ?C = {}"
    using d unfolding ids by auto
  have LL: "?A \<subseteq> L" "?B \<subseteq> L" "?C \<subseteq> L" "i \<in> L" using sub unfolding ids by auto
  have siblings: "\<forall>u \<in> set ?a \<union> set ?c. stored kc vc p1 u"
  proof
    fix u assume u: "u \<in> set ?a \<union> set ?c"
    then have "u \<in> set ts" by (auto dest: in_set_takeD in_set_dropD)
    then have "stored kc vc p u" "set (tree_ids u) \<subseteq> L" using st sub by auto
    then show "stored kc vc p1 u" using stored_kept k(1) by blast
  qed
  have "distinct (concat (map tree_ids (?a @ us @ ?c)))"
    using dd us(2,3) LL by auto
  moreover have "set (concat (map tree_ids (?a @ us @ ?c))) = (set (tree_ids (Nd i ks ts)) - insert i F) \<union> (L1 - L)"
    unfolding ids using us(3,4) dd by auto
  ultimately show "forest_at kc vc p1 ((set (tree_ids (Nd i ks ts)) - insert i F) \<union> (L1 - L)) lo hi ks' (?a @ us @ ?c)"
    using siblings us(1) s unfolding forest_at_def by auto
  show "((set (tree_ids (Nd i ks ts)) - insert i F) \<union> (L1 - L)) \<subseteq> L1" using sub k(2) by blast
qed

context node_codec
begin

lemma finish_spec:
  assumes rep: "pager_rep os (bt_pager b) L" and fits: "fits kc vc (page_size (bt_pager b))"
    and room: "page_count (bt_pager b) + 2 < u32_max"
    and forest: "forest_at kc vc (bt_pager b) S lo hi ks ts" "S \<subseteq> L" "list_all kok ks"
    and len: "length ks \<le> Suc (internal_capacity (page_size (bt_pager b)) (fc_len kc))"
    and h: "\<forall>t \<in> set ts. tree_height t \<le> h"
  shows "\<exists>p' L' out. finish_internal os kc i ks (map root_id ts) b = Ok (\<lparr> bt_pager = p', pending_free = pending_free b @ [i] \<rparr>, out) \<and>
    pager_rep os p' L' \<and> L \<subseteq> L' \<and> kept (bt_pager b) p' L \<and> page_count p' \<le> page_count (bt_pager b) + 2 \<and>
    outcome_ok kc vc p' lo hi (concat (map tree_entries ts)) (Suc h) (S \<union> (L' - L)) out \<and>
    (\<forall>l s r. out = Split l s r \<longrightarrow> kok s)"
proof (cases "length ks \<le> internal_capacity (page_size (bt_pager b)) (fc_len kc)")
  case True
  have "page_count (bt_pager b) < u32_max" using room by simp
  from write_node [OF rep fits this forest True h] obtain p1 q p2 where w: "bt_alloc os b = Ok (b\<lparr> bt_pager := p1 \<rparr>, q)"
    "bt_fill q (encode_internal kc ks (map root_id ts)) (b\<lparr> bt_pager := p1 \<rparr>) = Ok (b\<lparr> bt_pager := p2 \<rparr>)"
    "q \<notin> L" "pager_rep os p2 (insert q L)" "kept (bt_pager b) p2 L" "page_count p2 \<le> Suc (page_count (bt_pager b))"
    "outcome_ok kc vc p2 lo hi (concat (map tree_entries ts)) (Suc h) (insert q S) (Replaced q)" by blast
  have "finish_internal os kc i ks (map root_id ts) b = Ok (\<lparr> bt_pager = p2, pending_free = pending_free b @ [i] \<rparr>, Replaced q)"
    using True w(1,2) by (simp add: finish_internal_def tree_internal_capacity_def bt_replace_def)
  moreover have "S \<union> (insert q L - L) = insert q S" using w(3) by auto
  ultimately show ?thesis
    using w by (intro exI [of _ p2] exI [of _ "insert q L"] exI [of _ "Replaced q"]) (simp del: outcome_ok.simps, blast)
next
  case False
  then have big: "internal_capacity (page_size (bt_pager b)) (fc_len kc) < length ks" by simp
  define mid where "mid = length ks div 2"
  from write_split [OF rep fits room forest big len h, folded mid_def] obtain p1 q p2 r p3 p4 where
    w: "bt_alloc os b = Ok (b\<lparr> bt_pager := p1 \<rparr>, q)"
    "bt_alloc os (b\<lparr> bt_pager := p1 \<rparr>) = Ok (b\<lparr> bt_pager := p2 \<rparr>, r)"
    "bt_fill q (encode_internal kc (take mid ks) (map root_id (take (mid + 1) ts))) (b\<lparr> bt_pager := p2 \<rparr>) = Ok (b\<lparr> bt_pager := p3 \<rparr>)"
    "bt_fill r (encode_internal kc (drop (mid + 1) ks) (map root_id (drop (mid + 1) ts))) (b\<lparr> bt_pager := p3 \<rparr>) = Ok (b\<lparr> bt_pager := p4 \<rparr>)"
    "q \<notin> L" "r \<notin> L" "q \<noteq> r" "pager_rep os p4 (insert q (insert r L))" "kept (bt_pager b) p4 L"
    "page_count p4 \<le> page_count (bt_pager b) + 2" "mid < length ks"
    "outcome_ok kc vc p4 lo hi (concat (map tree_entries ts)) (Suc h) (insert q (insert r S)) (Split q (ks ! mid) r)" by blast
  have "finish_internal os kc i ks (map root_id ts) b =
      Ok (\<lparr> bt_pager = p4, pending_free = pending_free b @ [i] \<rparr>, Split q (ks ! mid) r)"
    using False w(1-4,11)
    by (simp add: finish_internal_def tree_internal_capacity_def bt_replace_def Let_def mid_def [symmetric] take_map drop_map)
  moreover have "S \<union> (insert q (insert r L) - L) = insert q (insert r S)" using w(5,6) by auto
  moreover have "kok (ks ! mid)" using forest(3) w(11) by (simp add: list_all_length)
  ultimately show ?thesis
    using w by (intro exI [of _ p4] exI [of _ "insert q (insert r L)"] exI [of _ "Split q (ks ! mid) r"])
      (simp del: outcome_ok.simps, blast)
qed

end

text \<open>The new forest after a child was updated, for either outcome.\<close>

lemma updated_forest:
  assumes t: "tree_at kc vc p L lo hi (Nd i ks ts)" and key: "le_opt lo key" "lt_opt key hi"
    and n: "n = partition_point (\<lambda>k. k \<le> key) ks"
    and k: "kept p p1 L" "L \<subseteq> L1" "F \<subseteq> set (tree_ids (ts ! n))"
    and out: "outcome_ok kc vc p1 (lower lo (take n ks)) (upper hi (drop n ks)) m h ((set (tree_ids (ts ! n)) - F) \<union> (L1 - L)) out"
    and h: "\<forall>u \<in> set ts. tree_height u \<le> h"
  defines "ks' \<equiv> (case out of Replaced c \<Rightarrow> ks | Split l s r \<Rightarrow> insert_at n s ks)"
    and "cs' \<equiv> (case out of Replaced c \<Rightarrow> (map root_id ts)[n := c] | Split l s r \<Rightarrow> insert_at (n + 1) r ((map root_id ts)[n := l]))"
  shows "\<exists>us. cs' = map root_id us \<and>
    forest_at kc vc p1 ((set (tree_ids (Nd i ks ts)) - insert i F) \<union> (L1 - L)) lo hi ks' us \<and>
    concat (map tree_entries us) = concat (map tree_entries (take n ts)) @ m @ concat (map tree_entries (drop (Suc n) ts)) \<and>
    (\<forall>u \<in> set us. tree_height u \<le> h)"
proof -
  have o: "ordered lo hi (Nd i ks ts)" using t by (simp add: tree_at_def)
  note r = route [OF o key, folded n]
  have s: "seps lo hi ks" using o by simp
  have ha: "\<forall>u \<in> set (take n ts) \<union> set (drop (Suc n) ts). tree_height u \<le> h"
    using h by (auto dest: in_set_takeD in_set_dropD)
  show ?thesis
  proof (cases out)
    case (Replaced c)
    with out obtain u where u: "root_id u = c" "tree_at kc vc p1 ((set (tree_ids (ts ! n)) - F) \<union> (L1 - L)) (lower lo (take n ks)) (upper hi (drop n ks)) u"
      "set (tree_ids u) = (set (tree_ids (ts ! n)) - F) \<union> (L1 - L)" "tree_entries u = m" "tree_height u \<le> h" by auto
    have "sepd ordered lo hi (take n ks @ drop n ks) (take n ts @ u # drop (Suc n) ts)"
      unfolding sepd_focus [OF r(3) [symmetric]] using r(6,7) u(2) by (simp add: tree_at_def)
    then have sep: "sepd ordered lo hi ks (take n ts @ [u] @ drop (Suc n) ts)" by simp
    have f: "forest_at kc vc p1 ((set (tree_ids (Nd i ks ts)) - insert i F) \<union> (L1 - L)) lo hi ks (take n ts @ [u] @ drop (Suc n) ts)"
      by (rule regrow(1) [OF t r(1) k(1,2) _ _ _ k(3) sep s]) (use u in \<open>simp_all add: tree_at_def\<close>)
    have "cs' = map root_id (take n ts @ [u] @ drop (Suc n) ts)"
      using r(1) u(1) by (simp add: cs'_def Replaced upd_conv_take_nth_drop take_map drop_map)
    then show ?thesis
      using f u(4,5) ha by (intro exI [of _ "take n ts @ [u] @ drop (Suc n) ts"]) (auto simp: ks'_def Replaced)
  next
    case (Split a x b)
    with out obtain u v where u: "root_id u = a" "root_id v = b"
      "tree_at kc vc p1 ((set (tree_ids (ts ! n)) - F) \<union> (L1 - L)) (lower lo (take n ks)) (Some x) u"
      "tree_at kc vc p1 ((set (tree_ids (ts ! n)) - F) \<union> (L1 - L)) (Some x) (upper hi (drop n ks)) v"
      "distinct (tree_ids u @ tree_ids v)" "set (tree_ids u) \<union> set (tree_ids v) = (set (tree_ids (ts ! n)) - F) \<union> (L1 - L)"
      "tree_entries u @ tree_entries v = m" "tree_height u \<le> h" "tree_height v \<le> h"
      "le_opt (lower lo (take n ks)) x" "ge_opt x (upper hi (drop n ks))" by auto
    have "sepd ordered lo hi (take n ks @ x # drop n ks) (take n ts @ u # v # drop (Suc n) ts)"
      unfolding sepd_focus [OF r(3) [symmetric]] using r(6,7) u(3,4) by (simp add: tree_at_def upper_def)
    then have sep: "sepd ordered lo hi (insert_at n x ks) (take n ts @ [u, v] @ drop (Suc n) ts)" by (simp add: insert_at_def)
    have st: "sorted (take n ks @ drop n ks)" using s by (simp add: seps_def)
    have low: "k \<le> x" if "k \<in> set (take n ks)" for k
    proof -
      have "sorted (take n ks)" using st by (simp add: sorted_append)
      then have "k \<le> last (take n ks)" using that by (cases "take n ks" rule: rev_cases) (auto simp: sorted_append)
      moreover have "last (take n ks) \<le> x" using u(10) that by (auto simp: lower_def split: if_splits)
      ultimately show ?thesis by simp
    qed
    have high: "x \<le> k" if "k \<in> set (drop n ks)" for k
    proof -
      have "sorted (drop n ks)" using st by (simp add: sorted_append)
      then have "hd (drop n ks) \<le> k" using that by (cases "drop n ks") auto
      moreover have "x \<le> hd (drop n ks)" using u(11) that by (auto simp: upper_def split: if_splits)
      ultimately show ?thesis by simp
    qed
    have "sorted (take n ks @ x # drop n ks)" using st low high by (auto simp: sorted_append intro: order_trans)
    moreover have "le_opt lo x"
    proof (cases "take n ks = []")
      case True
      then show ?thesis using u(10) by (simp add: lower_def)
    next
      case False
      have "last (take n ks) \<in> set ks" by (rule in_set_takeD [OF last_in_set [OF False]])
      then have "le_opt lo (last (take n ks))" using s by (simp add: seps_def)
      then show ?thesis using low [OF last_in_set [OF False]] by (rule le_opt_trans)
    qed
    moreover have "ge_opt x hi"
    proof (cases "drop n ks = []")
      case True
      then show ?thesis using u(11) by (simp add: upper_def)
    next
      case False
      have "hd (drop n ks) \<in> set ks" by (rule in_set_dropD [OF hd_in_set [OF False]])
      then have "ge_opt (hd (drop n ks)) hi" using s by (simp add: seps_def)
      then show ?thesis using high [OF hd_in_set [OF False]] by (rule ge_opt_trans)
    qed
    moreover have "\<forall>k \<in> set (take n ks @ drop n ks). le_opt lo k \<and> ge_opt k hi" using s by (simp add: seps_def)
    ultimately have s': "seps lo hi (insert_at n x ks)" unfolding seps_def insert_at_def by (auto dest: in_set_takeD in_set_dropD)
    have f: "forest_at kc vc p1 ((set (tree_ids (Nd i ks ts)) - insert i F) \<union> (L1 - L)) lo hi (insert_at n x ks) (take n ts @ [u, v] @ drop (Suc n) ts)"
      by (rule regrow(1) [OF t r(1) k(1,2) _ _ _ k(3) sep s']) (use u in \<open>simp_all add: tree_at_def\<close>)
    have "(map root_id ts)[n := a] = (map root_id (take n ts) @ [a]) @ map root_id (drop (Suc n) ts)"
      using r(1) by (simp add: upd_conv_take_nth_drop take_map drop_map)
    moreover have "length (map root_id (take n ts) @ [a]) = n + 1" using r(1) by simp
    ultimately have "cs' = map root_id (take n ts @ [u, v] @ drop (Suc n) ts)"
      using u(1,2) unfolding cs'_def Split insert_at_def insert_outcome.case by (simp add: take_Cons' drop_Cons' del: One_nat_def)
    then show ?thesis
      using f u(7-9) ha by (intro exI [of _ "take n ts @ [u, v] @ drop (Suc n) ts"]) (auto simp: ks'_def Split)
  qed
qed

context node_codec
begin

lemma insert_rec_spec:
  assumes "fits kc vc (page_size (bt_pager b))" "kok key" "vok val" "pager_rep os (bt_pager b) L"
  shows "tree_at kc vc (bt_pager b) L lo hi t \<Longrightarrow> le_opt lo key \<Longrightarrow> lt_opt key hi \<Longrightarrow> tree_height t \<le> n \<Longrightarrow>
     page_count (bt_pager b) + 2 * tree_height t < u32_max \<Longrightarrow>
     \<exists>p' L' F out. insert_rec n os kc vc (root_id t) key val b = Ok (\<lparr> bt_pager = p', pending_free = pending_free b @ F \<rparr>, out) \<and>
       pager_rep os p' L' \<and> L \<subseteq> L' \<and> kept (bt_pager b) p' L \<and> page_count p' \<le> page_count (bt_pager b) + 2 * tree_height t \<and>
       distinct F \<and> set F \<subseteq> set (tree_ids t) \<and>
       outcome_ok kc vc p' lo hi (bm_put key val (tree_entries t)) (tree_height t) ((set (tree_ids t) - set F) \<union> (L' - L)) out \<and>
       (\<forall>l s r. out = Split l s r \<longrightarrow> kok s)"
proof (induction t arbitrary: lo hi n)
  case (Lf i es)
  obtain n' where n: "n = Suc n'" using Lf.prems(4) by (cases n) auto
  have st: "node_type (page_at (bt_pager b) i) = Ok LEAF" "leaf_decode kc vc (page_at (bt_pager b) i) = Ok es"
    "length es \<le> leaf_capacity (page_size (bt_pager b)) (fc_len kc) (fc_len vc)"
    and o: "bm_ok es" "\<forall>e \<in> set es. le_opt lo (fst e) \<and> lt_opt (fst e) hi" and i: "i \<in> L"
    using Lf.prems(1) by (simp_all add: tree_at_def)
  let ?es = "bm_put key val es"
  have ok: "entries_ok ?es" using leaf_entries_ok [OF st(2)] assms(2,3)
    by (auto simp: entries_ok_def list_all_iff dest!: bm_put_entries)
  have b: "\<forall>e \<in> set ?es. le_opt lo (fst e) \<and> lt_opt (fst e) hi"
    using o(2) Lf.prems(2,3) by (auto dest!: bm_put_entries)
  have room: "page_count (bt_pager b) + 2 < u32_max" using Lf.prems(5) by simp
  have "length ?es \<le> Suc (leaf_capacity (page_size (bt_pager b)) (fc_len kc) (fc_len vc))"
    using bm_put_length [of key val es] st(3) by linarith
  from insert_leaf_spec [OF assms(4,1) room ok bm_put_ok [OF o(1)] b this, of i] obtain p' L' out where
    w: "insert_leaf os kc vc i ?es b = Ok (\<lparr> bt_pager = p', pending_free = pending_free b @ [i] \<rparr>, out)"
      "pager_rep os p' L'" "L \<subseteq> L'" "kept (bt_pager b) p' L" "page_count p' \<le> page_count (bt_pager b) + 2"
      "outcome_ok kc vc p' lo hi ?es 1 (L' - L) out" "\<forall>l s r. out = Split l s r \<longrightarrow> kok s" by blast
  have "insert_rec n os kc vc (root_id (Lf i es)) key val b = insert_leaf os kc vc i ?es b"
    using read_page_ok [OF assms(4) i] st(1,2) by (simp add: n leaf_put [OF o(1)])
  with w show ?case
    by (intro exI [of _ p'] exI [of _ L'] exI [of _ "[i]"] exI [of _ out]) (simp del: outcome_ok.simps)
next
  case (Nd i ks ts)
  obtain n' where n: "n = Suc n'" using Nd.prems(4) by (cases n) auto
  let ?b = "bt_pager b"
  have st: "node_type (page_at ?b i) = Ok INTERNAL" "internal_decode kc (page_at ?b i) = Ok (ks, map root_id ts)"
    "length ks \<le> internal_capacity (page_size ?b) (fc_len kc)" and o: "ordered lo hi (Nd i ks ts)" and i: "i \<in> L"
    using Nd.prems(1) by (simp_all add: tree_at_def)
  define j where "j = partition_point (\<lambda>k. k \<le> key) ks"
  note r = route [OF o Nd.prems(2,3), folded j_def]
  have cj: "ts ! j \<in> set ts" using r(1) by simp
  have hj: "Suc (tree_height (ts ! j)) \<le> tree_height (Nd i ks ts)" by (rule child_height [OF cj])
  have "tree_height (ts ! j) \<le> n'" "page_count ?b + 2 * tree_height (ts ! j) < u32_max"
    using hj Nd.prems(4,5) n by linarith+
  from Nd.IH [OF cj tree_at_child [OF Nd.prems(1) r(1,8)] r(9,10) this] obtain p1 L1 F out where
    w: "insert_rec n' os kc vc (root_id (ts ! j)) key val b = Ok (\<lparr> bt_pager = p1, pending_free = pending_free b @ F \<rparr>, out)"
      "pager_rep os p1 L1" "L \<subseteq> L1" "kept ?b p1 L" "page_count p1 \<le> page_count ?b + 2 * tree_height (ts ! j)"
      "distinct F" "set F \<subseteq> set (tree_ids (ts ! j))"
      "outcome_ok kc vc p1 (lower lo (take j ks)) (upper hi (drop j ks)) (bm_put key val (tree_entries (ts ! j)))
         (tree_height (ts ! j)) ((set (tree_ids (ts ! j)) - set F) \<union> (L1 - L)) out"
      "\<forall>l s r. out = Split l s r \<longrightarrow> kok s" by blast
  define h where "h = foldr max (map tree_height ts) 0"
  have h: "\<forall>u \<in> set ts. tree_height u \<le> h" using foldr_max [of _ "map tree_height ts"] by (auto simp: h_def)
  have out: "outcome_ok kc vc p1 (lower lo (take j ks)) (upper hi (drop j ks)) (bm_put key val (tree_entries (ts ! j))) h
      ((set (tree_ids (ts ! j)) - set F) \<union> (L1 - L)) out"
    using outcome_ok_mono [OF w(8)] h cj by blast
  define ks' where "ks' = (case out of Replaced c \<Rightarrow> ks | Split l s r \<Rightarrow> insert_at j s ks)"
  define cs' where "cs' = (case out of Replaced c \<Rightarrow> (map root_id ts)[j := c] | Split l s r \<Rightarrow> insert_at (j + 1) r ((map root_id ts)[j := l]))"
  from updated_forest [OF Nd.prems(1,2,3) j_def w(4,3,7) out h, folded ks'_def cs'_def] obtain us where
    us: "cs' = map root_id us" "forest_at kc vc p1 ((set (tree_ids (Nd i ks ts)) - insert i (set F)) \<union> (L1 - L)) lo hi ks' us"
      "concat (map tree_entries us) = concat (map tree_entries (take j ts)) @ bm_put key val (tree_entries (ts ! j)) @
        concat (map tree_entries (drop (Suc j) ts))" "\<forall>u \<in> set us. tree_height u \<le> h" by blast
  let ?S = "(set (tree_ids (Nd i ks ts)) - insert i (set F)) \<union> (L1 - L)"
  let ?b1 = "\<lparr> bt_pager = p1, pending_free = pending_free b @ F \<rparr>"
  have ps: "page_size p1 = page_size ?b" using w(4) by (simp add: kept_def)
  have kok: "list_all kok ks'"
    using internal_keys_ok [OF st(2)] w(9) by (cases out) (auto simp: ks'_def insert_at_def list_all_iff dest: in_set_takeD in_set_dropD)
  have len: "length ks' \<le> Suc (internal_capacity (page_size (bt_pager ?b1)) (fc_len kc))"
    using st(3) ps length_insert_at [OF r(2)] by (cases out) (simp_all add: ks'_def)
  have sub: "?S \<subseteq> L1" using Nd.prems(1) w(3) unfolding tree_at_def by blast
  have room: "page_count (bt_pager ?b1) + 2 < u32_max" using w(5) hj Nd.prems(5) by simp
  from finish_spec [of os ?b1 L1 ?S lo hi ks' us h i] w(2) assms(1) ps room us(2,4) sub kok len obtain p2 L2 out2 where
    f: "finish_internal os kc i ks' cs' ?b1 = Ok (\<lparr> bt_pager = p2, pending_free = pending_free b @ (F @ [i]) \<rparr>, out2)"
      "pager_rep os p2 L2" "L1 \<subseteq> L2" "kept p1 p2 L1" "page_count p2 \<le> page_count p1 + 2"
      "outcome_ok kc vc p2 lo hi (concat (map tree_entries us)) (Suc h) (?S \<union> (L2 - L1)) out2"
      "\<forall>l s r. out2 = Split l s r \<longrightarrow> kok s" unfolding us(1) by (auto simp del: outcome_ok.simps)
  have "insert_internal os kc i ks (map root_id ts) j ?b1 out = finish_internal os kc i ks' cs' ?b1"
    using st(3) ps by (cases out)
      (simp_all add: ks'_def cs'_def insert_internal_split insert_internal_replaced tree_internal_capacity_def)
  then have run: "insert_rec n os kc vc (root_id (Nd i ks ts)) key val b = finish_internal os kc i ks' cs' ?b1"
    using read_page_ok [OF assms(4) i] st(1,2) w(1) r(1) by (simp add: n node_consts j_def [symmetric])
  have entries: "concat (map tree_entries us) = bm_put key val (tree_entries (Nd i ks ts))"
    unfolding us(3) node_entries [OF r(4)] by (simp only: bm_put_middle [OF r(11,12)])
  have pages: "?S \<union> (L2 - L1) = (set (tree_ids (Nd i ks ts)) - set (F @ [i])) \<union> (L2 - L)"
    using w(3) f(3) by auto
  have freed: "distinct (F @ [i])" "set (F @ [i]) \<subseteq> set (tree_ids (Nd i ks ts))"
  proof -
    have "i \<notin> set (tree_ids (ts ! j))" using Nd.prems(1) cj by (auto simp: tree_at_def)
    then show "distinct (F @ [i])" using w(6,7) by auto
    show "set (F @ [i]) \<subseteq> set (tree_ids (Nd i ks ts))" using w(7) cj by auto
  qed
  have kept: "kept ?b p2 L" by (rule kept_trans [OF w(4) f(4) w(3)])
  have count: "page_count p2 \<le> page_count ?b + 2 * tree_height (Nd i ks ts)" using f(5) w(5) hj by linarith
  have height: "tree_height (Nd i ks ts) = Suc h" by (simp add: h_def)
  have sub: "L \<subseteq> L2" using w(3) f(3) by (rule subset_trans)
  have run': "insert_rec n os kc vc (root_id (Nd i ks ts)) key val b = Ok (\<lparr> bt_pager = p2, pending_free = pending_free b @ (F @ [i]) \<rparr>, out2)"
    using run f(1) by (rule trans)
  have shape: "outcome_ok kc vc p2 lo hi (bm_put key val (tree_entries (Nd i ks ts))) (tree_height (Nd i ks ts))
      ((set (tree_ids (Nd i ks ts)) - set (F @ [i])) \<union> (L2 - L)) out2"
    using f(6) unfolding entries pages height .
  show ?case
    by (rule exI [of _ p2], rule exI [of _ L2], rule exI [of _ "F @ [i]"], rule exI [of _ out2])
      (intro conjI run' f(2) sub kept count freed shape f(7))
qed

end

end
