(* ===== verification/Gems_Index.thy ===== *)
theory Gems_Index
  imports Gems_BTree_Correct
begin

text \<open>
  The index files of \<^verbatim>\<open>gems-index\<close> as ordered maps: \<open>tree_rep os kc vc b m\<close> says that the
  pages in use are exactly those of one ordered tree whose entries are the association list \<open>m\<close>.
  Every operation of \<^verbatim>\<open>btree.rs\<close> is then the operation of that list (the laws of the locale
  \<open>ordered_index\<close>), every page not in the new tree is back on the free list, and closing and opening
  the file loses nothing.
\<close>

section \<open>The invariant\<close>

definition tree_rep ::
  "nat \<Rightarrow> 'k::linorder fixed_codec \<Rightarrow> 'v fixed_codec \<Rightarrow> btree \<Rightarrow> ('k, 'v) btree_map \<Rightarrow> bool" where
  "tree_rep os kc vc b m \<longleftrightarrow> fits kc vc (page_size (bt_pager b)) \<and>
     (\<exists>L. pager_rep os (bt_pager b) L \<and>
        (root_page (bt_pager b) = 0 \<and> L = {} \<and> m = [] \<or>
         (\<exists>t. root_page (bt_pager b) = root_id t \<and> tree_at kc vc (bt_pager b) L None None t \<and>
            set (tree_ids t) = L \<and> tree_entries t = m)))"

definition room_left :: "btree \<Rightarrow> bool" where
  "room_left b \<longleftrightarrow> 3 * page_count (bt_pager b) < u32_max"

lemma tree_bounds:
  assumes L: "pager_rep os p L" and t: "tree_at kc vc p L lo hi t"
  shows "root_id t \<in> L" "root_id t \<noteq> 0" "tree_height t < page_count p" "1 \<le> tree_height t"
proof -
  show r: "root_id t \<in> L" using t root_in_ids [of t] by (auto simp: tree_at_def)
  then show "root_id t \<noteq> 0" using rep_pages [OF L] by fastforce
  have d: "distinct (tree_ids t)" and sub: "set (tree_ids t) \<subseteq> L" using t by (simp_all add: tree_at_def)
  have "length (tree_ids t) = card (set (tree_ids t))" by (rule distinct_card [OF d, symmetric])
  also have "\<dots> \<le> card {1..<page_count p}" by (rule card_mono) (use sub rep_pages [OF L] in auto)
  finally have "length (tree_ids t) < page_count p" using rep_pages [OF L r] by (simp, linarith)
  then show "tree_height t < page_count p" using height_ids [of t] by linarith
  show "1 \<le> tree_height t" by (cases t) simp_all
qed

lemma rep_cases:
  assumes "tree_rep os kc vc b m"
  obtains (Empty) "pager_rep os (bt_pager b) {}" "root_page (bt_pager b) = 0" "m = []"
  | (Tree) L t where "pager_rep os (bt_pager b) L" "root_page (bt_pager b) = root_id t" "root_id t \<noteq> 0"
      "tree_at kc vc (bt_pager b) L None None t" "set (tree_ids t) = L" "tree_entries t = m"
      "tree_height t < page_count (bt_pager b)" "1 \<le> tree_height t"
proof -
  from assms obtain L where L: "pager_rep os (bt_pager b) L" and
    c: "root_page (bt_pager b) = 0 \<and> L = {} \<and> m = [] \<or>
         (\<exists>t. root_page (bt_pager b) = root_id t \<and> tree_at kc vc (bt_pager b) L None None t \<and>
            set (tree_ids t) = L \<and> tree_entries t = m)" by (auto simp: tree_rep_def)
  from c show ?thesis
  proof
    assume "root_page (bt_pager b) = 0 \<and> L = {} \<and> m = []"
    then show ?thesis using Empty L by simp
  next
    assume "\<exists>t. root_page (bt_pager b) = root_id t \<and> tree_at kc vc (bt_pager b) L None None t \<and>
            set (tree_ids t) = L \<and> tree_entries t = m"
    then obtain t where t: "root_page (bt_pager b) = root_id t" "tree_at kc vc (bt_pager b) L None None t"
      "set (tree_ids t) = L" "tree_entries t = m" by blast
    then show ?thesis using Tree [OF L] tree_bounds [OF L t(2)] by blast
  qed
qed

lemma rep_entries: "tree_rep os kc vc b m \<Longrightarrow> bm_ok m"
  by (erule rep_cases) (auto simp: tree_at_def bm_ok_def dest: ordered_sorted)

text \<open>A tree stays stored while its pages keep their bytes.\<close>

lemma stored_pages:
  "stored kc vc p t \<Longrightarrow> page_size p' = page_size p \<Longrightarrow> (\<And>x. x \<in> set (tree_ids t) \<Longrightarrow> page_at p' x = page_at p x) \<Longrightarrow>
     stored kc vc p' t"
proof (induction t)
  case (Nd i ks ts)
  have "stored kc vc p' t" if t: "t \<in> set ts" for t
  proof (rule Nd.IH [OF t])
    show "stored kc vc p t" using Nd.prems(1) t by simp
    show "page_size p' = page_size p" by (rule Nd.prems(2))
    show "page_at p' x = page_at p x" if "x \<in> set (tree_ids t)" for x using Nd.prems(3) that t by auto
  qed
  with Nd.prems show ?case by simp
qed simp

section \<open>Reading\<close>

lemma route_get:
  assumes "ordered lo hi (Nd i ks ts)" "le_opt lo key" "lt_opt key hi"
  shows "bm_get (tree_entries (Nd i ks ts)) key = bm_get (tree_entries (ts ! partition_point (\<lambda>k. k \<le> key) ks)) key"
  unfolding node_entries [OF route(4) [OF assms]]
  by (rule bm_get_middle) (erule route(11) [OF assms], erule route(12) [OF assms])

context node_codec
begin

lemma get_loop_spec:
  "pager_rep os p L \<Longrightarrow> tree_at kc vc p L lo hi t \<Longrightarrow> le_opt lo key \<Longrightarrow> lt_opt key hi \<Longrightarrow> tree_height t \<le> n \<Longrightarrow>
     get_loop n kc vc p (root_id t) key = Ok (bm_get (tree_entries t) key)"
proof (induction t arbitrary: lo hi n)
  case (Lf i es)
  obtain n' where n: "n = Suc n'" using Lf.prems(5) by (cases n) auto
  have st: "node_type (page_at p i) = Ok LEAF" "leaf_decode kc vc (page_at p i) = Ok es" "bm_ok es" "i \<in> L"
    using Lf.prems(2) by (simp_all add: tree_at_def)
  then show ?case using read_page_ok [OF Lf.prems(1) st(4)] leaf_search [OF st(3), of key] by (simp add: n)
next
  case (Nd i ks ts)
  obtain n' where n: "n = Suc n'" using Nd.prems(5) by (cases n) auto
  have st: "node_type (page_at p i) = Ok INTERNAL" "internal_decode kc (page_at p i) = Ok (ks, map root_id ts)"
    and o: "ordered lo hi (Nd i ks ts)" and i: "i \<in> L"
    using Nd.prems(2) by (simp_all add: tree_at_def)
  define j where "j = partition_point (\<lambda>k. k \<le> key) ks"
  note r = route [OF o Nd.prems(3,4), folded j_def]
  have cj: "ts ! j \<in> set ts" using r(1) by simp
  have "tree_height (ts ! j) \<le> n'" using child_height [OF cj, of i ks] Nd.prems(5) n by linarith
  from Nd.IH [OF cj Nd.prems(1) tree_at_child [OF Nd.prems(2) r(1,8)] r(9,10) this]
  have ih: "get_loop n' kc vc p (root_id (ts ! j)) key = Ok (bm_get (tree_entries (ts ! j)) key)" .
  show ?case using route_get [OF o Nd.prems(3,4), folded j_def] read_page_ok [OF Nd.prems(1) i] st r(1) ih by (simp add: n node_consts j_def [symmetric])
qed

lemma get_tree:
  assumes "pager_rep os (bt_pager b) L" "tree_at kc vc (bt_pager b) L None None t" "root_page (bt_pager b) = root_id t"
  shows "btree_get kc vc b key = Ok (bm_get (tree_entries t) key)"
  using get_loop_spec [OF assms(1,2), of key "page_count (bt_pager b)"] tree_bounds [OF assms(1,2)] assms(3)
  by (simp add: btree_get_def)

lemma btree_get_spec:
  assumes "tree_rep os kc vc b m"
  shows "btree_get kc vc b key = Ok (bm_get m key)"
  using assms
proof (cases rule: rep_cases)
  case Empty
  then show ?thesis by (simp add: btree_get_def bm_get_def)
next
  case (Tree L t)
  then show ?thesis using get_tree by blast
qed

lemma scan_rec_spec:
  "pager_rep os p L \<Longrightarrow> stored kc vc p t \<Longrightarrow> set (tree_ids t) \<subseteq> L \<Longrightarrow> tree_height t \<le> n \<Longrightarrow>
     scan_rec n kc vc p (root_id t) = Ok (tree_entries t)"
proof (induction t arbitrary: n)
  case (Lf i es)
  then show ?case using read_page_ok [OF Lf.prems(1), of i] by (cases n) simp_all
next
  case (Nd i ks ts)
  obtain n' where n: "n = Suc n'" using Nd.prems(4) by (cases n) auto
  have "concat_results (map (scan_rec n' kc vc p) (map root_id us)) = Ok (concat (map tree_entries us))"
    if "set us \<subseteq> set ts" for us
    using that
  proof (induction us)
    case (Cons u us)
    have u: "u \<in> set ts" using Cons.prems by simp
    have "tree_height u \<le> n'" using child_height [OF u, of i ks] Nd.prems(4) n by linarith
    moreover have "stored kc vc p u" "set (tree_ids u) \<subseteq> L" using Nd.prems(2,3) u by auto
    ultimately have "scan_rec n' kc vc p (root_id u) = Ok (tree_entries u)" using Nd.IH [OF u Nd.prems(1)] by blast
    with Cons show ?case by simp
  qed simp
  from this [of ts] show ?case
    using read_page_ok [OF Nd.prems(1), of i] Nd.prems(2,3) by (simp add: n node_consts)
qed

lemma scan_tree:
  assumes "pager_rep os (bt_pager b) L" "tree_at kc vc (bt_pager b) L None None t" "root_page (bt_pager b) = root_id t"
  shows "btree_scan_all kc vc b = Ok (tree_entries t)"
  using scan_rec_spec [OF assms(1), of t "page_count (bt_pager b)"] tree_bounds [OF assms(1,2)] assms(2,3)
  by (simp add: btree_scan_all_def tree_at_def)

lemma btree_scan_spec:
  assumes "tree_rep os kc vc b m"
  shows "btree_scan_all kc vc b = Ok m"
  using assms
proof (cases rule: rep_cases)
  case Empty
  then show ?thesis by (simp add: btree_scan_all_def)
next
  case (Tree L t)
  then show ?thesis using scan_tree by blast
qed

end

section \<open>Publishing\<close>

lemma btree_updates [simp]: "b\<lparr> pending_free := xs, bt_pager := p \<rparr> = \<lparr> bt_pager = p, pending_free = xs \<rparr>"
  by (cases b) simp

text \<open>The new root becomes visible and the replaced pages go back to the free list.\<close>

lemma commit_spec:
  assumes rep: "pager_rep os p L" and fits: "fits kc vc (page_size p)"
    and t: "tree_at kc vc p L None None t" "set (tree_ids t) = L - set F" and F: "distinct F" "set F \<subseteq> L"
  shows "\<exists>p'. obind (bt_publish os (root_id t) \<lparr> bt_pager = p, pending_free = F \<rparr>) (bt_free_pending os) =
      Ok \<lparr> bt_pager = p', pending_free = [] \<rparr> \<and> tree_rep os kc vc \<lparr> bt_pager = p', pending_free = [] \<rparr> (tree_entries t) \<and>
    page_count p' = page_count p \<and> page_size p' = page_size p"
proof -
  have r: "root_id t \<in> L" using root_in_ids [of t] t(2) by auto
  then have "root_id t \<le> u32_max" using rep_pages [OF rep] by blast
  from publish_root_spec [OF rep this] obtain p1 where p1: "publish_root os (root_id t) p = Ok p1" "pager_rep os p1 L"
    "root_page p1 = root_id t" "page_size p1 = page_size p" "page_count p1 = page_count p"
    "\<forall>x \<in> L. page_at p1 x = page_at p x" by blast
  from pages.free_all_spec [OF p1(2) F(2,1)] obtain p2 where
    p2: "free_all (free_page os) F p1 = Ok p2" "pager_rep os p2 (L - set F)" "kept p1 p2 (L - set F)" "page_count p2 = page_count p1"
    by blast
  have k: "page_size p2 = page_size p" "root_page p2 = root_id t" "\<And>x. x \<in> L - set F \<Longrightarrow> page_at p2 x = page_at p x"
    using p2(3) p1(3-6) by (auto simp: kept_def)
  have "stored kc vc p t" using t(1) by (simp add: tree_at_def)
  then have "stored kc vc p2 t" by (rule stored_pages) (use k t(2) in auto)
  then have "tree_at kc vc p2 (L - set F) None None t" using t by (simp add: tree_at_def)
  then have "tree_rep os kc vc \<lparr> bt_pager = p2, pending_free = [] \<rparr> (tree_entries t)"
    unfolding tree_rep_def using fits k(1,2) p2(2) t(2)
    by (intro conjI exI [of _ "L - set F"] disjI2 exI [of _ t]) simp_all
  then show ?thesis
    using p1(1,5) p2(1,4) k(1) by (intro exI [of _ p2]) (simp add: bt_publish_def bt_free_pending_def)
qed

text \<open>The pages of a subtree after an update are those of the new file without the replaced ones.\<close>

lemma remaining: "L = S \<Longrightarrow> F \<subseteq> S \<Longrightarrow> S \<subseteq> L' \<Longrightarrow> (S - F) \<union> (L' - L) = L' - F"
  by blast

section \<open>Insertion\<close>

context node_codec
begin

lemma root_split:
  assumes rep: "pager_rep os (bt_pager b) L" and fits: "fits kc vc (page_size (bt_pager b))"
    and room: "page_count (bt_pager b) < u32_max" and s: "kok s"
    and t: "tree_at kc vc (bt_pager b) S None (Some s) t" "tree_at kc vc (bt_pager b) S (Some s) None u"
      "distinct (tree_ids t @ tree_ids u)" "set (tree_ids t) \<union> set (tree_ids u) = S" "S \<subseteq> L"
  shows "\<exists>p1 q p2 v. bt_alloc os b = Ok (b\<lparr> bt_pager := p1 \<rparr>, q) \<and>
    bt_fill q (encode_internal kc [s] [root_id t, root_id u]) (b\<lparr> bt_pager := p1 \<rparr>) = Ok (b\<lparr> bt_pager := p2 \<rparr>) \<and>
    q \<notin> L \<and> pager_rep os p2 (insert q L) \<and> kept (bt_pager b) p2 L \<and> page_count p2 \<le> Suc (page_count (bt_pager b)) \<and>
    root_id v = q \<and> tree_at kc vc p2 (insert q S) None None v \<and> set (tree_ids v) = insert q S \<and>
    tree_entries v = tree_entries t @ tree_entries u"
proof -
  have f: "forest_at kc vc (bt_pager b) S None None [s] [t, u]"
    using t by (auto simp: forest_at_def tree_at_def seps_def)
  have "length [s] \<le> internal_capacity (page_size (bt_pager b)) (fc_len kc)" using fits by (simp add: fits_def)
  moreover have "list_all kok [s]" "\<forall>w \<in> set [t, u]. tree_height w \<le> tree_height t + tree_height u" using s by simp_all
  ultimately obtain p1 q p2 where w: "bt_alloc os b = Ok (b\<lparr> bt_pager := p1 \<rparr>, q)"
    "bt_fill q (encode_internal kc [s] (map root_id [t, u])) (b\<lparr> bt_pager := p1 \<rparr>) = Ok (b\<lparr> bt_pager := p2 \<rparr>)"
    "q \<notin> L" "pager_rep os p2 (insert q L)" "kept (bt_pager b) p2 L" "page_count p2 \<le> Suc (page_count (bt_pager b))"
    "outcome_ok kc vc p2 None None (concat (map tree_entries [t, u])) (Suc (tree_height t + tree_height u)) (insert q S) (Replaced q)"
    using write_node [OF rep fits room f t(5)] by blast
  from w(7) obtain v where "root_id v = q" "tree_at kc vc p2 (insert q S) None None v" "set (tree_ids v) = insert q S"
    "tree_entries v = tree_entries t @ tree_entries u" by auto
  with w show ?thesis by (intro exI [of _ p1] exI [of _ q] exI [of _ p2] exI [of _ v]) simp
qed

lemma tree_at_wider: "tree_at kc vc p S lo hi t \<Longrightarrow> S \<subseteq> L \<Longrightarrow> tree_at kc vc p L lo hi t"
  by (auto simp: tree_at_def)

lemma btree_insert_spec:
  assumes rep: "tree_rep os kc vc b m" and room: "room_left b" and ok: "kok key" "vok val"
  shows "\<exists>b'. btree_insert os kc vc key val b = Ok b' \<and> tree_rep os kc vc b' (bm_put key val m) \<and>
    page_count (bt_pager b') \<le> 3 * page_count (bt_pager b) \<and> page_size (bt_pager b') = page_size (bt_pager b)"
  using rep
proof (cases rule: rep_cases)
  case Empty
  let ?b = "b\<lparr> pending_free := [] \<rparr>"
  have fits: "fits kc vc (page_size (bt_pager b))" using rep by (simp add: tree_rep_def)
  have one: "entries_ok [(key, val)]" using ok by (simp add: entries_ok_def)
  have fit: "length [(key, val)] \<le> leaf_capacity (page_size (bt_pager b)) (fc_len kc) (fc_len vc)"
    using fits by (simp add: fits_def)
  from leaf_page [OF fits one fit] obtain bs where bs: "encode_leaf kc vc [(key, val)] (page_size (bt_pager ?b)) = Ok bs" "length bs = page_size (bt_pager ?b)"
    "node_type bs = Ok LEAF" "leaf_decode kc vc bs = Ok [(key, val)]" by auto
  have "pager_rep os (bt_pager ?b) {}" "page_count (bt_pager ?b) < u32_max"
    using Empty(1) room by (simp_all add: room_left_def)
  from write_one [of os ?b "{}" "encode_leaf kc vc [(key, val)]", OF this bs(1,2)] obtain p1 q p2 where
    w: "bt_alloc os ?b = Ok (?b\<lparr> bt_pager := p1 \<rparr>, q)" "bt_fill q (encode_leaf kc vc [(key, val)]) (?b\<lparr> bt_pager := p1 \<rparr>) = Ok (?b\<lparr> bt_pager := p2 \<rparr>)"
    "pager_rep os p2 {q}" "kept (bt_pager ?b) p2 {}" "page_at p2 q = bs" "page_count p2 \<le> Suc (page_count (bt_pager ?b))"
    by auto
  have ps: "page_size p2 = page_size (bt_pager b)" using w(4) by (simp add: kept_def)
  have t: "tree_at kc vc p2 {q} None None (Lf q [(key, val)])" "set (tree_ids (Lf q [(key, val)])) = {q} - set []"
    using bs(3,4) w(5) ps fits by (simp_all add: tree_at_def fits_def bm_ok_def)
  have "fits kc vc (page_size p2)" using fits ps by simp
  from commit_spec [OF w(3) this t] obtain p3 where
    c: "obind (bt_publish os q \<lparr> bt_pager = p2, pending_free = [] \<rparr>) (bt_free_pending os) = Ok \<lparr> bt_pager = p3, pending_free = [] \<rparr>"
      "tree_rep os kc vc \<lparr> bt_pager = p3, pending_free = [] \<rparr> [(key, val)]" "page_count p3 = page_count p2" "page_size p3 = page_size p2"
    by auto
  have "1 \<le> page_count (bt_pager b)" using layout_facts(6) [OF rep_layout [OF Empty(1)]] by simp
  then show ?thesis
    using w(1,2,6) c ps Empty(2,3) by (intro exI [of _ "\<lparr> bt_pager = p3, pending_free = [] \<rparr>"]) (simp add: btree_insert_def Let_def)
next
  case (Tree L t)
  let ?b = "b\<lparr> pending_free := [] \<rparr>" and ?n = "page_count (bt_pager b)"
  have fits: "fits kc vc (page_size (bt_pager b))" using rep by (simp add: tree_rep_def)
  have "fits kc vc (page_size (bt_pager ?b))" "pager_rep os (bt_pager ?b) L" "tree_at kc vc (bt_pager ?b) L None None t"
    "page_count (bt_pager ?b) + 2 * tree_height t < u32_max" "tree_height t \<le> ?n"
    using fits Tree room by (simp_all add: room_left_def)
  with insert_rec_spec [of ?b key val os L None None t ?n] ok obtain p' L' F out where
    w: "insert_rec ?n os kc vc (root_id t) key val ?b = Ok (\<lparr> bt_pager = p', pending_free = F \<rparr>, out)"
      "pager_rep os p' L'" "L \<subseteq> L'" "kept (bt_pager b) p' L" "page_count p' \<le> ?n + 2 * tree_height t"
      "distinct F" "set F \<subseteq> L"
      "outcome_ok kc vc p' None None (bm_put key val m) (tree_height t) ((L - set F) \<union> (L' - L)) out"
      "\<forall>l s r. out = Split l s r \<longrightarrow> kok s"
    using Tree(5,6) by (auto simp del: outcome_ok.simps)
  have pages: "(L - set F) \<union> (L' - L) = L' - set F" by (rule remaining [OF refl w(7,3)])
  have ps: "page_size p' = page_size (bt_pager b)" using w(4) by (simp add: kept_def)
  have F: "set F \<subseteq> L'" using w(3,7) by blast
  show ?thesis
  proof (cases out)
    case (Replaced i)
    with w(8) obtain u where u: "root_id u = i" "tree_at kc vc p' (L' - set F) None None u" "set (tree_ids u) = L' - set F"
      "tree_entries u = bm_put key val m" unfolding pages by auto
    have "fits kc vc (page_size p')" using fits ps by simp
    from commit_spec [OF w(2) this tree_at_wider [OF u(2)] u(3) w(6) F] obtain p3 where
      c: "obind (bt_publish os i \<lparr> bt_pager = p', pending_free = F \<rparr>) (bt_free_pending os) = Ok \<lparr> bt_pager = p3, pending_free = [] \<rparr>"
        "tree_rep os kc vc \<lparr> bt_pager = p3, pending_free = [] \<rparr> (bm_put key val m)" "page_count p3 = page_count p'" "page_size p3 = page_size p'"
      unfolding u(1,4) by auto
    have "page_count p' \<le> 3 * ?n" using w(5) Tree(7) by linarith
    then show ?thesis
      using w(1) c ps Tree(2,3) Replaced by (intro exI [of _ "\<lparr> bt_pager = p3, pending_free = [] \<rparr>"]) (simp add: btree_insert_def Let_def)
  next
    case (Split l s r)
    with w(8) obtain u v where u: "root_id u = l" "root_id v = r" "tree_at kc vc p' (L' - set F) None (Some s) u"
      "tree_at kc vc p' (L' - set F) (Some s) None v" "distinct (tree_ids u @ tree_ids v)"
      "set (tree_ids u) \<union> set (tree_ids v) = L' - set F" "tree_entries u @ tree_entries v = bm_put key val m"
      unfolding pages by auto
    let ?b' = "\<lparr> bt_pager = p', pending_free = F \<rparr>"
    have s: "kok s" using w(9) Split by simp
    have pre: "pager_rep os (bt_pager ?b') L'" "fits kc vc (page_size (bt_pager ?b'))" "page_count (bt_pager ?b') < u32_max"
      "tree_at kc vc (bt_pager ?b') (L' - set F) None (Some s) u" "tree_at kc vc (bt_pager ?b') (L' - set F) (Some s) None v"
      using w(2,5) fits ps room Tree(7) u(3,4) by (simp_all add: room_left_def)
    from root_split [OF pre(1-3) s pre(4,5) u(5,6)] obtain p1 q p2 x where
      x: "bt_alloc os ?b' = Ok (?b'\<lparr> bt_pager := p1 \<rparr>, q)"
        "bt_fill q (encode_internal kc [s] [root_id u, root_id v]) (?b'\<lparr> bt_pager := p1 \<rparr>) = Ok (?b'\<lparr> bt_pager := p2 \<rparr>)"
        "q \<notin> L'" "pager_rep os p2 (insert q L')" "kept p' p2 L'" "page_count p2 \<le> Suc (page_count p')"
        "root_id x = q" "tree_at kc vc p2 (insert q (L' - set F)) None None x" "set (tree_ids x) = insert q (L' - set F)"
        "tree_entries x = tree_entries u @ tree_entries v" by auto
    have sets: "insert q (L' - set F) = insert q L' - set F" "set F \<subseteq> insert q L'" "insert q (L' - set F) \<subseteq> insert q L'"
      using x(3) F by auto
    have ps2: "page_size p2 = page_size (bt_pager b)" using x(5) ps by (simp add: kept_def)
    then have "fits kc vc (page_size p2)" using fits by simp
    from commit_spec [OF x(4) this tree_at_wider [OF x(8) sets(3)] x(9) [unfolded sets(1)] w(6) sets(2)] obtain p3 where
      c: "obind (bt_publish os q \<lparr> bt_pager = p2, pending_free = F \<rparr>) (bt_free_pending os) = Ok \<lparr> bt_pager = p3, pending_free = [] \<rparr>"
        "tree_rep os kc vc \<lparr> bt_pager = p3, pending_free = [] \<rparr> (bm_put key val m)" "page_count p3 = page_count p2" "page_size p3 = page_size p2"
      unfolding x(7,10) u(7) by auto
    have "page_count p2 \<le> 3 * ?n" using w(5) x(6) Tree(7) by linarith
    then show ?thesis
      using w(1) x(1,2) c ps2 Tree(2,3) Split u(1,2)
      by (intro exI [of _ "\<lparr> bt_pager = p3, pending_free = [] \<rparr>"]) (simp add: btree_insert_def Let_def)
  qed
qed

end

section \<open>Deletion\<close>

context node_codec
begin

lemma remove_entry:
  assumes rep: "pager_rep os (bt_pager b) L" and fits: "fits kc vc (page_size (bt_pager b))"
    and room: "page_count (bt_pager b) < u32_max"
    and es: "leaf_decode kc vc buf = Ok es" "bm_ok es" "length es \<le> leaf_capacity (page_size (bt_pager b)) (fc_len kc) (fc_len vc)"
      "\<forall>e \<in> set es. le_opt lo (fst e) \<and> lt_opt (fst e) hi"
  shows "\<exists>p1 q p2. bt_alloc os b = Ok (b\<lparr> bt_pager := p1 \<rparr>, q) \<and>
    bt_fill q (encode_leaf kc vc (bm_del key es)) (b\<lparr> bt_pager := p1 \<rparr>) = Ok (b\<lparr> bt_pager := p2 \<rparr>) \<and>
    q \<notin> L \<and> pager_rep os p2 (insert q L) \<and> kept (bt_pager b) p2 L \<and> page_count p2 \<le> Suc (page_count (bt_pager b)) \<and>
    tree_at kc vc p2 {q} lo hi (Lf q (bm_del key es))"
proof -
  have ok: "entries_ok (bm_del key es)"
    using leaf_entries_ok [OF es(1)] by (auto simp: entries_ok_def bm_del_def list_all_iff)
  have len: "length (bm_del key es) \<le> leaf_capacity (page_size (bt_pager b)) (fc_len kc) (fc_len vc)"
    unfolding bm_del_def using length_filter_le es(3) by (rule order_trans)
  from leaf_page [OF fits ok len] obtain bs where bs: "encode_leaf kc vc (bm_del key es) (page_size (bt_pager b)) = Ok bs"
    "length bs = page_size (bt_pager b)" "node_type bs = Ok LEAF" "leaf_decode kc vc bs = Ok (bm_del key es)" by blast
  from write_one [of os b L "encode_leaf kc vc (bm_del key es)", OF rep room bs(1,2)] obtain p1 q p2 where
    w: "bt_alloc os b = Ok (b\<lparr> bt_pager := p1 \<rparr>, q)"
      "bt_fill q (encode_leaf kc vc (bm_del key es)) (b\<lparr> bt_pager := p1 \<rparr>) = Ok (b\<lparr> bt_pager := p2 \<rparr>)"
      "q \<notin> L" "pager_rep os p2 (insert q L)" "kept (bt_pager b) p2 L" "page_at p2 q = bs"
      "page_count p2 \<le> Suc (page_count (bt_pager b))" by blast
  have "page_size p2 = page_size (bt_pager b)" using w(5) by (simp add: kept_def)
  moreover have "bm_ok (bm_del key es)" by (rule bm.ok_del [OF es(2)])
  moreover have "\<forall>e \<in> set (bm_del key es). le_opt lo (fst e) \<and> lt_opt (fst e) hi" using es(4) by (simp add: bm_del_def)
  ultimately have "tree_at kc vc p2 {q} lo hi (Lf q (bm_del key es))" using bs(3,4) w(6) len by (simp add: tree_at_def)
  with w show ?thesis by blast
qed

text \<open>Nothing is written for a key that is not there.\<close>

lemma delete_missing:
  "pager_rep os (bt_pager b) L \<Longrightarrow> tree_at kc vc (bt_pager b) L lo hi t \<Longrightarrow> le_opt lo key \<Longrightarrow> lt_opt key hi \<Longrightarrow>
     tree_height t \<le> n \<Longrightarrow> bm_get (tree_entries t) key = None \<Longrightarrow>
     delete_rec n os kc vc (root_id t) key b = Ok (b, root_id t, None)"
proof (induction t arbitrary: lo hi n)
  case (Lf i es)
  obtain n' where n: "n = Suc n'" using Lf.prems(5) by (cases n) auto
  have st: "node_type (page_at (bt_pager b) i) = Ok LEAF" "leaf_decode kc vc (page_at (bt_pager b) i) = Ok es" "bm_ok es" "i \<in> L"
    using Lf.prems(2) by (simp_all add: tree_at_def)
  obtain r where "binary_search (map fst es) key = Inr r"
    using leaf_search [OF st(3), of key] Lf.prems(6) by (cases "binary_search (map fst es) key") auto
  then show ?case using read_page_ok [OF Lf.prems(1) st(4)] st(1,2) by (simp add: n)
next
  case (Nd i ks ts)
  obtain n' where n: "n = Suc n'" using Nd.prems(5) by (cases n) auto
  have st: "node_type (page_at (bt_pager b) i) = Ok INTERNAL" "internal_decode kc (page_at (bt_pager b) i) = Ok (ks, map root_id ts)"
    and o: "ordered lo hi (Nd i ks ts)" and i: "i \<in> L"
    using Nd.prems(2) by (simp_all add: tree_at_def)
  define j where "j = partition_point (\<lambda>k. k \<le> key) ks"
  note r = route [OF o Nd.prems(3,4), folded j_def]
  have cj: "ts ! j \<in> set ts" using r(1) by simp
  have h: "tree_height (ts ! j) \<le> n'" using child_height [OF cj, of i ks] Nd.prems(5) n by linarith
  have "bm_get (tree_entries (ts ! j)) key = None" 
    using Nd.prems(6) unfolding route_get [OF o Nd.prems(3,4), folded j_def] .
  from Nd.IH [OF cj Nd.prems(1) tree_at_child [OF Nd.prems(2) r(1,8)] r(9,10) h this]
  show ?case using read_page_ok [OF Nd.prems(1) i] st r(1) by (simp add: n node_consts j_def [symmetric])
qed

lemma delete_rec_spec:
  assumes fits: "fits kc vc (page_size (bt_pager b))" and rep: "pager_rep os (bt_pager b) L"
  shows "tree_at kc vc (bt_pager b) L lo hi t \<Longrightarrow> le_opt lo key \<Longrightarrow> lt_opt key hi \<Longrightarrow> tree_height t \<le> n \<Longrightarrow>
     page_count (bt_pager b) + tree_height t < u32_max \<Longrightarrow> bm_get (tree_entries t) key = Some val \<Longrightarrow>
     \<exists>p' L' F q. delete_rec n os kc vc (root_id t) key b =
         Ok (\<lparr> bt_pager = p', pending_free = pending_free b @ F \<rparr>, q, Some val) \<and>
       pager_rep os p' L' \<and> L \<subseteq> L' \<and> kept (bt_pager b) p' L \<and> page_count p' \<le> page_count (bt_pager b) + tree_height t \<and>
       distinct F \<and> set F \<subseteq> set (tree_ids t) \<and> q \<notin> L \<and>
       outcome_ok kc vc p' lo hi (bm_del key (tree_entries t)) (tree_height t) ((set (tree_ids t) - set F) \<union> (L' - L)) (Replaced q)"
proof (induction t arbitrary: lo hi n)
  case (Lf i es)
  obtain n' where n: "n = Suc n'" using Lf.prems(4) by (cases n) auto
  have st: "node_type (page_at (bt_pager b) i) = Ok LEAF" "leaf_decode kc vc (page_at (bt_pager b) i) = Ok es"
    "length es \<le> leaf_capacity (page_size (bt_pager b)) (fc_len kc) (fc_len vc)"
    and o: "bm_ok es" "\<forall>e \<in> set es. le_opt lo (fst e) \<and> lt_opt (fst e) hi" and i: "i \<in> L"
    using Lf.prems(1) by (simp_all add: tree_at_def)
  obtain idx where idx: "binary_search (map fst es) key = Inl idx"
    using leaf_search [OF o(1), of key] Lf.prems(6) by (cases "binary_search (map fst es) key") auto
  note d = leaf_del [OF o(1) idx]
  have v: "snd (es ! idx) = val" using d(2) Lf.prems(6) by simp
  have "page_count (bt_pager b) < u32_max" using Lf.prems(5) by simp
  from remove_entry [OF rep fits this st(2) o(1) st(3) o(2), of key] obtain p1 q p2 where
    w: "bt_alloc os b = Ok (b\<lparr> bt_pager := p1 \<rparr>, q)"
      "bt_fill q (encode_leaf kc vc (bm_del key es)) (b\<lparr> bt_pager := p1 \<rparr>) = Ok (b\<lparr> bt_pager := p2 \<rparr>)"
      "q \<notin> L" "pager_rep os p2 (insert q L)" "kept (bt_pager b) p2 L" "page_count p2 \<le> Suc (page_count (bt_pager b))"
      "tree_at kc vc p2 {q} lo hi (Lf q (bm_del key es))" by blast
  have run: "delete_rec n os kc vc (root_id (Lf i es)) key b =
      Ok (\<lparr> bt_pager = p2, pending_free = pending_free b @ [i] \<rparr>, q, Some val)"
    using read_page_ok [OF rep i] st(1,2) idx d(1) v w(1,2) by (simp add: n bt_replace_def)
  have pages: "(set (tree_ids (Lf i es)) - set [i]) \<union> (insert q L - L) = {q}" using w(3) by auto
  have "outcome_ok kc vc p2 lo hi (bm_del key (tree_entries (Lf i es))) (tree_height (Lf i es)) {q} (Replaced q)"
    unfolding outcome_ok.simps using w(7) by (intro exI [of _ "Lf q (bm_del key es)"]) simp
  with run pages w(3-6) show ?case
    by (intro exI [of _ p2] exI [of _ "insert q L"] exI [of _ "[i]"] exI [of _ q]) (auto simp del: outcome_ok.simps)
next
  case (Nd i ks ts)
  obtain n' where n: "n = Suc n'" using Nd.prems(4) by (cases n) auto
  let ?b = "bt_pager b"
  have st: "node_type (page_at ?b i) = Ok INTERNAL" "internal_decode kc (page_at ?b i) = Ok (ks, map root_id ts)"
    "length ks \<le> internal_capacity (page_size ?b) (fc_len kc)" and o: "ordered lo hi (Nd i ks ts)" and i: "i \<in> L"
    using Nd.prems(1) by (simp_all add: tree_at_def)
  define j where "j = partition_point (\<lambda>k. k \<le> key) ks"
  note r = route [OF o Nd.prems(2,3), folded j_def]
  have cj: "ts ! j \<in> set ts" using r(1) by simp
  have hj: "Suc (tree_height (ts ! j)) \<le> tree_height (Nd i ks ts)" by (rule child_height [OF cj])
  have sizes: "tree_height (ts ! j) \<le> n'" "page_count ?b + tree_height (ts ! j) < u32_max"
    using hj Nd.prems(4,5) n by linarith+
  have "bm_get (tree_entries (ts ! j)) key = Some val"
    using Nd.prems(6) unfolding route_get [OF o Nd.prems(2,3), folded j_def] .
  from Nd.IH [OF cj tree_at_child [OF Nd.prems(1) r(1,8)] r(9,10) sizes this] obtain p1 L1 F c where
    w: "delete_rec n' os kc vc (root_id (ts ! j)) key b = Ok (\<lparr> bt_pager = p1, pending_free = pending_free b @ F \<rparr>, c, Some val)"
      "pager_rep os p1 L1" "L \<subseteq> L1" "kept ?b p1 L" "page_count p1 \<le> page_count ?b + tree_height (ts ! j)"
      "distinct F" "set F \<subseteq> set (tree_ids (ts ! j))" "c \<notin> L"
      "outcome_ok kc vc p1 (lower lo (take j ks)) (upper hi (drop j ks)) (bm_del key (tree_entries (ts ! j)))
         (tree_height (ts ! j)) ((set (tree_ids (ts ! j)) - set F) \<union> (L1 - L)) (Replaced c)" by blast
  define h where "h = foldr max (map tree_height ts) 0"
  have h: "\<forall>u \<in> set ts. tree_height u \<le> h" using foldr_max [of _ "map tree_height ts"] by (auto simp: h_def)
  have out: "outcome_ok kc vc p1 (lower lo (take j ks)) (upper hi (drop j ks)) (bm_del key (tree_entries (ts ! j))) h
      ((set (tree_ids (ts ! j)) - set F) \<union> (L1 - L)) (Replaced c)"
    using outcome_ok_mono [OF w(9)] h cj by blast
  let ?S = "(set (tree_ids (Nd i ks ts)) - insert i (set F)) \<union> (L1 - L)"
  from updated_forest [OF Nd.prems(1,2,3) j_def w(4,3,7) out h, unfolded insert_outcome.case] obtain us where
    us: "(map root_id ts)[j := c] = map root_id us" "forest_at kc vc p1 ?S lo hi ks us"
      "concat (map tree_entries us) = concat (map tree_entries (take j ts)) @ bm_del key (tree_entries (ts ! j)) @
        concat (map tree_entries (drop (Suc j) ts))" "\<forall>u \<in> set us. tree_height u \<le> h" by blast
  let ?b1 = "\<lparr> bt_pager = p1, pending_free = pending_free b @ F \<rparr>"
  have ps: "page_size p1 = page_size ?b" using w(4) by (simp add: kept_def)
  have sub: "?S \<subseteq> L1" using Nd.prems(1) w(3) unfolding tree_at_def by blast
  have pre: "pager_rep os (bt_pager ?b1) L1" "fits kc vc (page_size (bt_pager ?b1))" "page_count (bt_pager ?b1) < u32_max"
    "forest_at kc vc (bt_pager ?b1) ?S lo hi ks us" "length ks \<le> internal_capacity (page_size (bt_pager ?b1)) (fc_len kc)"
    using w(2,5) fits ps hj Nd.prems(5) us(2) st(3) by simp_all
  from write_node [OF pre(1-4) sub internal_keys_ok [OF st(2)] pre(5) us(4)] obtain p2 q p3 where
    x: "bt_alloc os ?b1 = Ok (?b1\<lparr> bt_pager := p2 \<rparr>, q)"
      "bt_fill q (encode_internal kc ks (map root_id us)) (?b1\<lparr> bt_pager := p2 \<rparr>) = Ok (?b1\<lparr> bt_pager := p3 \<rparr>)"
      "q \<notin> L1" "pager_rep os p3 (insert q L1)" "kept p1 p3 L1" "page_count p3 \<le> Suc (page_count p1)"
      "outcome_ok kc vc p3 lo hi (concat (map tree_entries us)) (Suc h) (insert q ?S) (Replaced q)"
    by (auto simp del: outcome_ok.simps)
  have "c \<noteq> root_id (ts ! j)"
    using w(8) Nd.prems(1) cj root_in_ids [of "ts ! j"] by (auto simp: tree_at_def)
  then have run: "delete_rec n os kc vc (root_id (Nd i ks ts)) key b =
      Ok (\<lparr> bt_pager = p3, pending_free = pending_free b @ (F @ [i]) \<rparr>, q, Some val)"
    using read_page_ok [OF rep i] st(1,2) r(1) w(1) x(1,2) by (simp add: n node_consts j_def [symmetric] us(1) bt_replace_def)
  have entries: "concat (map tree_entries us) = bm_del key (tree_entries (Nd i ks ts))"
    unfolding us(3) node_entries [OF r(4)] by (simp only: bm_del_middle [OF r(11,12)])
  have pages: "insert q ?S = (set (tree_ids (Nd i ks ts)) - set (F @ [i])) \<union> (insert q L1 - L)"
    using w(3) x(3) by auto
  have freed: "distinct (F @ [i])" "set (F @ [i]) \<subseteq> set (tree_ids (Nd i ks ts))"
  proof -
    have "i \<notin> set (tree_ids (ts ! j))" using Nd.prems(1) cj by (auto simp: tree_at_def)
    then show "distinct (F @ [i])" using w(6,7) by auto
    show "set (F @ [i]) \<subseteq> set (tree_ids (Nd i ks ts))" using w(7) cj by auto
  qed
  have kept: "kept ?b p3 L" by (rule kept_trans [OF w(4) x(5) w(3)])
  have count: "page_count p3 \<le> page_count ?b + tree_height (Nd i ks ts)" using x(6) w(5) hj by linarith
  have height: "tree_height (Nd i ks ts) = Suc h" by (simp add: h_def)
  have new: "L \<subseteq> insert q L1" "q \<notin> L" using w(3) x(3) by auto
  have shape: "outcome_ok kc vc p3 lo hi (bm_del key (tree_entries (Nd i ks ts))) (tree_height (Nd i ks ts))
      ((set (tree_ids (Nd i ks ts)) - set (F @ [i])) \<union> (insert q L1 - L)) (Replaced q)"
    using x(7) unfolding entries pages height .
  show ?case
    by (rule exI [of _ p3], rule exI [of _ "insert q L1"], rule exI [of _ "F @ [i]"], rule exI [of _ q])
      (intro conjI run x(4) kept count freed shape new)
qed

lemma btree_delete_spec:
  assumes rep: "tree_rep os kc vc b m" and room: "room_left b"
  shows "\<exists>b'. btree_delete os kc vc key b = Ok (b', bm_get m key) \<and> tree_rep os kc vc b' (bm_del key m) \<and>
    page_count (bt_pager b') \<le> 2 * page_count (bt_pager b) \<and> page_size (bt_pager b') = page_size (bt_pager b)"
  using rep
proof (cases rule: rep_cases)
  case Empty
  then show ?thesis using rep
    by (intro exI [of _ "b\<lparr> pending_free := [] \<rparr>"]) (simp add: btree_delete_def Let_def bm_get_def bm_del_def tree_rep_def)
next
  case (Tree L t)
  let ?b = "b\<lparr> pending_free := [] \<rparr>" and ?n = "page_count (bt_pager b)"
  have fits: "fits kc vc (page_size (bt_pager b))" using rep by (simp add: tree_rep_def)
  have pre: "fits kc vc (page_size (bt_pager ?b))" "pager_rep os (bt_pager ?b) L" "tree_at kc vc (bt_pager ?b) L None None t"
    "page_count (bt_pager ?b) + tree_height t < u32_max" "tree_height t \<le> ?n"
    using fits Tree room by (simp_all add: room_left_def)
  show ?thesis
  proof (cases "bm_get m key")
    case None
    then have "delete_rec ?n os kc vc (root_id t) key ?b = Ok (?b, root_id t, None)"
      using delete_missing [OF pre(2,3) _ _ pre(5), of key] Tree(6) by simp
    then show ?thesis using rep None Tree(2,3) bm_del_missing [OF None]
      by (intro exI [of _ ?b]) (simp add: btree_delete_def Let_def tree_rep_def)
  next
    case (Some v)
    with delete_rec_spec [OF pre(1,2,3) _ _ pre(5,4), of key v] obtain p' L' F q where
      w: "delete_rec ?n os kc vc (root_id t) key ?b = Ok (\<lparr> bt_pager = p', pending_free = F \<rparr>, q, Some v)"
        "pager_rep os p' L'" "L \<subseteq> L'" "kept (bt_pager b) p' L" "page_count p' \<le> ?n + tree_height t"
        "distinct F" "set F \<subseteq> L" "q \<notin> L"
        "outcome_ok kc vc p' None None (bm_del key m) (tree_height t) ((L - set F) \<union> (L' - L)) (Replaced q)"
      using Tree(5,6) by (auto simp del: outcome_ok.simps)
    have pages: "(L - set F) \<union> (L' - L) = L' - set F" by (rule remaining [OF refl w(7,3)])
    from w(9) obtain u where u: "root_id u = q" "tree_at kc vc p' (L' - set F) None None u" "set (tree_ids u) = L' - set F"
      "tree_entries u = bm_del key m" unfolding pages by auto
    have F: "set F \<subseteq> L'" using w(3,7) by blast
    have ps: "page_size p' = page_size (bt_pager b)" using w(4) by (simp add: kept_def)
    have "fits kc vc (page_size p')" using fits ps by simp
    from commit_spec [OF w(2) this tree_at_wider [OF u(2)] u(3) w(6) F] obtain p3 where
      c: "obind (bt_publish os q \<lparr> bt_pager = p', pending_free = F \<rparr>) (bt_free_pending os) = Ok \<lparr> bt_pager = p3, pending_free = [] \<rparr>"
        "tree_rep os kc vc \<lparr> bt_pager = p3, pending_free = [] \<rparr> (bm_del key m)" "page_count p3 = page_count p'" "page_size p3 = page_size p'"
      unfolding u(1,4) by auto
    obtain t1 where t1: "bt_publish os q \<lparr> bt_pager = p', pending_free = F \<rparr> = Ok t1"
      "bt_free_pending os t1 = Ok \<lparr> bt_pager = p3, pending_free = [] \<rparr>" using c(1) by (auto simp: obind_eq_Ok)
    have "q \<noteq> root_id t" using w(8) root_in_ids [of t] Tree(5) by auto
    then have "btree_delete os kc vc key b = Ok (\<lparr> bt_pager = p3, pending_free = [] \<rparr>, bm_get m key)"
      using w(1) t1 Tree(2,3) Some by (simp add: btree_delete_def Let_def)
    moreover have "page_count p' \<le> 2 * ?n" using w(5) Tree(7) by linarith
    ultimately show ?thesis using c ps by (intro exI [of _ "\<lparr> bt_pager = p3, pending_free = [] \<rparr>"]) simp
  qed
qed

end

section \<open>Creating and reopening\<close>

lemma btree_create_spec:
  assumes "os_page_ok os" "fits kc vc ps" "HEADER_ENCODED_LEN \<le> ps" "fc_len kc \<le> u16_max" "fc_len vc \<le> u16_max"
  shows "\<exists>b. btree_create os ps kc vc = Ok b \<and> tree_rep os kc vc b [] \<and> page_size (bt_pager b) = ps \<and>
    page_count (bt_pager b) = 1"
proof -
  have "ps \<le> 65536" using assms(2) by (simp add: fits_def)
  from pager_create_spec [OF assms(1,3) this assms(4,5)] obtain p where
    p: "pager_create os ps (fc_len kc) (fc_len vc) = Ok p" "pager_rep os p {}" "root_page p = 0" "page_size p = ps" "page_count p = 1"
    by blast
  then show ?thesis using assms(2,4,5)
    by (intro exI [of _ "\<lparr> bt_pager = p, pending_free = [] \<rparr>"]) (auto simp: btree_create_def tree_rep_def)
qed

lemma reopened_spec:
  assumes rep: "tree_rep os kc vc b m"
  shows "\<exists>b'. btree_open os (disk_image (bt_pager b)) True = Ok b' \<and> tree_rep os kc vc b' m \<and>
    page_count (bt_pager b') = page_count (bt_pager b)"
proof -
  have fits: "fits kc vc (page_size (bt_pager b))" using rep by (simp add: tree_rep_def)
  from rep obtain L where L: "pager_rep os (bt_pager b) L" and
    c: "root_page (bt_pager b) = 0 \<and> L = {} \<and> m = [] \<or>
         (\<exists>t. root_page (bt_pager b) = root_id t \<and> tree_at kc vc (bt_pager b) L None None t \<and>
            set (tree_ids t) = L \<and> tree_entries t = m)" by (auto simp: tree_rep_def)
  from pager_reopened [OF L, of True] obtain p' where
    p': "pager_open os (disk_image (bt_pager b)) True = Ok p'" "hdr p' = hdr (bt_pager b)" "mem p' = mem (bt_pager b)"
      "pager_rep os p' L" by auto
  have "page_at p' x = page_at (bt_pager b) x" for x by (simp add: page_at_def p'(2,3))
  then have "tree_at kc vc p' L None None t" if "tree_at kc vc (bt_pager b) L None None t" for t
    using that stored_pages [of kc vc "bt_pager b" t p'] p'(2) by (simp add: tree_at_def)
  with c have "tree_rep os kc vc \<lparr> bt_pager = p', pending_free = [] \<rparr> m"
    unfolding tree_rep_def using p'(2,4) fits by (intro conjI exI [of _ L]) auto
  with p'(1,2) show ?thesis by (intro exI [of _ "\<lparr> bt_pager = p', pending_free = [] \<rparr>"]) (simp add: btree_open_def)
qed

section \<open>The interface of an ordered index\<close>

datatype ('k, 'v) index_op = Put 'k 'v | Remove 'k

primrec map_op :: "('k::linorder, 'v) index_op \<Rightarrow> ('k, 'v) btree_map \<Rightarrow> ('k, 'v) btree_map" where
  "map_op (Put k v) m = bm_put k v m"
| "map_op (Remove k) m = bm_del k m"

primrec op_ok :: "('k \<Rightarrow> bool) \<Rightarrow> ('v \<Rightarrow> bool) \<Rightarrow> ('k, 'v) index_op \<Rightarrow> bool" where
  "op_ok kok vok (Put k v) \<longleftrightarrow> kok k \<and> vok v"
| "op_ok kok vok (Remove k) \<longleftrightarrow> True"

locale ordered_index =
  fixes rep :: "'s \<Rightarrow> ('k::linorder, 'v) btree_map \<Rightarrow> bool"
    and room :: "'s \<Rightarrow> bool"
    and kok :: "'k \<Rightarrow> bool" and vok :: "'v \<Rightarrow> bool"
    and get :: "'s \<Rightarrow> 'k \<Rightarrow> 'v option result"
    and put :: "'k \<Rightarrow> 'v \<Rightarrow> 's \<Rightarrow> 's result"
    and del :: "'k \<Rightarrow> 's \<Rightarrow> ('s \<times> 'v option) result"
    and scan :: "'s \<Rightarrow> ('k \<times> 'v) list result"
  assumes rep_ok: "rep s m \<Longrightarrow> bm_ok m"
    and get_rep: "rep s m \<Longrightarrow> get s k = Ok (bm_get m k)"
    and scan_rep: "rep s m \<Longrightarrow> scan s = Ok m"
    and put_rep: "rep s m \<Longrightarrow> room s \<Longrightarrow> kok k \<Longrightarrow> vok v \<Longrightarrow> \<exists>s'. put k v s = Ok s' \<and> rep s' (bm_put k v m)"
    and del_rep: "rep s m \<Longrightarrow> room s \<Longrightarrow> \<exists>s'. del k s = Ok (s', bm_get m k) \<and> rep s' (bm_del k m)"
begin

primrec step :: "('k, 'v) index_op \<Rightarrow> 's \<Rightarrow> 's result" where
  "step (Put k v) s = put k v s"
| "step (Remove k) s = omap fst (del k s)"

primrec run :: "('k, 'v) index_op list \<Rightarrow> 's \<Rightarrow> 's result" where
  "run [] s = Ok s"
| "run (x # xs) s = obind (step x s) (run xs)"

primrec has_room :: "('k, 'v) index_op list \<Rightarrow> 's \<Rightarrow> bool" where
  "has_room [] s \<longleftrightarrow> True"
| "has_room (x # xs) s \<longleftrightarrow> room s \<and> (\<forall>s'. step x s = Ok s' \<longrightarrow> has_room xs s')"

lemma step_rep: "rep s m \<Longrightarrow> room s \<Longrightarrow> op_ok kok vok x \<Longrightarrow> \<exists>s'. step x s = Ok s' \<and> rep s' (map_op x m)"
  using put_rep del_rep by (cases x) fastforce+

lemma run_rep:
  "rep s m \<Longrightarrow> has_room xs s \<Longrightarrow> list_all (op_ok kok vok) xs \<Longrightarrow> \<exists>s'. run xs s = Ok s' \<and> rep s' (fold map_op xs m)"
proof (induction xs arbitrary: s m)
  case (Cons x xs)
  from step_rep [OF Cons.prems(1)] Cons.prems(2,3) obtain s1 where "step x s = Ok s1" "rep s1 (map_op x m)" by auto
  with Cons show ?case by auto
qed simp

lemma scan_sorted: "rep s m \<Longrightarrow> \<exists>es. scan s = Ok es \<and> strict (map fst es) \<and> (\<forall>k. get s k = Ok (map_of es k))"
  using rep_ok scan_rep get_rep by (simp add: bm_ok_def bm_get_def)

lemma get_after_put: "rep s m \<Longrightarrow> put k v s = Ok s' \<Longrightarrow> room s \<Longrightarrow> kok k \<Longrightarrow> vok v \<Longrightarrow>
    get s' k' = (if k' = k then Ok (Some v) else get s k')"
  using put_rep [of s m k v] get_rep rep_ok [of s m] by (auto simp: bm_get_put)

lemma get_after_del: "rep s m \<Longrightarrow> del k s = Ok (s', r) \<Longrightarrow> room s \<Longrightarrow>
    r = (case get s k of Ok v \<Rightarrow> v | _ \<Rightarrow> None) \<and> get s' k' = (if k' = k then Ok None else get s k')"
  using del_rep [of s m k] get_rep rep_ok [of s m] by (auto simp: bm.get_del)

end

sublocale node_codec \<subseteq> index: ordered_index "tree_rep os kc vc" room_left kok vok "btree_get kc vc" "btree_insert os kc vc"
  "btree_delete os kc vc" "btree_scan_all kc vc" for os
proof unfold_locales
  fix s m k v assume "tree_rep os kc vc s m" "room_left s" "kok k" "vok v"
  from btree_insert_spec [OF this] show "\<exists>s'. btree_insert os kc vc k v s = Ok s' \<and> tree_rep os kc vc s' (bm_put k v m)" by blast
next
  fix s m k assume "tree_rep os kc vc s m" "room_left s"
  from btree_delete_spec [OF this]
  show "\<exists>s'. btree_delete os kc vc k s = Ok (s', bm_get m k) \<and> tree_rep os kc vc s' (bm_del k m)" by blast
qed (simp_all add: rep_entries btree_get_spec btree_scan_spec)

text \<open>The three indexes of the engine: identifiers to slots, and the two directions of ordinals.\<close>

interpretation primary: node_codec tuid_codec wf_tuid slot_pointer_codec slot_pointer_ok
  by unfold_locales

interpretation ordinal_by_id: node_codec tuid_codec wf_tuid ordinal_codec "\<lambda>n. n \<le> u32_max"
  by unfold_locales

interpretation id_by_ordinal: node_codec ordinal_codec "\<lambda>n. n \<le> u32_max" tuid_codec wf_tuid
  by unfold_locales

lemma engine_indexes_fit:
  "fits tuid_codec slot_pointer_codec 4096" "fits tuid_codec ordinal_codec 4096" "fits ordinal_codec tuid_codec 4096"
  by (simp_all add: fits_def leaf_capacity_def internal_capacity_def node_consts tuid_codec_def slot_pointer_codec_def
      ordinal_codec_def TUID_LEN_def SLOT_POINTER_LEN_def)

section \<open>Updates in progress\<close>

text \<open>
  An insertion and a deletion up to the moment before they publish the new root: the tree with every page written, the new
  root and what is removed.
\<close>

definition insert_written ::
  "nat \<Rightarrow> 'k::linorder fixed_codec \<Rightarrow> 'v fixed_codec \<Rightarrow> 'k \<Rightarrow> 'v \<Rightarrow> btree \<Rightarrow> (btree \<times> nat) result" where
  "insert_written os kc vc key value t =
     (let t = t\<lparr> pending_free := [] \<rparr>; root = root_page (bt_pager t) in
      if root = 0 then
        obind (bt_alloc os t) (\<lambda>(t, leaf_id).
        omap (\<lambda>t. (t, leaf_id)) (bt_fill leaf_id (encode_leaf kc vc [(key, value)]) t))
      else
        obind (insert_rec (page_count (bt_pager t)) os kc vc root key value t) (\<lambda>(t, outcome).
        case outcome of
          Replaced new_id \<Rightarrow> Ok (t, new_id)
        | Split left sep right \<Rightarrow>
            obind (bt_alloc os t) (\<lambda>(t, new_root_id).
            omap (\<lambda>t. (t, new_root_id)) (bt_fill new_root_id (encode_internal kc [sep] [left, right]) t))))"

definition delete_written ::
  "nat \<Rightarrow> 'k::linorder fixed_codec \<Rightarrow> 'v fixed_codec \<Rightarrow> 'k \<Rightarrow> btree \<Rightarrow> (btree \<times> nat \<times> 'v option) result" where
  "delete_written os kc vc key t =
     (let t = t\<lparr> pending_free := [] \<rparr>; root = root_page (bt_pager t) in
      if root = 0 then Ok (t, 0, None) else delete_rec (page_count (bt_pager t)) os kc vc root key t)"

lemma insert_publishes:
  "btree_insert os kc vc key val b =
     obind (insert_written os kc vc key val b) (\<lambda>(t, new_root). obind (bt_publish os new_root t) (bt_free_pending os))"
  by (simp add: btree_insert_def insert_written_def Let_def)

lemma delete_publishes:
  "btree_delete os kc vc key b =
     obind (delete_written os kc vc key b) (\<lambda>(t, new_root, removed).
       if new_root \<noteq> root_page (bt_pager b)
       then obind (bt_publish os new_root t) (\<lambda>t. omap (\<lambda>t. (t, removed)) (bt_free_pending os t))
       else Ok (t, removed))"
  by (simp add: btree_delete_def delete_written_def Let_def)

text \<open>The tree is read as \<open>m\<close>, now and after closing the file and opening it again.\<close>

definition read_as :: "nat \<Rightarrow> 'k::linorder fixed_codec \<Rightarrow> 'v fixed_codec \<Rightarrow> btree \<Rightarrow> ('k \<times> 'v) list \<Rightarrow> bool" where
  "read_as os kc vc b m \<longleftrightarrow> (\<forall>j. btree_get kc vc b j = Ok (map_of m j)) \<and> btree_scan_all kc vc b = Ok m \<and>
     (\<exists>c. btree_open os (disk_image (bt_pager b)) True = Ok c \<and> (\<forall>j. btree_get kc vc c j = Ok (map_of m j)) \<and> btree_scan_all kc vc c = Ok m)"

context node_codec
begin

text \<open>New pages beside the old ones change no lookup, also after reopening the file.\<close>

lemma reads_kept:
  assumes t: "tree_at kc vc p L None None t" "root_page p = root_id t"
    and new: "pager_rep os p' L'" "L \<subseteq> L'" "kept p p' L"
  shows "btree_get kc vc \<lparr> bt_pager = p', pending_free = F \<rparr> key = Ok (bm_get (tree_entries t) key)"
    and "btree_scan_all kc vc \<lparr> bt_pager = p', pending_free = F \<rparr> = Ok (tree_entries t)"
    and "\<exists>b. btree_open os (disk_image p') True = Ok b \<and> btree_get kc vc b key = Ok (bm_get (tree_entries t) key) \<and>
      btree_scan_all kc vc b = Ok (tree_entries t)"
proof -
  have t': "tree_at kc vc p' L' None None t" by (rule tree_at_kept [OF t(1) new(3,2)])
  have r: "root_page p' = root_id t" using new(3) t(2) by (simp add: kept_def)
  show "btree_get kc vc \<lparr> bt_pager = p', pending_free = F \<rparr> key = Ok (bm_get (tree_entries t) key)"
    by (rule get_tree [of os _ L']) (simp_all add: new(1) t' r)
  show "btree_scan_all kc vc \<lparr> bt_pager = p', pending_free = F \<rparr> = Ok (tree_entries t)"
    by (rule scan_tree [of os _ L']) (simp_all add: new(1) t' r)
  from pager_reopened [OF new(1), of True] obtain q where
    q: "pager_open os (disk_image p') True = Ok q" "hdr q = hdr p'" "mem q = mem p'" "pager_rep os q L'" by auto
  have at: "page_at q x = page_at p' x" for x by (simp add: page_at_def q(2,3))
  have "stored kc vc p' t" using t' by (simp add: tree_at_def)
  then have "stored kc vc q t" by (rule stored_pages) (simp_all add: q(2) at)
  then have tq: "tree_at kc vc q L' None None t" using t' by (simp add: tree_at_def)
  let ?b = "\<lparr> bt_pager = q, pending_free = [] \<rparr>"
  have "btree_get kc vc ?b key = Ok (bm_get (tree_entries t) key)"
    by (rule get_tree [of os _ L']) (simp_all add: q(2,4) tq r)
  moreover have "btree_scan_all kc vc ?b = Ok (tree_entries t)"
    by (rule scan_tree [of os _ L']) (simp_all add: q(2,4) tq r)
  ultimately show "\<exists>b. btree_open os (disk_image p') True = Ok b \<and> btree_get kc vc b key = Ok (bm_get (tree_entries t) key) \<and>
      btree_scan_all kc vc b = Ok (tree_entries t)"
    using q(1) by (intro exI [of _ ?b]) (simp add: btree_open_def)
qed

lemma insert_in_progress:
  assumes rep: "tree_rep os kc vc b m" and room: "room_left b" and ok: "kok key" "vok val" and root: "root_page (bt_pager b) \<noteq> 0"
  shows "\<exists>b' out. insert_rec (page_count (bt_pager b)) os kc vc (root_page (bt_pager b)) key val (b\<lparr> pending_free := [] \<rparr>) = Ok (b', out) \<and>
    btree_get kc vc b' j = Ok (bm_get m j) \<and> btree_scan_all kc vc b' = Ok m \<and>
    (\<exists>c. btree_open os (disk_image (bt_pager b')) True = Ok c \<and> btree_get kc vc c j = Ok (bm_get m j) \<and> btree_scan_all kc vc c = Ok m)"
  using rep
proof (cases rule: rep_cases)
  case Empty
  with root show ?thesis by simp
next
  case (Tree L t)
  let ?b = "b\<lparr> pending_free := [] \<rparr>"
  have "fits kc vc (page_size (bt_pager ?b))" "pager_rep os (bt_pager ?b) L" "tree_at kc vc (bt_pager ?b) L None None t"
    "page_count (bt_pager ?b) + 2 * tree_height t < u32_max" "tree_height t \<le> page_count (bt_pager b)"
    using rep Tree room by (simp_all add: room_left_def tree_rep_def)
  with insert_rec_spec [of ?b key val os L None None t "page_count (bt_pager b)"] ok obtain p' L' F out where
    w: "insert_rec (page_count (bt_pager b)) os kc vc (root_id t) key val ?b = Ok (\<lparr> bt_pager = p', pending_free = F \<rparr>, out)"
      "pager_rep os p' L'" "L \<subseteq> L'" "kept (bt_pager b) p' L" by (auto simp del: outcome_ok.simps)
  from reads_kept [OF Tree(4,2) w(2,3,4)] Tree(2,6) w(1)
  show ?thesis by (intro exI [of _ "\<lparr> bt_pager = p', pending_free = F \<rparr>"] exI [of _ out]) simp
qed

lemma empty_reads:
  assumes "pager_rep os p' L'" and "root_page p' = 0"
  shows "read_as os kc vc \<lparr> bt_pager = p', pending_free = F \<rparr> []"
proof -
  from pager_reopened [OF assms(1), of True] obtain q where q: "pager_open os (disk_image p') True = Ok q" "hdr q = hdr p'" by auto
  then show ?thesis using assms(2)
    by (auto simp: read_as_def btree_get_def btree_scan_all_def btree_open_def Let_def intro!: exI [of _ "\<lparr> bt_pager = q, pending_free = [] \<rparr>"])
qed

lemma kept_reads:
  assumes "tree_at kc vc p L None None t" and "root_page p = root_id t" and "pager_rep os p' L'" and "L \<subseteq> L'" and "kept p p' L"
  shows "read_as os kc vc \<lparr> bt_pager = p', pending_free = F \<rparr> (tree_entries t)"
proof -
  have t': "tree_at kc vc p' L' None None t" by (rule tree_at_kept [OF assms(1,5,4)])
  have r: "root_page p' = root_id t" using assms(2,5) by (simp add: kept_def)
  have now: "btree_get kc vc \<lparr> bt_pager = p', pending_free = F \<rparr> j = Ok (bm_get (tree_entries t) j)" for j
    by (rule reads_kept(1) [OF assms])
  have all: "btree_scan_all kc vc \<lparr> bt_pager = p', pending_free = F \<rparr> = Ok (tree_entries t)"
    by (rule reads_kept(2) [OF assms])
  note opened = reads_kept(3) [OF assms]
  obtain c where c: "btree_open os (disk_image p') True = Ok c" "btree_scan_all kc vc c = Ok (tree_entries t)" using opened by blast
  have "btree_get kc vc c j = Ok (bm_get (tree_entries t) j)" for j using opened [of j] c(1) by auto
  then show ?thesis using now all c unfolding read_as_def bm_get_def by auto
qed

lemma insert_unpublished:
  assumes rep: "tree_rep os kc vc b m" and room: "room_left b" and ok: "kok key" "vok val"
  shows "\<exists>b1 new_root. insert_written os kc vc key val b = Ok (b1, new_root) \<and> read_as os kc vc b1 m"
  using rep
proof (cases rule: rep_cases)
  case Empty
  let ?b = "b\<lparr> pending_free := [] \<rparr>"
  have fits: "fits kc vc (page_size (bt_pager b))" using rep by (simp add: tree_rep_def)
  have one: "entries_ok [(key, val)]" using ok by (simp add: entries_ok_def)
  have fit: "length [(key, val)] \<le> leaf_capacity (page_size (bt_pager b)) (fc_len kc) (fc_len vc)"
    using fits by (simp add: fits_def)
  from leaf_page [OF fits one fit] obtain bs where bs: "encode_leaf kc vc [(key, val)] (page_size (bt_pager ?b)) = Ok bs" "length bs = page_size (bt_pager ?b)"
    by auto
  have "pager_rep os (bt_pager ?b) {}" "page_count (bt_pager ?b) < u32_max"
    using Empty(1) room by (simp_all add: room_left_def)
  from write_one [of os ?b "{}" "encode_leaf kc vc [(key, val)]", OF this bs] obtain p1 q p2 where
    w: "bt_alloc os ?b = Ok (?b\<lparr> bt_pager := p1 \<rparr>, q)" "bt_fill q (encode_leaf kc vc [(key, val)]) (?b\<lparr> bt_pager := p1 \<rparr>) = Ok (?b\<lparr> bt_pager := p2 \<rparr>)"
    "pager_rep os p2 {q}" "kept (bt_pager ?b) p2 {}" by auto
  have "root_page p2 = 0" using w(4) Empty(2) by (simp add: kept_def)
  from empty_reads [OF w(3) this, of "[]"] show ?thesis using w(1,2) Empty(2,3)
    by (intro exI [of _ "\<lparr> bt_pager = p2, pending_free = [] \<rparr>"] exI [of _ q]) (simp add: insert_written_def Let_def)
next
  case (Tree L t)
  let ?b = "b\<lparr> pending_free := [] \<rparr>" and ?n = "page_count (bt_pager b)"
  have fits: "fits kc vc (page_size (bt_pager b))" using rep by (simp add: tree_rep_def)
  have "fits kc vc (page_size (bt_pager ?b))" "pager_rep os (bt_pager ?b) L" "tree_at kc vc (bt_pager ?b) L None None t"
    "page_count (bt_pager ?b) + 2 * tree_height t < u32_max" "tree_height t \<le> ?n"
    using fits Tree room by (simp_all add: room_left_def)
  with insert_rec_spec [of ?b key val os L None None t ?n] ok obtain p' L' F out where
    w: "insert_rec ?n os kc vc (root_id t) key val ?b = Ok (\<lparr> bt_pager = p', pending_free = F \<rparr>, out)"
      "pager_rep os p' L'" "L \<subseteq> L'" "kept (bt_pager b) p' L" "page_count p' \<le> ?n + 2 * tree_height t"
      "set F \<subseteq> L" "outcome_ok kc vc p' None None (bm_put key val m) (tree_height t) ((L - set F) \<union> (L' - L)) out"
      "\<forall>l s r. out = Split l s r \<longrightarrow> kok s"
    using Tree(5,6) by (auto simp del: outcome_ok.simps)
  show ?thesis
  proof (cases out)
    case (Replaced i)
    from kept_reads [OF Tree(4,2) w(2-4), of F] show ?thesis using w(1) Tree(2,3,6) Replaced
      by (intro exI [of _ "\<lparr> bt_pager = p', pending_free = F \<rparr>"] exI [of _ i]) (simp add: insert_written_def Let_def)
  next
    case (Split l s r)
    have pages: "(L - set F) \<union> (L' - L) = L' - set F" by (rule remaining [OF refl w(6,3)])
    from Split w(7) obtain u v where u: "root_id u = l" "root_id v = r" "tree_at kc vc p' (L' - set F) None (Some s) u"
      "tree_at kc vc p' (L' - set F) (Some s) None v" "distinct (tree_ids u @ tree_ids v)"
      "set (tree_ids u) \<union> set (tree_ids v) = L' - set F"
      unfolding pages by auto
    let ?b' = "\<lparr> bt_pager = p', pending_free = F \<rparr>"
    have s: "kok s" using w(8) Split by simp
    have ps: "page_size p' = page_size (bt_pager b)" using w(4) by (simp add: kept_def)
    have pre: "pager_rep os (bt_pager ?b') L'" "fits kc vc (page_size (bt_pager ?b'))" "page_count (bt_pager ?b') < u32_max"
      "tree_at kc vc (bt_pager ?b') (L' - set F) None (Some s) u" "tree_at kc vc (bt_pager ?b') (L' - set F) (Some s) None v"
      using w(2,5) fits ps room Tree(7) u(3,4) by (simp_all add: room_left_def)
    from root_split [OF pre(1-3) s pre(4,5) u(5,6)] obtain p1 q p2 where
      x: "bt_alloc os ?b' = Ok (?b'\<lparr> bt_pager := p1 \<rparr>, q)"
        "bt_fill q (encode_internal kc [s] [root_id u, root_id v]) (?b'\<lparr> bt_pager := p1 \<rparr>) = Ok (?b'\<lparr> bt_pager := p2 \<rparr>)"
        "pager_rep os p2 (insert q L')" "kept p' p2 L'" by auto
    have "L \<subseteq> insert q L'" using w(3) by blast
    from kept_reads [OF Tree(4,2) x(3) this kept_trans [OF w(4) x(4) w(3)], of F] show ?thesis using w(1) x(1,2) Tree(2,3,6) Split u(1,2)
      by (intro exI [of _ "\<lparr> bt_pager = p2, pending_free = F \<rparr>"] exI [of _ q]) (simp add: insert_written_def Let_def)
  qed
qed

lemma delete_unpublished:
  assumes rep: "tree_rep os kc vc b m" and room: "room_left b"
  shows "\<exists>b1 new_root. delete_written os kc vc key b = Ok (b1, new_root, map_of m key) \<and> read_as os kc vc b1 m"
  using rep
proof (cases rule: rep_cases)
  case Empty
  from empty_reads [OF Empty(1,2), of "[]"] show ?thesis using Empty(2,3)
    by (intro exI [of _ "\<lparr> bt_pager = bt_pager b, pending_free = [] \<rparr>"] exI [of _ 0]) (simp add: delete_written_def Let_def)
next
  case (Tree L t)
  let ?b = "b\<lparr> pending_free := [] \<rparr>" and ?n = "page_count (bt_pager b)"
  have pre: "fits kc vc (page_size (bt_pager ?b))" "pager_rep os (bt_pager ?b) L" "tree_at kc vc (bt_pager ?b) L None None t"
    "page_count (bt_pager ?b) + tree_height t < u32_max" "tree_height t \<le> ?n"
    using rep Tree room by (simp_all add: room_left_def tree_rep_def)
  show ?thesis
  proof (cases "bm_get m key")
    case None
    then have "delete_rec ?n os kc vc (root_id t) key ?b = Ok (?b, root_id t, None)"
      using delete_missing [OF pre(2,3) _ _ pre(5), of key] Tree(6) by simp
    then show ?thesis using kept_reads [OF Tree(4,2,1) subset_refl kept_refl, of "[]"] None Tree(2,3,6)
      by (intro exI [of _ "\<lparr> bt_pager = bt_pager b, pending_free = [] \<rparr>"] exI [of _ "root_id t"]) (simp add: delete_written_def bm_get_def Let_def)
  next
    case (Some v)
    with delete_rec_spec [OF pre(1,2,3) _ _ pre(5,4), of key v] obtain p' L' F q where
      w: "delete_rec ?n os kc vc (root_id t) key ?b = Ok (\<lparr> bt_pager = p', pending_free = F \<rparr>, q, Some v)"
        "pager_rep os p' L'" "L \<subseteq> L'" "kept (bt_pager b) p' L"
      using Tree(6) by (auto simp del: outcome_ok.simps)
    from kept_reads [OF Tree(4,2) w(2-4), of F] show ?thesis using w(1) Tree(2,3,6) Some
      by (intro exI [of _ "\<lparr> bt_pager = p', pending_free = F \<rparr>"] exI [of _ q]) (simp add: delete_written_def bm_get_def Let_def)
  qed
qed

end

end
