(* ===== verification/Gems_Durability.thy ===== *)
theory Gems_Durability
  imports Gems_Index
begin

text \<open>
  The properties of the index files, and what a crash leaves of them. An update becomes visible in one
  write of the root page number, and until then the file still holds the old map; but no page except
  the header is ever passed to \<^verbatim>\<open>msync\<close>, so that what is durable of an index file is its header alone.
\<close>

section \<open>What is synchronised\<close>

definition only_header_durable :: "nat \<Rightarrow> pager \<Rightarrow> bool" where
  "only_header_durable os p \<longleftrightarrow>
     mem_read (synced p) 0 HEADER_ENCODED_LEN = index_header_encode (hdr p) \<and> (\<forall>a \<ge> os. synced p a = 0)"

lemma sync_header_range:
  assumes os: "page_size_ok os" "HEADER_ENCODED_LEN \<le> os" and range: "off + n \<le> HEADER_ENCODED_LEN" "0 < n"
    and run: "sync_range os off n p = Ok p'"
  shows "(\<forall>i. synced p' i = (if i < min os (mapped_len p) then mem p i else synced p i)) \<and> hdr p' = hdr p"
proof -
  obtain j where j: "j < 64" "os = 2 ^ j" using os(1) by (auto simp: page_size_ok_def)
  then have "os \<le> 2 ^ 63" using power_increasing [of j 63 "2 :: nat"] by simp
  moreover have small: "off + n \<le> os" using os(2) range by simp
  ultimately have big: "off + n + os \<le> 2 ^ 64" by simp
  have "off < os" using small range(2) by simp
  then have start: "page_floor os off = 0" using page_floor_eq [OF os(1), of off] big by simp
  have "(off + n + os - 1) div os = 1" using small range(2) by (intro div_nat_eqI) simp_all
  then have last: "round_up_to_os_page os (off + n) = os" using round_up_eq [OF os(1) big] by simp
  show ?thesis using run small by (auto simp: sync_range_def start last msync_def Let_def)
qed

lemma write_header_durable:
  assumes os: "page_size_ok os" "HEADER_ENCODED_LEN \<le> os" and z: "\<forall>a \<ge> os. synced p a = 0"
    and run: "write_header os p = Ok p'"
  shows "only_header_durable os p' \<and> hdr p' = hdr p"
proof -
  have len: "HEADER_ENCODED_LEN \<le> mapped_len p"
    and sync: "sync_range os 0 HEADER_ENCODED_LEN (p\<lparr> mem := mem_write 0 (index_header_encode (hdr p)) (mem p) \<rparr>) = Ok p'"
    using run by (auto simp: write_header_def Let_def put_bytes_def mut_bytes_def file_write_def page_offset_def
        HEADER_PAGE_ID_def obind_eq_Ok split: if_splits)
  have "0 < HEADER_ENCODED_LEN" by (simp add: HEADER_ENCODED_LEN_def)
  from sync_header_range [OF os _ this sync] have
    k: "\<And>i. synced p' i = (if i < min os (mapped_len p) then mem_write 0 (index_header_encode (hdr p)) (mem p) i else synced p i)"
      "hdr p' = hdr p" by simp_all
  have "mem_read (synced p') 0 HEADER_ENCODED_LEN = mem_read (mem_write 0 (index_header_encode (hdr p)) (mem p)) 0 HEADER_ENCODED_LEN"
    using k(1) len os(2) by (intro mem_read_cong) simp
  also have "\<dots> = index_header_encode (hdr p)" by simp
  finally show ?thesis using z k by (auto simp: only_header_durable_def)
qed

lemma durable_fields:
  "only_header_durable os p \<Longrightarrow> synced p' = synced p \<Longrightarrow> hdr p' = hdr p \<Longrightarrow> only_header_durable os p'"
  by (simp add: only_header_durable_def)

lemma durable_zero: "only_header_durable os p \<Longrightarrow> \<forall>a \<ge> os. synced p a = 0"
  by (simp add: only_header_durable_def)

lemma file_write_fields: "file_write a bs p = Ok p' \<Longrightarrow> synced p' = synced p \<and> hdr p' = hdr p"
  by (auto simp: file_write_def split: if_splits)

lemma fill_durable: "fill_page x enc p = Ok p' \<Longrightarrow> only_header_durable os p \<Longrightarrow> only_header_durable os p'"
  by (auto simp: fill_page_def obind_eq_Ok dest!: file_write_fields intro: durable_fields)

lemma allocate_durable:
  assumes os: "page_size_ok os" "HEADER_ENCODED_LEN \<le> os" and p: "only_header_durable os p"
    and run: "allocate_page os p = Ok (p', x)"
  shows "only_header_durable os p'"
proof (cases "ih_free_list_head (hdr p) = 0")
  case False
  with run obtain h p1 bs s where h: "write_header os (p\<lparr> hdr := h \<rparr>) = Ok p1" "file_write s bs p1 = Ok p'"
    by (auto simp: allocate_page_def Let_def obind_eq_Ok)
  have "only_header_durable os p1" using write_header_durable [OF os _ h(1)] durable_zero [OF p] by simp
  then show ?thesis using file_write_fields [OF h(2)] durable_fields by blast
next
  case True
  with run obtain p1 p2 h where h: "ftruncate (page_offset p (page_count p) + page_size p) p = Ok p1"
    "p2 = p1 \<or> (\<exists>n. map_len n p1 = Ok p2)" "write_header os (p2\<lparr> hdr := h \<rparr>) = Ok p'"
    by (auto simp: allocate_page_def Let_def obind_eq_Ok split: if_splits)
  have "\<forall>a \<ge> os. synced p1 a = 0"
    using h(1) durable_zero [OF p] by (auto simp: ftruncate_def Let_def split: if_splits)
  moreover have "synced p2 = synced p1" using h(2) by (auto simp: map_len_def split: if_splits)
  ultimately show ?thesis using write_header_durable [OF os _ h(3)] by simp
qed

lemma free_durable:
  assumes os: "page_size_ok os" "HEADER_ENCODED_LEN \<le> os" and p: "only_header_durable os p"
    and run: "free_page os x p = Ok p'"
  shows "only_header_durable os p'"
proof -
  from run obtain p1 h s bs where h: "file_write s bs p = Ok p1" "write_header os (p1\<lparr> hdr := h \<rparr>) = Ok p'"
    by (auto simp: free_page_def Let_def obind_eq_Ok)
  show ?thesis using write_header_durable [OF os _ h(2)] durable_zero [OF p] file_write_fields [OF h(1)] by simp
qed

lemma publish_durable:
  assumes os: "page_size_ok os" "HEADER_ENCODED_LEN \<le> os" and p: "only_header_durable os p"
    and run: "publish_root os r p = Ok p'"
  shows "only_header_durable os p'"
proof -
  from run obtain p1 p2 h bs s where h: "file_write s bs (p\<lparr> hdr := h \<rparr>) = Ok p1"
    "sync_range os ROOT_PAGE_OFFSET 4 p1 = Ok p2" "write_header os p2 = Ok p'"
    by (auto simp: publish_root_def Let_def put_bytes_def page_offset_def HEADER_PAGE_ID_def obind_eq_Ok)
  have "ROOT_PAGE_OFFSET + 4 \<le> HEADER_ENCODED_LEN" "0 < (4 :: nat)" by (simp_all add: pager_consts)
  from sync_header_range [OF os this h(2)] have "\<forall>a \<ge> os. synced p2 a = 0"
    using file_write_fields [OF h(1)] durable_zero [OF p] by auto
  from write_header_durable [OF os this h(3)] show ?thesis by blast
qed

lemma create_durable:
  assumes os: "page_size_ok os" "HEADER_ENCODED_LEN \<le> os" and run: "pager_create os ps kl vl = Ok p"
  shows "only_header_durable os p"
proof -
  have "\<exists>p1. (\<forall>a \<ge> os. synced p1 a = 0) \<and> write_header os p1 = Ok p"
    using run by (simp add: pager_create_def Let_def obind_eq_Ok ftruncate_def map_len_def split: if_splits)
      (rule exI, rule conjI, erule_tac [2] asm_rl, simp)
  then show ?thesis using write_header_durable [OF os] by blast
qed

section \<open>Updates synchronise nothing else\<close>

lemma bt_alloc_durable:
  "page_size_ok os \<Longrightarrow> HEADER_ENCODED_LEN \<le> os \<Longrightarrow> bt_alloc os b = Ok (b', q) \<Longrightarrow>
     only_header_durable os (bt_pager b) \<Longrightarrow> only_header_durable os (bt_pager b')"
  by (auto simp: bt_alloc_def intro: allocate_durable)

lemma bt_fill_durable:
  "bt_fill q enc b = Ok b' \<Longrightarrow> only_header_durable os (bt_pager b) \<Longrightarrow> only_header_durable os (bt_pager b')"
  by (auto simp: bt_fill_def intro: fill_durable)

lemma bt_replace_pager [simp]: "bt_pager (bt_replace q b) = bt_pager b"
  by (simp add: bt_replace_def)

lemma insert_leaf_durable:
  "page_size_ok os \<Longrightarrow> HEADER_ENCODED_LEN \<le> os \<Longrightarrow> insert_leaf os kc vc i es b = Ok (b', out) \<Longrightarrow>
     only_header_durable os (bt_pager b) \<Longrightarrow> only_header_durable os (bt_pager b')"
  by (auto simp: insert_leaf_def obind_eq_Ok Let_def split: if_splits) (blast intro: bt_alloc_durable bt_fill_durable)+

lemma insert_internal_durable:
  "page_size_ok os \<Longrightarrow> HEADER_ENCODED_LEN \<le> os \<Longrightarrow> insert_internal os kc i ks cs n b o1 = Ok (b', out) \<Longrightarrow>
     only_header_durable os (bt_pager b) \<Longrightarrow> only_header_durable os (bt_pager b')"
  by (cases o1)
    (auto simp: insert_internal_def obind_eq_Ok Let_def split: if_splits, (blast intro: bt_alloc_durable bt_fill_durable)+)

lemma insert_rec_durable:
  "page_size_ok os \<Longrightarrow> HEADER_ENCODED_LEN \<le> os \<Longrightarrow> insert_rec n os kc vc i key val b = Ok (b', out) \<Longrightarrow>
     only_header_durable os (bt_pager b) \<Longrightarrow> only_header_durable os (bt_pager b')"
proof (induction n arbitrary: i b' out)
  case (Suc n)
  then show ?case
    by (auto simp: obind_eq_Ok Let_def split: if_splits intro: insert_leaf_durable insert_internal_durable)
qed simp

lemma free_all_durable:
  "page_size_ok os \<Longrightarrow> HEADER_ENCODED_LEN \<le> os \<Longrightarrow> free_all (free_page os) xs p = Ok p' \<Longrightarrow>
     only_header_durable os p \<Longrightarrow> only_header_durable os p'"
  by (induction xs arbitrary: p) (auto simp: obind_eq_Ok intro: free_durable)

lemma bt_free_pending_durable:
  "page_size_ok os \<Longrightarrow> HEADER_ENCODED_LEN \<le> os \<Longrightarrow> bt_free_pending os b = Ok b' \<Longrightarrow>
     only_header_durable os (bt_pager b) \<Longrightarrow> only_header_durable os (bt_pager b')"
  by (auto simp: bt_free_pending_def intro: free_all_durable)

lemma bt_publish_durable:
  "page_size_ok os \<Longrightarrow> HEADER_ENCODED_LEN \<le> os \<Longrightarrow> bt_publish os r b = Ok b' \<Longrightarrow>
     only_header_durable os (bt_pager b) \<Longrightarrow> only_header_durable os (bt_pager b')"
  by (auto simp: bt_publish_def intro: publish_durable)

lemmas durable_steps = bt_alloc_durable bt_fill_durable insert_rec_durable bt_publish_durable bt_free_pending_durable

lemma btree_insert_durable:
  assumes os: "page_size_ok os" "HEADER_ENCODED_LEN \<le> os" and run: "btree_insert os kc vc key val b = Ok b'"
    and b: "only_header_durable os (bt_pager b)"
  shows "only_header_durable os (bt_pager b')"
proof -
  let ?b = "b\<lparr> pending_free := [] \<rparr>"
  have b0: "only_header_durable os (bt_pager ?b)" using b by simp
  have "\<exists>b1 r b2. only_header_durable os (bt_pager b1) \<and> bt_publish os r b1 = Ok b2 \<and> bt_free_pending os b2 = Ok b'"
  proof (cases "root_page (bt_pager b) = 0")
    case True
    with run obtain b1 q b2 b3 where "bt_alloc os ?b = Ok (b1, q)" "bt_fill q (encode_leaf kc vc [(key, val)]) b1 = Ok b2"
      "bt_publish os q b2 = Ok b3" "bt_free_pending os b3 = Ok b'"
      by (auto simp: btree_insert_def Let_def obind_eq_Ok)
    then show ?thesis using bt_alloc_durable [OF os _ b0] bt_fill_durable by blast
  next
    case False
    with run obtain b1 out where w: "insert_rec (page_count (bt_pager b)) os kc vc (root_page (bt_pager b)) key val ?b = Ok (b1, out)"
      by (auto simp: btree_insert_def Let_def obind_eq_Ok)
    have b1: "only_header_durable os (bt_pager b1)" by (rule insert_rec_durable [OF os w b0])
    show ?thesis
    proof (cases out)
      case (Replaced i)
      with run w False b1 show ?thesis by (auto simp: btree_insert_def Let_def obind_eq_Ok)
    next
      case (Split l s r)
      with run w False obtain b2 q b3 b4 where "bt_alloc os b1 = Ok (b2, q)" "bt_fill q (encode_internal kc [s] [l, r]) b2 = Ok b3"
        "bt_publish os q b3 = Ok b4" "bt_free_pending os b4 = Ok b'"
        by (auto simp: btree_insert_def Let_def obind_eq_Ok)
      then show ?thesis using bt_alloc_durable [OF os _ b1] bt_fill_durable by blast
    qed
  qed
  then show ?thesis using bt_publish_durable [OF os] bt_free_pending_durable [OF os] by blast
qed

lemma delete_rec_durable:
  "page_size_ok os \<Longrightarrow> HEADER_ENCODED_LEN \<le> os \<Longrightarrow> delete_rec n os kc vc i key b = Ok (b', r) \<Longrightarrow>
     only_header_durable os (bt_pager b) \<Longrightarrow> only_header_durable os (bt_pager b')"
proof (induction n arbitrary: i b' r)
  case (Suc n)
  note os = Suc.prems(1,2) and d = Suc.prems(4)
  from Suc.prems(3) obtain buf ty where ty: "read_page (bt_pager b) i = Ok buf" "node_type buf = Ok ty"
    by (auto simp: obind_eq_Ok)
  show ?case
  proof (cases "ty = LEAF")
    case True
    with Suc.prems(3) ty obtain es where es: "leaf_decode kc vc buf = Ok es" by (auto simp: obind_eq_Ok)
    show ?thesis
    proof (cases "binary_search (map fst es) key")
      case (Inl idx)
      with Suc.prems(3) ty True es show ?thesis
        using bt_alloc_durable [OF os _ d] bt_fill_durable by (auto simp: obind_eq_Ok)
    next
      case (Inr idx)
      with Suc.prems(3) ty True es d show ?thesis by simp
    qed
  next
    case False
    with Suc.prems(3) ty obtain ks cs child b1 c v where
      w: "delete_rec n os kc vc child key b = Ok (b1, c, v)"
      "b' = b1 \<or> (\<exists>b2 q b3. bt_alloc os b1 = Ok (b2, q) \<and>
         bt_fill q (encode_internal kc ks (cs[partition_point (\<lambda>k. k \<le> key) ks := c])) b2 = Ok b3 \<and> b' = bt_replace i b3)"
      by (auto simp: obind_eq_Ok Let_def split: if_splits) blast+
    have "only_header_durable os (bt_pager b1)" by (rule Suc.IH [OF os w(1) d])
    then show ?thesis using w(2) bt_alloc_durable [OF os] bt_fill_durable by auto
  qed
qed simp

lemma btree_delete_durable:
  assumes os: "page_size_ok os" "HEADER_ENCODED_LEN \<le> os" and run: "btree_delete os kc vc key b = Ok (b', r)"
    and b: "only_header_durable os (bt_pager b)"
  shows "only_header_durable os (bt_pager b')"
  using run b delete_rec_durable [OF os, where b = "b\<lparr> pending_free := [] \<rparr>"] bt_publish_durable [OF os] bt_free_pending_durable [OF os]
  by (auto simp: btree_delete_def Let_def obind_eq_Ok split: if_splits) blast+

section \<open>After a crash\<close>

lemma crash_opened:
  assumes rep: "pager_rep os p L" and d: "only_header_durable os p"
  shows "\<exists>p'. pager_open os (crash_image p) True = Ok p' \<and> hdr p' = hdr p \<and> mapped_len p' = mapped_len p \<and>
    (\<forall>a \<ge> os. mem p' a = 0)"
proof -
  have lay: "pager_layout os p" by (rule rep_layout [OF rep])
  note l = layout_facts [OF lay]
  have hd: "mem_read (synced p) 0 HEADER_ENCODED_LEN = index_header_encode (hdr p)" and z: "\<forall>a \<ge> os. synced p a = 0"
    using d by (simp_all add: only_header_durable_def)
  have "1 * page_size p \<le> page_count p * page_size p" using l(6) by (rule mult_le_mono1)
  then have flen: "HEADER_ENCODED_LEN \<le> file_len p" and len: "HEADER_ENCODED_LEN \<le> mapped_len p" using l(4,8,9) by linarith+
  then have nz: "mapped_len p \<noteq> 0" by (simp add: HEADER_ENCODED_LEN_def)
  let ?m = "\<lambda>i. if i < file_len p then synced p i else 0"
  have "mem_read ?m 0 HEADER_ENCODED_LEN = mem_read (synced p) 0 HEADER_ENCODED_LEN" using flen by (intro mem_read_cong) simp
  then show ?thesis
    using nz len hd z index_header_round_trip [OF l(3)]
    by (simp add: pager_open_def crash_image_def Let_def map_len_def l(11) [symmetric] file_slice_def)
qed

lemma zero_page_panics:
  assumes "os \<le> page_size p" "1 \<le> root_page p" "root_page p * page_size p + page_size p \<le> mapped_len p"
    "\<forall>a \<ge> os. mem p a = 0" "0 < page_size p" "1 \<le> page_count p"
  shows "btree_get kc vc \<lparr> bt_pager = p, pending_free = F \<rparr> key = Panic"
    and "btree_scan_all kc vc \<lparr> bt_pager = p, pending_free = F \<rparr> = Panic"
proof -
  have "page_size p \<le> root_page p * page_size p" using assms(2) by simp
  then have "mem_read (mem p) (root_page p * page_size p) (page_size p) = replicate (page_size p) 0"
    using assms(1,4) order_trans [of os "page_size p" "root_page p * page_size p + i" for i] by (intro nth_equalityI) (simp_all add: trans_le_add1)
  then have "read_page p (root_page p) = Ok (replicate (page_size p) 0)"
    using assms(3) by (simp add: read_page_def page_offset_def Let_def file_slice_def)
  moreover have "node_type (replicate (page_size p) 0) = Ok 0"
    using assms(5) by (simp add: node_type_def)
  ultimately show "btree_get kc vc \<lparr> bt_pager = p, pending_free = F \<rparr> key = Panic"
    "btree_scan_all kc vc \<lparr> bt_pager = p, pending_free = F \<rparr> = Panic"
    using assms(2,6) by (cases "page_count p"; simp add: btree_get_def btree_scan_all_def node_consts)+
qed

context node_codec
begin

lemma crash_loses_pages:
  assumes rep: "tree_rep os kc vc b m" and d: "only_header_durable os (bt_pager b)" and m: "m \<noteq> []"
    and big: "os \<le> page_size (bt_pager b)"
  shows "\<exists>b'. btree_open os (crash_image (bt_pager b)) True = Ok b' \<and> btree_get kc vc b' j = Panic \<and> btree_scan_all kc vc b' = Panic"
  using rep
proof (cases rule: rep_cases)
  case Empty
  with m show ?thesis by simp
next
  case (Tree L t)
  note lay = rep_layout [OF Tree(1)] and r = tree_bounds [OF Tree(1,4)]
  from crash_opened [OF Tree(1) d] obtain p' where p': "pager_open os (crash_image (bt_pager b)) True = Ok p'"
    "hdr p' = hdr (bt_pager b)" "mapped_len p' = mapped_len (bt_pager b)" "\<forall>a \<ge> os. mem p' a = 0" by blast
  have root: "1 \<le> root_id t" "root_id t < page_count (bt_pager b)" using rep_pages [OF Tree(1) r(1)] by simp_all
  then have "root_page p' * page_size p' + page_size p' \<le> mapped_len p'"
    using page_mapped [OF lay, of "root_id t"] Tree(2) p'(2,3) by simp
  moreover have "0 < page_size p'" using layout_facts(4) [OF lay] p'(2) by (simp add: HEADER_ENCODED_LEN_def)
  ultimately have "btree_get kc vc \<lparr> bt_pager = p', pending_free = [] \<rparr> j = Panic"
    "btree_scan_all kc vc \<lparr> bt_pager = p', pending_free = [] \<rparr> = Panic"
    using zero_page_panics [of os p' kc vc "[]"] big root p'(2,4) Tree(2) by simp_all
  then show ?thesis using p'(1) by (intro exI [of _ "\<lparr> bt_pager = p', pending_free = [] \<rparr>"]) (simp add: btree_open_def)
qed

end

section \<open>Properties\<close>

text \<open>
  C25: the primary index is a map from identifiers to slots. With room for the new pages,
  \<^verbatim>\<open>insert\<close> and \<^verbatim>\<open>delete\<close> return and leave the tree of the updated map, \<^verbatim>\<open>delete\<close>
  gives back the old value, \<^verbatim>\<open>get\<close> is the lookup, and \<^verbatim>\<open>scan_all\<close> lists the entries in the order of
  their keys, each once.
\<close>

theorem index_is_a_map:
  assumes "tree_rep os tuid_codec slot_pointer_codec b m" and "room_left b" and "wf_tuid k" and "slot_pointer_ok v"
  shows "(\<exists>b1. btree_insert os tuid_codec slot_pointer_codec k v b = Ok b1 \<and>
      tree_rep os tuid_codec slot_pointer_codec b1 (bm_put k v m)) \<and>
    (\<exists>b2. btree_delete os tuid_codec slot_pointer_codec k b = Ok (b2, map_of m k) \<and>
      tree_rep os tuid_codec slot_pointer_codec b2 (bm_del k m)) \<and>
    (\<forall>j. btree_get tuid_codec slot_pointer_codec b j = Ok (map_of m j)) \<and>
    btree_scan_all tuid_codec slot_pointer_codec b = Ok m \<and> strict (map fst m)"
  using primary.index.put_rep [OF assms] primary.index.del_rep [OF assms(1,2), of k] primary.index.get_rep [OF assms(1)]
    primary.index.scan_rep [OF assms(1)] primary.index.rep_ok [OF assms(1)]
  by (simp add: bm_get_def bm_ok_def)

lemma fresh_primary:
  "\<exists>b. btree_create 4096 4096 tuid_codec slot_pointer_codec = Ok b \<and> tree_rep 4096 tuid_codec slot_pointer_codec b [] \<and>
     room_left b \<and> page_size (bt_pager b) = 4096 \<and> page_count (bt_pager b) = 1"
proof -
  have "os_page_ok 4096" by (auto simp: os_page_ok_def page_size_ok_def intro: exI [of _ 12])
  from btree_create_spec [OF this engine_indexes_fit(1)] show ?thesis
    by (auto simp: HEADER_ENCODED_LEN_def tuid_codec_def slot_pointer_codec_def TUID_LEN_def SLOT_POINTER_LEN_def room_left_def)
qed

lemma sample_key: "wf_tuid (Tuid (replicate 24 7))"
  by (simp add: wf_tuid_def TUID_LEN_def)

lemma sample_slot: "slot_pointer_ok \<lparr> file_id = 1, extent_index = 2, slot_index = 3, ptr_class = 4 \<rparr>"
  by (simp add: slot_pointer_ok_def)

theorem index_is_a_map_witness:
  "\<exists>b b1. btree_create 4096 4096 tuid_codec slot_pointer_codec = Ok b \<and>
     btree_insert 4096 tuid_codec slot_pointer_codec (Tuid (replicate 24 7))
       \<lparr> file_id = 1, extent_index = 2, slot_index = 3, ptr_class = 4 \<rparr> b = Ok b1 \<and>
     btree_scan_all tuid_codec slot_pointer_codec b = Ok []"
  using fresh_primary index_is_a_map [OF _ _ sample_key sample_slot] by blast

text \<open>
  C26: updates are copy-on-write. Inserting and deleting are the writing of new pages followed by the
  publication of the root (and the reuse of old pages after it). When every new page of an insertion or of a
  deletion is written and the root not yet published, lookups of every key and scans still give the old map,
  and so they do after closing the file at that moment and opening it again; the deletion has found what it
  removes. A finished tree that is closed and opened is the same tree.
\<close>

theorem update_invisible_until_published:
  assumes "tree_rep os tuid_codec slot_pointer_codec b m" and "room_left b" and "wf_tuid k" and "slot_pointer_ok v"
  shows "(btree_insert os tuid_codec slot_pointer_codec k v b =
        obind (insert_written os tuid_codec slot_pointer_codec k v b) (\<lambda>(t, new_root).
          obind (bt_publish os new_root t) (bt_free_pending os)) \<and>
      (\<exists>b1 new_root. insert_written os tuid_codec slot_pointer_codec k v b = Ok (b1, new_root) \<and>
        read_as os tuid_codec slot_pointer_codec b1 m)) \<and>
    (btree_delete os tuid_codec slot_pointer_codec k b =
        obind (delete_written os tuid_codec slot_pointer_codec k b) (\<lambda>(t, new_root, removed).
          if new_root \<noteq> root_page (bt_pager b)
          then obind (bt_publish os new_root t) (\<lambda>t. omap (\<lambda>t. (t, removed)) (bt_free_pending os t))
          else Ok (t, removed)) \<and>
      (\<exists>b1 new_root. delete_written os tuid_codec slot_pointer_codec k b = Ok (b1, new_root, map_of m k) \<and>
        read_as os tuid_codec slot_pointer_codec b1 m)) \<and>
    (\<exists>c. btree_open os (disk_image (bt_pager b)) True = Ok c \<and> tree_rep os tuid_codec slot_pointer_codec c m)"
proof -
  have "\<exists>c. btree_open os (disk_image (bt_pager b)) True = Ok c \<and> tree_rep os tuid_codec slot_pointer_codec c m"
    using reopened_spec [OF assms(1)] by blast
  then show ?thesis
    by (intro conjI insert_publishes delete_publishes primary.insert_unpublished [OF assms] primary.delete_unpublished [OF assms(1,2)])
qed

lemma one_entry:
  "\<exists>b. tree_rep 4096 tuid_codec slot_pointer_codec b [(Tuid (replicate 24 7), \<lparr> file_id = 1, extent_index = 2, slot_index = 3, ptr_class = 4 \<rparr>)] \<and>
     room_left b \<and> root_page (bt_pager b) \<noteq> 0"
proof -
  obtain b where b: "btree_create 4096 4096 tuid_codec slot_pointer_codec = Ok b"
    "tree_rep 4096 tuid_codec slot_pointer_codec b []" "room_left b" "page_count (bt_pager b) = 1"
    using fresh_primary by blast
  from primary.btree_insert_spec [OF b(2,3) sample_key sample_slot] obtain b' where
    b': "tree_rep 4096 tuid_codec slot_pointer_codec b' (bm_put (Tuid (replicate 24 7)) \<lparr> file_id = 1, extent_index = 2, slot_index = 3, ptr_class = 4 \<rparr> [])"
      "page_count (bt_pager b') \<le> 3 * page_count (bt_pager b)" by blast
  have "room_left b'" using b'(2) b(4) by (simp add: room_left_def)
  moreover have "root_page (bt_pager b') \<noteq> 0" using b'(1) by (rule rep_cases) simp_all
  ultimately show ?thesis using b'(1) by auto
qed

lemma update_invisible_until_published_witness:
  "\<exists>b b1 b2 r q. root_page (bt_pager b) \<noteq> 0 \<and>
     insert_written 4096 tuid_codec slot_pointer_codec (Tuid (replicate 24 7))
        \<lparr> file_id = 1, extent_index = 2, slot_index = 3, ptr_class = 4 \<rparr> b = Ok (b1, r) \<and>
     delete_written 4096 tuid_codec slot_pointer_codec (Tuid (replicate 24 7)) b =
        Ok (b2, q, Some \<lparr> file_id = 1, extent_index = 2, slot_index = 3, ptr_class = 4 \<rparr>) \<and>
     btree_get tuid_codec slot_pointer_codec b2 (Tuid (replicate 24 7)) =
        Ok (Some \<lparr> file_id = 1, extent_index = 2, slot_index = 3, ptr_class = 4 \<rparr>)"
proof -
  obtain b where b: "tree_rep 4096 tuid_codec slot_pointer_codec b [(Tuid (replicate 24 7), \<lparr> file_id = 1, extent_index = 2, slot_index = 3, ptr_class = 4 \<rparr>)]"
    "room_left b" "root_page (bt_pager b) \<noteq> 0" using one_entry by blast
  note both = update_invisible_until_published [OF b(1,2) sample_key sample_slot]
  from both obtain b1 r where i: "insert_written 4096 tuid_codec slot_pointer_codec (Tuid (replicate 24 7))
      \<lparr> file_id = 1, extent_index = 2, slot_index = 3, ptr_class = 4 \<rparr> b = Ok (b1, r)" by blast
  from both obtain b2 q where d: "delete_written 4096 tuid_codec slot_pointer_codec (Tuid (replicate 24 7)) b =
      Ok (b2, q, Some \<lparr> file_id = 1, extent_index = 2, slot_index = 3, ptr_class = 4 \<rparr>)"
    "read_as 4096 tuid_codec slot_pointer_codec b2 [(Tuid (replicate 24 7), \<lparr> file_id = 1, extent_index = 2, slot_index = 3, ptr_class = 4 \<rparr>)]"
    by (elim exE conjE) (rule that, simp_all)
  from d(2) have "btree_get tuid_codec slot_pointer_codec b2 (Tuid (replicate 24 7)) =
      Ok (Some \<lparr> file_id = 1, extent_index = 2, slot_index = 3, ptr_class = 4 \<rparr>)" by (simp add: read_as_def)
  then show ?thesis using b(3) i d(1) by blast
qed

text \<open>
  C27: the pages of the tree are not synchronised before the root that names them is published, nor later.
  Of an index file whose durable part is its header (as it is after \<^verbatim>\<open>create\<close>), the durable part is still
  only the header after an insertion; when the index page is at least as long as the page of the operating
  system, what a crash may leave opens without an error, and every lookup and scan of it panics.
\<close>

theorem index_pages_never_durable:
  assumes "tree_rep os tuid_codec slot_pointer_codec b m" and "room_left b" and "wf_tuid k" and "slot_pointer_ok v"
    and "only_header_durable os (bt_pager b)" and "os \<le> page_size (bt_pager b)"
  shows "\<exists>b1. btree_insert os tuid_codec slot_pointer_codec k v b = Ok b1 \<and>
    btree_get tuid_codec slot_pointer_codec b1 k = Ok (Some v) \<and> only_header_durable os (bt_pager b1) \<and>
    (\<exists>c. btree_open os (crash_image (bt_pager b1)) True = Ok c \<and>
       btree_get tuid_codec slot_pointer_codec c j = Panic \<and> btree_scan_all tuid_codec slot_pointer_codec c = Panic)"
proof -
  from primary.btree_insert_spec [OF assms(1-4)] obtain b1 where
    b1: "btree_insert os tuid_codec slot_pointer_codec k v b = Ok b1" "tree_rep os tuid_codec slot_pointer_codec b1 (bm_put k v m)"
      "page_size (bt_pager b1) = page_size (bt_pager b)" by blast
  have "os_page_ok os" using assms(1) by (auto simp: tree_rep_def pager_rep_def pager_layout_def)
  then have os: "page_size_ok os" "HEADER_ENCODED_LEN \<le> os" by (simp_all add: os_page_ok_def HEADER_ENCODED_LEN_def)
  have d: "only_header_durable os (bt_pager b1)" by (rule btree_insert_durable [OF os b1(1) assms(5)])
  have "bm_get (bm_put k v m) k = Some v" using bm_get_put [OF rep_entries [OF assms(1)], of k v k] by simp
  moreover from this have "bm_put k v m \<noteq> []" by (auto simp: bm_get_def)
  ultimately show ?thesis
    using b1(1) d primary.btree_get_spec [OF b1(2), of k] primary.crash_loses_pages [OF b1(2) d, of j] assms(6) b1(3)
    by (intro exI [of _ b1]) simp
qed

theorem index_pages_never_durable_witness:
  "\<exists>b b1 c. btree_create 4096 4096 tuid_codec slot_pointer_codec = Ok b \<and>
     btree_insert 4096 tuid_codec slot_pointer_codec (Tuid (replicate 24 7))
       \<lparr> file_id = 1, extent_index = 2, slot_index = 3, ptr_class = 4 \<rparr> b = Ok b1 \<and>
     btree_open 4096 (crash_image (bt_pager b1)) True = Ok c \<and>
     btree_get tuid_codec slot_pointer_codec c (Tuid (replicate 24 7)) = Panic"
proof -
  obtain b where b: "btree_create 4096 4096 tuid_codec slot_pointer_codec = Ok b" "tree_rep 4096 tuid_codec slot_pointer_codec b []"
    "room_left b" "page_size (bt_pager b) = 4096" using fresh_primary by blast
  have os: "page_size_ok 4096" "HEADER_ENCODED_LEN \<le> 4096"
    by (auto simp: page_size_ok_def HEADER_ENCODED_LEN_def intro: exI [of _ 12])
  have "only_header_durable 4096 (bt_pager b)"
    using b(1) create_durable [OF os] by (auto simp: btree_create_def)
  from index_pages_never_durable [OF b(2,3) sample_key sample_slot this, where j = "Tuid (replicate 24 7)"] b(4)
  obtain b1 c where "btree_insert 4096 tuid_codec slot_pointer_codec (Tuid (replicate 24 7))
       \<lparr> file_id = 1, extent_index = 2, slot_index = 3, ptr_class = 4 \<rparr> b = Ok b1"
    "btree_open 4096 (crash_image (bt_pager b1)) True = Ok c"
    "btree_get tuid_codec slot_pointer_codec c (Tuid (replicate 24 7)) = Panic" by fastforce
  with b(1) show ?thesis by blast
qed

end
