(* ===== verification/Gems_Query_Ast.thy ===== *)
theory Gems_Query_Ast
  imports Gems_Prelude
begin

text \<open>
  \<^verbatim>\<open>gems-query/src/ast.rs\<close>: the abstract syntax of queries, which the parser makes and the
  engine runs. Strings are their UTF-8 bytes. The only floating-point numbers of the language come from
  literals without a sign, so \<^verbatim>\<open>f64\<close> is a non-negative number \<open>m * 2 ^ e\<close> or infinity.
\<close>

datatype f64 = F64 nat int | F64_inf

datatype literal = LStr bytes | LNum f64 | LBool bool | LIdent bytes

datatype compare_op = OpEq | OpNeq | OpLt | OpLte | OpGt | OpGte

datatype expr =
    And expr expr
  | Or expr expr
  | Not expr
  | Compare bytes compare_op literal
  | In bytes "literal list"

datatype select_list = All | Fields "bytes list"

record order_item =
  ord_field :: bytes
  descending :: bool

record query =
  q_select :: select_list
  q_from :: bytes
  q_filter :: "expr option"
  q_order_by :: "order_item list"
  q_limit :: "nat option"

text \<open>\<^verbatim>\<open>eq_ignore_ascii_case\<close> on strings, and the bytes of an ASCII literal of the code.\<close>

definition ascii_lower :: "u8 \<Rightarrow> u8" where
  "ascii_lower b = (if 65 \<le> b \<and> b \<le> 90 then b + 32 else b)"

definition eq_ignore_ascii_case :: "bytes \<Rightarrow> bytes \<Rightarrow> bool" where
  "eq_ignore_ascii_case a b = (map ascii_lower a = map ascii_lower b)"

definition ascii :: "string \<Rightarrow> bytes" where
  "ascii s = map (\<lambda>c. of_nat (of_char c)) s"

end
