(* ===== verification/Gems_Chars.thy ===== *)
theory Gems_Chars
  imports Gems_Text Gems_Query_Ast
begin

text \<open>
  What the lexers use of the standard library: iteration over the characters of a string, each one
  its UTF-8 bytes, the character classes, and the reading of a decimal number without a sign as an
  \<^verbatim>\<open>f64\<close>. The classes of the characters outside ASCII are tables of the standard library and
  parameters of the model, white space apart, which is written out.
\<close>

section \<open>Characters and their positions\<close>

function chars :: "bytes \<Rightarrow> bytes list" where
  "chars bs = (if bs = [] then [] else let n = snd (utf8_step bs) in take n bs # chars (drop n bs))"
  by pat_completeness auto
termination
proof (relation "measure length")
  fix bs :: bytes and n assume "bs \<noteq> []" "n = snd (utf8_step bs)"
  then show "(drop n bs, bs) \<in> measure length" using utf8_step_pos [of bs "fst (utf8_step bs)" n] by (cases bs) auto
qed simp

declare chars.simps [simp del]

lemma chars_Nil [simp]: "chars [] = []"
  by (simp add: chars.simps)

lemma concat_chars [simp]: "concat (chars bs) = bs"
  by (induction bs rule: chars.induct) (subst chars.simps, simp add: Let_def)

lemma char_nonempty: "c \<in> set (chars bs) \<Longrightarrow> c \<noteq> []"
proof (induction bs rule: chars.induct)
  case (1 bs)
  show ?case
  proof (cases "bs = []")
    case False
    then have "take (snd (utf8_step bs)) bs \<noteq> []" using utf8_step_pos [of bs] by (cases "utf8_step bs") auto
    with 1 False show ?thesis by (auto simp: chars.simps [of bs] Let_def)
  qed (use 1 in simp)
qed

text \<open>An ASCII character is one byte.\<close>

lemma chars_ascii: "unat b < 128 \<Longrightarrow> chars (b # bs) = [b] # chars bs"
  by (simp add: chars.simps [of "b # bs"] utf8_step_def byte_or_zero_def utf8_width_def Let_def)

primrec indices :: "nat \<Rightarrow> bytes list \<Rightarrow> (nat \<times> bytes) list" where
  "indices i [] = []"
| "indices i (c # cs) = (i, c) # indices (i + length c) cs"

definition char_indices :: "bytes \<Rightarrow> (nat \<times> bytes) list" where
  "char_indices s = indices 0 (chars s)"

text \<open>Valid strings split into characters, and are composed of them.\<close>

lemma utf8_step_append: "utf8_step a = (True, n) \<Longrightarrow> a \<noteq> [] \<Longrightarrow> utf8_step (a @ b) = (True, n)"
proof -
  assume a: "utf8_step a = (True, n)" "a \<noteq> []"
  have n: "n \<le> length a" by (rule utf8_step_le [OF a(2,1)])
  have "byte_or_zero (a @ b) i = byte_or_zero a i" if "i < n" for i
    using that n by (simp add: byte_or_zero_def nth_append)
  then show ?thesis using a(1) by (auto simp: utf8_step_def Let_def split: if_splits)
qed

lemma valid_step: "utf8_valid a \<Longrightarrow> a \<noteq> [] \<Longrightarrow> \<exists>n. utf8_step a = (True, n) \<and> 0 < n \<and> n \<le> length a \<and> utf8_valid (drop n a)"
  using utf8_step_pos [of a] utf8_step_le [of a] by (subst (asm) utf8_valid.simps) (auto split: prod.splits)

lemma chars_append: "utf8_valid a \<Longrightarrow> chars (a @ b) = chars a @ chars b"
proof (induction a rule: utf8_valid.induct)
  case (1 a)
  show ?case
  proof (cases "a = []")
    case False
    from valid_step [OF "1.prems" False] obtain n where n: "utf8_step a = (True, n)" "0 < n" "n \<le> length a" "utf8_valid (drop n a)" by blast
    have "chars (drop n a @ b) = chars (drop n a) @ chars b"
      using "1.IH" [OF False n(1) [symmetric]] n(4) by simp
    then show ?thesis
      using n False utf8_step_append [OF n(1) False, of b] by (simp add: chars.simps [of a] chars.simps [of "a @ b"] Let_def)
  qed simp
qed

lemma valid_append: "utf8_valid a \<Longrightarrow> utf8_valid b \<Longrightarrow> utf8_valid (a @ b)"
proof (induction a rule: utf8_valid.induct)
  case (1 a)
  show ?case
  proof (cases "a = []")
    case False
    from valid_step [OF "1.prems"(1) False] obtain n where n: "utf8_step a = (True, n)" "n \<le> length a" "utf8_valid (drop n a)" by blast
    have "utf8_valid (drop n a @ b)" using "1.IH" [OF False n(1) [symmetric]] n(3) "1.prems"(2) by simp
    then show ?thesis using n utf8_step_append [OF n(1) False, of b] by (simp add: utf8_valid.simps [of "a @ b"])
  qed (use 1 in simp)
qed

lemma valid_ascii: "unat b < 128 \<Longrightarrow> utf8_valid bs \<Longrightarrow> utf8_valid (b # bs)"
  by (simp add: utf8_valid.simps [of "b # bs"] utf8_step_def byte_or_zero_def utf8_width_def Let_def)

lemma chars_ascii_list: "list_all (\<lambda>b. unat b < 128) bs \<Longrightarrow> chars bs = map (\<lambda>b. [b]) bs \<and> utf8_valid bs"
  by (induction bs) (simp_all add: chars_ascii valid_ascii)

lemma step_head: "utf8_step bs = (True, n) \<Longrightarrow> bs \<noteq> [] \<Longrightarrow> \<not> is_cont (hd bs)"
  by (cases bs) (auto simp: utf8_step_def byte_or_zero_def utf8_width_def is_cont_def Let_def split: if_splits)

text \<open>\<open>is_char c\<close>: the bytes of one character.\<close>

definition is_char :: "bytes \<Rightarrow> bool" where
  "is_char c \<longleftrightarrow> c \<noteq> [] \<and> utf8_step c = (True, length c)"

lemma chars_chars: "utf8_valid s \<Longrightarrow> c \<in> set (chars s) \<Longrightarrow> is_char c"
proof (induction s rule: utf8_valid.induct)
  case (1 s)
  have ne: "s \<noteq> []" using "1.prems"(2) by auto
  from valid_step [OF "1.prems"(1) ne] obtain n where n: "utf8_step s = (True, n)" "0 < n" "n \<le> length s" "utf8_valid (drop n s)" by blast
  have "c = take n s \<or> c \<in> set (chars (drop n s))"
    using "1.prems"(2) ne n(1) by (auto simp: chars.simps [of s] Let_def)
  then show ?case
  proof
    assume "c = take n s"
    then show ?thesis using utf8_step_take [OF n(1) order_refl ne] n ne by (simp add: is_char_def)
  next
    assume "c \<in> set (chars (drop n s))"
    then show ?thesis using "1.IH" [OF ne n(1) [symmetric]] n(4) by simp
  qed
qed

lemma chars_char: "is_char c \<Longrightarrow> chars (c @ b) = c # chars b"
  using utf8_step_append [of c "length c" b] by (simp add: is_char_def chars.simps [of "c @ b"] Let_def)

lemma chars_concat: "list_all is_char cs \<Longrightarrow> chars (concat cs) = cs \<and> utf8_valid (concat cs)"
proof (induction cs)
  case (Cons c cs)
  then have c: "is_char c" "chars (concat cs) = cs" "utf8_valid (concat cs)" by simp_all
  have "utf8_valid (c @ concat cs)"
    using c(1,3) utf8_step_append [of c "length c" "concat cs"] by (simp add: is_char_def utf8_valid.simps [of "c @ concat cs"])
  then show ?case using c chars_char [OF c(1)] by simp
qed simp

lemma ascii_char: "unat b < 128 \<Longrightarrow> is_char [b]"
  by (simp add: is_char_def utf8_step_def byte_or_zero_def utf8_width_def Let_def)

section \<open>Character classes\<close>

record char_classes =
  wide_alphabetic :: "bytes \<Rightarrow> bool"
  wide_numeric :: "bytes \<Rightarrow> bool"

definition is_ascii_digit :: "bytes \<Rightarrow> bool" where
  "is_ascii_digit c = (case c of [b] \<Rightarrow> 48 \<le> unat b \<and> unat b \<le> 57 | _ \<Rightarrow> False)"

definition ascii_letter :: "u8 \<Rightarrow> bool" where
  "ascii_letter b = (65 \<le> unat b \<and> unat b \<le> 90 \<or> 97 \<le> unat b \<and> unat b \<le> 122)"

definition is_alphabetic :: "char_classes \<Rightarrow> bytes \<Rightarrow> bool" where
  "is_alphabetic u c = (case c of [b] \<Rightarrow> ascii_letter b | _ \<Rightarrow> wide_alphabetic u c)"

definition is_alphanumeric :: "char_classes \<Rightarrow> bytes \<Rightarrow> bool" where
  "is_alphanumeric u c =
     (case c of [b] \<Rightarrow> ascii_letter b \<or> is_ascii_digit c | _ \<Rightarrow> wide_alphabetic u c \<or> wide_numeric u c)"

text \<open>
  \<^verbatim>\<open>char::is_whitespace\<close>: U+0009 to U+000D, U+0020, U+0085, U+00A0, U+1680, U+2000 to U+200A,
  U+2028, U+2029, U+202F, U+205F and U+3000.
\<close>

definition is_whitespace :: "bytes \<Rightarrow> bool" where
  "is_whitespace c =
     (case c of
        [b] \<Rightarrow> 9 \<le> unat b \<and> unat b \<le> 13 \<or> b = 32
      | [a, b] \<Rightarrow> a = 0xC2 \<and> (b = 0x85 \<or> b = 0xA0)
      | [a, b, d] \<Rightarrow>
          a = 0xE1 \<and> b = 0x9A \<and> d = 0x80 \<or>
          a = 0xE2 \<and> b = 0x80 \<and> (128 \<le> unat d \<and> unat d \<le> 138 \<or> d = 0xA8 \<or> d = 0xA9 \<or> d = 0xAF) \<or>
          a = 0xE2 \<and> b = 0x81 \<and> d = 0x9F \<or>
          a = 0xE3 \<and> b = 0x80 \<and> d = 0x80
      | _ \<Rightarrow> False)"

section \<open>Reading a decimal number\<close>

fun bit_length :: "nat \<Rightarrow> nat" where
  "bit_length n = (if n = 0 then 0 else Suc (bit_length (n div 2)))"

declare bit_length.simps [simp del]

text \<open>\<open>scaled n d e\<close> is the fraction \<open>n / (d * 2 ^ e)\<close>.\<close>

definition scaled :: "nat \<Rightarrow> nat \<Rightarrow> int \<Rightarrow> nat \<times> nat" where
  "scaled n d e = (if 0 \<le> e then (n, d * 2 ^ nat e) else (n * 2 ^ nat (- e), d))"

definition round_half_even :: "nat \<times> nat \<Rightarrow> nat" where
  "round_half_even f =
     (let q = fst f div snd f; r = fst f mod snd f in
      if snd f < 2 * r \<or> (2 * r = snd f \<and> odd q) then q + 1 else q)"

text \<open>
  The \<^verbatim>\<open>f64\<close> nearest to \<open>n / d\<close>, ties to even: 53 bits, exponents from -1074 to 971, infinity above.
\<close>

definition round_f64 :: "nat \<Rightarrow> nat \<Rightarrow> f64" where
  "round_f64 n d =
     (if n = 0 then F64 0 0
      else
        let e0 = int (bit_length n) - int (bit_length d) - 53;
            (a, b) = scaled n d e0;
            e1 = max (- 1074) (if 2 ^ 53 \<le> a div b then e0 + 1 else e0);
            q0 = round_half_even (scaled n d e1);
            (q, e) = (if q0 = 2 ^ 53 then (2 ^ 52, e1 + 1) else (q0, e1))
        in if 971 < e then F64_inf else if q = 0 then F64 0 0 else F64 q e)"

definition digit_byte :: "u8 \<Rightarrow> bool" where
  "digit_byte b = (48 \<le> unat b \<and> unat b \<le> 57)"

definition dec_val :: "bytes \<Rightarrow> nat" where
  "dec_val ds = foldl (\<lambda>v b. 10 * v + (unat b - 48)) 0 ds"

text \<open>\<^verbatim>\<open>str::parse::<f64>\<close> on a text of digits and dots.\<close>

definition parse_f64 :: "bytes \<Rightarrow> f64 option" where
  "parse_f64 s =
     (let ip = takeWhile digit_byte s in
      case dropWhile digit_byte s of
        [] \<Rightarrow> if ip = [] then None else Some (round_f64 (dec_val ip) 1)
      | b # fp \<Rightarrow>
          if b = 46 \<and> list_all digit_byte fp \<and> \<not> (ip = [] \<and> fp = [])
          then Some (round_f64 (dec_val (ip @ fp)) (10 ^ length fp)) else None)"

text \<open>\<^verbatim>\<open>n.fract() == 0.0\<close>, false of infinity, and the saturating \<^verbatim>\<open>n as u64\<close>.\<close>

definition fract_is_zero :: "f64 \<Rightarrow> bool" where
  "fract_is_zero x = (case x of F64 m e \<Rightarrow> 0 \<le> e \<or> 2 ^ nat (- e) dvd m | F64_inf \<Rightarrow> False)"

definition f64_to_u64 :: "f64 \<Rightarrow> nat" where
  "f64_to_u64 x =
     (case x of
        F64 m e \<Rightarrow> min u64_max (if 0 \<le> e then m * 2 ^ nat e else m div 2 ^ nat (- e))
      | F64_inf \<Rightarrow> u64_max)"

end
