(* ===== verification/Gems_Lexer.thy ===== *)
theory Gems_Lexer
  imports Gems_Chars
begin

text \<open>
  \<^verbatim>\<open>gems-query/src/lexer.rs\<close>. The lexer holds the source and the characters not read yet with
  their positions. The messages of the errors are constructors that keep what the message shows.
\<close>

datatype token =
    TIdent bytes | TStr bytes | TNum f64
  | TComma | TLParen | TRParen | TDot | TStar
  | TEq | TNeq | TLt | TLte | TGt | TGte
  | TEof

datatype lex_error =
    UnexpectedCharacter bytes nat
  | UnterminatedString
  | InvalidNumber bytes

record lexer =
  lx_chars :: "(nat \<times> bytes) list"
  lx_src :: bytes

definition lexer_new :: "bytes \<Rightarrow> lexer" where
  "lexer_new src = \<lparr> lx_chars = char_indices src, lx_src = src \<rparr>"

definition skip_whitespace :: "lexer \<Rightarrow> lexer" where
  "skip_whitespace L = L\<lparr> lx_chars := dropWhile (\<lambda>(_, c). is_whitespace c) (lx_chars L) \<rparr>"

text \<open>The loop of \<^verbatim>\<open>lex_string\<close> behind the opening quote.\<close>

fun lex_string_loop :: "(nat \<times> bytes) list \<Rightarrow> bytes \<Rightarrow> (lex_error, token \<times> (nat \<times> bytes) list) outcome" where
  "lex_string_loop [] s = Err UnterminatedString"
| "lex_string_loop ((_, c) # cs) s =
     (if c = [39] then
        case cs of
          (_, c') # cs' \<Rightarrow> if c' = [39] then lex_string_loop cs' (s @ [39]) else Ok (TStr s, cs)
        | [] \<Rightarrow> Ok (TStr s, cs)
      else lex_string_loop cs (s @ c))"

definition lex_string :: "lexer \<Rightarrow> (lex_error, token \<times> lexer) outcome" where
  "lex_string L = omap (\<lambda>(t, cs). (t, L\<lparr> lx_chars := cs \<rparr>)) (lex_string_loop (tl (lx_chars L)) [])"

text \<open>The loop of \<^verbatim>\<open>lex_number\<close> and \<^verbatim>\<open>lex_ident\<close>: the end of the last character taken, and the rest.\<close>

fun scan_while :: "(bytes \<Rightarrow> bool) \<Rightarrow> nat \<Rightarrow> (nat \<times> bytes) list \<Rightarrow> nat \<times> (nat \<times> bytes) list" where
  "scan_while P e [] = (e, [])"
| "scan_while P e ((i, c) # cs) = (if P c then scan_while P (i + length c) cs else (e, (i, c) # cs))"

definition lex_number :: "lexer \<Rightarrow> (lex_error, token \<times> lexer) outcome" where
  "lex_number L =
     (case lx_chars L of
        [] \<Rightarrow> Panic
      | (start, _) # _ \<Rightarrow>
          let (e, cs) = scan_while (\<lambda>c. is_ascii_digit c \<or> c = [46]) start (lx_chars L) in
          obind (str_slice (lx_src L) start e) (\<lambda>text.
          case parse_f64 text of
            Some n \<Rightarrow> Ok (TNum n, L\<lparr> lx_chars := cs \<rparr>)
          | None \<Rightarrow> Err (InvalidNumber text)))"

definition lex_ident :: "char_classes \<Rightarrow> lexer \<Rightarrow> (lex_error, token \<times> lexer) outcome" where
  "lex_ident u L =
     (case lx_chars L of
        [] \<Rightarrow> Panic
      | (start, _) # _ \<Rightarrow>
          let (e, cs) = scan_while (\<lambda>c. is_alphanumeric u c \<or> c = [95]) start (lx_chars L) in
          omap (\<lambda>text. (TIdent text, L\<lparr> lx_chars := cs \<rparr>)) (str_slice (lx_src L) start e))"

text \<open>The second character of \<^verbatim>\<open><=\<close>, \<^verbatim>\<open>>=\<close> and \<^verbatim>\<open>!=\<close>.\<close>

definition eat_equals :: "(nat \<times> bytes) list \<Rightarrow> bool \<times> (nat \<times> bytes) list" where
  "eat_equals cs = (case cs of (_, c) # cs' \<Rightarrow> if c = [61] then (True, cs') else (False, cs) | [] \<Rightarrow> (False, cs))"

definition next_token :: "char_classes \<Rightarrow> lexer \<Rightarrow> (lex_error, token \<times> lexer) outcome" where
  "next_token u L0 =
     (let L = skip_whitespace L0 in
      case lx_chars L of
        [] \<Rightarrow> Ok (TEof, L)
      | (start, c) # cs \<Rightarrow>
          if c = [39] then lex_string L
          else if is_ascii_digit c then lex_number L
          else if is_alphabetic u c \<or> c = [95] then lex_ident u L
          else
            let L1 = L\<lparr> lx_chars := cs \<rparr>; (eq, cs') = eat_equals cs; L2 = L\<lparr> lx_chars := cs' \<rparr> in
            if c = [44] then Ok (TComma, L1)
            else if c = [40] then Ok (TLParen, L1)
            else if c = [41] then Ok (TRParen, L1)
            else if c = [46] then Ok (TDot, L1)
            else if c = [42] then Ok (TStar, L1)
            else if c = [61] then Ok (TEq, L1)
            else if c = [60] then Ok (if eq then TLte else TLt, L2)
            else if c = [62] then Ok (if eq then TGte else TGt, L2)
            else if c = [33] then (if eq then Ok (TNeq, L2) else Err (UnexpectedCharacter c start))
            else Err (UnexpectedCharacter c start))"

section \<open>Every token takes at least one character\<close>

lemma lex_string_loop_le: "lex_string_loop cs s = Ok (t, cs') \<Longrightarrow> length cs' \<le> length cs"
proof (induction cs s rule: lex_string_loop.induct)
  case (2 i c cs s)
  show ?case
  proof (cases "c = [39]")
    case True
    then show ?thesis using 2 by (cases cs) (fastforce split: if_splits)+
  next
    case False
    then show ?thesis using 2 by (simp add: le_SucI)
  qed
qed simp

lemma scan_while_le: "scan_while P e cs = (e', cs') \<Longrightarrow> length cs' \<le> length cs"
  by (induction P e cs rule: scan_while.induct) (auto split: if_splits intro: le_SucI)

lemma scan_while_first: "P c \<Longrightarrow> scan_while P e ((i, c) # cs) = (e', cs') \<Longrightarrow> length cs' < Suc (length cs)"
  using scan_while_le [of P "i + length c" cs e' cs'] by simp

lemma eat_equals_le: "eat_equals cs = (b, cs') \<Longrightarrow> length cs' \<le> length cs"
  by (auto simp: eat_equals_def split: list.splits if_splits)

lemma alphabetic_alnum: "is_alphabetic u c \<Longrightarrow> is_alphanumeric u c"
  by (auto simp: is_alphabetic_def is_alphanumeric_def split: list.splits)

lemma next_token_shorter:
  assumes "next_token u L = Ok (t, L')" and "t \<noteq> TEof"
  shows "length (lx_chars L') < length (lx_chars L)"
proof -
  define cs0 where "cs0 = lx_chars (skip_whitespace L)"
  have le: "length cs0 \<le> length (lx_chars L)" by (simp add: cs0_def skip_whitespace_def length_dropWhile_le)
  obtain i c cs where cs0: "cs0 = (i, c) # cs"
    using assms by (cases cs0) (auto simp: next_token_def cs0_def Let_def)
  have "length (lx_chars L') < length cs0"
  proof (cases "c = [39] \<or> is_ascii_digit c \<or> is_alphabetic u c \<or> c = [95]")
    case True
    then consider "c = [39]" | "c \<noteq> [39]" "is_ascii_digit c" | "c \<noteq> [39]" "\<not> is_ascii_digit c" "is_alphabetic u c \<or> c = [95]" by blast
    then show ?thesis
    proof cases
      case 1
      then show ?thesis using assms(1) cs0 lex_string_loop_le
        by (fastforce simp: next_token_def cs0_def [symmetric] Let_def lex_string_def less_Suc_eq_le)
    next
      case 2
      then show ?thesis using assms(1) cs0 scan_while_first [of "\<lambda>c. is_ascii_digit c \<or> c = [46]" c]
        by (auto simp: next_token_def cs0_def [symmetric] Let_def lex_number_def obind_eq_Ok split: prod.splits option.splits)
    next
      case 3
      then show ?thesis using assms(1) cs0 scan_while_first [of "\<lambda>c. is_alphanumeric u c \<or> c = [95]" c] alphabetic_alnum
        by (auto simp: next_token_def cs0_def [symmetric] Let_def lex_ident_def split: prod.splits)
    qed
  next
    case False
    then show ?thesis using assms(1) cs0 eat_equals_le
      by (auto simp: next_token_def cs0_def [symmetric] Let_def less_Suc_eq_le split: prod.splits if_splits)
  qed
  then show ?thesis using le by simp
qed

text \<open>The loop of \<^verbatim>\<open>tokenize\<close>.\<close>

function tokenize_loop :: "char_classes \<Rightarrow> lexer \<Rightarrow> (lex_error, token list) outcome" where
  "tokenize_loop u L =
     obind (next_token u L) (\<lambda>(tok, L').
     if tok = TEof then Ok [tok] else omap (\<lambda>toks. tok # toks) (tokenize_loop u L'))"
  by pat_completeness auto
termination
  by (relation "measure (\<lambda>(u, L). length (lx_chars L))") (auto dest: next_token_shorter)

declare tokenize_loop.simps [simp del]

definition tokenize :: "char_classes \<Rightarrow> bytes \<Rightarrow> (lex_error, token list) outcome" where
  "tokenize u src = tokenize_loop u (lexer_new src)"

end
