(* ===== verification/Gems_Parser.thy ===== *)
theory Gems_Parser
  imports Gems_Lexer
begin

text \<open>
  \<^verbatim>\<open>gems-query/src/parser.rs\<close>: the recursive-descent parser. \<open>peek\<close> and \<open>advance\<close> index the
  token vector and would panic past its end. The five functions that parse expressions call each other
  along the tokens and recurse at most 64 deep; they are defined over fuel, one unit for each call,
  and \<open>OutOfFuel\<close> is not an error of the program: it is proved below that the fuel
  \<open>parse\<close> gives is enough for every input.
\<close>

datatype parse_error =
    LexError lex_error
  | TrailingInput token
  | ExpectedKeyword bytes token
  | ExpectedToken token token
  | ExpectedLimit token
  | ExpectedIdent token
  | NestingTooDeep
  | ExpectedOperator bytes token
  | ExpectedLiteral token
  | OutOfFuel

record parser =
  p_tokens :: "token list"
  p_pos :: nat
  expr_depth :: nat

type_synonym 'a parsed = "(parse_error, 'a \<times> parser) outcome"

definition MAX_EXPR_DEPTH :: nat where "MAX_EXPR_DEPTH = 64"

definition peek :: "parser \<Rightarrow> (parse_error, token) outcome" where
  "peek p = (if p_pos p < length (p_tokens p) then Ok (p_tokens p ! p_pos p) else Panic)"

definition advance :: "parser \<Rightarrow> token parsed" where
  "advance p =
     omap (\<lambda>tok. (tok, if p_pos p + 1 < length (p_tokens p) then p\<lparr> p_pos := p_pos p + 1 \<rparr> else p)) (peek p)"

definition expect_eof :: "parser \<Rightarrow> (parse_error, unit) outcome" where
  "expect_eof p = obind (peek p) (\<lambda>t. if t = TEof then Ok () else Err (TrailingInput t))"

definition is_keyword :: "bytes \<Rightarrow> token \<Rightarrow> bool" where
  "is_keyword kw t = (case t of TIdent s \<Rightarrow> eq_ignore_ascii_case s kw | _ \<Rightarrow> False)"

definition eat_keyword :: "bytes \<Rightarrow> parser \<Rightarrow> bool parsed" where
  "eat_keyword kw p =
     obind (peek p) (\<lambda>t. if is_keyword kw t then omap (\<lambda>(_, p). (True, p)) (advance p) else Ok (False, p))"

definition expect_keyword :: "bytes \<Rightarrow> parser \<Rightarrow> unit parsed" where
  "expect_keyword kw p =
     obind (eat_keyword kw p) (\<lambda>(eaten, p).
     if eaten then Ok ((), p) else obind (peek p) (\<lambda>t. Err (ExpectedKeyword kw t)))"

definition expect :: "token \<Rightarrow> parser \<Rightarrow> unit parsed" where
  "expect tok p =
     obind (peek p) (\<lambda>t. if t = tok then omap (\<lambda>(_, p). ((), p)) (advance p) else Err (ExpectedToken tok t))"

definition parse_ident :: "parser \<Rightarrow> bytes parsed" where
  "parse_ident p = obind (advance p) (\<lambda>(t, p). case t of TIdent s \<Rightarrow> Ok (s, p) | _ \<Rightarrow> Err (ExpectedIdent t))"

definition parse_literal :: "parser \<Rightarrow> literal parsed" where
  "parse_literal p =
     obind (advance p) (\<lambda>(t, p).
     case t of
       TStr s \<Rightarrow> Ok (LStr s, p)
     | TNum n \<Rightarrow> Ok (LNum n, p)
     | TIdent s \<Rightarrow>
         Ok (if eq_ignore_ascii_case s (ascii ''true'') then LBool True
             else if eq_ignore_ascii_case s (ascii ''false'') then LBool False
             else LIdent s, p)
     | _ \<Rightarrow> Err (ExpectedLiteral t))"

section \<open>Lists of things with a separator\<close>

definition remaining :: "parser \<Rightarrow> nat" where
  "remaining p = length (p_tokens p) - p_pos p"

text \<open>
  The loops \<^verbatim>\<open>while *self.peek() == sep { self.advance(); item }\<close>. Taking the separator moves the
  parser unless it is the last token, and then the item fails, so the loops end.
\<close>

lemma advance_le: "advance p = Ok (t, p') \<Longrightarrow> remaining p' \<le> remaining p"
  by (auto simp: advance_def remaining_def)

lemma item_shorter:
  assumes "peek p = Ok sep" and "advance p = Ok (t, p1)" and "advance p1 = Ok (t', p2)" and "t' \<noteq> sep"
  shows "remaining p2 < remaining p"
proof -
  have bound: "p_pos p < length (p_tokens p)" using assms(1) by (auto simp: peek_def split: if_splits)
  have "p_pos p + 1 < length (p_tokens p)"
  proof (rule ccontr)
    assume "\<not> ?thesis"
    then have "p1 = p" using assms(2) by (auto simp: advance_def)
    then show False using assms by (auto simp: advance_def)
  qed
  then have "remaining p1 < remaining p" using assms(2) bound by (auto simp: remaining_def advance_def)
  then show ?thesis using advance_le [OF assms(3)] by simp
qed

lemma parse_ident_Ok: "parse_ident p = Ok (s, p') \<Longrightarrow> advance p = Ok (TIdent s, p')"
proof (cases "advance p")
  case (Ok x)
  moreover obtain t p1 where "x = (t, p1)" by (cases x)
  moreover assume "parse_ident p = Ok (s, p')"
  ultimately show ?thesis by (cases t) (simp_all add: parse_ident_def)
qed (simp_all add: parse_ident_def)

lemma parse_literal_Ok: "parse_literal p = Ok (v, p') \<Longrightarrow> \<exists>t. advance p = Ok (t, p') \<and> t \<noteq> TComma"
proof (cases "advance p")
  case (Ok x)
  moreover obtain t p1 where "x = (t, p1)" by (cases x)
  moreover assume "parse_literal p = Ok (v, p')"
  ultimately show ?thesis by (cases t) (simp_all add: parse_literal_def)
qed (simp_all add: parse_literal_def)

function parse_path :: "bytes \<Rightarrow> parser \<Rightarrow> bytes parsed" where
  "parse_path path p =
     obind (peek p) (\<lambda>t.
     if t = TDot then
       obind (advance p) (\<lambda>(_, p). obind (parse_ident p) (\<lambda>(s, p). parse_path (path @ [46] @ s) p))
     else Ok (path, p))"
  by pat_completeness auto
termination
  by (relation "measure (\<lambda>(path, p). remaining p)") (auto dest: parse_ident_Ok item_shorter)

declare parse_path.simps [simp del]

definition parse_field :: "parser \<Rightarrow> bytes parsed" where
  "parse_field p = obind (parse_ident p) (\<lambda>(path, p). parse_path path p)"

function parse_literals :: "literal list \<Rightarrow> parser \<Rightarrow> literal list parsed" where
  "parse_literals vs p =
     obind (peek p) (\<lambda>t.
     if t = TComma then
       obind (advance p) (\<lambda>(_, p). obind (parse_literal p) (\<lambda>(v, p). parse_literals (vs @ [v]) p))
     else Ok (vs, p))"
  by pat_completeness auto
termination
  by (relation "measure (\<lambda>(vs, p). remaining p)") (auto dest!: parse_literal_Ok dest: item_shorter)

declare parse_literals.simps [simp del]

lemma parse_path_le: "parse_path path p = Ok (s, p') \<Longrightarrow> remaining p' \<le> remaining p"
proof (induction path p rule: parse_path.induct)
  case (1 path p)
  from "1.prems" obtain t where t: "peek p = Ok t" by (auto simp: parse_path.simps [of path p] obind_eq_Ok)
  show ?case
  proof (cases "t = TDot")
    case True
    with "1.prems" t obtain t1 p1 x p2 where a: "advance p = Ok (t1, p1)" "parse_ident p1 = Ok (x, p2)"
      "parse_path (path @ [46] @ x) p2 = Ok (s, p')" by (auto simp: parse_path.simps [of path p] obind_eq_Ok)
    have "remaining p' \<le> remaining p2" using "1.IH" [OF t True a(1) refl a(2) refl a(3)] .
    also have "\<dots> \<le> remaining p1" using advance_le [OF parse_ident_Ok [OF a(2)]] .
    also have "\<dots> \<le> remaining p" using advance_le [OF a(1)] .
    finally show ?thesis .
  next
    case False
    then show ?thesis using "1.prems" t by (simp add: parse_path.simps [of path p])
  qed
qed

lemma field_shorter:
  assumes "peek p = Ok sep" and "advance p = Ok (t, p1)" and "parse_field p1 = Ok (s, p2)" and "\<And>s. sep \<noteq> TIdent s"
  shows "remaining p2 < remaining p"
proof -
  from assms(3) obtain s1 p' where "advance p1 = Ok (TIdent s1, p')" "parse_path s1 p' = Ok (s, p2)"
    by (auto simp: parse_field_def obind_eq_Ok dest!: parse_ident_Ok)
  moreover from this(1) have "remaining p' < remaining p" using item_shorter [OF assms(1,2)] assms(4) by metis
  ultimately show ?thesis using parse_path_le by (blast intro: le_less_trans)
qed

function parse_fields :: "bytes list \<Rightarrow> parser \<Rightarrow> bytes list parsed" where
  "parse_fields fs p =
     obind (peek p) (\<lambda>t.
     if t = TComma then
       obind (advance p) (\<lambda>(_, p). obind (parse_field p) (\<lambda>(f, p). parse_fields (fs @ [f]) p))
     else Ok (fs, p))"
  by pat_completeness auto
termination
  by (relation "measure (\<lambda>(fs, p). remaining p)") (auto dest: field_shorter)

declare parse_fields.simps [simp del]

definition parse_select_list :: "parser \<Rightarrow> select_list parsed" where
  "parse_select_list p =
     obind (peek p) (\<lambda>t.
     if t = TStar then omap (\<lambda>(_, p). (All, p)) (advance p)
     else obind (parse_field p) (\<lambda>(f, p). omap (\<lambda>(fs, p). (Fields fs, p)) (parse_fields [f] p)))"

definition parse_order_item :: "parser \<Rightarrow> order_item parsed" where
  "parse_order_item p =
     obind (parse_field p) (\<lambda>(f, p).
     obind (eat_keyword (ascii ''DESC'') p) (\<lambda>(desc, p).
     if desc then Ok (\<lparr> ord_field = f, descending = True \<rparr>, p)
     else omap (\<lambda>(_, p). (\<lparr> ord_field = f, descending = False \<rparr>, p)) (eat_keyword (ascii ''ASC'') p)))"

lemma eat_keyword_le: "eat_keyword kw p = Ok (b, p') \<Longrightarrow> remaining p' \<le> remaining p"
  by (auto simp: eat_keyword_def obind_eq_Ok dest: advance_le split: if_splits)

lemma order_item_shorter:
  assumes "peek p = Ok sep" and "advance p = Ok (t, p1)" and "parse_order_item p1 = Ok (x, p2)" and "\<And>s. sep \<noteq> TIdent s"
  shows "remaining p2 < remaining p"
proof -
  from assms(3) obtain s p3 b p4 where "parse_field p1 = Ok (s, p3)" "eat_keyword (ascii ''DESC'') p3 = Ok (b, p4)"
    "p2 = p4 \<or> (\<exists>c. eat_keyword (ascii ''ASC'') p4 = Ok (c, p2))"
    by (auto simp: parse_order_item_def obind_eq_Ok split: if_splits)
  then have "remaining p3 < remaining p" "remaining p4 \<le> remaining p3" "remaining p2 \<le> remaining p4"
    using field_shorter [OF assms(1,2) _ assms(4)] by (auto dest: eat_keyword_le)
  then show ?thesis by simp
qed

function parse_order_items :: "order_item list \<Rightarrow> parser \<Rightarrow> order_item list parsed" where
  "parse_order_items items p =
     obind (peek p) (\<lambda>t.
     if t = TComma then
       obind (advance p) (\<lambda>(_, p). obind (parse_order_item p) (\<lambda>(x, p). parse_order_items (items @ [x]) p))
     else Ok (items, p))"
  by pat_completeness auto
termination
  by (relation "measure (\<lambda>(items, p). remaining p)") (auto dest: order_item_shorter)

declare parse_order_items.simps [simp del]

definition parse_order_list :: "parser \<Rightarrow> order_item list parsed" where
  "parse_order_list p = obind (parse_order_item p) (\<lambda>(x, p). parse_order_items [x] p)"

section \<open>Expressions\<close>

definition compare_token :: "token \<Rightarrow> compare_op option" where
  "compare_token t =
     (case t of TEq \<Rightarrow> Some OpEq | TNeq \<Rightarrow> Some OpNeq | TLt \<Rightarrow> Some OpLt | TLte \<Rightarrow> Some OpLte
      | TGt \<Rightarrow> Some OpGt | TGte \<Rightarrow> Some OpGte | _ \<Rightarrow> None)"

definition parse_predicate :: "parser \<Rightarrow> expr parsed" where
  "parse_predicate p =
     obind (parse_field p) (\<lambda>(fld, p).
     obind (eat_keyword (ascii ''IN'') p) (\<lambda>(is_in, p).
     if is_in then
       obind (expect TLParen p) (\<lambda>(_, p).
       obind (parse_literal p) (\<lambda>(v, p).
       obind (parse_literals [v] p) (\<lambda>(vs, p).
       omap (\<lambda>(_, p). (In fld vs, p)) (expect TRParen p))))
     else
       obind (advance p) (\<lambda>(t, p).
       case compare_token t of
         None \<Rightarrow> Err (ExpectedOperator fld t)
       | Some op \<Rightarrow> omap (\<lambda>(v, p). (Compare fld op v, p)) (parse_literal p))))"

fun parse_or_expr :: "nat \<Rightarrow> parser \<Rightarrow> expr parsed"
  and or_loop :: "nat \<Rightarrow> expr \<Rightarrow> parser \<Rightarrow> expr parsed"
  and parse_and_expr :: "nat \<Rightarrow> parser \<Rightarrow> expr parsed"
  and and_loop :: "nat \<Rightarrow> expr \<Rightarrow> parser \<Rightarrow> expr parsed"
  and parse_unary_expr :: "nat \<Rightarrow> parser \<Rightarrow> expr parsed" where
  "parse_or_expr 0 p = Err OutOfFuel"
| "parse_or_expr (Suc n) p = obind (parse_and_expr n p) (\<lambda>(lhs, p). or_loop n lhs p)"
| "or_loop 0 lhs p = Err OutOfFuel"
| "or_loop (Suc n) lhs p =
     obind (eat_keyword (ascii ''OR'') p) (\<lambda>(eaten, p).
     if eaten then obind (parse_and_expr n p) (\<lambda>(rhs, p). or_loop n (Or lhs rhs) p) else Ok (lhs, p))"
| "parse_and_expr 0 p = Err OutOfFuel"
| "parse_and_expr (Suc n) p = obind (parse_unary_expr n p) (\<lambda>(lhs, p). and_loop n lhs p)"
| "and_loop 0 lhs p = Err OutOfFuel"
| "and_loop (Suc n) lhs p =
     obind (eat_keyword (ascii ''AND'') p) (\<lambda>(eaten, p).
     if eaten then obind (parse_unary_expr n p) (\<lambda>(rhs, p). and_loop n (And lhs rhs) p) else Ok (lhs, p))"
| "parse_unary_expr 0 p = Err OutOfFuel"
| "parse_unary_expr (Suc n) p =
     obind (peek p) (\<lambda>t.
     let is_not = is_keyword (ascii ''NOT'') t; is_paren = (t = TLParen) in
     if \<not> (is_not \<or> is_paren) then parse_predicate p
     else
       let p = p\<lparr> expr_depth := expr_depth p + 1 \<rparr> in
       if MAX_EXPR_DEPTH < expr_depth p then Err NestingTooDeep
       else
         omap (\<lambda>(e, p). (e, p\<lparr> expr_depth := expr_depth p - 1 \<rparr>))
           (obind (advance p) (\<lambda>(_, p).
            if is_not then omap (\<lambda>(e, p). (Not e, p)) (parse_unary_expr n p)
            else obind (parse_or_expr n p) (\<lambda>(inner, p). omap (\<lambda>(_, p). (inner, p)) (expect TRParen p)))))"

section \<open>Queries\<close>

definition parse_limit :: "parser \<Rightarrow> nat parsed" where
  "parse_limit p =
     obind (advance p) (\<lambda>(t, p).
     case t of
       TNum n \<Rightarrow> if fract_is_zero n then Ok (f64_to_u64 n, p) else Err (ExpectedLimit t)
     | _ \<Rightarrow> Err (ExpectedLimit t))"

definition parse_query :: "nat \<Rightarrow> parser \<Rightarrow> query parsed" where
  "parse_query fuel p =
     obind (expect_keyword (ascii ''SELECT'') p) (\<lambda>(_, p).
     obind (parse_select_list p) (\<lambda>(sel, p).
     obind (expect_keyword (ascii ''FROM'') p) (\<lambda>(_, p).
     obind (parse_ident p) (\<lambda>(from, p).
     obind (eat_keyword (ascii ''WHERE'') p) (\<lambda>(has_filter, p).
     obind (if has_filter then omap (\<lambda>(e, p). (Some e, p)) (parse_or_expr fuel p) else Ok (None, p)) (\<lambda>(filt, p).
     obind (eat_keyword (ascii ''ORDER'') p) (\<lambda>(has_order, p).
     obind (if has_order then obind (expect_keyword (ascii ''BY'') p) (\<lambda>(_, p). parse_order_list p) else Ok ([], p)) (\<lambda>(ord, p).
     obind (eat_keyword (ascii ''LIMIT'') p) (\<lambda>(has_limit, p).
     omap (\<lambda>(lim, p). (\<lparr> q_select = sel, q_from = from, q_filter = filt, q_order_by = ord, q_limit = lim \<rparr>, p))
       (if has_limit then omap (\<lambda>(n, p). (Some n, p)) (parse_limit p) else Ok (None, p)))))))))))"

text \<open>Fuel for the expressions: three calls lie between two tokens.\<close>

definition parse_fuel :: "token list \<Rightarrow> nat" where
  "parse_fuel ts = 4 * length ts + 4"

definition parse_tokens :: "token list \<Rightarrow> (parse_error, query) outcome" where
  "parse_tokens ts =
     obind (parse_query (parse_fuel ts) \<lparr> p_tokens = ts, p_pos = 0, expr_depth = 0 \<rparr>) (\<lambda>(q, p).
     omap (\<lambda>_. q) (expect_eof p))"

definition parse :: "char_classes \<Rightarrow> bytes \<Rightarrow> (parse_error, query) outcome" where
  "parse u src =
     (case tokenize u src of
        Ok ts \<Rightarrow> parse_tokens ts
      | Err e \<Rightarrow> Err (LexError e)
      | Panic \<Rightarrow> Panic)"

end
