(* ===== verification/Gems_Grammar.thy ===== *)
theory Gems_Grammar
  imports Gems_Parser "HOL-Library.Sublist"
begin

text \<open>
  The grammar of the query language, as \<^verbatim>\<open>parser.rs\<close> documents it, over the tokens each phrase
  consists of, and the proof that the parser accepts exactly the phrases of the grammar whose \<^verbatim>\<open>NOT\<close> and
  parenthesis nesting is at most 64.
\<close>

section \<open>The grammar\<close>

inductive g_field :: "token list \<Rightarrow> bytes \<Rightarrow> bool" where
  field_ident: "g_field [TIdent s] s"
| field_dot: "g_field us path \<Longrightarrow> g_field (us @ [TDot, TIdent s]) (path @ [46] @ s)"

definition token_literal :: "token \<Rightarrow> literal option" where
  "token_literal t =
     (case t of
        TStr s \<Rightarrow> Some (LStr s)
      | TNum n \<Rightarrow> Some (LNum n)
      | TIdent s \<Rightarrow>
          Some (if eq_ignore_ascii_case s (ascii ''true'') then LBool True
                else if eq_ignore_ascii_case s (ascii ''false'') then LBool False
                else LIdent s)
      | _ \<Rightarrow> None)"

text \<open>A list of phrases separated by commas.\<close>

inductive g_list :: "(token list \<Rightarrow> 'a \<Rightarrow> bool) \<Rightarrow> token list \<Rightarrow> 'a list \<Rightarrow> bool" for G where
  list_one: "G us x \<Longrightarrow> g_list G us [x]"
| list_comma: "g_list G us xs \<Longrightarrow> G vs x \<Longrightarrow> g_list G (us @ [TComma] @ vs) (xs @ [x])"

definition g_literal :: "token list \<Rightarrow> literal \<Rightarrow> bool" where
  "g_literal us v \<longleftrightarrow> (\<exists>t. us = [t] \<and> token_literal t = Some v)"

text \<open>A predicate does not begin with the keyword \<^verbatim>\<open>NOT\<close>, nor is \<^verbatim>\<open>IN\<close> a comparison operator.\<close>

inductive g_predicate :: "token list \<Rightarrow> expr \<Rightarrow> bool" where
  pred_in: "g_field us fld \<Longrightarrow> is_keyword (ascii ''IN'') t \<Longrightarrow> g_list g_literal vs xs \<Longrightarrow>
    \<not> is_keyword (ascii ''NOT'') (hd us) \<Longrightarrow> g_predicate (us @ [t, TLParen] @ vs @ [TRParen]) (In fld xs)"
| pred_compare: "g_field us fld \<Longrightarrow> compare_token t = Some op \<Longrightarrow> token_literal t' = Some v \<Longrightarrow>
    \<not> is_keyword (ascii ''NOT'') (hd us) \<Longrightarrow> g_predicate (us @ [t, t']) (Compare fld op v)"

text \<open>Expressions whose nesting is at most \<open>d\<close>.\<close>

inductive g_or :: "nat \<Rightarrow> token list \<Rightarrow> expr \<Rightarrow> bool"
  and g_and :: "nat \<Rightarrow> token list \<Rightarrow> expr \<Rightarrow> bool"
  and g_unary :: "nat \<Rightarrow> token list \<Rightarrow> expr \<Rightarrow> bool" where
  or_one: "g_and d us e \<Longrightarrow> g_or d us e"
| or_more: "g_or d us a \<Longrightarrow> is_keyword (ascii ''OR'') t \<Longrightarrow> g_and d vs b \<Longrightarrow> g_or d (us @ [t] @ vs) (Or a b)"
| and_one: "g_unary d us e \<Longrightarrow> g_and d us e"
| and_more: "g_and d us a \<Longrightarrow> is_keyword (ascii ''AND'') t \<Longrightarrow> g_unary d vs b \<Longrightarrow> g_and d (us @ [t] @ vs) (And a b)"
| unary_pred: "g_predicate us e \<Longrightarrow> g_unary d us e"
| unary_not: "is_keyword (ascii ''NOT'') t \<Longrightarrow> g_unary d us e \<Longrightarrow> g_unary (Suc d) (t # us) (Not e)"
| unary_paren: "g_or d us e \<Longrightarrow> g_unary (Suc d) ([TLParen] @ us @ [TRParen]) e"

inductive g_select :: "token list \<Rightarrow> select_list \<Rightarrow> bool" where
  select_star: "g_select [TStar] All"
| select_fields: "g_list g_field us fs \<Longrightarrow> g_select us (Fields fs)"

inductive g_order_item :: "token list \<Rightarrow> order_item \<Rightarrow> bool" where
  item_plain: "g_field us f \<Longrightarrow> g_order_item us \<lparr> ord_field = f, descending = False \<rparr>"
| item_asc: "g_field us f \<Longrightarrow> is_keyword (ascii ''ASC'') t \<Longrightarrow> g_order_item (us @ [t]) \<lparr> ord_field = f, descending = False \<rparr>"
| item_desc: "g_field us f \<Longrightarrow> is_keyword (ascii ''DESC'') t \<Longrightarrow> g_order_item (us @ [t]) \<lparr> ord_field = f, descending = True \<rparr>"

text \<open>An optional clause.\<close>

definition g_opt :: "(token list \<Rightarrow> 'a \<Rightarrow> bool) \<Rightarrow> token list \<Rightarrow> 'a option \<Rightarrow> bool" where
  "g_opt G us x \<longleftrightarrow> (case x of None \<Rightarrow> us = [] | Some y \<Rightarrow> G us y)"

definition g_where :: "nat \<Rightarrow> token list \<Rightarrow> expr \<Rightarrow> bool" where
  "g_where d us e \<longleftrightarrow> (\<exists>t vs. us = t # vs \<and> is_keyword (ascii ''WHERE'') t \<and> g_or d vs e)"

definition g_order_by :: "token list \<Rightarrow> order_item list \<Rightarrow> bool" where
  "g_order_by us items \<longleftrightarrow> us = [] \<and> items = [] \<or>
     (\<exists>t t' vs. us = t # t' # vs \<and> is_keyword (ascii ''ORDER'') t \<and> is_keyword (ascii ''BY'') t' \<and> g_list g_order_item vs items)"

definition g_limit :: "token list \<Rightarrow> nat \<Rightarrow> bool" where
  "g_limit us k \<longleftrightarrow> (\<exists>t n. us = [t, TNum n] \<and> is_keyword (ascii ''LIMIT'') t \<and> fract_is_zero n \<and> k = f64_to_u64 n)"

inductive g_query :: "nat \<Rightarrow> token list \<Rightarrow> query \<Rightarrow> bool" where
  query: "is_keyword (ascii ''SELECT'') t1 \<Longrightarrow> g_select us1 sel \<Longrightarrow> is_keyword (ascii ''FROM'') t2 \<Longrightarrow>
    g_opt (g_where d) us2 filt \<Longrightarrow> g_order_by us3 ord \<Longrightarrow> g_opt g_limit us4 lim \<Longrightarrow>
    g_query d ([t1] @ us1 @ [t2, TIdent from] @ us2 @ us3 @ us4)
      \<lparr> q_select = sel, q_from = from, q_filter = filt, q_order_by = ord, q_limit = lim \<rparr>"

section \<open>Positions\<close>

text \<open>The parser in front of the suffix \<open>ts\<close> of its tokens.\<close>

definition at :: "token list \<Rightarrow> nat \<Rightarrow> token list \<Rightarrow> parser" where
  "at T d ts = \<lparr> p_tokens = T, p_pos = length T - length ts, expr_depth = d \<rparr>"

definition stream :: "token list \<Rightarrow> token list \<Rightarrow> bool" where
  "stream T ts \<longleftrightarrow> suffix ts T \<and> ts \<noteq> [] \<and> last ts = TEof \<and> TEof \<notin> set (butlast ts)"

lemma stream_Cons: "stream T (t # ts) \<Longrightarrow> t \<noteq> TEof \<Longrightarrow> stream T ts"
  using suffix_ConsD [of t ts T] by (cases ts) (simp_all add: stream_def)

lemma stream_append: "stream T (us @ ts) \<Longrightarrow> ts \<noteq> [] \<Longrightarrow> stream T ts"
  using suffix_appendD [of us ts T] by (simp add: stream_def butlast_append)

lemma peek_at: "stream T (t # ts) \<Longrightarrow> peek (at T d (t # ts)) = Ok t"
  by (auto simp: stream_def suffix_def peek_def at_def nth_append)

lemma advance_at: "stream T (t # ts) \<Longrightarrow> t \<noteq> TEof \<Longrightarrow> advance (at T d (t # ts)) = Ok (t, at T d ts)"
proof -
  assume s: "stream T (t # ts)" and t: "t \<noteq> TEof"
  have "ts \<noteq> []" using stream_Cons [OF s t] by (simp add: stream_def)
  then have "0 < length ts" by simp
  moreover obtain pre where "T = pre @ t # ts" using s by (auto simp: stream_def suffix_def)
  ultimately show ?thesis unfolding advance_def peek_at [OF s] by (simp add: at_def)
qed

lemma advance_eof: "stream T (TEof # ts) \<Longrightarrow> advance (at T d (TEof # ts)) = Ok (TEof, at T d (TEof # ts))"
proof -
  assume s: "stream T (TEof # ts)"
  then have "ts = []" by (auto simp: stream_def split: if_splits)
  moreover obtain pre where "T = pre @ TEof # ts" using s by (auto simp: stream_def suffix_def)
  ultimately show ?thesis unfolding advance_def peek_at [OF s] by (simp add: at_def)
qed

lemma stream_cases:
  assumes "stream T ts"
  obtains t ts' where "ts = t # ts'" "t \<noteq> TEof" "stream T ts'" | "ts = [TEof]"
proof (cases ts)
  case (Cons t ts')
  show ?thesis
  proof (cases "t = TEof")
    case True
    then have "ts' = []" using assms Cons by (auto simp: stream_def split: if_splits)
    then show ?thesis using that(2) Cons True by simp
  next
    case False
    then show ?thesis using that(1) [OF Cons False] assms Cons stream_Cons by blast
  qed
qed (use assms in \<open>simp add: stream_def\<close>)

lemma is_keyword_Eof [simp]: "\<not> is_keyword kw TEof" "\<not> is_keyword kw TDot" "\<not> is_keyword kw TComma"
  "\<not> is_keyword kw TLParen" "\<not> is_keyword kw TRParen" "\<not> is_keyword kw TStar" "\<not> is_keyword kw (TNum n)"
  by (simp_all add: is_keyword_def)

lemma keyword_not_eof: "is_keyword kw t \<Longrightarrow> t \<noteq> TEof" by auto

section \<open>The steps of the parser at a position\<close>

lemma eat_keyword_at:
  "stream T (t # ts) \<Longrightarrow> eat_keyword kw (at T d (t # ts)) = (if is_keyword kw t then Ok (True, at T d ts) else Ok (False, at T d (t # ts)))"
  by (cases "t = TEof") (simp_all add: eat_keyword_def peek_at advance_at)

lemma expect_keyword_at:
  "stream T (t # ts) \<Longrightarrow> expect_keyword kw (at T d (t # ts)) = (if is_keyword kw t then Ok ((), at T d ts) else Err (ExpectedKeyword kw t))"
  by (auto simp: expect_keyword_def eat_keyword_at peek_at)

lemma expect_at:
  "stream T (t # ts) \<Longrightarrow> tok \<noteq> TEof \<Longrightarrow> expect tok (at T d (t # ts)) = (if t = tok then Ok ((), at T d ts) else Err (ExpectedToken tok t))"
  by (cases "t = tok") (auto simp: expect_def peek_at advance_at)

lemma parse_ident_at:
  "stream T (t # ts) \<Longrightarrow> parse_ident (at T d (t # ts)) = (case t of TIdent s \<Rightarrow> Ok (s, at T d ts) | _ \<Rightarrow> Err (ExpectedIdent t))"
  by (cases "t = TEof") (auto simp: parse_ident_def advance_at advance_eof split: token.splits)

lemma parse_literal_at:
  "stream T (t # ts) \<Longrightarrow>
     parse_literal (at T d (t # ts)) = (case token_literal t of Some v \<Rightarrow> Ok (v, at T d ts) | None \<Rightarrow> Err (ExpectedLiteral t))"
  by (cases "t = TEof") (auto simp: parse_literal_def token_literal_def advance_at advance_eof split: token.splits)

lemma parse_path_at:
  "stream T (t # ts) \<Longrightarrow> parse_path path (at T d (t # ts)) =
     (if t = TDot then obind (parse_ident (at T d ts)) (\<lambda>(s, p). parse_path (path @ [46] @ s) p) else Ok (path, at T d (t # ts)))"
  by (subst parse_path.simps) (cases "t = TDot"; auto simp: peek_at advance_at)

section \<open>What a successful step has read\<close>

definition reads :: "token list \<Rightarrow> nat \<Rightarrow> token list \<Rightarrow> (token list \<Rightarrow> 'a \<Rightarrow> bool) \<Rightarrow> 'a parsed \<Rightarrow> bool" where
  "reads T d ts G r \<longleftrightarrow>
     (\<forall>x p'. r = Ok (x, p') \<longrightarrow> (\<exists>us rest. ts = us @ rest \<and> stream T rest \<and> p' = at T d rest \<and> G us x))"

lemma reads_Err [simp]: "reads T d ts G (Err e)"
  by (simp add: reads_def)

lemma reads_Ok: "stream T ts \<Longrightarrow> G [] x \<Longrightarrow> reads T d ts G (Ok (x, at T d ts))"
  by (auto simp: reads_def)

lemma reads_step: "stream T ts \<Longrightarrow> G [t] x \<Longrightarrow> reads T d (t # ts) G (Ok (x, at T d ts))"
  unfolding reads_def by (metis append_Cons append_Nil old.prod.inject outcome.inject(1))

lemma reads_mono: "reads T d ts G r \<Longrightarrow> (\<And>us x. G us x \<Longrightarrow> H us x) \<Longrightarrow> reads T d ts H r"
  unfolding reads_def by blast

lemma reads_bind:
  assumes "reads T d ts G m"
    and "\<And>us rest x. ts = us @ rest \<Longrightarrow> stream T rest \<Longrightarrow> G us x \<Longrightarrow> reads T d rest (\<lambda>vs y. H (us @ vs) y) (k (x, at T d rest))"
  shows "reads T d ts H (obind m k)"
  unfolding reads_def
proof (intro allI impI)
  fix y p' assume "obind m k = Ok (y, p')"
  then obtain x p where m: "m = Ok (x, p)" "k (x, p) = Ok (y, p')" by (auto simp: obind_eq_Ok)
  with assms(1) obtain us rest where r: "ts = us @ rest" "stream T rest" "p = at T d rest" "G us x" unfolding reads_def by blast
  with assms(2) m(2) obtain vs rest' where "rest = vs @ rest'" "stream T rest'" "p' = at T d rest'" "H (us @ vs) y"
    unfolding reads_def by blast
  then show "\<exists>us rest. ts = us @ rest \<and> stream T rest \<and> p' = at T d rest \<and> H us y"
    using r(1) by (intro exI [of _ "us @ vs"] exI [of _ rest']) simp
qed

lemma reads_omap:
  "reads T d ts G m \<Longrightarrow> (\<And>us x. G us x \<Longrightarrow> H us (f x)) \<Longrightarrow> reads T d ts H (omap (\<lambda>(x, p). (f x, p)) m)"
  unfolding reads_def by (cases m) (simp_all split: prod.splits, metis)

lemma reads_token:
  "stream T ts \<Longrightarrow> (\<And>t ts'. ts = t # ts' \<Longrightarrow> stream T ts \<Longrightarrow> reads T d ts G (r (at T d (t # ts')))) \<Longrightarrow> reads T d ts G (r (at T d ts))"
  by (cases ts) (simp_all add: stream_def)

lemma reads_ident: "stream T ts \<Longrightarrow> reads T d ts (\<lambda>us s. us = [TIdent s]) (parse_ident (at T d ts))"
  by (cases rule: stream_cases, assumption) (auto simp: parse_ident_at intro!: reads_step split: token.splits)

lemma reads_literal: "stream T ts \<Longrightarrow> reads T d ts g_literal (parse_literal (at T d ts))"
  by (cases rule: stream_cases, assumption) (auto simp: parse_literal_at g_literal_def token_literal_def intro!: reads_step split: option.splits)

lemma reads_keyword: "stream T ts \<Longrightarrow>
    reads T d ts (\<lambda>us b. if b then \<exists>t. us = [t] \<and> is_keyword kw t else us = []) (eat_keyword kw (at T d ts))"
  by (cases rule: stream_cases, assumption) (auto simp: eat_keyword_at intro!: reads_step reads_Ok)

lemma reads_expect: "stream T ts \<Longrightarrow> tok \<noteq> TEof \<Longrightarrow> reads T d ts (\<lambda>us _. us = [tok]) (expect tok (at T d ts))"
  by (cases rule: stream_cases, assumption) (auto simp: expect_at intro!: reads_step)

lemma reads_expect_keyword: "stream T ts \<Longrightarrow>
    reads T d ts (\<lambda>us _. \<exists>t. us = [t] \<and> is_keyword kw t) (expect_keyword kw (at T d ts))"
  by (cases rule: stream_cases, assumption) (auto simp: expect_keyword_at intro!: reads_step)

lemma reads_path:
  "g_field ws path \<Longrightarrow> stream T ts \<Longrightarrow> reads T d ts (\<lambda>us s. g_field (ws @ us) s) (parse_path path (at T d ts))"
proof (induction "length ts" arbitrary: ts ws path rule: less_induct)
  case less
  obtain t ts' where ts: "ts = t # ts'" using less.prems(2) by (cases ts) (auto simp: stream_def)
  show ?case
  proof (cases "t = TDot")
    case True
    have s: "stream T ts'" using less.prems(2) stream_Cons ts True by blast
    have step: "reads T d ts' (\<lambda>us s. g_field (ws @ TDot # us) s) (obind (parse_ident (at T d ts')) (\<lambda>(s, p). parse_path (path @ [46] @ s) p))"
    proof (rule reads_bind [OF reads_ident [OF s]], simp)
      fix rest x assume r: "ts' = TIdent x # rest" "stream T rest"
      have "g_field (ws @ [TDot, TIdent x]) (path @ [46] @ x)" by (rule field_dot [OF less.prems(1)])
      from less.hyps [OF _ this r(2)] show "reads T d rest (\<lambda>vs. g_field (ws @ TDot # TIdent x # vs)) (parse_path (path @ 46 # x) (at T d rest))"
        using r(1) ts by simp
    qed
    have "reads T d (TDot # ts') (\<lambda>us s. g_field (ws @ us) s) r" if "reads T d ts' (\<lambda>us s. g_field (ws @ TDot # us) s) r" for r
      using that unfolding reads_def by (metis append_Cons)
    with step show ?thesis using parse_path_at [of T t ts'] less.prems(2) ts True by simp
  next
    case False
    then show ?thesis using parse_path_at [of T t ts'] less.prems ts by (auto intro: reads_Ok)
  qed
qed

lemma reads_field: "stream T ts \<Longrightarrow> reads T d ts g_field (parse_field (at T d ts))"
  unfolding parse_field_def
  by (rule reads_bind [OF reads_ident]) (auto intro: reads_path [OF field_ident, simplified])

text \<open>The loops over commas.\<close>

definition comma_loop :: "(parser \<Rightarrow> 'a parsed) \<Rightarrow> ('a list \<Rightarrow> parser \<Rightarrow> 'a list parsed) \<Rightarrow> bool" where
  "comma_loop item L \<longleftrightarrow> (\<forall>xs p. L xs p =
     obind (peek p) (\<lambda>t.
     if t = TComma then obind (advance p) (\<lambda>(_, p). obind (item p) (\<lambda>(x, p). L (xs @ [x]) p))
     else Ok (xs, p)))"

lemma comma_loops: "comma_loop parse_literal parse_literals" "comma_loop parse_field parse_fields"
  "comma_loop parse_order_item parse_order_items"
  by (simp_all add: comma_loop_def parse_literals.simps [symmetric] parse_fields.simps [symmetric] parse_order_items.simps [symmetric])

lemma comma_loop_at: "comma_loop item L \<Longrightarrow> stream T (t # ts) \<Longrightarrow> L xs (at T d (t # ts)) =
    (if t = TComma then obind (item (at T d ts)) (\<lambda>(x, p). L (xs @ [x]) p) else Ok (xs, at T d (t # ts)))"
  unfolding comma_loop_def by (cases "t = TEof"; cases "t = TComma") (simp_all add: peek_at advance_at)

lemma reads_comma:
  assumes L: "comma_loop item L" and item: "\<And>ts. stream T ts \<Longrightarrow> reads T d ts G (item (at T d ts))"
  shows "g_list G ws xs \<Longrightarrow> stream T ts \<Longrightarrow> reads T d ts (\<lambda>us ys. g_list G (ws @ us) ys) (L xs (at T d ts))"
proof (induction "length ts" arbitrary: ts ws xs rule: less_induct)
  case less
  obtain t ts' where ts: "ts = t # ts'" using less.prems(2) by (cases ts) (auto simp: stream_def)
  show ?case
  proof (cases "t = TComma")
    case True
    have s: "stream T ts'" using less.prems(2) stream_Cons ts True by blast
    have step: "reads T d ts' (\<lambda>us s. g_list G (ws @ TComma # us) s) (obind (item (at T d ts')) (\<lambda>(x, p). L (xs @ [x]) p))"
    proof (rule reads_bind [OF item [OF s]])
      fix us rest x assume r: "ts' = us @ rest" "stream T rest" "G us x"
      have "g_list G (ws @ [TComma] @ us) (xs @ [x])" by (rule list_comma [OF less.prems(1) r(3)])
      from less.hyps [OF _ this r(2)] show "reads T d rest (\<lambda>vs. g_list G (ws @ TComma # us @ vs)) (case (x, at T d rest) of (x, p) \<Rightarrow> L (xs @ [x]) p)"
        using r(1) ts by simp
    qed
    have "reads T d (TComma # ts') (\<lambda>us s. g_list G (ws @ us) s) r" if "reads T d ts' (\<lambda>us s. g_list G (ws @ TComma # us) s) r" for r
      using that unfolding reads_def by (metis append_Cons)
    with step show ?thesis using comma_loop_at [OF L, of T t ts'] less.prems(2) ts True by simp
  next
    case False
    then show ?thesis using comma_loop_at [OF L, of T t ts'] less.prems ts by (auto intro: reads_Ok)
  qed
qed

lemma reads_list:
  assumes "comma_loop item L" and "\<And>ts. stream T ts \<Longrightarrow> reads T d ts G (item (at T d ts))" and "stream T ts"
  shows "reads T d ts (g_list G) (obind (item (at T d ts)) (\<lambda>(x, p). L [x] p))"
  by (rule reads_bind [OF assms(2) [OF assms(3)]]) (auto intro: reads_comma [OF assms(1,2) list_one])


lemma field_hd: "g_field us s \<Longrightarrow> us \<noteq> [] \<and> (\<forall>vs. hd (us @ vs) = hd us)"
  by (induction rule: g_field.induct) auto

lemma reads_predicate:
  assumes "stream T (t # ts)" and "\<not> is_keyword (ascii ''NOT'') t"
  shows "reads T d (t # ts) g_predicate (parse_predicate (at T d (t # ts)))"
  unfolding parse_predicate_def
proof (rule reads_bind [OF reads_field [OF assms(1)]], unfold prod.case)
  fix us rest fld assume f: "t # ts = us @ rest" "stream T rest" "g_field us fld"
  have h: "\<not> is_keyword (ascii ''NOT'') (hd us)" using field_hd [OF f(3)] f(1) assms(2) by (metis list.sel(1))
  show "reads T d rest (\<lambda>vs. g_predicate (us @ vs))
     (obind (eat_keyword (ascii ''IN'') (at T d rest)) (\<lambda>(is_in, p).
       if is_in then obind (expect TLParen p) (\<lambda>(_, p). obind (parse_literal p) (\<lambda>(v, p).
         obind (parse_literals [v] p) (\<lambda>(vs, p). omap (\<lambda>(_, p). (In fld vs, p)) (expect TRParen p))))
       else obind (advance p) (\<lambda>(t, p). case compare_token t of None \<Rightarrow> Err (ExpectedOperator fld t)
         | Some op \<Rightarrow> omap (\<lambda>(v, p). (Compare fld op v, p)) (parse_literal p))))"
  proof (rule reads_bind [OF reads_keyword [OF f(2)]], unfold prod.case)
    fix vs rest1 b assume k: "rest = vs @ rest1" "stream T rest1" "if b then \<exists>t. vs = [t] \<and> is_keyword (ascii ''IN'') t else vs = []"
    show "reads T d rest1 (\<lambda>ws. g_predicate (us @ vs @ ws)) (if b then obind (expect TLParen (at T d rest1)) (\<lambda>(_, p). obind (parse_literal p) (\<lambda>(v, p).
         obind (parse_literals [v] p) (\<lambda>(vs, p). omap (\<lambda>(_, p). (In fld vs, p)) (expect TRParen p))))
       else obind (advance (at T d rest1)) (\<lambda>(t, p). case compare_token t of None \<Rightarrow> Err (ExpectedOperator fld t)
         | Some op \<Rightarrow> omap (\<lambda>(v, p). (Compare fld op v, p)) (parse_literal p)))"
    proof (cases b)
      case True
      then obtain k where kw: "vs = [k]" "is_keyword (ascii ''IN'') k" using k(3) by auto
      have "reads T d rest2 (\<lambda>xs. g_predicate (us @ [k, TLParen] @ xs))
          (obind (parse_literal (at T d rest2)) (\<lambda>(v, p). obind (parse_literals [v] p) (\<lambda>(vs, p). omap (\<lambda>(_, p). (In fld vs, p)) (expect TRParen p))))"
        if "stream T rest2" for rest2
      proof -
        have "reads T d rest2 (\<lambda>xs. g_predicate (us @ [k, TLParen] @ xs))
          (obind (obind (parse_literal (at T d rest2)) (\<lambda>(v, p). parse_literals [v] p)) (\<lambda>(vs, p). omap (\<lambda>(_, p). (In fld vs, p)) (expect TRParen p)))"
        proof (rule reads_bind [OF reads_list [OF comma_loops(1) reads_literal that]], assumption, unfold prod.case)
          fix ls rest3 xs assume l: "rest2 = ls @ rest3" "stream T rest3" "g_list g_literal ls xs"
          show "reads T d rest3 (\<lambda>ys. g_predicate (us @ [k, TLParen] @ ls @ ys)) (omap (\<lambda>(_, p). (In fld xs, p)) (expect TRParen (at T d rest3)))"
            by (rule reads_omap [OF reads_expect [OF l(2)]]) (auto intro: pred_in [OF f(3) kw(2) l(3) h, simplified])
        qed
        then show ?thesis by (simp add: obind_assoc case_prod_unfold)
      qed
      then have "reads T d rest1 (\<lambda>xs. g_predicate (us @ [k] @ xs)) (obind (expect TLParen (at T d rest1)) (\<lambda>(_, p). obind (parse_literal p) (\<lambda>(v, p).
         obind (parse_literals [v] p) (\<lambda>(vs, p). omap (\<lambda>(_, p). (In fld vs, p)) (expect TRParen p)))))"
        by (intro reads_bind [OF reads_expect [OF k(2)]]) simp_all
      then show ?thesis using True kw(1) by simp
    next
      case False
      then have vs: "vs = []" using k(3) by simp
      obtain o1 rest2 where r1: "rest1 = o1 # rest2" using k(2) by (cases rest1) (auto simp: stream_def)
      show ?thesis
      proof (cases "compare_token o1")
        case None
        then show ?thesis using False k(2) r1
          by (cases "o1 = TEof") (simp_all add: advance_at advance_eof)
      next
        case (Some op)
        then have ne: "o1 \<noteq> TEof" by (auto simp: compare_token_def)
        then have s2: "stream T rest2" using k(2) r1 stream_Cons by simp
        have "reads T d rest2 (\<lambda>xs. g_predicate (us @ [o1] @ xs)) (omap (\<lambda>(v, p). (Compare fld op v, p)) (parse_literal (at T d rest2)))"
          by (rule reads_omap [OF reads_literal [OF s2]]) (auto simp: g_literal_def intro: pred_compare [OF f(3) Some _ h])
        then have "reads T d rest1 (\<lambda>xs. g_predicate (us @ xs)) (omap (\<lambda>(v, p). (Compare fld op v, p)) (parse_literal (at T d rest2)))"
          unfolding reads_def r1 by (metis append_Cons append_Nil)
        then show ?thesis using False vs Some ne k(2) r1 by (simp add: advance_at)
      qed
    qed
  qed
qed

section \<open>Soundness\<close>

lemma at_depth [simp]: "(at T d ts)\<lparr> expr_depth := k \<rparr> = at T k ts" "expr_depth (at T d ts) = d"
  by (simp_all add: at_def)

lemma reads_depth: "reads T d ts G m \<Longrightarrow> reads T (d - 1) ts G (omap (\<lambda>(e, p). (e, p\<lparr> expr_depth := expr_depth p - 1 \<rparr>)) m)"
  unfolding reads_def by (cases m) (simp_all split: prod.splits, metis at_depth)

lemma reads_prefix: "reads T d ts (\<lambda>us. G (t # us)) r \<Longrightarrow> reads T d (t # ts) G r"
  unfolding reads_def by (metis append_Cons)

lemma expr_sound:
  shows "k \<le> 64 \<Longrightarrow> stream T ts \<Longrightarrow> reads T (64 - k) ts (g_or k) (parse_or_expr n (at T (64 - k) ts))"
    and "k \<le> 64 \<Longrightarrow> stream T ts \<Longrightarrow> g_or k ws lhs \<Longrightarrow>
      reads T (64 - k) ts (\<lambda>us. g_or k (ws @ us)) (or_loop n lhs (at T (64 - k) ts))"
    and "k \<le> 64 \<Longrightarrow> stream T ts \<Longrightarrow> reads T (64 - k) ts (g_and k) (parse_and_expr n (at T (64 - k) ts))"
    and "k \<le> 64 \<Longrightarrow> stream T ts \<Longrightarrow> g_and k ws lhs \<Longrightarrow>
      reads T (64 - k) ts (\<lambda>us. g_and k (ws @ us)) (and_loop n lhs (at T (64 - k) ts))"
    and "k \<le> 64 \<Longrightarrow> stream T ts \<Longrightarrow> reads T (64 - k) ts (g_unary k) (parse_unary_expr n (at T (64 - k) ts))"
proof (induction n arbitrary: k ts ws lhs)
  case 0
  { case 1 show ?case by simp next case 2 show ?case by simp next case 3 show ?case by simp
    next case 4 show ?case by simp next case 5 show ?case by simp }
next
  case (Suc n)
  { case 1
    show ?case unfolding parse_or_expr.simps
      by (rule reads_bind [OF Suc.IH(3) [OF 1]]) (simp add: Suc.IH(2) [OF 1(1) _ or_one])
  next
    case 2
    show ?case unfolding or_loop.simps
    proof (rule reads_bind [OF reads_keyword [OF 2(2)]], unfold prod.case)
      fix us rest b assume b: "ts = us @ rest" "stream T rest" "if b then \<exists>t. us = [t] \<and> is_keyword (ascii ''OR'') t else us = []"
      show "reads T (64 - k) rest (\<lambda>vs. g_or k (ws @ us @ vs))
          (if b then obind (parse_and_expr n (at T (64 - k) rest)) (\<lambda>(rhs, y). or_loop n (Or lhs rhs) y) else Ok (lhs, at T (64 - k) rest))"
      proof (cases b)
        case True
        then obtain t where t: "us = [t]" "is_keyword (ascii ''OR'') t" using b(3) by auto
        have "reads T (64 - k) rest (\<lambda>vs. g_or k (ws @ us @ vs)) (obind (parse_and_expr n (at T (64 - k) rest)) (\<lambda>(rhs, y). or_loop n (Or lhs rhs) y))"
        proof (rule reads_bind [OF Suc.IH(3) [OF 2(1) b(2)]], unfold prod.case)
          fix vs rest' rhs assume r: "rest = vs @ rest'" "stream T rest'" "g_and k vs rhs"
          have "g_or k (ws @ [t] @ vs) (Or lhs rhs)" by (rule or_more [OF 2(3) t(2) r(3)])
          from Suc.IH(2) [OF 2(1) r(2) this] show "reads T (64 - k) rest' (\<lambda>xs. g_or k (ws @ us @ vs @ xs)) (or_loop n (Or lhs rhs) (at T (64 - k) rest'))"
            using t(1) by simp
        qed
        then show ?thesis using True by simp
      qed (use b 2 in \<open>auto intro: reads_Ok\<close>)
    qed
  next
    case 3
    show ?case unfolding parse_and_expr.simps
      by (rule reads_bind [OF Suc.IH(5) [OF 3]]) (simp add: Suc.IH(4) [OF 3(1) _ and_one])
  next
    case 4
    show ?case unfolding and_loop.simps
    proof (rule reads_bind [OF reads_keyword [OF 4(2)]], unfold prod.case)
      fix us rest b assume b: "ts = us @ rest" "stream T rest" "if b then \<exists>t. us = [t] \<and> is_keyword (ascii ''AND'') t else us = []"
      show "reads T (64 - k) rest (\<lambda>vs. g_and k (ws @ us @ vs))
          (if b then obind (parse_unary_expr n (at T (64 - k) rest)) (\<lambda>(rhs, y). and_loop n (And lhs rhs) y) else Ok (lhs, at T (64 - k) rest))"
      proof (cases b)
        case True
        then obtain t where t: "us = [t]" "is_keyword (ascii ''AND'') t" using b(3) by auto
        have "reads T (64 - k) rest (\<lambda>vs. g_and k (ws @ us @ vs)) (obind (parse_unary_expr n (at T (64 - k) rest)) (\<lambda>(rhs, y). and_loop n (And lhs rhs) y))"
        proof (rule reads_bind [OF Suc.IH(5) [OF 4(1) b(2)]], unfold prod.case)
          fix vs rest' rhs assume r: "rest = vs @ rest'" "stream T rest'" "g_unary k vs rhs"
          have "g_and k (ws @ [t] @ vs) (And lhs rhs)" by (rule and_more [OF 4(3) t(2) r(3)])
          from Suc.IH(4) [OF 4(1) r(2) this] show "reads T (64 - k) rest' (\<lambda>xs. g_and k (ws @ us @ vs @ xs)) (and_loop n (And lhs rhs) (at T (64 - k) rest'))"
            using t(1) by simp
        qed
        then show ?thesis using True by simp
      qed (use b 4 in \<open>auto intro: reads_Ok\<close>)
    qed
  next
    case 5
    obtain t ts' where ts: "ts = t # ts'" using 5(2) by (cases ts) (auto simp: stream_def)
    note s = 5(2) [unfolded ts]
    show ?case
    proof (cases "is_keyword (ascii ''NOT'') t \<or> t = TLParen")
      case False
      have "reads T (64 - k) ts (g_unary k) (parse_predicate (at T (64 - k) ts))"
        unfolding ts by (rule reads_mono [OF reads_predicate [OF s]]) (use False unary_pred in auto)
      then show ?thesis using False s by (simp add: ts peek_at)
    next
      case True
      then have ne: "t \<noteq> TEof" by auto
      note s' = stream_Cons [OF s ne]
      show ?thesis
      proof (cases k)
        case 0
        then show ?thesis using True s by (auto simp: ts peek_at MAX_EXPR_DEPTH_def Let_def)
      next
        case (Suc j)
        then have d: "64 - k + 1 = 64 - j" "\<not> 64 < 64 - k + 1" "j \<le> 64" using 5(1) by simp_all
        show ?thesis
        proof (cases "is_keyword (ascii ''NOT'') t")
          case not: True
          have "reads T (64 - j) (t # ts') (g_unary k) (omap (\<lambda>(e, p). (Not e, p)) (parse_unary_expr n (at T (64 - j) ts')))"
            by (rule reads_prefix, rule reads_omap [OF Suc.IH(5) [OF d(3) s']]) (use unary_not [OF not] Suc in simp)
          from reads_depth [OF this] show ?thesis
            using not s ne d by (simp add: ts peek_at advance_at MAX_EXPR_DEPTH_def Let_def Suc_diff_le Suc)
        next
          case paren: False
          then have t: "t = TLParen" using True by simp
          have "reads T (64 - j) ts' (\<lambda>us. g_unary k (t # us)) (obind (parse_or_expr n (at T (64 - j) ts')) (\<lambda>(inner, p). omap (\<lambda>(_, p). (inner, p)) (expect TRParen p)))"
          proof (rule reads_bind [OF Suc.IH(1) [OF d(3) s']], unfold prod.case)
            fix us rest e assume r: "ts' = us @ rest" "stream T rest" "g_or j us e"
            show "reads T (64 - j) rest (\<lambda>vs. g_unary k (t # us @ vs)) (omap (\<lambda>(_, p). (e, p)) (expect TRParen (at T (64 - j) rest)))"
              by (rule reads_omap [OF reads_expect [OF r(2)]]) (use unary_paren [OF r(3)] Suc t in auto)
          qed
          from reads_depth [OF reads_prefix [OF this]] show ?thesis
            using paren t s ne d by (simp add: ts peek_at advance_at MAX_EXPR_DEPTH_def Let_def Suc_diff_le Suc)
        qed
      qed
    qed }
qed


lemma omap_obind: "omap g (obind m f) = obind m (\<lambda>x. omap g (f x))"
  by (cases m) simp_all

lemma reads_select: "stream T ts \<Longrightarrow> reads T d ts g_select (parse_select_list (at T d ts))"
proof -
  assume s: "stream T ts"
  then obtain t ts' where ts: "ts = t # ts'" by (cases ts) (auto simp: stream_def)
  show ?thesis
  proof (cases "t = TStar")
    case True
    then have "stream T ts'" using s ts stream_Cons by blast
    then show ?thesis using s True select_star
      by (auto simp: ts parse_select_list_def peek_at advance_at intro: reads_step)
  next
    case False
    have "reads T d ts g_select (omap (\<lambda>(fs, p). (Fields fs, p)) (obind (parse_field (at T d ts)) (\<lambda>(f, p). parse_fields [f] p)))"
      by (rule reads_omap [OF reads_list [OF comma_loops(2) reads_field s]]) (auto intro: select_fields)
    then show ?thesis using False s by (simp add: ts parse_select_list_def peek_at case_prod_unfold omap_obind)
  qed
qed

lemma readsE:
  assumes "r = Ok (x, p')" and "reads T d ts G r"
  obtains us rest where "ts = us @ rest" "stream T rest" "p' = at T d rest" "G us x"
  using assms unfolding reads_def by blast

lemma reads_order_item: "stream T ts \<Longrightarrow> reads T d ts g_order_item (parse_order_item (at T d ts))"
  unfolding parse_order_item_def
proof (rule reads_bind [OF reads_field], assumption, unfold prod.case)
  fix us rest f assume f: "ts = us @ rest" "stream T rest" "g_field us f"
  show "reads T d rest (\<lambda>vs. g_order_item (us @ vs)) (obind (eat_keyword (ascii ''DESC'') (at T d rest)) (\<lambda>(desc, p).
     if desc then Ok (\<lparr> ord_field = f, descending = True \<rparr>, p)
     else omap (\<lambda>(_, p). (\<lparr> ord_field = f, descending = False \<rparr>, p)) (eat_keyword (ascii ''ASC'') p)))"
  proof (rule reads_bind [OF reads_keyword [OF f(2)]], unfold prod.case)
    fix vs rest1 b assume b: "rest = vs @ rest1" "stream T rest1" "if b then \<exists>t. vs = [t] \<and> is_keyword (ascii ''DESC'') t else vs = []"
    show "reads T d rest1 (\<lambda>ws. g_order_item (us @ vs @ ws)) (if b then Ok (\<lparr> ord_field = f, descending = True \<rparr>, at T d rest1)
     else omap (\<lambda>(_, p). (\<lparr> ord_field = f, descending = False \<rparr>, p)) (eat_keyword (ascii ''ASC'') (at T d rest1)))"
    proof (cases b)
      case True
      then show ?thesis using b(2,3) item_desc [OF f(3)] by (auto intro: reads_Ok)
    next
      case False
      have "reads T d rest1 (\<lambda>ws. g_order_item (us @ ws)) (omap (\<lambda>(_, p). (\<lparr> ord_field = f, descending = False \<rparr>, p)) (eat_keyword (ascii ''ASC'') (at T d rest1)))"
        by (rule reads_omap [OF reads_keyword [OF b(2)]]) (use item_plain [OF f(3)] item_asc [OF f(3)] in \<open>auto split: if_splits\<close>)
      then show ?thesis using False b(3) by simp
    qed
  qed
qed

lemma reads_limit: "stream T ts \<Longrightarrow> reads T d ts (\<lambda>us k. \<exists>n. us = [TNum n] \<and> fract_is_zero n \<and> k = f64_to_u64 n) (parse_limit (at T d ts))"
proof -
  assume s: "stream T ts"
  from s show ?thesis
  proof (cases rule: stream_cases)
    case (1 t ts')
    then show ?thesis using s by (cases t) (auto simp: parse_limit_def advance_at intro: reads_step)
  next
    case 2
    then show ?thesis using s by (simp add: parse_limit_def advance_eof)
  qed
qed

lemma reads_opt:
  assumes s: "stream T ts" and r: "\<And>rest. stream T rest \<Longrightarrow> reads T d rest G (f (at T d rest))"
  shows "reads T d ts (g_opt (\<lambda>us x. \<exists>t vs. us = t # vs \<and> is_keyword kw t \<and> G vs x))
    (obind (eat_keyword kw (at T d ts)) (\<lambda>(b, p). if b then omap (\<lambda>(x, p). (Some x, p)) (f p) else Ok (None, p)))"
proof (rule reads_bind [OF reads_keyword [OF s]], unfold prod.case)
  fix us rest b assume b: "ts = us @ rest" "stream T rest" "if b then \<exists>t. us = [t] \<and> is_keyword kw t else us = []"
  show "reads T d rest (\<lambda>vs. g_opt (\<lambda>us x. \<exists>t vs. us = t # vs \<and> is_keyword kw t \<and> G vs x) (us @ vs))
     (if b then omap (\<lambda>(x, p). (Some x, p)) (f (at T d rest)) else Ok (None, at T d rest))"
  proof (cases b)
    case True
    have "reads T d rest (\<lambda>vs. g_opt (\<lambda>us x. \<exists>t vs. us = t # vs \<and> is_keyword kw t \<and> G vs x) (us @ vs)) (omap (\<lambda>(x, p). (Some x, p)) (f (at T d rest)))"
      by (rule reads_omap [OF r [OF b(2)]]) (use b(3) True in \<open>auto simp: g_opt_def\<close>)
    then show ?thesis using True by simp
  next
    case False
    then show ?thesis using b by (auto simp: g_opt_def intro: reads_Ok)
  qed
qed

lemma reads_order_by:
  assumes s: "stream T ts"
  shows "reads T d ts g_order_by (obind (eat_keyword (ascii ''ORDER'') (at T d ts)) (\<lambda>(b, p).
    if b then obind (expect_keyword (ascii ''BY'') p) (\<lambda>(_, p). parse_order_list p) else Ok ([], p)))"
proof (rule reads_bind [OF reads_keyword [OF s]], unfold prod.case)
  fix us rest b assume b: "ts = us @ rest" "stream T rest" "if b then \<exists>t. us = [t] \<and> is_keyword (ascii ''ORDER'') t else us = []"
  show "reads T d rest (\<lambda>vs. g_order_by (us @ vs)) (if b then obind (expect_keyword (ascii ''BY'') (at T d rest)) (\<lambda>(_, p). parse_order_list p) else Ok ([], at T d rest))"
  proof (cases b)
    case True
    then obtain t where t: "us = [t]" "is_keyword (ascii ''ORDER'') t" using b(3) by auto
    have "reads T d rest (\<lambda>vs. g_order_by (us @ vs)) (obind (expect_keyword (ascii ''BY'') (at T d rest)) (\<lambda>(_, p). parse_order_list p))"
    proof (rule reads_bind [OF reads_expect_keyword [OF b(2)]], unfold prod.case)
      fix vs rest1 x assume v: "rest = vs @ rest1" "stream T rest1" "\<exists>t. vs = [t] \<and> is_keyword (ascii ''BY'') t"
      show "reads T d rest1 (\<lambda>ws. g_order_by (us @ vs @ ws)) (parse_order_list (at T d rest1))"
        unfolding parse_order_list_def
        by (rule reads_mono [OF reads_list [OF comma_loops(3) reads_order_item v(2)]]) (use t v(3) in \<open>auto simp: g_order_by_def\<close>)
    qed
    then show ?thesis using True by simp
  next
    case False
    then show ?thesis using b by (auto simp: g_order_by_def intro: reads_Ok)
  qed
qed

text \<open>The query parser in three clauses.\<close>

lemma parse_query_clauses:
  "parse_query n p =
     obind (expect_keyword (ascii ''SELECT'') p) (\<lambda>(_, p).
     obind (parse_select_list p) (\<lambda>(sel, p).
     obind (expect_keyword (ascii ''FROM'') p) (\<lambda>(_, p).
     obind (parse_ident p) (\<lambda>(from, p).
     obind (obind (eat_keyword (ascii ''WHERE'') p) (\<lambda>(b, p). if b then omap (\<lambda>(x, p). (Some x, p)) (parse_or_expr n p) else Ok (None, p))) (\<lambda>(filt, p).
     obind (obind (eat_keyword (ascii ''ORDER'') p) (\<lambda>(b, p).
       if b then obind (expect_keyword (ascii ''BY'') p) (\<lambda>(_, p). parse_order_list p) else Ok ([], p))) (\<lambda>(ord, p).
     omap (\<lambda>(lim, p). (\<lparr> q_select = sel, q_from = from, q_filter = filt, q_order_by = ord, q_limit = lim \<rparr>, p))
       (obind (eat_keyword (ascii ''LIMIT'') p) (\<lambda>(b, p). if b then omap (\<lambda>(x, p). (Some x, p)) (parse_limit p) else Ok (None, p)))))))))"
  unfolding parse_query_def by (simp only: obind_assoc omap_obind case_prod_unfold)

lemma query_sound: "stream T ts \<Longrightarrow> reads T 0 ts (g_query 64) (parse_query n (at T 0 ts))"
  unfolding reads_def
proof (intro allI impI)
  fix q p' assume s: "stream T ts" and ok: "parse_query n (at T 0 ts) = Ok (q, p')"
  from ok obtain u1 p1 sel p2 u3 p3 frm p4 filt p5 ord p6 lim where st:
    "expect_keyword (ascii ''SELECT'') (at T 0 ts) = Ok (u1, p1)" "parse_select_list p1 = Ok (sel, p2)"
    "expect_keyword (ascii ''FROM'') p2 = Ok (u3, p3)" "parse_ident p3 = Ok (frm, p4)"
    "obind (eat_keyword (ascii ''WHERE'') p4) (\<lambda>(b, p). if b then omap (\<lambda>(x, p). (Some x, p)) (parse_or_expr n p) else Ok (None, p)) = Ok (filt, p5)"
    "obind (eat_keyword (ascii ''ORDER'') p5) (\<lambda>(b, p). if b then obind (expect_keyword (ascii ''BY'') p) (\<lambda>(_, p). parse_order_list p) else Ok ([], p)) = Ok (ord, p6)"
    "obind (eat_keyword (ascii ''LIMIT'') p6) (\<lambda>(b, p). if b then omap (\<lambda>(x, p). (Some x, p)) (parse_limit p) else Ok (None, p)) = Ok (lim, p')"
    "q = \<lparr> q_select = sel, q_from = frm, q_filter = filt, q_order_by = ord, q_limit = lim \<rparr>"
    unfolding parse_query_clauses
    by (simp only: obind_eq_Ok [of "expect_keyword x y" for x y] obind_eq_Ok [of "parse_select_list x" for x]
      obind_eq_Ok [of "parse_ident x" for x] obind_eq_Ok [of "obind x y" for x y] omap_eq_Ok
      split_paired_all split_paired_Ex prod.case prod.inject unit_eq) blast
  from readsE [OF st(1) reads_expect_keyword [OF s]] obtain us1 r1 where a1: "ts = us1 @ r1" "stream T r1" "p1 = at T 0 r1"
    "\<exists>t. us1 = [t] \<and> is_keyword (ascii ''SELECT'') t" by blast
  from readsE [OF st(2) [unfolded a1(3)] reads_select [OF a1(2)]] obtain us2 r2 where a2: "r1 = us2 @ r2" "stream T r2" "p2 = at T 0 r2"
    "g_select us2 sel" by blast
  from readsE [OF st(3) [unfolded a2(3)] reads_expect_keyword [OF a2(2)]] obtain us3 r3 where a3: "r2 = us3 @ r3" "stream T r3" "p3 = at T 0 r3"
    "\<exists>t. us3 = [t] \<and> is_keyword (ascii ''FROM'') t" by blast
  from readsE [OF st(4) [unfolded a3(3)] reads_ident [OF a3(2)]] obtain us4 r4 where a4: "r3 = us4 @ r4" "stream T r4" "p4 = at T 0 r4"
    "us4 = [TIdent frm]" by blast
  have ex: "reads T 0 rest (g_or 64) (parse_or_expr n (at T 0 rest))" if "stream T rest" for rest
    using expr_sound(1) [of 64 T rest n] that by simp
  from readsE [OF st(5) [unfolded a4(3)] reads_opt [OF a4(2) ex]] obtain us5 r5 where a5: "r4 = us5 @ r5" "stream T r5" "p5 = at T 0 r5"
    "g_opt (\<lambda>us x. \<exists>t vs. us = t # vs \<and> is_keyword (ascii ''WHERE'') t \<and> g_or 64 vs x) us5 filt" by blast
  from readsE [OF st(6) [unfolded a5(3)] reads_order_by [OF a5(2)]] obtain us6 r6 where a6: "r5 = us6 @ r6" "stream T r6" "p6 = at T 0 r6"
    "g_order_by us6 ord" by blast
  from readsE [OF st(7) [unfolded a6(3)] reads_opt [OF a6(2) reads_limit]] obtain us7 r7 where a7: "r6 = us7 @ r7" "stream T r7" "p' = at T 0 r7"
    "g_opt (\<lambda>us x. \<exists>t vs. us = t # vs \<and> is_keyword (ascii ''LIMIT'') t \<and> (\<exists>n. vs = [TNum n] \<and> fract_is_zero n \<and> x = f64_to_u64 n)) us7 lim" by blast
  have w: "g_opt (g_where 64) us5 filt" using a5(4) by (simp add: g_opt_def g_where_def split: option.splits)
  have l: "g_opt g_limit us7 lim" using a7(4) by (auto simp: g_opt_def g_limit_def split: option.splits)
  obtain t1 t2 where t: "us1 = [t1]" "is_keyword (ascii ''SELECT'') t1" "us3 = [t2]" "is_keyword (ascii ''FROM'') t2" using a1(4) a3(4) by blast
  have "g_query 64 ([t1] @ us2 @ [t2, TIdent frm] @ us5 @ us6 @ us7) q"
    unfolding st(8) by (rule query [OF t(2) a2(4) t(4) w a6(4) l])
  moreover have "ts = ([t1] @ us2 @ [t2, TIdent frm] @ us5 @ us6 @ us7) @ r7"
    using a1(1) a2(1) a3(1) a4(1,4) a5(1) a6(1) a7(1) t by simp
  ultimately show "\<exists>us rest. ts = us @ rest \<and> stream T rest \<and> p' = at T 0 rest \<and> g_query 64 us q" using a7(2,3) by blast
qed

end
