(* ===== verification/Gems_Grammar_Complete.thy ===== *)
theory Gems_Grammar_Complete
  imports Gems_Grammar
begin

text \<open>
  Every phrase of the grammar is parsed, whatever follows it, to the value the grammar gives it; and the
  fuel of \<open>parse_fuel\<close> is enough for every input, so the parser returns and never panics.
\<close>

section \<open>Keywords\<close>

definition all_keywords :: "string list" where
  "all_keywords = [''SELECT'', ''FROM'', ''WHERE'', ''ORDER'', ''BY'', ''LIMIT'', ''AND'', ''OR'', ''NOT'', ''IN'', ''ASC'', ''DESC'']"

lemma all_keywords_distinct: "distinct (map (\<lambda>k. map ascii_lower (ascii k)) all_keywords)"
  by code_simp

lemma keyword_unique:
  assumes "is_keyword (ascii a) t" and "a \<in> set all_keywords" and "b \<in> set all_keywords" and "a \<noteq> b"
  shows "\<not> is_keyword (ascii b) t"
proof
  assume "is_keyword (ascii b) t"
  with assms(1) have "map ascii_lower (ascii a) = map ascii_lower (ascii b)"
    by (auto simp: is_keyword_def eq_ignore_ascii_case_def split: token.split_asm)
  moreover have "inj_on (\<lambda>k. map ascii_lower (ascii k)) (set all_keywords)"
    using all_keywords_distinct by (simp add: distinct_map)
  ultimately show False using assms(2-4) by (auto dest: inj_onD)
qed

lemma keyword_members: "''SELECT'' \<in> set all_keywords" "''FROM'' \<in> set all_keywords" "''WHERE'' \<in> set all_keywords"
  "''ORDER'' \<in> set all_keywords" "''BY'' \<in> set all_keywords" "''LIMIT'' \<in> set all_keywords" "''AND'' \<in> set all_keywords"
  "''OR'' \<in> set all_keywords" "''NOT'' \<in> set all_keywords" "''IN'' \<in> set all_keywords" "''ASC'' \<in> set all_keywords" "''DESC'' \<in> set all_keywords"
  by (simp_all add: all_keywords_def)

lemma keyword_ident: "is_keyword kw t \<Longrightarrow> \<exists>s. t = TIdent s"
  by (cases t) (simp_all add: is_keyword_def)

lemma compare_not_keyword: "compare_token t = Some op \<Longrightarrow> \<not> is_keyword kw t \<and> t \<noteq> TDot \<and> t \<noteq> TEof"
  by (cases t) (simp_all add: compare_token_def is_keyword_def)

lemma stream_ne: "stream T ts \<Longrightarrow> ts \<noteq> []"
  by (simp add: stream_def)

lemma stream_drop: "stream T (us @ ts) \<Longrightarrow> stream T ts \<or> ts = []"
  using stream_append by blast

section \<open>Fields and lists\<close>

lemma field_complete:
  "g_field us s \<Longrightarrow> stream T (us @ rest) \<Longrightarrow> rest \<noteq> [] \<Longrightarrow> parse_field (at T d (us @ rest)) = parse_path s (at T d rest)"
proof (induction arbitrary: rest rule: g_field.induct)
  case (field_ident s)
  then show ?case by (simp add: parse_field_def parse_ident_at)
next
  case (field_dot us path s)
  have s: "stream T (us @ TDot # TIdent s # rest)" using field_dot.prems by simp
  then have s1: "stream T (TDot # TIdent s # rest)" by (rule stream_append) simp
  then have s2: "stream T (TIdent s # rest)" by (rule stream_Cons) simp
  show ?case using field_dot.IH [OF s] parse_path_at [OF s1, of path d] parse_ident_at [OF s2, of d] by simp
qed

lemma field_exact:
  assumes "g_field us s" and "stream T (us @ rest)" and "rest \<noteq> []" and "hd rest \<noteq> TDot"
  shows "parse_field (at T d (us @ rest)) = Ok (s, at T d rest)"
proof -
  obtain t ts where rest: "rest = t # ts" using assms(3) by (cases rest) auto
  have "stream T rest" using stream_append assms(2,3) by blast
  then show ?thesis using field_complete [OF assms(1-3)] parse_path_at [of T t ts s d] assms(4) rest by simp
qed

lemma comma_complete:
  assumes L: "comma_loop item L"
    and item: "\<And>us x rest. G us x \<Longrightarrow> stream T (us @ rest) \<Longrightarrow> rest \<noteq> [] \<Longrightarrow> F (hd rest) \<Longrightarrow> item (at T d (us @ rest)) = Ok (x, at T d rest)"
    and F: "F TComma"
  shows "g_list G us xs \<Longrightarrow> stream T (us @ rest) \<Longrightarrow> rest \<noteq> [] \<Longrightarrow> F (hd rest) \<Longrightarrow>
    obind (item (at T d (us @ rest))) (\<lambda>(x, p). L [x] p) = L xs (at T d rest)"
proof (induction arbitrary: rest rule: g_list.induct)
  case (list_one us x)
  then show ?case using item by simp
next
  case (list_comma us xs vs x)
  have s: "stream T (us @ TComma # vs @ rest)" using list_comma.prems(1) by simp
  then have s1: "stream T (TComma # vs @ rest)" by (rule stream_append) simp
  then have s2: "stream T (vs @ rest)" by (rule stream_Cons) simp
  have "obind (item (at T d (us @ TComma # vs @ rest))) (\<lambda>(x, p). L [x] p) = L xs (at T d (TComma # vs @ rest))"
    using list_comma.IH [OF s] F by simp
  also have "\<dots> = L (xs @ [x]) (at T d rest)"
    using comma_loop_at [OF L s1] item [OF list_comma.hyps(2) s2 list_comma.prems(2,3)] by simp
  finally show ?case by simp
qed

lemma comma_exact:
  assumes L: "comma_loop item L"
    and item: "\<And>us x rest. G us x \<Longrightarrow> stream T (us @ rest) \<Longrightarrow> rest \<noteq> [] \<Longrightarrow> F (hd rest) \<Longrightarrow> item (at T d (us @ rest)) = Ok (x, at T d rest)"
    and F: "F TComma" and us: "g_list G us xs" "stream T (us @ rest)" "rest \<noteq> []" "F (hd rest)" "hd rest \<noteq> TComma"
  shows "obind (item (at T d (us @ rest))) (\<lambda>(x, p). L [x] p) = Ok (xs, at T d rest)"
proof -
  obtain t ts where rest: "rest = t # ts" using us(3) by (cases rest) auto
  have "stream T rest" using stream_append us(2,3) by blast
  then show ?thesis using comma_complete [OF L item F us(1-4)] comma_loop_at [OF L, of T t ts xs d] us(5) rest by simp
qed

lemma literal_exact: "g_literal us v \<Longrightarrow> stream T (us @ rest) \<Longrightarrow> parse_literal (at T d (us @ rest)) = Ok (v, at T d rest)"
  by (auto simp: g_literal_def parse_literal_at)

lemma order_item_exact:
  assumes "g_order_item us x" and s: "stream T (us @ rest)" and "rest \<noteq> []"
    and F: "hd rest \<noteq> TDot" "\<not> is_keyword (ascii ''ASC'') (hd rest)" "\<not> is_keyword (ascii ''DESC'') (hd rest)"
  shows "parse_order_item (at T d (us @ rest)) = Ok (x, at T d rest)"
proof -
  obtain r rs where rest: "rest = r # rs" using assms(3) by (cases rest) auto
  have sr: "stream T (r # rs)" using stream_append [OF s assms(3)] rest by simp
  have asc: "is_keyword (ascii ''ASC'') t \<Longrightarrow> \<not> is_keyword (ascii ''DESC'') t" for t
    by (rule keyword_unique, assumption) (simp_all add: keyword_members)
  from assms(1) show ?thesis
  proof cases
    case (item_plain f)
    have "parse_field (at T d (us @ rest)) = Ok (f, at T d rest)" by (rule field_exact [OF item_plain(2) s assms(3) F(1)])
    then show ?thesis using item_plain(1) F rest sr by (simp add: parse_order_item_def eat_keyword_at)
  next
    case (item_asc vs f t)
    have s': "stream T (vs @ t # rest)" using s item_asc(1) by simp
    then have st: "stream T (t # rest)" by (rule stream_append) simp
    have "t \<noteq> TDot" using item_asc(4) by auto
    then have "parse_field (at T d (vs @ t # rest)) = Ok (f, at T d (t # rest))" using field_exact [OF item_asc(3) s'] by simp
    then show ?thesis using item_asc asc [OF item_asc(4)] st by (simp add: parse_order_item_def eat_keyword_at)
  next
    case (item_desc vs f t)
    have s': "stream T (vs @ t # rest)" using s item_desc(1) by simp
    then have st: "stream T (t # rest)" by (rule stream_append) simp
    have "t \<noteq> TDot" using item_desc(4) by auto
    then have "parse_field (at T d (vs @ t # rest)) = Ok (f, at T d (t # rest))" using field_exact [OF item_desc(3) s'] by simp
    then show ?thesis using item_desc st by (simp add: parse_order_item_def eat_keyword_at)
  qed
qed

section \<open>Expressions\<close>

lemma predicate_exact:
  assumes "g_predicate us e" and s: "stream T (us @ rest)" and r: "rest \<noteq> []"
  shows "parse_predicate (at T d (us @ rest)) = Ok (e, at T d rest)"
  using assms(1)
proof cases
  case (pred_in ws fld t vs xs)
  have s1: "stream T (ws @ t # TLParen # vs @ TRParen # rest)" using s pred_in(1) by simp
  then have s2: "stream T (t # TLParen # vs @ TRParen # rest)" by (rule stream_append) simp
  have ne: "t \<noteq> TEof" "t \<noteq> TDot" using pred_in(4) by auto
  have s3: "stream T (TLParen # vs @ TRParen # rest)" using stream_Cons [OF s2 ne(1)] .
  then have s4: "stream T (vs @ TRParen # rest)" by (rule stream_Cons) simp
  then have s5: "stream T (TRParen # rest)" by (rule stream_append) simp
  have "parse_field (at T d (ws @ t # TLParen # vs @ TRParen # rest)) = Ok (fld, at T d (t # TLParen # vs @ TRParen # rest))"
    using field_exact [OF pred_in(3) s1] ne by simp
  moreover have "obind (parse_literal (at T d (vs @ TRParen # rest))) (\<lambda>(v, p). parse_literals [v] p) = Ok (xs, at T d (TRParen # rest))"
    by (rule comma_exact [OF comma_loops(1), of g_literal T "\<lambda>_. True"]) (use literal_exact pred_in(5) s4 in auto)
  then obtain v p where "parse_literal (at T d (vs @ TRParen # rest)) = Ok (v, p)" "parse_literals [v] p = Ok (xs, at T d (TRParen # rest))"
    by (auto simp: obind_eq_Ok)
  ultimately show ?thesis
    using pred_in(1,2,4) s2 s3 s5 by (simp add: parse_predicate_def eat_keyword_at expect_at)
next
  case (pred_compare ws fld t op t' v)
  have s1: "stream T (ws @ t # t' # rest)" using s pred_compare(1) by simp
  then have s2: "stream T (t # t' # rest)" by (rule stream_append) simp
  note ne = compare_not_keyword [OF pred_compare(4)]
  have s3: "stream T (t' # rest)" using stream_Cons [OF s2] ne by simp
  have "parse_field (at T d (ws @ t # t' # rest)) = Ok (fld, at T d (t # t' # rest))"
    using field_exact [OF pred_compare(3) s1] ne by simp
  then show ?thesis
    using pred_compare ne s2 s3 by (simp add: parse_predicate_def eat_keyword_at advance_at parse_literal_at)
qed

lemma field_start: "g_field us s \<Longrightarrow> \<exists>x ts. us = TIdent x # ts"
  by (induction rule: g_field.induct) auto

lemma predicate_start: "g_predicate us e \<Longrightarrow> \<exists>s ts. us = TIdent s # ts \<and> \<not> is_keyword (ascii ''NOT'') (TIdent s)"
proof (induction rule: g_predicate.induct)
  case (pred_in us fld t vs xs)
  from field_start [OF pred_in(1)] obtain x ts where "us = TIdent x # ts" by blast
  with pred_in(4) show ?case by simp
next
  case (pred_compare us fld t op t' v)
  from field_start [OF pred_compare(1)] obtain x ts where "us = TIdent x # ts" by blast
  with pred_compare(4) show ?case by simp
qed

lemma and_end: "stream T (t # ts) \<Longrightarrow> \<not> is_keyword (ascii ''AND'') t \<Longrightarrow> 0 < n \<Longrightarrow> and_loop n e (at T d (t # ts)) = Ok (e, at T d (t # ts))"
  by (cases n) (simp_all add: eat_keyword_at)

lemma or_end: "stream T (t # ts) \<Longrightarrow> \<not> is_keyword (ascii ''OR'') t \<Longrightarrow> 0 < n \<Longrightarrow> or_loop n e (at T d (t # ts)) = Ok (e, at T d (t # ts))"
  by (cases n) (simp_all add: eat_keyword_at)

lemma expr_complete:
  "g_or k us e \<Longrightarrow> k \<le> 64 \<Longrightarrow> stream T (us @ r # rest) \<Longrightarrow> \<not> is_keyword (ascii ''AND'') r \<Longrightarrow>
     \<exists>c. 0 < c \<and> c \<le> length us \<and> (\<forall>n \<ge> 4 * length us + 2. parse_or_expr n (at T (64 - k) (us @ r # rest)) = or_loop (n - c) e (at T (64 - k) (r # rest)))"
  "g_and k us e \<Longrightarrow> k \<le> 64 \<Longrightarrow> stream T (us @ r # rest) \<Longrightarrow>
     \<exists>c. 0 < c \<and> c \<le> length us \<and> (\<forall>n \<ge> 4 * length us + 1. parse_and_expr n (at T (64 - k) (us @ r # rest)) = and_loop (n - c) e (at T (64 - k) (r # rest)))"
  "g_unary k us e \<Longrightarrow> k \<le> 64 \<Longrightarrow> stream T (us @ r # rest) \<Longrightarrow>
     us \<noteq> [] \<and> (\<forall>n \<ge> 4 * length us. parse_unary_expr n (at T (64 - k) (us @ r # rest)) = Ok (e, at T (64 - k) (r # rest)))"
proof (induction arbitrary: r rest and r rest and r rest rule: g_or_g_and_g_unary.inducts)
  case (or_one d us e)
  from or_one.IH [OF or_one.prems(1,2)] obtain c where c: "0 < c" "c \<le> length us"
    "\<And>n. 4 * length us + 1 \<le> n \<Longrightarrow> parse_and_expr n (at T (64 - d) (us @ r # rest)) = and_loop (n - c) e (at T (64 - d) (r # rest))" by auto
  have s: "stream T (r # rest)" using stream_append [OF or_one.prems(2)] by simp
  have "parse_or_expr n (at T (64 - d) (us @ r # rest)) = or_loop (n - 1) e (at T (64 - d) (r # rest))" if n: "4 * length us + 2 \<le> n" for n
  proof -
    obtain m where m: "n = Suc m" using n by (cases n) auto
    show ?thesis using c(2) c(3) [of m] n and_end [OF s or_one.prems(3), of "m - c"] by (simp add: m)
  qed
  then show ?case using c by (intro exI [of _ 1]) auto
next
  case (or_more d us a t vs b)
  have kw: "\<not> is_keyword (ascii ''AND'') t" by (rule keyword_unique [OF or_more.hyps(2)]) (simp_all add: keyword_members)
  have s: "stream T (us @ t # vs @ r # rest)" using or_more.prems(2) by simp
  then have s1: "stream T (t # vs @ r # rest)" by (rule stream_append) simp
  have s2: "stream T (vs @ r # rest)" using stream_Cons [OF s1] keyword_not_eof [OF or_more.hyps(2)] by blast
  then have s3: "stream T (r # rest)" by (rule stream_append) simp
  from or_more.IH(1) [OF or_more.prems(1) s kw] obtain c where c: "0 < c" "c \<le> length us"
    "\<And>n. 4 * length us + 2 \<le> n \<Longrightarrow> parse_or_expr n (at T (64 - d) (us @ t # vs @ r # rest)) = or_loop (n - c) a (at T (64 - d) (t # vs @ r # rest))" by auto
  from or_more.IH(2) [OF or_more.prems(1) s2] obtain c2 where c2: "0 < c2" "c2 \<le> length vs"
    "\<And>n. 4 * length vs + 1 \<le> n \<Longrightarrow> parse_and_expr n (at T (64 - d) (vs @ r # rest)) = and_loop (n - c2) b (at T (64 - d) (r # rest))" by auto
  have "parse_or_expr n (at T (64 - d) (us @ t # vs @ r # rest)) = or_loop (n - Suc c) (Or a b) (at T (64 - d) (r # rest))"
    if n: "4 * length (us @ [t] @ vs) + 2 \<le> n" for n
  proof -
    define m where "m = n - Suc c"
    have m: "n - c = Suc m" "4 * length vs + 1 \<le> m" "0 < m - c2" using n c(2) c2(2) by (simp_all add: m_def)
    have "4 * length us + 2 \<le> n" using n by simp
    from c(3) [OF this] show ?thesis
      using m(1) s1 or_more.hyps(2) c2(3) [OF m(2)] and_end [OF s3 or_more.prems(3) m(3)] by (simp add: eat_keyword_at m_def)
  qed
  then show ?case using c by (intro exI [of _ "Suc c"]) auto
next
  case (and_one d us e)
  note u = and_one.IH [OF and_one.prems]
  have "parse_and_expr n (at T (64 - d) (us @ r # rest)) = and_loop (n - 1) e (at T (64 - d) (r # rest))" if n: "4 * length us + 1 \<le> n" for n
  proof -
    obtain m where m: "n = Suc m" using n by (cases n) auto
    show ?thesis using u n by (simp add: m)
  qed
  then show ?case using u by (intro exI [of _ 1]) (auto simp: Suc_le_eq)
next
  case (and_more d us a t vs b)
  have s: "stream T (us @ t # vs @ r # rest)" using and_more.prems(2) by simp
  then have s1: "stream T (t # vs @ r # rest)" by (rule stream_append) simp
  have s2: "stream T (vs @ r # rest)" using stream_Cons [OF s1] keyword_not_eof [OF and_more.hyps(2)] by blast
  from and_more.IH(1) [OF and_more.prems(1) s] obtain c where c: "0 < c" "c \<le> length us"
    "\<And>n. 4 * length us + 1 \<le> n \<Longrightarrow> parse_and_expr n (at T (64 - d) (us @ t # vs @ r # rest)) = and_loop (n - c) a (at T (64 - d) (t # vs @ r # rest))" by auto
  note u = and_more.IH(2) [OF and_more.prems(1) s2, THEN conjunct2, rule_format]
  have "parse_and_expr n (at T (64 - d) (us @ t # vs @ r # rest)) = and_loop (n - Suc c) (And a b) (at T (64 - d) (r # rest))"
    if n: "4 * length (us @ [t] @ vs) + 1 \<le> n" for n
  proof -
    define m where "m = n - Suc c"
    have m: "n - c = Suc m" "4 * length vs \<le> m" using n c(2) by (simp_all add: m_def)
    have "4 * length us + 1 \<le> n" using n by simp
    from c(3) [OF this] show ?thesis using m(1) s1 and_more.hyps(2) u [OF m(2)] by (simp add: eat_keyword_at m_def)
  qed
  then show ?case using c by (intro exI [of _ "Suc c"]) auto
next
  case (unary_pred us e d)
  from predicate_start [OF unary_pred.hyps] obtain x ts where us: "us = TIdent x # ts" "\<not> is_keyword (ascii ''NOT'') (TIdent x)" by blast
  have "parse_unary_expr n (at T (64 - d) (us @ r # rest)) = Ok (e, at T (64 - d) (r # rest))" if n: "4 * length us \<le> n" for n
  proof -
    obtain m where "n = Suc m" using n us(1) by (cases n) auto
    then show ?thesis
      using predicate_exact [OF unary_pred.hyps unary_pred.prems(2)] us unary_pred.prems(2) by (simp add: peek_at)
  qed
  then show ?case using us(1) by simp
next
  case (unary_not t d us e)
  have ne: "t \<noteq> TEof" by (rule keyword_not_eof [OF unary_not.hyps(1)])
  have s1: "stream T (t # us @ r # rest)" using unary_not.prems(2) by simp
  note s2 = stream_Cons [OF s1 ne]
  have d: "64 - Suc d + 1 = 64 - d" "d \<le> 64" using unary_not.prems(1) by simp_all
  note u = unary_not.IH [OF d(2) s2, THEN conjunct2, rule_format]
  have "parse_unary_expr n (at T (64 - Suc d) (t # us @ r # rest)) = Ok (Not e, at T (64 - Suc d) (r # rest))" if n: "4 * length (t # us) \<le> n" for n
  proof -
    obtain m where m: "n = Suc m" "4 * length us \<le> m" using n by (cases n) auto
    then show ?thesis using u [OF m(2)] s1 ne unary_not.hyps(1) d by (simp add: peek_at advance_at MAX_EXPR_DEPTH_def Let_def)
  qed
  then show ?case by simp
next
  case (unary_paren d us e)
  have s1: "stream T (TLParen # us @ TRParen # r # rest)" using unary_paren.prems(2) by simp
  then have s2: "stream T (us @ TRParen # r # rest)" by (rule stream_Cons) simp
  then have s3: "stream T (TRParen # r # rest)" by (rule stream_append) simp
  have d: "64 - Suc d + 1 = 64 - d" "d \<le> 64" using unary_paren.prems(1) by simp_all
  from unary_paren.IH [OF d(2) s2] obtain c where c: "0 < c" "c \<le> length us"
    "\<And>n. 4 * length us + 2 \<le> n \<Longrightarrow> parse_or_expr n (at T (64 - d) (us @ TRParen # r # rest)) = or_loop (n - c) e (at T (64 - d) (TRParen # r # rest))" by auto
  have "parse_unary_expr n (at T (64 - Suc d) (TLParen # us @ TRParen # r # rest)) = Ok (e, at T (64 - Suc d) (r # rest))"
    if n: "4 * length ([TLParen] @ us @ [TRParen]) \<le> n" for n
  proof -
    obtain m where m: "n = Suc m" "4 * length us + 2 \<le> m" "0 < m - c" using n c(2) by (cases n) auto
    show ?thesis
      using c(3) [OF m(2)] or_end [OF s3 _ m(3)] s1 s3 d by (simp add: m(1) peek_at advance_at expect_at MAX_EXPR_DEPTH_def Let_def)
  qed
  then show ?case by simp
qed

lemma expr_exact:
  assumes "g_or 64 us e" and "stream T (us @ r # rest)" and "\<not> is_keyword (ascii ''AND'') r" "\<not> is_keyword (ascii ''OR'') r"
    and n: "4 * length us + 2 \<le> n"
  shows "parse_or_expr n (at T 0 (us @ r # rest)) = Ok (e, at T 0 (r # rest))"
proof -
  from expr_complete(1) [OF assms(1) order_refl assms(2,3)] obtain c where c: "c \<le> length us"
    "parse_or_expr n (at T 0 (us @ r # rest)) = or_loop (n - c) e (at T 0 (r # rest))" using n by auto
  have "stream T (r # rest)" using stream_append [OF assms(2)] by simp
  then show ?thesis using c or_end [of T r rest "n - c" e 0] assms(4) n by simp
qed


section \<open>Queries\<close>

text \<open>The clauses behind the source, each of which may be missing, and what each may be followed by.\<close>

lemma select_exact:
  assumes "g_select us sel" and s: "stream T (us @ t # rest)" and "t \<noteq> TDot" "t \<noteq> TComma"
  shows "parse_select_list (at T d (us @ t # rest)) = Ok (sel, at T d (t # rest))"
  using assms(1)
proof cases
  case select_star
  then show ?thesis using s by (simp add: parse_select_list_def peek_at advance_at)
next
  case (select_fields fs)
  have "obind (parse_field (at T d (us @ t # rest))) (\<lambda>(f, p). parse_fields [f] p) = Ok (fs, at T d (t # rest))"
    by (rule comma_exact [OF comma_loops(2), of g_field T "\<lambda>t. t \<noteq> TDot"]) (use field_exact select_fields s assms(3,4) in auto)
  then obtain f p where "parse_field (at T d (us @ t # rest)) = Ok (f, p)" "parse_fields [f] p = Ok (fs, at T d (t # rest))"
    by (auto simp: obind_eq_Ok)
  moreover have "\<exists>x ts. us = TIdent x # ts" using select_fields(2) by (induction rule: g_list.induct) (use field_start in auto)
  ultimately show ?thesis using select_fields(1) s by (auto simp: parse_select_list_def peek_at)
qed

lemma opt_exact:
  assumes "g_opt (\<lambda>us x. \<exists>t vs. us = t # vs \<and> is_keyword kw t \<and> G vs x) us x" and s: "stream T (us @ r # rest)"
    and "\<not> is_keyword kw r"
    and f: "\<And>vs y. G vs y \<Longrightarrow> stream T (vs @ r # rest) \<Longrightarrow> length vs \<le> length us \<Longrightarrow> f (at T d (vs @ r # rest)) = Ok (y, at T d (r # rest))"
  shows "obind (eat_keyword kw (at T d (us @ r # rest))) (\<lambda>(b, p). if b then omap (\<lambda>(x, p). (Some x, p)) (f p) else Ok (None, p)) =
    Ok (x, at T d (r # rest))"
proof (cases x)
  case None
  then show ?thesis using assms(1,3) s by (simp add: g_opt_def eat_keyword_at)
next
  case (Some y)
  then obtain t vs where t: "us = t # vs" "is_keyword kw t" "G vs y" using assms(1) by (auto simp: g_opt_def)
  then have s1: "stream T (t # vs @ r # rest)" using s by simp
  note s2 = stream_Cons [OF s1 keyword_not_eof [OF t(2)]]
  have "f (at T d (vs @ r # rest)) = Ok (y, at T d (r # rest))" by (rule f [OF t(3) s2]) (simp add: t(1))
  then show ?thesis using t Some s1 by (simp add: eat_keyword_at)
qed

lemma order_by_exact:
  assumes "g_order_by us items" and s: "stream T (us @ r # rest)"
    and r: "r \<noteq> TDot" "r \<noteq> TComma" "\<not> is_keyword (ascii ''ASC'') r" "\<not> is_keyword (ascii ''DESC'') r" "\<not> is_keyword (ascii ''ORDER'') r"
  shows "obind (eat_keyword (ascii ''ORDER'') (at T d (us @ r # rest))) (\<lambda>(b, p).
    if b then obind (expect_keyword (ascii ''BY'') p) (\<lambda>(_, p). parse_order_list p) else Ok ([], p)) = Ok (items, at T d (r # rest))"
proof (cases "us = []")
  case True
  then show ?thesis using assms by (auto simp: g_order_by_def eat_keyword_at)
next
  case False
  then obtain t t' vs where t: "us = t # t' # vs" "is_keyword (ascii ''ORDER'') t" "is_keyword (ascii ''BY'') t'" "g_list g_order_item vs items"
    using assms(1) by (auto simp: g_order_by_def)
  then have s1: "stream T (t # t' # vs @ r # rest)" using s by simp
  note s2 = stream_Cons [OF s1 keyword_not_eof [OF t(2)]]
  note s3 = stream_Cons [OF s2 keyword_not_eof [OF t(3)]]
  have "obind (parse_order_item (at T d (vs @ r # rest))) (\<lambda>(x, p). parse_order_items [x] p) = Ok (items, at T d (r # rest))"
    by (rule comma_exact [OF comma_loops(3), of g_order_item T "\<lambda>t. t \<noteq> TDot \<and> \<not> is_keyword (ascii ''ASC'') t \<and> \<not> is_keyword (ascii ''DESC'') t"])
       (use order_item_exact t(4) s3 r in auto)
  then show ?thesis using t s1 s2 by (simp add: eat_keyword_at expect_keyword_at parse_order_list_def)
qed

text \<open>Where each of the last three clauses may begin.\<close>

lemma opt_start: "g_opt (\<lambda>us x. \<exists>t vs. us = t # vs \<and> is_keyword kw t \<and> G vs x) us x \<Longrightarrow> us = [] \<or> (\<exists>t vs. us = t # vs \<and> is_keyword kw t)"
  by (auto simp: g_opt_def split: option.splits)

lemma query_complete:
  assumes q: "g_query 64 us q" and T: "T = us @ [TEof]" "TEof \<notin> set us" and n: "4 * length us + 2 \<le> n"
  shows "parse_query n (at T 0 T) = Ok (q, at T 0 [TEof])"
  using q
proof cases
  case (query t1 us1 sel t2 us2 filt us3 ord us4 lim frm)
  let ?W = "\<lambda>us x. \<exists>t vs. us = t # vs \<and> is_keyword (ascii ''WHERE'') t \<and> g_or 64 vs x"
  let ?L = "\<lambda>us x. \<exists>t vs. us = t # vs \<and> is_keyword (ascii ''LIMIT'') t \<and> (\<exists>n. vs = [TNum n] \<and> fract_is_zero n \<and> x = f64_to_u64 n)"
  have W: "g_opt ?W us2 filt" using query(6) by (simp add: g_opt_def g_where_def split: option.splits)
  have L: "g_opt ?L us4 lim" using query(8) by (auto simp: g_opt_def g_limit_def split: option.splits)
  have s0: "stream T (t1 # us1 @ t2 # TIdent frm # us2 @ us3 @ us4 @ [TEof])"
    using T query(1) by (simp add: stream_def butlast_append)
  note s1 = stream_Cons [OF s0 keyword_not_eof [OF query(3)]]
  then have s2: "stream T (t2 # TIdent frm # us2 @ us3 @ us4 @ [TEof])" by (rule stream_append) simp
  note s3 = stream_Cons [OF s2 keyword_not_eof [OF query(5)]]
  then have s4: "stream T (us2 @ us3 @ us4 @ [TEof])" by (rule stream_Cons) simp
  then have s5: "stream T (us3 @ us4 @ [TEof])" by (rule stream_append) simp
  then have s6: "stream T (us4 @ [TEof])" by (rule stream_append) simp
  obtain r6 rest6 where r6: "us4 @ [TEof] = r6 # rest6" "r6 = TEof \<or> is_keyword (ascii ''LIMIT'') r6"
    using opt_start [OF L] by auto
  obtain r5 rest5 where r5: "us3 @ us4 @ [TEof] = r5 # rest5" "r5 = r6 \<or> is_keyword (ascii ''ORDER'') r5"
    using query(7) r6(1) by (auto simp: g_order_by_def)
  have uniq: "\<not> is_keyword (ascii b) t" if "t = TEof \<or> is_keyword (ascii a) t" "a \<in> set all_keywords" "b \<in> set all_keywords" "a \<noteq> b" for a b t
    using that keyword_unique by auto
  have k6: "\<not> is_keyword (ascii ''ORDER'') r6" "\<not> is_keyword (ascii ''ASC'') r6" "\<not> is_keyword (ascii ''DESC'') r6"
    "\<not> is_keyword (ascii ''WHERE'') r6" "\<not> is_keyword (ascii ''AND'') r6" "\<not> is_keyword (ascii ''OR'') r6"
    by (rule uniq [OF r6(2)], simp_all add: keyword_members)+
  have k5: "\<not> is_keyword (ascii ''WHERE'') r5" "\<not> is_keyword (ascii ''AND'') r5" "\<not> is_keyword (ascii ''OR'') r5"
    using r5(2) k6 uniq [of r5 "''ORDER''"] by (auto simp: keyword_members)
  have d6: "r6 \<noteq> TDot" "r6 \<noteq> TComma" using r6(2) by auto
  have a1: "expect_keyword (ascii ''SELECT'') (at T 0 T) = Ok ((), at T 0 (us1 @ t2 # TIdent frm # us2 @ us3 @ us4 @ [TEof]))"
    using expect_keyword_at [OF s0] query(1,3) T(1) by simp
  have "t2 \<noteq> TDot" "t2 \<noteq> TComma" using query(5) by auto
  then have a2: "parse_select_list (at T 0 (us1 @ t2 # TIdent frm # us2 @ us3 @ us4 @ [TEof])) = Ok (sel, at T 0 (t2 # TIdent frm # us2 @ us3 @ us4 @ [TEof]))"
    by (rule select_exact [OF query(4) s1])
  have a3: "expect_keyword (ascii ''FROM'') (at T 0 (t2 # TIdent frm # us2 @ us3 @ us4 @ [TEof])) = Ok ((), at T 0 (TIdent frm # us2 @ us3 @ us4 @ [TEof]))"
    using expect_keyword_at [OF s2] query(5) by simp
  have a4: "parse_ident (at T 0 (TIdent frm # us2 @ us3 @ us4 @ [TEof])) = Ok (frm, at T 0 (us2 @ us3 @ us4 @ [TEof]))"
    using parse_ident_at [OF s3] by simp
  have len: "length us2 \<le> length us" using query(1) by simp
  have a5: "obind (eat_keyword (ascii ''WHERE'') (at T 0 (us2 @ us3 @ us4 @ [TEof])))
      (\<lambda>(b, p). if b then omap (\<lambda>(x, p). (Some x, p)) (parse_or_expr n p) else Ok (None, p)) = Ok (filt, at T 0 (us3 @ us4 @ [TEof]))"
    unfolding r5(1)
  proof (rule opt_exact [OF W _ k5(1)])
    show "stream T (us2 @ r5 # rest5)" using s4 r5(1) by simp
    show "parse_or_expr n (at T 0 (vs @ r5 # rest5)) = Ok (y, at T 0 (r5 # rest5))"
      if "g_or 64 vs y" "stream T (vs @ r5 # rest5)" "length vs \<le> length us2" for vs y
      by (rule expr_exact [OF that(1,2) k5(2,3)]) (use n len that(3) in simp)
  qed
  have a6: "obind (eat_keyword (ascii ''ORDER'') (at T 0 (us3 @ us4 @ [TEof]))) (\<lambda>(b, p).
      if b then obind (expect_keyword (ascii ''BY'') p) (\<lambda>(_, p). parse_order_list p) else Ok ([], p)) = Ok (ord, at T 0 (us4 @ [TEof]))"
    unfolding r6(1) by (rule order_by_exact [OF query(7) _ d6 k6(2,3,1)]) (use s5 r6(1) in simp)
  have a7: "obind (eat_keyword (ascii ''LIMIT'') (at T 0 (us4 @ [TEof])))
      (\<lambda>(b, p). if b then omap (\<lambda>(x, p). (Some x, p)) (parse_limit p) else Ok (None, p)) = Ok (lim, at T 0 [TEof])"
    by (rule opt_exact [OF L s6]) (auto simp: parse_limit_def advance_at)
  show ?thesis unfolding parse_query_clauses by (simp add: a1 a2 a3 a4 a5 a6 a7 query(2))
qed

text \<open>On token streams the parser is the grammar, with at most 64 levels of nesting.\<close>

lemma parse_tokens_iff:
  assumes "TEof \<notin> set us"
  shows "parse_tokens (us @ [TEof]) = Ok q \<longleftrightarrow> g_query 64 us q"
proof -
  let ?T = "us @ [TEof]"
  have start: "\<lparr> p_tokens = ?T, p_pos = 0, expr_depth = 0 \<rparr> = at ?T 0 ?T" by (simp add: at_def)
  have s: "stream ?T ?T" using assms by (simp add: stream_def)
  have e: "stream ?T [TEof]" by (simp add: stream_def suffix_def)
  show ?thesis
  proof
    assume "g_query 64 us q"
    then have "parse_query (parse_fuel ?T) (at ?T 0 ?T) = Ok (q, at ?T 0 [TEof])"
      by (rule query_complete) (use assms in \<open>simp_all add: parse_fuel_def\<close>)
    then show "parse_tokens ?T = Ok q" using e by (simp add: parse_tokens_def start expect_eof_def peek_at)
  next
    assume "parse_tokens ?T = Ok q"
    then obtain p where p: "parse_query (parse_fuel ?T) (at ?T 0 ?T) = Ok (q, p)" "expect_eof p = Ok ()"
      by (auto simp: parse_tokens_def start obind_eq_Ok)
    from readsE [OF p(1) query_sound [OF s]] obtain vs rest where r: "?T = vs @ rest" "stream ?T rest" "p = at ?T 0 rest" "g_query 64 vs q" by blast
    obtain t ts where rest: "rest = t # ts" using r(2) by (cases rest) (auto simp: stream_def)
    then have "t = TEof" using p(2) r(2,3) by (auto simp: expect_eof_def peek_at split: if_splits)
    then have "rest = [TEof]" using r(2) rest by (auto simp: stream_def split: if_splits)
    then show "g_query 64 us q" using r(1,4) by simp
  qed
qed

end
