(* ===== verification/Gems_Parser_Total.thy ===== *)
theory Gems_Parser_Total
  imports Gems_Grammar_Complete
begin

text \<open>
  The parser returns on every token stream: no index leaves the token vector, and the fuel of
  \<open>parse_fuel\<close> is not used up. The lexer, too, returns on every string.
\<close>

definition returns :: "(parse_error, 'a) outcome \<Rightarrow> bool" where
  "returns r \<longleftrightarrow> r \<noteq> Panic \<and> r \<noteq> Err OutOfFuel"

lemma returns_simps [simp]: "returns (Ok x)" "returns (Err e) \<longleftrightarrow> e \<noteq> OutOfFuel" "returns (omap f m) = returns m" "\<not> returns Panic"
  by (cases m; simp add: returns_def)+

lemma returns_bind: "returns m \<Longrightarrow> (\<And>x p. m = Ok (x, p) \<Longrightarrow> returns (k (x, p))) \<Longrightarrow> returns (obind m k)"
  by (cases m) auto

lemma returns_read:
  assumes "returns m" and "reads T d ts G m" and "\<And>us rest x. ts = us @ rest \<Longrightarrow> stream T rest \<Longrightarrow> G us x \<Longrightarrow> returns (k (x, at T d rest))"
  shows "returns (obind m k)"
  by (rule returns_bind [OF assms(1)]) (metis readsE assms(2,3))

section \<open>The steps\<close>

lemma stream_split: "stream T ts \<Longrightarrow> \<exists>t ts'. ts = t # ts' \<and> (t \<noteq> TEof \<longrightarrow> stream T ts')"
  by (cases rule: stream_cases) auto

lemma returns_ident: "stream T ts \<Longrightarrow> returns (parse_ident (at T d ts))"
  using stream_split [of T ts] by (auto simp: parse_ident_at split: token.splits)

lemma returns_literal: "stream T ts \<Longrightarrow> returns (parse_literal (at T d ts))"
  using stream_split [of T ts] by (auto simp: parse_literal_at split: option.splits)

lemma returns_keyword: "stream T ts \<Longrightarrow> returns (eat_keyword kw (at T d ts))"
  using stream_split [of T ts] by (auto simp: eat_keyword_at)

lemma returns_expect: "stream T ts \<Longrightarrow> tok \<noteq> TEof \<Longrightarrow> returns (expect tok (at T d ts))"
  using stream_split [of T ts] by (auto simp: expect_at)

lemma returns_expect_keyword: "stream T ts \<Longrightarrow> returns (expect_keyword kw (at T d ts))"
  using stream_split [of T ts] by (auto simp: expect_keyword_at)

lemma returns_path: "stream T ts \<Longrightarrow> returns (parse_path path (at T d ts))"
proof (induction "length ts" arbitrary: ts path rule: less_induct)
  case less
  obtain t ts' where ts: "ts = t # ts'" "t \<noteq> TEof \<longrightarrow> stream T ts'" using stream_split [OF less.prems] by blast
  show ?case
  proof (cases "t = TDot")
    case True
    then have s: "stream T ts'" using ts(2) by simp
    have "returns (obind (parse_ident (at T d ts')) (\<lambda>(s, p). parse_path (path @ [46] @ s) p))"
      by (rule returns_read [OF returns_ident [OF s] reads_ident [OF s]]) (use less.hyps ts(1) in auto)
    then show ?thesis using parse_path_at [of T t ts'] less.prems ts(1) True by simp
  next
    case False
    then show ?thesis using parse_path_at [of T t ts'] less.prems ts(1) by simp
  qed
qed

lemma returns_field: "stream T ts \<Longrightarrow> returns (parse_field (at T d ts))"
  unfolding parse_field_def by (rule returns_read [OF returns_ident reads_ident]) (auto intro: returns_path)

lemma returns_comma:
  assumes L: "comma_loop item L" and item: "\<And>ts. stream T ts \<Longrightarrow> returns (item (at T d ts)) \<and> reads T d ts G (item (at T d ts))"
  shows "stream T ts \<Longrightarrow> returns (L xs (at T d ts))"
proof (induction "length ts" arbitrary: ts xs rule: less_induct)
  case less
  obtain t ts' where ts: "ts = t # ts'" "t \<noteq> TEof \<longrightarrow> stream T ts'" using stream_split [OF less.prems] by blast
  show ?case
  proof (cases "t = TComma")
    case True
    then have s: "stream T ts'" using ts(2) by simp
    have "returns (obind (item (at T d ts')) (\<lambda>(x, p). L (xs @ [x]) p))"
      by (rule returns_read [OF item [OF s, THEN conjunct1] item [OF s, THEN conjunct2]]) (use less.hyps ts(1) in auto)
    then show ?thesis using comma_loop_at [OF L, of T t ts'] less.prems ts(1) True by simp
  next
    case False
    then show ?thesis using comma_loop_at [OF L, of T t ts'] less.prems ts(1) by simp
  qed
qed

lemma returns_predicate: "stream T ts \<Longrightarrow> returns (parse_predicate (at T d ts))"
  unfolding parse_predicate_def
proof (rule returns_read [OF returns_field reads_field], assumption, assumption, unfold prod.case)
  fix rest fld assume r: "stream T rest"
  show "returns (obind (eat_keyword (ascii ''IN'') (at T d rest)) (\<lambda>(is_in, p).
       if is_in then obind (expect TLParen p) (\<lambda>(_, p). obind (parse_literal p) (\<lambda>(v, p).
         obind (parse_literals [v] p) (\<lambda>(vs, p). omap (\<lambda>(_, p). (In fld vs, p)) (expect TRParen p))))
       else obind (advance p) (\<lambda>(t, p). case compare_token t of None \<Rightarrow> Err (ExpectedOperator fld t)
         | Some op \<Rightarrow> omap (\<lambda>(v, p). (Compare fld op v, p)) (parse_literal p))))"
  proof (rule returns_read [OF returns_keyword [OF r] reads_keyword [OF r]], unfold prod.case)
    fix rest1 b assume k: "stream T rest1"
    have lits: "stream T ts \<Longrightarrow> returns (parse_literals vs (at T d ts))" for vs ts
      by (rule returns_comma [OF comma_loops(1)]) (auto intro: returns_literal reads_literal)
    have "returns (obind (expect TLParen (at T d rest1)) (\<lambda>(_, p). obind (parse_literal p) (\<lambda>(v, p).
         obind (parse_literals [v] p) (\<lambda>(vs, p). omap (\<lambda>(_, p). (In fld vs, p)) (expect TRParen p)))))"
    proof (rule returns_read [OF returns_expect [OF k] reads_expect [OF k]], simp_all only: prod.case token.simps not_False_eq_True)
      fix rest2 assume s: "stream T rest2"
      show "returns (obind (parse_literal (at T d rest2)) (\<lambda>(v, p). obind (parse_literals [v] p) (\<lambda>(vs, p). omap (\<lambda>(_, p). (In fld vs, p)) (expect TRParen p))))"
      proof (rule returns_read [OF returns_literal [OF s] reads_literal [OF s]], unfold prod.case)
        fix us3 rest3 v assume s3: "stream T rest3" and g: "g_literal us3 v"
        have "g_list g_literal us3 [v]" using g by (rule list_one)
        from reads_comma [OF comma_loops(1) reads_literal this s3]
        show "returns (obind (parse_literals [v] (at T d rest3)) (\<lambda>(vs, p). omap (\<lambda>(_, p). (In fld vs, p)) (expect TRParen p)))"
          by (rule returns_read [OF lits [OF s3]]) (auto intro: returns_expect)
      qed
    qed
    moreover have "returns (obind (advance (at T d rest1)) (\<lambda>(t, p). case compare_token t of None \<Rightarrow> Err (ExpectedOperator fld t)
         | Some op \<Rightarrow> omap (\<lambda>(v, p). (Compare fld op v, p)) (parse_literal p)))"
    proof -
      obtain t ts' where ts: "rest1 = t # ts'" "t \<noteq> TEof \<longrightarrow> stream T ts'" using stream_split [OF k] by blast
      show ?thesis
      proof (cases "t = TEof")
        case True
        then show ?thesis using k ts(1) by (simp add: advance_eof compare_token_def)
      next
        case False
        then show ?thesis using k ts by (auto simp: advance_at split: option.splits intro: returns_literal)
      qed
    qed
    ultimately show "returns (if b then obind (expect TLParen (at T d rest1)) (\<lambda>(_, p). obind (parse_literal p) (\<lambda>(v, p).
         obind (parse_literals [v] p) (\<lambda>(vs, p). omap (\<lambda>(_, p). (In fld vs, p)) (expect TRParen p))))
       else obind (advance (at T d rest1)) (\<lambda>(t, p). case compare_token t of None \<Rightarrow> Err (ExpectedOperator fld t)
         | Some op \<Rightarrow> omap (\<lambda>(v, p). (Compare fld op v, p)) (parse_literal p)))" by simp
  qed
qed

section \<open>Expressions\<close>

lemma phrase_nonempty: "g_or k us e \<Longrightarrow> us \<noteq> []" "g_and k us e \<Longrightarrow> us \<noteq> []" "g_unary k us e \<Longrightarrow> us \<noteq> []"
  by (induction rule: g_or_g_and_g_unary.inducts) (auto dest: predicate_start)

lemma expr_returns:
  shows "k \<le> 64 \<Longrightarrow> stream T ts \<Longrightarrow> 4 * length ts + 2 \<le> n \<Longrightarrow> returns (parse_or_expr n (at T (64 - k) ts))"
    and "k \<le> 64 \<Longrightarrow> stream T ts \<Longrightarrow> 4 * length ts \<le> n \<Longrightarrow> returns (or_loop n lhs (at T (64 - k) ts))"
    and "k \<le> 64 \<Longrightarrow> stream T ts \<Longrightarrow> 4 * length ts + 1 \<le> n \<Longrightarrow> returns (parse_and_expr n (at T (64 - k) ts))"
    and "k \<le> 64 \<Longrightarrow> stream T ts \<Longrightarrow> 4 * length ts \<le> n \<Longrightarrow> returns (and_loop n lhs (at T (64 - k) ts))"
    and "k \<le> 64 \<Longrightarrow> stream T ts \<Longrightarrow> 4 * length ts \<le> n \<Longrightarrow> returns (parse_unary_expr n (at T (64 - k) ts))"
proof (induction n arbitrary: k ts lhs)
  case 0
  { case 1 then show ?case by simp next case 2 then show ?case by (simp add: stream_def) next case 3 then show ?case by simp
    next case 4 then show ?case by (simp add: stream_def) next case 5 then show ?case by (simp add: stream_def) }
next
  case (Suc n)
  { case 1
    show ?case unfolding parse_or_expr.simps
      by (rule returns_read [OF Suc.IH(3) [OF 1(1,2)] expr_sound(3) [OF 1(1,2)]]) (use 1 Suc.IH(2) in auto)
  next
    case 2
    obtain t ts' where ts: "ts = t # ts'" "t \<noteq> TEof \<longrightarrow> stream T ts'" using stream_split [OF 2(2)] by blast
    show ?case
    proof (cases "is_keyword (ascii ''OR'') t")
      case True
      then have s: "stream T ts'" using ts(2) keyword_not_eof by blast
      have "returns (obind (parse_and_expr n (at T (64 - k) ts')) (\<lambda>(rhs, p). or_loop n (Or lhs rhs) p))"
        by (rule returns_read [OF Suc.IH(3) [OF 2(1) s] expr_sound(3) [OF 2(1) s]]) (use 2 Suc.IH(2) ts(1) in auto)
      then show ?thesis using True 2(2) ts(1) by (simp add: eat_keyword_at)
    qed (use 2(2) ts(1) in \<open>simp add: eat_keyword_at\<close>)
  next
    case 3
    show ?case unfolding parse_and_expr.simps
      by (rule returns_read [OF Suc.IH(5) [OF 3(1,2)] expr_sound(5) [OF 3(1,2)]]) (use 3 Suc.IH(4) in auto)
  next
    case 4
    obtain t ts' where ts: "ts = t # ts'" "t \<noteq> TEof \<longrightarrow> stream T ts'" using stream_split [OF 4(2)] by blast
    show ?case
    proof (cases "is_keyword (ascii ''AND'') t")
      case True
      then have s: "stream T ts'" using ts(2) keyword_not_eof by blast
      have "returns (obind (parse_unary_expr n (at T (64 - k) ts')) (\<lambda>(rhs, p). and_loop n (And lhs rhs) p))"
        by (rule returns_read [OF Suc.IH(5) [OF 4(1) s] expr_sound(5) [OF 4(1) s]]) (use 4 Suc.IH(4) ts(1) in auto)
      then show ?thesis using True 4(2) ts(1) by (simp add: eat_keyword_at)
    qed (use 4(2) ts(1) in \<open>simp add: eat_keyword_at\<close>)
  next
    case 5
    obtain t ts' where ts: "ts = t # ts'" "t \<noteq> TEof \<longrightarrow> stream T ts'" using stream_split [OF 5(2)] by blast
    show ?case
    proof (cases "is_keyword (ascii ''NOT'') t \<or> t = TLParen")
      case False
      then show ?thesis using 5(2) ts(1) returns_predicate [OF 5(2)] by (simp add: peek_at)
    next
      case True
      then have ne: "t \<noteq> TEof" by auto
      then have s: "stream T ts'" using ts(2) by simp
      show ?thesis
      proof (cases k)
        case 0
        then show ?thesis using True 5(2) ts(1) by (auto simp: peek_at MAX_EXPR_DEPTH_def Let_def)
      next
        case (Suc j)
        then have d: "64 - k + 1 = 64 - j" "j \<le> 64" using 5(1) by simp_all
        have len: "4 * length ts' + 3 \<le> n" using 5(3) ts(1) by simp
        have "returns (parse_unary_expr n (at T (64 - j) ts'))" by (rule Suc.IH(5) [OF d(2) s]) (use len in simp)
        moreover have "returns (obind (parse_or_expr n (at T (64 - j) ts')) (\<lambda>(inner, p). omap (\<lambda>(_, p). (inner, p)) (expect TRParen p)))"
          by (rule returns_read [OF Suc.IH(1) [OF d(2) s] expr_sound(1) [OF d(2) s]]) (use len in \<open>auto intro: returns_expect\<close>)
        ultimately show ?thesis
          using True 5(2) ts(1) ne d by (auto simp: peek_at advance_at MAX_EXPR_DEPTH_def Let_def case_prod_unfold)
      qed
    qed }
qed

section \<open>Queries\<close>

lemma returns_limit: "stream T ts \<Longrightarrow> returns (parse_limit (at T d ts))"
proof -
  assume s: "stream T ts"
  obtain t ts' where ts: "ts = t # ts'" "t \<noteq> TEof \<longrightarrow> stream T ts'" using stream_split [OF s] by blast
  show ?thesis using s ts
    by (cases "t = TEof"; cases t) (simp_all add: parse_limit_def advance_at advance_eof)
qed

lemma returns_order_item: "stream T ts \<Longrightarrow> returns (parse_order_item (at T d ts))"
  unfolding parse_order_item_def
proof (rule returns_read [OF returns_field reads_field], assumption, assumption, unfold prod.case)
  fix rest f assume r: "stream T rest"
  show "returns (obind (eat_keyword (ascii ''DESC'') (at T d rest)) (\<lambda>(desc, p).
     if desc then Ok (\<lparr> ord_field = f, descending = True \<rparr>, p)
     else omap (\<lambda>(_, p). (\<lparr> ord_field = f, descending = False \<rparr>, p)) (eat_keyword (ascii ''ASC'') p)))"
    by (rule returns_read [OF returns_keyword [OF r] reads_keyword [OF r]]) (auto intro: returns_keyword)
qed

lemma returns_select: "stream T ts \<Longrightarrow> returns (parse_select_list (at T d ts))"
proof -
  assume s: "stream T ts"
  obtain t ts' where ts: "ts = t # ts'" "t \<noteq> TEof \<longrightarrow> stream T ts'" using stream_split [OF s] by blast
  have "returns (obind (parse_field (at T d ts)) (\<lambda>(f, p). omap (\<lambda>(fs, p). (Fields fs, p)) (parse_fields [f] p)))"
    by (rule returns_read [OF returns_field [OF s] reads_field [OF s]])
       (auto intro: returns_comma [OF comma_loops(2)] returns_field reads_field)
  then show ?thesis using s ts by (cases "t = TStar") (auto simp: parse_select_list_def peek_at advance_at)
qed

lemma returns_opt:
  assumes "stream T ts" and "\<And>rest. stream T rest \<Longrightarrow> length rest \<le> length ts \<Longrightarrow> returns (f (at T d rest))"
  shows "returns (obind (eat_keyword kw (at T d ts)) (\<lambda>(b, p). if b then omap (\<lambda>(x, p). (Some x, p)) (f p) else Ok (None, p)))"
  by (rule returns_read [OF returns_keyword reads_keyword, OF assms(1) assms(1)]) (use assms(2) in auto)

lemma returns_order_by:
  assumes s: "stream T ts"
  shows "returns (obind (eat_keyword (ascii ''ORDER'') (at T d ts)) (\<lambda>(b, p).
    if b then obind (expect_keyword (ascii ''BY'') p) (\<lambda>(_, p). parse_order_list p) else Ok ([], p)))"
proof (rule returns_read [OF returns_keyword [OF s] reads_keyword [OF s]], unfold prod.case)
  fix rest b assume r: "stream T rest"
  have lst: "returns (parse_order_list (at T d rest'))" if s': "stream T rest'" for rest'
    unfolding parse_order_list_def
    by (rule returns_read [OF returns_order_item [OF s'] reads_order_item [OF s']])
       (auto intro: returns_comma [OF comma_loops(3)] returns_order_item reads_order_item)
  have "returns (obind (expect_keyword (ascii ''BY'') (at T d rest)) (\<lambda>(_, p). parse_order_list p))"
    by (rule returns_read [OF returns_expect_keyword [OF r] reads_expect_keyword [OF r]]) (auto intro: lst)
  then show "returns (if b then obind (expect_keyword (ascii ''BY'') (at T d rest)) (\<lambda>(_, p). parse_order_list p) else Ok ([], at T d rest))"
    by simp
qed

lemma query_returns:
  assumes s: "stream T ts" and n: "4 * length ts + 2 \<le> n"
  shows "returns (parse_query n (at T 0 ts))"
  unfolding parse_query_clauses
proof (rule returns_read [OF returns_expect_keyword [OF s] reads_expect_keyword [OF s]], unfold prod.case,
    rule returns_read [OF returns_select reads_select], assumption, assumption, unfold prod.case,
    rule returns_read [OF returns_expect_keyword reads_expect_keyword], assumption, assumption, unfold prod.case,
    rule returns_read [OF returns_ident reads_ident], assumption, assumption, unfold prod.case)
  fix us1 r1 us2 r2 sel us3 r3 us4 r4 fr
  assume ts: "ts = us1 @ r1" "r1 = us2 @ r2" "r2 = us3 @ r3" "r3 = us4 @ r4" and s4: "stream T r4"
  have ex: "returns (parse_or_expr n (at T 0 rest))" "reads T 0 rest (g_or 64) (parse_or_expr n (at T 0 rest))"
    if "stream T rest" "length rest \<le> length r4" for rest
    using expr_returns(1) [of 64 T rest n] expr_sound(1) [of 64 T rest n] that n ts by simp_all
  show "returns (obind (obind (eat_keyword (ascii ''WHERE'') (at T 0 r4)) (\<lambda>(b, p). if b then omap (\<lambda>(x, p). (Some x, p)) (parse_or_expr n p) else Ok (None, p))) (\<lambda>(filt, p).
     obind (obind (eat_keyword (ascii ''ORDER'') p) (\<lambda>(b, p).
       if b then obind (expect_keyword (ascii ''BY'') p) (\<lambda>(_, p). parse_order_list p) else Ok ([], p))) (\<lambda>(ord, p).
     omap (\<lambda>(lim, p). (\<lparr> q_select = sel, q_from = fr, q_filter = filt, q_order_by = ord, q_limit = lim \<rparr>, p))
       (obind (eat_keyword (ascii ''LIMIT'') p) (\<lambda>(b, p). if b then omap (\<lambda>(x, p). (Some x, p)) (parse_limit p) else Ok (None, p))))))"
  proof (rule returns_read [OF returns_opt [where f = "parse_or_expr n", OF s4 ex(1)] reads_opt [where f = "parse_or_expr n", OF s4]], assumption, assumption)
    show "reads T 0 rest (g_or 64) (parse_or_expr n (at T 0 rest))" if "stream T rest" for rest
      using expr_sound(1) [of 64 T rest n] that by simp
  next
    fix r5 filt assume s5: "stream T r5"
    show "returns (case (filt, at T 0 r5) of (filt, p) \<Rightarrow> obind (obind (eat_keyword (ascii ''ORDER'') p) (\<lambda>(b, p).
       if b then obind (expect_keyword (ascii ''BY'') p) (\<lambda>(_, p). parse_order_list p) else Ok ([], p))) (\<lambda>(ord, p).
     omap (\<lambda>(lim, p). (\<lparr> q_select = sel, q_from = fr, q_filter = filt, q_order_by = ord, q_limit = lim \<rparr>, p))
       (obind (eat_keyword (ascii ''LIMIT'') p) (\<lambda>(b, p). if b then omap (\<lambda>(x, p). (Some x, p)) (parse_limit p) else Ok (None, p)))))"
      unfolding prod.case
      by (rule returns_read [OF returns_order_by [OF s5] reads_order_by [OF s5]])
         (unfold prod.case, simp only: returns_simps, rule returns_opt, assumption, rule returns_limit)
  qed
qed

lemma parse_tokens_returns:
  assumes "TEof \<notin> set us"
  shows "returns (parse_tokens (us @ [TEof]))"
proof -
  let ?T = "us @ [TEof]"
  have start: "\<lparr> p_tokens = ?T, p_pos = 0, expr_depth = 0 \<rparr> = at ?T 0 ?T" by (simp add: at_def)
  have s: "stream ?T ?T" using assms by (simp add: stream_def)
  have "returns (parse_query (parse_fuel ?T) (at ?T 0 ?T))" by (rule query_returns [OF s]) (simp add: parse_fuel_def)
  then show ?thesis
    unfolding parse_tokens_def start
  proof (rule returns_read [OF _ query_sound [OF s]], unfold prod.case)
    fix rest q assume r: "stream ?T rest"
    then obtain t ts where "rest = t # ts" using stream_split by blast
    with r show "returns (omap (\<lambda>_. q) (expect_eof (at ?T 0 rest)))" by (simp add: expect_eof_def peek_at)
  qed
qed

end
