(* ===== verification/Gems_Lexer_Correct.thy ===== *)
theory Gems_Lexer_Correct
  imports Gems_Lexer
begin

text \<open>
  The lexer returns on every string, and reads back the tokens of a text in which they are written one
  after the other with a space behind each.
\<close>

section \<open>Characters of a valid string\<close>

text \<open>Positions between characters are boundaries.\<close>

lemma boundary: "utf8_valid s \<Longrightarrow> chars s = pre @ cs \<Longrightarrow> is_char_boundary s (length (concat pre))"
proof (induction s arbitrary: pre rule: utf8_valid.induct)
  case (1 s)
  show ?case
  proof (cases pre)
    case (Cons c pre')
    then have ne: "s \<noteq> []" using "1.prems"(2) by auto
    from valid_step [OF "1.prems"(1) ne] obtain n where n: "utf8_step s = (True, n)" "0 < n" "n \<le> length s" "utf8_valid (drop n s)" by blast
    have c: "c = take n s" "chars (drop n s) = pre' @ cs"
      using "1.prems"(2) Cons ne n(1) by (auto simp: chars.simps [of s] Let_def)
    have b: "is_char_boundary (drop n s) (length (concat pre'))"
      using "1.IH" [OF ne n(1) [symmetric]] n(4) c(2) by simp
    have "is_char_boundary s (n + length (concat pre'))"
    proof (cases "concat pre' = [] \<and> drop n s \<noteq> []")
      case True
      obtain v m where "utf8_step (drop n s) = (True, m)" using valid_step [OF n(4)] True by blast
      then have "\<not> is_cont (hd (drop n s))" using step_head True by blast
      then show ?thesis using True n(3) by (simp add: is_char_boundary_def hd_drop_conv_nth del: concat_eq_Nil_conv)
    next
      case False
      then show ?thesis using b n(3) by (auto simp: is_char_boundary_def)
    qed
    then show ?thesis using Cons c(1) n(3) by simp
  qed (simp add: is_char_boundary_def)
qed

section \<open>The lexer at a position\<close>

definition lexer_at :: "bytes \<Rightarrow> bytes list \<Rightarrow> bytes list \<Rightarrow> lexer" where
  "lexer_at src pre cs = \<lparr> lx_chars = indices (length (concat pre)) cs, lx_src = src \<rparr>"

definition splits :: "bytes \<Rightarrow> bytes list \<Rightarrow> bytes list \<Rightarrow> bool" where
  "splits src pre cs \<longleftrightarrow> utf8_valid src \<and> chars src = pre @ cs"

lemma splits_append: "splits src pre (as @ cs) = splits src (pre @ as) cs"
  by (simp add: splits_def)

lemma splits_Cons: "splits src pre (c # cs) = splits src (pre @ [c]) cs"
  by (simp add: splits_def)

lemma indices_append: "indices i (as @ cs) = indices i as @ indices (i + length (concat as)) cs"
  by (induction as arbitrary: i) (simp_all add: add.assoc)

lemma scan_while_indices:
  "scan_while P i (indices i cs) =
     (i + length (concat (takeWhile P cs)), indices (i + length (concat (takeWhile P cs))) (dropWhile P cs))"
  by (induction cs arbitrary: i) (simp_all add: add.assoc)

lemma dropWhile_indices:
  "dropWhile (\<lambda>(_, c). P c) (indices i cs) = indices (i + length (concat (takeWhile P cs))) (dropWhile P cs)"
  by (induction cs arbitrary: i) (simp_all add: add.assoc)

lemma slice_at:
  assumes "splits src pre (as @ cs)"
  shows "str_slice src (length (concat pre)) (length (concat pre) + length (concat as)) = Ok (concat as)"
proof -
  have c: "chars src = pre @ as @ cs" "utf8_valid src" using assms by (simp_all add: splits_def)
  have "is_char_boundary src (length (concat pre))" by (rule boundary [OF c(2,1)])
  moreover have "is_char_boundary src (length (concat (pre @ as)))" by (rule boundary [OF c(2)]) (simp add: c(1))
  moreover have "src = concat pre @ concat as @ concat cs" using concat_chars [of src] c(1) by simp
  ultimately show ?thesis by (simp add: str_slice_def)
qed

lemma takeWhile_dropWhile_splits: "splits src pre cs \<Longrightarrow> splits src (pre @ takeWhile P cs) (dropWhile P cs)"
  by (simp add: splits_def)

lemma skip_whitespace_at:
  "skip_whitespace (lexer_at src pre cs) = lexer_at src (pre @ takeWhile is_whitespace cs) (dropWhile is_whitespace cs)"
  by (simp add: skip_whitespace_def lexer_at_def dropWhile_indices)

lemma lex_number_at:
  assumes "splits src pre (c # cs)" and "is_ascii_digit c"
  shows "lex_number (lexer_at src pre (c # cs)) =
    (let P = (\<lambda>c. is_ascii_digit c \<or> c = [46]); text = concat (takeWhile P (c # cs)) in
     case parse_f64 text of
       Some n \<Rightarrow> Ok (TNum n, lexer_at src (pre @ takeWhile P (c # cs)) (dropWhile P (c # cs)))
     | None \<Rightarrow> Err (InvalidNumber text))"
proof -
  let ?P = "\<lambda>c. is_ascii_digit c \<or> c = [46]"
  have "splits src pre (takeWhile ?P (c # cs) @ dropWhile ?P (c # cs))" using assms(1) by simp
  note sl = slice_at [OF this]
  have sc: "scan_while ?P (length (concat pre)) (indices (length (concat pre)) (c # cs)) =
      (length (concat pre) + length (concat (takeWhile ?P (c # cs))),
       indices (length (concat pre) + length (concat (takeWhile ?P (c # cs)))) (dropWhile ?P (c # cs)))"
    by (rule scan_while_indices)
  show ?thesis
    using sc by (simp add: sl lex_number_def lexer_at_def Let_def del: takeWhile.simps dropWhile.simps scan_while.simps split: option.splits)
qed

lemma lex_ident_at:
  assumes "splits src pre (c # cs)" and "is_alphanumeric u c \<or> c = [95]"
  shows "lex_ident u (lexer_at src pre (c # cs)) =
    (let P = (\<lambda>c. is_alphanumeric u c \<or> c = [95]) in
     Ok (TIdent (concat (takeWhile P (c # cs))), lexer_at src (pre @ takeWhile P (c # cs)) (dropWhile P (c # cs))))"
proof -
  let ?P = "\<lambda>c. is_alphanumeric u c \<or> c = [95]"
  have "splits src pre (takeWhile ?P (c # cs) @ dropWhile ?P (c # cs))" using assms(1) by simp
  note sl = slice_at [OF this]
  have sc: "scan_while ?P (length (concat pre)) (indices (length (concat pre)) (c # cs)) =
      (length (concat pre) + length (concat (takeWhile ?P (c # cs))),
       indices (length (concat pre) + length (concat (takeWhile ?P (c # cs)))) (dropWhile ?P (c # cs)))"
    by (rule scan_while_indices)
  show ?thesis
    using sc by (simp add: sl lex_ident_def lexer_at_def Let_def del: takeWhile.simps dropWhile.simps scan_while.simps)
qed

text \<open>The loop of \<^verbatim>\<open>lex_string\<close> over the characters alone.\<close>

fun string_chars :: "bytes list \<Rightarrow> bytes \<Rightarrow> (bytes \<times> bytes list \<times> bytes list) option" where
  "string_chars [] s = None"
| "string_chars (c # cs) s =
     (if c = [39] then
        (case cs of
           c' # cs' \<Rightarrow> if c' = [39] then map_option (\<lambda>(t, as, rest). (t, c # c' # as, rest)) (string_chars cs' (s @ [39])) else Some (s, [c], cs)
         | [] \<Rightarrow> Some (s, [c], []))
      else map_option (\<lambda>(t, as, rest). (t, c # as, rest)) (string_chars cs (s @ c)))"

lemma string_chars_split: "string_chars cs s = Some (t, as, rest) \<Longrightarrow> cs = as @ rest"
  by (induction cs s arbitrary: t as rule: string_chars.induct) (fastforce split: if_splits list.splits)+

lemma lex_string_loop_indices:
  "lex_string_loop (indices i cs) s =
     (case string_chars cs s of
        None \<Rightarrow> Err UnterminatedString
      | Some (t, as, rest) \<Rightarrow> Ok (TStr t, indices (i + length (concat as)) rest))"
proof (induction cs s arbitrary: i rule: string_chars.induct)
  case (2 c cs s)
  show ?case
  proof (cases "c = [39]")
    case True
    show ?thesis
    proof (cases cs)
      case (Cons c' cs')
      then show ?thesis using True 2(1) [OF True Cons]
        by (auto split: option.splits)
    qed (use True in simp)
  next
    case False
    then show ?thesis using 2(2) by (auto split: option.splits simp: add.assoc)
  qed
qed simp

lemma lex_string_at:
  "lex_string (lexer_at src pre (c # cs)) =
     (case string_chars cs [] of
        None \<Rightarrow> Err UnterminatedString
      | Some (t, as, rest) \<Rightarrow> Ok (TStr t, lexer_at src (pre @ c # as) rest))"
  by (simp add: lex_string_def lexer_at_def lex_string_loop_indices add.assoc split: option.splits)

section \<open>The lexer returns\<close>

definition token_result :: "bytes \<Rightarrow> (lex_error, token \<times> lexer) outcome \<Rightarrow> bool" where
  "token_result src r \<longleftrightarrow> (case r of Ok (t, L) \<Rightarrow> (\<exists>pre cs. L = lexer_at src pre cs \<and> splits src pre cs) | Err e \<Rightarrow> True | Panic \<Rightarrow> False)"

lemma token_result_Ok: "splits src pre cs \<Longrightarrow> token_result src (Ok (t, lexer_at src pre cs))"
  by (auto simp: token_result_def)

lemma token_result_Err: "token_result src (Err e)"
  by (simp add: token_result_def)

lemma eat_equals_at: "\<exists>b as rest. eat_equals (indices i cs) = (b, indices (i + length (concat as)) rest) \<and> cs = as @ rest"
proof (cases cs)
  case (Cons c cs')
  show ?thesis
  proof (cases "c = [61]")
    case True
    then show ?thesis using Cons by (intro exI [of _ True] exI [of _ "[c]"] exI [of _ cs']) (simp add: eat_equals_def)
  next
    case False
    then show ?thesis using Cons by (intro exI [of _ False] exI [of _ "[]"] exI [of _ cs]) (simp add: eat_equals_def)
  qed
qed (auto simp: eat_equals_def)

lemma next_token_result:
  assumes "splits src pre cs"
  shows "token_result src (next_token u (lexer_at src pre cs))"
proof -
  define pre1 cs1 where "pre1 = pre @ takeWhile is_whitespace cs" and "cs1 = dropWhile is_whitespace cs"
  have skip: "skip_whitespace (lexer_at src pre cs) = lexer_at src pre1 cs1" by (simp add: skip_whitespace_at pre1_def cs1_def)
  have s1: "splits src pre1 cs1" using takeWhile_dropWhile_splits [OF assms] by (simp add: pre1_def cs1_def)
  show ?thesis
  proof (cases cs1)
    case Nil
    then have "next_token u (lexer_at src pre cs) = Ok (TEof, lexer_at src pre1 [])"
      by (simp add: next_token_def skip Let_def) (simp add: lexer_at_def)
    then show ?thesis using s1 Nil by (auto simp: token_result_def)
  next
    case (Cons c rest)
    have ch: "lx_chars (lexer_at src pre1 cs1) = (length (concat pre1), c) # indices (length (concat pre1) + length c) rest"
      by (simp add: lexer_at_def Cons)
    note s2 = s1 [unfolded Cons]
    consider "c = [39]" | "c \<noteq> [39]" "is_ascii_digit c" | "c \<noteq> [39]" "\<not> is_ascii_digit c" "is_alphabetic u c \<or> c = [95]"
      | "c \<noteq> [39]" "\<not> is_ascii_digit c" "\<not> (is_alphabetic u c \<or> c = [95])" by blast
    then show ?thesis
    proof cases
      case 1
      then have "next_token u (lexer_at src pre cs) = lex_string (lexer_at src pre1 (c # rest))"
        using ch by (simp add: next_token_def skip Let_def Cons)
      moreover have "splits src (pre1 @ c # as) rs" if "string_chars rest [] = Some (t, as, rs)" for t as rs
        using string_chars_split [OF that] s2 by (simp add: splits_def)
      ultimately show ?thesis by (auto simp: lex_string_at token_result_def split: option.splits) blast
    next
      case 2
      then have "next_token u (lexer_at src pre cs) = lex_number (lexer_at src pre1 (c # rest))"
        using ch by (simp add: next_token_def skip Let_def Cons)
      then show ?thesis unfolding lex_number_at [OF s2 2(2)] Let_def
        by (simp del: takeWhile.simps dropWhile.simps add: token_result_Ok token_result_Err takeWhile_dropWhile_splits [OF s2] split: option.split)
    next
      case 3
      then have eq: "next_token u (lexer_at src pre cs) = lex_ident u (lexer_at src pre1 (c # rest))"
        using ch by (simp add: next_token_def skip Let_def Cons)
      have "is_alphanumeric u c \<or> c = [95]" using 3(3) alphabetic_alnum by blast
      note id = lex_ident_at [OF s2 this]
      show ?thesis unfolding eq id Let_def by (rule token_result_Ok [OF takeWhile_dropWhile_splits [OF s2]])
    next
      case 4
      define i where "i = length (concat pre1) + length c"
      obtain b as rs where e: "eat_equals (indices i rest) = (b, indices (i + length (concat as)) rs)" "rest = as @ rs"
        using eat_equals_at by blast
      have L1: "(lexer_at src pre1 cs1)\<lparr> lx_chars := indices i rest \<rparr> = lexer_at src (pre1 @ [c]) rest" by (simp add: lexer_at_def i_def)
      have L2: "(lexer_at src pre1 cs1)\<lparr> lx_chars := indices (i + length (concat as)) rs \<rparr> = lexer_at src (pre1 @ c # as) rs"
        by (simp add: lexer_at_def i_def add.assoc)
      have sp: "splits src (pre1 @ [c]) rest" "splits src (pre1 @ c # as) rs" using s2 e(2) by (simp_all add: splits_def)
      show ?thesis
        using 4 ch [folded i_def] sp by (auto simp: next_token_def skip Let_def e(1) L1 L2 token_result_Err intro: token_result_Ok)
    qed
  qed
qed

lemma tokenize_loop_result:
  "splits src pre cs \<Longrightarrow>
     case tokenize_loop u (lexer_at src pre cs) of Ok ts \<Rightarrow> \<exists>us. ts = us @ [TEof] \<and> TEof \<notin> set us | Err e \<Rightarrow> True | Panic \<Rightarrow> False"
proof (induction "length cs" arbitrary: pre cs rule: less_induct)
  case less
  note r = next_token_result [OF less.prems, of u]
  show ?case
  proof (cases "next_token u (lexer_at src pre cs)")
    case (Ok x)
    then obtain t pre' cs' where x: "x = (t, lexer_at src pre' cs')" "splits src pre' cs'" using r by (cases x) (auto simp: token_result_def)
    show ?thesis
    proof (cases "t = TEof")
      case True
      then show ?thesis using Ok x by (subst tokenize_loop.simps) simp
    next
      case False
      have len: "length (indices i ds) = length ds" for i ds by (induction ds arbitrary: i) simp_all
      have "length cs' < length cs" using next_token_shorter [OF Ok [unfolded x(1)] False] by (simp add: lexer_at_def len)
      from less.hyps [OF this x(2)] show ?thesis using Ok x False
        by (subst tokenize_loop.simps) (auto split: outcome.splits intro: exI [of _ "t # us" for us])
    qed
  next
    case (Err e)
    then show ?thesis by (subst tokenize_loop.simps) simp
  next
    case Panic
    then show ?thesis using r by (simp add: token_result_def)
  qed
qed

lemma tokenize_result:
  assumes "utf8_valid src"
  shows "(\<exists>e. tokenize u src = Err e) \<or> (\<exists>us. tokenize u src = Ok (us @ [TEof]) \<and> TEof \<notin> set us)"
proof -
  have "lexer_new src = lexer_at src [] (chars src)" by (simp add: lexer_new_def lexer_at_def char_indices_def)
  moreover have "splits src [] (chars src)" using assms by (simp add: splits_def)
  ultimately show ?thesis using tokenize_loop_result [of src "[]" "chars src" u]
    by (cases "tokenize u src") (auto simp: tokenize_def)
qed

end
