(* ===== verification/Gems_Float.thy ===== *)
theory Gems_Float
  imports Gems_Chars Complex_Main
begin

text \<open>
  Reading decimal numbers as \<^verbatim>\<open>f64\<close> is exact for numbers that are representable: \<open>round_f64\<close> gives
  back every finite \<^verbatim>\<open>f64\<close>, and \<open>show_f64\<close> writes one as a decimal that is read back.
\<close>

section \<open>The bit length\<close>

lemma bit_length_bounds: "0 < n \<Longrightarrow> 0 < bit_length n \<and> 2 ^ (bit_length n - 1) \<le> n \<and> n < 2 ^ bit_length n"
proof (induction n rule: bit_length.induct)
  case (1 n)
  show ?case
  proof (cases "n div 2 = 0")
    case True
    then have "n = 1" using "1.prems" by simp
    then show ?thesis by (simp add: bit_length.simps)
  next
    case False
    define k where "k = bit_length (n div 2)"
    have k: "0 < k" "2 ^ (k - 1) \<le> n div 2" "n div 2 < 2 ^ k" using "1.IH" "1.prems" False by (simp_all add: k_def)
    have "bit_length n = Suc k" using "1.prems" by (subst bit_length.simps) (simp add: k_def)
    moreover have "(2::nat) ^ k = 2 * 2 ^ (k - 1)" using k(1) by (cases k) simp_all
    moreover have "2 * (n div 2) \<le> n" "n < 2 * (n div 2) + 2" by linarith+
    ultimately show ?thesis using k by simp
  qed
qed

lemma scaled_real: "scaled n d e = (a, b) \<Longrightarrow> 0 < d \<Longrightarrow> 0 < b \<and> real a / real b = real n / real d / 2 powi e"
  by (auto simp: scaled_def power_int_def field_simps split: if_splits)

section \<open>Rounding a representable number\<close>

definition f64_finite :: "nat \<Rightarrow> int \<Rightarrow> bool" where
  "f64_finite m e \<longleftrightarrow> 2 ^ 52 \<le> m \<and> m < 2 ^ 53 \<and> - 1074 \<le> e \<and> e \<le> 971 \<or> 0 < m \<and> m < 2 ^ 52 \<and> e = - 1074"

lemma powi_less: "(2::real) powi a < 2 powi b \<Longrightarrow> a < b"
proof (rule ccontr)
  assume "(2::real) powi a < 2 powi b" "\<not> a < b"
  moreover then have "(2::real) powi b \<le> 2 powi a" by (intro power_int_increasing) simp_all
  ultimately show False by simp
qed

lemma round_exact: "0 < b \<Longrightarrow> real a / real b = real m \<Longrightarrow> round_half_even (a, b) = m"
proof -
  assume b: "0 < b" and "real a / real b = real m"
  then have "real a = real (m * b)" by (simp add: field_simps)
  then have "a = m * b" by (simp only: of_nat_eq_iff)
  then show ?thesis using b by (simp add: round_half_even_def Let_def)
qed

text \<open>
  The exponent \<open>round_f64\<close> rounds with: the one that leaves 53 bits in front of the point.
\<close>

definition round_at :: "nat \<Rightarrow> nat \<Rightarrow> int \<Rightarrow> f64" where
  "round_at n d k =
     (let q0 = round_half_even (scaled n d k);
          (q, e) = (if q0 = 2 ^ 53 then (2 ^ 52, k + 1) else (q0, k))
      in if 971 < e then F64_inf else if q = 0 then F64 0 0 else F64 q e)"

lemma round_f64_eq:
  assumes n: "0 < n" and d: "0 < d"
  obtains e where "2 powi (e + 52) \<le> real n / real d" and "real n / real d < 2 powi (e + 53)"
    and "round_f64 n d = round_at n d (max (- 1074) e)"
proof -
  define A B where "A = int (bit_length n)" and "B = int (bit_length d)"
  define x where "x = real n / real d"
  note bn = bit_length_bounds [OF n] and bd = bit_length_bounds [OF d]
  have pw: "(2::real) powi int k = real (2 ^ k)" for k by (simp add: power_int_def)
  have nA: "2 powi (A - 1) \<le> real n" "real n < 2 powi A"
  proof -
    have "(2::real) powi (A - 1) = real (2 ^ (bit_length n - 1))" using bn by (subst pw [symmetric]) (simp add: A_def of_nat_diff)
    also have "\<dots> \<le> real n" using bn by (simp only: of_nat_le_iff)
    finally show "2 powi (A - 1) \<le> real n" .
    have "real n < real (2 ^ bit_length n)" using bn by (simp only: of_nat_less_iff)
    then show "real n < 2 powi A" unfolding A_def pw .
  qed
  have dB: "2 powi (B - 1) \<le> real d" "real d < 2 powi B"
  proof -
    have "(2::real) powi (B - 1) = real (2 ^ (bit_length d - 1))" using bd by (subst pw [symmetric]) (simp add: B_def of_nat_diff)
    also have "\<dots> \<le> real d" using bd by (simp only: of_nat_le_iff)
    finally show "2 powi (B - 1) \<le> real d" .
    have "real d < real (2 ^ bit_length d)" using bd by (simp only: of_nat_less_iff)
    then show "real d < 2 powi B" unfolding B_def pw .
  qed
  have pos: "(0::real) < 2 powi k" for k by simp
  have x1: "2 powi (A - 1 - B) < x"
  proof -
    have "2 powi (A - 1 - B) * real d < 2 powi (A - 1 - B) * 2 powi B" using dB(2) pos by (simp add: mult_strict_left_mono)
    also have "\<dots> = 2 powi (A - 1)" by (simp add: power_int_add [symmetric])
    finally show ?thesis using nA(1) d unfolding x_def by (simp add: pos_less_divide_eq)
  qed
  have x2: "x < 2 powi (A - B + 1)"
  proof -
    have "real n < 2 powi (A - B + 1) * 2 powi (B - 1)" using nA(2) by (simp add: power_int_add [symmetric])
    also have "\<dots> \<le> 2 powi (A - B + 1) * real d" using dB(1) pos by (intro mult_left_mono) simp_all
    finally show ?thesis using d unfolding x_def by (simp add: pos_divide_less_eq)
  qed
  define e0 where "e0 = A - B - 53"
  obtain a b where ab: "scaled n d e0 = (a, b)" by (cases "scaled n d e0")
  from scaled_real [OF ab d] have b: "0 < b" "real a / real b = x / 2 powi e0" by (simp_all add: x_def)
  have big: "2 ^ 53 \<le> a div b \<longleftrightarrow> 2 powi (e0 + 53) \<le> x"
  proof -
    have "2 ^ 53 \<le> a div b \<longleftrightarrow> 2 ^ 53 * b \<le> a" using b(1) by (simp add: less_eq_div_iff_mult_less_eq)
    also have "\<dots> \<longleftrightarrow> real (2 ^ 53 * b) \<le> real a" by (simp only: of_nat_le_iff)
    also have "\<dots> \<longleftrightarrow> 2 ^ 53 \<le> real a / real b" using b(1) by (simp add: pos_le_divide_eq)
    also have "\<dots> \<longleftrightarrow> 2 ^ 53 * 2 powi e0 \<le> x" unfolding b(2) using pos [of e0] by (simp only: pos_le_divide_eq)
    also have "(2::real) ^ 53 * 2 powi e0 = 2 powi (e0 + 53)" by (simp add: power_int_add)
    finally show ?thesis .
  qed
  define e' where "e' = (if 2 ^ 53 \<le> a div b then e0 + 1 else e0)"
  have e': "2 powi (e' + 52) \<le> x" "x < 2 powi (e' + 53)"
    using x1 x2 big by (auto simp: e'_def e0_def algebra_simps)
  have "(n = 0) = False" using n by simp
  then have "round_f64 n d = round_at n d (max (- 1074) e')"
    by (simp only: round_f64_def round_at_def Let_def A_def [symmetric] B_def [symmetric] e0_def [symmetric] ab prod.case e'_def [symmetric] if_False)
  with that [OF e' [unfolded x_def]] show ?thesis .
qed

lemma round_f64_exact:
  assumes n: "0 < n" and d: "0 < d" and v: "real n / real d = real m * 2 powi e" and f: "f64_finite m e"
  shows "round_f64 n d = F64 m e"
proof -
  define x where "x = real n / real d"
  have pos: "(0::real) < 2 powi k" for k by simp
  obtain e' where e': "2 powi (e' + 52) \<le> x" "x < 2 powi (e' + 53)"
    and r: "round_f64 n d = round_at n d (max (- 1074) e')"
    by (rule round_f64_eq [OF n d, folded x_def])
  have xm: "x = real m * 2 powi e" using v by (simp add: x_def)
  have e1: "max (- 1074) e' = e"
    using f [unfolded f64_finite_def]
  proof
    assume m: "2 ^ 52 \<le> m \<and> m < 2 ^ 53 \<and> - 1074 \<le> e \<and> e \<le> 971"
    have "real (2 ^ 52) \<le> real m" "real m < real (2 ^ 53)" using m by (simp_all only: of_nat_le_iff of_nat_less_iff)
    then have "2 ^ 52 * 2 powi e \<le> x" "x < 2 ^ 53 * 2 powi e" unfolding xm using pos [of e] by (simp_all add: mult_right_mono)
    then have "2 powi (e + 52) \<le> x" "x < 2 powi (e + 53)" by (simp_all add: power_int_add mult.commute)
    then have "(2::real) powi (e + 52) < 2 powi (e' + 53)" "(2::real) powi (e' + 52) < 2 powi (e + 53)" using e' by linarith+
    from powi_less [OF this(1)] powi_less [OF this(2)] have "e = e'" by simp
    then show ?thesis using m by simp
  next
    assume m: "0 < m \<and> m < 2 ^ 52 \<and> e = - 1074"
    have "real m < real (2 ^ 52)" using m by (simp only: of_nat_less_iff)
    then have "x < 2 ^ 52 * 2 powi e" unfolding xm using pos [of e] by simp
    then have "x < 2 powi (e + 52)" by (simp add: power_int_add mult.commute)
    then have "(2::real) powi (e' + 52) < 2 powi (e + 52)" using e'(1) by linarith
    from powi_less [OF this] have "e' < e" by simp
    then show ?thesis using m by simp
  qed
  obtain a1 b1 where s1: "scaled n d e = (a1, b1)" by (cases "scaled n d e")
  have "real n / real d / 2 powi e = real m" unfolding v using pos [of e] by simp
  then have "0 < b1" "real a1 / real b1 = real m" using scaled_real [OF s1 d] by simp_all
  then have "round_half_even (scaled n d e) = m" unfolding s1 by (rule round_exact)
  moreover have "m \<noteq> 2 ^ 53" "m \<noteq> 0" "\<not> 971 < e" using f by (auto simp: f64_finite_def)
  ultimately show ?thesis unfolding r e1 by (simp add: round_at_def Let_def)
qed

text \<open>Rounding depends on the value of the fraction only.\<close>

lemma round_half_even_value:
  assumes "0 < b" "0 < d" and eq: "real a / real b = real c / real d"
  shows "round_half_even (a, b) = round_half_even (c, d)"
proof -
  have q: "a div b = c div d" using eq by (metis floor_divide_of_nat_eq of_nat_eq_iff)
  have "real a * real d = real c * real b" using assms by (simp add: field_simps)
  then have "a * d = c * b" by (metis of_nat_mult of_nat_eq_iff)
  define k where "k = a div b"
  have "(k * b + a mod b) * d = (k * d + c mod d) * b" using \<open>a * d = c * b\<close> by (simp add: k_def) (simp add: q)
  then have r: "(a mod b) * d = (c mod d) * b" by (simp add: algebra_simps)
  have "b < 2 * (a mod b) \<longleftrightarrow> b * d < 2 * (a mod b) * d" using assms(2) by simp
  also have "\<dots> \<longleftrightarrow> b * d < 2 * (c mod d) * b" using r by (simp add: mult.assoc)
  also have "\<dots> \<longleftrightarrow> d < 2 * (c mod d)" using assms(1) by (simp add: mult.commute)
  finally have lt: "b < 2 * (a mod b) \<longleftrightarrow> d < 2 * (c mod d)" .
  have "2 * (a mod b) = b \<longleftrightarrow> 2 * (a mod b) * d = b * d" using assms(2) by simp
  also have "\<dots> \<longleftrightarrow> 2 * (c mod d) * b = b * d" using r by (simp add: mult.assoc)
  also have "\<dots> \<longleftrightarrow> 2 * (c mod d) = d" using assms(1) by (simp add: mult.commute)
  finally show ?thesis using lt by (simp add: round_half_even_def Let_def q)
qed

lemma round_f64_value:
  assumes "0 < n" "0 < d" "0 < n'" "0 < d'" and eq: "real n / real d = real n' / real d'"
  shows "round_f64 n d = round_f64 n' d'"
proof -
  obtain e where e: "2 powi (e + 52) \<le> real n / real d" "real n / real d < 2 powi (e + 53)"
    and r: "round_f64 n d = round_at n d (max (- 1074) e)" by (rule round_f64_eq [OF assms(1,2)])
  obtain e' where e': "2 powi (e' + 52) \<le> real n' / real d'" "real n' / real d' < 2 powi (e' + 53)"
    and r': "round_f64 n' d' = round_at n' d' (max (- 1074) e')" by (rule round_f64_eq [OF assms(3,4)])
  have "(2::real) powi (e + 52) < 2 powi (e' + 53)" "(2::real) powi (e' + 52) < 2 powi (e + 53)" using e e' eq by linarith+
  from powi_less [OF this(1)] powi_less [OF this(2)] have ee: "e = e'" by simp
  obtain a b c d2 where s: "scaled n d (max (- 1074) e') = (a, b)" "scaled n' d' (max (- 1074) e') = (c, d2)" by fastforce
  have "round_half_even (a, b) = round_half_even (c, d2)"
    using scaled_real [OF s(1) assms(2)] scaled_real [OF s(2) assms(4)] eq by (intro round_half_even_value) simp_all
  then show ?thesis unfolding r r' ee round_at_def s by simp
qed

section \<open>Decimal texts\<close>

fun show_nat :: "nat \<Rightarrow> bytes" where
  "show_nat n = (if n < 10 then [of_nat (48 + n)] else show_nat (n div 10) @ [of_nat (48 + n mod 10)])"

declare show_nat.simps [simp del]

lemma digit_of: "k < 10 \<Longrightarrow> digit_byte (of_nat (48 + k)) \<and> unat (of_nat (48 + k) :: u8) - 48 = k"
proof -
  assume "k < 10"
  then have "unat (of_nat (48 + k) :: u8) = 48 + k" by (simp add: unat_of_nat del: of_nat_add)
  then show ?thesis using \<open>k < 10\<close> by (simp add: digit_byte_def del: of_nat_add)
qed

lemma dec_val_snoc: "dec_val (ds @ [b]) = 10 * dec_val ds + (unat b - 48)"
  by (simp add: dec_val_def)

lemma show_nat_digits: "show_nat n \<noteq> [] \<and> list_all digit_byte (show_nat n) \<and> dec_val (show_nat n) = n"
proof (induction n rule: show_nat.induct)
  case (1 n)
  show ?case
  proof (cases "n < 10")
    case True
    then show ?thesis using digit_of [of n] by (subst (1 2 3) show_nat.simps) (simp add: dec_val_def)
  next
    case False
    then show ?thesis using 1 digit_of [of "n mod 10"]
      by (subst (1 2 3) show_nat.simps) (simp add: dec_val_snoc del: of_nat_add)
  qed
qed

text \<open>A number below \<open>10 ^ k\<close> in exactly \<open>k\<close> digits.\<close>

primrec pad_digits :: "nat \<Rightarrow> nat \<Rightarrow> bytes" where
  "pad_digits 0 n = []"
| "pad_digits (Suc k) n = pad_digits k (n div 10) @ [of_nat (48 + n mod 10)]"

lemma pad_digits_facts: "length (pad_digits k n) = k \<and> list_all digit_byte (pad_digits k n)"
  using digit_of by (induction k arbitrary: n) (simp_all del: of_nat_add)

lemma dec_val_pad: "dec_val (ds @ pad_digits k n) = 10 ^ k * dec_val ds + n mod 10 ^ k"
proof (induction k arbitrary: n)
  case (Suc k)
  have "dec_val (ds @ pad_digits (Suc k) n) = 10 * dec_val (ds @ pad_digits k (n div 10)) + n mod 10"
    using digit_of [of "n mod 10"] by (simp add: dec_val_snoc append_assoc [symmetric] del: append_assoc of_nat_add)
  also have "\<dots> = 10 ^ Suc k * dec_val ds + (10 * (n div 10 mod 10 ^ k) + n mod 10)" by (simp add: Suc)
  also have "10 * (n div 10 mod 10 ^ k) + n mod 10 = n mod 10 ^ Suc k"
    by (simp add: mod_mult2_eq add.commute)
  finally show ?case .
qed simp

definition show_f64 :: "f64 \<Rightarrow> bytes" where
  "show_f64 x =
     (case x of
        F64 m e \<Rightarrow>
          if 0 \<le> e then show_nat (m * 2 ^ nat e)
          else let k = nat (- e); n = m * 5 ^ k in show_nat (n div 10 ^ k) @ [46] @ pad_digits k n
      | F64_inf \<Rightarrow> 49 # replicate 309 48)"

definition f64_ok :: "f64 \<Rightarrow> bool" where
  "f64_ok x \<longleftrightarrow> (case x of F64 m e \<Rightarrow> m = 0 \<and> e = 0 \<or> f64_finite m e | F64_inf \<Rightarrow> False)"

lemma digits_prefix: "list_all digit_byte ds \<Longrightarrow> takeWhile digit_byte (ds @ b # bs) = ds @ takeWhile digit_byte (b # bs) \<and>
    dropWhile digit_byte (ds @ b # bs) = dropWhile digit_byte (b # bs)"
  by (induction ds) simp_all

lemma digits_all: "list_all digit_byte ds \<Longrightarrow> takeWhile digit_byte ds = ds \<and> dropWhile digit_byte ds = []"
  by (induction ds) simp_all

lemma parse_digits: "list_all digit_byte ds \<Longrightarrow> ds \<noteq> [] \<Longrightarrow> parse_f64 ds = Some (round_f64 (dec_val ds) 1)"
  by (simp add: parse_f64_def digits_all Let_def)

lemma parse_point:
  "list_all digit_byte ds \<Longrightarrow> list_all digit_byte fs \<Longrightarrow> ds \<noteq> [] \<Longrightarrow>
     parse_f64 (ds @ [46] @ fs) = Some (round_f64 (dec_val (ds @ fs)) (10 ^ length fs))"
proof -
  assume d: "list_all digit_byte ds" "list_all digit_byte fs" "ds \<noteq> []"
  have "\<not> digit_byte 46" by (simp add: digit_byte_def)
  then show ?thesis using d digits_prefix [OF d(1), of 46 fs] by (simp add: parse_f64_def Let_def)
qed

text \<open>The digits of a finite number, all of them, are rounded to it.\<close>

lemma exact_decimal:
  assumes f: "f64_finite m e"
  shows "round_f64 (if 0 \<le> e then m * 2 ^ nat e else m * 5 ^ nat (- e)) (10 ^ nat (- e)) = F64 m e"
proof -
  have m: "0 < m" using f by (auto simp: f64_finite_def)
  show ?thesis
  proof (cases "0 \<le> e")
    case True
    then show ?thesis using m f by (simp, intro round_f64_exact) (simp_all add: power_int_def)
  next
    case neg: False
    define k where "k = nat (- e)"
    have e: "e = - int k" using neg by (simp add: k_def)
    have "real (m * 5 ^ k) / real (10 ^ k) = real m * (5 ^ k / 10 ^ k)" by simp
    also have "(5::real) ^ k / 10 ^ k = (1 / 2) ^ k" by (simp add: power_divide [symmetric])
    also have "real m * (1 / 2) ^ k = real m * 2 powi e" by (simp add: e power_int_minus power_one_over inverse_eq_divide)
    finally have "round_f64 (m * 5 ^ k) (10 ^ k) = F64 m e" using m by (intro round_f64_exact [OF _ _ _ f]) simp_all
    then show ?thesis using neg by (simp add: k_def)
  qed
qed

lemma parse_show_f64: "f64_ok x \<Longrightarrow> parse_f64 (show_f64 x) = Some x"
proof -
  assume ok: "f64_ok x"
  then obtain m e where x: "x = F64 m e" by (cases x) (simp_all add: f64_ok_def)
  show ?thesis
  proof (cases "m = 0")
    case True
    then have "e = 0" using ok by (auto simp: x f64_ok_def f64_finite_def)
    then show ?thesis using show_nat_digits [of 0] True
      by (simp add: x show_f64_def parse_digits round_f64_def)
  next
    case False
    then have f: "f64_finite m e" using ok by (simp add: x f64_ok_def)
    note r = exact_decimal [OF f]
    show ?thesis
    proof (cases "0 \<le> e")
      case True
      then show ?thesis using r show_nat_digits [of "m * 2 ^ nat e"] by (simp add: x show_f64_def parse_digits)
    next
      case neg: False
      define k n where "k = nat (- e)" and "n = m * 5 ^ k"
      have "dec_val (show_nat (n div 10 ^ k) @ pad_digits k n) = n"
        using show_nat_digits [of "n div 10 ^ k"] by (simp add: dec_val_pad)
      then have "parse_f64 (show_nat (n div 10 ^ k) @ [46] @ pad_digits k n) = Some (round_f64 n (10 ^ k))"
        using parse_point [of "show_nat (n div 10 ^ k)" "pad_digits k n"] show_nat_digits [of "n div 10 ^ k"] pad_digits_facts [of k n] by simp
      moreover have "round_f64 n (10 ^ k) = F64 m e" using r neg by (simp add: n_def k_def)
      ultimately show ?thesis using neg by (simp add: x show_f64_def Let_def k_def n_def)
    qed
  qed
qed

lemma show_f64_chars: "f64_ok x \<Longrightarrow> \<exists>b bs. show_f64 x = b # bs \<and> digit_byte b \<and> list_all (\<lambda>c. digit_byte c \<or> c = 46) bs"
proof -
  assume "f64_ok x"
  then obtain m e where x: "x = F64 m e" by (cases x) (simp_all add: f64_ok_def)
  have dig: "\<exists>b bs. show_nat n @ rest = b # bs \<and> digit_byte b \<and> list_all (\<lambda>c. digit_byte c \<or> c = 46) bs"
    if "list_all (\<lambda>c. digit_byte c \<or> c = 46) rest" for n rest
    using show_nat_digits [of n] that by (cases "show_nat n") (auto simp: list_all_iff)
  have "list_all (\<lambda>c. digit_byte c \<or> c = 46) ([46] @ pad_digits k n)" for k n
    using pad_digits_facts [of k n] by (auto simp: list_all_iff)
  from dig [OF this] dig [of "[]"] show ?thesis by (simp add: x show_f64_def Let_def)
qed

section \<open>Limits\<close>

text \<open>A natural number up to \<open>2 ^ 53\<close> is read and converted back exactly.\<close>

lemma read_nat_exact:
  assumes "n \<le> 2 ^ 53"
  shows "fract_is_zero (round_f64 n 1) \<and> f64_to_u64 (round_f64 n 1) = n"
proof (cases "n = 0")
  case True
  then show ?thesis by (simp add: round_f64_def fract_is_zero_def f64_to_u64_def)
next
  case False
  have le: "n \<le> u64_max" using assms by simp
  show ?thesis
  proof (cases "n = 2 ^ 53")
    case True
    have "round_f64 n 1 = F64 (2 ^ 52) 1"
      by (rule round_f64_exact) (use True in \<open>simp_all add: f64_finite_def\<close>)
    then show ?thesis using True by (simp add: fract_is_zero_def f64_to_u64_def)
  next
    case small: False
    then have lt: "n < 2 ^ 53" using assms by simp
    note b = bit_length_bounds [of n]
    define k where "k = 53 - bit_length n"
    have "bit_length n \<le> 53"
    proof (rule ccontr)
      assume "\<not> ?thesis"
      then have "(2::nat) ^ 53 \<le> 2 ^ (bit_length n - 1)" by (intro power_increasing) simp_all
      then show False using b False lt by linarith
    qed
    then have L: "bit_length n + k = 53" "bit_length n - 1 + k = 52" using b False by (simp_all add: k_def)
    have "2 ^ (bit_length n - 1) * 2 ^ k \<le> n * 2 ^ k" "n * 2 ^ k < 2 ^ bit_length n * 2 ^ k" using b False by simp_all
    then have m: "2 ^ 52 \<le> n * 2 ^ k" "n * 2 ^ k < 2 ^ 53" by (simp_all only: power_add [symmetric] L)
    have "k \<le> 53" by (simp add: k_def)
    have "round_f64 n 1 = F64 (n * 2 ^ k) (- int k)"
      by (rule round_f64_exact) (use False m \<open>k \<le> 53\<close> in \<open>simp_all add: f64_finite_def power_int_minus\<close>)
    moreover have "(0 \<le> - int k) = (k = 0)" by simp
    ultimately show ?thesis using le by (cases "k = 0") (simp_all add: fract_is_zero_def f64_to_u64_def)
  qed
qed

end
