(* ===== verification/Gems_Query_Text.thy ===== *)
theory Gems_Query_Text
  imports Gems_Parser_Total Gems_Lexer_Correct Gems_Float
begin

text \<open>
  From the text of a query to its syntax tree: the lexer reads back the tokens of a text in which they are
  written with spaces between them, and the properties of lexer and parser together.
\<close>

section \<open>Writing tokens\<close>

lemma digit_char: "digit_byte b \<or> b = 46 \<Longrightarrow> is_char [b]"
  by (rule ascii_char) (auto simp: digit_byte_def)

definition quoted :: "bytes \<Rightarrow> bytes list" where
  "quoted c = (if c = [39] then [c, c] else [c])"

definition show_chars :: "token \<Rightarrow> bytes list" where
  "show_chars t =
     (case t of
        TIdent s \<Rightarrow> chars s
      | TStr s \<Rightarrow> [39] # concat (map quoted (chars s)) @ [[39]]
      | TNum x \<Rightarrow> map (\<lambda>b. [b]) (show_f64 x)
      | TComma \<Rightarrow> [[44]] | TLParen \<Rightarrow> [[40]] | TRParen \<Rightarrow> [[41]] | TDot \<Rightarrow> [[46]] | TStar \<Rightarrow> [[42]]
      | TEq \<Rightarrow> [[61]] | TNeq \<Rightarrow> [[33], [61]] | TLt \<Rightarrow> [[60]] | TLte \<Rightarrow> [[60], [61]] | TGt \<Rightarrow> [[62]] | TGte \<Rightarrow> [[62], [61]]
      | TEof \<Rightarrow> [])"

text \<open>Tokens that can be written: identifiers that look like one, strings, and finite numbers.\<close>

definition ident_ok :: "char_classes \<Rightarrow> bytes \<Rightarrow> bool" where
  "ident_ok u s \<longleftrightarrow> utf8_valid s \<and> (case chars s of
     [] \<Rightarrow> False
   | c # cs \<Rightarrow> (is_alphabetic u c \<or> c = [95]) \<and> \<not> is_whitespace c \<and> list_all (\<lambda>c. is_alphanumeric u c \<or> c = [95]) cs)"

definition writable :: "char_classes \<Rightarrow> token \<Rightarrow> bool" where
  "writable u t = (case t of TIdent s \<Rightarrow> ident_ok u s | TStr s \<Rightarrow> utf8_valid s | TNum x \<Rightarrow> f64_ok x | TEof \<Rightarrow> False | _ \<Rightarrow> True)"

definition spaced :: "token list \<Rightarrow> bytes list" where
  "spaced ts = concat (map (\<lambda>t. [32] # show_chars t) ts) @ [[32]]"

definition show_tokens :: "token list \<Rightarrow> bytes" where
  "show_tokens ts = concat (spaced ts)"

section \<open>Reading them back\<close>

lemma show_chars_ok: "writable u t \<Longrightarrow> list_all is_char (show_chars t)"
proof (cases t)
  case (TIdent s)
  then show "writable u t \<Longrightarrow> ?thesis" using chars_chars [of s] by (auto simp: writable_def ident_ok_def show_chars_def list_all_iff)
next
  case (TStr s)
  assume "writable u t"
  then have "is_char c" if "c \<in> set (chars s)" for c using chars_chars that TStr by (simp add: writable_def)
  then have "list_all is_char (concat (map quoted (chars s)))" by (auto simp: list_all_iff quoted_def split: if_splits)
  then show ?thesis using TStr ascii_char [of 39] by (simp add: show_chars_def)
next
  case (TNum x)
  assume "writable u t"
  then have "f64_ok x" using TNum by (simp add: writable_def)
  from show_f64_chars [OF this] have "b \<in> set (show_f64 x) \<Longrightarrow> digit_byte b \<or> b = 46" for b by (auto simp: list_all_iff)
  then show ?thesis using TNum digit_char by (auto simp: show_chars_def list_all_iff)
qed (simp_all add: show_chars_def ascii_char writable_def)

lemma spaced_ok: "list_all (writable u) ts \<Longrightarrow> list_all is_char (spaced ts)"
  using show_chars_ok [of u] ascii_char [of 32] by (auto simp: spaced_def list_all_iff)

lemma space_facts: "is_whitespace [32]" "\<not> is_alphanumeric u [32]" "\<not> is_ascii_digit [32]"
  by (simp_all add: is_whitespace_def is_alphanumeric_def is_ascii_digit_def ascii_letter_def)

lemma takeWhile_stop: "list_all P xs \<Longrightarrow> \<not> P y \<Longrightarrow> takeWhile P (xs @ y # ys) = xs \<and> dropWhile P (xs @ y # ys) = y # ys"
  by (induction xs) simp_all

lemma string_chars_quoted:
  "string_chars (concat (map quoted cs) @ [39] # [32] # rest) acc = Some (acc @ concat cs, concat (map quoted cs) @ [[39]], [32] # rest)"
  by (induction cs arbitrary: acc) (auto simp: quoted_def)

text \<open>The next token behind white space.\<close>

lemma next_token_skip:
  "is_whitespace w \<Longrightarrow> next_token u (lexer_at src pre (w # cs)) = next_token u (lexer_at src (pre @ [w]) cs)"
  by (simp add: next_token_def skip_whitespace_at)

lemma next_token_start:
  assumes "\<not> is_whitespace c"
  shows "next_token u (lexer_at src pre (c # cs)) =
    (let L = lexer_at src pre (c # cs) in
     if c = [39] then lex_string L
     else if is_ascii_digit c then lex_number L
     else if is_alphabetic u c \<or> c = [95] then lex_ident u L
     else
       let L1 = lexer_at src (pre @ [c]) cs;
           (eq, L2) = (case cs of d # ds \<Rightarrow> if d = [61] then (True, lexer_at src (pre @ [c, d]) ds) else (False, L1) | [] \<Rightarrow> (False, L1)) in
       if c = [44] then Ok (TComma, L1)
       else if c = [40] then Ok (TLParen, L1)
       else if c = [41] then Ok (TRParen, L1)
       else if c = [46] then Ok (TDot, L1)
       else if c = [42] then Ok (TStar, L1)
       else if c = [61] then Ok (TEq, L1)
       else if c = [60] then Ok (if eq then TLte else TLt, L2)
       else if c = [62] then Ok (if eq then TGte else TGt, L2)
       else if c = [33] then (if eq then Ok (TNeq, L2) else Err (UnexpectedCharacter c (length (concat pre))))
       else Err (UnexpectedCharacter c (length (concat pre))))"
proof -
  have skip: "skip_whitespace (lexer_at src pre (c # cs)) = lexer_at src pre (c # cs)" using assms by (simp add: skip_whitespace_at)
  define i where "i = length (concat pre) + length c"
  have ch: "lx_chars (lexer_at src pre (c # cs)) = (length (concat pre), c) # indices i cs" by (simp add: lexer_at_def i_def)
  have L1: "(lexer_at src pre (c # cs))\<lparr> lx_chars := indices i cs \<rparr> = lexer_at src (pre @ [c]) cs" by (simp add: lexer_at_def i_def)
  show ?thesis
  proof (cases cs)
    case Nil
    have "eat_equals (indices i cs) = (False, indices i cs)" by (simp add: eat_equals_def Nil)
    then show ?thesis by (simp add: next_token_def skip ch Let_def L1) (simp add: Nil lexer_at_def)
  next
    case (Cons d ds)
    have e: "eat_equals (indices i cs) = (if d = [61] then (True, indices (i + length d) ds) else (False, indices i cs))"
      by (simp add: eat_equals_def Cons)
    have L2: "(lexer_at src pre (c # cs))\<lparr> lx_chars := indices (i + length d) ds \<rparr> = lexer_at src (pre @ [c, d]) ds"
      by (simp add: lexer_at_def i_def add.assoc)
    show ?thesis
      by (simp add: next_token_def skip ch e Let_def L1 L2 del: One_nat_def) (simp add: Cons lexer_at_def i_def)
  qed
qed

lemma alphabetic_plain: "is_alphabetic u c \<or> c = [95] \<Longrightarrow> c \<noteq> [39] \<and> \<not> is_ascii_digit c"
  by (auto simp: is_alphabetic_def is_ascii_digit_def ascii_letter_def split: list.splits)

lemma next_token_written:
  assumes s: "splits src pre (show_chars t @ [32] # rest)" and w: "writable u t"
  shows "next_token u (lexer_at src pre (show_chars t @ [32] # rest)) = Ok (t, lexer_at src (pre @ show_chars t) ([32] # rest))"
proof (cases t)
  case (TIdent x)
  let ?P = "\<lambda>c. is_alphanumeric u c \<or> c = [95]"
  obtain c cs where c: "chars x = c # cs" "is_alphabetic u c \<or> c = [95]" "\<not> is_whitespace c" "list_all ?P cs"
    using w TIdent by (auto simp: writable_def ident_ok_def split: list.splits)
  have sc: "show_chars t = c # cs" using TIdent c(1) by (simp add: show_chars_def)
  have P: "?P c" using c(2) alphabetic_alnum by blast
  have all: "list_all ?P (c # cs)" "\<not> ?P [32]" using P c(4) space_facts(2) by simp_all
  note tw = takeWhile_stop [where P = ?P and xs = "c # cs" and y = "[32]" and ys = rest, OF all, unfolded append_Cons]
  have "next_token u (lexer_at src pre (c # cs @ [32] # rest)) = lex_ident u (lexer_at src pre (c # cs @ [32] # rest))"
    using next_token_start [OF c(3), of u src pre "cs @ [32] # rest"] alphabetic_plain [OF c(2)] c(2) by (simp add: Let_def)
  also have "\<dots> = Ok (TIdent (concat (c # cs)), lexer_at src (pre @ c # cs) ([32] # rest))"
    using lex_ident_at [OF s [unfolded sc append_Cons] P] by (simp only: Let_def tw)
  also have "concat (c # cs) = x" using c(1) concat_chars [of x] by simp
  finally show ?thesis using sc TIdent by simp
next
  case (TStr x)
  have sc: "show_chars t = [39] # concat (map quoted (chars x)) @ [[39]]" using TStr by (simp add: show_chars_def)
  have "\<not> is_whitespace [39]" by (simp add: is_whitespace_def)
  then have "next_token u (lexer_at src pre ([39] # concat (map quoted (chars x)) @ [39] # [32] # rest)) =
      Ok (TStr x, lexer_at src (pre @ [39] # concat (map quoted (chars x)) @ [[39]]) ([32] # rest))"
    using string_chars_quoted [of "chars x" rest "[]"] by (simp add: next_token_start Let_def lex_string_at)
  then show ?thesis using sc TStr by simp
next
  case (TNum x)
  let ?P = "\<lambda>c. is_ascii_digit c \<or> c = [46]"
  have ok: "f64_ok x" using w TNum by (simp add: writable_def)
  from show_f64_chars [OF ok] obtain b bs where b: "show_f64 x = b # bs" "digit_byte b" "list_all (\<lambda>c. digit_byte c \<or> c = 46) bs" by blast
  have d: "is_ascii_digit [b] = digit_byte b" for b by (simp add: is_ascii_digit_def digit_byte_def)
  have sc: "show_chars t = [b] # map (\<lambda>b. [b]) bs" using TNum b(1) by (simp add: show_chars_def)
  have all: "list_all ?P ([b] # map (\<lambda>b. [b]) bs)" "\<not> ?P [32]" using b(2,3) d space_facts(3) by (auto simp: list_all_iff)
  note tw = takeWhile_stop [where P = ?P and xs = "[b] # map (\<lambda>b. [b]) bs" and y = "[32]" and ys = rest, OF all, unfolded append_Cons]
  have nb: "\<not> is_whitespace [b]" "[b] \<noteq> [39]" "is_ascii_digit [b]" using b(2) d by (auto simp: is_whitespace_def digit_byte_def)
  have "next_token u (lexer_at src pre ([b] # map (\<lambda>b. [b]) bs @ [32] # rest)) = lex_number (lexer_at src pre ([b] # map (\<lambda>b. [b]) bs @ [32] # rest))"
    using next_token_start [OF nb(1), of u src pre "map (\<lambda>b. [b]) bs @ [32] # rest"] nb by (simp add: Let_def)
  also have "\<dots> = Ok (TNum x, lexer_at src (pre @ [b] # map (\<lambda>b. [b]) bs) ([32] # rest))"
  proof -
    have "concat ([b] # map (\<lambda>b. [b]) bs) = show_f64 x" by (simp add: b(1))
    then show ?thesis using lex_number_at [OF s [unfolded sc append_Cons] nb(3)] parse_show_f64 [OF ok] by (simp only: Let_def tw option.case)
  qed
  finally show ?thesis using sc TNum by simp
qed (use w in \<open>simp_all add: show_chars_def writable_def next_token_start is_whitespace_def is_ascii_digit_def is_alphabetic_def ascii_letter_def Let_def\<close>)

lemma next_token_end: "next_token u (lexer_at src pre [[32]]) = Ok (TEof, lexer_at src (pre @ [[32]]) [])"
  by (simp add: next_token_skip space_facts) (simp add: next_token_def skip_whitespace_at, simp add: lexer_at_def)

lemma tokenize_written:
  "list_all (writable u) ts \<Longrightarrow> splits src pre (spaced ts) \<Longrightarrow> tokenize_loop u (lexer_at src pre (spaced ts)) = Ok (ts @ [TEof])"
proof (induction ts arbitrary: pre)
  case Nil
  then show ?case by (subst tokenize_loop.simps) (simp add: spaced_def next_token_end)
next
  case (Cons t ts)
  obtain rest where rest: "spaced ts = [32] # rest" by (cases ts) (simp_all add: spaced_def)
  have sp: "spaced (t # ts) = [32] # show_chars t @ [32] # rest" using rest by (simp add: spaced_def)
  have w: "writable u t" "list_all (writable u) ts" using Cons.prems(1) by simp_all
  have s1: "splits src (pre @ [[32]]) (show_chars t @ [32] # rest)" using Cons.prems(2) sp by (simp add: splits_def)
  have s2: "splits src (pre @ [32] # show_chars t) (spaced ts)" using Cons.prems(2) sp rest by (simp add: splits_def)
  have "t \<noteq> TEof" using w(1) by (auto simp: writable_def)
  moreover have "next_token u (lexer_at src pre (spaced (t # ts))) = Ok (t, lexer_at src (pre @ [32] # show_chars t) (spaced ts))"
    using next_token_written [OF s1 w(1)] by (simp add: sp rest next_token_skip space_facts)
  ultimately show ?case using Cons.IH [OF w(2) s2] by (subst tokenize_loop.simps) simp
qed

lemma tokenize_show:
  assumes "list_all (writable u) ts"
  shows "tokenize u (show_tokens ts) = Ok (ts @ [TEof])"
proof -
  note c = chars_concat [OF spaced_ok [OF assms]]
  have "lexer_new (show_tokens ts) = lexer_at (show_tokens ts) [] (spaced ts)"
    using c by (simp add: lexer_new_def lexer_at_def char_indices_def show_tokens_def)
  moreover have "splits (show_tokens ts) [] (spaced ts)" using c by (simp add: splits_def show_tokens_def)
  ultimately show ?thesis using tokenize_written [OF assms] by (simp add: tokenize_def)
qed

section \<open>Properties\<close>

text \<open>
  C35: the parser implements the documented grammar. Of a sequence of tokens it accepts exactly those the
  grammar derives with \<^verbatim>\<open>NOT\<close> and parentheses nested at most 64 deep, and it returns the query the
  derivation gives: \<^verbatim>\<open>OR\<close> binds weaker than \<^verbatim>\<open>AND\<close>, both associate to the left.
\<close>

theorem parser_is_grammar:
  assumes "TEof \<notin> set us"
  shows "parse_tokens (us @ [TEof]) = Ok q \<longleftrightarrow> g_query 64 us q"
  by (rule parse_tokens_iff [OF assms])

definition sample_tokens :: "token list" where
  "sample_tokens = [TIdent (ascii ''select''), TStar, TIdent (ascii ''FROM''), TIdent (ascii ''e''), TIdent (ascii ''where''),
     TIdent (ascii ''a''), TEq, TStr (ascii ''x''), TIdent (ascii ''or''), TIdent (ascii ''not''), TIdent (ascii ''b''), TLt, TIdent (ascii ''true''),
     TIdent (ascii ''and''), TIdent (ascii ''c''), TDot, TIdent (ascii ''d''), TIdent (ascii ''in''), TLParen, TStr (ascii ''y''), TRParen]"

definition sample_query :: query where
  "sample_query = \<lparr> q_select = All, q_from = ascii ''e'',
     q_filter = Some (Or (Compare (ascii ''a'') OpEq (LStr (ascii ''x'')))
       (And (Not (Compare (ascii ''b'') OpLt (LBool True))) (In (ascii ''c.d'') [LStr (ascii ''y'')]))),
     q_order_by = [], q_limit = None \<rparr>"

lemma sample_parses: "parse_tokens (sample_tokens @ [TEof]) = Ok sample_query"
  by code_simp

lemma sample_no_eof: "TEof \<notin> set sample_tokens"
  by (simp add: sample_tokens_def)

lemma parser_is_grammar_witness: "g_query 64 sample_tokens sample_query"
  using parser_is_grammar [OF sample_no_eof, of sample_query] sample_parses by simp

text \<open>
  C36: parsing ends on every string. It never panics, the fuel of the model is never used up, and what it
  accepts are tokens of the grammar with at most 64 levels of nesting, so the recursion is bounded.
\<close>

theorem parse_terminates:
  assumes "utf8_valid src"
  shows "parse u src \<noteq> Panic \<and> parse u src \<noteq> Err OutOfFuel \<and>
    (\<forall>q. parse u src = Ok q \<longrightarrow> (\<exists>us. tokenize u src = Ok (us @ [TEof]) \<and> g_query 64 us q))"
proof -
  consider e where "tokenize u src = Err e" | us where "tokenize u src = Ok (us @ [TEof])" "TEof \<notin> set us"
    using tokenize_result [OF assms, of u] by blast
  then show ?thesis
  proof cases
    case 1
    then show ?thesis by (simp add: parse_def)
  next
    case 2
    then show ?thesis using parse_tokens_returns [OF 2(2)] parse_tokens_iff [OF 2(2)] by (simp add: parse_def returns_def)
  qed
qed

definition ascii_classes :: char_classes where
  "ascii_classes = \<lparr> wide_alphabetic = (\<lambda>_. False), wide_numeric = (\<lambda>_. False) \<rparr>"

lemma parse_terminates_witness: "parse ascii_classes [40, 39, 195, 169] \<noteq> Panic"
proof -
  have "utf8_valid [40, 39, 195, 169]" by code_simp
  then show ?thesis using parse_terminates by blast
qed

text \<open>
  C37: queries written out are read back. For any query and any derivation of it in the grammar whose
  tokens can be written (identifiers of the lexer's characters, strings, finite numbers), the text with
  a space between the tokens parses to that query, quotes in strings and decimal fractions included.
\<close>

theorem query_text_round_trip:
  assumes "g_query 64 us q" and "list_all (writable u) us"
  shows "parse u (show_tokens us) = Ok q"
proof -
  have "TEof \<notin> set us" using assms(2) by (auto simp: list_all_iff writable_def)
  from parse_tokens_iff [OF this] show ?thesis using assms(1) tokenize_show [OF assms(2)] by (simp add: parse_def)
qed

lemma sample_writable: "list_all (writable ascii_classes) sample_tokens"
  by code_simp

lemma query_text_round_trip_witness: "parse ascii_classes (show_tokens sample_tokens) = Ok sample_query"
proof -
  have "g_query 64 sample_tokens sample_query"
    using parse_tokens_iff [OF sample_no_eof, of sample_query] sample_parses by blast
  from query_text_round_trip [OF this sample_writable] show ?thesis .
qed

text \<open>
  Limits go through \<^verbatim>\<open>f64\<close>. A limit up to \<open>2 ^ 53\<close>, written in decimal, is the limit of the query;
  the next number is not: it is read as \<open>2 ^ 53\<close>.
\<close>

lemma limits_exact:
  assumes "n \<le> 2 ^ 53"
  shows "(\<exists>x p. parse_f64 (show_nat n) = Some x \<and>
      parse_limit \<lparr> p_tokens = [TNum x, TEof], p_pos = 0, expr_depth = 0 \<rparr> = Ok (n, p)) \<and>
    (\<exists>x p. parse_f64 (show_nat (2 ^ 53 + 1)) = Some x \<and>
      parse_limit \<lparr> p_tokens = [TNum x, TEof], p_pos = 0, expr_depth = 0 \<rparr> = Ok (2 ^ 53, p))"
proof
  have lim: "\<exists>p. parse_limit \<lparr> p_tokens = [TNum x, TEof], p_pos = 0, expr_depth = 0 \<rparr> = Ok (f64_to_u64 x, p)" if "fract_is_zero x" for x
    using that by (simp add: parse_limit_def advance_def peek_def)
  have read: "parse_f64 (show_nat k) = Some (round_f64 k 1)" for k
    using show_nat_digits [of k] by (simp add: parse_digits)
  show "\<exists>x p. parse_f64 (show_nat n) = Some x \<and> parse_limit \<lparr> p_tokens = [TNum x, TEof], p_pos = 0, expr_depth = 0 \<rparr> = Ok (n, p)"
    using read_nat_exact [OF assms] lim read by metis
  have "round_f64 (2 ^ 53 + 1) 1 = F64 (2 ^ 52) 1"
    by (simp add: round_f64_def Let_def bit_length.simps scaled_def round_half_even_def)
  moreover have "fract_is_zero (F64 (2 ^ 52) 1)" "f64_to_u64 (F64 (2 ^ 52) 1) = 2 ^ 53" by (simp_all add: fract_is_zero_def f64_to_u64_def)
  ultimately show "\<exists>x p. parse_f64 (show_nat (2 ^ 53 + 1)) = Some x \<and>
      parse_limit \<lparr> p_tokens = [TNum x, TEof], p_pos = 0, expr_depth = 0 \<rparr> = Ok (2 ^ 53, p)"
    using lim read by metis
qed

end
