(* ===== verification/Gems_Json.thy ===== *)
theory Gems_Json
  imports Gems_Float
begin

text \<open>
  \<^verbatim>\<open>gems-json\<close>: the JSON value, its accessors, its writer and the recursive-descent
  parser. A number is an \<^verbatim>\<open>f64\<close> with a sign; no NaN comes into being. A character is the
  list of its UTF-8 bytes. The parser's recursion is bounded by fuel, which
  \<^verbatim>\<open>Gems_Json_Facts\<close> shows is never used up.
\<close>

section \<open>Signed floating-point numbers\<close>

text \<open>\<open>Signed neg x\<close> is \<open>x\<close> or, with \<open>neg\<close>, \<open>- x\<close>; there are two zeros, which compare as equal.\<close>

datatype signed = Signed (negative: bool) (magnitude: f64)

definition dec_f64 :: "nat \<Rightarrow> int \<Rightarrow> f64" where
  "dec_f64 n x = (if 0 \<le> x then round_f64 (n * 10 ^ nat x) 1 else round_f64 n (10 ^ nat (- x)))"

definition parse_exponent :: "bytes \<Rightarrow> int option" where
  "parse_exponent s =
     (case s of
        [] \<Rightarrow> Some 0
      | b # r \<Rightarrow>
          if b = 101 \<or> b = 69 then
            (let sg = (case r of c # _ \<Rightarrow> c = 43 \<or> c = 45 | [] \<Rightarrow> False);
                 ds = (if sg then tl r else r) in
             if ds \<noteq> [] \<and> list_all digit_byte ds
             then Some (if sg \<and> hd r = 45 then - int (dec_val ds) else int (dec_val ds)) else None)
          else None)"

text \<open>
  \<^verbatim>\<open>str::parse::<f64>\<close> on a text of digits, dots, signs and exponent marks: the nearest
  \<^verbatim>\<open>f64\<close>, infinity above the greatest.
\<close>

definition parse_signed_f64 :: "bytes \<Rightarrow> signed option" where
  "parse_signed_f64 s =
     (let neg = (case s of b # _ \<Rightarrow> b = 45 | [] \<Rightarrow> False);
          s = (if neg then tl s else s);
          ip = takeWhile digit_byte s; s = dropWhile digit_byte s;
          dot = (case s of b # _ \<Rightarrow> b = 46 | [] \<Rightarrow> False);
          fp = (if dot then takeWhile digit_byte (tl s) else []);
          s = (if dot then dropWhile digit_byte (tl s) else s)
      in if ip = [] \<and> fp = [] then None
         else map_option (\<lambda>x. Signed neg (dec_f64 (dec_val (ip @ fp)) (x - int (length fp)))) (parse_exponent s))"

text \<open>
  \<^verbatim>\<open>format!("{n}")\<close> on a finite \<^verbatim>\<open>f64\<close>: the fewest digits that are read back
  as \<open>n\<close>, of two such numbers the nearer one, without an exponent. \<open>shortest\<close> looks at the digits of
  \<open>n / 10 ^ f\<close> with the last \<open>j\<close> of them dropped, rounded down or up.
\<close>

primrec shortest :: "f64 \<Rightarrow> nat \<Rightarrow> nat \<Rightarrow> nat \<Rightarrow> nat" where
  "shortest x n f 0 = n"
| "shortest x n f (Suc j) =
     (let s = 10 ^ Suc j; lo = n div s * s; hi = lo + s;
          down = (round_f64 lo (10 ^ f) = x); up = (round_f64 hi (10 ^ f) = x)
      in if up \<and> (\<not> down \<or> s \<le> 2 * (n - lo)) then hi
         else if down then lo
         else shortest x n f j)"

fun strip_zeros :: "nat \<Rightarrow> nat \<Rightarrow> nat \<times> nat" where
  "strip_zeros n 0 = (n, 0)"
| "strip_zeros n (Suc f) = (if 10 dvd n then strip_zeros (n div 10) f else (n, Suc f))"

definition show_decimal :: "nat \<times> nat \<Rightarrow> bytes" where
  "show_decimal d =
     (case d of (n, f) \<Rightarrow> if f = 0 then show_nat n else show_nat (n div 10 ^ f) @ [46] @ pad_digits f n)"

definition display_f64 :: "f64 \<Rightarrow> bytes" where
  "display_f64 x =
     (case x of
        F64 m e \<Rightarrow>
          let n = (if 0 \<le> e then m * 2 ^ nat e else m * 5 ^ nat (- e)); f = nat (- e)
          in show_decimal (strip_zeros (shortest x n f (length (show_nat n) - 1)) f)
      | F64_inf \<Rightarrow> ascii ''inf'')"

section \<open>Values\<close>

datatype json =
    JNull
  | JBool bool
  | JNumber signed
  | JString bytes
  | JArray "json list"
  | JObject "(bytes \<times> json) list"

definition json_object :: json where "json_object = JObject []"

definition json_array :: json where "json_array = JArray []"

primrec entry_set :: "(bytes \<times> json) list \<Rightarrow> bytes \<Rightarrow> json \<Rightarrow> (bytes \<times> json) list" where
  "entry_set [] k v = [(k, v)]"
| "entry_set (e # es) k v = (if fst e = k then (k, v) # es else e # entry_set es k v)"

definition json_set :: "json \<Rightarrow> bytes \<Rightarrow> json \<Rightarrow> ('e, json) outcome" where
  "json_set j k v = (case j of JObject es \<Rightarrow> Ok (JObject (entry_set es k v)) | _ \<Rightarrow> Panic)"

definition json_push :: "json \<Rightarrow> json \<Rightarrow> ('e, json) outcome" where
  "json_push j v = (case j of JArray vs \<Rightarrow> Ok (JArray (vs @ [v])) | _ \<Rightarrow> Panic)"

definition json_get :: "json \<Rightarrow> bytes \<Rightarrow> json option" where
  "json_get j k = (case j of JObject es \<Rightarrow> map_option snd (find (\<lambda>e. fst e = k) es) | _ \<Rightarrow> None)"

definition as_str :: "json \<Rightarrow> bytes option" where
  "as_str j = (case j of JString s \<Rightarrow> Some s | _ \<Rightarrow> None)"

definition as_f64 :: "json \<Rightarrow> signed option" where
  "as_f64 j = (case j of JNumber n \<Rightarrow> Some n | _ \<Rightarrow> None)"

definition as_u64 :: "json \<Rightarrow> nat option" where
  "as_u64 j =
     (case as_f64 j of
        Some n \<Rightarrow> if negative n \<and> magnitude n \<noteq> F64 0 0 then None else Some (f64_to_u64 (magnitude n))
      | None \<Rightarrow> None)"

definition as_array :: "json \<Rightarrow> json list option" where
  "as_array j = (case j of JArray vs \<Rightarrow> Some vs | _ \<Rightarrow> None)"

definition json_entries :: "json \<Rightarrow> (bytes \<times> json) list option" where
  "json_entries j = (case j of JObject es \<Rightarrow> Some es | _ \<Rightarrow> None)"

definition is_null :: "json \<Rightarrow> bool" where "is_null j = (j = JNull)"

definition json_of_u64 :: "nat \<Rightarrow> json" where
  "json_of_u64 n = JNumber (Signed False (round_f64 n 1))"

definition json_of_i64 :: "int \<Rightarrow> json" where
  "json_of_i64 n = JNumber (Signed (n < 0) (round_f64 (nat \<bar>n\<bar>) 1))"

definition json_of_option :: "('a \<Rightarrow> json) \<Rightarrow> 'a option \<Rightarrow> json" where
  "json_of_option f v = (case v of Some v \<Rightarrow> f v | None \<Rightarrow> JNull)"

definition json_of_list :: "('a \<Rightarrow> json) \<Rightarrow> 'a list \<Rightarrow> json" where
  "json_of_list f items = JArray (map f items)"

section \<open>The writer\<close>

definition write_number :: "signed \<Rightarrow> bytes" where
  "write_number n =
     (let x = magnitude n in
      if fract_is_zero x \<and> f64_to_u64 x < 10 ^ 15 then
        (if negative n \<and> f64_to_u64 x \<noteq> 0 then [45] else []) @ show_nat (f64_to_u64 x)
      else (if negative n then [45] else []) @ display_f64 x)"

definition write_char :: "bytes \<Rightarrow> bytes" where
  "write_char c =
     (case c of
        [b] \<Rightarrow>
          if b = 34 then [92, 34] else if b = 92 then [92, 92] else if b = 10 then [92, 110]
          else if b = 13 then [92, 114] else if b = 9 then [92, 116]
          else if unat b < 32 then [92, 117, 48, 48] @ hex2 b else c
      | _ \<Rightarrow> c)"

definition write_json_string :: "bytes \<Rightarrow> bytes" where
  "write_json_string s = [34] @ concat (map write_char (chars s)) @ [34]"

fun commas :: "bytes list \<Rightarrow> bytes" where
  "commas [] = []"
| "commas [t] = t"
| "commas (t # ts) = t @ [44] @ commas ts"

fun json_text :: "json \<Rightarrow> bytes" where
  "json_text JNull = ascii ''null''"
| "json_text (JBool b) = (if b then ascii ''true'' else ascii ''false'')"
| "json_text (JNumber n) = write_number n"
| "json_text (JString s) = write_json_string s"
| "json_text (JArray items) = [91] @ commas (map json_text items) @ [93]"
| "json_text (JObject es) =
     [123] @ commas (map (\<lambda>e. write_json_string (fst e) @ [58] @ json_text (snd e)) es) @ [125]"

section \<open>The parser\<close>

datatype json_error =
    JTrailing | JExpected bytes "bytes option" | JUnexpected "bytes option" | JTooDeep
  | JExpectedCommaOr bytes "bytes option" | JUnterminatedString | JInvalidEscape "bytes option"
  | JUnterminatedEscape | JInvalidUnicode bytes | JNotStandalone bytes | JInvalidNumber bytes | JOutOfFuel

record json_parser =
  js_chars :: "bytes list"
  js_depth :: nat

type_synonym 'a json_parsed = "(json_error, 'a \<times> json_parser) outcome"

definition MAX_NESTING_DEPTH :: nat where "MAX_NESTING_DEPTH = 64"

definition json_skip :: "json_parser \<Rightarrow> json_parser" where
  "json_skip p = p\<lparr> js_chars := dropWhile is_whitespace (js_chars p) \<rparr>"

definition json_peek :: "json_parser \<Rightarrow> bytes option" where
  "json_peek p = (case js_chars p of [] \<Rightarrow> None | c # _ \<Rightarrow> Some c)"

definition json_next :: "json_parser \<Rightarrow> bytes option \<times> json_parser" where
  "json_next p = (json_peek p, p\<lparr> js_chars := tl (js_chars p) \<rparr>)"

definition json_expect :: "bytes \<Rightarrow> json_parser \<Rightarrow> unit json_parsed" where
  "json_expect c p = (case json_next p of (a, p) \<Rightarrow> if a = Some c then Ok ((), p) else Err (JExpected c a))"

primrec expect_literal :: "bytes list \<Rightarrow> json_parser \<Rightarrow> unit json_parsed" where
  "expect_literal [] p = Ok ((), p)"
| "expect_literal (c # cs) p = obind (json_expect c p) (\<lambda>(_, p). expect_literal cs p)"

text \<open>\<^verbatim>\<open>u32::from_str_radix(&hex, 16)\<close> on four characters, which takes a plus sign, and the UTF-8 form.\<close>

primrec hex_digits :: "bytes \<Rightarrow> nat \<Rightarrow> nat option" where
  "hex_digits [] acc = Some acc"
| "hex_digits (b # bs) acc = (case hex_value b of None \<Rightarrow> None | Some d \<Rightarrow> hex_digits bs (16 * acc + d))"

definition u32_from_hex :: "bytes \<Rightarrow> nat option" where
  "u32_from_hex s =
     (case s of [] \<Rightarrow> None
      | b # r \<Rightarrow> if b = 43 then (if r = [] then None else hex_digits r 0) else hex_digits s 0)"

definition encode_utf8 :: "nat \<Rightarrow> bytes" where
  "encode_utf8 n =
     (if n < 0x80 then [of_nat n]
      else if n < 0x800 then [of_nat (0xC0 + n div 64), of_nat (0x80 + n mod 64)]
      else [of_nat (0xE0 + n div 4096), of_nat (0x80 + n div 64 mod 64), of_nat (0x80 + n mod 64)])"

definition parse_unicode_escape :: "json_parser \<Rightarrow> bytes json_parsed" where
  "parse_unicode_escape p =
     (if length (js_chars p) < 4 then Err JUnterminatedEscape
      else
        let hex = concat (take 4 (js_chars p)); p = p\<lparr> js_chars := drop 4 (js_chars p) \<rparr> in
        case u32_from_hex hex of
          None \<Rightarrow> Err (JInvalidUnicode hex)
        | Some n \<Rightarrow> if 0xD800 \<le> n \<and> n < 0xE000 then Err (JNotStandalone hex) else Ok (encode_utf8 n, p))"

definition simple_escape :: "bytes \<Rightarrow> bytes option" where
  "simple_escape c =
     (if c = [34] then Some [34] else if c = [92] then Some [92] else if c = [47] then Some [47]
      else if c = [98] then Some [8] else if c = [102] then Some [12] else if c = [110] then Some [10]
      else if c = [114] then Some [13] else if c = [116] then Some [9] else None)"

lemma json_next_shorter: "json_next p = (Some c, q) \<Longrightarrow> length (js_chars q) < length (js_chars p)"
  by (auto simp: json_next_def json_peek_def split: list.splits)

lemma unicode_shorter: "parse_unicode_escape p = Ok (u, q) \<Longrightarrow> length (js_chars q) < length (js_chars p)"
  by (auto simp: parse_unicode_escape_def Let_def split: if_splits option.splits)

function string_loop :: "bytes \<Rightarrow> json_parser \<Rightarrow> bytes json_parsed" where
  "string_loop s p =
     (case json_next p of
        (None, _) \<Rightarrow> Err JUnterminatedString
      | (Some c, p1) \<Rightarrow>
          if c = [34] then Ok (s, p1)
          else if c = [92] then
            (case json_next p1 of
               (None, _) \<Rightarrow> Err (JInvalidEscape None)
             | (Some e, p2) \<Rightarrow>
                 if e = [117] then obind (parse_unicode_escape p2) (\<lambda>(u, p3). string_loop (s @ u) p3)
                 else (case simple_escape e of
                         Some x \<Rightarrow> string_loop (s @ x) p2
                       | None \<Rightarrow> Err (JInvalidEscape (Some e))))
          else string_loop (s @ c) p1)"
  by pat_completeness auto
termination
  by (relation "measure (\<lambda>(s, p). length (js_chars p))")
     (auto dest!: unicode_shorter json_next_shorter [OF sym])

declare string_loop.simps [simp del]

definition parse_string :: "json_parser \<Rightarrow> bytes json_parsed" where
  "parse_string p = obind (json_expect [34] p) (\<lambda>(_, p). string_loop [] p)"

definition take_if :: "(bytes \<Rightarrow> bool) \<Rightarrow> json_parser \<Rightarrow> bytes \<times> json_parser" where
  "take_if P p =
     (case js_chars p of
        c # cs \<Rightarrow> if P c then (c, p\<lparr> js_chars := cs \<rparr>) else ([], p)
      | [] \<Rightarrow> ([], p))"

definition take_digits :: "json_parser \<Rightarrow> bytes \<times> json_parser" where
  "take_digits p =
     (concat (takeWhile is_ascii_digit (js_chars p)), p\<lparr> js_chars := dropWhile is_ascii_digit (js_chars p) \<rparr>)"

definition parse_number :: "json_parser \<Rightarrow> json json_parsed" where
  "parse_number p =
     (let (sg, p) = take_if (\<lambda>c. c = [45]) p;
          (ip, p) = take_digits p;
          (dot, p) = take_if (\<lambda>c. c = [46]) p;
          (fp, p) = (if dot = [] then ([], p) else take_digits p);
          (ex, p) = take_if (\<lambda>c. c = [101] \<or> c = [69]) p;
          (es, p) = (if ex = [] then ([], p) else take_if (\<lambda>c. c = [43] \<or> c = [45]) p);
          (ed, p) = (if ex = [] then ([], p) else take_digits p);
          raw = sg @ ip @ dot @ fp @ ex @ es @ ed
      in case parse_signed_f64 raw of
           Some n \<Rightarrow> Ok (JNumber n, p)
         | None \<Rightarrow> Err (JInvalidNumber raw))"

definition with_nesting :: "(json_parser \<Rightarrow> 'a json_parsed) \<Rightarrow> json_parser \<Rightarrow> 'a json_parsed" where
  "with_nesting f p =
     (let p = p\<lparr> js_depth := js_depth p + 1 \<rparr> in
      if MAX_NESTING_DEPTH < js_depth p then Err JTooDeep
      else omap (\<lambda>(v, p). (v, p\<lparr> js_depth := js_depth p - 1 \<rparr>)) (f p))"

fun parse_value :: "nat \<Rightarrow> json_parser \<Rightarrow> json json_parsed"
  and parse_object :: "nat \<Rightarrow> json_parser \<Rightarrow> json json_parsed"
  and object_loop :: "nat \<Rightarrow> (bytes \<times> json) list \<Rightarrow> json_parser \<Rightarrow> json json_parsed"
  and parse_array :: "nat \<Rightarrow> json_parser \<Rightarrow> json json_parsed"
  and array_loop :: "nat \<Rightarrow> json list \<Rightarrow> json_parser \<Rightarrow> json json_parsed" where
  "parse_value 0 p = Err JOutOfFuel"
| "parse_value (Suc n) p =
     (let p = json_skip p in
      case json_peek p of
        None \<Rightarrow> Err (JUnexpected None)
      | Some c \<Rightarrow>
          if c = [123] then parse_object n p
          else if c = [91] then parse_array n p
          else if c = [34] then omap (\<lambda>(s, p). (JString s, p)) (parse_string p)
          else if c = [116] then
            omap (\<lambda>(_, p). (JBool True, p)) (expect_literal [[116], [114], [117], [101]] p)
          else if c = [102] then
            omap (\<lambda>(_, p). (JBool False, p)) (expect_literal [[102], [97], [108], [115], [101]] p)
          else if c = [110] then
            omap (\<lambda>(_, p). (JNull, p)) (expect_literal [[110], [117], [108], [108]] p)
          else if c = [45] \<or> is_ascii_digit c then parse_number p
          else Err (JUnexpected (Some c)))"
| "parse_object 0 p = Err JOutOfFuel"
| "parse_object (Suc n) p =
     with_nesting (\<lambda>p.
       obind (json_expect [123] p) (\<lambda>(_, p).
       let p = json_skip p in
       if json_peek p = Some [125] then Ok (JObject [], snd (json_next p)) else object_loop n [] p)) p"
| "object_loop 0 es p = Err JOutOfFuel"
| "object_loop (Suc n) es p =
     obind (parse_string (json_skip p)) (\<lambda>(key, p).
     obind (json_expect [58] (json_skip p)) (\<lambda>(_, p).
     obind (parse_value n p) (\<lambda>(v, p).
     let es = es @ [(key, v)]; (c, p) = json_next (json_skip p) in
     if c = Some [44] then object_loop n es p
     else if c = Some [125] then Ok (JObject es, p)
     else Err (JExpectedCommaOr [125] c))))"
| "parse_array 0 p = Err JOutOfFuel"
| "parse_array (Suc n) p =
     with_nesting (\<lambda>p.
       obind (json_expect [91] p) (\<lambda>(_, p).
       let p = json_skip p in
       if json_peek p = Some [93] then Ok (JArray [], snd (json_next p)) else array_loop n [] p)) p"
| "array_loop 0 vs p = Err JOutOfFuel"
| "array_loop (Suc n) vs p =
     obind (parse_value n p) (\<lambda>(v, p).
     let vs = vs @ [v]; (c, p) = json_next (json_skip p) in
     if c = Some [44] then array_loop n vs p
     else if c = Some [93] then Ok (JArray vs, p)
     else Err (JExpectedCommaOr [93] c))"

definition json_fuel :: "bytes list \<Rightarrow> nat" where
  "json_fuel cs = 3 * length cs + 3"

definition json_parse :: "bytes \<Rightarrow> (json_error, json) outcome" where
  "json_parse src =
     (let cs = chars src in
      obind (parse_value (json_fuel cs) (json_skip \<lparr> js_chars = cs, js_depth = 0 \<rparr>)) (\<lambda>(v, p).
      if json_peek (json_skip p) \<noteq> None then Err JTrailing else Ok v))"

end
