(* ===== verification/Gems_Json_Number.thy ===== *)
theory Gems_Json_Number
  imports Gems_Json
begin

text \<open>
  The decimal form of a number is read back: \<open>display_f64\<close> writes the shortest decimal that rounds to the
  number, \<open>write_number\<close> an integer where the number is one, and both are read as the number.
\<close>

section \<open>Reading a written decimal\<close>

definition sign_text :: "bool \<Rightarrow> bytes" where
  "sign_text neg = (if neg then [45] else [])"

lemma show_nat_head: "\<exists>b bs. show_nat n = b # bs \<and> digit_byte b \<and> b \<noteq> 45"
proof -
  obtain b bs where "show_nat n = b # bs" "digit_byte b" using show_nat_digits [of n] by (cases "show_nat n") auto
  moreover then have "b \<noteq> 45" by (auto simp: digit_byte_def)
  ultimately show ?thesis by blast
qed

lemma parse_show_decimal:
  "parse_signed_f64 (sign_text neg @ show_decimal (n, f)) = Some (Signed neg (round_f64 n (10 ^ f)))"
proof -
  obtain b bs where b: "show_nat k = b # bs \<and> digit_byte b \<and> b \<noteq> 45" if "k = n div 10 ^ f" for k
    using show_nat_head [of "n div 10 ^ f"] by blast
  have nd: "\<not> digit_byte 46" by (simp add: digit_byte_def)
  have head: "(case show_decimal (n, f) of b # _ \<Rightarrow> b = 45 | [] \<Rightarrow> False) = False"
    using show_nat_head [of "n div 10 ^ f"] show_nat_head [of n] by (auto simp: show_decimal_def)
  have body: "parse_signed_f64 (show_decimal (n, f)) = Some (Signed False (round_f64 n (10 ^ f)))"
  proof (cases "f = 0")
    case True
    then show ?thesis using head show_nat_digits [of n]
      by (simp add: parse_signed_f64_def show_decimal_def digits_all parse_exponent_def dec_f64_def Let_def)
  next
    case False
    note d = show_nat_digits [of "n div 10 ^ f"] and p = pad_digits_facts [of f n]
    have "dec_val (show_nat (n div 10 ^ f) @ pad_digits f n) = n" using d by (simp add: dec_val_pad)
    moreover have "takeWhile digit_byte (show_nat (n div 10 ^ f) @ 46 # pad_digits f n) = show_nat (n div 10 ^ f)"
        "dropWhile digit_byte (show_nat (n div 10 ^ f) @ 46 # pad_digits f n) = 46 # pad_digits f n"
      using d digits_prefix [of "show_nat (n div 10 ^ f)" 46 "pad_digits f n"] nd by simp_all
    ultimately show ?thesis using head p d False
      by (simp add: parse_signed_f64_def show_decimal_def digits_all parse_exponent_def dec_f64_def Let_def)
  qed
  show ?thesis
  proof (cases neg)
    case True
    have "parse_signed_f64 (45 # s) = map_option (\<lambda>v. Signed True (magnitude v)) (parse_signed_f64 s)"
      if "(case s of b # _ \<Rightarrow> b = 45 | [] \<Rightarrow> False) = False" for s
      using that by (simp add: parse_signed_f64_def Let_def option.map_comp comp_def)
    from this [OF head] show ?thesis using True body by (simp add: sign_text_def)
  qed (simp add: sign_text_def body)
qed

section \<open>The shortest decimal\<close>

lemma shortest_reads: "round_f64 n (10 ^ f) = x \<Longrightarrow> round_f64 (shortest x n f j) (10 ^ f) = x"
  by (induction j) (simp_all add: Let_def)

lemma strip_zeros_value: "strip_zeros n f = (n', f') \<Longrightarrow> n * 10 ^ f' = n' * 10 ^ f \<and> (0 < n \<longrightarrow> 0 < n')"
proof (induction n f rule: strip_zeros.induct)
  case (2 n f)
  show ?case
  proof (cases "10 dvd n")
    case True
    then have "strip_zeros (n div 10) f = (n', f')" using 2(2) by simp
    from "2.IH" [OF True this] have "n div 10 * 10 ^ f' = n' * 10 ^ f" "0 < n div 10 \<longrightarrow> 0 < n'" by simp_all
    moreover have "n = 10 * (n div 10)" using True by simp
    moreover then have "0 < n \<longrightarrow> 0 < n div 10" by (metis mult_0_right neq0_conv)
    ultimately show ?thesis by (metis mult.assoc mult.left_commute power_Suc)
  qed (use 2(2) in simp)
qed simp

lemma strip_zeros_rounds:
  assumes s: "strip_zeros n f = (n', f')" and n: "0 < n"
  shows "round_f64 n' (10 ^ f') = round_f64 n (10 ^ f)"
proof (rule round_f64_value)
  note v = strip_zeros_value [OF s]
  show "0 < n'" using v n by simp
  have "real n * real (10 ^ f') = real n' * real (10 ^ f)" using v by (metis of_nat_mult)
  then show "real n' / real (10 ^ f') = real n / real (10 ^ f)" by (simp add: field_simps)
qed (use n in simp_all)

lemma display_f64_decimal:
  assumes f: "f64_finite m e"
  shows "\<exists>n k. display_f64 (F64 m e) = show_decimal (n, k) \<and> round_f64 n (10 ^ k) = F64 m e"
proof -
  define k where "k = nat (- e)"
  define n where "n = (if 0 \<le> e then m * 2 ^ nat e else m * 5 ^ k)"
  define s where "s = shortest (F64 m e) n k (length (show_nat n) - 1)"
  have "round_f64 n (10 ^ k) = F64 m e" unfolding n_def k_def by (rule exact_decimal [OF f])
  from shortest_reads [OF this] have s1: "round_f64 s (10 ^ k) = F64 m e" by (simp add: s_def)
  have "0 < s"
  proof (rule ccontr)
    assume "\<not> 0 < s"
    then have "F64 m e = F64 0 0" using s1 by (simp add: round_f64_def)
    then show False using f by (simp add: f64_finite_def)
  qed
  moreover obtain n' k' where sz: "strip_zeros s k = (n', k')" by fastforce
  ultimately have "round_f64 n' (10 ^ k') = F64 m e" using strip_zeros_rounds [OF sz] s1 by simp
  moreover have "display_f64 (F64 m e) = show_decimal (n', k')"
    unfolding display_f64_def f64.case Let_def n_def [symmetric] k_def [symmetric] s_def [symmetric] sz ..
  ultimately show ?thesis by blast
qed

section \<open>Numbers\<close>

text \<open>Numbers that are equal by \<^verbatim>\<open>==\<close> have the same \<open>plain_number\<close>: the two zeros are one.\<close>

definition plain_number :: "signed \<Rightarrow> signed" where
  "plain_number n = (if magnitude n = F64 0 0 then Signed False (F64 0 0) else n)"

definition number_ok :: "signed \<Rightarrow> bool" where
  "number_ok n \<longleftrightarrow> f64_ok (magnitude n)"

lemma integer_reads:
  assumes f: "f64_finite m e" and z: "fract_is_zero (F64 m e)" and small: "f64_to_u64 (F64 m e) < 10 ^ 15"
  shows "round_f64 (f64_to_u64 (F64 m e)) 1 = F64 m e \<and> f64_to_u64 (F64 m e) \<noteq> 0"
proof -
  define k where "k = f64_to_u64 (F64 m e)"
  have m: "0 < m" using f by (auto simp: f64_finite_def)
  have kk: "k = (if 0 \<le> e then m * 2 ^ nat e else m div 2 ^ nat (- e))"
    using small by (auto simp: k_def f64_to_u64_def min_def split: if_splits)
  have v: "real k = real m * 2 powi e"
  proof (cases "0 \<le> e")
    case True
    then show ?thesis by (simp add: kk power_int_def)
  next
    case False
    then obtain q where q: "m = 2 ^ nat (- e) * q" using z by (auto simp: fract_is_zero_def dvd_def)
    have "2 powi e = (1::real) / 2 ^ nat (- e)" using False by (simp add: power_int_def inverse_eq_divide power_one_over)
    then show ?thesis using False by (simp add: kk q)
  qed
  have "0 < real k" unfolding v using m by simp
  then have "0 < k" by simp
  then show ?thesis using round_f64_exact [of k 1 m e] v f by (simp add: k_def)
qed

lemma write_number_decimal:
  assumes "number_ok n"
  shows "\<exists>d k. write_number n = sign_text (negative (plain_number n)) @ show_decimal (d, k) \<and>
           round_f64 d (10 ^ k) = magnitude n"
proof -
  obtain neg x where n: "n = Signed neg x" by (cases n)
  have ok: "f64_ok x" using assms by (simp add: number_ok_def n)
  then obtain m e where x: "x = F64 m e" by (cases x) (simp_all add: f64_ok_def)
  show ?thesis
  proof (cases "x = F64 0 0")
    case True
    have "write_number n = sign_text (negative (plain_number n)) @ show_decimal (0, 0)"
      by (simp add: n True write_number_def fract_is_zero_def f64_to_u64_def show_decimal_def plain_number_def sign_text_def)
    moreover have "round_f64 0 (10 ^ 0) = magnitude n" by (simp add: round_f64_def n True)
    ultimately show ?thesis by blast
  next
    case False
    then have f: "f64_finite m e" using ok by (auto simp: x f64_ok_def)
    have p: "plain_number n = n" using False by (simp add: plain_number_def n)
    show ?thesis
    proof (cases "fract_is_zero x \<and> f64_to_u64 x < 10 ^ 15")
      case True
      note i = integer_reads [OF f, folded x, OF conjunct1 [OF True] conjunct2 [OF True]]
      have "write_number n = sign_text neg @ show_decimal (f64_to_u64 x, 0)"
        using True i by (simp add: n write_number_def show_decimal_def sign_text_def)
      moreover have "round_f64 (f64_to_u64 x) (10 ^ 0) = magnitude n" using i by (simp add: n)
      ultimately show ?thesis unfolding p by (simp only: n signed.sel) blast
    next
      case no: False
      obtain d k where dk: "display_f64 x = show_decimal (d, k)" "round_f64 d (10 ^ k) = x" using display_f64_decimal [OF f] x by blast
      have "write_number n = sign_text neg @ show_decimal (d, k)"
        using no dk by (auto simp: n write_number_def sign_text_def Let_def)
      then show ?thesis unfolding p using dk(2) by (simp only: n signed.sel) blast
    qed
  qed
qed

lemma number_reads: "number_ok n \<Longrightarrow> parse_signed_f64 (write_number n) = Some (plain_number n)"
proof -
  assume n: "number_ok n"
  from write_number_decimal [OF n] obtain d k where
    w: "write_number n = sign_text (negative (plain_number n)) @ show_decimal (d, k)" "round_f64 d (10 ^ k) = magnitude n" by blast
  show ?thesis unfolding w(1) parse_show_decimal w(2) by (cases n) (simp add: plain_number_def)
qed

end
