(* ===== verification/Gems_Json_Total.thy ===== *)
theory Gems_Json_Total
  imports Gems_Json_Number
begin

text \<open>
  The JSON parser returns on every string: it does not panic, the fuel of \<open>json_fuel\<close> is not used up,
  and a value it accepts is well formed: its strings are UTF-8, its numbers are \<^verbatim>\<open>f64\<close>s and at most 64
  arrays and objects are nested in each other.
\<close>

section \<open>Numbers are floating-point numbers\<close>

definition f64_type :: "f64 \<Rightarrow> bool" where
  "f64_type x \<longleftrightarrow> x = F64_inf \<or> f64_ok x"

lemma round_half_even_le:
  assumes b: "0 < b" and "real a / real b < real (2 ^ k)"
  shows "round_half_even (a, b) \<le> 2 ^ k"
proof -
  have "real a < real (2 ^ k * b)" using assms by (simp add: field_simps)
  then have "a < 2 ^ k * b" by (simp only: of_nat_less_iff)
  then have "a div b < 2 ^ k" using b by (simp add: less_mult_imp_div_less)
  then show ?thesis by (simp add: round_half_even_def Let_def)
qed

lemma round_half_even_ge:
  assumes b: "0 < b" and "real (2 ^ k) \<le> real a / real b"
  shows "2 ^ k \<le> round_half_even (a, b)"
proof -
  have "real (2 ^ k * b) \<le> real a" using assms by (simp add: field_simps)
  then have "2 ^ k * b \<le> a" by (simp only: of_nat_le_iff)
  then have "2 ^ k \<le> a div b" using b by (simp add: less_eq_div_iff_mult_less_eq)
  then show ?thesis by (simp add: round_half_even_def Let_def)
qed

lemma round_f64_type:
  assumes d: "0 < d"
  shows "f64_type (round_f64 n d)"
proof (cases "n = 0")
  case True
  then show ?thesis by (simp add: round_f64_def f64_type_def f64_ok_def)
next
  case False
  then have n: "0 < n" by simp
  define x where "x = real n / real d"
  obtain e where e: "2 powi (e + 52) \<le> x" "x < 2 powi (e + 53)"
    and r: "round_f64 n d = round_at n d (max (- 1074) e)"
    by (rule round_f64_eq [OF n d, folded x_def])
  define k where "k = max (- 1074) e"
  obtain a b where s: "scaled n d k = (a, b)" by fastforce
  have b: "0 < b" "real a / real b = x / 2 powi k" using scaled_real [OF s d] by (simp_all add: x_def)
  have pos: "(0::real) < 2 powi k" by simp
  have "x < 2 powi (k + 53)"
  proof -
    have "(2::real) powi (e + 53) \<le> 2 powi (k + 53)" by (intro power_int_increasing) (simp_all add: k_def)
    then show ?thesis using e(2) by linarith
  qed
  then have "x / 2 powi k < real (2 ^ 53)" using pos by (simp add: pos_divide_less_eq power_int_add mult.commute)
  then have up: "round_half_even (a, b) \<le> 2 ^ 53" using round_half_even_le [OF b(1), of a 53] by (simp add: b(2))
  have low: "2 ^ 52 \<le> round_half_even (a, b) \<or> k = - 1074"
  proof (cases "- 1074 \<le> e")
    case True
    then have "k = e" by (simp add: k_def)
    then have "real (2 ^ 52) \<le> x / 2 powi k" using pos e(1) by (simp add: pos_le_divide_eq power_int_add mult.commute)
    then show ?thesis using round_half_even_ge [OF b(1), of 52 a] by (simp add: b(2))
  qed (simp add: k_def)
  have k: "- 1074 \<le> k" by (simp add: k_def)
  show ?thesis
    using up low k unfolding r k_def [symmetric] round_at_def s
    by (auto simp: Let_def f64_type_def f64_ok_def f64_finite_def)
qed

lemma parse_signed_f64_type: "parse_signed_f64 s = Some n \<Longrightarrow> f64_type (magnitude n)"
  using round_f64_type by (auto simp: parse_signed_f64_def dec_f64_def Let_def split: if_splits)

section \<open>Well-formed values\<close>

text \<open>\<open>json_wf N d v\<close>: numbers satisfy \<open>N\<close> and at most \<open>d\<close> arrays and objects are nested.\<close>

fun json_wf :: "(signed \<Rightarrow> bool) \<Rightarrow> nat \<Rightarrow> json \<Rightarrow> bool" where
  "json_wf N d JNull = True"
| "json_wf N d (JBool b) = True"
| "json_wf N d (JNumber n) = N n"
| "json_wf N d (JString s) = utf8_valid s"
| "json_wf N d (JArray vs) = (0 < d \<and> (\<forall>v\<in>set vs. json_wf N (d - 1) v))"
| "json_wf N d (JObject es) = (0 < d \<and> (\<forall>e\<in>set es. utf8_valid (fst e) \<and> json_wf N (d - 1) (snd e)))"

abbreviation json_type :: "nat \<Rightarrow> json \<Rightarrow> bool" where
  "json_type \<equiv> json_wf (\<lambda>n. f64_type (magnitude n))"

section \<open>Steps that consume input\<close>

definition js_ok :: "json_parser \<Rightarrow> bool" where
  "js_ok p \<longleftrightarrow> list_all is_char (js_chars p)"

abbreviation js_left :: "json_parser \<Rightarrow> nat" where
  "js_left p \<equiv> length (js_chars p)"

definition good :: "json_parser \<Rightarrow> ('a \<Rightarrow> bool) \<Rightarrow> 'a json_parsed \<Rightarrow> bool" where
  "good p V r \<longleftrightarrow>
     (case r of
        Ok (v, q) \<Rightarrow> V v \<and> js_depth q = js_depth p \<and> js_ok q \<and> js_left q < js_left p
      | Err e \<Rightarrow> e \<noteq> JOutOfFuel
      | Panic \<Rightarrow> False)"

lemma good_simps [simp]:
  "good p V (Ok (v, q)) \<longleftrightarrow> V v \<and> js_depth q = js_depth p \<and> js_ok q \<and> js_left q < js_left p"
  "good p V (Err e) \<longleftrightarrow> e \<noteq> JOutOfFuel"
  "\<not> good p V Panic"
  by (simp_all add: good_def)

lemma good_bind:
  assumes "good p V m"
    and "\<And>v q. V v \<Longrightarrow> js_depth q = js_depth p \<Longrightarrow> js_ok q \<Longrightarrow> js_left q < js_left p \<Longrightarrow> good p W (k (v, q))"
  shows "good p W (obind m k)"
  using assms by (cases m) auto

lemma good_map: "good p V m \<Longrightarrow> (\<And>v q. V v \<Longrightarrow> W (f v)) \<Longrightarrow> good p W (omap (\<lambda>(v, q). (f v, q)) m)"
  by (cases m) auto

lemma good_later: "good q W r \<Longrightarrow> js_depth q = js_depth p \<Longrightarrow> js_left q \<le> js_left p \<Longrightarrow> good p W r"
  by (cases r) auto

lemma js_ok_tl: "js_ok p \<Longrightarrow> js_ok (p\<lparr> js_chars := tl (js_chars p) \<rparr>)"
  by (cases "js_chars p") (simp_all add: js_ok_def)

lemma skip_facts [simp]: "js_depth (json_skip p) = js_depth p" "js_left (json_skip p) \<le> js_left p"
  by (simp_all add: json_skip_def length_dropWhile_le)

lemma js_ok_skip [simp]: "js_ok p \<Longrightarrow> js_ok (json_skip p)"
  by (auto simp: js_ok_def json_skip_def list_all_iff dest: set_dropWhileD)

lemma next_facts:
  "js_ok p \<Longrightarrow> json_next p = (Some c, q) \<Longrightarrow> is_char c \<and> js_ok q \<and> js_depth q = js_depth p \<and> js_left q < js_left p"
  by (auto simp: json_next_def json_peek_def js_ok_def split: list.splits)

lemma good_expect: "js_ok p \<Longrightarrow> good p (\<lambda>_. True) (json_expect c p)"
  using next_facts [of p] by (cases "json_next p") (auto simp: json_expect_def)

lemma good_literal: "cs \<noteq> [] \<Longrightarrow> js_ok p \<Longrightarrow> good p (\<lambda>_. True) (expect_literal cs p)"
proof (induction cs arbitrary: p)
  case (Cons c cs)
  show ?case
  proof (cases "cs = []")
    case True
    have "good p (\<lambda>_. True) (obind (json_expect c p) (\<lambda>(_, p). Ok ((), p)))"
      by (rule good_bind [OF good_expect [OF Cons.prems(2)]]) simp
    then show ?thesis using True by simp
  next
    case False
    have "good p (\<lambda>_. True) (obind (json_expect c p) (\<lambda>(_, p). expect_literal cs p))"
      by (rule good_bind [OF good_expect [OF Cons.prems(2)]]) (simp, rule good_later [OF Cons.IH [OF False]], simp_all)
    then show ?thesis by simp
  qed
qed simp

section \<open>Escapes\<close>

lemma encode_utf8_char:
  assumes n: "n < 65536" and s: "\<not> (0xD800 \<le> n \<and> n < 0xE000)"
  shows "is_char (encode_utf8 n)"
proof -
  have c: "is_cont (of_nat (0x80 + m mod 64))" for m
    by (simp add: is_cont_def unat_of_nat_u8 del: of_nat_add)
  have u: "unat (of_nat (0x80 + m mod 64) :: u8) = 0x80 + m mod 64" for m
    by (simp add: unat_of_nat_u8 del: of_nat_add)
  consider "n < 0x80" | "0x80 \<le> n" "n < 0x800" | "0x800 \<le> n" by linarith
  then show ?thesis
  proof cases
    case 1
    then show ?thesis by (simp add: encode_utf8_def ascii_char unat_of_nat_u8)
  next
    case 2
    then have d: "2 \<le> n div 64" "n div 64 < 32" by linarith+
    then have "unat (of_nat (0xC0 + n div 64) :: u8) = 0xC0 + n div 64" by (simp add: unat_of_nat_u8 del: of_nat_add)
    then show ?thesis using 2 d c [of n]
      by (simp add: encode_utf8_def is_char_def utf8_step_def byte_or_zero_def utf8_width_def Let_def del: of_nat_add)
  next
    case 3
    then have d: "n div 4096 < 16" using n by linarith
    then have w: "unat (of_nat (0xE0 + n div 4096) :: u8) = 0xE0 + n div 4096" by (simp add: unat_of_nat_u8 del: of_nat_add)
    have q: "64 * (n div 4096) + n div 64 mod 64 = n div 64"
      using mult_div_mod_eq [of 64 "n div 64"] by (simp add: div_mult2_eq [symmetric])
    have low: "32 \<le> n div 64 mod 64" if "n div 4096 = 0"
    proof -
      have "32 \<le> n div 64" using 3 by linarith
      then show ?thesis using q that by simp
    qed
    have high: "n div 64 mod 64 < 32" if "n div 4096 = 13"
    proof -
      have "53248 \<le> n" "n < 57344" using that by linarith+
      then have "n div 64 < 864" using s by linarith
      then show ?thesis using q that by simp
    qed
    have "second_ok (of_nat (0xE0 + n div 4096)) (of_nat (0x80 + n div 64 mod 64))"
      using low high c [of "n div 64"] d unfolding second_ok_def w u Let_def by auto
    then show ?thesis using 3 d w c [of n]
      by (simp add: encode_utf8_def is_char_def utf8_step_def byte_or_zero_def utf8_width_def Let_def del: of_nat_add)
  qed
qed

lemma hex_value_less: "hex_value b = Some d \<Longrightarrow> d < 16 \<and> unat b < 128"
  by (auto simp: hex_value_def Let_def split: if_splits)

lemma hex_digits_less: "hex_digits bs acc = Some n \<Longrightarrow> n < (acc + 1) * 16 ^ length bs \<and> list_all (\<lambda>b. unat b < 128) bs"
proof (induction bs arbitrary: acc)
  case (Cons b bs)
  obtain d where d: "hex_value b = Some d" "hex_digits bs (16 * acc + d) = Some n"
    using Cons.prems by (auto split: option.splits)
  note less = hex_value_less [OF d(1)]
  have "16 * acc + d + 1 \<le> (acc + 1) * 16" using less by simp
  then have le: "(16 * acc + d + 1) * 16 ^ length bs \<le> (acc + 1) * 16 * 16 ^ length bs" by (rule mult_right_mono) simp
  have "n < (16 * acc + d + 1) * 16 ^ length bs" using Cons.IH [OF d(2)] by simp
  also note le
  also have "(acc + 1) * 16 * 16 ^ length bs = (acc + 1) * 16 ^ length (b # bs)" by (simp only: list.size power_Suc mult.assoc add_0_right power_add) simp
  finally show ?case using Cons.IH [OF d(2)] less by simp
qed simp

lemma ascii_chars_length:
  "list_all is_char cs \<Longrightarrow> list_all (\<lambda>b. unat b < 128) (concat cs) \<Longrightarrow> length (concat cs) = length cs"
proof (induction cs)
  case (Cons c cs)
  then obtain b bs where c: "c = b # bs" "unat b < 128" by (cases c) (auto simp: is_char_def)
  then have "length c = 1" using Cons.prems(1) by (simp add: is_char_def utf8_step_def byte_or_zero_def utf8_width_def Let_def)
  then show ?case using Cons by simp
qed simp

lemma u32_from_hex_less:
  assumes u: "u32_from_hex (concat cs) = Some n" and c: "list_all is_char cs" "length cs = 4"
  shows "n < 65536"
proof -
  obtain b r where r: "concat cs = b # r" using u by (cases "concat cs") (simp_all add: u32_from_hex_def)
  have "list_all (\<lambda>b. unat b < 128) (concat cs) \<and> n < 16 ^ length (concat cs)"
  proof (cases "b = 43")
    case True
    then have "hex_digits r 0 = Some n" using u r by (auto simp: u32_from_hex_def split: if_splits)
    from hex_digits_less [OF this] have "list_all (\<lambda>b. unat b < 128) r" "n < 16 ^ length r" by simp_all
    then show ?thesis using r True by simp
  next
    case False
    then have "hex_digits (concat cs) 0 = Some n" using u r by (simp add: u32_from_hex_def)
    from hex_digits_less [OF this] show ?thesis by simp
  qed
  moreover then have "length (concat cs) = 4" using ascii_chars_length [OF c(1)] c(2) by simp
  ultimately show ?thesis by simp
qed

lemma char_valid: "is_char c \<Longrightarrow> utf8_valid c"
  using chars_concat [of "[c]"] by simp

lemma good_unicode:
  assumes "js_ok p"
  shows "good p utf8_valid (parse_unicode_escape p)"
proof -
  have "js_ok (p\<lparr> js_chars := drop 4 (js_chars p) \<rparr>)" using assms by (auto simp: js_ok_def list_all_iff dest: in_set_dropD)
  moreover have "is_char (encode_utf8 n)"
    if "4 \<le> js_left p" "u32_from_hex (concat (take 4 (js_chars p))) = Some n" "\<not> (0xD800 \<le> n \<and> n < 0xE000)" for n
    using that assms u32_from_hex_less [of "take 4 (js_chars p)" n] encode_utf8_char [of n]
    by (auto simp: js_ok_def list_all_iff dest: in_set_takeD)
  ultimately show ?thesis
    by (auto simp: parse_unicode_escape_def Let_def char_valid split: option.splits)
qed

lemma good_string_loop: "js_ok p \<Longrightarrow> utf8_valid s \<Longrightarrow> good p utf8_valid (string_loop s p)"
proof (induction s p rule: string_loop.induct)
  case (1 s p)
  show ?case
  proof (cases "fst (json_next p)")
    case None
    then show ?thesis by (cases "json_next p") (simp add: string_loop.simps [of s p])
  next
    case (Some c)
    then obtain p1 where c: "json_next p = (Some c, p1)" by (cases "json_next p") simp
    note f = next_facts [OF "1.prems"(1) c]
    note IH = "1.IH" [OF c [symmetric] refl]
    consider "c = [34]" | "c \<noteq> [34]" "c \<noteq> [92]" | "c \<noteq> [34]" "c = [92]" by blast
    then show ?thesis
    proof cases
      case 1
      then show ?thesis using f c "1.prems" by (simp add: string_loop.simps [of s p])
    next
      case 2
      have "utf8_valid (s @ c)" using valid_append "1.prems"(2) char_valid f by blast
      then have "good p1 utf8_valid (string_loop (s @ c) p1)" using IH(3) 2 f by blast
      from good_later [OF this, of p] show ?thesis using f 2 c by (simp add: string_loop.simps [of s p])
    next
      case 3
      show ?thesis
      proof (cases "fst (json_next p1)")
        case None
        then show ?thesis using 3 c by (cases "json_next p1") (simp add: string_loop.simps [of s p])
      next
        case (Some e)
        then obtain p2 where e: "json_next p1 = (Some e, p2)" by (cases "json_next p1") simp
        note f2 = next_facts [OF conjunct1 [OF conjunct2 [OF f]] e]
        note IHs = IH(1) [OF 3 e [symmetric] refl] IH(2) [OF 3 e [symmetric] refl]
        have "good p2 utf8_valid (if e = [117] then obind (parse_unicode_escape p2) (\<lambda>(u, p3). string_loop (s @ u) p3)
            else case simple_escape e of Some x \<Rightarrow> string_loop (s @ x) p2 | None \<Rightarrow> Err (JInvalidEscape (Some e)))"
        proof (cases "e = [117]")
          case True
          have "good p2 utf8_valid (obind (parse_unicode_escape p2) (\<lambda>(u, p3). string_loop (s @ u) p3))"
          proof (cases "parse_unicode_escape p2")
            case (Ok r)
            obtain u q where r: "r = (u, q)" by fastforce
            have f3: "utf8_valid u" "js_depth q = js_depth p2" "js_ok q" "js_left q < js_left p2"
              using good_unicode [of p2] f2 Ok r by simp_all
            have "good q utf8_valid (string_loop (s @ u) q)"
              by (rule IHs(1) [OF True Ok r [symmetric]]) (use f3 valid_append [OF "1.prems"(2)] r in simp_all)
            then show ?thesis using Ok r f3 by (simp add: good_later)
          qed (use good_unicode [of p2] f2 in simp_all)
          then show ?thesis using True by simp
        next
          case False
          have "utf8_valid x" if "simple_escape e = Some x" for x
            using that by (auto simp: simple_escape_def char_valid ascii_char split: if_splits)
          then show ?thesis using False IHs(2) [OF False] f2 valid_append [OF "1.prems"(2)]
            by (auto split: option.splits)
        qed
        from good_later [OF this, of p] show ?thesis using f f2 3 c e by (simp add: string_loop.simps [of s p])
      qed
    qed
  qed
qed

lemma good_string:
  assumes "js_ok p"
  shows "good p utf8_valid (parse_string p)"
  unfolding parse_string_def
proof (rule good_bind [OF good_expect [OF assms]], goal_cases)
  case (1 u q)
  have "good q utf8_valid (string_loop [] q)" by (rule good_string_loop) (simp_all add: 1)
  from good_later [OF this, of p] 1 show ?case by simp
qed

section \<open>Numbers\<close>

definition js_suffix :: "json_parser \<Rightarrow> json_parser \<Rightarrow> bool" where
  "js_suffix p q \<longleftrightarrow> js_depth q = js_depth p \<and> (\<exists>as. js_chars p = as @ js_chars q)"

lemma js_suffix_refl: "js_suffix p p"
  by (simp add: js_suffix_def)

lemma js_suffix_trans: "js_suffix p q \<Longrightarrow> js_suffix q r \<Longrightarrow> js_suffix p r"
  by (auto simp: js_suffix_def)

lemma js_suffix_facts: "js_suffix p q \<Longrightarrow> js_depth q = js_depth p \<and> (js_ok p \<longrightarrow> js_ok q) \<and> js_left q \<le> js_left p"
  by (auto simp: js_suffix_def js_ok_def)

lemma take_if_suffix: "take_if P p = (c, q) \<Longrightarrow> js_suffix p q"
  by (auto simp: take_if_def js_suffix_def split: list.splits if_splits)

lemma take_if_shorter: "take_if P p = (c, q) \<Longrightarrow> json_peek p = Some d \<Longrightarrow> P d \<Longrightarrow> js_left q < js_left p"
  by (auto simp: take_if_def json_peek_def split: list.splits if_splits)

lemma take_digits_suffix: "take_digits p = (c, q) \<Longrightarrow> js_suffix p q"
proof -
  have "js_chars p = takeWhile is_ascii_digit (js_chars p) @ dropWhile is_ascii_digit (js_chars p)" by simp
  then show "take_digits p = (c, q) \<Longrightarrow> js_suffix p q" by (auto simp: take_digits_def js_suffix_def simp del: takeWhile_dropWhile_id)
qed

lemma take_digits_shorter: "take_digits p = (c, q) \<Longrightarrow> json_peek p = Some d \<Longrightarrow> is_ascii_digit d \<Longrightarrow> js_left q < js_left p"
  by (auto simp: take_digits_def json_peek_def le_imp_less_Suc length_dropWhile_le split: list.splits)

lemma good_number:
  assumes ok: "js_ok p" and c: "json_peek p = Some c" "c = [45] \<or> is_ascii_digit c"
  shows "good p (json_type d) (parse_number p)"
proof -
  obtain sg p1 where 1: "take_if (\<lambda>c. c = [45]) p = (sg, p1)" by fastforce
  obtain ip p2 where 2: "take_digits p1 = (ip, p2)" by fastforce
  obtain dot p3 where 3: "take_if (\<lambda>c. c = [46]) p2 = (dot, p3)" by fastforce
  obtain fp p4 where 4: "(if dot = [] then ([], p3) else take_digits p3) = (fp, p4)" by fastforce
  obtain ex p5 where 5: "take_if (\<lambda>c. c = [101] \<or> c = [69]) p4 = (ex, p5)" by fastforce
  obtain es p6 where 6: "(if ex = [] then ([], p5) else take_if (\<lambda>c. c = [43] \<or> c = [45]) p5) = (es, p6)" by fastforce
  obtain ed p7 where 7: "(if ex = [] then ([], p6) else take_digits p6) = (ed, p7)" by fastforce
  have "js_left p2 < js_left p"
  proof (cases "c = [45]")
    case True
    then have "js_left p1 < js_left p" using take_if_shorter [OF 1 c(1)] by simp
    then show ?thesis using js_suffix_facts [OF take_digits_suffix [OF 2]] by simp
  next
    case False
    then have "p1 = p" using 1 c(1) by (auto simp: take_if_def json_peek_def split: list.splits)
    then show ?thesis using take_digits_shorter [OF 2] c False by simp
  qed
  moreover have "js_suffix p p2" using take_if_suffix [OF 1] take_digits_suffix [OF 2] js_suffix_trans by blast
  moreover have "js_suffix p2 p7"
  proof -
    have "js_suffix p3 p4" using 4 take_digits_suffix [of p3 fp p4] js_suffix_refl by (auto split: if_splits)
    moreover have "js_suffix p5 p6" using 6 take_if_suffix [of _ p5 es p6] js_suffix_refl by (auto split: if_splits)
    moreover have "js_suffix p6 p7" using 7 take_digits_suffix [of p6 ed p7] js_suffix_refl by (auto split: if_splits)
    ultimately show ?thesis using take_if_suffix [OF 3] take_if_suffix [OF 5] js_suffix_trans by metis
  qed
  ultimately have q: "js_depth p7 = js_depth p" "js_ok p7" "js_left p7 < js_left p"
    using js_suffix_facts [of p p2] js_suffix_facts [of p2 p7] ok by auto
  have "parse_number p =
      (case parse_signed_f64 (sg @ ip @ dot @ fp @ ex @ es @ ed) of
         Some n \<Rightarrow> Ok (JNumber n, p7) | None \<Rightarrow> Err (JInvalidNumber (sg @ ip @ dot @ fp @ ex @ es @ ed)))"
    by (simp only: parse_number_def Let_def 1 2 3 4 5 6 7 prod.case)
  then show ?thesis using q parse_signed_f64_type by (auto split: option.splits)
qed

section \<open>Values\<close>

lemma good_nesting:
  assumes "js_depth p < 64 \<Longrightarrow> good (p\<lparr> js_depth := js_depth p + 1 \<rparr>) V (f (p\<lparr> js_depth := js_depth p + 1 \<rparr>))"
  shows "good p V (with_nesting f p)"
proof (cases "js_depth p < 64")
  case True
  then show ?thesis using assms
    by (cases "f (p\<lparr> js_depth := js_depth p + 1 \<rparr>)") (auto simp: with_nesting_def MAX_NESTING_DEPTH_def js_ok_def)
qed (simp add: with_nesting_def MAX_NESTING_DEPTH_def)

text \<open>The five functions at one value of the fuel; three units per character are enough.\<close>

definition total_at :: "nat \<Rightarrow> bool" where
  "total_at n \<longleftrightarrow>
     (\<forall>p. js_ok p \<longrightarrow> js_depth p \<le> 64 \<longrightarrow>
        (3 * js_left p + 3 \<le> n \<longrightarrow> good p (json_type (64 - js_depth p)) (parse_value n p)) \<and>
        (3 * js_left p + 2 \<le> n \<longrightarrow> good p (json_type (64 - js_depth p)) (parse_object n p)) \<and>
        (3 * js_left p + 2 \<le> n \<longrightarrow> good p (json_type (64 - js_depth p)) (parse_array n p)) \<and>
        (\<forall>es. 3 * js_left p + 4 \<le> n \<longrightarrow> json_type (65 - js_depth p) (JObject es) \<longrightarrow>
           good p (json_type (65 - js_depth p)) (object_loop n es p)) \<and>
        (\<forall>vs. 3 * js_left p + 4 \<le> n \<longrightarrow> json_type (65 - js_depth p) (JArray vs) \<longrightarrow>
           good p (json_type (65 - js_depth p)) (array_loop n vs p)))"

lemma total_value:
  assumes IH: "total_at n" and p: "js_ok p" "js_depth p \<le> 64" "3 * js_left p + 3 \<le> Suc n"
  shows "good p (json_type (64 - js_depth p)) (parse_value (Suc n) p)"
proof -
  let ?q = "json_skip p"
  have q: "js_ok ?q" "js_depth ?q \<le> 64" "3 * js_left ?q + 2 \<le> n"
    using p skip_facts(2) [of p] by (simp, simp, linarith)
  note sub = IH [unfolded total_at_def, rule_format, OF q(1,2)]
  have "good ?q (json_type (64 - js_depth p)) (parse_value (Suc n) p)"
  proof (cases "json_peek ?q")
    case (Some c)
    have "good ?q (json_type d) (omap (\<lambda>(s, p). (JString s, p)) (parse_string ?q))" for d
      by (rule good_map [OF good_string [OF q(1)]]) simp
    moreover have "good ?q (json_type d) (omap (\<lambda>(_, p). (v, p)) (expect_literal (l # ls) ?q))" if "json_type d v" for d l ls v
      by (rule good_map [OF good_literal [OF _ q(1)], where f = "\<lambda>_. v"]) (simp_all add: that)
    moreover note good_number [OF q(1) Some] sub
    ultimately show ?thesis using q(3) by (simp add: Some Let_def del: expect_literal.simps)
  qed (simp add: Let_def)
  from good_later [OF this] show ?thesis by simp
qed


text \<open>The end of a round of the two loops.\<close>

lemma good_separator:
  assumes p: "js_ok p" and V: "V v" and e: "\<And>c. f c \<noteq> JOutOfFuel"
    and again: "\<And>q. js_ok q \<Longrightarrow> js_depth q = js_depth p \<Longrightarrow> js_left q < js_left p \<Longrightarrow> good q V (again q)"
  shows "good p V (let (c, p) = json_next (json_skip p) in
    if c = Some [44] then again p else if c = Some [b] then Ok (v, p) else Err (f c))"
proof -
  obtain c q where c: "json_next (json_skip p) = (c, q)" by fastforce
  show ?thesis
  proof (cases c)
    case (Some a)
    note n = next_facts [OF js_ok_skip [OF p] c [unfolded Some]]
    then have q: "js_ok q" "js_depth q = js_depth p" "js_left q < js_left p" using skip_facts(2) [of p] by - (simp, simp, linarith)
    then have "good p V (again q)" using good_later [OF again] by simp
    then show ?thesis using q V e by (simp add: c)
  qed (simp add: c e)
qed

lemma total_object_loop:
  assumes IH: "total_at n" and p: "js_ok p" "js_depth p \<le> 64" "3 * js_left p + 4 \<le> Suc n"
    and es: "json_type (65 - js_depth p) (JObject es)"
  shows "good p (json_type (65 - js_depth p)) (object_loop (Suc n) es p)"
proof -
  let ?d = "js_depth p"
  have "good (json_skip p) (json_type (65 - ?d)) (object_loop (Suc n) es p)"
    unfolding object_loop.simps
  proof (rule good_bind [OF good_string], goal_cases)
    case (2 key p1)
    have s: "good (json_skip p1) (\<lambda>_. True) (json_expect [58] (json_skip p1))" by (rule good_expect) (simp add: 2)
    have "good (json_skip p1) (json_type (65 - ?d)) (obind (json_expect [58] (json_skip p1)) (\<lambda>(_, p).
        obind (parse_value n p) (\<lambda>(v, p). let es = es @ [(key, v)]; (c, p) = json_next (json_skip p) in
          if c = Some [44] then object_loop n es p else if c = Some [125] then Ok (JObject es, p)
          else Err (JExpectedCommaOr [125] c))))"
    proof (rule good_bind [OF s], goal_cases)
      case (1 u p2)
      have l: "3 * js_left p2 + 6 \<le> 3 * js_left p" using 1(4) 2(4) skip_facts(2) [of p] skip_facts(2) [of p1] by linarith
      have p2: "js_ok p2" "js_depth p2 = ?d" using 1 2 by simp_all
      have "good p2 (json_type (64 - ?d)) (parse_value n p2)"
        using IH [unfolded total_at_def, rule_format, of p2] p2 l p by simp
      then have "good p2 (json_type (65 - ?d)) (obind (parse_value n p2) (\<lambda>(v, p). let es = es @ [(key, v)]; (c, p) = json_next (json_skip p) in
          if c = Some [44] then object_loop n es p else if c = Some [125] then Ok (JObject es, p)
          else Err (JExpectedCommaOr [125] c)))"
      proof (rule good_bind, goal_cases)
        case (1 v p3)
        have es': "json_type (65 - ?d) (JObject (es @ [(key, v)]))" using es 1(1) 2(1) p(2) by auto
        have p3: "3 * js_left p3 + 4 \<le> n" using 1(4) l p(3) by linarith
        have "good p3 (json_type (65 - ?d)) (let (c, p) = json_next (json_skip p3) in
            if c = Some [44] then object_loop n (es @ [(key, v)]) p else if c = Some [125] then Ok (JObject (es @ [(key, v)]), p)
            else Err (JExpectedCommaOr [125] c))"
        proof (rule good_separator [OF 1(3)], goal_cases)
          case (3 q)
          then show ?case using IH [unfolded total_at_def, rule_format, of q] es' p3 p 1(2) p2(2) by simp
        qed (use es' in simp_all)
        from good_later [OF this] show ?case using 1 by (simp add: Let_def)
      qed
      from good_later [OF this] show ?case using 1 by simp
    qed
    from good_later [OF this, of "json_skip p"] show ?case using 2 skip_facts(2) [of p1] by simp
  qed (simp add: p)
  from good_later [OF this] show ?thesis by simp
qed

lemma total_array_loop:
  assumes IH: "total_at n" and p: "js_ok p" "js_depth p \<le> 64" "3 * js_left p + 4 \<le> Suc n"
    and vs: "json_type (65 - js_depth p) (JArray vs)"
  shows "good p (json_type (65 - js_depth p)) (array_loop (Suc n) vs p)"
proof -
  let ?d = "js_depth p"
  have "good p (json_type (64 - ?d)) (parse_value n p)"
    using IH [unfolded total_at_def, rule_format, of p] p by simp
  then show ?thesis
    unfolding array_loop.simps
  proof (rule good_bind, goal_cases)
    case (1 v q)
    have vs': "json_type (65 - ?d) (JArray (vs @ [v]))" using vs 1(1) p(2) by auto
    have q: "3 * js_left q + 4 \<le> n" using 1 p by linarith
    have "good q (json_type (65 - ?d)) (let (c, p) = json_next (json_skip q) in
        if c = Some [44] then array_loop n (vs @ [v]) p else if c = Some [93] then Ok (JArray (vs @ [v]), p)
        else Err (JExpectedCommaOr [93] c))"
    proof (rule good_separator [OF 1(3)], goal_cases)
      case (3 r)
      then show ?case using IH [unfolded total_at_def, rule_format, of r] vs' q p 1(2) by simp
    qed (use vs' in simp_all)
    from good_later [OF this] show ?case using 1 by (simp add: Let_def)
  qed
qed

text \<open>Arrays and objects share the shape of their parser.\<close>

lemma good_bracket:
  assumes p: "js_ok p" "js_depth p \<le> 64" and none: "js_depth p < 64 \<Longrightarrow> json_type (64 - js_depth p) none"
    and loop: "\<And>q. js_ok q \<Longrightarrow> js_depth q = Suc (js_depth p) \<Longrightarrow> js_left q < js_left p \<Longrightarrow> js_depth p < 64 \<Longrightarrow>
      good q (json_type (64 - js_depth p)) (loop q)"
  shows "good p (json_type (64 - js_depth p)) (with_nesting (\<lambda>p.
    obind (json_expect a p) (\<lambda>(_, p). let p = json_skip p in
      if json_peek p = Some b then Ok (none, snd (json_next p)) else loop p)) p)"
proof (rule good_nesting)
  let ?p = "p\<lparr> js_depth := js_depth p + 1 \<rparr>"
  assume d: "js_depth p < 64"
  have ok: "js_ok ?p" using p(1) by (simp add: js_ok_def)
  show "good ?p (json_type (64 - js_depth p)) (obind (json_expect a ?p) (\<lambda>(_, p). let p = json_skip p in
      if json_peek p = Some b then Ok (none, snd (json_next p)) else loop p))"
  proof (rule good_bind [OF good_expect [OF ok]], goal_cases)
    case (1 u q)
    have q: "js_ok (json_skip q)" "js_depth (json_skip q) = Suc (js_depth p)" "js_left (json_skip q) < js_left p"
      using 1 le_less_trans [OF skip_facts(2) [of q]] by simp_all
    show ?case
    proof (cases "json_peek (json_skip q) = Some b")
      case True
      then have "json_next (json_skip q) = (Some b, snd (json_next (json_skip q)))" by (simp add: json_next_def)
      from next_facts [OF q(1) this] show ?thesis using True none [OF d] q by (simp add: Let_def)
    next
      case False
      then show ?thesis using good_later [OF loop [OF q d]] q by (simp add: Let_def)
    qed
  qed
qed

lemma total: "total_at n"
proof (induction n)
  case 0
  then show ?case by (simp add: total_at_def)
next
  case (Suc n)
  show ?case
    unfolding total_at_def
  proof (intro allI impI conjI)
    fix p :: json_parser
    assume p: "js_ok p" "js_depth p \<le> 64"
    note at = Suc [unfolded total_at_def, rule_format]
    show "good p (json_type (64 - js_depth p)) (parse_value (Suc n) p)" if "3 * js_left p + 3 \<le> Suc n"
      by (rule total_value [OF Suc p that])
    show "good p (json_type (64 - js_depth p)) (parse_object (Suc n) p)" if "3 * js_left p + 2 \<le> Suc n"
      unfolding parse_object.simps
    proof (rule good_bracket [OF p], goal_cases)
      case (2 q)
      then show ?case using at [of q] that by simp
    qed simp
    show "good p (json_type (64 - js_depth p)) (parse_array (Suc n) p)" if "3 * js_left p + 2 \<le> Suc n"
      unfolding parse_array.simps
    proof (rule good_bracket [OF p], goal_cases)
      case (2 q)
      then show ?case using at [of q] that by simp
    qed simp
    show "good p (json_type (65 - js_depth p)) (object_loop (Suc n) es p)"
      if "3 * js_left p + 4 \<le> Suc n" "json_type (65 - js_depth p) (JObject es)" for es
      by (rule total_object_loop [OF Suc p that])
    show "good p (json_type (65 - js_depth p)) (array_loop (Suc n) vs p)"
      if "3 * js_left p + 4 \<le> Suc n" "json_type (65 - js_depth p) (JArray vs)" for vs
      by (rule total_array_loop [OF Suc p that])
  qed
qed

lemma json_parse_result:
  assumes "utf8_valid src"
  shows "json_parse src \<noteq> Panic \<and> json_parse src \<noteq> Err JOutOfFuel \<and> (\<forall>v. json_parse src = Ok v \<longrightarrow> json_type 64 v)"
proof -
  let ?p = "json_skip \<lparr> js_chars = chars src, js_depth = 0 \<rparr>"
  have p: "js_ok ?p" using chars_chars [OF assms] by (intro js_ok_skip) (simp add: js_ok_def list_all_iff)
  have "3 * js_left ?p + 3 \<le> json_fuel (chars src)"
    using skip_facts(2) [of "\<lparr> js_chars = chars src, js_depth = 0 \<rparr>"] by (simp add: json_fuel_def)
  then have g: "good ?p (json_type 64) (parse_value (json_fuel (chars src)) ?p)"
    using total [of "json_fuel (chars src)", unfolded total_at_def, rule_format, OF p] by simp
  show ?thesis
  proof (cases "parse_value (json_fuel (chars src)) ?p")
    case (Ok r)
    then show ?thesis using g by (cases r) (simp add: json_parse_def Let_def)
  next
    case (Err e)
    then show ?thesis using g by (simp add: json_parse_def Let_def)
  next
    case Panic
    then show ?thesis using g by simp
  qed
qed

end
