(* ===== verification/Gems_Json_Text.thy ===== *)
theory Gems_Json_Text
  imports Gems_Json_Total
begin

text \<open>
  JSON round trips: a value written as text is parsed back, escapes and numbers included. The two zeros of
  \<^verbatim>\<open>f64\<close>, which compare as equal, are both written as \<^verbatim>\<open>0\<close>.
\<close>

section \<open>Strings\<close>

abbreviation js_at :: "bytes list \<Rightarrow> nat \<Rightarrow> json_parser" where
  "js_at cs d \<equiv> \<lparr> js_chars = cs, js_depth = d \<rparr>"

lemma json_next_at [simp]: "json_next (js_at (c # cs) d) = (Some c, js_at cs d)"
  by (simp add: json_next_def json_peek_def)

lemma json_peek_at [simp]: "json_peek (js_at (c # cs) d) = Some c"
  by (simp add: json_peek_def)

lemma json_expect_at [simp]: "json_expect c (js_at (c # cs) d) = Ok ((), js_at cs d)"
  by (simp add: json_expect_def)

lemma json_skip_at [simp]: "\<not> is_whitespace c \<Longrightarrow> json_skip (js_at (c # cs) d) = js_at (c # cs) d"
  by (simp add: json_skip_def)

lemma chars_single: "is_char c \<Longrightarrow> chars c = [c]"
  using chars_char [of c "[]"] by simp

lemma write_char_cases:
  obtains (quote) "c = [34]" "write_char c = [92, 34]" | (backslash) "c = [92]" "write_char c = [92, 92]"
    | (newline) "c = [10]" "write_char c = [92, 110]" | (return) "c = [13]" "write_char c = [92, 114]"
    | (tab) "c = [9]" "write_char c = [92, 116]"
    | (control) b where "c = [b]" "unat b < 32" "write_char c = [92, 117, 48, 48] @ hex2 b"
    | (plain) "c \<noteq> [34]" "c \<noteq> [92]" "write_char c = c"
proof (cases "\<exists>b. c = [b]")
  case True
  then obtain b where b: "c = [b]" ..
  consider "b = 34" | "b = 92" | "b = 10" | "b = 13" | "b = 9"
    | "b \<noteq> 34" "b \<noteq> 92" "b \<noteq> 10" "b \<noteq> 13" "b \<noteq> 9" by blast
  then show ?thesis
  proof cases
    case 6
    show ?thesis
    proof (cases "unat b < 32")
      case True
      with 6 b show ?thesis by (intro that(6) [of b]) (simp_all add: write_char_def)
    next
      case False
      with 6 b show ?thesis by (intro that(7)) (simp_all add: write_char_def)
    qed
  qed (use b that in \<open>simp_all add: write_char_def\<close>)
next
  case False
  then have "write_char c = c" by (auto simp: write_char_def split: list.splits)
  then show ?thesis using that(7) False by blast
qed

lemma hex2_bytes: "\<exists>x y. hex2 b = [x, y] \<and> unat x < 128 \<and> unat y < 128 \<and> u32_from_hex [48, 48, x, y] = Some (unat b)"
proof -
  have h: "unat b div 16 < 16" "unat b mod 16 < 16" using unat_u8_less [of b] by auto
  have "hex_value 48 = Some 0" by (simp add: hex_value_def)
  then have "u32_from_hex [48, 48, hex_char (unat b div 16), hex_char (unat b mod 16)] = Some (unat b)"
    using h by (simp add: u32_from_hex_def hex_value_hex_char)
  then show ?thesis using hex_char_ascii [OF h(1)] hex_char_ascii [OF h(2)] by (simp add: hex2_def)
qed

lemma write_char_valid: "is_char c \<Longrightarrow> utf8_valid (write_char c)"
proof (cases c rule: write_char_cases)
  case (control b)
  then show ?thesis using hex2_bytes [of b] by (auto simp: valid_ascii)
qed (simp_all add: valid_ascii char_valid)

lemma string_loop_at:
  "string_loop s (js_at (c # cs) d) =
     (if c = [34] then Ok (s, js_at cs d)
      else if c = [92] then
        (case cs of
           [] \<Rightarrow> Err (JInvalidEscape None)
         | e # cs \<Rightarrow>
             if e = [117] then obind (parse_unicode_escape (js_at cs d)) (\<lambda>(u, p3). string_loop (s @ u) p3)
             else (case simple_escape e of
                     Some x \<Rightarrow> string_loop (s @ x) (js_at cs d)
                   | None \<Rightarrow> Err (JInvalidEscape (Some e))))
      else string_loop (s @ c) (js_at cs d))"
  by (cases cs) (subst string_loop.simps, simp add: json_next_def json_peek_def)+

lemma string_loop_char:
  assumes "is_char c"
  shows "string_loop s (js_at (chars (write_char c) @ rest) d) = string_loop (s @ c) (js_at rest d)"
proof (cases c rule: write_char_cases)
  case (control b)
  obtain x y where h: "hex2 b = [x, y]" "unat x < 128" "unat y < 128" "u32_from_hex [48, 48, x, y] = Some (unat b)"
    using hex2_bytes by blast
  have "encode_utf8 (unat b) = [b]" using control(2) by (simp add: encode_utf8_def)
  then have "parse_unicode_escape (js_at ([48] # [48] # [x] # [y] # rest) d) = Ok ([b], js_at rest d)"
    using h(4) control(2) by (simp add: parse_unicode_escape_def Let_def)
  then show ?thesis using h control by (simp add: chars_ascii string_loop_at)
next
  case plain
  then show ?thesis using chars_single [OF assms] by (simp add: string_loop_at)
qed (simp_all add: chars_ascii string_loop_at simple_escape_def)

lemma string_loop_chars:
  "list_all is_char cs \<Longrightarrow>
     string_loop s (js_at (concat (map (\<lambda>c. chars (write_char c)) cs) @ [34] # rest) d) = Ok (s @ concat cs, js_at rest d)"
proof (induction cs arbitrary: s)
  case Nil
  then show ?case by (simp add: string_loop_at)
next
  case (Cons c cs)
  then show ?case using string_loop_char [of c s] by simp
qed

lemma concat_valid: "list_all is_char cs \<Longrightarrow> utf8_valid (concat (map write_char cs)) \<and>
    chars (concat (map write_char cs)) = concat (map (\<lambda>c. chars (write_char c)) cs)"
  by (induction cs) (simp_all add: valid_append chars_append write_char_valid)

lemma string_text:
  assumes "utf8_valid s"
  shows "utf8_valid (write_json_string s)"
    and "chars (write_json_string s) = [34] # concat (map (\<lambda>c. chars (write_char c)) (chars s)) @ [[34]]"
proof -
  have c: "list_all is_char (chars s)" using chars_chars [OF assms] by (simp add: list_all_iff)
  show "utf8_valid (write_json_string s)"
    using concat_valid [OF c] by (simp add: write_json_string_def valid_append valid_ascii)
  show "chars (write_json_string s) = [34] # concat (map (\<lambda>c. chars (write_char c)) (chars s)) @ [[34]]"
    using concat_valid [OF c] by (simp add: write_json_string_def chars_append chars_ascii)
qed

lemma parse_string_text:
  assumes "utf8_valid s"
  shows "parse_string (js_at (chars (write_json_string s) @ rest) d) = Ok (s, js_at rest d)"
proof -
  have "list_all is_char (chars s)" using chars_chars [OF assms] by (simp add: list_all_iff)
  from string_loop_chars [OF this, of "[]"] show ?thesis by (simp add: parse_string_def string_text [OF assms])
qed

section \<open>Numbers\<close>

text \<open>What can follow a value.\<close>

definition stops :: "bytes list \<Rightarrow> bool" where
  "stops rest \<longleftrightarrow> (case rest of [] \<Rightarrow> True | c # _ \<Rightarrow> c = [44] \<or> c = [93] \<or> c = [125])"

lemma take_digits_at:
  assumes "list_all digit_byte ds" and "rest = [] \<or> \<not> is_ascii_digit (hd rest)"
  shows "take_digits (js_at (map (\<lambda>b. [b]) ds @ rest) d) = (ds, js_at rest d)"
proof -
  have "takeWhile is_ascii_digit (map (\<lambda>b. [b]) ds @ rest) = map (\<lambda>b. [b]) ds \<and>
      dropWhile is_ascii_digit (map (\<lambda>b. [b]) ds @ rest) = rest"
    using assms by (induction ds) (cases rest; auto simp: is_ascii_digit_def digit_byte_def)+
  then show ?thesis by (simp add: take_digits_def)
qed

lemma take_if_at: "take_if P (js_at (c # cs) d) = (if P c then (c, js_at cs d) else ([], js_at (c # cs) d))"
  by (simp add: take_if_def)

lemma take_if_none: "cs = [] \<or> \<not> P (hd cs) \<Longrightarrow> take_if P (js_at cs d) = ([], js_at cs d)"
  by (cases cs) (simp_all add: take_if_def)

lemma decimal_bytes: "list_all (\<lambda>b. unat b < 128) (sign_text neg @ show_decimal (n, k))"
proof -
  have d: "list_all digit_byte ds \<Longrightarrow> list_all (\<lambda>b. unat b < 128) ds" for ds by (auto simp: list_all_iff digit_byte_def)
  show ?thesis
    using d [of "show_nat n"] d [of "show_nat (n div 10 ^ k)"] d [of "pad_digits k n"] show_nat_digits [of n] show_nat_digits [of "n div 10 ^ k"] pad_digits_facts [of k n]
    by (simp add: sign_text_def show_decimal_def)
qed

lemma parse_number_at:
  assumes "stops rest"
  shows "parse_number (js_at (chars (sign_text neg @ show_decimal (n, k)) @ rest) d) =
    Ok (JNumber (Signed neg (round_f64 n (10 ^ k))), js_at rest d)"
proof -
  define ip where "ip = show_nat (if k = 0 then n else n div 10 ^ k)"
  define fp where "fp = (if k = 0 then [] else pad_digits k n)"
  have body: "show_decimal (n, k) = ip @ (if k = 0 then [] else 46 # fp)" by (simp add: show_decimal_def ip_def fp_def)
  have ip: "list_all digit_byte ip" "ip \<noteq> []" and fp: "list_all digit_byte fp"
    using show_nat_digits pad_digits_facts [of k n] by (simp_all add: ip_def fp_def)
  let ?m = "map (\<lambda>b::u8. [b])"
  let ?tail = "if k = 0 then rest else [46] # ?m fp @ rest"
  obtain b bs where b: "ip = b # bs" "b \<noteq> 45" using show_nat_head [of "if k = 0 then n else n div 10 ^ k"] unfolding ip_def by blast
  have chars: "chars (sign_text neg @ show_decimal (n, k)) @ rest = ?m (sign_text neg) @ ?m ip @ ?tail"
    using chars_ascii_list [OF decimal_bytes [of neg n k]] by (simp add: body)
  have stop: "rest = [] \<or> \<not> is_ascii_digit (hd rest) \<and> hd rest \<noteq> [46] \<and> hd rest \<noteq> [101] \<and> hd rest \<noteq> [69]"
    using assms by (cases rest) (auto simp: stops_def is_ascii_digit_def)
  have none: "k = 0 \<Longrightarrow> fp = []" by (simp add: fp_def)
  have 1: "take_if (\<lambda>c. c = [45]) (js_at (?m (sign_text neg) @ ?m ip @ ?tail) d) = (sign_text neg, js_at (?m ip @ ?tail) d)"
    using b by (simp add: sign_text_def take_if_at)
  have 2: "take_digits (js_at (?m ip @ ?tail) d) = (ip, js_at ?tail d)"
    by (rule take_digits_at [OF ip(1)]) (use stop in \<open>auto simp: is_ascii_digit_def\<close>)
  have 3: "take_if (\<lambda>c. c = [46]) (js_at ?tail d) = (if k = 0 then ([], js_at rest d) else ([46], js_at (?m fp @ rest) d))"
    using stop take_if_none [of rest] by (auto simp: take_if_at)
  have 4: "take_digits (js_at (?m fp @ rest) d) = (fp, js_at rest d)"
    by (rule take_digits_at [OF fp]) (use stop in auto)
  have 5: "take_if (\<lambda>c. c = [101] \<or> c = [69]) (js_at rest d) = ([], js_at rest d)"
    using stop by (intro take_if_none) auto
  have raw: "sign_text neg @ ip @ (if k = 0 then [] else [46]) @ fp = sign_text neg @ show_decimal (n, k)"
    by (simp add: body fp_def)
  have "parse_number (js_at (?m (sign_text neg) @ ?m ip @ ?tail) d) =
      (case parse_signed_f64 (sign_text neg @ ip @ (if k = 0 then [] else [46]) @ fp) of
         Some n \<Rightarrow> Ok (JNumber n, js_at rest d) | None \<Rightarrow> Err (JInvalidNumber (sign_text neg @ ip @ (if k = 0 then [] else [46]) @ fp)))"
    unfolding parse_number_def Let_def 1 2 3 prod.case using 4 5 none by (cases "k = 0") (simp_all split: option.splits)
  then show ?thesis unfolding chars raw parse_show_decimal by simp
qed

lemma parse_number_text:
  assumes "number_ok n" and "stops rest"
  shows "parse_number (js_at (chars (write_number n) @ rest) d) = Ok (JNumber (plain_number n), js_at rest d)"
proof -
  obtain k m where w: "write_number n = sign_text (negative (plain_number n)) @ show_decimal (m, k)" "round_f64 m (10 ^ k) = magnitude n"
    using write_number_decimal [OF assms(1)] by blast
  have "plain_number n = Signed (negative (plain_number n)) (magnitude n)" by (cases n) (simp add: plain_number_def)
  then show ?thesis unfolding w(1) using parse_number_at [OF assms(2)] w(2) by simp
qed

section \<open>Values\<close>

fun plain :: "json \<Rightarrow> json" where
  "plain (JNumber n) = JNumber (plain_number n)"
| "plain (JArray vs) = JArray (map plain vs)"
| "plain (JObject es) = JObject (map (\<lambda>e. (fst e, plain (snd e))) es)"
| "plain v = v"

lemma literal_bytes:
  "ascii ''null'' = [110, 117, 108, 108]" "ascii ''true'' = [116, 114, 117, 101]" "ascii ''false'' = [102, 97, 108, 115, 101]"
  by code_simp+

lemma commas_valid: "\<forall>t\<in>set ts. utf8_valid t \<Longrightarrow> utf8_valid (commas ts)"
  by (induction ts rule: commas.induct) (simp_all add: valid_append valid_ascii)

lemma commas_Cons: "commas (t # ts) = t @ (if ts = [] then [] else 44 # commas ts)"
  by (cases ts) simp_all

abbreviation entry_text :: "bytes \<times> json \<Rightarrow> bytes" where
  "entry_text e \<equiv> write_json_string (fst e) @ [58] @ json_text (snd e)"

lemma number_text:
  assumes "number_ok n"
  shows "utf8_valid (write_number n)" and "\<exists>b cs. chars (write_number n) = [b] # cs \<and> (b = 45 \<or> digit_byte b)"
proof -
  obtain k m where w: "write_number n = sign_text (negative (plain_number n)) @ show_decimal (m, k)"
    using write_number_decimal [OF assms] by blast
  note b = chars_ascii_list [OF decimal_bytes [of "negative (plain_number n)" m k], folded w]
  show "utf8_valid (write_number n)" using b by simp
  show "\<exists>b cs. chars (write_number n) = [b] # cs \<and> (b = 45 \<or> digit_byte b)"
    using b show_nat_head [of m] show_nat_head [of "m div 10 ^ k"] by (auto simp: w sign_text_def show_decimal_def)
qed

lemma json_text_valid: "json_wf number_ok d v \<Longrightarrow> utf8_valid (json_text v)"
proof (induction v arbitrary: d rule: json_text.induct)
  case (5 items)
  then have "utf8_valid (commas (map json_text items))" by (intro commas_valid) auto
  then show ?case by (simp add: valid_append valid_ascii)
next
  case (6 es)
  have "utf8_valid (entry_text e)" if "e \<in> set es" for e
  proof -
    have "utf8_valid (fst e)" "utf8_valid (json_text (snd e))" using 6(1) [OF that, of "d - 1"] 6(2) that by simp_all
    then show ?thesis by (simp add: valid_append valid_ascii string_text)
  qed
  then have "utf8_valid (commas (map entry_text es))" by (intro commas_valid) auto
  then show ?case by (simp add: valid_append valid_ascii)
qed (simp_all add: string_text number_text valid_ascii literal_bytes)

text \<open>The first character says what kind of value follows.\<close>

lemma json_text_head:
  assumes "json_wf number_ok d v"
  shows "\<exists>c cs. chars (json_text v) = c # cs \<and> \<not> is_whitespace c \<and> c \<noteq> [93]"
proof (cases v)
  case (JNumber n)
  then show ?thesis using number_text(2) [of n] assms by (auto simp: is_whitespace_def digit_byte_def)
next
  case (JString s)
  then show ?thesis using string_text(2) [of s] assms by (simp add: is_whitespace_def)
qed (auto simp: chars_ascii is_whitespace_def literal_bytes)

text \<open>A value whose text is parsed back, whatever follows it.\<close>

definition parses_back :: "nat \<Rightarrow> json \<Rightarrow> bool" where
  "parses_back d v \<longleftrightarrow> utf8_valid (json_text v) \<and>
     (\<exists>c cs. chars (json_text v) = c # cs \<and> \<not> is_whitespace c \<and> c \<noteq> [93]) \<and>
     (\<forall>rest n. stops rest \<longrightarrow> 3 * length (chars (json_text v) @ rest) + 3 \<le> n \<longrightarrow>
        parse_value n (js_at (chars (json_text v) @ rest) d) = Ok (plain v, js_at rest d))"

lemma stops_char [simp]: "stops ([44] # cs)" "stops ([93] # cs)" "stops ([125] # cs)"
  by (simp_all add: stops_def)

lemma array_loop_text:
  assumes "vs \<noteq> []" and "\<forall>v\<in>set vs. parses_back d v"
    and "3 * length (chars (commas (map json_text vs)) @ [93] # rest) + 4 \<le> n"
  shows "array_loop n acc (js_at (chars (commas (map json_text vs)) @ [93] # rest) d) =
    Ok (JArray (acc @ map plain vs), js_at rest d)"
  using assms
proof (induction vs arbitrary: acc n)
  case (Cons v vs)
  obtain m where n: "n = Suc m" using Cons.prems(3) by (cases n) simp_all
  have v: "utf8_valid (json_text v)"
    "stops r \<Longrightarrow> 3 * length (chars (json_text v) @ r) + 3 \<le> m \<Longrightarrow>
       parse_value m (js_at (chars (json_text v) @ r) d) = Ok (plain v, js_at r d)" for r
    using Cons.prems(2) by (simp_all add: parses_back_def)
  have skip: "json_skip (js_at ([44] # cs) d) = js_at ([44] # cs) d" "json_skip (js_at ([93] # cs) d) = js_at ([93] # cs) d" for cs
    by (simp_all add: is_whitespace_def)
  show ?case
  proof (cases "vs = []")
    case True
    have "parse_value m (js_at (chars (json_text v) @ [93] # rest) d) = Ok (plain v, js_at ([93] # rest) d)"
      by (rule v(2)) (use Cons.prems(3) True n in simp_all)
    then show ?thesis using True by (simp add: n skip Let_def)
  next
    case False
    let ?rest = "chars (commas (map json_text vs)) @ [93] # rest"
    have c: "chars (commas (map json_text (v # vs))) = chars (json_text v) @ [44] # chars (commas (map json_text vs))"
      using False v(1) by (simp add: commas_Cons chars_append chars_ascii)
    have len: "3 * (length (chars (json_text v)) + length ?rest + 1) + 3 \<le> m" using Cons.prems(3) unfolding c n by simp
    have "parse_value m (js_at (chars (json_text v) @ [44] # ?rest) d) = Ok (plain v, js_at ([44] # ?rest) d)"
      by (rule v(2)) (use len in simp_all)
    moreover have "array_loop m (acc @ [plain v]) (js_at ?rest d) = Ok (JArray ((acc @ [plain v]) @ map plain vs), js_at rest d)"
      by (rule Cons.IH [OF False]) (use Cons.prems(2) len in simp_all)
    ultimately show ?thesis unfolding c n array_loop.simps by (simp add: skip Let_def)
  qed
qed simp

lemma object_loop_text:
  assumes "es \<noteq> []" and "\<forall>e\<in>set es. utf8_valid (fst e) \<and> parses_back d (snd e)"
    and "3 * length (chars (commas (map entry_text es)) @ [125] # rest) + 4 \<le> n"
  shows "object_loop n acc (js_at (chars (commas (map entry_text es)) @ [125] # rest) d) =
    Ok (JObject (acc @ map (\<lambda>e. (fst e, plain (snd e))) es), js_at rest d)"
  using assms
proof (induction es arbitrary: acc n)
  case (Cons e es)
  obtain m where n: "n = Suc m" using Cons.prems(3) by (cases n) simp_all
  let ?k = "fst e" and ?v = "snd e"
  have k: "utf8_valid ?k" and v: "utf8_valid (json_text ?v)"
    "stops r \<Longrightarrow> 3 * length (chars (json_text ?v) @ r) + 3 \<le> m \<Longrightarrow>
       parse_value m (js_at (chars (json_text ?v) @ r) d) = Ok (plain ?v, js_at r d)" for r
    using Cons.prems(2) by (simp_all add: parses_back_def)
  have skip: "json_skip (js_at ([b] # cs) d) = js_at ([b] # cs) d" if "b \<in> {34, 44, 58, 125}" for b cs
    using that by (auto simp: is_whitespace_def)
  have sk: "json_skip (js_at (chars (write_json_string ?k) @ r) d) = js_at (chars (write_json_string ?k) @ r) d" for r
    by (simp add: string_text(2) [OF k] skip)
  have entry: "chars (entry_text e) = chars (write_json_string ?k) @ [58] # chars (json_text ?v)"
    using k v(1) by (simp add: chars_append chars_ascii string_text)
  have ev: "utf8_valid (entry_text e)" using k v(1) by (simp add: valid_append valid_ascii string_text)
  have start: "object_loop n acc (js_at (chars (write_json_string ?k) @ [58] # r) d) =
      obind (parse_value m (js_at r d)) (\<lambda>(v, p).
        let es = acc @ [(?k, v)]; (c, p) = json_next (json_skip p) in
        if c = Some [44] then object_loop m es p else if c = Some [125] then Ok (JObject es, p)
        else Err (JExpectedCommaOr [125] c))" for r
    unfolding n object_loop.simps sk parse_string_text [OF k] obind.simps prod.case by (simp add: skip)
  show ?case
  proof (cases "es = []")
    case True
    have "parse_value m (js_at (chars (json_text ?v) @ [125] # rest) d) = Ok (plain ?v, js_at ([125] # rest) d)"
      by (rule v(2)) (use Cons.prems(3) True n entry in simp_all)
    moreover have c: "chars (commas (map entry_text (e # es))) = chars (write_json_string ?k) @ [58] # chars (json_text ?v)"
      using True entry by simp
    ultimately show ?thesis using True start [of "chars (json_text ?v) @ [125] # rest"] unfolding c by (simp add: skip Let_def)
  next
    case False
    let ?rest = "chars (commas (map entry_text es)) @ [125] # rest"
    have c: "chars (commas (map entry_text (e # es))) = chars (write_json_string ?k) @ [58] # chars (json_text ?v) @ [44] # chars (commas (map entry_text es))"
      using False chars_append [OF ev, of "44 # commas (map entry_text es)"] entry by (simp add: commas_Cons chars_ascii)
    have len: "3 * (length (chars (json_text ?v)) + length ?rest + 1) + 3 \<le> m" using Cons.prems(3) unfolding c n by simp
    have "parse_value m (js_at (chars (json_text ?v) @ [44] # ?rest) d) = Ok (plain ?v, js_at ([44] # ?rest) d)"
      by (rule v(2)) (use len in simp_all)
    moreover have "object_loop m (acc @ [(?k, plain ?v)]) (js_at ?rest d) =
        Ok (JObject ((acc @ [(?k, plain ?v)]) @ map (\<lambda>e. (fst e, plain (snd e))) es), js_at rest d)"
      by (rule Cons.IH [OF False]) (use Cons.prems(2) len in simp_all)
    ultimately show ?thesis using start [of "chars (json_text ?v) @ [44] # ?rest"] unfolding c by (simp add: skip Let_def)
  qed
qed simp

lemma commas_head:
  assumes "json_wf number_ok d v"
  shows "\<exists>c cs. chars (commas (map json_text (v # vs))) = c # cs \<and> \<not> is_whitespace c \<and> c \<noteq> [93]"
  using json_text_head [OF assms] json_text_valid [OF assms] by (cases vs) (auto simp: chars_append)

lemma parse_literal_text:
  "parse_value (Suc m) (js_at ([110] # [117] # [108] # [108] # rest) d) = Ok (JNull, js_at rest d)"
  "parse_value (Suc m) (js_at ([116] # [114] # [117] # [101] # rest) d) = Ok (JBool True, js_at rest d)"
  "parse_value (Suc m) (js_at ([102] # [97] # [108] # [115] # [101] # rest) d) = Ok (JBool False, js_at rest d)"
  by (simp_all add: is_whitespace_def Let_def)

lemma parses_backI:
  assumes v: "json_wf number_ok k v"
    and "\<And>rest m. stops rest \<Longrightarrow> 3 * length (chars (json_text v) @ rest) + 2 \<le> m \<Longrightarrow>
      parse_value (Suc m) (js_at (chars (json_text v) @ rest) d) = Ok (plain v, js_at rest d)"
  shows "parses_back d v"
  unfolding parses_back_def
proof (intro conjI allI impI json_text_valid [OF v] json_text_head [OF v])
  fix rest n assume r: "stops rest" "3 * length (chars (json_text v) @ rest) + 3 \<le> n"
  then obtain m where "n = Suc m" by (cases n) simp_all
  then show "parse_value n (js_at (chars (json_text v) @ rest) d) = Ok (plain v, js_at rest d)" using assms(2) [of rest m] r by simp
qed

lemma array_text:
  assumes items: "\<forall>v\<in>set items. json_wf number_ok k v \<and> parses_back (Suc d) v" and d: "d < 64"
    and m: "3 * length (chars (json_text (JArray items)) @ rest) + 2 \<le> m"
  shows "parse_value (Suc m) (js_at (chars (json_text (JArray items)) @ rest) d) = Ok (plain (JArray items), js_at rest d)"
proof -
  let ?in = "chars (commas (map json_text items)) @ [93] # rest"
  have "utf8_valid (commas (map json_text items))" using items by (intro commas_valid) (auto intro: json_text_valid)
  then have c: "chars (json_text (JArray items)) @ rest = [91] # ?in"
    by (simp add: chars_ascii chars_append)
  obtain i where i: "m = Suc i" using m by (cases m) simp_all
  have start: "parse_value (Suc m) (js_at ([91] # ?in) d) = parse_array m (js_at ([91] # ?in) d)"
    by (simp add: is_whitespace_def Let_def)
  have body: "(let p = json_skip (js_at ?in (Suc d)) in
      if json_peek p = Some [93] then Ok (JArray [], snd (json_next p)) else array_loop i [] p) = Ok (plain (JArray items), js_at rest (Suc d))"
  proof (cases items)
    case Nil
    then show ?thesis by (simp add: is_whitespace_def Let_def)
  next
    case (Cons v vs)
    obtain a as where h: "chars (commas (map json_text items)) = a # as" "\<not> is_whitespace a" "a \<noteq> [93]"
      using commas_head [of k v vs] items Cons by auto
    have "array_loop i [] (js_at ?in (Suc d)) = Ok (JArray ([] @ map plain items), js_at rest (Suc d))"
      by (rule array_loop_text) (use Cons items m c i in simp_all)
    then show ?thesis using h by (simp add: Let_def)
  qed
  show ?thesis
    unfolding c start using d body by (simp add: i with_nesting_def MAX_NESTING_DEPTH_def Let_def)
qed

lemma object_text:
  assumes es: "\<forall>e\<in>set es. utf8_valid (fst e) \<and> parses_back (Suc d) (snd e)" and d: "d < 64"
    and m: "3 * length (chars (json_text (JObject es)) @ rest) + 2 \<le> m"
  shows "parse_value (Suc m) (js_at (chars (json_text (JObject es)) @ rest) d) = Ok (plain (JObject es), js_at rest d)"
proof -
  let ?in = "chars (commas (map entry_text es)) @ [125] # rest"
  have valid: "utf8_valid (entry_text e)" if "e \<in> set es" for e
    using es that by (auto simp: parses_back_def intro!: valid_append valid_ascii string_text(1))
  then have "utf8_valid (commas (map entry_text es))" by (intro commas_valid) auto
  then have c: "chars (json_text (JObject es)) @ rest = [123] # ?in"
    by (simp add: chars_ascii chars_append)
  obtain i where i: "m = Suc i" using m by (cases m) simp_all
  have start: "parse_value (Suc m) (js_at ([123] # ?in) d) = parse_object m (js_at ([123] # ?in) d)"
    by (simp add: is_whitespace_def Let_def)
  have body: "(let p = json_skip (js_at ?in (Suc d)) in
      if json_peek p = Some [125] then Ok (JObject [], snd (json_next p)) else object_loop i [] p) = Ok (plain (JObject es), js_at rest (Suc d))"
  proof (cases es)
    case Nil
    then show ?thesis by (simp add: is_whitespace_def Let_def)
  next
    case (Cons e es')
    have "\<exists>cs. chars (commas (map entry_text es)) = [34] # cs"
      using Cons es string_text(2) [of "fst e"] string_text(1) [of "fst e"] by (cases es') (simp_all add: chars_append)
    then obtain cs where h: "chars (commas (map entry_text es)) = [34] # cs" ..
    have "object_loop i [] (js_at ?in (Suc d)) = Ok (JObject ([] @ map (\<lambda>e. (fst e, plain (snd e))) es), js_at rest (Suc d))"
      by (rule object_loop_text) (use Cons es m c i in simp_all)
    then show ?thesis using h by (simp add: Let_def is_whitespace_def)
  qed
  show ?thesis
    unfolding c start using d body by (simp add: i with_nesting_def MAX_NESTING_DEPTH_def Let_def)
qed

lemma value_text: "json_wf number_ok (64 - d) v \<Longrightarrow> parses_back d v"
proof (induction v arbitrary: d rule: json_text.induct)
  case 1
  show ?case by (rule parses_backI [OF 1]) (simp add: literal_bytes chars_ascii parse_literal_text del: parse_value.simps)
next
  case (2 b)
  show ?case by (rule parses_backI [OF 2]) (cases b; simp add: literal_bytes chars_ascii parse_literal_text del: parse_value.simps)
next
  case (3 n)
  then have n: "number_ok n" by simp
  obtain b cs where b: "chars (write_number n) = [b] # cs" "b = 45 \<or> digit_byte b" using number_text(2) [OF n] by blast
  have "\<not> is_whitespace [b]" "[b] = [45] \<or> is_ascii_digit [b]" "b \<notin> {123, 91, 34, 116, 102, 110}"
    using b(2) by (auto simp: is_whitespace_def is_ascii_digit_def digit_byte_def)
  then show ?case
    using parse_number_text [OF n] b(1) by (intro parses_backI [OF 3]) (auto simp: Let_def)
next
  case (4 s)
  then have s: "utf8_valid s" by simp
  show ?case
    using parse_string_text [OF s] string_text(2) [OF s] by (intro parses_backI [OF 4]) (simp add: is_whitespace_def Let_def)
next
  case (5 items)
  then have w: "\<forall>v\<in>set items. json_wf number_ok (64 - Suc d) v \<and> parses_back (Suc d) v" "d < 64" by auto
  show ?case by (rule parses_backI [OF 5(2)]) (rule array_text [OF w])
next
  case (6 es)
  then have w: "\<forall>e\<in>set es. utf8_valid (fst e) \<and> parses_back (Suc d) (snd e)" "d < 64" by auto
  show ?case by (rule parses_backI [OF 6(2)]) (rule object_text [OF w])
qed

lemma json_round:
  assumes "json_wf number_ok 64 v"
  shows "json_parse (json_text v) = Ok (plain v)"
proof -
  have p: "parses_back 0 v" using value_text [of 0 v] assms by simp
  then obtain c cs where c: "chars (json_text v) = c # cs" "\<not> is_whitespace c" by (auto simp: parses_back_def)
  have "parse_value (json_fuel (chars (json_text v))) (js_at (chars (json_text v) @ []) 0) = Ok (plain v, js_at [] 0)"
    using p unfolding parses_back_def by (elim conjE allE [where x = "[]"] allE [where x = "json_fuel (chars (json_text v))"]) (simp add: json_fuel_def stops_def)
  then show ?thesis using c by (simp add: json_parse_def Let_def) (simp add: json_skip_def json_peek_def)
qed

section \<open>Properties\<close>

lemma round_f64_inf: "2 ^ 1024 \<le> n \<Longrightarrow> round_f64 n 1 = F64_inf"
proof -
  assume n: "2 ^ 1024 \<le> n"
  then have "0 < n" by (metis less_le_trans zero_less_numeral zero_less_power)
  obtain e where e: "real n / real 1 < 2 powi (e + 53)" and r: "round_f64 n 1 = round_at n 1 (max (- 1074) e)"
    by (rule round_f64_eq [OF \<open>0 < n\<close> zero_less_one])
  have "(2::real) powi 1024 \<le> real n" using n by (simp add: power_int_def)
  then have "(2::real) powi 1024 < 2 powi (e + 53)" using e by simp
  from powi_less [OF this] have "971 < e" by simp
  then show ?thesis unfolding r round_at_def by (simp add: Let_def)
qed

text \<open>
  C38: the JSON parser is total and typed. On any string it returns a value or an error, without a
  panic and without using up the fuel; in a value it returns every string is UTF-8, every number is an
  \<^verbatim>\<open>f64\<close> and at most 64 arrays and objects are nested in each other, so nothing that recurses over
  it goes deeper.
\<close>

theorem json_values_typed:
  assumes "utf8_valid src"
  shows "json_parse src \<noteq> Panic \<and> json_parse src \<noteq> Err JOutOfFuel \<and> (\<forall>v. json_parse src = Ok v \<longrightarrow> json_type 64 v)"
  by (rule json_parse_result [OF assms])

lemma json_values_typed_witness: "json_parse [91, 91, 34, 92, 117, 100, 56] \<noteq> Panic"
proof -
  have "utf8_valid [91, 91, 34, 92, 117, 100, 56]" by code_simp
  from json_values_typed [OF this] show ?thesis by blast
qed

text \<open>
  C39: JSON is written losslessly. The text of a value with UTF-8 strings, finite numbers and at most 64 levels
  of nesting is parsed back as the value, every control character, quote and decimal fraction included,
  except that negative zero comes back as zero.
\<close>

theorem json_round_trip:
  assumes "json_wf number_ok 64 v"
  shows "json_parse (json_text v) = Ok (plain v)"
  by (rule json_round [OF assms])

definition sample_json :: json where
  "sample_json = JObject [(ascii ''a'', JArray [JNull, JNumber (Signed True (F64 4503599627370496 (- 53))), JBool True]),
     ([34, 10, 195, 169], JString [0, 92])]"

lemma sample_json_ok: "json_wf number_ok 64 sample_json"
proof -
  have "utf8_valid (ascii ''a'')" "utf8_valid [34, 10, 195, 169]" "utf8_valid [0, 92]" by code_simp+
  then show ?thesis by (simp add: sample_json_def number_ok_def f64_ok_def f64_finite_def)
qed

lemma json_round_trip_witness: "json_parse (json_text sample_json) = Ok sample_json"
  using json_round_trip [OF sample_json_ok] by (simp add: sample_json_def plain_number_def)

text \<open>
  Infinity is written as text that is not JSON. A number above the range of \<^verbatim>\<open>f64\<close> is accepted
  as infinity, and a value that holds it is written with \<^verbatim>\<open>inf\<close>, which the parser refuses.
\<close>

lemma infinity_is_not_json:
  "json_parse (ascii ''1e309'') = Ok (JNumber (Signed False F64_inf)) \<and>
   json_text (JNumber (Signed False F64_inf)) = ascii ''inf'' \<and>
   json_parse (ascii ''inf'') = Err (JUnexpected (Some [105]))"
proof (intro conjI)
  show "json_text (JNumber (Signed False F64_inf)) = ascii ''inf''" by code_simp
  show "json_parse (ascii ''inf'') = Err (JUnexpected (Some [105]))" by code_simp
  have t: "ascii ''1e309'' = [49, 101, 51, 48, 57]" by code_simp
  have c: "chars [49, 101, 51, 48, 57] = [[49], [101], [51], [48], [57]]" by (simp add: chars_ascii)
  have "(2::nat) ^ 1024 \<le> 10 ^ 309" by simp
  then have "round_f64 (10 ^ 309) 1 = F64_inf" by (rule round_f64_inf)
  then have "dec_f64 1 309 = F64_inf" by (simp add: dec_f64_def)
  moreover have "parse_signed_f64 [49, 101, 51, 48, 57] = Some (Signed False (dec_f64 1 309))"
    by (simp add: parse_signed_f64_def parse_exponent_def digit_byte_def dec_val_def Let_def)
  ultimately have r: "parse_signed_f64 [49, 101, 51, 48, 57] = Some (Signed False F64_inf)" by simp
  have f: "json_fuel [[49], [101], [51], [48], [57]] = Suc 17" by (simp add: json_fuel_def)
  have "parse_value (Suc 17) (js_at [[49], [101], [51], [48], [57]] 0) = Ok (JNumber (Signed False F64_inf), js_at [] 0)"
    unfolding parse_value.simps by (simp add: is_whitespace_def is_ascii_digit_def parse_number_def take_if_def take_digits_def r Let_def)
  then show "json_parse (ascii ''1e309'') = Ok (JNumber (Signed False F64_inf))"
    unfolding json_parse_def Let_def t c f by (simp add: is_whitespace_def) (simp add: json_skip_def json_peek_def)
qed

end
