(* ===== verification/Gems_Strings.thy ===== *)
theory Gems_Strings
  imports Gems_Float
begin

text \<open>
  Operations of the standard library on strings that the access tokens, the web server and the replicas use, on
  the UTF-8 bytes.
\<close>

section \<open>Operations\<close>

text \<open>\<^verbatim>\<open>str::trim_end\<close>, \<^verbatim>\<open>trim\<close>, \<^verbatim>\<open>split_once\<close>, \<^verbatim>\<open>split\<close>, \<^verbatim>\<open>parse::<u64>\<close> and \<^verbatim>\<open>strip_prefix\<close>.\<close>

definition trim_end :: "bytes \<Rightarrow> bytes" where
  "trim_end s = concat (rev (dropWhile is_whitespace (rev (chars s))))"

definition trim :: "bytes \<Rightarrow> bytes" where
  "trim s = trim_end (concat (dropWhile is_whitespace (chars s)))"

definition split_once :: "u8 \<Rightarrow> bytes \<Rightarrow> (bytes \<times> bytes) option" where
  "split_once b s =
     (case dropWhile (\<lambda>c. c \<noteq> b) s of [] \<Rightarrow> None | _ # r \<Rightarrow> Some (takeWhile (\<lambda>c. c \<noteq> b) s, r))"

primrec split_on :: "u8 \<Rightarrow> bytes \<Rightarrow> bytes list" where
  "split_on b [] = [[]]"
| "split_on b (c # cs) =
     (if c = b then [] # split_on b cs else (c # hd (split_on b cs)) # tl (split_on b cs))"

definition parse_u64 :: "bytes \<Rightarrow> nat option" where
  "parse_u64 s =
     (let ds = (case s of b # r \<Rightarrow> if b = 43 then r else s | [] \<Rightarrow> s) in
      if ds \<noteq> [] \<and> list_all digit_byte ds \<and> dec_val ds \<le> u64_max then Some (dec_val ds) else None)"

definition strip_prefix :: "bytes \<Rightarrow> bytes \<Rightarrow> bytes option" where
  "strip_prefix p s = (if take (length p) s = p then Some (drop (length p) s) else None)"

text \<open>Reading a line: the bytes up to and with the first newline.\<close>

fun upto_newline :: "bytes \<Rightarrow> bytes" where
  "upto_newline [] = []"
| "upto_newline (b # bs) = (if b = 10 then [b] else b # upto_newline bs)"

lemma upto_newline_length: "length (upto_newline bs) \<le> length bs"
  by (induction bs rule: upto_newline.induct) auto

lemma upto_newline_prefix: "take (length (upto_newline bs)) bs = upto_newline bs"
  by (induction bs rule: upto_newline.induct) auto

section \<open>Splitting\<close>

lemma split_on_ne [simp]: "split_on b cs \<noteq> []"
  by (induction cs) simp_all

lemma split_on_plain: "b \<notin> set cs \<Longrightarrow> split_on b cs = [cs]"
  by (induction cs) auto

lemma split_on_append: "b \<notin> set xs \<Longrightarrow> split_on b (xs @ b # ys) = xs # split_on b ys"
  by (induction xs) auto

lemma split_on_join:
  "split_on b cs = x # xs \<Longrightarrow> cs = x @ concat (map (\<lambda>y. b # y) xs) \<and> (\<forall>y\<in>set (x # xs). b \<notin> set y)"
proof (induction cs arbitrary: x xs)
  case (Cons c cs)
  obtain y ys where s: "split_on b cs = y # ys" by (cases "split_on b cs") simp_all
  note IH = Cons.IH [OF this]
  show ?case
  proof (cases "c = b")
    case True
    then have "x = []" "xs = y # ys" using Cons.prems s by simp_all
    then show ?thesis using IH True by simp
  next
    case False
    then have "x = c # y" "xs = ys" using Cons.prems s by simp_all
    then show ?thesis using IH False by auto
  qed
qed simp

end
