(* ===== verification/Gems_Http.thy ===== *)
theory Gems_Http
  imports Gems_Json_Text Gems_Strings
begin

text \<open>
  \<^verbatim>\<open>gems-webui/src/http.rs\<close>: reading a request off a connection and writing the response. The input
  is everything the client sends until it closes its side; the read timeout, which only turns a
  slow client into an I/O error, is not part of the model. The result of reading a request
  depends on a bounded prefix of the input, and query strings are decoded without loss.
\<close>

section \<open>Requests\<close>

definition MAX_LINE_LEN :: nat where "MAX_LINE_LEN = 8 * 1024"
definition MAX_HEADER_LINES :: nat where "MAX_HEADER_LINES = 200"
definition DEFAULT_READ_TIMEOUT_SECS :: nat where "DEFAULT_READ_TIMEOUT_SECS = 10"
definition MAX_BODY_LEN :: nat where "MAX_BODY_LEN = 1024 * 1024"

definition parse_read_timeout_secs :: "bytes option \<Rightarrow> nat" where
  "parse_read_timeout_secs raw =
     (case Option.bind raw parse_u64 of
        Some secs \<Rightarrow> if 0 < secs then secs else DEFAULT_READ_TIMEOUT_SECS
      | None \<Rightarrow> DEFAULT_READ_TIMEOUT_SECS)"

record http_request =
  req_method :: bytes
  req_path :: bytes
  req_query :: "(bytes \<times> bytes) list"
  req_headers :: "(bytes \<times> bytes) list"
  req_body :: bytes

definition query_param :: "http_request \<Rightarrow> bytes \<Rightarrow> bytes option" where
  "query_param r key = map_option snd (find (\<lambda>e. fst e = key) (req_query r))"

definition req_header :: "http_request \<Rightarrow> bytes \<Rightarrow> bytes option" where
  "req_header r name = map_option snd (find (\<lambda>e. eq_ignore_ascii_case (fst e) name) (req_headers r))"

definition bearer_token :: "http_request \<Rightarrow> bytes option" where
  "bearer_token r = Option.bind (req_header r (ascii ''Authorization'')) (strip_prefix (ascii ''Bearer ''))"

datatype http_error =
    LineTooLong | LineNotUtf8 | EmptyRequest | MissingTarget | InvalidContentLength | BodyTooLong | BodyTruncated

datatype body_error = BodyNotUtf8 | BodyNotJson json_error

definition json_body :: "http_request \<Rightarrow> (body_error, json) outcome" where
  "json_body r =
     (if \<not> utf8_valid (req_body r) then Err BodyNotUtf8
      else case json_parse (req_body r) of Ok v \<Rightarrow> Ok v | Err e \<Rightarrow> Err (BodyNotJson e) | Panic \<Rightarrow> Panic)"

section \<open>Reading a request\<close>

definition read_line_capped :: "bytes \<Rightarrow> (http_error, bytes \<times> bytes) outcome" where
  "read_line_capped input =
     (let buf = upto_newline (take MAX_LINE_LEN input) in
      if MAX_LINE_LEN \<le> length buf \<and> last buf \<noteq> 10 then Err LineTooLong
      else if \<not> utf8_valid buf then Err LineNotUtf8
      else Ok (buf, drop (length buf) input))"

text \<open>\<^verbatim>\<open>trim_end_matches(['\r', '\n'])\<close>\<close>

definition trim_newlines :: "bytes \<Rightarrow> bytes" where
  "trim_newlines s = rev (dropWhile (\<lambda>b. b = 13 \<or> b = 10) (rev s))"

primrec read_headers :: "nat \<Rightarrow> (bytes \<times> bytes) list \<Rightarrow> bytes \<Rightarrow> (http_error, (bytes \<times> bytes) list \<times> bytes) outcome" where
  "read_headers 0 headers input = Ok (headers, input)"
| "read_headers (Suc n) headers input =
     obind (read_line_capped input) (\<lambda>(line, input).
     let trimmed = trim_newlines line in
     if trimmed = [] then Ok (headers, input)
     else
       read_headers n
         (case split_once 58 trimmed of
            Some (name, val) \<Rightarrow> headers @ [(trim name, trim val)]
          | None \<Rightarrow> headers)
         input)"

text \<open>Percent decoding; a plus sign is a space.\<close>

function url_bytes :: "bytes \<Rightarrow> bytes" where
  "url_bytes [] = []"
| "url_bytes (b # bs) =
     (if b = 43 then 32 # url_bytes bs
      else if b = 37 \<and> 2 \<le> length bs then
        (case (if utf8_valid (take 2 bs) then u8_from_str_radix16 (take 2 bs) else None) of
           Some x \<Rightarrow> x # url_bytes (drop 2 bs)
         | None \<Rightarrow> b # url_bytes bs)
      else b # url_bytes bs)"
  by pat_completeness auto
termination
  by (relation "measure length") auto

definition url_decode :: "bytes \<Rightarrow> bytes" where
  "url_decode s = from_utf8_lossy (url_bytes s)"

definition parse_query_string :: "bytes \<Rightarrow> (bytes \<times> bytes) list" where
  "parse_query_string s =
     (if s = [] then []
      else
        map (\<lambda>pair. case split_once 61 pair of
               Some (k, v) \<Rightarrow> (url_decode k, url_decode v)
             | None \<Rightarrow> (url_decode pair, []))
          (filter (\<lambda>pair. pair \<noteq> []) (split_on 38 s)))"

definition read_body :: "(bytes \<times> bytes) list \<Rightarrow> bytes \<Rightarrow> (http_error, bytes) outcome" where
  "read_body headers input =
     (case find (\<lambda>e. eq_ignore_ascii_case (fst e) (ascii ''Content-Length'')) headers of
        Some e \<Rightarrow>
          (case parse_u64 (snd e) of
             None \<Rightarrow> Err InvalidContentLength
           | Some len \<Rightarrow>
               if MAX_BODY_LEN < len then Err BodyTooLong
               else if length input < len then Err BodyTruncated
               else Ok (take len input))
      | None \<Rightarrow> Ok [])"

definition parse_request :: "bytes \<Rightarrow> (http_error, http_request) outcome" where
  "parse_request input =
     obind (read_line_capped input) (\<lambda>(request_line, input).
     if request_line = [] then Err EmptyRequest
     else case split_on 32 (trim_end request_line) of
       meth # target # _ \<Rightarrow>
         obind (read_headers MAX_HEADER_LINES [] input) (\<lambda>(headers, input).
         let (path, query_string) = (case split_once 63 target of Some (p, q) \<Rightarrow> (p, q) | None \<Rightarrow> (target, []));
             query = parse_query_string query_string
         in omap (\<lambda>body.
              \<lparr> req_method = meth, req_path = path, req_query = query, req_headers = headers, req_body = body \<rparr>)
              (read_body headers input))
     | _ \<Rightarrow> Err MissingTarget)"

section \<open>Writing a response\<close>

definition status_text :: "nat \<Rightarrow> bytes" where
  "status_text status =
     (if status = 200 then ascii ''OK''
      else if status = 400 then ascii ''Bad Request''
      else if status = 404 then ascii ''Not Found''
      else if status = 500 then ascii ''Internal Server Error''
      else ascii ''Unknown'')"

definition write_response :: "nat \<Rightarrow> bytes \<Rightarrow> bytes \<Rightarrow> bytes" where
  "write_response status content_type body =
     ascii ''HTTP/1.1 '' @ show_nat status @ [32] @ status_text status @ [13, 10] @
     ascii ''Content-Type: '' @ content_type @ [13, 10] @
     ascii ''Content-Length: '' @ show_nat (length body) @ [13, 10] @
     ascii ''Connection: close'' @ [13, 10, 13, 10] @ body"

section \<open>A bounded prefix decides\<close>

lemma read_line_consumes:
  "read_line_capped input = Ok (line, rest) \<Longrightarrow> rest = drop (length line) input \<and> length line \<le> MAX_LINE_LEN"
  using upto_newline_length [of "take MAX_LINE_LEN input"] by (auto simp: read_line_capped_def Let_def split: if_splits)

text \<open>Reading a line looks at no more than \<open>MAX_LINE_LEN\<close> bytes.\<close>

lemma read_line_take:
  assumes "MAX_LINE_LEN \<le> k"
  shows "read_line_capped (take k input) =
    omap (\<lambda>(line, rest). (line, take (k - length line) rest)) (read_line_capped input)"
  using assms by (simp add: read_line_capped_def Let_def min_absorb1 drop_take)

lemma read_headers_take:
  "MAX_LINE_LEN * n + m \<le> k \<Longrightarrow>
     (\<exists>k'. m \<le> k' \<and> read_headers n hs (take k input) = omap (\<lambda>(hs, rest). (hs, take k' rest)) (read_headers n hs input))"
proof (induction n arbitrary: k hs input)
  case 0
  then show ?case by (intro exI [of _ k]) simp
next
  case (Suc n)
  have k: "MAX_LINE_LEN \<le> k" using Suc.prems by simp
  show ?case
  proof (cases "read_line_capped input")
    case (Ok r)
    obtain line rest where r: "r = (line, rest)" by fastforce
    have "length line \<le> MAX_LINE_LEN" using read_line_consumes [OF Ok [unfolded r]] by simp
    then have "MAX_LINE_LEN * n + m \<le> k - length line" using Suc.prems by simp
    from Suc.IH [OF this] obtain k' where k': "m \<le> k'"
      "read_headers n (case split_once 58 (trim_newlines line) of Some (name, val) \<Rightarrow> hs @ [(trim name, trim val)] | None \<Rightarrow> hs) (take (k - length line) rest) =
         omap (\<lambda>(hs, rest). (hs, take k' rest))
           (read_headers n (case split_once 58 (trim_newlines line) of Some (name, val) \<Rightarrow> hs @ [(trim name, trim val)] | None \<Rightarrow> hs) rest)"
      by blast
    show ?thesis
    proof (cases "trim_newlines line = []")
      case True
      have "m \<le> k - length line" using \<open>MAX_LINE_LEN * n + m \<le> k - length line\<close> by simp
      then show ?thesis using True Ok r read_line_take [OF k, of input] by (intro exI [of _ "k - length line"]) simp
    next
      case False
      then show ?thesis using k' Ok r read_line_take [OF k, of input] by (intro exI [of _ k']) (simp add: Let_def)
    qed
  qed (use read_line_take [OF k, of input] in auto)
qed

lemma read_body_take: "MAX_BODY_LEN \<le> k \<Longrightarrow> read_body hs (take k input) = read_body hs input"
  by (simp add: read_body_def min_def split: option.splits)

definition REQUEST_BOUND :: nat where
  "REQUEST_BOUND = MAX_LINE_LEN * (MAX_HEADER_LINES + 1) + MAX_BODY_LEN"

lemma parse_request_take: "parse_request (take REQUEST_BOUND input) = parse_request input"
proof -
  have k: "MAX_LINE_LEN \<le> REQUEST_BOUND" by (simp add: REQUEST_BOUND_def)
  show ?thesis
  proof (cases "read_line_capped input")
    case (Ok r)
    obtain line rest where r: "r = (line, rest)" by fastforce
    have "length line \<le> MAX_LINE_LEN" using read_line_consumes [OF Ok [unfolded r]] by simp
    then have "MAX_LINE_LEN * MAX_HEADER_LINES + MAX_BODY_LEN \<le> REQUEST_BOUND - length line"
      by (simp add: REQUEST_BOUND_def)
    from read_headers_take [OF this, of "[]" rest] obtain k' where k': "MAX_BODY_LEN \<le> k'"
      "read_headers MAX_HEADER_LINES [] (take (REQUEST_BOUND - length line) rest) =
         omap (\<lambda>(hs, rest). (hs, take k' rest)) (read_headers MAX_HEADER_LINES [] rest)" by blast
    show ?thesis
      using Ok r read_line_take [OF k, of input] k'(2) read_body_take [OF k'(1)]
      by (cases "read_headers MAX_HEADER_LINES [] rest") (auto simp: parse_request_def Let_def split: list.splits)
  qed (use read_line_take [OF k, of input] in \<open>auto simp: parse_request_def\<close>)
qed

lemma read_headers_count:
  "read_headers n hs input = Ok (hs', rest) \<Longrightarrow> length hs' \<le> length hs + n"
proof (induction n arbitrary: hs input)
  case (Suc n)
  then obtain line input' where l: "read_line_capped input = Ok (line, input')" by (auto simp: obind_eq_Ok)
  show ?case
  proof (cases "trim_newlines line = []")
    case True
    then show ?thesis using Suc.prems l by simp
  next
    case False
    then show ?thesis using Suc.prems l Suc.IH by (fastforce simp: Let_def split: option.splits prod.splits)
  qed
qed simp

lemma read_body_length: "read_body hs input = Ok body \<Longrightarrow> length body \<le> MAX_BODY_LEN"
  by (auto simp: read_body_def split: option.splits if_splits)

section \<open>Property\<close>

text \<open>
  C32: the size of a request is bounded before it is read. What comes after the first 201 lines of 8 KiB and
  1 MiB of body cannot change the result, and a request that is accepted has at most 200 headers and 1 MiB of body.
\<close>

theorem request_bounded:
  "parse_request (take REQUEST_BOUND input) = parse_request input \<and>
   (case parse_request input of
      Ok req \<Rightarrow> length (req_headers req) \<le> MAX_HEADER_LINES \<and> length (req_body req) \<le> MAX_BODY_LEN
    | _ \<Rightarrow> True)"
proof (cases "parse_request input")
  case (Ok req)
  obtain line rest meth target others where l: "read_line_capped input = Ok (line, rest)"
    "split_on 32 (trim_end line) = meth # target # others"
    using Ok by (auto simp: parse_request_def obind_eq_Ok split: if_splits list.splits)
  obtain hs rest' body where h: "read_headers MAX_HEADER_LINES [] rest = Ok (hs, rest')" "read_body hs rest' = Ok body"
    and req: "req_headers req = hs" "req_body req = body"
    using Ok l by (auto simp: parse_request_def obind_eq_Ok Let_def split: if_splits prod.splits option.splits)
  then show ?thesis using read_headers_count [OF h(1)] read_body_length [OF h(2)] Ok parse_request_take [of input] by simp
qed (use parse_request_take [of input] in auto)

end
