(* ===== verification/Gems_Token.thy ===== *)
theory Gems_Token
  imports Gems_Json_Text Gems_Strings Gems_Abac Gems_Base64
begin

text \<open>
  \<^verbatim>\<open>gems-abac/src/token.rs\<close>: access tokens in the form of a JWT, signed with HMAC-SHA256. A token is
  the bytes of a string; the current time and the expiry are Unix seconds, compared as \<^verbatim>\<open>f64\<close>s. What is
  issued verifies until it expires, and what verifies carries the signature of its claims.
\<close>

section \<open>Issuing and verifying\<close>

definition HEADER_B64 :: bytes where
  "HEADER_B64 = ascii ''eyJhbGciOiJIUzI1NiIsInR5cCI6IkpXVCJ9''"

datatype token_error = TokMissing | TokMalformed | TokBadSignature | TokExpired

datatype auth_mode = Enforced bytes | Insecure

text \<open>\<^verbatim>\<open>a >= b\<close> for a non-negative \<open>a\<close>.\<close>

definition f64_le :: "f64 \<Rightarrow> f64 \<Rightarrow> bool" where
  "f64_le x y =
     (case (x, y) of
        (_, F64_inf) \<Rightarrow> True
      | (F64_inf, F64 _ _) \<Rightarrow> False
      | (F64 m e, F64 n f) \<Rightarrow> m * 2 ^ nat (e - min e f) \<le> n * 2 ^ nat (f - min e f))"

definition at_or_after :: "nat \<Rightarrow> signed \<Rightarrow> bool" where
  "at_or_after now expiry = (negative expiry \<or> f64_le (magnitude expiry) (round_f64 now 1))"

definition issue :: "bytes \<Rightarrow> subject_context \<Rightarrow> nat option \<Rightarrow> (unit, bytes) outcome" where
  "issue secret sc expires =
     obind (json_set json_object (ascii ''sub'') (JString (to_hex_string (ctx_subject sc)))) (\<lambda>claims.
     obind (json_set claims (ascii ''roles'') (json_of_list JString (map to_hex_string (ctx_roles sc)))) (\<lambda>claims.
     obind (case expires of Some e \<Rightarrow> json_set claims (ascii ''exp'') (json_of_u64 e) | None \<Rightarrow> Ok claims) (\<lambda>claims.
     let payload_b64 = b64_encode (json_text claims);
         signing_input = HEADER_B64 @ [46] @ payload_b64;
         signature = hmac_sha256 secret signing_input
     in Ok (signing_input @ [46] @ b64_encode signature))))"

definition or_malformed :: "('e, 'a) outcome \<Rightarrow> (token_error, 'a) outcome" where
  "or_malformed r = (case r of Ok a \<Rightarrow> Ok a | Err _ \<Rightarrow> Err TokMalformed | Panic \<Rightarrow> Panic)"

definition some_or_malformed :: "'a option \<Rightarrow> (token_error, 'a) outcome" where
  "some_or_malformed v = (case v of Some a \<Rightarrow> Ok a | None \<Rightarrow> Err TokMalformed)"

definition id_claim :: "json \<Rightarrow> (token_error, tuid) outcome" where
  "id_claim v =
     obind (some_or_malformed (as_str v)) (\<lambda>s.
     obind (or_malformed (from_hex_str s)) some_or_malformed)"

primrec id_claims :: "json list \<Rightarrow> (token_error, tuid list) outcome" where
  "id_claims [] = Ok []"
| "id_claims (v # vs) = obind (id_claim v) (\<lambda>t. omap (\<lambda>ts. t # ts) (id_claims vs))"

definition read_claims :: "json \<Rightarrow> nat \<Rightarrow> (token_error, subject_context) outcome" where
  "read_claims claims now =
     obind (obind (some_or_malformed (json_get claims (ascii ''sub''))) id_claim) (\<lambda>subject_id.
     obind (some_or_malformed (Option.bind (json_get claims (ascii ''roles'')) as_array)) (\<lambda>roles.
     obind (id_claims roles) (\<lambda>roles.
     case Option.bind (json_get claims (ascii ''exp'')) as_f64 of
       Some expiry \<Rightarrow>
         if at_or_after now expiry then Err TokExpired
         else Ok \<lparr> ctx_subject = subject_id, ctx_roles = roles \<rparr>
     | None \<Rightarrow> Ok \<lparr> ctx_subject = subject_id, ctx_roles = roles \<rparr>)))"

definition verify :: "bytes \<Rightarrow> bytes \<Rightarrow> nat \<Rightarrow> (token_error, subject_context) outcome" where
  "verify secret token now =
     (case split_on 46 token of
        [header_b64, payload_b64, signature_b64] \<Rightarrow>
          if header_b64 \<noteq> HEADER_B64 then Err TokMalformed
          else
            let signing_input = header_b64 @ [46] @ payload_b64;
                expected = hmac_sha256 secret signing_input
            in
            obind (or_malformed (b64_decode signature_b64)) (\<lambda>actual.
            if \<not> constant_time_eq expected actual then Err TokBadSignature
            else
              obind (or_malformed (b64_decode payload_b64)) (\<lambda>payload.
              if \<not> utf8_valid payload then Err TokMalformed
              else obind (or_malformed (json_parse payload)) (\<lambda>claims. read_claims claims now)))
      | _ \<Rightarrow> Err TokMalformed)"

definition authorize :: "auth_mode \<Rightarrow> bytes option \<Rightarrow> nat \<Rightarrow> (token_error, subject_context option) outcome" where
  "authorize mode bearer now =
     (case mode of
        Insecure \<Rightarrow> Ok None
      | Enforced secret \<Rightarrow>
          (case bearer of
             None \<Rightarrow> Err TokMissing
           | Some token \<Rightarrow> omap Some (verify secret token now)))"

section \<open>Comparing times\<close>

lemma f64_le_value:
  "f64_le (F64 m e) (F64 n f) \<longleftrightarrow> real m * 2 powi e \<le> real n * 2 powi f"
proof -
  define k where "k = min e f"
  have p: "(2::real) powi i = 2 powi k * real (2 ^ nat (i - k))" if "k \<le> i" for i
  proof -
    have "(2::real) powi i = 2 powi k * 2 powi (i - k)" by (simp add: power_int_add [symmetric])
    moreover have "(2::real) powi (i - k) = real (2 ^ nat (i - k))" using that by (simp add: power_int_def)
    ultimately show ?thesis by simp
  qed
  have "real m * 2 powi e \<le> real n * 2 powi f \<longleftrightarrow>
      2 powi k * real (m * 2 ^ nat (e - k)) \<le> 2 powi k * real (n * 2 ^ nat (f - k))"
    using p [of e] p [of f] by (simp add: k_def mult.assoc mult.left_commute)
  also have "\<dots> \<longleftrightarrow> m * 2 ^ nat (e - k) \<le> n * 2 ^ nat (f - k)"
    by (simp only: mult_le_cancel_left_pos [of "2 powi k :: real"] zero_less_power_int zero_less_numeral of_nat_le_iff)
  finally show ?thesis by (simp add: f64_le_def k_def)
qed

lemma natural_value:
  assumes "n \<le> 2 ^ 53"
  shows "\<exists>m e. round_f64 n 1 = F64 m e \<and> real m * 2 powi e = real n \<and> number_ok (Signed False (F64 m e))"
proof -
  note r = read_nat_exact [OF assms]
  then obtain m e where x: "round_f64 n 1 = F64 m e" by (cases "round_f64 n 1") (simp_all add: fract_is_zero_def)
  have lt: "n < u64_max" using assms by simp
  have k: "n = (if 0 \<le> e then m * 2 ^ nat e else m div 2 ^ nat (- e))"
    using r lt unfolding x by (auto simp: f64_to_u64_def min_def split: if_splits)
  have "real m * 2 powi e = real n"
  proof (cases "0 \<le> e")
    case True
    then show ?thesis by (simp add: k power_int_def)
  next
    case False
    then obtain q where q: "m = 2 ^ nat (- e) * q" using r unfolding x by (auto simp: fract_is_zero_def dvd_def)
    have "2 powi e = (1::real) / 2 ^ nat (- e)" using False by (simp add: power_int_def inverse_eq_divide power_one_over)
    then show ?thesis using False by (simp add: k q)
  qed
  moreover have "number_ok (Signed False (F64 m e))" using round_f64_type [of 1 n] unfolding x by (simp add: number_ok_def f64_type_def)
  ultimately show ?thesis using x by blast
qed

lemma at_or_after_exact:
  assumes "now \<le> 2 ^ 53" "t \<le> 2 ^ 53"
  shows "at_or_after now (Signed False (round_f64 t 1)) \<longleftrightarrow> t \<le> now"
proof -
  obtain m e where n: "round_f64 now 1 = F64 m e" "real m * 2 powi e = real now" using natural_value [OF assms(1)] by blast
  obtain k f where t: "round_f64 t 1 = F64 k f" "real k * 2 powi f = real t" using natural_value [OF assms(2)] by blast
  show ?thesis unfolding at_or_after_def n(1) t(1) signed.sel f64_le_value n(2) t(2) by simp
qed

section \<open>What is issued verifies\<close>

definition claims_of :: "subject_context \<Rightarrow> nat option \<Rightarrow> json" where
  "claims_of sc expires =
     JObject ([(ascii ''sub'', JString (to_hex_string (ctx_subject sc))),
       (ascii ''roles'', JArray (map (\<lambda>r. JString (to_hex_string r)) (ctx_roles sc)))] @
       (case expires of Some e \<Rightarrow> [(ascii ''exp'', json_of_u64 e)] | None \<Rightarrow> []))"

lemma claim_names: "ascii ''sub'' \<noteq> ascii ''roles''" "ascii ''sub'' \<noteq> ascii ''exp''" "ascii ''roles'' \<noteq> ascii ''exp''"
  by code_simp+

lemma issue_token:
  "issue secret sc expires =
     (let p = b64_encode (json_text (claims_of sc expires)); s = HEADER_B64 @ [46] @ p
      in Ok (s @ [46] @ b64_encode (hmac_sha256 secret s)))"
  by (cases expires)
    (simp_all add: issue_def claims_of_def json_set_def json_object_def json_of_list_def comp_def
      claim_names claim_names [symmetric] Let_def)

lemma b64_no_dot: "46 \<notin> set (b64_encode bs)"
proof -
  have "b64_char v \<noteq> 46" for v
  proof -
    have "list_all (\<lambda>k. ALPHABET ! k \<noteq> 46) [0..<64]" by code_simp
    then show ?thesis using unat_sextet [of v] by (simp add: b64_char_def list_all_iff)
  qed
  then have "46 \<notin> set (encode_chunk c)" for c by (auto simp: encode_chunk_def Let_def)
  then show ?thesis by (auto simp: b64_encode_def)
qed

lemma header_no_dot: "46 \<notin> set HEADER_B64"
  by code_simp

lemma split_token:
  "split_on 46 (HEADER_B64 @ [46] @ b64_encode p @ [46] @ b64_encode s) = [HEADER_B64, b64_encode p, b64_encode s]"
  using split_on_append [OF header_no_dot, of "b64_encode p @ [46] @ b64_encode s"]
    split_on_append [OF b64_no_dot, of p "b64_encode s"] split_on_plain [OF b64_no_dot, of s] by simp

lemma hex_valid: "utf8_valid (to_hex_string t)"
proof -
  have "list_all (\<lambda>b. unat b < 128) (to_hex_string t)"
    using ascii_concat_hex2 [of "as_bytes t"] by (simp add: to_hex_string_def ascii_only_def list_all_iff)
  then show ?thesis using chars_ascii_list by blast
qed

definition times_exact :: "nat \<Rightarrow> nat option \<Rightarrow> bool" where
  "times_exact now expires \<longleftrightarrow> now \<le> 2 ^ 53 \<and> (\<forall>e. expires = Some e \<longrightarrow> e \<le> 2 ^ 53)"

lemma expiry_number:
  assumes "e \<le> 2 ^ 53"
  shows "number_ok (Signed False (round_f64 e 1))" and "plain_number (Signed False (round_f64 e 1)) = Signed False (round_f64 e 1)"
  using natural_value [OF assms] by (auto simp: plain_number_def)

lemma claim_name_valid: "utf8_valid (ascii ''sub'')" "utf8_valid (ascii ''roles'')" "utf8_valid (ascii ''exp'')"
  by code_simp+

lemma claims_read_back:
  assumes "times_exact now expires"
  shows "json_parse (json_text (claims_of sc expires)) = Ok (claims_of sc expires)"
    and "utf8_valid (json_text (claims_of sc expires))"
proof -
  have w: "json_wf number_ok 64 (claims_of sc expires)"
    using assms expiry_number(1) by (auto simp: claims_of_def times_exact_def hex_valid claim_name_valid json_of_u64_def split: option.splits)
  have "plain (claims_of sc expires) = claims_of sc expires"
    using assms expiry_number(2) by (auto simp: claims_of_def times_exact_def json_of_u64_def split: option.splits)
  with json_round [OF w] show "json_parse (json_text (claims_of sc expires)) = Ok (claims_of sc expires)" by simp
  show "utf8_valid (json_text (claims_of sc expires))" by (rule json_text_valid [OF w])
qed

lemma id_claim_hex: "wf_tuid t \<Longrightarrow> id_claim (JString (to_hex_string t)) = Ok t"
  by (simp add: id_claim_def some_or_malformed_def or_malformed_def as_str_def from_hex_to_hex)

lemma id_claims_hex: "list_all wf_tuid ts \<Longrightarrow> id_claims (map (\<lambda>r. JString (to_hex_string r)) ts) = Ok ts"
  by (induction ts) (simp_all add: id_claim_hex)

lemma read_claims_of:
  assumes t: "times_exact now expires" and "wf_tuid (ctx_subject sc)" and "list_all wf_tuid (ctx_roles sc)"
  shows "read_claims (claims_of sc expires) now =
    (if \<exists>e. expires = Some e \<and> e \<le> now then Err TokExpired else Ok sc)"
proof (cases expires)
  case None
  then show ?thesis using assms id_claim_hex id_claims_hex
    by (simp add: read_claims_def claims_of_def json_get_def some_or_malformed_def as_array_def claim_names)
next
  case (Some e)
  then have "at_or_after now (Signed False (round_f64 e 1)) \<longleftrightarrow> e \<le> now"
    using t at_or_after_exact by (simp add: times_exact_def)
  then show ?thesis using assms Some id_claim_hex id_claims_hex
    by (simp add: read_claims_def claims_of_def json_get_def some_or_malformed_def as_array_def as_f64_def json_of_u64_def claim_names)
qed

lemma issued_verifies:
  assumes "times_exact now expires" and "wf_tuid (ctx_subject sc)" and "list_all wf_tuid (ctx_roles sc)"
    and "issue secret sc expires = Ok token"
  shows "verify secret token now = (if \<exists>e. expires = Some e \<and> e \<le> now then Err TokExpired else Ok sc)"
proof -
  let ?p = "json_text (claims_of sc expires)"
  let ?s = "HEADER_B64 @ [46] @ b64_encode ?p"
  have "verify secret (?s @ [46] @ b64_encode (hmac_sha256 secret ?s)) now = read_claims (claims_of sc expires) now"
    using claims_read_back [OF assms(1), of sc] split_token [of ?p "hmac_sha256 secret ?s"]
    by (simp add: verify_def b64_decode_encode or_malformed_def constant_time_eq_iff)
  then show ?thesis using read_claims_of [OF assms(1-3)] assms(4) by (simp add: issue_token Let_def)
qed

section \<open>What the claims say\<close>

text \<open>An expiry that a time in seconds has not reached.\<close>

definition before_expiry :: "nat \<Rightarrow> signed \<Rightarrow> bool" where
  "before_expiry now expiry \<longleftrightarrow> \<not> negative expiry \<and> (\<forall>m e. magnitude expiry = F64 m e \<longrightarrow> real now < real m * 2 powi e)"

lemma not_at_or_after: "now \<le> 2 ^ 53 \<Longrightarrow> \<not> at_or_after now expiry \<longleftrightarrow> before_expiry now expiry"
proof -
  assume "now \<le> 2 ^ 53"
  then obtain m e where n: "round_f64 now 1 = F64 m e" "real m * 2 powi e = real now" using natural_value by blast
  show ?thesis
  proof (cases "magnitude expiry")
    case (F64 k f)
    then show ?thesis unfolding at_or_after_def n(1) F64 before_expiry_def f64_le_value n(2) by auto
  next
    case F64_inf
    then show ?thesis unfolding at_or_after_def n(1) F64_inf before_expiry_def by (simp add: f64_le_def)
  qed
qed

lemma id_claim_Ok: "id_claim v = Ok t \<longleftrightarrow> (\<exists>s. v = JString s \<and> from_hex_str s = Ok (Some t))"
  by (cases v) (auto simp: id_claim_def some_or_malformed_def or_malformed_def as_str_def obind_eq_Ok split: option.splits outcome.splits)

lemma id_claims_Ok:
  "id_claims vs = Ok ts \<longleftrightarrow> (\<exists>names. vs = map JString names \<and> list_all2 (\<lambda>s t. from_hex_str s = Ok (Some t)) names ts)"
proof (induction vs arbitrary: ts)
  case (Cons v vs)
  have "id_claims (v # vs) = Ok ts \<longleftrightarrow> (\<exists>t ts'. ts = t # ts' \<and> id_claim v = Ok t \<and> id_claims vs = Ok ts')"
    by (auto simp: obind_eq_Ok)
  then show ?case by (auto simp: id_claim_Ok Cons.IH Cons_eq_map_conv list_all2_Cons1)
qed auto

lemma read_claims_Ok:
  assumes "now \<le> 2 ^ 53"
  shows "read_claims claims now = Ok ctx \<longleftrightarrow>
    (\<exists>subject names. json_get claims (ascii ''sub'') = Some (JString subject) \<and> from_hex_str subject = Ok (Some (ctx_subject ctx)) \<and>
       json_get claims (ascii ''roles'') = Some (JArray (map JString names)) \<and>
       list_all2 (\<lambda>s t. from_hex_str s = Ok (Some t)) names (ctx_roles ctx)) \<and>
    (\<forall>expiry. json_get claims (ascii ''exp'') = Some (JNumber expiry) \<longrightarrow> before_expiry now expiry)"
proof -
  have some: "some_or_malformed v = Ok a \<longleftrightarrow> v = Some a" for v :: "'x option" and a
    by (simp add: some_or_malformed_def split: option.split)
  have arr: "Option.bind v as_array = Some vs \<longleftrightarrow> v = Some (JArray vs)" for v vs
    by (cases v) (auto simp: as_array_def split: json.splits)
  have expr: "(case Option.bind v as_f64 of Some expiry \<Rightarrow> if at_or_after now expiry then Err TokExpired else Ok c | None \<Rightarrow> Ok c) = Ok ctx \<longleftrightarrow>
      c = ctx \<and> (\<forall>expiry. v = Some (JNumber expiry) \<longrightarrow> before_expiry now expiry)" for v c
    by (cases v) (auto simp: as_f64_def not_at_or_after [OF assms, symmetric] split: json.splits)
  have "read_claims claims now = Ok ctx \<longleftrightarrow>
      (\<exists>sub t roles rs. json_get claims (ascii ''sub'') = Some sub \<and> id_claim sub = Ok t \<and>
         json_get claims (ascii ''roles'') = Some (JArray roles) \<and> id_claims roles = Ok rs \<and>
         \<lparr> ctx_subject = t, ctx_roles = rs \<rparr> = ctx \<and>
         (\<forall>expiry. json_get claims (ascii ''exp'') = Some (JNumber expiry) \<longrightarrow> before_expiry now expiry))"
    unfolding read_claims_def obind_eq_Ok some arr expr by blast
  also have "\<dots> \<longleftrightarrow> ((\<exists>subject names. json_get claims (ascii ''sub'') = Some (JString subject) \<and> from_hex_str subject = Ok (Some (ctx_subject ctx)) \<and>
       json_get claims (ascii ''roles'') = Some (JArray (map JString names)) \<and>
       list_all2 (\<lambda>s t. from_hex_str s = Ok (Some t)) names (ctx_roles ctx)) \<and>
    (\<forall>expiry. json_get claims (ascii ''exp'') = Some (JNumber expiry) \<longrightarrow> before_expiry now expiry))"
    by (cases ctx) (auto simp: id_claim_Ok id_claims_Ok)
  finally show ?thesis .
qed

section \<open>Properties\<close>

text \<open>
  Access tokens do what they say. A token issued for a subject and its roles verifies under
  the same secret as exactly that subject with these roles, as long as its expiry is not reached; from
  the second of its expiry on it is refused as expired.
\<close>

lemma tokens_verify:
  assumes "times_exact now expires" and "wf_tuid (ctx_subject sc)" and "list_all wf_tuid (ctx_roles sc)"
  shows "\<exists>token. issue secret sc expires = Ok token \<and>
    verify secret token now = (if \<exists>e. expires = Some e \<and> e \<le> now then Err TokExpired else Ok sc)"
  using issued_verifies [OF assms] by (simp add: issue_token Let_def)

text \<open>What an accepted request proves: a signature over the claims, and claims that name the caller and are not past their expiry.\<close>

lemma authorize_Ok:
  "authorize mode bearer now = Ok who \<longleftrightarrow>
     mode = Insecure \<and> who = None \<or>
     (\<exists>secret payload_b64 signature_b64 payload claims ctx.
        mode = Enforced secret \<and> who = Some ctx \<and>
        bearer = Some (HEADER_B64 @ [46] @ payload_b64 @ [46] @ signature_b64) \<and>
        46 \<notin> set payload_b64 \<and> 46 \<notin> set signature_b64 \<and>
        b64_decode signature_b64 = Ok (hmac_sha256 secret (HEADER_B64 @ [46] @ payload_b64)) \<and>
        b64_decode payload_b64 = Ok payload \<and> utf8_valid payload \<and> json_parse payload = Ok claims \<and>
        read_claims claims now = Ok ctx)"
  (is "?l \<longleftrightarrow> ?r")
proof
  assume ?l
  show ?r
  proof (cases mode)
    case (Enforced secret)
    then obtain token ctx where t: "bearer = Some token" "who = Some ctx" "verify secret token now = Ok ctx"
      using \<open>?l\<close> by (auto simp: authorize_def split: option.splits)
    obtain h p s where sp: "split_on 46 token = [h, p, s]" using t(3) by (auto simp: verify_def split: list.splits)
    have tok: "token = h @ [46] @ p @ [46] @ s" "46 \<notin> set p" "46 \<notin> set s" using split_on_join [OF sp] by simp_all
    have "h = HEADER_B64" using t(3) by (auto simp: verify_def sp split: if_splits)
    with t(3) obtain payload claims where
      "b64_decode s = Ok (hmac_sha256 secret (HEADER_B64 @ [46] @ p))" "b64_decode p = Ok payload" "utf8_valid payload"
      "json_parse payload = Ok claims" "read_claims claims now = Ok ctx"
      by (auto simp: verify_def sp obind_eq_Ok or_malformed_def constant_time_eq_iff Let_def split: if_splits outcome.splits)
    with \<open>h = HEADER_B64\<close> tok t Enforced show ?thesis by blast
  qed (use \<open>?l\<close> in \<open>simp add: authorize_def\<close>)
next
  assume ?r
  then consider "mode = Insecure" "who = None"
    | secret p s payload claims ctx where
        "mode = Enforced secret" "who = Some ctx" "bearer = Some (HEADER_B64 @ [46] @ p @ [46] @ s)"
        "46 \<notin> set p" "46 \<notin> set s" "b64_decode s = Ok (hmac_sha256 secret (HEADER_B64 @ [46] @ p))"
        "b64_decode p = Ok payload" "utf8_valid payload" "json_parse payload = Ok claims" "read_claims claims now = Ok ctx"
    by blast
  then show ?l
  proof cases
    case 2
    have "split_on 46 (HEADER_B64 @ [46] @ p @ [46] @ s) = [HEADER_B64, p, s]"
      using split_on_append [OF header_no_dot, of "p @ [46] @ s"] split_on_append [OF 2(4), of s] split_on_plain [OF 2(5)] by simp
    then show ?thesis using 2 by (simp add: authorize_def verify_def or_malformed_def constant_time_eq_iff)
  qed (simp add: authorize_def)
qed

text \<open>
  C13: nobody gets in without a signature. Where authentication is enforced, a request is let in exactly with a
  token whose third part decodes to the HMAC-SHA256 of the first two under the secret and whose second part decodes to claims:
  the subject and the roles of the caller are the identifiers that the claims \<^verbatim>\<open>sub\<close> and \<^verbatim>\<open>roles\<close> write in hexadecimal, and where
  there is a claim \<^verbatim>\<open>exp\<close> with a number, the time is before it. Times are whole seconds up to \<open>2 ^ 53\<close>. Where authentication is
  off, every request is let in, without an identity.
\<close>

theorem authorization_sound:
  assumes "now \<le> 2 ^ 53"
  shows "authorize mode bearer now = Ok who \<longleftrightarrow>
     mode = Insecure \<and> who = None \<or>
     (\<exists>secret payload_b64 signature_b64 payload claims ctx subject names.
        mode = Enforced secret \<and> who = Some ctx \<and>
        bearer = Some (HEADER_B64 @ [46] @ payload_b64 @ [46] @ signature_b64) \<and>
        46 \<notin> set payload_b64 \<and> 46 \<notin> set signature_b64 \<and>
        b64_decode signature_b64 = Ok (hmac_sha256 secret (HEADER_B64 @ [46] @ payload_b64)) \<and>
        b64_decode payload_b64 = Ok payload \<and> utf8_valid payload \<and> json_parse payload = Ok claims \<and>
        json_get claims (ascii ''sub'') = Some (JString subject) \<and> from_hex_str subject = Ok (Some (ctx_subject ctx)) \<and>
        json_get claims (ascii ''roles'') = Some (JArray (map JString names)) \<and>
        list_all2 (\<lambda>s t. from_hex_str s = Ok (Some t)) names (ctx_roles ctx) \<and>
        (\<forall>expiry. json_get claims (ascii ''exp'') = Some (JNumber expiry) \<longrightarrow>
           \<not> negative expiry \<and> (\<forall>m e. magnitude expiry = F64 m e \<longrightarrow> real now < real m * 2 powi e)))"
  unfolding authorize_Ok read_claims_Ok [OF assms] before_expiry_def by blast

text \<open>A token that ends at second 5 lets its subject in at second 4.\<close>

definition token_holder :: subject_context where
  "token_holder = \<lparr> ctx_subject = NIL, ctx_roles = [NIL] \<rparr>"

lemma authorization_sound_witness:
  "\<exists>payload_b64 signature_b64.
     authorize (Enforced [107]) (Some (HEADER_B64 @ [46] @ payload_b64 @ [46] @ signature_b64)) 4 = Ok (Some token_holder) \<and>
     b64_decode signature_b64 = Ok (hmac_sha256 [107] (HEADER_B64 @ [46] @ payload_b64))"
proof -
  obtain token where t: "issue [107] token_holder (Some 5) = Ok token" by (simp add: issue_token Let_def)
  have wf: "wf_tuid NIL" by (simp add: NIL_def wf_tuid_def TUID_LEN_def)
  have "verify [107] token 4 = Ok token_holder"
    using issued_verifies [OF _ _ _ t, of 4] wf by (simp add: times_exact_def token_holder_def)
  then have a: "authorize (Enforced [107]) (Some token) 4 = Ok (Some token_holder)" by (simp add: authorize_def)
  have "(4::nat) \<le> 2 ^ 53" by simp
  from a [unfolded authorization_sound [OF this]] obtain p sg where
    "token = HEADER_B64 @ [46] @ p @ [46] @ sg" "b64_decode sg = Ok (hmac_sha256 [107] (HEADER_B64 @ [46] @ p))" by auto
  with a show ?thesis by blast
qed

end
