(* ===== verification/Gems_Secondary.thy ===== *)
theory Gems_Secondary
  imports Gems_Roaring
begin

text \<open>
  \<^verbatim>\<open>gems-engine/src/secondary.rs\<close>: a secondary index maps the bytes of a field's value to the
  bitmap of the ordinals of the entities that have it. The interface \<open>postings\<close> states what the
  engine relies on: after an insertion or a removal exactly the pair concerned has changed.
\<close>

type_synonym secondary_index = "bytes \<rightharpoonup> roaring"

definition si_new :: secondary_index where "si_new = (\<lambda>_. None)"

definition si_insert :: "bytes \<Rightarrow> nat \<Rightarrow> secondary_index \<Rightarrow> secondary_index" where
  "si_insert v ord s =
     (let bitmap = (case s v of Some b \<Rightarrow> b | None \<Rightarrow> roaring_new) in
      s(v \<mapsto> fst (roaring_insert (of_nat ord) bitmap)))"

definition si_remove :: "bytes \<Rightarrow> nat \<Rightarrow> secondary_index \<Rightarrow> secondary_index" where
  "si_remove v ord s =
     (case s v of
        Some bitmap \<Rightarrow>
          let bitmap = fst (roaring_remove (of_nat ord) bitmap) in
          if roaring_is_empty bitmap then s(v := None) else s(v \<mapsto> bitmap)
      | None \<Rightarrow> s)"

definition si_get :: "secondary_index \<Rightarrow> bytes \<Rightarrow> roaring" where
  "si_get s v = (case s v of Some bitmap \<Rightarrow> bitmap | None \<Rightarrow> roaring_new)"

section \<open>The interface\<close>

locale postings =
  fixes ok :: "'s \<Rightarrow> bool"
    and ords :: "'s \<Rightarrow> 'v \<Rightarrow> nat set"
    and none :: 's
    and ins :: "'v \<Rightarrow> nat \<Rightarrow> 's \<Rightarrow> 's"
    and rem :: "'v \<Rightarrow> nat \<Rightarrow> 's \<Rightarrow> 's"
  assumes ok_none: "ok none" and ords_none: "ords none v = {}"
    and ok_ins: "ok s \<Longrightarrow> n \<le> u32_max \<Longrightarrow> ok (ins v n s)"
    and ords_ins: "ok s \<Longrightarrow> n \<le> u32_max \<Longrightarrow> ords (ins v n s) w = (if w = v then insert n (ords s v) else ords s w)"
    and ok_rem: "ok s \<Longrightarrow> n \<le> u32_max \<Longrightarrow> ok (rem v n s)"
    and ords_rem: "ok s \<Longrightarrow> n \<le> u32_max \<Longrightarrow> ords (rem v n s) w = (if w = v then ords s v - {n} else ords s w)"
begin

text \<open>The index holds exactly the pairs of a relation.\<close>

definition holds :: "(nat \<Rightarrow> 'v \<Rightarrow> bool) \<Rightarrow> 's \<Rightarrow> bool" where
  "holds R s \<longleftrightarrow> ok s \<and> (\<forall>v. ords s v = {n. R n v})"

lemma holds_none: "holds (\<lambda>n v. False) none"
  by (simp add: holds_def ok_none ords_none)

lemma holds_ins: "holds R s \<Longrightarrow> n \<le> u32_max \<Longrightarrow> holds (\<lambda>m w. R m w \<or> (m = n \<and> w = v)) (ins v n s)"
  by (auto simp: holds_def ok_ins ords_ins)

lemma holds_rem: "holds R s \<Longrightarrow> n \<le> u32_max \<Longrightarrow> holds (\<lambda>m w. R m w \<and> \<not> (m = n \<and> w = v)) (rem v n s)"
  by (auto simp: holds_def ok_rem ords_rem)

lemma holds_cong: "holds R s \<Longrightarrow> (\<And>n v. R n v \<longleftrightarrow> Q n v) \<Longrightarrow> holds Q s"
  by (simp add: holds_def)

end

section \<open>The index provides it\<close>

definition si_ok :: "secondary_index \<Rightarrow> bool" where
  "si_ok s \<longleftrightarrow> (\<forall>v b. s v = Some b \<longrightarrow> roaring_ok b)"

definition si_ords :: "secondary_index \<Rightarrow> bytes \<Rightarrow> nat set" where
  "si_ords s v = unat ` roaring_set (si_get s v)"

lemma roaring_new_facts: "roaring_ok roaring_new" "roaring_set roaring_new = {}"
  using roaring.empty_ok roaring.elems_empty by simp_all

lemma si_get_ok: "si_ok s \<Longrightarrow> roaring_ok (si_get s v)"
  by (auto simp: si_ok_def si_get_def roaring_new_facts split: option.splits)

lemma unat_of_ordinal: "n \<le> u32_max \<Longrightarrow> unat (of_nat n :: u32) = n"
  by (simp add: unat_of_nat)

lemma si_get_insert: "si_get (si_insert v n s) w = (if w = v then fst (roaring_insert (of_nat n) (si_get s v)) else si_get s w)"
  by (auto simp: si_get_def si_insert_def Let_def split: option.splits)

lemma si_get_remove:
  "si_ok s \<Longrightarrow> roaring_set (si_get (si_remove v n s) w) =
     (if w = v then roaring_set (si_get s v) - {of_nat n} else roaring_set (si_get s w))"
proof (cases "s v")
  case None
  then show ?thesis by (simp add: si_get_def si_remove_def roaring_new_facts)
next
  case (Some b)
  assume "si_ok s"
  then have "roaring_ok b" using Some by (simp add: si_ok_def)
  note r = roaring_remove_spec [OF this, of "of_nat n"]
  have "roaring_set b - {of_nat n} = {}" if "roaring_is_empty (fst (roaring_remove (of_nat n) b))"
    using r roaring_is_empty_iff [of "fst (roaring_remove (of_nat n) b)"] that by blast
  then show ?thesis using r Some by (simp add: si_get_def si_remove_def Let_def roaring_new_facts)
qed

lemma image_minus_unat: "unat ` (A - {of_nat n :: u32}) = unat ` A - {n}" if "n \<le> u32_max"
proof -
  have "unat ` (A - {of_nat n}) = unat ` A - unat ` {of_nat n :: u32}"
    by (rule image_set_diff) (auto simp: inj_on_def word_unat_eq_iff)
  then show ?thesis using unat_of_ordinal [OF that] by simp
qed

interpretation secondary: postings si_ok si_ords si_new si_insert si_remove
proof unfold_locales
  fix s n v assume s: "si_ok s" and n: "n \<le> u32_max"
  show "si_ok (si_insert v n s)"
    using s roaring_insert_spec [OF si_get_ok [OF s, of v], of "of_nat n"]
    by (auto simp: si_ok_def si_insert_def Let_def si_get_def split: option.splits)
  show "si_ords (si_insert v n s) w = (if w = v then insert n (si_ords s v) else si_ords s w)" for w
    using roaring_insert_spec [OF si_get_ok [OF s, of v], of "of_nat n"] unat_of_ordinal [OF n]
    by (simp add: si_ords_def si_get_insert)
  show "si_ok (si_remove v n s)"
    using s roaring_remove_spec by (auto simp: si_ok_def si_remove_def Let_def split: option.splits if_splits)
  show "si_ords (si_remove v n s) w = (if w = v then si_ords s v - {n} else si_ords s w)" for w
    using si_get_remove [OF s, of v n w] image_minus_unat [OF n] by (simp add: si_ords_def)
qed (simp_all add: si_ok_def si_new_def si_ords_def si_get_def roaring_new_facts)

text \<open>The members of a posting list in increasing order.\<close>

lemma si_iter: "si_ok s \<Longrightarrow> set (map unat (roaring_iter (si_get s v))) = si_ords s v \<and> strict (map unat (roaring_iter (si_get s v)))"
  using roaring_iter_spec [OF si_get_ok [of s v]]
  by (auto simp: si_ords_def sorted_wrt_map word_less_nat_alt [symmetric])

end
