(* ===== verification/Gems_Engine.thy ===== *)
theory Gems_Engine
  imports Gems_Index Gems_Secondary Gems_Abac Gems_Query_Ast
begin

text \<open>
  \<^verbatim>\<open>gems-engine/src/lib.rs\<close>: the store. Three B-trees (identifiers to slots, identifiers to
  ordinals and back), the extent manager and three secondary indexes in memory. A directory is the
  record of its four files; locking it, and the errors of the file system, are not part of the model. The
  page size of the operating system is the parameter \<open>os\<close>. As in a build with overflow checks, counting
  past the last ordinal panics.
\<close>

record store =
  st_primary :: btree
  st_ordinal_by_id :: btree
  st_id_by_ordinal :: btree
  next_ordinal :: nat
  st_data :: extent_manager
  by_kind :: secondary_index
  by_schema_ref :: secondary_index
  entity_type_by_name :: secondary_index

record store_files =
  primary_file :: disk_file
  ordinal_file :: disk_file
  reverse_ordinal_file :: disk_file
  data_file :: disk_file

definition DEFAULT_INDEX_PAGE_SIZE :: nat where "DEFAULT_INDEX_PAGE_SIZE = 4096"

definition kind_key :: "entity_kind \<Rightarrow> bytes" where
  "kind_key k = [of_nat (kind_to_u8 k)]"

definition schema_ref_key :: "tuid \<Rightarrow> bytes" where
  "schema_ref_key t = as_bytes t"

definition name_key :: "bytes \<Rightarrow> bytes" where
  "name_key n = n"

text \<open>\<^verbatim>\<open>collect\<close> of an iterator of results: the values up to the first error.\<close>

primrec try_collect :: "('a \<Rightarrow> 'b result) \<Rightarrow> 'a list \<Rightarrow> 'b list result" where
  "try_collect f [] = Ok []"
| "try_collect f (x # xs) = obind (f x) (\<lambda>y. omap (\<lambda>ys. y # ys) (try_collect f xs))"

section \<open>Entities in slots\<close>

definition read_at :: "store \<Rightarrow> slot_pointer \<Rightarrow> (entity_header \<times> bytes) result" where
  "read_at s ptr =
     obind (class_from_index (ptr_class ptr)) (\<lambda>c.
     obind (manager_read (st_data s) ptr (block_size c)) (\<lambda>blob.
     obind (header_decode blob) (\<lambda>header.
     let body_start = body_offset header; body_end = body_start + body_len header in
     if length blob < body_end then Err (CorruptPage ''entity body extends past its stored slot'')
     else omap (\<lambda>body. (header, body)) (slice blob body_start body_end))))"

definition store_index_header :: "entity_header \<Rightarrow> nat \<Rightarrow> store \<Rightarrow> store" where
  "store_index_header header ord s =
     (let s = s\<lparr> by_kind := si_insert (kind_key (hdr_kind header)) ord (by_kind s) \<rparr>;
          s = s\<lparr> by_schema_ref := si_insert (schema_ref_key (schema_ref header)) ord (by_schema_ref s) \<rparr> in
      if hdr_kind header = EntityType
      then s\<lparr> entity_type_by_name := si_insert (name_key (hdr_name header)) ord (entity_type_by_name s) \<rparr>
      else s)"

definition store_deindex_header :: "entity_header \<Rightarrow> nat \<Rightarrow> store \<Rightarrow> store" where
  "store_deindex_header header ord s =
     (let s = s\<lparr> by_kind := si_remove (kind_key (hdr_kind header)) ord (by_kind s) \<rparr>;
          s = s\<lparr> by_schema_ref := si_remove (schema_ref_key (schema_ref header)) ord (by_schema_ref s) \<rparr> in
      if hdr_kind header = EntityType
      then s\<lparr> entity_type_by_name := si_remove (name_key (hdr_name header)) ord (entity_type_by_name s) \<rparr>
      else s)"

definition ordinal_for :: "nat \<Rightarrow> tuid \<Rightarrow> store \<Rightarrow> (store \<times> nat) result" where
  "ordinal_for os i s =
     obind (btree_get tuid_codec ordinal_codec (st_ordinal_by_id s) i) (\<lambda>existing.
     case existing of
       Some ord \<Rightarrow> Ok (s, ord)
     | None \<Rightarrow>
         let ord = next_ordinal s in
         if ord = u32_max then Panic
         else
           let s = s\<lparr> next_ordinal := ord + 1 \<rparr> in
           obind (btree_insert os tuid_codec ordinal_codec i ord (st_ordinal_by_id s)) (\<lambda>b.
           let s = s\<lparr> st_ordinal_by_id := b \<rparr> in
           obind (btree_insert os ordinal_codec tuid_codec ord i (st_id_by_ordinal s)) (\<lambda>b.
           Ok (s\<lparr> st_id_by_ordinal := b \<rparr>, ord))))"

section \<open>Creating and opening\<close>

definition store_create :: "nat \<Rightarrow> store result" where
  "store_create os =
     obind (btree_create os DEFAULT_INDEX_PAGE_SIZE tuid_codec slot_pointer_codec) (\<lambda>p.
     obind (btree_create os DEFAULT_INDEX_PAGE_SIZE tuid_codec ordinal_codec) (\<lambda>b.
     obind (btree_create os DEFAULT_INDEX_PAGE_SIZE ordinal_codec tuid_codec) (\<lambda>c.
     Ok \<lparr> st_primary = p, st_ordinal_by_id = b, st_id_by_ordinal = c, next_ordinal = 0,
          st_data = manager_create 0, by_kind = si_new, by_schema_ref = si_new, entity_type_by_name = si_new \<rparr>)))"

text \<open>The loop of \<^verbatim>\<open>rebuild_in_memory_indexes\<close> over the entries of the primary index.\<close>

primrec rebuild_loop :: "(tuid \<times> slot_pointer) list \<Rightarrow> nat option \<Rightarrow> store \<Rightarrow> (store \<times> nat option) result" where
  "rebuild_loop [] max_ordinal s = Ok (s, max_ordinal)"
| "rebuild_loop (e # es) max_ordinal s =
     obind (btree_get tuid_codec ordinal_codec (st_ordinal_by_id s) (fst e)) (\<lambda>found.
     case found of
       None \<Rightarrow> Err (CorruptPage ''entity in primary index has no assigned ordinal'')
     | Some ord \<Rightarrow>
         let max_ordinal = Some (case max_ordinal of None \<Rightarrow> ord | Some m \<Rightarrow> max m ord) in
         obind (read_at s (snd e)) (\<lambda>(header, _).
         rebuild_loop es max_ordinal (store_index_header header ord s)))"

definition rebuild_in_memory_indexes :: "store \<Rightarrow> store result" where
  "rebuild_in_memory_indexes s =
     obind (btree_scan_all tuid_codec slot_pointer_codec (st_primary s)) (\<lambda>es.
     obind (rebuild_loop es None s) (\<lambda>(s, max_ordinal).
     case max_ordinal of
       None \<Rightarrow> Ok (s\<lparr> next_ordinal := 0 \<rparr>)
     | Some m \<Rightarrow> if m = u32_max then Panic else Ok (s\<lparr> next_ordinal := m + 1 \<rparr>)))"

definition store_open :: "nat \<Rightarrow> store_files \<Rightarrow> bool \<Rightarrow> store result" where
  "store_open os dir writable =
     obind (btree_open os (primary_file dir) writable) (\<lambda>p.
     obind (btree_open os (ordinal_file dir) writable) (\<lambda>b.
     obind (btree_open os (reverse_ordinal_file dir) writable) (\<lambda>c.
     obind (manager_open os (data_file dir) 0 writable) (\<lambda>d.
     rebuild_in_memory_indexes
       \<lparr> st_primary = p, st_ordinal_by_id = b, st_id_by_ordinal = c, next_ordinal = 0,
         st_data = d, by_kind = si_new, by_schema_ref = si_new, entity_type_by_name = si_new \<rparr>))))"

text \<open>The files of a store that was closed.\<close>

definition store_image :: "store \<Rightarrow> store_files" where
  "store_image s =
     \<lparr> primary_file = disk_image (bt_pager (st_primary s)),
       ordinal_file = disk_image (bt_pager (st_ordinal_by_id s)),
       reverse_ordinal_file = disk_image (bt_pager (st_id_by_ordinal s)),
       data_file = disk_image (ext_file (st_data s)) \<rparr>"

section \<open>Insert, get, delete, scan\<close>

definition store_insert :: "nat \<Rightarrow> entity_header \<Rightarrow> bytes \<Rightarrow> store \<Rightarrow> store result" where
  "store_insert os header body s =
     (let header = header\<lparr> body_offset := ENCODED_LEN, body_len := length body mod 2 ^ 32 \<rparr>;
          blob = header_encode header @ body in
      obind (allocate os (length blob) (st_data s)) (\<lambda>(d, ptr).
      obind (manager_write os ptr blob d) (\<lambda>d.
      obind (ordinal_for os (hdr_id header) (s\<lparr> st_data := d \<rparr>)) (\<lambda>(s, ord).
      obind (btree_get tuid_codec slot_pointer_codec (st_primary s) (hdr_id header)) (\<lambda>old.
      obind
        (case old of
           None \<Rightarrow> Ok s
         | Some old_ptr \<Rightarrow>
             obind (read_at s old_ptr) (\<lambda>(old_header, _).
             let s = store_deindex_header old_header ord s in
             omap (\<lambda>d. s\<lparr> st_data := d \<rparr>) (manager_free os old_ptr (st_data s))))
        (\<lambda>s.
         let s = store_index_header header ord s in
         omap (\<lambda>b. s\<lparr> st_primary := b \<rparr>)
           (btree_insert os tuid_codec slot_pointer_codec (hdr_id header) ptr (st_primary s))))))))"

definition store_get :: "store \<Rightarrow> tuid \<Rightarrow> (entity_header \<times> bytes) option result" where
  "store_get s i =
     obind (btree_get tuid_codec slot_pointer_codec (st_primary s) i) (\<lambda>found.
     case found of None \<Rightarrow> Ok None | Some ptr \<Rightarrow> omap Some (read_at s ptr))"

definition store_delete :: "nat \<Rightarrow> tuid \<Rightarrow> store \<Rightarrow> (store \<times> bool) result" where
  "store_delete os i s =
     obind (btree_delete os tuid_codec slot_pointer_codec i (st_primary s)) (\<lambda>(p, found).
     let s = s\<lparr> st_primary := p \<rparr> in
     case found of
       None \<Rightarrow> Ok (s, False)
     | Some ptr \<Rightarrow>
         obind (read_at s ptr) (\<lambda>(header, _).
         obind (btree_delete os tuid_codec ordinal_codec i (st_ordinal_by_id s)) (\<lambda>(b, retired).
         let s = s\<lparr> st_ordinal_by_id := b \<rparr> in
         obind
           (case retired of
              None \<Rightarrow> Ok s
            | Some ord \<Rightarrow>
                omap (\<lambda>(c, _). store_deindex_header header ord (s\<lparr> st_id_by_ordinal := c \<rparr>))
                  (btree_delete os ordinal_codec tuid_codec ord (st_id_by_ordinal s)))
           (\<lambda>s. omap (\<lambda>d. (s\<lparr> st_data := d \<rparr>, True)) (manager_free os ptr (st_data s))))))"

definition store_scan_all :: "store \<Rightarrow> (entity_header \<times> bytes) list result" where
  "store_scan_all s =
     obind (btree_scan_all tuid_codec slot_pointer_codec (st_primary s)) (try_collect (\<lambda>(_, ptr). read_at s ptr))"

section \<open>Queries\<close>

definition resolve_ordinals :: "store \<Rightarrow> roaring \<Rightarrow> tuid list result" where
  "resolve_ordinals s ordinals =
     try_collect (\<lambda>ord.
       obind (btree_get ordinal_codec tuid_codec (st_id_by_ordinal s) (unat ord)) (\<lambda>found.
       case found of
         Some i \<Rightarrow> Ok i
       | None \<Rightarrow> Err (CorruptPage ''secondary index referenced an ordinal with no reverse mapping'')))
       (roaring_iter ordinals)"

definition query_by_kind :: "store \<Rightarrow> entity_kind \<Rightarrow> tuid list result" where
  "query_by_kind s kind = resolve_ordinals s (si_get (by_kind s) (kind_key kind))"

definition query_by_schema_ref :: "store \<Rightarrow> tuid \<Rightarrow> tuid list result" where
  "query_by_schema_ref s type_id = resolve_ordinals s (si_get (by_schema_ref s) (schema_ref_key type_id))"

definition find_entity_type_by_name :: "store \<Rightarrow> bytes \<Rightarrow> tuid option result" where
  "find_entity_type_by_name s name =
     omap (\<lambda>ids. case ids of [] \<Rightarrow> None | i # _ \<Rightarrow> Some i)
       (resolve_ordinals s (si_get (entity_type_by_name s) (name_key name)))"

text \<open>The loop over the values of \<^verbatim>\<open>type IN (...)\<close>.\<close>

primrec match_types :: "store \<Rightarrow> literal list \<Rightarrow> roaring \<Rightarrow> roaring result" where
  "match_types s [] matched = Ok matched"
| "match_types s (value # values) matched =
     obind
       (case value of
          LIdent n \<Rightarrow> Ok n
        | LStr n \<Rightarrow> Ok n
        | _ \<Rightarrow> Err (InvalidValue ''type names in `type IN (...)` must be identifiers or strings''))
       (\<lambda>name. obind (find_entity_type_by_name s name) (\<lambda>found.
        match_types s values
          (case found of
             Some type_id \<Rightarrow> roaring_union matched (si_get (by_schema_ref s) (schema_ref_key type_id))
           | None \<Rightarrow> matched)))"

definition eval_type_in_filter :: "store \<Rightarrow> expr \<Rightarrow> tuid list result" where
  "eval_type_in_filter s e =
     (case e of
        In fld values \<Rightarrow>
          if \<not> eq_ignore_ascii_case fld (ascii ''type'')
          then Err (InvalidValue ''this v1 planner only supports filtering on `type`'')
          else obind (match_types s values roaring_new) (resolve_ordinals s)
      | _ \<Rightarrow> Err (InvalidValue ''this v1 planner only supports a top-level `type IN (...)` filter''))"

definition store_query :: "store \<Rightarrow> query \<Rightarrow> tuid list result" where
  "store_query s q =
     (if \<not> eq_ignore_ascii_case (q_from q) (ascii ''entities'')
      then Err (InvalidValue ''the only queryable source is `entities`'')
      else if q_order_by q \<noteq> [] then Err (InvalidValue ''ORDER BY is not supported by this v1 planner'')
      else
        obind
          (case q_filter q of
             None \<Rightarrow> omap (map (\<lambda>(h, _). hdr_id h)) (store_scan_all s)
           | Some f \<Rightarrow> eval_type_in_filter s f)
          (\<lambda>ids. let ids = sort ids in Ok (case q_limit q of None \<Rightarrow> ids | Some limit \<Rightarrow> take limit ids)))"

section \<open>Enforced reads\<close>

definition load_policies :: "store \<Rightarrow> policy list result" where
  "load_policies s =
     obind (query_by_kind s Policy)
       (try_collect (\<lambda>i. obind (store_get s i) (\<lambda>found.
          case found of
            None \<Rightarrow> Err (CorruptPage ''policy id from secondary index missing from storage'')
          | Some (_, body) \<Rightarrow> policy_decode body)))"

definition get_enforced :: "store \<Rightarrow> tuid \<Rightarrow> subject_context \<Rightarrow> (entity_header \<times> bytes) option result" where
  "get_enforced s i subject_ctx =
     obind (store_get s i) (\<lambda>found.
     case found of
       None \<Rightarrow> Ok None
     | Some pair \<Rightarrow>
         obind (load_policies s) (\<lambda>policies.
         omap (\<lambda>es. case es of [] \<Rightarrow> None | e # _ \<Rightarrow> Some e) (enforce policies subject_ctx [pair])))"

primrec fetch_entities :: "store \<Rightarrow> tuid list \<Rightarrow> (entity_header \<times> bytes) list result" where
  "fetch_entities s [] = Ok []"
| "fetch_entities s (i # ids) =
     obind (store_get s i) (\<lambda>found.
     omap (\<lambda>es. case found of Some pair \<Rightarrow> pair # es | None \<Rightarrow> es) (fetch_entities s ids))"

definition query_enforced :: "store \<Rightarrow> query \<Rightarrow> subject_context \<Rightarrow> (entity_header \<times> bytes) list result" where
  "query_enforced s q subject_ctx =
     obind (store_query s q) (\<lambda>ids.
     obind (load_policies s) (\<lambda>policies.
     obind (fetch_entities s ids) (\<lambda>entities. enforce policies subject_ctx entities)))"

end
