(* ===== verification/Gems_Bootstrap.thy ===== *)
theory Gems_Bootstrap
  imports Gems_Bodies Gems_Query_Ast Gems_Abac
begin

text \<open>
  \<^verbatim>\<open>gems-catalog/src/bootstrap.rs\<close>: the roles, policies and the admin subject of a new store, and
  \<^verbatim>\<open>EntityHeader::new\<close>. \<^verbatim>\<open>Tuid::generate\<close> reads the clock and the random device; its results, in the
  order of the calls, are the argument \<open>ids\<close>. The lemmas show what the seeded policies permit.
\<close>

text \<open>\<open>placeholder\<close> is the identifier generated for the author of the entity.\<close>

definition header_new :: "tuid \<Rightarrow> tuid \<Rightarrow> bytes \<Rightarrow> entity_kind \<Rightarrow> tuid \<Rightarrow> entity_header" where
  "header_new placeholder i name kind schema =
     \<lparr> hdr_id = i, created_by = uuid placeholder, modified_by = uuid placeholder,
       modified_at_ns = i64_of_bits (created_at_ns i), hdr_name = name, description = [],
       hdr_flags = 0, hdr_kind = kind, schema_ref = schema, body_offset = 0, body_len = 0 \<rparr>"

definition ADMIN_ROLE_NAME :: bytes where "ADMIN_ROLE_NAME = ascii ''admin''"
definition ANALYST_ROLE_NAME :: bytes where "ANALYST_ROLE_NAME = ascii ''analyst''"
definition CONSUMER_ROLE_NAME :: bytes where "CONSUMER_ROLE_NAME = ascii ''consumer''"

record bootstrap_data =
  admin_role_id :: tuid
  analyst_role_id :: tuid
  consumer_role_id :: tuid
  admin_subject_id :: tuid
  seed_entities :: "(entity_header \<times> bytes) list"

text \<open>The three policies of a new store.\<close>

definition admin_sees_everything :: "tuid \<Rightarrow> policy" where
  "admin_sees_everything admin =
     \<lparr> target = TARGET_ANY, subject = \<lparr> pred_subject = NIL, pred_role = admin \<rparr>,
       effect = Permit, redact_attributes = [] \<rparr>"

definition anyone_reads :: "entity_kind \<Rightarrow> policy" where
  "anyone_reads kind =
     \<lparr> target = \<lparr> target_kind = Some kind, target_schema = NIL \<rparr>,
       subject = SUBJECT_ANY, effect = Permit, redact_attributes = [] \<rparr>"

definition bootstrap :: "(nat \<Rightarrow> tuid) \<Rightarrow> bytes \<Rightarrow> bootstrap_data" where
  "bootstrap ids admin_name =
     (let admin = ids 0; analyst = ids 1; consumer = ids 2; operator = ids 3;
          roles = map (\<lambda>(i, name, p). (header_new (ids p) i name Role NIL, role_encode))
            [(admin, ADMIN_ROLE_NAME, 4), (analyst, ANALYST_ROLE_NAME, 5), (consumer, CONSUMER_ROLE_NAME, 6)];
          policies = map (\<lambda>(policy, i, p). (header_new (ids p) (ids i) (ascii ''policy'') Policy NIL, policy_encode policy))
            [(admin_sees_everything admin, 7, 8), (anyone_reads Data, 9, 10), (anyone_reads EntityType, 11, 12)]
      in \<lparr> admin_role_id = admin, analyst_role_id = analyst, consumer_role_id = consumer, admin_subject_id = operator,
           seed_entities = roles @ policies @
             [(header_new (ids 13) operator admin_name Subject NIL,
               subject_encode \<lparr> subject_kind = User, subject_credentials = None, member_of = [] \<rparr>)] \<rparr>)"

section \<open>What the seed permits\<close>

text \<open>The bodies decode, and the policies among them are the three.\<close>

lemma seed_policies_decode:
  assumes "wf_tuid (ids 0)"
  shows "map (\<lambda>e. policy_decode (snd e)) (filter (\<lambda>e. hdr_kind (fst e) = Policy) (seed_entities (bootstrap ids admin_name))) =
    [Ok (admin_sees_everything (ids 0)), Ok (anyone_reads Data), Ok (anyone_reads EntityType)]"
proof -
  have "policy_ok (admin_sees_everything (ids 0))" "policy_ok (anyone_reads Data)" "policy_ok (anyone_reads EntityType)"
    using assms by (simp_all add: policy_ok_def admin_sees_everything_def anyone_reads_def TARGET_ANY_def SUBJECT_ANY_def)
  then show ?thesis by (simp add: bootstrap_def Let_def header_new_def policy_decode_encode)
qed

lemma seed_decision:
  assumes "ids 0 \<noteq> NIL"
  shows "evaluate [admin_sees_everything (ids 0), anyone_reads Data, anyone_reads EntityType] ctx kind schema =
    (if ids 0 \<in> set (ctx_roles ctx) \<or> kind = Data \<or> kind = EntityType then DecPermit [] else DecDeny)"
  using assms
  by (auto simp: evaluate_def applicable_def policy_applies_def target_matches_def subject_matches_def
      admin_sees_everything_def anyone_reads_def TARGET_ANY_def SUBJECT_ANY_def Let_def)

lemma header_new_ok:
  "wf_tuid placeholder \<Longrightarrow> wf_tuid i \<Longrightarrow> utf8_valid name \<Longrightarrow> wf_tuid schema \<Longrightarrow> wf_header (header_new placeholder i name kind schema)"
  using created_at_le [of i] by (simp add: header_new_def wf_header_def i64_range_def i64_of_bits_def)

lemma seed_headers:
  assumes ids: "\<And>n. wf_tuid (ids n)" and name: "utf8_valid admin_name"
  shows "\<forall>e \<in> set (seed_entities (bootstrap ids admin_name)). wf_header (fst e)"
proof -
  have "utf8_valid ADMIN_ROLE_NAME" "utf8_valid ANALYST_ROLE_NAME" "utf8_valid CONSUMER_ROLE_NAME" "utf8_valid (ascii ''policy'')"
    by code_simp+
  then show ?thesis using ids name by (simp add: bootstrap_def Let_def header_new_ok)
qed

end
