(* ===== verification/Gems_Web_Api.thy ===== *)
theory Gems_Web_Api
  imports Gems_Http Gems_Token Gems_Engine Gems_Shard Gems_Parser Gems_Bootstrap
begin

text \<open>
  \<^verbatim>\<open>gems-webui/src/api.rs\<close>: the read routes of the web server. A handler is a function of
  the environment (the clock, the store directories, the identifiers that \<^verbatim>\<open>Tuid::generate\<close> gives out during
  the request, and the members of the cluster), of the request and of the authentication mode. Its
  error is the status of the code with the source of the message; the texts of messages that other
  crates display are a parameter of \<open>to_response_body\<close>.
\<close>

section \<open>Environment and errors\<close>

record 'addr web_client =
  cl_remote :: "'addr \<Rightarrow> log_record \<Rightarrow> nat option"
  cl_shards :: nat
  cl_map :: "'addr shard_map"

record web_env =
  env_now :: nat
  env_os :: nat
  env_dirs :: "bytes \<Rightarrow> store_files result"
  env_classes :: char_classes
  env_fresh :: "nat \<Rightarrow> tuid"

datatype web_message =
    Note bytes | OfStore gems_error | OfToken token_error | OfQuery parse_error | OfBody body_error
  | ProposeFailed gems_error

type_synonym 'a web = "(nat \<times> web_message, 'a) outcome"

definition with_status :: "nat \<Rightarrow> ('e \<Rightarrow> web_message) \<Rightarrow> ('e, 'a) outcome \<Rightarrow> 'a web" where
  "with_status code f r = (case r of Ok a \<Rightarrow> Ok a | Err e \<Rightarrow> Err (code, f e) | Panic \<Rightarrow> Panic)"

abbreviation store_step :: "'a result \<Rightarrow> 'a web" where
  "store_step \<equiv> with_status 500 OfStore"

definition need :: "nat \<Rightarrow> bytes \<Rightarrow> 'a option \<Rightarrow> 'a web" where
  "need code msg v = (case v of Some a \<Rightarrow> Ok a | None \<Rightarrow> Err (code, Note msg))"

text \<open>\<^verbatim>\<open>Tuid::from_hex_str(s).ok_or(...)\<close>, which can panic.\<close>

definition hex_id :: "bytes \<Rightarrow> bytes \<Rightarrow> tuid web" where
  "hex_id msg s = obind (with_status 400 (\<lambda>_. Note msg) (from_hex_str s)) (need 400 msg)"

text \<open>Errors without a status, as the protocol server and the command line have them.\<close>

type_synonym 'a tool = "(web_message, 'a) outcome"

definition telling :: "('e \<Rightarrow> web_message) \<Rightarrow> ('e, 'a) outcome \<Rightarrow> 'a tool" where
  "telling f r = (case r of Ok a \<Rightarrow> Ok a | Err e \<Rightarrow> Err (f e) | Panic \<Rightarrow> Panic)"

definition required :: "bytes \<Rightarrow> 'a option \<Rightarrow> 'a tool" where
  "required msg v = (case v of Some a \<Rightarrow> Ok a | None \<Rightarrow> Err (Note msg))"

lemma telling_Ok [simp]: "telling f r = Ok a \<longleftrightarrow> r = Ok a"
  by (cases r) (simp_all add: telling_def)

lemma telling_Err [simp]: "telling f r = Err m \<longleftrightarrow> (\<exists>e. r = Err e \<and> m = f e)"
  by (cases r) (auto simp: telling_def)

lemma required_Ok [simp]: "required msg v = Ok a \<longleftrightarrow> v = Some a"
  by (cases v) (simp_all add: required_def)

lemma required_Err [simp]: "required msg v = Err m \<longleftrightarrow> v = None \<and> m = Note msg"
  by (cases v) (auto simp: required_def)

section \<open>Shared steps\<close>

definition web_open :: "web_env \<Rightarrow> http_request \<Rightarrow> store web" where
  "web_open env req =
     obind (need 400 (ascii ''store_dir is required'') (query_param req (ascii ''store_dir''))) (\<lambda>dir.
     with_status 400 OfStore (obind (env_dirs env dir) (\<lambda>files. store_open (env_os env) files False)))"

definition web_authorize :: "web_env \<Rightarrow> http_request \<Rightarrow> auth_mode \<Rightarrow> subject_context option web" where
  "web_authorize env req auth = with_status 401 OfToken (authorize auth (bearer_token req) (env_now env))"

text \<open>\<^verbatim>\<open>Value::object()\<close> with \<^verbatim>\<open>set\<close> called for each pair in turn.\<close>

definition json_build :: "(bytes \<times> json) list \<Rightarrow> json" where
  "json_build kvs = JObject (fold (\<lambda>(k, v) es. entry_set es k v) kvs [])"

fun kind_name :: "entity_kind \<Rightarrow> bytes" where
  "kind_name Data = ascii ''Data''"
| "kind_name EntityAttribute = ascii ''EntityAttribute''"
| "kind_name EntityType = ascii ''EntityType''"
| "kind_name Subject = ascii ''Subject''"
| "kind_name Layer = ascii ''Layer''"
| "kind_name LayerGroup = ascii ''LayerGroup''"
| "kind_name VariantList = ascii ''VariantList''"
| "kind_name Role = ascii ''Role''"
| "kind_name LinkType = ascii ''LinkType''"
| "kind_name Link = ascii ''Link''"
| "kind_name Policy = ascii ''Policy''"

definition summary_fields :: "entity_header \<Rightarrow> (bytes \<times> json) list" where
  "summary_fields header =
     [(ascii ''id'', JString (to_hex_string (hdr_id header))),
      (ascii ''name'', JString (hdr_name header)),
      (ascii ''description'', JString (description header)),
      (ascii ''kind'', JString (kind_name (hdr_kind header))),
      (ascii ''schema_ref'', JString (to_hex_string (schema_ref header)))]"

definition entity_summary :: "entity_header \<Rightarrow> json" where
  "entity_summary header = json_build (summary_fields header)"

text \<open>The loop that looks entities up and pushes their summaries.\<close>

primrec summaries :: "(tuid \<Rightarrow> (entity_header \<times> bytes) option result) \<Rightarrow> tuid list \<Rightarrow> json list web" where
  "summaries look [] = Ok []"
| "summaries look (i # ids) =
     obind (store_step (look i)) (\<lambda>found.
     omap (\<lambda>vs. case found of Some (header, _) \<Rightarrow> entity_summary header # vs | None \<Rightarrow> vs) (summaries look ids))"

section \<open>Routes\<close>

definition list_types :: "web_env \<Rightarrow> http_request \<Rightarrow> auth_mode \<Rightarrow> json web" where
  "list_types env req auth =
     obind (web_authorize env req auth) (\<lambda>_.
     obind (web_open env req) (\<lambda>s.
     obind (store_step (query_by_kind s EntityType)) (\<lambda>ids.
     omap JArray (summaries (store_get s) ids))))"

definition query_route :: "web_env \<Rightarrow> http_request \<Rightarrow> auth_mode \<Rightarrow> json web" where
  "query_route env req auth =
     obind (web_authorize env req auth) (\<lambda>who.
     obind (web_open env req) (\<lambda>s.
     obind (need 400 (ascii ''q (query string) is required'') (query_param req (ascii ''q''))) (\<lambda>query_str.
     obind (with_status 400 OfQuery (parse (env_classes env) query_str)) (\<lambda>parsed.
     case who of
       Some ctx \<Rightarrow>
         omap (\<lambda>es. JArray (map (\<lambda>(header, _). entity_summary header) es))
           (store_step (query_enforced s parsed ctx))
     | None \<Rightarrow>
         obind (store_step (store_query s parsed)) (\<lambda>ids. omap JArray (summaries (store_get s) ids))))))"

primrec string_fields :: "gbv_reader \<Rightarrow> nat list \<Rightarrow> (bytes \<times> json) list result" where
  "string_fields r [] = Ok []"
| "string_fields r (key # keys) =
     obind (gbv_get r key) (\<lambda>found.
     omap (\<lambda>fs. case found of
            Some (tag, val) \<Rightarrow> if tag = Str then (show_nat key, JString (from_utf8_lossy val)) # fs else fs
          | None \<Rightarrow> fs)
       (string_fields r keys))"

text \<open>The end of \<^verbatim>\<open>get_entity\<close>: the summary, and the string fields of a data body that reads.\<close>

definition entity_view :: "entity_header \<Rightarrow> bytes \<Rightarrow> json web" where
  "entity_view header body =
     (if hdr_kind header = Data then
        (case reader_new body of
           Ok r \<Rightarrow>
             omap (\<lambda>fs. json_build (summary_fields header @ [(ascii ''fields'', json_build fs)]))
               (store_step (obind (key_ids r) (string_fields r)))
         | Err _ \<Rightarrow> Ok (entity_summary header)
         | Panic \<Rightarrow> Panic)
      else Ok (entity_summary header))"

definition get_entity :: "web_env \<Rightarrow> http_request \<Rightarrow> auth_mode \<Rightarrow> json web" where
  "get_entity env req auth =
     obind (web_authorize env req auth) (\<lambda>who.
     obind (web_open env req) (\<lambda>s.
     obind (need 400 (ascii ''id is required'') (query_param req (ascii ''id''))) (\<lambda>id_hex.
     obind (hex_id (ascii ''invalid id'') id_hex) (\<lambda>i.
     obind (store_step (case who of Some ctx \<Rightarrow> get_enforced s i ctx | None \<Rightarrow> store_get s i)) (\<lambda>found.
     case found of
       None \<Rightarrow> Err (404, Note (ascii ''no such entity''))
     | Some (header, body) \<Rightarrow> entity_view header body)))))"

definition to_response_body :: "(web_message \<Rightarrow> bytes) \<Rightarrow> json web \<Rightarrow> (unit, bytes) outcome" where
  "to_response_body show r =
     (case r of
        Ok d \<Rightarrow> Ok (json_text (json_build [(ascii ''ok'', JBool True), (ascii ''data'', d)]))
      | Err (_, m) \<Rightarrow> Ok (json_text (json_build [(ascii ''ok'', JBool False), (ascii ''error'', JString (show m))]))
      | Panic \<Rightarrow> Panic)"

end
