(* ===== verification/Gems_Web_Write.thy ===== *)
theory Gems_Web_Write
  imports Gems_Web_Api
begin

text \<open>
  \<^verbatim>\<open>gems-webui/src/write_api.rs\<close> and the routing of \<^verbatim>\<open>main.rs\<close>: the routes that change data, by
  proposing log records to the cluster, with their checks of roles. A write route returns its
  result and the records it submitted, in order.
\<close>

section \<open>Reading the payload\<close>

definition payload_of :: "http_request \<Rightarrow> json web" where
  "payload_of req = with_status 400 OfBody (json_body req)"

definition required_str :: "json \<Rightarrow> bytes \<Rightarrow> bytes web" where
  "required_str body key = need 400 (key @ ascii '' is required'') (Option.bind (json_get body key) as_str)"

definition required_tuid :: "json \<Rightarrow> bytes \<Rightarrow> tuid web" where
  "required_tuid body key = obind (required_str body key) (hex_id (ascii ''invalid '' @ key))"

definition optional_tuid :: "json \<Rightarrow> bytes \<Rightarrow> tuid option web" where
  "optional_tuid body key =
     (case Option.bind (json_get body key) as_str of
        Some hex \<Rightarrow> omap Some (hex_id (ascii ''invalid '' @ key) hex)
      | None \<Rightarrow> Ok None)"

section \<open>Proposals\<close>

fun record_id :: "log_record \<Rightarrow> tuid" where
  "record_id (Insert header body) = hdr_id header"
| "record_id (Delete i) = i"

definition propose_record :: "'addr web_client \<Rightarrow> log_record \<Rightarrow> unit web" where
  "propose_record client rec =
     omap (\<lambda>_. ()) (with_status 502 ProposeFailed
       (sharded_propose (cl_remote client) (cl_shards client) (cl_map client) (record_id rec) rec))"

text \<open>A route that proposes one record at its end, and the loop of \<^verbatim>\<open>setup\<close>.\<close>

definition submit :: "'addr web_client \<Rightarrow> (log_record \<times> json) web \<Rightarrow> json web \<times> log_record list" where
  "submit client plan =
     (case plan of
        Ok (rec, res) \<Rightarrow> (omap (\<lambda>_. res) (propose_record client rec), [rec])
      | Err e \<Rightarrow> (Err e, [])
      | Panic \<Rightarrow> (Panic, []))"

primrec submit_all :: "'addr web_client \<Rightarrow> log_record list \<Rightarrow> unit web \<times> log_record list" where
  "submit_all client [] = (Ok (), [])"
| "submit_all client (rec # recs) =
     (case propose_record client rec of
        Ok _ \<Rightarrow> (case submit_all client recs of (r, sent) \<Rightarrow> (r, rec # sent))
      | Err e \<Rightarrow> (Err e, [rec])
      | Panic \<Rightarrow> (Panic, [rec]))"

section \<open>Roles\<close>

primrec find_named :: "store \<Rightarrow> bytes \<Rightarrow> tuid list \<Rightarrow> tuid option web" where
  "find_named s name [] = Ok None"
| "find_named s name (i # ids) =
     obind (store_step (store_get s i)) (\<lambda>found.
     case found of
       Some (header, _) \<Rightarrow> if hdr_name header = name then Ok (Some i) else find_named s name ids
     | None \<Rightarrow> find_named s name ids)"

definition role_id_by_name :: "store \<Rightarrow> bytes \<Rightarrow> tuid option web" where
  "role_id_by_name s name = obind (store_step (query_by_kind s Role)) (find_named s name)"

primrec require_any :: "subject_context \<Rightarrow> store \<Rightarrow> bytes list \<Rightarrow> bytes list \<Rightarrow> unit web" where
  "require_any ctx s allowed [] = Err (403, Note (ascii ''requires one of these roles''))"
| "require_any ctx s allowed (name # names) =
     obind (role_id_by_name s name) (\<lambda>role.
     case role of
       Some r \<Rightarrow> if r \<in> set (ctx_roles ctx) then Ok () else require_any ctx s allowed names
     | None \<Rightarrow> require_any ctx s allowed names)"

definition require_role :: "subject_context option \<Rightarrow> store \<Rightarrow> bytes list \<Rightarrow> unit web" where
  "require_role who s allowed = (case who of None \<Rightarrow> Ok () | Some ctx \<Rightarrow> require_any ctx s allowed allowed)"

text \<open>The start of every write route: the caller, the store, a role and the payload.\<close>

definition guarded :: "web_env \<Rightarrow> http_request \<Rightarrow> auth_mode \<Rightarrow> bytes list \<Rightarrow> (store \<Rightarrow> json \<Rightarrow> 'a web) \<Rightarrow> 'a web" where
  "guarded env req auth allowed k =
     obind (web_authorize env req auth) (\<lambda>who.
     obind (web_open env req) (\<lambda>s.
     obind (require_role who s allowed) (\<lambda>_.
     obind (payload_of req) (k s))))"

definition list_by_kind_enforced :: "store \<Rightarrow> subject_context option \<Rightarrow> entity_kind \<Rightarrow> json web" where
  "list_by_kind_enforced s who kind =
     obind (store_step (query_by_kind s kind)) (\<lambda>ids.
     omap JArray (summaries (\<lambda>i. case who of Some ctx \<Rightarrow> get_enforced s i ctx | None \<Rightarrow> store_get s i) ids))"

definition list_kind_route :: "web_env \<Rightarrow> http_request \<Rightarrow> auth_mode \<Rightarrow> entity_kind \<Rightarrow> json web" where
  "list_kind_route env req auth kind =
     obind (web_authorize env req auth) (\<lambda>who.
     obind (web_open env req) (\<lambda>s. list_by_kind_enforced s who kind))"

section \<open>Entities, types and subjects\<close>

definition id_result :: "tuid \<Rightarrow> json" where
  "id_result i = json_build [(ascii ''id'', JString (to_hex_string i))]"

definition fields_body :: "json \<Rightarrow> bytes" where
  "fields_body payload =
     (case Option.bind (json_get payload (ascii ''fields'')) json_entries of
        Some es \<Rightarrow>
          builder_finish (fold (\<lambda>(key, v) b.
            builder_push (unat (field_id key)) Str (case as_str v of Some t \<Rightarrow> t | None \<Rightarrow> []) b) es builder_new)
      | None \<Rightarrow> builder_finish builder_new)"

definition save_entity_plan :: "web_env \<Rightarrow> http_request \<Rightarrow> auth_mode \<Rightarrow> (log_record \<times> json) web" where
  "save_entity_plan env req auth =
     guarded env req auth [ADMIN_ROLE_NAME, ANALYST_ROLE_NAME] (\<lambda>s payload.
     obind (required_tuid payload (ascii ''type'')) (\<lambda>type_id.
     obind (required_str payload (ascii ''name'')) (\<lambda>name.
     obind (optional_tuid payload (ascii ''id'')) (\<lambda>given.
     let (i, placeholder) = (case given of Some i \<Rightarrow> (i, env_fresh env 0) | None \<Rightarrow> (env_fresh env 0, env_fresh env 1));
         header = header_new placeholder i name Data type_id
     in Ok (Insert header (fields_body payload), id_result i)))))"

definition delete_plan :: "web_env \<Rightarrow> http_request \<Rightarrow> auth_mode \<Rightarrow> bytes list \<Rightarrow> (log_record \<times> json) web" where
  "delete_plan env req auth allowed =
     guarded env req auth allowed (\<lambda>s payload.
     omap (\<lambda>i. (Delete i, JBool True)) (required_tuid payload (ascii ''id'')))"

definition save_type_plan :: "web_env \<Rightarrow> http_request \<Rightarrow> auth_mode \<Rightarrow> (log_record \<times> json) web" where
  "save_type_plan env req auth =
     guarded env req auth [ADMIN_ROLE_NAME] (\<lambda>s payload.
     omap (\<lambda>name.
       let i = env_fresh env 0;
           entity_type = \<lparr> et_kind = Structural, et_attributes = [], compatible_with = [], incompatible_with = [] \<rparr>
       in (Insert (header_new (env_fresh env 1) i name EntityType NIL) (entity_type_encode entity_type), id_result i))
       (required_str payload (ascii ''name'')))"

definition save_subject_plan :: "web_env \<Rightarrow> http_request \<Rightarrow> auth_mode \<Rightarrow> (log_record \<times> json) web" where
  "save_subject_plan env req auth =
     guarded env req auth [ADMIN_ROLE_NAME] (\<lambda>s payload.
     omap (\<lambda>name.
       let i = env_fresh env 0;
           new_subject = \<lparr> subject_kind = User, subject_credentials = None, member_of = [] \<rparr>
       in (Insert (header_new (env_fresh env 1) i name Subject NIL) (subject_encode new_subject), id_result i))
       (required_str payload (ascii ''name'')))"

primrec named_roles :: "store \<Rightarrow> json list \<Rightarrow> tuid list web" where
  "named_roles s [] = Ok []"
| "named_roles s (v # vs) =
     obind (need 400 (ascii ''role_names must be an array of strings'') (as_str v)) (\<lambda>name.
     obind (obind (role_id_by_name s name) (need 400 (ascii ''no such role: '' @ name))) (\<lambda>r.
     omap (\<lambda>rs. r # rs) (named_roles s vs)))"

definition issue_token :: "web_env \<Rightarrow> http_request \<Rightarrow> auth_mode \<Rightarrow> json web" where
  "issue_token env req auth =
     obind (web_authorize env req auth) (\<lambda>who.
     obind (web_open env req) (\<lambda>s.
     obind (require_role who s [ADMIN_ROLE_NAME]) (\<lambda>_.
     case auth of
       Insecure \<Rightarrow> Err (400, Note (ascii ''cannot issue tokens while running --insecure (there is no secret to sign with)''))
     | Enforced secret \<Rightarrow>
         obind (payload_of req) (\<lambda>payload.
         obind (required_tuid payload (ascii ''subject_id'')) (\<lambda>target_subject_id.
         obind (need 400 (ascii ''role_names is required'') (Option.bind (json_get payload (ascii ''role_names'')) as_array)) (\<lambda>names.
         obind (named_roles s names) (\<lambda>roles.
         obind (with_status 500 (\<lambda>_. Note []) (issue secret \<lparr> ctx_subject = target_subject_id, ctx_roles = roles \<rparr> None)) (\<lambda>token.
         Ok (json_build [(ascii ''token'', JString token)])))))))))"

section \<open>Policies\<close>

definition parse_entity_kind :: "bytes \<Rightarrow> entity_kind web" where
  "parse_entity_kind s =
     (if s = ascii ''Data'' then Ok Data
      else if s = ascii ''EntityType'' then Ok EntityType
      else if s = ascii ''Subject'' then Ok Subject
      else if s = ascii ''Role'' then Ok Role
      else if s = ascii ''Policy'' then Ok Policy
      else Err (400, Note (ascii ''unknown target_kind'')))"

definition parse_effect :: "bytes \<Rightarrow> effect web" where
  "parse_effect s =
     (if s = ascii ''permit'' then Ok Permit
      else if s = ascii ''deny'' then Ok Deny
      else Err (400, Note (ascii ''effect must be permit or deny'')))"

definition redact_fields :: "json \<Rightarrow> nat list" where
  "redact_fields payload =
     (case Option.bind (json_get payload (ascii ''redact_fields'')) as_array of
        Some vs \<Rightarrow> map (\<lambda>t. unat (field_id t)) (List.map_filter as_str vs)
      | None \<Rightarrow> [])"

definition or_nil :: "tuid option \<Rightarrow> tuid" where
  "or_nil i = (case i of Some i \<Rightarrow> i | None \<Rightarrow> NIL)"

definition save_policy_plan :: "web_env \<Rightarrow> http_request \<Rightarrow> auth_mode \<Rightarrow> (log_record \<times> json) web" where
  "save_policy_plan env req auth =
     guarded env req auth [ADMIN_ROLE_NAME] (\<lambda>s payload.
     obind (obind (required_str payload (ascii ''effect'')) parse_effect) (\<lambda>eff.
     obind (case Option.bind (json_get payload (ascii ''target_kind'')) as_str of
              Some name \<Rightarrow> omap Some (parse_entity_kind name)
            | None \<Rightarrow> Ok None) (\<lambda>kind.
     obind (optional_tuid payload (ascii ''target_type'')) (\<lambda>schema.
     obind (case Option.bind (json_get payload (ascii ''role_name'')) as_str of
              Some name \<Rightarrow> obind (role_id_by_name s name) (need 400 (ascii ''no such role: '' @ name))
            | None \<Rightarrow> Ok NIL) (\<lambda>role.
     obind (optional_tuid payload (ascii ''subject_id'')) (\<lambda>who.
     let pol = \<lparr> target = \<lparr> target_kind = kind, target_schema = or_nil schema \<rparr>,
                 subject = \<lparr> pred_subject = or_nil who, pred_role = role \<rparr>,
                 effect = eff, redact_attributes = redact_fields payload \<rparr>;
         i = env_fresh env 0
     in Ok (Insert (header_new (env_fresh env 1) i (ascii ''policy'') Policy NIL) (policy_encode pol), id_result i)))))))"

section \<open>First-run setup\<close>

definition setup_plan :: "web_env \<Rightarrow> http_request \<Rightarrow> auth_mode \<Rightarrow> (bytes \<times> bootstrap_data) web" where
  "setup_plan env req auth =
     (case auth of
        Insecure \<Rightarrow> Err (400, Note (ascii ''setup is only meaningful with a secret''))
      | Enforced secret \<Rightarrow>
          obind (payload_of req) (\<lambda>payload.
          obind (required_str payload (ascii ''setup_secret'')) (\<lambda>given.
          if given \<noteq> secret then Err (403, Note (ascii ''incorrect setup secret''))
          else
            let admin_name = (case Option.bind (json_get payload (ascii ''admin_name'')) as_str of Some n \<Rightarrow> n | None \<Rightarrow> ascii ''admin'') in
            obind (web_open env req) (\<lambda>s.
            obind (role_id_by_name s ADMIN_ROLE_NAME) (\<lambda>role.
            if role \<noteq> None then Err (400, Note (ascii ''setup already completed''))
            else Ok (secret, bootstrap (env_fresh env) admin_name))))))"

definition setup_route :: "web_env \<Rightarrow> http_request \<Rightarrow> auth_mode \<Rightarrow> 'addr web_client \<Rightarrow> json web \<times> log_record list" where
  "setup_route env req auth client =
     (case setup_plan env req auth of
        Ok (secret, seed) \<Rightarrow>
          (case submit_all client (map (\<lambda>(h, b). Insert h b) (seed_entities seed)) of
             (r, sent) \<Rightarrow>
               (obind r (\<lambda>_.
                obind (with_status 500 (\<lambda>_. Note [])
                  (issue secret \<lparr> ctx_subject = admin_subject_id seed, ctx_roles = [admin_role_id seed] \<rparr> None)) (\<lambda>token.
                Ok (json_build [(ascii ''admin_token'', JString token)]))), sent))
      | Err e \<Rightarrow> (Err e, [])
      | Panic \<Rightarrow> (Panic, []))"

end
