(* ===== verification/Gems_Store.thy ===== *)
theory Gems_Store
  imports Gems_Engine
begin

text \<open>
  The store as a map from identifiers to entities. \<open>store_rep os s M N R\<close> is its invariant: the primary
  index and the extents hold exactly the entities of \<open>M\<close>, one slot each and no slot besides; the two
  ordinal indexes are the map \<open>N\<close> from the identifiers of \<open>M\<close> to distinct ordinals and its inverse \<open>R\<close>;
  and the secondary indexes hold exactly the headers of \<open>M\<close> under their ordinals.
\<close>

section \<open>Finite maps in the trees\<close>

lemma map_of_bm_put: "bm_ok m \<Longrightarrow> map_of (bm_put k v m) = (map_of m)(k \<mapsto> v)"
  using bm_get_put [of m k v] by (auto simp: bm_get_def)

lemma map_of_bm_del: "bm_ok m \<Longrightarrow> map_of (bm_del k m) = (map_of m)(k := None)"
  using bm.get_del [of m k] by (auto simp: bm_get_def)

text \<open>A tree of the engine as a finite map.\<close>

definition tree_map :: "nat \<Rightarrow> 'k::linorder fixed_codec \<Rightarrow> 'v fixed_codec \<Rightarrow> btree \<Rightarrow> ('k \<rightharpoonup> 'v) \<Rightarrow> bool" where
  "tree_map os kc vc b f \<longleftrightarrow> (\<exists>m. tree_rep os kc vc b m \<and> map_of m = f)"

context node_codec
begin

lemma map_get: "tree_map os kc vc b f \<Longrightarrow> btree_get kc vc b k = Ok (f k)"
  by (auto simp: tree_map_def btree_get_spec bm_get_def)

lemma map_insert: "tree_map os kc vc b f \<Longrightarrow> room_left b \<Longrightarrow> kok k \<Longrightarrow> vok v \<Longrightarrow>
    \<exists>b'. btree_insert os kc vc k v b = Ok b' \<and> tree_map os kc vc b' (f(k \<mapsto> v)) \<and>
      page_count (bt_pager b') \<le> 3 * page_count (bt_pager b)"
  using btree_insert_spec [of os b _ k v] rep_entries map_of_bm_put unfolding tree_map_def by metis

lemma map_delete: "tree_map os kc vc b f \<Longrightarrow> room_left b \<Longrightarrow>
    \<exists>b'. btree_delete os kc vc k b = Ok (b', f k) \<and> tree_map os kc vc b' (f(k := None))"
  using btree_delete_spec [of os b _ k] rep_entries map_of_bm_del unfolding tree_map_def bm_get_def by metis

lemma map_scan: "tree_map os kc vc b f \<Longrightarrow>
    \<exists>m. btree_scan_all kc vc b = Ok m \<and> map_of m = f \<and> strict (map fst m)"
  using btree_scan_spec rep_entries unfolding tree_map_def bm_ok_def by blast

end

section \<open>Entities in slots\<close>

definition entity_ok :: "tuid \<Rightarrow> entity_header \<times> bytes \<Rightarrow> bool" where
  "entity_ok i e \<longleftrightarrow> wf_header (fst e) \<and> truncate_texts (fst e) = fst e \<and> hdr_id (fst e) = i \<and>
     body_offset (fst e) = ENCODED_LEN \<and> body_len (fst e) = length (snd e)"

definition holds_entity :: "(slot_pointer \<rightharpoonup> bytes) \<Rightarrow> slot_pointer \<Rightarrow> tuid \<Rightarrow> entity_header \<times> bytes \<Rightarrow> bool" where
  "holds_entity c p i e \<longleftrightarrow> entity_ok i e \<and> (\<exists>rest. c p = Some (header_encode (fst e) @ snd e @ rest))"

lemma truncate_texts_idem: "wf_header h \<Longrightarrow> truncate_texts (truncate_texts h) = truncate_texts h"
  by (simp add: truncate_texts_def truncate_utf8_id length_truncate_utf8)

lemma encode_truncated: "wf_header h \<Longrightarrow> header_encode (truncate_texts h) = header_encode h"
proof -
  assume "wf_header h"
  then have "header_prefix (truncate_texts h) = header_prefix h"
    by (simp add: header_prefix_def Let_def truncate_texts_def truncate_utf8_id length_truncate_utf8)
  then show ?thesis by (simp add: header_encode_def)
qed

lemma wf_truncated: "wf_header h \<Longrightarrow> wf_header (truncate_texts h)"
  by (simp add: wf_header_def truncate_texts_def utf8_valid_truncate)

lemma read_entity:
  assumes d: "layout_ok os (ext_file (st_data s)) (extents (st_data s))" and e: "holds_entity (contents (st_data s)) p i e"
  shows "read_at s p = Ok e"
proof -
  obtain h body where eq: "e = (h, body)" by (cases e)
  obtain rest where c: "contents (st_data s) p = Some (header_encode h @ body @ rest)" using e by (auto simp: holds_entity_def eq)
  have h: "wf_header h" "truncate_texts h = h" "body_offset h = ENCODED_LEN" "body_len h = length body"
    using e by (simp_all add: entity_ok_def holds_entity_def eq)
  note f = contents_Some [OF c]
  have cls: "class_from_index (ptr_class p) = Ok (ptr_class p)"
    using slot_offset_addressed [OF d f(1)] by (auto simp: slot_offset_def split: if_splits)
  have "length (header_encode h @ body @ rest) = block_size (ptr_class p)" using f by simp
  then have "manager_read (st_data s) p (block_size (ptr_class p)) = Ok (header_encode h @ body @ rest)"
    using manager_read_spec [OF d c, of "block_size (ptr_class p)"] by simp
  then show ?thesis
    using cls header_decode_encode [OF h(1), of "body @ rest"] h
    by (simp add: read_at_def Let_def slice_def eq)
qed

section \<open>Headers in the secondary indexes\<close>

definition indexed :: "(nat \<rightharpoonup> entity_header) \<Rightarrow> store \<Rightarrow> bool" where
  "indexed I s \<longleftrightarrow>
     secondary.holds (\<lambda>n v. \<exists>h. I n = Some h \<and> v = kind_key (hdr_kind h)) (by_kind s) \<and>
     secondary.holds (\<lambda>n v. \<exists>h. I n = Some h \<and> v = schema_ref_key (schema_ref h)) (by_schema_ref s) \<and>
     secondary.holds (\<lambda>n v. \<exists>h. I n = Some h \<and> hdr_kind h = EntityType \<and> v = name_key (hdr_name h)) (entity_type_by_name s)"

lemma indexed_fields:
  "by_kind s' = by_kind s \<Longrightarrow> by_schema_ref s' = by_schema_ref s \<Longrightarrow> entity_type_by_name s' = entity_type_by_name s \<Longrightarrow>
     indexed I s' = indexed I s"
  by (simp add: indexed_def)

lemma header_fields_kept [simp]:
  "st_primary (store_index_header h n s) = st_primary s" "st_ordinal_by_id (store_index_header h n s) = st_ordinal_by_id s"
  "st_id_by_ordinal (store_index_header h n s) = st_id_by_ordinal s" "next_ordinal (store_index_header h n s) = next_ordinal s"
  "st_data (store_index_header h n s) = st_data s"
  "st_primary (store_deindex_header h n s) = st_primary s" "st_ordinal_by_id (store_deindex_header h n s) = st_ordinal_by_id s"
  "st_id_by_ordinal (store_deindex_header h n s) = st_id_by_ordinal s" "next_ordinal (store_deindex_header h n s) = next_ordinal s"
  "st_data (store_deindex_header h n s) = st_data s"
  by (simp_all add: store_index_header_def store_deindex_header_def Let_def)

lemma index_header_spec:
  assumes "indexed I s" "I n = None" "n \<le> u32_max"
  shows "indexed (I(n \<mapsto> h)) (store_index_header h n s)"
proof -
  note i = assms(1) [unfolded indexed_def, THEN conjunct1] assms(1) [unfolded indexed_def, THEN conjunct2, THEN conjunct1]
    assms(1) [unfolded indexed_def, THEN conjunct2, THEN conjunct2]
  have "secondary.holds (\<lambda>m v. \<exists>j. (I(n \<mapsto> h)) m = Some j \<and> v = kind_key (hdr_kind j)) (by_kind (store_index_header h n s))"
    using secondary.holds_ins [OF i(1) assms(3), of "kind_key (hdr_kind h)"] assms(2)
    by (auto simp: store_index_header_def Let_def elim!: secondary.holds_cong split: if_splits)
  moreover have "secondary.holds (\<lambda>m v. \<exists>j. (I(n \<mapsto> h)) m = Some j \<and> v = schema_ref_key (schema_ref j)) (by_schema_ref (store_index_header h n s))"
    using secondary.holds_ins [OF i(2) assms(3), of "schema_ref_key (schema_ref h)"] assms(2)
    by (auto simp: store_index_header_def Let_def elim!: secondary.holds_cong split: if_splits)
  moreover have "secondary.holds (\<lambda>m v. \<exists>j. (I(n \<mapsto> h)) m = Some j \<and> hdr_kind j = EntityType \<and> v = name_key (hdr_name j))
      (entity_type_by_name (store_index_header h n s))"
    using secondary.holds_ins [OF i(3) assms(3), of "name_key (hdr_name h)"] i(3) assms(2)
    by (auto simp: store_index_header_def Let_def elim!: secondary.holds_cong split: if_splits)
  ultimately show ?thesis by (simp add: indexed_def)
qed

lemma deindex_header_spec:
  assumes "indexed I s" "I n = Some h" "n \<le> u32_max"
  shows "indexed (I(n := None)) (store_deindex_header h n s)"
proof -
  note i = assms(1) [unfolded indexed_def, THEN conjunct1] assms(1) [unfolded indexed_def, THEN conjunct2, THEN conjunct1]
    assms(1) [unfolded indexed_def, THEN conjunct2, THEN conjunct2]
  have "secondary.holds (\<lambda>m v. \<exists>j. (I(n := None)) m = Some j \<and> v = kind_key (hdr_kind j)) (by_kind (store_deindex_header h n s))"
    using secondary.holds_rem [OF i(1) assms(3), of "kind_key (hdr_kind h)"] assms(2)
    by (auto simp: store_deindex_header_def Let_def elim!: secondary.holds_cong split: if_splits)
  moreover have "secondary.holds (\<lambda>m v. \<exists>j. (I(n := None)) m = Some j \<and> v = schema_ref_key (schema_ref j)) (by_schema_ref (store_deindex_header h n s))"
    using secondary.holds_rem [OF i(2) assms(3), of "schema_ref_key (schema_ref h)"] assms(2)
    by (auto simp: store_deindex_header_def Let_def elim!: secondary.holds_cong split: if_splits)
  moreover have "secondary.holds (\<lambda>m v. \<exists>j. (I(n := None)) m = Some j \<and> hdr_kind j = EntityType \<and> v = name_key (hdr_name j))
      (entity_type_by_name (store_deindex_header h n s))"
    using secondary.holds_rem [OF i(3) assms(3), of "name_key (hdr_name h)"] i(3) assms(2)
    by (auto simp: store_deindex_header_def Let_def elim!: secondary.holds_cong split: if_splits)
  ultimately show ?thesis by (simp add: indexed_def)
qed

section \<open>The invariant\<close>

definition trees_grow :: "store \<Rightarrow> store \<Rightarrow> bool" where
  "trees_grow s s' \<longleftrightarrow> page_count (bt_pager (st_primary s')) \<le> 3 * page_count (bt_pager (st_primary s)) \<and>
     page_count (bt_pager (st_ordinal_by_id s')) \<le> 3 * page_count (bt_pager (st_ordinal_by_id s)) \<and>
     page_count (bt_pager (st_id_by_ordinal s')) \<le> 3 * page_count (bt_pager (st_id_by_ordinal s))"

definition entities_in :: "(slot_pointer \<rightharpoonup> bytes) \<Rightarrow> (tuid \<rightharpoonup> slot_pointer) \<Rightarrow> (tuid \<rightharpoonup> entity_header \<times> bytes) \<Rightarrow> bool" where
  "entities_in c P M \<longleftrightarrow> dom P = dom M \<and> dom c = ran P \<and> (\<forall>i j p. P i = Some p \<longrightarrow> P j = Some p \<longrightarrow> i = j) \<and>
     (\<forall>i p. P i = Some p \<longrightarrow> holds_entity c p i (the (M i)))"

definition ordinals_rep :: "nat \<Rightarrow> store \<Rightarrow> (tuid \<rightharpoonup> nat) \<Rightarrow> (nat \<rightharpoonup> tuid) \<Rightarrow> bool" where
  "ordinals_rep os s N R \<longleftrightarrow> tree_map os tuid_codec ordinal_codec (st_ordinal_by_id s) N \<and>
     tree_map os ordinal_codec tuid_codec (st_id_by_ordinal s) R \<and> (\<forall>i n. N i = Some n \<longleftrightarrow> R n = Some i) \<and>
     (\<forall>n i. R n = Some i \<longrightarrow> n < next_ordinal s) \<and> next_ordinal s \<le> u32_max"

definition headers_by :: "(nat \<rightharpoonup> tuid) \<Rightarrow> (tuid \<rightharpoonup> entity_header \<times> bytes) \<Rightarrow> nat \<rightharpoonup> entity_header" where
  "headers_by R M n = (case R n of None \<Rightarrow> None | Some i \<Rightarrow> map_option fst (M i))"

definition store_rep ::
  "nat \<Rightarrow> store \<Rightarrow> (tuid \<rightharpoonup> entity_header \<times> bytes) \<Rightarrow> (tuid \<rightharpoonup> nat) \<Rightarrow> (nat \<rightharpoonup> tuid) \<Rightarrow> bool" where
  "store_rep os s M N R \<longleftrightarrow>
     (\<exists>P. tree_map os tuid_codec slot_pointer_codec (st_primary s) P \<and> entities_in (contents (st_data s)) P M) \<and>
     storage_ok os (st_data s) \<and> mgr_file_id (st_data s) = 0 \<and>
     ordinals_rep os s N R \<and> dom N = dom M \<and> indexed (headers_by R M) s"

definition store_room :: "nat \<Rightarrow> store \<Rightarrow> bool" where
  "store_room os s \<longleftrightarrow> room_left (st_primary s) \<and> room_left (st_ordinal_by_id s) \<and> room_left (st_id_by_ordinal s) \<and>
     alloc_room os 1 (st_data s) \<and> next_ordinal s < u32_max"

lemma entities_facts:
  assumes "entities_in c P M"
  shows "dom P = dom M" "dom c = ran P" "P i = Some p \<Longrightarrow> P j = Some p \<Longrightarrow> i = j"
    "P i = Some p \<Longrightarrow> holds_entity c p i (the (M i))"
  using assms unfolding entities_in_def by blast+

lemma entities_add:
  assumes c: "entities_in c P M" and new: "P i = None" "c p = None" "holds_entity c' p i e"
    and c': "c' p \<noteq> None" "\<And>q. q \<noteq> p \<Longrightarrow> c' q = c q"
  shows "entities_in c' (P(i \<mapsto> p)) (M(i \<mapsto> e))"
proof -
  note f = entities_facts [OF c]
  have other: "q \<noteq> p" if "P j = Some q" for j q
  proof -
    have "q \<in> dom c" using that unfolding f(2) by (rule ranI)
    then show ?thesis using new(2) by auto
  qed
  have "dom c' = insert p (dom c)" using c' by (auto simp: dom_def) metis+
  moreover have "ran (P(i \<mapsto> p)) = insert p (ran P)" using ran_map_upd [of P i p] new(1) by simp
  ultimately have d: "dom c' = ran (P(i \<mapsto> p))" using f(2) by simp
  have inj: "k = j" if "(P(i \<mapsto> p)) k = Some q" "(P(i \<mapsto> p)) j = Some q" for k j q
    using that other f(3) by (auto split: if_splits)
  have *: "holds_entity c' q j (the ((M(i \<mapsto> e)) j))" if "(P(i \<mapsto> p)) j = Some q" for j q
  proof (cases "j = i")
    case True
    then show ?thesis using that new(3) by simp
  next
    case False
    then have q: "P j = Some q" using that by simp
    have "c' q = c q" by (rule c'(2) [OF other [OF q]])
    then show ?thesis using f(4) [OF q] False by (simp add: holds_entity_def)
  qed
  show ?thesis unfolding entities_in_def
  proof (intro conjI allI impI)
    show "dom (P(i \<mapsto> p)) = dom (M(i \<mapsto> e))" using f(1) by simp
    show "dom c' = ran (P(i \<mapsto> p))" by (rule d)
    show "k = j" if "(P(i \<mapsto> p)) k = Some q" "(P(i \<mapsto> p)) j = Some q" for k j q by (rule inj [OF that])
    show "holds_entity c' q j (the ((M(i \<mapsto> e)) j))" if "(P(i \<mapsto> p)) j = Some q" for j q by (rule *) (rule that)
  qed
qed

lemma entities_del:
  assumes c: "entities_in c P M" and old: "P i = Some p" and c': "c' p = None" "\<And>q. q \<noteq> p \<Longrightarrow> c' q = c q"
  shows "entities_in c' (P(i := None)) (M(i := None))"
proof -
  note f = entities_facts [OF c]
  have other: "q \<noteq> p" if "P j = Some q" "j \<noteq> i" for j q using f(3) [OF old] that by blast
  have "dom c' = dom c - {p}"
  proof (rule set_eqI)
    fix q show "q \<in> dom c' \<longleftrightarrow> q \<in> dom c - {p}" using c' by (cases "q = p") (simp_all add: dom_def)
  qed
  moreover have "ran (P(i := None)) = ran P - {p}"
  proof (intro set_eqI iffI)
    fix q assume "q \<in> ran (P(i := None))"
    then obtain j where "j \<noteq> i" "P j = Some q" by (auto simp: ran_def split: if_splits)
    then show "q \<in> ran P - {p}" using other by (auto intro: ranI)
  next
    fix q assume "q \<in> ran P - {p}"
    then obtain j where "P j = Some q" "q \<noteq> p" by (auto simp: ran_def)
    then show "q \<in> ran (P(i := None))" using old by (intro ranI [of _ j]) auto
  qed
  ultimately have d: "dom c' = ran (P(i := None))" using f(2) by simp
  have inj: "k = j" if "(P(i := None)) k = Some q" "(P(i := None)) j = Some q" for k j q
    using that f(3) by (auto split: if_splits)
  have *: "holds_entity c' q j (the ((M(i := None)) j))" if "(P(i := None)) j = Some q" for j q
  proof -
    have q: "j \<noteq> i" "P j = Some q" using that by (simp_all split: if_splits)
    have "c' q = c q" by (rule c'(2) [OF other [OF q(2,1)]])
    then show ?thesis using f(4) [OF q(2)] q(1) by (simp add: holds_entity_def)
  qed
  show ?thesis unfolding entities_in_def
  proof (intro conjI allI impI)
    show "dom (P(i := None)) = dom (M(i := None))" using f(1) by simp
    show "dom c' = ran (P(i := None))" by (rule d)
    show "k = j" if "(P(i := None)) k = Some q" "(P(i := None)) j = Some q" for k j q by (rule inj [OF that])
    show "holds_entity c' q j (the ((M(i := None)) j))" if "(P(i := None)) j = Some q" for j q by (rule *) (rule that)
  qed
qed

lemma entities_get: "entities_in c P M \<Longrightarrow> P i = Some p \<Longrightarrow> \<exists>e. M i = Some e \<and> holds_entity c p i e"
  using entities_facts(1,4) by (metis domI domIff option.sel not_None_eq)

lemma entities_none: "entities_in c P M \<Longrightarrow> P i = None \<longleftrightarrow> M i = None"
  using entities_facts(1) by (metis domIff)

lemma pointer_ok: "storage_ok os d \<Longrightarrow> mgr_file_id d = 0 \<Longrightarrow> contents d p \<noteq> None \<Longrightarrow> slot_pointer_ok p"
proof -
  assume d: "storage_ok os d" and z: "mgr_file_id d = 0" and "contents d p \<noteq> None"
  then obtain b where "contents d p = Some b" by blast
  note a = contents_Some(1) [OF this, unfolded addressed_def]
  have l: "length (extents d) \<le> EXTENT_SIZE" "\<forall>i < length (extents d). extents d ! i < CLASS_COUNT"
    using d by (simp_all add: storage_ok_def layout_ok_def)
  then have c: "ptr_class p < 16" using a by (simp add: CLASS_COUNT_def)
  have "slots_per_extent (ptr_class p) \<le> 8 * BITMAP_BYTES" using slots_bits [OF c] by simp
  then have "slot_index p \<le> u32_max" using a unfolding BITMAP_BYTES_def by linarith
  then show ?thesis using a z c l(1) by (simp add: slot_pointer_ok_def extent_consts)
qed

section \<open>Ordinals\<close>

lemma ordinal_for_spec:
  assumes r: "ordinals_rep os s N R" and i: "wf_tuid i"
    and room: "room_left (st_ordinal_by_id s)" "room_left (st_id_by_ordinal s)" "next_ordinal s < u32_max"
  shows "\<exists>s' n. ordinal_for os i s = Ok (s', n) \<and> ordinals_rep os s' (N(i \<mapsto> n)) (R(n \<mapsto> i)) \<and> n \<le> u32_max \<and>
    (case N i of Some m \<Rightarrow> s' = s \<and> n = m | None \<Rightarrow> R n = None) \<and>
    st_primary s' = st_primary s \<and> st_data s' = st_data s \<and> by_kind s' = by_kind s \<and> by_schema_ref s' = by_schema_ref s \<and>
    entity_type_by_name s' = entity_type_by_name s \<and> trees_grow s s'"
proof (cases "N i")
  case (Some m)
  have get: "btree_get tuid_codec ordinal_codec (st_ordinal_by_id s) i = Ok (Some m)"
    using r Some ordinal_by_id.map_get by (auto simp: ordinals_rep_def)
  have R: "R m = Some i" using r Some by (simp add: ordinals_rep_def)
  then have "N(i \<mapsto> m) = N" "R(m \<mapsto> i) = R" using Some by auto
  moreover have "m < next_ordinal s" "next_ordinal s \<le> u32_max" using r R unfolding ordinals_rep_def by blast+
  ultimately show ?thesis using get r Some
    by (intro exI [of _ s] exI [of _ m]) (simp add: ordinal_for_def trees_grow_def)
next
  case None
  define n where "n = next_ordinal s"
  have get: "btree_get tuid_codec ordinal_codec (st_ordinal_by_id s) i = Ok None"
    using r None ordinal_by_id.map_get by (auto simp: ordinals_rep_def)
  have n: "n \<le> u32_max" "n \<noteq> u32_max" using room by (simp_all add: n_def)
  have R: "R n = None" using r unfolding ordinals_rep_def n_def by (cases "R (next_ordinal s)") auto
  have tm: "tree_map os tuid_codec ordinal_codec (st_ordinal_by_id s) N" "tree_map os ordinal_codec tuid_codec (st_id_by_ordinal s) R"
    "room_left (st_ordinal_by_id s)" "room_left (st_id_by_ordinal s)"
    using r room by (simp_all add: ordinals_rep_def)
  from ordinal_by_id.map_insert [OF tm(1,3) i n(1)] obtain b where b: "btree_insert os tuid_codec ordinal_codec i n (st_ordinal_by_id s) = Ok b"
    "tree_map os tuid_codec ordinal_codec b (N(i \<mapsto> n))"
    "page_count (bt_pager b) \<le> 3 * page_count (bt_pager (st_ordinal_by_id s))" by blast
  from id_by_ordinal.map_insert [OF tm(2,4) n(1) i] obtain c where c: "btree_insert os ordinal_codec tuid_codec n i (st_id_by_ordinal s) = Ok c"
    "tree_map os ordinal_codec tuid_codec c (R(n \<mapsto> i))"
    "page_count (bt_pager c) \<le> 3 * page_count (bt_pager (st_id_by_ordinal s))" by blast
  define s' where "s' = s\<lparr> next_ordinal := n + 1, st_ordinal_by_id := b, st_id_by_ordinal := c \<rparr>"
  have "ordinal_for os i s = Ok (s', n)"
    using get b(1) c(1) n(2) by (simp add: ordinal_for_def Let_def n_def [symmetric] s'_def)
  moreover have "ordinals_rep os s' (N(i \<mapsto> n)) (R(n \<mapsto> i))"
    unfolding ordinals_rep_def
  proof (intro conjI)
    show "\<forall>j m. (N(i \<mapsto> n)) j = Some m \<longleftrightarrow> (R(n \<mapsto> i)) m = Some j"
    proof (intro allI)
      fix j m
      have "N j = Some m \<longleftrightarrow> R m = Some j" using r by (simp add: ordinals_rep_def)
      moreover have "N i \<noteq> Some m" "R n \<noteq> Some j" using None R by simp_all
      ultimately show "(N(i \<mapsto> n)) j = Some m \<longleftrightarrow> (R(n \<mapsto> i)) m = Some j"
        using r unfolding ordinals_rep_def by (cases "j = i"; cases "m = n") auto
    qed
    show "\<forall>m j. (R(n \<mapsto> i)) m = Some j \<longrightarrow> m < next_ordinal s'"
      using r unfolding ordinals_rep_def s'_def n_def by (auto intro: less_SucI)
    show "next_ordinal s' \<le> u32_max" using n by (simp add: s'_def)
  qed (use b(2) c(2) in \<open>simp_all add: s'_def\<close>)
  ultimately show ?thesis using n(1) None R b(3) c(3) by (intro exI [of _ s'] exI [of _ n]) (simp add: s'_def trees_grow_def)
qed

section \<open>Get and scan\<close>

lemma storage_layout: "storage_ok os d \<Longrightarrow> layout_ok os (ext_file d) (extents d)"
  by (simp add: storage_ok_def)

lemma store_get_spec:
  assumes "store_rep os s M N R"
  shows "store_get s i = Ok (M i)"
proof -
  from assms obtain P where P: "tree_map os tuid_codec slot_pointer_codec (st_primary s) P" "entities_in (contents (st_data s)) P M"
    and d: "storage_ok os (st_data s)" by (auto simp: store_rep_def)
  show ?thesis
  proof (cases "P i")
    case None
    then have "M i = None" using entities_none [OF P(2)] by simp
    then show ?thesis using primary.map_get [OF P(1)] None by (simp add: store_get_def)
  next
    case (Some p)
    from entities_get [OF P(2) this] obtain e where e: "M i = Some e" "holds_entity (contents (st_data s)) p i e" by blast
    then show ?thesis using primary.map_get [OF P(1)] Some read_entity [OF storage_layout [OF d] e(2)] by (simp add: store_get_def)
  qed
qed

lemma try_collect_map: "(\<And>x. x \<in> set xs \<Longrightarrow> f x = Ok (g x)) \<Longrightarrow> try_collect f xs = Ok (map g xs)"
  by (induction xs) simp_all

text \<open>The entities in the order of their identifiers.\<close>

definition listed :: "(tuid \<rightharpoonup> 'a) \<Rightarrow> tuid list \<Rightarrow> 'a list \<Rightarrow> bool" where
  "listed M ids xs \<longleftrightarrow> strict ids \<and> set ids = dom M \<and> xs = map (\<lambda>i. the (M i)) ids"

lemma store_scan_spec:
  assumes "store_rep os s M N R"
  shows "\<exists>ids xs. store_scan_all s = Ok xs \<and> listed M ids xs"
proof -
  from assms obtain P where P: "tree_map os tuid_codec slot_pointer_codec (st_primary s) P" "entities_in (contents (st_data s)) P M"
    and d: "storage_ok os (st_data s)" by (auto simp: store_rep_def)
  from primary.map_scan [OF P(1)] obtain m where m: "btree_scan_all tuid_codec slot_pointer_codec (st_primary s) = Ok m"
    "map_of m = P" "strict (map fst m)" by blast
  have distinct: "distinct (map fst m)" using m(3) strict_sorted_iff by blast
  have "read_at s (snd x) = Ok (the (M (fst x)))" if "x \<in> set m" for x
  proof -
    have "P (fst x) = Some (snd x)" using that distinct m(2) by (metis map_of_is_SomeI prod.collapse)
    from entities_get [OF P(2) this] show ?thesis using read_entity [OF storage_layout [OF d]] by (metis option.sel)
  qed
  then have "try_collect (\<lambda>x. read_at s (snd x)) m = Ok (map (\<lambda>x. the (M (fst x))) m)" by (rule try_collect_map)
  then have "store_scan_all s = Ok (map (\<lambda>x. the (M (fst x))) m)" by (simp add: store_scan_all_def m(1) case_prod_unfold)
  moreover have "set (map fst m) = dom M"
    using dom_map_of_conv_image_fst [of m] m(2) entities_facts(1) [OF P(2)] by simp
  ultimately show ?thesis using m(3) unfolding listed_def by (intro exI [of _ "map fst m"]) simp
qed

section \<open>Insertion\<close>

text \<open>The header under which an entity is stored.\<close>

definition placed :: "entity_header \<Rightarrow> bytes \<Rightarrow> entity_header" where
  "placed h body = truncate_texts (h\<lparr> body_offset := ENCODED_LEN, body_len := length body \<rparr>)"

text \<open>A name that is cut would be indexed whole and removed cut; entity types need one that fits.\<close>

definition name_fits :: "entity_header \<Rightarrow> bool" where
  "name_fits h \<longleftrightarrow> hdr_kind h = EntityType \<longrightarrow> truncate_utf8 (hdr_name h) NAME_MAX = hdr_name h"

lemma placed_entity: "wf_header h \<Longrightarrow> length body \<le> u32_max \<Longrightarrow> entity_ok (hdr_id h) (placed h body, body)"
proof -
  assume h: "wf_header h" and b: "length body \<le> u32_max"
  let ?h = "h\<lparr> body_offset := ENCODED_LEN, body_len := length body \<rparr>"
  have wf: "wf_header ?h" using h b by (simp add: wf_header_def ENCODED_LEN_def)
  then show ?thesis using wf_truncated [OF wf] truncate_texts_idem [OF wf]
    by (simp add: entity_ok_def placed_def) (simp add: truncate_texts_def)
qed

lemma index_placed: "name_fits h \<Longrightarrow>
    store_index_header (h\<lparr> body_offset := ENCODED_LEN, body_len := length body \<rparr>) n s = store_index_header (placed h body) n s"
  by (simp add: store_index_header_def placed_def truncate_texts_def name_fits_def Let_def)

lemma placed_fields [simp]: "hdr_kind (placed h body) = hdr_kind h" "hdr_id (placed h body) = hdr_id h"
  "schema_ref (placed h body) = schema_ref h"
  by (simp_all add: placed_def truncate_texts_def)

text \<open>Allocating and writing the slot of a blob.\<close>

lemma place_blob:
  assumes d: "storage_ok os d" "mgr_file_id d = 0" and room: "alloc_room os 1 d" and len: "length blob \<le> MAX_BLOCK_SIZE"
  shows "\<exists>d1 p d2 rest. allocate os (length blob) d = Ok (d1, p) \<and> manager_write os p blob d1 = Ok d2 \<and>
    storage_ok os d2 \<and> mgr_file_id d2 = 0 \<and> contents d p = None \<and> contents d2 = (contents d)(p \<mapsto> blob @ rest) \<and> slot_pointer_ok p"
proof -
  have "alloc_room os (Suc 0) d" using room by simp
  from manager.store_value [OF d(1) this len] obtain d1 p d2 rest where
    w: "allocate os (length blob) d = Ok (d1, p)" "manager_write os p blob d1 = Ok d2" "storage_ok os d2"
      "contents d p = None" "contents d2 = (contents d)(p \<mapsto> blob @ rest)" by blast
  have "no_drift os (length (extents d))" using room by (simp add: alloc_room_def)
  from allocate_spec [OF d(1) this len] w(1) have c: "claims os d d1 p" "length blob \<le> block_size (ptr_class p)" by auto
  obtain b where b: "contents d1 p = Some b" "length b = block_size (ptr_class p)" using c(1) by (auto simp: claims_def)
  have "storage_ok os d1" "mgr_file_id d1 = 0" using c(1) d(2) by (simp_all add: claims_def)
  with manager_write_spec [OF this(1) b(1), of blob] b(2) c(2) w(2) have z: "mgr_file_id d2 = 0" by auto
  have "contents d2 p \<noteq> None" using w(5) by simp
  then have "slot_pointer_ok p" by (rule pointer_ok [OF w(3) z])
  with w z show ?thesis by blast
qed

lemma headers_insert:
  assumes "\<And>m. R m = Some i \<Longrightarrow> m = n"
  shows "headers_by (R(n \<mapsto> i)) (M(i \<mapsto> e)) = (headers_by R M)(n \<mapsto> fst e)"
proof
  fix m
  show "headers_by (R(n \<mapsto> i)) (M(i \<mapsto> e)) m = ((headers_by R M)(n \<mapsto> fst e)) m"
  proof (cases "m = n")
    case False
    then have "R m \<noteq> Some i" using assms by blast
    with False show ?thesis by (cases "R m") (simp_all add: headers_by_def)
  qed (simp add: headers_by_def)
qed

lemma headers_delete:
  assumes "\<And>m. R m = Some i \<Longrightarrow> m = n"
  shows "headers_by (R(n := None)) (M(i := None)) = (headers_by R M)(n := None)"
proof
  fix m
  show "headers_by (R(n := None)) (M(i := None)) m = ((headers_by R M)(n := None)) m"
  proof (cases "m = n")
    case False
    then have "R m \<noteq> Some i" using assms by blast
    with False show ?thesis by (cases "R m") (simp_all add: headers_by_def)
  qed (simp add: headers_by_def)
qed

text \<open>
  Everything of an insertion but the secondary indexes, which end with the header given: in the state
  before that last step the ordinal \<open>n\<close> of the entity has no entry in them.
\<close>

definition stored_at :: "nat \<Rightarrow> store \<Rightarrow> (tuid \<rightharpoonup> entity_header \<times> bytes) \<Rightarrow> (tuid \<rightharpoonup> nat) \<Rightarrow> (nat \<rightharpoonup> tuid) \<Rightarrow> bool" where
  "stored_at os s M N R \<longleftrightarrow>
     (\<exists>P. tree_map os tuid_codec slot_pointer_codec (st_primary s) P \<and> entities_in (contents (st_data s)) P M) \<and>
     storage_ok os (st_data s) \<and> mgr_file_id (st_data s) = 0 \<and> ordinals_rep os s N R \<and> dom N = dom M"

lemma store_rep_split: "store_rep os s M N R \<longleftrightarrow> stored_at os s M N R \<and> indexed (headers_by R M) s"
  by (auto simp: store_rep_def stored_at_def)

lemma stored_at_cong: "st_primary s' = st_primary s \<Longrightarrow> st_data s' = st_data s \<Longrightarrow> st_ordinal_by_id s' = st_ordinal_by_id s \<Longrightarrow>
    st_id_by_ordinal s' = st_id_by_ordinal s \<Longrightarrow> next_ordinal s' = next_ordinal s \<Longrightarrow> stored_at os s' M N R = stored_at os s M N R"
  by (simp add: stored_at_def ordinals_rep_def)

lemma index_primary: "(store_index_header h n s)\<lparr> st_primary := b \<rparr> = store_index_header h n (s\<lparr> st_primary := b \<rparr>)"
  by (simp add: store_index_header_def Let_def)

lemma store_insert_core:
  assumes rep: "store_rep os s M N R" and room: "store_room os s" and h: "wf_header h"
    and len: "ENCODED_LEN + length body \<le> MAX_BLOCK_SIZE"
  shows "\<exists>s4 n. store_insert os h body s = Ok (store_index_header (h\<lparr> body_offset := ENCODED_LEN, body_len := length body \<rparr>) n s4) \<and>
    stored_at os s4 (M(hdr_id h \<mapsto> (placed h body, body))) (N(hdr_id h \<mapsto> n)) (R(n \<mapsto> hdr_id h)) \<and>
    indexed ((headers_by R M)(n := None)) s4 \<and> n \<le> u32_max \<and> (\<forall>m. R m = Some (hdr_id h) \<longrightarrow> m = n) \<and>
    (\<forall>j. N j \<noteq> None \<longrightarrow> (N(hdr_id h \<mapsto> n)) j = N j) \<and> trees_grow s s4"
proof -
  let ?i = "hdr_id h" and ?e = "(placed h body, body)"
  let ?h = "h\<lparr> body_offset := ENCODED_LEN, body_len := length body \<rparr>"
  let ?blob = "header_encode ?h @ body"
  from rep obtain P where P: "tree_map os tuid_codec slot_pointer_codec (st_primary s) P" "entities_in (contents (st_data s)) P M"
    and d: "storage_ok os (st_data s)" "mgr_file_id (st_data s) = 0" and ords: "ordinals_rep os s N R"
    and dom: "dom N = dom M" and ix: "indexed (headers_by R M) s" by (auto simp: store_rep_def)
  have i: "wf_tuid ?i" using h by (simp add: wf_header_def)
  have small: "length body \<le> u32_max" using len by (simp add: extent_consts)
  have wf: "wf_header ?h" using h small by (simp add: wf_header_def ENCODED_LEN_def)
  have enc: "header_encode (placed h body) = header_encode ?h" unfolding placed_def by (rule encode_truncated [OF wf])
  have blob: "length ?blob \<le> MAX_BLOCK_SIZE" using len wf by simp
  have ar: "alloc_room os 1 (st_data s)" using room by (simp add: store_room_def)
  from place_blob [OF d ar blob] obtain d1 p d2 rest where
    w: "allocate os (length ?blob) (st_data s) = Ok (d1, p)" "manager_write os p ?blob d1 = Ok d2" "storage_ok os d2"
      "mgr_file_id d2 = 0" "contents (st_data s) p = None" "contents d2 = (contents (st_data s))(p \<mapsto> ?blob @ rest)" "slot_pointer_ok p"
    by blast
  have new: "holds_entity c p ?i ?e" if "c p = Some (?blob @ rest)" for c
    using that placed_entity [OF h small] by (simp add: holds_entity_def enc)
  let ?s1 = "s\<lparr> st_data := d2 \<rparr>"
  have "ordinals_rep os ?s1 N R" "room_left (st_ordinal_by_id ?s1)" "room_left (st_id_by_ordinal ?s1)" "next_ordinal ?s1 < u32_max"
    using ords room by (simp_all add: ordinals_rep_def store_room_def)
  from ordinal_for_spec [OF this(1) i this(2-4)] obtain s2 n where
    o: "ordinal_for os ?i ?s1 = Ok (s2, n)" "ordinals_rep os s2 (N(?i \<mapsto> n)) (R(n \<mapsto> ?i))" "n \<le> u32_max"
      "case N ?i of Some m \<Rightarrow> s2 = ?s1 \<and> n = m | None \<Rightarrow> R n = None"
      "st_primary s2 = st_primary s" "st_data s2 = d2" "by_kind s2 = by_kind s" "by_schema_ref s2 = by_schema_ref s"
      "entity_type_by_name s2 = entity_type_by_name s" "trees_grow ?s1 s2" by auto
  have inv: "N j = Some m \<longleftrightarrow> R m = Some j" for j m using ords by (simp add: ordinals_rep_def)
  have only: "m = n" if "R m = Some ?i" for m using that inv [of ?i m] o(4) by simp
  have Rn: "R n = Some ?i \<or> R n = None" using o(4) inv [of ?i n] by (auto split: option.splits)
  have ix2: "indexed (headers_by R M) s2" using ix indexed_fields [of s2 s] o(7-9) by simp
  define clear where "clear = (case P ?i of None \<Rightarrow> Ok s2
         | Some old_ptr \<Rightarrow> obind (read_at s2 old_ptr) (\<lambda>(old_header, _). let s = store_deindex_header old_header n s2 in
             omap (\<lambda>d. s\<lparr> st_data := d \<rparr>) (manager_free os old_ptr (st_data s))))"
  have "\<exists>s3. clear = Ok s3 \<and> indexed ((headers_by R M)(n := None)) s3 \<and> storage_ok os (st_data s3) \<and> mgr_file_id (st_data s3) = 0 \<and>
      entities_in (contents (st_data s3)) (P(?i \<mapsto> p)) (M(?i \<mapsto> ?e)) \<and> st_primary s3 = st_primary s \<and>
      st_ordinal_by_id s3 = st_ordinal_by_id s2 \<and> st_id_by_ordinal s3 = st_id_by_ordinal s2 \<and> next_ordinal s3 = next_ordinal s2"
  proof (cases "P ?i")
    case None
    then have "M ?i = None" using entities_none [OF P(2)] by simp
    then have "N ?i = None" using dom by (metis domIff)
    then have "headers_by R M n = None" using o(4) by (simp add: headers_by_def)
    then have "(headers_by R M)(n := None) = headers_by R M" by (simp add: fun_upd_idem)
    moreover have "entities_in (contents d2) (P(?i \<mapsto> p)) (M(?i \<mapsto> ?e))"
      by (rule entities_add [OF P(2) None w(5)]) (use w(6) new in simp_all)
    ultimately show ?thesis using None ix2 w(3,4) o(5,6) by (simp add: clear_def)
  next
    case (Some q)
    from entities_get [OF P(2) Some] obtain eo where eo: "M ?i = Some eo" "holds_entity (contents (st_data s)) q ?i eo" by blast
    have qp: "q \<noteq> p" using eo(2) w(5) by (auto simp: holds_entity_def)
    then have he: "holds_entity (contents (st_data s2)) q ?i eo" using eo(2) w(6) o(6) by (simp add: holds_entity_def)
    have "storage_ok os (st_data s2)" using w(3) o(6) by simp
    from read_entity [OF storage_layout [OF this] he] have get: "read_at s2 q = Ok eo" .
    have "N ?i = Some n" using o(4) eo(1) dom by (cases "N ?i") (auto simp: domIff)
    then have "R n = Some ?i" by (simp add: inv)
    then have "headers_by R M n = Some (fst eo)" using eo(1) by (simp add: headers_by_def)
    from deindex_header_spec [OF ix2 this o(3)] have ix3: "indexed ((headers_by R M)(n := None)) (store_deindex_header (fst eo) n s2)" .
    have "contents d2 q \<noteq> None" using w(6) qp eo(2) by (auto simp: holds_entity_def)
    from manager_free_spec [OF w(3) this] obtain d3 where
      f: "manager_free os q d2 = Ok d3" "storage_ok os d3" "mgr_file_id d3 = 0" "contents d3 = (contents d2)(q := None)"
      using w(4) by auto
    have "entities_in ((contents (st_data s))(q := None)) (P(?i := None)) (M(?i := None))"
      by (rule entities_del [OF P(2) Some]) simp_all
    then have "entities_in (contents d3) ((P(?i := None))(?i \<mapsto> p)) ((M(?i := None))(?i \<mapsto> ?e))"
      by (rule entities_add) (use w(5,6) f(4) qp new in simp_all)
    then have "entities_in (contents d3) (P(?i \<mapsto> p)) (M(?i \<mapsto> ?e))" by simp
    moreover have "clear = Ok ((store_deindex_header (fst eo) n s2)\<lparr> st_data := d3 \<rparr>)"
      using Some get f(1) o(6) by (simp add: clear_def Let_def case_prod_unfold)
    moreover have "indexed ((headers_by R M)(n := None)) ((store_deindex_header (fst eo) n s2)\<lparr> st_data := d3 \<rparr>)"
      using ix3 by (simp add: indexed_def)
    ultimately show ?thesis using f(2,3) o(5)
      by (intro exI [of _ "(store_deindex_header (fst eo) n s2)\<lparr> st_data := d3 \<rparr>"]) simp
  qed
  then obtain s3 where c: "clear = Ok s3" "indexed ((headers_by R M)(n := None)) s3" "storage_ok os (st_data s3)" "mgr_file_id (st_data s3) = 0"
      "entities_in (contents (st_data s3)) (P(?i \<mapsto> p)) (M(?i \<mapsto> ?e))" "st_primary s3 = st_primary s"
      "st_ordinal_by_id s3 = st_ordinal_by_id s2" "st_id_by_ordinal s3 = st_id_by_ordinal s2" "next_ordinal s3 = next_ordinal s2" by blast
  have "tree_map os tuid_codec slot_pointer_codec (st_primary s3) P" "room_left (st_primary s3)"
    using P(1) c(6) room by (simp_all add: store_room_def)
  from primary.map_insert [OF this i w(7)] obtain b where
    b: "btree_insert os tuid_codec slot_pointer_codec ?i p (st_primary s3) = Ok b" "tree_map os tuid_codec slot_pointer_codec b (P(?i \<mapsto> p))"
    "page_count (bt_pager b) \<le> 3 * page_count (bt_pager (st_primary s3))" by blast
  let ?s4 = "s3\<lparr> st_primary := b \<rparr>"
  have get: "btree_get tuid_codec slot_pointer_codec (st_primary s2) ?i = Ok (P ?i)" using primary.map_get [OF P(1)] o(5) by simp
  have "length body mod 2 ^ 32 = length body" using small by simp
  then have "store_insert os h body s = obind clear (\<lambda>s. let s = store_index_header ?h n s in
         omap (\<lambda>b. s\<lparr> st_primary := b \<rparr>) (btree_insert os tuid_codec slot_pointer_codec ?i p (st_primary s)))"
    using w(1,2) o(1) get by (simp add: store_insert_def Let_def clear_def)
  then have "store_insert os h body s = Ok (store_index_header ?h n ?s4)" using c(1) b(1) by (simp add: Let_def index_primary)
  moreover have "stored_at os ?s4 (M(?i \<mapsto> ?e)) (N(?i \<mapsto> n)) (R(n \<mapsto> ?i))"
    unfolding stored_at_def
  proof (intro conjI exI)
    show "tree_map os tuid_codec slot_pointer_codec (st_primary ?s4) (P(?i \<mapsto> p))" using b(2) by simp
    show "entities_in (contents (st_data ?s4)) (P(?i \<mapsto> p)) (M(?i \<mapsto> ?e))" using c(5) by simp
    show "storage_ok os (st_data ?s4)" "mgr_file_id (st_data ?s4) = 0" using c(3,4) by simp_all
    show "ordinals_rep os ?s4 (N(?i \<mapsto> n)) (R(n \<mapsto> ?i))" using o(2) c(7-9) by (simp add: ordinals_rep_def)
    show "dom (N(?i \<mapsto> n)) = dom (M(?i \<mapsto> ?e))" using dom by simp
  qed
  moreover have "indexed ((headers_by R M)(n := None)) ?s4" using c(2) by (simp add: indexed_def)
  moreover have "\<forall>j. N j \<noteq> None \<longrightarrow> (N(?i \<mapsto> n)) j = N j" using o(4) by (auto split: option.splits)
  moreover have "trees_grow s ?s4" using o(10) b(3) c(6-8) by (simp add: trees_grow_def)
  ultimately show ?thesis using o(3) only by (intro exI [of _ ?s4] exI [of _ n]) simp
qed

lemma store_insert_spec:
  assumes rep: "store_rep os s M N R" and room: "store_room os s" and h: "wf_header h" "name_fits h"
    and len: "ENCODED_LEN + length body \<le> MAX_BLOCK_SIZE"
  shows "\<exists>s' N' R'. store_insert os h body s = Ok s' \<and>
    store_rep os s' (M(hdr_id h \<mapsto> (placed h body, body))) N' R' \<and> (\<forall>j. N j \<noteq> None \<longrightarrow> N' j = N j) \<and> trees_grow s s'"
proof -
  let ?e = "(placed h body, body)"
  from store_insert_core [OF rep room h(1) len] obtain s4 n where
    c: "store_insert os h body s = Ok (store_index_header (h\<lparr> body_offset := ENCODED_LEN, body_len := length body \<rparr>) n s4)"
    "stored_at os s4 (M(hdr_id h \<mapsto> ?e)) (N(hdr_id h \<mapsto> n)) (R(n \<mapsto> hdr_id h))" "indexed ((headers_by R M)(n := None)) s4"
    "n \<le> u32_max" "\<And>m. R m = Some (hdr_id h) \<Longrightarrow> m = n" "\<forall>j. N j \<noteq> None \<longrightarrow> (N(hdr_id h \<mapsto> n)) j = N j" "trees_grow s s4" by blast
  let ?s = "store_index_header (placed h body) n s4"
  have "indexed (((headers_by R M)(n := None))(n \<mapsto> fst ?e)) ?s"
    unfolding fst_conv by (rule index_header_spec [OF c(3)]) (use c(4) in simp_all)
  moreover have "headers_by (R(n \<mapsto> hdr_id h)) (M(hdr_id h \<mapsto> ?e)) = (headers_by R M)(n \<mapsto> fst ?e)"
    by (rule headers_insert) (rule c(5))
  moreover have "stored_at os ?s (M(hdr_id h \<mapsto> ?e)) (N(hdr_id h \<mapsto> n)) (R(n \<mapsto> hdr_id h))"
    using c(2) stored_at_cong [of ?s s4] by simp
  ultimately have "store_rep os ?s (M(hdr_id h \<mapsto> ?e)) (N(hdr_id h \<mapsto> n)) (R(n \<mapsto> hdr_id h))"
    by (simp add: store_rep_split)
  moreover have "trees_grow s ?s" using c(7) by (simp add: trees_grow_def)
  ultimately show ?thesis using c(1,6) unfolding index_placed [OF h(2)] by blast
qed

section \<open>Deletion\<close>

lemma store_delete_spec:
  assumes rep: "store_rep os s M N R"
    and room: "room_left (st_primary s)" "room_left (st_ordinal_by_id s)" "room_left (st_id_by_ordinal s)"
  shows "\<exists>s'. store_delete os i s = Ok (s', M i \<noteq> None) \<and>
    store_rep os s' (M(i := None)) (N(i := None)) (case N i of Some n \<Rightarrow> R(n := None) | None \<Rightarrow> R)"
proof -
  from rep obtain P where P: "tree_map os tuid_codec slot_pointer_codec (st_primary s) P" "entities_in (contents (st_data s)) P M"
    and d: "storage_ok os (st_data s)" "mgr_file_id (st_data s) = 0" and ords: "ordinals_rep os s N R"
    and dom: "dom N = dom M" and ix: "indexed (headers_by R M) s" by (auto simp: store_rep_def)
  from primary.map_delete [OF P(1) room(1)] obtain b where
    b: "btree_delete os tuid_codec slot_pointer_codec i (st_primary s) = Ok (b, P i)" "tree_map os tuid_codec slot_pointer_codec b (P(i := None))"
    by blast
  show ?thesis
  proof (cases "P i")
    case None
    then have M: "M i = None" using entities_none [OF P(2)] by simp
    then have N: "N i = None" using dom by (metis domIff)
    have same: "P(i := None) = P" "M(i := None) = M" "N(i := None) = N" using None M N by (simp_all add: fun_upd_idem)
    have "store_rep os (s\<lparr> st_primary := b \<rparr>) M N R"
      using rep b(2) P(2) unfolding same store_rep_def by (simp add: ordinals_rep_def indexed_def, blast)
    then show ?thesis using b(1) None M N same by (intro exI [of _ "s\<lparr> st_primary := b \<rparr>"]) (simp add: store_delete_def)
  next
    case (Some p)
    from entities_get [OF P(2) this] obtain e where e: "M i = Some e" "holds_entity (contents (st_data s)) p i e" by blast
    have he: "holds_entity (contents (st_data (s\<lparr> st_primary := b \<rparr>))) p i e" using e(2) by simp
    have "storage_ok os (st_data (s\<lparr> st_primary := b \<rparr>))" using d(1) by simp
    from read_entity [OF storage_layout [OF this] he] have get: "read_at (s\<lparr> st_primary := b \<rparr>) p = Ok e" .
    obtain n where n: "N i = Some n" using e(1) dom by (metis domD domI)
    have inv: "N j = Some m \<longleftrightarrow> R m = Some j" for j m using ords by (simp add: ordinals_rep_def)
    have Rn: "R n = Some i" using n by (simp add: inv)
    have only: "m = n" if "R m = Some i" for m using that n by (simp add: inv [symmetric])
    have tm: "tree_map os tuid_codec ordinal_codec (st_ordinal_by_id s) N" "tree_map os ordinal_codec tuid_codec (st_id_by_ordinal s) R"
      and bound: "n < next_ordinal s" "next_ordinal s \<le> u32_max" using ords Rn by (auto simp: ordinals_rep_def)
    from ordinal_by_id.map_delete [OF tm(1) room(2)] n obtain c1 where
      c1: "btree_delete os tuid_codec ordinal_codec i (st_ordinal_by_id s) = Ok (c1, Some n)" "tree_map os tuid_codec ordinal_codec c1 (N(i := None))"
      by metis
    from id_by_ordinal.map_delete [OF tm(2) room(3), of n] obtain c2 where
      c2: "btree_delete os ordinal_codec tuid_codec n (st_id_by_ordinal s) = Ok (c2, R n)" "tree_map os ordinal_codec tuid_codec c2 (R(n := None))"
      by blast
    let ?s1 = "s\<lparr> st_primary := b, st_ordinal_by_id := c1, st_id_by_ordinal := c2 \<rparr>"
    have "indexed (headers_by R M) ?s1" using ix by (simp add: indexed_def)
    moreover have "headers_by R M n = Some (fst e)" using Rn e(1) by (simp add: headers_by_def)
    ultimately have ix1: "indexed ((headers_by R M)(n := None)) (store_deindex_header (fst e) n ?s1)"
      by (rule deindex_header_spec) (use bound in simp)
    have "contents (st_data s) p \<noteq> None" using e(2) by (auto simp: holds_entity_def)
    from manager_free_spec [OF d(1) this] obtain d3 where
      f: "manager_free os p (st_data s) = Ok d3" "storage_ok os d3" "mgr_file_id d3 = 0" "contents d3 = (contents (st_data s))(p := None)"
      using d(2) by auto
    let ?s2 = "(store_deindex_header (fst e) n ?s1)\<lparr> st_data := d3 \<rparr>"
    have "store_delete os i s = Ok (?s2, True)"
      using b(1) Some get c1(1) c2(1) f(1) by (simp add: store_delete_def Let_def case_prod_unfold)
    moreover have "store_rep os ?s2 (M(i := None)) (N(i := None)) (R(n := None))"
      unfolding store_rep_def
    proof (intro conjI exI)
      show "tree_map os tuid_codec slot_pointer_codec (st_primary ?s2) (P(i := None))" using b(2) by simp
      show "entities_in (contents (st_data ?s2)) (P(i := None)) (M(i := None))"
        by (rule entities_del [OF P(2) Some]) (simp_all add: f(4))
      show "storage_ok os (st_data ?s2)" "mgr_file_id (st_data ?s2) = 0" using f(2,3) by simp_all
      show "dom (N(i := None)) = dom (M(i := None))" using dom by simp
      show "indexed (headers_by (R(n := None)) (M(i := None))) ?s2"
      proof -
        have "headers_by (R(n := None)) (M(i := None)) = (headers_by R M)(n := None)" by (rule headers_delete) (rule only)
        then show ?thesis using ix1 by (simp add: indexed_def)
      qed
      show "ordinals_rep os ?s2 (N(i := None)) (R(n := None))"
        unfolding ordinals_rep_def
      proof (intro conjI allI)
        fix j m
        show "(N(i := None)) j = Some m \<longleftrightarrow> (R(n := None)) m = Some j"
        proof (cases "R m = Some j")
          case True
          then have "N j = Some m" "j = i \<longleftrightarrow> m = n" using only [of m] Rn by (auto simp: inv)
          then show ?thesis using True by (cases "m = n") simp_all
        next
          case False
          then have "N j \<noteq> Some m" by (simp add: inv)
          then show ?thesis using False by (cases "j = i"; cases "m = n") simp_all
        qed
        show "(R(n := None)) m = Some j \<longrightarrow> m < next_ordinal ?s2" using ords by (simp add: ordinals_rep_def)
      qed (use c1(2) c2(2) bound(2) in simp_all)
    qed
    ultimately show ?thesis using e(1) n by (intro exI [of _ ?s2]) simp
  qed
qed

section \<open>Queries\<close>

text \<open>The entities with a property, in the order in which they were given their ordinals.\<close>

definition by_ordinal :: "(tuid \<rightharpoonup> nat) \<Rightarrow> tuid set \<Rightarrow> tuid list \<Rightarrow> bool" where
  "by_ordinal N A ids \<longleftrightarrow> set ids = A \<and> strict (map (\<lambda>i. the (N i)) ids)"

definition entities_where :: "(tuid \<rightharpoonup> entity_header \<times> bytes) \<Rightarrow> (entity_header \<Rightarrow> bool) \<Rightarrow> tuid set" where
  "entities_where M Q = {i. \<exists>h body. M i = Some (h, body) \<and> Q h}"

lemma resolve_spec:
  assumes rep: "store_rep os s M N R" and b: "roaring_ok b" "\<And>n. n \<in> unat ` roaring_set b \<longleftrightarrow> (\<exists>h. headers_by R M n = Some h \<and> Q h)"
  shows "\<exists>ids. resolve_ordinals s b = Ok ids \<and> by_ordinal N (entities_where M Q) ids"
proof -
  have inv: "N j = Some m \<longleftrightarrow> R m = Some j" for j m using rep by (auto simp: store_rep_def ordinals_rep_def)
  have tm: "tree_map os ordinal_codec tuid_codec (st_id_by_ordinal s) R" and dom: "dom N = dom M"
    using rep by (auto simp: store_rep_def ordinals_rep_def)
  note it = roaring_iter_spec [OF b(1)]
  have R: "\<exists>i. R (unat v) = Some i" if "v \<in> set (roaring_iter b)" for v
  proof -
    have "unat v \<in> unat ` roaring_set b" using that it by simp
    then obtain h where "headers_by R M (unat v) = Some h" unfolding b(2) by blast
    then show ?thesis by (auto simp: headers_by_def split: option.splits)
  qed
  let ?ids = "map (\<lambda>v. the (R (unat v))) (roaring_iter b)"
  have "resolve_ordinals s b = Ok ?ids"
    unfolding resolve_ordinals_def
  proof (rule try_collect_map)
    fix v assume "v \<in> set (roaring_iter b)"
    from R [OF this] show "obind (btree_get ordinal_codec tuid_codec (st_id_by_ordinal s) (unat v))
        (\<lambda>found. case found of Some i \<Rightarrow> Ok i | None \<Rightarrow> Err (CorruptPage ''secondary index referenced an ordinal with no reverse mapping'')) =
        Ok (the (R (unat v)))"
      using id_by_ordinal.map_get [OF tm] by auto
  qed
  moreover have "set ?ids = entities_where M Q"
  proof (intro set_eqI iffI)
    fix i assume "i \<in> set ?ids"
    then obtain v where v: "v \<in> set (roaring_iter b)" "i = the (R (unat v))" by auto
    with R have Rv: "R (unat v) = Some i" by fastforce
    have "unat v \<in> unat ` roaring_set b" using v(1) it by simp
    then obtain h where "headers_by R M (unat v) = Some h" "Q h" unfolding b(2) by blast
    with Rv show "i \<in> entities_where M Q" by (auto simp: headers_by_def entities_where_def)
  next
    fix i assume "i \<in> entities_where M Q"
    then obtain h body where h: "M i = Some (h, body)" "Q h" by (auto simp: entities_where_def)
    then obtain n where "N i = Some n" using dom by (metis domD domI)
    then have n: "R n = Some i" by (simp add: inv)
    then have "n \<in> unat ` roaring_set b" unfolding b(2) using h by (simp add: headers_by_def)
    then obtain v where "v \<in> set (roaring_iter b)" "unat v = n" using it by auto
    then show "i \<in> set ?ids" using n by (auto intro!: image_eqI [of _ _ v])
  qed
  moreover have eqs: "map (\<lambda>i. the (N i)) ?ids = map unat (roaring_iter b)"
  proof (simp, rule ballI)
    fix v assume "v \<in> set (roaring_iter b)"
    then obtain i where "R (unat v) = Some i" using R by blast
    then show "the (N (the (R (unat v)))) = unat v" using inv [of i "unat v"] by simp
  qed
  moreover have "strict (map (\<lambda>i. the (N i)) ?ids)"
    unfolding eqs using it by (simp add: sorted_wrt_map word_less_nat_alt [symmetric])
  ultimately show ?thesis unfolding by_ordinal_def by blast
qed

lemma holds_facts: "secondary.holds P idx \<Longrightarrow> roaring_ok (si_get idx v) \<and> (n \<in> unat ` roaring_set (si_get idx v) \<longleftrightarrow> P n v)"
  using si_get_ok [of idx v] by (auto simp: secondary.holds_def si_ords_def)

lemma kind_key_inj: "kind_key k = kind_key k' \<longleftrightarrow> k = k'"
proof
  assume "kind_key k = kind_key k'"
  then have "unat (of_nat (kind_to_u8 k) :: u8) = unat (of_nat (kind_to_u8 k') :: u8)" by (simp add: kind_key_def)
  then have "kind_to_u8 k = kind_to_u8 k'"
    using kind_to_u8_le [of k] kind_to_u8_le [of k'] by (simp add: unat_of_nat)
  then have "kind_from_u8 (kind_to_u8 k) = kind_from_u8 (kind_to_u8 k')" by (rule arg_cong)
  then show "k = k'" by simp
qed simp

lemma schema_key_inj: "schema_ref_key t = schema_ref_key t' \<longleftrightarrow> t = t'"
  by (cases t; cases t') (simp add: schema_ref_key_def)

lemma query_by_kind_spec:
  assumes "store_rep os s M N R"
  shows "\<exists>ids. query_by_kind s k = Ok ids \<and> by_ordinal N (entities_where M (\<lambda>h. hdr_kind h = k)) ids"
proof -
  have "secondary.holds (\<lambda>n v. \<exists>h. headers_by R M n = Some h \<and> v = kind_key (hdr_kind h)) (by_kind s)"
    using assms by (simp add: store_rep_def indexed_def)
  note f = holds_facts [OF this, of "kind_key k"]
  show ?thesis unfolding query_by_kind_def
    by (rule resolve_spec [OF assms f [THEN conjunct1]]) (use f in \<open>auto simp: kind_key_inj\<close>)
qed

lemma query_by_schema_spec:
  assumes "store_rep os s M N R"
  shows "\<exists>ids. query_by_schema_ref s t = Ok ids \<and> by_ordinal N (entities_where M (\<lambda>h. schema_ref h = t)) ids"
proof -
  have "secondary.holds (\<lambda>n v. \<exists>h. headers_by R M n = Some h \<and> v = schema_ref_key (schema_ref h)) (by_schema_ref s)"
    using assms by (simp add: store_rep_def indexed_def)
  note f = holds_facts [OF this, of "schema_ref_key t"]
  show ?thesis unfolding query_by_schema_ref_def
    by (rule resolve_spec [OF assms f [THEN conjunct1]]) (use f in \<open>auto simp: schema_key_inj\<close>)
qed

text \<open>The entity type a name stands for: of those with the name, the one with the least ordinal.\<close>

definition first_named :: "(tuid \<rightharpoonup> entity_header \<times> bytes) \<Rightarrow> (tuid \<rightharpoonup> nat) \<Rightarrow> bytes \<Rightarrow> tuid option \<Rightarrow> bool" where
  "first_named M N name r \<longleftrightarrow>
     (let A = entities_where M (\<lambda>h. hdr_kind h = EntityType \<and> hdr_name h = name) in
      case r of None \<Rightarrow> A = {} | Some i \<Rightarrow> i \<in> A \<and> (\<forall>j \<in> A. the (N i) \<le> the (N j)))"

lemma find_by_name_spec:
  assumes "store_rep os s M N R"
  shows "\<exists>r. find_entity_type_by_name s name = Ok r \<and> first_named M N name r"
proof -
  have "secondary.holds (\<lambda>n v. \<exists>h. headers_by R M n = Some h \<and> hdr_kind h = EntityType \<and> v = name_key (hdr_name h)) (entity_type_by_name s)"
    using assms by (simp add: store_rep_def indexed_def)
  note f = holds_facts [OF this, of "name_key name"]
  have "\<exists>ids. resolve_ordinals s (si_get (entity_type_by_name s) (name_key name)) = Ok ids \<and>
      by_ordinal N (entities_where M (\<lambda>h. hdr_kind h = EntityType \<and> hdr_name h = name)) ids"
    by (rule resolve_spec [OF assms f [THEN conjunct1]]) (use f in \<open>auto simp: name_key_def\<close>)
  then obtain ids where ids: "resolve_ordinals s (si_get (entity_type_by_name s) (name_key name)) = Ok ids"
    "by_ordinal N (entities_where M (\<lambda>h. hdr_kind h = EntityType \<and> hdr_name h = name)) ids" by blast
  show ?thesis
  proof (cases ids)
    case Nil
    then show ?thesis using ids by (auto simp: find_entity_type_by_name_def first_named_def by_ordinal_def Let_def)
  next
    case (Cons i rest)
    then have "\<forall>j \<in> set ids. the (N i) \<le> the (N j)" using ids(2) by (auto simp: by_ordinal_def intro: less_imp_le)
    then show ?thesis using ids Cons
      by (intro exI [of _ "Some i"]) (auto simp: find_entity_type_by_name_def first_named_def by_ordinal_def Let_def)
  qed
qed

end
