(* ===== verification/Gems_Store_Open.thy ===== *)
theory Gems_Store_Open
  imports Gems_Store
begin

text \<open>
  Creating, closing and opening a store. The secondary indexes and the next ordinal are not in the files:
  \<open>rebuild_loop\<close> makes them again from the primary index, and the lemmas here show that what it makes
  satisfies the invariant for the same entities.
\<close>

lemma indexed_new: "indexed (\<lambda>_. None) \<lparr> st_primary = p, st_ordinal_by_id = b, st_id_by_ordinal = c, next_ordinal = n,
    st_data = d, by_kind = si_new, by_schema_ref = si_new, entity_type_by_name = si_new \<rparr>"
  using secondary.holds_none by (simp add: indexed_def)

lemma store_create_spec:
  assumes os: "os_page_ok os"
  shows "\<exists>s. store_create os = Ok s \<and> store_rep os s Map.empty Map.empty Map.empty \<and> extents (st_data s) = [] \<and>
    page_count (bt_pager (st_primary s)) = 1 \<and> page_count (bt_pager (st_ordinal_by_id s)) = 1 \<and>
    page_count (bt_pager (st_id_by_ordinal s)) = 1 \<and> next_ordinal s = 0"
proof -
  have l: "HEADER_ENCODED_LEN \<le> 4096" by (simp add: HEADER_ENCODED_LEN_def)
  have lens: "fc_len tuid_codec \<le> u16_max" "fc_len slot_pointer_codec \<le> u16_max" "fc_len ordinal_codec \<le> u16_max"
    by (simp_all add: tuid_codec_def slot_pointer_codec_def ordinal_codec_def TUID_LEN_def SLOT_POINTER_LEN_def)
  from btree_create_spec [OF os engine_indexes_fit(1) l lens(1,2)] obtain p where
    p: "btree_create os 4096 tuid_codec slot_pointer_codec = Ok p" "tree_rep os tuid_codec slot_pointer_codec p []"
      "page_count (bt_pager p) = 1" by blast
  from btree_create_spec [OF os engine_indexes_fit(2) l lens(1,3)] obtain b where
    b: "btree_create os 4096 tuid_codec ordinal_codec = Ok b" "tree_rep os tuid_codec ordinal_codec b []"
      "page_count (bt_pager b) = 1" by blast
  from btree_create_spec [OF os engine_indexes_fit(3) l lens(3,1)] obtain c where
    c: "btree_create os 4096 ordinal_codec tuid_codec = Ok c" "tree_rep os ordinal_codec tuid_codec c []"
      "page_count (bt_pager c) = 1" by blast
  let ?s = "\<lparr> st_primary = p, st_ordinal_by_id = b, st_id_by_ordinal = c, next_ordinal = 0,
     st_data = manager_create 0, by_kind = si_new, by_schema_ref = si_new, entity_type_by_name = si_new \<rparr>"
  have "contents (manager_create 0) = Map.empty" by (rule ext) (simp add: contents_def addressed_def manager_create_def)
  then have "entities_in (contents (manager_create 0)) Map.empty Map.empty" by (simp add: entities_in_def)
  moreover have "tree_map os tuid_codec slot_pointer_codec p Map.empty" "tree_map os tuid_codec ordinal_codec b Map.empty"
    "tree_map os ordinal_codec tuid_codec c Map.empty" using p(2) b(2) c(2) by (auto simp: tree_map_def)
  moreover have "headers_by Map.empty Map.empty = (\<lambda>_. None)" by (rule ext) (simp add: headers_by_def)
  ultimately have "store_rep os ?s Map.empty Map.empty Map.empty"
    using storage_ok_create [OF os, of 0] indexed_new by (auto simp: store_rep_def ordinals_rep_def manager_create_def)
  moreover have "store_create os = Ok ?s" using p(1) b(1) c(1) by (simp add: store_create_def DEFAULT_INDEX_PAGE_SIZE_def)
  ultimately show ?thesis using p(3) b(3) c(3) by (intro exI [of _ ?s]) (simp add: manager_create_def)
qed

text \<open>The loop adds the headers of the entries it visits.\<close>

lemma rebuild_loop_spec:
  assumes d: "layout_ok os (ext_file (st_data s)) (extents (st_data s))"
    and ords: "tree_map os tuid_codec ordinal_codec (st_ordinal_by_id s) N" "\<And>i n. N i = Some n \<longleftrightarrow> R n = Some i"
  shows "distinct (map fst es) \<Longrightarrow> fst ` set es \<inter> D = {} \<Longrightarrow>
    (\<And>i p. (i, p) \<in> set es \<Longrightarrow> (\<exists>e n. M i = Some e \<and> holds_entity (contents (st_data s)) p i e \<and> N i = Some n \<and> n < k)) \<Longrightarrow>
    indexed (headers_by R (M |` D)) s' \<Longrightarrow> st_data s' = st_data s \<Longrightarrow> st_ordinal_by_id s' = st_ordinal_by_id s \<Longrightarrow>
    k \<le> u32_max \<Longrightarrow> (\<And>m. mx = Some m \<Longrightarrow> m < k) \<Longrightarrow>
    \<exists>s'' mx'. rebuild_loop es mx s' = Ok (s'', mx') \<and> indexed (headers_by R (M |` (D \<union> fst ` set es))) s'' \<and>
      st_data s'' = st_data s \<and> st_ordinal_by_id s'' = st_ordinal_by_id s \<and> st_primary s'' = st_primary s' \<and>
      st_id_by_ordinal s'' = st_id_by_ordinal s' \<and> (\<forall>m. mx' = Some m \<longrightarrow> m < k) \<and>
      (\<forall>m. mx = Some m \<longrightarrow> (\<exists>m'. mx' = Some m' \<and> m \<le> m')) \<and>
      (\<forall>i \<in> fst ` set es. \<exists>m'. mx' = Some m' \<and> the (N i) \<le> m') \<and> (mx' = mx \<or> mx' \<in> Some ` ran N)"
proof (induction es arbitrary: D s' mx)
  case Nil
  then show ?case by (intro exI [of _ s'] exI [of _ mx]) simp
next
  case (Cons x es)
  obtain i p where x: "x = (i, p)" by (cases x)
  from Cons.prems(3) [of i p] obtain e n where e: "M i = Some e" "holds_entity (contents (st_data s)) p i e" "N i = Some n" "n < k"
    by (auto simp: x)
  have get: "btree_get tuid_codec ordinal_codec (st_ordinal_by_id s') i = Ok (Some n)"
    using ordinal_by_id.map_get [OF ords(1), of i] e(3) Cons.prems(6) by simp
  have "layout_ok os (ext_file (st_data s')) (extents (st_data s'))" "holds_entity (contents (st_data s')) p i e"
    using d e(2) Cons.prems(5) by simp_all
  from read_entity [OF this] have read: "read_at s' p = Ok e" .
  have Rn: "R n = Some i" using e(3) ords(2) by simp
  have only: "m = n" if "R m = Some i" for m using that ords(2) [of i m] e(3) by simp
  have i: "i \<notin> D" "i \<notin> fst ` set es" using Cons.prems(1,2) by (auto simp: x)
  have n: "n \<le> u32_max" using e(4) Cons.prems(7) by simp
  have "headers_by R (M |` D) n = None" using Rn i(1) by (simp add: headers_by_def)
  from index_header_spec [OF Cons.prems(4) this n]
  have "indexed ((headers_by R (M |` D))(n \<mapsto> fst e)) (store_index_header (fst e) n s')" .
  moreover have "(headers_by R (M |` D))(n \<mapsto> fst e) = headers_by R (M |` insert i D)"
  proof -
    have "headers_by (R(n \<mapsto> i)) ((M |` D)(i \<mapsto> e)) = (headers_by R (M |` D))(n \<mapsto> fst e)"
      by (rule headers_insert) (rule only)
    moreover have "R(n \<mapsto> i) = R" using Rn by (simp add: fun_upd_idem)
    moreover have "(M |` D)(i \<mapsto> e) = M |` insert i D" using e(1) by (auto simp: restrict_map_def)
    ultimately show ?thesis by simp
  qed
  ultimately have ix: "indexed (headers_by R (M |` insert i D)) (store_index_header (fst e) n s')" by simp
  define mx1 where "mx1 = (case mx of None \<Rightarrow> n | Some m \<Rightarrow> max m n)"
  have "\<exists>s'' mx'. rebuild_loop es (Some mx1) (store_index_header (fst e) n s') = Ok (s'', mx') \<and>
      indexed (headers_by R (M |` (insert i D \<union> fst ` set es))) s'' \<and>
      st_data s'' = st_data s \<and> st_ordinal_by_id s'' = st_ordinal_by_id s \<and> st_primary s'' = st_primary (store_index_header (fst e) n s') \<and>
      st_id_by_ordinal s'' = st_id_by_ordinal (store_index_header (fst e) n s') \<and> (\<forall>m. mx' = Some m \<longrightarrow> m < k) \<and>
      (\<forall>m. Some mx1 = Some m \<longrightarrow> (\<exists>m'. mx' = Some m' \<and> m \<le> m')) \<and>
      (\<forall>i \<in> fst ` set es. \<exists>m'. mx' = Some m' \<and> the (N i) \<le> m') \<and> (mx' = Some mx1 \<or> mx' \<in> Some ` ran N)"
  proof (rule Cons.IH)
    show "distinct (map fst es)" using Cons.prems(1) by simp
    show "fst ` set es \<inter> insert i D = {}" using Cons.prems(2) i(2) by auto
    show "\<exists>e n. M j = Some e \<and> holds_entity (contents (st_data s)) q j e \<and> N j = Some n \<and> n < k" if "(j, q) \<in> set es" for j q
      using Cons.prems(3) that by simp
    show "indexed (headers_by R (M |` insert i D)) (store_index_header (fst e) n s')" by (rule ix)
    show "st_data (store_index_header (fst e) n s') = st_data s" "st_ordinal_by_id (store_index_header (fst e) n s') = st_ordinal_by_id s"
      using Cons.prems(5,6) by simp_all
    show "k \<le> u32_max" by (rule Cons.prems(7))
    show "m < k" if "Some mx1 = Some m" for m using that e(4) Cons.prems(8) by (auto simp: mx1_def split: option.splits)
  qed
  then obtain s'' m' where r: "rebuild_loop es (Some mx1) (store_index_header (fst e) n s') = Ok (s'', Some m')"
    "indexed (headers_by R (M |` (insert i D \<union> fst ` set es))) s''"
    "st_data s'' = st_data s" "st_ordinal_by_id s'' = st_ordinal_by_id s" "st_primary s'' = st_primary s'"
    "st_id_by_ordinal s'' = st_id_by_ordinal s'" "m' < k" "mx1 \<le> m'" "\<forall>i \<in> fst ` set es. the (N i) \<le> m'"
    "m' = mx1 \<or> m' \<in> ran N" by auto
  have "Some mx1 = mx \<or> mx1 \<in> ran N" using ranI [of N, OF e(3)] by (auto simp: mx1_def max_def split: option.splits)
  with r(10) have att: "Some m' = mx \<or> m' \<in> ran N" by blast
  have "rebuild_loop (x # es) mx s' = Ok (s'', Some m')"
    using get read r(1) by (simp add: x Let_def mx1_def case_prod_unfold)
  moreover have "n \<le> m'" "\<forall>m. mx = Some m \<longrightarrow> m \<le> m'" using r(8) by (auto simp: mx1_def split: option.splits)
  moreover have "insert i D \<union> fst ` set es = D \<union> fst ` set (x # es)" by (auto simp: x)
  ultimately show ?case using r(2-9) e(3) att by (intro exI [of _ s''] exI [of _ "Some m'"]) (simp add: x image_iff)
qed

lemma tree_map_reopened:
  assumes "tree_map os kc vc b f"
  shows "\<exists>b'. btree_open os (disk_image (bt_pager b)) True = Ok b' \<and> tree_map os kc vc b' f \<and>
    page_count (bt_pager b') = page_count (bt_pager b)"
  using assms reopened_spec [of os kc vc b] unfolding tree_map_def by blast

lemma store_open_spec:
  assumes rep: "store_rep os s M N R" and nd: "no_drift os (length (extents (st_data s)))"
  shows "\<exists>s'. store_open os (store_image s) True = Ok s' \<and> store_rep os s' M N R \<and> next_ordinal s' \<le> next_ordinal s \<and>
    next_ordinal s' = (if N = Map.empty then 0 else Suc (Max (ran N)))"
proof -
  from rep obtain P where P: "tree_map os tuid_codec slot_pointer_codec (st_primary s) P" "entities_in (contents (st_data s)) P M"
    and d: "storage_ok os (st_data s)" "mgr_file_id (st_data s) = 0" and ords: "ordinals_rep os s N R"
    and dom: "dom N = dom M" by (auto simp: store_rep_def)
  have inv: "N i = Some n \<longleftrightarrow> R n = Some i" for i n using ords by (simp add: ordinals_rep_def)
  have tm: "tree_map os tuid_codec ordinal_codec (st_ordinal_by_id s) N" "tree_map os ordinal_codec tuid_codec (st_id_by_ordinal s) R"
    and bound: "\<And>n i. R n = Some i \<Longrightarrow> n < next_ordinal s" "next_ordinal s \<le> u32_max" using ords by (auto simp: ordinals_rep_def)
  from tree_map_reopened [OF P(1)] obtain p where p: "btree_open os (disk_image (bt_pager (st_primary s))) True = Ok p"
    "tree_map os tuid_codec slot_pointer_codec p P" by blast
  from tree_map_reopened [OF tm(1)] obtain b where b: "btree_open os (disk_image (bt_pager (st_ordinal_by_id s))) True = Ok b"
    "tree_map os tuid_codec ordinal_codec b N" by blast
  from tree_map_reopened [OF tm(2)] obtain c where c: "btree_open os (disk_image (bt_pager (st_id_by_ordinal s))) True = Ok c"
    "tree_map os ordinal_codec tuid_codec c R" by blast
  from reopened [OF d(1) nd, of True] obtain e where e: "manager_open os (disk_image (ext_file (st_data s))) 0 True = Ok e"
    "contents e = contents (st_data s)" "mgr_file_id e = 0" "storage_ok os e" using d(2) by (auto simp: storage_ok_def)
  let ?s0 = "\<lparr> st_primary = p, st_ordinal_by_id = b, st_id_by_ordinal = c, next_ordinal = 0,
     st_data = e, by_kind = si_new, by_schema_ref = si_new, entity_type_by_name = si_new \<rparr>"
  from primary.map_scan [OF p(2)] obtain m where m: "btree_scan_all tuid_codec slot_pointer_codec p = Ok m" "map_of m = P" "strict (map fst m)"
    by blast
  have dist: "distinct (map fst m)" using m(3) strict_sorted_iff by blast
  have keys: "fst ` set m = dom M" using dom_map_of_conv_image_fst [of m] m(2) entities_facts(1) [OF P(2)] by simp
  have entry: "\<exists>e' n. M i = Some e' \<and> holds_entity (contents (st_data ?s0)) q i e' \<and> N i = Some n \<and> n < next_ordinal s"
    if "(i, q) \<in> set m" for i q
  proof -
    have "P i = Some q" using that dist m(2) by (metis map_of_is_SomeI)
    from entities_get [OF P(2) this] obtain e' where e': "M i = Some e'" "holds_entity (contents (st_data s)) q i e'" by blast
    moreover obtain n where "N i = Some n" using e'(1) dom by (metis domD domI)
    ultimately show ?thesis using bound(1) inv e(2) by auto
  qed
  have "headers_by R (M |` {}) = (\<lambda>_. None)" by (rule ext) (simp add: headers_by_def split: option.splits)
  then have ix0: "indexed (headers_by R (M |` {})) ?s0" using indexed_new by simp
  have lay: "layout_ok os (ext_file (st_data ?s0)) (extents (st_data ?s0))" using e(4) by (simp add: storage_ok_def)
  have tm0: "tree_map os tuid_codec ordinal_codec (st_ordinal_by_id ?s0) N" using b(2) by simp
  have "\<exists>s'' mx'. rebuild_loop m None ?s0 = Ok (s'', mx') \<and> indexed (headers_by R (M |` ({} \<union> fst ` set m))) s'' \<and>
      st_data s'' = st_data ?s0 \<and> st_ordinal_by_id s'' = st_ordinal_by_id ?s0 \<and> st_primary s'' = st_primary ?s0 \<and>
      st_id_by_ordinal s'' = st_id_by_ordinal ?s0 \<and> (\<forall>m. mx' = Some m \<longrightarrow> m < next_ordinal s) \<and>
      (\<forall>m. None = Some m \<longrightarrow> (\<exists>m'. mx' = Some m' \<and> m \<le> m')) \<and>
      (\<forall>i \<in> fst ` set m. \<exists>m'. mx' = Some m' \<and> the (N i) \<le> m') \<and> (mx' = None \<or> mx' \<in> Some ` ran N)"
    by (rule rebuild_loop_spec [OF lay tm0 inv dist _ entry ix0 refl refl bound(2)]) simp_all
  then obtain s'' mx' where r: "rebuild_loop m None ?s0 = Ok (s'', mx')" "indexed (headers_by R (M |` dom M)) s''"
    "st_data s'' = e" "st_ordinal_by_id s'' = b" "st_primary s'' = p" "st_id_by_ordinal s'' = c"
    "\<forall>m. mx' = Some m \<longrightarrow> m < next_ordinal s" "\<forall>i \<in> dom M. \<exists>m'. mx' = Some m' \<and> the (N i) \<le> m'"
    "mx' = None \<or> mx' \<in> Some ` ran N" unfolding keys by auto
  define nx where "nx = (case mx' of None \<Rightarrow> 0 | Some m \<Rightarrow> m + 1)"
  define s' where "s' = s''\<lparr> next_ordinal := nx \<rparr>"
  have wrap: "m \<noteq> u32_max" if "mx' = Some m" for m using that r(7) bound(2) by auto
  have opened: "store_open os (store_image s) True = Ok s'"
    using p(1) b(1) c(1) e(1) m(1) r(1) wrap
    by (cases mx') (simp_all add: store_open_def store_image_def rebuild_in_memory_indexes_def s'_def nx_def)
  have below: "n < nx" if "N i = Some n" for i n
  proof -
    have "i \<in> dom M" using that dom by blast
    with r(8) obtain m' where "mx' = Some m'" "the (N i) \<le> m'" by blast
    then show ?thesis using that by (simp add: nx_def)
  qed
  have le: "nx \<le> next_ordinal s" using r(7) by (auto simp: nx_def split: option.splits)
  have max: "nx = (if N = Map.empty then 0 else Suc (Max (ran N)))"
  proof (cases mx')
    case None
    have "dom M = {}" by (rule equals0I) (use r(8) None in blast)
    then have "N = Map.empty" using dom dom_eq_empty_conv by metis
    then show ?thesis using None by (simp add: nx_def)
  next
    case (Some k)
    then have k: "k \<in> ran N" using r(9) by auto
    have "finite (dom N)" using keys dom finite_set [of m] by (metis finite_imageI)
    then have "finite (ran N)" by (rule finite_ran)
    moreover have "n \<le> k" if "n \<in> ran N" for n using that below Some by (auto simp: ran_def nx_def less_Suc_eq_le)
    ultimately have "Max (ran N) = k" using k by (intro Max_eqI)
    then show ?thesis using Some k by (auto simp: nx_def)
  qed
  have "M |` dom M = M" by (rule ext) (simp only: restrict_map_def domIff, metis)
  then have ix: "indexed (headers_by R M) s'" using r(2) indexed_fields [of s' s''] by (simp add: s'_def)
  have "ordinals_rep os s' N R"
    unfolding ordinals_rep_def
  proof (intro conjI allI impI)
    show "n < next_ordinal s'" if "R n = Some i" for n i using that below inv by (simp add: s'_def)
    show "next_ordinal s' \<le> u32_max" using le bound(2) by (simp add: s'_def)
    show "N i = Some n \<longleftrightarrow> R n = Some i" for i n by (rule inv)
  qed (use b(2) c(2) r in \<open>simp_all add: s'_def\<close>)
  then have "store_rep os s' M N R"
    unfolding store_rep_def using p(2) P(2) e r(3,5) dom ix by (auto simp: s'_def)
  then show ?thesis using opened le max by (intro exI [of _ s']) (simp add: s'_def)
qed

text \<open>A store that is opened again has the room it had.\<close>

lemma index_header_files [simp]:
  "st_primary (store_index_header h n s) = st_primary s" "st_data (store_index_header h n s) = st_data s"
  "st_ordinal_by_id (store_index_header h n s) = st_ordinal_by_id s" "st_id_by_ordinal (store_index_header h n s) = st_id_by_ordinal s"
  by (simp_all add: store_index_header_def Let_def)

lemma rebuild_loop_files:
  "rebuild_loop es mx s = Ok (s', mx') \<Longrightarrow> st_primary s' = st_primary s \<and> st_data s' = st_data s \<and>
     st_ordinal_by_id s' = st_ordinal_by_id s \<and> st_id_by_ordinal s' = st_id_by_ordinal s"
proof (induction es arbitrary: mx s)
  case (Cons e es)
  obtain found where f: "btree_get tuid_codec ordinal_codec (st_ordinal_by_id s) (fst e) = Ok found"
    using Cons.prems by (cases "btree_get tuid_codec ordinal_codec (st_ordinal_by_id s) (fst e)") simp_all
  obtain ord where ord: "found = Some ord" using Cons.prems f by (cases found) simp_all
  obtain header body where "read_at s (snd e) = Ok (header, body)"
    using Cons.prems f ord by (cases "read_at s (snd e)") (auto simp: Let_def)
  then have "\<exists>mx1. rebuild_loop es mx1 (store_index_header header ord s) = Ok (s', mx')"
    using Cons.prems f ord by (auto simp: Let_def)
  then show ?case using Cons.IH by fastforce
qed simp

lemma store_open_room:
  assumes rep: "store_rep os s M N R" and room: "store_room os s" and o: "store_open os (store_image s) True = Ok s'"
  shows "store_room os s'"
proof -
  from rep obtain P where P: "tree_map os tuid_codec slot_pointer_codec (st_primary s) P" "storage_ok os (st_data s)" "mgr_file_id (st_data s) = 0"
    and ords: "ordinals_rep os s N R" by (auto simp: store_rep_def)
  have tm: "tree_map os tuid_codec ordinal_codec (st_ordinal_by_id s) N" "tree_map os ordinal_codec tuid_codec (st_id_by_ordinal s) R"
    using ords by (auto simp: ordinals_rep_def)
  have nd: "no_drift os (length (extents (st_data s)))" using room by (simp add: store_room_def alloc_room_def)
  obtain p b c where opened: "btree_open os (disk_image (bt_pager (st_primary s))) True = Ok p"
    "btree_open os (disk_image (bt_pager (st_ordinal_by_id s))) True = Ok b" "btree_open os (disk_image (bt_pager (st_id_by_ordinal s))) True = Ok c"
    and pages: "page_count (bt_pager p) = page_count (bt_pager (st_primary s))" "page_count (bt_pager b) = page_count (bt_pager (st_ordinal_by_id s))"
    "page_count (bt_pager c) = page_count (bt_pager (st_id_by_ordinal s))"
    using tree_map_reopened [OF P(1)] tree_map_reopened [OF tm(1)] tree_map_reopened [OF tm(2)] by blast
  obtain e where e: "manager_open os (disk_image (ext_file (st_data s))) 0 True = Ok e" "extents e = extents (st_data s)"
    using reopened [OF P(2) nd, of True] P(3) by auto
  have files: "st_primary s' = p \<and> st_ordinal_by_id s' = b \<and> st_id_by_ordinal s' = c \<and> st_data s' = e"
    using o opened e(1) by (auto simp: store_open_def store_image_def rebuild_in_memory_indexes_def obind_eq_Ok
        dest!: rebuild_loop_files split: option.split_asm if_split_asm)
  have "next_ordinal s' \<le> next_ordinal s" using store_open_spec [OF rep nd] o by auto
  then show ?thesis using room files pages e(2) by (simp add: store_room_def room_left_def alloc_room_def)
qed

end
