(* ===== verification/Gems_Store_Query.thy ===== *)
theory Gems_Store_Query
  imports Gems_Store
begin

text \<open>
  The query planner of the store. \<open>query_spec\<close> is its specification over the map of entities: what
  \<^verbatim>\<open>FROM\<close>, \<^verbatim>\<open>type IN (...)\<close> and \<^verbatim>\<open>LIMIT\<close> select, and the errors of the forms that are not
  supported. The enforced reads filter what the planner finds by the policies stored as entities.
\<close>

section \<open>The specification\<close>

text \<open>The name a value of \<^verbatim>\<open>type IN (...)\<close> stands for.\<close>

fun type_name :: "literal \<Rightarrow> bytes option" where
  "type_name (LIdent n) = Some n"
| "type_name (LStr n) = Some n"
| "type_name _ = None"

text \<open>The entities of the types named, when \<open>T\<close> resolves names.\<close>

definition of_types :: "(tuid \<rightharpoonup> entity_header \<times> bytes) \<Rightarrow> (bytes \<rightharpoonup> tuid) \<Rightarrow> literal list \<Rightarrow> tuid set" where
  "of_types M T vals = entities_where M (\<lambda>h. \<exists>v \<in> set vals. \<exists>n. type_name v = Some n \<and> T n = Some (schema_ref h))"

definition limited :: "query \<Rightarrow> tuid set \<Rightarrow> tuid list" where
  "limited q A = (case q_limit q of None \<Rightarrow> sorted_list_of_set A | Some k \<Rightarrow> take k (sorted_list_of_set A))"

definition query_spec :: "(tuid \<rightharpoonup> entity_header \<times> bytes) \<Rightarrow> (bytes \<rightharpoonup> tuid) \<Rightarrow> query \<Rightarrow> tuid list result" where
  "query_spec M T q =
     (if \<not> eq_ignore_ascii_case (q_from q) (ascii ''entities'')
      then Err (InvalidValue ''the only queryable source is `entities`'')
      else if q_order_by q \<noteq> [] then Err (InvalidValue ''ORDER BY is not supported by this v1 planner'')
      else case q_filter q of
        None \<Rightarrow> Ok (limited q (dom M))
      | Some (In fld vals) \<Rightarrow>
          if \<not> eq_ignore_ascii_case fld (ascii ''type'')
          then Err (InvalidValue ''this v1 planner only supports filtering on `type`'')
          else if \<exists>v \<in> set vals. type_name v = None
          then Err (InvalidValue ''type names in `type IN (...)` must be identifiers or strings'')
          else Ok (limited q (of_types M T vals))
      | Some _ \<Rightarrow> Err (InvalidValue ''this v1 planner only supports a top-level `type IN (...)` filter''))"

section \<open>The planner implements it\<close>

lemma rep_finite: "store_rep os s M N R \<Longrightarrow> finite (dom M)"
proof -
  assume "store_rep os s M N R"
  from store_scan_spec [OF this] obtain ids where "set ids = dom M" by (auto simp: listed_def)
  then show ?thesis by (metis List.finite_set)
qed

lemma entities_where_dom: "entities_where M Q \<subseteq> dom M"
  by (auto simp: entities_where_def)

lemma match_types_spec:
  assumes rep: "store_rep os s M N R" and T: "\<And>n. find_entity_type_by_name s n = Ok (T n)"
  shows "roaring_ok b \<Longrightarrow>
    if \<exists>v \<in> set vs. type_name v = None
    then match_types s vs b = Err (InvalidValue ''type names in `type IN (...)` must be identifiers or strings'')
    else \<exists>b'. match_types s vs b = Ok b' \<and> roaring_ok b' \<and>
      unat ` roaring_set b' = unat ` roaring_set b \<union>
        {m. \<exists>h. headers_by R M m = Some h \<and> (\<exists>v \<in> set vs. \<exists>n. type_name v = Some n \<and> T n = Some (schema_ref h))}"
proof (induction vs arbitrary: b)
  case (Cons v vs)
  show ?case
  proof (cases "type_name v")
    case None
    then show ?thesis by (cases v) simp_all
  next
    case (Some n)
    define b1 where "b1 = (case T n of Some t \<Rightarrow> roaring_union b (si_get (by_schema_ref s) (schema_ref_key t)) | None \<Rightarrow> b)"
    have step: "match_types s (v # vs) b = match_types s vs b1"
      using Some T by (cases v) (simp_all add: b1_def)
    have hs: "secondary.holds (\<lambda>n v. \<exists>h. headers_by R M n = Some h \<and> v = schema_ref_key (schema_ref h)) (by_schema_ref s)"
      using rep by (simp add: store_rep_def indexed_def)
    note f = holds_facts [OF hs]
    have b1: "roaring_ok b1 \<and> unat ` roaring_set b1 = unat ` roaring_set b \<union> {m. \<exists>h. headers_by R M m = Some h \<and> T n = Some (schema_ref h)}"
    proof (cases "T n")
      case None
      then show ?thesis using Cons.prems by (simp add: b1_def)
    next
      case (Some t)
      have "unat ` roaring_set (si_get (by_schema_ref s) (schema_ref_key t)) = {m. \<exists>h. headers_by R M m = Some h \<and> t = schema_ref h}"
        using f [of "schema_ref_key t"] by (auto simp: schema_key_inj)
      then show ?thesis
        using roaring_union_spec [OF Cons.prems, of "si_get (by_schema_ref s) (schema_ref_key t)"] f [of "schema_ref_key t"] Some
        by (simp add: b1_def image_Un)
    qed
    show ?thesis
    proof (cases "\<exists>v \<in> set vs. type_name v = None")
      case True
      then show ?thesis using Cons.IH [of b1] b1 by (simp add: step del: match_types.simps)
    next
      case False
      with Cons.IH [of b1] b1 obtain b' where b': "match_types s vs b1 = Ok b'" "roaring_ok b'"
        "unat ` roaring_set b' = unat ` roaring_set b1 \<union>
          {m. \<exists>h. headers_by R M m = Some h \<and> (\<exists>v \<in> set vs. \<exists>n. type_name v = Some n \<and> T n = Some (schema_ref h))}" by auto
      have "unat ` roaring_set b' = unat ` roaring_set b \<union>
          {m. \<exists>h. headers_by R M m = Some h \<and> (\<exists>v \<in> set (v # vs). \<exists>n. type_name v = Some n \<and> T n = Some (schema_ref h))}"
        unfolding b'(3) using b1 Some by auto
      then show ?thesis using False Some b'(1,2) by (simp add: step del: match_types.simps)
    qed
  qed
qed simp

lemma sort_of_set: "distinct ids \<Longrightarrow> sort ids = sorted_list_of_set (set ids)"
  by (metis sorted_list_of_set_sort_remdups distinct_remdups_id)

lemma by_ordinal_distinct: "by_ordinal N A ids \<Longrightarrow> distinct ids"
proof -
  assume "by_ordinal N A ids"
  then have "distinct (map (\<lambda>i. the (N i)) ids)" using strict_sorted_iff by (auto simp: by_ordinal_def)
  then show ?thesis by (simp add: distinct_map)
qed

lemma rep_ids: "store_rep os s M N R \<Longrightarrow> M i = Some e \<Longrightarrow> hdr_id (fst e) = i"
proof -
  assume rep: "store_rep os s M N R" and M: "M i = Some e"
  from rep obtain P where P: "entities_in (contents (st_data s)) P M" by (auto simp: store_rep_def)
  then obtain p where "P i = Some p" using M entities_none [OF P, of i] by (cases "P i") auto
  from entities_get [OF P this] show ?thesis using M by (auto simp: holds_entity_def entity_ok_def)
qed

lemma scanned_ids: "store_rep os s M N R \<Longrightarrow> omap (map (\<lambda>(h, _). hdr_id h)) (store_scan_all s) = Ok (sorted_list_of_set (dom M))"
proof -
  assume rep: "store_rep os s M N R"
  from store_scan_spec [OF rep] obtain ids where
    ids: "store_scan_all s = Ok (map (\<lambda>i. the (M i)) ids)" "strict ids" "set ids = dom M" by (auto simp: listed_def)
  have "hdr_id (fst (the (M i))) = i" if "i \<in> set ids" for i
  proof -
    have "i \<in> dom M" using that ids(3) by simp
    then obtain e where e: "M i = Some e" by blast
    then show ?thesis using rep_ids [OF rep e] by simp
  qed
  then have "map (\<lambda>(h, _). hdr_id h) (map (\<lambda>i. the (M i)) ids) = ids"
    by (simp add: map_idI case_prod_unfold)
  moreover have "ids = sorted_list_of_set (dom M)"
    using ids(2,3) by (metis sorted_list_of_set.idem_if_sorted_distinct strict_sorted_iff)
  ultimately show ?thesis using ids(1) by simp
qed

lemma store_query_spec:
  assumes rep: "store_rep os s M N R"
  shows "\<exists>T. (\<forall>n. find_entity_type_by_name s n = Ok (T n) \<and> first_named M N n (T n)) \<and> (\<forall>q. store_query s q = query_spec M T q)"
proof -
  have "\<forall>n. \<exists>r. find_entity_type_by_name s n = Ok r \<and> first_named M N n r" using find_by_name_spec [OF rep] by blast
  then obtain T where T: "\<And>n. find_entity_type_by_name s n = Ok (T n)" "\<And>n. first_named M N n (T n)" by metis
  have typed: "eval_type_in_filter s e = (case e of
        In fld vals \<Rightarrow>
          if \<not> eq_ignore_ascii_case fld (ascii ''type'')
          then Err (InvalidValue ''this v1 planner only supports filtering on `type`'')
          else if \<exists>v \<in> set vals. type_name v = None
          then Err (InvalidValue ''type names in `type IN (...)` must be identifiers or strings'')
          else eval_type_in_filter s e
      | _ \<Rightarrow> Err (InvalidValue ''this v1 planner only supports a top-level `type IN (...)` filter''))" for e
    using match_types_spec [OF rep T(1) roaring_new_facts(1)] by (cases e) (simp_all add: eval_type_in_filter_def)
  have found: "\<exists>ids. eval_type_in_filter s (In fld vals) = Ok ids \<and> sort ids = sorted_list_of_set (of_types M T vals)"
    if "eq_ignore_ascii_case fld (ascii ''type'')" "\<not> (\<exists>v \<in> set vals. type_name v = None)" for fld vals
  proof -
    from match_types_spec [OF rep T(1) roaring_new_facts(1), of vals] that(2) obtain b where
      b: "match_types s vals roaring_new = Ok b" "roaring_ok b" "unat ` roaring_set b =
        {m. \<exists>h. headers_by R M m = Some h \<and> (\<exists>v \<in> set vals. \<exists>n. type_name v = Some n \<and> T n = Some (schema_ref h))}"
      by (auto simp: roaring_new_facts)
    have "\<exists>ids. resolve_ordinals s b = Ok ids \<and> by_ordinal N (of_types M T vals) ids"
      unfolding of_types_def by (rule resolve_spec [OF rep b(2)]) (simp add: b(3))
    then obtain ids where ids: "resolve_ordinals s b = Ok ids" "by_ordinal N (of_types M T vals) ids" by blast
    then have "sort ids = sorted_list_of_set (of_types M T vals)"
      using sort_of_set [OF by_ordinal_distinct [OF ids(2)]] by (simp add: by_ordinal_def)
    then show ?thesis using that b(1) ids(1) by (simp add: eval_type_in_filter_def)
  qed
  have "store_query s q = query_spec M T q" for q
  proof (cases "q_filter q")
    case None
    have "sort (sorted_list_of_set (dom M)) = sorted_list_of_set (dom M)" using rep_finite [OF rep] by (simp add: sort_key_id_if_sorted)
    moreover note scanned_ids [OF rep]
    ultimately show ?thesis
      by (cases "q_limit q") (simp_all only: store_query_def query_spec_def limited_def Let_def None option.case obind.simps)
  next
    case (Some e)
    show ?thesis
    proof (cases e)
      case (In fld vals)
      show ?thesis
      proof (cases "eq_ignore_ascii_case fld (ascii ''type'') \<and> \<not> (\<exists>v \<in> set vals. type_name v = None)")
        case True
        with found obtain ids where "eval_type_in_filter s (In fld vals) = Ok ids" "sort ids = sorted_list_of_set (of_types M T vals)" by blast
        then show ?thesis using True Some In by (auto simp: store_query_def query_spec_def limited_def Let_def split: option.splits)
      next
        case False
        then show ?thesis using typed [of e] Some In by (auto simp: store_query_def query_spec_def)
      qed
    qed (use Some typed [of e] in \<open>simp_all add: store_query_def query_spec_def\<close>)
  qed
  then show ?thesis using T by blast
qed

text \<open>A name resolves in one way only, so the answers depend on the entities and their ordinals alone.\<close>

lemma first_named_unique:
  assumes rep: "store_rep os s M N R" and r: "first_named M N n r" "first_named M N n r'"
  shows "r = r'"
proof -
  let ?A = "entities_where M (\<lambda>h. hdr_kind h = EntityType \<and> hdr_name h = n)"
  have inv: "N j = Some m \<longleftrightarrow> R m = Some j" for j m using rep by (auto simp: store_rep_def ordinals_rep_def)
  have dom: "dom N = dom M" using rep by (simp add: store_rep_def)
  show ?thesis
  proof (cases "r = None \<or> r' = None")
    case True
    then show ?thesis using r by (auto simp: first_named_def Let_def split: option.splits)
  next
    case False
    then obtain i j where ij: "r = Some i" "r' = Some j" by auto
    then have A: "i \<in> ?A" "j \<in> ?A" "the (N i) = the (N j)" using r by (auto simp: first_named_def Let_def intro: antisym)
    then have "i \<in> dom N" "j \<in> dom N" using entities_where_dom dom by blast+
    then obtain k l where "N i = Some k" "N j = Some l" by blast
    with A(3) inv have "i = j" by (metis option.sel option.inject)
    then show ?thesis using ij by simp
  qed
qed

lemma query_determined:
  assumes "store_rep os s M N R" "store_rep os' s' M N R"
  shows "store_query s' q = store_query s q"
proof -
  from store_query_spec [OF assms(1)] obtain T where T: "\<forall>n. first_named M N n (T n)" "store_query s q = query_spec M T q" by blast
  from store_query_spec [OF assms(2)] obtain T' where T': "\<forall>n. first_named M N n (T' n)" "store_query s' q = query_spec M T' q" by blast
  have "T' = T" using first_named_unique [OF assms(1)] T(1) T'(1) by blast
  then show ?thesis using T(2) T'(2) by simp
qed

section \<open>Enforced reads\<close>

lemma try_collect_cong: "(\<And>x. x \<in> set xs \<Longrightarrow> f x = g x) \<Longrightarrow> try_collect f xs = try_collect g xs"
  by (induction xs) simp_all

lemma load_policies_spec:
  assumes rep: "store_rep os s M N R"
  shows "\<exists>ids. by_ordinal N (entities_where M (\<lambda>h. hdr_kind h = Policy)) ids \<and>
    load_policies s = try_collect (\<lambda>i. policy_decode (snd (the (M i)))) ids"
proof -
  from query_by_kind_spec [OF rep, of Policy] obtain ids where ids: "query_by_kind s Policy = Ok ids"
    "by_ordinal N (entities_where M (\<lambda>h. hdr_kind h = Policy)) ids" by blast
  have "\<exists>e. M i = Some e" if "i \<in> set ids" for i using that ids(2) by (auto simp: by_ordinal_def entities_where_def)
  then have "load_policies s = try_collect (\<lambda>i. policy_decode (snd (the (M i)))) ids"
    unfolding load_policies_def ids(1) obind.simps
    by (intro try_collect_cong) (fastforce simp: store_get_spec [OF rep] case_prod_unfold)
  then show ?thesis using ids(2) by blast
qed

text \<open>What the policies let a subject see of an entity.\<close>

definition visible :: "policy list \<Rightarrow> subject_context \<Rightarrow> entity_header \<Rightarrow> bool" where
  "visible ps ctx h \<longleftrightarrow> evaluate ps ctx (hdr_kind h) (schema_ref h) \<noteq> DecDeny"

lemma get_enforced_spec:
  assumes rep: "store_rep os s M N R" and ps: "load_policies s = Ok ps"
  shows "case M i of
      None \<Rightarrow> get_enforced s i ctx = Ok None
    | Some (h, body) \<Rightarrow>
        if visible ps ctx h then \<exists>out. get_enforced s i ctx = Ok (Some (h, out)) \<and> enforce ps ctx [(h, body)] = Ok [(h, out)]
        else get_enforced s i ctx = Ok None"
proof (cases "M i")
  case None
  then show ?thesis by (simp add: get_enforced_def store_get_spec [OF rep])
next
  case (Some e)
  obtain h body where e: "e = (h, body)" by (cases e)
  obtain ys where ys: "enforce ps ctx [(h, body)] = Ok ys" using enforce_total by blast
  have get: "get_enforced s i ctx = Ok (case ys of [] \<Rightarrow> None | y # _ \<Rightarrow> Some y)"
    by (simp add: get_enforced_def store_get_spec [OF rep] Some e ps ys del: enforce.simps)
  show ?thesis
  proof (cases "visible ps ctx h")
    case True
    then have "map fst ys = [h]" using enforce_headers [OF ys] by (simp add: visible_def)
    then obtain out where "ys = [(h, out)]" by (cases ys) auto
    then show ?thesis using True Some e get ys by simp
  next
    case False
    then have "ys = []" using enforce_headers [OF ys] by (simp add: visible_def)
    then show ?thesis using False Some e get by simp
  qed
qed

lemma fetch_spec: "store_rep os s M N R \<Longrightarrow> set ids \<subseteq> dom M \<Longrightarrow> fetch_entities s ids = Ok (map (\<lambda>i. the (M i)) ids)"
  by (induction ids) (auto simp: store_get_spec)

lemma query_ids_dom:
  assumes rep: "store_rep os s M N R" and q: "store_query s q = Ok ids"
  shows "set ids \<subseteq> dom M"
proof -
  from store_query_spec [OF rep] obtain T where "store_query s q = query_spec M T q" by blast
  then have spec: "query_spec M T q = Ok ids" using q by simp
  have lim: "set (limited q A) \<subseteq> dom M" if "A \<subseteq> dom M" for A
  proof -
    have "set (limited q A) \<subseteq> set (sorted_list_of_set A)"
      by (simp add: limited_def set_take_subset split: option.splits)
    also have "\<dots> = A" using finite_subset [OF that rep_finite [OF rep]] by simp
    finally show ?thesis using that by blast
  qed
  have "of_types M T vs \<subseteq> dom M" for vs by (simp add: of_types_def entities_where_dom)
  moreover have "ids = limited q (dom M) \<or> (\<exists>vs. ids = limited q (of_types M T vs))"
    using spec unfolding query_spec_def by (auto split: if_splits option.splits expr.splits)
  ultimately have "\<exists>A \<subseteq> dom M. ids = limited q A" by blast
  then show ?thesis using lim by blast
qed

lemma query_enforced_spec:
  assumes rep: "store_rep os s M N R" and ps: "load_policies s = Ok ps" and q: "store_query s q = Ok ids"
  shows "\<exists>ys. query_enforced s q ctx = Ok ys \<and> enforce ps ctx (map (\<lambda>i. the (M i)) ids) = Ok ys \<and>
    map (\<lambda>y. hdr_id (fst y)) ys = filter (\<lambda>i. visible ps ctx (fst (the (M i)))) ids"
proof -
  note d = query_ids_dom [OF rep q]
  obtain ys where ys: "enforce ps ctx (map (\<lambda>i. the (M i)) ids) = Ok ys" using enforce_total by blast
  have "query_enforced s q ctx = Ok ys" using q ps fetch_spec [OF rep d] ys by (simp add: query_enforced_def)
  moreover have "map (\<lambda>y. hdr_id (fst y)) ys = map hdr_id (map fst ys)" by simp
  moreover have "\<dots> = map hdr_id (filter (visible ps ctx) (map (\<lambda>i. fst (the (M i))) ids))"
    using enforce_headers [OF ys] by (simp add: visible_def [abs_def] comp_def)
  moreover have "\<dots> = map (\<lambda>i. hdr_id (fst (the (M i)))) (filter (\<lambda>i. visible ps ctx (fst (the (M i)))) ids)"
    by (simp add: filter_map comp_def)
  moreover have "\<dots> = filter (\<lambda>i. visible ps ctx (fst (the (M i)))) ids"
  proof (rule map_idI)
    fix i assume "i \<in> set (filter (\<lambda>i. visible ps ctx (fst (the (M i)))) ids)"
    then have "i \<in> dom M" using d by auto
    then obtain e where "M i = Some e" by blast
    then show "hdr_id (fst (the (M i))) = i" using rep_ids [OF rep] by simp
  qed
  ultimately show ?thesis using ys by metis
qed

text \<open>A policy that does not decode stops every enforced read.\<close>

lemma enforced_fail_closed:
  assumes rep: "store_rep os s M N R" and e: "load_policies s = Err e"
  shows "i \<in> dom M \<Longrightarrow> get_enforced s i ctx = Err e" "store_query s q = Ok ids \<Longrightarrow> query_enforced s q ctx = Err e"
  using e by (auto simp: get_enforced_def query_enforced_def store_get_spec [OF rep])

end
