(* ===== verification/Gems_Store_Facts.thy ===== *)
theory Gems_Store_Facts
  imports Gems_Store_Open Gems_Store_Query
begin

text \<open>
  The properties of the engine: the store is a map of entities, its queries answer as specified, it
  survives closing and opening, its enforced reads obey the stored policies, and one error, the name of
  an entity type that is too long for the header.
\<close>

section \<open>A name that does not fit\<close>

lemma read_at_names [simp]: "read_at (s\<lparr> entity_type_by_name := E \<rparr>) p = read_at s p"
  by (simp add: read_at_def)

lemma deindex_names: "store_deindex_header h n (s\<lparr> entity_type_by_name := E \<rparr>) =
    (store_deindex_header h n s)\<lparr> entity_type_by_name := (if hdr_kind h = EntityType then si_remove (name_key (hdr_name h)) n E else E) \<rparr>"
  by (simp add: store_deindex_header_def Let_def)

lemma index_names: "hdr_kind h = EntityType \<Longrightarrow> hdr_kind h' = EntityType \<Longrightarrow> schema_ref h' = schema_ref h \<Longrightarrow>
    store_index_header h' n s = (store_index_header h n s)\<lparr> entity_type_by_name := si_insert (name_key (hdr_name h')) n (entity_type_by_name s) \<rparr>"
  by (simp add: store_index_header_def Let_def)

text \<open>Deletion reads the index of names only to take the name of the stored header out of it.\<close>

lemma delete_names:
  assumes rep: "store_rep os s M N R" and e: "M i = Some (h, body)" "hdr_kind h = EntityType" and n: "N i = Some n"
    and room: "room_left (st_primary s)" "room_left (st_ordinal_by_id s)" "room_left (st_id_by_ordinal s)"
    and d: "store_delete os i s = Ok (s', b)"
  shows "store_delete os i (s\<lparr> entity_type_by_name := E \<rparr>) =
    Ok (s'\<lparr> entity_type_by_name := si_remove (name_key (hdr_name h)) n E \<rparr>, b)"
proof -
  from rep obtain P where P: "tree_map os tuid_codec slot_pointer_codec (st_primary s) P" "entities_in (contents (st_data s)) P M"
    and sd: "storage_ok os (st_data s)" and ords: "ordinals_rep os s N R" by (auto simp: store_rep_def)
  have tm: "tree_map os tuid_codec ordinal_codec (st_ordinal_by_id s) N" "tree_map os ordinal_codec tuid_codec (st_id_by_ordinal s) R"
    using ords by (simp_all add: ordinals_rep_def)
  obtain p where p: "P i = Some p" using entities_none [OF P(2), of i] e(1) by (cases "P i") auto
  from entities_get [OF P(2) p] e(1) have he: "holds_entity (contents (st_data s)) p i (h, body)" by auto
  from primary.map_delete [OF P(1) room(1), of i] p obtain b1 where
    b1: "btree_delete os tuid_codec slot_pointer_codec i (st_primary s) = Ok (b1, Some p)" by auto
  from ordinal_by_id.map_delete [OF tm(1) room(2), of i] n obtain b2 where
    b2: "btree_delete os tuid_codec ordinal_codec i (st_ordinal_by_id s) = Ok (b2, Some n)" by auto
  from id_by_ordinal.map_delete [OF tm(2) room(3), of n] obtain b3 where
    b3: "btree_delete os ordinal_codec tuid_codec n (st_id_by_ordinal s) = Ok (b3, R n)" by auto
  have read: "read_at s p = Ok (h, body)" by (rule read_entity [OF storage_layout [OF sd] he])
  have read': "read_at (s\<lparr> st_primary := b1 \<rparr>) p = Ok (h, body)" using read by (simp add: read_at_def)
  have upd: "(s\<lparr> entity_type_by_name := E \<rparr>)\<lparr> st_primary := b1 \<rparr> = (s\<lparr> st_primary := b1 \<rparr>)\<lparr> entity_type_by_name := E \<rparr>" by simp
  have read2: "read_at ((s\<lparr> entity_type_by_name := E \<rparr>)\<lparr> st_primary := b1 \<rparr>) p = Ok (h, body)"
    unfolding upd read_at_names by (rule read')
  obtain d' where d': "manager_free os p (st_data s) = Ok d'"
    using d b1 read' b2 b3 by (auto simp: store_delete_def Let_def obind_eq_Ok split: prod.splits)
  let ?s3 = "s\<lparr> st_primary := b1, st_ordinal_by_id := b2, st_id_by_ordinal := b3 \<rparr>"
  have "s' = (store_deindex_header h n ?s3)\<lparr> st_data := d' \<rparr>" "b"
    using d b1 read' b2 b3 d' by (simp_all add: store_delete_def Let_def)
  moreover have "store_delete os i (s\<lparr> entity_type_by_name := E \<rparr>) =
      Ok ((store_deindex_header h n ((s\<lparr> entity_type_by_name := E \<rparr>)\<lparr> st_primary := b1, st_ordinal_by_id := b2, st_id_by_ordinal := b3 \<rparr>))
        \<lparr> st_data := d' \<rparr>, True)"
    using b1 read2 b2 b3 d' by (simp add: store_delete_def Let_def)
  moreover have "(s\<lparr> entity_type_by_name := E \<rparr>)\<lparr> st_primary := b1, st_ordinal_by_id := b2, st_id_by_ordinal := b3 \<rparr> =
      ?s3\<lparr> entity_type_by_name := E \<rparr>" by simp
  ultimately show ?thesis using e(2) by (simp add: deindex_names del: store.update_convs)
qed

lemma placed_name: "hdr_name (placed h body) = truncate_utf8 (hdr_name h) NAME_MAX"
  by (simp add: placed_def truncate_texts_def)

lemma stored_names_cut: "store_rep os s M N R \<Longrightarrow> M i = Some e \<Longrightarrow> truncate_utf8 (hdr_name (fst e)) NAME_MAX = hdr_name (fst e)"
proof -
  assume rep: "store_rep os s M N R" and M: "M i = Some e"
  from rep obtain P where P: "entities_in (contents (st_data s)) P M" by (auto simp: store_rep_def)
  then obtain p where "P i = Some p" using M entities_none [OF P, of i] by (cases "P i") auto
  from entities_get [OF P this] M have "truncate_texts (fst e) = fst e" by (auto simp: holds_entity_def entity_ok_def)
  then have "hdr_name (truncate_texts (fst e)) = hdr_name (fst e)" by simp
  then show ?thesis by (simp add: truncate_texts_def)
qed

lemma long_name_left_behind:
  assumes rep: "store_rep os s M N R" and room: "store_room os s" and h: "wf_header h" "hdr_kind h = EntityType"
    and long: "truncate_utf8 (hdr_name h) NAME_MAX \<noteq> hdr_name h" and len: "ENCODED_LEN + length body \<le> MAX_BLOCK_SIZE"
  shows "\<exists>s1. store_insert os h body s = Ok s1 \<and> trees_grow s s1 \<and> find_entity_type_by_name s1 (hdr_name h) = Ok (Some (hdr_id h)) \<and>
    (room_left (st_primary s1) \<longrightarrow> room_left (st_ordinal_by_id s1) \<longrightarrow> room_left (st_id_by_ordinal s1) \<longrightarrow>
      (\<exists>s2. store_delete os (hdr_id h) s1 = Ok (s2, True) \<and>
        find_entity_type_by_name s2 (hdr_name h) = Err (CorruptPage ''secondary index referenced an ordinal with no reverse mapping'')))"
proof -
  let ?i = "hdr_id h" and ?h = "h\<lparr> body_offset := ENCODED_LEN, body_len := length body \<rparr>" and ?hc = "placed h body"
  let ?name = "name_key (hdr_name h)"
  let ?M = "M(?i \<mapsto> (?hc, body))"
  from store_insert_core [OF rep room h(1) len] obtain s4 n where
    c: "store_insert os h body s = Ok (store_index_header ?h n s4)" "stored_at os s4 ?M (N(?i \<mapsto> n)) (R(n \<mapsto> ?i))"
    "indexed ((headers_by R M)(n := None)) s4" "n \<le> u32_max" "\<And>m. R m = Some ?i \<Longrightarrow> m = n" "trees_grow s s4" by blast
  let ?s = "store_index_header ?hc n s4"
  have "indexed (((headers_by R M)(n := None))(n \<mapsto> ?hc)) ?s" by (rule index_header_spec [OF c(3)]) (use c(4) in simp_all)
  moreover have "headers_by (R(n \<mapsto> ?i)) ?M = (headers_by R M)(n \<mapsto> fst (?hc, body))" by (rule headers_insert) (rule c(5))
  moreover have "stored_at os ?s ?M (N(?i \<mapsto> n)) (R(n \<mapsto> ?i))" using c(2) stored_at_cong [of ?s s4] by simp
  ultimately have rc: "store_rep os ?s ?M (N(?i \<mapsto> n)) (R(n \<mapsto> ?i))" by (simp add: store_rep_split)
  define E where "E = si_insert ?name n (entity_type_by_name s4)"
  define s1 where "s1 = store_index_header ?h n s4"
  have s1: "s1 = ?s\<lparr> entity_type_by_name := E \<rparr>"
    unfolding s1_def E_def using index_names [of ?hc ?h n s4] h(2) by simp
  have tm: "tree_map os ordinal_codec tuid_codec (st_id_by_ordinal s1) (R(n \<mapsto> ?i))"
    using rc by (simp add: s1 store_rep_def ordinals_rep_def)
  have E4: "secondary.holds (\<lambda>m v. \<exists>j. ((headers_by R M)(n := None)) m = Some j \<and> hdr_kind j = EntityType \<and> v = name_key (hdr_name j)) (entity_type_by_name s4)"
    using c(3) by (simp add: indexed_def)
  have "headers_by R M m = Some j \<Longrightarrow> hdr_name j \<noteq> hdr_name h" for m j
    using stored_names_cut [OF rep] long by (force simp: headers_by_def split: option.splits)
  then have none: "si_ords (entity_type_by_name s4) ?name = {}"
    using E4 unfolding secondary.holds_def by (auto simp: name_key_def split: if_splits) metis
  have ok4: "si_ok (entity_type_by_name s4)" using E4 by (simp add: secondary.holds_def)
  have E: "si_ok E" "si_ords E ?name = {n}"
    using secondary.ok_ins [OF ok4 c(4)] secondary.ords_ins [OF ok4 c(4)] none by (simp_all add: E_def)
  have cut: "name_key (hdr_name ?hc) \<noteq> ?name" using long by (simp add: name_key_def placed_name)
  have iter: "map unat (roaring_iter (si_get idx ?name)) = [n]" if "si_ok idx" "si_ords idx ?name = {n}" for idx
  proof -
    have "sorted_list_of_set {n} = map unat (roaring_iter (si_get idx ?name))"
      using si_iter [OF that(1), of ?name] that(2) by (metis sorted_list_of_set.idem_if_sorted_distinct strict_sorted_iff)
    then show ?thesis by simp
  qed
  have resolve: "find_entity_type_by_name t (hdr_name h) =
      (case r of Some i \<Rightarrow> Ok (Some i) | None \<Rightarrow> Err (CorruptPage ''secondary index referenced an ordinal with no reverse mapping''))"
    if "si_ok (entity_type_by_name t)" "si_ords (entity_type_by_name t) ?name = {n}"
      "btree_get ordinal_codec tuid_codec (st_id_by_ordinal t) n = Ok r" for t r
  proof -
    note one = iter [OF that(1,2)]
    obtain w where "roaring_iter (si_get (entity_type_by_name t) ?name) = [w]" "unat w = n"
      using one by (cases "roaring_iter (si_get (entity_type_by_name t) ?name)") auto
    then show ?thesis using that(3) by (cases r) (simp_all add: find_entity_type_by_name_def resolve_ordinals_def)
  qed
  have "find_entity_type_by_name s1 (hdr_name h) = Ok (Some ?i)"
    using resolve [of s1 "Some ?i"] id_by_ordinal.map_get [OF tm, of n] E by (simp add: s1)
  moreover have "trees_grow s s1" using c(6) by (simp add: s1 trees_grow_def)
  moreover have "\<exists>s2. store_delete os ?i s1 = Ok (s2, True) \<and>
        find_entity_type_by_name s2 (hdr_name h) = Err (CorruptPage ''secondary index referenced an ordinal with no reverse mapping'')"
    if "room_left (st_primary s1)" "room_left (st_ordinal_by_id s1)" "room_left (st_id_by_ordinal s1)"
  proof -
    have room1: "room_left (st_primary ?s)" "room_left (st_ordinal_by_id ?s)" "room_left (st_id_by_ordinal ?s)"
      using that by (simp_all add: s1)
    from store_delete_spec [OF rc room1, of ?i] obtain s' where
      d: "store_delete os ?i ?s = Ok (s', True)" and rd: "store_rep os s' (?M(?i := None)) ((N(?i \<mapsto> n))(?i := None)) ((R(n \<mapsto> ?i))(n := None))"
      by auto
    let ?s2 = "s'\<lparr> entity_type_by_name := si_remove (name_key (hdr_name ?hc)) n E \<rparr>"
    have "store_delete os ?i s1 = Ok (?s2, True)"
      unfolding s1 by (rule delete_names [OF rc _ _ _ room1 d]) (use h(2) in simp_all)
    moreover have "tree_map os ordinal_codec tuid_codec (st_id_by_ordinal ?s2) ((R(n \<mapsto> ?i))(n := None))"
      using rd by (simp add: store_rep_def ordinals_rep_def)
    from id_by_ordinal.map_get [OF this, of n] have "btree_get ordinal_codec tuid_codec (st_id_by_ordinal ?s2) n = Ok None" by simp
    moreover have "si_ok (entity_type_by_name ?s2)" "si_ords (entity_type_by_name ?s2) ?name = {n}"
      using secondary.ok_rem [OF E(1) c(4)] secondary.ords_rem [OF E(1) c(4)] E(2) cut by simp_all
    ultimately show ?thesis using resolve [of ?s2 None] by auto
  qed
  ultimately show ?thesis using c(1) by (intro exI [of _ s1]) (simp add: s1_def)
qed

section \<open>Properties\<close>

text \<open>
  C21: the store is a map from identifiers to entities. While there is room, an insertion of an entity whose
  type name fits its header and a deletion return and leave the updated map, with the ordinals of the other
  entities unchanged; a lookup gives the map's value, and a scan lists all the entities in the order of their
  identifiers. \<open>store_rep\<close> also says that the extents hold one slot for each entity and no others, so nothing
  leaks, and that the secondary indexes are exact.
\<close>

theorem store_is_a_map:
  assumes "store_rep os s M N R" and "store_room os s" and "wf_header h" and "name_fits h"
    and "ENCODED_LEN + length body \<le> MAX_BLOCK_SIZE"
  shows "(\<exists>s1 N1 R1. store_insert os h body s = Ok s1 \<and>
      store_rep os s1 (M(hdr_id h \<mapsto> (placed h body, body))) N1 R1 \<and> (\<forall>j. N j \<noteq> None \<longrightarrow> N1 j = N j)) \<and>
    (\<exists>s2 R2. store_delete os i s = Ok (s2, M i \<noteq> None) \<and> store_rep os s2 (M(i := None)) (N(i := None)) R2) \<and>
    store_get s i = Ok (M i) \<and>
    (\<exists>ids. store_scan_all s = Ok (map (\<lambda>j. the (M j)) ids) \<and> set ids = dom M \<and> strict ids)"
proof (intro conjI)
  show "\<exists>s1 N1 R1. store_insert os h body s = Ok s1 \<and>
      store_rep os s1 (M(hdr_id h \<mapsto> (placed h body, body))) N1 R1 \<and> (\<forall>j. N j \<noteq> None \<longrightarrow> N1 j = N j)"
    using store_insert_spec [OF assms] by blast
  show "\<exists>s2 R2. store_delete os i s = Ok (s2, M i \<noteq> None) \<and> store_rep os s2 (M(i := None)) (N(i := None)) R2"
    using store_delete_spec [OF assms(1), of i] assms(2) unfolding store_room_def by blast
  show "store_get s i = Ok (M i)" by (rule store_get_spec [OF assms(1)])
  show "\<exists>ids. store_scan_all s = Ok (map (\<lambda>j. the (M j)) ids) \<and> set ids = dom M \<and> strict ids"
    using store_scan_spec [OF assms(1)] unfolding listed_def by blast
qed

lemma page_4096: "os_page_ok 4096"
  by (auto simp: os_page_ok_def page_size_ok_def intro: exI [of _ 12])

lemma fresh_store:
  "\<exists>s. store_create 4096 = Ok s \<and> store_rep 4096 s Map.empty Map.empty Map.empty \<and> store_room 4096 s \<and> extents (st_data s) = [] \<and>
     page_count (bt_pager (st_primary s)) = 1 \<and> page_count (bt_pager (st_ordinal_by_id s)) = 1 \<and>
     page_count (bt_pager (st_id_by_ordinal s)) = 1"
  using store_create_spec [OF page_4096]
  by (auto simp: store_room_def room_left_def alloc_room_def no_drift_def extent_stride_def extent_consts)

lemma sample_fits: "name_fits sample_header" "ENCODED_LEN + length [1, 2, 3 :: u8] \<le> MAX_BLOCK_SIZE"
  by (simp_all add: name_fits_def sample_header_def ENCODED_LEN_def extent_consts)

lemma sample_store:
  "\<exists>s s1 N R. store_create 4096 = Ok s \<and> store_insert 4096 sample_header [1, 2, 3] s = Ok s1 \<and>
     store_rep 4096 s1 [hdr_id sample_header \<mapsto> (placed sample_header [1, 2, 3], [1, 2, 3])] N R \<and> extents (st_data s) = []"
  using fresh_store store_insert_spec [OF _ _ sample_header_wf(1) sample_fits] by blast

lemma store_is_a_map_witness:
  "\<exists>s s1. store_create 4096 = Ok s \<and> store_insert 4096 sample_header [1, 2, 3] s = Ok s1 \<and> store_get s NIL = Ok None"
  using fresh_store store_is_a_map [OF _ _ sample_header_wf(1) sample_fits, where i = NIL] by fastforce

text \<open>
  C22: the planner answers a query as its specification says. Names of types resolve to the entity type
  of that name with the least ordinal; \<^verbatim>\<open>type IN (...)\<close> selects the entities whose schema is one of the
  named types, no filter selects all, the answer is sorted and cut to the limit, and every other form is
  the error of the specification. The index by kind answers with exactly the
  entities of the kind, the index by schema with exactly those, of every kind, that have the schema reference,
  both in the order of ordinals.
\<close>

theorem queries_exact:
  assumes "store_rep os s M N R"
  shows "(\<exists>T. (\<forall>n. find_entity_type_by_name s n = Ok (T n) \<and> first_named M N n (T n)) \<and>
      (\<forall>q. store_query s q = query_spec M T q)) \<and>
    (\<forall>k. \<exists>ids. query_by_kind s k = Ok ids \<and> by_ordinal N (entities_where M (\<lambda>h. hdr_kind h = k)) ids) \<and>
    (\<forall>t. \<exists>ids. query_by_schema_ref s t = Ok ids \<and> by_ordinal N (entities_where M (\<lambda>h. schema_ref h = t)) ids)"
  using store_query_spec [OF assms] query_by_kind_spec [OF assms] query_by_schema_spec [OF assms] by blast

lemma queries_exact_witness:
  "\<exists>s s1. store_create 4096 = Ok s \<and> store_insert 4096 sample_header [1, 2, 3] s = Ok s1 \<and>
     query_by_kind s1 Data = Ok [hdr_id sample_header]"
proof -
  obtain s s1 N R where s: "store_create 4096 = Ok s" "store_insert 4096 sample_header [1, 2, 3] s = Ok s1"
    "store_rep 4096 s1 [hdr_id sample_header \<mapsto> (placed sample_header [1, 2, 3], [1, 2, 3])] N R" using sample_store by blast
  from queries_exact [OF s(3)] obtain ids where ids: "query_by_kind s1 Data = Ok ids"
    "by_ordinal N (entities_where [hdr_id sample_header \<mapsto> (placed sample_header [1, 2, 3], [1, 2, 3])] (\<lambda>h. hdr_kind h = Data)) ids" by blast
  have "hdr_kind sample_header = Data" by (simp add: sample_header_def)
  then have "entities_where [hdr_id sample_header \<mapsto> (placed sample_header [1, 2, 3], [1, 2, 3])] (\<lambda>h. hdr_kind h = Data) = {hdr_id sample_header}"
    by (auto simp: entities_where_def)
  then have "set ids = {hdr_id sample_header}" "distinct ids" using ids(2) by_ordinal_distinct [OF ids(2)] by (simp_all add: by_ordinal_def)
  then have "ids = [hdr_id sample_header]" by (cases ids; cases "tl ids") auto
  then show ?thesis using s ids(1) by blast
qed

text \<open>
  C24: a store that is closed and opened again holds the same entities under the same ordinals and answers
  every query as before. The next ordinal becomes one more than the greatest in use: the ordinals of entities
  deleted after the last insertion are given out a second time.
\<close>

theorem store_reopens:
  assumes "store_rep os s M N R" and "no_drift os (length (extents (st_data s)))"
  shows "\<exists>s'. store_open os (store_image s) True = Ok s' \<and> store_rep os s' M N R \<and>
    next_ordinal s' = (if N = Map.empty then 0 else Suc (Max (ran N))) \<and> (\<forall>q. store_query s' q = store_query s q)"
  using store_open_spec [OF assms] query_determined [OF assms(1)] by blast

lemma store_reopens_witness:
  "\<exists>s s'. store_create 4096 = Ok s \<and> store_open 4096 (store_image s) True = Ok s' \<and> next_ordinal s' = 0"
proof -
  obtain s where s: "store_create 4096 = Ok s" "store_rep 4096 s Map.empty Map.empty Map.empty" "extents (st_data s) = []"
    using fresh_store by blast
  then have "no_drift 4096 (length (extents (st_data s)))" by (simp add: no_drift_def extent_consts)
  from store_reopens [OF s(2) this] s(1) show ?thesis by auto
qed

text \<open>
  C23: enforced reads. The policies are those decoded from the stored policy entities. When all of them
  decode, an enforced lookup hands out an entity, as enforcement leaves it, exactly when it is stored and the
  policies let the subject see it, and an enforced query hands out exactly the visible ones of what the
  query finds, in its order; when one does not decode, every enforced read of a stored entity fails.
\<close>

theorem enforced_reads:
  assumes "store_rep os s M N R"
  shows "(\<exists>ids. by_ordinal N (entities_where M (\<lambda>h. hdr_kind h = Policy)) ids \<and>
      load_policies s = try_collect (\<lambda>i. policy_decode (snd (the (M i)))) ids) \<and>
    (\<forall>ps. load_policies s = Ok ps \<longrightarrow>
      (case M i of
         None \<Rightarrow> get_enforced s i ctx = Ok None
       | Some (h, body) \<Rightarrow>
           if visible ps ctx h then \<exists>out. get_enforced s i ctx = Ok (Some (h, out)) \<and> enforce ps ctx [(h, body)] = Ok [(h, out)]
           else get_enforced s i ctx = Ok None) \<and>
      (\<forall>found. store_query s q = Ok found \<longrightarrow> (\<exists>ys. query_enforced s q ctx = Ok ys \<and>
         enforce ps ctx (map (\<lambda>i. the (M i)) found) = Ok ys \<and>
         map (\<lambda>y. hdr_id (fst y)) ys = filter (\<lambda>i. visible ps ctx (fst (the (M i)))) found))) \<and>
    (\<forall>e. load_policies s = Err e \<longrightarrow> (M i \<noteq> None \<longrightarrow> get_enforced s i ctx = Err e) \<and>
      (\<forall>found. store_query s q = Ok found \<longrightarrow> query_enforced s q ctx = Err e))"
proof (intro conjI allI impI)
  show "\<exists>ids. by_ordinal N (entities_where M (\<lambda>h. hdr_kind h = Policy)) ids \<and>
      load_policies s = try_collect (\<lambda>i. policy_decode (snd (the (M i)))) ids" by (rule load_policies_spec [OF assms])
qed (use get_enforced_spec [OF assms, of _ i ctx] query_enforced_spec [OF assms, of _ q _ ctx] enforced_fail_closed [OF assms] in \<open>simp_all add: domIff\<close>)

lemma enforced_reads_witness:
  "\<exists>s s1. store_create 4096 = Ok s \<and> store_insert 4096 sample_header [1, 2, 3] s = Ok s1 \<and>
     get_enforced s1 (hdr_id sample_header) nobody = Ok None"
proof -
  let ?M = "[hdr_id sample_header \<mapsto> (placed sample_header [1, 2, 3], [1, 2, 3 :: u8])]"
  obtain s s1 N R where s: "store_create 4096 = Ok s" "store_insert 4096 sample_header [1, 2, 3] s = Ok s1"
    "store_rep 4096 s1 ?M N R" using sample_store by blast
  note e = enforced_reads [OF s(3), of "hdr_id sample_header" nobody]
  have "hdr_kind sample_header = Data" by (simp add: sample_header_def)
  then have "entities_where ?M (\<lambda>h. hdr_kind h = Policy) = {}" by (auto simp: entities_where_def)
  with e have "load_policies s1 = Ok []" by (auto simp: by_ordinal_def)
  moreover have "\<not> visible [] nobody h" for h by (simp add: visible_def evaluate_def applicable_def)
  ultimately have "get_enforced s1 (hdr_id sample_header) nobody = Ok None" using e by simp
  then show ?thesis using s by blast
qed

text \<open>
  The name of an entity type that is longer than the 63 bytes kept of it. The insertion indexes the
  name as given, so the type is found by it; the deletion takes the name that was read back, which is cut,
  out of the index. From then on looking the name up is a corruption error, and so is every query that
  mentions it, until the store is reopened.
\<close>

lemma long_type_name_poisons_queries:
  assumes "store_rep os s M N R" and "store_room os s" and "wf_header h" and "hdr_kind h = EntityType"
    and "truncate_utf8 (hdr_name h) NAME_MAX \<noteq> hdr_name h" and "ENCODED_LEN + length body \<le> MAX_BLOCK_SIZE"
  shows "\<exists>s1. store_insert os h body s = Ok s1 \<and> find_entity_type_by_name s1 (hdr_name h) = Ok (Some (hdr_id h)) \<and>
    (room_left (st_primary s1) \<longrightarrow> room_left (st_ordinal_by_id s1) \<longrightarrow> room_left (st_id_by_ordinal s1) \<longrightarrow>
      (\<exists>s2. store_delete os (hdr_id h) s1 = Ok (s2, True) \<and>
        store_query s2 \<lparr> q_select = All, q_from = ascii ''entities'', q_filter = Some (In (ascii ''type'') [LStr (hdr_name h)]),
          q_order_by = [], q_limit = None \<rparr> =
        Err (CorruptPage ''secondary index referenced an ordinal with no reverse mapping'')))"
proof -
  from long_name_left_behind [OF assms] obtain s1 where s1: "store_insert os h body s = Ok s1"
    "find_entity_type_by_name s1 (hdr_name h) = Ok (Some (hdr_id h))"
    "room_left (st_primary s1) \<longrightarrow> room_left (st_ordinal_by_id s1) \<longrightarrow> room_left (st_id_by_ordinal s1) \<longrightarrow>
      (\<exists>s2. store_delete os (hdr_id h) s1 = Ok (s2, True) \<and>
        find_entity_type_by_name s2 (hdr_name h) = Err (CorruptPage ''secondary index referenced an ordinal with no reverse mapping''))"
    by blast
  have "eq_ignore_ascii_case x x" for x by (simp add: eq_ignore_ascii_case_def)
  then have "store_query s2 \<lparr> q_select = All, q_from = ascii ''entities'', q_filter = Some (In (ascii ''type'') [LStr (hdr_name h)]),
      q_order_by = [], q_limit = None \<rparr> = Err e" if "find_entity_type_by_name s2 (hdr_name h) = Err e" for s2 e
    using that by (simp add: store_query_def eval_type_in_filter_def)
  with s1 show ?thesis by blast
qed

definition long_type :: entity_header where
  "long_type = sample_header\<lparr> hdr_kind := EntityType, hdr_name := replicate 64 97 \<rparr>"

lemma long_type_ok: "wf_header long_type" "hdr_kind long_type = EntityType" "truncate_utf8 (hdr_name long_type) NAME_MAX \<noteq> hdr_name long_type"
proof -
  have "utf8_valid (replicate 64 97)" by code_simp
  then show "wf_header long_type" using sample_header_wf(1) by (simp add: wf_header_def long_type_def)
  have "length (truncate_utf8 (replicate 64 97) NAME_MAX) \<le> NAME_MAX" by (rule length_truncate_utf8)
  then have "length (truncate_utf8 (hdr_name long_type) NAME_MAX) < length (hdr_name long_type)" by (simp add: long_type_def NAME_MAX_def)
  then show "truncate_utf8 (hdr_name long_type) NAME_MAX \<noteq> hdr_name long_type" by (metis less_irrefl)
qed (simp add: long_type_def)

end
