(* ===== verification/Gems_Read_Only.thy ===== *)
theory Gems_Read_Only
  imports Gems_Store_Facts
begin

text \<open>
  Stores that were opened for reading, as the web server opens one for each request. They are the
  stores that opening for writing gives, with their mappings protected; every read answers the same on
  both, and an insertion fails. So what the other theories prove of a store holds of what a reader sees.
\<close>

definition ro_tree :: "btree \<Rightarrow> btree" where
  "ro_tree t = t\<lparr> bt_pager := (bt_pager t)\<lparr> prot_write := False \<rparr> \<rparr>"

definition ro_manager :: "extent_manager \<Rightarrow> extent_manager" where
  "ro_manager m = m\<lparr> ext_file := (ext_file m)\<lparr> prot_write := False \<rparr> \<rparr>"

definition read_only :: "store \<Rightarrow> store" where
  "read_only s = s\<lparr> st_primary := ro_tree (st_primary s), st_ordinal_by_id := ro_tree (st_ordinal_by_id s),
     st_id_by_ordinal := ro_tree (st_id_by_ordinal s), st_data := ro_manager (st_data s) \<rparr>"

section \<open>Reads do not depend on the protection\<close>

lemma file_slice_ro [simp]: "file_slice a n (f\<lparr> prot_write := w \<rparr>) = file_slice a n f"
  by (simp add: file_slice_def)

lemma read_page_ro [simp]: "read_page (p\<lparr> prot_write := w \<rparr>) = read_page p"
  by (rule ext) (simp add: read_page_def page_offset_def Let_def)

lemma get_loop_ro [simp]: "get_loop n kc vc (p\<lparr> prot_write := w \<rparr>) = get_loop n kc vc p"
  by (induction n) (auto intro!: ext cong: if_cong prod.case_cong)

lemma scan_rec_ro [simp]: "scan_rec n kc vc (p\<lparr> prot_write := w \<rparr>) = scan_rec n kc vc p"
  by (induction n) (auto intro!: ext cong: if_cong prod.case_cong)

lemma btree_get_ro [simp]: "btree_get kc vc (ro_tree t) = btree_get kc vc t"
  by (rule ext) (simp add: btree_get_def ro_tree_def Let_def)

lemma btree_scan_ro [simp]: "btree_scan_all kc vc (ro_tree t) = btree_scan_all kc vc t"
  by (simp add: btree_scan_all_def ro_tree_def Let_def)

lemma manager_read_ro [simp]: "manager_read (ro_manager m) = manager_read m"
  by (intro ext) (simp add: manager_read_def slot_offset_def ro_manager_def cong: prod.case_cong if_cong)

lemma read_only_fields [simp]:
  "st_primary (read_only s) = ro_tree (st_primary s)" "st_ordinal_by_id (read_only s) = ro_tree (st_ordinal_by_id s)"
  "st_id_by_ordinal (read_only s) = ro_tree (st_id_by_ordinal s)" "st_data (read_only s) = ro_manager (st_data s)"
  "by_kind (read_only s) = by_kind s" "by_schema_ref (read_only s) = by_schema_ref s"
  "entity_type_by_name (read_only s) = entity_type_by_name s" "next_ordinal (read_only s) = next_ordinal s"
  by (simp_all add: read_only_def)

lemma read_at_ro [simp]: "read_at (read_only s) = read_at s"
  by (rule ext) (simp add: read_at_def)

lemma store_get_ro [simp]: "store_get (read_only s) = store_get s"
  by (rule ext) (simp add: store_get_def cong: option.case_cong)

lemma store_scan_ro [simp]: "store_scan_all (read_only s) = store_scan_all s"
  by (simp add: store_scan_all_def)

lemma resolve_ro [simp]: "resolve_ordinals (read_only s) = resolve_ordinals s"
  by (rule ext) (simp add: resolve_ordinals_def)

lemma query_by_kind_ro [simp]: "query_by_kind (read_only s) = query_by_kind s"
  by (rule ext) (simp add: query_by_kind_def)

lemma find_by_name_ro [simp]: "find_entity_type_by_name (read_only s) = find_entity_type_by_name s"
  by (rule ext) (simp add: find_entity_type_by_name_def)

lemma match_types_ro [simp]: "match_types (read_only s) vs b = match_types s vs b"
  by (induction vs arbitrary: b) (simp_all cong: option.case_cong)

lemma eval_filter_ro [simp]: "eval_type_in_filter (read_only s) = eval_type_in_filter s"
  by (rule ext) (simp add: eval_type_in_filter_def cong: if_cong split: expr.split)

lemma store_query_ro [simp]: "store_query (read_only s) = store_query s"
  by (rule ext) (simp add: store_query_def cong: option.case_cong if_cong)

lemma load_policies_ro [simp]: "load_policies (read_only s) = load_policies s"
  by (simp add: load_policies_def cong: option.case_cong)

lemma get_enforced_ro [simp]: "get_enforced (read_only s) = get_enforced s"
  by (intro ext) (simp add: get_enforced_def cong: option.case_cong)

lemma fetch_ro [simp]: "fetch_entities (read_only s) ids = fetch_entities s ids"
  by (induction ids) simp_all

lemma query_enforced_ro [simp]: "query_enforced (read_only s) = query_enforced s"
  by (intro ext) (simp add: query_enforced_def)

section \<open>Opening for reading\<close>

lemma omap_of_obind: "omap f (obind m k) = obind m (\<lambda>a. omap f (k a))"
  by (cases m) simp_all

lemma pager_open_ro: "pager_open os img False = omap (\<lambda>p. p\<lparr> prot_write := False \<rparr>) (pager_open os img True)"
  by (cases img) (simp add: pager_open_def map_len_def file_slice_def Let_def omap_of_obind split: if_split)

lemma btree_open_ro: "btree_open os img False = omap ro_tree (btree_open os img True)"
  by (cases "pager_open os img True") (simp_all add: btree_open_def pager_open_ro ro_tree_def)

lemma read_classes_ro [simp]: "read_classes n i (f\<lparr> prot_write := w \<rparr>) = read_classes n i f"
  by (induction n arbitrary: i) simp_all

lemma manager_open_ro: "manager_open os img fid False = omap ro_manager (manager_open os img fid True)"
proof -
  have f: "extent_file_open os img False = (extent_file_open os img True)\<lparr> prot_write := False \<rparr>"
    by (cases img) (simp add: extent_file_open_def Let_def)
  let ?f = "extent_file_open os img True"
  show ?thesis unfolding manager_open_def f Let_def
    by (cases "read_classes (mapped_len ?f div EXTENT_SIZE) 0 ?f") (simp_all add: ro_manager_def)
qed

lemma index_header_ro: "store_index_header h n (read_only s) = read_only (store_index_header h n s)"
  by (simp add: store_index_header_def Let_def read_only_def)

lemma rebuild_loop_ro:
  "rebuild_loop es m (read_only s) = omap (\<lambda>(s, m). (read_only s, m)) (rebuild_loop es m s)"
proof (induction es arbitrary: m s)
  case (Cons e es)
  show ?case
  proof (cases "btree_get tuid_codec ordinal_codec (st_ordinal_by_id s) (fst e)")
    case (Ok found)
    then show ?thesis
      by (cases found; cases "read_at s (snd e)") (simp_all add: Cons index_header_ro case_prod_unfold)
  qed simp_all
qed simp

lemma rebuild_ro: "rebuild_in_memory_indexes (read_only s) = omap read_only (rebuild_in_memory_indexes s)"
proof (cases "btree_scan_all tuid_codec slot_pointer_codec (st_primary s)")
  case (Ok es)
  have nx: "(read_only s')\<lparr> next_ordinal := n \<rparr> = read_only (s'\<lparr> next_ordinal := n \<rparr>)" for s' n by (simp add: read_only_def)
  show ?thesis
    by (cases "rebuild_loop es None s") (simp_all add: Ok rebuild_in_memory_indexes_def rebuild_loop_ro nx split: prod.split option.split)
qed (simp_all add: rebuild_in_memory_indexes_def)

lemma store_open_ro: "store_open os dir False = omap read_only (store_open os dir True)"
proof -
  have cong: "obind (omap f m) k = omap g (obind m k')" if "\<And>a. k (f a) = omap g (k' a)" for f m k g k'
    using that by (cases m) simp_all
  show ?thesis unfolding store_open_def btree_open_ro manager_open_ro
    by (intro cong) (simp add: rebuild_ro [symmetric], simp add: read_only_def)
qed

section \<open>Writing\<close>

lemma allocate_ro: "allocate page n (ro_manager m) \<noteq> Ok r"
proof -
  have cand: "try_candidates page idxs c (ro_manager m) = Ok (ro_manager m, None) \<or> (\<forall>r. try_candidates page idxs c (ro_manager m) \<noteq> Ok r)" for idxs c
    by (cases idxs) (simp_all add: try_allocate_in_extent_def ro_manager_def as_mut_slice_def Let_def)
  have grow: "grow_by_one_extent page (ext_file (ro_manager m)) \<noteq> Ok r" for r
    by (simp add: grow_by_one_extent_def ro_manager_def)
  show ?thesis
  proof (cases "for_size n")
    case (Ok c)
    show ?thesis using cand [of "candidate_indices c (extents (ro_manager m))" c] grow
      by (auto simp: allocate_def Ok obind_eq_Ok)
  qed (simp_all add: allocate_def)
qed

lemma store_insert_ro: "store_insert os h body (read_only s) \<noteq> Ok s'"
  by (simp add: store_insert_def Let_def obind_eq_Ok allocate_ro)

text \<open>
  A store opened for reading. Opening for reading fails exactly as opening for writing does, and otherwise
  gives a store on which every read, enforced or not, answers the same, and on which no insertion succeeds.
\<close>

lemma read_only_open:
  "store_open os dir False = omap read_only (store_open os dir True) \<and>
   store_get (read_only s) i = store_get s i \<and> store_scan_all (read_only s) = store_scan_all s \<and>
   query_by_kind (read_only s) k = query_by_kind s k \<and> store_query (read_only s) q = store_query s q \<and>
   get_enforced (read_only s) i ctx = get_enforced s i ctx \<and> query_enforced (read_only s) q ctx = query_enforced s q ctx \<and>
   store_insert os h body (read_only s) \<noteq> Ok s'"
  by (simp add: store_open_ro store_insert_ro)

end
