(* ===== verification/Gems_Web.thy ===== *)
theory Gems_Web
  imports Gems_Web_Write Gems_Read_Only Gems_Query_Text
begin

text \<open>
  \<^verbatim>\<open>gems-webui/src/main.rs\<close>: the routing of a request and the handling of a connection, from the
  bytes the client sends to the bytes of the response and the records proposed; and the properties of the
  web server: reads are enforced, writes need a role, and two holes in that protection.
\<close>

section \<open>Routing\<close>

definition write_not_configured :: "'a web" where
  "write_not_configured = Err (503, Note (ascii ''write routes are disabled''))"

definition write_route ::
  "web_env \<Rightarrow> bytes \<Rightarrow> http_request \<Rightarrow> auth_mode \<Rightarrow> 'addr web_client \<Rightarrow> (json web \<times> log_record list) option" where
  "write_route env path req auth client =
     (if path = ascii ''/api/entities/save'' then Some (submit client (save_entity_plan env req auth))
      else if path = ascii ''/api/entities/delete''
        then Some (submit client (delete_plan env req auth [ADMIN_ROLE_NAME, ANALYST_ROLE_NAME]))
      else if path = ascii ''/api/types/save'' then Some (submit client (save_type_plan env req auth))
      else if path = ascii ''/api/types/delete'' then Some (submit client (delete_plan env req auth [ADMIN_ROLE_NAME]))
      else if path = ascii ''/api/subjects/save'' then Some (submit client (save_subject_plan env req auth))
      else if path = ascii ''/api/subjects/issue-token'' then Some (issue_token env req auth, [])
      else if path = ascii ''/api/policies/save'' then Some (submit client (save_policy_plan env req auth))
      else if path = ascii ''/api/policies/delete'' then Some (submit client (delete_plan env req auth [ADMIN_ROLE_NAME]))
      else None)"

datatype reply = Page bytes | Json "json web" | NotFound

definition route ::
  "web_env \<Rightarrow> bytes \<Rightarrow> http_request \<Rightarrow> auth_mode \<Rightarrow> 'addr web_client option \<Rightarrow> reply \<times> log_record list" where
  "route env index_html req auth cluster =
     (let path = req_path req in
      if req_method req = ascii ''GET'' then
        (if path = ascii ''/'' \<or> path = ascii ''/index.html'' then Page index_html
         else if path = ascii ''/api/types'' then Json (list_types env req auth)
         else if path = ascii ''/api/query'' then Json (query_route env req auth)
         else if path = ascii ''/api/entity'' then Json (get_entity env req auth)
         else if path = ascii ''/api/subjects'' then Json (list_kind_route env req auth Subject)
         else if path = ascii ''/api/roles'' then Json (list_kind_route env req auth Role)
         else if path = ascii ''/api/policies'' then Json (list_kind_route env req auth Policy)
         else NotFound, [])
      else if req_method req = ascii ''POST'' then
        (case cluster of
           None \<Rightarrow> (Json write_not_configured, [])
         | Some client \<Rightarrow>
             (if path = ascii ''/api/setup'' then (case setup_route env req auth client of (r, sent) \<Rightarrow> (Json r, sent))
              else case write_route env path req auth client of
                     Some (r, sent) \<Rightarrow> (Json r, sent)
                   | None \<Rightarrow> (NotFound, [])))
      else (NotFound, []))"

definition respond_json :: "(web_message \<Rightarrow> bytes) \<Rightarrow> json web \<Rightarrow> (unit, bytes) outcome" where
  "respond_json show r =
     omap (\<lambda>body. write_response (case r of Err (code, _) \<Rightarrow> if code = 401 then 401 else 200 | _ \<Rightarrow> 200)
         (ascii ''application/json'') body)
       (to_response_body show r)"

definition respond :: "(web_message \<Rightarrow> bytes) \<Rightarrow> reply \<Rightarrow> (unit, bytes) outcome" where
  "respond show r =
     (case r of
        Page html \<Rightarrow> Ok (write_response 200 (ascii ''text/html; charset=utf-8'') html)
      | Json v \<Rightarrow> respond_json show v
      | NotFound \<Rightarrow> Ok (write_response 404 (ascii ''text/plain'') (ascii ''not found'')))"

definition handle_connection ::
  "web_env \<Rightarrow> bytes \<Rightarrow> (web_message \<Rightarrow> bytes) \<Rightarrow> bytes \<Rightarrow> auth_mode \<Rightarrow> 'addr web_client option \<Rightarrow>
     (unit, bytes) outcome \<times> log_record list" where
  "handle_connection env index_html show input auth cluster =
     (case parse_request input of
        Ok req \<Rightarrow> (case route env index_html req auth cluster of (r, sent) \<Rightarrow> (respond show r, sent))
      | Err _ \<Rightarrow> (Ok (write_response 400 (ascii ''text/plain'') (ascii ''bad request'')), [])
      | Panic \<Rightarrow> (Panic, []))"

section \<open>Reads\<close>

lemma with_status_Ok [simp]: "with_status c f r = Ok a \<longleftrightarrow> r = Ok a"
  by (cases r) (simp_all add: with_status_def)

lemma need_Ok [simp]: "need c m v = Ok a \<longleftrightarrow> v = Some a"
  by (cases v) (simp_all add: need_def)

lemma summaries_Ok:
  "summaries look ids = Ok vs \<longleftrightarrow>
     (\<forall>i \<in> set ids. \<exists>e. look i = Ok e) \<and>
     vs = map (\<lambda>i. entity_summary (fst (the (case look i of Ok e \<Rightarrow> e | _ \<Rightarrow> None))))
       (filter (\<lambda>i. (case look i of Ok e \<Rightarrow> e | _ \<Rightarrow> None) \<noteq> None) ids)"
proof (induction ids arbitrary: vs)
  case (Cons i ids)
  show ?case
  proof (cases "look i")
    case (Ok e)
    show ?thesis
    proof (cases "summaries look ids")
      case (Ok ws)
      then show ?thesis using Cons.IH [of ws] \<open>look i = Ok e\<close> by (auto simp: obind_eq_Ok split: option.splits)
    next
      case (Err x)
      then show ?thesis using Cons.IH \<open>look i = Ok e\<close> by (auto simp: obind_eq_Ok)
    next
      case Panic
      then show ?thesis using Cons.IH \<open>look i = Ok e\<close> by (auto simp: obind_eq_Ok)
    qed
  qed (simp_all add: obind_eq_Ok)
qed auto

text \<open>The caller a token stands for, and the store a request names.\<close>

definition caller :: "web_env \<Rightarrow> http_request \<Rightarrow> bytes \<Rightarrow> subject_context \<Rightarrow> bool" where
  "caller env req secret ctx \<longleftrightarrow> (\<exists>token. bearer_token req = Some token \<and> verify secret token (env_now env) = Ok ctx)"

lemma authorize_enforced: "web_authorize env req (Enforced secret) = Ok who \<longleftrightarrow> (\<exists>ctx. who = Some ctx \<and> caller env req secret ctx)"
  by (auto simp: web_authorize_def authorize_def caller_def split: option.splits)

lemma enforced_bind:
  "obind (web_authorize env req (Enforced secret)) k = Ok v \<longleftrightarrow> (\<exists>ctx. caller env req secret ctx \<and> k (Some ctx) = Ok v)"
  by (auto simp: obind_eq_Ok authorize_enforced)

lemma caller_unique: "caller env req secret ctx \<Longrightarrow> caller env req secret ctx' \<Longrightarrow> ctx = ctx'"
  by (auto simp: caller_def)


text \<open>What a caller may see of a list of identifiers, as the routes present it.\<close>

definition listing ::
  "(tuid \<rightharpoonup> entity_header \<times> bytes) \<Rightarrow> policy list \<Rightarrow> subject_context \<Rightarrow> tuid list \<Rightarrow> json list" where
  "listing M ps ctx ids =
     map (\<lambda>i. entity_summary (fst (the (M i)))) (filter (\<lambda>i. visible ps ctx (fst (the (M i)))) ids)"

lemma enforced_get:
  assumes "store_rep os s M N R" and "load_policies s = Ok ps" and "M i = Some (h, body)"
  obtains out where "enforce ps ctx [(h, body)] = Ok (if visible ps ctx h then [(h, out)] else [])"
    and "get_enforced s i ctx = Ok (if visible ps ctx h then Some (h, out) else None)"
proof -
  obtain ys where ys: "enforce ps ctx [(h, body)] = Ok ys" using enforce_total by blast
  have none: "ys = []" if "\<not> visible ps ctx h" using enforce_headers [OF ys] that by (simp add: visible_def)
  note goal = that
  show thesis
  proof (cases "visible ps ctx h")
    case True
    then obtain out where "get_enforced s i ctx = Ok (Some (h, out))" "enforce ps ctx [(h, body)] = Ok [(h, out)]"
      using get_enforced_spec [OF assms(1,2), of i ctx] assms(3) by auto
    then show thesis using goal True by simp
  next
    case False
    then show thesis using get_enforced_spec [OF assms(1,2), of i ctx] assms(3) ys none goal by simp
  qed
qed

lemma enforced_summaries:
  assumes rep: "store_rep os s M N R" and ps: "load_policies s = Ok ps" and ids: "set ids \<subseteq> dom M"
  shows "summaries (\<lambda>i. get_enforced s i ctx) ids = Ok (listing M ps ctx ids)"
  using ids
proof (induction ids)
  case (Cons i ids)
  then obtain h body where M: "M i = Some (h, body)" by auto
  obtain out where "get_enforced s i ctx = Ok (if visible ps ctx h then Some (h, out) else None)"
    by (rule enforced_get [OF rep ps M])
  then show ?case using Cons M by (simp add: listing_def with_status_def)
qed (simp add: listing_def)

lemma enforced_needs_policies:
  assumes rep: "store_rep os s M N R" and M: "M i \<noteq> None" and got: "get_enforced s i ctx = Ok r"
  shows "\<exists>ps. load_policies s = Ok ps"
  using assms by (auto simp: get_enforced_def store_get_spec [OF rep] obind_eq_Ok)

lemma by_ordinal_unique:
  assumes rep: "store_rep os s M N R" and A: "A \<subseteq> dom M" and ids: "by_ordinal N A ids" "by_ordinal N A ids'"
  shows "ids = ids'"
proof -
  have inv: "N j = Some m \<longleftrightarrow> R m = Some j" and dom: "dom N = dom M" for j m
    using rep by (auto simp: store_rep_def ordinals_rep_def)
  have "inj_on (\<lambda>i. the (N i)) A"
  proof (rule inj_onI)
    fix i j assume "i \<in> A" "j \<in> A" and eq: "the (N i) = the (N j)"
    then obtain n m where "N i = Some n" "N j = Some m" using A dom by (metis domD subsetD)
    then show "i = j" using eq inv by (metis option.inject option.sel)
  qed
  moreover have "map (\<lambda>i. the (N i)) ids = map (\<lambda>i. the (N i)) ids'"
    using ids by (intro strict_sorted_equal) (simp_all add: by_ordinal_def)
  ultimately show ?thesis using ids by (intro map_inj_on [of "\<lambda>i. the (N i)"]) (simp_all add: by_ordinal_def)
qed

lemma query_enforced_Ok:
  assumes rep: "store_rep os s M N R"
  shows "omap (\<lambda>es. JArray (map (\<lambda>(header, _). entity_summary header) es)) (query_enforced s q ctx) = Ok v \<longleftrightarrow>
    (\<exists>ps ids. load_policies s = Ok ps \<and> store_query s q = Ok ids \<and> v = JArray (listing M ps ctx ids))" (is "?L \<longleftrightarrow> ?R")
proof -
  have view: "map (\<lambda>(header, _). entity_summary header) ys = listing M ps ctx ids"
    if "enforce ps ctx (map (\<lambda>i. the (M i)) ids) = Ok ys" for ys ps ids
  proof -
    have "map (\<lambda>(header, _). entity_summary header) ys = map entity_summary (map fst ys)" by (simp add: case_prod_unfold comp_def)
    also have "\<dots> = listing M ps ctx ids"
      using enforce_headers [OF that] by (simp add: listing_def visible_def [abs_def] filter_map comp_def)
    finally show ?thesis .
  qed
  show ?thesis
  proof
    assume ?L
    then obtain ys where ys: "query_enforced s q ctx = Ok ys" "v = JArray (map (\<lambda>(header, _). entity_summary header) ys)" by auto
    then obtain ids ps where p: "store_query s q = Ok ids" "load_policies s = Ok ps" by (auto simp: query_enforced_def obind_eq_Ok)
    from query_enforced_spec [OF rep p(2,1), of ctx] ys(1) have "enforce ps ctx (map (\<lambda>i. the (M i)) ids) = Ok ys" by simp
    from view [OF this] show ?R using p ys by auto
  next
    assume ?R
    then obtain ids ps where p: "store_query s q = Ok ids" "load_policies s = Ok ps" "v = JArray (listing M ps ctx ids)" by blast
    from query_enforced_spec [OF rep p(2,1), of ctx] obtain ys where
      ys: "query_enforced s q ctx = Ok ys" "enforce ps ctx (map (\<lambda>i. the (M i)) ids) = Ok ys" by blast
    from view [OF ys(2)] show ?L using ys p by simp
  qed
qed

lemma listing_Ok:
  assumes rep: "store_rep os s M N R"
  shows "list_by_kind_enforced s (Some ctx) kind = Ok v \<longleftrightarrow>
    (\<exists>ids. by_ordinal N (entities_where M (\<lambda>h. hdr_kind h = kind)) ids \<and>
       (ids = [] \<and> v = JArray [] \<or> (\<exists>ps. load_policies s = Ok ps \<and> v = JArray (listing M ps ctx ids))))" (is "_ \<longleftrightarrow> ?R")
proof -
  obtain ids where ids: "query_by_kind s kind = Ok ids" "by_ordinal N (entities_where M (\<lambda>h. hdr_kind h = kind)) ids"
    using query_by_kind_spec [OF rep] by blast
  have A: "entities_where M (\<lambda>h. hdr_kind h = kind) \<subseteq> dom M" by (auto simp: entities_where_def)
  then have dom: "set ids \<subseteq> dom M" using ids(2) by (simp add: by_ordinal_def)
  have "?R \<longleftrightarrow> ids = [] \<and> v = JArray [] \<or> (\<exists>ps. load_policies s = Ok ps \<and> v = JArray (listing M ps ctx ids))"
    using by_ordinal_unique [OF rep A ids(2)] ids(2) by blast
  moreover have "list_by_kind_enforced s (Some ctx) kind = omap JArray (summaries (\<lambda>i. get_enforced s i ctx) ids)"
    using ids(1) by (simp add: list_by_kind_enforced_def with_status_def)
  moreover have "\<exists>ps. load_policies s = Ok ps" if "ids \<noteq> []" "summaries (\<lambda>i. get_enforced s i ctx) ids = Ok vs" for vs
  proof -
    note some = that
    from some obtain i rest where c: "ids = i # rest" by (cases ids) auto
    then obtain r where "get_enforced s i ctx = Ok r" using some(2) by (auto simp: obind_eq_Ok)
    then show ?thesis using enforced_needs_policies [OF rep, of i ctx r] dom c by auto
  qed
  moreover have "summaries (\<lambda>i. get_enforced s i ctx) ids = Ok (listing M ps ctx ids)" if "load_policies s = Ok ps" for ps
    using enforced_summaries [OF rep that dom] .
  ultimately show ?thesis by (cases "ids = []") (auto simp: listing_def)
qed

lemma hex_id_Ok: "hex_id msg t = Ok i \<longleftrightarrow> from_hex_str t = Ok (Some i)"
  by (simp add: hex_id_def obind_eq_Ok)

lemma lookup_Ok:
  assumes rep: "store_rep os s M N R"
  shows "obind (store_step (get_enforced s i ctx)) (\<lambda>found.
       case found of None \<Rightarrow> Err (404, Note msg) | Some (header, body) \<Rightarrow> entity_view header body) = Ok v \<longleftrightarrow>
    (\<exists>h body ps out. M i = Some (h, body) \<and> load_policies s = Ok ps \<and> visible ps ctx h \<and>
       enforce ps ctx [(h, body)] = Ok [(h, out)] \<and> entity_view h out = Ok v)" (is "?L \<longleftrightarrow> ?R")
proof (cases "M i")
  case None
  then have "get_enforced s i ctx = Ok None" by (simp add: get_enforced_def store_get_spec [OF rep])
  then show ?thesis using None by (simp add: with_status_def)
next
  case (Some e)
  obtain h body where e: "e = (h, body)" by (cases e)
  show ?thesis
  proof (cases "load_policies s")
    case (Ok ps)
    note M = Some [unfolded e] and ps = this
    obtain out where "enforce ps ctx [(h, body)] = Ok (if visible ps ctx h then [(h, out)] else [])"
      "get_enforced s i ctx = Ok (if visible ps ctx h then Some (h, out) else None)" by (rule enforced_get [OF rep ps M])
    then show ?thesis using M ps by (auto simp: with_status_def)
  qed (use Some in \<open>auto simp: get_enforced_def store_get_spec [OF rep] with_status_def\<close>)
qed

lemma stored_summaries:
  assumes rep: "store_rep os s M N R" and "set ids \<subseteq> dom M"
  shows "summaries (store_get s) ids = Ok (map (\<lambda>i. entity_summary (fst (the (M i)))) ids)"
  using assms(2)
proof (induction ids)
  case (Cons i ids)
  then obtain h body where "M i = Some (h, body)" by auto
  then show ?case using Cons store_get_spec [OF rep, of i] by (simp add: with_status_def)
qed simp

text \<open>What a request sees of the store it names: the files as the server left them, opened for reading.\<close>

lemma load_determined:
  assumes "store_rep os s M N R" "store_rep os' s' M N R'"
  shows "load_policies s' = load_policies s"
proof -
  let ?A = "entities_where M (\<lambda>h. hdr_kind h = Policy)"
  have A: "?A \<subseteq> dom M" by (auto simp: entities_where_def)
  from load_policies_spec [OF assms(1)] obtain ids where
    ids: "by_ordinal N ?A ids" "load_policies s = try_collect (\<lambda>i. policy_decode (snd (the (M i)))) ids" by blast
  from load_policies_spec [OF assms(2)] obtain ids' where
    ids': "by_ordinal N ?A ids'" "load_policies s' = try_collect (\<lambda>i. policy_decode (snd (the (M i)))) ids'" by blast
  show ?thesis using by_ordinal_unique [OF assms(1) A ids(1) ids'(1)] ids(2) ids'(2) by simp
qed

lemma web_opened:
  assumes "query_param req (ascii ''store_dir'') = Some dir" and "env_dirs env dir = Ok (store_image s)"
    and "store_rep (env_os env) s M N R" and "no_drift (env_os env) (length (extents (st_data s)))"
  obtains s' where "web_open env req = Ok (read_only s')" and "store_rep (env_os env) s' M N R"
    and "store_query s' = store_query s" and "load_policies s' = load_policies s"
proof -
  from store_open_spec [OF assms(3,4)] obtain s' where
    s': "store_open (env_os env) (store_image s) True = Ok s'" "store_rep (env_os env) s' M N R" by blast
  have "web_open env req = Ok (read_only s')" using assms(1,2) s'(1) by (simp add: web_open_def need_def with_status_def store_open_ro)
  moreover have "store_query s' = store_query s" by (rule ext) (rule query_determined [OF assms(3) s'(2)])
  ultimately show thesis using s'(2) load_determined [OF assms(3) s'(2)] by (intro that [of s'])
qed

lemma list_kind_ro: "list_by_kind_enforced (read_only s) who kind = list_by_kind_enforced s who kind"
  by (cases who) (simp_all add: list_by_kind_enforced_def)

text \<open>
  The listing of entity types is not filtered. Every verified caller gets the summaries of all entity types
  of the store, in the order of ordinals, whatever the policies permit, and even when they do not decode.
\<close>

lemma types_unfiltered:
  assumes "query_param req (ascii ''store_dir'') = Some dir" and "env_dirs env dir = Ok (store_image s)"
    and "store_rep (env_os env) s M N R" and "no_drift (env_os env) (length (extents (st_data s)))"
  shows "list_types env req (Enforced secret) = Ok v \<longleftrightarrow>
    (\<exists>ctx ids. caller env req secret ctx \<and> by_ordinal N (entities_where M (\<lambda>h. hdr_kind h = EntityType)) ids \<and>
       v = JArray (map (\<lambda>i. entity_summary (fst (the (M i)))) ids))"
proof -
  obtain s' where opened: "web_open env req = Ok (read_only s')" and rep: "store_rep (env_os env) s' M N R"
    by (rule web_opened [OF assms])
  let ?A = "entities_where M (\<lambda>h. hdr_kind h = EntityType)"
  obtain ids where ids: "query_by_kind s' EntityType = Ok ids" "by_ordinal N ?A ids" using query_by_kind_spec [OF rep] by blast
  have A: "?A \<subseteq> dom M" by (auto simp: entities_where_def)
  then have "set ids \<subseteq> dom M" using ids(2) by (simp add: by_ordinal_def)
  from stored_summaries [OF rep this] have "list_types env req (Enforced secret) = Ok v \<longleftrightarrow>
      (\<exists>ctx. caller env req secret ctx) \<and> v = JArray (map (\<lambda>i. entity_summary (fst (the (M i)))) ids)"
    unfolding list_types_def enforced_bind opened obind.simps using ids(1) by (auto simp: with_status_def)
  then show ?thesis using by_ordinal_unique [OF rep A ids(2)] ids(2) by blast
qed

section \<open>Properties\<close>

text \<open>
  C14: reads through the web server. Where authentication is enforced and the request names
  the directory of a store that holds the entities \<open>M\<close>, a query is answered exactly when the caller's token
  verifies, the query parses and is answered by the planner and the stored policies decode, with the summaries
  of those answers that the policies let this caller see, in order. A listing of subjects, roles or policies
  likewise, in the order of ordinals; a lookup shows an entity only if it is stored and visible, and shows it as
  enforcement leaves it. The listing of entity types is not filtered: every verified caller gets all of them, whatever the
  policies permit, and even when they do not decode.
\<close>

theorem web_reads_enforced:
  assumes "query_param req (ascii ''store_dir'') = Some dir" and "env_dirs env dir = Ok (store_image s)"
    and "store_rep (env_os env) s M N R" and "no_drift (env_os env) (length (extents (st_data s)))"
  shows "(query_route env req (Enforced secret) = Ok v \<longleftrightarrow>
      (\<exists>ctx t q ps ids. caller env req secret ctx \<and> query_param req (ascii ''q'') = Some t \<and>
         parse (env_classes env) t = Ok q \<and> load_policies s = Ok ps \<and> store_query s q = Ok ids \<and> v = JArray (listing M ps ctx ids))) \<and>
    (list_kind_route env req (Enforced secret) kind = Ok v \<longleftrightarrow>
      (\<exists>ctx ids. caller env req secret ctx \<and> by_ordinal N (entities_where M (\<lambda>h. hdr_kind h = kind)) ids \<and>
         (ids = [] \<and> v = JArray [] \<or> (\<exists>ps. load_policies s = Ok ps \<and> v = JArray (listing M ps ctx ids))))) \<and>
    (get_entity env req (Enforced secret) = Ok v \<longleftrightarrow>
      (\<exists>ctx t i h body ps out. caller env req secret ctx \<and> query_param req (ascii ''id'') = Some t \<and>
         from_hex_str t = Ok (Some i) \<and> M i = Some (h, body) \<and> load_policies s = Ok ps \<and> visible ps ctx h \<and>
         enforce ps ctx [(h, body)] = Ok [(h, out)] \<and> entity_view h out = Ok v)) \<and>
    (list_types env req (Enforced secret) = Ok v \<longleftrightarrow>
      (\<exists>ctx ids. caller env req secret ctx \<and> by_ordinal N (entities_where M (\<lambda>h. hdr_kind h = EntityType)) ids \<and>
         v = JArray (map (\<lambda>i. entity_summary (fst (the (M i)))) ids)))"
proof -
  obtain s' where opened: "web_open env req = Ok (read_only s')" and rep: "store_rep (env_os env) s' M N R"
    and same: "store_query s' = store_query s" "load_policies s' = load_policies s" by (rule web_opened [OF assms])
  have "query_route env req (Enforced secret) = Ok v \<longleftrightarrow>
      (\<exists>ctx t q ps ids. caller env req secret ctx \<and> query_param req (ascii ''q'') = Some t \<and>
         parse (env_classes env) t = Ok q \<and> load_policies s' = Ok ps \<and> store_query s' q = Ok ids \<and> v = JArray (listing M ps ctx ids))"
    unfolding query_route_def enforced_bind using query_enforced_Ok [OF rep] opened by (simp add: obind_eq_Ok)
  moreover have "list_kind_route env req (Enforced secret) kind = Ok v \<longleftrightarrow>
      (\<exists>ctx ids. caller env req secret ctx \<and> by_ordinal N (entities_where M (\<lambda>h. hdr_kind h = kind)) ids \<and>
         (ids = [] \<and> v = JArray [] \<or> (\<exists>ps. load_policies s' = Ok ps \<and> v = JArray (listing M ps ctx ids))))"
    unfolding list_kind_route_def enforced_bind opened obind.simps list_kind_ro listing_Ok [OF rep] by blast
  moreover have "get_entity env req (Enforced secret) = Ok v \<longleftrightarrow>
      (\<exists>ctx t i h body ps out. caller env req secret ctx \<and> query_param req (ascii ''id'') = Some t \<and>
         from_hex_str t = Ok (Some i) \<and> M i = Some (h, body) \<and> load_policies s' = Ok ps \<and> visible ps ctx h \<and>
         enforce ps ctx [(h, body)] = Ok [(h, out)] \<and> entity_view h out = Ok v)"
    unfolding get_entity_def enforced_bind opened obind.simps obind_eq_Ok [of "need 400 _ _"] obind_eq_Ok [of "hex_id _ _"]
      option.case get_enforced_ro lookup_Ok [OF rep] need_Ok hex_id_Ok by blast
  ultimately show ?thesis unfolding same by (intro conjI types_unfiltered [OF assms]) blast+
qed

section \<open>Witnesses\<close>

text \<open>A server of one store, and a request of an administrator whose token is signed with the one-byte secret 107.\<close>

definition sample_env :: "store \<Rightarrow> web_env" where
  "sample_env s = \<lparr> env_now = 0, env_os = 4096, env_dirs = (\<lambda>_. Ok (store_image s)), env_classes = ascii_classes,
     env_fresh = (\<lambda>n. Tuid (replicate TUID_LEN (of_nat (n + 1)))) \<rparr>"

definition sample_request :: "bytes \<Rightarrow> http_request" where
  "sample_request token = \<lparr> req_method = ascii ''GET'', req_path = ascii ''/api/types'', req_query = [(ascii ''store_dir'', [])],
     req_headers = [(ascii ''Authorization'', ascii ''Bearer '' @ token)], req_body = [] \<rparr>"

lemma fresh_served:
  "\<exists>s. store_create 4096 = Ok s \<and> env_dirs (sample_env s) [] = Ok (store_image s) \<and>
     store_rep (env_os (sample_env s)) s Map.empty Map.empty Map.empty \<and> no_drift (env_os (sample_env s)) (length (extents (st_data s)))"
  using fresh_store by (auto simp: sample_env_def no_drift_def extent_consts)

lemma sample_caller:
  assumes "issue [107] sc None = Ok token" and "wf_tuid (ctx_subject sc)" and "list_all wf_tuid (ctx_roles sc)"
    and "env_now env = 0"
  shows "caller env (sample_request token) [107] sc" and "query_param (sample_request token) (ascii ''store_dir'') = Some []"
proof -
  have "eq_ignore_ascii_case (ascii ''Authorization'') (ascii ''Authorization'')" by code_simp
  then have "bearer_token (sample_request token) = Some token"
    by (simp add: bearer_token_def req_header_def sample_request_def strip_prefix_def)
  moreover have "verify [107] token 0 = Ok sc" using issued_verifies [OF _ assms(2,3,1), of 0] by (simp add: times_exact_def)
  ultimately show "caller env (sample_request token) [107] sc" using assms(4) by (simp add: caller_def)
  show "query_param (sample_request token) (ascii ''store_dir'') = Some []" by (simp add: query_param_def sample_request_def)
qed

lemma sample_token: "\<exists>token. issue [107] nobody None = Ok token"
  by (simp add: issue_token Let_def)

lemma nobody_caller: "issue [107] nobody None = Ok token \<Longrightarrow> caller (sample_env s) (sample_request token) [107] nobody"
  by (rule sample_caller) (simp_all add: nobody_def sample_env_def)

lemma nothing_by_ordinal: "by_ordinal Map.empty (entities_where Map.empty Q) ids \<longleftrightarrow> ids = []"
  by (auto simp: by_ordinal_def entities_where_def)

lemma web_reads_enforced_witness:
  "\<exists>s token. store_create 4096 = Ok s \<and> issue [107] nobody None = Ok token \<and>
     list_kind_route (sample_env s) (sample_request token) (Enforced [107]) Role = Ok (JArray [])"
proof -
  obtain s where s: "store_create 4096 = Ok s" "env_dirs (sample_env s) [] = Ok (store_image s)"
    "store_rep (env_os (sample_env s)) s Map.empty Map.empty Map.empty" "no_drift (env_os (sample_env s)) (length (extents (st_data s)))"
    using fresh_served by blast
  obtain token where t: "issue [107] nobody None = Ok token" using sample_token by blast
  have q: "query_param (sample_request token) (ascii ''store_dir'') = Some []" by (simp add: query_param_def sample_request_def)
  have "list_kind_route (sample_env s) (sample_request token) (Enforced [107]) Role = Ok (JArray [])"
    using web_reads_enforced [OF q s(2-4), THEN conjunct2, THEN conjunct1] nobody_caller [OF t] nothing_by_ordinal by blast
  then show ?thesis using s(1) t by blast
qed

end
