(* ===== verification/Gems_Web_Roles.thy ===== *)
theory Gems_Web_Roles
  imports Gems_Web
begin

text \<open>
  Who may change data through the web server: every proposal needs a verified caller with a role that the
  store knows under the right name, or the setup secret in a store that has no administrator yet; what an analyst
  can reach with the routes for entities; and what the administrator of a new store may see.
\<close>

section \<open>Roles\<close>

definition holds_role :: "(tuid \<rightharpoonup> entity_header \<times> bytes) \<Rightarrow> subject_context \<Rightarrow> bytes \<Rightarrow> bool" where
  "holds_role M ctx name \<longleftrightarrow>
     (\<exists>r h body. r \<in> set (ctx_roles ctx) \<and> M r = Some (h, body) \<and> hdr_kind h = Role \<and> hdr_name h = name)"

lemma find_named_spec:
  assumes "store_rep os s M N R" and "set ids \<subseteq> dom M"
  shows "find_named s name ids = Ok (find (\<lambda>i. hdr_name (fst (the (M i))) = name) ids)"
  using assms(2)
proof (induction ids)
  case (Cons i ids)
  then obtain h body where "M i = Some (h, body)" by auto
  then show ?case using Cons store_get_spec [OF assms(1), of i] by (simp add: with_status_def)
qed simp

lemma find_named_ro [simp]: "find_named (read_only s) name ids = find_named s name ids"
  by (induction ids) (simp_all cong: option.case_cong prod.case_cong if_cong)

lemma role_id_ro [simp]: "role_id_by_name (read_only s) name = role_id_by_name s name"
  by (simp add: role_id_by_name_def cong: obind_cong)

lemma role_by_name_spec:
  assumes rep: "store_rep os s M N R"
  shows "\<exists>ids. by_ordinal N (entities_where M (\<lambda>h. hdr_kind h = Role)) ids \<and>
    role_id_by_name s name = Ok (find (\<lambda>i. hdr_name (fst (the (M i))) = name) ids)"
proof -
  from query_by_kind_spec [OF rep, of Role] obtain ids where ids: "query_by_kind s Role = Ok ids"
    "by_ordinal N (entities_where M (\<lambda>h. hdr_kind h = Role)) ids" by blast
  have "set ids \<subseteq> dom M" using ids(2) by (auto simp: by_ordinal_def entities_where_def)
  from find_named_spec [OF rep this] have "role_id_by_name s name = Ok (find (\<lambda>i. hdr_name (fst (the (M i))) = name) ids)"
    using ids(1) by (simp add: role_id_by_name_def with_status_def)
  then show ?thesis using ids(2) by blast
qed

lemma role_determined:
  assumes "store_rep os s M N R" "store_rep os' s' M N R'"
  shows "role_id_by_name s' name = role_id_by_name s name"
proof -
  let ?A = "entities_where M (\<lambda>h. hdr_kind h = Role)"
  have A: "?A \<subseteq> dom M" by (auto simp: entities_where_def)
  from role_by_name_spec [OF assms(1), of name] role_by_name_spec [OF assms(2), of name] show ?thesis
    using by_ordinal_unique [OF assms(1) A] by metis
qed

lemma role_by_name:
  assumes rep: "store_rep os s M N R"
  shows "\<exists>r. role_id_by_name s name = Ok r \<and>
    (\<forall>i. r = Some i \<longrightarrow> (\<exists>h body. M i = Some (h, body) \<and> hdr_kind h = Role \<and> hdr_name h = name)) \<and>
    (r = None \<longrightarrow> (\<forall>i h body. M i = Some (h, body) \<longrightarrow> hdr_kind h = Role \<longrightarrow> hdr_name h \<noteq> name))"
proof -
  from role_by_name_spec [OF rep, of name] obtain ids where ids: "set ids = entities_where M (\<lambda>h. hdr_kind h = Role)"
    "role_id_by_name s name = Ok (find (\<lambda>i. hdr_name (fst (the (M i))) = name) ids)" by (auto simp: by_ordinal_def)
  let ?r = "find (\<lambda>i. hdr_name (fst (the (M i))) = name) ids"
  have "\<exists>h body. M i = Some (h, body) \<and> hdr_kind h = Role \<and> hdr_name h = name" if "?r = Some i" for i
  proof -
    from that have "i \<in> set ids" "hdr_name (fst (the (M i))) = name" by (auto simp: find_Some_iff)
    then show ?thesis using ids(1) by (auto simp: entities_where_def)
  qed
  moreover have "hdr_name h \<noteq> name" if "?r = None" "M i = Some (h, body)" "hdr_kind h = Role" for i h body
  proof -
    have "i \<in> set ids" using that(2,3) ids(1) by (auto simp: entities_where_def)
    then show ?thesis using that(1,2) by (auto simp: find_None_iff)
  qed
  ultimately show ?thesis using ids(2) by blast
qed

lemma require_any_Ok:
  assumes rep: "store_rep os s M N R"
  shows "require_any ctx s allowed names = Ok () \<longleftrightarrow>
    (\<exists>name \<in> set names. \<exists>r \<in> set (ctx_roles ctx). role_id_by_name s name = Ok (Some r))"
proof (induction names)
  case (Cons n names)
  obtain q where "role_id_by_name s n = Ok q" using role_by_name [OF rep, of n] by blast
  then show ?case using Cons by (cases q) auto
qed simp

lemma require_any_ro [simp]: "require_any ctx (read_only s) allowed names = require_any ctx s allowed names"
  by (induction names) (simp_all cong: option.case_cong if_cong)

lemma required_role_held:
  assumes rep: "store_rep os s M N R" and ok: "require_any ctx s allowed names = Ok ()"
  shows "\<exists>name \<in> set names. holds_role M ctx name"
proof -
  from ok obtain name r where n: "name \<in> set names" "role_id_by_name s name = Ok (Some r)" "r \<in> set (ctx_roles ctx)"
    by (auto simp: require_any_Ok [OF rep])
  from role_by_name [OF rep, of name] n(2) obtain h body where "M r = Some (h, body)" "hdr_kind h = Role" "hdr_name h = name" by auto
  then show ?thesis using n by (auto simp: holds_role_def)
qed

section \<open>The write routes\<close>

lemma guarded_Ok:
  "guarded env req (Enforced secret) allowed k = Ok x \<longleftrightarrow>
     (\<exists>ctx s payload. caller env req secret ctx \<and> web_open env req = Ok s \<and> require_any ctx s allowed allowed = Ok () \<and>
        payload_of req = Ok payload \<and> k s payload = Ok x)"
  unfolding guarded_def enforced_bind by (auto simp: obind_eq_Ok require_role_def)

lemma submit_sends: "submit client plan = (r, sent) \<Longrightarrow> sent \<noteq> [] \<longleftrightarrow> (\<exists>rec res. plan = Ok (rec, res) \<and> sent = [rec])"
  by (auto simp: submit_def split: outcome.splits prod.splits)

lemmas write_plans = save_entity_plan_def delete_plan_def save_type_plan_def save_subject_plan_def save_policy_plan_def

definition entity_route :: "bytes \<Rightarrow> bool" where
  "entity_route path \<longleftrightarrow> path = ascii ''/api/entities/save'' \<or> path = ascii ''/api/entities/delete''"

lemma write_route_sends:
  assumes "write_route env path req (Enforced secret) client = Some (r, sent)" and "sent \<noteq> []"
  shows "\<exists>ctx s allowed rec. caller env req secret ctx \<and> web_open env req = Ok s \<and> require_any ctx s allowed allowed = Ok () \<and>
    allowed = (if entity_route path then [ADMIN_ROLE_NAME, ANALYST_ROLE_NAME] else [ADMIN_ROLE_NAME]) \<and> sent = [rec]"
proof -
  have sent: "\<exists>ctx s. caller env req secret ctx \<and> web_open env req = Ok s \<and> require_any ctx s allowed allowed = Ok () \<and> (\<exists>rec. sent = [rec])"
    if "submit client (guarded env req (Enforced secret) allowed k) = (r, sent)" for k allowed
    using submit_sends [OF that] assms(2) by (auto simp: guarded_Ok)
  show ?thesis
  proof (cases "entity_route path")
    case True
    then have "\<exists>ctx s. caller env req secret ctx \<and> web_open env req = Ok s \<and>
        require_any ctx s [ADMIN_ROLE_NAME, ANALYST_ROLE_NAME] [ADMIN_ROLE_NAME, ANALYST_ROLE_NAME] = Ok () \<and> (\<exists>rec. sent = [rec])"
      using assms(1) by (auto simp only: write_route_def write_plans entity_route_def if_True if_False option.inject split: if_splits dest!: sent)
    then show ?thesis using True by auto
  next
    case False
    have "\<exists>ctx s. caller env req secret ctx \<and> web_open env req = Ok s \<and>
        require_any ctx s [ADMIN_ROLE_NAME] [ADMIN_ROLE_NAME] = Ok () \<and> (\<exists>rec. sent = [rec])"
      using assms False by (auto simp only: write_route_def write_plans entity_route_def if_True if_False option.inject prod.inject
          de_Morgan_disj split: if_splits dest!: sent)
    then show ?thesis using False by auto
  qed
qed

lemma submit_all_sends: "submit_all client recs = (r, sent) \<Longrightarrow> \<exists>rest. recs = sent @ rest"
proof (induction recs arbitrary: r sent)
  case (Cons x recs)
  then show ?case by (cases "submit_all client recs") (auto split: outcome.splits)
qed simp

lemma submit_all_Ok:
  "submit_all client recs = (Ok (), sent) \<Longrightarrow> sent = recs \<and> (\<forall>rec \<in> set recs. propose_record client rec = Ok ())"
proof (induction recs arbitrary: sent)
  case (Cons x recs)
  then show ?case by (cases "submit_all client recs") (auto split: outcome.splits)
qed simp

text \<open>The entities of a kind among the records that were proposed.\<close>

definition inserted :: "entity_kind \<Rightarrow> log_record list \<Rightarrow> (entity_header \<times> bytes) list" where
  "inserted kind sent = concat (map (\<lambda>r. case r of Insert h b \<Rightarrow> if hdr_kind h = kind then [(h, b)] else [] | Delete i \<Rightarrow> []) sent)"

lemma inserted_entities: "inserted kind (map (\<lambda>(h, b). Insert h b) es) = filter (\<lambda>e. hdr_kind (fst e) = kind) es"
  by (induction es) (auto simp: inserted_def)

lemma setup_route_Ok:
  assumes "setup_route env req auth client = (Ok answer, sent)"
  obtains secret admin_name token where "auth = Enforced secret"
    and "sent = map (\<lambda>(h, b). Insert h b) (seed_entities (bootstrap (env_fresh env) admin_name))"
    and "\<forall>rec \<in> set sent. propose_record client rec = Ok ()"
    and "issue secret \<lparr> ctx_subject = env_fresh env 3, ctx_roles = [env_fresh env 0] \<rparr> None = Ok token"
    and "answer = JObject [(ascii ''admin_token'', JString token)]"
proof -
  obtain secret seed where plan: "setup_plan env req auth = Ok (secret, seed)"
    using assms by (auto simp: setup_route_def split: outcome.splits)
  then obtain admin_name where seed: "auth = Enforced secret" "seed = bootstrap (env_fresh env) admin_name"
    by (cases auth) (auto simp: setup_plan_def obind_eq_Ok Let_def split: if_splits)
  have who: "admin_subject_id seed = env_fresh env 3" "admin_role_id seed = env_fresh env 0" by (simp_all add: seed(2) bootstrap_def Let_def)
  obtain r where all: "submit_all client (map (\<lambda>(h, b). Insert h b) (seed_entities seed)) = (r, sent)" and r: "r = Ok ()"
    and more: "\<exists>token. issue secret \<lparr> ctx_subject = env_fresh env 3, ctx_roles = [env_fresh env 0] \<rparr> None = Ok token \<and>
      answer = JObject [(ascii ''admin_token'', JString token)]"
    using assms by (auto simp: setup_route_def plan who obind_eq_Ok with_status_def json_build_def split: prod.splits outcome.splits)
  from more obtain token where "issue secret \<lparr> ctx_subject = env_fresh env 3, ctx_roles = [env_fresh env 0] \<rparr> None = Ok token"
    "answer = JObject [(ascii ''admin_token'', JString token)]" by blast
  with seed submit_all_Ok [OF all [unfolded r]] show thesis by (intro that) simp_all
qed

lemma setup_sends:
  assumes "setup_route env req (Enforced secret) client = (r, sent)" and "sent \<noteq> []"
  shows "\<exists>payload s admin_name rest. payload_of req = Ok payload \<and>
    Option.bind (json_get payload (ascii ''setup_secret'')) as_str = Some secret \<and>
    web_open env req = Ok s \<and> role_id_by_name s ADMIN_ROLE_NAME = Ok None \<and>
    map (\<lambda>(h, b). Insert h b) (seed_entities (bootstrap (env_fresh env) admin_name)) = sent @ rest"
proof -
  from assms obtain key seed where plan: "setup_plan env req (Enforced secret) = Ok (key, seed)"
    by (auto simp: setup_route_def split: outcome.splits)
  then obtain payload s admin_name where p: "payload_of req = Ok payload"
    "Option.bind (json_get payload (ascii ''setup_secret'')) as_str = Some secret" "web_open env req = Ok s"
    "role_id_by_name s ADMIN_ROLE_NAME = Ok None" "seed = bootstrap (env_fresh env) admin_name"
    by (auto simp: setup_plan_def obind_eq_Ok required_str_def Let_def split: if_splits)
  from plan assms(1) obtain q where "submit_all client (map (\<lambda>(h, b). Insert h b) (seed_entities seed)) = (q, sent)"
    by (auto simp: setup_route_def split: prod.splits)
  then show ?thesis using submit_all_sends p by blast
qed

section \<open>Properties\<close>

text \<open>
  C15: no write without a role. Where authentication is enforced, a request that makes the server propose anything is
  a POST to a configured server. Either it is the first-run setup, with the setup secret and in a store that holds no
  role named admin, and what it proposes are the entities of a new store, in order; or its token verifies as a
  caller who has a role that the store holds under the name admin, or, on the two routes for entities, analyst,
  and it proposes one record.
\<close>

theorem writes_need_role:
  assumes "query_param req (ascii ''store_dir'') = Some dir" and "env_dirs env dir = Ok (store_image s)"
    and "store_rep (env_os env) s M N R" and "no_drift (env_os env) (length (extents (st_data s)))"
    and "route env html req (Enforced secret) cluster = (answer, sent)" and "sent \<noteq> []"
  shows "req_method req = ascii ''POST'' \<and> cluster \<noteq> None \<and>
    (req_path req = ascii ''/api/setup'' \<and>
       (\<exists>payload. payload_of req = Ok payload \<and> Option.bind (json_get payload (ascii ''setup_secret'')) as_str = Some secret) \<and>
       (\<forall>i h body. M i = Some (h, body) \<longrightarrow> hdr_kind h = Role \<longrightarrow> hdr_name h \<noteq> ADMIN_ROLE_NAME) \<and>
       (\<exists>admin_name rest. map (\<lambda>(h, b). Insert h b) (seed_entities (bootstrap (env_fresh env) admin_name)) = sent @ rest) \<or>
     (\<exists>ctx rec. caller env req secret ctx \<and> sent = [rec] \<and>
       (holds_role M ctx ADMIN_ROLE_NAME \<or> entity_route (req_path req) \<and> holds_role M ctx ANALYST_ROLE_NAME)))"
proof -
  obtain s' where opened: "web_open env req = Ok (read_only s')" and rep: "store_rep (env_os env) s' M N R"
    by (rule web_opened [OF assms(1-4)])
  have post: "ascii ''GET'' \<noteq> ascii ''POST''" by code_simp
  obtain client where c: "req_method req = ascii ''POST''" "cluster = Some client"
    using assms(5,6) by (auto simp: route_def Let_def split: if_splits option.splits)
  show ?thesis
  proof (cases "req_path req = ascii ''/api/setup''")
    case True
    then obtain r where "setup_route env req (Enforced secret) client = (r, sent)"
      using assms(5) c post by (auto simp: route_def Let_def split: prod.splits)
    from setup_sends [OF this assms(6)] obtain payload admin_name rest where p: "payload_of req = Ok payload"
      "Option.bind (json_get payload (ascii ''setup_secret'')) as_str = Some secret"
      "role_id_by_name s' ADMIN_ROLE_NAME = Ok None"
      "map (\<lambda>(h, b). Insert h b) (seed_entities (bootstrap (env_fresh env) admin_name)) = sent @ rest"
      unfolding opened by auto
    then have "\<forall>i h body. M i = Some (h, body) \<longrightarrow> hdr_kind h = Role \<longrightarrow> hdr_name h \<noteq> ADMIN_ROLE_NAME"
      using role_by_name [OF rep, of ADMIN_ROLE_NAME] by simp
    then show ?thesis using True c p by blast
  next
    case False
    then obtain r where "write_route env (req_path req) req (Enforced secret) client = Some (r, sent)"
      using assms(5,6) c post by (auto simp: route_def Let_def split: option.splits prod.splits)
    from write_route_sends [OF this assms(6)] obtain ctx allowed rec where w: "caller env req secret ctx"
      "require_any ctx s' allowed allowed = Ok ()" "sent = [rec]"
      "allowed = (if entity_route (req_path req) then [ADMIN_ROLE_NAME, ANALYST_ROLE_NAME] else [ADMIN_ROLE_NAME])"
      unfolding opened by auto
    have "holds_role M ctx ADMIN_ROLE_NAME \<or> entity_route (req_path req) \<and> holds_role M ctx ANALYST_ROLE_NAME"
      using required_role_held [OF rep w(2)] w(4) by (auto split: if_splits)
    then show ?thesis using w c by blast
  qed
qed

text \<open>
  C20: what an analyst can reach. The routes for entities look at the identifier they are given and not at the
  kind of the entity that has it: an analyst's request deletes any entity of the store, or replaces it by an
  entity of kind Data with a name, type and fields of their choice, be it a policy, a role or a subject. The module
  promises that analysts may write only entities of kind Data.
\<close>

theorem analyst_reaches_every_entity:
  assumes "query_param req (ascii ''store_dir'') = Some dir" and "env_dirs env dir = Ok (store_image s)"
    and "store_rep (env_os env) s M N R" and "no_drift (env_os env) (length (extents (st_data s)))"
    and "req_method req = ascii ''POST''" and "caller env req secret ctx"
    and "role_id_by_name s ANALYST_ROLE_NAME = Ok (Some r)" and "r \<in> set (ctx_roles ctx)"
    and "payload_of req = Ok payload" and "json_get payload (ascii ''id'') = Some (JString (to_hex_string i))" and "wf_tuid i"
    and "json_get payload (ascii ''name'') = Some (JString name)"
    and "json_get payload (ascii ''type'') = Some (JString (to_hex_string t))" and "wf_tuid t"
  shows "snd (route env html (req\<lparr> req_path := ascii ''/api/entities/delete'' \<rparr>) (Enforced secret) (Some client)) = [Delete i] \<and>
    snd (route env html (req\<lparr> req_path := ascii ''/api/entities/save'' \<rparr>) (Enforced secret) (Some client)) =
      [Insert (header_new (env_fresh env 0) i name Data t) (fields_body payload)]"
proof -
  obtain s' where opened: "web_open env req = Ok (read_only s')" and rep: "store_rep (env_os env) s' M N R"
    by (rule web_opened [OF assms(1-4)])
  let ?roles = "[ADMIN_ROLE_NAME, ANALYST_ROLE_NAME]"
  have role: "require_any ctx s' ?roles ?roles = Ok ()"
    using assms(7,8) role_determined [OF assms(3) rep, of ANALYST_ROLE_NAME] unfolding require_any_Ok [OF rep] by auto
  have same: "web_open env (req\<lparr> req_path := p \<rparr>) = web_open env req" "caller env (req\<lparr> req_path := p \<rparr>) = caller env req"
    "payload_of (req\<lparr> req_path := p \<rparr>) = payload_of req" for p
    by (simp_all add: web_open_def caller_def [abs_def] query_param_def bearer_token_def req_header_def payload_of_def json_body_def)
  have go: "guarded env (req\<lparr> req_path := p \<rparr>) (Enforced secret) ?roles k = Ok x" if "k (read_only s') payload = Ok x" for p k x
    unfolding guarded_Ok same opened using that assms(6,9) role
    by (intro exI [of _ ctx] exI [of _ "read_only s'"] exI [of _ payload]) (simp only: require_any_ro simp_thms)
  have hex: "required_tuid payload (ascii ''id'') = Ok i" "required_tuid payload (ascii ''type'') = Ok t"
    "optional_tuid payload (ascii ''id'') = Ok (Some i)" "required_str payload (ascii ''name'') = Ok name"
    using assms(10-14) from_hex_to_hex [of i] from_hex_to_hex [of t]
    by (simp_all add: required_tuid_def required_str_def optional_tuid_def as_str_def obind_eq_Ok hex_id_Ok)
  have paths: "ascii ''/api/entities/delete'' \<noteq> ascii ''/api/setup''" "ascii ''/api/entities/save'' \<noteq> ascii ''/api/setup''"
    "ascii ''POST'' \<noteq> ascii ''GET''" "ascii ''/api/entities/delete'' \<noteq> ascii ''/api/entities/save''" by code_simp+
  have "delete_plan env (req\<lparr> req_path := p \<rparr>) (Enforced secret) ?roles = Ok (Delete i, JBool True)" for p
    unfolding delete_plan_def by (rule go) (simp add: hex)
  moreover have "save_entity_plan env (req\<lparr> req_path := p \<rparr>) (Enforced secret) =
      Ok (Insert (header_new (env_fresh env 0) i name Data t) (fields_body payload), id_result i)" for p
    unfolding save_entity_plan_def by (rule go) (simp add: hex)
  ultimately show ?thesis using paths assms(5) by (simp add: route_def write_route_def submit_def Let_def)
qed

text \<open>
  C31: the administrator that the setup makes. A setup that answers has had accepted, in order, everything it proposed: the three roles, one
  subject and the policies. The token in its answer verifies, at any time up to \<open>2 ^ 53\<close> seconds, as that subject in the role that was
  proposed under the name admin; and the policies it proposed decode and decide every request:
  the admin role is permitted everything, everybody is permitted entities of kind Data and
  EntityType, and nothing else is permitted. The random identifiers are those of the environment; the one of the admin role is not the nil one.
\<close>

theorem setup_makes_admin:
  assumes "setup_route env req auth client = (Ok answer, sent)" and "\<And>n. wf_tuid (env_fresh env n)" and "env_fresh env 0 \<noteq> NIL"
    and "now \<le> 2 ^ 53"
  shows "\<exists>secret token admin admin_name role analyst consumer. auth = Enforced secret \<and> answer = JObject [(ascii ''admin_token'', JString token)] \<and>
    verify secret token now = Ok \<lparr> ctx_subject = admin, ctx_roles = [role] \<rparr> \<and>
    (\<forall>rec \<in> set sent. propose_record client rec = Ok ()) \<and>
    map (\<lambda>e. (hdr_id (fst e), hdr_name (fst e))) (inserted Subject sent) = [(admin, admin_name)] \<and>
    map (\<lambda>e. (hdr_id (fst e), hdr_name (fst e))) (inserted Role sent) =
      [(role, ascii ''admin''), (analyst, ascii ''analyst''), (consumer, ascii ''consumer'')] \<and>
    (\<exists>ps. map (\<lambda>e. policy_decode (snd e)) (inserted Policy sent) = map Ok ps \<and>
      (\<forall>ctx kind schema. evaluate ps ctx kind schema =
         (if role \<in> set (ctx_roles ctx) \<or> kind = Data \<or> kind = EntityType then DecPermit [] else DecDeny)))"
proof (rule setup_route_Ok [OF assms(1)])
  fix secret admin_name token
  let ?es = "seed_entities (bootstrap (env_fresh env) admin_name)"
  assume auth: "auth = Enforced secret" and sent: "sent = map (\<lambda>(h, b). Insert h b) ?es"
    and ok: "\<forall>rec \<in> set sent. propose_record client rec = Ok ()"
    and token: "issue secret \<lparr> ctx_subject = env_fresh env 3, ctx_roles = [env_fresh env 0] \<rparr> None = Ok token"
    and answer: "answer = JObject [(ascii ''admin_token'', JString token)]"
  have v: "verify secret token now = Ok \<lparr> ctx_subject = env_fresh env 3, ctx_roles = [env_fresh env 0] \<rparr>"
    using issued_verifies [OF _ _ _ token, of now] assms(2,4) by (simp add: times_exact_def)
  have subj: "map (\<lambda>e. (hdr_id (fst e), hdr_name (fst e))) (inserted Subject sent) = [(env_fresh env 3, admin_name)]"
    unfolding sent inserted_entities by (simp add: bootstrap_def header_new_def Let_def)
  have names: "map (\<lambda>e. (hdr_id (fst e), hdr_name (fst e))) (inserted Role sent) =
       [(env_fresh env 0, ascii ''admin''), (env_fresh env 1, ascii ''analyst''), (env_fresh env 2, ascii ''consumer'')]"
    unfolding sent inserted_entities
    by (simp add: bootstrap_def header_new_def ADMIN_ROLE_NAME_def ANALYST_ROLE_NAME_def CONSUMER_ROLE_NAME_def Let_def)
  have "map (\<lambda>e. policy_decode (snd e)) (inserted Policy sent) =
      map Ok [admin_sees_everything (env_fresh env 0), anyone_reads Data, anyone_reads EntityType]"
    using seed_policies_decode [of "env_fresh env" admin_name] assms(2) unfolding sent inserted_entities by simp
  then have pol: "\<exists>ps. map (\<lambda>e. policy_decode (snd e)) (inserted Policy sent) = map Ok ps \<and>
      (\<forall>ctx kind schema. evaluate ps ctx kind schema =
         (if env_fresh env 0 \<in> set (ctx_roles ctx) \<or> kind = Data \<or> kind = EntityType then DecPermit [] else DecDeny))"
    using seed_decision [of "env_fresh env"] assms(3) by blast
  show ?thesis by (rule exI, rule exI, rule exI, rule exI, rule exI, rule exI, rule exI, intro conjI, rule auth, rule answer, rule v, rule ok, rule subj, rule names, rule pol)
qed

section \<open>Witnesses\<close>

text \<open>An insertion adds at most one extent, so the store it gives can be opened as well.\<close>

lemma try_allocate_extents: "try_allocate_in_extent page idx c m = Ok (m', r) \<Longrightarrow> extents m' = extents m"
  by (auto simp: try_allocate_in_extent_def obind_eq_Ok Let_def split: if_splits)

lemma try_candidates_extents: "try_candidates page idxs c m = Ok (m', r) \<Longrightarrow> extents m' = extents m"
proof (induction idxs arbitrary: m)
  case (Cons i idxs)
  then obtain m1 found where "try_allocate_in_extent page i c m = Ok (m1, found)" by (auto simp: obind_eq_Ok)
  with Cons try_allocate_extents [OF this] show ?case by (cases found) auto
qed simp

lemma init_extents: "init_extent_header page idx c m = Ok m' \<Longrightarrow> extents m' = extents m"
  by (auto simp: init_extent_header_def obind_eq_Ok Let_def)

lemma allocate_extents:
  assumes "allocate page n m = Ok (m', p)"
  shows "length (extents m') \<le> Suc (length (extents m))"
proof -
  from assms obtain c m1 found where c: "try_candidates page (candidate_indices c (extents m)) c m = Ok (m1, found)"
    and k: "for_size n = Ok c" by (auto simp: allocate_def obind_eq_Ok)
  have e: "extents m1 = extents m" by (rule try_candidates_extents [OF c])
  show ?thesis
  proof (cases found)
    case (Some q)
    then show ?thesis using assms c e by (simp add: allocate_def k)
  next
    case None
    then obtain f idx m2 r where "init_extent_header page idx c (m1\<lparr> ext_file := f \<rparr>) = Ok m2"
      and t: "try_allocate_in_extent page idx c (m2\<lparr> extents := extents m2 @ [c] \<rparr>) = Ok (m', r)"
      using assms c by (auto simp: allocate_def k obind_eq_Ok Let_def split: option.splits)
    then have "extents m2 = extents m" using init_extents e by fastforce
    then show ?thesis using try_allocate_extents [OF t] by simp
  qed
qed

lemma extents_kept:
  "manager_write os p bs m = Ok m' \<Longrightarrow> extents m' = extents m"
  "manager_free os p m = Ok m' \<Longrightarrow> extents m' = extents m"
  "ordinal_for os i s = Ok (s', n) \<Longrightarrow> st_data s' = st_data s"
  "st_data (store_index_header h n s) = st_data s" "st_data (store_deindex_header h n s) = st_data s"
proof -
  show "manager_write os p bs m = Ok m' \<Longrightarrow> extents m' = extents m"
    by (auto simp: manager_write_def obind_eq_Ok split: if_splits)
  show "manager_free os p m = Ok m' \<Longrightarrow> extents m' = extents m"
    by (auto simp: manager_free_def obind_eq_Ok Let_def split: if_splits)
  show "ordinal_for os i s = Ok (s', n) \<Longrightarrow> st_data s' = st_data s"
    by (auto simp: ordinal_for_def obind_eq_Ok Let_def split: option.splits if_splits)
qed (simp_all add: store_index_header_def store_deindex_header_def Let_def)

lemma insert_extents:
  assumes "store_insert os h body s = Ok s'"
  shows "length (extents (st_data s')) \<le> Suc (length (extents (st_data s)))"
proof -
  from assms obtain d p d1 s1 n old s2 where
    a: "allocate os (length (header_encode (h\<lparr> body_offset := ENCODED_LEN, body_len := length body mod 2 ^ 32 \<rparr>) @ body)) (st_data s) = Ok (d, p)"
    and w: "manager_write os p (header_encode (h\<lparr> body_offset := ENCODED_LEN, body_len := length body mod 2 ^ 32 \<rparr>) @ body) d = Ok d1"
    and o1: "ordinal_for os (hdr_id h) (s\<lparr> st_data := d1 \<rparr>) = Ok (s1, n)"
    and old: "(case old of None \<Rightarrow> Ok s1
      | Some old_ptr \<Rightarrow>
          obind (read_at s1 old_ptr) (\<lambda>(old_header, _).
          let s = store_deindex_header old_header n s1 in
          omap (\<lambda>d. s\<lparr> st_data := d \<rparr>) (manager_free os old_ptr (st_data s)))) = Ok s2"
    and fin: "st_data s' = st_data s2"
    by (auto simp: store_insert_def obind_eq_Ok Let_def extents_kept)
  have "st_data s1 = d1" using extents_kept(3) [OF o1] by simp
  moreover have "extents d1 = extents d" by (rule extents_kept(1) [OF w])
  moreover have "extents (st_data s2) = extents (st_data s1)"
    using old by (auto simp: obind_eq_Ok Let_def extents_kept(4,5) split: option.splits dest!: extents_kept(2))
  ultimately show ?thesis using allocate_extents [OF a] fin by simp
qed

text \<open>The setup request of a fresh store.\<close>

definition setup_request :: http_request where
  "setup_request = \<lparr> req_method = ascii ''POST'', req_path = ascii ''/api/setup'', req_query = [(ascii ''store_dir'', [])],
     req_headers = [], req_body = json_text (json_build [(ascii ''setup_secret'', JString [107])]) \<rparr>"

definition sample_client :: "nat web_client" where
  "sample_client = \<lparr> cl_remote = (\<lambda>_ _. None), cl_shards = 1, cl_map = Map.empty \<rparr>"

lemma text_payload:
  assumes "json_wf number_ok 64 v" and "plain v = v" and "req_body r = json_text v"
  shows "payload_of r = Ok v"
  using json_round [OF assms(1)] json_text_valid [OF assms(1)] assms(2,3) by (simp add: payload_of_def json_body_def with_status_def)

lemma key_names_valid: "utf8_valid (ascii ''setup_secret'')" "utf8_valid (ascii ''id'')" "utf8_valid (ascii ''name'')" "utf8_valid (ascii ''type'')"
    "utf8_valid [107]"
  by code_simp+

lemma key_names: "ascii ''id'' \<noteq> ascii ''name''" "ascii ''name'' \<noteq> ascii ''type''" "ascii ''id'' \<noteq> ascii ''type''"
  by code_simp+

lemma setup_payload: "payload_of setup_request = Ok (JObject [(ascii ''setup_secret'', JString [107])])"
  by (rule text_payload) (simp_all add: setup_request_def json_build_def key_names_valid)

lemma fresh_setup:
  "\<exists>s. store_create 4096 = Ok s \<and> env_dirs (sample_env s) [] = Ok (store_image s) \<and>
     store_rep (env_os (sample_env s)) s Map.empty Map.empty Map.empty \<and> no_drift (env_os (sample_env s)) (length (extents (st_data s))) \<and>
     setup_plan (sample_env s) setup_request (Enforced [107]) = Ok ([107], bootstrap (env_fresh (sample_env s)) (ascii ''admin''))"
proof -
  obtain s where s: "store_create 4096 = Ok s" "env_dirs (sample_env s) [] = Ok (store_image s)"
    "store_rep (env_os (sample_env s)) s Map.empty Map.empty Map.empty" "no_drift (env_os (sample_env s)) (length (extents (st_data s)))"
    using fresh_served by blast
  have q: "query_param setup_request (ascii ''store_dir'') = Some []" by (simp add: query_param_def setup_request_def)
  obtain s' where s': "web_open (sample_env s) setup_request = Ok (read_only s')"
    "store_rep (env_os (sample_env s)) s' Map.empty Map.empty Map.empty" by (rule web_opened [OF q s(2-4)])
  from role_by_name [OF s'(2), of ADMIN_ROLE_NAME] obtain r where "role_id_by_name s' ADMIN_ROLE_NAME = Ok r" "r = None"
    by (metis option.exhaust option.distinct(1))
  moreover have "ascii ''admin_name'' \<noteq> ascii ''setup_secret''" by code_simp
  ultimately have "setup_plan (sample_env s) setup_request (Enforced [107]) = Ok ([107], bootstrap (env_fresh (sample_env s)) (ascii ''admin''))"
    using s'(1) by (simp add: setup_plan_def setup_payload required_str_def need_def json_get_def as_str_def Let_def)
  then show ?thesis using s by blast
qed

lemma seeds_not_empty: "seed_entities (bootstrap ids admin_name) = (header_new (ids 4) (ids 0) ADMIN_ROLE_NAME Role NIL, role_encode) # tl (seed_entities (bootstrap ids admin_name))"
  by (simp add: bootstrap_def Let_def)

lemma writes_need_role_witness:
  "\<exists>s rec rest. store_create 4096 = Ok s \<and>
     snd (route (sample_env s) [] setup_request (Enforced [107]) (Some sample_client)) = rec # rest \<and> req_method setup_request = ascii ''POST''"
proof -
  obtain s where s: "store_create 4096 = Ok s" "env_dirs (sample_env s) [] = Ok (store_image s)"
    "store_rep (env_os (sample_env s)) s Map.empty Map.empty Map.empty" "no_drift (env_os (sample_env s)) (length (extents (st_data s)))"
    "setup_plan (sample_env s) setup_request (Enforced [107]) = Ok ([107], bootstrap (env_fresh (sample_env s)) (ascii ''admin''))"
    using fresh_setup by blast
  obtain answer sent where r: "route (sample_env s) [] setup_request (Enforced [107]) (Some sample_client) = (answer, sent)" by fastforce
  have "snd (submit_all sample_client (x # xs)) \<noteq> []" for x xs by (auto split: outcome.splits prod.splits)
  then have "snd (submit_all sample_client (map (\<lambda>(h, b). Insert h b) (seed_entities (bootstrap (env_fresh (sample_env s)) (ascii ''admin''))))) \<noteq> []"
    by (subst seeds_not_empty) (simp only: list.map prod.case not_False_eq_True)
  moreover have "ascii ''POST'' \<noteq> ascii ''GET''" by code_simp
  ultimately have "sent \<noteq> []" using r s(5) by (auto simp: route_def setup_route_def setup_request_def Let_def split: prod.splits)
  moreover have q: "query_param setup_request (ascii ''store_dir'') = Some []" by (simp add: query_param_def setup_request_def)
  ultimately have "req_method setup_request = ascii ''POST''" using writes_need_role [OF q s(2-4) r] by blast
  then show ?thesis using s(1) r \<open>sent \<noteq> []\<close> by (cases sent) auto
qed

text \<open>A cluster of one shard, whose member accepts everything.\<close>

definition willing_client :: "nat web_client" where
  "willing_client = \<lparr> cl_remote = (\<lambda>_ _. Some 1), cl_shards = 1, cl_map = [0 \<mapsto> [(1, 0)]] \<rparr>"

lemma willing_accepts: "wf_tuid (record_id rec) \<Longrightarrow> propose_record willing_client rec = Ok ()"
proof -
  assume "wf_tuid (record_id rec)"
  moreover have "unat (uuid (record_id rec) ! 0) < 256" using unsigned_less [of "uuid (record_id rec) ! 0"] by simp
  ultimately show ?thesis
    by (simp add: propose_record_def sharded_propose_def willing_client_def shard_of_total shard_of_byte_def shard_members_def with_status_def)
qed

lemma willing_all: "\<forall>rec \<in> set recs. wf_tuid (record_id rec) \<Longrightarrow> submit_all willing_client recs = (Ok (), recs)"
  by (induction recs) (simp_all add: willing_accepts)

lemma setup_route_accepted:
  assumes "setup_plan env req auth = Ok (secret, seed)"
    and "submit_all client (map (\<lambda>(h, b). Insert h b) (seed_entities seed)) = (Ok (), sent)"
  shows "\<exists>answer. setup_route env req auth client = (Ok answer, sent)"
proof -
  obtain token where "issue secret \<lparr> ctx_subject = admin_subject_id seed, ctx_roles = [admin_role_id seed] \<rparr> None = Ok token"
    unfolding issue_token Let_def by blast
  then show ?thesis by (simp add: setup_route_def assms with_status_def)
qed

lemma setup_makes_admin_witness:
  "\<exists>s answer sent token who. store_create 4096 = Ok s \<and> setup_route (sample_env s) setup_request (Enforced [107]) willing_client = (Ok answer, sent) \<and>
     answer = JObject [(ascii ''admin_token'', JString token)] \<and> verify [107] token 0 = Ok who \<and> length (inserted Role sent) = 3"
proof -
  obtain s where s: "store_create 4096 = Ok s"
    "setup_plan (sample_env s) setup_request (Enforced [107]) = Ok ([107], bootstrap (env_fresh (sample_env s)) (ascii ''admin''))"
    using fresh_setup by blast
  let ?seed = "bootstrap (env_fresh (sample_env s)) (ascii ''admin'')"
  have wf: "wf_tuid (env_fresh (sample_env s) n)" for n by (simp add: sample_env_def wf_tuid_def)
  then have "\<forall>rec \<in> set (map (\<lambda>(h, b). Insert h b) (seed_entities ?seed)). wf_tuid (record_id rec)"
    by (auto simp: bootstrap_def header_new_def Let_def)
  from setup_route_accepted [OF s(2) willing_all [OF this]] obtain answer sent where
    r: "setup_route (sample_env s) setup_request (Enforced [107]) willing_client = (Ok answer, sent)" by blast
  have "env_fresh (sample_env s) 0 \<noteq> NIL" by (simp add: sample_env_def NIL_def TUID_LEN_def)
  note made = setup_makes_admin [OF r wf this le0]
  obtain secret token admin role analyst consumer where
    t: "Enforced [107] = Enforced secret" "answer = JObject [(ascii ''admin_token'', JString token)]"
    "verify secret token 0 = Ok \<lparr> ctx_subject = admin, ctx_roles = [role] \<rparr>"
    and roles: "map (\<lambda>e. (hdr_id (fst e), hdr_name (fst e))) (inserted Role sent) =
      [(role, ascii ''admin''), (analyst, ascii ''analyst''), (consumer, ascii ''consumer'')]"
    using made by (elim exE conjE) (rule that; assumption)
  have "length (inserted Role sent) = 3"
    using arg_cong [OF roles, of length] unfolding length_map by simp
  then show ?thesis using s(1) r t
    by (intro exI [of _ s] exI [of _ answer] exI [of _ sent] exI [of _ token] exI [of _ "\<lparr> ctx_subject = admin, ctx_roles = [role] \<rparr>"]) simp
qed

text \<open>A store with the role of an analyst, who asks to delete that role.\<close>

definition sample_role :: tuid where "sample_role = Tuid (replicate TUID_LEN 7)"

definition analyst_header :: entity_header where
  "analyst_header = header_new sample_role sample_role ANALYST_ROLE_NAME Role NIL"

definition analyst_request :: "bytes \<Rightarrow> http_request" where
  "analyst_request token = (sample_request token)\<lparr> req_method := ascii ''POST'', req_body := json_text (json_build
     [(ascii ''id'', JString (to_hex_string sample_role)), (ascii ''name'', JString []), (ascii ''type'', JString (to_hex_string NIL))]) \<rparr>"

lemma analyst_payload:
  "payload_of (analyst_request []) = Ok (JObject
     [(ascii ''id'', JString (to_hex_string sample_role)), (ascii ''name'', JString []), (ascii ''type'', JString (to_hex_string NIL))])"
  by (rule text_payload) (simp_all add: analyst_request_def json_build_def key_names_valid key_names key_names [symmetric] hex_valid)

lemma analyst_reaches_every_entity_witness:
  "\<exists>s s1 token. store_create 4096 = Ok s \<and> store_insert 4096 analyst_header role_encode s = Ok s1 \<and>
     snd (route (sample_env s1) [] ((analyst_request token)\<lparr> req_path := ascii ''/api/entities/delete'' \<rparr>) (Enforced [107]) (Some sample_client)) =
       [Delete sample_role]"
proof -
  obtain s where s: "store_create 4096 = Ok s" "store_rep 4096 s Map.empty Map.empty Map.empty" "store_room 4096 s" "extents (st_data s) = []"
    using fresh_store by blast
  have id: "hdr_id analyst_header = sample_role" "hdr_kind analyst_header = Role" "hdr_name analyst_header = ANALYST_ROLE_NAME"
    by (simp_all add: analyst_header_def header_new_def)
  have wf: "wf_tuid sample_role" by (simp add: sample_role_def wf_tuid_def)
  have "utf8_valid ANALYST_ROLE_NAME" by code_simp
  then have "wf_header analyst_header" unfolding analyst_header_def
    using wf by (intro header_new_ok) simp_all
  moreover have "name_fits analyst_header" by (simp add: name_fits_def id ANALYST_ROLE_NAME_def ascii_def)
  moreover have "ENCODED_LEN + length role_encode \<le> MAX_BLOCK_SIZE" by (simp add: role_encode_def ENCODED_LEN_def extent_consts)
  ultimately obtain s1 N R where s1: "store_insert 4096 analyst_header role_encode s = Ok s1"
    "store_rep 4096 s1 [hdr_id analyst_header \<mapsto> (placed analyst_header role_encode, role_encode)] N R"
    using store_insert_spec [OF s(2,3), of analyst_header role_encode] by blast
  note s1 = s1 [unfolded id]
  have "length (extents (st_data s1)) \<le> 1" using insert_extents [OF s1(1)] s(4) by simp
  then have nd: "no_drift (env_os (sample_env s1)) (length (extents (st_data s1)))" by (simp add: sample_env_def no_drift_4096)
  have rep: "store_rep (env_os (sample_env s1)) s1 [sample_role \<mapsto> (placed analyst_header role_encode, role_encode)] N R"
    using s1(2) by (simp add: sample_env_def)
  have cut: "truncate_utf8 ANALYST_ROLE_NAME NAME_MAX = ANALYST_ROLE_NAME" by code_simp
  have "hdr_kind (placed analyst_header role_encode) = Role" "hdr_name (placed analyst_header role_encode) = ANALYST_ROLE_NAME"
    using id cut by (simp_all add: placed_def truncate_texts_def)
  then have role: "role_id_by_name s1 ANALYST_ROLE_NAME = Ok (Some sample_role)"
    using role_by_name [OF s1(2), of ANALYST_ROLE_NAME] by (auto split: if_splits)
  let ?sc = "\<lparr> ctx_subject = NIL, ctx_roles = [sample_role] \<rparr>"
  obtain token where t: "issue [107] ?sc None = Ok token" by (simp add: issue_token Let_def)
  let ?req = "analyst_request token"
  have "caller (sample_env s1) (sample_request token) [107] ?sc" by (rule sample_caller [OF t]) (simp_all add: wf sample_env_def)
  then have c: "caller (sample_env s1) ?req [107] ?sc" by (simp add: caller_def bearer_token_def req_header_def analyst_request_def)
  have dirs: "env_dirs (sample_env s1) [] = Ok (store_image s1)" by (simp add: sample_env_def)
  have q: "query_param ?req (ascii ''store_dir'') = Some []" by (simp add: query_param_def analyst_request_def sample_request_def)
  have p: "payload_of ?req = payload_of (analyst_request [])" by (simp add: payload_of_def json_body_def analyst_request_def)
  have m: "req_method ?req = ascii ''POST''" by (simp add: analyst_request_def)
  have "sample_role \<in> set (ctx_roles ?sc)" by simp
  note * = analyst_reaches_every_entity [OF q dirs rep nd m c role this p [unfolded analyst_payload], of sample_role "[]" NIL "[]" sample_client]
  have "snd (route (sample_env s1) [] (?req\<lparr> req_path := ascii ''/api/entities/delete'' \<rparr>) (Enforced [107]) (Some sample_client)) = [Delete sample_role]"
    using * wf key_names by (simp add: json_get_def)
  then show ?thesis using s(1) s1(1) by blast
qed

end
