(* ===== verification/Gems_Replica.thy ===== *)
theory Gems_Replica
  imports Gems_Read_Only Gems_Record Gems_Strings
begin

text \<open>
  Log shipping: \<^verbatim>\<open>gems-cluster/src/primary.rs\<close>, \<^verbatim>\<open>server.rs\<close> and
  \<^verbatim>\<open>replica.rs\<close>. A primary appends to its log what it has stored; the server streams the log from an
  offset; a replica applies what it receives and writes down how far it came. A log is the contents of its
  file, a connection the list of what \<^verbatim>\<open>read\<close> returns, one element for each call. The replica ends with the map of
  the primary, however the stream is cut into chunks and wherever an earlier connection broke off.
\<close>

section \<open>The primary\<close>

record primary_store =
  pr_store :: store
  pr_log :: log_file

definition primary_create :: "nat \<Rightarrow> log_file \<Rightarrow> primary_store result" where
  "primary_create os log_contents = omap (\<lambda>s. \<lparr> pr_store = s, pr_log = log_contents \<rparr>) (store_create os)"

definition primary_open :: "nat \<Rightarrow> store_files \<Rightarrow> log_file \<Rightarrow> primary_store result" where
  "primary_open os dir log_contents = omap (\<lambda>s. \<lparr> pr_store = s, pr_log = log_contents \<rparr>) (store_open os dir True)"

definition primary_insert :: "nat \<Rightarrow> entity_header \<Rightarrow> bytes \<Rightarrow> primary_store \<Rightarrow> primary_store result" where
  "primary_insert os header body p =
     obind (store_insert os header body (pr_store p)) (\<lambda>s.
     obind (store_get s (hdr_id header)) (\<lambda>found.
     case found of
       None \<Rightarrow> Panic
     | Some (stored_header, stored_body) \<Rightarrow>
         Ok \<lparr> pr_store = s, pr_log = log_append (pr_log p) (Insert stored_header stored_body) \<rparr>))"

definition primary_delete :: "nat \<Rightarrow> tuid \<Rightarrow> primary_store \<Rightarrow> (primary_store \<times> bool) result" where
  "primary_delete os i p =
     omap (\<lambda>(s, existed).
       (\<lparr> pr_store = s, pr_log = (if existed then log_append (pr_log p) (Delete i) else pr_log p) \<rparr>, existed))
       (store_delete os i (pr_store p))"

section \<open>The server\<close>

definition sync_request :: "bytes \<Rightarrow> nat result" where
  "sync_request input =
     (let line = upto_newline input in
      if \<not> utf8_valid line then Err (Io ''stream did not contain valid UTF-8'')
      else case Option.bind (strip_prefix (ascii ''SYNC '') (trim line)) parse_u64 of
             Some offset \<Rightarrow> Ok offset
           | None \<Rightarrow> Err (InvalidValue ''expected 'SYNC <offset>' as the first line''))"

text \<open>The loop of the server over what its polls find in the log file.\<close>

primrec serve_loop :: "log_file list \<Rightarrow> nat \<Rightarrow> (bytes \<times> nat) result" where
  "serve_loop [] pos = Ok ([], pos)"
| "serve_loop (f # polls) pos =
     obind (read_raw_from f pos) (\<lambda>(raw, new_pos).
     if raw = [] then serve_loop polls pos
     else omap (\<lambda>(rest, last_pos). (raw @ rest, last_pos)) (serve_loop polls new_pos))"

definition serve_connection :: "bytes \<Rightarrow> log_file list \<Rightarrow> (bytes \<times> nat) result" where
  "serve_connection input polls = obind (sync_request input) (serve_loop polls)"

section \<open>The replica\<close>

text \<open>The file that holds the offset, if there is one.\<close>

definition load_offset :: "bytes option \<Rightarrow> nat" where
  "load_offset file =
     (case Option.bind file (\<lambda>s. if utf8_valid s then parse_u64 (trim s) else None) of
        Some offset \<Rightarrow> offset
      | None \<Rightarrow> 0)"

definition offset_text :: "nat \<Rightarrow> bytes" where
  "offset_text offset = show_nat offset"

definition sync_line :: "nat \<Rightarrow> bytes" where
  "sync_line offset = ascii ''SYNC '' @ show_nat offset @ [10]"

definition apply_record :: "nat \<Rightarrow> log_record \<Rightarrow> store \<Rightarrow> store result" where
  "apply_record os rec s =
     (case rec of
        Insert header body \<Rightarrow> store_insert os header body s
      | Delete i \<Rightarrow> omap fst (store_delete os i s))"

record sync_state =
  sy_store :: store
  sy_file :: "bytes option"
  sy_offset :: nat
  sy_applied :: nat
  sy_buf :: bytes

datatype sync_end = Closed | Reached | Failed gems_error | Crashed

text \<open>The inner loop: every complete record in the buffer; no end means that more input is needed.\<close>

function drain :: "nat \<Rightarrow> nat option \<Rightarrow> sync_state \<Rightarrow> sync_state \<times> sync_end option" where
  "drain os stop_after y =
     (case record_decode (sy_buf y) of
        Err e \<Rightarrow> (y, Some (Failed e))
      | Panic \<Rightarrow> (y, Some Crashed)
      | Ok None \<Rightarrow> (y, None)
      | Ok (Some (rec, consumed)) \<Rightarrow>
          (case apply_record os rec (sy_store y) of
             Err e \<Rightarrow> (y, Some (Failed e))
           | Panic \<Rightarrow> (y, Some Crashed)
           | Ok s \<Rightarrow>
               let offset = sy_offset y + consumed;
                   y' = \<lparr> sy_store = s, sy_file = Some (offset_text offset), sy_offset = offset,
                          sy_applied = sy_applied y + 1, sy_buf = drop consumed (sy_buf y) \<rparr>
               in if \<exists>most. stop_after = Some most \<and> most \<le> sy_applied y' then (y', Some Reached)
                  else drain os stop_after y'))"
  by pat_completeness auto
termination
  by (relation "measure (\<lambda>(os, stop_after, y). length (sy_buf y))") (auto dest!: record_decode_progress)

declare drain.simps [simp del]

primrec sync_loop :: "nat \<Rightarrow> nat option \<Rightarrow> bytes result list \<Rightarrow> sync_state \<Rightarrow> sync_state \<times> sync_end" where
  "sync_loop os stop_after [] y = (y, Closed)"
| "sync_loop os stop_after (got # reads) y =
     (case got of
        Err e \<Rightarrow> (y, Failed e)
      | Panic \<Rightarrow> (y, Crashed)
      | Ok chunk \<Rightarrow>
          if chunk = [] then (y, Closed)
          else case drain os stop_after (y\<lparr> sy_buf := sy_buf y @ chunk \<rparr>) of
                 (y', Some ending) \<Rightarrow> (y', ending)
               | (y', None) \<Rightarrow> sync_loop os stop_after reads y')"

definition replica_sync :: "nat \<Rightarrow> nat option \<Rightarrow> store \<Rightarrow> bytes option \<Rightarrow> bytes result list \<Rightarrow> sync_state \<times> sync_end" where
  "replica_sync os stop_after s file reads =
     sync_loop os stop_after reads
       \<lparr> sy_store = s, sy_file = file, sy_offset = load_offset file, sy_applied = 0, sy_buf = [] \<rparr>"

section \<open>What a log stands for\<close>

fun touched :: "log_record \<Rightarrow> tuid" where
  "touched (Insert h body) = hdr_id h"
| "touched (Delete i) = i"

fun left_by :: "log_record \<Rightarrow> (entity_header \<times> bytes) option" where
  "left_by (Insert h body) = Some (placed h body, body)"
| "left_by (Delete i) = None"

definition replay :: "log_record list \<Rightarrow> (tuid \<rightharpoonup> entity_header \<times> bytes) \<Rightarrow> tuid \<rightharpoonup> entity_header \<times> bytes" where
  "replay rs M = fold (\<lambda>r M. M(touched r := left_by r)) rs M"

lemma replay_simps [simp]:
  "replay [] M = M" "replay (r # rs) M = replay rs (M(touched r := left_by r))" "replay (rs @ qs) M = replay qs (replay rs M)"
  by (simp_all add: replay_def)

text \<open>The last record about an entity decides what is stored of it.\<close>

lemma replay_at:
  "replay rs M i = (case find (\<lambda>r. touched r = i) (rev rs) of None \<Rightarrow> M i | Some r \<Rightarrow> left_by r)"
proof (induction rs rule: rev_induct)
  case (snoc r rs)
  then show ?case by simp
qed simp

text \<open>Replaying a log over what a part of it has left behind comes to the same.\<close>

lemma replay_again: "replay (rs @ qs) (replay rs M) = replay (rs @ qs) M"
proof (rule ext)
  fix i
  show "replay (rs @ qs) (replay rs M) i = replay (rs @ qs) M i"
  proof (cases "find (\<lambda>r. touched r = i) (rev (rs @ qs))")
    case None
    then have "find (\<lambda>r. touched r = i) (rev rs) = None" by (auto simp: find_None_iff)
    then have "replay rs M i = M i" using replay_at [of rs M i] by simp
    then show ?thesis unfolding replay_at [of "rs @ qs"] None by simp
  qed (simp only: replay_at [of "rs @ qs"] option.case)
qed

section \<open>Applying records\<close>

fun storable :: "log_record \<Rightarrow> bool" where
  "storable (Insert h body) \<longleftrightarrow> canonical_record (Insert h body) \<and> ENCODED_LEN + length body \<le> MAX_BLOCK_SIZE"
| "storable (Delete i) \<longleftrightarrow> canonical_record (Delete i)"

lemma storable_canonical: "storable r \<Longrightarrow> canonical_record r"
  by (cases r) simp_all

primrec apply_records :: "nat \<Rightarrow> log_record list \<Rightarrow> store \<Rightarrow> store result" where
  "apply_records os [] s = Ok s"
| "apply_records os (r # rs) s = obind (apply_record os r s) (apply_records os rs)"

text \<open>There is room in the store for every record when its turn comes.\<close>

primrec roomy :: "nat \<Rightarrow> log_record list \<Rightarrow> store \<Rightarrow> bool" where
  "roomy os [] s \<longleftrightarrow> True"
| "roomy os (r # rs) s \<longleftrightarrow> store_room os s \<and> (case apply_record os r s of Ok s' \<Rightarrow> roomy os rs s' | _ \<Rightarrow> True)"

lemma apply_record_spec:
  assumes rep: "store_rep os s M N R" and r: "storable r" and room: "store_room os s"
  shows "\<exists>s' N' R'. apply_record os r s = Ok s' \<and> store_rep os s' (M(touched r := left_by r)) N' R'"
proof (cases r)
  case (Insert h body)
  have h: "wf_header h" "truncate_texts h = h" using r Insert by (simp_all add: canonical_record_def)
  have "hdr_name (truncate_texts h) = hdr_name h" using h(2) by simp
  then have "name_fits h" by (simp add: name_fits_def truncate_texts_def)
  then show ?thesis using store_insert_spec [OF rep room h(1)] r Insert by (fastforce simp: apply_record_def)
next
  case (Delete i)
  have "room_left (st_primary s)" "room_left (st_ordinal_by_id s)" "room_left (st_id_by_ordinal s)"
    using room by (simp_all add: store_room_def)
  from store_delete_spec [OF rep this, of i] show ?thesis using Delete by (fastforce simp: apply_record_def)
qed

lemma apply_records_spec:
  "store_rep os s M N R \<Longrightarrow> list_all storable rs \<Longrightarrow> roomy os rs s \<Longrightarrow>
     \<exists>s' N' R'. apply_records os rs s = Ok s' \<and> store_rep os s' (replay rs M) N' R'"
proof (induction rs arbitrary: s M N R)
  case (Cons r rs)
  then obtain s1 N1 R1 where s1: "apply_record os r s = Ok s1" "store_rep os s1 (M(touched r := left_by r)) N1 R1"
    using apply_record_spec [OF Cons.prems(1), of r] by auto
  have "list_all storable rs" "roomy os rs s1" using Cons.prems(2,3) s1(1) by simp_all
  from Cons.IH [OF s1(2) this] s1(1) show ?case by (simp only: apply_records.simps obind.simps replay_simps)
qed auto

section \<open>Draining the buffer\<close>

lemma drain_none: "record_decode (sy_buf y) = Ok None \<Longrightarrow> drain os k y = (y, None)"
  by (subst drain.simps) simp

definition advanced :: "sync_state \<Rightarrow> store \<Rightarrow> log_record list \<Rightarrow> bytes \<Rightarrow> sync_state" where
  "advanced y s rs rest =
     \<lparr> sy_store = s, sy_file = (if rs = [] then sy_file y else Some (offset_text (sy_offset y + length (log_of rs)))),
       sy_offset = sy_offset y + length (log_of rs), sy_applied = sy_applied y + length rs, sy_buf = rest \<rparr>"

lemma drain_records:
  "list_all canonical_record rs \<Longrightarrow> apply_records os rs (sy_store y) = Ok s \<Longrightarrow> record_decode rest = Ok None \<Longrightarrow>
   sy_buf y = log_of rs @ rest \<Longrightarrow> drain os None y = (advanced y s rs rest, None)"
proof (induction rs arbitrary: y)
  case Nil
  then have "drain os None y = (y, None)" by (intro drain_none) (simp add: log_of_def)
  then show ?case using Nil by (cases y) (simp add: advanced_def log_of_def)
next
  case (Cons r rs)
  have "sy_buf y = record_encode r @ (log_of rs @ rest)" using Cons.prems(4) by (simp add: log_of_concat)
  then have dec: "record_decode (sy_buf y) = Ok (Some (r, length (record_encode r)))"
    and rest: "drop (length (record_encode r)) (sy_buf y) = log_of rs @ rest"
    using rec.dec_enc [of r] Cons.prems(1) by simp_all
  obtain s1 where s1: "apply_record os r (sy_store y) = Ok s1" "apply_records os rs s1 = Ok s"
    using Cons.prems(2) by (auto simp: obind_eq_Ok)
  let ?y = "\<lparr> sy_store = s1, sy_file = Some (offset_text (sy_offset y + length (record_encode r))),
    sy_offset = sy_offset y + length (record_encode r), sy_applied = sy_applied y + 1, sy_buf = log_of rs @ rest \<rparr>"
  have "drain os None y = drain os None ?y" by (subst drain.simps) (simp add: dec s1 rest Let_def)
  also have "\<dots> = (advanced ?y s rs rest, None)" using Cons.prems(1,3) s1(2) by (intro Cons.IH) simp_all
  also have "advanced ?y s rs rest = advanced y s (r # rs) rest" by (simp add: advanced_def log_of_concat add.assoc)
  finally show ?case .
qed

text \<open>A part of a stream is some of its frames and a beginning of the next.\<close>

context framed_codec
begin

lemma stream_prefix:
  "list_all wf xs \<Longrightarrow> dec [] = Ok None \<Longrightarrow> concat (map enc xs) = p @ others \<Longrightarrow>
     \<exists>xs1 xs2 tail. xs = xs1 @ xs2 \<and> p = concat (map enc xs1) @ tail \<and> concat (map enc xs2) = tail @ others \<and> dec tail = Ok None"
proof (induction xs arbitrary: p)
  case Nil
  then show ?case by (intro exI [of _ "[]"]) simp
next
  case (Cons x xs)
  show ?case
  proof (cases "length p < length (enc x)")
    case True
    then have "p = take (length p) (enc x)"
      using arg_cong [OF Cons.prems(3), of "take (length p)"] by simp
    moreover have "dec (take (length p) (enc x)) = Ok None"
      using dec_prefix [of x "length p"] Cons.prems(1) True by simp
    ultimately have "dec p = Ok None" by simp
    then show ?thesis using Cons.prems(3) by (intro exI [of _ "[]"] exI [of _ "x # xs"] exI [of _ p]) simp
  next
    case False
    have "enc x = take (length (enc x)) p"
      using False arg_cong [OF Cons.prems(3), of "take (length (enc x))"] by simp
    then obtain q where q: "p = enc x @ q" by (metis append_take_drop_id)
    then have "concat (map enc xs) = q @ others" using Cons.prems(3) by simp
    from Cons.IH [OF _ Cons.prems(2) this] Cons.prems(1) obtain xs1 xs2 tail where
      "xs = xs1 @ xs2" "q = concat (map enc xs1) @ tail" "concat (map enc xs2) = tail @ others" "dec tail = Ok None" by auto
    then show ?thesis using q by (intro exI [of _ "x # xs1"] exI [of _ xs2] exI [of _ tail]) simp
  qed
qed

end

lemma log_prefix:
  "list_all canonical_record rs \<Longrightarrow> log_of rs = p @ others \<Longrightarrow>
     \<exists>rs1 rs2 tail. rs = rs1 @ rs2 \<and> p = log_of rs1 @ tail \<and> log_of rs2 = tail @ others \<and> record_decode tail = Ok None"
  unfolding log_of_concat by (rule rec.stream_prefix) (simp_all add: record_decode_def)

section \<open>A connection\<close>

lemma apply_records_append: "apply_records os (rs @ qs) s = obind (apply_records os rs s) (apply_records os qs)"
proof (induction rs arbitrary: s)
  case (Cons r rs)
  have "apply_records os (rs @ qs) = (\<lambda>s. obind (apply_records os rs s) (apply_records os qs))" by (rule ext) (rule Cons.IH)
  then show ?case by (simp add: obind_assoc)
qed simp

lemma log_of_append: "log_of (rs @ qs) = log_of rs @ log_of qs"
  by (simp add: log_of_concat)

lemma sync_chunks:
  assumes "list_all canonical_record rs" and "log_of rs = sy_buf y @ concat parts" and "record_decode (sy_buf y) = Ok None"
    and "[] \<notin> set parts" and "apply_records os rs (sy_store y) = Ok s"
  shows "sync_loop os None (map Ok parts) y = (advanced y s rs [], Closed)"
  using assms
proof (induction parts arbitrary: y rs)
  case Nil
  have "rs = []"
  proof (cases rs)
    case (Cons r rs')
    then have "sy_buf y = record_encode r @ log_of rs'" using Nil.prems(2) by (simp add: log_of_concat)
    then have "record_decode (sy_buf y) \<noteq> Ok None" using rec.dec_enc [of r] Nil.prems(1) Cons by simp
    then show ?thesis using Nil.prems(3) by simp
  qed
  then show ?case using Nil.prems by (cases y) (simp add: advanced_def log_of_def)
next
  case (Cons c cs)
  let ?y = "y\<lparr> sy_buf := sy_buf y @ c \<rparr>"
  have ne: "c \<noteq> []" using Cons.prems(4) by auto
  have "log_of rs = (sy_buf y @ c) @ concat cs" using Cons.prems(2) by simp
  from log_prefix [OF Cons.prems(1) this] obtain rs1 rs2 tail where
    p: "rs = rs1 @ rs2" "sy_buf y @ c = log_of rs1 @ tail" "log_of rs2 = tail @ concat cs" "record_decode tail = Ok None" by blast
  obtain s1 where s1: "apply_records os rs1 (sy_store y) = Ok s1" "apply_records os rs2 s1 = Ok s"
    using Cons.prems(5) by (auto simp: p(1) apply_records_append obind_eq_Ok)
  have d: "drain os None ?y = (advanced ?y s1 rs1 tail, None)"
    using Cons.prems(1) s1(1) p by (intro drain_records) simp_all
  have "sync_loop os None (map Ok cs) (advanced ?y s1 rs1 tail) = (advanced (advanced ?y s1 rs1 tail) s rs2 [], Closed)"
    using Cons.prems(1,4) p s1(2) by (intro Cons.IH) (simp_all add: advanced_def)
  moreover have "advanced (advanced ?y s1 rs1 tail) s rs2 [] = advanced y s rs []"
    by (simp add: advanced_def p(1) log_of_append log_of_def [of "[]"] add.assoc)
  ultimately show ?case using d ne by simp
qed

text \<open>The offset is read back as it was written, from the file and from the request.\<close>

lemma concat_singletons: "concat (map (\<lambda>b. [b]) s) = s"
  by (induction s) simp_all

lemma visible_byte: "33 \<le> unat b \<Longrightarrow> \<not> is_whitespace [b]"
  by (auto simp: is_whitespace_def)

lemma trim_plain:
  assumes asc: "\<forall>b \<in> set s. unat b < 128" and ends: "s \<noteq> []" "33 \<le> unat (hd s)" "33 \<le> unat (last s)"
  shows "trim s = s" and "trim (s @ [10]) = s"
proof -
  obtain a t where s: "s = a # t" using ends(1) by (cases s) auto
  obtain u z where u: "s = u @ [z]" using ends(1) by (cases s rule: rev_exhaust) auto
  have w: "\<not> is_whitespace [a]" "\<not> is_whitespace [z]" using visible_byte ends(2) ends(3) by (simp add: s, simp add: u)
  have nl: "is_whitespace [10]" by (simp add: is_whitespace_def)
  have c: "chars s = map (\<lambda>b. [b]) s" "chars (s @ [10]) = map (\<lambda>b. [b]) (s @ [10])"
    using chars_ascii_list [of s] chars_ascii_list [of "s @ [10]"] asc by (simp_all add: list_all_iff)
  have "concat (dropWhile is_whitespace (chars s)) = s" using w(1) c(1) concat_singletons [of s] by (simp add: s)
  moreover have "concat (dropWhile is_whitespace (chars (s @ [10]))) = s @ [10]"
    using w(1) c(2) concat_singletons [of "s @ [10]"] by (simp add: s)
  moreover have "trim_end s = s" using w(2) c(1) concat_singletons [of s] by (simp add: trim_end_def u)
  moreover have "trim_end (s @ [10]) = s" using w(2) nl c(2) concat_singletons [of s] by (simp add: trim_end_def u)
  ultimately show "trim s = s" "trim (s @ [10]) = s" by (simp_all add: trim_def)
qed

lemma shown_bytes: "show_nat n \<noteq> []" "b \<in> set (show_nat n) \<Longrightarrow> 48 \<le> unat b \<and> unat b \<le> 57"
  using show_nat_digits [of n] by (auto simp: list_all_iff digit_byte_def)

lemma shown_ends: "33 \<le> unat (hd (show_nat n))" "33 \<le> unat (last (show_nat n))"
  using shown_bytes(2) [of "hd (show_nat n)" n] shown_bytes(2) [of "last (show_nat n)" n] shown_bytes(1) [of n] by force+

lemma parse_show: "n \<le> u64_max \<Longrightarrow> parse_u64 (show_nat n) = Some n"
proof -
  assume n: "n \<le> u64_max"
  obtain b bs where s: "show_nat n = b # bs" using shown_bytes(1) [of n] by (cases "show_nat n") auto
  then have "b \<noteq> 43" using shown_bytes(2) [of b n] by auto
  then show ?thesis using show_nat_digits [of n] n by (simp add: parse_u64_def s Let_def)
qed

lemma load_saved: "n \<le> u64_max \<Longrightarrow> load_offset (Some (offset_text n)) = n"
proof -
  assume n: "n \<le> u64_max"
  have asc: "\<forall>b \<in> set (show_nat n). unat b < 128" using shown_bytes(2) by fastforce
  show ?thesis using chars_ascii_list [of "show_nat n"] asc trim_plain(1) [OF asc shown_bytes(1) shown_ends] parse_show [OF n]
    by (simp add: load_offset_def offset_text_def list_all_iff)
qed

lemma upto_newline_line: "10 \<notin> set s \<Longrightarrow> upto_newline (s @ 10 # rest) = s @ [10]"
  by (induction s) auto

lemma sync_request_line: "n \<le> u64_max \<Longrightarrow> sync_request (sync_line n) = Ok n"
proof -
  assume n: "n \<le> u64_max"
  let ?s = "ascii ''SYNC '' @ show_nat n"
  have word: "ascii ''SYNC '' = [83, 89, 78, 67, 32]" by code_simp
  have asc: "\<forall>b \<in> set ?s. unat b < 128" using shown_bytes(2) [of _ n] by (fastforce simp: word)
  have no: "10 \<notin> set ?s" using shown_bytes(2) [of 10 n] by (auto simp: word)
  have line: "upto_newline (sync_line n) = ?s @ [10]" using upto_newline_line [OF no, of "[]"] by (simp add: sync_line_def)
  have "utf8_valid (?s @ [10])" using chars_ascii_list [of "?s @ [10]"] asc by (auto simp: list_all_iff)
  moreover have "trim (?s @ [10]) = ?s"
    using trim_plain(2) [OF asc] shown_bytes(1) [of n] shown_ends(2) [of n] by (simp add: word)
  moreover have "strip_prefix (ascii ''SYNC '') ?s = Some (show_nat n)" by (simp add: strip_prefix_def)
  ultimately show ?thesis using parse_show [OF n] by (simp add: sync_request_def line Let_def)
qed

text \<open>The server sends the records behind the offset, however the log grows between its polls and
  whatever is half written at a poll.\<close>

primrec log_grows :: "log_record list \<Rightarrow> log_file list \<Rightarrow> log_record list \<Rightarrow> bool" where
  "log_grows rs [] final \<longleftrightarrow> rs = final"
| "log_grows rs (f # fs) final \<longleftrightarrow>
     (\<exists>others r n. list_all canonical_record others \<and> canonical_record r \<and> n < length (record_encode r) \<and>
        f = log_of (rs @ others) @ take n (record_encode r) \<and> log_grows (rs @ others) fs final)"

lemma serve_spec:
  "log_grows rs polls final \<Longrightarrow> \<exists>others. final = rs @ others \<and> serve_loop polls (length (log_of rs)) = Ok (log_of others, length (log_of final))"
proof (induction polls arbitrary: rs)
  case Nil
  then show ?case by (simp add: log_of_def)
next
  case (Cons f fs)
  then obtain others r n where g: "list_all canonical_record others" "canonical_record r" "n < length (record_encode r)"
    "f = log_of (rs @ others) @ take n (record_encode r)" "log_grows (rs @ others) fs final" by auto
  from Cons.IH [OF g(5)] obtain rest where rest: "final = (rs @ others) @ rest"
    "serve_loop fs (length (log_of (rs @ others))) = Ok (log_of rest, length (log_of final))" by blast
  have raw: "read_raw_from f (length (log_of rs)) = Ok (log_of others, length (log_of (rs @ others)))"
    using recs.loop_torn_tail [OF g(1-3)] by (simp add: read_raw_from_def g(4) log_of_concat)
  have "serve_loop (f # fs) (length (log_of rs)) = Ok (log_of (others @ rest), length (log_of final))"
  proof (cases "log_of others = []")
    case True
    then show ?thesis using raw rest(2) by (simp add: log_of_append)
  next
    case False
    then show ?thesis using raw rest(2) by (simp add: log_of_append)
  qed
  then show ?case using rest(1) by auto
qed

section \<open>Properties\<close>

text \<open>The primary's log, replayed from nothing, gives what its store holds.\<close>

definition primary_ok :: "nat \<Rightarrow> primary_store \<Rightarrow> log_record list \<Rightarrow> bool" where
  "primary_ok os p rs \<longleftrightarrow> pr_log p = log_of rs \<and> list_all storable rs \<and> (\<exists>N R. store_rep os (pr_store p) (replay rs Map.empty) N R)"

lemma placed_storable:
  assumes h: "wf_header h" and len: "ENCODED_LEN + length body \<le> MAX_BLOCK_SIZE"
  shows "storable (Insert (placed h body) body)" "placed (placed h body) body = placed h body"
proof -
  have "length body \<le> u32_max" using len by (simp add: extent_consts)
  from placed_entity [OF h this] have e: "wf_header (placed h body)" "truncate_texts (placed h body) = placed h body"
    "body_offset (placed h body) = ENCODED_LEN" "body_len (placed h body) = length body" by (simp_all add: entity_ok_def)
  have "length (record_payload (Insert (placed h body) body)) \<le> MAX_FRAME_LEN"
    using len e(1) by (simp add: MAX_FRAME_LEN_def extent_consts Let_def)
  then show "storable (Insert (placed h body) body)" using e len by (simp add: canonical_record_def fits_frame_def)
  show "placed (placed h body) body = placed h body" proof -
    have "(placed h body)\<lparr> body_offset := ENCODED_LEN, body_len := length body \<rparr> = placed h body" using e(3,4) by (cases "placed h body") simp
    then show ?thesis using e(2) by (simp add: placed_def [of "placed h body"])
  qed
qed

text \<open>
  The primary's log is its store. Replaying the log of a primary from nothing gives what the store holds: this
  holds of a new primary and after every insertion and deletion, which return; a deletion that finds nothing
  logs nothing. No record of the log is too large for a frame, and the texts of its headers are the stored ones.
\<close>

lemma primary_logs_its_store:
  assumes "primary_ok os p rs" and "store_room os (pr_store p)" and "wf_header h" and "name_fits h"
    and "ENCODED_LEN + length body \<le> MAX_BLOCK_SIZE" and "wf_tuid i"
  shows "(\<exists>p'. primary_insert os h body p = Ok p' \<and> primary_ok os p' (rs @ [Insert (placed h body) body])) \<and>
    (\<exists>p'. primary_delete os i p = Ok (p', replay rs Map.empty i \<noteq> None) \<and>
       primary_ok os p' (if replay rs Map.empty i = None then rs else rs @ [Delete i])) \<and>
    (list_all canonical_record rs)"
proof (intro conjI)
  obtain N R where ok: "pr_log p = log_of rs" "list_all storable rs" and rep: "store_rep os (pr_store p) (replay rs Map.empty) N R"
    using assms(1) by (auto simp: primary_ok_def)
  show "list_all canonical_record rs" using ok(2) storable_canonical by (auto simp: list_all_iff)
  from store_insert_spec [OF rep assms(2-5)] obtain s1 N1 R1 where s1: "store_insert os h body (pr_store p) = Ok s1"
    "store_rep os s1 ((replay rs Map.empty)(hdr_id h \<mapsto> (placed h body, body))) N1 R1" by blast
  note placed = placed_storable [OF assms(3,5)]
  have "primary_insert os h body p = Ok \<lparr> pr_store = s1, pr_log = pr_log p @ record_encode (Insert (placed h body) body) \<rparr>"
    using s1(1) store_get_spec [OF s1(2), of "hdr_id h"] by (simp add: primary_insert_def log_append_def)
  moreover have "primary_ok os \<lparr> pr_store = s1, pr_log = pr_log p @ record_encode (Insert (placed h body) body) \<rparr> (rs @ [Insert (placed h body) body])"
    using s1(2) ok placed by (auto simp: primary_ok_def log_of_concat)
  ultimately show "\<exists>p'. primary_insert os h body p = Ok p' \<and> primary_ok os p' (rs @ [Insert (placed h body) body])" by blast
  have room: "room_left (st_primary (pr_store p))" "room_left (st_ordinal_by_id (pr_store p))" "room_left (st_id_by_ordinal (pr_store p))"
    using assms(2) by (simp_all add: store_room_def)
  from store_delete_spec [OF rep room, of i] obtain s2 R2 where
    s2: "store_delete os i (pr_store p) = Ok (s2, replay rs Map.empty i \<noteq> None)"
    "store_rep os s2 ((replay rs Map.empty)(i := None)) (N(i := None)) R2" by blast
  have del: "canonical_record (Delete i)"
    using assms(6) by (simp add: canonical_record_def fits_frame_def MAX_FRAME_LEN_def wf_tuid_def TUID_LEN_def)
  show "\<exists>p'. primary_delete os i p = Ok (p', replay rs Map.empty i \<noteq> None) \<and>
       primary_ok os p' (if replay rs Map.empty i = None then rs else rs @ [Delete i])"
  proof (cases "replay rs Map.empty i")
    case None
    then have "(replay rs Map.empty)(i := None) = replay rs Map.empty" by auto
    then show ?thesis using s2 ok None by (auto simp: primary_delete_def primary_ok_def)
  next
    case (Some e)
    then show ?thesis using s2 ok del by (auto simp: primary_delete_def primary_ok_def log_append_def log_of_concat)
  qed
qed

text \<open>
  C34: replicas converge. A primary whose log holds the records \<open>qs @ rs\<close>, a replica whose store stands somewhere
  between \<open>qs\<close> and the end (it may have applied records after its offset was last saved) and whose offset file says where \<open>qs\<close>
  ends, and a connection over which the server sends what it finds as the log grows, in chunks cut anywhere: the replica
  applies \<open>rs\<close>, ends when the connection closes, answers every lookup as the primary does, and has saved the length
  of the log as its offset.
\<close>

theorem replica_follows_primary:
  assumes "primary_ok os p (qs @ rs)" and "store_rep os s (replay (qs @ rs1) Map.empty) N R" and "rs = rs1 @ rs2"
    and "load_offset file = length (log_of qs)" and "length (pr_log p) \<le> u64_max" and "roomy os rs s"
    and "log_grows qs polls (qs @ rs)" and "serve_connection (sync_line (load_offset file)) polls = Ok (concat parts, pos)"
    and "[] \<notin> set parts"
  shows "\<exists>y. replica_sync os None s file (map Ok parts) = (y, Closed) \<and> sy_applied y = length rs \<and>
    load_offset (sy_file y) = length (pr_log p) \<and> (\<forall>i. store_get (sy_store y) i = store_get (pr_store p) i)"
proof -
  obtain N' R' where ok: "pr_log p = log_of (qs @ rs)" "list_all storable (qs @ rs)"
    and rep: "store_rep os (pr_store p) (replay (qs @ rs) Map.empty) N' R'" using assms(1) by (auto simp: primary_ok_def)
  have rs: "list_all storable rs" using ok(2) by simp
  then have can: "list_all canonical_record rs" using storable_canonical by (auto simp: list_all_iff)
  have len: "length (log_of qs) \<le> u64_max" using assms(5) ok(1) by (simp add: log_of_append)
  have stream: "concat parts = log_of rs"
    using serve_spec [OF assms(7)] assms(8) sync_request_line [OF len] by (auto simp: serve_connection_def assms(4))
  from apply_records_spec [OF assms(2) rs assms(6)] obtain s' N1 R1 where
    s': "apply_records os rs s = Ok s'" "store_rep os s' (replay rs (replay (qs @ rs1) Map.empty)) N1 R1" by blast
  let ?y = "\<lparr> sy_store = s, sy_file = file, sy_offset = load_offset file, sy_applied = 0, sy_buf = [] \<rparr>"
  have sync: "replica_sync os None s file (map Ok parts) = (advanced ?y s' rs [], Closed)"
    unfolding replica_sync_def using can stream assms(9) s'(1) by (intro sync_chunks) (simp_all add: record_decode_def)
  have "replay rs (replay (qs @ rs1) Map.empty) = replay (qs @ rs) Map.empty"
    using replay_again [of rs1 rs2 "replay qs Map.empty"] assms(3) by simp
  then have same: "store_get s' i = store_get (pr_store p) i" for i
    using store_get_spec [OF s'(2)] store_get_spec [OF rep] by simp
  have "load_offset (sy_file (advanced ?y s' rs [])) = length (pr_log p)"
    using load_saved [of "length (log_of (qs @ rs))"] assms(4,5) ok(1)
    by (auto simp: advanced_def log_of_append log_of_def [of "[]"])
  then show ?thesis using sync same by (intro exI [of _ "advanced ?y s' rs []"]) (simp add: advanced_def)
qed

text \<open>
  A torn record is never removed. When a crash has left the log of a primary with the first bytes of a deletion at its end,
  the primary that is made on this log appends behind them, and from then on the log reads as the deletion of an identifier nobody named:
  it is made of the bytes that were written of the old one and the first bytes of the new record.
\<close>

lemma torn_append_misread:
  assumes "primary_open os dir (log_of rs @ take (5 + k) (record_encode (Delete i))) = Ok p \<or>
      primary_create os (log_of rs @ take (5 + k) (record_encode (Delete i))) = Ok p"
    and "wf_tuid i" and "k < TUID_LEN"
    and "primary_insert os h body p = Ok p'"
  shows "\<exists>rec. pr_log p' = log_append (pr_log p) rec \<and>
    record_decode (drop (length (log_of rs)) (pr_log p')) =
      Ok (Some (Delete (Tuid (take k (as_bytes i) @ take (TUID_LEN - k) (record_encode rec))), 29))"
proof -
  have log: "pr_log p = log_of rs @ take (5 + k) (record_encode (Delete i))" using assms(1) by (auto simp: primary_open_def primary_create_def)
  from assms(4) obtain h' body' where p': "pr_log p' = log_append (pr_log p) (Insert h' body')"
    by (auto simp: primary_insert_def obind_eq_Ok split: option.splits)
  let ?rec = "Insert h' body'"
  have id: "length (as_bytes i) = 24" using assms(2) by (simp add: wf_tuid_def TUID_LEN_def)
  have len25: "le_bytes 4 25 = [25, 0, 0, 0]" by code_simp
  have enc: "record_encode (Delete i) = [25, 0, 0, 0, 2] @ as_bytes i" using id len25 by (simp add: record_encode_def DELETE_TAG_def)
  let ?buf = "[25, 0, 0, 0, 2] @ take k (as_bytes i) @ record_encode ?rec"
  have drop: "drop (length (log_of rs)) (pr_log p') = ?buf"
    unfolding p' log_append_def log enc take_append by (simp add: add.commute)
  let ?id = "take k (as_bytes i) @ take (TUID_LEN - k) (record_encode ?rec)"
  obtain rest where rest: "record_encode ?rec = take (TUID_LEN - k) (record_encode ?rec) @ rest" by (metis append_take_drop_id)
  have big: "24 \<le> length (record_encode ?rec)" by (simp add: record_encode_def header_encode_def header_prefix_def Let_def)
  have "length ?id = 24" using id big assms(3) by (simp add: TUID_LEN_def)
  then have wf: "wf_tuid (Tuid ?id)" by (simp add: wf_tuid_def TUID_LEN_def)
  have "record_encode (Delete (Tuid ?id)) @ rest =
      [25, 0, 0, 0, 2] @ take k (as_bytes i) @ (take (TUID_LEN - k) (record_encode ?rec) @ rest)"
    using \<open>length ?id = 24\<close> len25 unfolding record_encode_def [of "Delete _"] by (simp add: DELETE_TAG_def)
  then have "?buf = record_encode (Delete (Tuid ?id)) @ rest" by (simp only: rest [symmetric])
  moreover have "record_decode (record_encode (Delete (Tuid ?id)) @ rest) = Ok (Some (Delete (Tuid ?id), 29))"
    using record_decode_encode [of "Delete (Tuid ?id)" rest] wf \<open>length ?id = 24\<close>
    by (simp add: fits_frame_def MAX_FRAME_LEN_def record_encode_def)
  ultimately show ?thesis using p' drop by auto
qed

section \<open>Witnesses\<close>

lemma fresh_primary_store:
  "\<exists>s p. store_create 4096 = Ok s \<and> primary_create 4096 [] = Ok p \<and> pr_store p = s \<and> primary_ok 4096 p [] \<and> store_room 4096 s \<and>
     store_rep 4096 s Map.empty Map.empty Map.empty \<and> extents (st_data s) = []"
proof -
  obtain s where s: "store_create 4096 = Ok s" "store_rep 4096 s Map.empty Map.empty Map.empty" "store_room 4096 s" "extents (st_data s) = []"
    using fresh_store by blast
  let ?p = "\<lparr> pr_store = s, pr_log = [] \<rparr>"
  have "primary_create 4096 [] = Ok ?p" using s(1) by (simp add: primary_create_def)
  moreover have "primary_ok 4096 ?p []" using s(2) by (auto simp: primary_ok_def log_of_def)
  ultimately show ?thesis using s by (intro exI [of _ s] exI [of _ ?p]) simp
qed

text \<open>A replica that starts from nothing and gets the first record in pieces.\<close>

lemma replica_follows_primary_witness:
  "\<exists>p p' s y. primary_create 4096 [] = Ok p \<and> primary_insert 4096 sample_header [1, 2, 3] p = Ok p' \<and> store_create 4096 = Ok s \<and>
     replica_sync 4096 None s None (map Ok [take 100 (pr_log p'), drop 100 (pr_log p')]) = (y, Closed) \<and>
     store_get (sy_store y) (hdr_id sample_header) = store_get (pr_store p') (hdr_id sample_header)"
proof -
  let ?r = "Insert (placed sample_header [1, 2, 3]) [1, 2, 3]"
  obtain s p where p: "store_create 4096 = Ok s" "primary_create 4096 [] = Ok p" "pr_store p = s" "primary_ok 4096 p []" "store_room 4096 s"
    "store_rep 4096 s Map.empty Map.empty Map.empty" using fresh_primary_store by blast
  then have room: "store_room 4096 (pr_store p)" by simp
  from primary_logs_its_store [OF p(4) room sample_header_wf(1) sample_fits, of NIL] obtain p' where
    p': "primary_insert 4096 sample_header [1, 2, 3] p = Ok p'" "primary_ok 4096 p' [?r]" by auto
  have log: "pr_log p' = log_of [?r]" and can: "canonical_record ?r" and st: "list_all storable [?r]"
    using p'(2) storable_canonical by (auto simp: primary_ok_def)
  have wf: "wf_header (placed sample_header [1, 2, 3])" using can by (simp add: canonical_record_def)
  have len: "length (log_of [?r]) = 447" using wf by (simp add: log_of_concat record_encode_def ENCODED_LEN_def Let_def)
  have rep: "store_rep 4096 s (replay ([] @ []) Map.empty) Map.empty Map.empty" using p(6) by simp
  have ok: "primary_ok 4096 p' ([] @ [?r])" using p'(2) by simp
  obtain s1 where "apply_record 4096 ?r s = Ok s1" using apply_record_spec [OF p(6) _ p(5), of ?r] st by auto
  then have roomy: "roomy 4096 [?r] s" using p(5) by simp
  have grows: "log_grows [] [log_of [?r]] ([] @ [?r])"
    using can canonical_Delete_NIL rec.enc_nonempty [OF canonical_Delete_NIL]
    by (auto intro!: exI [of _ "[?r]"] exI [of _ "Delete NIL"] exI [of _ 0])
  obtain pos where pos: "serve_connection (sync_line 0) [log_of [?r]] = Ok (log_of [?r], pos)"
    using serve_spec [OF grows] sync_request_line [of 0] by (auto simp: serve_connection_def log_of_def [of "[]"])
  have "concat [take 100 (pr_log p'), drop 100 (pr_log p')] = log_of [?r]" using log by simp
  then have serve: "serve_connection (sync_line (load_offset None)) [log_of [?r]] = Ok (concat [take 100 (pr_log p'), drop 100 (pr_log p')], pos)"
    using pos by (simp add: load_offset_def)
  have off: "load_offset None = length (log_of [])" by (simp add: load_offset_def log_of_def)
  have "[?r] = [] @ [?r]" and small: "length (pr_log p') \<le> u64_max" using len log by simp_all
  have "log_of [?r] \<noteq> []" "length (take 100 (pr_log p')) = 100" "length (drop 100 (pr_log p')) = 347" using len log by auto
  then have ne: "[] \<notin> set [take 100 (pr_log p'), drop 100 (pr_log p')]" by auto
  from replica_follows_primary [OF ok rep \<open>[?r] = [] @ [?r]\<close> off small roomy grows serve ne] obtain y where
    "replica_sync 4096 None s None (map Ok [take 100 (pr_log p'), drop 100 (pr_log p')]) = (y, Closed)"
    "\<forall>i. store_get (sy_store y) i = store_get (pr_store p') i" by blast
  then show ?thesis using p(1,2) p'(1) by blast
qed

text \<open>Such a log, reached from an empty store.\<close>

lemma torn_append_reached:
  "\<exists>p p' i. primary_create 4096 (log_of [] @ take (5 + 3) (record_encode (Delete (Tuid (replicate 24 9))))) = Ok p \<and>
     primary_insert 4096 sample_header [1, 2, 3] p = Ok p' \<and>
     record_decode (drop (length (log_of [])) (pr_log p')) = Ok (Some (Delete i, 29)) \<and> take 3 (as_bytes i) = [9, 9, 9]"
proof -
  let ?i = "Tuid (replicate 24 9)"
  obtain s where s: "store_create 4096 = Ok s" "store_rep 4096 s Map.empty Map.empty Map.empty" "store_room 4096 s" using fresh_store by blast
  let ?p = "\<lparr> pr_store = s, pr_log = log_of [] @ take (5 + 3) (record_encode (Delete ?i)) \<rparr>"
  have p: "primary_create 4096 (log_of [] @ take (5 + 3) (record_encode (Delete ?i))) = Ok ?p" using s(1) by (simp add: primary_create_def)
  from store_insert_spec [OF s(2,3) sample_header_wf(1) sample_fits] obtain s1 N R where
    s1: "store_insert 4096 sample_header [1, 2, 3] s = Ok s1"
    "store_rep 4096 s1 [hdr_id sample_header \<mapsto> (placed sample_header [1, 2, 3], [1, 2, 3])] N R" by auto
  obtain p' where p': "primary_insert 4096 sample_header [1, 2, 3] ?p = Ok p'"
    using s1(1) store_get_spec [OF s1(2), of "hdr_id sample_header"] by (simp add: primary_insert_def)
  have i: "wf_tuid ?i" "3 < TUID_LEN" "as_bytes ?i = replicate 24 9" by (simp_all add: wf_tuid_def TUID_LEN_def)
  obtain rec where "record_decode (drop (length (log_of [])) (pr_log p')) =
      Ok (Some (Delete (Tuid (take 3 (as_bytes ?i) @ take (TUID_LEN - 3) (record_encode rec))), 29))"
    using torn_append_misread [OF disjI2 [OF p] i(1,2) p'] by blast
  moreover have "take 3 (as_bytes (Tuid (take 3 (as_bytes ?i) @ take (TUID_LEN - 3) (record_encode rec)))) = [9, 9, 9]"
    by (simp add: numeral_eq_Suc)
  ultimately show ?thesis using p p' by blast
qed

end
