(* ===== verification/Gems_Raft_Node.thy ===== *)
theory Gems_Raft_Node
  imports Gems_Raft_Safety Gems_Replica
begin

text \<open>
  A running member of a raft group: \<^verbatim>\<open>gems-cluster/src/raft_net.rs\<close> over the consensus core of
  \<^verbatim>\<open>Gems_Raft\<close>, and \<^verbatim>\<open>save\<close> and \<^verbatim>\<open>load\<close> of \<^verbatim>\<open>raft_state.rs\<close>. A member is its core, its
  store and the directory with its state file. Its engine takes one message at a time, or a tick when none
  came; it saves before it sends, and applies what is committed last. A directory keeps apart what a
  process sees of it and what survives a crash. The members with the messages on their way form the relation
  \<open>shell_step\<close>, with crashes at any point of the handling of a message, and are shown to behave as the cluster
  of \<^verbatim>\<open>Gems_Raft_Cluster\<close>.
\<close>

section \<open>The state file\<close>

text \<open>A file is what was written to it, and whether that was flushed.\<close>

record saved_file =
  sf_bytes :: bytes
  sf_synced :: bool

text \<open>
  The directory, with the two names it may hold, and the file that the name of the state has on the disk, which is
  an earlier one until the directory is flushed.
\<close>

record state_dir =
  final_file :: "saved_file option"
  tmp_file :: "saved_file option"
  durable_file :: "saved_file option"

definition create_tmp :: "state_dir \<Rightarrow> state_dir" where
  "create_tmp d = d\<lparr> tmp_file := Some \<lparr> sf_bytes = [], sf_synced = False \<rparr> \<rparr>"

definition write_tmp :: "bytes \<Rightarrow> state_dir \<Rightarrow> state_dir" where
  "write_tmp bs d = d\<lparr> tmp_file := map_option (\<lambda>f. \<lparr> sf_bytes = sf_bytes f @ bs, sf_synced = False \<rparr>) (tmp_file d) \<rparr>"

definition sync_tmp :: "state_dir \<Rightarrow> state_dir" where
  "sync_tmp d = d\<lparr> tmp_file := map_option (sf_synced_update (\<lambda>_. True)) (tmp_file d) \<rparr>"

definition rename_tmp :: "state_dir \<Rightarrow> state_dir" where
  "rename_tmp d = d\<lparr> final_file := tmp_file d, tmp_file := None \<rparr>"

definition sync_dir :: "state_dir \<Rightarrow> state_dir" where
  "sync_dir d = d\<lparr> durable_file := final_file d \<rparr>"

definition save_steps :: "nat \<Rightarrow> node_id option \<Rightarrow> log_entry list \<Rightarrow> (state_dir \<Rightarrow> state_dir) list" where
  "save_steps t vote lg = [create_tmp, write_tmp (state_encode t vote lg), sync_tmp, rename_tmp, sync_dir]"

definition state_save :: "nat \<Rightarrow> node_id option \<Rightarrow> log_entry list \<Rightarrow> state_dir \<Rightarrow> state_dir" where
  "state_save t vote lg d = fold (\<lambda>f. f) (save_steps t vote lg) d"

definition state_load_from :: "state_dir \<Rightarrow> (nat \<times> node_id option \<times> log_entry list) result" where
  "state_load_from d = state_load (map_option sf_bytes (final_file d))"

text \<open>
  A crash. Either name may have reached the disk; a file that was not flushed holds anything at all.
\<close>

inductive crash :: "state_dir \<Rightarrow> state_dir \<Rightarrow> bool" where
  "entry = final_file d \<or> entry = durable_file d \<Longrightarrow>
   found = map_option (\<lambda>f. \<lparr> sf_bytes = (if sf_synced f then sf_bytes f else bs), sf_synced = True \<rparr>) entry \<Longrightarrow>
   crash d \<lparr> final_file = found, tmp_file = left_over, durable_file = found \<rparr>"

text \<open>A directory in which a save has ended, or in which there was none.\<close>

definition settled :: "state_dir \<Rightarrow> bool" where
  "settled d \<longleftrightarrow> durable_file d = final_file d \<and> (\<forall>f. final_file d = Some f \<longrightarrow> sf_synced f)"

definition no_state :: state_dir where
  "no_state = \<lparr> final_file = None, tmp_file = None, durable_file = None \<rparr>"

lemmas save_step_defs = create_tmp_def write_tmp_def sync_tmp_def rename_tmp_def sync_dir_def

lemma no_state_settled [simp]: "settled no_state" "state_load_from no_state = Ok (0, None, [])"
  by (simp_all add: no_state_def settled_def state_load_from_def state_load_def)

lemma crash_settled: "crash d d' \<Longrightarrow> settled d'"
  by (auto simp: settled_def elim!: crash.cases)

lemma crash_keeps:
  assumes "settled d" and "crash d d'"
  shows "state_load_from d' = state_load_from d"
  using assms(2,1) by cases (cases "final_file d"; auto simp: settled_def state_load_from_def)

lemma state_save_final:
  "final_file (state_save t vote lg d) = Some \<lparr> sf_bytes = state_encode t vote lg, sf_synced = True \<rparr>"
  "settled (state_save t vote lg d)"
  by (simp_all add: state_save_def save_steps_def save_step_defs settled_def)

lemma load_saved_state: "state_ok t vote lg \<Longrightarrow> state_load_from (state_save t vote lg d) = Ok (t, vote, lg)"
  by (simp add: state_load_from_def state_save_final state_load_def state_decode_encode)

text \<open>Before the renaming the state file is the old one, afterwards it is complete.\<close>

lemma save_prefix:
  assumes "settled d" and "k \<le> length (save_steps t vote lg)"
  shows "\<exists>f. f = Some \<lparr> sf_bytes = state_encode t vote lg, sf_synced = True \<rparr> \<and>
    (let d' = fold (\<lambda>f. f) (take k (save_steps t vote lg)) d in
      (final_file d' = final_file d \<and> durable_file d' = final_file d \<and> k < 4 \<or>
       final_file d' = f \<and> durable_file d' = final_file d \<and> k = 4 \<or>
       final_file d' = f \<and> durable_file d' = f \<and> k = 5))"
proof -
  have "k \<in> {0, 1, 2, 3, 4, 5}" using assms(2) by (auto simp: save_steps_def)
  then show ?thesis using assms(1) by (auto simp: save_steps_def save_step_defs settled_def)
qed

text \<open>
  C3: saving is atomic. A crash anywhere in a save leaves a state file from which a member loads the old state or the new one,
  whatever the disk made of what was not flushed; after the save it is the new one. What is left of
  the temporary file does not matter.
\<close>

theorem save_is_atomic:
  assumes "settled d" and "state_load_from d = Ok old" and "state_ok t vote lg"
    and "k \<le> length (save_steps t vote lg)" and "crash (fold (\<lambda>f. f) (take k (save_steps t vote lg)) d) d'"
  shows "settled d' \<and> (state_load_from d' = Ok old \<or> state_load_from d' = Ok (t, vote, lg)) \<and>
    (k = length (save_steps t vote lg) \<longrightarrow> state_load_from d' = Ok (t, vote, lg))"
proof -
  let ?d = "fold (\<lambda>f. f) (take k (save_steps t vote lg)) d"
  let ?new = "Some \<lparr> sf_bytes = state_encode t vote lg, sf_synced = True \<rparr>"
  have new: "state_load (map_option sf_bytes ?new) = Ok (t, vote, lg)"
    using assms(3) by (simp add: state_load_def state_decode_encode)
  have len: "length (save_steps t vote lg) = 5" by (simp add: save_steps_def)
  have synced: "\<forall>f. final_file d = Some f \<longrightarrow> sf_synced f" using assms(1) by (simp add: settled_def)
  from save_prefix [OF assms(1,4)] have pre: "final_file ?d = final_file d \<and> durable_file ?d = final_file d \<and> k < 4 \<or>
     final_file ?d = ?new \<and> durable_file ?d = final_file d \<and> k = 4 \<or> final_file ?d = ?new \<and> durable_file ?d = ?new \<and> k = 5"
    by (simp add: Let_def)
  from assms(5) obtain entry bs where e: "entry = final_file ?d \<or> entry = durable_file ?d"
    "final_file d' = map_option (\<lambda>f. \<lparr> sf_bytes = (if sf_synced f then sf_bytes f else bs), sf_synced = True \<rparr>) entry"
    by cases auto
  have flushed: "\<forall>f. entry = Some f \<longrightarrow> sf_synced f" using e(1) pre synced by auto
  then have "map_option sf_bytes (final_file d') = map_option sf_bytes entry" by (cases entry) (simp_all add: e(2))
  then have "state_load_from d' = state_load (map_option sf_bytes entry)" by (simp add: state_load_from_def)
  moreover have "entry = final_file d \<or> entry = ?new" "k = 5 \<longrightarrow> entry = ?new" using e(1) pre by auto
  ultimately show ?thesis using crash_settled [OF assms(5)] assms(2) new len
    by (auto simp: state_load_from_def)
qed

lemma save_is_atomic_witness:
  "\<exists>d'. crash (fold (\<lambda>f. f) (take 4 (save_steps 7 (Some 2) [])) no_state) d' \<and>
     (state_load_from d' = Ok (0, None, []) \<or> state_load_from d' = Ok (7, Some 2, []))"
proof -
  let ?d = "fold (\<lambda>f. f) (take 4 (save_steps 7 (Some 2) [])) no_state"
  obtain d' where d': "crash ?d d'" by (meson crash.intros)
  have "state_ok 7 (Some 2) []" "4 \<le> length (save_steps 7 (Some 2) [])" by (simp_all add: state_ok_def save_steps_def)
  from save_is_atomic [OF no_state_settled this d'] d' show ?thesis by blast
qed

section \<open>The engine\<close>

record raft_node =
  nd_core :: raft_core
  nd_store :: store
  nd_dir :: state_dir

text \<open>What the engine waits for: a message of its channel, the end of the tick interval, or the end of the channel.\<close>

datatype engine_msg = Inbound envelope | Proposal log_record | Status | Shutdown | TimedOut | Disconnected

text \<open>What is sent back through the channel that came with a message.\<close>

datatype engine_answer = Assigned nat | Refused raft_error | Reported role nat

definition persist_state :: "raft_core \<Rightarrow> state_dir \<Rightarrow> state_dir" where
  "persist_state c d = (case persistent_state c of (t, vote, lg) \<Rightarrow> state_save t vote lg d)"

text \<open>One message up to the sending: nothing at all where the engine ends.\<close>

definition engine_event :: "engine_msg \<Rightarrow> raft_node \<Rightarrow> (raft_node \<times> envelope list \<times> engine_answer option) option raft_result" where
  "engine_event msg n =
     (case msg of
        Inbound e \<Rightarrow>
          omap (\<lambda>(c, outgoing). Some (n\<lparr> nd_core := c, nd_dir := persist_state c (nd_dir n) \<rparr>, outgoing, None))
            (receive e (nd_core n))
      | Proposal cmd \<Rightarrow>
          (case propose cmd (nd_core n) of
             Ok (c, index, msgs) \<Rightarrow>
               Ok (Some (n\<lparr> nd_core := c, nd_dir := persist_state c (nd_dir n) \<rparr>, msgs, Some (Assigned index)))
           | Err e \<Rightarrow> Ok (Some (n, [], Some (Refused e)))
           | Panic \<Rightarrow> Panic)
      | Status \<Rightarrow> Ok (Some (n, [], Some (Reported (role (nd_core n)) (current_term (nd_core n)))))
      | Shutdown \<Rightarrow> Ok None
      | TimedOut \<Rightarrow>
          let before = (current_term (nd_core n), role (nd_core n), voted_for (nd_core n)) in
          omap (\<lambda>(c, outgoing).
            let after = (current_term c, role c, voted_for c) in
            Some (n\<lparr> nd_core := c, nd_dir := (if before \<noteq> after then persist_state c (nd_dir n) else nd_dir n) \<rparr>, outgoing, None))
            (tick (nd_core n))
      | Disconnected \<Rightarrow> Ok None)"

text \<open>
  The result of applying a command is ignored. The model of the store has the result of an operation that fails and not
  what the operation had done by then, so that \<open>lost\<close> says what is left of the store.
\<close>

definition apply_to_store :: "nat \<Rightarrow> (log_record \<Rightarrow> store \<Rightarrow> store) \<Rightarrow> log_record \<Rightarrow> store \<Rightarrow> store raft_result" where
  "apply_to_store os lost cmd s =
     (case apply_record os cmd s of Ok s' \<Rightarrow> Ok s' | Err _ \<Rightarrow> Ok (lost cmd s) | Panic \<Rightarrow> Panic)"

primrec apply_entries :: "nat \<Rightarrow> (log_record \<Rightarrow> store \<Rightarrow> store) \<Rightarrow> log_entry list \<Rightarrow> store \<Rightarrow> store raft_result" where
  "apply_entries os lost [] s = Ok s"
| "apply_entries os lost (e # es) s = obind (apply_to_store os lost (command e) s) (apply_entries os lost es)"

definition to_members :: "node_id list \<Rightarrow> envelope list \<Rightarrow> envelope list" where
  "to_members members outgoing = filter (\<lambda>e. env_to e \<in> set members) outgoing"

text \<open>One round of the loop: the node afterwards, what was sent, and the answer.\<close>

definition engine_step ::
  "nat \<Rightarrow> (log_record \<Rightarrow> store \<Rightarrow> store) \<Rightarrow> node_id list \<Rightarrow> engine_msg \<Rightarrow> raft_node \<Rightarrow>
     (raft_node \<times> envelope list \<times> engine_answer option) option raft_result" where
  "engine_step os lost members msg n =
     obind (engine_event msg n) (\<lambda>r.
     case r of
       None \<Rightarrow> Ok None
     | Some (n1, outgoing, answer) \<Rightarrow>
         obind (take_newly_committed (nd_core n1)) (\<lambda>(c, es).
         omap (\<lambda>s. Some (n1\<lparr> nd_core := c, nd_store := s \<rparr>, to_members members outgoing, answer))
           (apply_entries os lost es (nd_store n1))))"

section \<open>Starting\<close>

text \<open>A store that cannot be opened is created, which fails where its files exist.\<close>

definition spawn_store :: "nat \<Rightarrow> store_files option \<Rightarrow> store result" where
  "spawn_store os dir =
     (case dir of
        None \<Rightarrow> store_create os
      | Some files \<Rightarrow>
          (case store_open os files True of
             Ok s \<Rightarrow> Ok s
           | Err _ \<Rightarrow> Err (Io ''File exists'')
           | Panic \<Rightarrow> Panic))"

definition jitter :: "nat \<Rightarrow> nat \<Rightarrow> nat \<Rightarrow> nat" where
  "jitter lo hi rnd = lo + rnd mod max (hi - lo) 1"

record raft_timing =
  heartbeat_ticks :: nat
  timeout_lo :: nat
  timeout_hi :: nat

definition spawn :: "nat \<Rightarrow> raft_timing \<Rightarrow> nat \<Rightarrow> node_id \<Rightarrow> node_id list \<Rightarrow> store_files option \<Rightarrow> state_dir \<Rightarrow> raft_node result" where
  "spawn os timing rnd i members files dir =
     obind (spawn_store os files) (\<lambda>s.
     omap (\<lambda>(t, vote, lg).
       \<lparr> nd_core = raft_restore i members (jitter (timeout_lo timing) (timeout_hi timing) rnd) (heartbeat_ticks timing) t vote lg,
         nd_store = s, nd_dir = dir \<rparr>)
       (state_load_from dir))"

section \<open>What an event leaves on the disk\<close>

definition fits_state :: "raft_core \<Rightarrow> bool" where
  "fits_state c = (case persistent_state c of (t, vote, lg) \<Rightarrow> state_ok t vote lg)"

definition saved :: "raft_node \<Rightarrow> bool" where
  "saved n \<longleftrightarrow> settled (nd_dir n) \<and> state_load_from (nd_dir n) = Ok (persistent_state (nd_core n))"

lemma persist_saved: "fits_state c \<Longrightarrow> settled (persist_state c d) \<and> state_load_from (persist_state c d) = Ok (persistent_state c)"
  by (cases "persistent_state c") (simp add: persist_state_def fits_state_def load_saved_state state_save_final)

lemma check_election_win_log: "check_election_win c = Ok (c', msgs) \<Longrightarrow> rlog c' = rlog c"
  by (auto simp: check_election_win_def become_leader_def Let_def split: if_splits)

lemma start_election_log: "start_election c = Ok (c', msgs) \<Longrightarrow> rlog c' = rlog c"
  by (auto simp: start_election_def reset_election_timer_def Let_def dest!: check_election_win_log)

lemma tick_log: "tick c = Ok (c', msgs) \<Longrightarrow> rlog c' = rlog c"
  by (auto simp: tick_def Let_def dest!: start_election_log split: role.splits if_splits)

text \<open>A tick that is not saved has changed nothing that would be.\<close>

lemma quiet_tick:
  "tick c = Ok (c', msgs) \<Longrightarrow> (current_term c, role c, voted_for c) = (current_term c', role c', voted_for c') \<Longrightarrow>
     persistent_state c' = persistent_state c"
  by (simp add: persistent_state_def tick_log)

lemma event_dir:
  assumes "engine_event msg n = Ok (Some (n1, outgoing, answer))"
  shows "nd_store n1 = nd_store n \<and> (nd_dir n1 = persist_state (nd_core n1) (nd_dir n) \<or>
    nd_dir n1 = nd_dir n \<and> persistent_state (nd_core n1) = persistent_state (nd_core n))"
proof (cases msg)
  case TimedOut
  with assms obtain c where c: "tick (nd_core n) = Ok (c, outgoing)" and n1: "n1 = n\<lparr> nd_core := c, nd_dir := (if
      (current_term (nd_core n), role (nd_core n), voted_for (nd_core n)) \<noteq> (current_term c, role c, voted_for c)
      then persist_state c (nd_dir n) else nd_dir n) \<rparr>" by (auto simp: engine_event_def Let_def)
  show ?thesis using quiet_tick [OF c] by (simp add: n1)
qed (use assms in \<open>auto simp: engine_event_def split: outcome.splits\<close>)

lemma event_saved:
  assumes "saved n" and "engine_event msg n = Ok (Some (n1, outgoing, answer))" and "fits_state (nd_core n1)"
  shows "saved n1"
  using assms(1) event_dir [OF assms(2)] persist_saved [OF assms(3)] by (auto simp: saved_def)

lemma committed_persistent: "take_newly_committed c = Ok (c', es) \<Longrightarrow> persistent_state c' = persistent_state c"
  using take_newly_committed_frame [of c c' es] by (auto simp: persistent_state_def)

lemma step_cases:
  assumes "engine_step os lost members msg n = Ok (Some (n', out, answer))"
  obtains n1 outgoing c es s where "engine_event msg n = Ok (Some (n1, outgoing, answer))" "take_newly_committed (nd_core n1) = Ok (c, es)"
    "apply_entries os lost es (nd_store n1) = Ok s" "n' = n1\<lparr> nd_core := c, nd_store := s \<rparr>" "out = to_members members outgoing"
  using assms by (auto simp: engine_step_def obind_eq_Ok split: option.splits)

section \<open>Members that crash and restart\<close>

record shells =
  sh_nodes :: "node_id \<Rightarrow> raft_node"
  sh_net :: "envelope set"

text \<open>What the engine of a member may be given: of the messages on their way those that are addressed to it.\<close>

definition heard :: "envelope set \<Rightarrow> node_id \<Rightarrow> engine_msg \<Rightarrow> raft_core \<Rightarrow> bool" where
  "heard sent i msg c =
     (case msg of Inbound e \<Rightarrow> e \<in> sent \<and> env_to e = i | TimedOut \<Rightarrow> current_term c < u64_max | _ \<Rightarrow> True)"

text \<open>
  The directory of a member, and what it has sent, at some moment while it handles a message: before it has saved, after some of
  the steps of saving, and after it has sent some of its answers. A core that panics is one that ends before it has saved.
\<close>

inductive crash_point :: "node_id list \<Rightarrow> engine_msg \<Rightarrow> raft_node \<Rightarrow> state_dir \<Rightarrow> envelope set \<Rightarrow> bool" for members msg n where
  before: "crash_point members msg n (nd_dir n) {}"
| saving: "engine_event msg n = Ok (Some (n1, outgoing, answer)) \<Longrightarrow> nd_dir n1 = persist_state (nd_core n1) (nd_dir n) \<Longrightarrow>
    persistent_state (nd_core n1) = (t, vote, lg) \<Longrightarrow> state_ok t vote lg \<Longrightarrow> k \<le> length (save_steps t vote lg) \<Longrightarrow>
    crash_point members msg n (fold (\<lambda>f. f) (take k (save_steps t vote lg)) (nd_dir n)) {}"
| sending: "engine_event msg n = Ok (Some (n1, outgoing, answer)) \<Longrightarrow> fits_state (nd_core n1) \<Longrightarrow>
    out \<subseteq> set (to_members members outgoing) \<Longrightarrow> crash_point members msg n (nd_dir n1) out"

inductive shell_step ::
  "nat \<Rightarrow> (log_record \<Rightarrow> store \<Rightarrow> store) \<Rightarrow> raft_timing \<Rightarrow> node_id set \<Rightarrow> (node_id \<Rightarrow> node_id list) \<Rightarrow> shells \<Rightarrow> shells \<Rightarrow> bool"
  for os lost timing M ps where
  runs: "i \<in> M \<Longrightarrow> heard (sh_net S) i msg (nd_core (sh_nodes S i)) \<Longrightarrow>
    engine_step os lost (ps i) msg (sh_nodes S i) = Ok (Some (n', out, answer)) \<Longrightarrow> fits_state (nd_core n') \<Longrightarrow>
    shell_step os lost timing M ps S \<lparr> sh_nodes = (sh_nodes S)(i := n'), sh_net = sh_net S \<union> set out \<rparr>"
| crashes: "i \<in> M \<Longrightarrow> heard (sh_net S) i msg (nd_core (sh_nodes S i)) \<Longrightarrow>
    crash_point (ps i) msg (sh_nodes S i) d out \<Longrightarrow> crash d d' \<Longrightarrow> spawn os timing rnd i (ps i) files d' = Ok n' \<Longrightarrow>
    shell_step os lost timing M ps S \<lparr> sh_nodes = (sh_nodes S)(i := n'), sh_net = sh_net S \<union> out \<rparr>"

inductive shells_reachable ::
  "nat \<Rightarrow> (log_record \<Rightarrow> store \<Rightarrow> store) \<Rightarrow> raft_timing \<Rightarrow> node_id set \<Rightarrow> (node_id \<Rightarrow> node_id list) \<Rightarrow> shells \<Rightarrow> bool"
  for os lost timing M ps where
  first_start: "\<forall>i \<in> M. spawn os timing (rnd i) i (ps i) (files i) no_state = Ok (N i) \<Longrightarrow>
    shells_reachable os lost timing M ps \<lparr> sh_nodes = N, sh_net = {} \<rparr>"
| shell_steps: "shells_reachable os lost timing M ps S \<Longrightarrow> shell_step os lost timing M ps S S' \<Longrightarrow>
    shells_reachable os lost timing M ps S'"

section \<open>They behave as the cluster\<close>

lemma step_peers:
  assumes inv: "cluster_inv M s" and st: "cluster_step M s s'"
  shows "peers (nodes s' j) = peers (nodes s j)"
  using st
proof cases
  case (ticks i c' msgs)
  from tick_move [OF node_ok_of_inv [OF inv ticks(2)] ticks(4,3)] show ?thesis by (simp add: ticks(1) node_move_def)
next
  case (proposes i cmd c' idx msgs)
  from propose_move [OF node_ok_of_inv [OF inv proposes(2)] proposes(3)] show ?thesis by (simp add: proposes(1) node_move_def)
next
  case (delivers i e c' msgs)
  have "rid (nodes s i) = i" "msg_ok (votes s) (leaders s) e" using inv delivers by (auto simp: cluster_inv_def config_inv_def)
  with receive_move [OF node_ok_of_inv [OF inv delivers(2)], of e c' msgs] delivers show ?thesis by (simp add: node_move_def)
next
  case (applies i c' es)
  from applies_move [OF node_ok_of_inv [OF inv applies(2)] applies(3)] show ?thesis by (simp add: applies(1) node_move_def)
qed (simp_all add: set_election_timeout_def raft_restore_def raft_new_def)

lemma reachable_config:
  assumes "reachable M ps timeout interval s" and "membership M ps" and "i \<in> M"
  shows "rid (nodes s i) = i \<and> peers (nodes s i) = ps i"
proof
  show "rid (nodes s i) = i" using reachable_inv [OF assms(1,2)] assms(3) by (simp add: cluster_inv_def config_inv_def)
  show "peers (nodes s i) = ps i"
    using assms(1)
  proof induction
    case start
    show ?case by (simp add: init_cluster_def raft_new_def)
  next
    case (step s s')
    then show ?case using step_peers reachable_inv [OF step(1) assms(2)] by simp
  qed
qed

text \<open>An event of the engine is a step of the cluster, or none.\<close>

lemma event_sim:
  assumes reach: "reachable M ps timeout interval s" and i: "i \<in> M" and core: "nd_core n = nodes s i"
    and hd: "heard sent i msg (nd_core n)" and sent: "sent \<subseteq> net s"
    and ev: "engine_event msg n = Ok (Some (n1, outgoing, answer))"
  shows "\<exists>s'. reachable M ps timeout interval s' \<and> nodes s' = (nodes s)(i := nd_core n1) \<and> net s' = net s \<union> set outgoing"
proof -
  have moves: "\<exists>s'. reachable M ps timeout interval s' \<and> nodes s' = (nodes s)(i := nd_core n1) \<and> net s' = net s \<union> set outgoing"
    if "cluster_step M s (move s i (nd_core n1) outgoing)"
    using step [OF reach that] by (intro exI [of _ "move s i (nd_core n1) outgoing"]) simp
  have stays: "\<exists>s'. reachable M ps timeout interval s' \<and> nodes s' = (nodes s)(i := nd_core n1) \<and> net s' = net s \<union> set outgoing"
    if "n1 = n" "outgoing = []" using that reach core by (intro exI [of _ s]) simp
  show ?thesis
  proof (cases msg)
    case (Inbound e)
    with ev hd sent have "receive e (nodes s i) = Ok (nd_core n1, outgoing)" "e \<in> net s" "env_to e = i"
      by (auto simp: engine_event_def heard_def core)
    then show ?thesis using delivers [OF i] by (intro moves) blast
  next
    case (Proposal cmd)
    show ?thesis
    proof (cases "propose cmd (nodes s i)")
      case (Ok r)
      with ev Proposal obtain idx where "propose cmd (nodes s i) = Ok (nd_core n1, idx, outgoing)"
        by (cases r) (auto simp: engine_event_def core)
      from proposes [OF i this] show ?thesis by (rule moves)
    next
      case (Err e)
      with ev Proposal have "n1 = n" "outgoing = []" by (auto simp: engine_event_def core)
      then show ?thesis by (rule stays)
    qed (use ev Proposal in \<open>simp add: engine_event_def core\<close>)
  next
    case TimedOut
    with ev hd have "tick (nodes s i) = Ok (nd_core n1, outgoing)" "current_term (nodes s i) < u64_max"
      by (auto simp: engine_event_def heard_def core Let_def)
    then show ?thesis using ticks [OF i] by (intro moves) blast
  next
    case Status
    with ev have "n1 = n" "outgoing = []" by (auto simp: engine_event_def)
    then show ?thesis by (rule stays)
  qed (use ev in \<open>simp_all add: engine_event_def\<close>)
qed

text \<open>Starting again from the state that was saved is the restart of the cluster.\<close>

lemma restart_sim:
  assumes reach: "reachable M ps timeout interval s" and m: "membership M ps" and i: "i \<in> M"
    and load: "state_load_from d = Ok (persistent_state (nodes s i))" and settled: "settled d"
    and sp: "spawn os timing rnd i (ps i) files d = Ok n'"
  shows "\<exists>s'. reachable M ps timeout interval s' \<and> nodes s' = (nodes s)(i := nd_core n') \<and> net s' = net s \<and> saved n'"
proof -
  obtain t vote lg where p: "persistent_state (nodes s i) = (t, vote, lg)" by (metis prod_cases3)
  let ?c = "raft_restore i (ps i) (jitter (timeout_lo timing) (timeout_hi timing) rnd) (heartbeat_ticks timing) t vote lg"
  have c: "nd_core n' = ?c" "nd_dir n' = d" using sp load by (auto simp: spawn_def obind_eq_Ok p)
  have "cluster_step M s (move s i ?c [])"
    using restarts [OF i refl p] reachable_config [OF reach m i] by simp
  from step [OF reach this] have "reachable M ps timeout interval (move s i ?c [])" .
  moreover have "persistent_state ?c = (t, vote, lg)" by (simp add: persistent_state_def raft_restore_def)
  then have "saved n'" using settled load by (simp only: saved_def c p)
  ultimately show ?thesis using c by (intro exI [of _ "move s i ?c []"]) simp
qed

text \<open>The members over the network show what a reachable cluster shows, and have saved it.\<close>

definition mirrors :: "node_id set \<Rightarrow> shells \<Rightarrow> cluster \<Rightarrow> bool" where
  "mirrors M S s \<longleftrightarrow> (\<forall>i \<in> M. nd_core (sh_nodes S i) = nodes s i \<and> saved (sh_nodes S i)) \<and> sh_net S \<subseteq> net s"

lemma mirrors_update:
  assumes "mirrors M S s" and "nodes s' = (nodes s)(i := nd_core n')" and "saved n'" and "sh_net S \<union> out \<subseteq> net s'"
  shows "mirrors M \<lparr> sh_nodes = (sh_nodes S)(i := n'), sh_net = sh_net S \<union> out \<rparr> s'"
  using assms by (auto simp: mirrors_def)

lemma to_members_subset: "set (to_members members outgoing) \<subseteq> set outgoing"
  by (auto simp: to_members_def)

lemma runs_sim:
  assumes reach: "reachable M ps timeout interval s" and mir: "mirrors M S s" and i: "i \<in> M"
    and hd: "heard (sh_net S) i msg (nd_core (sh_nodes S i))"
    and st: "engine_step os lost (ps i) msg (sh_nodes S i) = Ok (Some (n', out, answer))" and fits: "fits_state (nd_core n')"
  shows "\<exists>s'. reachable M ps timeout interval s' \<and> mirrors M \<lparr> sh_nodes = (sh_nodes S)(i := n'), sh_net = sh_net S \<union> set out \<rparr> s'"
proof -
  have n: "nd_core (sh_nodes S i) = nodes s i" "saved (sh_nodes S i)" and net: "sh_net S \<subseteq> net s" using mir i by (auto simp: mirrors_def)
  from step_cases [OF st] obtain n1 outgoing c es s2 where
    ev: "engine_event msg (sh_nodes S i) = Ok (Some (n1, outgoing, answer))" and tk: "take_newly_committed (nd_core n1) = Ok (c, es)"
    and n': "n' = n1\<lparr> nd_core := c, nd_store := s2 \<rparr>" and out: "out = to_members (ps i) outgoing" by metis
  have same: "persistent_state c = persistent_state (nd_core n1)" by (rule committed_persistent [OF tk])
  then have "fits_state (nd_core n1)" using fits by (simp add: fits_state_def n')
  from event_saved [OF n(2) ev this] same have saved: "saved n'" by (simp add: saved_def n')
  from event_sim [OF reach i n(1) hd net ev] obtain s1 where
    s1: "reachable M ps timeout interval s1" "nodes s1 = (nodes s)(i := nd_core n1)" "net s1 = net s \<union> set outgoing" by blast
  have "cluster_step M s1 (move s1 i c [])" using i tk s1(2) by (intro applies) simp_all
  from step [OF s1(1) this] have "reachable M ps timeout interval (move s1 i c [])" .
  moreover have "mirrors M \<lparr> sh_nodes = (sh_nodes S)(i := n'), sh_net = sh_net S \<union> set out \<rparr> (move s1 i c [])"
    using mir saved s1 net to_members_subset [of "ps i" outgoing] by (intro mirrors_update) (auto simp: n' out)
  ultimately show ?thesis by blast
qed

lemma crashes_sim:
  assumes reach: "reachable M ps timeout interval s" and m: "membership M ps" and mir: "mirrors M S s" and i: "i \<in> M"
    and hd: "heard (sh_net S) i msg (nd_core (sh_nodes S i))" and pt: "crash_point (ps i) msg (sh_nodes S i) d out"
    and cr: "crash d d'" and sp: "spawn os timing rnd i (ps i) files d' = Ok n'"
  shows "\<exists>s'. reachable M ps timeout interval s' \<and> mirrors M \<lparr> sh_nodes = (sh_nodes S)(i := n'), sh_net = sh_net S \<union> out \<rparr> s'"
proof -
  let ?n = "sh_nodes S i"
  have n: "nd_core ?n = nodes s i" "settled (nd_dir ?n)" "state_load_from (nd_dir ?n) = Ok (persistent_state (nodes s i))"
    and net: "sh_net S \<subseteq> net s" using mir i by (auto simp: mirrors_def saved_def)
  have restarts: "\<exists>s'. reachable M ps timeout interval s' \<and> mirrors M \<lparr> sh_nodes = (sh_nodes S)(i := n'), sh_net = sh_net S \<union> out \<rparr> s'"
    if r: "reachable M ps timeout interval s1" and ld: "state_load_from d' = Ok (persistent_state (nodes s1 i))"
      and others: "\<forall>j. j \<noteq> i \<longrightarrow> nodes s1 j = nodes s j" and sent: "sh_net S \<union> out \<subseteq> net s1" for s1
  proof -
    from restart_sim [OF r m i ld crash_settled [OF cr] sp] obtain s2 where
      s2: "reachable M ps timeout interval s2" "nodes s2 = (nodes s1)(i := nd_core n')" "net s2 = net s1" "saved n'" by blast
    have "nodes s2 = (nodes s)(i := nd_core n')" using s2(2) others by auto
    from mirrors_update [OF mir this s2(4)] sent s2(1,3) show ?thesis by auto
  qed
  have old: ?thesis if "state_load_from d' = Ok (persistent_state (nodes s i))" "out = {}"
    using restarts [OF reach that(1)] net that(2) by simp
  have new: ?thesis if ev: "engine_event msg ?n = Ok (Some (n1, outgoing, answer))"
    and "state_load_from d' = Ok (persistent_state (nd_core n1))" "out \<subseteq> set outgoing" for n1 outgoing answer
  proof -
    from event_sim [OF reach i n(1) hd net ev] obtain s1 where
      "reachable M ps timeout interval s1" "nodes s1 = (nodes s)(i := nd_core n1)" "net s1 = net s \<union> set outgoing" by blast
    with restarts [of s1] that(2,3) net show ?thesis by auto
  qed
  show ?thesis
    using pt
  proof cases
    case before
    with crash_keeps [OF n(2)] cr n(3) show ?thesis by (intro old) simp_all
  next
    case (saving n1 outgoing answer t vote lg k)
    from save_is_atomic [OF n(2,3) saving(6,7)] cr saving(1) show ?thesis using old new [OF saving(3)] saving(2,5) by auto
  next
    case (sending n1 outgoing answer)
    have "saved ?n" using n by (simp add: saved_def)
    from event_saved [OF this sending(2,3)] have "settled (nd_dir n1)" "state_load_from (nd_dir n1) = Ok (persistent_state (nd_core n1))"
      by (simp_all add: saved_def)
    with crash_keeps [of "nd_dir n1" d'] cr sending show ?thesis
      using new [OF sending(2)] to_members_subset [of "ps i" outgoing] by auto
  qed
qed

lemma shells_sim:
  assumes "shells_reachable os lost timing M ps S" and m: "membership M ps"
  shows "\<exists>timeout s. reachable M ps timeout (\<lambda>_. heartbeat_ticks timing) s \<and> mirrors M S s"
  using assms(1)
proof induction
  case (first_start rnd files N)
  let ?to = "\<lambda>i. jitter (timeout_lo timing) (timeout_hi timing) (rnd i)"
  let ?s = "init_cluster ps ?to (\<lambda>_. heartbeat_ticks timing)"
  have "nd_core (N i) = nodes ?s i \<and> saved (N i)" if "i \<in> M" for i
  proof -
    have "spawn os timing (rnd i) i (ps i) (files i) no_state = Ok (N i)" using first_start that by blast
    then have "\<exists>st. N i = \<lparr> nd_core = raft_restore i (ps i) (?to i) (heartbeat_ticks timing) 0 None [], nd_store = st, nd_dir = no_state \<rparr>"
      by (auto simp: spawn_def obind_eq_Ok dest!: sym [of _ "N i"])
    then show ?thesis by (elim exE) (simp add: init_cluster_def raft_restore_def raft_new_def saved_def persistent_state_def)
  qed
  then have "mirrors M \<lparr> sh_nodes = N, sh_net = {} \<rparr> ?s" by (simp add: mirrors_def)
  then show ?case using start by blast
next
  case (shell_steps S S')
  then obtain timeout s where r: "reachable M ps timeout (\<lambda>_. heartbeat_ticks timing) s" and mir: "mirrors M S s" by blast
  from shell_steps(2) show ?case
  proof cases
    case (runs i msg n' out answer)
    from runs_sim [OF r mir runs(2-5)] runs(1) show ?thesis by blast
  next
    case (crashes i msg d out d' rnd files n')
    from crashes_sim [OF r m mir crashes(2-6)] crashes(1) show ?thesis by blast
  qed
qed

section \<open>The connections of a peer\<close>

text \<open>What is handed to the engine, and how the buffer or the connection ended.\<close>

function peer_drain :: "bytes \<Rightarrow> bytes \<Rightarrow> envelope list \<times> bytes result" where
  "peer_drain secret buf =
     (case raft_decode buf secret of
        Err e \<Rightarrow> ([], Err e)
      | Panic \<Rightarrow> ([], Panic)
      | Ok None \<Rightarrow> ([], Ok buf)
      | Ok (Some (e, consumed)) \<Rightarrow>
          (case peer_drain secret (drop consumed buf) of (es, ending) \<Rightarrow> (e # es, ending)))"
  by pat_completeness auto
termination
  by (relation "measure (\<lambda>(secret, buf). length buf)") (auto simp: raft_wire dest!: auth_open_authentic)

declare peer_drain.simps [simp del]

primrec peer_loop :: "bytes \<Rightarrow> bytes result list \<Rightarrow> bytes \<Rightarrow> envelope list \<times> unit result" where
  "peer_loop secret [] buf = ([], Ok ())"
| "peer_loop secret (got # reads) buf =
     (case got of
        Err e \<Rightarrow> ([], Err e)
      | Panic \<Rightarrow> ([], Panic)
      | Ok chunk \<Rightarrow>
          if chunk = [] then ([], Ok ())
          else (case peer_drain secret (buf @ chunk) of
                  (es, Err e) \<Rightarrow> (es, Err e)
                | (es, Panic) \<Rightarrow> (es, Panic)
                | (es, Ok rest) \<Rightarrow> (case peer_loop secret reads rest of (fs, ending) \<Rightarrow> (es @ fs, ending))))"

definition peer_connection :: "bytes \<Rightarrow> bytes result list \<Rightarrow> envelope list \<times> unit result" where
  "peer_connection secret reads = peer_loop secret reads []"

interpretation peer_frames: framed_codec "\<lambda>e. raft_encode e secret" "\<lambda>buf. raft_decode buf secret" envelope_ok for secret
proof unfold_locales
  show "raft_decode buf secret = Ok (Some (e, n)) \<Longrightarrow> 0 < n \<and> n \<le> length buf" for buf e n
    by (auto simp: raft_wire dest!: auth_open_authentic)
qed (simp_all add: raft_decode_encode raft_decode_partial)

lemma peer_drain_frames:
  "list_all envelope_ok es \<Longrightarrow> raft_decode rest secret = Ok None \<Longrightarrow>
     peer_drain secret (concat (map (\<lambda>e. raft_encode e secret) es) @ rest) = (es, Ok rest)"
proof (induction es)
  case Nil
  then show ?case by (subst peer_drain.simps) simp
next
  case (Cons e es)
  then show ?case by (subst peer_drain.simps) (simp add: peer_frames.dec_enc)
qed

lemma peer_loop_frames:
  "list_all envelope_ok es \<Longrightarrow> concat (map (\<lambda>e. raft_encode e secret) es) = buf @ concat parts \<Longrightarrow> raft_decode buf secret = Ok None \<Longrightarrow>
     [] \<notin> set parts \<Longrightarrow> peer_loop secret (map Ok parts) buf = (es, Ok ())"
proof (induction parts arbitrary: buf es)
  case Nil
  have "es = []"
  proof (cases es)
    case (Cons e es')
    with Nil have "raft_decode buf secret \<noteq> Ok None" using peer_frames.dec_enc [of e] by auto
    with Nil.prems(3) show ?thesis by simp
  qed
  then show ?case by simp
next
  case (Cons c cs)
  have "raft_decode [] secret = Ok None" by (simp add: raft_decode_def auth_open_def)
  moreover have "concat (map (\<lambda>e. raft_encode e secret) es) = (buf @ c) @ concat cs" using Cons.prems(2) by simp
  ultimately obtain es1 es2 tail where p: "es = es1 @ es2" "buf @ c = concat (map (\<lambda>e. raft_encode e secret) es1) @ tail"
    "concat (map (\<lambda>e. raft_encode e secret) es2) = tail @ concat cs" "raft_decode tail secret = Ok None"
    using peer_frames.stream_prefix [OF Cons.prems(1)] by blast
  have "peer_drain secret (buf @ c) = (es1, Ok tail)" using Cons.prems(1) p by (simp add: peer_drain_frames)
  moreover have "peer_loop secret (map Ok cs) tail = (es2, Ok ())" using Cons.prems(1,4) p by (intro Cons.IH) simp_all
  moreover have "c \<noteq> []" using Cons.prems(4) by auto
  ultimately show ?case using p(1) by simp
qed

text \<open>A connection hands over the envelopes that were sent, in order, wherever the stream is cut.\<close>

lemma peer_connection_frames:
  "list_all envelope_ok es \<Longrightarrow> concat parts = concat (map (\<lambda>e. raft_encode e secret) es) \<Longrightarrow> [] \<notin> set parts \<Longrightarrow>
     peer_connection secret (map Ok parts) = (es, Ok ())"
  unfolding peer_connection_def by (rule peer_loop_frames) (simp_all add: raft_decode_def auth_open_def)

section \<open>Proposals of clients\<close>

definition CLIENT_STATUS_NOT_LEADER :: u8 where "CLIENT_STATUS_NOT_LEADER = 0"
definition CLIENT_STATUS_OK :: u8 where "CLIENT_STATUS_OK = 1"

primrec client_request :: "bytes result list \<Rightarrow> bytes \<Rightarrow> log_record option result" where
  "client_request [] buf = Ok None"
| "client_request (got # reads) buf =
     obind got (\<lambda>chunk.
     if chunk = [] then Ok None
     else obind (record_decode (buf @ chunk)) (\<lambda>found.
       case found of Some (cmd, _) \<Rightarrow> Ok (Some cmd) | None \<Rightarrow> client_request reads (buf @ chunk)))"

definition client_response :: "engine_answer option \<Rightarrow> bytes" where
  "client_response answer =
     (case answer of
        Some (Assigned index) \<Rightarrow> CLIENT_STATUS_OK # le_bytes 8 index
      | _ \<Rightarrow> CLIENT_STATUS_NOT_LEADER # replicate 8 0)"

text \<open>
  What is written to the client. The engine is what the message comes to when it is taken: nothing where the
  channel is closed, no answer where the channel of the answer is dropped.
\<close>

definition handle_client_connection :: "bytes result list \<Rightarrow> (engine_msg \<Rightarrow> engine_answer option option) \<Rightarrow> bytes result" where
  "handle_client_connection reads engine =
     obind (client_request reads []) (\<lambda>request.
     case request of
       None \<Rightarrow> Ok []
     | Some cmd \<Rightarrow>
         (case engine (Proposal cmd) of
            None \<Rightarrow> Ok []
          | Some answer \<Rightarrow> Ok (client_response answer)))"

definition propose_request :: "log_record \<Rightarrow> bytes" where
  "propose_request cmd = record_encode cmd"

definition propose_reply :: "bytes \<Rightarrow> nat result" where
  "propose_reply response =
     (if length response < 9 then Err (Io ''failed to fill whole buffer'')
      else if hd response \<noteq> CLIENT_STATUS_OK then Err (InvalidValue ''target node is not the Raft leader'')
      else Ok (le_val (take 8 (drop 1 response))))"

text \<open>The engine of a member that runs.\<close>

definition engine_of :: "raft_node \<Rightarrow> engine_msg \<Rightarrow> engine_answer option option" where
  "engine_of n msg =
     (case engine_event msg n of Ok (Some (_, _, answer)) \<Rightarrow> Some answer | Ok None \<Rightarrow> None | _ \<Rightarrow> Some None)"

text \<open>\<^verbatim>\<open>RaftNodeHandle::propose\<close> and \<^verbatim>\<open>status\<close>, from within the process.\<close>

definition handle_propose :: "(engine_msg \<Rightarrow> engine_answer option option) \<Rightarrow> log_record \<Rightarrow> nat result" where
  "handle_propose engine cmd =
     (case engine (Proposal cmd) of
        None \<Rightarrow> Err (InvalidValue ''Raft engine thread is gone'')
      | Some (Some (Assigned index)) \<Rightarrow> Ok index
      | Some (Some (Refused _)) \<Rightarrow> Err (InvalidValue ''this node is not the Raft leader'')
      | Some _ \<Rightarrow> Err (InvalidValue ''Raft engine thread dropped the propose response''))"

definition handle_status :: "(engine_msg \<Rightarrow> engine_answer option option) \<Rightarrow> (role \<times> nat) result" where
  "handle_status engine =
     (case engine Status of
        None \<Rightarrow> Err (InvalidValue ''Raft engine thread is gone'')
      | Some (Some (Reported r t)) \<Rightarrow> Ok (r, t)
      | Some _ \<Rightarrow> Err (InvalidValue ''Raft engine thread dropped the status response''))"

lemma client_request_record:
  "canonical_record cmd \<Longrightarrow> record_encode cmd = buf @ concat parts \<Longrightarrow> concat parts \<noteq> [] \<Longrightarrow> [] \<notin> set parts \<Longrightarrow>
     client_request (map Ok parts) buf = Ok (Some cmd)"
proof (induction parts arbitrary: buf)
  case (Cons c cs)
  have enc: "record_encode cmd = (buf @ c) @ concat cs" using Cons.prems(2) by simp
  show ?case
  proof (cases "concat cs = []")
    case True
    then have "buf @ c = record_encode cmd" using enc by (simp only: append_Nil2)
    then have "record_decode (buf @ c) = Ok (Some (cmd, length (record_encode cmd)))"
      using rec.dec_enc [OF Cons.prems(1), of "[]"] by simp
    then show ?thesis using Cons.prems(4) by auto
  next
    case False
    then have "length (buf @ c) < length (record_encode cmd)" using enc by simp
    moreover have "buf @ c = take (length (buf @ c)) (record_encode cmd)" using enc by simp
    ultimately have "record_decode (buf @ c) = Ok None" using rec.dec_prefix [OF Cons.prems(1)] by metis
    then show ?thesis using Cons.IH [OF Cons.prems(1) enc False] Cons.prems(4) by auto
  qed
qed simp

lemma omap_eq_Err [simp]: "omap f m = Err e \<longleftrightarrow> m = Err e"
  by (cases m) simp_all

lemma envelopes_for_no_error: "envelopes_for c ps \<noteq> Err e"
  by (induction ps) (auto simp: append_entries_for_def Let_def split: outcome.splits)

section \<open>Properties\<close>

text \<open>
  C2: the running members refine the cluster. Whatever members that crash, restart and exchange messages come to, crashes in the middle
  of saving, of sending and of applying included, is a state the cluster of cores can reach, and each member has on its disk the
  term, the vote and the log it acts on; so each term has one leader at most. Each round keeps within the widths of the state file.
\<close>

theorem members_refine_cluster:
  assumes "shells_reachable os lost timing M ps S" and "membership M ps"
  shows "(\<exists>timeout s. reachable M ps timeout (\<lambda>_. heartbeat_ticks timing) s \<and> sh_net S \<subseteq> net s \<and>
      (\<forall>i \<in> M. nd_core (sh_nodes S i) = nodes s i \<and> state_load_from (nd_dir (sh_nodes S i)) = Ok (persistent_state (nodes s i)))) \<and>
    (\<exists>l. {i \<in> M. leads_in (nd_core (sh_nodes S i)) t} \<subseteq> {l})"
proof -
  obtain timeout s where r: "reachable M ps timeout (\<lambda>_. heartbeat_ticks timing) s" and mir: "mirrors M S s"
    using shells_sim [OF assms] by blast
  have "i = j" if "i \<in> M" "j \<in> M" "leads_in (nd_core (sh_nodes S i)) t" "leads_in (nd_core (sh_nodes S j)) t" for i j
    using cluster_inv_one_leader [OF reachable_inv [OF r assms(2)]] mir that by (simp add: leads_in_def mirrors_def)
  then have "\<exists>l. {i \<in> M. leads_in (nd_core (sh_nodes S i)) t} \<subseteq> {l}" by blast
  moreover have "\<exists>timeout s. reachable M ps timeout (\<lambda>_. heartbeat_ticks timing) s \<and> sh_net S \<subseteq> net s \<and>
      (\<forall>i \<in> M. nd_core (sh_nodes S i) = nodes s i \<and> state_load_from (nd_dir (sh_nodes S i)) = Ok (persistent_state (nodes s i)))"
    using mir by (intro exI [of _ timeout] exI [of _ s] conjI r) (auto simp: mirrors_def saved_def)
  ultimately show ?thesis by blast
qed

section \<open>What the store of a member holds\<close>

lemma check_election_win_applied: "check_election_win c = Ok (c', msgs) \<Longrightarrow> last_applied c' = last_applied c"
  by (auto simp: check_election_win_def become_leader_def Let_def split: if_splits)

lemma start_election_applied: "start_election c = Ok (c', msgs) \<Longrightarrow> last_applied c' = last_applied c"
  by (auto simp: start_election_def reset_election_timer_def Let_def dest!: check_election_win_applied)

lemma tick_applied: "tick c = Ok (c', msgs) \<Longrightarrow> last_applied c' = last_applied c"
  by (auto simp: tick_def Let_def dest!: start_election_applied split: role.splits if_splits)

lemma propose_applied: "propose cmd c = Ok (c', i, msgs) \<Longrightarrow> last_applied c' = last_applied c"
  by (auto simp: propose_def advance_commit_index_def Let_def split: if_splits)

lemma receive_applied:
  assumes "receive e c = Ok (c', msgs)"
  shows "last_applied c' = last_applied c"
proof (cases "env_rpc e")
  case (RequestVoteResponse t ok voter)
  with assms show ?thesis
    by (auto simp: receive_def handle_vote_response_def dest!: check_election_win_applied split: if_splits)
qed (use assms in \<open>auto simp: receive_def handle_request_vote_def handle_append_entries_def handle_append_response_def
      advance_commit_index_def reset_election_timer_def Let_def split: if_splits\<close>)

lemma event_applied:
  assumes "engine_event msg n = Ok (Some (n1, outgoing, answer))"
  shows "last_applied (nd_core n1) = last_applied (nd_core n)"
  using assms by (cases msg)
    (auto simp: engine_event_def Let_def dest: receive_applied propose_applied tick_applied split: outcome.splits)

definition commands :: "raft_node \<Rightarrow> log_record list" where
  "commands n = map command (rlog (nd_core n))"

text \<open>The store holds what the entries applied since the member was started come to, over \<open>M\<close>, which it held then.\<close>

definition holds_over :: "nat \<Rightarrow> (tuid \<rightharpoonup> entity_header \<times> bytes) \<Rightarrow> raft_node \<Rightarrow> bool" where
  "holds_over os M n \<longleftrightarrow> (\<exists>N R. store_rep os (nd_store n) (replay (take (last_applied (nd_core n)) (commands n)) M) N R)"

lemma replay_covers:
  assumes "dom M \<subseteq> touched ` set rs"
  shows "replay rs M = replay rs Map.empty"
proof (rule ext)
  fix i
  show "replay rs M i = replay rs Map.empty i"
  proof (cases "find (\<lambda>r. touched r = i) (rev rs)")
    case None
    then have "i \<notin> touched ` set rs" by (auto simp: find_None_iff)
    then have "M i = None" using assms by blast
    then show ?thesis using None by (simp add: replay_at)
  qed (simp add: replay_at)
qed

lemma apply_entries_records:
  "apply_records os (map command es) s = Ok s' \<Longrightarrow> apply_entries os lost es s = Ok s'"
  by (induction es arbitrary: s) (auto simp: obind_eq_Ok apply_to_store_def)

lemma step_holds:
  assumes ev: "engine_event msg n = Ok (Some (n1, outgoing, answer))" and holds: "holds_over os M n"
    and kept: "take (last_applied (nd_core n)) (commands n1) = take (last_applied (nd_core n)) (commands n)"
    and bounds: "last_applied (nd_core n) \<le> commit_index (nd_core n1)" "commit_index (nd_core n1) \<le> length (commands n1)"
    and ok: "list_all storable (commands n1)"
    and roomy: "roomy os (drop (last_applied (nd_core n)) (take (commit_index (nd_core n1)) (commands n1))) (nd_store n)"
  shows "\<exists>s. engine_step os lost members msg n = Ok (Some (n1\<lparr> nd_core := (nd_core n1)\<lparr> last_applied := commit_index (nd_core n1) \<rparr>, nd_store := s \<rparr>,
      to_members members outgoing, answer)) \<and>
    holds_over os M (n1\<lparr> nd_core := (nd_core n1)\<lparr> last_applied := commit_index (nd_core n1) \<rparr>, nd_store := s \<rparr>)"
proof -
  let ?c = "nd_core n1" and ?lg = "commands n1"
  let ?a = "last_applied (nd_core n)" and ?m = "commit_index ?c"
  let ?es = "take (?m - ?a) (drop ?a (rlog ?c))"
  have a: "last_applied ?c = ?a" by (rule event_applied [OF ev])
  have es: "take_newly_committed ?c = Ok (?c\<lparr> last_applied := ?m \<rparr>, ?es)"
    using newly_committed [of ?c] bounds a by (simp add: commands_def)
  have cmds: "map command ?es = drop ?a (take ?m ?lg)" by (simp add: commands_def drop_take take_map drop_map)
  have split: "take ?m ?lg = take ?a ?lg @ drop ?a (take ?m ?lg)"
    using append_take_drop_id [of ?a "take ?m ?lg"] bounds(1) by (simp add: min_def)
  have st: "nd_store n1 = nd_store n" using event_dir [OF ev] by simp
  have "list_all storable (drop ?a (take ?m ?lg))" using ok by (auto simp: list_all_iff dest!: in_set_dropD in_set_takeD)
  moreover obtain N R where "store_rep os (nd_store n) (replay (take ?a ?lg) M) N R"
    using holds unfolding holds_over_def kept by blast
  ultimately obtain s N' R' where s: "apply_records os (drop ?a (take ?m ?lg)) (nd_store n) = Ok s"
    "store_rep os s (replay (drop ?a (take ?m ?lg)) (replay (take ?a ?lg) M)) N' R'" using apply_records_spec roomy by metis
  have "replay (drop ?a (take ?m ?lg)) (replay (take ?a ?lg) M) = replay (take ?m ?lg) M"
    unfolding replay_simps(3) [symmetric] using split by simp
  with s(2) have rep: "store_rep os s (replay (take ?m ?lg) M) N' R'" by simp
  have "apply_entries os lost ?es (nd_store n1) = Ok s" using s(1) by (intro apply_entries_records) (simp add: cmds st)
  with ev es rep show ?thesis
    by (intro exI [of _ s]) (auto simp: engine_step_def holds_over_def commands_def)
qed

lemma restart_holds:
  assumes "holds_over os M n" and "last_applied (nd_core n) = commit_index (nd_core n)" and "saved n" and "crash (nd_dir n) d"
    and "no_drift os (length (extents (st_data (nd_store n))))"
  shows "\<exists>n2. spawn os timing rnd i ps (Some (store_image (nd_store n))) d = Ok n2 \<and>
    commands n2 = commands n \<and> last_applied (nd_core n2) = 0 \<and> commit_index (nd_core n2) = 0 \<and>
    holds_over os (replay (take (commit_index (nd_core n)) (commands n)) M) n2 \<and>
    (\<forall>j. store_get (nd_store n2) j = store_get (nd_store n) j)"
proof -
  let ?M = "replay (take (commit_index (nd_core n)) (commands n)) M"
  obtain N R where rep: "store_rep os (nd_store n) ?M N R" using assms(1,2) by (auto simp: holds_over_def)
  from store_open_spec [OF rep assms(5)] obtain s where
    s: "store_open os (store_image (nd_store n)) True = Ok s" "store_rep os s ?M N R" by blast
  have "state_load_from d = Ok (persistent_state (nd_core n))" using crash_keeps [OF _ assms(4)] assms(3) by (simp add: saved_def)
  moreover have "store_get s j = store_get (nd_store n) j" for j using store_get_spec [OF s(2)] store_get_spec [OF rep] by simp
  ultimately show ?thesis using s
    by (auto simp: spawn_def spawn_store_def persistent_state_def raft_restore_def raft_new_def commands_def holds_over_def)
qed

text \<open>
  C4: the store of a member is its committed log. In any round that leaves the applied entries in the log, with a commit
  index that is not below them and not above the length of the log, and commands that fit the store, the store then holds what the
  committed entries come to over what it held when the member was started, which is nothing at the very first start. As soon as the committed entries are about every entity of
  those, the store is what the committed entries alone come to. A member whose process ends after saving, with a state and a store within the widths of their files, starts again with its log and
  the entities of its store, counts none as committed, and applies them from the first: where a shorter part of the log is committed so
  far, the store holds what that part comes to over the newer entities, an older state than before the restart; from where all the
  entries that were committed before are committed again on, the restart has left no trace.
\<close>

theorem store_is_committed_log:
  assumes "engine_event msg n = Ok (Some (n1, outgoing, answer))" and "holds_over os M n"
    and "take (last_applied (nd_core n)) (commands n1) = take (last_applied (nd_core n)) (commands n)"
    and "last_applied (nd_core n) \<le> commit_index (nd_core n1)" and "commit_index (nd_core n1) \<le> length (commands n1)"
    and "list_all storable (commands n1)"
    and "roomy os (drop (last_applied (nd_core n)) (take (commit_index (nd_core n1)) (commands n1))) (nd_store n)"
  shows "\<exists>n' committed N R. engine_step os lost members msg n = Ok (Some (n', to_members members outgoing, answer)) \<and>
    committed = take (commit_index (nd_core n1)) (commands n1) \<and> commands n' = commands n1 \<and>
    last_applied (nd_core n') = commit_index (nd_core n1) \<and> commit_index (nd_core n') = commit_index (nd_core n1) \<and>
    store_rep os (nd_store n') (replay committed M) N R \<and>
    (dom M \<subseteq> touched ` set committed \<longrightarrow> replay committed M = replay committed Map.empty) \<and>
    (\<forall>timing rnd i ps d. saved n \<longrightarrow> fits_state (nd_core n1) \<longrightarrow> crash (nd_dir n') d \<longrightarrow>
       no_drift os (length (extents (st_data (nd_store n')))) \<longrightarrow>
       (\<exists>n2. spawn os timing rnd i ps (Some (store_image (nd_store n'))) d = Ok n2 \<and>
          commands n2 = commands n1 \<and> last_applied (nd_core n2) = 0 \<and> commit_index (nd_core n2) = 0 \<and>
          holds_over os (replay committed M) n2 \<and> (\<forall>j. store_get (nd_store n2) j = store_get (nd_store n') j))) \<and>
    (\<forall>more. replay (committed @ more) (replay committed M) = replay (committed @ more) M)"
proof -
  let ?c = "nd_core n1" and ?cs = "take (commit_index (nd_core n1)) (commands n1)"
  from step_holds [OF assms] obtain s where
    s: "engine_step os lost members msg n = Ok (Some (n1\<lparr> nd_core := ?c\<lparr> last_applied := commit_index ?c \<rparr>, nd_store := s \<rparr>,
        to_members members outgoing, answer))"
      "holds_over os M (n1\<lparr> nd_core := ?c\<lparr> last_applied := commit_index ?c \<rparr>, nd_store := s \<rparr>)" by blast
  define n' where "n' = n1\<lparr> nd_core := ?c\<lparr> last_applied := commit_index ?c \<rparr>, nd_store := s \<rparr>"
  have n': "commands n' = commands n1" "last_applied (nd_core n') = commit_index ?c" "commit_index (nd_core n') = commit_index ?c"
    "nd_dir n' = nd_dir n1" "persistent_state (nd_core n') = persistent_state ?c"
    by (simp_all add: n'_def commands_def persistent_state_def)
  have holds: "holds_over os M n'" using s(2) by (simp add: n'_def)
  then obtain N R where rep: "store_rep os (nd_store n') (replay ?cs M) N R" by (auto simp: holds_over_def n'(1,2))
  have restart: "\<exists>n2. spawn os timing rnd i ps (Some (store_image (nd_store n'))) d = Ok n2 \<and>
      commands n2 = commands n1 \<and> last_applied (nd_core n2) = 0 \<and> commit_index (nd_core n2) = 0 \<and>
      holds_over os (replay ?cs M) n2 \<and> (\<forall>j. store_get (nd_store n2) j = store_get (nd_store n') j)"
    if "saved n" "fits_state ?c" "crash (nd_dir n') d" "no_drift os (length (extents (st_data (nd_store n'))))" for timing rnd i ps d
  proof -
    have "saved n'" using event_saved [OF that(1) assms(1) that(2)] n'(4,5) by (simp add: saved_def)
    from restart_holds [OF holds _ this that(3,4), where timing = timing and rnd = rnd and i = i and ps = ps] n' show ?thesis by simp
  qed
  show ?thesis
    using s(1) n'(1-3) rep restart replay_covers [of M ?cs] replay_again [of ?cs]
    by (intro exI [of _ n'] exI [of _ ?cs] exI [of _ N] exI [of _ R]) (simp add: n'_def [symmetric])
qed

text \<open>
  C6: a proposal over the network. The request of a client reaches the engine as the record it was made of, wherever the stream is cut;
  a leader takes it into its log and the client gets the position, any other member refuses it and the client gets an error.
\<close>

theorem remote_proposal:
  assumes "canonical_record cmd" and "concat parts = propose_request cmd" and "[] \<notin> set parts"
    and "length (rlog (nd_core n)) < u64_max" and "propose cmd (nd_core n) \<noteq> Panic"
  shows "\<exists>response. handle_client_connection (map Ok parts) (engine_of n) = Ok response \<and>
    propose_reply response =
      (if role (nd_core n) = Leader then Ok (length (rlog (nd_core n)) + 1) else Err (InvalidValue ''target node is not the Raft leader'')) \<and>
    (role (nd_core n) = Leader \<longrightarrow> (\<exists>n1 outgoing answer. engine_event (Proposal cmd) n = Ok (Some (n1, outgoing, answer)) \<and>
       rlog (nd_core n1) = rlog (nd_core n) @ [\<lparr> entry_term = current_term (nd_core n), command = cmd \<rparr>]))"
proof -
  have "record_encode cmd = [] @ concat parts" "concat parts \<noteq> []"
    using assms(2) rec.enc_nonempty [OF assms(1)] by (simp_all add: propose_request_def)
  from client_request_record [OF assms(1) this assms(3)] have req: "client_request (map Ok parts) [] = Ok (Some cmd)" .
  show ?thesis
  proof (cases "role (nd_core n) = Leader")
    case True
    obtain c index msgs where p: "propose cmd (nd_core n) = Ok (c, index, msgs)"
      using assms(5) True by (cases "propose cmd (nd_core n)") (auto simp: propose_def replicate_to_all_peers_def envelopes_for_no_error Let_def split: if_splits)
    have c: "index = length (rlog (nd_core n)) + 1" "rlog c = rlog (nd_core n) @ [\<lparr> entry_term = current_term (nd_core n), command = cmd \<rparr>]"
      using p True by (auto simp: propose_def my_last_log_index_def Let_def split: if_splits)
    have "propose_reply (client_response (Some (Assigned index))) = Ok index"
      using assms(4) c(1) by (simp add: propose_reply_def client_response_def le_val_le_bytes)
    then show ?thesis using req p c True by (simp add: handle_client_connection_def engine_of_def engine_event_def)
  next
    case False
    then have "propose cmd (nd_core n) = Err NotLeader" by (simp add: propose_def)
    then show ?thesis using req False
      by (simp add: handle_client_connection_def engine_of_def engine_event_def propose_reply_def client_response_def
          CLIENT_STATUS_NOT_LEADER_def CLIENT_STATUS_OK_def)
  qed
qed

text \<open>Both 1 and 2 stand for election, and 3 votes for 2.\<close>

definition vote_run :: "event list" where
  "vote_run = [Tick 2, Tick 1, Deliver 1]"

definition granted_vote :: envelope where
  "granted_vote = \<lparr> env_from = 3, env_to = 2, env_rpc = RequestVoteResponse 1 True 3 \<rparr>"

definition leads_after :: "envelope \<Rightarrow> raft_core \<Rightarrow> nat \<Rightarrow> bool" where
  "leads_after e c t = (case receive e c of Ok (c', msgs) \<Rightarrow> role c' = Leader \<and> current_term c' = t | _ \<Rightarrow> False)"

definition two_candidates :: "play_state \<Rightarrow> bool" where
  "two_candidates st =
     (granted_vote \<in> set (snd st) \<and> leads_after granted_vote (fst st 1) 1 \<and> leads_after granted_vote (fst st 2) 1)"

lemma vote_run_ok: "outcome_of vote_run two_candidates"
  by code_simp

text \<open>
  C7: a vote can be replayed to another candidate. Members do not look at whom a message is addressed to, and a vote does not say for
  whom it is: in a reachable state of three members there is a vote on its way to member 2, whose frame member 1 accepts as well, and
  which makes each of them the leader of term 1 when it receives it.
\<close>

theorem replayed_vote:
  "\<exists>s e. reachable three others one_tick one_tick s \<and> e \<in> net s \<and> env_to e = 2 \<and>
     peer_connection secret [Ok (raft_encode e secret)] = ([e], Ok ()) \<and>
     leads_after e (nodes s 1) 1 \<and> leads_after e (nodes s 2) 1"
proof -
  from vote_run_ok obtain N sent where p: "play vote_run start_nodes = Some (N, sent)" "play_within three vote_run start_nodes"
    "two_candidates (N, sent)" by (auto simp: outcome_of_def split: option.splits)
  have "\<exists>s'. reachable three others one_tick one_tick s' \<and> nodes s' = N \<and> set sent \<subseteq> net s'"
    using p(1,2) unfolding start_nodes_def by (rule play_reachable_from) (auto intro: start)
  then obtain s where s: "reachable three others one_tick one_tick s" "nodes s = N" "set sent \<subseteq> net s" by blast
  have "envelope_ok granted_vote" by (simp add: granted_vote_def envelope_ok_def envelope_payload_def MAX_FRAME_LEN_def)
  moreover from this have "raft_encode granted_vote secret \<noteq> []" by (rule peer_frames.enc_nonempty)
  ultimately have "peer_connection secret [Ok (raft_encode granted_vote secret)] = ([granted_vote], Ok ())"
    using peer_connection_frames [of "[granted_vote]" "[raft_encode granted_vote secret]" secret] by simp
  moreover have "env_to granted_vote = 2" by (simp add: granted_vote_def)
  ultimately show ?thesis using s p(3) by (auto simp: two_candidates_def)
qed

section \<open>Witnesses\<close>

definition quick :: raft_timing where
  "quick = \<lparr> heartbeat_ticks = 1, timeout_lo = 1, timeout_hi = 1 \<rparr>"

lemma fresh_member:
  "\<exists>s n. spawn 4096 quick 0 i (others i) None no_state = Ok n \<and> nd_core n = raft_new i (others i) 1 1 \<and> nd_store n = s \<and>
     nd_dir n = no_state \<and> store_rep 4096 s Map.empty Map.empty Map.empty \<and> store_room 4096 s"
proof -
  obtain s where s: "store_create 4096 = Ok s" "store_rep 4096 s Map.empty Map.empty Map.empty" "store_room 4096 s" using fresh_store by blast
  then show ?thesis
    by (simp add: spawn_def spawn_store_def quick_def jitter_def raft_restore_def raft_new_def)
qed

lemma others_one: "others 1 = [2, 3]"
  by (simp add: others_def)

definition candidate_one :: raft_core where
  "candidate_one = (case tick (raft_new 1 [2, 3] 1 1) of Ok (c, msgs) \<Rightarrow> c | _ \<Rightarrow> raft_new 1 [2, 3] 1 1)"

lemma candidate_one_tick:
  "\<exists>msgs. tick (raft_new 1 [2, 3] 1 1) = Ok (candidate_one, msgs)" "persistent_state candidate_one = (1, Some 1, [])"
  by (simp_all add: candidate_one_def tick_def start_election_def check_election_win_def raft_new_def wrap32_def wrap64_def
      reset_election_timer_def persistent_state_def Let_def)

text \<open>Member 1 crashes when it has saved that it stands for election and has sent nothing, and restarts with its vote.\<close>

lemma members_refine_cluster_witness:
  "\<exists>S. shells_reachable 4096 (\<lambda>_ s. s) quick three others S \<and> persistent_state (nd_core (sh_nodes S 1)) = (1, Some 1, []) \<and>
     role (nd_core (sh_nodes S 1)) = Follower \<and> (\<exists>l. {i \<in> three. leads_in (nd_core (sh_nodes S i)) 1} \<subseteq> {l})"
proof -
  obtain N where N: "\<forall>i. spawn 4096 quick 0 i (others i) None no_state = Ok (N i)" using fresh_member by metis
  let ?S = "\<lparr> sh_nodes = N, sh_net = {} \<rparr>"
  have r0: "shells_reachable 4096 (\<lambda>_ s. s) quick three others ?S"
    using first_start [of three 4096 quick "\<lambda>_. 0" others "\<lambda>_. None" N] N by blast
  have "spawn 4096 quick 0 1 (others 1) None no_state = Ok (N 1)" using N by blast
  with fresh_member [of 1] obtain n where n: "N 1 = n" "nd_core n = raft_new 1 [2, 3] 1 1" "nd_dir n = no_state"
    by (auto simp: others_one simp del: One_nat_def)
  obtain msgs where tk: "tick (nd_core n) = Ok (candidate_one, msgs)" using candidate_one_tick(1) n(2) by auto
  have p: "persistent_state candidate_one = (1, Some 1, [])" by (rule candidate_one_tick(2))
  then have vote: "voted_for candidate_one = Some 1" by (simp add: persistent_state_def)
  let ?n1 = "n\<lparr> nd_core := candidate_one, nd_dir := persist_state candidate_one no_state \<rparr>"
  have ev: "engine_event TimedOut n = Ok (Some (?n1, msgs, None))"
    using tk vote n(2,3) by (auto simp: engine_event_def Let_def raft_new_def)
  have fits: "fits_state candidate_one" by (simp add: fits_state_def p state_ok_def)
  have pt: "crash_point (others 1) TimedOut n (nd_dir ?n1) {}" using sending [OF ev] fits by simp
  have "settled (nd_dir ?n1)" and ld: "state_load_from (nd_dir ?n1) = Ok (1, Some 1, [])"
    using persist_saved [OF fits, of no_state] by (simp_all add: p)
  moreover obtain d where d: "crash (nd_dir ?n1) d" by (meson crash.intros)
  ultimately have ld': "state_load_from d = Ok (1, Some 1, [])" using crash_keeps by metis
  obtain st where "store_create 4096 = Ok st" using fresh_store by blast
  then obtain n' where n': "spawn 4096 quick 0 1 (others 1) None d = Ok n'" "nd_core n' = raft_restore 1 (others 1) 1 1 1 (Some 1) []"
    using ld' by (simp add: spawn_def spawn_store_def quick_def jitter_def)
  have "shell_step 4096 (\<lambda>_ s. s) quick three others ?S \<lparr> sh_nodes = (sh_nodes ?S)(1 := n'), sh_net = sh_net ?S \<union> {} \<rparr>"
    by (rule crashes [where msg = TimedOut and d = "nd_dir ?n1" and d' = d and files = None and rnd = 0])
      (use n pt d n'(1) in \<open>simp_all add: three_def heard_def raft_new_def\<close>)
  with r0 have r: "shells_reachable 4096 (\<lambda>_ s. s) quick three others \<lparr> sh_nodes = (sh_nodes ?S)(1 := n'), sh_net = sh_net ?S \<union> {} \<rparr>"
    by (rule shell_steps)
  from members_refine_cluster [OF this membership_three, of 1] r n'(2) show ?thesis
    by (intro exI [of _ "\<lparr> sh_nodes = (sh_nodes ?S)(1 := n'), sh_net = sh_net ?S \<union> {} \<rparr>"])
      (simp add: persistent_state_def raft_restore_def raft_new_def)
qed

text \<open>A member on its own, which has elected itself.\<close>

definition solo_leader :: raft_core where
  "solo_leader = (raft_new 1 [] 1 1)\<lparr> current_term := 1, voted_for := Some 1, votes_received := {1}, role := Leader \<rparr>"

lemma solo_leader_elected: "tick (raft_new 1 [] 1 1) = Ok (solo_leader, [])"
  by (simp add: solo_leader_def tick_def start_election_def check_election_win_def become_leader_def replicate_to_all_peers_def raft_new_def
      wrap32_def wrap64_def reset_election_timer_def my_last_log_index_def Let_def)

definition solo_node :: "store \<Rightarrow> raft_node" where
  "solo_node s = \<lparr> nd_core = solo_leader, nd_store = s, nd_dir = no_state \<rparr>"

definition solo_after :: "log_record \<Rightarrow> raft_core" where
  "solo_after cmd = solo_leader\<lparr> rlog := [\<lparr> entry_term = 1, command = cmd \<rparr>], commit_index := 1 \<rparr>"

lemma solo_propose: "propose cmd solo_leader = Ok (solo_after cmd, 1, [])"
  by (simp add: solo_leader_def solo_after_def propose_def raft_new_def advance_commit_index_def match_indices_def commit_candidate_def
      my_last_log_index_def log_term_at_def term_at_def get_opt_def Let_def)

lemma remote_proposal_witness:
  "\<exists>s response. store_create 4096 = Ok s \<and>
     handle_client_connection (map Ok [take 7 (propose_request cmd_a), drop 7 (propose_request cmd_a)]) (engine_of (solo_node s)) = Ok response \<and>
     propose_reply response = Ok 1"
proof -
  obtain s where s: "store_create 4096 = Ok s" using fresh_store by blast
  have can: "canonical_record cmd_a" by (simp add: cmd_a_def canonical_Delete_NIL)
  have "length (propose_request cmd_a) = 29" by (simp add: propose_request_def cmd_a_def record_encode_def NIL_def TUID_LEN_def)
  then have ne: "[] \<notin> set [take 7 (propose_request cmd_a), drop 7 (propose_request cmd_a)]"
    by (auto dest: sym [of "[]"])
  have len: "length (rlog (nd_core (solo_node s))) < u64_max" and ok: "propose cmd_a (nd_core (solo_node s)) \<noteq> Panic"
    by (simp_all add: solo_node_def solo_propose) (simp add: solo_leader_def raft_new_def)
  have "concat [take 7 (propose_request cmd_a), drop 7 (propose_request cmd_a)] = propose_request cmd_a" by simp
  from remote_proposal [OF can this ne len ok] s show ?thesis
    by (auto simp: solo_node_def solo_leader_def raft_new_def)
qed

lemma store_is_committed_log_witness:
  "\<exists>s n' out answer. store_create 4096 = Ok s \<and>
     engine_step 4096 (\<lambda>_ s. s) [] (Proposal (Insert (placed sample_header [1, 2, 3]) [1, 2, 3])) (solo_node s) = Ok (Some (n', out, answer)) \<and>
     store_get (nd_store n') (hdr_id sample_header) = Ok (Some (placed sample_header [1, 2, 3], [1, 2, 3]))"
proof -
  let ?r = "Insert (placed sample_header [1, 2, 3]) [1, 2, 3]"
  obtain s where s: "store_create 4096 = Ok s" "store_rep 4096 s Map.empty Map.empty Map.empty" "store_room 4096 s" using fresh_store by blast
  have st: "storable ?r" using placed_storable(1) [OF sample_header_wf(1), of "[1, 2, 3]"] sample_fits by simp
  obtain s1 where "apply_record 4096 ?r s = Ok s1" using apply_record_spec [OF s(2) st s(3)] by blast
  then have roomy: "roomy 4096 [?r] s" using s(3) by simp
  let ?n1 = "(solo_node s)\<lparr> nd_core := solo_after ?r, nd_dir := persist_state (solo_after ?r) no_state \<rparr>"
  have ev: "engine_event (Proposal ?r) (solo_node s) = Ok (Some (?n1, [], Some (Assigned 1)))"
    using solo_propose [of ?r] by (simp add: engine_event_def solo_node_def)
  have core: "last_applied (nd_core (solo_node s)) = 0" "commit_index (nd_core ?n1) = 1" "commands ?n1 = [?r]"
    by (simp_all add: solo_after_def solo_leader_def solo_node_def raft_new_def commands_def)
  have holds: "holds_over 4096 Map.empty (solo_node s)"
    using s(2) core(1) by (auto simp: holds_over_def) (auto simp: solo_node_def)
  have "take (last_applied (nd_core (solo_node s))) (commands ?n1) = take (last_applied (nd_core (solo_node s))) (commands (solo_node s))"
    "last_applied (nd_core (solo_node s)) \<le> commit_index (nd_core ?n1)" "commit_index (nd_core ?n1) \<le> length (commands ?n1)"
    "list_all storable (commands ?n1)"
    "roomy 4096 (drop (last_applied (nd_core (solo_node s))) (take (commit_index (nd_core ?n1)) (commands ?n1))) (nd_store (solo_node s))"
    using st roomy unfolding core by (simp_all add: solo_node_def)
  from store_is_committed_log [OF ev holds this, where lost = "\<lambda>_ s. s" and members = "[]"] core(2,3) obtain n' N R where
    n': "engine_step 4096 (\<lambda>_ s. s) [] (Proposal ?r) (solo_node s) = Ok (Some (n', to_members [] [], Some (Assigned 1)))"
    "store_rep 4096 (nd_store n') (replay [?r] Map.empty) N R" by (elim exE conjE) (rule that, simp_all)
  then have "store_get (nd_store n') (hdr_id sample_header) = Ok (replay [?r] Map.empty (hdr_id sample_header))" by (intro store_get_spec)
  moreover have "hdr_id (placed sample_header [1, 2, 3]) = hdr_id sample_header" by (simp add: placed_def truncate_texts_def)
  moreover have "placed (placed sample_header [1, 2, 3]) [1, 2, 3] = placed sample_header [1, 2, 3]"
    using placed_storable(2) [OF sample_header_wf(1), of "[1, 2, 3]"] sample_fits by simp
  ultimately have "store_get (nd_store n') (hdr_id sample_header) = Ok (Some (placed sample_header [1, 2, 3], [1, 2, 3]))" by simp
  then show ?thesis using s(1) n'(1) by blast
qed

end
