(* ===== verification/Gems_Mcp.thy ===== *)
theory Gems_Mcp
  imports Gems_Web
begin

text \<open>
  The server of the model context protocol, \<^verbatim>\<open>gems-mcp/src/main.rs\<close>, \<^verbatim>\<open>protocol.rs\<close> and
  \<^verbatim>\<open>tools.rs\<close>: one request on each line of the input, one response on a line of the output. A tool is a function
  of the environment of \<^verbatim>\<open>Gems_Web_Api\<close>, of its arguments and of the authentication mode; \<^verbatim>\<open>entity_summary\<close> of
  \<^verbatim>\<open>tools.rs\<close> is the same function as the one of the web server. The texts of the errors that other crates display are
  a parameter \<open>show\<close>. Every response is a JSON value on one line that carries the identifier of its request, and reads are enforced.
\<close>

section \<open>Tools\<close>

definition arg_str :: "json \<Rightarrow> bytes \<Rightarrow> bytes option" where
  "arg_str args key = Option.bind (json_get args key) as_str"

definition tool_open :: "web_env \<Rightarrow> json \<Rightarrow> store tool" where
  "tool_open env args =
     obind (required (ascii ''store_dir is required'') (arg_str args (ascii ''store_dir''))) (\<lambda>dir.
     telling OfStore (obind (env_dirs env dir) (\<lambda>files. store_open (env_os env) files False)))"

definition tool_authorize :: "web_env \<Rightarrow> json \<Rightarrow> auth_mode \<Rightarrow> subject_context option tool" where
  "tool_authorize env args auth = telling OfToken (authorize auth (arg_str args (ascii ''auth_token'')) (env_now env))"

primrec tool_summaries :: "store \<Rightarrow> tuid list \<Rightarrow> json list result" where
  "tool_summaries s [] = Ok []"
| "tool_summaries s (i # ids) =
     obind (store_get s i) (\<lambda>found.
     omap (\<lambda>vs. case found of Some (header, _) \<Rightarrow> entity_summary header # vs | None \<Rightarrow> vs) (tool_summaries s ids))"

definition tool_query :: "web_env \<Rightarrow> json \<Rightarrow> auth_mode \<Rightarrow> json tool" where
  "tool_query env args auth =
     obind (tool_authorize env args auth) (\<lambda>subject.
     obind (tool_open env args) (\<lambda>s.
     obind (required (ascii ''query is required'') (arg_str args (ascii ''query''))) (\<lambda>query_str.
     obind (telling OfQuery (parse (env_classes env) query_str)) (\<lambda>q.
     telling OfStore
       (case subject of
          Some ctx \<Rightarrow> omap (\<lambda>es. JArray (map (\<lambda>(header, _). entity_summary header) es)) (query_enforced s q ctx)
        | None \<Rightarrow> obind (store_query s q) (\<lambda>ids. omap JArray (tool_summaries s ids)))))))"

text \<open>\<^verbatim>\<open>Tuid::from_hex_str(s).ok_or(...)\<close>, which can panic.\<close>

definition tool_id :: "bytes \<Rightarrow> tuid tool" where
  "tool_id s =
     obind (telling (\<lambda>_. Note []) (from_hex_str s)) (required (ascii ''invalid id: must be 48 hex characters''))"

definition tool_view :: "entity_header \<Rightarrow> bytes \<Rightarrow> json result" where
  "tool_view header body =
     (if hdr_kind header = Data then
        (case reader_new body of
           Ok r \<Rightarrow>
             omap (\<lambda>fs. json_build (summary_fields header @ [(ascii ''fields'', json_build fs)]))
               (obind (key_ids r) (string_fields r))
         | Err _ \<Rightarrow> Ok (entity_summary header)
         | Panic \<Rightarrow> Panic)
      else Ok (entity_summary header))"

definition tool_get_entity :: "web_env \<Rightarrow> json \<Rightarrow> auth_mode \<Rightarrow> json tool" where
  "tool_get_entity env args auth =
     obind (tool_authorize env args auth) (\<lambda>subject.
     obind (tool_open env args) (\<lambda>s.
     obind (required (ascii ''id is required'') (arg_str args (ascii ''id''))) (\<lambda>id_hex.
     obind (tool_id id_hex) (\<lambda>i.
     obind (telling OfStore (case subject of Some ctx \<Rightarrow> get_enforced s i ctx | None \<Rightarrow> store_get s i)) (\<lambda>found.
     case found of
       None \<Rightarrow> Err (Note (ascii ''no such entity (or not visible to this subject)''))
     | Some (header, body) \<Rightarrow> telling OfStore (tool_view header body))))))"

definition tool_list_types :: "web_env \<Rightarrow> json \<Rightarrow> auth_mode \<Rightarrow> json tool" where
  "tool_list_types env args auth =
     obind (tool_authorize env args auth) (\<lambda>_.
     obind (tool_open env args) (\<lambda>s.
     telling OfStore (obind (query_by_kind s EntityType) (\<lambda>ids. omap JArray (tool_summaries s ids)))))"

section \<open>The protocol\<close>

definition PARSE_ERROR :: int where "PARSE_ERROR = - 32700"
definition METHOD_NOT_FOUND :: int where "METHOD_NOT_FOUND = - 32601"
definition INVALID_PARAMS :: int where "INVALID_PARAMS = - 32602"

definition str :: "string \<Rightarrow> json" where
  "str s = JString (ascii s)"

definition success_response :: "json \<Rightarrow> json \<Rightarrow> json" where
  "success_response i r = json_build [(ascii ''jsonrpc'', str ''2.0''), (ascii ''id'', i), (ascii ''result'', r)]"

definition error_response :: "json \<Rightarrow> int \<Rightarrow> bytes \<Rightarrow> json" where
  "error_response i code message =
     json_build [(ascii ''jsonrpc'', str ''2.0''), (ascii ''id'', i),
       (ascii ''error'', json_build [(ascii ''code'', json_of_i64 code), (ascii ''message'', JString message)])]"

definition initialize_result :: json where
  "initialize_result =
     json_build [(ascii ''protocolVersion'', str ''2024-11-05''),
       (ascii ''capabilities'', json_build [(ascii ''tools'', json_object)]),
       (ascii ''serverInfo'', json_build [(ascii ''name'', str ''gems-mcp''), (ascii ''version'', str ''0.1.0'')])]"

definition tool_schema :: "string \<Rightarrow> string \<Rightarrow> json \<Rightarrow> string list \<Rightarrow> json" where
  "tool_schema name desc properties required_keys =
     json_build [(ascii ''name'', str name), (ascii ''description'', str desc),
       (ascii ''inputSchema'', json_build [(ascii ''type'', str ''object''), (ascii ''properties'', properties),
          (ascii ''required'', json_of_list str required_keys)])]"

definition string_prop :: "string \<Rightarrow> json" where
  "string_prop desc = json_build [(ascii ''type'', str ''string''), (ascii ''description'', str desc)]"

definition auth_token_prop :: json where
  "auth_token_prop = string_prop
     ''Bearer-style access token from gems-abac::token::issue. Required unless the server is running in --insecure mode.''"

definition tools_list_result :: json where
  "tools_list_result =
     (let store_dir = string_prop ''Path to the store directory'' in
      json_build [(ascii ''tools'', JArray
        [tool_schema ''query'' ''Run a SQL-subset query against an entity store''
           (json_build [(ascii ''store_dir'', store_dir),
              (ascii ''query'', string_prop ''A SELECT ... FROM entities ... query string''), (ascii ''auth_token'', auth_token_prop)])
           [''store_dir'', ''query''],
         tool_schema ''get_entity'' ''Fetch one entity by id''
           (json_build [(ascii ''store_dir'', store_dir),
              (ascii ''id'', string_prop ''Entity id, as 48 hex characters''), (ascii ''auth_token'', auth_token_prop)])
           [''store_dir'', ''id''],
         tool_schema ''list_entity_types'' ''List every EntityType defined in a store''
           (json_build [(ascii ''store_dir'', store_dir), (ascii ''auth_token'', auth_token_prop)])
           [''store_dir'']])])"

definition call_tool :: "web_env \<Rightarrow> bytes option \<Rightarrow> json \<Rightarrow> auth_mode \<Rightarrow> json tool" where
  "call_tool env name args auth =
     (case name of
        Some n \<Rightarrow>
          if n = ascii ''query'' then tool_query env args auth
          else if n = ascii ''get_entity'' then tool_get_entity env args auth
          else if n = ascii ''list_entity_types'' then tool_list_types env args auth
          else Err (Note (ascii ''unknown tool: '' @ n))
      | None \<Rightarrow> Err (Note (ascii ''tools/call requires a tool name'')))"

definition message_text :: "(web_message \<Rightarrow> bytes) \<Rightarrow> web_message \<Rightarrow> bytes" where
  "message_text show m = (case m of Note s \<Rightarrow> s | _ \<Rightarrow> show m)"

definition text_block :: "bytes \<Rightarrow> json" where
  "text_block t = json_build [(ascii ''type'', str ''text''), (ascii ''text'', JString t)]"

definition handle_tools_call :: "(web_message \<Rightarrow> bytes) \<Rightarrow> web_env \<Rightarrow> json \<Rightarrow> auth_mode \<Rightarrow> (unit, json) outcome" where
  "handle_tools_call show env params auth =
     (let name = arg_str params (ascii ''name'');
          args = (case json_get params (ascii ''arguments'') of Some a \<Rightarrow> a | None \<Rightarrow> json_object) in
      case call_tool env name args auth of
        Ok v \<Rightarrow> Ok (json_build [(ascii ''content'', JArray [text_block (json_text v)])])
      | Err m \<Rightarrow> Ok (json_build [(ascii ''content'', JArray [text_block (message_text show m)]), (ascii ''isError'', JBool True)])
      | Panic \<Rightarrow> Panic)"

definition dispatch :: "(web_message \<Rightarrow> bytes) \<Rightarrow> web_env \<Rightarrow> bytes \<Rightarrow> auth_mode \<Rightarrow> (unit, bytes option) outcome" where
  "dispatch show env line auth =
     (case json_parse line of
        Err e \<Rightarrow> Ok (Some (json_text (error_response JNull PARSE_ERROR (show (OfBody (BodyNotJson e))))))
      | Panic \<Rightarrow> Panic
      | Ok request \<Rightarrow>
          let method = (case arg_str request (ascii ''method'') of Some m \<Rightarrow> m | None \<Rightarrow> []) in
          (case json_get request (ascii ''id'') of
             None \<Rightarrow> Ok None
           | Some i \<Rightarrow>
               omap (\<lambda>response. Some (json_text response))
                 (if method = ascii ''initialize'' then Ok (success_response i initialize_result)
                  else if method = ascii ''tools/list'' then Ok (success_response i tools_list_result)
                  else if method = ascii ''tools/call'' then
                    (case json_get request (ascii ''params'') of
                       Some params \<Rightarrow> omap (success_response i) (handle_tools_call show env params auth)
                     | None \<Rightarrow> Ok (error_response i INVALID_PARAMS (ascii ''tools/call requires params'')))
                  else Ok (error_response i METHOD_NOT_FOUND (ascii ''unknown method: '' @ method)))))"

section \<open>The loop over the input\<close>

definition MAX_REQUEST_LEN :: nat where "MAX_REQUEST_LEN = 16 * 1024 * 1024"

text \<open>
  What is written before the input ends, a line is too long, or a request panics; \<open>envs n\<close> is the
  environment at the time of line \<open>n\<close>.
\<close>

function mcp_loop :: "(web_message \<Rightarrow> bytes) \<Rightarrow> (nat \<Rightarrow> web_env) \<Rightarrow> auth_mode \<Rightarrow> nat \<Rightarrow> bytes \<Rightarrow> bytes \<times> (unit, unit) outcome" where
  "mcp_loop show envs auth n input =
     (let buf = upto_newline (take MAX_REQUEST_LEN input); rest = drop (length buf) input in
      if buf = [] then ([], Ok ())
      else if MAX_REQUEST_LEN \<le> length buf \<and> last buf \<noteq> 10 then ([], Ok ())
      else if \<not> utf8_valid buf \<or> trim buf = [] then mcp_loop show envs auth (n + 1) rest
      else case dispatch show (envs n) buf auth of
             Panic \<Rightarrow> ([], Panic)
           | Err e \<Rightarrow> ([], Err e)
           | Ok None \<Rightarrow> mcp_loop show envs auth (n + 1) rest
           | Ok (Some response) \<Rightarrow>
               (case mcp_loop show envs auth (n + 1) rest of (out, ending) \<Rightarrow> (response @ 10 # out, ending)))"
  by pat_completeness auto
termination
proof (relation "measure (\<lambda>(show, envs, auth, n, input). length input)")
qed (auto simp: length_greater_0_conv [symmetric] simp del: length_greater_0_conv intro!: diff_less)

declare mcp_loop.simps [simp del]

section \<open>Texts\<close>

lemma step_char: "utf8_step bs = (True, n) \<Longrightarrow> bs \<noteq> [] \<Longrightarrow> utf8_valid (take n bs)"
proof -
  assume s: "utf8_step bs = (True, n)" "bs \<noteq> []"
  have n: "0 < n" "n \<le> length bs" using utf8_step_pos [OF s(1)] utf8_step_le [OF s(2,1)] by simp_all
  have "utf8_step (take n bs) = (True, n)" by (rule utf8_step_take [OF s(1) order_refl s(2)])
  then show ?thesis using n s(2) by (simp add: utf8_valid.simps [of "take n bs"])
qed

lemma replacement_valid: "utf8_valid [0xEF, 0xBF, 0xBD]"
  by code_simp

lemma lossy_is_valid: "utf8_valid (from_utf8_lossy bs)"
proof (induction bs rule: from_utf8_lossy.induct)
  case (1 bs)
  show ?case
  proof (cases "bs = []")
    case False
    obtain v n where s: "utf8_step bs = (v, n)" by fastforce
    have "utf8_valid (if v then take n bs else [0xEF, 0xBF, 0xBD])" using step_char [of bs n] s False replacement_valid by auto
    moreover have "utf8_valid (from_utf8_lossy (drop n bs))" using "1.IH" False s by simp
    ultimately show ?thesis using False s by (subst from_utf8_lossy.simps) (simp add: valid_append)
  qed (simp add: from_utf8_lossy.simps)
qed

lemma ascii_valid: "list_all (\<lambda>c. (of_char c :: nat) < 128) t \<Longrightarrow> utf8_valid (ascii t)"
proof -
  assume "list_all (\<lambda>c. (of_char c :: nat) < 128) t"
  then have "list_all (\<lambda>b. unat b < 128) (ascii t)"
    by (auto simp: ascii_def list_all_iff unat_of_nat take_bit_eq_mod)
  then show ?thesis using chars_ascii_list by blast
qed

lemma char_newline: "is_char c \<Longrightarrow> 10 \<in> set c \<Longrightarrow> c = [10]"
proof -
  assume c: "is_char c" "10 \<in> set c"
  then obtain i where i: "i < length c" "c ! i = 10" by (auto simp: in_set_conv_nth)
  have s: "utf8_step c = (True, length c)" "c \<noteq> []" using c by (simp_all add: is_char_def)
  have "\<not> is_cont 10" by code_simp
  then have "i = 0" using utf8_step_conts [OF s(1), of i] i by (cases i) auto
  then have "byte_or_zero c 0 = 10" using i by (simp add: byte_or_zero_def)
  then have "snd (utf8_step c) = 1" by (simp add: utf8_step_def utf8_width_def Let_def)
  then have "length c = 1" using s by simp
  then show ?thesis using i \<open>i = 0\<close> by (cases c) auto
qed

lemma digit_newline: "list_all digit_byte t \<Longrightarrow> 10 \<notin> set t"
  by (auto simp: list_all_iff digit_byte_def)

lemma write_char_newline: "is_char c \<Longrightarrow> 10 \<notin> set (write_char c)"
proof (cases c rule: write_char_cases)
  case (control b)
  have "list_all (\<lambda>n. hex_char n \<noteq> 10) [0..<16]" by code_simp
  then have "hex_char n \<noteq> 10" if "n < 16" for n using that by (auto simp: list_all_iff)
  moreover have "unat b div 16 < 16" "unat b mod 16 < 16" using unat_u8_less [of b] by auto
  ultimately show ?thesis using control by (simp add: hex2_def)
next
  case plain
  assume "is_char c"
  moreover have "c \<noteq> [10]" using plain(3) by (auto simp: write_char_def)
  ultimately show ?thesis using plain char_newline by auto
qed simp_all

lemma string_newline: "utf8_valid t \<Longrightarrow> 10 \<notin> set (write_json_string t)"
  using chars_chars write_char_newline by (auto simp: write_json_string_def)

lemma number_newline: "number_ok n \<Longrightarrow> 10 \<notin> set (write_number n)"
proof -
  assume "number_ok n"
  then obtain m k where w: "write_number n = sign_text (negative (plain_number n)) @ show_decimal (m, k)"
    using write_number_decimal by blast
  have "10 \<notin> set (show_nat j)" for j using digit_newline show_nat_digits [of j] by blast
  moreover have "10 \<notin> set (pad_digits j i)" for j i using digit_newline pad_digits_facts [of j i] by blast
  ultimately show ?thesis by (auto simp: w sign_text_def show_decimal_def)
qed

lemma commas_newline: "\<forall>t \<in> set ts. 10 \<notin> set t \<Longrightarrow> 10 \<notin> set (commas ts)"
  by (induction ts rule: commas.induct) auto

text \<open>A value is written on one line.\<close>

lemma json_newline: "json_wf number_ok d v \<Longrightarrow> 10 \<notin> set (json_text v)"
proof (induction v arbitrary: d rule: json_text.induct)
  case (5 items)
  then have "10 \<notin> set (commas (map json_text items))" by (intro commas_newline) auto
  then show ?case by simp
next
  case (6 es)
  have "10 \<notin> set (entry_text e)" if "e \<in> set es" for e
    using 6(1) [OF that, of "d - 1"] 6(2) that string_newline by auto
  then have "10 \<notin> set (commas (map entry_text es))" by (intro commas_newline) auto
  then show ?case by simp
qed (auto simp: literal_bytes string_newline number_newline)

section \<open>What is written is JSON\<close>

lemma entry_set_subset: "set (entry_set es k v) \<subseteq> insert (k, v) (set es)"
  by (induction es) auto

lemma build_wf:
  "0 < d \<Longrightarrow> \<forall>e \<in> set kvs. utf8_valid (fst e) \<and> json_wf N (d - 1) (snd e) \<Longrightarrow> json_wf N d (json_build kvs)"
proof -
  assume d: "0 < d" and kvs: "\<forall>e \<in> set kvs. utf8_valid (fst e) \<and> json_wf N (d - 1) (snd e)"
  have "set (fold (\<lambda>(k, v) es. entry_set es k v) kvs es) \<subseteq> set kvs \<union> set es" for es
  proof (induction kvs arbitrary: es)
    case (Cons e kvs)
    obtain k v where e: "e = (k, v)" by (cases e)
    show ?case using Cons.IH [of "entry_set es k v"] entry_set_subset [of es k v] by (auto simp: e)
  qed simp
  from this [of "[]"] d kvs show ?thesis by (force simp: json_build_def)
qed

lemma str_wf: "list_all (\<lambda>c. (of_char c :: nat) < 128) t \<Longrightarrow> json_wf N d (str t)"
  by (simp add: str_def ascii_valid)

lemma code_ok:
  "json_wf number_ok d (json_of_i64 PARSE_ERROR)" "json_wf number_ok d (json_of_i64 METHOD_NOT_FOUND)" "json_wf number_ok d (json_of_i64 INVALID_PARAMS)"
proof -
  have "number_ok (Signed True (round_f64 n 1))" if "n \<le> 2 ^ 53" for n
    using natural_value [OF that] by (auto simp: number_ok_def)
  then show "json_wf number_ok d (json_of_i64 PARSE_ERROR)" "json_wf number_ok d (json_of_i64 METHOD_NOT_FOUND)"
    "json_wf number_ok d (json_of_i64 INVALID_PARAMS)"
    by (simp_all add: json_of_i64_def PARSE_ERROR_def METHOD_NOT_FOUND_def INVALID_PARAMS_def)
qed

lemma success_wf: "json_wf number_ok 63 i \<Longrightarrow> json_wf number_ok 63 r \<Longrightarrow> json_wf number_ok 64 (success_response i r)"
  unfolding success_response_def by (rule build_wf) (auto simp: ascii_valid str_wf)

lemma error_wf:
  "json_wf number_ok 63 i \<Longrightarrow> json_wf number_ok 62 (json_of_i64 code) \<Longrightarrow> utf8_valid message \<Longrightarrow>
     json_wf number_ok 64 (error_response i code message)"
  unfolding error_response_def by (rule build_wf) (auto simp: ascii_valid str_wf intro!: build_wf)

lemma schema_wf:
  assumes "list_all (\<lambda>c. (of_char c :: nat) < 128) name" and "list_all (\<lambda>c. (of_char c :: nat) < 128) desc"
    and "json_wf number_ok 59 properties" and "\<forall>k \<in> set keys. list_all (\<lambda>c. (of_char c :: nat) < 128) k"
  shows "json_wf number_ok 61 (tool_schema name desc properties keys)"
  unfolding tool_schema_def json_of_list_def using assms by (intro build_wf) (auto simp: ascii_valid str_wf intro!: build_wf)

lemma fixed_results_wf: "json_wf number_ok 63 initialize_result" "json_wf number_ok 63 tools_list_result"
proof -
  show "json_wf number_ok 63 initialize_result"
    unfolding initialize_result_def json_object_def
    by (rule build_wf) (auto simp: ascii_valid str_wf intro!: build_wf)
  have p: "json_wf number_ok 58 (string_prop ''Path to the store directory'')" "json_wf number_ok 58 auth_token_prop"
    "json_wf number_ok 58 (string_prop ''A SELECT ... FROM entities ... query string'')"
    "json_wf number_ok 58 (string_prop ''Entity id, as 48 hex characters'')"
    unfolding auth_token_prop_def string_prop_def by (rule build_wf; auto simp: ascii_valid str_wf)+
  show "json_wf number_ok 63 tools_list_result"
    unfolding tools_list_result_def Let_def
    by (rule build_wf) (use p in \<open>auto simp: ascii_valid intro!: schema_wf build_wf\<close>)
qed

text \<open>What tools return, and their messages.\<close>

definition named :: "entity_header \<Rightarrow> bool" where
  "named h \<longleftrightarrow> utf8_valid (hdr_name h) \<and> utf8_valid (description h)"

lemma decoded_named: "header_decode blob = Ok h \<Longrightarrow> named h"
  by (auto simp: header_decode_def named_def obind_eq_Ok Let_def lossy_is_valid split: if_splits)

lemma stored_named: "store_get s i = Ok (Some (h, body)) \<Longrightarrow> named h"
  by (auto simp: store_get_def read_at_def obind_eq_Ok Let_def decoded_named split: option.splits if_splits)

lemma enforced_named: "enforce ps ctx es = Ok ys \<Longrightarrow> \<forall>e \<in> set es. named (fst e) \<Longrightarrow> \<forall>y \<in> set ys. named (fst y)"
proof
  fix y assume e: "enforce ps ctx es = Ok ys" "\<forall>e \<in> set es. named (fst e)" and y: "y \<in> set ys"
  have "fst y \<in> set (map fst ys)" using y by simp
  then show "named (fst y)" unfolding enforce_headers [OF e(1)] using e(2) by auto
qed

lemma fetched_named: "fetch_entities s ids = Ok es \<Longrightarrow> \<forall>e \<in> set es. named (fst e)"
proof (induction ids arbitrary: es)
  case (Cons i ids)
  then obtain found fs where f: "store_get s i = Ok found" "fetch_entities s ids = Ok fs"
    "es = (case found of Some pair \<Rightarrow> pair # fs | None \<Rightarrow> fs)" by (auto simp: obind_eq_Ok)
  show ?case using Cons.IH [OF f(2)] stored_named [of s i] f(1,3) by (cases found) auto
qed simp

lemma query_named: "query_enforced s q ctx = Ok ys \<Longrightarrow> \<forall>y \<in> set ys. named (fst y)"
  by (auto simp: query_enforced_def obind_eq_Ok dest!: enforced_named fetched_named)

lemma get_named:
  assumes "get_enforced s i ctx = Ok (Some (h, body))"
  shows "named h"
proof -
  from assms obtain found where g: "store_get s i = Ok found" by (auto simp: get_enforced_def obind_eq_Ok)
  then obtain e where e: "found = Some e" using assms by (cases found) (simp_all add: get_enforced_def)
  with assms g obtain ps ys where ys: "enforce ps ctx [e] = Ok ys" "(case ys of [] \<Rightarrow> None | y # _ \<Rightarrow> Some y) = Some (h, body)"
    by (auto simp: get_enforced_def obind_eq_Ok simp del: enforce.simps)
  have "\<forall>e' \<in> set [e]. named (fst e')" using stored_named [of s i "fst e" "snd e"] g e by simp
  from enforced_named [OF ys(1) this] ys(2) show ?thesis by (cases ys) auto
qed

lemma kind_name_valid: "utf8_valid (kind_name k)"
  by (cases k) (simp_all add: ascii_valid)

lemma summary_fields_wf: "named h \<Longrightarrow> \<forall>e \<in> set (summary_fields h). utf8_valid (fst e) \<and> json_wf N d (snd e)"
  by (simp add: summary_fields_def named_def ascii_valid hex_valid kind_name_valid)

lemma summary_wf: "named h \<Longrightarrow> 0 < d \<Longrightarrow> json_wf N d (entity_summary h)"
  unfolding entity_summary_def by (rule build_wf) (simp_all add: summary_fields_wf)

lemma summaries_wf: "tool_summaries s ids = Ok vs \<Longrightarrow> 0 < d \<Longrightarrow> \<forall>v \<in> set vs. json_wf N d v"
  by (induction ids arbitrary: vs) (auto simp: obind_eq_Ok dest!: stored_named intro!: summary_wf split: option.splits)

lemma show_valid: "utf8_valid (show_nat n)"
proof -
  have "list_all digit_byte (show_nat n)" using show_nat_digits by blast
  then have "list_all (\<lambda>b. unat b < 128) (show_nat n)"
    by (auto simp: list_all_iff digit_byte_def)
  then show ?thesis using chars_ascii_list by blast
qed

lemma fields_wf: "string_fields r keys = Ok fs \<Longrightarrow> \<forall>e \<in> set fs. utf8_valid (fst e) \<and> json_wf N d (snd e)"
proof (induction keys arbitrary: fs)
  case (Cons key keys)
  then obtain found gs where f: "string_fields r keys = Ok gs" "fs = (case found of
      Some (tag, val) \<Rightarrow> if tag = Str then (show_nat key, JString (from_utf8_lossy val)) # gs else gs | None \<Rightarrow> gs)"
    by (auto simp: obind_eq_Ok)
  have "fs = gs \<or> (\<exists>t. utf8_valid t \<and> fs = (show_nat key, JString t) # gs)"
  proof (cases found)
    case (Some p)
    then show ?thesis using f(2) lossy_is_valid [of "snd p"] by (cases "fst p = Str") (auto simp: case_prod_unfold)
  qed (use f(2) in simp)
  with Cons.IH [OF f(1)] show ?case by (auto simp: show_valid lossy_is_valid)
qed simp

lemma view_wf: "tool_view h body = Ok v \<Longrightarrow> named h \<Longrightarrow> 1 < d \<Longrightarrow> json_wf N d v"
proof -
  assume v: "tool_view h body = Ok v" and h: "named h" and d: "1 < d"
  consider "v = entity_summary h" | r fs keys where "string_fields r keys = Ok fs"
    "v = json_build (summary_fields h @ [(ascii ''fields'', json_build fs)])"
    using v by (auto simp: tool_view_def obind_eq_Ok split: if_splits outcome.splits)
  then show ?thesis
  proof cases
    case 1
    then show ?thesis using h d by (simp add: summary_wf)
  next
    case (2 r fs keys)
    have "json_wf N (d - 1) (json_build fs)" using d fields_wf [OF 2(1)] by (intro build_wf) simp_all
    then show ?thesis unfolding 2(2) using d summary_fields_wf [OF h] by (intro build_wf) (auto simp: ascii_valid)
  qed
qed

lemma array_wf: "0 < d \<Longrightarrow> \<forall>v \<in> set vs. json_wf N (d - 1) v \<Longrightarrow> json_wf N d (JArray vs)"
  by simp

lemma query_wf: "tool_query env args auth = Ok v \<Longrightarrow> json_wf number_ok 64 v"
proof -
  assume "tool_query env args auth = Ok v"
  then consider s q ctx es where "query_enforced s q ctx = Ok es" "v = JArray (map (\<lambda>(header, _). entity_summary header) es)"
    | s ids vs where "tool_summaries s ids = Ok vs" "v = JArray vs"
    by (auto simp: tool_query_def obind_eq_Ok split: option.split_asm)
  then show ?thesis
  proof cases
    case 1
    then show ?thesis using query_named [OF 1(1)] summary_wf by (auto simp: case_prod_unfold)
  next
    case 2
    then show ?thesis using summaries_wf [OF 2(1), of 63] by simp
  qed
qed

lemma get_entity_wf: "tool_get_entity env args auth = Ok v \<Longrightarrow> json_wf number_ok 64 v"
proof -
  assume "tool_get_entity env args auth = Ok v"
  then obtain h body where "named h" "tool_view h body = Ok v"
    by (fastforce simp: tool_get_entity_def obind_eq_Ok dest: stored_named get_named split: option.split_asm)
  then show ?thesis by (simp add: view_wf)
qed

lemma list_types_wf: "tool_list_types env args auth = Ok v \<Longrightarrow> json_wf number_ok 64 v"
  by (auto simp: tool_list_types_def obind_eq_Ok dest: summaries_wf [where d = 63])

lemma call_tool_wf: "call_tool env name args auth = Ok v \<Longrightarrow> json_wf number_ok 64 v"
  by (auto simp: call_tool_def query_wf get_entity_wf list_types_wf split: option.splits if_splits)

lemma tool_message:
  assumes shown: "\<forall>m. utf8_valid (show m)" and name: "\<forall>n. name = Some n \<longrightarrow> utf8_valid n" and m: "call_tool env name args auth = Err m"
  shows "utf8_valid (message_text show m)"
proof -
  have texts: "utf8_valid (ascii ''store_dir is required'')" "utf8_valid (ascii ''query is required'')" "utf8_valid (ascii ''id is required'')"
    "utf8_valid (ascii ''invalid id: must be 48 hex characters'')" "utf8_valid (ascii ''no such entity (or not visible to this subject)'')"
    "utf8_valid (ascii ''unknown tool: '')" "utf8_valid (ascii ''tools/call requires a tool name'')"
    by (simp_all add: ascii_valid)
  note defs = tool_authorize_def tool_open_def tool_id_def message_text_def
  have "utf8_valid (message_text show m)" if "tool_query env args auth = Err m"
    using that shown texts by (auto simp: tool_query_def obind_eq_Err defs)
  moreover have "utf8_valid (message_text show m)" if "tool_get_entity env args auth = Err m"
    using that shown texts by (auto simp: tool_get_entity_def obind_eq_Err defs split: option.splits)
  moreover have "utf8_valid (message_text show m)" if "tool_list_types env args auth = Err m"
    using that shown texts by (auto simp: tool_list_types_def obind_eq_Err defs)
  ultimately show ?thesis using m name texts
    by (auto simp: call_tool_def message_text_def valid_append split: option.splits if_splits)
qed

section \<open>Responses\<close>

lemma member_type:
  assumes "json_wf N d v" and "json_get v k = Some x"
  shows "json_wf N (d - 1) x"
proof -
  obtain es e where v: "v = JObject es" "find (\<lambda>e. fst e = k) es = Some e" "x = snd e"
    using assms(2) by (cases v) (auto simp: json_get_def)
  have "e \<in> set es" using v(2) by (auto simp: find_Some_iff)
  then show ?thesis using assms(1) v by simp
qed

lemma member_str: "json_wf N d v \<Longrightarrow> arg_str v k = Some t \<Longrightarrow> utf8_valid t"
proof -
  assume v: "json_wf N d v" and t: "arg_str v k = Some t"
  from t obtain x where x: "json_get v k = Some x" "as_str x = Some t" by (auto simp: arg_str_def Option.bind_eq_Some_conv)
  from member_type [OF v x(1)] x(2) show ?thesis by (cases x) (simp_all add: as_str_def)
qed

lemma json_wf_mono: "json_wf N d v \<Longrightarrow> (\<And>n. N n \<Longrightarrow> N' n) \<Longrightarrow> d \<le> d' \<Longrightarrow> json_wf N' d' v"
proof (induction v arbitrary: d d' rule: json_text.induct)
  case (5 items)
  then show ?case using diff_le_mono [of d d' 1] by fastforce
next
  case (6 es)
  then show ?case using diff_le_mono [of d d' 1] by fastforce
qed auto

lemma call_result_wf:
  assumes "\<forall>m. utf8_valid (show m)" and "json_wf (\<lambda>_. True) 64 params" and "handle_tools_call show env params auth = Ok r"
  shows "json_wf number_ok 63 r"
proof -
  have name: "\<forall>n. arg_str params (ascii ''name'') = Some n \<longrightarrow> utf8_valid n" using member_str [OF assms(2)] by blast
  have block: "json_wf number_ok 61 (text_block t)" if "utf8_valid t" for t
    unfolding text_block_def using that by (intro build_wf) (auto simp: ascii_valid str_wf)
  let ?args = "case json_get params (ascii ''arguments'') of Some a \<Rightarrow> a | None \<Rightarrow> json_object"
  consider v where "call_tool env (arg_str params (ascii ''name'')) ?args auth = Ok v"
      "r = json_build [(ascii ''content'', JArray [text_block (json_text v)])]"
    | m where "call_tool env (arg_str params (ascii ''name'')) ?args auth = Err m"
      "r = json_build [(ascii ''content'', JArray [text_block (message_text show m)]), (ascii ''isError'', JBool True)]"
    using assms(3) by (auto simp: handle_tools_call_def Let_def split: outcome.split_asm)
  then show ?thesis
  proof cases
    case (1 v)
    have "utf8_valid (json_text v)" using json_text_valid [OF call_tool_wf [OF 1(1)]] .
    then show ?thesis unfolding 1(2) using block by (intro build_wf) (auto simp: ascii_valid)
  next
    case (2 m)
    from tool_message [OF assms(1) name 2(1)] show ?thesis unfolding 2(2) using block by (intro build_wf) (auto simp: ascii_valid)
  qed
qed

lemma call_no_error: "handle_tools_call show env params auth \<noteq> Err e"
  by (auto simp: handle_tools_call_def Let_def split: outcome.splits)

text \<open>The members of a response.\<close>

lemma keys_apart:
  "ascii ''jsonrpc'' \<noteq> ascii ''id''" "ascii ''jsonrpc'' \<noteq> ascii ''result''" "ascii ''id'' \<noteq> ascii ''result''"
  "ascii ''jsonrpc'' \<noteq> ascii ''error''" "ascii ''id'' \<noteq> ascii ''error''" "ascii ''result'' \<noteq> ascii ''error''"
  by code_simp+

lemma success_members:
  "success_response i r = JObject [(ascii ''jsonrpc'', str ''2.0''), (ascii ''id'', i), (ascii ''result'', r)]"
  using keys_apart by (simp add: success_response_def json_build_def)

lemma error_members:
  "\<exists>e. error_response i code message = JObject [(ascii ''jsonrpc'', str ''2.0''), (ascii ''id'', i), (ascii ''error'', e)]"
  using keys_apart by (simp add: error_response_def json_build_def)

text \<open>
  \<open>replied i key w r\<close>: the outcome \<open>r\<close> is the text of the response to the request \<open>i\<close> whose result or error is \<open>w\<close>.
  Where the numbers of the identifier are finite it is one line, which reads back as that response.
\<close>

definition response_members :: "json \<Rightarrow> string \<Rightarrow> json \<Rightarrow> json" where
  "response_members i key w = JObject [(ascii ''jsonrpc'', JString (ascii ''2.0'')), (ascii ''id'', i), (ascii key, w)]"

definition replied :: "json \<Rightarrow> string \<Rightarrow> json \<Rightarrow> (unit, bytes option) outcome \<Rightarrow> bool" where
  "replied i key w r \<longleftrightarrow> (let reply = json_text (response_members i key w) in
     r = Ok (Some reply) \<and>
     (json_wf number_ok 63 i \<longrightarrow> 10 \<notin> set reply \<and> json_parse reply = Ok (response_members (plain i) key w)))"

definition error_object :: "int \<Rightarrow> bytes \<Rightarrow> json" where
  "error_object code message = JObject [(ascii ''code'', json_of_i64 code), (ascii ''message'', JString message)]"

definition tool_text :: "bytes \<Rightarrow> json" where
  "tool_text t = JArray [JObject [(ascii ''type'', JString (ascii ''text'')), (ascii ''text'', JString t)]]"

lemma written_replied:
  assumes "json_wf number_ok 63 i \<Longrightarrow> json_wf number_ok 64 (response_members i key w)" and "plain w = w"
  shows "replied i key w (Ok (Some (json_text (response_members i key w))))"
  unfolding replied_def Let_def using json_round [OF assms(1)] json_newline [OF assms(1)] assms(2)
  by (auto simp: response_members_def)

lemma success_replied:
  assumes "json_wf number_ok 63 r" and "plain r = r"
  shows "replied i ''result'' r (Ok (Some (json_text (success_response i r))))"
proof -
  have "success_response i r = response_members i ''result'' r" by (simp add: success_members response_members_def str_def)
  then show ?thesis using written_replied [of i "''result''" r] success_wf [OF _ assms(1), of i] assms(2) by simp
qed

lemma object_names: "ascii ''code'' \<noteq> ascii ''message''" "ascii ''type'' \<noteq> ascii ''text''" "ascii ''content'' \<noteq> ascii ''isError''"
  by code_simp+

lemma error_replied:
  assumes "json_wf number_ok 62 (json_of_i64 code)" and "utf8_valid message" and "plain (json_of_i64 code) = json_of_i64 code"
  shows "replied i ''error'' (error_object code message) (Ok (Some (json_text (error_response i code message))))"
proof -
  have "error_response i code message = response_members i ''error'' (error_object code message)"
    using keys_apart object_names by (simp add: error_response_def error_object_def json_build_def response_members_def str_def)
  then show ?thesis
    using written_replied [of i "''error''" "error_object code message"] error_wf [OF _ assms(1,2), of i] assms(3)
    by (simp add: error_object_def)
qed

lemma code_plain:
  assumes "code < 0" and "nat (- code) \<le> 2 ^ 53"
  shows "plain (json_of_i64 code) = json_of_i64 code"
proof -
  obtain m e where r: "round_f64 (nat (- code)) 1 = F64 m e" "real m * 2 powi e = real (nat (- code))" using natural_value [OF assms(2)] by blast
  have "real m * 2 powi e \<noteq> 0" unfolding r(2) using assms(1) by simp
  then have "m \<noteq> 0" by (intro notI) simp
  moreover have "json_of_i64 code = JNumber (Signed True (F64 m e))" using assms(1) r(1) by (simp add: json_of_i64_def)
  ultimately show ?thesis by (simp add: plain_number_def)
qed

lemma codes_plain:
  "plain (json_of_i64 (- 32700)) = json_of_i64 (- 32700)" "plain (json_of_i64 (- 32601)) = json_of_i64 (- 32601)"
  "plain (json_of_i64 (- 32602)) = json_of_i64 (- 32602)"
  by (rule code_plain; simp)+

text \<open>Texts, objects and lists of them are parsed as they are.\<close>

lemma entry_set_plain: "plain v = v \<Longrightarrow> \<forall>e \<in> set es. plain (snd e) = snd e \<Longrightarrow> \<forall>e \<in> set (entry_set es k v). plain (snd e) = snd e"
  by (induction es) auto

lemma build_plain: "\<forall>e \<in> set es. plain (snd e) = snd e \<Longrightarrow> plain (json_build es) = json_build es"
proof -
  assume p: "\<forall>e \<in> set es. plain (snd e) = snd e"
  have "\<forall>e \<in> set acc. plain (snd e) = snd e \<Longrightarrow> \<forall>e \<in> set (fold (\<lambda>(k, v) es. entry_set es k v) es acc). plain (snd e) = snd e" for acc
    using p
  proof (induction es arbitrary: acc)
    case (Cons e es)
    obtain k v where e: "e = (k, v)" by (cases e)
    have "\<forall>e \<in> set (entry_set acc k v). plain (snd e) = snd e" using Cons.prems e by (intro entry_set_plain) simp_all
    then show ?case using Cons.IH Cons.prems(2) e by simp
  qed simp
  from this [of "[]"] show ?thesis by (auto simp: json_build_def intro!: map_idI)
qed

lemma fixed_plain: "plain initialize_result = initialize_result" "plain tools_list_result = tools_list_result"
proof -
  have s: "plain (str t) = str t" for t by (simp add: str_def)
  have pr: "plain (string_prop d) = string_prop d" for d unfolding string_prop_def by (rule build_plain) (simp add: s)
  have strs: "plain (json_of_list str ks) = json_of_list str ks" for ks by (simp add: json_of_list_def s)
  have schema: "plain (tool_schema n d ps ks) = tool_schema n d ps ks" if "plain ps = ps" for n d ps ks
    unfolding tool_schema_def by (intro build_plain) (simp add: s strs that build_plain)
  show "plain initialize_result = initialize_result"
    unfolding initialize_result_def by (intro build_plain) (simp add: s build_plain json_object_def)
  have "plain (json_build [(a, string_prop x), (b, string_prop y), (c, auth_token_prop)]) = json_build [(a, string_prop x), (b, string_prop y), (c, auth_token_prop)]"
    "plain (json_build [(a, string_prop x), (c, auth_token_prop)]) = json_build [(a, string_prop x), (c, auth_token_prop)]" for a b c x y
    unfolding auth_token_prop_def by (intro build_plain; simp add: pr)+
  then show "plain tools_list_result = tools_list_result"
    unfolding tools_list_result_def Let_def by (intro build_plain) (simp add: schema)
qed

lemma block_plain: "plain (text_block t) = text_block t" "JArray [text_block t] = tool_text t"
  using object_names by (simp_all add: text_block_def json_build_def str_def tool_text_def)

text \<open>A call of a tool.\<close>

lemma call_replied:
  assumes shown: "\<forall>m. utf8_valid (show m)" and p: "json_wf (\<lambda>_. True) 64 params"
  shows "case call_tool env (arg_str params (ascii ''name''))
       (case json_get params (ascii ''arguments'') of Some a \<Rightarrow> a | None \<Rightarrow> JObject []) auth of
     Ok w \<Rightarrow> replied i ''result'' (JObject [(ascii ''content'', tool_text (json_text w))])
       (omap (\<lambda>response. Some (json_text response)) (omap (success_response i) (handle_tools_call show env params auth)))
   | Err e \<Rightarrow> replied i ''result'' (JObject [(ascii ''content'', tool_text (message_text show e)), (ascii ''isError'', JBool True)])
       (omap (\<lambda>response. Some (json_text response)) (omap (success_response i) (handle_tools_call show env params auth)))
   | Panic \<Rightarrow> omap (\<lambda>response. Some (json_text response)) (omap (success_response i) (handle_tools_call show env params auth)) = Panic"
    (is "case ?c of Ok w \<Rightarrow> ?ok w | Err e \<Rightarrow> ?err e | Panic \<Rightarrow> ?panic")
proof -
  have c: "call_tool env (arg_str params (ascii ''name'')) (case json_get params (ascii ''arguments'') of Some a \<Rightarrow> a | None \<Rightarrow> json_object) auth = ?c"
    unfolding json_object_def by (rule refl)
  have finish: "replied i ''result'' r
      (omap (\<lambda>response. Some (json_text response)) (omap (success_response i) (handle_tools_call show env params auth)))"
    if "handle_tools_call show env params auth = Ok r" and "plain r = r" for r
    using success_replied [OF call_result_wf [OF shown p that(1)] that(2)] that(1) by simp
  show ?thesis
  proof (cases ?c)
    case (Ok w)
    then have "handle_tools_call show env params auth = Ok (JObject [(ascii ''content'', tool_text (json_text w))])"
      using c by (simp add: handle_tools_call_def Let_def block_plain(2) json_build_def)
    from finish [OF this] Ok show ?thesis by (simp add: tool_text_def)
  next
    case (Err e)
    then have "handle_tools_call show env params auth =
        Ok (JObject [(ascii ''content'', tool_text (message_text show e)), (ascii ''isError'', JBool True)])"
      using c object_names by (simp add: handle_tools_call_def Let_def block_plain(2) json_build_def)
    from finish [OF this] Err show ?thesis by (simp add: tool_text_def)
  next
    case Panic
    then have "handle_tools_call show env params auth = Panic" using c by (simp add: handle_tools_call_def Let_def)
    with Panic show ?thesis by simp
  qed
qed

lemma request_replied:
  assumes ty: "json_type 64 v" and shown: "\<forall>m. utf8_valid (show m)" and Ok: "json_parse line = Ok v" and Some: "json_get v (ascii ''id'') = Some i"
  shows "(arg_str v (ascii ''method'') = Some (ascii ''initialize'') \<longrightarrow> replied i ''result'' initialize_result (dispatch show env line auth)) \<and>
    (arg_str v (ascii ''method'') = Some (ascii ''tools/list'') \<longrightarrow> replied i ''result'' tools_list_result (dispatch show env line auth)) \<and>
    (arg_str v (ascii ''method'') = Some (ascii ''tools/call'') \<longrightarrow>
       (case json_get v (ascii ''params'') of
          None \<Rightarrow> replied i ''error'' (error_object (- 32602) (ascii ''tools/call requires params'')) (dispatch show env line auth)
        | Some params \<Rightarrow>
            (case call_tool env (arg_str params (ascii ''name''))
                    (case json_get params (ascii ''arguments'') of Some a \<Rightarrow> a | None \<Rightarrow> JObject []) auth of
               Ok w \<Rightarrow> replied i ''result'' (JObject [(ascii ''content'', tool_text (json_text w))]) (dispatch show env line auth)
             | Err e \<Rightarrow> replied i ''result''
                 (JObject [(ascii ''content'', tool_text (message_text show e)), (ascii ''isError'', JBool True)]) (dispatch show env line auth)
             | Panic \<Rightarrow> dispatch show env line auth = Panic))) \<and>
    (arg_str v (ascii ''method'') \<notin> {Some (ascii ''initialize''), Some (ascii ''tools/list''), Some (ascii ''tools/call'')} \<longrightarrow>
       replied i ''error'' (error_object (- 32601)
         (ascii ''unknown method: '' @ (case arg_str v (ascii ''method'') of Some m \<Rightarrow> m | None \<Rightarrow> []))) (dispatch show env line auth))"
proof -
  let ?m = "case arg_str v (ascii ''method'') of Some m \<Rightarrow> m | None \<Rightarrow> []"
  have m: "utf8_valid ?m" using member_str [OF ty] by (auto split: option.split)
  have eqv: "?m = t \<longleftrightarrow> arg_str v (ascii ''method'') = Some t" if "t \<noteq> []" for t
    using that by (auto split: option.split)
  have nonempty: "ascii ''initialize'' \<noteq> []" "ascii ''tools/list'' \<noteq> []" "ascii ''tools/call'' \<noteq> []" by (simp_all add: ascii_def)
  have apart: "ascii ''initialize'' \<noteq> ascii ''tools/call''" "ascii ''tools/list'' \<noteq> ascii ''tools/call''" "ascii ''initialize'' \<noteq> ascii ''tools/list''" by code_simp+
  note run = dispatch_def Ok Some Let_def
  show ?thesis
  proof (intro conjI impI)
    assume a: "arg_str v (ascii ''method'') = Some (ascii ''initialize'')"
    then have "dispatch show env line auth = Ok (Some (json_text (success_response i initialize_result)))" by (simp add: run)
    then show "replied i ''result'' initialize_result (dispatch show env line auth)"
      using success_replied [OF fixed_results_wf(1)] by (simp add: fixed_plain)
  next
    assume a: "arg_str v (ascii ''method'') = Some (ascii ''tools/list'')"
    then have "dispatch show env line auth = Ok (Some (json_text (success_response i tools_list_result)))" using apart by (simp add: run)
    then show "replied i ''result'' tools_list_result (dispatch show env line auth)"
      using success_replied [OF fixed_results_wf(2)] by (simp add: fixed_plain)
  next
    assume a: "arg_str v (ascii ''method'') = Some (ascii ''tools/call'')"
    show "case json_get v (ascii ''params'') of
          None \<Rightarrow> replied i ''error'' (error_object (- 32602) (ascii ''tools/call requires params'')) (dispatch show env line auth)
        | Some params \<Rightarrow>
            (case call_tool env (arg_str params (ascii ''name''))
                    (case json_get params (ascii ''arguments'') of Some a \<Rightarrow> a | None \<Rightarrow> JObject []) auth of
               Ok w \<Rightarrow> replied i ''result'' (JObject [(ascii ''content'', tool_text (json_text w))]) (dispatch show env line auth)
             | Err e \<Rightarrow> replied i ''result''
                 (JObject [(ascii ''content'', tool_text (message_text show e)), (ascii ''isError'', JBool True)]) (dispatch show env line auth)
             | Panic \<Rightarrow> dispatch show env line auth = Panic)"
    proof (cases "json_get v (ascii ''params'')")
      case None
      have "dispatch show env line auth = Ok (Some (json_text (error_response i (- 32602) (ascii ''tools/call requires params''))))"
        using a apart None by (simp add: run INVALID_PARAMS_def)
      moreover have "utf8_valid (ascii ''tools/call requires params'')" by (simp add: ascii_valid)
      ultimately show ?thesis
        using error_replied [OF _ _ codes_plain(3)] code_ok(3) [of 62] None by (simp add: INVALID_PARAMS_def)
    next
      case params: (Some params)
      have p: "json_wf (\<lambda>_. True) 64 params" using member_type [OF ty params] by (rule json_wf_mono) simp_all
      have d: "dispatch show env line auth =
          omap (\<lambda>response. Some (json_text response)) (omap (success_response i) (handle_tools_call show env params auth))"
        using a apart params by (simp add: run)
      show ?thesis unfolding params option.case d by (rule call_replied [OF shown p])
    qed
  next
    assume a: "arg_str v (ascii ''method'') \<notin> {Some (ascii ''initialize''), Some (ascii ''tools/list''), Some (ascii ''tools/call'')}"
    then have "dispatch show env line auth = Ok (Some (json_text (error_response i (- 32601) (ascii ''unknown method: '' @ ?m))))"
      using eqv nonempty by (simp add: run METHOD_NOT_FOUND_def)
    moreover have "utf8_valid (ascii ''unknown method: '' @ ?m)" using m by (simp add: valid_append ascii_valid)
    ultimately show "replied i ''error'' (error_object (- 32601) (ascii ''unknown method: '' @ ?m)) (dispatch show env line auth)"
      using error_replied [OF _ _ codes_plain(2)] code_ok(2) [of 62] by (simp add: METHOD_NOT_FOUND_def)
  qed
qed

text \<open>
  C17: the server of the model context protocol answers in its protocol. A line that is no JSON is answered with the error -32700 for no request,
  and a request without an identifier is not answered. Any other request is answered with the text of a JSON object that carries its identifier:
  initialize and tools/list with their results; a call of a tool with what the tool returns or with the message of its error, marked as such, both as
  text; a call without parameters with the error -32602, and every other method with the error -32601. A request panics only
  where it calls a tool and the tool panics. The answer is one line of JSON
  that reads back as the response, negative zero as zero, wherever the numbers in the identifier are finite; an infinite one is copied as \<^verbatim>\<open>inf\<close>, which is no JSON.
\<close>

theorem mcp_answers:
  assumes "utf8_valid line" and "\<forall>m. utf8_valid (show m)"
  shows "case json_parse line of
      Ok v \<Rightarrow>
        (case json_get v (ascii ''id'') of
           None \<Rightarrow> dispatch show env line auth = Ok None
         | Some i \<Rightarrow>
             (let method = arg_str v (ascii ''method''); r = dispatch show env line auth in
              (method = Some (ascii ''initialize'') \<longrightarrow> replied i ''result'' initialize_result r) \<and>
              (method = Some (ascii ''tools/list'') \<longrightarrow> replied i ''result'' tools_list_result r) \<and>
              (method = Some (ascii ''tools/call'') \<longrightarrow>
                 (case json_get v (ascii ''params'') of
                    None \<Rightarrow> replied i ''error'' (error_object (- 32602) (ascii ''tools/call requires params'')) r
                  | Some params \<Rightarrow>
                      (case call_tool env (arg_str params (ascii ''name''))
                              (case json_get params (ascii ''arguments'') of Some a \<Rightarrow> a | None \<Rightarrow> JObject []) auth of
                         Ok w \<Rightarrow> replied i ''result'' (JObject [(ascii ''content'', tool_text (json_text w))]) r
                       | Err e \<Rightarrow> replied i ''result''
                           (JObject [(ascii ''content'', tool_text (message_text show e)), (ascii ''isError'', JBool True)]) r
                       | Panic \<Rightarrow> r = Panic))) \<and>
              (method \<notin> {Some (ascii ''initialize''), Some (ascii ''tools/list''), Some (ascii ''tools/call'')} \<longrightarrow>
                 replied i ''error'' (error_object (- 32601)
                   (ascii ''unknown method: '' @ (case method of Some m \<Rightarrow> m | None \<Rightarrow> []))) r)))
    | Err e \<Rightarrow> replied JNull ''error'' (error_object (- 32700) (show (OfBody (BodyNotJson e)))) (dispatch show env line auth)
    | Panic \<Rightarrow> False"
proof (cases "json_parse line")
  case (Ok v)
  have ty: "json_type 64 v" using json_parse_result [OF assms(1)] Ok by blast
  show ?thesis
  proof (cases "json_get v (ascii ''id'')")
    case None
    then show ?thesis using Ok by (simp add: dispatch_def Let_def)
  next
    case (Some i)
    show ?thesis unfolding Ok outcome.case Some option.case Let_def
      by (rule request_replied [OF ty assms(2) Ok Some])
  qed
next
  case (Err e)
  have "replied JNull ''error'' (error_object (- 32700) (show (OfBody (BodyNotJson e))))
      (Ok (Some (json_text (error_response JNull (- 32700) (show (OfBody (BodyNotJson e)))))))"
    using code_ok(1) [of 62] assms(2) codes_plain(1) by (intro error_replied) (simp_all add: PARSE_ERROR_def)
  then show ?thesis using Err by (simp add: dispatch_def PARSE_ERROR_def)
next
  case Panic
  then show ?thesis using json_parse_result [OF assms(1)] by simp
qed

section \<open>Reads\<close>

definition tool_caller :: "web_env \<Rightarrow> json \<Rightarrow> bytes \<Rightarrow> subject_context \<Rightarrow> bool" where
  "tool_caller env args secret ctx \<longleftrightarrow> (\<exists>token. arg_str args (ascii ''auth_token'') = Some token \<and> verify secret token (env_now env) = Ok ctx)"

lemma tool_bind:
  "obind (tool_authorize env args (Enforced secret)) k = Ok v \<longleftrightarrow> (\<exists>ctx. tool_caller env args secret ctx \<and> k (Some ctx) = Ok v)"
  by (auto simp: tool_authorize_def authorize_def tool_caller_def obind_eq_Ok telling_def split: option.splits outcome.splits)

lemma tool_opened:
  assumes "arg_str args (ascii ''store_dir'') = Some dir" and "env_dirs env dir = Ok (store_image s)"
    and "store_rep (env_os env) s M N R" and "no_drift (env_os env) (length (extents (st_data s)))"
  obtains s' where "tool_open env args = Ok (read_only s')" and "store_rep (env_os env) s' M N R"
    and "store_query s' = store_query s" and "load_policies s' = load_policies s"
proof -
  from store_open_spec [OF assms(3,4)] obtain s' where
    s': "store_open (env_os env) (store_image s) True = Ok s'" "store_rep (env_os env) s' M N R" by blast
  have "tool_open env args = Ok (read_only s')" using assms(1,2) s'(1) by (simp add: tool_open_def required_def telling_def store_open_ro)
  moreover have "store_query s' = store_query s" by (rule ext) (rule query_determined [OF assms(3) s'(2)])
  ultimately show thesis using s'(2) load_determined [OF assms(3) s'(2)] by (intro that [of s'])
qed

lemma tool_summaries_stored:
  assumes rep: "store_rep os s M N R" and "set ids \<subseteq> dom M"
  shows "tool_summaries s ids = Ok (map (\<lambda>i. entity_summary (fst (the (M i)))) ids)"
  using assms(2)
proof (induction ids)
  case (Cons i ids)
  then obtain h body where "M i = Some (h, body)" by auto
  then show ?case using Cons store_get_spec [OF rep, of i] by simp
qed simp

lemma tool_id_Ok: "tool_id t = Ok i \<longleftrightarrow> from_hex_str t = Ok (Some i)"
  by (simp add: tool_id_def obind_eq_Ok)

lemma tool_lookup:
  assumes rep: "store_rep os s M N R"
  shows "get_enforced s i ctx = Ok (Some (h, out)) \<longleftrightarrow>
    (\<exists>body ps. M i = Some (h, body) \<and> load_policies s = Ok ps \<and> visible ps ctx h \<and> enforce ps ctx [(h, body)] = Ok [(h, out)])"
proof (cases "M i")
  case None
  then show ?thesis by (simp add: get_enforced_def store_get_spec [OF rep])
next
  case (Some e)
  obtain h' body where e: "e = (h', body)" by (cases e)
  show ?thesis
  proof (cases "load_policies s")
    case (Ok ps)
    obtain out' where "enforce ps ctx [(h', body)] = Ok (if visible ps ctx h' then [(h', out')] else [])"
      "get_enforced s i ctx = Ok (if visible ps ctx h' then Some (h', out') else None)" by (rule enforced_get [OF rep Ok Some [unfolded e]])
    then show ?thesis using Some Ok e by auto
  qed (use Some in \<open>auto simp: get_enforced_def store_get_spec [OF rep]\<close>)
qed

lemma tool_summaries_ro [simp]: "tool_summaries (read_only s) ids = tool_summaries s ids"
  by (induction ids) simp_all

text \<open>
  C16: the tools enforce the policies, the listing of types apart. Where authentication is enforced and the arguments name the directory of a store
  that holds \<open>M\<close>, a query succeeds exactly for a caller whose token verifies, if it parses, is answered and
  the stored policies decode, with the summaries of the answers this caller may see; a lookup exactly for a
  stored and visible entity, as enforcement leaves it; the listing of types for every such caller, with all types there are.
\<close>

theorem mcp_reads_enforced:
  assumes "arg_str args (ascii ''store_dir'') = Some dir" and "env_dirs env dir = Ok (store_image s)"
    and "store_rep (env_os env) s M N R" and "no_drift (env_os env) (length (extents (st_data s)))"
  shows "(tool_query env args (Enforced secret) = Ok v \<longleftrightarrow>
      (\<exists>ctx t q ps ids. tool_caller env args secret ctx \<and> arg_str args (ascii ''query'') = Some t \<and>
         parse (env_classes env) t = Ok q \<and> load_policies s = Ok ps \<and> store_query s q = Ok ids \<and> v = JArray (listing M ps ctx ids))) \<and>
    (tool_get_entity env args (Enforced secret) = Ok v \<longleftrightarrow>
      (\<exists>ctx t i h body ps out. tool_caller env args secret ctx \<and> arg_str args (ascii ''id'') = Some t \<and>
         from_hex_str t = Ok (Some i) \<and> M i = Some (h, body) \<and> load_policies s = Ok ps \<and> visible ps ctx h \<and>
         enforce ps ctx [(h, body)] = Ok [(h, out)] \<and> tool_view h out = Ok v)) \<and>
    (tool_list_types env args (Enforced secret) = Ok v \<longleftrightarrow>
      (\<exists>ctx ids. tool_caller env args secret ctx \<and> by_ordinal N (entities_where M (\<lambda>h. hdr_kind h = EntityType)) ids \<and>
         v = JArray (map (\<lambda>i. entity_summary (fst (the (M i)))) ids)))"
proof -
  obtain s' where opened: "tool_open env args = Ok (read_only s')" and rep: "store_rep (env_os env) s' M N R"
    and same: "store_query s' = store_query s" "load_policies s' = load_policies s" by (rule tool_opened [OF assms])
  have "tool_query env args (Enforced secret) = Ok v \<longleftrightarrow>
      (\<exists>ctx t q ps ids. tool_caller env args secret ctx \<and> arg_str args (ascii ''query'') = Some t \<and>
         parse (env_classes env) t = Ok q \<and> load_policies s' = Ok ps \<and> store_query s' q = Ok ids \<and> v = JArray (listing M ps ctx ids))"
    unfolding tool_query_def tool_bind opened obind.simps obind_eq_Ok [of "required _ _"] obind_eq_Ok [of "telling _ _"] required_Ok telling_Ok
      option.case query_enforced_ro query_enforced_Ok [OF rep] by blast
  moreover have "tool_get_entity env args (Enforced secret) = Ok v \<longleftrightarrow>
      (\<exists>ctx t i h body ps out. tool_caller env args secret ctx \<and> arg_str args (ascii ''id'') = Some t \<and>
         from_hex_str t = Ok (Some i) \<and> M i = Some (h, body) \<and> load_policies s' = Ok ps \<and> visible ps ctx h \<and>
         enforce ps ctx [(h, body)] = Ok [(h, out)] \<and> tool_view h out = Ok v)"
  proof -
    have found: "obind (telling OfStore (get_enforced (read_only s') i ctx)) (\<lambda>found.
        case found of None \<Rightarrow> Err m | Some (header, body) \<Rightarrow> telling OfStore (tool_view header body)) = Ok v \<longleftrightarrow>
        (\<exists>h body ps out. M i = Some (h, body) \<and> load_policies s' = Ok ps \<and> visible ps ctx h \<and>
          enforce ps ctx [(h, body)] = Ok [(h, out)] \<and> tool_view h out = Ok v)" for i ctx m
    proof -
      have "obind (telling OfStore (get_enforced s' i ctx)) (\<lambda>found.
          case found of None \<Rightarrow> Err m | Some (header, body) \<Rightarrow> telling OfStore (tool_view header body)) = Ok v \<longleftrightarrow>
          (\<exists>h out. get_enforced s' i ctx = Ok (Some (h, out)) \<and> tool_view h out = Ok v)"
      proof (cases "get_enforced s' i ctx")
        case (Ok found)
        then show ?thesis by (cases found) (auto simp: telling_def split: outcome.split outcome.split_asm)
      qed (simp_all add: telling_def)
      then show ?thesis unfolding tool_lookup [OF rep] get_enforced_ro by blast
    qed
    show ?thesis
      unfolding tool_get_entity_def tool_bind opened obind.simps obind_eq_Ok [of "required _ _"] obind_eq_Ok [of "tool_id _"]
        required_Ok tool_id_Ok option.case found by blast
  qed
  moreover have "tool_list_types env args (Enforced secret) = Ok v \<longleftrightarrow>
      (\<exists>ctx ids. tool_caller env args secret ctx \<and> by_ordinal N (entities_where M (\<lambda>h. hdr_kind h = EntityType)) ids \<and>
         v = JArray (map (\<lambda>i. entity_summary (fst (the (M i)))) ids))"
  proof -
    let ?A = "entities_where M (\<lambda>h. hdr_kind h = EntityType)"
    obtain ids where ids: "query_by_kind s' EntityType = Ok ids" "by_ordinal N ?A ids" using query_by_kind_spec [OF rep] by blast
    have A: "?A \<subseteq> dom M" by (auto simp: entities_where_def)
    then have "set ids \<subseteq> dom M" using ids(2) by (simp add: by_ordinal_def)
    from tool_summaries_stored [OF rep this] have "tool_list_types env args (Enforced secret) = Ok v \<longleftrightarrow>
        (\<exists>ctx. tool_caller env args secret ctx) \<and> v = JArray (map (\<lambda>i. entity_summary (fst (the (M i)))) ids)"
      unfolding tool_list_types_def tool_bind opened obind.simps using ids(1) by (auto simp: obind_eq_Ok)
    then show ?thesis using by_ordinal_unique [OF rep A ids(2)] ids(2) by blast
  qed
  ultimately show ?thesis unfolding same by blast
qed

section \<open>Sessions\<close>

lemma upto_newline_ends: "10 \<notin> set t \<Longrightarrow> upto_newline (t @ 10 # rest) = t @ [10]"
  by (induction t) auto

lemma mcp_line:
  assumes "upto_newline (take MAX_REQUEST_LEN input) = l @ [10]" and "drop (length (l @ [10])) input = rest"
    and "utf8_valid (l @ [10])" and "trim (l @ [10]) \<noteq> []" and "dispatch show (envs n) (l @ [10]) auth = Ok r"
  shows "mcp_loop show envs auth n input =
    (case r of None \<Rightarrow> mcp_loop show envs auth (n + 1) rest
     | Some reply \<Rightarrow> (case mcp_loop show envs auth (n + 1) rest of (out, ending) \<Rightarrow> (reply @ 10 # out, ending)))"
  using assms(3, 4, 5) unfolding mcp_loop.simps [of "show" envs auth n input] Let_def assms(1,2) by (simp cong: option.case_cong)

text \<open>
  A session. Lines of the input that are requests are answered in their order, each by the line \<open>dispatch\<close> makes of it at the time
  or by none, and nothing else is written; the input may end behind any line.
\<close>

lemma mcp_session:
  assumes "\<forall>l \<in> set ls. 10 \<notin> set l \<and> utf8_valid l \<and> trim (l @ [10]) \<noteq> [] \<and> length l < MAX_REQUEST_LEN"
    and "length rs = length ls" and "\<forall>k < length ls. dispatch show (envs (n + k)) (ls ! k @ [10]) auth = Ok (rs ! k)"
  shows "mcp_loop show envs auth n (concat (map (\<lambda>l. l @ [10]) ls)) =
    (concat (map (\<lambda>r. case r of Some reply \<Rightarrow> reply @ [10] | None \<Rightarrow> []) rs), Ok ())"
  using assms
proof (induction ls arbitrary: n rs)
  case Nil
  then show ?case by (subst mcp_loop.simps) simp
next
  case (Cons l ls)
  then obtain r rs' where rs: "rs = r # rs'" "length rs' = length ls" by (cases rs) auto
  let ?rest = "concat (map (\<lambda>l. l @ [10]) ls)"
  let ?input = "l @ 10 # ?rest"
  have l: "10 \<notin> set l" "utf8_valid l" "trim (l @ [10]) \<noteq> []" "length l < MAX_REQUEST_LEN" using Cons.prems(1) by simp_all
  have "take MAX_REQUEST_LEN ?input = l @ 10 # take (MAX_REQUEST_LEN - length l - 1) ?rest"
  proof -
    obtain m where "MAX_REQUEST_LEN - length l = Suc m" using l(4) by (metis Suc_diff_Suc)
    then show ?thesis using l(4) by simp
  qed
  then have buf: "upto_newline (take MAX_REQUEST_LEN ?input) = l @ [10]" by (simp add: upto_newline_ends [OF l(1)])
  have valid: "utf8_valid (l @ [10])" using l(2) by (intro valid_append) (simp_all add: valid_ascii)
  have d: "dispatch show (envs n) (l @ [10]) auth = Ok r" using Cons.prems(3) rs by (metis add.right_neutral length_greater_0_conv list.distinct(1) nth_Cons_0)
  have "\<forall>k < length ls. dispatch show (envs (n + 1 + k)) (ls ! k @ [10]) auth = Ok (rs' ! k)"
  proof (intro allI impI)
    fix k assume "k < length ls"
    then show "dispatch show (envs (n + 1 + k)) (ls ! k @ [10]) auth = Ok (rs' ! k)" using Cons.prems(3) [rule_format, of "Suc k"] rs by simp
  qed
  then have ih: "mcp_loop show envs auth (n + 1) ?rest = (concat (map (\<lambda>r. case r of Some reply \<Rightarrow> reply @ [10] | None \<Rightarrow> []) rs'), Ok ())"
    using Cons.prems(1) rs(2) by (intro Cons.IH) simp_all
  have "drop (length (l @ [10])) ?input = ?rest" by simp
  from mcp_line [of ?input l ?rest "show" envs n auth r, OF buf this valid l(3) d] have "mcp_loop show envs auth n ?input =
      (case r of None \<Rightarrow> mcp_loop show envs auth (n + 1) ?rest
       | Some reply \<Rightarrow> (case mcp_loop show envs auth (n + 1) ?rest of (out, ending) \<Rightarrow> (reply @ 10 # out, ending)))" .
  then show ?case using ih rs(1) by (cases r) simp_all
qed

section \<open>Witnesses\<close>

text \<open>The request \<^verbatim>\<open>{"id":"a"}\<close>.\<close>

definition hello :: bytes where
  "hello = json_text (JObject [(ascii ''id'', JString [97])])"

lemma hello_parse: "json_parse hello = Ok (JObject [(ascii ''id'', JString [97])])" "utf8_valid hello" "10 \<notin> set hello" "length hello < 100"
proof -
  have "utf8_valid [97]" by (simp add: valid_ascii)
  then have w: "json_wf number_ok 64 (JObject [(ascii ''id'', JString [97])])" by (simp add: ascii_valid)
  show "json_parse hello = Ok (JObject [(ascii ''id'', JString [97])])" using json_round [OF w] by (simp add: hello_def)
  show "utf8_valid hello" "10 \<notin> set hello" using json_text_valid [OF w] json_newline [OF w] by (simp_all add: hello_def)
  show "length hello < 100" unfolding hello_def by code_simp
qed

lemma hello_run: "dispatch show env hello auth \<noteq> Panic" "arg_str (JObject [(ascii ''id'', JString [97])]) (ascii ''method'') = None"
proof -
  have apart: "ascii ''id'' \<noteq> ascii ''method''" by code_simp
  then show m: "arg_str (JObject [(ascii ''id'', JString [97])]) (ascii ''method'') = None" by (simp add: arg_str_def json_get_def)
  show "dispatch show env hello auth \<noteq> Panic"
    by (simp add: dispatch_def hello_parse m json_get_def Let_def) (simp add: ascii_def)
qed

lemma mcp_answers_witness:
  "\<exists>s. store_create 4096 = Ok s \<and>
     replied (JString [97]) ''error'' (error_object (- 32601) (ascii ''unknown method: '')) (dispatch (\<lambda>_. []) (sample_env s) hello (Enforced [107]))"
proof -
  obtain s where s: "store_create 4096 = Ok s" using fresh_served by blast
  have "ascii ''id'' \<noteq> ascii ''method''" by code_simp
  then have m: "arg_str (JObject [(ascii ''id'', JString [97])]) (ascii ''method'') = None" by (simp add: arg_str_def json_get_def)
  have i: "json_get (JObject [(ascii ''id'', JString [97])]) (ascii ''id'') = Some (JString [97])" by (simp add: json_get_def)
  have "\<forall>m :: web_message. utf8_valid []" by simp
  from mcp_answers [OF hello_parse(2) this, of "sample_env s" "Enforced [107]"]
  have "replied (JString [97]) ''error'' (error_object (- 32601) (ascii ''unknown method: '' @ [])) (dispatch (\<lambda>_. []) (sample_env s) hello (Enforced [107]))"
    unfolding hello_parse(1) outcome.case i option.case Let_def m by (simp add: valid_ascii)
  then show ?thesis using s by auto
qed

lemma tool_nobody:
  assumes "issue [107] nobody None = Ok token"
  shows "tool_caller (sample_env s) (JObject [(ascii ''auth_token'', JString token), (ascii ''store_dir'', JString [])]) [107] nobody"
proof -
  have "verify [107] token (env_now (sample_env s)) = Ok nobody"
    using issued_verifies [OF _ _ _ assms] by (simp add: nobody_def times_exact_def sample_env_def)
  then show ?thesis by (simp add: tool_caller_def arg_str_def json_get_def as_str_def)
qed

lemma mcp_reads_enforced_witness:
  "\<exists>s token. store_create 4096 = Ok s \<and> issue [107] nobody None = Ok token \<and>
     tool_list_types (sample_env s) (JObject [(ascii ''auth_token'', JString token), (ascii ''store_dir'', JString [])]) (Enforced [107]) =
       Ok (JArray [])"
proof -
  obtain s where s: "store_create 4096 = Ok s" "env_dirs (sample_env s) [] = Ok (store_image s)"
    "store_rep (env_os (sample_env s)) s Map.empty Map.empty Map.empty" "no_drift (env_os (sample_env s)) (length (extents (st_data s)))"
    using fresh_served by blast
  obtain token where t: "issue [107] nobody None = Ok token" using sample_token by blast
  let ?args = "JObject [(ascii ''auth_token'', JString token), (ascii ''store_dir'', JString [])]"
  have "ascii ''auth_token'' \<noteq> ascii ''store_dir''" by code_simp
  then have d: "arg_str ?args (ascii ''store_dir'') = Some []" by (simp add: arg_str_def json_get_def as_str_def)
  have "tool_list_types (sample_env s) ?args (Enforced [107]) = Ok (JArray [])"
    using mcp_reads_enforced [OF d s(2-4), THEN conjunct2, THEN conjunct2] tool_nobody [OF t] nothing_by_ordinal by fastforce
  then show ?thesis using s(1) t by blast
qed

text \<open>The request \<^verbatim>\<open>[]\<close>, which has no identifier.\<close>

lemma quiet_line: "dispatch show env [91, 93, 10] auth = Ok None"
proof -
  have "json_parse [91, 93, 10] = Ok (JArray [])" by code_simp
  then show ?thesis by (simp add: dispatch_def json_get_def Let_def)
qed

end
