(* ===== verification/Gems_Cli.thy ===== *)
theory Gems_Cli
  imports Gems_Web
begin

text \<open>
  The command line, \<^verbatim>\<open>gems-cli/src/main.rs\<close>: every command with its arguments, as a function of the environment and
  of the directories with the files of their stores. A command returns the directories, the lines it prints and
  how it ends. A directory holds all the files of a store or none of them, and what a failed insertion
  leaves of a store is a parameter. The commands that write are shown to add one entity to the map of the
  store, with the body that the reading commands print; reading with \<^verbatim>\<open>--as\<close> is enforced.
\<close>

section \<open>Environment and arguments\<close>

type_synonym directories = "bytes \<rightharpoonup> store_files"

text \<open>\<open>cli_fresh\<close> lists what \<^verbatim>\<open>Tuid::generate\<close> gives out; \<open>cli_lost\<close> is what a failed insertion leaves.\<close>

record cli_env =
  cli_os :: nat
  cli_classes :: char_classes
  cli_fresh :: "nat \<Rightarrow> tuid"
  cli_lost :: "entity_header \<Rightarrow> bytes \<Rightarrow> store \<Rightarrow> store"

type_synonym cli_report = "bytes list \<times> (web_message, unit) outcome"

definition require_arg :: "bytes list \<Rightarrow> nat \<Rightarrow> bytes \<Rightarrow> bytes tool" where
  "require_arg args index name = required (ascii ''missing <'' @ name @ ascii ''>'') (get_opt args index)"

definition cli_open :: "cli_env \<Rightarrow> directories \<Rightarrow> bytes \<Rightarrow> bool \<Rightarrow> store tool" where
  "cli_open env dirs dir rw =
     telling OfStore
       (case dirs dir of
          Some files \<Rightarrow> store_open (cli_os env) files rw
        | None \<Rightarrow> Err (Io ''No such file or directory''))"

definition cli_id :: "bytes \<Rightarrow> bytes \<Rightarrow> tuid tool" where
  "cli_id msg s = obind (telling (\<lambda>_. Note []) (from_hex_str s)) (required msg)"

text \<open>The value of \<^verbatim>\<open>--as\<close>, and the loop that takes the flag out of the arguments; the last one counts.\<close>

primrec as_roles :: "bytes list \<Rightarrow> tuid list tool" where
  "as_roles [] = Ok []"
| "as_roles (p # ps) = obind (cli_id (ascii ''invalid role id'') p) (\<lambda>r. omap (\<lambda>rs. r # rs) (as_roles ps))"

definition as_value :: "bytes \<Rightarrow> subject_context tool" where
  "as_value v =
     (let parts = split_on 44 v in
      obind (cli_id (ascii ''invalid subject id'') (hd parts)) (\<lambda>i.
      omap (\<lambda>rs. \<lparr> ctx_subject = i, ctx_roles = rs \<rparr>) (as_roles (tl parts))))"

fun extract_loop :: "bytes list \<Rightarrow> bytes list \<Rightarrow> subject_context option \<Rightarrow> (bytes list \<times> subject_context option) tool" where
  "extract_loop [] other who = Ok (other, who)"
| "extract_loop [a] other who =
     (if a = ascii ''--as'' then Err (Note (ascii ''--as needs a value'')) else Ok (other @ [a], who))"
| "extract_loop (a # b # args) other who =
     (if a = ascii ''--as'' then obind (as_value b) (\<lambda>ctx. extract_loop args other (Some ctx))
      else extract_loop (b # args) (other @ [a]) who)"

definition extract_as_flag :: "bytes list \<Rightarrow> (bytes list \<times> subject_context option) tool" where
  "extract_as_flag args = extract_loop args [] None"

section \<open>What a command prints\<close>

definition report :: "cli_report tool \<Rightarrow> cli_report" where
  "report r = (case r of Ok printed \<Rightarrow> printed | Err m \<Rightarrow> ([], Err m) | Panic \<Rightarrow> ([], Panic))"

definition entity_line :: "entity_header \<Rightarrow> bytes" where
  "entity_line header = to_hex_string (hdr_id header) @ ascii ''  '' @ hdr_name header"

text \<open>The loop over identifiers that looks each entity up and prints it under the identifier it was found by.\<close>

primrec print_entities :: "store \<Rightarrow> tuid list \<Rightarrow> cli_report" where
  "print_entities s [] = ([], Ok ())"
| "print_entities s (i # ids) =
     (case store_get s i of
        Ok found \<Rightarrow>
          (case print_entities s ids of (out, ending) \<Rightarrow>
            ((case found of Some (header, _) \<Rightarrow> [to_hex_string i @ ascii ''  '' @ hdr_name header] | None \<Rightarrow> []) @ out, ending))
      | Err e \<Rightarrow> ([], Err (OfStore e))
      | Panic \<Rightarrow> ([], Panic))"

definition header_lines :: "entity_header \<Rightarrow> bytes list" where
  "header_lines header =
     [ascii ''id:          '' @ to_hex_string (hdr_id header),
      ascii ''name:        '' @ hdr_name header,
      ascii ''description: '' @ description header,
      ascii ''kind:        '' @ kind_name (hdr_kind header),
      ascii ''schema_ref:  '' @ to_hex_string (schema_ref header)]"

definition field_line :: "nat \<Rightarrow> bytes \<Rightarrow> bytes" where
  "field_line key v = ascii ''  field['' @ show_nat key @ ascii ''] = '' @ from_utf8_lossy v"

primrec print_fields :: "gbv_reader \<Rightarrow> nat list \<Rightarrow> cli_report" where
  "print_fields r [] = ([], Ok ())"
| "print_fields r (key # keys) =
     (case gbv_get r key of
        Ok found \<Rightarrow>
          (case print_fields r keys of (out, ending) \<Rightarrow>
            ((case found of Some (tag, v) \<Rightarrow> if tag = Str then [field_line key v] else [] | None \<Rightarrow> []) @ out, ending))
      | Err e \<Rightarrow> ([], Err (OfStore e))
      | Panic \<Rightarrow> ([], Panic))"

definition print_entity :: "entity_header \<Rightarrow> bytes \<Rightarrow> cli_report" where
  "print_entity header body =
     (let kvs =
        (if hdr_kind header = Data then
           (case reader_new body of
              Ok r \<Rightarrow>
                (case key_ids r of Ok keys \<Rightarrow> print_fields r keys | Err e \<Rightarrow> ([], Err (OfStore e)) | Panic \<Rightarrow> ([], Panic))
            | Err _ \<Rightarrow> ([], Ok ())
            | Panic \<Rightarrow> ([], Panic))
         else ([], Ok ()))
      in (header_lines header @ fst kvs, snd kvs))"

section \<open>Commands that read\<close>

definition cmd_type_list :: "cli_env \<Rightarrow> directories \<Rightarrow> bytes list \<Rightarrow> cli_report" where
  "cmd_type_list env dirs args =
     report
       (obind (require_arg args 0 (ascii ''dir'')) (\<lambda>dir.
        obind (cli_open env dirs dir False) (\<lambda>s.
        omap (print_entities s) (telling OfStore (query_by_kind s EntityType)))))"

definition cmd_entity_get :: "cli_env \<Rightarrow> directories \<Rightarrow> bytes list \<Rightarrow> cli_report" where
  "cmd_entity_get env dirs args =
     report
       (obind (extract_as_flag args) (\<lambda>(args, who).
        obind (require_arg args 0 (ascii ''dir'')) (\<lambda>dir.
        obind (require_arg args 1 (ascii ''id'')) (\<lambda>id_hex.
        obind (cli_id (ascii ''invalid entity id'') id_hex) (\<lambda>i.
        obind (cli_open env dirs dir False) (\<lambda>s.
        obind (telling OfStore (case who of Some ctx \<Rightarrow> get_enforced s i ctx | None \<Rightarrow> store_get s i)) (\<lambda>found.
        case found of
          None \<Rightarrow> Err (Note (ascii ''no such entity''))
        | Some (header, body) \<Rightarrow> Ok (print_entity header body))))))))"

definition cmd_query :: "cli_env \<Rightarrow> directories \<Rightarrow> bytes list \<Rightarrow> cli_report" where
  "cmd_query env dirs args =
     report
       (obind (extract_as_flag args) (\<lambda>(args, who).
        obind (require_arg args 0 (ascii ''dir'')) (\<lambda>dir.
        obind (require_arg args 1 (ascii ''query'')) (\<lambda>query_str.
        obind (cli_open env dirs dir False) (\<lambda>s.
        obind (telling OfQuery (parse (cli_classes env) query_str)) (\<lambda>q.
        telling OfStore
          (case who of
             Some ctx \<Rightarrow> omap (\<lambda>es. (map (\<lambda>(header, _). entity_line header) es, Ok ())) (query_enforced s q ctx)
           | None \<Rightarrow> omap (print_entities s) (store_query s q))))))))"

section \<open>Commands that write\<close>

definition cmd_init :: "cli_env \<Rightarrow> directories \<Rightarrow> bytes list \<Rightarrow> directories \<times> cli_report" where
  "cmd_init env dirs args =
     (case require_arg args 0 (ascii ''dir'') of
        Ok dir \<Rightarrow>
          (case dirs dir of
             Some _ \<Rightarrow> (dirs, [], Err (OfStore (Io ''File exists'')))
           | None \<Rightarrow>
               (case store_create (cli_os env) of
                  Ok s \<Rightarrow> (dirs(dir \<mapsto> store_image s), [ascii ''initialized store at '' @ dir], Ok ())
                | Err e \<Rightarrow> (dirs, [], Err (OfStore e))
                | Panic \<Rightarrow> (dirs, [], Panic)))
      | Err m \<Rightarrow> (dirs, [], Err m)
      | Panic \<Rightarrow> (dirs, [], Panic))"

text \<open>
  The other commands make a header and a body for a store they opened; the end they share inserts the entity
  and prints its identifier.
\<close>

type_synonym cli_plan = "(bytes \<times> store \<times> entity_header \<times> bytes) tool"

definition commit :: "cli_env \<Rightarrow> directories \<Rightarrow> cli_plan \<Rightarrow> directories \<times> cli_report" where
  "commit env dirs plan =
     (case plan of
        Ok (dir, s, header, body) \<Rightarrow>
          (let broken = dirs(dir \<mapsto> store_image (cli_lost env header body s)) in
           case store_insert (cli_os env) header body s of
             Ok s' \<Rightarrow> (dirs(dir \<mapsto> store_image s'), [to_hex_string (hdr_id header)], Ok ())
           | Err e \<Rightarrow> (broken, [], Err (OfStore e))
           | Panic \<Rightarrow> (broken, [], Panic))
      | Err m \<Rightarrow> (dirs, [], Err m)
      | Panic \<Rightarrow> (dirs, [], Panic))"

definition new_header :: "cli_env \<Rightarrow> bytes \<Rightarrow> entity_kind \<Rightarrow> tuid \<Rightarrow> entity_header" where
  "new_header env name kind schema = header_new (cli_fresh env 1) (cli_fresh env 0) name kind schema"

definition plain_type :: entity_type_body where
  "plain_type = \<lparr> et_kind = Structural, et_attributes = [], compatible_with = [], incompatible_with = [] \<rparr>"

definition type_create_plan :: "cli_env \<Rightarrow> directories \<Rightarrow> bytes list \<Rightarrow> cli_plan" where
  "type_create_plan env dirs args =
     obind (require_arg args 0 (ascii ''dir'')) (\<lambda>dir.
     obind (require_arg args 1 (ascii ''name'')) (\<lambda>name.
     obind (cli_open env dirs dir True) (\<lambda>s.
     Ok (dir, s, new_header env name EntityType NIL, entity_type_encode plain_type))))"

text \<open>\<^verbatim>\<open>--type\<close>, \<^verbatim>\<open>--name\<close> and the fields; a flag needs a value behind it.\<close>

fun entity_args :: "bytes list \<Rightarrow> bytes option \<Rightarrow> bytes option \<Rightarrow> (bytes \<times> bytes) list \<Rightarrow> (bytes \<times> bytes \<times> (bytes \<times> bytes) list) tool" where
  "entity_args [] t n kvs =
     obind (required (ascii ''--type is required'') t) (\<lambda>t.
     obind (required (ascii ''--name is required'') n) (\<lambda>n. Ok (t, n, kvs)))"
| "entity_args (a # args) t n kvs =
     (if a = ascii ''--type'' then
        (case args of [] \<Rightarrow> Err (Note (ascii ''--type needs a value'')) | v # args \<Rightarrow> entity_args args (Some v) n kvs)
      else if a = ascii ''--name'' then
        (case args of [] \<Rightarrow> Err (Note (ascii ''--name needs a value'')) | v # args \<Rightarrow> entity_args args t (Some v) kvs)
      else
        obind (required (ascii ''expected key=value, found '' @ [39] @ a @ [39]) (split_once 61 a)) (\<lambda>field.
        entity_args args t n (kvs @ [field])))"

definition parse_entity_create_args :: "bytes list \<Rightarrow> (bytes \<times> bytes \<times> (bytes \<times> bytes) list) tool" where
  "parse_entity_create_args args = entity_args args None None []"

definition cli_body :: "(bytes \<times> bytes) list \<Rightarrow> bytes" where
  "cli_body kvs = builder_finish (fold (\<lambda>(key, v). builder_push (unat (field_id key)) Str v) kvs builder_new)"

definition named_type :: "store \<Rightarrow> bytes \<Rightarrow> tuid tool" where
  "named_type s name =
     obind (telling OfStore (find_entity_type_by_name s name)) (required (ascii ''no such entity type: '' @ name))"

definition entity_create_plan :: "cli_env \<Rightarrow> directories \<Rightarrow> bytes list \<Rightarrow> cli_plan" where
  "entity_create_plan env dirs args =
     obind (required (ascii ''missing <dir>'') (get_opt args 0)) (\<lambda>dir.
     obind (parse_entity_create_args (drop 1 args)) (\<lambda>(tname, entity_name, kvs).
     obind (cli_open env dirs dir True) (\<lambda>s.
     obind (named_type s tname) (\<lambda>type_id.
     Ok (dir, s, new_header env entity_name Data type_id, cli_body kvs)))))"

section \<open>Policies\<close>

record policy_flags =
  pf_effect :: "effect option"
  pf_kind :: "entity_kind option"
  pf_type :: "bytes option"
  pf_subject :: tuid
  pf_role :: tuid
  pf_redact :: "nat list"

definition cli_entity_kind :: "bytes \<Rightarrow> entity_kind tool" where
  "cli_entity_kind s =
     (let t = map ascii_lower s in
      if t = ascii ''data'' then Ok Data
      else if t = ascii ''entityattribute'' then Ok EntityAttribute
      else if t = ascii ''entitytype'' then Ok EntityType
      else if t = ascii ''subject'' then Ok Subject
      else if t = ascii ''layer'' then Ok Layer
      else if t = ascii ''layergroup'' then Ok LayerGroup
      else if t = ascii ''variantlist'' then Ok VariantList
      else if t = ascii ''role'' then Ok Role
      else if t = ascii ''linktype'' then Ok LinkType
      else if t = ascii ''link'' then Ok Link
      else if t = ascii ''policy'' then Ok Policy
      else Err (Note (ascii ''unknown entity kind: '' @ t)))"

definition cli_effect :: "bytes option \<Rightarrow> effect tool" where
  "cli_effect v =
     (if v = Some (ascii ''permit'') then Ok Permit
      else if v = Some (ascii ''deny'') then Ok Deny
      else Err (Note (ascii ''--effect must be `permit` or `deny`'')))"

text \<open>One flag with the value behind it, if there is one.\<close>

definition policy_flag :: "bytes \<Rightarrow> bytes option \<Rightarrow> policy_flags \<Rightarrow> policy_flags tool" where
  "policy_flag a v pf =
     (if a = ascii ''--effect'' then omap (\<lambda>e. pf\<lparr> pf_effect := Some e \<rparr>) (cli_effect v)
      else if a = ascii ''--target-kind'' then
        obind (required (ascii ''--target-kind needs a value'') v) (\<lambda>t. omap (\<lambda>k. pf\<lparr> pf_kind := Some k \<rparr>) (cli_entity_kind t))
      else if a = ascii ''--target-type'' then
        omap (\<lambda>t. pf\<lparr> pf_type := Some t \<rparr>) (required (ascii ''--target-type needs a value'') v)
      else if a = ascii ''--subject'' then
        obind (required (ascii ''--subject needs a value'') v) (\<lambda>t. omap (\<lambda>i. pf\<lparr> pf_subject := i \<rparr>) (cli_id (ascii ''invalid --subject id'') t))
      else if a = ascii ''--role'' then
        obind (required (ascii ''--role needs a value'') v) (\<lambda>t. omap (\<lambda>i. pf\<lparr> pf_role := i \<rparr>) (cli_id (ascii ''invalid --role id'') t))
      else if a = ascii ''--redact'' then
        omap (\<lambda>t. pf\<lparr> pf_redact := pf_redact pf @ [unat (field_id t)] \<rparr>) (required (ascii ''--redact needs a value'') v)
      else Err (Note (ascii ''unrecognized flag '' @ [39] @ a @ [39])))"

fun policy_args :: "bytes list \<Rightarrow> policy_flags \<Rightarrow> policy_flags tool" where
  "policy_args [] pf = Ok pf"
| "policy_args [a] pf = policy_flag a None pf"
| "policy_args (a # v # args) pf = obind (policy_flag a (Some v) pf) (policy_args args)"

definition parse_policy_create_args :: "bytes list \<Rightarrow> (effect \<times> policy_flags) tool" where
  "parse_policy_create_args args =
     obind (policy_args args \<lparr> pf_effect = None, pf_kind = None, pf_type = None, pf_subject = NIL, pf_role = NIL, pf_redact = [] \<rparr>) (\<lambda>pf.
     omap (\<lambda>e. (e, pf)) (required (ascii ''--effect is required'') (pf_effect pf)))"

definition policy_create_plan :: "cli_env \<Rightarrow> directories \<Rightarrow> bytes list \<Rightarrow> cli_plan" where
  "policy_create_plan env dirs args =
     obind (required (ascii ''missing <dir>'') (get_opt args 0)) (\<lambda>dir.
     obind (parse_policy_create_args (drop 1 args)) (\<lambda>(eff, pf).
     obind (cli_open env dirs dir True) (\<lambda>s.
     obind (case pf_type pf of Some name \<Rightarrow> named_type s name | None \<Rightarrow> Ok NIL) (\<lambda>schema.
     let pol = \<lparr> target = \<lparr> target_kind = pf_kind pf, target_schema = schema \<rparr>,
                 subject = \<lparr> pred_subject = pf_subject pf, pred_role = pf_role pf \<rparr>,
                 effect = eff, redact_attributes = pf_redact pf \<rparr>
     in Ok (dir, s, new_header env (ascii ''policy'') Policy NIL, policy_encode pol)))))"

section \<open>The program\<close>

definition cli_usage :: bytes where
  "cli_usage = ascii ''usage:'' @ concat (map (\<lambda>t. 10 # ascii t)
     [''  gems init <dir>'',
      ''  gems type create <dir> <name>'',
      ''  gems type list <dir>'',
      ''  gems entity create <dir> --type <type-name> --name <name> [key=value ...]'',
      ''  gems entity get <dir> <id-hex> [--as <subject-hex>[,<role-hex>,...]]'',
      ''  gems policy create <dir> --effect <permit|deny>'',
      ''      [--target-kind <kind>] [--target-type <type-name>]'',
      ''      [--subject <id-hex>] [--role <id-hex>] [--redact <field-name> ...]'',
      ''  gems query <dir> \"<query string>\" [--as <subject-hex>[,<role-hex>,...]]''])"

definition cli_run :: "cli_env \<Rightarrow> bytes list \<Rightarrow> directories \<Rightarrow> directories \<times> cli_report" where
  "cli_run env args dirs =
     (let misuse = (dirs, [], Err (Note cli_usage));
          first = get_opt args 0; second = get_opt args 1 in
      if first = Some (ascii ''init'') then cmd_init env dirs (drop 1 args)
      else if first = Some (ascii ''type'') then
        if second = Some (ascii ''create'') then commit env dirs (type_create_plan env dirs (drop 2 args))
        else if second = Some (ascii ''list'') then (dirs, cmd_type_list env dirs (drop 2 args))
        else misuse
      else if first = Some (ascii ''entity'') then
        if second = Some (ascii ''create'') then commit env dirs (entity_create_plan env dirs (drop 2 args))
        else if second = Some (ascii ''get'') then (dirs, cmd_entity_get env dirs (drop 2 args))
        else misuse
      else if first = Some (ascii ''policy'') then
        if second = Some (ascii ''create'') then commit env dirs (policy_create_plan env dirs (drop 2 args))
        else misuse
      else if first = Some (ascii ''query'') then (dirs, cmd_query env dirs (drop 1 args))
      else misuse)"

text \<open>Standard output, standard error and the exit code; a panic exits with 101.\<close>

definition cli_main :: "(web_message \<Rightarrow> bytes) \<Rightarrow> cli_env \<Rightarrow> bytes list \<Rightarrow> directories \<Rightarrow> directories \<times> bytes list \<times> bytes list \<times> nat" where
  "cli_main show env args dirs =
     (case cli_run env args dirs of (dirs', out, ending) \<Rightarrow>
       (case ending of
          Ok _ \<Rightarrow> (dirs', out, [], 0)
        | Err m \<Rightarrow> (dirs', out, [ascii ''error: '' @ (case m of Note t \<Rightarrow> t | _ \<Rightarrow> show m)], 1)
        | Panic \<Rightarrow> (dirs', out, [], 101)))"

section \<open>Opening\<close>

lemma cli_open_reading:
  assumes "dirs dir = Some (store_image s)" and "store_rep (cli_os env) s M N R" and "no_drift (cli_os env) (length (extents (st_data s)))"
  obtains s' where "cli_open env dirs dir False = Ok (read_only s')" and "store_rep (cli_os env) s' M N R"
    and "store_query s' = store_query s" and "load_policies s' = load_policies s"
proof -
  from store_open_spec [OF assms(2,3)] obtain s' where
    s': "store_open (cli_os env) (store_image s) True = Ok s'" "store_rep (cli_os env) s' M N R" by blast
  have "cli_open env dirs dir False = Ok (read_only s')" using assms(1) s'(1) by (simp add: cli_open_def store_open_ro)
  moreover have "store_query s' = store_query s" by (rule ext) (rule query_determined [OF assms(2) s'(2)])
  ultimately show thesis using s'(2) load_determined [OF assms(2) s'(2)] by (intro that [of s'])
qed

lemma cli_open_writing:
  assumes "dirs dir = Some (store_image s)" and "store_rep (cli_os env) s M N R" and "store_room (cli_os env) s"
  obtains s' where "cli_open env dirs dir True = Ok s'" and "store_rep (cli_os env) s' M N R" and "store_room (cli_os env) s'"
proof -
  have "no_drift (cli_os env) (length (extents (st_data s)))" using assms(3) by (simp add: store_room_def alloc_room_def)
  from store_open_spec [OF assms(2) this] obtain s' where
    s': "store_open (cli_os env) (store_image s) True = Ok s'" "store_rep (cli_os env) s' M N R" by blast
  then show thesis using assms(1) store_open_room [OF assms(2,3) s'(1)] by (intro that [of s']) (simp_all add: cli_open_def)
qed

lemma cli_id_hex [simp]: "wf_tuid i \<Longrightarrow> cli_id msg (to_hex_string i) = Ok i"
  by (simp add: cli_id_def from_hex_to_hex telling_def required_def)

section \<open>Writing\<close>

text \<open>\<open>adds\<close>: a command put one entity into the store of a directory, and nothing else, and printed its identifier.\<close>

definition adds :: "cli_env \<Rightarrow> directories \<Rightarrow> bytes \<Rightarrow> (tuid \<rightharpoonup> entity_header \<times> bytes) \<Rightarrow> (tuid \<rightharpoonup> nat) \<Rightarrow>
    entity_header \<Rightarrow> bytes \<Rightarrow> directories \<times> cli_report \<Rightarrow> bool" where
  "adds env dirs dir M N header body result \<longleftrightarrow>
     (\<exists>s N' R'. result = (dirs(dir \<mapsto> store_image s), [to_hex_string (hdr_id header)], Ok ()) \<and>
        store_rep (cli_os env) s (M(hdr_id header \<mapsto> (placed header body, body))) N' R' \<and> (\<forall>j. N j \<noteq> None \<longrightarrow> N' j = N j))"

lemma commit_adds:
  assumes "store_rep (cli_os env) s M N R" and "store_room (cli_os env) s" and "wf_header header" and "name_fits header"
    and "ENCODED_LEN + length body \<le> MAX_BLOCK_SIZE"
  shows "adds env dirs dir M N header body (commit env dirs (Ok (dir, s, header, body)))"
proof -
  from store_insert_spec [OF assms] obtain s' N' R' where "store_insert (cli_os env) header body s = Ok s'"
    "store_rep (cli_os env) s' (M(hdr_id header \<mapsto> (placed header body, body))) N' R'" "\<forall>j. N j \<noteq> None \<longrightarrow> N' j = N j" by blast
  then show ?thesis by (auto simp: adds_def commit_def Let_def)
qed

lemma new_header_facts [simp]:
  "hdr_id (new_header env name kind schema) = cli_fresh env 0" "hdr_kind (new_header env name kind schema) = kind"
  "hdr_name (new_header env name kind schema) = name"
  by (simp_all add: new_header_def header_new_def)

lemma named_type_first:
  assumes rep: "store_rep os s M N R" and "first_named M N name found"
  shows "named_type s name = required (ascii ''no such entity type: '' @ name) found"
proof -
  from find_by_name_spec [OF rep] obtain r where r: "find_entity_type_by_name s name = Ok r" "first_named M N name r" by blast
  then have "r = found" using first_named_unique [OF rep] assms(2) by blast
  then show ?thesis using r(1) by (simp add: named_type_def telling_def)
qed

text \<open>The words of the command line.\<close>

lemma words_apart:
  "ascii ''type'' \<noteq> ascii ''init''" "ascii ''entity'' \<noteq> ascii ''init''" "ascii ''entity'' \<noteq> ascii ''type''"
  "ascii ''policy'' \<noteq> ascii ''init''" "ascii ''policy'' \<noteq> ascii ''type''" "ascii ''policy'' \<noteq> ascii ''entity''"
  "ascii ''query'' \<noteq> ascii ''init''" "ascii ''query'' \<noteq> ascii ''type''" "ascii ''query'' \<noteq> ascii ''entity''" "ascii ''query'' \<noteq> ascii ''policy''"
  "ascii ''list'' \<noteq> ascii ''create''" "ascii ''get'' \<noteq> ascii ''create''" "ascii ''--name'' \<noteq> ascii ''--type''"
  by code_simp+

lemma flags_have_no_equals: "61 \<notin> set (ascii ''--type'')" "61 \<notin> set (ascii ''--name'')"
  by code_simp+

definition entity_flags :: "bytes \<Rightarrow> bytes \<Rightarrow> (bytes \<times> bytes) list \<Rightarrow> bytes list" where
  "entity_flags tname name kvs =
     [ascii ''--type'', tname, ascii ''--name'', name] @ map (\<lambda>(key, v). key @ 61 # v) kvs"

lemma split_once_key: "61 \<notin> set key \<Longrightarrow> split_once 61 (key @ 61 # v) = Some (key, v)"
proof -
  assume key: "61 \<notin> set key"
  have "dropWhile (\<lambda>c. c \<noteq> 61) (key @ 61 # v) = 61 # v" using key by (subst dropWhile_append2) auto
  moreover have "takeWhile (\<lambda>c. c \<noteq> 61) (key @ 61 # v) = key" using key by (subst takeWhile_append2) auto
  ultimately show ?thesis by (simp add: split_once_def)
qed

lemma entity_args_fields:
  "\<forall>(key, v) \<in> set kvs. 61 \<notin> set key \<Longrightarrow>
     entity_args (map (\<lambda>(key, v). key @ 61 # v) kvs) (Some t) (Some n) done = Ok (t, n, done @ kvs)"
proof (induction kvs arbitrary: "done")
  case (Cons f kvs)
  obtain key v where f: "f = (key, v)" by (cases f)
  have "key @ 61 # v \<noteq> ascii ''--type''" "key @ 61 # v \<noteq> ascii ''--name''" using flags_have_no_equals by (metis in_set_conv_decomp)+
  then show ?case using Cons f by (simp add: split_once_key required_def)
qed (simp add: required_def)

lemma parse_entity_flags:
  "\<forall>(key, v) \<in> set kvs. 61 \<notin> set key \<Longrightarrow> parse_entity_create_args (entity_flags tname name kvs) = Ok (tname, name, kvs)"
  using words_apart(13) by (simp add: parse_entity_create_args_def entity_flags_def entity_args_fields)

text \<open>The flags of a policy.\<close>

definition policy_words :: "effect \<Rightarrow> entity_kind option \<Rightarrow> bytes option \<Rightarrow> tuid \<Rightarrow> tuid \<Rightarrow> bytes list \<Rightarrow> bytes list" where
  "policy_words eff kind tname who role redact =
     [ascii ''--effect'', case eff of Permit \<Rightarrow> ascii ''permit'' | Deny \<Rightarrow> ascii ''deny''] @
     (case kind of Some k \<Rightarrow> [ascii ''--target-kind'', kind_name k] | None \<Rightarrow> []) @
     (case tname of Some t \<Rightarrow> [ascii ''--target-type'', t] | None \<Rightarrow> []) @
     [ascii ''--subject'', to_hex_string who, ascii ''--role'', to_hex_string role] @
     concat (map (\<lambda>f. [ascii ''--redact'', f]) redact)"

lemma cli_kinds:
  "cli_entity_kind (kind_name Data) = Ok Data"
  "cli_entity_kind (kind_name EntityAttribute) = Ok EntityAttribute"
  "cli_entity_kind (kind_name EntityType) = Ok EntityType"
  "cli_entity_kind (kind_name Subject) = Ok Subject"
  "cli_entity_kind (kind_name Layer) = Ok Layer"
  "cli_entity_kind (kind_name LayerGroup) = Ok LayerGroup"
  "cli_entity_kind (kind_name VariantList) = Ok VariantList"
  "cli_entity_kind (kind_name Role) = Ok Role"
  "cli_entity_kind (kind_name LinkType) = Ok LinkType"
  "cli_entity_kind (kind_name Link) = Ok Link"
  "cli_entity_kind (kind_name Policy) = Ok Policy"
  by code_simp+

lemma cli_kind_name [simp]: "cli_entity_kind (kind_name k) = Ok k"
  by (cases k) (simp_all only: cli_kinds)

lemma policy_words_apart:
  "ascii ''--target-kind'' \<noteq> ascii ''--effect''"
  "ascii ''--target-type'' \<noteq> ascii ''--effect''" "ascii ''--target-type'' \<noteq> ascii ''--target-kind''"
  "ascii ''--subject'' \<noteq> ascii ''--effect''" "ascii ''--subject'' \<noteq> ascii ''--target-kind''" "ascii ''--subject'' \<noteq> ascii ''--target-type''"
  "ascii ''--role'' \<noteq> ascii ''--effect''" "ascii ''--role'' \<noteq> ascii ''--target-kind''" "ascii ''--role'' \<noteq> ascii ''--target-type''"
  "ascii ''--role'' \<noteq> ascii ''--subject''"
  "ascii ''--redact'' \<noteq> ascii ''--effect''" "ascii ''--redact'' \<noteq> ascii ''--target-kind''" "ascii ''--redact'' \<noteq> ascii ''--target-type''"
  "ascii ''--redact'' \<noteq> ascii ''--subject''" "ascii ''--redact'' \<noteq> ascii ''--role''" "ascii ''deny'' \<noteq> ascii ''permit''"
  by code_simp+

lemma redact_args: "policy_args (concat (map (\<lambda>f. [ascii ''--redact'', f]) redact)) pf =
    Ok (pf\<lparr> pf_redact := pf_redact pf @ map (\<lambda>f. unat (field_id f)) redact \<rparr>)"
  using policy_words_apart by (induction redact arbitrary: pf) (simp_all add: policy_flag_def required_def)

lemma parse_policy_words:
  assumes "wf_tuid who" and "wf_tuid role"
  shows "parse_policy_create_args (policy_words eff kind tname who role redact) =
    Ok (eff, \<lparr> pf_effect = Some eff, pf_kind = kind, pf_type = tname, pf_subject = who, pf_role = role,
      pf_redact = map (\<lambda>f. unat (field_id f)) redact \<rparr>)"
  using assms policy_words_apart
  by (cases eff; cases kind; cases tname)
    (simp_all add: parse_policy_create_args_def policy_words_def policy_flag_def required_def cli_effect_def redact_args)

section \<open>Printing\<close>

lemma print_entities_stored:
  assumes rep: "store_rep os s M N R" and "set ids \<subseteq> dom M"
  shows "print_entities s ids = (map (\<lambda>i. entity_line (fst (the (M i)))) ids, Ok ())"
  using assms(2)
proof (induction ids)
  case (Cons i ids)
  then obtain h body where e: "M i = Some (h, body)" by auto
  then have "hdr_id h = i" using rep_ids [OF rep] by fastforce
  then show ?case using Cons e store_get_spec [OF rep, of i] by (simp add: entity_line_def)
qed simp

lemma print_ro [simp]: "print_entities (read_only s) ids = print_entities s ids"
  by (induction ids) (simp_all cong: outcome.case_cong)

text \<open>The lines of the fields a body was built from.\<close>

definition cli_fields :: "(bytes \<times> bytes) list \<Rightarrow> gbv_fields" where
  "cli_fields kvs = map (\<lambda>(key, v). (unat (field_id key), Str, v)) kvs"

lemma cli_body_built: "cli_body kvs = builder_finish (gbv_build (cli_fields kvs))"
proof -
  have "fold (\<lambda>(key, v). builder_push (unat (field_id key)) Str v) kvs b =
      foldl (\<lambda>b (k, t, v). builder_push k t v b) b (cli_fields kvs)" for b
    by (induction kvs arbitrary: b) (auto simp: cli_fields_def)
  then show ?thesis by (simp add: cli_body_def gbv_build_def)
qed

definition lines_of :: "(bytes \<times> bytes) list \<Rightarrow> bytes list" where
  "lines_of kvs =
     map (\<lambda>f. ascii ''  field['' @ show_nat (unat (field_id (fst f))) @ ascii ''] = '' @ snd f) (sort_key (\<lambda>f. unat (field_id (fst f))) kvs)"

lemma map_sort_key: "map g (sort_key (\<lambda>x. f (g x)) xs) = sort_key f (map g xs)"
proof -
  have ins: "map g (insort_key (\<lambda>x. f (g x)) x xs) = insort_key f (g x) (map g xs)" for x xs by (induction xs) auto
  show ?thesis by (induction xs) (simp_all add: ins)
qed

lemma key_ids_built:
  assumes "fields_ok fs" and "reader_new (builder_finish (gbv_build fs)) = Ok r"
  shows "key_ids r = Ok (sort (map fst fs))"
proof -
  let ?b = "gbv_build fs" and ?es = "sort_key key_id (b_entries (gbv_build fs))"
  have len: "length (b_entries ?b) = length fs" using gbv_build_keys [of fs] by (metis length_map)
  have r: "r = \<lparr> r_buf = builder_finish ?b, field_count = length (b_entries ?b),
      values_start = 2 + length (b_entries ?b) * DIRECTORY_ENTRY_LEN \<rparr>"
    using reader_new_finish [of ?b] assms len by (simp add: fields_ok_def)
  have nth: "nth_entry r i = ?es ! i" if "i < length fs" for i
    using nth_entry_finish [OF r gbv_build_ranges] assms(1) that len by (simp add: fields_ok_def)
  have ok: "reader_ok r" using assms(2) reader_new_ok by blast
  have fc: "field_count r = length fs" by (simp add: r len)
  have "all_entries r n = Ok (take n ?es)" if "n \<le> length fs" for n
    using that
  proof (induction n)
    case (Suc n)
    then have "entry_at r n = Ok (?es ! n)" using entry_at_nth [OF ok, of n] nth fc by simp
    then show ?case using Suc len by (simp add: take_Suc_conv_app_nth)
  qed simp
  from this [of "length fs"] have "key_ids r = Ok (map key_id ?es)" by (simp add: key_ids_def fc len)
  also have "map key_id ?es = sort (map key_id (b_entries ?b))" by (rule map_sort_key [of key_id "\<lambda>k. k"])
  finally show ?thesis by (simp add: gbv_build_keys)
qed

lemma print_fields_built:
  assumes "\<forall>key \<in> set keys. gbv_get r key = Ok (Some (Str, V key))"
  shows "print_fields r keys = (map (\<lambda>key. field_line key (V key)) keys, Ok ())"
  using assms by (induction keys) simp_all

lemma print_created:
  assumes "hdr_kind h = Data" and "fields_ok (cli_fields kvs)" and "distinct (map fst (cli_fields kvs))"
    and "\<forall>(key, v) \<in> set kvs. utf8_valid v"
  shows "print_entity h (cli_body kvs) = (header_lines h @ lines_of kvs, Ok ())"
proof -
  let ?fs = "cli_fields kvs" and ?k = "\<lambda>f. unat (field_id (fst f)) :: nat"
  have "length (b_entries (gbv_build ?fs)) \<le> u16_max"
    using assms(2) gbv_build_keys [of ?fs] by (metis fields_ok_def length_map)
  from reader_new_finish [OF this] obtain r where r: "reader_new (builder_finish (gbv_build ?fs)) = Ok r" by blast
  have keys: "map fst ?fs = map ?k kvs" by (simp add: cli_fields_def case_prod_unfold comp_def)
  have at: "gbv_get r (?k f) = Ok (Some (Str, snd f))" if "f \<in> set kvs" for f
  proof -
    obtain key v where "f = (key, v)" by (cases f)
    then have "(?k f, Str, snd f) \<in> set ?fs" using that by (force simp: cli_fields_def)
    then have "map_of ?fs (?k f) = Some (Str, snd f)" using assms(3) by simp
    then show ?thesis using gbv_get_built [OF assms(2,3) r] by simp
  qed
  define V where "V = (\<lambda>k. snd (the (find (\<lambda>f. ?k f = k) kvs)))"
  have V: "V (?k f) = snd f" if f: "f \<in> set kvs" for f
  proof -
    have "find (\<lambda>g. ?k g = ?k f) kvs \<noteq> None" using f unfolding find_None_iff by blast
    then obtain f' where f': "find (\<lambda>g. ?k g = ?k f) kvs = Some f'" by blast
    then have "f' \<in> set kvs" "?k f' = ?k f" by (auto simp: find_Some_iff)
    then have "gbv_get r (?k f) = Ok (Some (Str, snd f'))" using at by fastforce
    then show ?thesis using at [OF f] f' by (simp add: V_def)
  qed
  have "print_fields r (sort (map fst ?fs)) = (map (\<lambda>key. field_line key (V key)) (sort (map fst ?fs)), Ok ())"
    by (rule print_fields_built) (use at V in \<open>auto simp: keys\<close>)
  moreover have "sort (map fst ?fs) = map ?k (sort_key ?k kvs)" unfolding keys by (rule map_sort_key [of ?k "\<lambda>k. k" kvs, symmetric])
  moreover have "map (\<lambda>key. field_line key (V key)) (map ?k (sort_key ?k kvs)) = lines_of kvs"
    using V assms(4) by (auto simp: lines_of_def field_line_def case_prod_unfold)
  ultimately have "print_fields r (sort (map fst ?fs)) = (lines_of kvs, Ok ())" by simp
  then show ?thesis
    using assms(1) r key_ids_built [OF assms(2) r] by (simp add: print_entity_def cli_body_built Let_def del: print_fields.simps)
qed

section \<open>Reading with and without a subject\<close>

definition as_flags :: "subject_context option \<Rightarrow> bytes list" where
  "as_flags who =
     (case who of
        Some ctx \<Rightarrow> [ascii ''--as'', to_hex_string (ctx_subject ctx) @ concat (map (\<lambda>r. 44 # to_hex_string r) (ctx_roles ctx))]
      | None \<Rightarrow> [])"

lemma hex2_digits: "c \<in> set (hex2 b) \<Longrightarrow> 48 \<le> unat c"
proof -
  have "unat b div 16 < 16" using unsigned_less [of b, where 'a=nat] by (simp add: less_mult_imp_div_less)
  then show "c \<in> set (hex2 b) \<Longrightarrow> 48 \<le> unat c" by (auto simp: hex2_def unat_hex_char)
qed

lemma hex_digits_only: "c \<in> set (to_hex_string i) \<Longrightarrow> 48 \<le> unat c"
  using hex2_digits by (auto simp: to_hex_string_def)

lemma hex_no_comma: "44 \<notin> set (to_hex_string i)"
  using hex_digits_only by fastforce

lemma split_hexes: "split_on 44 (to_hex_string i @ concat (map (\<lambda>r. 44 # to_hex_string r) rs)) = to_hex_string i # map to_hex_string rs"
  using hex_no_comma by (induction rs arbitrary: i) (simp_all add: split_on_plain split_on_append)

lemma as_roles_hex: "list_all wf_tuid rs \<Longrightarrow> as_roles (map to_hex_string rs) = Ok rs"
  by (induction rs) simp_all

lemma as_value_hex:
  "wf_tuid (ctx_subject ctx) \<Longrightarrow> list_all wf_tuid (ctx_roles ctx) \<Longrightarrow>
     as_value (to_hex_string (ctx_subject ctx) @ concat (map (\<lambda>r. 44 # to_hex_string r) (ctx_roles ctx))) = Ok ctx"
  by (simp add: as_value_def Let_def split_hexes as_roles_hex)

definition ctx_wf :: "subject_context option \<Rightarrow> bool" where
  "ctx_wf who = (case who of Some ctx \<Rightarrow> wf_tuid (ctx_subject ctx) \<and> list_all wf_tuid (ctx_roles ctx) | None \<Rightarrow> True)"

lemma extract_flags:
  "ascii ''--as'' \<notin> set [a, b] \<Longrightarrow> ctx_wf who \<Longrightarrow> extract_as_flag ([a, b] @ as_flags who) = Ok ([a, b], who)"
  by (cases who) (auto simp: extract_as_flag_def as_flags_def ctx_wf_def as_value_hex)

lemma hex_is_no_flag: "to_hex_string i \<noteq> ascii ''--as''"
proof -
  have "45 \<in> set (ascii ''--as'')" by code_simp
  moreover have "45 \<notin> set (to_hex_string i)" using hex_digits_only by fastforce
  ultimately show ?thesis by metis
qed

text \<open>
  C19: reading on the command line. Without \<^verbatim>\<open>--as\<close> the whole store is read: a lookup prints the stored entity, a
  query one line for each answer. With it, and where the stored policies decode, a lookup prints what enforcement
  leaves of a visible entity and finds no other, and a query prints the visible answers; a policy that does not
  decode fails both. No directory changes.
\<close>

theorem cli_reads:
  assumes "dirs dir = Some (store_image s)" and "store_rep (cli_os env) s M N R" and "no_drift (cli_os env) (length (extents (st_data s)))"
    and "ctx_wf who" and "ascii ''--as'' \<notin> set [dir, t]" and "wf_tuid i"
    and "parse (cli_classes env) t = Ok q" and "store_query s q = Ok ids"
  shows "let look = cli_run env ([ascii ''entity'', ascii ''get'', dir, to_hex_string i] @ as_flags who) dirs;
      ask = cli_run env ([ascii ''query'', dir, t] @ as_flags who) dirs;
      absent = (dirs, [], Err (Note (ascii ''no such entity'')));
      line = (\<lambda>j. entity_line (fst (the (M j)))) in
    case who of
      None \<Rightarrow>
        look = (case M i of Some (h, body) \<Rightarrow> (dirs, print_entity h body) | None \<Rightarrow> absent) \<and> ask = (dirs, map line ids, Ok ())
    | Some ctx \<Rightarrow>
        (\<forall>ps. load_policies s = Ok ps \<longrightarrow>
           (case M i of
              Some (h, body) \<Rightarrow>
                if visible ps ctx h then \<exists>out. enforce ps ctx [(h, body)] = Ok [(h, out)] \<and> look = (dirs, print_entity h out)
                else look = absent
            | None \<Rightarrow> look = absent) \<and>
           ask = (dirs, map line (filter (\<lambda>j. visible ps ctx (fst (the (M j)))) ids), Ok ())) \<and>
        (\<forall>e. load_policies s = Err e \<longrightarrow> (M i \<noteq> None \<longrightarrow> look = (dirs, [], Err (OfStore e))) \<and> ask = (dirs, [], Err (OfStore e)))"
proof -
  obtain s' where opened: "cli_open env dirs dir False = Ok (read_only s')" and rep: "store_rep (cli_os env) s' M N R"
    and same: "store_query s' = store_query s" "load_policies s' = load_policies s" 
    by (rule cli_open_reading [of dirs dir s env, OF assms(1-3)])
  have q: "store_query s' q = Ok ids" using assms(8) same by simp
  let ?found = "case who of Some ctx \<Rightarrow> get_enforced s' i ctx | None \<Rightarrow> store_get s' i"
  have look: "cli_run env ([ascii ''entity'', ascii ''get'', dir, to_hex_string i] @ as_flags who) dirs =
      (dirs, report (obind (telling OfStore ?found) (\<lambda>found.
         case found of None \<Rightarrow> Err (Note (ascii ''no such entity'')) | Some (header, body) \<Rightarrow> Ok (print_entity header body))))"
    using words_apart extract_flags [of dir "to_hex_string i" who] assms(4,5,6) hex_is_no_flag [of i] opened
    by (simp add: cli_run_def cmd_entity_get_def get_opt_def require_arg_def required_def Let_def split: option.split)
  have ask: "cli_run env ([ascii ''query'', dir, t] @ as_flags who) dirs =
      (dirs, report (telling OfStore
        (case who of
           Some ctx \<Rightarrow> omap (\<lambda>es. (map (\<lambda>(header, _). entity_line header) es, Ok ())) (query_enforced s' q ctx)
         | None \<Rightarrow> Ok (print_entities s' ids))))"
    using words_apart extract_flags [of dir t who] assms(4,5,7) opened q
    by (simp add: cli_run_def cmd_query_def get_opt_def require_arg_def required_def telling_def Let_def split: option.split)
  show ?thesis
  proof (cases who)
    case None
    then show ?thesis unfolding look ask Let_def
      using store_get_spec [OF rep, of i] print_entities_stored [OF rep query_ids_dom [OF rep q]]
      by (simp add: telling_def report_def split: option.split prod.split)
  next
    case (Some ctx)
    have "(case M i of
          Some (h, body) \<Rightarrow>
            if visible ps ctx h then \<exists>out. enforce ps ctx [(h, body)] = Ok [(h, out)] \<and> get_enforced s' i ctx = Ok (Some (h, out))
            else get_enforced s' i ctx = Ok None
        | None \<Rightarrow> get_enforced s' i ctx = Ok None)" if "load_policies s = Ok ps" for ps
      using get_enforced_spec [OF rep, of ps i ctx] that same by (auto split: option.splits)
    moreover have "\<exists>ys. query_enforced s' q ctx = Ok ys \<and> map (\<lambda>(header, _). entity_line header) ys =
        map (\<lambda>j. entity_line (fst (the (M j)))) (filter (\<lambda>j. visible ps ctx (fst (the (M j)))) ids)" if "load_policies s = Ok ps" for ps
    proof -
      from query_enforced_spec [OF rep _ q, of ps ctx] that same obtain ys where
        ys: "query_enforced s' q ctx = Ok ys" "enforce ps ctx (map (\<lambda>i. the (M i)) ids) = Ok ys" by auto
      have "map (\<lambda>(header, _). entity_line header) ys = map entity_line (map fst ys)" by (simp add: case_prod_unfold)
      also have "\<dots> = map (\<lambda>j. entity_line (fst (the (M j)))) (filter (\<lambda>j. visible ps ctx (fst (the (M j)))) ids)"
        using enforce_headers [OF ys(2)] by (simp add: visible_def [abs_def] filter_map comp_def)
      finally show ?thesis using ys(1) by blast
    qed
    moreover have "(M i \<noteq> None \<longrightarrow> get_enforced s' i ctx = Err e) \<and> query_enforced s' q ctx = Err e" if "load_policies s = Err e" for e
      using enforced_fail_closed [OF rep, of e] that same q by auto
    ultimately show ?thesis unfolding look ask Let_def using Some
      by (fastforce simp: telling_def report_def split: option.splits if_splits)
  qed
qed

section \<open>The commands that write\<close>

lemma schema_of_first:
  assumes "store_rep os s M N R" and "first_named M N name (Some t)"
  shows "wf_tuid t"
proof -
  obtain e where e: "M t = Some e" using assms(2) by (auto simp: first_named_def Let_def entities_where_def)
  obtain P c where "entities_in c P M" using assms(1) by (auto simp: store_rep_def)
  then obtain p where "holds_entity c p t e" using entities_facts [of c P M] e by (metis domD domI option.sel)
  then have "entity_ok t e" by (simp add: holds_entity_def)
  then show ?thesis by (auto simp: entity_ok_def wf_header_def)
qed

lemma new_header_wf: "wf_tuid (cli_fresh env 0) \<Longrightarrow> wf_tuid (cli_fresh env 1) \<Longrightarrow> utf8_valid name \<Longrightarrow> wf_tuid schema \<Longrightarrow>
    wf_header (new_header env name kind schema)"
  by (simp add: new_header_def header_new_ok)

lemma run_type_create: "cli_run env [ascii ''type'', ascii ''create'', dir, name] dirs = commit env dirs (type_create_plan env dirs [dir, name])"
  using words_apart by (simp add: cli_run_def get_opt_def Let_def)

lemma run_entity_create:
  "cli_run env ([ascii ''entity'', ascii ''create'', dir] @ flags) dirs = commit env dirs (entity_create_plan env dirs (dir # flags))"
  using words_apart by (simp add: cli_run_def get_opt_def Let_def)

lemma run_policy_create:
  "cli_run env ([ascii ''policy'', ascii ''create'', dir] @ flags) dirs = commit env dirs (policy_create_plan env dirs (dir # flags))"
  using words_apart by (simp add: cli_run_def get_opt_def Let_def)

lemma truncate_short: "length name \<le> NAME_MAX \<Longrightarrow> truncate_utf8 name NAME_MAX = name"
  by (simp add: truncate_utf8_def)

lemma policy_named: "utf8_valid (ascii ''policy'')"
  by code_simp

lemma policy_small:
  assumes "wf_tuid (target_schema (target p))" "wf_tuid (pred_subject (subject p))" "wf_tuid (pred_role (subject p))"
    and "length (redact_attributes p) \<le> 1000"
  shows "ENCODED_LEN + length (policy_encode p) \<le> MAX_BLOCK_SIZE"
proof -
  have "length (concat (map (le_bytes 4) as)) = 4 * length as" for as by (induction as) simp_all
  then show ?thesis using assms
    by (simp add: policy_encode_def wf_tuid_def TUID_LEN_def ENCODED_LEN_def extent_consts split: option.split)
qed

text \<open>
  C18: writing on the command line. Where the directory holds a store with room, each command that creates something puts
  one entity into the map of the store, under the fresh identifier that it prints, and changes nothing else: a type of the
  given name, an entity of a named type with the given fields, which printing shows as they were given, and a policy, whose stored body decodes to what
  the flags say. An unknown type is an error that changes nothing.
\<close>

theorem cli_writes:
  assumes "dirs dir = Some (store_image s)" and "store_rep (cli_os env) s M N R" and "store_room (cli_os env) s"
    and "wf_tuid (cli_fresh env 0)" and "wf_tuid (cli_fresh env 1)" and "utf8_valid name" and "\<forall>(key, v) \<in> set kvs. 61 \<notin> set key"
    and "ENCODED_LEN + length (cli_body kvs) \<le> MAX_BLOCK_SIZE" and "wf_tuid who" and "wf_tuid role" and "length redact \<le> 1000"
    and "first_named M N tname found"
  shows "let created = (\<lambda>words. cli_run env words dirs);
      result = created ([ascii ''entity'', ascii ''create'', dir] @ entity_flags tname name kvs);
      policy = created ([ascii ''policy'', ascii ''create'', dir] @ policy_words eff kind (Some tname) who role redact);
      unknown = (dirs, [], Err (Note (ascii ''no such entity type: '' @ tname))) in
    (length name \<le> NAME_MAX \<longrightarrow>
       adds env dirs dir M N (new_header env name EntityType NIL) (entity_type_encode plain_type)
         (created [ascii ''type'', ascii ''create'', dir, name])) \<and>
    (case found of
       None \<Rightarrow> result = unknown \<and> policy = unknown
     | Some t \<Rightarrow>
         adds env dirs dir M N (new_header env name Data t) (cli_body kvs) result \<and>
         (fields_ok (cli_fields kvs) \<and> distinct (map fst (cli_fields kvs)) \<and> (\<forall>(key, v) \<in> set kvs. utf8_valid v) \<longrightarrow>
            print_entity (placed (new_header env name Data t) (cli_body kvs)) (cli_body kvs) =
              (header_lines (placed (new_header env name Data t) (cli_body kvs)) @ lines_of kvs, Ok ())) \<and>
         (\<exists>body. adds env dirs dir M N (new_header env (ascii ''policy'') Policy NIL) body policy \<and>
            policy_decode body = Ok \<lparr> target = \<lparr> target_kind = kind, target_schema = t \<rparr>,
              subject = \<lparr> pred_subject = who, pred_role = role \<rparr>, effect = eff,
              redact_attributes = map (\<lambda>f. unat (field_id f)) redact \<rparr>))"
proof -
  obtain s' where opened: "cli_open env dirs dir True = Ok s'" and rep: "store_rep (cli_os env) s' M N R" and room: "store_room (cli_os env) s'"
    by (rule cli_open_writing [of dirs dir s env, OF assms(1-3)])
  note header = new_header_wf [OF assms(4,5)]
  note named = named_type_first [OF rep assms(12)]
  have nil: "wf_tuid NIL" by simp
  let ?pol = "\<lambda>t. \<lparr> target = \<lparr> target_kind = kind, target_schema = t \<rparr>, subject = \<lparr> pred_subject = who, pred_role = role \<rparr>,
     effect = eff, redact_attributes = map (\<lambda>f. unat (field_id f)) redact \<rparr>"
  have mktype: "adds env dirs dir M N (new_header env name EntityType NIL) (entity_type_encode plain_type)
      (cli_run env [ascii ''type'', ascii ''create'', dir, name] dirs)" if "length name \<le> NAME_MAX"
  proof -
    have "ENCODED_LEN + length (entity_type_encode plain_type) \<le> MAX_BLOCK_SIZE" 
      by (simp add: entity_type_encode_def plain_type_def write_tuid_list_def ENCODED_LEN_def extent_consts)
    from commit_adds [OF rep room header [OF assms(6) nil] _ this] truncate_short [OF that] show ?thesis
      unfolding run_type_create using opened by (simp add: type_create_plan_def require_arg_def required_def get_opt_def name_fits_def)
  qed
  have ent: "cli_run env ([ascii ''entity'', ascii ''create'', dir] @ entity_flags tname name kvs) dirs =
      commit env dirs (omap (\<lambda>t. (dir, s', new_header env name Data t, cli_body kvs)) (required (ascii ''no such entity type: '' @ tname) found))"
    unfolding run_entity_create using opened parse_entity_flags [OF assms(7), of tname name] named
    by (cases found) (simp_all add: entity_create_plan_def get_opt_def required_def)
  have pol: "cli_run env ([ascii ''policy'', ascii ''create'', dir] @ policy_words eff kind (Some tname) who role redact) dirs =
      commit env dirs (omap (\<lambda>t. (dir, s', new_header env (ascii ''policy'') Policy NIL, policy_encode (?pol t)))
        (required (ascii ''no such entity type: '' @ tname) found))"
    unfolding run_policy_create using opened parse_policy_words [OF assms(9,10), of eff kind "Some tname" redact] named
    by (cases found) (simp_all add: policy_create_plan_def get_opt_def required_def Let_def)
  show ?thesis
  proof (cases found)
    case None
    then show ?thesis unfolding Let_def ent pol using mktype by (simp add: required_def commit_def)
  next
    case (Some t)
    have t: "wf_tuid t" using schema_of_first [OF rep] assms(12) Some by blast
    have "adds env dirs dir M N (new_header env name Data t) (cli_body kvs) (commit env dirs (Ok (dir, s', new_header env name Data t, cli_body kvs)))"
      by (rule commit_adds [OF rep room header [OF assms(6) t] _ assms(8)]) (simp add: name_fits_def)
    moreover have "policy_ok (?pol t)" using t assms(9-11) unsigned_less [where 'a=nat and 'b=32]
      by (auto simp: policy_ok_def list_all_iff less_Suc_eq_le [symmetric])
    then have "policy_decode (policy_encode (?pol t)) = Ok (?pol t)" by (rule policy_decode_encode)
    moreover have "adds env dirs dir M N (new_header env (ascii ''policy'') Policy NIL) (policy_encode (?pol t))
        (commit env dirs (Ok (dir, s', new_header env (ascii ''policy'') Policy NIL, policy_encode (?pol t))))"
      by (rule commit_adds [OF rep room header [OF policy_named nil] _ policy_small]) (use t assms(9-11) in \<open>simp_all add: name_fits_def\<close>)
    moreover have "hdr_kind (placed (new_header env name Data t) (cli_body kvs)) = Data" by simp
    note print_created [OF this]
    ultimately show ?thesis unfolding Let_def ent pol using mktype Some by (auto simp: required_def)
  qed
qed

section \<open>Witnesses\<close>

definition sample_cli :: cli_env where
  "sample_cli = \<lparr> cli_os = 4096, cli_classes = ascii_classes,
     cli_fresh = (\<lambda>n. Tuid (replicate TUID_LEN (of_nat (n + 1)))), cli_lost = (\<lambda>header body s. s) \<rparr>"

lemma sample_ids: "wf_tuid (cli_fresh sample_cli n)"
  by (simp add: sample_cli_def wf_tuid_def)

lemma cli_writes_witness:
  "\<exists>s. store_create 4096 = Ok s \<and>
     adds sample_cli [[97] \<mapsto> store_image s] [97] Map.empty Map.empty (new_header sample_cli [104] EntityType NIL) (entity_type_encode plain_type)
       (cli_run sample_cli [ascii ''type'', ascii ''create'', [97], [104]] [[97] \<mapsto> store_image s])"
proof -
  obtain s where s: "store_create 4096 = Ok s" "store_rep (cli_os sample_cli) s Map.empty Map.empty Map.empty" "store_room (cli_os sample_cli) s"
    using fresh_store by (auto simp: sample_cli_def)
  have d: "[[97 :: u8] \<mapsto> store_image s] [97] = Some (store_image s)" by simp
  have none: "first_named Map.empty Map.empty [104] None" by (simp add: first_named_def entities_where_def)
  have small: "ENCODED_LEN + length (cli_body []) \<le> MAX_BLOCK_SIZE"
    by (simp add: cli_body_def builder_finish_def builder_new_def ENCODED_LEN_def extent_consts)
  have fits: "length [104 :: u8] \<le> NAME_MAX" by (simp add: NAME_MAX_def)
  have valid: "utf8_valid [104]" by (simp add: valid_ascii)
  from cli_writes [of "[[97] \<mapsto> store_image s]" "[97]" s sample_cli, OF d s(2,3) sample_ids sample_ids valid _ small _ _ _ none,
    of NIL NIL "[]" Permit None] fits s(1)
  show ?thesis by (auto simp: Let_def)
qed

lemma all_query: "parse ascii_classes (ascii ''SELECT * FROM entities'') =
    Ok \<lparr> q_select = All, q_from = ascii ''entities'', q_filter = None, q_order_by = [], q_limit = None \<rparr>"
  by code_simp

lemma cli_reads_witness:
  "\<exists>s. store_create 4096 = Ok s \<and>
     cli_run sample_cli [ascii ''query'', [97], ascii ''SELECT * FROM entities''] [[97] \<mapsto> store_image s] = ([[97] \<mapsto> store_image s], [], Ok ())"
proof -
  obtain s where s: "store_create 4096 = Ok s" "store_rep (cli_os sample_cli) s Map.empty Map.empty Map.empty"
    "no_drift (cli_os sample_cli) (length (extents (st_data s)))" using fresh_store by (auto simp: sample_cli_def no_drift_def extent_consts)
  have d: "[[97 :: u8] \<mapsto> store_image s] [97] = Some (store_image s)" by simp
  let ?t = "ascii ''SELECT * FROM entities''"
  let ?q = "\<lparr> q_select = All, q_from = ascii ''entities'', q_filter = None, q_order_by = [], q_limit = None \<rparr>"
  have p: "parse (cli_classes sample_cli) ?t = Ok ?q" using all_query by (simp add: sample_cli_def)
  have q: "store_query s ?q = Ok []"
  proof -
    from store_query_spec [OF s(2)] obtain T where "store_query s ?q = query_spec Map.empty T ?q" by blast
    then show ?thesis by (simp add: query_spec_def limited_def eq_ignore_ascii_case_def)
  qed
  have apart: "ascii ''--as'' \<notin> set [[97], ?t]" by code_simp
  from cli_reads [of "[[97] \<mapsto> store_image s]" "[97]" s sample_cli, OF d s(2,3) _ apart _ p q, of None NIL] s(1)
  show ?thesis by (auto simp: ctx_wf_def as_flags_def Let_def)
qed

end
