(* ===== verification/Gems_Deploy.thy ===== *)
theory Gems_Deploy
  imports Gems_Web_Roles Gems_Raft_Node "HOL-Library.AList"
begin

text \<open>
  Starting and using a cluster: \<^verbatim>\<open>gems-cluster/src/bin/node.rs\<close>, and the client that the web server makes from the same
  environment (\<^verbatim>\<open>build_sharded_client_from_env\<close> of \<^verbatim>\<open>gems-webui/src/write_api.rs\<close>). The environment is a map from names of
  variables to values; resolving an address, with its retries, is the parameter \<open>resolve\<close>, and the order in which
  a \<^verbatim>\<open>HashMap\<close> of shards is visited is \<open>visit\<close>. An error is its message, less the values that it quotes. The two readers of the map of
  shards agree on where an entity goes exactly where no shard is listed twice.
\<close>

section \<open>The map of shards\<close>

record shard_member =
  mb_node :: nat
  mb_peer :: bytes
  mb_client :: bytes

definition as_u32 :: "nat \<Rightarrow> nat" where
  "as_u32 n = n mod 4294967296"

definition map_error :: "string \<Rightarrow> bytes" where
  "map_error s = ascii (''GEMS_SHARD_MAP: '' @ s)"

definition shard_list :: "json \<Rightarrow> json list tool" where
  "shard_list v = required (map_error ''missing top-level \"shards\" array'') (Option.bind (json_get v (ascii ''shards'')) as_array)"

definition shard_number :: "json \<Rightarrow> nat tool" where
  "shard_number entry =
     omap as_u32 (required (map_error ''a shard entry is missing an integer \"shard\" id'') (Option.bind (json_get entry (ascii ''shard'')) as_u64))"

definition member_list :: "json \<Rightarrow> json list tool" where
  "member_list entry =
     required (map_error ''a shard entry is missing a \"members\" array'') (Option.bind (json_get entry (ascii ''members'')) as_array)"

definition member_node :: "json \<Rightarrow> nat tool" where
  "member_node v =
     omap as_u32 (required (map_error ''a member is missing an integer \"node\" id'') (Option.bind (json_get v (ascii ''node'')) as_u64))"

definition member_str :: "string \<Rightarrow> string \<Rightarrow> json \<Rightarrow> bytes tool" where
  "member_str msg key v = required (map_error msg) (Option.bind (json_get v (ascii key)) as_str)"

definition client_of :: "json \<Rightarrow> bytes tool" where
  "client_of = member_str ''a member is missing its \"client\" address'' ''client''"

definition parse_member :: "json \<Rightarrow> shard_member tool" where
  "parse_member v =
     obind (member_node v) (\<lambda>node.
     obind (member_str ''a member is missing its \"peer\" address'' ''peer'' v) (\<lambda>peer.
     omap (\<lambda>addr. \<lparr> mb_node = node, mb_peer = peer, mb_client = addr \<rparr>) (client_of v)))"

primrec parse_members :: "json list \<Rightarrow> shard_member list tool" where
  "parse_members [] = Ok []"
| "parse_members (v # vs) = obind (parse_member v) (\<lambda>m. omap (\<lambda>ms. m # ms) (parse_members vs))"

text \<open>A later entry of a shard replaces an earlier one.\<close>

type_synonym shard_table = "(nat \<times> shard_member list) list"

primrec parse_shards :: "json list \<Rightarrow> shard_table \<Rightarrow> shard_table tool" where
  "parse_shards [] t = Ok t"
| "parse_shards (entry # es) t =
     obind (shard_number entry) (\<lambda>shard.
     obind (obind (member_list entry) parse_members) (\<lambda>ms.
     parse_shards es (AList.update shard ms t)))"

definition map_root :: "bytes \<Rightarrow> json tool" where
  "map_root src = telling (\<lambda>e. OfBody (BodyNotJson e)) (json_parse src)"

definition parse_shard_map :: "bytes \<Rightarrow> shard_table tool" where
  "parse_shard_map src = obind (obind (map_root src) shard_list) (\<lambda>es. parse_shards es [])"

section \<open>The environment\<close>

type_synonym process_env = "bytes \<rightharpoonup> bytes"

definition env_var :: "process_env \<Rightarrow> string \<Rightarrow> bytes tool" where
  "env_var vars name = required (ascii (''$'' @ name @ '' must be set'')) (vars (ascii name))"

definition env_var_parsed :: "process_env \<Rightarrow> string \<Rightarrow> (bytes \<Rightarrow> 'a option) \<Rightarrow> 'a \<Rightarrow> 'a tool" where
  "env_var_parsed vars name from_str otherwise =
     (case vars (ascii name) of
        Some raw \<Rightarrow> required (ascii (''$'' @ name @ '' is set but not a valid value'')) (from_str raw)
      | None \<Rightarrow> Ok otherwise)"

definition parse_below :: "nat \<Rightarrow> bytes \<Rightarrow> nat option" where
  "parse_below m s = Option.bind (parse_u64 s) (\<lambda>n. if n \<le> m then Some n else None)"

text \<open>\<^verbatim>\<open>rsplit_once(':')\<close>, and a port.\<close>

definition rsplit_once :: "u8 \<Rightarrow> bytes \<Rightarrow> (bytes \<times> bytes) option" where
  "rsplit_once b s = map_option (\<lambda>(r, l). (rev l, rev r)) (split_once b (rev s))"

definition port_of :: "bytes \<Rightarrow> nat tool" where
  "port_of host_port =
     required (ascii ''not a valid host:port string'')
       (Option.bind (rsplit_once 58 host_port) (\<lambda>(_, port). parse_below u16_max port))"

text \<open>A variable that may not be empty.\<close>

definition env_secret :: "process_env \<Rightarrow> string \<Rightarrow> bytes tool" where
  "env_secret vars name =
     obind (env_var vars name) (\<lambda>v. if v = [] then Err (Note (ascii (''$'' @ name @ '' must not be empty''))) else Ok v)"

section \<open>Clients\<close>

definition resolved :: "(bytes \<Rightarrow> 'addr option) \<Rightarrow> bytes \<Rightarrow> 'addr tool" where
  "resolved resolve host_port = required (ascii ''could not resolve '' @ host_port) (resolve host_port)"

primrec add_members :: "(bytes \<Rightarrow> 'addr option) \<Rightarrow> nat \<Rightarrow> shard_member list \<Rightarrow> 'addr shard_map \<Rightarrow> 'addr shard_map tool" where
  "add_members resolve shard [] m = Ok m"
| "add_members resolve shard (mb # ms) m =
     obind (resolved resolve (mb_client mb)) (\<lambda>addr. add_members resolve shard ms (add_member shard (mb_node mb) addr m))"

primrec add_shards :: "(bytes \<Rightarrow> 'addr option) \<Rightarrow> shard_table \<Rightarrow> 'addr shard_map \<Rightarrow> 'addr shard_map tool" where
  "add_shards resolve [] m = Ok m"
| "add_shards resolve (e # es) m = obind (add_members resolve (fst e) (snd e) m) (add_shards resolve es)"

text \<open>The client of \<^verbatim>\<open>node.rs\<close>: the number of shards of its router, and the map.\<close>

definition build_sharded_client ::
  "(shard_table \<Rightarrow> shard_table) \<Rightarrow> (bytes \<Rightarrow> 'addr option) \<Rightarrow> bytes \<Rightarrow> (nat \<times> 'addr shard_map) tool" where
  "build_sharded_client visit resolve src =
     obind (parse_shard_map src) (\<lambda>t.
     let num_shards = as_u32 (length t) in
     if num_shards = 0 then Err (Note (ascii ''GEMS_SHARD_MAP has no shards''))
     else omap (\<lambda>m. (num_shards, m)) (add_shards resolve (visit t) Map.empty))"

text \<open>The client of the web server.\<close>

primrec web_members :: "(bytes \<Rightarrow> 'addr option) \<Rightarrow> nat \<Rightarrow> json list \<Rightarrow> 'addr shard_map \<Rightarrow> 'addr shard_map tool" where
  "web_members resolve shard [] m = Ok m"
| "web_members resolve shard (v # vs) m =
     obind (member_node v) (\<lambda>node.
     obind (client_of v) (\<lambda>host_port.
     obind (resolved resolve host_port) (\<lambda>addr.
     web_members resolve shard vs (add_member shard node addr m))))"

primrec web_shards :: "(bytes \<Rightarrow> 'addr option) \<Rightarrow> json list \<Rightarrow> 'addr shard_map \<Rightarrow> 'addr shard_map tool" where
  "web_shards resolve [] m = Ok m"
| "web_shards resolve (entry # es) m =
     obind (shard_number entry) (\<lambda>shard.
     obind (member_list entry) (\<lambda>vs.
     obind (web_members resolve shard vs m) (web_shards resolve es)))"

definition build_sharded_client_from_env :: "(bytes \<Rightarrow> 'addr option) \<Rightarrow> bytes \<Rightarrow> (nat \<times> 'addr shard_map) tool" where
  "build_sharded_client_from_env resolve src =
     obind (obind (map_root src) shard_list) (\<lambda>es.
     let num_shards = as_u32 (length es) in
     obind (web_shards resolve es Map.empty) (\<lambda>m.
     if num_shards = 0 then Err (Note (ascii ''GEMS_SHARD_MAP has no shards'')) else Ok (num_shards, m)))"

section \<open>Serving\<close>

record 'addr serve_config =
  sc_shard :: nat
  sc_node :: nat
  sc_store :: bytes
  sc_secret :: bytes
  sc_tick_ms :: nat
  sc_timing :: raft_timing
  sc_peer_port :: nat
  sc_client_port :: nat
  sc_peers :: "(nat \<times> 'addr) list"

primrec resolve_peers :: "(bytes \<Rightarrow> 'addr option) \<Rightarrow> nat \<Rightarrow> shard_member list \<Rightarrow> (nat \<times> 'addr) list \<Rightarrow> (nat \<times> 'addr) list tool" where
  "resolve_peers resolve node [] others_at = Ok others_at"
| "resolve_peers resolve node (mb # ms) others_at =
     (if mb_node mb = node then resolve_peers resolve node ms others_at
      else obind (resolved resolve (mb_peer mb)) (\<lambda>addr. resolve_peers resolve node ms (AList.update (mb_node mb) addr others_at)))"

definition serve_plan :: "(bytes \<Rightarrow> 'addr option) \<Rightarrow> process_env \<Rightarrow> 'addr serve_config tool" where
  "serve_plan resolve vars =
     obind (env_var_parsed vars ''GEMS_NODE_SHARD'' (parse_below u32_max) 0) (\<lambda>shard.
     obind (obind (env_var vars ''GEMS_NODE_ID'')
       (\<lambda>raw. required (ascii ''GEMS_NODE_ID must be a valid node id (u32)'') (parse_below u32_max raw))) (\<lambda>node.
     obind (obind (env_var vars ''GEMS_SHARD_MAP'') parse_shard_map) (\<lambda>t.
     obind (env_var vars ''GEMS_STORE_DIR'') (\<lambda>dir.
     obind (env_secret vars ''GEMS_CLUSTER_SECRET'') (\<lambda>secret.
     obind (env_var_parsed vars ''GEMS_TICK_MS'' parse_u64 200) (\<lambda>tick_ms.
     obind (env_var_parsed vars ''GEMS_HEARTBEAT_TICKS'' (parse_below u32_max) 3) (\<lambda>heartbeat.
     obind (env_var_parsed vars ''GEMS_ELECTION_MIN_TICKS'' (parse_below u32_max) 8) (\<lambda>lo.
     obind (env_var_parsed vars ''GEMS_ELECTION_MAX_TICKS'' (parse_below u32_max) 15) (\<lambda>hi.
     obind (required (ascii ''GEMS_SHARD_MAP has no entry for shard '' @ show_nat shard) (map_of t shard)) (\<lambda>ms.
     obind (required (ascii ''shard '' @ show_nat shard @ ascii '' has no member with node id '' @ show_nat node)
       (find (\<lambda>mb. mb_node mb = node) ms)) (\<lambda>self_member.
     obind (port_of (mb_peer self_member)) (\<lambda>peer_port.
     obind (port_of (mb_client self_member)) (\<lambda>client_port.
     omap (\<lambda>others_at.
       \<lparr> sc_shard = shard, sc_node = node, sc_store = dir, sc_secret = secret, sc_tick_ms = tick_ms,
         sc_timing = \<lparr> heartbeat_ticks = heartbeat, timeout_lo = lo, timeout_hi = hi \<rparr>,
         sc_peer_port = peer_port, sc_client_port = client_port, sc_peers = others_at \<rparr>)
       (resolve_peers resolve node ms []))))))))))))))"

text \<open>The member that \<^verbatim>\<open>raft_net::spawn\<close> starts from the configuration, the files of the store directory and the state directory.\<close>

definition run_serve ::
  "(bytes \<Rightarrow> 'addr option) \<Rightarrow> process_env \<Rightarrow> nat \<Rightarrow> nat \<Rightarrow> (bytes \<Rightarrow> store_files option) \<Rightarrow> (bytes \<Rightarrow> state_dir) \<Rightarrow> raft_node tool" where
  "run_serve resolve vars os rnd files state =
     obind (serve_plan resolve vars) (\<lambda>c.
     telling OfStore (spawn os (sc_timing c) rnd (sc_node c) (map fst (sc_peers c)) (files (sc_store c)) (state (sc_store c))))"

section \<open>Proposing\<close>

fun propose_args :: "bytes list \<Rightarrow> bytes option \<Rightarrow> bytes option \<Rightarrow> (bytes option \<times> bytes option) tool" where
  "propose_args [] name status = Ok (name, status)"
| "propose_args (a # args) name status =
     (let v = get_opt args 0; rest = drop 1 args in
      if a = ascii ''--name'' then propose_args rest v status
      else if a = ascii ''--status'' then propose_args rest name v
      else Err (Note (ascii ''propose: unknown argument'')))"

text \<open>The client of a process: its way to a member, and the map it reads.\<close>

type_synonym 'addr remote = "'addr \<Rightarrow> log_record \<Rightarrow> nat option"

definition node_client :: "'addr remote \<Rightarrow> (shard_table \<Rightarrow> shard_table) \<Rightarrow> (bytes \<Rightarrow> 'addr option) \<Rightarrow> process_env \<Rightarrow> 'addr web_client tool" where
  "node_client remote visit resolve vars =
     omap (\<lambda>(n, m). \<lparr> cl_remote = remote, cl_shards = n, cl_map = m \<rparr>)
       (obind (env_var vars ''GEMS_SHARD_MAP'') (build_sharded_client visit resolve))"

definition client_propose :: "'addr web_client \<Rightarrow> log_record \<Rightarrow> nat tool" where
  "client_propose client rec =
     telling ProposeFailed (sharded_propose (cl_remote client) (cl_shards client) (cl_map client) (record_id rec) rec)"

definition proposed_entity :: "tuid \<Rightarrow> bytes \<Rightarrow> bytes option \<Rightarrow> log_record" where
  "proposed_entity i name status =
     Insert \<lparr> hdr_id = i, created_by = replicate 16 0, modified_by = replicate 16 0, modified_at_ns = 0, hdr_name = name,
              description = [], hdr_flags = 0, hdr_kind = Data, schema_ref = NIL, body_offset = 0, body_len = 0 \<rparr>
       (builder_finish (case status of Some v \<Rightarrow> builder_push 1 Str v builder_new | None \<Rightarrow> builder_new))"

definition run_propose :: "'addr web_client tool \<Rightarrow> tuid \<Rightarrow> bytes list \<Rightarrow> bytes list tool" where
  "run_propose connect i args =
     obind (propose_args args None None) (\<lambda>(name, status).
     obind (required (ascii ''propose: --name <name> is required'') name) (\<lambda>name.
     obind connect (\<lambda>client.
     obind (telling (\<lambda>_. Note []) (shard_of (cl_shards client) i)) (\<lambda>shard.
     omap (\<lambda>index. [ascii ''id:    '' @ to_hex_string i, ascii ''shard: '' @ show_nat shard, ascii ''index: '' @ show_nat index])
       (client_propose client (proposed_entity i name status))))))"

section \<open>Installing\<close>

fun install_args :: "bytes list \<Rightarrow> bytes \<Rightarrow> bytes tool" where
  "install_args [] admin_name = Ok admin_name"
| "install_args (a # args) admin_name =
     (if a = ascii ''--admin-name'' then
        (case args of [] \<Rightarrow> Err (Note (ascii ''--admin-name needs a value'')) | v # args \<Rightarrow> install_args args v)
      else Err (Note (ascii ''install: unknown argument'')))"

text \<open>The loop over the entities of the seed, with what was sent.\<close>

primrec propose_all :: "'addr web_client \<Rightarrow> log_record list \<Rightarrow> unit tool \<times> log_record list" where
  "propose_all client [] = (Ok (), [])"
| "propose_all client (rec # recs) =
     (case client_propose client rec of
        Ok _ \<Rightarrow> (case propose_all client recs of (r, sent) \<Rightarrow> (r, rec # sent))
      | Err e \<Rightarrow> (Err e, [rec])
      | Panic \<Rightarrow> (Panic, [rec]))"

definition install_plan :: "process_env \<Rightarrow> 'addr web_client tool \<Rightarrow> (nat \<Rightarrow> tuid) \<Rightarrow> bytes list \<Rightarrow> (bytes \<times> 'addr web_client \<times> bootstrap_data) tool" where
  "install_plan vars connect ids args =
     obind (install_args args (ascii ''admin'')) (\<lambda>admin_name.
     obind (env_secret vars ''GEMS_WEBUI_SECRET'') (\<lambda>secret.
     omap (\<lambda>client. (secret, client, bootstrap ids admin_name)) connect))"

definition run_install :: "process_env \<Rightarrow> 'addr web_client tool \<Rightarrow> (nat \<Rightarrow> tuid) \<Rightarrow> bytes list \<Rightarrow> bytes list tool \<times> log_record list" where
  "run_install vars connect ids args =
     (case install_plan vars connect ids args of
        Ok (secret, client, seed) \<Rightarrow>
          (case propose_all client (map (\<lambda>(h, b). Insert h b) (seed_entities seed)) of (r, sent) \<Rightarrow>
            (obind r (\<lambda>_.
               omap (\<lambda>token.
                 [ascii ''admin_subject_id:   '' @ to_hex_string (admin_subject_id seed),
                  ascii ''admin_role_id:      '' @ to_hex_string (admin_role_id seed),
                  ascii ''analyst_role_id:    '' @ to_hex_string (analyst_role_id seed),
                  ascii ''consumer_role_id:   '' @ to_hex_string (consumer_role_id seed),
                  ascii ''admin_token:        '' @ token])
                 (telling (\<lambda>_. Note [])
                   (issue secret \<lparr> ctx_subject = admin_subject_id seed, ctx_roles = [admin_role_id seed] \<rparr> None))), sent))
      | Err m \<Rightarrow> (Err m, [])
      | Panic \<Rightarrow> (Panic, []))"

section \<open>What the readers of the map make of it\<close>

definition lists_entries :: "(shard_table \<Rightarrow> shard_table) \<Rightarrow> bool" where
  "lists_entries visit \<longleftrightarrow> (\<forall>t. distinct t \<longrightarrow> distinct (visit t) \<and> set (visit t) = set t)"

primrec numbers :: "json list \<Rightarrow> nat list tool" where
  "numbers [] = Ok []"
| "numbers (e # es) = obind (shard_number e) (\<lambda>n. omap (\<lambda>ns. n # ns) (numbers es))"

text \<open>The shards a map lists, in order, with repetitions.\<close>

definition shard_ids :: "bytes \<Rightarrow> nat list tool" where
  "shard_ids src = obind (obind (map_root src) shard_list) numbers"

lemma update_absent: "k \<notin> fst ` set t \<Longrightarrow> AList.update k v t = t @ [(k, v)]"
  by (induction t) auto

definition entry_reads :: "json \<Rightarrow> nat \<times> shard_member list \<Rightarrow> bool" where
  "entry_reads e p \<longleftrightarrow> shard_number e = Ok (fst p) \<and> obind (member_list e) parse_members = Ok (snd p)"

lemma parse_shards_parts:
  "parse_shards es t = Ok t' \<Longrightarrow> \<exists>ps. numbers es = Ok (map fst ps) \<and> list_all2 entry_reads es ps \<and>
     t' = fold (\<lambda>(k, v). AList.update k v) ps t"
proof (induction es arbitrary: t)
  case (Cons e es)
  then obtain k ms where e: "shard_number e = Ok k" "obind (member_list e) parse_members = Ok ms"
    "parse_shards es (AList.update k ms t) = Ok t'" by (auto simp: obind_eq_Ok)
  from Cons.IH [OF e(3)] obtain ps where "numbers es = Ok (map fst ps)" "list_all2 entry_reads es ps"
    "t' = fold (\<lambda>(k, v). AList.update k v) ps (AList.update k ms t)" by blast
  moreover have "entry_reads e (k, ms)" using e by (simp add: entry_reads_def)
  ultimately show ?case using e(1) by (intro exI [of _ "(k, ms) # ps"]) simp
qed simp

lemma update_keys: "fst ` set (AList.update k v t) = insert k (fst ` set t)"
  by (induction t) auto

lemma table_keys: "fst ` set (fold (\<lambda>(k, v). AList.update k v) ps t) = fst ` set t \<union> fst ` set ps"
proof (induction ps arbitrary: t)
  case (Cons p ps)
  obtain k v where p: "p = (k, v)" by (cases p)
  show ?case using Cons.IH [of "AList.update k v t"] by (simp add: p update_keys)
qed simp

lemma table_distinct: "distinct (map fst t) \<Longrightarrow> distinct (map fst (fold (\<lambda>(k, v). AList.update k v) ps t))"
  by (induction ps arbitrary: t) (auto simp: distinct_update)

lemma table_plain: "distinct (map fst (t @ ps)) \<Longrightarrow> fold (\<lambda>(k, v). AList.update k v) ps t = t @ ps"
proof (induction ps arbitrary: t)
  case (Cons p ps)
  obtain k v where p: "p = (k, v)" by (cases p)
  have "k \<notin> fst ` set t" using Cons.prems by (auto simp: p)
  then show ?case using Cons p by (simp add: update_absent)
qed simp

lemma table_length: "length (fold (\<lambda>(k, v). AList.update k v) ps []) = card (set (map fst ps))"
proof -
  let ?t = "fold (\<lambda>(k, v). AList.update k v) ps []"
  have "card (fst ` set ?t) = length ?t" using distinct_card [OF table_distinct [of "[]" ps]] by simp
  then show ?thesis by (simp add: table_keys)
qed

text \<open>Where the members of a shard are.\<close>

definition located :: "(bytes \<Rightarrow> 'addr option) \<Rightarrow> shard_member list \<Rightarrow> (nat \<times> 'addr) list" where
  "located resolve ms = map (\<lambda>mb. (mb_node mb, the (resolve (mb_client mb)))) ms"

lemma members_after_add: "shard_members (add_member s node addr m) s' = shard_members m s' @ (if s' = s then [(node, addr)] else [])"
  by (auto simp: shard_members_def add_member_def split: option.splits)

lemma add_members_spec:
  "add_members resolve s ms m = Ok m' \<Longrightarrow> (\<forall>mb \<in> set ms. resolve (mb_client mb) \<noteq> None) \<and>
     shard_members m' s' = shard_members m s' @ (if s' = s then located resolve ms else [])"
proof (induction ms arbitrary: m)
  case (Cons mb ms)
  then obtain addr where a: "resolve (mb_client mb) = Some addr" "add_members resolve s ms (add_member s (mb_node mb) addr m) = Ok m'"
    by (auto simp: obind_eq_Ok resolved_def)
  from Cons.IH [OF a(2)] show ?case using a(1) by (auto simp: members_after_add located_def)
qed (simp add: located_def)

lemma add_members_total: "\<forall>mb \<in> set ms. resolve (mb_client mb) \<noteq> None \<Longrightarrow> \<exists>m'. add_members resolve s ms m = Ok m'"
  by (induction ms arbitrary: m) (auto simp: resolved_def required_def)

definition of_shard :: "(bytes \<Rightarrow> 'addr option) \<Rightarrow> nat \<Rightarrow> shard_table \<Rightarrow> (nat \<times> 'addr) list" where
  "of_shard resolve s t = concat (map (\<lambda>p. if fst p = s then located resolve (snd p) else []) t)"

lemma add_shards_spec:
  "add_shards resolve t m = Ok m' \<Longrightarrow> (\<forall>p \<in> set t. \<forall>mb \<in> set (snd p). resolve (mb_client mb) \<noteq> None) \<and>
     shard_members m' s = shard_members m s @ of_shard resolve s t"
proof (induction t arbitrary: m)
  case (Cons p t)
  then obtain m1 where m1: "add_members resolve (fst p) (snd p) m = Ok m1" "add_shards resolve t m1 = Ok m'" by (auto simp: obind_eq_Ok)
  from Cons.IH [OF m1(2)] add_members_spec [OF m1(1), of s] show ?case by (simp add: of_shard_def)
qed (simp add: of_shard_def)

lemma add_shards_total:
  "\<forall>p \<in> set t. \<forall>mb \<in> set (snd p). resolve (mb_client mb) \<noteq> None \<Longrightarrow> \<exists>m'. add_shards resolve t m = Ok m'"
proof (induction t arbitrary: m)
  case (Cons p t)
  obtain m1 where "add_members resolve (fst p) (snd p) m = Ok m1" using add_members_total [of "snd p" resolve "fst p" m] Cons.prems by auto
  then show ?case using Cons.IH [of m1] Cons.prems by simp
qed simp

lemma of_shard_perm:
  assumes "distinct (map fst t)" and "distinct t'" and "set t' = set t"
  shows "of_shard resolve s t' = of_shard resolve s t"
proof -
  have one: "of_shard resolve s u = (case map_of u s of Some ms \<Rightarrow> located resolve ms | None \<Rightarrow> [])" if "distinct (map fst u)" for u
    using that
  proof (induction u)
    case (Cons p u)
    then have "map_of u (fst p) = None" by (simp add: map_of_eq_None_iff)
    then show ?case using Cons by (auto simp: of_shard_def split: if_splits)
  qed (simp add: of_shard_def)
  have "inj_on fst (set t')" using assms(1,3) by (simp add: distinct_map)
  then have d: "distinct (map fst t')" using assms(2) by (simp add: distinct_map)
  have "map_of t' = map_of t" using map_of_inject_set [OF d assms(1)] assms(3) by simp
  then show ?thesis using one [OF d] one [OF assms(1)] by simp
qed

text \<open>What parses as members is read alike by the web server.\<close>

lemma web_members_parsed: "parse_members vs = Ok ms \<Longrightarrow> web_members resolve s vs m = add_members resolve s ms m"
proof (induction vs arbitrary: ms m)
  case (Cons v vs)
  then obtain mb ms' where v: "parse_member v = Ok mb" "parse_members vs = Ok ms'" "ms = mb # ms'" by (auto simp: obind_eq_Ok)
  then have "member_node v = Ok (mb_node mb)" "client_of v = Ok (mb_client mb)" by (auto simp: parse_member_def obind_eq_Ok)
  then show ?case using Cons.IH [OF v(2)] v(3) by simp
qed simp

lemma web_shards_parsed: "list_all2 entry_reads es ps \<Longrightarrow> web_shards resolve es m = add_shards resolve ps m"
proof (induction es arbitrary: ps m)
  case (Cons e es)
  then obtain p ps' where ps: "ps = p # ps'" "entry_reads e p" "list_all2 entry_reads es ps'" by (cases ps) auto
  then obtain vs where "shard_number e = Ok (fst p)" "member_list e = Ok vs" "parse_members vs = Ok (snd p)"
    by (auto simp: entry_reads_def obind_eq_Ok)
  moreover have "web_shards resolve es = add_shards resolve ps'" by (rule ext) (rule Cons.IH [OF ps(3)])
  ultimately show ?case using ps(1) by (simp add: web_members_parsed)
qed simp

lemma propose_same_members:
  "shard_members m' = shard_members m \<Longrightarrow> sharded_propose remote n m' i rec = sharded_propose remote n m i rec"
  by (simp only: sharded_propose_def)

section \<open>What is started\<close>

lemma resolve_peers_spec:
  "resolve_peers resolve node ms t = Ok t' \<Longrightarrow> distinct (map fst t) \<Longrightarrow>
     distinct (map fst t') \<and> fst ` set t' = fst ` set t \<union> (mb_node ` set ms - {node})"
proof (induction ms arbitrary: t)
  case (Cons mb ms)
  show ?case
  proof (cases "mb_node mb = node")
    case False
    with Cons.prems(1) obtain addr where r: "resolve_peers resolve node ms (AList.update (mb_node mb) addr t) = Ok t'"
      by (auto simp: obind_eq_Ok)
    have "distinct (map fst (AList.update (mb_node mb) addr t))" using Cons.prems(2) by (rule distinct_update)
    from Cons.IH [OF r this] show ?thesis using False by (auto simp: update_keys)
  qed (use Cons in simp)
qed simp

lemma serve_plan_reads:
  assumes "serve_plan resolve vars = Ok c"
  obtains src t ms where "vars (ascii ''GEMS_SHARD_MAP'') = Some src" "parse_shard_map src = Ok t" "map_of t (sc_shard c) = Some ms"
    "sc_node c \<in> mb_node ` set ms" "resolve_peers resolve (sc_node c) ms [] = Ok (sc_peers c)"
  using assms by (auto simp: serve_plan_def obind_eq_Ok env_var_def find_Some_iff)

section \<open>The two clients\<close>

text \<open>
  C33: the command of the cluster and the web server agree on where an entity goes exactly where the map lists no shard twice. Both read the
  same text; the router of the first has as many shards as the map lists different ones, the router of the second as
  many as it has entries. Without repetitions the second reads what the first reads, and both send every record to the same
  members in the same order.
\<close>

theorem clients_agree:
  assumes "build_sharded_client visit resolve src = Ok (n, m)" and "lists_entries visit" and "shard_ids src = Ok ids" and "length ids \<le> u32_max"
  shows "n = card (set ids) \<and> (\<forall>n' m'. build_sharded_client_from_env resolve src = Ok (n', m') \<longrightarrow> n' = length ids \<and> (n' = n \<longleftrightarrow> distinct ids)) \<and>
    (distinct ids \<longrightarrow> (\<exists>m'. build_sharded_client_from_env resolve src = Ok (n, m') \<and>
       (\<forall>remote i rec. sharded_propose remote n m' i rec = sharded_propose remote n m i rec)))"
proof -
  obtain es t where es: "obind (map_root src) shard_list = Ok es" "parse_shards es [] = Ok t" "n = as_u32 (length t)"
    "add_shards resolve (visit t) Map.empty = Ok m" "n \<noteq> 0"
    using assms(1) by (auto simp: build_sharded_client_def parse_shard_map_def obind_eq_Ok Let_def split: if_splits)
  obtain ps where ps: "numbers es = Ok (map fst ps)" "list_all2 entry_reads es ps" "t = fold (\<lambda>(k, v). AList.update k v) ps []"
    using parse_shards_parts [OF es(2)] by blast
  have ids: "ids = map fst ps" using assms(3) es(1) ps(1) by (simp add: shard_ids_def)
  have len: "length es = length ids" using ps(2) by (simp add: ids list_all2_lengthD)
  have "card (set ids) \<le> length ids" by (rule card_length)
  then have n: "n = card (set ids)" using es(3) assms(4) by (simp add: ps(3) table_length as_u32_def ids del: set_map)
  have web: "build_sharded_client_from_env resolve src = obind (add_shards resolve ps Map.empty) (\<lambda>m.
      if as_u32 (length ids) = 0 then Err (Note (ascii ''GEMS_SHARD_MAP has no shards'')) else Ok (as_u32 (length ids), m))"
    unfolding build_sharded_client_from_env_def es(1) Let_def len [symmetric] by (simp add: web_shards_parsed [OF ps(2)])
  have whole: "as_u32 (length ids) = length ids" using assms(4) by (simp add: as_u32_def)
  have "\<exists>m'. build_sharded_client_from_env resolve src = Ok (n, m') \<and>
      (\<forall>remote i rec. sharded_propose remote n m' i rec = sharded_propose remote n m i rec)" if d: "distinct ids"
  proof -
    have t: "t = ps" using table_plain [of "[]" ps] d by (simp add: ps(3) ids)
    have "distinct ps" using d by (simp add: ids distinct_map)
    then have v: "distinct (visit ps)" "set (visit ps) = set ps" using assms(2) by (auto simp: lists_entries_def)
    note m = add_shards_spec [OF es(4) [unfolded t]]
    then obtain m' where m': "add_shards resolve ps Map.empty = Ok m'" using add_shards_total [of ps resolve] v(2) by blast
    have "shard_members m' s = shard_members m s" for s
      using m [of s] add_shards_spec [OF m', of s] of_shard_perm [OF _ v, of resolve s] d by (simp add: ids)
    then have same: "shard_members m' = shard_members m" by (rule ext)
    have "length ids = n" using n distinct_card [OF d] by simp
    then have "build_sharded_client_from_env resolve src = Ok (n, m')" using es(5) whole by (simp add: web m')
    then show ?thesis using propose_same_members [OF same] by blast
  qed
  moreover have "n' = length ids" if "build_sharded_client_from_env resolve src = Ok (n', m')" for n' m'
    using that whole by (auto simp: web obind_eq_Ok split: if_splits)
  ultimately show ?thesis using n card_distinct [of ids] distinct_card [of ids] by metis
qed

section \<open>The members of a shard\<close>

text \<open>The members of one shard are started for the first time, each from its own environment and with its own resolver.\<close>

definition started ::
  "(node_id \<Rightarrow> bytes \<Rightarrow> 'addr option) \<Rightarrow> (node_id \<Rightarrow> process_env) \<Rightarrow> nat \<Rightarrow> (node_id \<Rightarrow> nat) \<Rightarrow> (node_id \<Rightarrow> bytes \<Rightarrow> store_files option) \<Rightarrow>
    raft_timing \<Rightarrow> node_id \<Rightarrow> 'addr serve_config \<Rightarrow> raft_node \<Rightarrow> bool" where
  "started resolve vars os rnd files timing i c n \<longleftrightarrow> serve_plan (resolve i) (vars i) = Ok c \<and> sc_node c = i \<and> sc_timing c = timing \<and>
     run_serve (resolve i) (vars i) os (rnd i) (files i) (\<lambda>_. no_state) = Ok n"

lemma one_leader_each_term:
  assumes "shells_reachable os lost timing M ps S" and "membership M ps"
  shows "\<exists>l. {i \<in> M. leads_in (nd_core (sh_nodes S i)) t} \<subseteq> {l}"
proof -
  obtain timeout s where r: "reachable M ps timeout (\<lambda>_. heartbeat_ticks timing) s" and mir: "mirrors M S s"
    using shells_sim [OF assms] by blast
  have "i = j" if "i \<in> M" "j \<in> M" "leads_in (nd_core (sh_nodes S i)) t" "leads_in (nd_core (sh_nodes S j)) t" for i j
    using cluster_inv_one_leader [OF reachable_inv [OF r assms(2)]] mir that by (simp add: leads_in_def mirrors_def)
  then show ?thesis by blast
qed

lemma steps_reachable:
  assumes "(shell_step os lost timing M ps)\<^sup>*\<^sup>* S S'" and "shells_reachable os lost timing M ps S"
  shows "shells_reachable os lost timing M ps S'"
  using assms by (induction rule: rtranclp_induct) (auto intro: shell_steps)

text \<open>
  C5: a deployment is a Raft cluster. Where the members that a map of shards lists for a shard are all started with that map, every member
  counts exactly the others among its peers, each once, so all count the same majority; and whatever they come to
  from there, with crashes and restarts, no term has two leaders.
\<close>

theorem deployment_is_a_cluster:
  assumes "parse_shard_map src = Ok t" and "map_of t shard = Some ms"
    and "\<forall>i \<in> mb_node ` set ms. vars i (ascii ''GEMS_SHARD_MAP'') = Some src \<and> sc_shard (plan i) = shard \<and>
      started resolve vars os rnd files timing i (plan i) (N i)"
  shows "membership (mb_node ` set ms) (\<lambda>i. map fst (sc_peers (plan i))) \<and>
    (\<forall>S. (shell_step os lost timing (mb_node ` set ms) (\<lambda>i. map fst (sc_peers (plan i))))\<^sup>*\<^sup>* \<lparr> sh_nodes = N, sh_net = {} \<rparr> S \<longrightarrow>
       (\<forall>term. \<exists>l. {i \<in> mb_node ` set ms. leads_in (nd_core (sh_nodes S i)) term} \<subseteq> {l}))"
proof -
  let ?M = "mb_node ` set ms" and ?ps = "\<lambda>i. map fst (sc_peers (plan i))"
  have run: "serve_plan (resolve i) (vars i) = Ok (plan i)" "sc_node (plan i) = i" "sc_timing (plan i) = timing" "sc_shard (plan i) = shard"
    "run_serve (resolve i) (vars i) os (rnd i) (files i) (\<lambda>_. no_state) = Ok (N i)" "vars i (ascii ''GEMS_SHARD_MAP'') = Some src"
    if "i \<in> ?M" for i using assms(3) that by (auto simp: started_def)
  have "distinct (?ps i) \<and> set (?ps i) = ?M - {i}" if i: "i \<in> ?M" for i
  proof (rule serve_plan_reads [OF run(1) [OF i]])
    fix src' t' ms'
    assume "vars i (ascii ''GEMS_SHARD_MAP'') = Some src'" "parse_shard_map src' = Ok t'" "map_of t' (sc_shard (plan i)) = Some ms'"
      and peers: "resolve_peers (resolve i) (sc_node (plan i)) ms' [] = Ok (sc_peers (plan i))"
    then have "ms' = ms" using run(4,6) [OF i] assms(1,2) by simp
    then show ?thesis using resolve_peers_spec [OF peers] run(2) [OF i] by simp
  qed
  then have m: "membership ?M ?ps" by (simp add: membership_def)
  have "spawn os timing (rnd i) i (?ps i) (files i (sc_store (plan i))) no_state = Ok (N i)" if "i \<in> ?M" for i
    using run [OF that] by (simp add: run_serve_def)
  then have "shells_reachable os lost timing ?M ?ps \<lparr> sh_nodes = N, sh_net = {} \<rparr>"
    by (intro first_start [where files = "\<lambda>i. files i (sc_store (plan i))"] ballI)
  then show ?thesis using m steps_reachable one_leader_each_term by blast
qed

section \<open>What is installed\<close>

lemma propose_all_Ok:
  "propose_all client recs = (Ok (), sent) \<Longrightarrow> sent = recs \<and> (\<forall>rec \<in> set recs. \<exists>index. client_propose client rec = Ok index)"
proof (induction recs arbitrary: sent)
  case (Cons rec recs)
  then show ?case by (cases "propose_all client recs") (auto split: outcome.splits)
qed simp

text \<open>
  An installation that returns has had every entity of the seed accepted, in order, and the token that it prints verifies, at
  any time, as the administrator it has made.
\<close>

lemma install_complete:
  assumes "run_install vars connect ids args = (Ok printed, sent)" and "\<And>n. wf_tuid (ids n)" and "now \<le> 2 ^ 53"
  shows "\<exists>secret client admin_name token. vars (ascii ''GEMS_WEBUI_SECRET'') = Some secret \<and> connect = Ok client \<and>
    sent = map (\<lambda>(h, b). Insert h b) (seed_entities (bootstrap ids admin_name)) \<and>
    (\<forall>rec \<in> set sent. \<exists>index. client_propose client rec = Ok index) \<and> last printed = ascii ''admin_token:        '' @ token \<and>
    verify secret token now = Ok \<lparr> ctx_subject = ids 3, ctx_roles = [ids 0] \<rparr>"
proof -
  obtain secret client seed where p: "install_plan vars connect ids args = Ok (secret, client, seed)"
    using assms(1) by (auto simp: run_install_def split: outcome.splits)
  then obtain admin_name where seed: "seed = bootstrap ids admin_name" "connect = Ok client" "vars (ascii ''GEMS_WEBUI_SECRET'') = Some secret"
    by (auto simp: install_plan_def obind_eq_Ok env_secret_def env_var_def split: if_splits)
  have who: "admin_subject_id seed = ids 3" "admin_role_id seed = ids 0" by (simp_all add: seed(1) bootstrap_def Let_def)
  obtain q where all: "propose_all client (map (\<lambda>(h, b). Insert h b) (seed_entities seed)) = (q, sent)"
    and q: "q = Ok ()" and more: "\<exists>token. issue secret \<lparr> ctx_subject = ids 3, ctx_roles = [ids 0] \<rparr> None = Ok token \<and>
      last printed = ascii ''admin_token:        '' @ token"
    using assms(1) by (auto simp: run_install_def p who obind_eq_Ok split: prod.splits)
  then obtain token where token: "issue secret \<lparr> ctx_subject = ids 3, ctx_roles = [ids 0] \<rparr> None = Ok token"
    "last printed = ascii ''admin_token:        '' @ token" by blast
  have "verify secret token now = Ok \<lparr> ctx_subject = ids 3, ctx_roles = [ids 0] \<rparr>"
    using issued_verifies [OF _ _ _ token(1), of now] assms(2,3) by (simp add: times_exact_def)
  then show ?thesis using token(2) seed propose_all_Ok [OF all [unfolded q]] by blast
qed

section \<open>Witnesses\<close>

text \<open>Two members of one shard.\<close>

definition number_one :: json where "number_one = JNumber (Signed False (F64 4503599627370496 (- 52)))"
definition number_two :: json where "number_two = JNumber (Signed False (F64 4503599627370496 (- 51)))"

definition listed :: "json \<Rightarrow> json" where
  "listed n = JObject [(ascii ''node'', n), (ascii ''peer'', JString (ascii ''a:1'')), (ascii ''client'', JString (ascii ''a:2''))]"

definition sample_shards :: "json list" where
  "sample_shards = [JObject [(ascii ''shard'', JNumber (Signed False (F64 0 0))), (ascii ''members'', JArray [listed number_one, listed number_two])]]"

definition sample_map :: bytes where
  "sample_map = json_text (JObject [(ascii ''shards'', JArray sample_shards)])"

definition sample_member :: "nat \<Rightarrow> shard_member" where
  "sample_member n = \<lparr> mb_node = n, mb_peer = ascii ''a:1'', mb_client = ascii ''a:2'' \<rparr>"

lemma sample_root: "map_root sample_map = Ok (JObject [(ascii ''shards'', JArray sample_shards)])"
proof -
  have u: "utf8_valid (ascii ''a:1'')" "utf8_valid (ascii ''a:2'')" "utf8_valid (ascii ''node'')" "utf8_valid (ascii ''peer'')"
    "utf8_valid (ascii ''client'')" "utf8_valid (ascii ''shard'')" "utf8_valid (ascii ''members'')" "utf8_valid (ascii ''shards'')" by code_simp+
  then have "json_wf number_ok 64 (JObject [(ascii ''shards'', JArray sample_shards)])"
    by (simp add: sample_shards_def listed_def number_one_def number_two_def number_ok_def f64_ok_def f64_finite_def)
  from json_round [OF this] show ?thesis
    by (simp add: map_root_def sample_map_def sample_shards_def listed_def number_one_def number_two_def plain_number_def)
qed

lemma sample_list: "obind (map_root sample_map) shard_list = Ok sample_shards"
  by (simp add: sample_root shard_list_def json_get_def as_array_def)

lemma sample_entries: "parse_shards sample_shards [] = Ok [(0, [sample_member 1, sample_member 2])]"
  by code_simp

lemma sample_parsed: "parse_shard_map sample_map = Ok [(0, [sample_member 1, sample_member 2])]"
  by (simp add: parse_shard_map_def sample_list sample_entries)

definition sample_vars :: "node_id \<Rightarrow> process_env" where
  "sample_vars i = map_of [(ascii ''GEMS_NODE_ID'', if i = 1 then ascii ''1'' else ascii ''2''), (ascii ''GEMS_SHARD_MAP'', sample_map),
     (ascii ''GEMS_STORE_DIR'', ascii ''/''), (ascii ''GEMS_CLUSTER_SECRET'', ascii ''k'')]"

definition anywhere :: "bytes \<Rightarrow> nat option" where
  "anywhere host_port = Some 0"

definition sample_plan :: "node_id \<Rightarrow> nat serve_config" where
  "sample_plan i = \<lparr> sc_shard = 0, sc_node = i, sc_store = ascii ''/'', sc_secret = ascii ''k'', sc_tick_ms = 200,
     sc_timing = \<lparr> heartbeat_ticks = 3, timeout_lo = 8, timeout_hi = 15 \<rparr>, sc_peer_port = 1, sc_client_port = 2,
     sc_peers = [(if i = 1 then 2 else 1, 0)] \<rparr>"

lemma sample_lookup:
  "map_of [(ascii ''GEMS_NODE_ID'', a), (ascii ''GEMS_SHARD_MAP'', b), (ascii ''GEMS_STORE_DIR'', c), (ascii ''GEMS_CLUSTER_SECRET'', d)] k =
     (if k = ascii ''GEMS_NODE_ID'' then Some a else if k = ascii ''GEMS_SHARD_MAP'' then Some b
      else if k = ascii ''GEMS_STORE_DIR'' then Some c else if k = ascii ''GEMS_CLUSTER_SECRET'' then Some d else None)"
  by simp

lemma sample_vars:
  "sample_vars i (ascii ''GEMS_NODE_ID'') = Some (if i = 1 then ascii ''1'' else ascii ''2'')"
  "sample_vars i (ascii ''GEMS_SHARD_MAP'') = Some sample_map" "sample_vars i (ascii ''GEMS_STORE_DIR'') = Some (ascii ''/'')"
  "sample_vars i (ascii ''GEMS_CLUSTER_SECRET'') = Some (ascii ''k'')" "sample_vars i (ascii ''GEMS_NODE_SHARD'') = None"
  "sample_vars i (ascii ''GEMS_TICK_MS'') = None" "sample_vars i (ascii ''GEMS_HEARTBEAT_TICKS'') = None"
  "sample_vars i (ascii ''GEMS_ELECTION_MIN_TICKS'') = None" "sample_vars i (ascii ''GEMS_ELECTION_MAX_TICKS'') = None"
  by (simp_all add: sample_vars_def ascii_def)

lemma sample_texts:
  "parse_below u32_max (ascii ''1'') = Some 1" "parse_below u32_max (ascii ''2'') = Some 2"
  "port_of (ascii ''a:1'') = Ok 1" "port_of (ascii ''a:2'') = Ok 2" "ascii ''k'' \<noteq> []"
  by code_simp+

lemma sample_served: "i \<in> {1, 2} \<Longrightarrow> serve_plan anywhere (sample_vars i) = Ok (sample_plan i)"
  by (auto simp: serve_plan_def env_var_def env_var_parsed_def env_secret_def sample_vars sample_texts sample_parsed sample_plan_def
    sample_member_def required_def resolved_def anywhere_def)

lemma deployment_is_a_cluster_witness:
  "\<exists>N. (\<forall>i \<in> {1, 2}. started (\<lambda>_. anywhere) sample_vars 4096 (\<lambda>_. 0) (\<lambda>_ _. None) (sc_timing (sample_plan 1)) i (sample_plan i) (N i)) \<and>
     membership {1, 2} (\<lambda>i. map fst (sc_peers (sample_plan i)))"
proof -
  obtain s where s: "store_create 4096 = Ok s" using fresh_store by blast
  define N where "N i = \<lparr> nd_core = raft_restore i (map fst (sc_peers (sample_plan i))) 8 3 0 None [], nd_store = s, nd_dir = no_state \<rparr>" for i
  have st: "started (\<lambda>_. anywhere) sample_vars 4096 (\<lambda>_. 0) (\<lambda>_ _. None) (sc_timing (sample_plan 1)) i (sample_plan i) (N i)"
    if "i \<in> {1, 2}" for i
    using sample_served [OF that] s
    by (simp add: started_def run_serve_def) (simp add: sample_plan_def spawn_def spawn_store_def jitter_def N_def)
  have ids: "mb_node ` set [sample_member 1, sample_member 2] = {1, 2}" by (simp add: sample_member_def)
  have k: "map_of [(0, [sample_member 1, sample_member 2])] 0 = Some [sample_member 1, sample_member 2]" by simp
  have "\<forall>i \<in> mb_node ` set [sample_member 1, sample_member 2]. sample_vars i (ascii ''GEMS_SHARD_MAP'') = Some sample_map \<and>
      sc_shard (sample_plan i) = 0 \<and>
      started (\<lambda>_. anywhere) sample_vars 4096 (\<lambda>_. 0) (\<lambda>_ _. None) (sc_timing (sample_plan 1)) i (sample_plan i) (N i)"
    unfolding ids using st sample_vars(2) by (simp add: sample_plan_def)
  from deployment_is_a_cluster [OF sample_parsed k this] have "membership {1, 2} (\<lambda>i. map fst (sc_peers (sample_plan i)))"
    unfolding ids by (rule conjunct1)
  then show ?thesis using st by (intro exI [of _ N]) blast
qed

lemma clients_agree_witness:
  "\<exists>m m'. build_sharded_client (\<lambda>t. t) anywhere sample_map = Ok (1, m) \<and> build_sharded_client_from_env anywhere sample_map = Ok (1, m')"
proof -
  obtain m where m: "add_shards anywhere [(0, [sample_member 1, sample_member 2])] Map.empty = Ok m"
    by (simp add: resolved_def anywhere_def required_def)
  have b: "build_sharded_client (\<lambda>t. t) anywhere sample_map = Ok (1, m)"
    using m by (simp add: build_sharded_client_def sample_parsed as_u32_def)
  have "numbers sample_shards = Ok [0]" by code_simp
  then have n: "shard_ids sample_map = Ok [0]" by (simp add: shard_ids_def sample_list)
  have "lists_entries (\<lambda>t. t)" by (simp add: lists_entries_def)
  from clients_agree [OF b this n] b show ?thesis by auto
qed

end
