(* ===== verification/Spec2Isabelle.thy ===== *)
theory Spec2Isabelle
  imports Gems_Base64 Gems_Raft_Safety Gems_Gossip_Safety Gems_Abac Gems_Shard Gems_Subscribe
    Gems_Roaring Gems_Storage Gems_Durability Gems_Query_Text Gems_Web_Roles Gems_Replica Gems_Raft_Node Gems_Mcp Gems_Cli
    Gems_Deploy
begin

text \<open>
  A verification development for the gems entity store, a Rust workspace of an embedded store of
  entities, the cluster that replicates it and the servers in front of it. Everything is translated from the
  crates under \<^verbatim>\<open>src/crates/\<close>; paths below are relative to it.

  \<^bold>\<open>The program.\<close> An entity is a fixed-size header and a body. A store (\<^verbatim>\<open>gems-engine\<close>) keeps entities in the slots of an
  extent file (\<^verbatim>\<open>gems-storage\<close>), finds them through three copy-on-write B-trees (\<^verbatim>\<open>gems-index\<close>), numbers them with
  ordinals, and answers queries (\<^verbatim>\<open>gems-query\<close>) with bitmaps of ordinals (\<^verbatim>\<open>gems-bitmap\<close>) and secondary indexes it
  rebuilds at each start. Reads on behalf of a subject pass the policies stored as entities (\<^verbatim>\<open>gems-abac\<close>), and a subject
  is who a signed token says (\<^verbatim>\<open>token.rs\<close>). A store changes by log records alone; those come out of a raft group
  (\<^verbatim>\<open>gems-cluster\<close>: \<^verbatim>\<open>raft.rs\<close> is the core, \<^verbatim>\<open>raft_net.rs\<close> the member around it), or, in the older scheme, from a primary that
  ships its log (\<^verbatim>\<open>primary.rs\<close>, \<^verbatim>\<open>server.rs\<close>, \<^verbatim>\<open>replica.rs\<close>). Shards are such groups, and the members of the
  cluster watch each other by SWIM gossip (\<^verbatim>\<open>gossip.rs\<close>). The web server (\<^verbatim>\<open>gems-webui\<close>) opens a store for reading in
  each request and proposes writes to the cluster; the protocol server (\<^verbatim>\<open>gems-mcp\<close>) only reads. Subscribers
  (\<^verbatim>\<open>gems-subscribe\<close>) follow a log.

  \<^bold>\<open>How it is modelled.\<close> A function that returns \<open>Result\<close> and may panic is a function into \<open>outcome\<close> (\<open>Ok\<close>, \<open>Err\<close>, \<open>Panic\<close>);
  \<open>obind\<close> is the operator \<^verbatim>\<open>?\<close>. A structure is a record, an enumeration a datatype, a method on \<^verbatim>\<open>&mut self\<close> returns the record
  updated. Bytes are 8-bit words and buffers lists of them; the 32-bit arithmetic of the hashes and of the bitmaps is on words, other
  unsigned integers are natural numbers with the wrap-around or the overflow panic written out where the code can reach it. A hash map
  that is iterated has the order of iteration as a parameter. Parameters are also: what the system does (the size of a page, the
  clock, random identifiers, the directories of stores, what each read of a socket returns), the Unicode classes of the characters
  outside ASCII, and the texts by which other crates display their errors. All operations are executable.

  \<^bold>\<open>Theories.\<close> Each opens with what it holds.

  \<^item> Shared: \<open>Gems_Prelude\<close> (outcomes, integers as bytes, slices, the locale \<open>framed_codec\<close>), \<open>Gems_Cursor\<close> (the reading cursor and
    \<open>field_codec\<close>), \<open>Gems_Sorted_Map\<close> (ordered maps of the standard library, \<open>sorted_map\<close>), \<open>Gems_Text\<close>, \<open>Gems_Chars\<close>, \<open>Gems_Strings\<close>
    (UTF-8 and string operations).
  \<^item> \<^verbatim>\<open>gems-common\<close>: \<open>Gems_Hash\<close> (CRC-32C, SHA-256, HMAC, field identifiers), \<open>Gems_Base64\<close>, \<open>Gems_Tuid\<close>.
  \<^item> \<^verbatim>\<open>gems-catalog\<close> and \<^verbatim>\<open>gems-codec\<close>: \<open>Gems_Header\<close>, \<open>Gems_Fields\<close> and \<open>Gems_Bodies\<close> (the bodies of each kind), \<open>Gems_Gbv\<close> (directories of
    fields), \<open>Gems_Bootstrap\<close> (roles, policies and the administrator of a new store). Encoding and decoding are shown to be inverse, field by field
    through the interpretations of \<open>field_codec\<close>, and no decoder panics.
  \<^item> \<^verbatim>\<open>gems-storage\<close>: \<open>Gems_Extent\<close>, \<open>Gems_Mapped_File\<close> (a file seen through a mapping, with what is durable of it), \<open>Gems_Storage\<close> (the
    manager refines a heap of slots, the locale \<open>slot_store\<close>).
  \<^item> \<^verbatim>\<open>gems-index\<close>: \<open>Gems_Pager\<close> (\<open>page_store\<close>), \<open>Gems_Node\<close> (\<open>lawful_codec\<close>, \<open>node_codec\<close>), \<open>Gems_BTree\<close>, \<open>Gems_BTree_Correct\<close>, \<open>Gems_Index\<close> (\<open>ordered_index\<close>,
    interpreted for the three trees of the engine), \<open>Gems_Durability\<close> (publication of the root, and what a crash leaves).
  \<^item> \<^verbatim>\<open>gems-bitmap\<close>: \<open>Gems_Bitmap\<close> (containers), \<open>Gems_Roaring\<close>; both interpret \<open>set_algebra\<close>.
  \<^item> \<^verbatim>\<open>gems-query\<close>: \<open>Gems_Query_Ast\<close>, \<open>Gems_Lexer\<close>, \<open>Gems_Parser\<close>; \<open>Gems_Grammar\<close> is the documented grammar as an inductive
    relation, \<open>Gems_Grammar_Complete\<close>, \<open>Gems_Parser_Total\<close>, \<open>Gems_Lexer_Correct\<close>, \<open>Gems_Query_Text\<close> show that the parser accepts exactly it.
  \<^item> \<^verbatim>\<open>gems-json\<close>: \<open>Gems_Json\<close>; \<open>Gems_Float\<close>, \<open>Gems_Json_Number\<close>, \<open>Gems_Json_Total\<close>, \<open>Gems_Json_Text\<close> show that it returns on every string and
    reads back what it writes, numbers included.
  \<^item> \<^verbatim>\<open>gems-engine\<close>: \<open>Gems_Secondary\<close> (\<open>postings\<close>), \<open>Gems_Engine\<close> (every operation), \<open>Gems_Store\<close> (the invariant \<open>store_rep\<close> that ties a store to
    its map of entities, ordinals and names), \<open>Gems_Store_Open\<close>, \<open>Gems_Store_Query\<close>, \<open>Gems_Store_Facts\<close>, \<open>Gems_Read_Only\<close>.
  \<^item> \<^verbatim>\<open>gems-abac\<close>: \<open>Gems_Abac\<close> (decision and enforcement), \<open>Gems_Token\<close>.
  \<^item> \<^verbatim>\<open>gems-subscribe\<close>: \<open>Gems_Subscribe\<close>.
  \<^item> \<^verbatim>\<open>gems-cluster\<close>: \<open>Gems_Record\<close> (log records and streams of them), \<open>Gems_Auth_Frame\<close> (\<open>payload_codec\<close>), \<open>Gems_Raft\<close> and \<open>Gems_Raft_Wire\<close>;
    \<open>Gems_Raft_Cluster\<close> is the relation of a cluster of cores with its invariant, \<open>Gems_Raft_Facts\<close>, \<open>Gems_Raft_Runs\<close>, \<open>Gems_Raft_Safety\<close> what follows
    and what does not; \<open>Gems_Raft_Node\<close> the running member with its state file and store, which refines the relation;
    \<open>Gems_Gossip\<close>, \<open>Gems_Gossip_Wire\<close>, \<open>Gems_Gossip_Safety\<close>; \<open>Gems_Shard\<close>; \<open>Gems_Replica\<close> (log shipping);
    \<open>Gems_Deploy\<close> (processes and clients from their environment, and that the members so started are a cluster of the relation).
  \<^item> \<^verbatim>\<open>gems-webui\<close>: \<open>Gems_Http\<close>, \<open>Gems_Web_Api\<close>, \<open>Gems_Web_Write\<close>, \<open>Gems_Web\<close>, \<open>Gems_Web_Roles\<close>, from the bytes of a connection to those of the
    response. \<^verbatim>\<open>gems-mcp\<close>: \<open>Gems_Mcp\<close>. \<^verbatim>\<open>gems-cli\<close>: \<open>Gems_Cli\<close>.

  \<^bold>\<open>What is shown.\<close> Layer by layer, that the code refines what it promises: the slots are a heap, a tree and a store are maps, a
  bitmap is a set, the planner answers queries as a specification over the map does, views are what a scan would
  give, a replica ends with the map of its primary, and a member of a raft group holds in its store what the committed log comes to
  over what the store held when the member was started, of which nothing is left as soon as its commit index is back. Across layers,
  that queries, lookups and listings through either server hand out what the stored policies permit and nothing else, except for the
  listings of entity types, which are not filtered, and that a write through a server with authentication needs a role. For the
  protocols, invariants over every reachable state (one leader for each term, matching logs, beliefs that only move forward), a suspected
  member that dies in spite of all traffic that is not newer word of it, and atomicity of the saved state under crashes; and that a shard whose members are started from one map is such a group. Where the code does not keep a promise, the theorem is the counterexample in a reachable state: a
  committed entry can be replaced, a replayed vote makes two leaders, the pages of an index are never made durable, a torn
  append is misread by replicas, an analyst can reach every entity.

  \<^bold>\<open>Bounds and fuel.\<close> The parser of queries runs with \<open>parse_fuel\<close>, four units for each token and four more, the one of JSON with \<open>json_fuel\<close>, three
  for each character and three more; both are shown never to be used up. The recursion of the B-tree has one unit for each page of the
  file, which a proper tree does not use up. Running out counts as a panic, so theorems that exclude panics include that the
  fuel is enough. Requests are read up to \<open>REQUEST_BOUND\<close> bytes, and lines of the protocol server up to \<open>MAX_REQUEST_LEN\<close>. The
  refinement of the raft members is for runs whose terms and logs stay within the widths of the state file. Theorems about extent files
  assume \<open>no_drift\<close>, that the file has not grown to the size at which the rounding to pages adds up to an extent.

  \<^bold>\<open>Not modelled.\<close> Sockets, threads, sleeping and signals; locking a store directory; unmapping; the device of random numbers and the
  logging: these are calls to the system, with nothing the kernel could check but the call. The terminal interface (\<^verbatim>\<open>gems-tui\<close>)
  decodes keys and prints what the modelled operations return. The shell of SWIM (\<^verbatim>\<open>swim_net.rs\<close>) is
  the sockets and the timer around a modelled core.
\<close>

section \<open>Properties that span components\<close>

text \<open>
  No decoder panics. On any bytes at all, from disk or from the network, every decoder of
  the catalog, the log, the body format, the peer protocols and the persisted raft state returns
  a value or an error.
\<close>

lemma decoders_total:
  "header_decode buf \<noteq> Panic \<and> record_decode buf \<noteq> Panic \<and> reader_new buf \<noteq> Panic \<and>
   layer_decode buf \<noteq> Panic \<and> link_decode buf \<noteq> Panic \<and> policy_decode buf \<noteq> Panic \<and>
   subject_decode buf \<noteq> Panic \<and> entity_type_decode buf \<noteq> Panic \<and> attribute_decode buf \<noteq> Panic \<and>
   raft_decode buf secret \<noteq> Panic \<and> swim_decode buf secret \<noteq> Panic \<and> state_decode buf \<noteq> Panic"
  by (simp add: header_decode_no_panic record_decode_no_panic reader_new_no_panic layer_decode_no_panic
      link_decode_no_panic policy_decode_no_panic subject_decode_no_panic entity_type_decode_no_panic
      attribute_decode_no_panic raft_decode_no_panic swim_decode_no_panic state_decode_no_panic)

text \<open>
  Only authenticated peer messages are accepted. What either peer protocol decodes came as
  a frame that carries the HMAC-SHA256 of its payload under the cluster's secret.
\<close>

lemma accepted_frames_authentic:
  "(raft_decode buf secret = Ok (Some (e, n)) \<longrightarrow>
     (\<exists>payload. take n buf = le_bytes 4 (length payload) @ payload @ hmac_sha256 secret payload \<and>
        read_envelope payload = Ok e)) \<and>
   (swim_decode buf secret = Ok (Some (m, n)) \<longrightarrow>
     (\<exists>payload. take n buf = le_bytes 4 (length payload) @ payload @ hmac_sha256 secret payload \<and>
        read_swim_envelope payload = Ok m))"
proof (intro conjI impI)
  show "\<exists>payload. take n buf = le_bytes 4 (length payload) @ payload @ hmac_sha256 secret payload \<and>
      read_envelope payload = Ok e" if "raft_decode buf secret = Ok (Some (e, n))"
    using auth_open_authentic [OF that [unfolded raft_decode_def]] unfolding auth_frame_def by blast
  show "\<exists>payload. take n buf = le_bytes 4 (length payload) @ payload @ hmac_sha256 secret payload \<and>
      read_swim_envelope payload = Ok m" if "swim_decode buf secret = Ok (Some (m, n))"
    using auth_open_authentic [OF that [unfolded swim_decode_def]] unfolding auth_frame_def by blast
qed

text \<open>
  The text encodings are lossless. Base64url of any bytes decodes to them, and the
  hexadecimal form of an identifier parses to it.
\<close>

lemma text_encodings:
  "b64_decode (b64_encode bs) = Ok bs \<and>
   (wf_tuid t \<longrightarrow> from_hex_str (to_hex_string t) = Ok (Some t))"
  by (simp add: b64_decode_encode from_hex_to_hex)

end
